(* ===== verification/Prelude.thy ===== *)
theory Prelude
  imports Main "HOL-Library.Word"
begin

text \<open>
  Shared ground of the development: the program type (a state-passing computation that
  returns a value or stops with an error, keeping the state it had reached, as a C++
  exception does), the collections of rewrite rules the components add to, decimal
  printing of integers as \<open>std::to_string\<close> does it, and generic facts on lists and maps.
\<close>

section \<open>Collections\<close>

named_theorems prog_simps "one-step execution of programs"
named_theorems wf_intros "preservation of the invariants"

section \<open>Programs\<close>

type_synonym byte = "8 word"

type_synonym ('s, 'e, 'a) prog = "'s \<Rightarrow> ('e + 'a) \<times> 's"

definition ret :: "'a \<Rightarrow> ('s, 'e, 'a) prog" where
  "ret x = (\<lambda>s. (Inr x, s))"

definition throw :: "'e \<Rightarrow> ('s, 'e, 'a) prog" where
  "throw e = (\<lambda>s. (Inl e, s))"

definition andThen :: "('s, 'e, 'a) prog \<Rightarrow> ('a \<Rightarrow> ('s, 'e, 'b) prog) \<Rightarrow> ('s, 'e, 'b) prog" where
  "andThen m f = (\<lambda>s. case m s of (Inl e, s') \<Rightarrow> (Inl e, s') | (Inr x, s') \<Rightarrow> f x s')"

definition gets :: "('s \<Rightarrow> 'a) \<Rightarrow> ('s, 'e, 'a) prog" where
  "gets f = (\<lambda>s. (Inr (f s), s))"

definition modify :: "('s \<Rightarrow> 's) \<Rightarrow> ('s, 'e, unit) prog" where
  "modify f = (\<lambda>s. (Inr (), f s))"

definition ensure :: "bool \<Rightarrow> 'e \<Rightarrow> ('s, 'e, unit) prog" where
  "ensure b e = (if b then ret () else throw e)"

definition whenP :: "bool \<Rightarrow> ('s, 'e, unit) prog \<Rightarrow> ('s, 'e, unit) prog" where
  "whenP b m = (if b then m else ret ())"

fun forEach :: "'a list \<Rightarrow> ('a \<Rightarrow> ('s, 'e, unit) prog) \<Rightarrow> ('s, 'e, unit) prog" where
  "forEach [] f = ret ()"
| "forEach (x # xs) f = andThen (f x) (\<lambda>_. forEach xs f)"

lemma ret_run [simp, prog_simps]: "ret x s = (Inr x, s)"
  by (simp add: ret_def)

lemma throw_run [simp, prog_simps]: "throw e s = (Inl e, s)"
  by (simp add: throw_def)

lemma gets_run [simp, prog_simps]: "gets f s = (Inr (f s), s)"
  by (simp add: gets_def)

lemma modify_run [simp, prog_simps]: "modify f s = (Inr (), f s)"
  by (simp add: modify_def)

lemma andThen_run:
  "andThen m f s = (case m s of (Inl e, s') \<Rightarrow> (Inl e, s') | (Inr x, s') \<Rightarrow> f x s')"
  by (simp add: andThen_def)

lemma andThen_ok [simp, prog_simps]: "m s = (Inr x, t) \<Longrightarrow> andThen m f s = f x t"
  by (simp add: andThen_run)

lemma andThen_fail [simp, prog_simps]: "m s = (Inl e, t) \<Longrightarrow> andThen m f s = (Inl e, t)"
  by (simp add: andThen_run)

lemma andThen_gets [simp, prog_simps]: "andThen (gets g) f s = f (g s) s"
  by (simp add: andThen_run)

lemma andThen_modify [simp, prog_simps]: "andThen (modify g) f s = f () (g s)"
  by (simp add: andThen_run)

lemma andThen_ret [simp, prog_simps]: "andThen (ret x) f s = f x s"
  by (simp add: andThen_run)

lemma andThen_throw [simp, prog_simps]: "andThen (throw e) f s = (Inl e, s)"
  by (simp add: andThen_run)

lemma andThen_assoc: "andThen (andThen m f) g = andThen m (\<lambda>x. andThen (f x) g)"
  by (rule ext) (simp add: andThen_run split: prod.split sum.split)

lemma ensure_True [simp, prog_simps]: "b \<Longrightarrow> ensure b e s = (Inr (), s)"
  by (simp add: ensure_def)

lemma ensure_False [simp, prog_simps]: "\<not> b \<Longrightarrow> ensure b e s = (Inl e, s)"
  by (simp add: ensure_def)

lemma whenP_True [simp, prog_simps]: "b \<Longrightarrow> whenP b m s = m s"
  by (simp add: whenP_def)

lemma whenP_False [simp, prog_simps]: "\<not> b \<Longrightarrow> whenP b m s = (Inr (), s)"
  by (simp add: whenP_def)

lemma andThen_Inr_iff:
  "andThen m f s = (Inr y, t) \<longleftrightarrow> (\<exists>x u. m s = (Inr x, u) \<and> f x u = (Inr y, t))"
  by (auto simp: andThen_run split: prod.splits sum.splits)

text \<open>A loop over a list keeps what each of its steps keeps.\<close>

lemma forEach_invariant:
  assumes "\<And>x s. x \<in> set xs \<Longrightarrow> P s \<Longrightarrow> \<exists>t. f x s = (Inr (), t) \<and> P t"
    and "P s"
  shows "\<exists>t. forEach xs f s = (Inr (), t) \<and> P t"
  using assms
proof (induction xs arbitrary: s)
  case Nil
  then show ?case by simp
next
  case (Cons x xs)
  from Cons.prems(1)[of x s] Cons.prems(2) obtain u where u: "f x s = (Inr (), u)" "P u"
    by auto
  with Cons.IH[of u] Cons.prems(1) show ?case by auto
qed

section \<open>C++ integers\<close>

text \<open>
  An \<open>int\<close> of the source has 32 bits; arithmetic that leaves its range is undefined
  behaviour. The model computes in \<open>int\<close> and asks \<open>int_ok\<close> where the source could overflow.
\<close>

definition INT_MAX :: int where
  "INT_MAX = 2147483647"

definition INT_MIN :: int where
  "INT_MIN = -2147483648"

definition int_ok :: "int \<Rightarrow> bool" where
  "int_ok i \<longleftrightarrow> INT_MIN \<le> i \<and> i \<le> INT_MAX"

text \<open>\<open>std::to_string\<close> on integers: decimal digits, a minus sign in front.\<close>

definition digit_char :: "nat \<Rightarrow> char" where
  "digit_char d = char_of (48 + d)"

function nat_to_string :: "nat \<Rightarrow> string" where
  "nat_to_string n = (if n < 10 then [digit_char n]
     else nat_to_string (n div 10) @ [digit_char (n mod 10)])"
  by pat_completeness auto
termination by (relation "measure id") auto

declare nat_to_string.simps [simp del]

definition int_to_string :: "int \<Rightarrow> string" where
  "int_to_string i = (if i < 0 then ''-'' @ nat_to_string (nat (- i)) else nat_to_string (nat i))"

lemma nat_to_string_not_Nil [simp]: "nat_to_string n \<noteq> []"
  by (subst nat_to_string.simps) simp

section \<open>Lists\<close>

lemma distinct_remove1_last:
  "xs \<noteq> [] \<Longrightarrow> distinct xs \<Longrightarrow> last xs \<notin> set (butlast xs)"
  by (metis append_butlast_last_id distinct_butlast not_distinct_conv_prefix)

lemma set_butlast_distinct:
  "xs \<noteq> [] \<Longrightarrow> distinct xs \<Longrightarrow> set (butlast xs) = set xs - {last xs}"
proof -
  assume "xs \<noteq> []" and d: "distinct xs"
  then have xs: "xs = butlast xs @ [last xs]" by simp
  then have "set xs = insert (last xs) (set (butlast xs))" by (metis Un_insert_right append.right_neutral list.set(2) set_append list.set(1) sup_bot.right_neutral)
  with distinct_remove1_last[OF \<open>xs \<noteq> []\<close> d] show ?thesis by auto
qed

lemma take_drop_nth_eqI:
  assumes "length xs = length ys" "\<And>i. i < length xs \<Longrightarrow> xs ! i = ys ! i"
  shows "xs = ys"
  using assms by (rule nth_equalityI)

end
