(* ===== verification/DbDefs.thy ===== *)
theory DbDefs
  imports Prelude
begin

text \<open>
  The definitions every component shares: \<open>error.h\<close> (one constructor per exception class,
  with the text \<open>what()\<close> returns) and \<open>db_defs.h\<close> (\<open>RecordID\<close>, \<open>ColumnType\<close>). A run of
  the source stops in one of six ways besides returning: it throws one of these
  exceptions or \<open>std::out_of_range\<close>, an \<open>assert\<close> fails, it waits on a semaphore that nobody will release, its
  behaviour is undefined, or a loop does not end; \<open>stop\<close> is that outcome.
\<close>

section \<open>error.h\<close>

datatype db_error =
    InternalError string
  | UnixError
  | FileNotOpenError int
  | FileNotClosedError string
  | FileExistsError string
  | FileNotFoundError string
  | RecordNotFoundError int int
  | InvalidRecordSizeError int
  | InvalidColLengthError int
  | IndexEntryNotFoundError
  | DatabaseNotFoundError string
  | DatabaseExistsError string
  | TableNotFoundError string
  | TableExistsError string
  | ColumnNotFoundError string
  | IndexNotFoundError string string
  | IndexExistsError string string
  | InvalidValueCountError
  | StringOverflowError
  | IncompatibleTypeError string string
  | AmbiguousColumnError string

text \<open>\<open>strerr\<close> stands for \<open>strerror(errno)\<close>, which the C library supplies.\<close>

fun error_text :: "string \<Rightarrow> db_error \<Rightarrow> string" where
  "error_text strerr (InternalError msg) = msg"
| "error_text strerr UnixError = strerr"
| "error_text strerr (FileNotOpenError fd) = ''Invalid file descriptor: '' @ int_to_string fd"
| "error_text strerr (FileNotClosedError f) = ''File is opened: '' @ f"
| "error_text strerr (FileExistsError f) = ''File already exists: '' @ f"
| "error_text strerr (FileNotFoundError f) = ''File not found: '' @ f"
| "error_text strerr (RecordNotFoundError p n) =
     ''Record not found: ('' @ int_to_string p @ '','' @ int_to_string n @ '')''"
| "error_text strerr (InvalidRecordSizeError n) = ''Invalid record size: '' @ int_to_string n"
| "error_text strerr (InvalidColLengthError n) = ''Invalid column length: '' @ int_to_string n"
| "error_text strerr IndexEntryNotFoundError = ''Index entry not found''"
| "error_text strerr (DatabaseNotFoundError d) = ''Database not found: '' @ d"
| "error_text strerr (DatabaseExistsError d) = ''Database already exists: '' @ d"
| "error_text strerr (TableNotFoundError t) = ''Table not found: '' @ t"
| "error_text strerr (TableExistsError t) = ''Table already exists: '' @ t"
| "error_text strerr (ColumnNotFoundError c) = ''Column not found: '' @ c"
| "error_text strerr (IndexNotFoundError t c) = ''Index not found: '' @ t @ ''.'' @ c"
| "error_text strerr (IndexExistsError t c) = ''Index already exists: '' @ t @ ''.'' @ c"
| "error_text strerr InvalidValueCountError = ''Invalid value count''"
| "error_text strerr StringOverflowError = ''String is too long''"
| "error_text strerr (IncompatibleTypeError l r) =
     ''Incompatible type error: lhs '' @ l @ '', rhs '' @ r"
| "error_text strerr (AmbiguousColumnError c) = ''Ambiguous column: '' @ c"

definition what :: "string \<Rightarrow> db_error \<Rightarrow> string" where
  "what strerr e = ''Error: '' @ error_text strerr e"

text \<open>
  Why a call does not return: an exception of \<open>error.h\<close>, \<open>std::out_of_range\<close>, the
  \<open>std::bad_array_new_length\<close> of an array with a negative length, a failed assertion, a wait that
  never ends, undefined behaviour, a loop that runs out of fuel.
\<close>

datatype stop = Throw db_error | OutOfRange | BadLength | AssertFail | Blocked | Undefined | NoReturn

section \<open>db_defs.h\<close>

datatype RecordID = RecordID (rid_page: int) (rid_slot: int)

datatype ColumnType = TYPE_INT | TYPE_FLOAT | TYPE_STRING | TYPE_DATETIME

fun ColumnType2str :: "ColumnType \<Rightarrow> string" where
  "ColumnType2str TYPE_INT = ''INT''"
| "ColumnType2str TYPE_FLOAT = ''FLOAT''"
| "ColumnType2str TYPE_STRING = ''STRING''"
| "ColumnType2str TYPE_DATETIME = ''DATETIME''"

text \<open>The integer an enumerator converts to, and back (\<open>operator<<\<close>, \<open>operator>>\<close>).\<close>

fun enum_to_int :: "ColumnType \<Rightarrow> int" where
  "enum_to_int TYPE_INT = 0"
| "enum_to_int TYPE_FLOAT = 1"
| "enum_to_int TYPE_STRING = 2"
| "enum_to_int TYPE_DATETIME = 3"

definition enum_of_int :: "int \<Rightarrow> ColumnType option" where
  "enum_of_int i = (if i = 0 then Some TYPE_INT else if i = 1 then Some TYPE_FLOAT
     else if i = 2 then Some TYPE_STRING else if i = 3 then Some TYPE_DATETIME else None)"

lemma enum_of_int_to_int [simp]: "enum_of_int (enum_to_int t) = Some t"
  by (cases t) (simp_all add: enum_of_int_def)

text \<open>
  Records are compared by page, then slot, when a scan order is stated; the instance
  makes \<open>sorted\<close> and the library's order lemmas available for lists of record ids.
\<close>

instantiation RecordID :: linorder
begin

definition less_eq_RecordID :: "RecordID \<Rightarrow> RecordID \<Rightarrow> bool" where
  "less_eq_RecordID a b \<longleftrightarrow> rid_page a < rid_page b \<or> rid_page a = rid_page b \<and> rid_slot a \<le> rid_slot b"

definition less_RecordID :: "RecordID \<Rightarrow> RecordID \<Rightarrow> bool" where
  "less_RecordID a b \<longleftrightarrow> rid_page a < rid_page b \<or> rid_page a = rid_page b \<and> rid_slot a < rid_slot b"

instance
  by standard (auto simp: less_eq_RecordID_def less_RecordID_def RecordID.expand)

end

end
