(* ===== verification/Bytes.thy ===== *)
theory Bytes
  imports DbDefs
begin

text \<open>
  Memory regions as byte lists, and what the source does to them: \<open>memcpy\<close>, \<open>memmove\<close>,
  \<open>memset\<close>, and reading and writing an \<open>int\<close> through a cast pointer (four bytes, least
  significant first, as on the x86 targets the program is built for). A pointer into a
  region is an offset; \<open>store\<close> past the end of the region would grow the list, so every
  user proves or checks its bounds.
\<close>

named_theorems layout "loads from a region after stores to it"

definition load :: "byte list \<Rightarrow> nat \<Rightarrow> nat \<Rightarrow> byte list" where
  "load b off n = take n (drop off b)"

definition store :: "byte list \<Rightarrow> nat \<Rightarrow> byte list \<Rightarrow> byte list" where
  "store b off xs = take off b @ xs @ drop (off + length xs) b"

definition memset :: "byte list \<Rightarrow> nat \<Rightarrow> byte \<Rightarrow> nat \<Rightarrow> byte list" where
  "memset b off v n = store b off (replicate n v)"

definition memmove :: "byte list \<Rightarrow> nat \<Rightarrow> nat \<Rightarrow> nat \<Rightarrow> byte list" where
  "memmove b dst src n = store b dst (load b src n)"

definition int_bytes :: "int \<Rightarrow> byte list" where
  "int_bytes i = [word_of_int i, word_of_int (i div 256), word_of_int (i div 65536),
     word_of_int (i div 16777216)]"

fun bytes_int :: "byte list \<Rightarrow> int" where
  "bytes_int [a, b, c, d] =
     (let u = uint a + 256 * uint b + 65536 * uint c + 16777216 * uint d
      in if u < 2147483648 then u else u - 4294967296)"
| "bytes_int _ = 0"

definition load_int :: "byte list \<Rightarrow> nat \<Rightarrow> int" where
  "load_int b off = bytes_int (load b off 4)"

definition store_int :: "byte list \<Rightarrow> nat \<Rightarrow> int \<Rightarrow> byte list" where
  "store_int b off i = store b off (int_bytes i)"

section \<open>Lengths\<close>

lemma length_int_bytes [simp, layout]: "length (int_bytes i) = 4"
  by (simp add: int_bytes_def)

lemma length_load [layout]: "off + n \<le> length b \<Longrightarrow> length (load b off n) = n"
  by (simp add: load_def)

lemma length_store [layout]: "off + length xs \<le> length b \<Longrightarrow> length (store b off xs) = length b"
  by (simp add: store_def)

lemma length_memset [layout]: "off + n \<le> length b \<Longrightarrow> length (memset b off v n) = length b"
  by (simp add: memset_def length_store)

lemma length_memmove [layout]:
  "dst + n \<le> length b \<Longrightarrow> src + n \<le> length b \<Longrightarrow> length (memmove b dst src n) = length b"
  by (simp add: memmove_def length_store length_load)

lemma length_store_int [layout]: "off + 4 \<le> length b \<Longrightarrow> length (store_int b off i) = length b"
  by (simp add: store_int_def length_store)

section \<open>Single bytes\<close>

lemma nth_load: "i < n \<Longrightarrow> off + n \<le> length b \<Longrightarrow> load b off n ! i = b ! (off + i)"
  by (simp add: load_def)

lemma nth_store:
  "off + length xs \<le> length b \<Longrightarrow> i < length b \<Longrightarrow>
   store b off xs ! i = (if off \<le> i \<and> i < off + length xs then xs ! (i - off) else b ! i)"
  by (auto simp: store_def nth_append min_def)

section \<open>Loads after stores\<close>

lemma load_store_same [layout]: "off \<le> length b \<Longrightarrow> load (store b off xs) off (length xs) = xs"
  by (simp add: load_def store_def)

lemma load_store_same_n [layout]:
  "off \<le> length b \<Longrightarrow> n = length xs \<Longrightarrow> load (store b off xs) off n = xs"
  by (simp add: load_store_same)

lemma load_store_before [layout]:
  assumes "o1 + n \<le> off" and "off \<le> length b"
  shows "load (store b off xs) o1 n = load b o1 n"
proof -
  have "take n (drop o1 (take off b @ xs @ drop (off + length xs) b)) = take n (drop o1 (take off b))"
    using assms by simp
  also have "\<dots> = take n (take (off - o1) (drop o1 b))"
    by (simp add: drop_take)
  also have "\<dots> = take n (drop o1 b)"
    using assms by (simp add: min_def)
  finally show ?thesis by (simp add: load_def store_def)
qed

lemma load_store_after [layout]:
  assumes "off + length xs \<le> o1" and "off + length xs \<le> length b"
  shows "load (store b off xs) o1 n = load b o1 n"
proof -
  have "drop o1 (take off b @ xs @ drop (off + length xs) b) = drop o1 b"
    using assms by (simp add: min_def)
  then show ?thesis by (simp add: load_def store_def)
qed

text \<open>A store inside a loaded range is a store into what is loaded.\<close>

lemma load_store_inside:
  assumes "o1 \<le> off" "off + length xs \<le> o1 + n" "o1 + n \<le> length b"
  shows "load (store b off xs) o1 n = store (load b o1 n) (off - o1) xs"
proof (rule nth_equalityI)
  have ls: "length (store b off xs) = length b"
    using assms by (simp add: length_store)
  have ll: "length (store (load b o1 n) (off - o1) xs) = n"
    using assms by (simp add: length_store length_load)
  show "length (load (store b off xs) o1 n) = length (store (load b o1 n) (off - o1) xs)"
    using assms ls ll by (simp add: length_load)
  fix i
  assume "i < length (load (store b off xs) o1 n)"
  then have i: "i < n"
    using assms ls by (simp add: length_load)
  have l: "load (store b off xs) o1 n ! i = store b off xs ! (o1 + i)"
    using i assms ls by (simp add: nth_load)
  show "load (store b off xs) o1 n ! i = store (load b o1 n) (off - o1) xs ! i"
    unfolding l using i assms by (auto simp: nth_store length_load nth_load add.commute)
qed

lemma store_load_same: "off + n \<le> length b \<Longrightarrow> store b off (load b off n) = b"
  by (simp add: store_def load_def append_take_drop_id add.commute
      flip: drop_drop)

lemma load_whole [simp]: "length b = n \<Longrightarrow> load b 0 n = b"
  by (simp add: load_def)

section \<open>Integers in memory\<close>

lemma mod_step: "(j :: int) mod 256 + 256 * ((j div 256) mod m) = j mod (256 * m)" if "0 \<le> m"
  using zmod_zmult2_eq[OF that, of j 256] by simp

lemma four_digits:
  fixes i :: int
  shows "i mod 256 + 256 * (i div 256 mod 256) + 65536 * (i div 65536 mod 256)
    + 16777216 * (i div 16777216 mod 256) = i mod 4294967296"
proof -
  have d: "i div 256 div 256 = i div 65536" "i div 65536 div 256 = i div 16777216"
    by (simp_all only: zdiv_zmult2_eq [symmetric]) simp_all
  have "i mod 256 + 256 * (i div 256 mod 16777216) = i mod 4294967296"
    using mod_step[of 16777216 i] by simp
  moreover have "i div 256 mod 256 + 256 * (i div 65536 mod 65536) = i div 256 mod 16777216"
    using mod_step[of 65536 "i div 256"] unfolding d by simp
  moreover have "i div 65536 mod 256 + 256 * (i div 16777216 mod 256) = i div 65536 mod 65536"
    using mod_step[of 256 "i div 65536"] unfolding d by simp
  ultimately show ?thesis by linarith
qed

lemma bytes_int_bytes [simp]:
  assumes "int_ok i"
  shows "bytes_int (int_bytes i) = i"
proof -
  have "bytes_int (int_bytes i) =
    (let u = i mod 4294967296 in if u < 2147483648 then u else u - 4294967296)"
    by (simp add: int_bytes_def four_digits uint_word_of_int)
  also have "\<dots> = i"
  proof (cases "0 \<le> i")
    case True
    then have "i mod 4294967296 = i"
      using assms by (simp add: int_ok_def INT_MAX_def)
    then show ?thesis using assms by (simp add: int_ok_def INT_MAX_def)
  next
    case False
    have "i mod 4294967296 = (i + 4294967296) mod 4294967296" by simp
    also have "\<dots> = i + 4294967296"
      using False assms by (intro mod_pos_pos_trivial) (auto simp: int_ok_def INT_MIN_def)
    finally show ?thesis
      using False assms by (simp add: int_ok_def INT_MIN_def)
  qed
  finally show ?thesis .
qed

lemma load_store_int_same [layout]:
  "off \<le> length b \<Longrightarrow> int_ok i \<Longrightarrow> load_int (store_int b off i) off = i"
  by (simp add: load_int_def store_int_def load_store_same_n)

lemma load_int_store_before [layout]:
  "o1 + 4 \<le> off \<Longrightarrow> off \<le> length b \<Longrightarrow> load_int (store b off xs) o1 = load_int b o1"
  by (simp add: load_int_def load_store_before)

lemma load_int_store_after [layout]:
  "off + length xs \<le> o1 \<Longrightarrow> off + length xs \<le> length b \<Longrightarrow>
   load_int (store b off xs) o1 = load_int b o1"
  by (simp add: load_int_def load_store_after)

lemma load_store_int_before [layout]:
  "o1 + n \<le> off \<Longrightarrow> off \<le> length b \<Longrightarrow> load (store_int b off i) o1 n = load b o1 n"
  by (simp add: store_int_def load_store_before)

lemma load_store_int_after [layout]:
  "off + 4 \<le> o1 \<Longrightarrow> off + 4 \<le> length b \<Longrightarrow> load (store_int b off i) o1 n = load b o1 n"
  by (simp add: store_int_def load_store_after)

lemma load_int_store_int_before [layout]:
  "o1 + 4 \<le> off \<Longrightarrow> off \<le> length b \<Longrightarrow> load_int (store_int b off i) o1 = load_int b o1"
  by (simp add: load_int_def load_store_int_before)

lemma load_int_store_int_after [layout]:
  "off + 4 \<le> o1 \<Longrightarrow> off + 4 \<le> length b \<Longrightarrow> load_int (store_int b off i) o1 = load_int b o1"
  by (simp add: load_int_def load_store_int_after)

text \<open>
  Integers stored one after the other (a struct of \<open>int\<close> fields) are read back in order.
\<close>

fun ints_bytes :: "int list \<Rightarrow> byte list" where
  "ints_bytes [] = []"
| "ints_bytes (i # is) = int_bytes i @ ints_bytes is"

fun bytes_ints :: "nat \<Rightarrow> byte list \<Rightarrow> int list" where
  "bytes_ints 0 b = []"
| "bytes_ints (Suc n) b = bytes_int (take 4 b) # bytes_ints n (drop 4 b)"

lemma length_ints_bytes [simp]: "length (ints_bytes is) = 4 * length is"
  by (induction "is") simp_all

lemma bytes_ints_bytes [simp]:
  "\<forall>i \<in> set is. int_ok i \<Longrightarrow> n = length is \<Longrightarrow> bytes_ints n (ints_bytes is) = is"
  by (induction "is" arbitrary: n) simp_all

end
