(* ===== verification/OsFile.thy ===== *)
theory OsFile
  imports Bytes
begin

text \<open>
  The POSIX calls the page file handler makes, on a state of regular files and open
  descriptors: \<open>stat\<close>, \<open>open\<close>, \<open>close\<close>, \<open>unlink\<close>, and \<open>lseek\<close> followed by \<open>read\<close> or \<open>write\<close>. A
  read returns the bytes there are, a write past the end fills the gap with zeros, \<open>open\<close>
  returns the least unused descriptor. Paths are relative to the working directory, as
  every name the program passes is. Disk errors and descriptor limits are not modelled.
\<close>

record os_state =
  files :: "string \<rightharpoonup> byte list"
  open_fds :: "(int \<times> string) list"
  other_fds :: "int list"
  cwd :: string

definition resolve :: "'z os_state_scheme \<Rightarrow> string \<Rightarrow> string" where
  "resolve s path = cwd s @ path"

definition fd_path :: "'z os_state_scheme \<Rightarrow> int \<Rightarrow> string option" where
  "fd_path s fd = map_of (open_fds s) fd"

definition sys_is_reg :: "'z os_state_scheme \<Rightarrow> string \<Rightarrow> bool" where
  "sys_is_reg s path = (files s (resolve s path) \<noteq> None)"

text \<open>The least descriptor not in use.\<close>

definition fresh_fd :: "int list \<Rightarrow> int" where
  "fresh_fd used = hd (filter (\<lambda>n. n \<notin> set used) (map int [0..<Suc (length used)]))"

text \<open>\<open>open(path, O_CREAT)\<close> makes an empty file when there is none; \<open>open(path, O_RDWR)\<close> fails then.\<close>

definition sys_open :: "bool \<Rightarrow> string \<Rightarrow> 'z os_state_scheme \<Rightarrow> int \<times> 'z os_state_scheme" where
  "sys_open creat path s =
     (let fd = fresh_fd (map fst (open_fds s) @ other_fds s); full = resolve s path
      in case files s full of
           Some _ \<Rightarrow> (fd, s\<lparr>open_fds := (fd, full) # open_fds s\<rparr>)
         | None \<Rightarrow> if creat
             then (fd, s\<lparr>files := (files s)(full \<mapsto> []), open_fds := (fd, full) # open_fds s\<rparr>)
             else (-1, s))"

definition sys_close :: "int \<Rightarrow> 'z os_state_scheme \<Rightarrow> int \<times> 'z os_state_scheme" where
  "sys_close fd s =
     (if fd_path s fd = None then (-1, s)
      else (0, s\<lparr>open_fds := filter (\<lambda>e. fst e \<noteq> fd) (open_fds s)\<rparr>))"

definition sys_unlink :: "string \<Rightarrow> 'z os_state_scheme \<Rightarrow> int \<times> 'z os_state_scheme" where
  "sys_unlink path s =
     (if sys_is_reg s path then (0, s\<lparr>files := (files s)(resolve s path := None)\<rparr>) else (-1, s))"

definition file_write :: "byte list \<Rightarrow> nat \<Rightarrow> byte list \<Rightarrow> byte list" where
  "file_write b off xs = store (b @ replicate (off + length xs - length b) 0) off xs"

definition fd_data :: "'z os_state_scheme \<Rightarrow> int \<Rightarrow> byte list option" where
  "fd_data s fd = (case fd_path s fd of None \<Rightarrow> None | Some path \<Rightarrow> files s path)"

definition sys_pread :: "'z os_state_scheme \<Rightarrow> int \<Rightarrow> nat \<Rightarrow> nat \<Rightarrow> byte list" where
  "sys_pread s fd off n = (case fd_data s fd of None \<Rightarrow> [] | Some b \<Rightarrow> load b off n)"

definition sys_pwrite :: "int \<Rightarrow> nat \<Rightarrow> byte list \<Rightarrow> 'z os_state_scheme \<Rightarrow> 'z os_state_scheme" where
  "sys_pwrite fd off xs s =
     (case fd_path s fd of
        None \<Rightarrow> s
      | Some path \<Rightarrow> (case files s path of
          None \<Rightarrow> s
        | Some b \<Rightarrow> s\<lparr>files := (files s)(path \<mapsto> file_write b off xs)\<rparr>))"

section \<open>Descriptors\<close>

lemma fresh_fd_props: "fresh_fd used \<notin> set used" "0 \<le> fresh_fd used"
proof -
  let ?c = "filter (\<lambda>n. n \<notin> set used) (map int [0..<Suc (length used)])"
  have "?c \<noteq> []"
  proof
    assume "?c = []"
    then have "set (map int [0..<Suc (length used)]) \<subseteq> set used"
      by (simp only: filter_empty_conv) blast
    then have "card (set (map int [0..<Suc (length used)])) \<le> card (set used)"
      by (intro card_mono) auto
    moreover have "card (set (map int [0..<Suc (length used)])) = Suc (length used)"
      by (subst distinct_card) (auto simp: distinct_map)
    moreover have "card (set used) \<le> length used" by (rule card_length)
    ultimately show False by simp
  qed
  then have "hd ?c \<in> set ?c" by (rule hd_in_set)
  then show "fresh_fd used \<notin> set used" "0 \<le> fresh_fd used"
    unfolding fresh_fd_def by auto
qed

text \<open>Each descriptor is listed once, no file is open twice, every open file exists.\<close>

definition os_wf :: "'z os_state_scheme \<Rightarrow> bool" where
  "os_wf s \<longleftrightarrow> distinct (map fst (open_fds s)) \<and> distinct (map snd (open_fds s)) \<and>
     (\<forall>e \<in> set (open_fds s). snd e \<in> dom (files s))"

lemma fd_path_in: "fd_path s fd = Some path \<Longrightarrow> (fd, path) \<in> set (open_fds s)"
  unfolding fd_path_def by (rule map_of_SomeD)

lemma fd_data_Some:
  assumes "os_wf s" "fd_path s fd = Some path"
  obtains b where "files s path = Some b" "fd_data s fd = Some b"
  using assms fd_path_in[OF assms(2)] by (force simp: os_wf_def fd_data_def)

lemma fd_path_inj:
  assumes "os_wf s" "fd_path s f = Some path" "fd_path s g = Some path"
  shows "f = g"
proof -
  have mem: "(f, path) \<in> set (open_fds s)" "(g, path) \<in> set (open_fds s)"
    using assms(2,3) fd_path_in by blast+
  have "inj_on snd (set (open_fds s))"
    using assms(1) by (simp add: os_wf_def distinct_map)
  then have "(f, path) = (g, path)"
    by (rule inj_onD) (use mem in simp_all)
  then show ?thesis by simp
qed

section \<open>File contents\<close>

lemma length_file_write: "length (file_write b off xs) = max (length b) (off + length xs)"
  by (simp add: file_write_def length_store max_def)

lemma load_file_write_same: "n = length xs \<Longrightarrow> load (file_write b off xs) off n = xs"
  by (simp add: file_write_def load_store_same)

lemma load_append_left: "off + n \<le> length b \<Longrightarrow> load (b @ c) off n = load b off n"
  by (simp add: load_def)

lemma load_file_write_before:
  "o1 + n \<le> off \<Longrightarrow> o1 + n \<le> length b \<Longrightarrow> load (file_write b off xs) o1 n = load b o1 n"
  by (simp add: file_write_def load_store_before load_append_left)

lemma load_file_write_after:
  "off + length xs \<le> o1 \<Longrightarrow> o1 + n \<le> length b \<Longrightarrow> load (file_write b off xs) o1 n = load b o1 n"
  by (simp add: file_write_def load_store_after load_append_left)

end
