(* ===== verification/Pager.thy ===== *)
theory Pager
  imports OsFile
begin

text \<open>
  \<open>page_file_handler/pf_defs.h\<close>, \<open>pf_pager.h\<close> and \<open>pf_pager.cpp\<close>: the buffer pool. A \<open>Page *\<close>
  is the index of the page in the array \<open>_pages\<close>; an iterator into \<open>_busy_pages\<close> is the page it
  points at, since a page is in the list at most once. The number of cache pages is the
  length of the array (\<open>NUM_CACHE_PAGES\<close> in \<open>PF_Pager_init\<close>). The state also holds the maps and
  semaphores of \<open>pf_manager.h\<close> and \<open>concurrency.h\<close> that these operations share.
\<close>

section \<open>pf_defs.h\<close>

definition PAGE_SIZE :: nat where
  "PAGE_SIZE = 4096"

definition NUM_CACHE_PAGES :: nat where
  "NUM_CACHE_PAGES = 65536"

datatype PageID = PageID (pid_fd: int) (pid_page: int)

record Page =
  page_id :: PageID
  buf :: "byte list"
  is_dirty :: bool

record pf_state = os_state +
  pages :: "Page list"
  busy_map :: "PageID \<rightharpoonup> nat"
  busy_pages :: "nat list"
  free_pages :: "nat list"
  path2fd :: "string \<rightharpoonup> int"
  fd2path :: "int \<rightharpoonup> string"
  cache_sem :: nat
  fd_map_sem :: nat

type_synonym ('z, 'a) pf_prog = "('z pf_state_scheme, stop, 'a) prog"

section \<open>Semaphores\<close>

definition sem_wait_cache :: "('z, unit) pf_prog" where
  "sem_wait_cache = andThen (gets cache_sem) (\<lambda>v.
     if v = 0 then throw Blocked else modify (\<lambda>s. s\<lparr>cache_sem := v - 1\<rparr>))"

definition sem_post_cache :: "('z, unit) pf_prog" where
  "sem_post_cache = modify (\<lambda>s. s\<lparr>cache_sem := cache_sem s + 1\<rparr>)"

section \<open>PF_Pager: reading and writing pages on disk\<close>

text \<open>
  The byte offset \<open>page_no * PAGE_SIZE\<close> is computed in \<open>int\<close>. Taking the lock fails for a
  descriptor that is not open and for a negative start. A short read has already filled
  the first bytes of the destination (\<open>dest\<close>) when the error is thrown.
\<close>

definition lock_range :: "int \<Rightarrow> int \<Rightarrow> ('z, nat) pf_prog" where
  "lock_range fd page_no =
     andThen (ensure (int_ok (page_no * int PAGE_SIZE)) Undefined) (\<lambda>_.
     andThen (gets (\<lambda>s. fd_path s fd)) (\<lambda>path.
     andThen (ensure (path \<noteq> None \<and> 0 \<le> page_no) (Throw UnixError)) (\<lambda>_.
     ret (nat (page_no * int PAGE_SIZE)))))"

definition read_page :: "int \<Rightarrow> int \<Rightarrow> nat \<Rightarrow> (byte list \<Rightarrow> 'z pf_state_scheme \<Rightarrow> 'z pf_state_scheme)
    \<Rightarrow> ('z, byte list) pf_prog" where
  "read_page fd page_no num_bytes dest =
     andThen (lock_range fd page_no) (\<lambda>off.
     andThen (gets (\<lambda>s. sys_pread s fd off num_bytes)) (\<lambda>bytes.
     andThen (modify (dest bytes)) (\<lambda>_.
     andThen (ensure (length bytes = num_bytes) (Throw UnixError)) (\<lambda>_.
     ret bytes))))"

definition write_page :: "int \<Rightarrow> int \<Rightarrow> byte list \<Rightarrow> ('z, unit) pf_prog" where
  "write_page fd page_no bytes =
     andThen (lock_range fd page_no) (\<lambda>off. modify (sys_pwrite fd off bytes))"

section \<open>PF_Pager: the cache\<close>

definition upd_page :: "nat \<Rightarrow> (Page \<Rightarrow> Page) \<Rightarrow> 'z pf_state_scheme \<Rightarrow> 'z pf_state_scheme" where
  "upd_page i f s = s\<lparr>pages := (pages s)[i := f (pages s ! i)]\<rparr>"

definition mark_dirty :: "nat \<Rightarrow> ('z, unit) pf_prog" where
  "mark_dirty i = modify (upd_page i (\<lambda>pg. pg\<lparr>is_dirty := True\<rparr>))"

text \<open>A client that holds a page changes bytes through \<open>page->buf\<close>.\<close>

definition edit_buf :: "nat \<Rightarrow> (byte list \<Rightarrow> byte list) \<Rightarrow> ('z, unit) pf_prog" where
  "edit_buf i f = modify (upd_page i (\<lambda>pg. pg\<lparr>buf := f (buf pg)\<rparr>))"

definition in_cache :: "'z pf_state_scheme \<Rightarrow> PageID \<Rightarrow> bool" where
  "in_cache s pid = (busy_map s pid \<noteq> None)"

definition force_page :: "nat \<Rightarrow> ('z, unit) pf_prog" where
  "force_page i = andThen (gets (\<lambda>s. pages s ! i)) (\<lambda>pg.
     whenP (is_dirty pg)
       (andThen (write_page (pid_fd (page_id pg)) (pid_page (page_id pg)) (buf pg)) (\<lambda>_.
        modify (upd_page i (\<lambda>pg. pg\<lparr>is_dirty := False\<rparr>)))))"

definition access :: "nat \<Rightarrow> ('z, unit) pf_prog" where
  "access i =
     andThen (gets (\<lambda>s. in_cache s (page_id (pages s ! i)))) (\<lambda>c.
     andThen (ensure c AssertFail) (\<lambda>_.
     modify (\<lambda>s. s\<lparr>busy_pages := i # remove1 i (busy_pages s)\<rparr>)))"

text \<open>The two ways \<open>get_page\<close> finds a cache page for a page that is not in memory.\<close>

definition evict_lru :: "('z, unit) pf_prog" where
  "evict_lru =
     andThen (gets busy_pages) (\<lambda>busy.
     andThen (ensure (busy \<noteq> []) AssertFail) (\<lambda>_.
     andThen (force_page (last busy)) (\<lambda>_.
     andThen (modify (\<lambda>s. s\<lparr>busy_map := (busy_map s)(page_id (pages s ! last busy) := None)\<rparr>)) (\<lambda>_.
     modify (\<lambda>s. s\<lparr>busy_pages := last busy # butlast busy\<rparr>)))))"

definition take_free :: "('z, unit) pf_prog" where
  "take_free = modify (\<lambda>s. s\<lparr>busy_pages := hd (free_pages s) # busy_pages s,
     free_pages := tl (free_pages s)\<rparr>)"

definition fill_buf :: "nat \<Rightarrow> byte list \<Rightarrow> 'z pf_state_scheme \<Rightarrow> 'z pf_state_scheme" where
  "fill_buf i bytes = upd_page i (\<lambda>pg. pg\<lparr>buf := store (buf pg) 0 bytes\<rparr>)"

definition claim_page :: "('z, nat) pf_prog" where
  "claim_page =
     andThen (gets (\<lambda>s. free_pages s = [])) (\<lambda>full.
     andThen (if full then evict_lru else take_free) (\<lambda>_.
     gets (\<lambda>s. hd (busy_pages s))))"

definition install_page :: "PageID \<Rightarrow> nat \<Rightarrow> ('z, unit) pf_prog" where
  "install_page pid i =
     andThen (modify (\<lambda>s. s\<lparr>busy_map := (busy_map s)(pid \<mapsto> i)\<rparr>)) (\<lambda>_.
     modify (upd_page i (\<lambda>pg. pg\<lparr>page_id := pid, is_dirty := False\<rparr>)))"

definition get_page :: "bool \<Rightarrow> int \<Rightarrow> int \<Rightarrow> ('z, nat) pf_prog" where
  "get_page EXISTS fd page_no =
     andThen sem_wait_cache (\<lambda>_.
     andThen (gets (\<lambda>s. busy_map s (PageID fd page_no))) (\<lambda>map_it.
     andThen (case map_it of
         None \<Rightarrow>
           andThen claim_page (\<lambda>i.
           andThen (install_page (PageID fd page_no) i) (\<lambda>_.
           andThen (whenP EXISTS (andThen (read_page fd page_no PAGE_SIZE (fill_buf i)) (\<lambda>_. ret ()))) (\<lambda>_.
           ret i)))
       | Some i \<Rightarrow> andThen (access i) (\<lambda>_. ret i)) (\<lambda>i.
     andThen sem_post_cache (\<lambda>_. ret i))))"

definition create_page :: "int \<Rightarrow> int \<Rightarrow> ('z, nat) pf_prog" where
  "create_page fd page_no =
     andThen (get_page False fd page_no) (\<lambda>i. andThen (mark_dirty i) (\<lambda>_. ret i))"

definition fetch_page :: "int \<Rightarrow> int \<Rightarrow> ('z, nat) pf_prog" where
  "fetch_page fd page_no = get_page True fd page_no"

definition flush_page :: "nat \<Rightarrow> ('z, unit) pf_prog" where
  "flush_page i =
     andThen (gets (\<lambda>s. in_cache s (page_id (pages s ! i)))) (\<lambda>c.
     andThen (ensure c AssertFail) (\<lambda>_.
     andThen (gets (\<lambda>s. page_id (pages s ! i))) (\<lambda>pid.
     andThen (gets (\<lambda>s. the (busy_map s pid))) (\<lambda>busy_it.
     andThen (force_page i) (\<lambda>_.
     andThen (modify (\<lambda>s. s\<lparr>busy_pages := remove1 busy_it (busy_pages s),
         free_pages := busy_it # free_pages s\<rparr>)) (\<lambda>_.
     andThen (modify (\<lambda>s. s\<lparr>busy_map := (busy_map s)(pid := None)\<rparr>)) (\<lambda>_.
     andThen (gets (\<lambda>s. in_cache s (page_id (pages s ! i)))) (\<lambda>c'.
     ensure (\<not> c') AssertFail))))))))"

text \<open>
  The loop of \<open>flush_file\<close> steps its iterator before the page it leaves is spliced out, so
  it visits the pages the list held when it started.
\<close>

definition flush_if :: "int \<Rightarrow> nat \<Rightarrow> ('z, unit) pf_prog" where
  "flush_if fd i = andThen (gets (\<lambda>s. pid_fd (page_id (pages s ! i)) = fd)) (\<lambda>mine.
     whenP mine (flush_page i))"

definition flush_file :: "int \<Rightarrow> ('z, unit) pf_prog" where
  "flush_file fd =
     andThen sem_wait_cache (\<lambda>_.
     andThen (gets busy_pages) (\<lambda>busy.
     andThen (forEach busy (flush_if fd)) (\<lambda>_.
     sem_post_cache)))"

definition flush_all :: "('z, unit) pf_prog" where
  "flush_all =
     andThen sem_wait_cache (\<lambda>_.
     andThen (gets busy_pages) (\<lambda>busy.
     andThen (forEach busy force_page) (\<lambda>_.
     andThen (modify (\<lambda>s. s\<lparr>free_pages := free_pages s @ busy_pages s, busy_pages := [],
         busy_map := Map.empty\<rparr>)) (\<lambda>_.
     sem_post_cache))))"

text \<open>The constructor (the pager is a static object, so its memory starts as zeros).\<close>

definition blank_page :: Page where
  "blank_page = \<lparr>page_id = PageID 0 0, buf = replicate PAGE_SIZE 0, is_dirty = False\<rparr>"

definition PF_Pager_init :: "nat \<Rightarrow> 'z pf_state_scheme \<Rightarrow> 'z pf_state_scheme" where
  "PF_Pager_init n s = s\<lparr>pages := replicate n blank_page, busy_map := Map.empty,
     busy_pages := [], free_pages := [0..<n]\<rparr>"

text \<open>The destructor flushes and asserts that every page is free again.\<close>

definition PF_Pager_destroy :: "('z, unit) pf_prog" where
  "PF_Pager_destroy = andThen flush_all (\<lambda>_.
     andThen (gets (\<lambda>s. length (free_pages s) = length (pages s))) (\<lambda>c. ensure c AssertFail))"

end
