(* ===== verification/PagerInv.thy ===== *)
theory PagerInv
  imports Pager
begin

text \<open>
  The invariant of the buffer pool and what its operations do to the pages a client sees.
  \<open>page_view\<close> is the abstraction: the content of a page is its cached copy when it is in the
  pool and its bytes on disk otherwise.
\<close>

section \<open>Pages on disk\<close>

definition page_off :: "int \<Rightarrow> nat" where
  "page_off p = nat p * PAGE_SIZE"

definition valid_pid :: "'z pf_state_scheme \<Rightarrow> PageID \<Rightarrow> bool" where
  "valid_pid s pid \<longleftrightarrow> fd_path s (pid_fd pid) \<noteq> None \<and> 0 \<le> pid_page pid \<and>
     int_ok (pid_page pid * int PAGE_SIZE)"

definition file_page :: "byte list \<Rightarrow> int \<Rightarrow> byte list option" where
  "file_page b p = (if 0 \<le> p \<and> page_off p + PAGE_SIZE \<le> length b
     then Some (load b (page_off p) PAGE_SIZE) else None)"

definition disk_page :: "'z pf_state_scheme \<Rightarrow> PageID \<Rightarrow> byte list option" where
  "disk_page s pid = (case fd_data s (pid_fd pid) of None \<Rightarrow> None
     | Some b \<Rightarrow> file_page b (pid_page pid))"

definition page_view :: "'z pf_state_scheme \<Rightarrow> PageID \<Rightarrow> byte list option" where
  "page_view s pid = (case busy_map s pid of Some i \<Rightarrow> Some (buf (pages s ! i))
     | None \<Rightarrow> disk_page s pid)"

lemma PAGE_SIZE_pos [simp]: "0 < PAGE_SIZE"
  by (simp add: PAGE_SIZE_def)

lemma lock_range_ok [simp]:
  "valid_pid s (PageID fd p) \<Longrightarrow> lock_range fd p s = (Inr (page_off p), s)"
  by (auto simp: lock_range_def valid_pid_def page_off_def nat_mult_distrib)

lemma page_off_separate:
  assumes "0 \<le> p" "0 \<le> q" "p \<noteq> q"
  shows "page_off p + PAGE_SIZE \<le> page_off q \<or> page_off q + PAGE_SIZE \<le> page_off p"
proof -
  have "nat p < nat q \<or> nat q < nat p" using assms by auto
  then have "Suc (nat p) \<le> nat q \<or> Suc (nat q) \<le> nat p" by auto
  then have "Suc (nat p) * PAGE_SIZE \<le> nat q * PAGE_SIZE \<or> Suc (nat q) * PAGE_SIZE \<le> nat p * PAGE_SIZE"
    by (meson mult_le_mono1)
  then show ?thesis by (simp add: page_off_def add.commute)
qed

lemma file_page_write_same:
  assumes "0 \<le> p" "length bs = PAGE_SIZE"
  shows "file_page (file_write b (page_off p) bs) p = Some bs"
  using assms by (simp add: file_page_def length_file_write load_file_write_same)

lemma file_page_write_other:
  assumes "0 \<le> p" "p \<noteq> q" "length bs = PAGE_SIZE" "file_page b q = Some x"
  shows "file_page (file_write b (page_off p) bs) q = Some x"
proof -
  from assms(4) have q: "0 \<le> q" "page_off q + PAGE_SIZE \<le> length b" "x = load b (page_off q) PAGE_SIZE"
    by (auto simp: file_page_def split: if_splits)
  from page_off_separate[OF assms(1) q(1) assms(2)] show ?thesis
  proof
    assume "page_off p + PAGE_SIZE \<le> page_off q"
    then show ?thesis
      using q assms(3) by (simp add: file_page_def length_file_write load_file_write_after)
  next
    assume "page_off q + PAGE_SIZE \<le> page_off p"
    then show ?thesis
      using q assms(3) by (simp add: file_page_def length_file_write load_file_write_before)
  qed
qed

text \<open>Writing one page of an open file: what changes on disk.\<close>

lemma write_page_run:
  assumes wf: "os_wf s" and v: "valid_pid s pid" and len: "length bs = PAGE_SIZE"
  obtains F where
    "write_page (pid_fd pid) (pid_page pid) bs s = (Inr (), s\<lparr>files := F\<rparr>)"
    "dom F = dom (files s)"
    "\<And>path. path \<notin> snd ` set (open_fds s) \<Longrightarrow> F path = files s path"
    "disk_page (s\<lparr>files := F\<rparr>) pid = Some bs"
    "\<And>q x. q \<noteq> pid \<Longrightarrow> disk_page s q = Some x \<Longrightarrow> disk_page (s\<lparr>files := F\<rparr>) q = Some x"
    "\<And>path b. files s path = Some b \<Longrightarrow> \<exists>b'. F path = Some b' \<and> length b \<le> length b' \<and>
       (\<forall>n. n \<le> page_off (pid_page pid) \<and> n \<le> length b \<longrightarrow> take n b' = take n b)"
proof -
  obtain fd p where pid: "pid = PageID fd p" by (cases pid)
  from v obtain path where path: "fd_path s fd = Some path" by (auto simp: valid_pid_def pid)
  from fd_data_Some[OF wf path] obtain b where b: "files s path = Some b" "fd_data s fd = Some b" .
  let ?b' = "file_write b (page_off p) bs"
  let ?F = "(files s)(path \<mapsto> ?b')"
  have run: "write_page fd p bs s = (Inr (), s\<lparr>files := ?F\<rparr>)"
    using v path b by (simp add: write_page_def pid sys_pwrite_def)
  have p0: "0 \<le> p" using v by (simp add: valid_pid_def pid)
  have self: "disk_page (s\<lparr>files := ?F\<rparr>) pid = Some bs"
    using path p0 len by (simp add: disk_page_def fd_data_def fd_path_def pid file_page_write_same)
  have other: "disk_page (s\<lparr>files := ?F\<rparr>) q = Some x" if q: "q \<noteq> pid" "disk_page s q = Some x" for q x
  proof -
    obtain g r where qe: "q = PageID g r" by (cases q)
    from q(2) obtain path' b' where g: "fd_path s g = Some path'" "files s path' = Some b'" "file_page b' r = Some x"
      by (auto simp: disk_page_def fd_data_def qe split: option.splits)
    show ?thesis
    proof (cases "path' = path")
      case True
      then have "g = fd" using fd_path_inj[OF wf g(1)] path by simp
      with q(1) have "p \<noteq> r" by (simp add: qe pid)
      then have "file_page ?b' r = Some x"
        using g(2,3) b(1) True p0 len by (simp add: file_page_write_other)
      with g(1) True show ?thesis by (simp add: disk_page_def fd_data_def fd_path_def qe)
    next
      case False
      with g show ?thesis by (simp add: disk_page_def fd_data_def fd_path_def qe)
    qed
  qed
  have pin: "path \<in> snd ` set (open_fds s)" using fd_path_in[OF path] by force
  have prefix: "\<exists>b''. ?F pt = Some b'' \<and> length c \<le> length b'' \<and>
       (\<forall>n. n \<le> page_off (pid_page pid) \<and> n \<le> length c \<longrightarrow> take n b'' = take n c)"
    if "files s pt = Some c" for pt c
  proof (cases "pt = path")
    case True
    with that b have "c = b" by simp
    moreover have "take n ?b' = take n b" if "n \<le> page_off p" "n \<le> length b" for n
      using load_file_write_before[of 0 n "page_off p" b bs] that by (simp add: load_def)
    ultimately show ?thesis using True by (simp add: length_file_write pid)
  qed (use that in simp)
  show ?thesis
  proof (rule that[of ?F])
    show "write_page (pid_fd pid) (pid_page pid) bs s = (Inr (), s\<lparr>files := ?F\<rparr>)"
      using run by (simp add: pid)
    show "dom ?F = dom (files s)" using b(1) by auto
    show "?F pt = files s pt" if "pt \<notin> snd ` set (open_fds s)" for pt
      using that pin by auto
    show "disk_page (s\<lparr>files := ?F\<rparr>) pid = Some bs" by (rule self)
    show "disk_page (s\<lparr>files := ?F\<rparr>) q = Some x" if "q \<noteq> pid" "disk_page s q = Some x" for q x
      using that by (rule other)
    show "\<exists>b''. ?F pt = Some b'' \<and> length c \<le> length b'' \<and>
       (\<forall>n. n \<le> page_off (pid_page pid) \<and> n \<le> length c \<longrightarrow> take n b'' = take n c)"
      if "files s pt = Some c" for pt c
      using that by (rule prefix)
  qed
qed

section \<open>The invariant\<close>

definition pager_struct :: "'z pf_state_scheme \<Rightarrow> bool" where
  "pager_struct s \<longleftrightarrow> pages s \<noteq> [] \<and> distinct (busy_pages s @ free_pages s) \<and>
     set (busy_pages s @ free_pages s) = {..<length (pages s)} \<and>
     (\<forall>i < length (pages s). length (buf (pages s ! i)) = PAGE_SIZE)"

text \<open>The map finds exactly the pages of a list.\<close>

definition map_lists :: "'z pf_state_scheme \<Rightarrow> nat list \<Rightarrow> bool" where
  "map_lists s is \<longleftrightarrow> (\<forall>pid i. busy_map s pid = Some i \<longleftrightarrow> i \<in> set is \<and> page_id (pages s ! i) = pid)"

text \<open>A cached page names an open file; when clean it equals the page on disk.\<close>

definition page_synced :: "'z pf_state_scheme \<Rightarrow> nat \<Rightarrow> bool" where
  "page_synced s i \<longleftrightarrow> valid_pid s (page_id (pages s ! i)) \<and>
     (is_dirty (pages s ! i) \<or> disk_page s (page_id (pages s ! i)) = Some (buf (pages s ! i)))"

definition pager_inv :: "'z pf_state_scheme \<Rightarrow> bool" where
  "pager_inv s \<longleftrightarrow> os_wf s \<and> pager_struct s \<and> map_lists s (busy_pages s) \<and>
     (\<forall>i \<in> set (busy_pages s). page_synced s i)"

text \<open>What an operation of the pager leaves alone.\<close>

definition same_env :: "'z pf_state_scheme \<Rightarrow> 'z pf_state_scheme \<Rightarrow> bool" where
  "same_env s t \<longleftrightarrow> open_fds t = open_fds s \<and> other_fds t = other_fds s \<and> cwd t = cwd s \<and>
     path2fd t = path2fd s \<and> fd2path t = fd2path s \<and> fd_map_sem t = fd_map_sem s \<and>
     pf_state.more t = pf_state.more s \<and> length (pages t) = length (pages s) \<and>
     dom (files t) = dom (files s) \<and>
     (\<forall>path. path \<notin> snd ` set (open_fds s) \<longrightarrow> files t path = files s path)"

lemma same_env_refl [simp]: "same_env s s"
  by (simp add: same_env_def)

lemma same_env_trans: "same_env s t \<Longrightarrow> same_env t u \<Longrightarrow> same_env s u"
  by (simp add: same_env_def)

lemma disk_page_cong: "files t = files s \<Longrightarrow> open_fds t = open_fds s \<Longrightarrow> disk_page t = disk_page s"
  by (simp add: disk_page_def fd_data_def fd_path_def fun_eq_iff split: option.splits)

lemma disk_page_upd [simp]:
  "disk_page (s\<lparr>pages := P\<rparr>) = disk_page s" "disk_page (s\<lparr>busy_map := M\<rparr>) = disk_page s"
  "disk_page (s\<lparr>busy_pages := B\<rparr>) = disk_page s" "disk_page (s\<lparr>free_pages := L\<rparr>) = disk_page s"
  "disk_page (s\<lparr>cache_sem := n\<rparr>) = disk_page s" "disk_page (s\<lparr>fd_map_sem := n\<rparr>) = disk_page s"
  by (rule disk_page_cong; simp)+

lemma valid_pid_cong: "open_fds t = open_fds s \<Longrightarrow> valid_pid t = valid_pid s"
  by (simp add: valid_pid_def fd_path_def fun_eq_iff)

lemma valid_pid_upd [simp]:
  "valid_pid (s\<lparr>pages := P\<rparr>) = valid_pid s" "valid_pid (s\<lparr>busy_map := M\<rparr>) = valid_pid s"
  "valid_pid (s\<lparr>busy_pages := B\<rparr>) = valid_pid s" "valid_pid (s\<lparr>free_pages := L\<rparr>) = valid_pid s"
  "valid_pid (s\<lparr>cache_sem := n\<rparr>) = valid_pid s" "valid_pid (s\<lparr>fd_map_sem := n\<rparr>) = valid_pid s"
  "valid_pid (s\<lparr>files := F\<rparr>) = valid_pid s"
  by (rule valid_pid_cong; simp)+

lemma pager_struct_index: "pager_struct s \<Longrightarrow> i \<in> set (busy_pages s) \<Longrightarrow> i < length (pages s)"
  by (auto simp: pager_struct_def)

lemma map_lists_Some: "map_lists s is \<Longrightarrow> i \<in> set is \<Longrightarrow> busy_map s (page_id (pages s ! i)) = Some i"
  by (simp add: map_lists_def)

lemma map_lists_inj:
  "map_lists s is \<Longrightarrow> i \<in> set is \<Longrightarrow> j \<in> set is \<Longrightarrow> page_id (pages s ! i) = page_id (pages s ! j) \<Longrightarrow> i = j"
  by (metis map_lists_Some option.inject)

section \<open>Writing a page back\<close>

text \<open>
  \<open>force_page\<close> leaves a page clean and everything a client sees in place; a page on disk
  that is not the forced one keeps its content.
\<close>

definition cleaned :: "nat \<Rightarrow> (string \<rightharpoonup> byte list) \<Rightarrow> 'z pf_state_scheme \<Rightarrow> 'z pf_state_scheme" where
  "cleaned i F s = s\<lparr>files := F, pages := (pages s)[i := (pages s ! i)\<lparr>is_dirty := False\<rparr>]\<rparr>"

lemma cleaned_id: "\<not> is_dirty (pages s ! i) \<Longrightarrow> cleaned i (files s) s = s"
proof -
  assume "\<not> is_dirty (pages s ! i)"
  then have "(pages s ! i)\<lparr>is_dirty := False\<rparr> = pages s ! i"
    by (cases "pages s ! i") simp
  then show ?thesis by (simp add: cleaned_def)
qed

lemma cleaned_fields [simp]:
  "files (cleaned i F s) = F" "open_fds (cleaned i F s) = open_fds s"
  "busy_map (cleaned i F s) = busy_map s" "busy_pages (cleaned i F s) = busy_pages s"
  "free_pages (cleaned i F s) = free_pages s" "cache_sem (cleaned i F s) = cache_sem s"
  "length (pages (cleaned i F s)) = length (pages s)"
  by (simp_all add: cleaned_def)

lemma valid_pid_cleaned [simp]: "valid_pid (cleaned i F s) = valid_pid s"
  by (rule valid_pid_cong) simp

lemma cleaned_page [simp]:
  "page_id (pages (cleaned i F s) ! j) = page_id (pages s ! j)"
  "buf (pages (cleaned i F s) ! j) = buf (pages s ! j)"
  by (cases "i < length (pages s)"; cases "i = j"; simp add: cleaned_def list_update_beyond)+

lemma cleaned_dirty [simp]:
  "j \<noteq> i \<Longrightarrow> is_dirty (pages (cleaned i F s) ! j) = is_dirty (pages s ! j)"
  by (simp add: cleaned_def)

lemma force_page_run:
  assumes wf: "os_wf s" and st: "pager_struct s" and i: "i < length (pages s)" and sy: "page_synced s i"
  obtains F where
    "force_page i s = (Inr (), cleaned i F s)"
    "dom F = dom (files s)"
    "\<And>path. path \<notin> snd ` set (open_fds s) \<Longrightarrow> F path = files s path"
    "disk_page (cleaned i F s) (page_id (pages s ! i)) = Some (buf (pages s ! i))"
    "\<And>q x. q \<noteq> page_id (pages s ! i) \<Longrightarrow> disk_page s q = Some x \<Longrightarrow> disk_page (cleaned i F s) q = Some x"
    "\<And>path b. files s path = Some b \<Longrightarrow> \<exists>b'. F path = Some b' \<and> length b \<le> length b' \<and>
       (\<forall>n. n \<le> page_off (pid_page (page_id (pages s ! i))) \<and> n \<le> length b \<longrightarrow> take n b' = take n b)"
proof (cases "is_dirty (pages s ! i)")
  case False
  show ?thesis
  proof (rule that[of "files s"])
    show "force_page i s = (Inr (), cleaned i (files s) s)"
      using False by (simp add: force_page_def cleaned_id)
    show "disk_page (cleaned i (files s) s) (page_id (pages s ! i)) = Some (buf (pages s ! i))"
      using False sy by (simp add: page_synced_def cleaned_id)
  qed (use False in \<open>auto simp: cleaned_id\<close>)
next
  case True
  let ?pg = "pages s ! i"
  have v: "valid_pid s (page_id ?pg)" using sy by (simp add: page_synced_def)
  have len: "length (buf ?pg) = PAGE_SIZE" using st i by (simp add: pager_struct_def)
  from write_page_run[OF wf v len] obtain F where F:
    "write_page (pid_fd (page_id ?pg)) (pid_page (page_id ?pg)) (buf ?pg) s = (Inr (), s\<lparr>files := F\<rparr>)"
    "dom F = dom (files s)"
    "\<And>path. path \<notin> snd ` set (open_fds s) \<Longrightarrow> F path = files s path"
    "disk_page (s\<lparr>files := F\<rparr>) (page_id ?pg) = Some (buf ?pg)"
    "\<And>q x. q \<noteq> page_id ?pg \<Longrightarrow> disk_page s q = Some x \<Longrightarrow> disk_page (s\<lparr>files := F\<rparr>) q = Some x"
    "\<And>path b. files s path = Some b \<Longrightarrow> \<exists>b'. F path = Some b' \<and> length b \<le> length b' \<and>
       (\<forall>n. n \<le> page_off (pid_page (page_id ?pg)) \<and> n \<le> length b \<longrightarrow> take n b' = take n b)"
    by blast
  have dp: "disk_page (cleaned i F s) = disk_page (s\<lparr>files := F\<rparr>)"
    by (rule disk_page_cong) (simp_all add: cleaned_def)
  have "force_page i s = (Inr (), cleaned i F s)"
    using True F(1) by (simp add: force_page_def upd_page_def cleaned_def)
  then show ?thesis using F(2-6) dp by (intro that[of F]) auto
qed

section \<open>Claiming and installing a cache page\<close>

text \<open>
  Between the claim of a cache page and the entry of its new identity the page leads the
  busy list but is not in the map.
\<close>

definition claimed :: "nat \<Rightarrow> 'z pf_state_scheme \<Rightarrow> bool" where
  "claimed i s \<longleftrightarrow> os_wf s \<and> pager_struct s \<and> busy_pages s \<noteq> [] \<and> hd (busy_pages s) = i \<and>
     map_lists s (tl (busy_pages s)) \<and> (\<forall>j \<in> set (tl (busy_pages s)). page_synced s j)"

lemma page_synced_cong:
  "page_synced s j \<Longrightarrow> open_fds t = open_fds s \<Longrightarrow> page_id (pages t ! j) = page_id (pages s ! j) \<Longrightarrow>
   buf (pages t ! j) = buf (pages s ! j) \<Longrightarrow> is_dirty (pages t ! j) = is_dirty (pages s ! j) \<Longrightarrow>
   (\<And>x. disk_page s (page_id (pages s ! j)) = Some x \<Longrightarrow> disk_page t (page_id (pages s ! j)) = Some x) \<Longrightarrow>
   page_synced t j"
  using valid_pid_cong[of t s] by (auto simp: page_synced_def)

lemma os_wf_cong: "open_fds t = open_fds s \<Longrightarrow> dom (files t) = dom (files s) \<Longrightarrow> os_wf t = os_wf s"
  by (simp add: os_wf_def)

lemma busy_nonempty: "pager_struct s \<Longrightarrow> free_pages s = [] \<Longrightarrow> busy_pages s \<noteq> []"
  by (auto simp: pager_struct_def)

definition evicted :: "(string \<rightharpoonup> byte list) \<Rightarrow> 'z pf_state_scheme \<Rightarrow> 'z pf_state_scheme" where
  "evicted F s = (let l = last (busy_pages s) in
     (cleaned l F s)\<lparr>busy_map := (busy_map s)(page_id (pages s ! l) := None),
       busy_pages := l # butlast (busy_pages s)\<rparr>)"

lemma evict_lru_run:
  assumes inv: "pager_inv s" and full: "free_pages s = []"
  obtains F where "evict_lru s = (Inr (), evicted F s)" "claimed (last (busy_pages s)) (evicted F s)"
    "same_env s (evicted F s)" "page_view s \<subseteq>\<^sub>m page_view (evicted F s)"
proof -
  let ?l = "last (busy_pages s)"
  let ?id = "page_id (pages s ! ?l)"
  from inv have wf: "os_wf s" and st: "pager_struct s" and ml: "map_lists s (busy_pages s)"
    and sy: "\<And>i. i \<in> set (busy_pages s) \<Longrightarrow> page_synced s i"
    by (auto simp: pager_inv_def)
  have ne: "busy_pages s \<noteq> []" using st full by (rule busy_nonempty)
  then have lin: "?l \<in> set (busy_pages s)" by simp
  have dist: "distinct (busy_pages s)" using st by (simp add: pager_struct_def)
  have bl: "set (butlast (busy_pages s)) = set (busy_pages s) - {?l}"
    using ne dist by (rule set_butlast_distinct)
  obtain F where F: "force_page ?l s = (Inr (), cleaned ?l F s)" "dom F = dom (files s)"
    "\<And>path. path \<notin> snd ` set (open_fds s) \<Longrightarrow> F path = files s path"
    "disk_page (cleaned ?l F s) ?id = Some (buf (pages s ! ?l))"
    "\<And>q x. q \<noteq> ?id \<Longrightarrow> disk_page s q = Some x \<Longrightarrow> disk_page (cleaned ?l F s) q = Some x"
    by (rule force_page_run[OF wf st pager_struct_index[OF st lin] sy[OF lin]]) (rule that; assumption)
  let ?t = "evicted F s"
  have dt: "disk_page ?t = disk_page (cleaned ?l F s)"
    by (rule disk_page_cong) (simp_all add: evicted_def Let_def)
  have run: "evict_lru s = (Inr (), ?t)"
    using ne F(1) by (simp add: evict_lru_def evicted_def Let_def)
  have fields: "open_fds ?t = open_fds s" "files ?t = F" "pages ?t = pages (cleaned ?l F s)"
    "busy_pages ?t = ?l # butlast (busy_pages s)" "free_pages ?t = []"
    "busy_map ?t = (busy_map s)(?id := None)"
    by (simp_all add: evicted_def Let_def full)
  have struct: "pager_struct ?t"
  proof -
    have "set (?l # butlast (busy_pages s)) = set (busy_pages s)" using bl lin by auto
    moreover have "distinct (?l # butlast (busy_pages s))"
      using dist ne by (simp add: distinct_butlast distinct_remove1_last)
    moreover have "set (busy_pages s) = {..<length (pages s)}" "pages s \<noteq> []"
      using st full by (simp_all add: pager_struct_def)
    moreover have "length (buf (pages (cleaned ?l F s) ! j)) = PAGE_SIZE" if "j < length (pages s)" for j
      using st that by (simp add: pager_struct_def)
    moreover have "pages (cleaned ?l F s) \<noteq> []"
      using \<open>pages s \<noteq> []\<close> by (simp add: cleaned_def)
    ultimately show ?thesis
      by (simp only: pager_struct_def fields append_Nil2 cleaned_fields(7)) blast
  qed
  have ml': "map_lists ?t (butlast (busy_pages s))"
    unfolding map_lists_def fields cleaned_page
    using ml map_lists_inj[OF ml] lin by (auto simp: map_lists_def bl)
  have sy': "page_synced ?t j" if j: "j \<in> set (butlast (busy_pages s))" for j
  proof (rule page_synced_cong[of s])
    have jb: "j \<in> set (busy_pages s)" and jl: "j \<noteq> ?l" using j bl by auto
    show "page_synced s j" using sy jb by simp
    have "page_id (pages s ! j) \<noteq> ?id" using map_lists_inj[OF ml jb lin] jl by blast
    then show "disk_page ?t (page_id (pages s ! j)) = Some x"
      if "disk_page s (page_id (pages s ! j)) = Some x" for x
      using that F(5) by (simp add: dt)
    show "is_dirty (pages ?t ! j) = is_dirty (pages s ! j)" using jl by (simp add: fields)
  qed (simp_all add: fields)
  have view: "page_view s \<subseteq>\<^sub>m page_view ?t"
  proof (unfold map_le_def, intro ballI)
    fix q assume "q \<in> dom (page_view s)"
    then obtain x where x: "page_view s q = Some x" by blast
    show "page_view s q = page_view ?t q"
    proof (cases "q = ?id")
      case True
      then show ?thesis
        using map_lists_Some[OF ml lin] F(4) by (simp add: page_view_def fields dt)
    next
      case False
      then show ?thesis
        using x F(5)[OF False] by (auto simp: page_view_def fields dt split: option.splits)
    qed
  qed
  have env: "same_env s ?t"
    using F(2,3) by (auto simp: same_env_def evicted_def Let_def cleaned_def)
  have "claimed ?l ?t"
    using struct ml' sy' os_wf_cong[of ?t s] F(2) wf by (simp add: claimed_def fields)
  then show ?thesis using that run env view by blast
qed

lemma claim_page_run:
  assumes inv: "pager_inv s"
  obtains i t where "claim_page s = (Inr i, t)" "claimed i t" "same_env s t" "cache_sem t = cache_sem s"
    "page_view s \<subseteq>\<^sub>m page_view t"
    "tl (busy_pages t) = (if free_pages s = [] then butlast (busy_pages s) else busy_pages s)"
    "free_pages t = tl (free_pages s)" "busy_map t \<subseteq>\<^sub>m busy_map s"
    "\<And>j. page_id (pages t ! j) = page_id (pages s ! j)"
    "\<And>j. j \<in> set (tl (busy_pages t)) \<Longrightarrow> is_dirty (pages t ! j) = is_dirty (pages s ! j)"
proof (cases "free_pages s = []")
  case True
  obtain F where F: "evict_lru s = (Inr (), evicted F s)" "claimed (last (busy_pages s)) (evicted F s)"
    "same_env s (evicted F s)" "page_view s \<subseteq>\<^sub>m page_view (evicted F s)"
    using evict_lru_run[OF inv True] by blast
  show ?thesis
  proof (rule that[of "last (busy_pages s)" "evicted F s"])
    show "claim_page s = (Inr (last (busy_pages s)), evicted F s)"
      using True F(1) by (simp add: claim_page_def evicted_def Let_def)
    show "page_id (pages (evicted F s) ! j) = page_id (pages s ! j)" for j
      by (simp add: evicted_def Let_def)
    show "is_dirty (pages (evicted F s) ! j) = is_dirty (pages s ! j)" if "j \<in> set (tl (busy_pages (evicted F s)))" for j
    proof -
      have "distinct (busy_pages s)" "busy_pages s \<noteq> []"
        using inv busy_nonempty[OF _ True] by (simp_all add: pager_inv_def pager_struct_def)
      then have "j \<noteq> last (busy_pages s)" using that distinct_remove1_last by (auto simp: evicted_def Let_def)
      then show ?thesis by (simp add: evicted_def Let_def)
    qed
  qed (use F True in \<open>simp_all add: evicted_def Let_def map_le_def\<close>)
next
  case False
  let ?t = "s\<lparr>busy_pages := hd (free_pages s) # busy_pages s, free_pages := tl (free_pages s)\<rparr>"
  have st: "pager_struct s" and ml: "map_lists s (busy_pages s)" and wf: "os_wf s"
    and sy: "\<forall>i \<in> set (busy_pages s). page_synced s i"
    using inv by (auto simp: pager_inv_def)
  have free: "free_pages s = hd (free_pages s) # tl (free_pages s)" using False by simp
  have "pager_struct ?t"
  proof -
    have "distinct (busy_pages s @ hd (free_pages s) # tl (free_pages s))"
      "set (busy_pages s @ hd (free_pages s) # tl (free_pages s)) = {..<length (pages s)}"
      using st free by (simp_all add: pager_struct_def)
    then show ?thesis using st by (simp add: pager_struct_def)
  qed
  moreover have "page_synced ?t j" if "j \<in> set (busy_pages s)" for j
    using sy that by (simp add: page_synced_def)
  moreover have "map_lists ?t (busy_pages s)" using ml by (simp add: map_lists_def)
  ultimately have "claimed (hd (free_pages s)) ?t"
    using wf by (simp add: claimed_def os_wf_def)
  moreover have "page_view ?t = page_view s" by (simp add: page_view_def fun_eq_iff split: option.splits)
  ultimately show ?thesis
    using False by (intro that[of "hd (free_pages s)" ?t])
      (simp_all add: claim_page_def take_free_def same_env_def map_le_def)
qed

lemma store_whole: "length xs = length b \<Longrightarrow> store b 0 xs = xs"
  by (simp add: store_def)

lemma Page_eqI: "page_id p = page_id q \<Longrightarrow> buf p = buf q \<Longrightarrow> is_dirty p = is_dirty q \<Longrightarrow> (p :: Page) = q"
  by simp

definition put_page :: "PageID \<Rightarrow> nat \<Rightarrow> byte list \<Rightarrow> bool \<Rightarrow> 'z pf_state_scheme \<Rightarrow> 'z pf_state_scheme" where
  "put_page pid i b d t = t\<lparr>busy_map := (busy_map t)(pid \<mapsto> i),
     pages := (pages t)[i := \<lparr>page_id = pid, buf = b, is_dirty = d\<rparr>]\<rparr>"

lemma put_page_fields [simp]:
  "files (put_page pid i b d t) = files t" "open_fds (put_page pid i b d t) = open_fds t"
  "busy_pages (put_page pid i b d t) = busy_pages t" "free_pages (put_page pid i b d t) = free_pages t"
  "cache_sem (put_page pid i b d t) = cache_sem t" "length (pages (put_page pid i b d t)) = length (pages t)"
  "busy_map (put_page pid i b d t) = (busy_map t)(pid \<mapsto> i)"
  by (simp_all add: put_page_def)

lemma put_page_env [simp]: "same_env t (put_page pid i b d t)"
  by (simp add: same_env_def put_page_def)

lemma put_page_disk [simp]: "disk_page (put_page pid i b d t) = disk_page t"
  by (rule disk_page_cong) simp_all

lemma put_page_valid [simp]: "valid_pid (put_page pid i b d t) = valid_pid t"
  by (rule valid_pid_cong) simp

lemma put_page_nth:
  "i < length (pages t) \<Longrightarrow> pages (put_page pid i b d t) ! i = \<lparr>page_id = pid, buf = b, is_dirty = d\<rparr>"
  "j \<noteq> i \<Longrightarrow> pages (put_page pid i b d t) ! j = pages t ! j"
  by (simp_all add: put_page_def)

lemma put_page_struct:
  "pager_struct t \<Longrightarrow> length b = PAGE_SIZE \<Longrightarrow> pager_struct (put_page pid i b d t)"
proof -
  assume st: "pager_struct t" and len: "length b = PAGE_SIZE"
  have "length (buf (pages (put_page pid i b d t) ! j)) = PAGE_SIZE" if "j < length (pages t)" for j
    using that st len by (cases "j = i") (simp_all add: put_page_nth pager_struct_def)
  moreover have "pages (put_page pid i b d t) \<noteq> []"
    using st by (simp add: put_page_def pager_struct_def)
  ultimately show ?thesis using st by (simp add: pager_struct_def)
qed

text \<open>The page enters the pool under its new identity.\<close>

lemma put_claimed:
  assumes cl: "claimed i t" and none: "busy_map t pid = None" and v: "valid_pid t pid"
    and len: "length b = PAGE_SIZE" and cln: "d \<or> disk_page t pid = Some b"
  shows "pager_inv (put_page pid i b d t)"
    and "\<And>q. q \<noteq> pid \<Longrightarrow> page_view (put_page pid i b d t) q = page_view t q"
    and "page_view (put_page pid i b d t) pid = Some b"
proof -
  let ?u = "put_page pid i b d t"
  obtain rest where busy: "busy_pages t = i # rest" and st: "pager_struct t" and wf: "os_wf t"
    and ml: "map_lists t rest" and sy: "\<And>j. j \<in> set rest \<Longrightarrow> page_synced t j"
    using cl by (cases "busy_pages t") (auto simp: claimed_def)
  have i: "i < length (pages t)" using st busy pager_struct_index[of t i] by simp
  have nin: "i \<notin> set rest" using st busy by (simp add: pager_struct_def)
  have "map_lists ?u (i # rest)"
    unfolding map_lists_def
  proof (intro allI)
    fix q j
    show "busy_map ?u q = Some j \<longleftrightarrow> j \<in> set (i # rest) \<and> page_id (pages ?u ! j) = q"
    proof (cases "j = i")
      case True
      have "busy_map t q \<noteq> Some i" using ml nin by (simp add: map_lists_def)
      then show ?thesis using True i by (auto simp: put_page_nth)
    next
      case False
      have "page_id (pages t ! j) \<noteq> pid" if "j \<in> set rest"
        using map_lists_Some[OF ml that] none by auto
      then show ?thesis using ml False by (auto simp: put_page_nth map_lists_def)
    qed
  qed
  moreover have "page_synced ?u j" if "j \<in> set (i # rest)" for j
  proof (cases "j = i")
    case True
    then show ?thesis using v cln i by (simp add: page_synced_def put_page_nth)
  next
    case False
    then show ?thesis using sy that by (simp add: page_synced_def put_page_nth)
  qed
  ultimately show "pager_inv ?u"
    using put_page_struct[OF st len] os_wf_cong[of ?u t] wf by (simp add: pager_inv_def busy)
  show "page_view ?u q = page_view t q" if "q \<noteq> pid" for q
  proof (cases "busy_map t q")
    case (Some j)
    then have "j \<noteq> i" using ml nin by (auto simp: map_lists_def)
    with Some that show ?thesis by (simp add: page_view_def put_page_nth)
  qed (use that in \<open>simp add: page_view_def\<close>)
  show "page_view ?u pid = Some b" using i by (simp add: page_view_def put_page_nth)
qed

text \<open>A client overwrites a page it holds, marked dirty.\<close>

lemma put_dirty:
  assumes inv: "pager_inv t" and map: "busy_map t pid = Some i" and len: "length b = PAGE_SIZE"
  shows "pager_inv (put_page pid i b True t)"
    and "page_view (put_page pid i b True t) = (page_view t)(pid \<mapsto> b)"
proof -
  let ?u = "put_page pid i b True t"
  have st: "pager_struct t" and wf: "os_wf t" and ml: "map_lists t (busy_pages t)"
    and sy: "\<And>j. j \<in> set (busy_pages t) \<Longrightarrow> page_synced t j"
    using inv by (auto simp: pager_inv_def)
  have ib: "i \<in> set (busy_pages t)" and pid: "page_id (pages t ! i) = pid"
    using ml map by (auto simp: map_lists_def)
  have i: "i < length (pages t)" using st ib by (rule pager_struct_index)
  have "map_lists ?u (busy_pages t)"
    unfolding map_lists_def
  proof (intro allI)
    fix q j
    show "busy_map ?u q = Some j \<longleftrightarrow> j \<in> set (busy_pages t) \<and> page_id (pages ?u ! j) = q"
    proof (cases "j = i")
      case True
      then show ?thesis using i ib pid ml by (auto simp: put_page_nth map_lists_def)
    next
      case False
      have "page_id (pages t ! j) \<noteq> pid" if "j \<in> set (busy_pages t)"
        using map_lists_Some[OF ml that] map False by auto
      then show ?thesis using ml False by (auto simp: put_page_nth map_lists_def)
    qed
  qed
  moreover have "page_synced ?u j" if "j \<in> set (busy_pages t)" for j
    using sy[OF that] sy[OF ib] i pid by (cases "j = i") (simp_all add: page_synced_def put_page_nth)
  ultimately show "pager_inv ?u"
    using put_page_struct[OF st len] os_wf_cong[of ?u t] wf by (simp add: pager_inv_def)
  show "page_view ?u = (page_view t)(pid \<mapsto> b)"
  proof
    fix q
    show "page_view ?u q = ((page_view t)(pid \<mapsto> b)) q"
    proof (cases "q = pid")
      case True
      then show ?thesis using i by (simp add: page_view_def put_page_nth)
    next
      case False
      show ?thesis
      proof (cases "busy_map t q")
        case (Some j)
        then have "j \<noteq> i" using ml pid False by (auto simp: map_lists_def)
        with Some False show ?thesis by (simp add: page_view_def put_page_nth)
      qed (use False in \<open>simp add: page_view_def\<close>)
    qed
  qed
qed

end
