(* ===== verification/PagerOps.thy ===== *)
theory PagerOps
  imports PagerInv
begin

text \<open>
  What the public operations of the pager do to the pages a client sees: fetching is
  transparent, creating forgets at most the created page, flushing writes back without
  changing anything. The laws are collected in the locale \<open>page_cache\<close>, which the record
  manager uses, and the order of the busy list is the least-recently-used order.
\<close>

section \<open>Fetching\<close>

definition pf_wf :: "'z pf_state_scheme \<Rightarrow> bool" where
  "pf_wf s \<longleftrightarrow> pager_inv s \<and> cache_sem s = 1"

lemma page_synced_sem [simp]: "page_synced (s\<lparr>cache_sem := n\<rparr>) = page_synced s"
  by (simp add: page_synced_def fun_eq_iff)

lemma pager_struct_sem [simp]: "pager_struct (s\<lparr>cache_sem := n\<rparr>) = pager_struct s"
  by (simp add: pager_struct_def)

lemma pager_inv_sem [simp]: "pager_inv (s\<lparr>cache_sem := n\<rparr>) = pager_inv s"
  by (simp add: pager_inv_def os_wf_def map_lists_def)

lemma page_view_sem [simp]: "page_view (s\<lparr>cache_sem := n\<rparr>) = page_view s"
  by (simp add: page_view_def fun_eq_iff split: option.splits)

lemma same_env_sem [simp]:
  "same_env (s\<lparr>cache_sem := n\<rparr>) t = same_env s t" "same_env s (t\<lparr>cache_sem := n\<rparr>) = same_env s t"
  by (simp_all add: same_env_def)

lemma sem_idem: "cache_sem s = n \<Longrightarrow> s\<lparr>cache_sem := n\<rparr> = s"
  by (cases s) simp

lemma pager_inv_parts:
  assumes "pager_inv s"
  shows "os_wf s" "pager_struct s" "map_lists s (busy_pages s)"
    "\<And>i. i \<in> set (busy_pages s) \<Longrightarrow> page_synced s i"
  using assms by (auto simp: pager_inv_def)

lemma held_page:
  assumes "pager_inv s" "busy_map s pid = Some i"
  shows "i < length (pages s)" "i \<in> set (busy_pages s)" "page_id (pages s ! i) = pid"
    "length (buf (pages s ! i)) = PAGE_SIZE" "page_view s pid = Some (buf (pages s ! i))"
    "valid_pid s pid"
proof -
  note inv = pager_inv_parts[OF assms(1)]
  show ib: "i \<in> set (busy_pages s)" and pid: "page_id (pages s ! i) = pid"
    using inv(3) assms(2) by (auto simp: map_lists_def)
  show i: "i < length (pages s)" using inv(2) ib by (rule pager_struct_index)
  show "length (buf (pages s ! i)) = PAGE_SIZE" using inv(2) i by (simp add: pager_struct_def)
  show "page_view s pid = Some (buf (pages s ! i))" using assms(2) by (simp add: page_view_def)
  show "valid_pid s pid" using inv(4)[OF ib] pid by (simp add: page_synced_def)
qed

lemma not_cached:
  assumes "pager_inv s" "busy_map s pid = None" "i \<in> set (busy_pages s)"
  shows "page_id (pages s ! i) \<noteq> pid"
  using map_lists_Some[OF pager_inv_parts(3)[OF assms(1)] assms(3)] assms(2) by auto

text \<open>Moving a page to the front of the busy list.\<close>

definition touched :: "nat \<Rightarrow> 'z pf_state_scheme \<Rightarrow> 'z pf_state_scheme" where
  "touched i s = s\<lparr>busy_pages := i # remove1 i (busy_pages s)\<rparr>"

lemma touched_inv:
  assumes "pager_inv s" "i \<in> set (busy_pages s)"
  shows "pager_inv (touched i s)" "page_view (touched i s) = page_view s" "same_env s (touched i s)"
proof -
  note inv = pager_inv_parts[OF assms(1)]
  have d: "distinct (busy_pages s)" using inv(2) by (simp add: pager_struct_def)
  then have eq: "set (i # remove1 i (busy_pages s)) = set (busy_pages s)"
    using assms(2) by auto
  have "distinct (i # remove1 i (busy_pages s))" using d by simp
  then have st: "pager_struct (touched i s)"
    using inv(2) eq by (auto simp: pager_struct_def touched_def)
  have "map_lists (touched i s) (i # remove1 i (busy_pages s))"
    using inv(3) eq unfolding map_lists_def by (simp add: touched_def)
  moreover have "page_synced (touched i s) j" if "j \<in> set (busy_pages s)" for j
    using inv(4)[OF that] by (simp add: page_synced_def touched_def)
  ultimately show "pager_inv (touched i s)"
    using st inv(1) eq by (simp add: pager_inv_def os_wf_def) (simp add: touched_def)
  show "page_view (touched i s) = page_view s"
    by (simp add: page_view_def touched_def fun_eq_iff split: option.splits)
  show "same_env s (touched i s)" by (simp add: same_env_def touched_def)
qed

lemma get_page_hit:
  assumes wf: "pf_wf s" and hit: "busy_map s (PageID fd p) = Some i"
  shows "get_page EXISTS fd p s = (Inr i, touched i s)"
proof -
  have sem: "cache_sem s = 1" and inv: "pager_inv s" using wf by (auto simp: pf_wf_def)
  have "in_cache s (page_id (pages s ! i))"
    using held_page[OF inv hit] hit by (simp add: in_cache_def)
  then show ?thesis
    using sem hit sem_idem[of "touched i s" 1]
    by (simp add: get_page_def sem_wait_cache_def sem_post_cache_def access_def in_cache_def touched_def)
qed

lemma read_page_ok:
  assumes "valid_pid s (PageID fd p)" "disk_page s (PageID fd p) = Some x"
  shows "read_page fd p PAGE_SIZE dest s = (Inr x, dest x s)"
proof -
  from assms(2) obtain b where b: "fd_data s fd = Some b" "x = load b (page_off p) PAGE_SIZE"
    "page_off p + PAGE_SIZE \<le> length b"
    by (auto simp: disk_page_def file_page_def split: option.splits if_splits)
  then have "length x = PAGE_SIZE" by (simp add: length_load)
  with b assms(1) show ?thesis by (simp add: read_page_def sys_pread_def)
qed

lemma read_page_short:
  assumes "valid_pid s (PageID fd p)" "disk_page s (PageID fd p) = None"
  shows "\<exists>x. read_page fd p PAGE_SIZE dest s = (Inl (Throw UnixError), dest x s)"
proof -
  have "length (sys_pread s fd (page_off p) PAGE_SIZE) \<noteq> PAGE_SIZE"
  proof (cases "fd_data s fd")
    case (Some b)
    then have "\<not> page_off p + PAGE_SIZE \<le> length b"
      using assms by (auto simp: disk_page_def file_page_def valid_pid_def split: if_splits)
    then show ?thesis using Some by (simp add: sys_pread_def load_def PAGE_SIZE_def)
  qed (simp add: sys_pread_def PAGE_SIZE_def)
  with assms(1) show ?thesis by (auto simp: read_page_def)
qed

lemma install_page_run:
  "i < length (pages t) \<Longrightarrow>
   install_page pid i t = (Inr (), put_page pid i (buf (pages t ! i)) False t)"
proof -
  have eq: "(pages t ! i)\<lparr>page_id := pid, is_dirty := False\<rparr> = \<lparr>page_id = pid, buf = buf (pages t ! i), is_dirty = False\<rparr>"
    by (rule Page_eqI) simp_all
  show ?thesis by (simp add: install_page_def upd_page_def put_page_def eq)
qed

lemma fill_put_page:
  "i < length (pages t) \<Longrightarrow> length x = length b \<Longrightarrow>
   fill_buf i x (put_page pid i b d t) = put_page pid i x d t"
  by (simp add: fill_buf_def upd_page_def put_page_def store_whole)

text \<open>A miss: the claimed page takes the identity, and the bytes on disk when they are read.\<close>

lemma get_page_miss:
  assumes wf: "pf_wf s" and v: "valid_pid s (PageID fd p)" and miss: "busy_map s (PageID fd p) = None"
  obtains i t where "claimed i t" "i < length (pages t)" "same_env s t" "cache_sem t = 0"
    "busy_map t \<subseteq>\<^sub>m busy_map s" "page_view s \<subseteq>\<^sub>m page_view t" "busy_map t (PageID fd p) = None"
    "tl (busy_pages t) = (if free_pages s = [] then butlast (busy_pages s) else busy_pages s)"
    "\<And>j. page_id (pages t ! j) = page_id (pages s ! j)"
    "get_page False fd p s = (Inr i, (put_page (PageID fd p) i (buf (pages t ! i)) False t)\<lparr>cache_sem := 1\<rparr>)"
    "\<And>x. disk_page t (PageID fd p) = Some x \<Longrightarrow>
       get_page True fd p s = (Inr i, (put_page (PageID fd p) i x False t)\<lparr>cache_sem := 1\<rparr>)"
    "\<And>j. j \<in> set (tl (busy_pages t)) \<Longrightarrow> is_dirty (pages t ! j) = is_dirty (pages s ! j)"
proof -
  let ?pid = "PageID fd p"
  have sem: "cache_sem s = 1" and inv: "pager_inv (s\<lparr>cache_sem := 0\<rparr>)" using wf by (auto simp: pf_wf_def)
  obtain i t where t: "claim_page (s\<lparr>cache_sem := 0\<rparr>) = (Inr i, t)" "claimed i t"
    "same_env (s\<lparr>cache_sem := 0\<rparr>) t" "cache_sem t = cache_sem (s\<lparr>cache_sem := 0\<rparr>)"
    "page_view (s\<lparr>cache_sem := 0\<rparr>) \<subseteq>\<^sub>m page_view t"
    "tl (busy_pages t) = (if free_pages (s\<lparr>cache_sem := 0\<rparr>) = [] then butlast (busy_pages (s\<lparr>cache_sem := 0\<rparr>))
       else busy_pages (s\<lparr>cache_sem := 0\<rparr>))"
    "free_pages t = tl (free_pages (s\<lparr>cache_sem := 0\<rparr>))" "busy_map t \<subseteq>\<^sub>m busy_map (s\<lparr>cache_sem := 0\<rparr>)"
    "\<And>j. page_id (pages t ! j) = page_id (pages (s\<lparr>cache_sem := 0\<rparr>) ! j)"
    "\<And>j. j \<in> set (tl (busy_pages t)) \<Longrightarrow> is_dirty (pages t ! j) = is_dirty (pages (s\<lparr>cache_sem := 0\<rparr>) ! j)"
    by (rule claim_page_run[OF inv]) blast
  have env: "same_env s t" using t(3) by simp
  have none: "busy_map t ?pid = None"
    using t(8) miss by (cases "busy_map t ?pid") (auto simp: map_le_def dom_def)
  have st: "pager_struct t" and ib: "i \<in> set (busy_pages t)"
    using t(2) by (auto simp: claimed_def)
  have i: "i < length (pages t)" using st ib by (rule pager_struct_index)
  have v': "valid_pid t ?pid" using v env valid_pid_cong[of t s] by (simp add: same_env_def)
  have len: "length (buf (pages t ! i)) = PAGE_SIZE" using st i by (simp add: pager_struct_def)
  note prefix = get_page_def sem_wait_cache_def sem_post_cache_def
  have create: "get_page False fd p s =
      (Inr i, (put_page ?pid i (buf (pages t ! i)) False t)\<lparr>cache_sem := 1\<rparr>)"
    using sem miss t(1,4) i by (simp add: prefix install_page_run)
  have fetch: "get_page True fd p s = (Inr i, (put_page ?pid i x False t)\<lparr>cache_sem := 1\<rparr>)"
    if dp: "disk_page t ?pid = Some x" for x
  proof -
    let ?u = "put_page ?pid i (buf (pages t ! i)) False t"
    have rd: "read_page fd p PAGE_SIZE (fill_buf i) ?u = (Inr x, fill_buf i x ?u)"
      using dp v' by (intro read_page_ok) simp_all
    have "length x = PAGE_SIZE"
      using dp by (auto simp: disk_page_def file_page_def length_load split: option.splits if_splits)
    then have "fill_buf i x ?u = put_page ?pid i x False t"
      using i len by (simp add: fill_put_page)
    with rd show ?thesis
      using sem miss t(1,4) i by (simp add: prefix install_page_run)
  qed
  show ?thesis
    using that[OF t(2) i env _ _ _ none _ _ create fetch] t(4,5,6,8,9,10) by simp
qed

lemma fetch_page_run:
  assumes wf: "pf_wf s" and v: "valid_pid s (PageID fd p)" and seen: "page_view s (PageID fd p) = Some x"
  obtains i t where "fetch_page fd p s = (Inr i, t)" "pf_wf t" "busy_map t (PageID fd p) = Some i"
    "buf (pages t ! i) = x" "page_view s \<subseteq>\<^sub>m page_view t" "same_env s t"
    "dom (busy_map t) \<subseteq> insert (PageID fd p) (dom (busy_map s))"
proof (cases "busy_map s (PageID fd p)")
  case (Some i)
  have inv: "pager_inv s" and sem: "cache_sem s = 1" using wf by (auto simp: pf_wf_def)
  note h = held_page[OF inv Some]
  note ti = touched_inv[OF inv h(2)]
  have "pf_wf (touched i s)" using ti(1) sem by (simp add: pf_wf_def touched_def)
  moreover have "busy_map (touched i s) (PageID fd p) = Some i" "buf (pages (touched i s) ! i) = x"
    using Some seen by (simp_all add: touched_def page_view_def)
  moreover have "page_view s \<subseteq>\<^sub>m page_view (touched i s)" using ti(2) by simp
  moreover have "dom (busy_map (touched i s)) \<subseteq> insert (PageID fd p) (dom (busy_map s))"
    by (auto simp: touched_def)
  ultimately show ?thesis
    using that[of i "touched i s"] get_page_hit[OF wf Some] ti(3) by (simp add: fetch_page_def)
next
  case None
  let ?pid = "PageID fd p"
  from get_page_miss[OF wf v None] obtain i t where t: "claimed i t" "i < length (pages t)" "same_env s t"
    "cache_sem t = 0" "page_view s \<subseteq>\<^sub>m page_view t" "busy_map t ?pid = None"
    "\<And>x. disk_page t ?pid = Some x \<Longrightarrow>
       get_page True fd p s = (Inr i, (put_page ?pid i x False t)\<lparr>cache_sem := 1\<rparr>)"
    "busy_map t \<subseteq>\<^sub>m busy_map s"
    by metis
  have "page_view t ?pid = Some x" using t(5) seen by (auto simp: map_le_def dom_def)
  then have dp: "disk_page t ?pid = Some x" using t(6) by (simp add: page_view_def)
  then have len: "length x = PAGE_SIZE"
    by (auto simp: disk_page_def file_page_def length_load split: option.splits if_splits)
  have v': "valid_pid t ?pid" using v t(3) valid_pid_cong[of t s] by (simp add: same_env_def)
  let ?u = "(put_page ?pid i x False t)\<lparr>cache_sem := 1\<rparr>"
  note pc = put_claimed[OF t(1) t(6) v' len, of False]
  have "pf_wf ?u" using pc(1) dp by (simp add: pf_wf_def)
  moreover have "page_view s \<subseteq>\<^sub>m page_view ?u"
    using t(5) pc(2,3) dp \<open>page_view t ?pid = Some x\<close> by (auto simp: map_le_def dom_def) metis
  moreover have "same_env s ?u" using same_env_trans[OF t(3) put_page_env] by simp
  moreover have "buf (pages ?u ! i) = x" using t(2) by (simp add: put_page_nth)
  moreover have "dom (busy_map ?u) \<subseteq> insert ?pid (dom (busy_map s))"
    using map_le_implies_dom_le[OF t(8)] by auto
  ultimately show ?thesis
    using that[of i ?u] t(7)[OF dp] by (simp add: fetch_page_def)
qed

section \<open>Creating and changing pages\<close>

lemma mark_dirty_run:
  assumes inv: "pager_inv s" and map: "busy_map s pid = Some i"
  shows "mark_dirty i s = (Inr (), put_page pid i (buf (pages s ! i)) True s)"
proof -
  note h = held_page[OF inv map]
  have pg: "(pages s ! i)\<lparr>is_dirty := True\<rparr> = \<lparr>page_id = pid, buf = buf (pages s ! i), is_dirty = True\<rparr>"
    using h(3) by (intro Page_eqI) simp_all
  have "(busy_map s)(pid \<mapsto> i) = busy_map s" using map by auto
  then have "put_page pid i (buf (pages s ! i)) True s
      = s\<lparr>pages := (pages s)[i := (pages s ! i)\<lparr>is_dirty := True\<rparr>]\<rparr>"
    unfolding put_page_def pg by simp
  then show ?thesis by (simp add: mark_dirty_def upd_page_def)
qed

lemma edit_buf_run:
  assumes inv: "pager_inv s" and map: "busy_map s pid = Some i" and d: "is_dirty (pages s ! i)"
  shows "edit_buf i f s = (Inr (), put_page pid i (f (buf (pages s ! i))) True s)"
proof -
  note h = held_page[OF inv map]
  have pg: "(pages s ! i)\<lparr>buf := f (buf (pages s ! i))\<rparr>
      = \<lparr>page_id = pid, buf = f (buf (pages s ! i)), is_dirty = True\<rparr>"
    using h(3) d by (intro Page_eqI) simp_all
  have "(busy_map s)(pid \<mapsto> i) = busy_map s" using map by auto
  then have "put_page pid i (f (buf (pages s ! i))) True s
      = s\<lparr>pages := (pages s)[i := (pages s ! i)\<lparr>buf := f (buf (pages s ! i))\<rparr>]\<rparr>"
    unfolding put_page_def pg by simp
  then show ?thesis by (simp add: edit_buf_def upd_page_def)
qed

text \<open>
  \<open>holds s pid i b\<close>: the client holds page \<open>pid\<close> in cache page \<open>i\<close>, marked dirty, with content \<open>b\<close>.
\<close>

definition holds :: "'z pf_state_scheme \<Rightarrow> PageID \<Rightarrow> nat \<Rightarrow> byte list \<Rightarrow> bool" where
  "holds s pid i b \<longleftrightarrow> pf_wf s \<and> busy_map s pid = Some i \<and> buf (pages s ! i) = b"

definition holds_dirty :: "'z pf_state_scheme \<Rightarrow> PageID \<Rightarrow> nat \<Rightarrow> byte list \<Rightarrow> bool" where
  "holds_dirty s pid i b \<longleftrightarrow> holds s pid i b \<and> is_dirty (pages s ! i)"

lemma holds_view: "holds s pid i b \<Longrightarrow> page_view s pid = Some b"
  by (simp add: holds_def page_view_def)

lemma holds_length: "holds s pid i b \<Longrightarrow> length b = PAGE_SIZE"
  using held_page(4) by (auto simp: holds_def pf_wf_def)

lemma holds_valid: "holds s pid i b \<Longrightarrow> valid_pid s pid"
  using held_page(6) by (auto simp: holds_def pf_wf_def)

lemma put_page_holds:
  assumes "holds s pid i b" "length b' = PAGE_SIZE"
  shows "holds_dirty (put_page pid i b' True s) pid i b'"
    and "page_view (put_page pid i b' True s) = (page_view s)(pid \<mapsto> b')"
proof -
  have inv: "pager_inv s" "busy_map s pid = Some i" "cache_sem s = 1"
    using assms(1) by (auto simp: holds_def pf_wf_def)
  have i: "i < length (pages s)" using inv(1,2) by (rule held_page)
  note pd = put_dirty[OF inv(1,2) assms(2)]
  show "holds_dirty (put_page pid i b' True s) pid i b'"
    using pd(1) inv(3) i by (simp add: holds_dirty_def holds_def pf_wf_def put_page_nth)
  show "page_view (put_page pid i b' True s) = (page_view s)(pid \<mapsto> b')" by (rule pd(2))
qed

lemma mark_dirty_holds:
  assumes "holds s pid i b"
  obtains t where "mark_dirty i s = (Inr (), t)" "holds_dirty t pid i b" "same_env s t"
    "page_view t = page_view s" "dom (busy_map t) = dom (busy_map s)"
proof -
  have inv: "pager_inv s" "busy_map s pid = Some i" "buf (pages s ! i) = b"
    using assms by (auto simp: holds_def pf_wf_def)
  have "(page_view s)(pid \<mapsto> b) = page_view s" using holds_view[OF assms] by auto
  then show ?thesis
    using that mark_dirty_run[OF inv(1,2)] put_page_holds[OF assms holds_length[OF assms]] inv(2,3)
    by (simp add: insert_absorb domI)
qed

lemma edit_buf_holds:
  assumes "holds_dirty s pid i b" "length (f b) = PAGE_SIZE"
  obtains t where "edit_buf i f s = (Inr (), t)" "holds_dirty t pid i (f b)" "same_env s t"
    "page_view t = (page_view s)(pid \<mapsto> f b)" "dom (busy_map t) = dom (busy_map s)"
proof -
  have h: "holds s pid i b" and d: "is_dirty (pages s ! i)"
    using assms(1) by (auto simp: holds_dirty_def)
  then have inv: "pager_inv s" "busy_map s pid = Some i" "buf (pages s ! i) = b"
    by (auto simp: holds_def pf_wf_def)
  show ?thesis
    using that edit_buf_run[OF inv(1,2) d, of f] put_page_holds[OF h assms(2)] inv(2,3)
    by (simp add: insert_absorb domI)
qed

lemma create_page_run:
  assumes wf: "pf_wf s" and v: "valid_pid s (PageID fd p)"
  obtains i t b where "create_page fd p s = (Inr i, t)" "holds_dirty t (PageID fd p) i b"
    "(page_view s)(PageID fd p := None) \<subseteq>\<^sub>m page_view t" "same_env s t"
    "dom (busy_map t) \<subseteq> insert (PageID fd p) (dom (busy_map s))"
proof (cases "busy_map s (PageID fd p)")
  case (Some i)
  have inv: "pager_inv s" and sem: "cache_sem s = 1" using wf by (auto simp: pf_wf_def)
  note h = held_page[OF inv Some]
  note ti = touched_inv[OF inv h(2)]
  have "holds (touched i s) (PageID fd p) i (buf (pages s ! i))"
    using ti(1) sem Some by (simp add: holds_def pf_wf_def touched_def)
  then obtain t where t: "mark_dirty i (touched i s) = (Inr (), t)"
    "holds_dirty t (PageID fd p) i (buf (pages s ! i))" "same_env (touched i s) t"
    "page_view t = page_view (touched i s)" "dom (busy_map t) = dom (busy_map (touched i s))"
    by (rule mark_dirty_holds)
  show ?thesis
  proof (rule that)
    show "create_page fd p s = (Inr i, t)"
      using get_page_hit[OF wf Some, of False] t(1) by (simp add: create_page_def)
    show "holds_dirty t (PageID fd p) i (buf (pages s ! i))" by (rule t(2))
    show "(page_view s)(PageID fd p := None) \<subseteq>\<^sub>m page_view t"
      using t(4) ti(2) by (simp add: map_le_def)
    show "same_env s t" using ti(3) t(3) by (rule same_env_trans)
    show "dom (busy_map t) \<subseteq> insert (PageID fd p) (dom (busy_map s))"
      using t(5) by (auto simp: touched_def)
  qed
next
  case None
  let ?pid = "PageID fd p"
  from get_page_miss[OF wf v None] obtain i t where t: "claimed i t" "i < length (pages t)" "same_env s t"
    "cache_sem t = 0" "page_view s \<subseteq>\<^sub>m page_view t" "busy_map t ?pid = None"
    "get_page False fd p s = (Inr i, (put_page ?pid i (buf (pages t ! i)) False t)\<lparr>cache_sem := 1\<rparr>)"
    "busy_map t \<subseteq>\<^sub>m busy_map s"
    by metis
  let ?b = "buf (pages t ! i)"
  have v': "valid_pid t ?pid" using v t(3) valid_pid_cong[of t s] by (simp add: same_env_def)
  have len: "length ?b = PAGE_SIZE" using t(1,2) by (auto simp: claimed_def pager_struct_def)
  note pc = put_claimed[OF t(1) t(6) v' len, of True]
  let ?u = "(put_page ?pid i ?b True t)\<lparr>cache_sem := 1\<rparr>"
  have "mark_dirty i ((put_page ?pid i ?b False t)\<lparr>cache_sem := 1\<rparr>) = (Inr (), ?u)"
    using t(2) by (simp add: mark_dirty_def upd_page_def put_page_def)
  then have run: "create_page fd p s = (Inr i, ?u)"
    using t(7) by (simp add: create_page_def)
  have "holds_dirty ?u ?pid i ?b"
    using pc(1) t(2) by (simp add: holds_dirty_def holds_def pf_wf_def put_page_nth)
  moreover have "(page_view s)(?pid := None) \<subseteq>\<^sub>m page_view ?u"
    using t(5) pc(2) by (auto simp: map_le_def dom_def)
  moreover have "same_env s ?u" using same_env_trans[OF t(3) put_page_env] by simp
  moreover have "dom (busy_map ?u) \<subseteq> insert ?pid (dom (busy_map s))"
    using map_le_implies_dom_le[OF t(8)] by auto
  ultimately show ?thesis using that[OF run] by blast
qed

text \<open>Changing a clean page and marking it dirty afterwards, as \<open>insert_record\<close> does.\<close>

lemma edit_mark_holds:
  assumes "holds s pid i b" "length (f b) = PAGE_SIZE"
  obtains u t where "edit_buf i f s = (Inr (), u)" "mark_dirty i u = (Inr (), t)"
    "holds_dirty t pid i (f b)" "same_env s t" "page_view t = (page_view s)(pid \<mapsto> f b)"
    "dom (busy_map t) = dom (busy_map s)"
proof -
  have inv: "pager_inv s" "busy_map s pid = Some i" "buf (pages s ! i) = b"
    using assms(1) by (auto simp: holds_def pf_wf_def)
  have i: "i < length (pages s)" and pid: "page_id (pages s ! i) = pid"
    using held_page[OF inv(1,2)] by auto
  let ?u = "upd_page i (\<lambda>pg. pg\<lparr>buf := f (buf pg)\<rparr>) s"
  have pg: "(pages s ! i)\<lparr>buf := f b, is_dirty := True\<rparr> = \<lparr>page_id = pid, buf = f b, is_dirty = True\<rparr>"
    using pid by (intro Page_eqI) simp_all
  have "(busy_map s)(pid \<mapsto> i) = busy_map s" using inv(2) by auto
  then have "put_page pid i (f b) True s = upd_page i (\<lambda>pg. pg\<lparr>is_dirty := True\<rparr>) ?u"
    using i inv(3) unfolding put_page_def upd_page_def by (simp add: pg [symmetric])
  then have "mark_dirty i ?u = (Inr (), put_page pid i (f b) True s)" by (simp add: mark_dirty_def)
  then show ?thesis
    using that[of ?u "put_page pid i (f b) True s"] put_page_holds[OF assms(1,2)] inv(2)
    by (simp add: edit_buf_def insert_absorb domI)
qed

lemma fetch_page_holds:
  assumes "pf_wf s" "valid_pid s (PageID fd p)" "page_view s (PageID fd p) = Some x"
  obtains i t where "fetch_page fd p s = (Inr i, t)" "holds t (PageID fd p) i x"
    "page_view s \<subseteq>\<^sub>m page_view t" "same_env s t"
    "dom (busy_map t) \<subseteq> insert (PageID fd p) (dom (busy_map s))"
  by (rule fetch_page_run[OF assms]) (metis holds_def that)

section \<open>Flushing\<close>

text \<open>The first \<open>n\<close> bytes of every file that had them are still there.\<close>

definition prefix_kept :: "nat \<Rightarrow> 'z pf_state_scheme \<Rightarrow> 'z pf_state_scheme \<Rightarrow> bool" where
  "prefix_kept n s t \<longleftrightarrow> (\<forall>path b. files s path = Some b \<longrightarrow>
     (\<exists>b'. files t path = Some b' \<and> length b \<le> length b' \<and>
       (\<forall>k \<le> n. k \<le> length b \<longrightarrow> take k b' = take k b)))"

lemma prefix_kept_refl [simp]: "prefix_kept n s s"
  by (simp add: prefix_kept_def)

lemma prefix_kept_trans:
  assumes "prefix_kept n s t" "prefix_kept n t u"
  shows "prefix_kept n s u"
  unfolding prefix_kept_def
proof (intro allI impI)
  fix path b assume "files s path = Some b"
  with assms(1) obtain b1 where b1: "files t path = Some b1" "length b \<le> length b1"
    "\<And>k. k \<le> n \<Longrightarrow> k \<le> length b \<Longrightarrow> take k b1 = take k b"
    unfolding prefix_kept_def by blast
  with assms(2) obtain b2 where b2: "files u path = Some b2" "length b1 \<le> length b2"
    "\<And>k. k \<le> n \<Longrightarrow> k \<le> length b1 \<Longrightarrow> take k b2 = take k b1"
    unfolding prefix_kept_def by blast
  have "take k b2 = take k b" if "k \<le> n" "k \<le> length b" for k
    using b1(2) b1(3)[OF that] b2(3)[of k] that by simp
  with b1(2) b2(1,2) show "\<exists>b'. files u path = Some b' \<and> length b \<le> length b' \<and>
      (\<forall>k \<le> n. k \<le> length b \<longrightarrow> take k b' = take k b)"
    by (intro exI[of _ b2]) simp
qed

lemma flush_page_run:
  assumes inv: "pager_inv s" and map: "busy_map s pid = Some i"
  obtains t where "flush_page i s = (Inr (), t)" "pager_inv t" "page_view s \<subseteq>\<^sub>m page_view t"
    "same_env s t" "cache_sem t = cache_sem s" "busy_pages t = remove1 i (busy_pages s)"
    "busy_map t = (busy_map s)(pid := None)" "\<And>j. page_id (pages t ! j) = page_id (pages s ! j)"
    "prefix_kept (page_off (pid_page pid)) s t" "disk_page t pid = Some (buf (pages s ! i))"
proof -
  note p = pager_inv_parts[OF inv] and h = held_page[OF inv map]
  obtain F where F: "force_page i s = (Inr (), cleaned i F s)" "dom F = dom (files s)"
    "\<And>path. path \<notin> snd ` set (open_fds s) \<Longrightarrow> F path = files s path"
    "disk_page (cleaned i F s) (page_id (pages s ! i)) = Some (buf (pages s ! i))"
    "\<And>q x. q \<noteq> page_id (pages s ! i) \<Longrightarrow> disk_page s q = Some x \<Longrightarrow> disk_page (cleaned i F s) q = Some x"
    "\<And>path b. files s path = Some b \<Longrightarrow> \<exists>b'. F path = Some b' \<and> length b \<le> length b' \<and>
       (\<forall>n. n \<le> page_off (pid_page (page_id (pages s ! i))) \<and> n \<le> length b \<longrightarrow> take n b' = take n b)"
    by (rule force_page_run[OF p(1,2) h(1) p(4)[OF h(2)]]) (rule that; assumption)
  let ?t = "(cleaned i F s)\<lparr>busy_pages := remove1 i (busy_pages s), free_pages := i # free_pages s,
     busy_map := (busy_map s)(pid := None)\<rparr>"
  have fields: "open_fds ?t = open_fds s" "files ?t = F" "pages ?t = pages (cleaned i F s)"
    "busy_pages ?t = remove1 i (busy_pages s)" "free_pages ?t = i # free_pages s"
    "busy_map ?t = (busy_map s)(pid := None)" "cache_sem ?t = cache_sem s"
    by simp_all
  have dt: "disk_page ?t = disk_page (cleaned i F s)"
    by (rule disk_page_cong) simp_all
  have run: "flush_page i s = (Inr (), ?t)"
    using F(1) map h(3) by (simp add: flush_page_def in_cache_def)
  have d: "distinct (busy_pages s @ free_pages s)" "set (busy_pages s @ free_pages s) = {..<length (pages s)}"
    using p(2) by (auto simp: pager_struct_def)
  have rm: "set (remove1 i (busy_pages s)) = set (busy_pages s) - {i}" using d by simp
  have struct: "pager_struct ?t"
  proof -
    have "distinct (remove1 i (busy_pages s) @ i # free_pages s)" using d(1) h(2) rm by auto
    moreover have "set (remove1 i (busy_pages s) @ i # free_pages s) = {..<length (pages s)}"
      using d rm h(2) by auto
    moreover have "pages (cleaned i F s) \<noteq> []" using p(2) by (simp add: pager_struct_def cleaned_def)
    ultimately show ?thesis
      using p(2) unfolding pager_struct_def fields cleaned_fields(7) cleaned_page by (intro conjI) simp_all
  qed
  have ml: "map_lists ?t (remove1 i (busy_pages s))"
    unfolding map_lists_def fields cleaned_page rm
    using p(3) map_lists_inj[OF p(3)] h(2,3) by (auto simp: map_lists_def)
  have sync: "page_synced ?t j" if j: "j \<in> set (remove1 i (busy_pages s))" for j
  proof (rule page_synced_cong[of s])
    have jb: "j \<in> set (busy_pages s)" and ji: "j \<noteq> i" using j rm by auto
    show "page_synced s j" using p(4) jb by simp
    have "page_id (pages s ! j) \<noteq> page_id (pages s ! i)" using map_lists_inj[OF p(3) jb h(2)] ji by blast
    then show "disk_page ?t (page_id (pages s ! j)) = Some x"
      if "disk_page s (page_id (pages s ! j)) = Some x" for x
      using that F(5) unfolding dt by simp
    show "is_dirty (pages ?t ! j) = is_dirty (pages s ! j)" unfolding fields using ji by simp
  qed simp_all
  have view: "page_view s \<subseteq>\<^sub>m page_view ?t"
  proof (unfold map_le_def, intro ballI)
    fix q assume "q \<in> dom (page_view s)"
    then obtain x where x: "page_view s q = Some x" by blast
    show "page_view s q = page_view ?t q"
    proof (cases "q = pid")
      case True
      then show ?thesis using h(3,5) F(4) unfolding page_view_def[of ?t] fields dt by simp
    next
      case False
      then show ?thesis
        using x F(5)[of q] h(3) unfolding page_view_def fields dt by (auto split: option.splits)
    qed
  qed
  have env: "same_env s ?t"
    using F(2,3) by (auto simp: same_env_def cleaned_def)
  have pk: "prefix_kept (page_off (pid_page pid)) s ?t"
    using F(6) unfolding prefix_kept_def h(3) by simp blast
  have "pager_inv ?t"
    using struct ml sync os_wf_cong[of ?t s] F(2) p(1) by (simp add: pager_inv_def)
  then show ?thesis
    using that[OF run _ view env] fields(4,6,7) pk F(4) h(3) dt by simp
qed

text \<open>The loop of \<open>flush_file\<close>, over the pages the list held at its start.\<close>

lemma flush_if_run [simp]:
  "pid_fd (page_id (pages s ! i)) = fd \<Longrightarrow> flush_if fd i s = flush_page i s"
  "pid_fd (page_id (pages s ! i)) \<noteq> fd \<Longrightarrow> flush_if fd i s = (Inr (), s)"
  by (simp_all add: flush_if_def)

lemma flush_loop:
  assumes "pager_inv s" "distinct is" "set is \<subseteq> set (busy_pages s)"
    "\<And>i. i \<in> set is \<Longrightarrow> pid_fd (page_id (pages s ! i)) = fd \<Longrightarrow> n \<le> page_off (pid_page (page_id (pages s ! i)))"
  shows "\<exists>t. forEach is (flush_if fd) s = (Inr (), t) \<and> pager_inv t \<and> page_view s \<subseteq>\<^sub>m page_view t \<and>
    same_env s t \<and> cache_sem t = cache_sem s \<and> prefix_kept n s t \<and>
    (\<forall>j. page_id (pages t ! j) = page_id (pages s ! j)) \<and>
    set (busy_pages t) = set (busy_pages s) - {i \<in> set is. pid_fd (page_id (pages s ! i)) = fd}"
  using assms
proof (induction "is" arbitrary: s)
  case Nil
  then show ?case by simp
next
  case (Cons i "is")
  have ib: "i \<in> set (busy_pages s)" using Cons.prems(3) by simp
  show ?case
  proof (cases "pid_fd (page_id (pages s ! i)) = fd")
    case False
    obtain t where "forEach is (flush_if fd) s = (Inr (), t)" "pager_inv t" "page_view s \<subseteq>\<^sub>m page_view t"
      "same_env s t" "cache_sem t = cache_sem s" "prefix_kept n s t"
      "\<forall>j. page_id (pages t ! j) = page_id (pages s ! j)"
      "set (busy_pages t) = set (busy_pages s) - {i \<in> set is. pid_fd (page_id (pages s ! i)) = fd}"
      using Cons.IH[of s] Cons.prems by (simp, blast)
    with False show ?thesis by (intro exI[of _ t]) auto
  next
    case True
    let ?pid = "page_id (pages s ! i)"
    have map: "busy_map s ?pid = Some i"
      using map_lists_Some[OF pager_inv_parts(3)[OF Cons.prems(1)] ib] .
    obtain u where u: "flush_page i s = (Inr (), u)" "pager_inv u" "page_view s \<subseteq>\<^sub>m page_view u"
      "same_env s u" "cache_sem u = cache_sem s" "busy_pages u = remove1 i (busy_pages s)"
      "busy_map u = (busy_map s)(?pid := None)" "\<And>j. page_id (pages u ! j) = page_id (pages s ! j)"
      "prefix_kept (page_off (pid_page ?pid)) s u" "disk_page u ?pid = Some (buf (pages s ! i))"
      by (rule flush_page_run[OF Cons.prems(1) map]) (rule that; assumption)
    have d: "distinct (busy_pages s)"
      using pager_inv_parts(2)[OF Cons.prems(1)] by (simp add: pager_struct_def)
    have busy: "set (busy_pages u) = set (busy_pages s) - {i}" using u(6) d by simp
    have pk: "prefix_kept n s u"
      using u(9) Cons.prems(4)[of i] True by (force simp: prefix_kept_def)
    have "\<exists>t. forEach is (flush_if fd) u = (Inr (), t) \<and> pager_inv t \<and> page_view u \<subseteq>\<^sub>m page_view t \<and>
      same_env u t \<and> cache_sem t = cache_sem u \<and> prefix_kept n u t \<and>
      (\<forall>j. page_id (pages t ! j) = page_id (pages u ! j)) \<and>
      set (busy_pages t) = set (busy_pages u) - {i \<in> set is. pid_fd (page_id (pages u ! i)) = fd}"
      using Cons.prems u(2,8) busy by (intro Cons.IH) auto
    then obtain t where t: "forEach is (flush_if fd) u = (Inr (), t)" "pager_inv t"
      "page_view u \<subseteq>\<^sub>m page_view t" "same_env u t" "cache_sem t = cache_sem u" "prefix_kept n u t"
      "\<forall>j. page_id (pages t ! j) = page_id (pages u ! j)"
      "set (busy_pages t) = set (busy_pages u) - {i \<in> set is. pid_fd (page_id (pages u ! i)) = fd}"
      by blast
    have "set (busy_pages t) = set (busy_pages s) - {j \<in> set (i # is). pid_fd (page_id (pages s ! j)) = fd}"
      unfolding t(8) busy u(8) using True by auto
    moreover have "forEach (i # is) (flush_if fd) s = (Inr (), t)" using True u(1) t(1) by simp
    moreover have "page_view s \<subseteq>\<^sub>m page_view t" using u(3) t(3) by (rule map_le_trans)
    moreover have "same_env s t" using u(4) t(4) by (rule same_env_trans)
    moreover have "prefix_kept n s t" using pk t(6) by (rule prefix_kept_trans)
    ultimately show ?thesis using t(2,5,7) u(5,8) by (intro exI[of _ t]) simp
  qed
qed

text \<open>
  After \<open>flush_file\<close> no page of the file is cached, everything visible is unchanged, and
  the bytes before the least flushed page (a file header) are as they were on disk.
\<close>

lemma flush_file_run:
  assumes wf: "pf_wf s"
    and low: "\<And>p. busy_map s (PageID fd p) \<noteq> None \<Longrightarrow> n \<le> page_off p"
  obtains t where "flush_file fd s = (Inr (), t)" "pf_wf t" "page_view s \<subseteq>\<^sub>m page_view t" "same_env s t"
    "prefix_kept n s t" "\<And>p. busy_map t (PageID fd p) = None"
    "\<And>i. i \<in> set (busy_pages t) \<Longrightarrow> i \<in> set (busy_pages s)" "dom (busy_map t) \<subseteq> dom (busy_map s)"
proof -
  let ?s = "s\<lparr>cache_sem := 0\<rparr>"
  have inv: "pager_inv ?s" and sem: "cache_sem s = 1" using wf by (auto simp: pf_wf_def)
  have d: "distinct (busy_pages ?s)"
    using pager_inv_parts(2)[OF inv] by (simp add: pager_struct_def)
  have low': "n \<le> page_off (pid_page (page_id (pages ?s ! i)))"
    if "i \<in> set (busy_pages ?s)" "pid_fd (page_id (pages ?s ! i)) = fd" for i
    using low[of "pid_page (page_id (pages s ! i))"] map_lists_Some[OF pager_inv_parts(3)[OF inv] that(1)] that(2)
    by (cases "page_id (pages s ! i)") simp
  obtain t where t: "forEach (busy_pages ?s) (flush_if fd) ?s = (Inr (), t)" "pager_inv t"
    "page_view ?s \<subseteq>\<^sub>m page_view t" "same_env ?s t" "cache_sem t = cache_sem ?s" "prefix_kept n ?s t"
    "\<forall>j. page_id (pages t ! j) = page_id (pages ?s ! j)"
    "set (busy_pages t) = set (busy_pages ?s) - {i \<in> set (busy_pages ?s). pid_fd (page_id (pages ?s ! i)) = fd}"
    using flush_loop[OF inv d subset_refl low'] by blast
  let ?t = "t\<lparr>cache_sem := 1\<rparr>"
  have "flush_file fd s = (Inr (), ?t)"
    using sem t(1,5) by (simp add: flush_file_def sem_wait_cache_def sem_post_cache_def)
  moreover have "busy_map ?t (PageID fd p) = None" for p
  proof (rule ccontr)
    assume "busy_map ?t (PageID fd p) \<noteq> None"
    then obtain i where "busy_map t (PageID fd p) = Some i" by auto
    then have "i \<in> set (busy_pages t)" "page_id (pages t ! i) = PageID fd p"
      using pager_inv_parts(3)[OF t(2)] by (auto simp: map_lists_def)
    then show False using t(7,8) by auto
  qed
  moreover have "dom (busy_map ?t) \<subseteq> dom (busy_map s)"
  proof
    fix q assume "q \<in> dom (busy_map ?t)"
    then obtain i where "busy_map t q = Some i" by auto
    then have "i \<in> set (busy_pages t)" "page_id (pages t ! i) = q"
      using pager_inv_parts(3)[OF t(2)] by (auto simp: map_lists_def)
    then have "busy_map s q = Some i" using t(7,8) map_lists_Some[OF pager_inv_parts(3)[OF inv], of i] by auto
    then show "q \<in> dom (busy_map s)" by blast
  qed
  moreover have "prefix_kept n s ?t" using t(6) by (simp add: prefix_kept_def)
  ultimately show ?thesis using that[of ?t] t(2,3,4,8) by (simp add: pf_wf_def)
qed

section \<open>A failed read keeps the cache lock\<close>

text \<open>
  When the page is not on disk the exception leaves \<open>get_page\<close> between \<open>sem_wait\<close> and
  \<open>sem_post\<close>, and the map already names the page.
\<close>

lemma get_page_locked: "cache_sem s = 0 \<Longrightarrow> get_page e fd p s = (Inl Blocked, s)"
  by (simp add: get_page_def sem_wait_cache_def)

lemma fetch_page_absent:
  assumes wf: "pf_wf s" and v: "valid_pid s (PageID fd p)" and absent: "page_view s (PageID fd p) = None"
    and room: "free_pages s \<noteq> []"
  shows "\<exists>t. fetch_page fd p s = (Inl (Throw UnixError), t) \<and> cache_sem t = 0 \<and>
    busy_map t (PageID fd p) \<noteq> None"
proof -
  let ?pid = "PageID fd p"
  have miss: "busy_map s ?pid = None" and nod: "disk_page s ?pid = None"
    using absent by (auto simp: page_view_def split: option.splits)
  have sem: "cache_sem s = 1" and st: "pager_struct s" using wf by (auto simp: pf_wf_def pager_inv_def)
  let ?i = "hd (free_pages s)"
  let ?t = "(s\<lparr>cache_sem := 0\<rparr>)\<lparr>busy_pages := ?i # busy_pages s, free_pages := tl (free_pages s)\<rparr>"
  have "?i \<in> set (free_pages s)" using room by simp
  then have i: "?i < length (pages ?t)" using st by (auto simp: pager_struct_def)
  let ?u = "put_page ?pid ?i (buf (pages ?t ! ?i)) False ?t"
  have cl: "claim_page (s\<lparr>cache_sem := 0\<rparr>) = (Inr ?i, ?t)"
    using room by (simp add: claim_page_def take_free_def)
  have du: "disk_page ?u = disk_page s" by (rule disk_page_cong) simp_all
  have vu: "valid_pid ?u = valid_pid s" by (rule valid_pid_cong) simp
  obtain x where x: "read_page fd p PAGE_SIZE (fill_buf ?i) ?u = (Inl (Throw UnixError), fill_buf ?i x ?u)"
    using read_page_short[of ?u fd p] v nod du vu by auto
  have "fetch_page fd p s = (Inl (Throw UnixError), fill_buf ?i x ?u)"
    using sem miss cl install_page_run[OF i, of ?pid] x
    by (simp add: fetch_page_def get_page_def sem_wait_cache_def)
  moreover have "cache_sem (fill_buf ?i x ?u) = 0" "busy_map (fill_buf ?i x ?u) ?pid = Some ?i"
    by (simp_all add: fill_buf_def upd_page_def put_page_def)
  ultimately show ?thesis by blast
qed

lemma remove1_map_inj:
  "inj_on f (set xs) \<Longrightarrow> x \<in> set xs \<Longrightarrow> remove1 (f x) (map f xs) = map f (remove1 x xs)"
  by (induction xs) (auto simp: inj_on_def)

section \<open>The busy list is the least-recently-used order\<close>

definition lru_ids :: "'z pf_state_scheme \<Rightarrow> PageID list" where
  "lru_ids s = map (\<lambda>i. page_id (pages s ! i)) (busy_pages s)"

definition lru_touch :: "nat \<Rightarrow> 'a \<Rightarrow> 'a list \<Rightarrow> 'a list" where
  "lru_touch n x xs = x # (if x \<in> set xs then remove1 x xs else if length xs = n then butlast xs else xs)"

lemma lru_get_page:
  assumes wf: "pf_wf s" and v: "valid_pid s (PageID fd p)"
    and seen: "EXISTS \<Longrightarrow> page_view s (PageID fd p) \<noteq> None"
  shows "\<exists>i t. get_page EXISTS fd p s = (Inr i, t) \<and>
    lru_ids t = lru_touch (length (pages s)) (PageID fd p) (lru_ids s)"
proof -
  let ?pid = "PageID fd p"
  have inv: "pager_inv s" using wf by (simp add: pf_wf_def)
  note ip = pager_inv_parts[OF inv]
  have d: "distinct (busy_pages s @ free_pages s)"
    and all: "set (busy_pages s @ free_pages s) = {..<length (pages s)}"
    using ip(2) by (auto simp: pager_struct_def)
  have inj: "inj_on (\<lambda>i. page_id (pages s ! i)) (set (busy_pages s))"
    using map_lists_inj[OF ip(3)] by (auto intro: inj_onI)
  have len: "length (busy_pages s) = length (pages s) \<longleftrightarrow> free_pages s = []"
    using distinct_card[OF d] all by auto
  show ?thesis
  proof (cases "busy_map s ?pid")
    case (Some i)
    note h = held_page[OF inv Some]
    have "lru_ids (touched i s) = ?pid # remove1 ?pid (lru_ids s)"
      using remove1_map_inj[OF inj h(2)] h(3) by (simp add: lru_ids_def touched_def)
    moreover have "?pid \<in> set (lru_ids s)" using h(2,3) by (force simp: lru_ids_def)
    ultimately show ?thesis using get_page_hit[OF wf Some, of EXISTS] by (simp add: lru_touch_def)
  next
    case None
    from get_page_miss[OF wf v None] obtain i t where t: "claimed i t" "i < length (pages t)" "same_env s t"
      "page_view s \<subseteq>\<^sub>m page_view t" "busy_map t ?pid = None"
      "tl (busy_pages t) = (if free_pages s = [] then butlast (busy_pages s) else busy_pages s)"
      "\<And>j. page_id (pages t ! j) = page_id (pages s ! j)"
      "get_page False fd p s = (Inr i, (put_page ?pid i (buf (pages t ! i)) False t)\<lparr>cache_sem := 1\<rparr>)"
      "\<And>x. disk_page t ?pid = Some x \<Longrightarrow>
         get_page True fd p s = (Inr i, (put_page ?pid i x False t)\<lparr>cache_sem := 1\<rparr>)"
      by metis
    obtain rest where busy: "busy_pages t = i # rest" and ni: "i \<notin> set rest"
      using t(1) by (cases "busy_pages t") (auto simp: claimed_def pager_struct_def)
    have nin: "?pid \<notin> set (lru_ids s)"
      using not_cached[OF inv None] unfolding lru_ids_def by (metis (no_types, lifting) imageE set_map)
    have lru: "lru_ids ((put_page ?pid i b False t)\<lparr>cache_sem := 1\<rparr>)
        = lru_touch (length (pages s)) ?pid (lru_ids s)" for b
    proof -
      have "map (\<lambda>j. page_id (pages (put_page ?pid i b False t) ! j)) rest
          = map (\<lambda>j. page_id (pages s ! j)) rest"
        using ni t(7) by (intro map_cong refl) (metis put_page_nth(2))
      moreover have "page_id (pages (put_page ?pid i b False t) ! i) = ?pid"
        using t(2) by (simp add: put_page_nth)
      ultimately have "lru_ids ((put_page ?pid i b False t)\<lparr>cache_sem := 1\<rparr>)
          = ?pid # map (\<lambda>j. page_id (pages s ! j)) rest"
        by (simp add: lru_ids_def busy)
      moreover have "rest = (if free_pages s = [] then butlast (busy_pages s) else busy_pages s)"
        using t(6) busy by simp
      ultimately show ?thesis using nin len by (simp add: lru_touch_def lru_ids_def map_butlast)
    qed
    show ?thesis
    proof (cases EXISTS)
      case True
      then obtain x where "page_view s ?pid = Some x" using seen by auto
      then have "page_view t ?pid = Some x" using t(4) by (auto simp: map_le_def dom_def)
      then have "disk_page t ?pid = Some x" using t(5) by (simp add: page_view_def)
      with True show ?thesis using t(9) lru by auto
    next
      case False
      then show ?thesis using t(8) lru by auto
    qed
  qed
qed

section \<open>Flushing everything, start and end\<close>

definition clean_page :: "'z pf_state_scheme \<Rightarrow> nat \<Rightarrow> bool" where
  "clean_page s i \<longleftrightarrow> disk_page s (page_id (pages s ! i)) = Some (buf (pages s ! i))"

lemma force_keeps:
  assumes inv: "pager_inv s" and i: "i \<in> set (busy_pages s)"
  obtains t where "force_page i s = (Inr (), t)" "pager_inv t" "page_view s \<subseteq>\<^sub>m page_view t" "same_env s t"
    "busy_pages t = busy_pages s" "free_pages t = free_pages s" "busy_map t = busy_map s"
    "cache_sem t = cache_sem s" "clean_page t i" "\<And>j. j \<in> set (busy_pages s) \<Longrightarrow> clean_page s j \<Longrightarrow> clean_page t j"
proof -
  note p = pager_inv_parts[OF inv]
  have il: "i < length (pages s)" using p(2) i by (rule pager_struct_index)
  obtain F where F: "force_page i s = (Inr (), cleaned i F s)" "dom F = dom (files s)"
    "\<And>path. path \<notin> snd ` set (open_fds s) \<Longrightarrow> F path = files s path"
    "disk_page (cleaned i F s) (page_id (pages s ! i)) = Some (buf (pages s ! i))"
    "\<And>q x. q \<noteq> page_id (pages s ! i) \<Longrightarrow> disk_page s q = Some x \<Longrightarrow> disk_page (cleaned i F s) q = Some x"
    by (rule force_page_run[OF p(1,2) il p(4)[OF i]]) (rule that; assumption)
  let ?t = "cleaned i F s"
  have struct: "pager_struct ?t"
    using p(2) unfolding pager_struct_def cleaned_fields cleaned_page by (auto simp: cleaned_def)
  have ml: "map_lists ?t (busy_pages s)"
    using p(3) unfolding map_lists_def cleaned_fields cleaned_page .
  have cl: "clean_page ?t j" if "j \<in> set (busy_pages s)" "clean_page s j" for j
  proof (cases "j = i")
    case True
    then show ?thesis using F(4) by (simp add: clean_page_def)
  next
    case False
    then have "page_id (pages s ! j) \<noteq> page_id (pages s ! i)"
      using map_lists_inj[OF p(3) that(1) i] by blast
    then show ?thesis using F(5) that(2) by (simp add: clean_page_def)
  qed
  have sync: "page_synced ?t j" if j: "j \<in> set (busy_pages s)" for j
  proof (cases "j = i")
    case True
    then show ?thesis using F(4) p(4)[OF i] by (simp add: page_synced_def)
  next
    case False
    show ?thesis
      using p(4)[OF j] cl[OF j] False by (auto simp: page_synced_def clean_page_def)
  qed
  have view: "page_view s \<subseteq>\<^sub>m page_view ?t"
  proof (unfold map_le_def, intro ballI)
    fix q assume "q \<in> dom (page_view s)"
    then obtain x where x: "page_view s q = Some x" by blast
    show "page_view s q = page_view ?t q"
    proof (cases "busy_map s q")
      case None
      then have "q \<noteq> page_id (pages s ! i)" using map_lists_Some[OF p(3) i] by auto
      with None x F(5) show ?thesis by (simp add: page_view_def)
    qed (simp add: page_view_def)
  qed
  have env: "same_env s ?t" using F(2,3) by (auto simp: same_env_def cleaned_def)
  have "pager_inv ?t"
    using struct ml sync os_wf_cong[of ?t s] F(2) p(1) by (simp add: pager_inv_def)
  then show ?thesis
    using that[OF F(1) _ view env] cl F(4) by (simp add: clean_page_def)
qed

lemma force_loop:
  assumes "pager_inv s" "set is \<subseteq> set (busy_pages s)"
  shows "\<exists>t. forEach is force_page s = (Inr (), t) \<and> pager_inv t \<and> page_view s \<subseteq>\<^sub>m page_view t \<and>
    same_env s t \<and> busy_pages t = busy_pages s \<and> free_pages t = free_pages s \<and> busy_map t = busy_map s \<and>
    cache_sem t = cache_sem s \<and>
    (\<forall>j \<in> set (busy_pages s). j \<in> set is \<or> clean_page s j \<longrightarrow> clean_page t j)"
  using assms
proof (induction "is" arbitrary: s)
  case Nil
  then show ?case by simp
next
  case (Cons i "is")
  have i: "i \<in> set (busy_pages s)" using Cons.prems(2) by simp
  obtain u where u: "force_page i s = (Inr (), u)" "pager_inv u" "page_view s \<subseteq>\<^sub>m page_view u" "same_env s u"
    "busy_pages u = busy_pages s" "free_pages u = free_pages s" "busy_map u = busy_map s"
    "cache_sem u = cache_sem s" "clean_page u i" "\<And>j. j \<in> set (busy_pages s) \<Longrightarrow> clean_page s j \<Longrightarrow> clean_page u j"
    by (rule force_keeps[OF Cons.prems(1) i]) (rule that; assumption)
  have "set is \<subseteq> set (busy_pages u)" using Cons.prems(2) u(5) by simp
  from Cons.IH[OF u(2) this] obtain t where t: "forEach is force_page u = (Inr (), t)" "pager_inv t"
    "page_view u \<subseteq>\<^sub>m page_view t" "same_env u t" "busy_pages t = busy_pages u" "free_pages t = free_pages u"
    "busy_map t = busy_map u" "cache_sem t = cache_sem u"
    "\<forall>j \<in> set (busy_pages u). j \<in> set is \<or> clean_page u j \<longrightarrow> clean_page t j"
    by blast
  have "page_view s \<subseteq>\<^sub>m page_view t" using u(3) t(3) by (rule map_le_trans)
  moreover have "same_env s t" using u(4) t(4) by (rule same_env_trans)
  moreover have "\<forall>j \<in> set (busy_pages s). j \<in> set (i # is) \<or> clean_page s j \<longrightarrow> clean_page t j"
    using t(9) u(5,9,10) by auto
  ultimately show ?case using u(1,5-8) t(1,2,5-8) by (intro exI[of _ t]) simp
qed

text \<open>
  Afterwards the pool is empty, every page is free, and what a client saw in a cached page is
  on disk: the assertion of the destructor holds.
\<close>

lemma flush_all_run:
  assumes wf: "pf_wf s"
  obtains t where "flush_all s = (Inr (), t)" "pf_wf t" "page_view s \<subseteq>\<^sub>m disk_page t" "same_env s t"
    "busy_pages t = []" "length (free_pages t) = length (pages t)" "busy_map t = Map.empty"
    "PF_Pager_destroy s = (Inr (), t)"
proof -
  let ?s = "s\<lparr>cache_sem := 0\<rparr>"
  have inv: "pager_inv ?s" and sem: "cache_sem s = 1" using wf by (auto simp: pf_wf_def)
  obtain u where u: "forEach (busy_pages s) force_page ?s = (Inr (), u)" "pager_inv u"
    "page_view ?s \<subseteq>\<^sub>m page_view u" "same_env ?s u" "busy_pages u = busy_pages s"
    "cache_sem u = 0" "\<forall>j \<in> set (busy_pages s). clean_page u j"
    using force_loop[OF inv, of "busy_pages s"] by auto
  let ?t = "u\<lparr>free_pages := free_pages u @ busy_pages u, busy_pages := [], busy_map := Map.empty, cache_sem := 1\<rparr>"
  note p = pager_inv_parts[OF u(2)]
  have run: "flush_all s = (Inr (), ?t)"
    using sem u(1,6) by (simp add: flush_all_def sem_wait_cache_def sem_post_cache_def)
  have perm: "distinct (free_pages u @ busy_pages u)" "set (free_pages u @ busy_pages u) = {..<length (pages u)}"
    using p(2) by (auto simp: pager_struct_def)
  have struct: "pager_struct ?t" using p(2) perm by (simp add: pager_struct_def)
  have wf': "pf_wf ?t"
    using struct p(1) by (simp add: pf_wf_def pager_inv_def map_lists_def os_wf_def)
  have len: "length (free_pages ?t) = length (pages ?t)"
    using distinct_card[OF perm(1)] perm(2) by simp
  have dt: "disk_page ?t = disk_page u" by (rule disk_page_cong) simp_all
  have "page_view u \<subseteq>\<^sub>m disk_page ?t"
    unfolding dt map_le_def
  proof
    fix q assume "q \<in> dom (page_view u)"
    show "page_view u q = disk_page u q"
    proof (cases "busy_map u q")
      case (Some i)
      then have "i \<in> set (busy_pages s)" "page_id (pages u ! i) = q"
        using p(3) u(5) by (auto simp: map_lists_def)
      then have "disk_page u q = Some (buf (pages u ! i))" using u(7) by (auto simp: clean_page_def)
      with Some show ?thesis by (simp add: page_view_def)
    qed (simp add: page_view_def)
  qed
  then have view: "page_view s \<subseteq>\<^sub>m disk_page ?t"
    using u(3) by (simp only: page_view_sem) (rule map_le_trans)
  have env: "same_env s ?t" using u(4) by (simp add: same_env_def)
  have "PF_Pager_destroy s = (Inr (), ?t)"
    using run len by (simp add: PF_Pager_destroy_def)
  then show ?thesis using that[OF run wf' view env] len by simp
qed

text \<open>The constructor establishes the invariant.\<close>

lemma PF_Pager_init_wf:
  assumes "os_wf s" "0 < n" "cache_sem s = 1"
  shows "pf_wf (PF_Pager_init n s)" "page_view (PF_Pager_init n s) = disk_page s"
proof -
  have "disk_page (PF_Pager_init n s) = disk_page s"
    by (rule disk_page_cong) (simp_all add: PF_Pager_init_def)
  then show "page_view (PF_Pager_init n s) = disk_page s"
    by (simp add: page_view_def fun_eq_iff PF_Pager_init_def)
  show "pf_wf (PF_Pager_init n s)"
    using assms unfolding pf_wf_def pager_inv_def pager_struct_def map_lists_def
    by (auto simp: PF_Pager_init_def blank_page_def os_wf_def)
qed

end
