(* ===== verification/PageCache.thy ===== *)
theory PageCache
  imports PagerOps
begin

text \<open>
  The interface through which the record manager and the index handler use the buffer pool: a
  client fetches or creates a page, holds it, changes its bytes and marks it dirty. The
  locale states what the pool promises (a fetched page has the content the client last
  saw, other pages keep theirs, whatever is evicted) and derives the access patterns of the
  clients: read a page, read-modify-write a page, start a page. \<open>cached\<close> is the set of pages
  in memory; a client that writes a page past the pool needs to know it is not there.
\<close>

locale page_cache =
  fixes wf :: "'s \<Rightarrow> bool"
    and view :: "'s \<Rightarrow> 'k \<rightharpoonup> byte list"
    and valid :: "'s \<Rightarrow> 'k \<Rightarrow> bool"
    and env :: "'s \<Rightarrow> 's \<Rightarrow> bool"
    and cached :: "'s \<Rightarrow> 'k set"
    and held :: "'s \<Rightarrow> 'k \<Rightarrow> nat \<Rightarrow> byte list \<Rightarrow> bool"
    and held_dirty :: "'s \<Rightarrow> 'k \<Rightarrow> nat \<Rightarrow> byte list \<Rightarrow> bool"
    and bytes :: "nat \<Rightarrow> 's \<Rightarrow> byte list"
    and ident :: "nat \<Rightarrow> 's \<Rightarrow> 'k"
    and fetch :: "'k \<Rightarrow> ('s, 'e, nat) prog"
    and create :: "'k \<Rightarrow> ('s, 'e, nat) prog"
    and mark :: "nat \<Rightarrow> ('s, 'e, unit) prog"
    and edit :: "nat \<Rightarrow> (byte list \<Rightarrow> byte list) \<Rightarrow> ('s, 'e, unit) prog"
  assumes env_refl: "env s s"
    and env_trans: "env s t \<Longrightarrow> env t u \<Longrightarrow> env s u"
    and env_valid: "env s t \<Longrightarrow> valid t = valid s"
    and held_facts: "held s k i b \<Longrightarrow> wf s \<and> view s k = Some b \<and> bytes i s = b \<and>
      ident i s = k \<and> length b = PAGE_SIZE"
    and dirty_held: "held_dirty s k i b \<Longrightarrow> held s k i b"
    and fetch_law: "wf s \<Longrightarrow> valid s k \<Longrightarrow> view s k = Some x \<Longrightarrow>
      \<exists>i t. fetch k s = (Inr i, t) \<and> held t k i x \<and> view s \<subseteq>\<^sub>m view t \<and> env s t \<and>
        cached t \<subseteq> insert k (cached s)"
    and create_law: "wf s \<Longrightarrow> valid s k \<Longrightarrow>
      \<exists>i t b. create k s = (Inr i, t) \<and> held_dirty t k i b \<and> (view s)(k := None) \<subseteq>\<^sub>m view t \<and>
        env s t \<and> cached t \<subseteq> insert k (cached s)"
    and mark_law: "held s k i b \<Longrightarrow>
      \<exists>t. mark i s = (Inr (), t) \<and> held_dirty t k i b \<and> view t = view s \<and> env s t \<and> cached t = cached s"
    and edit_law: "held_dirty s k i b \<Longrightarrow> length (f b) = PAGE_SIZE \<Longrightarrow>
      \<exists>t. edit i f s = (Inr (), t) \<and> held_dirty t k i (f b) \<and> view t = (view s)(k \<mapsto> f b) \<and> env s t \<and>
        cached t = cached s"
    and edit_mark_law: "held s k i b \<Longrightarrow> length (f b) = PAGE_SIZE \<Longrightarrow>
      \<exists>u t. edit i f s = (Inr (), u) \<and> mark i u = (Inr (), t) \<and> held_dirty t k i (f b) \<and>
        view t = (view s)(k \<mapsto> f b) \<and> env s t \<and> cached t = cached s"
begin

text \<open>\<open>reach s K V t\<close>: a run from \<open>s\<close> ended in \<open>t\<close>, where the pages of \<open>V\<close> can be seen, having
  cached at most pages of \<open>K\<close>.\<close>

definition reach :: "'s \<Rightarrow> 'k set \<Rightarrow> ('k \<rightharpoonup> byte list) \<Rightarrow> 's \<Rightarrow> bool" where
  "reach s K V t \<longleftrightarrow> wf t \<and> V \<subseteq>\<^sub>m view t \<and> env s t \<and> cached t \<subseteq> K \<union> cached s"

lemma reach_refl: "wf s \<Longrightarrow> reach s K (view s) s"
  by (simp add: reach_def env_refl)

lemma reach_trans:
  "reach s K V t \<Longrightarrow> reach t L W u \<Longrightarrow> V' \<subseteq>\<^sub>m W \<Longrightarrow> reach s (K \<union> L) V' u"
  by (auto simp: reach_def intro: env_trans map_le_trans)

lemma map_le_upd: "V \<subseteq>\<^sub>m W \<Longrightarrow> V(k \<mapsto> x) \<subseteq>\<^sub>m W(k \<mapsto> x)"
  by (simp add: map_le_def)

lemma map_le_upd_None: "V(k := None) \<subseteq>\<^sub>m W \<Longrightarrow> V(k \<mapsto> x) \<subseteq>\<^sub>m W(k \<mapsto> x)"
  by (auto simp: map_le_def dom_def)

text \<open>Reading: a look at a page changes nothing a client sees.\<close>

lemma fetch_reach:
  assumes "wf s" "valid s k" "view s k = Some x"
  obtains i t where "fetch k s = (Inr i, t)" "held t k i x" "bytes i t = x" "reach s {k} (view s) t"
proof -
  from fetch_law[OF assms] obtain i t where t: "fetch k s = (Inr i, t)" "held t k i x"
    "view s \<subseteq>\<^sub>m view t" "env s t" "cached t \<subseteq> insert k (cached s)" by blast
  then show ?thesis using that held_facts[OF t(2)] by (simp add: reach_def)
qed

lemma peek:
  assumes "wf s" "valid s k" "view s k = Some x"
  obtains t where "andThen (fetch k) (\<lambda>i. gets (\<lambda>s. f (bytes i s))) s = (Inr (f x), t)"
    "reach s {k} (view s) t"
proof -
  obtain i t where t: "fetch k s = (Inr i, t)" "held t k i x" "bytes i t = x" "reach s {k} (view s) t"
    by (rule fetch_reach[OF assms])
  then show ?thesis using that[of t] by simp
qed

text \<open>Changing: steps on a page in hand, composed along \<open>reach\<close>.\<close>

lemma fetch_mark:
  assumes "wf s" "valid s k" "view s k = Some x"
  obtains i t u where "fetch k s = (Inr i, t)" "bytes i t = x" "mark i t = (Inr (), u)"
    "held_dirty u k i x" "bytes i u = x" "ident i u = k" "reach s {k} ((view s)(k \<mapsto> x)) u"
proof -
  obtain i t where t: "fetch k s = (Inr i, t)" "held t k i x" "bytes i t = x" "reach s {k} (view s) t"
    by (rule fetch_reach[OF assms(1-3)])
  from mark_law[OF t(2)] obtain u where u: "mark i t = (Inr (), u)" "held_dirty u k i x"
    "view u = view t" "env t u" "cached u = cached t" by blast
  have h: "wf u" "bytes i u = x" "ident i u = k" using held_facts[OF dirty_held[OF u(2)]] by auto
  have "(view s)(k \<mapsto> x) = view s" using assms(3) by auto
  then have "reach s {k} ((view s)(k \<mapsto> x)) u"
    using t(4) u(3-5) h(1) by (auto simp: reach_def intro: env_trans)
  then show ?thesis using that[OF t(1,3) u(1,2) h(2,3)] by blast
qed

lemma edit_more:
  assumes "held_dirty s k i b" "reach s0 {k} (V(k \<mapsto> b)) s" "length (f b) = PAGE_SIZE"
  obtains t where "edit i f s = (Inr (), t)" "held_dirty t k i (f b)" "bytes i t = f b" "ident i t = k"
    "reach s0 {k} (V(k \<mapsto> f b)) t"
proof -
  from edit_law[where f = f, OF assms(1,3)] obtain t where t: "edit i f s = (Inr (), t)"
    "held_dirty t k i (f b)" "view t = (view s)(k \<mapsto> f b)" "env s t" "cached t = cached s" by blast
  have "V(k \<mapsto> f b) \<subseteq>\<^sub>m view t"
    using map_le_upd[of "V(k \<mapsto> b)" "view s" k "f b"] assms(2) t(3) by (simp add: reach_def)
  then have "reach s0 {k} (V(k \<mapsto> f b)) t"
    using assms(2) t(4,5) held_facts[OF dirty_held[OF t(2)]] by (auto simp: reach_def intro: env_trans)
  then show ?thesis using that[OF t(1,2)] held_facts[OF dirty_held[OF t(2)]] by blast
qed

lemma edit_mark_more:
  assumes "held s k i b" "reach s0 {k} V s" "length (f b) = PAGE_SIZE"
  obtains u t where "edit i f s = (Inr (), u)" "mark i u = (Inr (), t)" "held_dirty t k i (f b)"
    "bytes i t = f b" "ident i t = k" "reach s0 {k} (V(k \<mapsto> f b)) t"
proof -
  from edit_mark_law[where f = f, OF assms(1,3)] obtain u t where t: "edit i f s = (Inr (), u)"
    "mark i u = (Inr (), t)" "held_dirty t k i (f b)" "view t = (view s)(k \<mapsto> f b)" "env s t"
    "cached t = cached s" by blast
  have "V(k \<mapsto> f b) \<subseteq>\<^sub>m view t"
    using map_le_upd[of V "view s" k "f b"] assms(2) t(4) by (simp add: reach_def)
  then have "reach s0 {k} (V(k \<mapsto> f b)) t"
    using assms(2) t(5,6) held_facts[OF dirty_held[OF t(3)]] by (auto simp: reach_def intro: env_trans)
  then show ?thesis using that[OF t(1-3)] held_facts[OF dirty_held[OF t(3)]] by blast
qed

text \<open>Starting a page: whatever it held before is forgotten.\<close>

lemma create_reach:
  assumes "wf s" "valid s k"
  obtains i t b where "create k s = (Inr i, t)" "held_dirty t k i b" "length b = PAGE_SIZE"
    "reach s {k} ((view s)(k \<mapsto> b)) t"
proof -
  from create_law[OF assms] obtain i t b where t: "create k s = (Inr i, t)" "held_dirty t k i b"
    "(view s)(k := None) \<subseteq>\<^sub>m view t" "env s t" "cached t \<subseteq> insert k (cached s)" by blast
  have h: "wf t" "view t k = Some b" "length b = PAGE_SIZE"
    using held_facts[OF dirty_held[OF t(2)]] by auto
  then have "(view s)(k \<mapsto> b) \<subseteq>\<^sub>m view t" using t(3) by (auto simp: map_le_def dom_def)
  with h t show ?thesis using that by (simp add: reach_def)
qed

lemma init_page:
  assumes "wf s" "valid s k" "\<And>b. length b = PAGE_SIZE \<Longrightarrow> length (f b) = PAGE_SIZE"
  obtains i t b u where "create k s = (Inr i, t)" "length b = PAGE_SIZE" "edit i f t = (Inr (), u)"
    "held_dirty u k i (f b)" "bytes i u = f b" "ident i u = k" "reach s {k} ((view s)(k \<mapsto> f b)) u"
proof -
  obtain i t b where t: "create k s = (Inr i, t)" "held_dirty t k i b" "length b = PAGE_SIZE"
    "reach s {k} ((view s)(k \<mapsto> b)) t"
    by (rule create_reach[OF assms(1,2)])
  obtain u where u: "edit i f t = (Inr (), u)" "held_dirty u k i (f b)" "bytes i u = f b" "ident i u = k"
    "reach s {k} ((view s)(k \<mapsto> f b)) u"
    by (rule edit_more[where f = f, OF t(2,4) assms(3)[OF t(3)]])
  then show ?thesis using that[OF t(1,3)] by blast
qed

end

section \<open>The buffer pool is such a cache\<close>

definition pf_fetch :: "PageID \<Rightarrow> ('z, nat) pf_prog" where
  "pf_fetch k = fetch_page (pid_fd k) (pid_page k)"

lemma pf_fetch_eq [simp]: "pf_fetch (PageID fd p) = fetch_page fd p"
  by (simp add: pf_fetch_def)

definition pf_create :: "PageID \<Rightarrow> ('z, nat) pf_prog" where
  "pf_create k = create_page (pid_fd k) (pid_page k)"

lemma pf_create_eq [simp]: "pf_create (PageID fd p) = create_page fd p"
  by (simp add: pf_create_def)

definition page_bytes :: "nat \<Rightarrow> 'z pf_state_scheme \<Rightarrow> byte list" where
  "page_bytes i s = buf (pages s ! i)"

definition page_ident :: "nat \<Rightarrow> 'z pf_state_scheme \<Rightarrow> PageID" where
  "page_ident i s = page_id (pages s ! i)"

definition cached_pages :: "'z pf_state_scheme \<Rightarrow> PageID set" where
  "cached_pages s = dom (busy_map s)"

text \<open>The pages of one open file as a client sees them.\<close>

type_synonym pview = "int \<rightharpoonup> byte list"

definition file_view :: "'z pf_state_scheme \<Rightarrow> int \<Rightarrow> pview" where
  "file_view s fd = (\<lambda>p. page_view s (PageID fd p))"

lemma map_le_Some: "V \<subseteq>\<^sub>m W \<Longrightarrow> V p = Some b \<Longrightarrow> W p = Some b"
  by (metis domI map_le_def)

interpretation pool: page_cache pf_wf page_view valid_pid same_env cached_pages holds holds_dirty
  page_bytes page_ident pf_fetch pf_create mark_dirty edit_buf
proof (unfold_locales, goal_cases)
  case (2 s t u)
  then show ?case by (rule same_env_trans)
next
  case (3 s t)
  then show ?case by (intro valid_pid_cong) (simp add: same_env_def)
next
  case (4 s k i b)
  then show ?case
    using holds_view[OF 4] holds_length[OF 4] held_page(3)[of s k i]
    by (simp add: holds_def page_bytes_def page_ident_def pf_wf_def)
next
  case (6 s k x)
  then have v: "valid_pid s (PageID (pid_fd k) (pid_page k))" "page_view s (PageID (pid_fd k) (pid_page k)) = Some x"
    by simp_all
  obtain i t where "fetch_page (pid_fd k) (pid_page k) s = (Inr i, t)"
    "holds t (PageID (pid_fd k) (pid_page k)) i x" "page_view s \<subseteq>\<^sub>m page_view t" "same_env s t"
    "dom (busy_map t) \<subseteq> insert (PageID (pid_fd k) (pid_page k)) (dom (busy_map s))"
    by (rule fetch_page_holds[OF 6(1) v])
  then show ?case
    by (intro exI[of _ i] exI[of _ t]) (simp add: pf_fetch_def cached_pages_def)
next
  case (7 s k)
  then have v: "valid_pid s (PageID (pid_fd k) (pid_page k))" by simp
  obtain i t b where "create_page (pid_fd k) (pid_page k) s = (Inr i, t)"
    "holds_dirty t (PageID (pid_fd k) (pid_page k)) i b"
    "(page_view s)(PageID (pid_fd k) (pid_page k) := None) \<subseteq>\<^sub>m page_view t" "same_env s t"
    "dom (busy_map t) \<subseteq> insert (PageID (pid_fd k) (pid_page k)) (dom (busy_map s))"
    by (rule create_page_run[OF 7(1) v])
  then show ?case
    by (intro exI[of _ i] exI[of _ t] exI[of _ b]) (simp add: pf_create_def cached_pages_def)
next
  case (8 s k i b)
  obtain t where "mark_dirty i s = (Inr (), t)" "holds_dirty t k i b" "same_env s t"
    "page_view t = page_view s" "dom (busy_map t) = dom (busy_map s)"
    by (rule mark_dirty_holds[OF 8])
  then show ?case by (intro exI[of _ t]) (simp add: cached_pages_def)
next
  case (9 s k i b f)
  obtain t where "edit_buf i f s = (Inr (), t)" "holds_dirty t k i (f b)" "same_env s t"
    "page_view t = (page_view s)(k \<mapsto> f b)" "dom (busy_map t) = dom (busy_map s)"
    by (rule edit_buf_holds[where f = f, OF 9])
  then show ?case by (intro exI[of _ t]) (simp add: cached_pages_def)
next
  case (10 s k i b f)
  obtain u t where "edit_buf i f s = (Inr (), u)" "mark_dirty i u = (Inr (), t)"
    "holds_dirty t k i (f b)" "same_env s t" "page_view t = (page_view s)(k \<mapsto> f b)"
    "dom (busy_map t) = dom (busy_map s)"
    by (rule edit_mark_holds[where f = f, OF 10])
  then show ?case by (intro exI[of _ u] exI[of _ t]) (simp add: cached_pages_def)
qed (simp_all add: holds_dirty_def)

end
