(* ===== verification/PfManager.thy ===== *)
theory PfManager
  imports PagerOps
begin

text \<open>
  \<open>page_file_handler/pf_manager.cpp\<close>: creating, destroying, opening and closing paged files.
  \<open>fd_map_sem\<close> guards the two maps between paths and descriptors; every error path of the
  source posts it before throwing. The invariant \<open>pm_wf\<close> says the maps are inverse to
  each other and agree with the descriptors the operating system has open.
\<close>

section \<open>Operations\<close>

definition sem_wait_fd :: "('z, unit) pf_prog" where
  "sem_wait_fd = andThen (gets fd_map_sem) (\<lambda>v.
     if v = 0 then throw Blocked else modify (\<lambda>s. s\<lparr>fd_map_sem := v - 1\<rparr>))"

definition sem_post_fd :: "('z, unit) pf_prog" where
  "sem_post_fd = modify (\<lambda>s. s\<lparr>fd_map_sem := fd_map_sem s + 1\<rparr>)"

text \<open>\<open>if (b) { sem_post(fd_map_sem); throw e; }\<close>\<close>

definition fail_fd_if :: "bool \<Rightarrow> db_error \<Rightarrow> ('z, unit) pf_prog" where
  "fail_fd_if b e = (if b then andThen sem_post_fd (\<lambda>_. throw (Throw e)) else ret ())"

definition sys_call :: "('z pf_state_scheme \<Rightarrow> int \<times> 'z pf_state_scheme) \<Rightarrow> ('z, int) pf_prog" where
  "sys_call f = (\<lambda>s. case f s of (r, t) \<Rightarrow> (Inr r, t))"

definition is_file :: "string \<Rightarrow> ('z, bool) pf_prog" where
  "is_file path = gets (\<lambda>s. sys_is_reg s path)"

definition create_file :: "string \<Rightarrow> ('z, unit) pf_prog" where
  "create_file path =
     andThen sem_wait_fd (\<lambda>_.
     andThen (is_file path) (\<lambda>there.
     andThen (fail_fd_if there (FileExistsError path)) (\<lambda>_.
     andThen (sys_call (sys_open True path)) (\<lambda>fd.
     andThen (fail_fd_if (fd < 0) UnixError) (\<lambda>_.
     andThen (sys_call (sys_close fd)) (\<lambda>r.
     andThen (fail_fd_if (r \<noteq> 0) UnixError) (\<lambda>_.
     sem_post_fd)))))))"

definition destroy_file :: "string \<Rightarrow> ('z, unit) pf_prog" where
  "destroy_file path =
     andThen sem_wait_fd (\<lambda>_.
     andThen (is_file path) (\<lambda>there.
     andThen (fail_fd_if (\<not> there) (FileNotFoundError path)) (\<lambda>_.
     andThen (gets (\<lambda>s. path2fd s path \<noteq> None)) (\<lambda>opened.
     andThen (fail_fd_if opened (FileNotClosedError path)) (\<lambda>_.
     andThen (sys_call (sys_unlink path)) (\<lambda>r.
     andThen (fail_fd_if (r \<noteq> 0) UnixError) (\<lambda>_.
     sem_post_fd)))))))"

definition open_file :: "string \<Rightarrow> ('z, int) pf_prog" where
  "open_file path =
     andThen sem_wait_fd (\<lambda>_.
     andThen (is_file path) (\<lambda>there.
     andThen (fail_fd_if (\<not> there) (FileNotFoundError path)) (\<lambda>_.
     andThen (gets (\<lambda>s. path2fd s path \<noteq> None)) (\<lambda>opened.
     andThen (fail_fd_if opened (FileNotClosedError path)) (\<lambda>_.
     andThen (sys_call (sys_open False path)) (\<lambda>fd.
     andThen (fail_fd_if (fd < 0) UnixError) (\<lambda>_.
     andThen (modify (\<lambda>s. s\<lparr>path2fd := (path2fd s)(path \<mapsto> fd), fd2path := (fd2path s)(fd \<mapsto> path)\<rparr>)) (\<lambda>_.
     andThen sem_post_fd (\<lambda>_.
     ret fd)))))))))"

definition close_file :: "int \<Rightarrow> ('z, unit) pf_prog" where
  "close_file fd =
     andThen sem_wait_fd (\<lambda>_.
     andThen (gets (\<lambda>s. fd2path s fd)) (\<lambda>pos.
     andThen (fail_fd_if (pos = None) (FileNotOpenError fd)) (\<lambda>_.
     andThen (flush_file fd) (\<lambda>_.
     andThen (modify (\<lambda>s. s\<lparr>path2fd := (path2fd s)(the pos := None), fd2path := (fd2path s)(fd := None)\<rparr>)) (\<lambda>_.
     andThen (sys_call (sys_close fd)) (\<lambda>r.
     andThen (fail_fd_if (r \<noteq> 0) UnixError) (\<lambda>_.
     sem_post_fd)))))))"

section \<open>The invariant\<close>

definition pm_maps :: "'z pf_state_scheme \<Rightarrow> bool" where
  "pm_maps s \<longleftrightarrow> (\<forall>path fd. path2fd s path = Some fd \<longleftrightarrow> fd2path s fd = Some path) \<and>
     (\<forall>fd path. fd2path s fd = Some path \<longrightarrow> fd_path s fd = Some (resolve s path)) \<and>
     (\<forall>fd. fd_path s fd \<noteq> None \<longrightarrow> fd2path s fd \<noteq> None)"

definition pm_wf :: "'z pf_state_scheme \<Rightarrow> bool" where
  "pm_wf s \<longleftrightarrow> pf_wf s \<and> fd_map_sem s = 1 \<and> pm_maps s"

lemma sys_call_run [simp]: "f s = (r, t) \<Longrightarrow> sys_call f s = (Inr r, t)"
  by (simp add: sys_call_def)

lemma fail_fd_if_False [simp]: "\<not> b \<Longrightarrow> fail_fd_if b e = ret ()"
  by (simp add: fail_fd_if_def)

lemma fail_fd_if_True [simp]:
  "b \<Longrightarrow> andThen (fail_fd_if b e) f s = (Inl (Throw e), s\<lparr>fd_map_sem := fd_map_sem s + 1\<rparr>)"
  by (simp add: fail_fd_if_def sem_post_fd_def andThen_run)

lemma fd_sem_restore [simp]: "fd_map_sem s = 1 \<Longrightarrow> s\<lparr>fd_map_sem := 1\<rparr> = s"
  by (cases s) simp

lemma sem_wait_fd_run [simp]:
  "fd_map_sem s = 1 \<Longrightarrow> sem_wait_fd s = (Inr (), s\<lparr>fd_map_sem := 0\<rparr>)"
  by (simp add: sem_wait_fd_def)

lemma sem_post_fd_run [simp]: "sem_post_fd s = (Inr (), s\<lparr>fd_map_sem := fd_map_sem s + 1\<rparr>)"
  by (simp add: sem_post_fd_def)

lemma sys_is_reg_sem [simp]: "sys_is_reg (s\<lparr>fd_map_sem := n\<rparr>) = sys_is_reg s"
  by (simp add: sys_is_reg_def resolve_def fun_eq_iff)

lemma resolve_inj: "resolve s p = resolve s q \<longleftrightarrow> p = q"
  by (simp add: resolve_def)

section \<open>Error branches leave the state alone\<close>

lemma create_file_exists:
  "fd_map_sem s = 1 \<Longrightarrow> sys_is_reg s path \<Longrightarrow>
   create_file path s = (Inl (Throw (FileExistsError path)), s)"
  by (simp add: create_file_def is_file_def)

lemma destroy_file_absent:
  "fd_map_sem s = 1 \<Longrightarrow> \<not> sys_is_reg s path \<Longrightarrow>
   destroy_file path s = (Inl (Throw (FileNotFoundError path)), s)"
  by (simp add: destroy_file_def is_file_def)

lemma destroy_file_opened:
  "fd_map_sem s = 1 \<Longrightarrow> sys_is_reg s path \<Longrightarrow> path2fd s path = Some fd \<Longrightarrow>
   destroy_file path s = (Inl (Throw (FileNotClosedError path)), s)"
  by (simp add: destroy_file_def is_file_def)

lemma open_file_absent:
  "fd_map_sem s = 1 \<Longrightarrow> \<not> sys_is_reg s path \<Longrightarrow>
   open_file path s = (Inl (Throw (FileNotFoundError path)), s)"
  by (simp add: open_file_def is_file_def)

lemma open_file_opened:
  "fd_map_sem s = 1 \<Longrightarrow> sys_is_reg s path \<Longrightarrow> path2fd s path = Some fd \<Longrightarrow>
   open_file path s = (Inl (Throw (FileNotClosedError path)), s)"
  by (simp add: open_file_def is_file_def)

lemma close_file_unknown:
  "fd_map_sem s = 1 \<Longrightarrow> fd2path s fd = None \<Longrightarrow>
   close_file fd s = (Inl (Throw (FileNotOpenError fd)), s)"
  by (simp add: close_file_def)

section \<open>Creating and destroying\<close>

text \<open>Files that are not open may change without the pager noticing.\<close>

lemma closed_files_view:
  assumes "\<And>e. e \<in> set (open_fds s) \<Longrightarrow> F (snd e) = files s (snd e)"
  shows "disk_page (s\<lparr>files := F\<rparr>) = disk_page s" "page_view (s\<lparr>files := F\<rparr>) = page_view s"
proof -
  have "fd_data (s\<lparr>files := F\<rparr>) fd = fd_data s fd" for fd
    using assms fd_path_in[of s fd] by (force simp: fd_data_def fd_path_def split: option.splits)
  then show d: "disk_page (s\<lparr>files := F\<rparr>) = disk_page s"
    by (simp add: disk_page_def fun_eq_iff)
  then show "page_view (s\<lparr>files := F\<rparr>) = page_view s"
    by (simp add: page_view_def fun_eq_iff split: option.splits)
qed

lemma closed_files_wf:
  assumes "pm_wf s" "\<And>e. e \<in> set (open_fds s) \<Longrightarrow> F (snd e) = files s (snd e)"
  shows "pm_wf (s\<lparr>files := F\<rparr>)"
proof -
  note v = closed_files_view[of s F, OF assms(2)]
  have inv: "pager_inv s" and maps: "pm_maps s" using assms(1) by (auto simp: pm_wf_def pf_wf_def)
  note p = pager_inv_parts[OF inv]
  have "os_wf (s\<lparr>files := F\<rparr>)" using p(1) assms(2) by (auto simp: os_wf_def dom_def)
  moreover have "pager_struct (s\<lparr>files := F\<rparr>)" using p(2) by (simp add: pager_struct_def)
  moreover have "map_lists (s\<lparr>files := F\<rparr>) (busy_pages s)" using p(3) by (simp add: map_lists_def)
  moreover have "page_synced (s\<lparr>files := F\<rparr>) i" if "i \<in> set (busy_pages s)" for i
    using p(4)[OF that] v(1) by (simp add: page_synced_def)
  ultimately have "pager_inv (s\<lparr>files := F\<rparr>)" by (simp add: pager_inv_def)
  then show ?thesis
    using assms(1) maps by (simp add: pm_wf_def pf_wf_def pm_maps_def fd_path_def resolve_def)
qed

lemma closed_path:
  assumes "pm_wf s" "path2fd s path = None" "e \<in> set (open_fds s)"
  shows "snd e \<noteq> resolve s path"
proof
  assume eq: "snd e = resolve s path"
  have d: "distinct (map fst (open_fds s))" and maps: "pm_maps s"
    using assms(1) by (auto simp: pm_wf_def pf_wf_def pager_inv_def os_wf_def)
  have fp: "fd_path s (fst e) = Some (resolve s path)"
    unfolding fd_path_def using d assms(3) eq by (intro map_of_is_SomeI) (auto simp flip: eq)
  then obtain p' where p': "fd2path s (fst e) = Some p'" using maps by (auto simp: pm_maps_def)
  then have "p' = path" using maps fp by (auto simp: pm_maps_def resolve_inj)
  with p' maps have "path2fd s path = Some (fst e)" by (simp add: pm_maps_def)
  with assms(2) show False by simp
qed

lemma missing_closed: "pm_wf s \<Longrightarrow> \<not> sys_is_reg s path \<Longrightarrow> path2fd s path = None"
proof (rule ccontr)
  assume wf: "pm_wf s" and no: "\<not> sys_is_reg s path" and "path2fd s path \<noteq> None"
  then obtain fd where "path2fd s path = Some fd" by auto
  with wf have "fd_path s fd = Some (resolve s path)"
    by (simp add: pm_wf_def pm_maps_def)
  moreover have "os_wf s" using wf by (simp add: pm_wf_def pf_wf_def pager_inv_def)
  ultimately show False using no by (auto simp: sys_is_reg_def elim: fd_data_Some)
qed

lemma create_file_run:
  assumes wf: "pm_wf s" and fresh: "\<not> sys_is_reg s path"
  shows "create_file path s = (Inr (), s\<lparr>files := (files s)(resolve s path \<mapsto> [])\<rparr>)"
    and "pm_wf (s\<lparr>files := (files s)(resolve s path \<mapsto> [])\<rparr>)"
    and "page_view (s\<lparr>files := (files s)(resolve s path \<mapsto> [])\<rparr>) = page_view s"
proof -
  let ?fd = "fresh_fd (map fst (open_fds s) @ other_fds s)"
  have none: "files s (resolve s path) = None" using fresh by (simp add: sys_is_reg_def)
  have fd: "?fd \<notin> set (map fst (open_fds s))" "0 \<le> ?fd"
    using fresh_fd_props[of "map fst (open_fds s) @ other_fds s"] by auto
  have flt: "filter (\<lambda>e. fst e \<noteq> ?fd) (open_fds s) = open_fds s"
    using fd(1) by (force simp: filter_id_conv)
  have sem: "fd_map_sem s = 1" using wf by (simp add: pm_wf_def)
  have op: "sys_open True path (s\<lparr>fd_map_sem := 0\<rparr>) = (?fd, s\<lparr>fd_map_sem := 0,
      files := (files s)(resolve s path \<mapsto> []), open_fds := (?fd, resolve s path) # open_fds s\<rparr>)"
    using none by (simp add: sys_open_def Let_def resolve_def)
  have cl: "sys_close ?fd (s\<lparr>fd_map_sem := 0, files := F, open_fds := (?fd, resolve s path) # open_fds s\<rparr>)
      = (0, s\<lparr>fd_map_sem := 0, files := F\<rparr>)" for F
    using flt by (simp add: sys_close_def fd_path_def)
  show "create_file path s = (Inr (), s\<lparr>files := (files s)(resolve s path \<mapsto> [])\<rparr>)"
    using sem fresh op cl fd(2) by (simp add: create_file_def is_file_def sys_is_reg_def resolve_def)
  have keep: "((files s)(resolve s path \<mapsto> [])) (snd e) = files s (snd e)" if "e \<in> set (open_fds s)" for e
    using closed_path[OF wf missing_closed[OF wf fresh] that] by simp
  show "pm_wf (s\<lparr>files := (files s)(resolve s path \<mapsto> [])\<rparr>)"
    by (rule closed_files_wf[OF wf keep])
  show "page_view (s\<lparr>files := (files s)(resolve s path \<mapsto> [])\<rparr>) = page_view s"
    by (rule closed_files_view(2)[OF keep])
qed

lemma destroy_file_run:
  assumes wf: "pm_wf s" and there: "sys_is_reg s path" and closed: "path2fd s path = None"
  shows "destroy_file path s = (Inr (), s\<lparr>files := (files s)(resolve s path := None)\<rparr>)"
    and "pm_wf (s\<lparr>files := (files s)(resolve s path := None)\<rparr>)"
    and "page_view (s\<lparr>files := (files s)(resolve s path := None)\<rparr>) = page_view s"
proof -
  have sem: "fd_map_sem s = 1" using wf by (simp add: pm_wf_def)
  have "sys_unlink path (s\<lparr>fd_map_sem := 0\<rparr>)
      = (0, s\<lparr>fd_map_sem := 0, files := (files s)(resolve s path := None)\<rparr>)"
    using there by (simp add: sys_unlink_def resolve_def)
  then show "destroy_file path s = (Inr (), s\<lparr>files := (files s)(resolve s path := None)\<rparr>)"
    using sem there closed by (simp add: destroy_file_def is_file_def)
  have keep: "((files s)(resolve s path := None)) (snd e) = files s (snd e)" if "e \<in> set (open_fds s)" for e
    using closed_path[OF wf closed that] by simp
  show "pm_wf (s\<lparr>files := (files s)(resolve s path := None)\<rparr>)"
    by (rule closed_files_wf[OF wf keep])
  show "page_view (s\<lparr>files := (files s)(resolve s path := None)\<rparr>) = page_view s"
    by (rule closed_files_view(2)[OF keep])
qed

section \<open>Opening\<close>

definition opened :: "int \<Rightarrow> string \<Rightarrow> 'z pf_state_scheme \<Rightarrow> 'z pf_state_scheme" where
  "opened fd path s = s\<lparr>open_fds := (fd, resolve s path) # open_fds s,
     path2fd := (path2fd s)(path \<mapsto> fd), fd2path := (fd2path s)(fd \<mapsto> path)\<rparr>"

lemma opened_fields [simp]:
  "files (opened fd path s) = files s" "open_fds (opened fd path s) = (fd, resolve s path) # open_fds s"
  "cwd (opened fd path s) = cwd s" "other_fds (opened fd path s) = other_fds s"
  "pages (opened fd path s) = pages s"
  "busy_map (opened fd path s) = busy_map s" "busy_pages (opened fd path s) = busy_pages s"
  "free_pages (opened fd path s) = free_pages s" "cache_sem (opened fd path s) = cache_sem s"
  "fd_map_sem (opened fd path s) = fd_map_sem s" "path2fd (opened fd path s) = (path2fd s)(path \<mapsto> fd)"
  "fd2path (opened fd path s) = (fd2path s)(fd \<mapsto> path)" "resolve (opened fd path s) = resolve s"
  by (simp_all add: opened_def resolve_def fun_eq_iff)

lemma opened_view:
  assumes "pm_wf s" "fd \<notin> set (map fst (open_fds s))"
  shows "disk_page (opened fd path s) (PageID g p) = (if g = fd
      then (case files s (resolve s path) of None \<Rightarrow> None | Some b \<Rightarrow> file_page b p)
      else disk_page s (PageID g p))"
    and "busy_map s (PageID fd p) = None"
    and "page_view (opened fd path s) (PageID g p) = (if g = fd
      then (case files s (resolve s path) of None \<Rightarrow> None | Some b \<Rightarrow> file_page b p)
      else page_view s (PageID g p))"
proof -
  show d: "disk_page (opened fd path s) (PageID g p) = (if g = fd
      then (case files s (resolve s path) of None \<Rightarrow> None | Some b \<Rightarrow> file_page b p)
      else disk_page s (PageID g p))" for g p
    by (simp add: disk_page_def fd_data_def fd_path_def cong: option.case_cong)
  have inv: "pager_inv s" using assms(1) by (simp add: pm_wf_def pf_wf_def)
  have nopen: "fd_path s fd = None" using assms(2) by (simp add: fd_path_def map_of_eq_None_iff)
  show m: "busy_map s (PageID fd p) = None" for p
  proof (rule ccontr)
    assume "busy_map s (PageID fd p) \<noteq> None"
    then obtain i where "busy_map s (PageID fd p) = Some i" by auto
    from held_page(6)[OF inv this] nopen show False by (simp add: valid_pid_def)
  qed
  show "page_view (opened fd path s) (PageID g p) = (if g = fd
      then (case files s (resolve s path) of None \<Rightarrow> None | Some b \<Rightarrow> file_page b p)
      else page_view s (PageID g p))"
    using m d by (simp add: page_view_def split: option.splits)
qed

lemma opened_wf:
  assumes wf: "pm_wf s" and fd: "fd \<notin> set (map fst (open_fds s))"
    and there: "sys_is_reg s path" and closed: "path2fd s path = None"
  shows "pm_wf (opened fd path s)"
proof -
  let ?t = "opened fd path s"
  have inv: "pager_inv s" and maps: "pm_maps s" and sems: "cache_sem s = 1" "fd_map_sem s = 1"
    using wf by (auto simp: pm_wf_def pf_wf_def)
  note p = pager_inv_parts[OF inv]
  have nopen: "fd_path s fd = None" using fd by (simp add: fd_path_def map_of_eq_None_iff)
  have fp: "fd_path ?t g = (if g = fd then Some (resolve s path) else fd_path s g)" for g
    by (simp add: fd_path_def)
  have "resolve s path \<notin> set (map snd (open_fds s))"
    using closed_path[OF wf closed] by (metis imageE set_map)
  then have "os_wf ?t" using p(1) fd there by (auto simp: os_wf_def sys_is_reg_def)
  moreover have "pager_struct ?t" using p(2) by (simp add: pager_struct_def)
  moreover have "map_lists ?t (busy_pages ?t)" using p(3) by (simp add: map_lists_def)
  moreover have "page_synced ?t i" if i: "i \<in> set (busy_pages ?t)" for i
  proof -
    have sy: "page_synced s i" using p(4) i by simp
    obtain g q where gq: "page_id (pages s ! i) = PageID g q" by (cases "page_id (pages s ! i)")
    have "fd_path s g \<noteq> None" using sy gq by (simp add: page_synced_def valid_pid_def)
    then have "g \<noteq> fd" using nopen by auto
    then show ?thesis
      using sy gq opened_view(1)[OF wf fd, of path g q] by (simp add: page_synced_def valid_pid_def fp)
  qed
  ultimately have "pager_inv ?t" by (simp add: pager_inv_def)
  moreover have "pm_maps ?t"
  proof -
  have "fd2path s fd = None" using maps nopen by (cases "fd2path s fd") (auto simp: pm_maps_def)
  moreover have "fd2path s g \<noteq> Some path" for g
    using maps closed unfolding pm_maps_def by (metis option.distinct(1))
  ultimately show ?thesis
    using maps closed nopen by (auto simp: pm_maps_def fp)
  qed
  ultimately show ?thesis using sems by (simp add: pm_wf_def pf_wf_def)
qed

lemma open_file_run:
  assumes wf: "pm_wf s" and there: "sys_is_reg s path" and closed: "path2fd s path = None"
  obtains fd where "open_file path s = (Inr fd, opened fd path s)" "pm_wf (opened fd path s)"
    "fd \<notin> set (map fst (open_fds s))" "fd2path s fd = None"
proof -
  let ?fd = "fresh_fd (map fst (open_fds s) @ other_fds s)"
  have fd: "?fd \<notin> set (map fst (open_fds s))" "0 \<le> ?fd"
    using fresh_fd_props[of "map fst (open_fds s) @ other_fds s"] by auto
  obtain b where b: "files s (resolve s path) = Some b" using there by (auto simp: sys_is_reg_def)
  have sem: "fd_map_sem s = 1" and maps: "pm_maps s" using wf by (auto simp: pm_wf_def)
  have "sys_open False path (s\<lparr>fd_map_sem := 0\<rparr>) = (?fd, s\<lparr>fd_map_sem := 0,
      open_fds := (?fd, resolve s path) # open_fds s\<rparr>)"
    using b by (simp add: sys_open_def Let_def resolve_def)
  then have "open_file path s = (Inr ?fd, opened ?fd path s)"
    using sem there closed fd(2) by (simp add: open_file_def is_file_def opened_def)
  moreover have "fd2path s ?fd = None"
  proof -
    have "fd_path s ?fd = None" using fd(1) by (simp add: fd_path_def map_of_eq_None_iff)
    then show ?thesis using maps by (cases "fd2path s ?fd") (auto simp: pm_maps_def)
  qed
  ultimately show ?thesis
    using that[of ?fd] opened_wf[OF wf fd(1) there closed] fd(1) by simp
qed

section \<open>Closing\<close>

definition closed_fd :: "int \<Rightarrow> string \<Rightarrow> 'z pf_state_scheme \<Rightarrow> 'z pf_state_scheme" where
  "closed_fd fd path u = u\<lparr>open_fds := filter (\<lambda>e. fst e \<noteq> fd) (open_fds u),
     path2fd := (path2fd u)(path := None), fd2path := (fd2path u)(fd := None)\<rparr>"

lemma closed_fd_fields [simp]:
  "files (closed_fd fd path s) = files s" "open_fds (closed_fd fd path s) = filter (\<lambda>e. fst e \<noteq> fd) (open_fds s)"
  "pages (closed_fd fd path s) = pages s" "cwd (closed_fd fd path s) = cwd s"
  "other_fds (closed_fd fd path s) = other_fds s"
  "busy_map (closed_fd fd path s) = busy_map s" "busy_pages (closed_fd fd path s) = busy_pages s"
  "free_pages (closed_fd fd path s) = free_pages s" "cache_sem (closed_fd fd path s) = cache_sem s"
  "fd_map_sem (closed_fd fd path s) = fd_map_sem s" "path2fd (closed_fd fd path s) = (path2fd s)(path := None)"
  "fd2path (closed_fd fd path s) = (fd2path s)(fd := None)" "resolve (closed_fd fd path s) = resolve s"
  by (simp_all add: closed_fd_def resolve_def fun_eq_iff)

lemma map_of_filter_fst: "map_of (filter (\<lambda>e. fst e \<noteq> k) xs) j = (if j = k then None else map_of xs j)"
  by (induction xs) auto

lemma fd_path_closed [simp]:
  "fd_path (closed_fd fd path s) g = (if g = fd then None else fd_path s g)"
  by (simp add: fd_path_def map_of_filter_fst)

lemma closed_fd_disk: "g \<noteq> fd \<Longrightarrow> disk_page (closed_fd fd path s) (PageID g p) = disk_page s (PageID g p)"
  by (simp add: disk_page_def fd_data_def cong: option.case_cong)

lemma distinct_map_filter_keys: "distinct (map f xs) \<Longrightarrow> distinct (map f (filter P xs))"
  by (induction xs) auto

lemma closed_fd_wf:
  assumes wf: "pm_wf s" and path: "fd2path s fd = Some path"
    and gone: "\<And>p. busy_map s (PageID fd p) = None"
  shows "pm_wf (closed_fd fd path s)"
    and "g \<noteq> fd \<Longrightarrow> page_view (closed_fd fd path s) (PageID g p) = page_view s (PageID g p)"
proof -
  let ?t = "closed_fd fd path s"
  have inv: "pager_inv s" and maps: "pm_maps s" and sems: "cache_sem s = 1" "fd_map_sem s = 1"
    using wf by (auto simp: pm_wf_def pf_wf_def)
  note p = pager_inv_parts[OF inv]
  have "os_wf ?t" using p(1) by (auto simp: os_wf_def distinct_map_filter_keys)
  moreover have "pager_struct ?t" using p(2) by (simp add: pager_struct_def)
  moreover have "map_lists ?t (busy_pages ?t)" using p(3) by (simp add: map_lists_def)
  moreover have "page_synced ?t i" if i: "i \<in> set (busy_pages ?t)" for i
  proof -
    have ib: "i \<in> set (busy_pages s)" using i by simp
    obtain g q where gq: "page_id (pages s ! i) = PageID g q" by (cases "page_id (pages s ! i)")
    have "g \<noteq> fd" using map_lists_Some[OF p(3) ib] gone[of q] gq by auto
    then show ?thesis
      using p(4)[OF ib] gq closed_fd_disk[of g fd path s q] by (simp add: page_synced_def valid_pid_def)
  qed
  ultimately have "pager_inv ?t" by (simp add: pager_inv_def)
  moreover have "pm_maps ?t"
    using maps path unfolding pm_maps_def by simp (metis option.inject)
  ultimately show "pm_wf ?t" using sems by (simp add: pm_wf_def pf_wf_def)
  show "g \<noteq> fd \<Longrightarrow> page_view ?t (PageID g p) = page_view s (PageID g p)"
    using closed_fd_disk[of g fd path s p] by (simp add: page_view_def cong: option.case_cong)
qed

lemma pm_maps_env: "same_env s t \<Longrightarrow> pm_maps t = pm_maps s"
  by (simp add: same_env_def pm_maps_def fd_path_def resolve_def)

text \<open>
  After a close the file holds on disk what its pages held in the pool; the bytes below the
  first cached page (a header written past the pool) are kept.
\<close>

lemma close_file_run:
  assumes wf: "pm_wf s" and path: "fd2path s fd = Some path"
    and low: "\<And>p. busy_map s (PageID fd p) \<noteq> None \<Longrightarrow> n \<le> page_off p"
  obtains t where "close_file fd s = (Inr (), t)" "pm_wf t" "cwd t = cwd s"
    "path2fd t = (path2fd s)(path := None)" "fd2path t = (fd2path s)(fd := None)"
    "dom (files t) = dom (files s)" "prefix_kept n s t"
    "\<And>p x. page_view s (PageID fd p) = Some x \<Longrightarrow>
       \<exists>b. files t (resolve s path) = Some b \<and> file_page b p = Some x"
    "\<And>g p x. g \<noteq> fd \<Longrightarrow> page_view s (PageID g p) = Some x \<Longrightarrow> page_view t (PageID g p) = Some x"
    "\<And>f. f \<notin> snd ` set (open_fds s) \<Longrightarrow> files t f = files s f"
    "open_fds t = filter (\<lambda>e. fst e \<noteq> fd) (open_fds s)" "other_fds t = other_fds s" "pf_state.more t = pf_state.more s"
    "dom (busy_map t) \<subseteq> dom (busy_map s)"
proof -
  have sem: "fd_map_sem s = 1" and maps: "pm_maps s" and pf: "pf_wf s"
    using wf by (auto simp: pm_wf_def)
  have pf0: "pf_wf (s\<lparr>fd_map_sem := 0\<rparr>)"
  proof -
    have "page_synced (s\<lparr>fd_map_sem := 0\<rparr>) = page_synced s"
      by (simp add: page_synced_def fun_eq_iff)
    then show ?thesis using pf
      by (simp add: pf_wf_def pager_inv_def os_wf_def pager_struct_def map_lists_def)
  qed
  have low0: "\<And>p. busy_map (s\<lparr>fd_map_sem := 0\<rparr>) (PageID fd p) \<noteq> None \<Longrightarrow> n \<le> page_off p"
    using low by simp
  obtain u where u: "flush_file fd (s\<lparr>fd_map_sem := 0\<rparr>) = (Inr (), u)" "pf_wf u"
    "page_view (s\<lparr>fd_map_sem := 0\<rparr>) \<subseteq>\<^sub>m page_view u" "same_env (s\<lparr>fd_map_sem := 0\<rparr>) u"
    "prefix_kept n (s\<lparr>fd_map_sem := 0\<rparr>) u" "\<And>p. busy_map u (PageID fd p) = None"
    "\<And>i. i \<in> set (busy_pages u) \<Longrightarrow> i \<in> set (busy_pages (s\<lparr>fd_map_sem := 0\<rparr>))"
    "dom (busy_map u) \<subseteq> dom (busy_map (s\<lparr>fd_map_sem := 0\<rparr>))"
    by (rule flush_file_run[where fd = fd, OF pf0 low0], assumption) (rule that; assumption)
  let ?v = "u\<lparr>fd_map_sem := 1\<rparr>"
  let ?t = "closed_fd fd path ?v"
  have vw: "page_view ?v = page_view u"
    by (simp add: page_view_def fun_eq_iff split: option.splits)
  have view: "page_view s \<subseteq>\<^sub>m page_view ?v"
  proof -
    have "page_view (s\<lparr>fd_map_sem := 0\<rparr>) = page_view s"
      by (simp add: page_view_def fun_eq_iff split: option.splits)
    then show ?thesis using u(3) vw by simp
  qed
  have env: "same_env s ?v" using u(4) sem by (simp add: same_env_def)
  have semu: "fd_map_sem u = 0" and pathu: "fd2path u fd = Some path"
    using u(4) path by (simp_all add: same_env_def)
  have "page_synced ?v = page_synced u" by (simp add: page_synced_def fun_eq_iff)
  then have "pf_wf ?v" using u(2)
    by (simp add: pf_wf_def pager_inv_def os_wf_def pager_struct_def map_lists_def)
  then have wfv: "pm_wf ?v" using pm_maps_env[OF env] maps by (simp add: pm_wf_def)
  have gone: "\<And>p. busy_map ?v (PageID fd p) = None" using u(6) by simp
  have pathv: "fd2path ?v fd = Some path" using pathu by simp
  note cw = closed_fd_wf[OF wfv pathv gone]
  have fpu: "fd_path u fd = Some (resolve s path)"
    using u(4) maps path by (simp add: same_env_def pm_maps_def fd_path_def)
  have run: "close_file fd s = (Inr (), ?t)"
    using sem semu path u(1) fpu by (simp add: close_file_def sys_close_def closed_fd_def fd_path_def)
  have pages: "\<exists>b. files ?t (resolve s path) = Some b \<and> file_page b p = Some x"
    if "page_view s (PageID fd p) = Some x" for p x
  proof -
    have "page_view u (PageID fd p) = Some x"
      using view vw that by (auto simp: map_le_def dom_def)
    then have "disk_page u (PageID fd p) = Some x" using u(6) by (simp add: page_view_def)
    then show ?thesis using fpu by (auto simp: disk_page_def fd_data_def split: option.splits)
  qed
  have others: "page_view ?t (PageID g p) = Some x"
    if "g \<noteq> fd" "page_view s (PageID g p) = Some x" for g p x
    using view that cw(2)[OF that(1)] by (auto simp: map_le_def dom_def)
  have pk: "prefix_kept n s ?t" using u(5) by (simp add: prefix_kept_def)
  show ?thesis
  proof (rule that[OF run cw(1) _ _ _ _ pk])
    show "cwd ?t = cwd s" "path2fd ?t = (path2fd s)(path := None)"
      "fd2path ?t = (fd2path s)(fd := None)" "dom (files ?t) = dom (files s)"
      "open_fds ?t = filter (\<lambda>e. fst e \<noteq> fd) (open_fds s)" "other_fds ?t = other_fds s"
      using env by (simp_all add: same_env_def)
    show "pf_state.more ?t = pf_state.more s" using env by (simp add: same_env_def closed_fd_def)
    show "dom (busy_map ?t) \<subseteq> dom (busy_map s)" using u(8) by simp
    show "files ?t f = files s f" if "f \<notin> snd ` set (open_fds s)" for f
      using env that by (simp add: same_env_def)
  qed (use pages others in blast)+
qed

end
