(* ===== verification/Bitmap.thy ===== *)
theory Bitmap
  imports Bytes
begin

text \<open>
  \<open>record_manager/bitmap.h\<close>: a bitmap over the bytes a pointer leads to (here the byte list
  from that pointer on), most significant bit first. The lemmas give \<open>test\<close> after \<open>set\<close> and
  \<open>reset\<close>, the search \<open>next_bit\<close> as the least matching position, and the effect of an update
  on the number of set bits.
\<close>

unbundle bit_operations_syntax

definition WIDTH :: nat where
  "WIDTH = 8"

definition HIGHEST_BIT :: byte where
  "HIGHEST_BIT = 0x80"

definition get_bucket :: "nat \<Rightarrow> nat" where
  "get_bucket pos = pos div WIDTH"

definition get_bit :: "nat \<Rightarrow> byte" where
  "get_bit pos = drop_bit (pos mod WIDTH) HIGHEST_BIT"

definition bm_init :: "byte list \<Rightarrow> nat \<Rightarrow> byte list" where
  "bm_init bm sz = memset bm 0 0 sz"

definition bm_set :: "byte list \<Rightarrow> nat \<Rightarrow> byte list" where
  "bm_set bm pos = bm[get_bucket pos := bm ! get_bucket pos OR get_bit pos]"

definition bm_reset :: "byte list \<Rightarrow> nat \<Rightarrow> byte list" where
  "bm_reset bm pos = bm[get_bucket pos := bm ! get_bucket pos AND NOT (get_bit pos)]"

definition bm_test :: "byte list \<Rightarrow> nat \<Rightarrow> bool" where
  "bm_test bm pos = (bm ! get_bucket pos AND get_bit pos \<noteq> 0)"

text \<open>The loop \<open>for (i = start + 1; i < sz; i++)\<close> of \<open>next_bit\<close>, from \<open>i\<close> on.\<close>

function next_bit_from :: "bool \<Rightarrow> byte list \<Rightarrow> nat \<Rightarrow> nat \<Rightarrow> nat" where
  "next_bit_from b bm sz i =
     (if i < sz then (if bm_test bm i = b then i else next_bit_from b bm sz (i + 1)) else sz)"
  by pat_completeness auto
termination by (relation "measure (\<lambda>(b, bm, sz, i). sz - i)") auto

declare next_bit_from.simps [simp del]

definition next_bit :: "bool \<Rightarrow> byte list \<Rightarrow> nat \<Rightarrow> int \<Rightarrow> nat" where
  "next_bit b bm sz start = next_bit_from b bm sz (nat (start + 1))"

definition first_bit :: "bool \<Rightarrow> byte list \<Rightarrow> nat \<Rightarrow> nat" where
  "first_bit b bm max_n = next_bit b bm max_n (-1)"

section \<open>Single bits\<close>

lemma mod8_cases: "(n::nat) mod 8 \<in> {0, 1, 2, 3, 4, 5, 6, 7}"
proof -
  have "n mod 8 < 8" by simp
  then show ?thesis by (simp only: insert_iff empty_iff) arith
qed

lemma get_bit_eq: "get_bit pos = push_bit (7 - pos mod 8) 1"
  using mod8_cases[of pos] by (auto simp: get_bit_def WIDTH_def HIGHEST_BIT_def)

lemma bm_test_bit: "bm_test bm pos \<longleftrightarrow> bit (bm ! (pos div 8)) (7 - pos mod 8)"
  by (simp add: bm_test_def get_bit_eq get_bucket_def WIDTH_def bit_iff_and_push_bit_not_eq_0)

lemma bit_get_bit: "k < 8 \<Longrightarrow> bit (get_bit pos) k \<longleftrightarrow> k = 7 - pos mod 8"
  by (auto simp: get_bit_eq bit_exp_iff)

lemma same_bit_position:
  "p div 8 = q div 8 \<Longrightarrow> 7 - p mod 8 = 7 - q mod 8 \<longleftrightarrow> p = (q::nat)"
proof -
  assume d: "p div 8 = q div 8"
  have "p mod 8 \<le> 7" "q mod 8 \<le> 7" by simp_all
  then have "7 - p mod 8 = 7 - q mod 8 \<longleftrightarrow> p mod 8 = q mod 8" by arith
  also have "\<dots> \<longleftrightarrow> p = q" using d by (metis div_mod_decomp)
  finally show ?thesis .
qed

lemma length_bm_set [simp]: "length (bm_set bm p) = length bm"
  by (simp add: bm_set_def)

lemma length_bm_reset [simp]: "length (bm_reset bm p) = length bm"
  by (simp add: bm_reset_def)

lemma bm_test_set:
  assumes "p div 8 < length bm"
  shows "bm_test (bm_set bm p) q \<longleftrightarrow> q = p \<or> bm_test bm q"
proof (cases "p div 8 = q div 8")
  case True
  then show ?thesis
    using assms same_bit_position[OF True]
    by (auto simp: bm_test_bit bm_set_def get_bucket_def WIDTH_def bit_or_iff bit_get_bit)
next
  case False
  then show ?thesis
    by (auto simp: bm_test_bit bm_set_def get_bucket_def WIDTH_def)
qed

lemma bm_test_reset:
  assumes "p div 8 < length bm"
  shows "bm_test (bm_reset bm p) q \<longleftrightarrow> q \<noteq> p \<and> bm_test bm q"
proof (cases "p div 8 = q div 8")
  case True
  then show ?thesis
    using assms same_bit_position[OF True]
    by (auto simp: bm_test_bit bm_reset_def get_bucket_def WIDTH_def bit_and_iff bit_not_iff bit_get_bit)
next
  case False
  then show ?thesis
    by (auto simp: bm_test_bit bm_reset_def get_bucket_def WIDTH_def)
qed

lemma bm_test_init:
  assumes "q div 8 < sz" "sz \<le> length bm"
  shows "\<not> bm_test (bm_init bm sz) q"
proof -
  have "bm_init bm sz ! (q div 8) = 0"
    using assms by (simp add: bm_init_def memset_def nth_store)
  then show ?thesis by (simp add: bm_test_bit)
qed

lemma bm_test_cong: "bm ! (q div 8) = bm' ! (q div 8) \<Longrightarrow> bm_test bm q = bm_test bm' q"
  by (simp add: bm_test_bit)

section \<open>Searching\<close>

lemma next_bit_from_props:
  assumes "i \<le> sz" "r = next_bit_from b bm sz i"
  shows "i \<le> r \<and> r \<le> sz \<and> (r < sz \<longrightarrow> bm_test bm r = b) \<and>
    (\<forall>k. i \<le> k \<and> k < r \<longrightarrow> bm_test bm k \<noteq> b)"
  using assms
proof (induction b bm sz i arbitrary: r rule: next_bit_from.induct)
  case (1 b bm sz i)
  show ?case
  proof (cases "i < sz \<and> bm_test bm i \<noteq> b")
    case True
    then have r: "r = next_bit_from b bm sz (i + 1)"
      using "1.prems" by (simp add: next_bit_from.simps[of b bm sz i])
    have IH: "i + 1 \<le> r \<and> r \<le> sz \<and> (r < sz \<longrightarrow> bm_test bm r = b) \<and>
        (\<forall>k. i + 1 \<le> k \<and> k < r \<longrightarrow> bm_test bm k \<noteq> b)"
      using True r by (intro "1.IH") simp_all
    have "bm_test bm k \<noteq> b" if "i \<le> k" "k < r" for k
      using that IH True by (cases "k = i") auto
    with IH show ?thesis by auto
  next
    case False
    then have "r = i"
      using "1.prems" by (auto simp: next_bit_from.simps[of b bm sz i])
    with False "1.prems" show ?thesis by auto
  qed
qed

lemma first_bit_props:
  shows "first_bit b bm n \<le> n"
    and "first_bit b bm n < n \<Longrightarrow> bm_test bm (first_bit b bm n) = b"
    and "k < first_bit b bm n \<Longrightarrow> bm_test bm k \<noteq> b"
  using next_bit_from_props[of 0 n "first_bit b bm n" b bm]
  by (simp_all add: first_bit_def next_bit_def)

lemma first_bit_found: "k < n \<Longrightarrow> bm_test bm k = b \<Longrightarrow> first_bit b bm n < n"
  using first_bit_props(3)[of k b bm n] first_bit_props(1)[of b bm n] by fastforce

section \<open>Counting\<close>

definition used_bits :: "byte list \<Rightarrow> nat \<Rightarrow> nat set" where
  "used_bits bm n = {k. k < n \<and> bm_test bm k}"

lemma finite_used_bits [simp]: "finite (used_bits bm n)"
  by (simp add: used_bits_def)

lemma card_used_bits_le: "card (used_bits bm n) \<le> n"
  using card_mono[of "{..<n}" "used_bits bm n"] by (auto simp: used_bits_def)

lemma used_bits_set: "p < n \<Longrightarrow> p div 8 < length bm \<Longrightarrow> used_bits (bm_set bm p) n = insert p (used_bits bm n)"
  by (auto simp: used_bits_def bm_test_set)

lemma used_bits_reset: "p div 8 < length bm \<Longrightarrow> used_bits (bm_reset bm p) n = used_bits bm n - {p}"
  by (auto simp: used_bits_def bm_test_reset)

lemma used_bits_init: "(n + 7) div 8 \<le> sz \<Longrightarrow> sz \<le> length bm \<Longrightarrow> used_bits (bm_init bm sz) n = {}"
proof -
  assume s: "(n + 7) div 8 \<le> sz" "sz \<le> length bm"
  have "k div 8 < sz" if "k < n" for k
  proof -
    have "(k + 8) div 8 \<le> (n + 7) div 8" using that by (intro div_le_mono) simp
    with s show ?thesis by simp
  qed
  then show ?thesis using s by (auto simp: used_bits_def bm_test_init)
qed

lemma card_less_iff_free: "card (used_bits bm n) < n \<longleftrightarrow> (\<exists>k<n. \<not> bm_test bm k)"
proof
  assume "card (used_bits bm n) < n"
  then have "used_bits bm n \<noteq> {..<n}" by (metis card_lessThan less_irrefl)
  then show "\<exists>k<n. \<not> bm_test bm k" by (auto simp: used_bits_def)
next
  assume "\<exists>k<n. \<not> bm_test bm k"
  then have "used_bits bm n \<subset> {..<n}" by (auto simp: used_bits_def)
  then have "card (used_bits bm n) < card {..<n}" 
    by (rule psubset_card_mono [OF finite_lessThan])
  then show "card (used_bits bm n) < n" by simp
qed

lemma first_free_bit: "card (used_bits bm n) < n \<Longrightarrow> first_bit False bm n < n"
proof -
  assume "card (used_bits bm n) < n"
  then obtain k where "k < n" "bm_test bm k = False"
    unfolding card_less_iff_free by auto
  then show ?thesis by (rule first_bit_found)
qed

end
