(* ===== verification/RecordFile.thy ===== *)
theory RecordFile
  imports PageCache PfManager Bitmap
begin

text \<open>
  \<open>record_manager/rm_defs.h\<close>, \<open>rm_file_handle.{h,cpp}\<close>, \<open>rm_iterator.{h,cpp}\<close> and
  \<open>rm_manager.cpp\<close>: files of fixed-size records. A page is a header (\<open>next_free\<close> at 0,
  \<open>num_records\<close> at 4), a bitmap at 8 and the slots; \<open>RM_PageHandle\<close> is the cache page with
  these offsets. The file handle keeps the file header in memory and is passed and returned
  as a value. An access through a slot number whose bits or bytes lie outside the page is
  \<open>Undefined\<close>.
\<close>

section \<open>rm_defs.h\<close>

definition RM_NO_PAGE :: int where
  "RM_NO_PAGE = -1"

definition RM_FILE_HDR_PAGE :: int where
  "RM_FILE_HDR_PAGE = 0"

definition RM_FIRST_RECORD_PAGE :: int where
  "RM_FIRST_RECORD_PAGE = 1"

definition RM_MAX_RECORD_SIZE :: int where
  "RM_MAX_RECORD_SIZE = 512"

record RM_FileHeader =
  record_size :: int
  num_pages :: int
  num_records_per_page :: int
  first_free :: int
  bitmap_size :: int

record RM_FileHandle =
  fh_hdr :: RM_FileHeader
  fh_fd :: int

text \<open>The file header as the bytes of the struct.\<close>

definition hdr_bytes :: "RM_FileHeader \<Rightarrow> byte list" where
  "hdr_bytes h = ints_bytes [record_size h, num_pages h, num_records_per_page h, first_free h, bitmap_size h]"

definition hdr_of_bytes :: "byte list \<Rightarrow> RM_FileHeader" where
  "hdr_of_bytes b = (case bytes_ints 5 b of
     [a, p, n, f, m] \<Rightarrow> \<lparr>record_size = a, num_pages = p, num_records_per_page = n,
       first_free = f, bitmap_size = m\<rparr>)"

definition sizeof_RM_FileHeader :: nat where
  "sizeof_RM_FileHeader = 20"

text \<open>\<open>RM_PageHeader\<close> and \<open>RM_PageHandle\<close>: offsets in the page.\<close>

definition sizeof_RM_PageHeader :: nat where
  "sizeof_RM_PageHeader = 8"

definition pg_next_free :: "byte list \<Rightarrow> int" where
  "pg_next_free b = load_int b 0"

definition pg_num_records :: "byte list \<Rightarrow> int" where
  "pg_num_records b = load_int b 4"

definition pg_bitmap :: "byte list \<Rightarrow> byte list" where
  "pg_bitmap b = drop sizeof_RM_PageHeader b"

definition upd_bitmap :: "(byte list \<Rightarrow> byte list) \<Rightarrow> byte list \<Rightarrow> byte list" where
  "upd_bitmap f b = store b sizeof_RM_PageHeader (f (pg_bitmap b))"

definition get_slot :: "RM_FileHeader \<Rightarrow> int \<Rightarrow> int" where
  "get_slot h slot_no = int sizeof_RM_PageHeader + bitmap_size h + slot_no * record_size h"

text \<open>When the byte of a bit, and the bytes of a slot, lie in the page.\<close>

definition bit_in_page :: "int \<Rightarrow> bool" where
  "bit_in_page pos \<longleftrightarrow> 0 \<le> pos \<and> nat pos div WIDTH < PAGE_SIZE - sizeof_RM_PageHeader"

definition slot_in_page :: "RM_FileHeader \<Rightarrow> int \<Rightarrow> bool" where
  "slot_in_page h slot_no \<longleftrightarrow> 0 \<le> record_size h \<and> 0 \<le> get_slot h slot_no \<and>
     get_slot h slot_no + record_size h \<le> int PAGE_SIZE"

section \<open>rm_file_handle.cpp\<close>

definition RM_fetch_page :: "RM_FileHandle \<Rightarrow> int \<Rightarrow> ('z, nat) pf_prog" where
  "RM_fetch_page fh page_no =
     andThen (ensure (page_no < num_pages (fh_hdr fh)) AssertFail) (\<lambda>_. fetch_page (fh_fd fh) page_no)"

definition init_record_page :: "RM_FileHeader \<Rightarrow> byte list \<Rightarrow> byte list" where
  "init_record_page h b =
     upd_bitmap (\<lambda>bm. bm_init bm (nat (bitmap_size h))) (store_int (store_int b 4 0) 0 RM_NO_PAGE)"

definition RM_create_page :: "RM_FileHandle \<Rightarrow> ('z, nat \<times> RM_FileHandle) pf_prog" where
  "RM_create_page fh =
     (if first_free (fh_hdr fh) = RM_NO_PAGE then
        andThen (create_page (fh_fd fh) (num_pages (fh_hdr fh))) (\<lambda>i.
        andThen (ensure (0 \<le> bitmap_size (fh_hdr fh) \<and>
            bitmap_size (fh_hdr fh) \<le> int (PAGE_SIZE - sizeof_RM_PageHeader)) Undefined) (\<lambda>_.
        andThen (edit_buf i (init_record_page (fh_hdr fh))) (\<lambda>_.
        andThen (gets (page_ident i)) (\<lambda>pid.
        ret (i, fh\<lparr>fh_hdr := (fh_hdr fh)\<lparr>num_pages := num_pages (fh_hdr fh) + 1,
          first_free := pid_page pid\<rparr>\<rparr>)))))
      else andThen (RM_fetch_page fh (first_free (fh_hdr fh))) (\<lambda>i. ret (i, fh)))"

text \<open>\<open>Bitmap::test(ph.bitmap, slot_no)\<close>.\<close>

definition test_slot :: "nat \<Rightarrow> int \<Rightarrow> ('z, bool) pf_prog" where
  "test_slot i slot_no =
     andThen (ensure (bit_in_page slot_no) Undefined) (\<lambda>_.
     gets (\<lambda>s. bm_test (pg_bitmap (page_bytes i s)) (nat slot_no)))"

definition is_record :: "RM_FileHandle \<Rightarrow> RecordID \<Rightarrow> ('z, bool) pf_prog" where
  "is_record fh rid = andThen (RM_fetch_page fh (rid_page rid)) (\<lambda>i. test_slot i (rid_slot rid))"

definition get_record :: "RM_FileHandle \<Rightarrow> RecordID \<Rightarrow> ('z, byte list) pf_prog" where
  "get_record fh rid =
     andThen (RM_fetch_page fh (rid_page rid)) (\<lambda>i.
     andThen (test_slot i (rid_slot rid)) (\<lambda>used.
     andThen (ensure used (Throw (RecordNotFoundError (rid_page rid) (rid_slot rid)))) (\<lambda>_.
     andThen (ensure (slot_in_page (fh_hdr fh) (rid_slot rid)) Undefined) (\<lambda>_.
     gets (\<lambda>s. load (page_bytes i s) (nat (get_slot (fh_hdr fh) (rid_slot rid)))
       (nat (record_size (fh_hdr fh))))))))"

text \<open>\<open>ph.hdr->num_records += d\<close> and \<open>memcpy(slot, data, hdr.record_size)\<close>.\<close>

definition add_num_records :: "nat \<Rightarrow> int \<Rightarrow> ('z, unit) pf_prog" where
  "add_num_records i d =
     andThen (gets (\<lambda>s. pg_num_records (page_bytes i s))) (\<lambda>n.
     andThen (ensure (int_ok (n + d)) Undefined) (\<lambda>_.
     edit_buf i (\<lambda>b. store_int b 4 (n + d))))"

definition copy_to_slot :: "RM_FileHeader \<Rightarrow> nat \<Rightarrow> int \<Rightarrow> byte list \<Rightarrow> ('z, unit) pf_prog" where
  "copy_to_slot h i slot_no data =
     andThen (ensure (slot_in_page h slot_no \<and> nat (record_size h) \<le> length data) Undefined) (\<lambda>_.
     edit_buf i (\<lambda>b. store b (nat (get_slot h slot_no)) (take (nat (record_size h)) data)))"

text \<open>A page that is full now leaves the free list.\<close>

definition unlist_full :: "RM_FileHandle \<Rightarrow> byte list \<Rightarrow> RM_FileHandle" where
  "unlist_full fh b = (if pg_num_records b = num_records_per_page (fh_hdr fh)
     then fh\<lparr>fh_hdr := (fh_hdr fh)\<lparr>first_free := pg_next_free b\<rparr>\<rparr> else fh)"

definition insert_record :: "RM_FileHandle \<Rightarrow> byte list \<Rightarrow> ('z, RecordID \<times> RM_FileHandle) pf_prog" where
  "insert_record fh data =
     andThen (RM_create_page fh) (\<lambda>(i, fh1).
     andThen (ensure (num_records_per_page (fh_hdr fh1) \<le> 0 \<or>
         bit_in_page (num_records_per_page (fh_hdr fh1) - 1)) Undefined) (\<lambda>_.
     andThen (gets (\<lambda>s. int (first_bit False (pg_bitmap (page_bytes i s))
         (nat (num_records_per_page (fh_hdr fh1)))))) (\<lambda>slot_no.
     andThen (ensure (slot_no < num_records_per_page (fh_hdr fh1)) AssertFail) (\<lambda>_.
     andThen (edit_buf i (upd_bitmap (\<lambda>bm. bm_set bm (nat slot_no)))) (\<lambda>_.
     andThen (mark_dirty i) (\<lambda>_.
     andThen (add_num_records i 1) (\<lambda>_.
     andThen (gets (\<lambda>s. unlist_full fh1 (page_bytes i s))) (\<lambda>fh2.
     andThen (copy_to_slot (fh_hdr fh2) i slot_no data) (\<lambda>_.
     andThen (gets (page_ident i)) (\<lambda>pid.
     ret (RecordID (pid_page pid) slot_no, fh2)))))))))))"

definition release_page :: "RM_FileHandle \<Rightarrow> nat \<Rightarrow> ('z, RM_FileHandle) pf_prog" where
  "release_page fh i =
     andThen (edit_buf i (\<lambda>b. store_int b 0 (first_free (fh_hdr fh)))) (\<lambda>_.
     andThen (gets (page_ident i)) (\<lambda>pid.
     ret (fh\<lparr>fh_hdr := (fh_hdr fh)\<lparr>first_free := pid_page pid\<rparr>\<rparr>)))"

definition delete_record :: "RM_FileHandle \<Rightarrow> RecordID \<Rightarrow> ('z, RM_FileHandle) pf_prog" where
  "delete_record fh rid =
     andThen (RM_fetch_page fh (rid_page rid)) (\<lambda>i.
     andThen (test_slot i (rid_slot rid)) (\<lambda>used.
     andThen (ensure used (Throw (RecordNotFoundError (rid_page rid) (rid_slot rid)))) (\<lambda>_.
     andThen (mark_dirty i) (\<lambda>_.
     andThen (gets (\<lambda>s. pg_num_records (page_bytes i s))) (\<lambda>n.
     andThen (if n = num_records_per_page (fh_hdr fh) then release_page fh i else ret fh) (\<lambda>fh1.
     andThen (edit_buf i (upd_bitmap (\<lambda>bm. bm_reset bm (nat (rid_slot rid))))) (\<lambda>_.
     andThen (add_num_records i (-1)) (\<lambda>_.
     ret fh1))))))))"

definition update_record :: "RM_FileHandle \<Rightarrow> RecordID \<Rightarrow> byte list \<Rightarrow> ('z, unit) pf_prog" where
  "update_record fh rid data =
     andThen (RM_fetch_page fh (rid_page rid)) (\<lambda>i.
     andThen (test_slot i (rid_slot rid)) (\<lambda>used.
     andThen (ensure used (Throw (RecordNotFoundError (rid_page rid) (rid_slot rid)))) (\<lambda>_.
     andThen (mark_dirty i) (\<lambda>_.
     copy_to_slot (fh_hdr fh) i (rid_slot rid) data))))"

section \<open>rm_iterator.cpp\<close>

definition rm_is_end :: "RecordID \<Rightarrow> bool" where
  "rm_is_end rid \<longleftrightarrow> rid_page rid = RM_NO_PAGE"

text \<open>The \<open>while\<close> loop of \<open>next\<close>, at page \<open>p\<close> behind slot \<open>slot_no\<close>.\<close>

function rm_next_loop :: "RM_FileHandle \<Rightarrow> int \<Rightarrow> int \<Rightarrow> ('z, RecordID) pf_prog" where
  "rm_next_loop fh p slot_no =
     (if p < num_pages (fh_hdr fh) then
        andThen (RM_fetch_page fh p) (\<lambda>i.
        andThen (ensure (num_records_per_page (fh_hdr fh) \<le> 0 \<or>
            bit_in_page (num_records_per_page (fh_hdr fh) - 1)) Undefined) (\<lambda>_.
        andThen (gets (\<lambda>s. int (next_bit True (pg_bitmap (page_bytes i s))
            (nat (num_records_per_page (fh_hdr fh))) slot_no))) (\<lambda>n.
        if n < num_records_per_page (fh_hdr fh) then ret (RecordID p n)
        else rm_next_loop fh (p + 1) (-1))))
      else ret (RecordID RM_NO_PAGE slot_no))"
  by pat_completeness auto
termination by (relation "measure (\<lambda>(fh, p, n). nat (num_pages (fh_hdr fh) - p))") auto

declare rm_next_loop.simps [simp del]

definition rm_next :: "RM_FileHandle \<Rightarrow> RecordID \<Rightarrow> ('z, RecordID) pf_prog" where
  "rm_next fh rid = andThen (ensure (\<not> rm_is_end rid) AssertFail) (\<lambda>_.
     rm_next_loop fh (rid_page rid) (rid_slot rid))"

definition RM_Iterator :: "RM_FileHandle \<Rightarrow> ('z, RecordID) pf_prog" where
  "RM_Iterator fh = rm_next fh (RecordID RM_FIRST_RECORD_PAGE (-1))"

section \<open>rm_manager.cpp\<close>

definition records_per_page :: "int \<Rightarrow> int" where
  "records_per_page sz = (int WIDTH * (int PAGE_SIZE - 1 - int sizeof_RM_PageHeader) + 1) div
     (1 + sz * int WIDTH)"

definition new_file_header :: "int \<Rightarrow> RM_FileHeader" where
  "new_file_header sz = \<lparr>record_size = sz, num_pages = 1,
     num_records_per_page = records_per_page sz, first_free = RM_NO_PAGE,
     bitmap_size = (records_per_page sz + int WIDTH - 1) div int WIDTH\<rparr>"

definition RM_create_file :: "string \<Rightarrow> int \<Rightarrow> ('z, unit) pf_prog" where
  "RM_create_file filename sz =
     andThen (ensure (1 \<le> sz \<and> sz \<le> RM_MAX_RECORD_SIZE) (Throw (InvalidRecordSizeError sz))) (\<lambda>_.
     andThen (create_file filename) (\<lambda>_.
     andThen (open_file filename) (\<lambda>fd.
     andThen (write_page fd RM_FILE_HDR_PAGE (hdr_bytes (new_file_header sz))) (\<lambda>_.
     close_file fd))))"

definition RM_destroy_file :: "string \<Rightarrow> ('z, unit) pf_prog" where
  "RM_destroy_file filename = destroy_file filename"

definition RM_open_file :: "string \<Rightarrow> ('z, RM_FileHandle) pf_prog" where
  "RM_open_file filename =
     andThen (open_file filename) (\<lambda>fd.
     andThen (read_page fd RM_FILE_HDR_PAGE sizeof_RM_FileHeader (\<lambda>_ s. s)) (\<lambda>bytes.
     ret \<lparr>fh_hdr = hdr_of_bytes bytes, fh_fd = fd\<rparr>))"

definition RM_close_file :: "RM_FileHandle \<Rightarrow> ('z, unit) pf_prog" where
  "RM_close_file fh =
     andThen (write_page (fh_fd fh) RM_FILE_HDR_PAGE (hdr_bytes (fh_hdr fh))) (\<lambda>_.
     close_file (fh_fd fh))"

end
