(* ===== verification/RecordPage.thy ===== *)
theory RecordPage
  imports RecordFile
begin

text \<open>
  The content of a record file as a map from record ids to bytes, its invariant (the record
  count of a page is the number of bits set, the free list is the chain of exactly the pages
  with room), and what the page updates of \<open>rm_file_handle.cpp\<close> do to both. Everything here is
  about pages as byte lists; \<open>RecordOps\<close> lifts it to the operations.
\<close>

section \<open>A page of records\<close>

abbreviation npp :: "RM_FileHeader \<Rightarrow> nat" where
  "npp h \<equiv> nat (num_records_per_page h)"

definition hdr_ok :: "RM_FileHeader \<Rightarrow> bool" where
  "hdr_ok h \<longleftrightarrow> 1 \<le> record_size h \<and> record_size h \<le> RM_MAX_RECORD_SIZE \<and>
     1 \<le> num_records_per_page h \<and> bitmap_size h = (num_records_per_page h + 7) div 8 \<and>
     8 + bitmap_size h + num_records_per_page h * record_size h \<le> int PAGE_SIZE \<and>
     1 \<le> num_pages h \<and> num_pages h \<le> 524288"

definition slot_off :: "RM_FileHeader \<Rightarrow> nat \<Rightarrow> nat" where
  "slot_off h n = nat (get_slot h (int n))"

definition page_recs :: "RM_FileHeader \<Rightarrow> byte list \<Rightarrow> nat \<rightharpoonup> byte list" where
  "page_recs h b = (\<lambda>n. if n < npp h \<and> bm_test (pg_bitmap b) n
     then Some (load b (slot_off h n) (nat (record_size h))) else None)"

definition page_ok :: "RM_FileHeader \<Rightarrow> byte list \<Rightarrow> bool" where
  "page_ok h b \<longleftrightarrow> length b = PAGE_SIZE \<and>
     pg_num_records b = int (card (used_bits (pg_bitmap b) (npp h)))"

text \<open>The fields of the header that pages depend on.\<close>

definition same_layout :: "RM_FileHeader \<Rightarrow> RM_FileHeader \<Rightarrow> bool" where
  "same_layout h g \<longleftrightarrow> record_size g = record_size h \<and>
     num_records_per_page g = num_records_per_page h \<and> bitmap_size g = bitmap_size h"

lemma same_layout_page:
  assumes "same_layout h g"
  shows "page_recs g = page_recs h" "page_ok g = page_ok h" "slot_off g = slot_off h"
    "npp g = npp h" "slot_in_page g = slot_in_page h"
  using assms unfolding same_layout_def
  by (simp_all add: page_recs_def page_ok_def slot_off_def get_slot_def fun_eq_iff slot_in_page_def)

text \<open>Bounds: the bitmap lies behind the page header, the slots behind the bitmap.\<close>

lemma hdr_bounds:
  assumes "hdr_ok h" "n < npp h"
  shows "n div 8 < nat (bitmap_size h)"
    and "8 + nat (bitmap_size h) \<le> slot_off h n"
    and "slot_off h n + nat (record_size h) \<le> PAGE_SIZE"
    and "8 + nat (bitmap_size h) \<le> PAGE_SIZE"
    and "slot_in_page h (int n)" and "bit_in_page (int n)"
proof -
  have h: "1 \<le> record_size h" "1 \<le> num_records_per_page h" "bitmap_size h = (num_records_per_page h + 7) div 8"
    "8 + bitmap_size h + num_records_per_page h * record_size h \<le> int PAGE_SIZE"
    using assms(1) by (auto simp: hdr_ok_def)
  have n: "int n < num_records_per_page h" using assms(2) by linarith
  have bs: "0 \<le> bitmap_size h" using h(2,3) by simp
  have "int n div 8 < bitmap_size h" using n h(3) by linarith
  then show b: "n div 8 < nat (bitmap_size h)" using bs by linarith
  have "(int n + 1) * record_size h \<le> num_records_per_page h * record_size h"
    using n h(1) by (intro mult_right_mono) auto
  then have e: "int n * record_size h + record_size h \<le> num_records_per_page h * record_size h"
    by (simp add: algebra_simps)
  have gs: "get_slot h (int n) = 8 + bitmap_size h + int n * record_size h"
    by (simp add: get_slot_def sizeof_RM_PageHeader_def)
  have pos: "0 \<le> int n * record_size h" using h(1) by simp
  show "8 + nat (bitmap_size h) \<le> slot_off h n"
    unfolding slot_off_def gs using pos bs by linarith
  show "slot_off h n + nat (record_size h) \<le> PAGE_SIZE"
    unfolding slot_off_def gs using e h(1,4) pos bs by linarith
  show le: "8 + nat (bitmap_size h) \<le> PAGE_SIZE"
    using e h(1,4) pos bs by linarith
  show "slot_in_page h (int n)"
    unfolding slot_in_page_def gs using e h(1,4) pos bs by linarith
  show "bit_in_page (int n)"
    using b le by (simp add: bit_in_page_def WIDTH_def sizeof_RM_PageHeader_def)
qed

lemma slots_apart:
  assumes "hdr_ok h" "m < n"
  shows "slot_off h m + nat (record_size h) \<le> slot_off h n"
proof -
  have h: "1 \<le> record_size h" "0 \<le> bitmap_size h" using assms(1) by (auto simp: hdr_ok_def)
  have "(int m + 1) * record_size h \<le> int n * record_size h"
    using assms(2) h(1) by (intro mult_right_mono) auto
  then have e: "int m * record_size h + record_size h \<le> int n * record_size h"
    by (simp add: algebra_simps)
  have pos: "0 \<le> int m * record_size h" using h(1) by simp
  have gs: "get_slot h (int k) = 8 + bitmap_size h + int k * record_size h" for k
    by (simp add: get_slot_def sizeof_RM_PageHeader_def)
  show ?thesis unfolding slot_off_def gs using e pos h by linarith
qed

lemma slots_disjoint:
  "hdr_ok h \<Longrightarrow> m \<noteq> n \<Longrightarrow> slot_off h m + nat (record_size h) \<le> slot_off h n \<or>
     slot_off h n + nat (record_size h) \<le> slot_off h m"
  using slots_apart[of h m n] slots_apart[of h n m] by linarith

section \<open>Page updates\<close>

lemma length_pg_bitmap [simp]: "length b = PAGE_SIZE \<Longrightarrow> length (pg_bitmap b) = 4088"
  by (simp add: pg_bitmap_def PAGE_SIZE_def sizeof_RM_PageHeader_def)

lemma upd_bitmap_facts:
  assumes "length b = PAGE_SIZE" "length (f (pg_bitmap b)) = 4088"
  shows "length (upd_bitmap f b) = PAGE_SIZE" "pg_bitmap (upd_bitmap f b) = f (pg_bitmap b)"
    "pg_next_free (upd_bitmap f b) = pg_next_free b" "pg_num_records (upd_bitmap f b) = pg_num_records b"
  using assms
  by (simp_all add: upd_bitmap_def length_store PAGE_SIZE_def sizeof_RM_PageHeader_def pg_next_free_def
      pg_num_records_def load_int_store_before) (simp add: pg_bitmap_def store_def sizeof_RM_PageHeader_def)

text \<open>Bits beyond the bitmap are not touched by setting or resetting one of it.\<close>

lemma upd_bitmap_slot:
  assumes "length b = PAGE_SIZE" "length bm = 4088" "drop k (pg_bitmap b) = drop k bm"
    "8 + k \<le> off"
  shows "load (store b 8 bm) off n = load b off n"
proof -
  have "drop (8 + k) (store b 8 bm) = drop k (drop 8 (store b 8 bm))"
    by (simp add: add.commute)
  also have "\<dots> = drop k bm" using assms(1,2) by (simp add: store_def PAGE_SIZE_def)
  also have "\<dots> = drop (8 + k) b"
    using assms(3) by (simp add: pg_bitmap_def sizeof_RM_PageHeader_def add.commute)
  finally have d: "drop (8 + k) (store b 8 bm) = drop (8 + k) b" .
  have "drop off (store b 8 bm) = drop (off - (8 + k)) (drop (8 + k) (store b 8 bm))"
    using assms(4) by simp
  also have "\<dots> = drop off b" unfolding d using assms(4) by simp
  finally show ?thesis by (simp add: load_def)
qed

lemma drop_list_update: "i < k \<Longrightarrow> drop k (xs[i := x]) = drop k xs"
  by (simp add: drop_update_cancel)

lemma bitmap_slot:
  assumes "hdr_ok h" "length b = PAGE_SIZE" "n < npp h" "m < npp h"
  shows "load (upd_bitmap (\<lambda>bm. bm_set bm n) b) (slot_off h m) (nat (record_size h))
       = load b (slot_off h m) (nat (record_size h))"
    and "load (upd_bitmap (\<lambda>bm. bm_reset bm n) b) (slot_off h m) (nat (record_size h))
       = load b (slot_off h m) (nat (record_size h))"
proof -
  note n = hdr_bounds[OF assms(1,3)] and m = hdr_bounds[OF assms(1,4)]
  let ?k = "nat (bitmap_size h)"
  have d: "drop ?k (pg_bitmap b) = drop ?k (bm_set (pg_bitmap b) n)"
    "drop ?k (pg_bitmap b) = drop ?k (bm_reset (pg_bitmap b) n)"
    using n(1) by (simp_all add: bm_set_def bm_reset_def get_bucket_def WIDTH_def drop_list_update)
  have len: "length (bm_set (pg_bitmap b) n) = 4088" "length (bm_reset (pg_bitmap b) n) = 4088"
    using assms(2) by simp_all
  show "load (upd_bitmap (\<lambda>bm. bm_set bm n) b) (slot_off h m) (nat (record_size h))
       = load b (slot_off h m) (nat (record_size h))"
    using upd_bitmap_slot[OF assms(2) len(1) d(1) m(2)]
    by (simp add: upd_bitmap_def sizeof_RM_PageHeader_def)
  show "load (upd_bitmap (\<lambda>bm. bm_reset bm n) b) (slot_off h m) (nat (record_size h))
       = load b (slot_off h m) (nat (record_size h))"
    using upd_bitmap_slot[OF assms(2) len(2) d(2) m(2)]
    by (simp add: upd_bitmap_def sizeof_RM_PageHeader_def)
qed

text \<open>Changing the page header leaves bitmap and slots alone.\<close>

lemma header_store:
  assumes "length b = PAGE_SIZE" "off + 4 \<le> 8" "int_ok i"
  shows "length (store_int b off i) = PAGE_SIZE" "pg_bitmap (store_int b off i) = pg_bitmap b"
    "8 \<le> o1 \<Longrightarrow> load (store_int b off i) o1 n = load b o1 n"
    "page_recs h (store_int b off i) = page_recs h b \<or> \<not> hdr_ok h"
proof -
  show "length (store_int b off i) = PAGE_SIZE"
    using assms by (simp add: length_store_int PAGE_SIZE_def)
  show bm: "pg_bitmap (store_int b off i) = pg_bitmap b"
  proof -
    have "load (store_int b off i) 8 4088 = load b 8 4088"
      using assms by (simp add: load_store_int_after PAGE_SIZE_def)
    moreover have "length (store_int b off i) = PAGE_SIZE"
      using assms by (simp add: length_store_int PAGE_SIZE_def)
    ultimately show ?thesis
      using assms(1) by (simp add: load_def pg_bitmap_def sizeof_RM_PageHeader_def PAGE_SIZE_def)
  qed
  show ld: "8 \<le> o1 \<Longrightarrow> load (store_int b off i) o1 n = load b o1 n" for o1 n
    using assms by (intro load_store_int_after) (simp_all add: PAGE_SIZE_def)
  show "page_recs h (store_int b off i) = page_recs h b \<or> \<not> hdr_ok h"
  proof (cases "hdr_ok h")
    case True
    have "8 \<le> slot_off h n" if "n < npp h" for n using hdr_bounds(2)[OF True that] by simp
    then show ?thesis by (auto simp: page_recs_def bm ld fun_eq_iff)
  qed simp
qed

lemma store_slot:
  assumes "hdr_ok h" "length b = PAGE_SIZE" "n < npp h" "length data = nat (record_size h)"
  shows "length (store b (slot_off h n) data) = PAGE_SIZE"
    "pg_next_free (store b (slot_off h n) data) = pg_next_free b"
    "pg_num_records (store b (slot_off h n) data) = pg_num_records b"
    "m < npp h \<Longrightarrow> bm_test (pg_bitmap (store b (slot_off h n) data)) m = bm_test (pg_bitmap b) m"
    "m < npp h \<Longrightarrow> load (store b (slot_off h n) data) (slot_off h m) (nat (record_size h)) =
       (if m = n then data else load b (slot_off h m) (nat (record_size h)))"
proof -
  note n = hdr_bounds[OF assms(1,3)]
  have b: "8 \<le> slot_off h n" "slot_off h n + length data \<le> length b" using n(2,3) assms(2,4) by auto
  show "length (store b (slot_off h n) data) = PAGE_SIZE"
    using b(2) assms(2) by (simp add: length_store)
  show "pg_next_free (store b (slot_off h n) data) = pg_next_free b"
    "pg_num_records (store b (slot_off h n) data) = pg_num_records b"
    using b by (simp_all add: pg_next_free_def pg_num_records_def load_int_store_before)
  show "bm_test (pg_bitmap (store b (slot_off h n) data)) m = bm_test (pg_bitmap b) m" if "m < npp h"
  proof (rule bm_test_cong)
    have "8 + m div 8 < slot_off h n" using hdr_bounds(1)[OF assms(1) that] n(2) by simp
    then show "pg_bitmap (store b (slot_off h n) data) ! (m div 8) = pg_bitmap b ! (m div 8)"
      using b n(3) assms(2,4)
      by (simp add: pg_bitmap_def sizeof_RM_PageHeader_def nth_store length_store)
  qed
  show "load (store b (slot_off h n) data) (slot_off h m) (nat (record_size h)) =
       (if m = n then data else load b (slot_off h m) (nat (record_size h)))" if "m < npp h"
  proof (cases "m = n")
    case True
    then show ?thesis using b(2) assms(4) by (simp add: load_store_same_n)
  next
    case False
    from slots_disjoint[OF assms(1) False] show ?thesis
      using False b(2) assms(4) by (auto simp: load_store_before load_store_after)
  qed
qed

section \<open>The three updates of a page\<close>

definition pg_insert :: "RM_FileHeader \<Rightarrow> nat \<Rightarrow> byte list \<Rightarrow> byte list \<Rightarrow> byte list" where
  "pg_insert h n data b = store (store_int (upd_bitmap (\<lambda>bm. bm_set bm n) b) 4 (pg_num_records b + 1))
     (slot_off h n) data"

definition pg_delete :: "nat \<Rightarrow> byte list \<Rightarrow> byte list" where
  "pg_delete n b = store_int (upd_bitmap (\<lambda>bm. bm_reset bm n) b) 4 (pg_num_records b - 1)"

definition pg_update :: "RM_FileHeader \<Rightarrow> nat \<Rightarrow> byte list \<Rightarrow> byte list \<Rightarrow> byte list" where
  "pg_update h n data b = store b (slot_off h n) data"

lemma npp_le: "hdr_ok h \<Longrightarrow> npp h \<le> PAGE_SIZE"
proof -
  assume ok: "hdr_ok h"
  then have h: "1 \<le> record_size h" "1 \<le> num_records_per_page h" "0 \<le> bitmap_size h"
    "8 + bitmap_size h + num_records_per_page h * record_size h \<le> int PAGE_SIZE"
    by (auto simp: hdr_ok_def)
  have "num_records_per_page h * 1 \<le> num_records_per_page h * record_size h"
    using h(1,2) by (intro mult_left_mono) auto
  then show ?thesis using h by linarith
qed

lemma count_ok: "hdr_ok h \<Longrightarrow> page_ok h b \<Longrightarrow> 0 \<le> pg_num_records b \<and> pg_num_records b \<le> 4096"
  using npp_le[of h] card_used_bits_le[of "pg_bitmap b" "npp h"] by (simp add: page_ok_def PAGE_SIZE_def)

lemma small_int_ok: "-2 \<le> i \<Longrightarrow> i \<le> 524288 \<Longrightarrow> int_ok i"
  by (simp add: int_ok_def INT_MAX_def INT_MIN_def)

lemma num_records_stored:
  "length b = PAGE_SIZE \<Longrightarrow> int_ok i \<Longrightarrow> pg_num_records (store_int b 4 i) = i"
  "length b = PAGE_SIZE \<Longrightarrow> pg_next_free (store_int b 4 i) = pg_next_free b"
  "length b = PAGE_SIZE \<Longrightarrow> int_ok i \<Longrightarrow> pg_next_free (store_int b 0 i) = i"
  "length b = PAGE_SIZE \<Longrightarrow> pg_num_records (store_int b 0 i) = pg_num_records b"
  by (simp_all add: pg_num_records_def pg_next_free_def PAGE_SIZE_def load_store_int_same
      load_int_store_int_before load_int_store_int_after)

lemma bit_in_bitmap: "hdr_ok h \<Longrightarrow> length b = PAGE_SIZE \<Longrightarrow> n < npp h \<Longrightarrow> n div 8 < length (pg_bitmap b)"
  using hdr_bounds(1,4)[of h n] by (simp add: PAGE_SIZE_def)

lemma pg_insert_facts:
  assumes h: "hdr_ok h" and b: "page_ok h b" and n: "n < npp h" "\<not> bm_test (pg_bitmap b) n"
    and data: "length data = nat (record_size h)"
  shows "page_ok h (pg_insert h n data b)" "pg_num_records (pg_insert h n data b) = pg_num_records b + 1"
    "pg_next_free (pg_insert h n data b) = pg_next_free b"
    "page_recs h (pg_insert h n data b) = (page_recs h b)(n \<mapsto> data)"
    "length (pg_insert h n data b) = PAGE_SIZE"
proof -
  have len: "length b = PAGE_SIZE" using b by (simp add: page_ok_def)
  have cnt: "int_ok (pg_num_records b + 1)" using count_ok[OF h b] by (intro small_int_ok) auto
  let ?b1 = "upd_bitmap (\<lambda>bm. bm_set bm n) b"
  have f1: "length ?b1 = PAGE_SIZE" "pg_bitmap ?b1 = bm_set (pg_bitmap b) n"
    "pg_next_free ?b1 = pg_next_free b" "pg_num_records ?b1 = pg_num_records b"
    using upd_bitmap_facts[where f = "\<lambda>bm. bm_set bm n", OF len] len by simp_all
  let ?b2 = "store_int ?b1 4 (pg_num_records b + 1)"
  have f2: "length ?b2 = PAGE_SIZE" "pg_bitmap ?b2 = bm_set (pg_bitmap b) n"
    "\<And>o1 n. 8 \<le> o1 \<Longrightarrow> load ?b2 o1 n = load ?b1 o1 n"
    using header_store(1-3)[OF f1(1) _ cnt, of 4] f1(2) by simp_all
  note st = store_slot[OF h f2(1) n(1) data]
  have bits: "bm_test (pg_bitmap (pg_insert h n data b)) m \<longleftrightarrow> m = n \<or> bm_test (pg_bitmap b) m"
    if "m < npp h" for m
    unfolding pg_insert_def
    using st(4)[OF that] bm_test_set[OF bit_in_bitmap[OF h len n(1)], of m] f2(2) by simp
  have num: "pg_num_records (pg_insert h n data b) = pg_num_records b + 1"
    unfolding pg_insert_def using st(3) num_records_stored(1)[OF f1(1) cnt] by simp
  show "pg_num_records (pg_insert h n data b) = pg_num_records b + 1" by (rule num)
  show "pg_next_free (pg_insert h n data b) = pg_next_free b"
    unfolding pg_insert_def using st(2) num_records_stored(2)[OF f1(1)] f1(3) by simp
  show len': "length (pg_insert h n data b) = PAGE_SIZE" unfolding pg_insert_def by (rule st(1))
  have "used_bits (pg_bitmap (pg_insert h n data b)) (npp h) = insert n (used_bits (pg_bitmap b) (npp h))"
    using bits n(1) by (auto simp: used_bits_def)
  moreover have "n \<notin> used_bits (pg_bitmap b) (npp h)" using n(2) by (simp add: used_bits_def)
  ultimately show "page_ok h (pg_insert h n data b)"
    using num len' b by (simp add: page_ok_def)
  have "load (pg_insert h n data b) (slot_off h m) (nat (record_size h)) =
      (if m = n then data else load b (slot_off h m) (nat (record_size h)))" if "m < npp h" for m
    unfolding pg_insert_def
    using st(5)[OF that] f2(3)[of "slot_off h m"] hdr_bounds(2)[OF h that] bitmap_slot(1)[OF h len n(1) that]
    by simp
  then show "page_recs h (pg_insert h n data b) = (page_recs h b)(n \<mapsto> data)"
    using bits n(1) by (auto simp: page_recs_def fun_eq_iff)
qed

lemma pg_delete_facts:
  assumes h: "hdr_ok h" and b: "page_ok h b" and n: "n < npp h" "bm_test (pg_bitmap b) n"
  shows "page_ok h (pg_delete n b)" "pg_num_records (pg_delete n b) = pg_num_records b - 1"
    "pg_next_free (pg_delete n b) = pg_next_free b"
    "page_recs h (pg_delete n b) = (page_recs h b)(n := None)" "length (pg_delete n b) = PAGE_SIZE"
    "1 \<le> pg_num_records b"
proof -
  have len: "length b = PAGE_SIZE" using b by (simp add: page_ok_def)
  have cnt: "int_ok (pg_num_records b - 1)" using count_ok[OF h b] by (intro small_int_ok) auto
  let ?b1 = "upd_bitmap (\<lambda>bm. bm_reset bm n) b"
  have f1: "length ?b1 = PAGE_SIZE" "pg_bitmap ?b1 = bm_reset (pg_bitmap b) n"
    "pg_next_free ?b1 = pg_next_free b" "pg_num_records ?b1 = pg_num_records b"
    using upd_bitmap_facts[where f = "\<lambda>bm. bm_reset bm n", OF len] len by simp_all
  have f2: "length (pg_delete n b) = PAGE_SIZE" "pg_bitmap (pg_delete n b) = bm_reset (pg_bitmap b) n"
    "\<And>o1 k. 8 \<le> o1 \<Longrightarrow> load (pg_delete n b) o1 k = load ?b1 o1 k"
    unfolding pg_delete_def using header_store(1-3)[OF f1(1) _ cnt, of 4] f1(2) by simp_all
  have bits: "bm_test (pg_bitmap (pg_delete n b)) m \<longleftrightarrow> m \<noteq> n \<and> bm_test (pg_bitmap b) m" for m
    using bm_test_reset[OF bit_in_bitmap[OF h len n(1)], of m] f2(2) by simp
  have num: "pg_num_records (pg_delete n b) = pg_num_records b - 1"
    unfolding pg_delete_def using num_records_stored(1)[OF f1(1) cnt] by simp
  show "pg_num_records (pg_delete n b) = pg_num_records b - 1" by (rule num)
  show "pg_next_free (pg_delete n b) = pg_next_free b"
    unfolding pg_delete_def using num_records_stored(2)[OF f1(1)] f1(3) by simp
  show "length (pg_delete n b) = PAGE_SIZE" by (rule f2(1))
  have "used_bits (pg_bitmap (pg_delete n b)) (npp h) = used_bits (pg_bitmap b) (npp h) - {n}"
    using bits by (auto simp: used_bits_def)
  moreover have "n \<in> used_bits (pg_bitmap b) (npp h)" using n by (simp add: used_bits_def)
  moreover from this have pos: "1 \<le> card (used_bits (pg_bitmap b) (npp h))"
    using card_gt_0_iff[of "used_bits (pg_bitmap b) (npp h)"] by fastforce
  ultimately show "page_ok h (pg_delete n b)"
    using num f2(1) b by (simp add: page_ok_def of_nat_diff)
  show "1 \<le> pg_num_records b" using pos b by (simp add: page_ok_def)
  have "load (pg_delete n b) (slot_off h m) (nat (record_size h)) =
      load b (slot_off h m) (nat (record_size h))" if "m < npp h" for m
    using f2(3)[of "slot_off h m"] hdr_bounds(2)[OF h that] bitmap_slot(2)[OF h len n(1) that] by simp
  then show "page_recs h (pg_delete n b) = (page_recs h b)(n := None)"
    using bits n(1) by (auto simp: page_recs_def fun_eq_iff)
qed

lemma pg_update_facts:
  assumes h: "hdr_ok h" and b: "page_ok h b" and n: "n < npp h" "bm_test (pg_bitmap b) n"
    and data: "length data = nat (record_size h)"
  shows "page_ok h (pg_update h n data b)" "pg_num_records (pg_update h n data b) = pg_num_records b"
    "pg_next_free (pg_update h n data b) = pg_next_free b"
    "page_recs h (pg_update h n data b) = (page_recs h b)(n \<mapsto> data)"
    "length (pg_update h n data b) = PAGE_SIZE"
proof -
  have len: "length b = PAGE_SIZE" using b by (simp add: page_ok_def)
  note st = store_slot[OF h len n(1) data]
  show num: "pg_num_records (pg_update h n data b) = pg_num_records b"
    and "pg_next_free (pg_update h n data b) = pg_next_free b"
    and len': "length (pg_update h n data b) = PAGE_SIZE"
    unfolding pg_update_def using st by simp_all
  have "used_bits (pg_bitmap (pg_update h n data b)) (npp h) = used_bits (pg_bitmap b) (npp h)"
    unfolding pg_update_def using st(4) by (auto simp: used_bits_def)
  then show "page_ok h (pg_update h n data b)" using num len' b by (simp add: page_ok_def)
  show "page_recs h (pg_update h n data b) = (page_recs h b)(n \<mapsto> data)"
    unfolding pg_update_def using st(4,5) n by (auto simp: page_recs_def fun_eq_iff)
qed

lemma init_record_page_facts:
  assumes h: "hdr_ok h" and len: "length b = PAGE_SIZE"
  shows "page_ok h (init_record_page h b)" "pg_num_records (init_record_page h b) = 0"
    "pg_next_free (init_record_page h b) = RM_NO_PAGE" "page_recs h (init_record_page h b) = Map.empty"
    "length (init_record_page h b) = PAGE_SIZE"
proof -
  have n0: "0 < npp h" using h by (simp add: hdr_ok_def)
  have bs: "nat (bitmap_size h) \<le> 4088" using hdr_bounds(4)[OF h n0] by (simp add: PAGE_SIZE_def)
  let ?b1 = "store_int (store_int b 4 0) 0 RM_NO_PAGE"
  have l1: "length (store_int b 4 0) = PAGE_SIZE" "length ?b1 = PAGE_SIZE"
    using len by (simp_all add: length_store_int PAGE_SIZE_def)
  have ok: "int_ok RM_NO_PAGE" "int_ok 0" by (simp_all add: RM_NO_PAGE_def small_int_ok)
  have hd: "pg_num_records ?b1 = 0" "pg_next_free ?b1 = RM_NO_PAGE"
    using num_records_stored(4)[OF l1(1)] num_records_stored(1)[OF len ok(2)]
      num_records_stored(3)[OF l1(1) ok(1)] by simp_all
  have lb: "length (bm_init (pg_bitmap ?b1) (nat (bitmap_size h))) = 4088"
    using l1(2) bs by (simp add: bm_init_def length_memset)
  have lpb: "length (pg_bitmap ?b1) = 4088" using l1(2) by simp
  note f = upd_bitmap_facts[where f = "\<lambda>bm. bm_init bm (nat (bitmap_size h))", OF l1(2) lb]
  show num: "pg_num_records (init_record_page h b) = 0"
    and "pg_next_free (init_record_page h b) = RM_NO_PAGE"
    and len': "length (init_record_page h b) = PAGE_SIZE"
    unfolding init_record_page_def using f hd by simp_all
  have bsz: "(npp h + 7) div 8 \<le> nat (bitmap_size h)" using h by (simp add: hdr_ok_def nat_div_distrib nat_add_distrib)
  have ub: "used_bits (pg_bitmap (init_record_page h b)) (npp h) = {}"
    unfolding init_record_page_def f(2) using bsz bs lpb by (intro used_bits_init) simp_all
  then show "page_ok h (init_record_page h b)" using num len' by (simp add: page_ok_def)
  show "page_recs h (init_record_page h b) = Map.empty"
    using ub by (auto simp: page_recs_def used_bits_def fun_eq_iff)
qed

end
