(* ===== verification/RecordView.thy ===== *)
theory RecordView
  imports RecordPage
begin

text \<open>
  A record file as the client sees its pages (\<open>V\<close>, from page numbers to bytes): its invariant
  \<open>rm_ok\<close>, its content \<open>rm_map\<close>, and the effect on both of inserting into, deleting from and
  updating one page together with the file header.
\<close>

definition data_page :: "RM_FileHeader \<Rightarrow> int \<Rightarrow> bool" where
  "data_page h p \<longleftrightarrow> RM_FIRST_RECORD_PAGE \<le> p \<and> p < num_pages h"

definition rm_map :: "RM_FileHeader \<Rightarrow> pview \<Rightarrow> RecordID \<rightharpoonup> byte list" where
  "rm_map h V = (\<lambda>rid. if data_page h (rid_page rid) \<and> 0 \<le> rid_slot rid
     then (case V (rid_page rid) of None \<Rightarrow> None | Some b \<Rightarrow> page_recs h b (nat (rid_slot rid)))
     else None)"

text \<open>The free list: \<open>ps\<close> is the chain of pages from \<open>p\<close> along \<open>next_free\<close>.\<close>

fun free_list :: "pview \<Rightarrow> int list \<Rightarrow> int \<Rightarrow> bool" where
  "free_list V [] p \<longleftrightarrow> p = RM_NO_PAGE"
| "free_list V (q # qs) p \<longleftrightarrow> p = q \<and> (case V q of None \<Rightarrow> False | Some b \<Rightarrow> free_list V qs (pg_next_free b))"

definition pages_ok :: "RM_FileHeader \<Rightarrow> pview \<Rightarrow> bool" where
  "pages_ok h V \<longleftrightarrow> (\<forall>p. data_page h p \<longrightarrow> (\<exists>b. V p = Some b \<and> page_ok h b))"

definition has_room :: "RM_FileHeader \<Rightarrow> pview \<Rightarrow> int \<Rightarrow> bool" where
  "has_room h V p \<longleftrightarrow> data_page h p \<and> (\<exists>b. V p = Some b \<and> pg_num_records b < num_records_per_page h)"

definition rm_ok :: "RM_FileHeader \<Rightarrow> pview \<Rightarrow> bool" where
  "rm_ok h V \<longleftrightarrow> hdr_ok h \<and> pages_ok h V \<and>
     (\<exists>ps. free_list V ps (first_free h) \<and> distinct ps \<and> set ps = Collect (has_room h V))"

section \<open>Seeing more pages changes nothing\<close>

lemma free_list_mono: "free_list V ps p \<Longrightarrow> V \<subseteq>\<^sub>m W \<Longrightarrow> free_list W ps p"
  by (induction ps arbitrary: p) (auto simp: map_le_def dom_def split: option.splits)

lemma rm_ok_mono:
  assumes ok: "rm_ok h V" and le: "V \<subseteq>\<^sub>m W"
  shows "rm_ok h W" "rm_map h W = rm_map h V"
proof -
  have V: "\<exists>b. V p = Some b \<and> W p = Some b \<and> page_ok h b" if "data_page h p" for p
    using ok that map_le_Some[OF le] by (auto simp: rm_ok_def pages_ok_def)
  have "has_room h W p = has_room h V p" for p using V[of p] by (auto simp: has_room_def)
  then have "Collect (has_room h W) = Collect (has_room h V)" by presburger
  moreover have "pages_ok h W" using V by (auto simp: pages_ok_def)
  ultimately show "rm_ok h W" using ok free_list_mono[OF _ le] by (auto simp: rm_ok_def)
  show "rm_map h W = rm_map h V"
  proof
    fix rid
    show "rm_map h W rid = rm_map h V rid" using V[of "rid_page rid"] by (auto simp: rm_map_def)
  qed
qed

section \<open>Changing one page\<close>

lemma free_list_fresh: "q \<notin> set ps \<Longrightarrow> free_list (V(q \<mapsto> b)) ps p = free_list V ps p"
  by (induction ps arbitrary: p) (auto split: option.splits)

lemma free_list_same_next:
  "V q = Some b \<Longrightarrow> pg_next_free b' = pg_next_free b \<Longrightarrow> free_list (V(q \<mapsto> b')) ps p = free_list V ps p"
  by (induction ps arbitrary: p) (auto split: option.splits)

lemma pages_ok_upd: "pages_ok h V \<Longrightarrow> page_ok h b \<Longrightarrow> pages_ok h (V(p \<mapsto> b))"
  by (auto simp: pages_ok_def)

lemma has_room_upd:
  "has_room h (V(p \<mapsto> b)) q \<longleftrightarrow>
     (if q = p then data_page h p \<and> pg_num_records b < num_records_per_page h else has_room h V q)"
  by (auto simp: has_room_def)

lemma rm_map_upd:
  assumes "data_page h p" "V p = Some b" "page_recs h b' = (page_recs h b)(n := r)"
  shows "rm_map h (V(p \<mapsto> b')) = (rm_map h V)(RecordID p (int n) := r)"
proof
  fix rid
  obtain q m where rid: "rid = RecordID q m" by (cases rid)
  show "rm_map h (V(p \<mapsto> b')) rid = ((rm_map h V)(RecordID p (int n) := r)) rid"
  proof (cases "q = p")
    case True
    have 1: "rm_map h (V(p \<mapsto> b')) (RecordID p m) = (if 0 \<le> m then page_recs h b' (nat m) else None)"
      using assms(1) by (simp add: rm_map_def)
    have 2: "rm_map h V (RecordID p m) = (if 0 \<le> m then page_recs h b (nat m) else None)"
      using assms(1,2) by (simp add: rm_map_def)
    have 3: "RecordID p m = RecordID p (int n) \<longleftrightarrow> 0 \<le> m \<and> nat m = n" by auto
    show ?thesis unfolding rid True 1 fun_upd_apply 2 3 assms(3) by simp
  qed (simp add: rm_map_def rid)
qed

lemma first_free_page:
  assumes "rm_ok h V" "first_free h \<noteq> RM_NO_PAGE"
  obtains b ps where "data_page h (first_free h)" "V (first_free h) = Some b" "page_ok h b"
    "pg_num_records b < num_records_per_page h" "free_list V ps (pg_next_free b)"
    "distinct (first_free h # ps)" "set (first_free h # ps) = Collect (has_room h V)"
proof -
  from assms(1) obtain ps where ps: "free_list V ps (first_free h)" "distinct ps" "set ps = Collect (has_room h V)"
    and pk: "pages_ok h V" by (auto simp: rm_ok_def)
  from ps(1) assms(2) obtain b qs where q: "ps = first_free h # qs" "V (first_free h) = Some b"
    "free_list V qs (pg_next_free b)"
    by (cases ps) (auto split: option.splits)
  have "has_room h V (first_free h)" using ps(3) q(1) by auto
  then have "data_page h (first_free h)" "pg_num_records b < num_records_per_page h"
    using q(2) by (auto simp: has_room_def)
  moreover from this pk q(2) have "page_ok h b" by (auto simp: pages_ok_def)
  ultimately show ?thesis using that q ps by simp
qed

lemma hdr_ok_first_free [simp]: "hdr_ok (h\<lparr>first_free := q\<rparr>) = hdr_ok h"
  by (simp add: hdr_ok_def)

lemma layout_first_free [simp]: "same_layout h (h\<lparr>first_free := q\<rparr>)"
  by (simp add: same_layout_def)

lemma data_page_first_free [simp]: "data_page (h\<lparr>first_free := q\<rparr>) = data_page h"
  by (simp add: data_page_def fun_eq_iff)

lemma has_room_first_free [simp]: "has_room (h\<lparr>first_free := q\<rparr>) = has_room h"
  by (simp add: has_room_def fun_eq_iff)

lemma rm_map_first_free [simp]: "rm_map (h\<lparr>first_free := q\<rparr>) V = rm_map h V"
  by (rule ext) (simp add: rm_map_def same_layout_page[OF layout_first_free] split: option.split)

lemma pages_ok_first_free [simp]: "pages_ok (h\<lparr>first_free := q\<rparr>) V = pages_ok h V"
  unfolding pages_ok_def by (simp add: same_layout_page[OF layout_first_free])

text \<open>Inserting into the first page of the free list, which leaves the list when it fills up.\<close>

lemma rm_insert:
  assumes ok: "rm_ok h V" and ff: "first_free h \<noteq> RM_NO_PAGE" and b: "V (first_free h) = Some b"
    and n: "n < npp h" "\<not> bm_test (pg_bitmap b) n" and data: "length data = nat (record_size h)"
    and b': "b' = pg_insert h n data b"
    and h': "h' = (if pg_num_records b' = num_records_per_page h then h\<lparr>first_free := pg_next_free b'\<rparr> else h)"
  shows "rm_ok h' (V(first_free h \<mapsto> b'))"
    "rm_map h' (V(first_free h \<mapsto> b')) = (rm_map h V)(RecordID (first_free h) (int n) \<mapsto> data)"
    "rm_map h V (RecordID (first_free h) (int n)) = None" "data_page h (first_free h)"
proof -
  let ?p = "first_free h"
  have h: "hdr_ok h" and pk: "pages_ok h V" using ok by (auto simp: rm_ok_def)
  obtain ps where ps: "data_page h ?p" "page_ok h b" "pg_num_records b < num_records_per_page h"
    "free_list V ps (pg_next_free b)" "distinct (?p # ps)" "set (?p # ps) = Collect (has_room h V)"
    using first_free_page[OF ok ff] b by force
  note f = pg_insert_facts[OF h ps(2) n data, folded b']
  have pk': "pages_ok h (V(?p \<mapsto> b'))" using pk f(1) by (rule pages_ok_upd)
  have map': "rm_map h (V(?p \<mapsto> b')) = (rm_map h V)(RecordID ?p (int n) \<mapsto> data)"
    using rm_map_upd[where V = V, OF ps(1) b f(4)] .
  show "data_page h ?p" by (rule ps(1))
  show "rm_map h V (RecordID ?p (int n)) = None"
    using b n(2) by (simp add: rm_map_def page_recs_def)
  show "rm_ok h' (V(?p \<mapsto> b'))"
  proof (cases "pg_num_records b' = num_records_per_page h")
    case True
    have "has_room h V q \<longleftrightarrow> q = ?p \<or> q \<in> set ps" for q using ps(6) by auto
    then have "Collect (has_room h (V(?p \<mapsto> b'))) = set ps"
      using ps(5) True by (auto simp: has_room_upd split: if_splits)
    moreover have "free_list (V(?p \<mapsto> b')) ps (pg_next_free b')"
      using ps(4,5) f(3) by (simp add: free_list_fresh)
    ultimately show ?thesis
      using True h' h pk' ps(5) by (auto simp: rm_ok_def)
  next
    case False
    have "Collect (has_room h (V(?p \<mapsto> b'))) = Collect (has_room h V)"
      using ps(1,3) f(2) False b by (auto simp: has_room_upd has_room_def split: if_splits)
    moreover have "free_list (V(?p \<mapsto> b')) (?p # ps) ?p"
      using ps(4) free_list_same_next[of V ?p b b' ps] b f(3) by simp
    ultimately have "rm_ok h (V(?p \<mapsto> b'))"
      using h pk' ps(5,6) unfolding rm_ok_def by metis
    then show ?thesis using False h' by simp
  qed
  show "rm_map h' (V(?p \<mapsto> b')) = (rm_map h V)(RecordID ?p (int n) \<mapsto> data)"
    using map' h' by simp
qed

text \<open>A new page at the end of the file, when no page has room.\<close>

lemma rm_grow:
  assumes ok: "rm_ok h V" and ff: "first_free h = RM_NO_PAGE" and room: "num_pages h < 524288"
    and len: "length b = PAGE_SIZE"
    and h': "h' = h\<lparr>num_pages := num_pages h + 1, first_free := num_pages h\<rparr>"
    and V': "V' = V(num_pages h \<mapsto> init_record_page h b)"
  shows "rm_ok h' V'" "rm_map h' V' = rm_map h V" "first_free h' \<noteq> RM_NO_PAGE" "same_layout h h'"
    "V' (first_free h') = Some (init_record_page h b)"
proof -
  have h: "hdr_ok h" and pk: "pages_ok h V" using ok by (auto simp: rm_ok_def)
  note f = init_record_page_facts[OF h len]
  have np: "1 \<le> num_pages h" using h by (simp add: hdr_ok_def)
  show lay: "same_layout h h'" by (simp add: h' same_layout_def)
  note sl = same_layout_page[OF lay]
  have hok: "hdr_ok h'" using h room by (simp add: hdr_ok_def h')
  from ok ff have "Collect (has_room h V) = {}"
  proof -
    obtain ps where ps: "free_list V ps (first_free h)" "set ps = Collect (has_room h V)"
      using ok by (auto simp: rm_ok_def)
    have "ps = []"
    proof (rule ccontr)
      assume "ps \<noteq> []"
      then have "first_free h \<in> set ps" using ps(1) by (cases ps) auto
      then have "has_room h V RM_NO_PAGE" using ps(2) ff by auto
      then show False by (simp add: has_room_def data_page_def RM_NO_PAGE_def RM_FIRST_RECORD_PAGE_def)
    qed
    then show ?thesis using ps(2) by simp
  qed
  then have none: "\<not> has_room h V q" for q by auto
  have dp: "data_page h' q \<longleftrightarrow> data_page h q \<or> q = num_pages h" for q
    using np by (auto simp: data_page_def h' RM_FIRST_RECORD_PAGE_def)
  have ndp: "\<not> data_page h (num_pages h)" by (simp add: data_page_def)
  have pk': "pages_ok h' V'"
    using pk f(1) by (auto simp: pages_ok_def dp V' sl)
  have room': "has_room h' V' q \<longleftrightarrow> q = num_pages h" for q
  proof -
    have "0 < num_records_per_page h" using h by (simp add: hdr_ok_def)
    moreover have "num_records_per_page h' = num_records_per_page h" by (simp add: h')
    ultimately show ?thesis
      using none[of q] f(2) by (auto simp: has_room_def dp V')
  qed
  have "free_list V' [num_pages h] (first_free h')" using f(3) by (simp add: h' V')
  then show "rm_ok h' V'"
    using hok pk' room' unfolding rm_ok_def by (intro conjI exI[of _ "[num_pages h]"]) auto
  show "first_free h' \<noteq> RM_NO_PAGE" using np by (simp add: h' RM_NO_PAGE_def)
  show "V' (first_free h') = Some (init_record_page h b)" by (simp add: h' V')
  show "rm_map h' V' = rm_map h V"
  proof
    fix rid
    show "rm_map h' V' rid = rm_map h V rid"
      using ndp f(4) by (auto simp: rm_map_def dp sl V' split: option.split)
  qed
qed

text \<open>Deleting: a page that was full goes to the front of the free list.\<close>

lemma rm_delete:
  assumes ok: "rm_ok h V" and p: "data_page h p" and b: "V p = Some b"
    and n: "n < npp h" "bm_test (pg_bitmap b) n"
    and full: "pg_num_records b = num_records_per_page h \<Longrightarrow>
        b1 = store_int b 0 (first_free h) \<and> h' = h\<lparr>first_free := p\<rparr>"
    and part: "pg_num_records b \<noteq> num_records_per_page h \<Longrightarrow> b1 = b \<and> h' = h"
  shows "rm_ok h' (V(p \<mapsto> pg_delete n b1))"
    "rm_map h' (V(p \<mapsto> pg_delete n b1)) = (rm_map h V)(RecordID p (int n) := None)"
proof -
  have h: "hdr_ok h" and pk: "pages_ok h V" using ok by (auto simp: rm_ok_def)
  from ok obtain ps where ps: "free_list V ps (first_free h)" "distinct ps" "set ps = Collect (has_room h V)"
    by (auto simp: rm_ok_def)
  have bok: "page_ok h b" using pk p b by (auto simp: pages_ok_def)
  have len: "length b = PAGE_SIZE" using bok by (simp add: page_ok_def)
  have le: "pg_num_records b \<le> num_records_per_page h"
  proof -
    have "int (card (used_bits (pg_bitmap b) (npp h))) \<le> int (npp h)"
      using card_used_bits_le[of "pg_bitmap b" "npp h"] by (simp only: of_nat_le_iff)
    then show ?thesis using bok h by (simp add: page_ok_def hdr_ok_def)
  qed
  show "rm_ok h' (V(p \<mapsto> pg_delete n b1))"
    "rm_map h' (V(p \<mapsto> pg_delete n b1)) = (rm_map h V)(RecordID p (int n) := None)"
  proof (atomize (full), cases "pg_num_records b = num_records_per_page h")
    case True
    note e = full[OF True]
    have ffok: "int_ok (first_free h)"
    proof (cases "first_free h = RM_NO_PAGE")
      case False
      from first_free_page[OF ok False] have "data_page h (first_free h)" by blast
      then show ?thesis using h
        by (intro small_int_ok) (auto simp: data_page_def RM_FIRST_RECORD_PAGE_def hdr_ok_def)
    qed (simp add: RM_NO_PAGE_def small_int_ok)
    have hs: "length b1 = PAGE_SIZE" "pg_bitmap b1 = pg_bitmap b" "page_recs h b1 = page_recs h b"
      using header_store[OF len _ ffok, of 0] h e by auto
    have num1: "pg_num_records b1 = pg_num_records b" "pg_next_free b1 = first_free h"
      using num_records_stored(3,4)[OF len] ffok e by simp_all
    have b1ok: "page_ok h b1" using bok hs num1 by (simp add: page_ok_def)
    have n1: "bm_test (pg_bitmap b1) n" using n(2) hs(2) by simp
    note f = pg_delete_facts[OF h b1ok n(1) n1]
    have nin: "p \<notin> set ps" using ps(3) b True by (auto simp: has_room_def)
    have "free_list (V(p \<mapsto> pg_delete n b1)) (p # ps) p"
      using ps(1) free_list_fresh[OF nin] f(3) num1(2) by simp
    moreover have "set (p # ps) = Collect (has_room h (V(p \<mapsto> pg_delete n b1)))"
      using ps(3) p f(2) num1(1) True by (auto simp: has_room_upd)
    moreover have "pages_ok h (V(p \<mapsto> pg_delete n b1))" using pk f(1) by (rule pages_ok_upd)
    ultimately have "rm_ok h' (V(p \<mapsto> pg_delete n b1))"
      using e h ps(2) nin unfolding rm_ok_def
      by (intro conjI exI[of _ "p # ps"]) simp_all
    moreover have "rm_map h (V(p \<mapsto> pg_delete n b1)) = (rm_map h V)(RecordID p (int n) := None)"
      using rm_map_upd[where V = V and n = n and r = None, OF p b, of "pg_delete n b1"] f(4) hs(3) by simp
    ultimately show "rm_ok h' (V(p \<mapsto> pg_delete n b1)) \<and>
      rm_map h' (V(p \<mapsto> pg_delete n b1)) = (rm_map h V)(RecordID p (int n) := None)"
      using e by simp
  next
    case False
    note e = part[OF False]
    note f = pg_delete_facts[OF h bok n]
    have fl: "free_list (V(p \<mapsto> pg_delete n b)) ps (first_free h)"
      using ps(1) free_list_same_next[where V = V, OF b f(3)] by simp
    have "has_room h V p" using p b False le by (auto simp: has_room_def)
    then have "Collect (has_room h (V(p \<mapsto> pg_delete n b))) = Collect (has_room h V)"
      using p f(2) le by (auto simp: has_room_upd split: if_splits)
    moreover have "pages_ok h (V(p \<mapsto> pg_delete n b))" using pk f(1) by (rule pages_ok_upd)
    ultimately have "rm_ok h (V(p \<mapsto> pg_delete n b))" using h fl ps(2,3) by (auto simp: rm_ok_def)
    then show "rm_ok h' (V(p \<mapsto> pg_delete n b1)) \<and>
      rm_map h' (V(p \<mapsto> pg_delete n b1)) = (rm_map h V)(RecordID p (int n) := None)"
      using e rm_map_upd[where V = V, OF p b f(4)] by simp
  qed
qed

lemma rm_update:
  assumes ok: "rm_ok h V" and p: "data_page h p" and b: "V p = Some b"
    and n: "n < npp h" "bm_test (pg_bitmap b) n" and data: "length data = nat (record_size h)"
  shows "rm_ok h (V(p \<mapsto> pg_update h n data b))"
    "rm_map h (V(p \<mapsto> pg_update h n data b)) = (rm_map h V)(RecordID p (int n) \<mapsto> data)"
proof -
  have h: "hdr_ok h" and pk: "pages_ok h V" using ok by (auto simp: rm_ok_def)
  have bok: "page_ok h b" using pk p b by (auto simp: pages_ok_def)
  note f = pg_update_facts[OF h bok n data]
  have "has_room h (V(p \<mapsto> pg_update h n data b)) q = has_room h V q" for q
    using p b f(2) by (simp add: has_room_upd) (auto simp: has_room_def)
  then have "has_room h (V(p \<mapsto> pg_update h n data b)) = has_room h V" by (rule ext)
  moreover have "free_list (V(p \<mapsto> pg_update h n data b)) ps q = free_list V ps q" for ps q
    using free_list_same_next[where V = V, OF b f(3)] .
  moreover have "pages_ok h (V(p \<mapsto> pg_update h n data b))" using pk f(1) by (rule pages_ok_upd)
  ultimately show "rm_ok h (V(p \<mapsto> pg_update h n data b))" using ok by (simp add: rm_ok_def)
  show "rm_map h (V(p \<mapsto> pg_update h n data b)) = (rm_map h V)(RecordID p (int n) \<mapsto> data)"
    using rm_map_upd[where V = V, OF p b f(4)] .
qed

text \<open>What a record id in the map says about its page.\<close>

lemma rm_map_Some:
  assumes "rm_map h V (RecordID p m) = Some r"
  obtains b n where "data_page h p" "V p = Some b" "m = int n" "n < npp h" "bm_test (pg_bitmap b) n"
    "r = load b (slot_off h n) (nat (record_size h))"
proof -
  from assms obtain b where "data_page h p" "0 \<le> m" "V p = Some b" "page_recs h b (nat m) = Some r"
    by (auto simp: rm_map_def split: if_splits option.splits)
  then show ?thesis using that[of b "nat m"] by (simp add: page_recs_def split: if_splits)
qed

end
