(* ===== verification/RecordOps.thy ===== *)
theory RecordOps
  imports RecordView
begin

text \<open>
  The record operations on the whole state: each preserves the invariant \<open>rm_wf\<close> of an open
  record file, acts on its content \<open>rm_recs\<close> as the map operation it stands for, and leaves
  every other file as it was (\<open>rm_frame\<close>).
\<close>

definition rm_wf :: "'z pf_state_scheme \<Rightarrow> RM_FileHandle \<Rightarrow> bool" where
  "rm_wf s fh \<longleftrightarrow> pf_wf s \<and> fd_path s (fh_fd fh) \<noteq> None \<and>
     PageID (fh_fd fh) RM_FILE_HDR_PAGE \<notin> cached_pages s \<and> rm_ok (fh_hdr fh) (file_view s (fh_fd fh))"

definition rm_recs :: "'z pf_state_scheme \<Rightarrow> RM_FileHandle \<Rightarrow> RecordID \<rightharpoonup> byte list" where
  "rm_recs s fh = rm_map (fh_hdr fh) (file_view s (fh_fd fh))"

definition valid_rid :: "RM_FileHandle \<Rightarrow> RecordID \<Rightarrow> bool" where
  "valid_rid fh rid \<longleftrightarrow> data_page (fh_hdr fh) (rid_page rid) \<and> 0 \<le> rid_slot rid \<and>
     rid_slot rid < num_records_per_page (fh_hdr fh)"

text \<open>Nothing outside the file changes.\<close>

definition rm_frame :: "'z pf_state_scheme \<Rightarrow> int \<Rightarrow> 'z pf_state_scheme \<Rightarrow> bool" where
  "rm_frame s fd t \<longleftrightarrow> same_env s t \<and>
     (\<forall>q x. pid_fd q \<noteq> fd \<longrightarrow> page_view s q = Some x \<longrightarrow> page_view t q = Some x) \<and>
     cached_pages t \<subseteq> {q. pid_fd q = fd} \<union> cached_pages s"

lemma rm_frame_refl [simp]: "rm_frame s fd s"
  by (simp add: rm_frame_def)

lemma rm_frame_trans: "rm_frame s fd t \<Longrightarrow> rm_frame t fd u \<Longrightarrow> rm_frame s fd u"
  unfolding rm_frame_def by (blast intro: same_env_trans)

lemma rm_frame_other:
  assumes "rm_frame s fd t" "pf_wf t" "rm_wf s fh" "fh_fd fh \<noteq> fd"
  shows "rm_wf t fh" "rm_recs t fh = rm_recs s fh"
proof -
  have le: "file_view s (fh_fd fh) \<subseteq>\<^sub>m file_view t (fh_fd fh)"
    using assms(1,4) by (auto simp: rm_frame_def file_view_def map_le_def dom_def)
  have "fd_path t = fd_path s" using assms(1) by (simp add: rm_frame_def same_env_def fd_path_def fun_eq_iff)
  moreover have "PageID (fh_fd fh) RM_FILE_HDR_PAGE \<notin> cached_pages t"
    using assms(1,3,4) by (auto simp: rm_frame_def rm_wf_def)
  ultimately show "rm_wf t fh"
    using assms(2,3) rm_ok_mono(1)[OF _ le] by (simp add: rm_wf_def)
  show "rm_recs t fh = rm_recs s fh"
    using assms(3) rm_ok_mono(2)[OF _ le] by (simp add: rm_wf_def rm_recs_def)
qed

section \<open>From the pool to the file\<close>

lemma data_pid_valid:
  assumes "rm_wf s fh" "data_page (fh_hdr fh) p \<or> p = num_pages (fh_hdr fh) \<and> p < 524288"
  shows "valid_pid s (PageID (fh_fd fh) p)"
proof -
  have "1 \<le> num_pages (fh_hdr fh)" "num_pages (fh_hdr fh) \<le> 524288"
    using assms(1) by (auto simp: rm_wf_def rm_ok_def hdr_ok_def)
  with assms(2) have "0 \<le> p" "p \<le> 524287" by (auto simp: data_page_def RM_FIRST_RECORD_PAGE_def)
  then have "int_ok (p * int PAGE_SIZE)" by (simp add: int_ok_def PAGE_SIZE_def INT_MAX_def INT_MIN_def)
  with \<open>0 \<le> p\<close> assms(1) show ?thesis by (simp add: valid_pid_def rm_wf_def)
qed

lemma reach_file:
  assumes wf: "rm_wf s fh" and r: "pool.reach s {PageID (fh_fd fh) p} ((page_view s)(PageID (fh_fd fh) p := x)) t"
    and p: "p \<noteq> RM_FILE_HDR_PAGE" and ok: "rm_ok h ((file_view s (fh_fd fh))(p := x))"
  shows "rm_wf t (fh\<lparr>fh_hdr := h\<rparr>)"
    "rm_recs t (fh\<lparr>fh_hdr := h\<rparr>) = rm_map h ((file_view s (fh_fd fh))(p := x))"
    "rm_frame s (fh_fd fh) t"
proof -
  have t: "pf_wf t" "(page_view s)(PageID (fh_fd fh) p := x) \<subseteq>\<^sub>m page_view t" "same_env s t"
    "cached_pages t \<subseteq> {PageID (fh_fd fh) p} \<union> cached_pages s"
    using r by (auto simp: pool.reach_def)
  have le: "(file_view s (fh_fd fh))(p := x) \<subseteq>\<^sub>m file_view t (fh_fd fh)"
    unfolding map_le_def
  proof
    fix q assume "q \<in> dom ((file_view s (fh_fd fh))(p := x))"
    then have "PageID (fh_fd fh) q \<in> dom ((page_view s)(PageID (fh_fd fh) p := x))"
      by (auto simp: file_view_def dom_def split: if_splits)
    then have "((page_view s)(PageID (fh_fd fh) p := x)) (PageID (fh_fd fh) q) = page_view t (PageID (fh_fd fh) q)"
      using t(2) unfolding map_le_def by blast
    then show "((file_view s (fh_fd fh))(p := x)) q = file_view t (fh_fd fh) q"
      by (auto simp: file_view_def split: if_splits)
  qed
  have "fd_path t = fd_path s" using t(3) by (simp add: same_env_def fd_path_def fun_eq_iff)
  then show "rm_wf t (fh\<lparr>fh_hdr := h\<rparr>)"
    using wf t(1,4) p rm_ok_mono(1)[OF ok le] by (auto simp: rm_wf_def)
  show "rm_recs t (fh\<lparr>fh_hdr := h\<rparr>) = rm_map h ((file_view s (fh_fd fh))(p := x))"
    using rm_ok_mono(2)[OF ok le] by (simp add: rm_recs_def)
  show "rm_frame s (fh_fd fh) t"
    unfolding rm_frame_def
  proof (intro conjI allI impI)
    show "page_view t q = Some y" if "pid_fd q \<noteq> fh_fd fh" "page_view s q = Some y" for q y
    proof -
      have "((page_view s)(PageID (fh_fd fh) p := x)) q = Some y" using that by auto
      then show ?thesis using map_le_Some[OF t(2)] by blast
    qed
    show "cached_pages t \<subseteq> {q. pid_fd q = fh_fd fh} \<union> cached_pages s" using t(4) by auto
  qed (rule t(3))
qed

lemma fh_hdr_id [simp]: "fh\<lparr>fh_hdr := fh_hdr fh\<rparr> = fh"
  by (cases fh) simp

lemma data_page_not_hdr: "data_page h p \<Longrightarrow> p \<noteq> RM_FILE_HDR_PAGE"
  by (auto simp: data_page_def RM_FIRST_RECORD_PAGE_def RM_FILE_HDR_PAGE_def)

text \<open>Looking at a page keeps the file as it was.\<close>

lemma reach_look:
  assumes "rm_wf s fh" "pool.reach s {PageID (fh_fd fh) p} (page_view s) t" "p \<noteq> RM_FILE_HDR_PAGE"
  shows "rm_wf t fh" "rm_recs t fh = rm_recs s fh" "rm_frame s (fh_fd fh) t"
proof -
  have eq: "(page_view s)(PageID (fh_fd fh) p := page_view s (PageID (fh_fd fh) p)) = page_view s"
    "(file_view s (fh_fd fh))(p := page_view s (PageID (fh_fd fh) p)) = file_view s (fh_fd fh)"
    by (auto simp: file_view_def)
  have r: "pool.reach s {PageID (fh_fd fh) p}
      ((page_view s)(PageID (fh_fd fh) p := page_view s (PageID (fh_fd fh) p))) t"
    using assms(2) eq(1) by simp
  have ok: "rm_ok (fh_hdr fh) ((file_view s (fh_fd fh))(p := page_view s (PageID (fh_fd fh) p)))"
    using assms(1) eq(2) by (simp add: rm_wf_def)
  note f = reach_file[OF assms(1) r assms(3) ok]
  show "rm_wf t fh" "rm_frame s (fh_fd fh) t" using f by simp_all
  show "rm_recs t fh = rm_recs s fh" using f(2) eq(2) by (simp add: rm_recs_def)
qed

lemma rm_data_page:
  assumes "rm_wf s fh" "data_page (fh_hdr fh) p"
  obtains b where "page_view s (PageID (fh_fd fh) p) = Some b" "file_view s (fh_fd fh) p = Some b"
    "page_ok (fh_hdr fh) b" "hdr_ok (fh_hdr fh)"
proof -
  have "rm_ok (fh_hdr fh) (file_view s (fh_fd fh))" using assms(1) by (simp add: rm_wf_def)
  then obtain b where "hdr_ok (fh_hdr fh)" "file_view s (fh_fd fh) p = Some b" "page_ok (fh_hdr fh) b"
    using assms(2) by (auto simp: rm_ok_def pages_ok_def)
  then show ?thesis using that by (simp add: file_view_def)
qed

lemma RM_fetch_page_run:
  assumes wf: "rm_wf s fh" and p: "data_page (fh_hdr fh) p"
  obtains i t b where "RM_fetch_page fh p s = (Inr i, t)" "holds t (PageID (fh_fd fh) p) i b"
    "page_bytes i t = b" "file_view s (fh_fd fh) p = Some b" "page_ok (fh_hdr fh) b" "hdr_ok (fh_hdr fh)"
    "pool.reach s {PageID (fh_fd fh) p} (page_view s) t"
proof -
  obtain b where b: "page_view s (PageID (fh_fd fh) p) = Some b" "file_view s (fh_fd fh) p = Some b"
    "page_ok (fh_hdr fh) b" "hdr_ok (fh_hdr fh)"
    by (rule rm_data_page[OF wf p])
  have pf: "pf_wf s" using wf by (simp add: rm_wf_def)
  have v: "valid_pid s (PageID (fh_fd fh) p)" using data_pid_valid[OF wf] p by blast
  obtain i t where t: "pf_fetch (PageID (fh_fd fh) p) s = (Inr i, t)" "holds t (PageID (fh_fd fh) p) i b"
    "page_bytes i t = b" "pool.reach s {PageID (fh_fd fh) p} (page_view s) t"
    by (rule pool.fetch_reach[OF pf v b(1)])
  have "RM_fetch_page fh p s = (Inr i, t)"
    using t(1) p by (simp add: RM_fetch_page_def data_page_def)
  then show ?thesis using that t(2-4) b by blast
qed

lemma test_slot_run:
  assumes "page_bytes i t = b" "hdr_ok h" "0 \<le> m" "m < num_records_per_page h"
  shows "test_slot i m t = (Inr (bm_test (pg_bitmap b) (nat m)), t)"
proof -
  have "nat m < npp h" using assms(3,4) by simp
  then have "bit_in_page m" using hdr_bounds(6)[OF assms(2), of "nat m"] assms(3) by simp
  then show ?thesis using assms(1) by (simp add: test_slot_def)
qed

lemma rm_recs_at:
  assumes "rm_wf s fh" "valid_rid fh rid" "file_view s (fh_fd fh) (rid_page rid) = Some b"
  shows "rm_recs s fh rid = (if bm_test (pg_bitmap b) (nat (rid_slot rid))
    then Some (load b (slot_off (fh_hdr fh) (nat (rid_slot rid))) (nat (record_size (fh_hdr fh)))) else None)"
  using assms(2,3) by (auto simp: rm_recs_def rm_map_def valid_rid_def page_recs_def)

section \<open>Reading\<close>

lemma is_record_run:
  assumes wf: "rm_wf s fh" and v: "valid_rid fh rid"
  obtains t where "is_record fh rid s = (Inr (rm_recs s fh rid \<noteq> None), t)" "rm_wf t fh"
    "rm_recs t fh = rm_recs s fh" "rm_frame s (fh_fd fh) t"
proof -
  have p: "data_page (fh_hdr fh) (rid_page rid)" "0 \<le> rid_slot rid"
    "rid_slot rid < num_records_per_page (fh_hdr fh)" using v by (auto simp: valid_rid_def)
  obtain i t b where t: "RM_fetch_page fh (rid_page rid) s = (Inr i, t)"
    "holds t (PageID (fh_fd fh) (rid_page rid)) i b" "page_bytes i t = b"
    "file_view s (fh_fd fh) (rid_page rid) = Some b" "page_ok (fh_hdr fh) b" "hdr_ok (fh_hdr fh)"
    "pool.reach s {PageID (fh_fd fh) (rid_page rid)} (page_view s) t"
    by (rule RM_fetch_page_run[OF wf p(1)])
  have "is_record fh rid s = (Inr (rm_recs s fh rid \<noteq> None), t)"
    using t(1) test_slot_run[OF t(3,6) p(2,3)] rm_recs_at[OF wf v t(4)] by (simp add: is_record_def)
  then show ?thesis using that reach_look[OF wf t(7) data_page_not_hdr[OF p(1)]] by blast
qed

lemma get_record_run:
  assumes wf: "rm_wf s fh" and v: "valid_rid fh rid"
  obtains t where "get_record fh rid s = ((case rm_recs s fh rid of Some r \<Rightarrow> Inr r
      | None \<Rightarrow> Inl (Throw (RecordNotFoundError (rid_page rid) (rid_slot rid)))), t)" "rm_wf t fh"
    "rm_recs t fh = rm_recs s fh" "rm_frame s (fh_fd fh) t"
proof -
  have p: "data_page (fh_hdr fh) (rid_page rid)" "0 \<le> rid_slot rid"
    "rid_slot rid < num_records_per_page (fh_hdr fh)" using v by (auto simp: valid_rid_def)
  obtain i t b where t: "RM_fetch_page fh (rid_page rid) s = (Inr i, t)"
    "holds t (PageID (fh_fd fh) (rid_page rid)) i b" "page_bytes i t = b"
    "file_view s (fh_fd fh) (rid_page rid) = Some b" "page_ok (fh_hdr fh) b" "hdr_ok (fh_hdr fh)"
    "pool.reach s {PageID (fh_fd fh) (rid_page rid)} (page_view s) t"
    by (rule RM_fetch_page_run[OF wf p(1)])
  have "slot_in_page (fh_hdr fh) (rid_slot rid)"
    using hdr_bounds(5)[OF t(6), of "nat (rid_slot rid)"] p(2,3) by simp
  then have "get_record fh rid s = ((case rm_recs s fh rid of Some r \<Rightarrow> Inr r
      | None \<Rightarrow> Inl (Throw (RecordNotFoundError (rid_page rid) (rid_slot rid)))), t)"
    using t(1,3) test_slot_run[OF t(3,6) p(2,3)] rm_recs_at[OF wf v t(4)] p(2)
    by (simp add: get_record_def slot_off_def)
  then show ?thesis using that reach_look[OF wf t(7) data_page_not_hdr[OF p(1)]] by blast
qed

text \<open>A page number at or past the end fails the assertion of \<open>fetch_page\<close>.\<close>

lemma past_end:
  assumes "num_pages (fh_hdr fh) \<le> rid_page rid"
  shows "is_record fh rid s = (Inl AssertFail, s)" "get_record fh rid s = (Inl AssertFail, s)"
    "delete_record fh rid s = (Inl AssertFail, s)" "update_record fh rid data s = (Inl AssertFail, s)"
  using assms
  by (simp_all add: is_record_def get_record_def delete_record_def update_record_def RM_fetch_page_def
      andThen_run)

section \<open>Updating\<close>

lemma copy_to_slot_eq:
  assumes "hdr_ok h" "0 \<le> m" "m < num_records_per_page h" "length data = nat (record_size h)"
  shows "copy_to_slot h i m data s = edit_buf i (pg_update h (nat m) data) s"
proof -
  have "slot_in_page h m" using hdr_bounds(5)[OF assms(1), of "nat m"] assms(2,3) by simp
  moreover have "(\<lambda>b. store b (nat (get_slot h m)) (take (nat (record_size h)) data)) = pg_update h (nat m) data"
    using assms(2,4) by (simp add: pg_update_def slot_off_def fun_eq_iff)
  ultimately show ?thesis using assms(4) by (simp add: copy_to_slot_def)
qed

lemma update_record_run:
  assumes wf: "rm_wf s fh" and v: "valid_rid fh rid" and r: "rm_recs s fh rid \<noteq> None"
    and data: "length data = nat (record_size (fh_hdr fh))"
  obtains t where "update_record fh rid data s = (Inr (), t)" "rm_wf t fh"
    "rm_recs t fh = (rm_recs s fh)(rid \<mapsto> data)" "rm_frame s (fh_fd fh) t"
proof -
  let ?h = "fh_hdr fh" and ?k = "PageID (fh_fd fh) (rid_page rid)" and ?n = "nat (rid_slot rid)"
  have p: "data_page ?h (rid_page rid)" "0 \<le> rid_slot rid" "rid_slot rid < num_records_per_page ?h"
    using v by (auto simp: valid_rid_def)
  obtain b where b: "page_view s ?k = Some b" "file_view s (fh_fd fh) (rid_page rid) = Some b"
    "page_ok ?h b" "hdr_ok ?h"
    by (rule rm_data_page[OF wf p(1)])
  have pf: "pf_wf s" and ok: "rm_ok ?h (file_view s (fh_fd fh))" using wf by (auto simp: rm_wf_def)
  have vp: "valid_pid s ?k" using data_pid_valid[OF wf] p(1) by blast
  have n: "?n < npp ?h" "bm_test (pg_bitmap b) ?n"
    using p(2,3) r rm_recs_at[OF wf v b(2)] by (auto split: if_splits)
  obtain i t u where t: "pf_fetch ?k s = (Inr i, t)" "page_bytes i t = b" "mark_dirty i t = (Inr (), u)"
    "holds_dirty u ?k i b" "page_bytes i u = b" "page_ident i u = ?k"
    "pool.reach s {?k} ((page_view s)(?k \<mapsto> b)) u"
    by (rule pool.fetch_mark[OF pf vp b(1)])
  note f = pg_update_facts[OF b(4,3) n data]
  obtain w where w: "edit_buf i (pg_update ?h ?n data) u = (Inr (), w)"
    "pool.reach s {?k} ((page_view s)(?k \<mapsto> pg_update ?h ?n data b)) w"
    by (rule pool.edit_more[where f = "pg_update ?h ?n data", OF t(4,7) f(5)])
  have cp: "copy_to_slot ?h i (rid_slot rid) data u = (Inr (), w)"
    using copy_to_slot_eq[OF b(4) p(2,3) data, of i u] w(1) by simp
  have run: "update_record fh rid data s = (Inr (), w)"
    using t(1-3) p test_slot_run[OF t(2) b(4) p(2,3)] n(2) cp
    by (simp add: update_record_def RM_fetch_page_def data_page_def)
  note rm = rm_update[OF ok p(1) b(2) n data]
  note fin = reach_file[OF wf w(2) data_page_not_hdr[OF p(1)] rm(1)]
  have "RecordID (rid_page rid) (int ?n) = rid" using p(2) by (cases rid) simp
  then show ?thesis
    using that[OF run] fin rm(2) by (simp add: rm_recs_def)
qed

lemma update_record_absent:
  assumes wf: "rm_wf s fh" and v: "valid_rid fh rid" and r: "rm_recs s fh rid = None"
  obtains t where "update_record fh rid data s =
      (Inl (Throw (RecordNotFoundError (rid_page rid) (rid_slot rid))), t)"
    "delete_record fh rid s = (Inl (Throw (RecordNotFoundError (rid_page rid) (rid_slot rid))), t)"
    "rm_wf t fh" "rm_recs t fh = rm_recs s fh" "rm_frame s (fh_fd fh) t"
proof -
  have p: "data_page (fh_hdr fh) (rid_page rid)" "0 \<le> rid_slot rid"
    "rid_slot rid < num_records_per_page (fh_hdr fh)" using v by (auto simp: valid_rid_def)
  obtain i t b where t: "RM_fetch_page fh (rid_page rid) s = (Inr i, t)"
    "holds t (PageID (fh_fd fh) (rid_page rid)) i b" "page_bytes i t = b"
    "file_view s (fh_fd fh) (rid_page rid) = Some b" "page_ok (fh_hdr fh) b" "hdr_ok (fh_hdr fh)"
    "pool.reach s {PageID (fh_fd fh) (rid_page rid)} (page_view s) t"
    by (rule RM_fetch_page_run[OF wf p(1)])
  have "\<not> bm_test (pg_bitmap b) (nat (rid_slot rid))"
    using r rm_recs_at[OF wf v t(4)] by (simp split: if_splits)
  then have "update_record fh rid data s =
      (Inl (Throw (RecordNotFoundError (rid_page rid) (rid_slot rid))), t)"
    "delete_record fh rid s = (Inl (Throw (RecordNotFoundError (rid_page rid) (rid_slot rid))), t)"
    using t(1) test_slot_run[OF t(3,6) p(2,3)] by (simp_all add: update_record_def delete_record_def)
  then show ?thesis using that reach_look[OF wf t(7) data_page_not_hdr[OF p(1)]] by blast
qed

section \<open>Deleting\<close>

lemma add_num_records_run:
  assumes "holds_dirty s k i b" "pool.reach s0 {k} (V(k \<mapsto> b)) s" "int_ok (pg_num_records b + d)"
  obtains t where "add_num_records i d s = (Inr (), t)"
    "holds_dirty t k i (store_int b 4 (pg_num_records b + d))"
    "page_bytes i t = store_int b 4 (pg_num_records b + d)" "page_ident i t = k"
    "pool.reach s0 {k} (V(k \<mapsto> store_int b 4 (pg_num_records b + d))) t"
proof -
  have b: "page_bytes i s = b" "length b = PAGE_SIZE"
    using pool.held_facts[OF pool.dirty_held[OF assms(1)]] by auto
  have len: "length (store_int b 4 (pg_num_records b + d)) = PAGE_SIZE"
    using b(2) by (simp add: length_store_int PAGE_SIZE_def)
  obtain t where t: "edit_buf i (\<lambda>b'. store_int b' 4 (pg_num_records b + d)) s = (Inr (), t)"
    "holds_dirty t k i (store_int b 4 (pg_num_records b + d))"
    "page_bytes i t = store_int b 4 (pg_num_records b + d)" "page_ident i t = k"
    "pool.reach s0 {k} (V(k \<mapsto> store_int b 4 (pg_num_records b + d))) t"
    by (rule pool.edit_more[where f = "\<lambda>b'. store_int b' 4 (pg_num_records b + d)", OF assms(1,2) len])
  have "add_num_records i d s = (Inr (), t)"
    using t(1) b(1) assms(3) by (simp add: add_num_records_def)
  then show ?thesis using that t(2-5) by blast
qed

text \<open>\<open>release_page\<close>, when the page was full.\<close>

definition released :: "RM_FileHeader \<Rightarrow> byte list \<Rightarrow> byte list" where
  "released h b = (if pg_num_records b = num_records_per_page h then store_int b 0 (first_free h) else b)"

definition release_hdr :: "RM_FileHeader \<Rightarrow> int \<Rightarrow> byte list \<Rightarrow> RM_FileHeader" where
  "release_hdr h p b = (if pg_num_records b = num_records_per_page h then h\<lparr>first_free := p\<rparr> else h)"

lemma release_run:
  assumes "holds_dirty s k i b" "pool.reach s0 {k} (V(k \<mapsto> b)) s"
  obtains t where "(if pg_num_records b = num_records_per_page (fh_hdr fh) then release_page fh i else ret fh) s
      = (Inr (fh\<lparr>fh_hdr := release_hdr (fh_hdr fh) (pid_page k) b\<rparr>), t)"
    "holds_dirty t k i (released (fh_hdr fh) b)" "page_bytes i t = released (fh_hdr fh) b"
    "pool.reach s0 {k} (V(k \<mapsto> released (fh_hdr fh) b)) t"
proof (cases "pg_num_records b = num_records_per_page (fh_hdr fh)")
  case True
  have b: "length b = PAGE_SIZE"
    using pool.held_facts[OF pool.dirty_held[OF assms(1)]] by auto
  have len: "length (store_int b 0 (first_free (fh_hdr fh))) = PAGE_SIZE"
    using b by (simp add: length_store_int PAGE_SIZE_def)
  obtain t where t: "edit_buf i (\<lambda>b'. store_int b' 0 (first_free (fh_hdr fh))) s = (Inr (), t)"
    "holds_dirty t k i (store_int b 0 (first_free (fh_hdr fh)))"
    "page_bytes i t = store_int b 0 (first_free (fh_hdr fh))" "page_ident i t = k"
    "pool.reach s0 {k} (V(k \<mapsto> store_int b 0 (first_free (fh_hdr fh)))) t"
    by (rule pool.edit_more[where f = "\<lambda>b'. store_int b' 0 (first_free (fh_hdr fh))", OF assms(1,2) len])
  then show ?thesis
    using True that[of t] by (simp add: release_page_def released_def release_hdr_def)
next
  case False
  have "page_bytes i s = b" using pool.held_facts[OF pool.dirty_held[OF assms(1)]] by auto
  then show ?thesis
    using False that[of s] assms by (simp add: released_def release_hdr_def)
qed

lemma delete_record_run:
  assumes wf: "rm_wf s fh" and v: "valid_rid fh rid" and r: "rm_recs s fh rid \<noteq> None"
  obtains fh' t where "delete_record fh rid s = (Inr fh', t)" "rm_wf t fh'"
    "rm_recs t fh' = (rm_recs s fh)(rid := None)" "rm_frame s (fh_fd fh) t" "fh_fd fh' = fh_fd fh"
    "same_layout (fh_hdr fh) (fh_hdr fh')" "num_pages (fh_hdr fh') = num_pages (fh_hdr fh)"
proof -
  let ?h = "fh_hdr fh" and ?k = "PageID (fh_fd fh) (rid_page rid)" and ?n = "nat (rid_slot rid)"
  have p: "data_page ?h (rid_page rid)" "0 \<le> rid_slot rid" "rid_slot rid < num_records_per_page ?h"
    using v by (auto simp: valid_rid_def)
  obtain b where b: "page_view s ?k = Some b" "file_view s (fh_fd fh) (rid_page rid) = Some b"
    "page_ok ?h b" "hdr_ok ?h"
    by (rule rm_data_page[OF wf p(1)])
  have pf: "pf_wf s" and ok: "rm_ok ?h (file_view s (fh_fd fh))" using wf by (auto simp: rm_wf_def)
  have vp: "valid_pid s ?k" using data_pid_valid[OF wf] p(1) by blast
  have n: "?n < npp ?h" "bm_test (pg_bitmap b) ?n"
    using p(2,3) r rm_recs_at[OF wf v b(2)] by (auto split: if_splits)
  let ?b1 = "released ?h b" and ?h' = "release_hdr ?h (rid_page rid) b"
  obtain i t u where t: "pf_fetch ?k s = (Inr i, t)" "page_bytes i t = b" "mark_dirty i t = (Inr (), u)"
    "holds_dirty u ?k i b" "page_bytes i u = b" "page_ident i u = ?k"
    "pool.reach s {?k} ((page_view s)(?k \<mapsto> b)) u"
    by (rule pool.fetch_mark[OF pf vp b(1)])
  obtain w where w: "(if pg_num_records b = num_records_per_page ?h then release_page fh i else ret fh) u
      = (Inr (fh\<lparr>fh_hdr := release_hdr ?h (pid_page ?k) b\<rparr>), w)"
    "holds_dirty w ?k i ?b1" "page_bytes i w = ?b1" "pool.reach s {?k} ((page_view s)(?k \<mapsto> ?b1)) w"
    by (rule release_run[OF t(4,7)])
  have len1: "length ?b1 = PAGE_SIZE"
    using pool.held_facts[OF pool.dirty_held[OF w(2)]] by auto
  let ?b2 = "upd_bitmap (\<lambda>bm. bm_reset bm ?n) ?b1"
  have b2: "length ?b2 = PAGE_SIZE" "pg_num_records ?b2 = pg_num_records ?b1"
    using upd_bitmap_facts[where f = "\<lambda>bm. bm_reset bm ?n", OF len1] len1 by simp_all
  obtain x where x: "edit_buf i (upd_bitmap (\<lambda>bm. bm_reset bm ?n)) w = (Inr (), x)" "holds_dirty x ?k i ?b2"
    "pool.reach s {?k} ((page_view s)(?k \<mapsto> ?b2)) x"
    by (rule pool.edit_more[where f = "upd_bitmap (\<lambda>bm. bm_reset bm ?n)", OF w(2,4) b2(1)])
  have num1: "pg_num_records ?b1 = pg_num_records b"
    using b(3) num_records_stored(4)[of b] by (simp add: released_def page_ok_def)
  have cnt: "int_ok (pg_num_records ?b2 + -1)"
    using count_ok[OF b(4,3)] num1 b2(2) by (intro small_int_ok) auto
  obtain y where y: "add_num_records i (-1) x = (Inr (), y)"
    "pool.reach s {?k} ((page_view s)(?k \<mapsto> store_int ?b2 4 (pg_num_records ?b2 + -1))) y"
    by (rule add_num_records_run[OF x(2,3) cnt])
  have del: "store_int ?b2 4 (pg_num_records ?b2 + -1) = pg_delete ?n ?b1"
    using b2(2) by (simp add: pg_delete_def)
  have run: "delete_record fh rid s = (Inr (fh\<lparr>fh_hdr := ?h'\<rparr>), y)"
    using t(1,2,3,5) p test_slot_run[OF t(2) b(4) p(2,3)] n(2) w(1) x(1) y(1)
    by (simp add: delete_record_def RM_fetch_page_def data_page_def)
  have rm: "rm_ok ?h' ((file_view s (fh_fd fh))(rid_page rid \<mapsto> pg_delete ?n ?b1))"
    "rm_map ?h' ((file_view s (fh_fd fh))(rid_page rid \<mapsto> pg_delete ?n ?b1)) =
      (rm_map ?h (file_view s (fh_fd fh)))(RecordID (rid_page rid) (int ?n) := None)"
    using rm_delete[where ?b1.0 = ?b1 and h' = ?h', OF ok p(1) b(2) n] by (simp_all add: released_def release_hdr_def)
  note fin = reach_file[OF wf y(2)[unfolded del] data_page_not_hdr[OF p(1)] rm(1)]
  have "RecordID (rid_page rid) (int ?n) = rid" using p(2) by (cases rid) simp
  then show ?thesis
    using that[OF run] fin rm(2) by (simp add: rm_recs_def release_hdr_def same_layout_def)
qed

section \<open>Inserting\<close>

definition can_insert :: "RM_FileHandle \<Rightarrow> bool" where
  "can_insert fh \<longleftrightarrow> first_free (fh_hdr fh) \<noteq> RM_NO_PAGE \<or> num_pages (fh_hdr fh) < 524288"

text \<open>A page with room comes to hand, the first of the free list or a new one.\<close>

lemma RM_create_page_run:
  assumes wf: "rm_wf s fh" and can: "can_insert fh"
  obtains i t h1 b where "RM_create_page fh s = (Inr (i, fh\<lparr>fh_hdr := h1\<rparr>), t)"
    "holds t (PageID (fh_fd fh) (first_free h1)) i b" "first_free h1 \<noteq> RM_NO_PAGE" "same_layout (fh_hdr fh) h1"
    "pool.reach s {PageID (fh_fd fh) (first_free h1)}
       ((page_view s)(PageID (fh_fd fh) (first_free h1) \<mapsto> b)) t"
    "rm_ok h1 ((file_view s (fh_fd fh))(first_free h1 \<mapsto> b))"
    "rm_map h1 ((file_view s (fh_fd fh))(first_free h1 \<mapsto> b)) = rm_recs s fh"
    "num_pages h1 \<le> num_pages (fh_hdr fh) + 1" "num_pages (fh_hdr fh) \<le> num_pages h1"
proof -
  let ?h = "fh_hdr fh"
  have pf: "pf_wf s" and ok: "rm_ok ?h (file_view s (fh_fd fh))" using wf by (auto simp: rm_wf_def)
  then have h: "hdr_ok ?h" by (simp add: rm_ok_def)
  show ?thesis
  proof (cases "first_free ?h = RM_NO_PAGE")
    case True
    let ?p = "num_pages ?h" and ?k = "PageID (fh_fd fh) (num_pages ?h)"
    let ?h1 = "?h\<lparr>num_pages := ?p + 1, first_free := ?p\<rparr>"
    have room: "?p < 524288" using can True by (simp add: can_insert_def)
    have vp: "valid_pid s ?k" using data_pid_valid[OF wf] room by blast
    obtain i t b u where t: "pf_create ?k s = (Inr i, t)" "length b = PAGE_SIZE"
      "edit_buf i (init_record_page ?h) t = (Inr (), u)" "holds_dirty u ?k i (init_record_page ?h b)"
      "page_bytes i u = init_record_page ?h b" "page_ident i u = ?k"
      "pool.reach s {?k} ((page_view s)(?k \<mapsto> init_record_page ?h b)) u"
      by (rule pool.init_page[OF pf vp init_record_page_facts(5)[OF h]])
    have "0 < npp ?h" using h by (simp add: hdr_ok_def)
    then have bs: "0 \<le> bitmap_size ?h" "bitmap_size ?h \<le> int (PAGE_SIZE - sizeof_RM_PageHeader)"
      using hdr_bounds(4)[OF h, of 0] h by (auto simp: hdr_ok_def PAGE_SIZE_def sizeof_RM_PageHeader_def)
    have run: "RM_create_page fh s = (Inr (i, fh\<lparr>fh_hdr := ?h1\<rparr>), u)"
      using True t(1,3,6) bs by (simp add: RM_create_page_def)
    note g = rm_grow[OF ok True room t(2) refl refl]
    show ?thesis
      using that[OF run, of "init_record_page ?h b"] pool.dirty_held[OF t(4)] g t(7)
      by (simp add: rm_recs_def)
  next
    case False
    obtain b where b: "data_page ?h (first_free ?h)" "file_view s (fh_fd fh) (first_free ?h) = Some b"
      using first_free_page[OF ok False] by blast
    obtain i t b' where t: "RM_fetch_page fh (first_free ?h) s = (Inr i, t)"
      "holds t (PageID (fh_fd fh) (first_free ?h)) i b'" "page_bytes i t = b'"
      "file_view s (fh_fd fh) (first_free ?h) = Some b'" "page_ok ?h b'" "hdr_ok ?h"
      "pool.reach s {PageID (fh_fd fh) (first_free ?h)} (page_view s) t"
      by (rule RM_fetch_page_run[OF wf b(1)])
    have run: "RM_create_page fh s = (Inr (i, fh\<lparr>fh_hdr := ?h\<rparr>), t)"
      using False t(1) by (simp add: RM_create_page_def)
    have eq: "(page_view s)(PageID (fh_fd fh) (first_free ?h) \<mapsto> b') = page_view s"
      "(file_view s (fh_fd fh))(first_free ?h \<mapsto> b') = file_view s (fh_fd fh)"
      using t(4) by (auto simp: file_view_def)
    show ?thesis
      using that[OF run t(2) False] t(7) ok eq by (simp add: same_layout_def rm_recs_def)
  qed
qed

lemma last_bit_in_page: "hdr_ok h \<Longrightarrow> bit_in_page (num_records_per_page h - 1)"
proof -
  assume h: "hdr_ok h"
  then have "1 \<le> num_records_per_page h" by (simp add: hdr_ok_def)
  then have "npp h - 1 < npp h" "int (npp h - 1) = num_records_per_page h - 1" by linarith+
  then show ?thesis using hdr_bounds(6)[OF h, of "npp h - 1"] by simp
qed

lemma unlisted_hdr:
  "hdr_ok h \<Longrightarrow> hdr_ok (if c then h\<lparr>first_free := q\<rparr> else h)"
  "hdr_ok h \<Longrightarrow> int m < num_records_per_page (if c then h\<lparr>first_free := q\<rparr> else h) \<longleftrightarrow> m < npp h"
  "record_size (if c then h\<lparr>first_free := q\<rparr> else h) = record_size h"
  "same_layout h (if c then h\<lparr>first_free := q\<rparr> else h)"
  by (auto simp: same_layout_def hdr_ok_def)

lemma insert_record_run:
  assumes wf: "rm_wf s fh" and can: "can_insert fh" and data: "length data = nat (record_size (fh_hdr fh))"
  obtains rid fh' t where "insert_record fh data s = (Inr (rid, fh'), t)" "rm_wf t fh'" "valid_rid fh' rid"
    "rm_recs s fh rid = None" "rm_recs t fh' = (rm_recs s fh)(rid \<mapsto> data)" "rm_frame s (fh_fd fh) t"
    "fh_fd fh' = fh_fd fh" "same_layout (fh_hdr fh) (fh_hdr fh')"
    "num_pages (fh_hdr fh') \<le> num_pages (fh_hdr fh) + 1" "num_pages (fh_hdr fh) \<le> num_pages (fh_hdr fh')"
proof -
  obtain i t h1 b where t: "RM_create_page fh s = (Inr (i, fh\<lparr>fh_hdr := h1\<rparr>), t)"
    "holds t (PageID (fh_fd fh) (first_free h1)) i b" "first_free h1 \<noteq> RM_NO_PAGE" "same_layout (fh_hdr fh) h1"
    "pool.reach s {PageID (fh_fd fh) (first_free h1)}
       ((page_view s)(PageID (fh_fd fh) (first_free h1) \<mapsto> b)) t"
    "rm_ok h1 ((file_view s (fh_fd fh))(first_free h1 \<mapsto> b))"
    "rm_map h1 ((file_view s (fh_fd fh))(first_free h1 \<mapsto> b)) = rm_recs s fh"
    "num_pages h1 \<le> num_pages (fh_hdr fh) + 1" "num_pages (fh_hdr fh) \<le> num_pages h1"
    by (rule RM_create_page_run[OF wf can])
  let ?p = "first_free h1" and ?k = "PageID (fh_fd fh) (first_free h1)"
  let ?V = "(file_view s (fh_fd fh))(?p \<mapsto> b)"
  have Vp: "?V ?p = Some b" by simp
  obtain ps where fp: "data_page h1 ?p" "page_ok h1 b" "pg_num_records b < num_records_per_page h1"
    using first_free_page[OF t(6,3)] Vp by force
  have h: "hdr_ok h1" using t(6) by (simp add: rm_ok_def)
  have data1: "length data = nat (record_size h1)" using data t(4) by (simp add: same_layout_def)
  have bt: "page_bytes i t = b" "length b = PAGE_SIZE" using pool.held_facts[OF t(2)] by auto
  let ?n = "first_bit False (pg_bitmap b) (npp h1)"
  have "card (used_bits (pg_bitmap b) (npp h1)) < npp h1" using fp(2,3) by (simp add: page_ok_def)
  then have n: "?n < npp h1" by (rule first_free_bit)
  have nf: "\<not> bm_test (pg_bitmap b) ?n" using first_bit_props(2)[OF n] by simp
  let ?b1 = "upd_bitmap (\<lambda>bm. bm_set bm ?n) b"
  have b1: "length ?b1 = PAGE_SIZE" "pg_num_records ?b1 = pg_num_records b" "pg_next_free ?b1 = pg_next_free b"
    using upd_bitmap_facts[where f = "\<lambda>bm. bm_set bm ?n", OF bt(2)] bt(2) by simp_all
  obtain u v where u: "edit_buf i (upd_bitmap (\<lambda>bm. bm_set bm ?n)) t = (Inr (), u)" "mark_dirty i u = (Inr (), v)"
    "holds_dirty v ?k i ?b1"
    "pool.reach s {?k} ((page_view s)(?k \<mapsto> b, ?k \<mapsto> ?b1)) v"
    by (rule pool.edit_mark_more[where f = "upd_bitmap (\<lambda>bm. bm_set bm ?n)", OF t(2,5) b1(1)])
  have cnt: "int_ok (pg_num_records ?b1 + 1)" using count_ok[OF h fp(2)] b1(2) by (intro small_int_ok) auto
  let ?b2 = "store_int ?b1 4 (pg_num_records ?b1 + 1)"
  obtain w where w: "add_num_records i 1 v = (Inr (), w)" "holds_dirty w ?k i ?b2" "page_bytes i w = ?b2"
    "pool.reach s {?k} ((page_view s)(?k \<mapsto> b, ?k \<mapsto> ?b2)) w"
    by (rule add_num_records_run[OF u(3,4) cnt])
  let ?b3 = "pg_insert h1 ?n data b"
  note f = pg_insert_facts[OF h fp(2) n nf data1]
  have b3: "pg_update h1 ?n data ?b2 = ?b3" using b1(2) by (simp add: pg_update_def pg_insert_def)
  have len3: "length (pg_update h1 ?n data ?b2) = PAGE_SIZE" using b3 f(5) by simp
  obtain x where x: "edit_buf i (pg_update h1 ?n data) w = (Inr (), x)" "page_ident i x = ?k"
    "pool.reach s {?k} ((page_view s)(?k \<mapsto> b, ?k \<mapsto> pg_update h1 ?n data ?b2)) x"
    by (rule pool.edit_more[where f = "pg_update h1 ?n data", OF w(2,4) len3])
  have num2: "pg_num_records ?b2 = pg_num_records ?b3" "pg_next_free ?b2 = pg_next_free ?b3"
    using num_records_stored(1,2)[OF b1(1)] cnt b1(2,3) f(2,3) by simp_all
  let ?h2 = "if pg_num_records ?b3 = num_records_per_page h1 then h1\<lparr>first_free := pg_next_free ?b3\<rparr> else h1"
  have h2: "hdr_ok ?h2" "int ?n < num_records_per_page ?h2" "length data = nat (record_size ?h2)"
    "same_layout h1 ?h2"
    using unlisted_hdr(1,2)[OF h] unlisted_hdr(3,4)[where h = h1] n data1 by (simp_all only:)
  have cp: "copy_to_slot ?h2 i (int ?n) data w = (Inr (), x)"
    using copy_to_slot_eq[OF h2(1) _ h2(2,3), of i w] x(1) same_layout_page(3)[OF h2(4)]
    by (simp add: pg_update_def[abs_def])
  have bip: "bit_in_page (num_records_per_page h1 - 1)"
    using h by (rule last_bit_in_page)
  have ul: "unlist_full (fh\<lparr>fh_hdr := h1\<rparr>) ?b2 = fh\<lparr>fh_hdr := ?h2\<rparr>"
    using num2 by (simp add: unlist_full_def)
  have nlt: "int ?n < num_records_per_page h1" using n by simp
  have run: "insert_record fh data s = (Inr (RecordID ?p (int ?n), fh\<lparr>fh_hdr := ?h2\<rparr>), x)"
    using t(1) u(1,2) w(1,3) ul cp x(2) bt(1) bip nlt by (simp add: insert_record_def)
  note rm = rm_insert[OF t(6,3) Vp n nf data1 refl refl]
  have eqV: "?V(?p \<mapsto> ?b3) = (file_view s (fh_fd fh))(?p \<mapsto> ?b3)" by simp
  have rch: "pool.reach s {?k} ((page_view s)(?k \<mapsto> ?b3)) x" using x(3) b3 by simp
  note fin = reach_file[OF wf rch data_page_not_hdr[OF fp(1)] rm(1)[unfolded eqV]]
  show ?thesis
  proof (rule that[OF run fin(1)])
    show "valid_rid (fh\<lparr>fh_hdr := ?h2\<rparr>) (RecordID ?p (int ?n))"
      using fp(1) n by (simp add: valid_rid_def)
    show "rm_recs s fh (RecordID ?p (int ?n)) = None" using rm(3) unfolding t(7) .
    show "rm_recs x (fh\<lparr>fh_hdr := ?h2\<rparr>) = (rm_recs s fh)(RecordID ?p (int ?n) \<mapsto> data)"
      using fin(2) rm(2) unfolding t(7) eqV by simp
    show "same_layout (fh_hdr fh) (fh_hdr (fh\<lparr>fh_hdr := ?h2\<rparr>))"
      using t(4) h2(4) by (simp add: same_layout_def)
    show "num_pages (fh_hdr (fh\<lparr>fh_hdr := ?h2\<rparr>)) \<le> num_pages (fh_hdr fh) + 1" using t(8) by simp
    show "num_pages (fh_hdr fh) \<le> num_pages (fh_hdr (fh\<lparr>fh_hdr := ?h2\<rparr>))" using t(9) by simp
  qed (use fin(3) in simp_all)
qed

end
