(* ===== verification/RecordScan.thy ===== *)
theory RecordScan
  imports RecordOps
begin

text \<open>
  The iterator \<open>RM_Iterator\<close>: \<open>next\<close> moves to the least record id behind the current one, in the
  order page first, then slot, and a loop over it visits every record once, in that order.
\<close>

section \<open>One step\<close>

text \<open>What \<open>next\<close> finds from the position behind slot \<open>m\<close> of page \<open>p\<close>.\<close>

definition next_rid :: "(RecordID \<rightharpoonup> byte list) \<Rightarrow> RecordID \<Rightarrow> RecordID \<Rightarrow> bool" where
  "next_rid M rid r \<longleftrightarrow> (if rm_is_end r then \<forall>x \<in> dom M. x \<le> rid
     else r \<in> dom M \<and> rid < r \<and> (\<forall>x \<in> dom M. rid < x \<longrightarrow> r \<le> x))"

lemma next_bit_cases:
  assumes "-1 \<le> m" "m < int n"
  shows "m < int (next_bit b bm n m)" "next_bit b bm n m \<le> n"
    "next_bit b bm n m < n \<Longrightarrow> bm_test bm (next_bit b bm n m) = b"
    "m < int k \<Longrightarrow> k < next_bit b bm n m \<Longrightarrow> bm_test bm k \<noteq> b"
proof -
  have le: "nat (m + 1) \<le> n" using assms by linarith
  note p = next_bit_from_props[OF le refl, of b bm, folded next_bit_def]
  show "next_bit b bm n m \<le> n" "next_bit b bm n m < n \<Longrightarrow> bm_test bm (next_bit b bm n m) = b"
    using p by auto
  show "m < int (next_bit b bm n m)" using p assms by linarith
  show "bm_test bm k \<noteq> b" if "m < int k" "k < next_bit b bm n m"
    using p that by (auto simp: nat_le_iff)
qed

lemma rm_recs_None_page:
  assumes "\<not> data_page (fh_hdr fh) (rid_page rid)"
  shows "rm_recs s fh rid = None"
  using assms by (simp add: rm_recs_def rm_map_def)

lemma dom_rm_recs:
  assumes "rid \<in> dom (rm_recs s fh)"
  shows "valid_rid fh rid"
proof -
  obtain r where "rm_recs s fh rid = Some r" using assms by auto
  then show ?thesis
    by (cases rid) (auto simp: rm_recs_def valid_rid_def elim!: rm_map_Some)
qed

lemma rm_next_loop_run:
  assumes "rm_wf s fh" "RM_FIRST_RECORD_PAGE \<le> p" "-1 \<le> m" "m < num_records_per_page (fh_hdr fh)"
  shows "\<exists>r t. rm_next_loop fh p m s = (Inr r, t) \<and> rm_wf t fh \<and> rm_recs t fh = rm_recs s fh \<and>
    rm_frame s (fh_fd fh) t \<and> next_rid (rm_recs s fh) (RecordID p m) r"
  using assms
proof (induction "nat (num_pages (fh_hdr fh) - p)" arbitrary: p m s rule: less_induct)
  case less
  let ?h = "fh_hdr fh"
  show ?case
  proof (cases "p < num_pages ?h")
    case False
    have run: "rm_next_loop fh p m s = (Inr (RecordID RM_NO_PAGE m), s)"
      using False by (subst rm_next_loop.simps) simp
    have "x \<le> RecordID p m" if "x \<in> dom (rm_recs s fh)" for x
      using dom_rm_recs[OF that] False by (auto simp: valid_rid_def data_page_def less_eq_RecordID_def)
    then show ?thesis using run less.prems(1) by (simp add: next_rid_def rm_is_end_def)
  next
    case True
    then have dp: "data_page ?h p" using less.prems(2) by (simp add: data_page_def)
    obtain i t b where t: "RM_fetch_page fh p s = (Inr i, t)" "holds t (PageID (fh_fd fh) p) i b"
      "page_bytes i t = b" "file_view s (fh_fd fh) p = Some b" "page_ok ?h b" "hdr_ok ?h"
      "pool.reach s {PageID (fh_fd fh) p} (page_view s) t"
      by (rule RM_fetch_page_run[OF less.prems(1) dp])
    note look = reach_look[OF less.prems(1) t(7) data_page_not_hdr[OF dp]]
    let ?bm = "pg_bitmap b"
    let ?n = "next_bit True ?bm (npp ?h) m"
    have npos: "int (npp ?h) = num_records_per_page ?h" using t(6) by (simp add: hdr_ok_def)
    note nb = next_bit_cases[where n = "npp ?h" and b = True and bm = ?bm and m = m, unfolded npos, OF less.prems(3,4)]
    have bip: "bit_in_page (num_records_per_page ?h - 1)" using t(6) by (rule last_bit_in_page)
    have at: "rm_recs s fh (RecordID p k) \<noteq> None \<longleftrightarrow>
        0 \<le> k \<and> k < num_records_per_page ?h \<and> bm_test ?bm (nat k)" for k
      using t(4) dp by (auto simp: rm_recs_def rm_map_def page_recs_def)
    show ?thesis
    proof (cases "?n < npp ?h")
      case found: True
      have nlt: "int ?n < num_records_per_page ?h" using found npos by linarith
      have run: "rm_next_loop fh p m s = (Inr (RecordID p (int ?n)), t)"
        using True t(1,3) bip nlt by (subst rm_next_loop.simps) simp
      have "RecordID p (int ?n) \<in> dom (rm_recs s fh)"
        using at[of "int ?n"] nb(3)[OF found] nlt by auto
      moreover have "RecordID p m < RecordID p (int ?n)" using nb(1) by (simp add: less_RecordID_def)
      moreover have "RecordID p (int ?n) \<le> x" if x: "x \<in> dom (rm_recs s fh)" "RecordID p m < x" for x
      proof (cases x)
        case (RecordID q k)
        show ?thesis
        proof (cases "q = p")
          case True
          then have k: "0 \<le> k" "bm_test ?bm (nat k)" "m < k"
            using x at[of k] RecordID by (auto simp: less_RecordID_def)
          then have "\<not> nat k < ?n" using nb(4)[of "nat k"] by auto
          then show ?thesis using RecordID True k(1) by (simp add: less_eq_RecordID_def)
        qed (use x(2) RecordID in \<open>auto simp: less_eq_RecordID_def less_RecordID_def\<close>)
      qed
      moreover have "\<not> rm_is_end (RecordID p (int ?n))"
        using dp by (auto simp: rm_is_end_def data_page_def RM_FIRST_RECORD_PAGE_def RM_NO_PAGE_def)
      ultimately show ?thesis using run look by (auto simp: next_rid_def)
    next
      case none: False
      then have full: "?n = npp ?h" using nb(2) by simp
      have "nat (num_pages ?h - (p + 1)) < nat (num_pages ?h - p)" using True by simp
      moreover have "RM_FIRST_RECORD_PAGE \<le> p + 1" using less.prems(2) by simp
      moreover have "(-1::int) < num_records_per_page ?h" using t(6) by (simp add: hdr_ok_def)
      ultimately obtain r u where u: "rm_next_loop fh (p + 1) (-1) t = (Inr r, u)" "rm_wf u fh"
        "rm_recs u fh = rm_recs t fh" "rm_frame t (fh_fd fh) u" "next_rid (rm_recs t fh) (RecordID (p + 1) (-1)) r"
        using less.hyps[of "p + 1" t "-1"] look(1) by auto
      have nge: "\<not> int ?n < num_records_per_page ?h" using none npos by linarith
      have run: "rm_next_loop fh p m s = (Inr r, u)"
        using True t(1,3) bip nge u(1) by (subst rm_next_loop.simps) simp
      have skip: "RecordID (p + 1) (-1) < x" if x: "x \<in> dom (rm_recs s fh)" "RecordID p m < x" for x
      proof (cases x)
        case (RecordID q k)
        have k: "0 \<le> k" using dom_rm_recs[OF x(1)] RecordID by (simp add: valid_rid_def)
        have "q \<noteq> p"
        proof
          assume "q = p"
          then have "bm_test ?bm (nat k)" "k < num_records_per_page ?h" "m < k"
            using x at[of k] RecordID by (auto simp: less_RecordID_def)
          then show False using nb(4)[of "nat k"] full k by auto
        qed
        then show ?thesis using x(2) RecordID k by (auto simp: less_RecordID_def)
      qed
      have "next_rid (rm_recs s fh) (RecordID p m) r"
      proof (cases "rm_is_end r")
        case True
        then have "x \<le> RecordID (p + 1) (-1)" if "x \<in> dom (rm_recs s fh)" for x
          using u(5) look(2) that by (auto simp: next_rid_def)
        then show ?thesis using True skip by (force simp: next_rid_def)
      next
        case False
        have "RecordID p m < RecordID (p + 1) (-1)" by (simp add: less_RecordID_def)
        then show ?thesis using False u(5) look(2) skip by (auto simp: next_rid_def)
      qed
      then show ?thesis
        using run u(2-4) look(2,3) rm_frame_trans[OF look(3) u(4)] by auto
    qed
  qed
qed

lemma rm_next_run:
  assumes wf: "rm_wf s fh" and rid: "RM_FIRST_RECORD_PAGE \<le> rid_page rid" "-1 \<le> rid_slot rid"
    "rid_slot rid < num_records_per_page (fh_hdr fh)"
  obtains r t where "rm_next fh rid s = (Inr r, t)" "rm_wf t fh" "rm_recs t fh = rm_recs s fh"
    "rm_frame s (fh_fd fh) t" "next_rid (rm_recs s fh) rid r"
proof -
  obtain r t where t: "rm_next_loop fh (rid_page rid) (rid_slot rid) s = (Inr r, t)" "rm_wf t fh"
    "rm_recs t fh = rm_recs s fh" "rm_frame s (fh_fd fh) t"
    "next_rid (rm_recs s fh) (RecordID (rid_page rid) (rid_slot rid)) r"
    using rm_next_loop_run[OF wf rid] by auto
  have "\<not> rm_is_end rid" using rid(1) by (simp add: rm_is_end_def RM_FIRST_RECORD_PAGE_def RM_NO_PAGE_def)
  then have "rm_next fh rid s = (Inr r, t)" using t(1) by (simp add: rm_next_def)
  then show ?thesis using that[OF _ t(2-4)] t(5) by simp
qed

lemma next_at_end: "rm_is_end rid \<Longrightarrow> rm_next fh rid s = (Inl AssertFail, s)"
  by (simp add: rm_next_def)

section \<open>A loop over the iterator\<close>

text \<open>
  \<open>for (RM_Iterator it(fh); !it.is_end(); it.next())\<close> with at most \<open>k\<close> rounds; \<open>None\<close> when they
  do not suffice.
\<close>

primrec scan_from :: "nat \<Rightarrow> RM_FileHandle \<Rightarrow> RecordID \<Rightarrow> ('z, RecordID list option) pf_prog" where
  "scan_from 0 fh rid = ret (if rm_is_end rid then Some [] else None)"
| "scan_from (Suc k) fh rid =
     (if rm_is_end rid then ret (Some [])
      else andThen (rm_next fh rid) (\<lambda>r.
        andThen (scan_from k fh r) (\<lambda>rs. ret (map_option (Cons rid) rs))))"

definition scan_file :: "nat \<Rightarrow> RM_FileHandle \<Rightarrow> ('z, RecordID list option) pf_prog" where
  "scan_file k fh = andThen (RM_Iterator fh) (scan_from k fh)"

lemma finite_rm_recs [simp]: "finite (dom (rm_recs s fh))"
proof (rule finite_subset)
  show "dom (rm_recs s fh) \<subseteq> (\<lambda>(p, n). RecordID p n) `
      ({RM_FIRST_RECORD_PAGE..<num_pages (fh_hdr fh)} \<times> {0..<num_records_per_page (fh_hdr fh)})"
  proof
    fix rid assume "rid \<in> dom (rm_recs s fh)"
    from dom_rm_recs[OF this] show "rid \<in> (\<lambda>(p, n). RecordID p n) `
      ({RM_FIRST_RECORD_PAGE..<num_pages (fh_hdr fh)} \<times> {0..<num_records_per_page (fh_hdr fh)})"
      by (cases rid) (force simp: valid_rid_def data_page_def)
  qed
qed simp

lemma sorted_least:
  fixes A :: "RecordID set"
  assumes "finite A" "x \<in> A" "\<And>y. y \<in> A \<Longrightarrow> x \<le> y"
  shows "sorted_list_of_set A = x # sorted_list_of_set (A - {x})"
proof -
  have "Min A = x" using assms by (intro Min_eqI) auto
  then show ?thesis using sorted_list_of_set_nonempty[OF assms(1)] assms(2) by auto
qed

lemma scan_from_run:
  assumes "rm_wf s fh" "rid \<in> dom (rm_recs s fh)" "card {x \<in> dom (rm_recs s fh). rid \<le> x} \<le> k"
  shows "\<exists>t. scan_from k fh rid s =
      (Inr (Some (sorted_list_of_set {x \<in> dom (rm_recs s fh). rid \<le> x})), t) \<and> rm_wf t fh \<and>
    rm_recs t fh = rm_recs s fh \<and> rm_frame s (fh_fd fh) t"
  using assms
proof (induction k arbitrary: rid s)
  case 0
  then have "{x \<in> dom (rm_recs s fh). rid \<le> x} = {}" by simp
  with 0(2) show ?case by blast
next
  case (Suc k)
  let ?A = "{x \<in> dom (rm_recs s fh). rid \<le> x}"
  have v: "valid_rid fh rid" using Suc.prems(2) by (rule dom_rm_recs)
  then have rid: "RM_FIRST_RECORD_PAGE \<le> rid_page rid" "-1 \<le> rid_slot rid"
    "rid_slot rid < num_records_per_page (fh_hdr fh)"
    by (auto simp: valid_rid_def data_page_def)
  have ne: "\<not> rm_is_end rid" using rid(1) by (simp add: rm_is_end_def RM_FIRST_RECORD_PAGE_def RM_NO_PAGE_def)
  obtain r t where t: "rm_next fh rid s = (Inr r, t)" "rm_wf t fh" "rm_recs t fh = rm_recs s fh"
    "rm_frame s (fh_fd fh) t" "next_rid (rm_recs s fh) rid r"
    by (rule rm_next_run[OF Suc.prems(1) rid])
  have fin: "finite ?A" by simp
  have srt: "sorted_list_of_set ?A = rid # sorted_list_of_set (?A - {rid})"
    using Suc.prems(2) by (intro sorted_least[OF fin]) auto
  show ?case
  proof (cases "rm_is_end r")
    case True
    then have "?A = {rid}" using t(5) Suc.prems(2) by (force simp: next_rid_def)
    moreover have "scan_from k fh r t = (Inr (Some []), t)" using True by (cases k) simp_all
    ultimately show ?thesis using ne t by simp
  next
    case False
    then have r: "r \<in> dom (rm_recs s fh)" "rid < r" "\<And>x. x \<in> dom (rm_recs s fh) \<Longrightarrow> rid < x \<Longrightarrow> r \<le> x"
      using t(5) by (auto simp: next_rid_def)
    have B: "{x \<in> dom (rm_recs t fh). r \<le> x} = ?A - {rid}"
      using r t(3) by (auto intro: order.strict_implies_order order.strict_trans2 dest: le_neq_trans)
    have "card (?A - {rid}) \<le> k"
      using Suc.prems(2,3) fin by (simp add: card_Diff_singleton)
    then obtain u where u: "scan_from k fh r t = (Inr (Some (sorted_list_of_set (?A - {rid}))), u)" "rm_wf u fh"
      "rm_recs u fh = rm_recs t fh" "rm_frame t (fh_fd fh) u"
      using Suc.IH[of t r] t(2,3) r(1) unfolding B by auto
    have "scan_from (Suc k) fh rid s = (Inr (Some (sorted_list_of_set ?A)), u)"
      using ne t(1) u(1) srt by simp
    then show ?thesis using u(2-4) t(3) rm_frame_trans[OF t(4) u(4)] by auto
  qed
qed

text \<open>As many rounds as there are records suffice.\<close>

lemma scan_file_run:
  assumes wf: "rm_wf s fh" and k: "card (dom (rm_recs s fh)) \<le> k"
  obtains t where "scan_file k fh s = (Inr (Some (sorted_list_of_set (dom (rm_recs s fh)))), t)"
    "rm_wf t fh" "rm_recs t fh = rm_recs s fh" "rm_frame s (fh_fd fh) t"
proof -
  let ?r0 = "RecordID RM_FIRST_RECORD_PAGE (-1)"
  have "hdr_ok (fh_hdr fh)" using wf by (simp add: rm_wf_def rm_ok_def)
  then have "-1 < num_records_per_page (fh_hdr fh)" by (simp add: hdr_ok_def)
  then obtain r t where t: "rm_next fh ?r0 s = (Inr r, t)" "rm_wf t fh" "rm_recs t fh = rm_recs s fh"
    "rm_frame s (fh_fd fh) t" "next_rid (rm_recs s fh) ?r0 r"
    using rm_next_run[OF wf, of ?r0] by auto
  have above: "?r0 < x" if "x \<in> dom (rm_recs s fh)" for x
    using dom_rm_recs[OF that] by (auto simp: valid_rid_def data_page_def less_RecordID_def)
  show ?thesis
  proof (cases "rm_is_end r")
    case True
    then have "dom (rm_recs s fh) = {}" using t(5) above by (force simp: next_rid_def)
    moreover have "scan_from k fh r t = (Inr (Some []), t)" using True by (cases k) simp_all
    ultimately show ?thesis using that[of t] t by (simp add: scan_file_def RM_Iterator_def)
  next
    case False
    then have r: "r \<in> dom (rm_recs s fh)" "\<And>x. x \<in> dom (rm_recs s fh) \<Longrightarrow> r \<le> x"
      using t(5) above by (auto simp: next_rid_def)
    then have A: "{x \<in> dom (rm_recs t fh). r \<le> x} = dom (rm_recs s fh)" using t(3) by auto
    then obtain u where u: "scan_from k fh r t = (Inr (Some (sorted_list_of_set (dom (rm_recs s fh)))), u)"
      "rm_wf u fh" "rm_recs u fh = rm_recs t fh" "rm_frame t (fh_fd fh) u"
      using scan_from_run[OF t(2), of r k] r(1) t(3) k by auto
    then show ?thesis
      using that[of u] t(1,3) rm_frame_trans[OF t(4) u(4)] by (simp add: scan_file_def RM_Iterator_def)
  qed
qed

end
