(* ===== verification/RecordManager.thy ===== *)
theory RecordManager
  imports RecordScan
begin

text \<open>
  \<open>rm_manager.cpp\<close>: the layout computed for a new file, and what create, open and close do to
  the content of a record file: a created file is empty, a closed one reopens with the
  content it had.
\<close>

section \<open>The layout of a new file\<close>

lemma new_file_header_ok:
  assumes "1 \<le> sz" "sz \<le> RM_MAX_RECORD_SIZE"
  shows "hdr_ok (new_file_header sz)"
proof -
  define n where "n = records_per_page sz"
  have s: "1 \<le> sz" "sz \<le> 512" using assms by (simp_all add: RM_MAX_RECORD_SIZE_def)
  have n: "n = 32697 div (1 + sz * 8)"
    by (simp add: n_def records_per_page_def WIDTH_def PAGE_SIZE_def sizeof_RM_PageHeader_def)
  have "(1 + sz * 8) * n + 32697 mod (1 + sz * 8) = 32697" unfolding n by (rule mult_div_mod_eq)
  moreover have "0 \<le> 32697 mod (1 + sz * 8)" using s by (intro pos_mod_sign) simp
  ultimately have up: "n + 8 * (n * sz) \<le> 32697" by (simp add: algebra_simps)
  have "32697 div 4097 \<le> n" unfolding n using s by (intro zdiv_mono2) auto
  then have n1: "1 \<le> n" by simp
  define m where "m = (n + 7) div 8"
  have m: "8 * m \<le> n + 7" unfolding m_def by simp
  have "8 + m + n * sz \<le> 4096" using up m by linarith
  then show ?thesis
    using s n1 unfolding hdr_ok_def new_file_header_def n_def[symmetric] m_def
    by (simp add: RM_MAX_RECORD_SIZE_def WIDTH_def PAGE_SIZE_def add.commute)
qed

text \<open>The header survives the way through its bytes.\<close>

definition hdr_ints :: "RM_FileHeader \<Rightarrow> int list" where
  "hdr_ints h = [record_size h, num_pages h, num_records_per_page h, first_free h, bitmap_size h]"

lemma length_hdr_bytes [simp]: "length (hdr_bytes h) = 20"
  by (simp add: hdr_bytes_def)

lemma hdr_of_hdr_bytes: "\<forall>i \<in> set (hdr_ints h). int_ok i \<Longrightarrow> hdr_of_bytes (hdr_bytes h) = h"
  using bytes_ints_bytes[of "hdr_ints h" 5]
  by (simp add: hdr_of_bytes_def hdr_bytes_def hdr_ints_def)

lemma rm_ok_ints: "rm_ok h V \<Longrightarrow> \<forall>i \<in> set (hdr_ints h). int_ok i"
proof -
  assume ok: "rm_ok h V"
  then have h: "hdr_ok h" by (simp add: rm_ok_def)
  have "num_records_per_page h \<le> 4096" "1 \<le> num_records_per_page h"
    using npp_le[OF h] h by (auto simp: PAGE_SIZE_def hdr_ok_def)
  moreover from this have "0 \<le> bitmap_size h" "bitmap_size h \<le> 4096"
    using h by (auto simp: hdr_ok_def)
  moreover have "-1 \<le> first_free h \<and> first_free h \<le> 524288"
  proof (cases "first_free h = RM_NO_PAGE")
    case False
    then have "data_page h (first_free h)" using first_free_page[OF ok] by blast
    then show ?thesis using h by (simp add: data_page_def RM_FIRST_RECORD_PAGE_def hdr_ok_def)
  qed (simp add: RM_NO_PAGE_def)
  moreover have "1 \<le> record_size h" "record_size h \<le> 512" "1 \<le> num_pages h" "num_pages h \<le> 524288"
    using h by (auto simp: hdr_ok_def RM_MAX_RECORD_SIZE_def)
  ultimately show ?thesis by (auto simp: hdr_ints_def intro: small_int_ok)
qed

section \<open>Writing the file header past the pool\<close>

lemma pm_wf_frame: "pm_wf s \<Longrightarrow> same_env s t \<Longrightarrow> pf_wf t \<Longrightarrow> pm_wf t"
  using pm_maps_env[of s t] by (simp add: pm_wf_def same_env_def)

lemma page_off_header: "page_off RM_FILE_HDR_PAGE = 0"
  by (simp add: page_off_def RM_FILE_HDR_PAGE_def)

lemma header_write:
  assumes wf: "pm_wf s" and path: "fd2path s fd = Some path" and len: "length hb \<le> PAGE_SIZE"
    and out: "PageID fd RM_FILE_HDR_PAGE \<notin> cached_pages s"
  obtains F b where "write_page fd RM_FILE_HDR_PAGE hb s = (Inr (), s\<lparr>files := F\<rparr>)"
    "F (resolve s path) = Some b" "take (length hb) b = hb" "length hb \<le> length b"
    "\<And>f. f \<noteq> resolve s path \<Longrightarrow> F f = files s f" "pm_wf (s\<lparr>files := F\<rparr>)"
    "\<And>q x. q \<noteq> PageID fd RM_FILE_HDR_PAGE \<Longrightarrow> page_view s q = Some x \<Longrightarrow>
       page_view (s\<lparr>files := F\<rparr>) q = Some x"
proof -
  have inv: "pager_inv s" and maps: "pm_maps s" using wf by (auto simp: pm_wf_def pf_wf_def)
  note p = pager_inv_parts[OF inv]
  have fp: "fd_path s fd = Some (resolve s path)" using maps path by (simp add: pm_maps_def)
  obtain b0 where b0: "files s (resolve s path) = Some b0" "fd_data s fd = Some b0"
    by (rule fd_data_Some[OF p(1) fp])
  let ?b = "file_write b0 0 hb"
  let ?F = "(files s)(resolve s path \<mapsto> ?b)"
  let ?t = "s\<lparr>files := ?F\<rparr>"
  have v: "valid_pid s (PageID fd RM_FILE_HDR_PAGE)"
    using fp by (simp add: valid_pid_def RM_FILE_HDR_PAGE_def int_ok_def INT_MAX_def INT_MIN_def)
  have run: "write_page fd RM_FILE_HDR_PAGE hb s = (Inr (), ?t)"
    using v fp b0 by (simp add: write_page_def sys_pwrite_def page_off_header)
  have page: "file_page ?b r = Some x" if "file_page b0 r = Some x" "r \<noteq> 0" for r x
  proof -
    have r: "0 \<le> r" "page_off r + PAGE_SIZE \<le> length b0" "x = load b0 (page_off r) PAGE_SIZE"
      using that(1) by (auto simp: file_page_def split: if_splits)
    have "1 * PAGE_SIZE \<le> nat r * PAGE_SIZE" using r(1) that(2) by (intro mult_right_mono) auto
    then have "length hb \<le> page_off r" using len by (metis mult_1 order.trans page_off_def)
    then show ?thesis using r by (simp add: file_page_def length_file_write load_file_write_after)
  qed
  have disk: "disk_page ?t q = Some x" if q: "q \<noteq> PageID fd RM_FILE_HDR_PAGE" "disk_page s q = Some x" for q x
  proof -
    obtain g r where qe: "q = PageID g r" by (cases q)
    obtain path' b' where g: "fd_path s g = Some path'" "files s path' = Some b'" "file_page b' r = Some x"
      using q(2) by (auto simp: disk_page_def fd_data_def qe split: option.splits)
    have gt: "fd_path ?t g = Some path'" using g(1) by (simp add: fd_path_def)
    show ?thesis
    proof (cases "path' = resolve s path")
      case True
      then have "g = fd" using fd_path_inj[OF p(1) g(1)] fp by simp
      then have "r \<noteq> 0" using q(1) qe by (auto simp: RM_FILE_HDR_PAGE_def)
      then show ?thesis using g True b0(1) gt page[of r x] by (simp add: disk_page_def fd_data_def qe)
    next
      case False
      then show ?thesis using g gt by (simp add: disk_page_def fd_data_def qe)
    qed
  qed
  have "page_synced ?t i" if i: "i \<in> set (busy_pages s)" for i
  proof -
    have "busy_map s (page_id (pages s ! i)) = Some i" using map_lists_Some[OF p(3) i] .
    then have "page_id (pages s ! i) \<noteq> PageID fd RM_FILE_HDR_PAGE" using out by (auto simp: cached_pages_def)
    then show ?thesis using p(4)[OF i] disk by (auto simp: page_synced_def)
  qed
  moreover have "os_wf ?t" using p(1) b0(1) by (auto simp: os_wf_def)
  moreover have "pager_struct ?t" using p(2) by (simp add: pager_struct_def)
  moreover have "map_lists ?t (busy_pages s)" using p(3) by (simp add: map_lists_def)
  ultimately have "pager_inv ?t" by (simp add: pager_inv_def)
  then have wf': "pm_wf ?t"
    using wf by (simp add: pm_wf_def pf_wf_def pm_maps_def fd_path_def resolve_def)
  have view: "page_view ?t q = Some x" if "q \<noteq> PageID fd RM_FILE_HDR_PAGE" "page_view s q = Some x" for q x
    using that disk[OF that(1)] by (auto simp: page_view_def split: option.splits)
  have "take (length hb) ?b = hb" using load_file_write_same[of "length hb" hb b0 0] by (simp add: load_def)
  then have tk: "take (length hb) ?b = hb" .
  have lb: "length hb \<le> length ?b" by (simp add: length_file_write)
  have Fp: "?F (resolve s path) = Some ?b" by simp
  have Fo: "\<And>f. f \<noteq> resolve s path \<Longrightarrow> ?F f = files s f" by simp
  show ?thesis by (rule that[OF run Fp tk lb Fo wf' view])
qed

section \<open>Record files on disk\<close>

definition rm_file :: "RM_FileHeader \<Rightarrow> byte list \<Rightarrow> bool" where
  "rm_file h b \<longleftrightarrow> sizeof_RM_FileHeader \<le> length b \<and> take sizeof_RM_FileHeader b = hdr_bytes h \<and> rm_ok h (file_page b)"

lemma new_file_rm_ok: "1 \<le> sz \<Longrightarrow> sz \<le> RM_MAX_RECORD_SIZE \<Longrightarrow> rm_ok (new_file_header sz) V"
  "rm_map (new_file_header sz) V = Map.empty"
proof -
  have none: "\<not> data_page (new_file_header sz) p" for p
    by (simp add: data_page_def new_file_header_def RM_FIRST_RECORD_PAGE_def)
  show "rm_map (new_file_header sz) V = Map.empty" using none by (simp add: rm_map_def fun_eq_iff)
  have "free_list V [] (first_free (new_file_header sz))" by (simp add: new_file_header_def)
  moreover have "Collect (has_room (new_file_header sz) V) = {}" using none by (simp add: has_room_def)
  moreover have "pages_ok (new_file_header sz) V" using none by (simp add: pages_ok_def)
  ultimately show "1 \<le> sz \<Longrightarrow> sz \<le> RM_MAX_RECORD_SIZE \<Longrightarrow> rm_ok (new_file_header sz) V"
    using new_file_header_ok unfolding rm_ok_def by (metis distinct.simps(1) list.set(1))
qed

text \<open>The content does not depend on the header page.\<close>

lemma drop_header_page:
  assumes ok: "rm_ok h V"
  shows "rm_ok h (V(RM_FILE_HDR_PAGE := None))" "rm_map h (V(RM_FILE_HDR_PAGE := None)) = rm_map h V"
proof -
  let ?W = "V(RM_FILE_HDR_PAGE := None)"
  have eq: "?W p = V p" if "data_page h p" for p using data_page_not_hdr[OF that] by simp
  have "\<not> data_page h RM_FILE_HDR_PAGE" using data_page_not_hdr by blast
  then have room: "has_room h ?W = has_room h V" using eq by (auto simp: has_room_def fun_eq_iff)
  have "pages_ok h ?W" using ok eq by (simp add: rm_ok_def pages_ok_def)
  moreover have "free_list ?W ps p = free_list V ps p" if "set ps \<subseteq> Collect (data_page h)" for ps p
    using that eq by (induction ps arbitrary: p) (auto split: option.splits)
  moreover have "Collect (has_room h V) \<subseteq> Collect (data_page h)" by (auto simp: has_room_def)
  ultimately show "rm_ok h ?W" using ok unfolding rm_ok_def room by blast
  show "rm_map h ?W = rm_map h V" using eq by (simp add: rm_map_def fun_eq_iff)
qed

section \<open>Open, create, close\<close>

text \<open>Open files that an operation on other files leaves as a client sees them.\<close>

definition kept :: "int set \<Rightarrow> 'z pf_state_scheme \<Rightarrow> 'z pf_state_scheme \<Rightarrow> bool" where
  "kept G s t \<longleftrightarrow> (\<forall>g \<in> G. fd_path t g = fd_path s g \<and> (\<forall>p. PageID g p \<in> cached_pages t \<longrightarrow> PageID g p \<in> cached_pages s) \<and>
     (\<forall>p x. page_view s (PageID g p) = Some x \<longrightarrow> page_view t (PageID g p) = Some x))"

lemma kept_refl: "kept G s s"
  by (simp add: kept_def)

lemma kept_trans: "kept G s t \<Longrightarrow> kept G t u \<Longrightarrow> kept G s u"
  by (simp add: kept_def)

lemma kept_mono: "kept G s t \<Longrightarrow> H \<subseteq> G \<Longrightarrow> kept H s t"
  by (auto simp: kept_def)

lemma kept_view: "kept G s t \<Longrightarrow> g \<in> G \<Longrightarrow> file_view s g \<subseteq>\<^sub>m file_view t g"
  by (auto simp: kept_def file_view_def map_le_def)

lemma rm_wf_kept:
  assumes "kept G s t" "pf_wf t" "rm_wf s fh" "fh_fd fh \<in> G"
  shows "rm_wf t fh" "rm_recs t fh = rm_recs s fh"
  using assms rm_ok_mono[OF _ kept_view[OF assms(1,4)], of "fh_hdr fh"] by (auto simp: rm_wf_def rm_recs_def kept_def)

lemma kept_opened: "pm_wf s \<Longrightarrow> fd \<notin> set (map fst (open_fds s)) \<Longrightarrow> kept (- {fd}) s (opened fd path s)"
  using opened_view(3)[of s fd path] by (auto simp: kept_def cached_pages_def fd_path_def)

lemma RM_open_file_run:
  assumes wf: "pm_wf s" and bytes: "files s (resolve s path) = Some b" "rm_file h b"
    and closed: "path2fd s path = None"
  obtains fd where "RM_open_file path s = (Inr \<lparr>fh_hdr = h, fh_fd = fd\<rparr>, opened fd path s)"
    "pm_wf (opened fd path s)" "rm_wf (opened fd path s) \<lparr>fh_hdr = h, fh_fd = fd\<rparr>"
    "rm_recs (opened fd path s) \<lparr>fh_hdr = h, fh_fd = fd\<rparr> = rm_map h (file_page b)"
    "fd \<notin> set (map fst (open_fds s))"
proof -
  have there: "sys_is_reg s path" using bytes(1) by (simp add: sys_is_reg_def)
  obtain fd where fd: "open_file path s = (Inr fd, opened fd path s)" "pm_wf (opened fd path s)"
    "fd \<notin> set (map fst (open_fds s))" "fd2path s fd = None"
    by (rule open_file_run[OF wf there closed])
  let ?t = "opened fd path s"
  have fp: "fd_path ?t fd = Some (resolve s path)" by (simp add: fd_path_def)
  have v: "valid_pid ?t (PageID fd RM_FILE_HDR_PAGE)"
    using fp by (simp add: valid_pid_def RM_FILE_HDR_PAGE_def int_ok_def INT_MAX_def INT_MIN_def)
  have b: "20 \<le> length b" "take 20 b = hdr_bytes h" "rm_ok h (file_page b)"
    using bytes(2) by (simp_all add: rm_file_def sizeof_RM_FileHeader_def)
  have "sys_pread ?t fd 0 20 = hdr_bytes h"
    using fp bytes(1) b(1,2) by (simp add: sys_pread_def fd_data_def load_def)
  then have "read_page fd RM_FILE_HDR_PAGE sizeof_RM_FileHeader (\<lambda>_ s. s) ?t = (Inr (hdr_bytes h), ?t)"
    using v by (simp add: read_page_def page_off_header sizeof_RM_FileHeader_def)
  then have run: "RM_open_file path s = (Inr \<lparr>fh_hdr = h, fh_fd = fd\<rparr>, ?t)"
    using fd(1) hdr_of_hdr_bytes[OF rm_ok_ints[OF b(3)]] by (simp add: RM_open_file_def)
  note ov = opened_view[OF wf fd(3)]
  have fv: "file_view ?t fd = file_page b"
    using ov(3)[of path fd] bytes(1) by (simp add: file_view_def fun_eq_iff)
  have "PageID fd RM_FILE_HDR_PAGE \<notin> cached_pages ?t" using ov(2) by (simp add: cached_pages_def domIff)
  then have "rm_wf ?t \<lparr>fh_hdr = h, fh_fd = fd\<rparr>"
    using fd(2) fp b(3) fv by (simp add: rm_wf_def pm_wf_def)
  then show ?thesis using that run fd(2,3) fv by (simp add: rm_recs_def)
qed

lemma RM_close_file_run:
  assumes wf: "pm_wf s" "rm_wf s fh" and path: "fd2path s (fh_fd fh) = Some path"
  obtains t b where "RM_close_file fh s = (Inr (), t)" "pm_wf t" "path2fd t = (path2fd s)(path := None)"
    "cwd t = cwd s" "files t (resolve s path) = Some b" "rm_file (fh_hdr fh) b"
    "rm_map (fh_hdr fh) (file_page b) = rm_recs s fh"
    "\<And>g p x. g \<noteq> fh_fd fh \<Longrightarrow> page_view s (PageID g p) = Some x \<Longrightarrow> page_view t (PageID g p) = Some x"
    "\<And>f. f \<notin> snd ` set (open_fds s) \<Longrightarrow> files t f = files s f"
    "kept (- {fh_fd fh}) s t" "pf_state.more t = pf_state.more s"
    "open_fds t = filter (\<lambda>e. fst e \<noteq> fh_fd fh) (open_fds s)" "fd2path t = (fd2path s)(fh_fd fh := None)"
proof -
  let ?fd = "fh_fd fh" and ?hb = "hdr_bytes (fh_hdr fh)"
  have out: "PageID ?fd RM_FILE_HDR_PAGE \<notin> cached_pages s" using wf(2) by (simp add: rm_wf_def)
  have len: "length ?hb \<le> PAGE_SIZE" by (simp add: PAGE_SIZE_def)
  obtain F b where F: "write_page ?fd RM_FILE_HDR_PAGE ?hb s = (Inr (), s\<lparr>files := F\<rparr>)"
    "F (resolve s path) = Some b" "take (length ?hb) b = ?hb" "length ?hb \<le> length b"
    "\<And>f. f \<noteq> resolve s path \<Longrightarrow> F f = files s f" "pm_wf (s\<lparr>files := F\<rparr>)"
    "\<And>q x. q \<noteq> PageID ?fd RM_FILE_HDR_PAGE \<Longrightarrow> page_view s q = Some x \<Longrightarrow> page_view (s\<lparr>files := F\<rparr>) q = Some x"
    by (rule header_write[OF wf(1) path len out]) (rule that; assumption)
  let ?u = "s\<lparr>files := F\<rparr>"
  have ok: "rm_ok (fh_hdr fh) (file_view s ?fd)" using wf(2) by (simp add: rm_wf_def)
  have low: "20 \<le> page_off p" if "busy_map ?u (PageID ?fd p) \<noteq> None" for p
  proof -
    from that have "busy_map s (PageID ?fd p) \<noteq> None" by simp
    then obtain i where i: "busy_map s (PageID ?fd p) = Some i" by auto
    have inv: "pager_inv s" using wf(1) by (simp add: pm_wf_def pf_wf_def)
    have "0 \<le> p" using held_page(6)[OF inv i] by (simp add: valid_pid_def)
    moreover have "p \<noteq> 0" using i out by (auto simp: cached_pages_def RM_FILE_HDR_PAGE_def)
    ultimately have "1 * PAGE_SIZE \<le> nat p * PAGE_SIZE" by (intro mult_right_mono) auto
    then show ?thesis by (simp add: page_off_def PAGE_SIZE_def)
  qed
  have pathu: "fd2path ?u ?fd = Some path" using path by simp
  obtain t where t: "close_file ?fd ?u = (Inr (), t)" "pm_wf t" "cwd t = cwd ?u"
    "path2fd t = (path2fd ?u)(path := None)" "fd2path t = (fd2path ?u)(?fd := None)"
    "dom (files t) = dom (files ?u)" "prefix_kept 20 ?u t"
    "\<And>p x. page_view ?u (PageID ?fd p) = Some x \<Longrightarrow>
       \<exists>b. files t (resolve ?u path) = Some b \<and> file_page b p = Some x"
    "\<And>g p x. g \<noteq> ?fd \<Longrightarrow> page_view ?u (PageID g p) = Some x \<Longrightarrow> page_view t (PageID g p) = Some x"
    "\<And>f. f \<notin> snd ` set (open_fds ?u) \<Longrightarrow> files t f = files ?u f"
    "open_fds t = filter (\<lambda>e. fst e \<noteq> ?fd) (open_fds ?u)" "pf_state.more t = pf_state.more ?u"
    "dom (busy_map t) \<subseteq> dom (busy_map ?u)"
    by (rule close_file_run[where n = 20, OF F(6) pathu low], assumption) (rule that; assumption)
  have run: "RM_close_file fh s = (Inr (), t)" using F(1) t(1) by (simp add: RM_close_file_def)
  have ru: "resolve ?u path = resolve s path" by (simp add: resolve_def)
  obtain b' where b': "files t (resolve s path) = Some b'" "length b \<le> length b'"
    "\<And>k. k \<le> 20 \<Longrightarrow> k \<le> length b \<Longrightarrow> take k b' = take k b"
    using t(7) F(2) unfolding prefix_kept_def by force
  have le: "(file_view s ?fd)(RM_FILE_HDR_PAGE := None) \<subseteq>\<^sub>m file_page b'"
    unfolding map_le_def
  proof
    fix p assume "p \<in> dom ((file_view s ?fd)(RM_FILE_HDR_PAGE := None))"
    then obtain x where x: "p \<noteq> RM_FILE_HDR_PAGE" "page_view s (PageID ?fd p) = Some x"
      by (auto simp: file_view_def split: if_splits)
    then have "page_view ?u (PageID ?fd p) = Some x" using F(7) by simp
    then have "file_page b' p = Some x" using t(8) b'(1) ru by fastforce
    then show "((file_view s ?fd)(RM_FILE_HDR_PAGE := None)) p = file_page b' p"
      using x by (simp add: file_view_def)
  qed
  have ok0: "rm_ok (fh_hdr fh) ((file_view s ?fd)(RM_FILE_HDR_PAGE := None))"
    "rm_map (fh_hdr fh) ((file_view s ?fd)(RM_FILE_HDR_PAGE := None)) = rm_recs s fh"
    using drop_header_page[OF ok] by (simp_all add: rm_recs_def)
  have "take 20 b' = ?hb" using b'(3)[of 20] F(3,4) by simp
  then have rf: "rm_file (fh_hdr fh) b'"
    using rm_ok_mono(1)[OF ok0(1) le] b'(2) F(4) by (simp add: rm_file_def sizeof_RM_FileHeader_def)
  have mp: "rm_map (fh_hdr fh) (file_page b') = rm_recs s fh"
    using rm_ok_mono(2)[OF ok0(1) le] ok0(2) by simp
  have others: "page_view t (PageID g p) = Some x" if "g \<noteq> ?fd" "page_view s (PageID g p) = Some x" for g p x
    using t(9)[OF that(1)] F(7) that by simp
  show ?thesis
  proof (rule that[OF run t(2) _ _ b'(1) rf mp])
    show "path2fd t = (path2fd s)(path := None)" "cwd t = cwd s" using t(3,4) by simp_all
    show "page_view t (PageID g p) = Some x" if "g \<noteq> ?fd" "page_view s (PageID g p) = Some x" for g p x
      by (rule others[OF that])
    show "open_fds t = filter (\<lambda>e. fst e \<noteq> ?fd) (open_fds s)" "fd2path t = (fd2path s)(?fd := None)"
      "pf_state.more t = pf_state.more s" using t(5,11,12) by simp_all
    show "kept (- {?fd}) s t"
      using others t(11,13) by (auto simp: kept_def cached_pages_def fd_path_def map_of_filter_fst)
    show "files t f = files s f" if "f \<notin> snd ` set (open_fds s)" for f
    proof -
      have "(?fd, resolve s path) \<in> set (open_fds s)"
        using wf(1) path by (intro fd_path_in) (simp add: pm_wf_def pm_maps_def)
      then have "f \<noteq> resolve s path" using that by force
      then show ?thesis using t(10) that F(5) by simp
    qed
  qed
qed

lemma unopened_view:
  assumes "pm_wf s" "fd \<notin> set (map fst (open_fds s))"
  shows "page_view s (PageID fd p) = None"
proof -
  have "fd_path s fd = None" using assms(2) by (simp add: fd_path_def map_of_eq_None_iff)
  then show ?thesis
    using opened_view(2)[OF assms] by (simp add: page_view_def disk_page_def fd_data_def)
qed

lemma RM_create_file_run:
  assumes wf: "pm_wf s" and fresh: "\<not> sys_is_reg s path" and sz: "1 \<le> sz" "sz \<le> RM_MAX_RECORD_SIZE"
  obtains t b where "RM_create_file path sz s = (Inr (), t)" "pm_wf t" "path2fd t = path2fd s" "cwd t = cwd s"
    "files t (resolve s path) = Some b" "rm_file (new_file_header sz) b"
    "rm_map (new_file_header sz) (file_page b) = Map.empty"
    "\<And>q x. page_view s q = Some x \<Longrightarrow> page_view t q = Some x"
    "\<And>f. f \<noteq> resolve s path \<Longrightarrow> f \<notin> snd ` set (open_fds s) \<Longrightarrow> files t f = files s f"
    "kept {g. fd_path s g \<noteq> None} s t" "pf_state.more t = pf_state.more s" "open_fds t = open_fds s" "fd2path t = fd2path s"
proof -
  let ?hb = "hdr_bytes (new_file_header sz)"
  let ?s1 = "s\<lparr>files := (files s)(resolve s path \<mapsto> [])\<rparr>"
  note c = create_file_run[OF wf fresh]
  have r1: "resolve ?s1 = resolve s" by (simp add: resolve_def fun_eq_iff)
  have reg: "sys_is_reg ?s1 path" by (simp add: sys_is_reg_def r1)
  have cl: "path2fd ?s1 path = None" using missing_closed[OF wf fresh] by simp
  obtain fd where fd: "open_file path ?s1 = (Inr fd, opened fd path ?s1)" "pm_wf (opened fd path ?s1)"
    "fd \<notin> set (map fst (open_fds ?s1))" "fd2path ?s1 fd = None"
    by (rule open_file_run[OF c(2) reg cl])
  let ?s2 = "opened fd path ?s1"
  note ov = opened_view[OF c(2) fd(3)]
  have out: "PageID fd RM_FILE_HDR_PAGE \<notin> cached_pages ?s2" using ov(2) by (simp add: cached_pages_def domIff)
  have path2: "fd2path ?s2 fd = Some path" by simp
  have len: "length ?hb \<le> PAGE_SIZE" by (simp add: PAGE_SIZE_def)
  obtain F b where F: "write_page fd RM_FILE_HDR_PAGE ?hb ?s2 = (Inr (), ?s2\<lparr>files := F\<rparr>)"
    "F (resolve ?s2 path) = Some b" "take (length ?hb) b = ?hb" "length ?hb \<le> length b"
    "\<And>f. f \<noteq> resolve ?s2 path \<Longrightarrow> F f = files ?s2 f" "pm_wf (?s2\<lparr>files := F\<rparr>)"
    "\<And>q x. q \<noteq> PageID fd RM_FILE_HDR_PAGE \<Longrightarrow> page_view ?s2 q = Some x \<Longrightarrow> page_view (?s2\<lparr>files := F\<rparr>) q = Some x"
    by (rule header_write[OF fd(2) path2 len out]) (rule that; assumption)
  let ?u = "?s2\<lparr>files := F\<rparr>"
  have low: "20 \<le> page_off p" if "busy_map ?u (PageID fd p) \<noteq> None" for p
    using that ov(2)[of p] by simp
  have pathu: "fd2path ?u fd = Some path" by simp
  obtain t where t: "close_file fd ?u = (Inr (), t)" "pm_wf t" "cwd t = cwd ?u"
    "path2fd t = (path2fd ?u)(path := None)" "fd2path t = (fd2path ?u)(fd := None)"
    "dom (files t) = dom (files ?u)" "prefix_kept 20 ?u t"
    "\<And>p x. page_view ?u (PageID fd p) = Some x \<Longrightarrow>
       \<exists>b. files t (resolve ?u path) = Some b \<and> file_page b p = Some x"
    "\<And>g p x. g \<noteq> fd \<Longrightarrow> page_view ?u (PageID g p) = Some x \<Longrightarrow> page_view t (PageID g p) = Some x"
    "\<And>f. f \<notin> snd ` set (open_fds ?u) \<Longrightarrow> files t f = files ?u f"
    "open_fds t = filter (\<lambda>e. fst e \<noteq> fd) (open_fds ?u)" "pf_state.more t = pf_state.more ?u"
    "dom (busy_map t) \<subseteq> dom (busy_map ?u)"
    by (rule close_file_run[where n = 20, OF F(6) pathu low], assumption) (rule that; assumption)
  have run: "RM_create_file path sz s = (Inr (), t)"
    using c(1) fd(1) F(1) t(1) sz by (simp add: RM_create_file_def)
  have r2: "resolve ?s2 path = resolve s path" "resolve ?u path = resolve s path"
    by (simp_all add: resolve_def)
  obtain b' where b': "files t (resolve s path) = Some b'" "length b \<le> length b'"
    "\<And>k. k \<le> 20 \<Longrightarrow> k \<le> length b \<Longrightarrow> take k b' = take k b"
    using t(7) F(2) r2 unfolding prefix_kept_def by force
  have "take 20 b' = ?hb" using b'(3)[of 20] F(3,4) by simp
  then have rf: "rm_file (new_file_header sz) b'"
    using new_file_rm_ok(1)[OF sz] b'(2) F(4) by (simp add: rm_file_def sizeof_RM_FileHeader_def)
  have view: "page_view t q = Some x" if q: "page_view s q = Some x" for q x
  proof -
    obtain g p where qe: "q = PageID g p" by (cases q)
    have v1: "page_view ?s1 q = Some x" using q c(3) by simp
    then have g: "g \<noteq> fd" using unopened_view[OF c(2) fd(3)] qe by auto
    then have "page_view ?s2 q = Some x" using v1 ov(3)[of path g p] qe by simp
    then have "page_view ?u q = Some x" using F(7)[of q x] g qe by auto
    then show ?thesis using t(9)[OF g] qe by simp
  qed
  show ?thesis
  proof (rule that[OF run t(2) _ _ b'(1) rf new_file_rm_ok(2)])
    show "path2fd t = path2fd s" using t(4) cl by (simp add: fun_eq_iff)
    show "cwd t = cwd s" using t(3) by simp
    show "page_view t q = Some x" if "page_view s q = Some x" for q x by (rule view[OF that])
    show op: "open_fds t = open_fds s" using t(11) fd(3) by (simp add: filter_id_conv) force
    show "fd2path t = fd2path s" using t(5) fd(4) by (simp add: fun_eq_iff)
    show "pf_state.more t = pf_state.more s" using t(12) by (simp add: opened_def)
    show "kept {g. fd_path s g \<noteq> None} s t"
      using view op t(13) by (auto simp: kept_def cached_pages_def fd_path_def)
    show "files t f = files s f" if "f \<noteq> resolve s path" "f \<notin> snd ` set (open_fds s)" for f
      using t(10)[of f] F(5)[of f] that r2 r1 by simp
  qed
qed

lemma RM_create_file_size:
  "\<not> (1 \<le> sz \<and> sz \<le> RM_MAX_RECORD_SIZE) \<Longrightarrow>
   RM_create_file path sz s = (Inl (Throw (InvalidRecordSizeError sz)), s)"
  by (simp add: RM_create_file_def)

lemma RM_create_file_exists:
  "fd_map_sem s = 1 \<Longrightarrow> sys_is_reg s path \<Longrightarrow> 1 \<le> sz \<Longrightarrow> sz \<le> RM_MAX_RECORD_SIZE \<Longrightarrow>
   RM_create_file path sz s = (Inl (Throw (FileExistsError path)), s)"
  by (simp add: RM_create_file_def create_file_exists)

end
