(* ===== verification/RecordStore.thy ===== *)
theory RecordStore
  imports RecordManager
begin

text \<open>
  The contract of a record file towards its clients (the table layer, the index builder), as
  a locale over the four operations: the content is a map from record ids to bytes, an
  insertion takes a fresh id, the others act on the id they are given. What a client
  concludes from it (a record reads back, a deleted one is gone, a batch of insertions adds
  exactly its records) is proved here once, and holds for \<open>RM_FileHandle\<close> by interpretation.
\<close>

locale record_store =
  fixes inv :: "'s \<Rightarrow> 'h \<Rightarrow> bool"
    and recs :: "'s \<Rightarrow> 'h \<Rightarrow> 'r \<rightharpoonup> 'v"
    and fits :: "'h \<Rightarrow> 'v \<Rightarrow> bool"
    and room :: "nat \<Rightarrow> 'h \<Rightarrow> bool"
    and rid_ok :: "'h \<Rightarrow> 'r \<Rightarrow> bool"
    and frame :: "'s \<Rightarrow> 'h \<Rightarrow> 's \<Rightarrow> bool"
    and like :: "'h \<Rightarrow> 'h \<Rightarrow> bool"
    and missing :: "'r \<Rightarrow> 'e"
    and insert :: "'h \<Rightarrow> 'v \<Rightarrow> ('s, 'e, 'r \<times> 'h) prog"
    and delete :: "'h \<Rightarrow> 'r \<Rightarrow> ('s, 'e, 'h) prog"
    and lookup :: "'h \<Rightarrow> 'r \<Rightarrow> ('s, 'e, 'v) prog"
    and update :: "'h \<Rightarrow> 'r \<Rightarrow> 'v \<Rightarrow> ('s, 'e, unit) prog"
  assumes dom_ok: "recs s h r \<noteq> None \<Longrightarrow> rid_ok h r"
    and like_refl: "like h h"
    and like_trans: "like h g \<Longrightarrow> like g g2 \<Longrightarrow> like h g2"
    and like_fits: "like h g \<Longrightarrow> fits g = fits h"
    and like_rid: "like h g \<Longrightarrow> rid_ok h r \<Longrightarrow> rid_ok g r"
    and frame_refl: "frame s h s"
    and frame_trans: "frame s h t \<Longrightarrow> like h g \<Longrightarrow> frame t g u \<Longrightarrow> frame s h u"
    and insert_law: "inv s h \<Longrightarrow> room (Suc k) h \<Longrightarrow> fits h v \<Longrightarrow>
      \<exists>r g t. insert h v s = (Inr (r, g), t) \<and> inv t g \<and> recs s h r = None \<and>
        recs t g = (recs s h)(r \<mapsto> v) \<and> room k g \<and> like h g \<and> frame s h t"
    and delete_law: "inv s h \<Longrightarrow> rid_ok h r \<Longrightarrow>
      (if recs s h r = None then \<exists>t. delete h r s = (Inl (missing r), t) \<and> inv t h \<and> recs t h = recs s h \<and> frame s h t
       else \<exists>g t. delete h r s = (Inr g, t) \<and> inv t g \<and> recs t g = (recs s h)(r := None) \<and> like h g \<and> frame s h t)"
    and lookup_law: "inv s h \<Longrightarrow> rid_ok h r \<Longrightarrow>
      \<exists>t. lookup h r s = ((case recs s h r of None \<Rightarrow> Inl (missing r) | Some v \<Rightarrow> Inr v), t) \<and>
        inv t h \<and> recs t h = recs s h \<and> frame s h t"
    and update_law: "inv s h \<Longrightarrow> rid_ok h r \<Longrightarrow> fits h v \<Longrightarrow>
      (if recs s h r = None then \<exists>t. update h r v s = (Inl (missing r), t) \<and> inv t h \<and> recs t h = recs s h \<and> frame s h t
       else \<exists>t. update h r v s = (Inr (), t) \<and> inv t h \<and> recs t h = (recs s h)(r \<mapsto> v) \<and> frame s h t)"
begin

text \<open>A record that was inserted reads back, and every other record reads as before.\<close>

lemma insert_lookup:
  assumes "inv s h" "room (Suc k) h" "fits h v"
  shows "\<exists>r g t u. insert h v s = (Inr (r, g), t) \<and> lookup g r t = (Inr v, u) \<and> inv u g \<and>
    recs u g = (recs s h)(r \<mapsto> v) \<and> recs s h r = None"
proof -
  obtain r g t where t: "insert h v s = (Inr (r, g), t)" "inv t g" "recs s h r = None"
    "recs t g = (recs s h)(r \<mapsto> v)"
    using insert_law[OF assms] by blast
  have "rid_ok g r" using dom_ok[of t g r] t(4) by simp
  from lookup_law[OF t(2) this] obtain u where "lookup g r t = (Inr v, u)" "inv u g" "recs u g = recs t g"
    using t(4) by auto
  then show ?thesis using t by auto
qed

text \<open>Deleting what was just inserted restores the content.\<close>

lemma insert_delete:
  assumes "inv s h" "room (Suc k) h" "fits h v"
  shows "\<exists>r g t g' u. insert h v s = (Inr (r, g), t) \<and> delete g r t = (Inr g', u) \<and> inv u g' \<and>
    recs u g' = recs s h"
proof -
  obtain r g t where t: "insert h v s = (Inr (r, g), t)" "inv t g" "recs s h r = None"
    "recs t g = (recs s h)(r \<mapsto> v)"
    using insert_law[OF assms] by blast
  have "rid_ok g r" using dom_ok[of t g r] t(4) by simp
  from delete_law[OF t(2) this] obtain g' u where "delete g r t = (Inr g', u)" "inv u g'"
    "recs u g' = (recs t g)(r := None)"
    using t(4) by auto
  moreover have "(recs t g)(r := None) = recs s h" using t(3,4) by auto
  ultimately show ?thesis using t(1) by metis
qed

text \<open>After a deletion the id is unknown to every operation.\<close>

lemma delete_gone:
  assumes "inv s h" "recs s h r \<noteq> None"
  shows "\<exists>g t u. delete h r s = (Inr g, t) \<and> lookup g r t = (Inl (missing r), u) \<and>
    inv u g \<and> recs u g = (recs s h)(r := None)"
proof -
  from delete_law[OF assms(1) dom_ok[OF assms(2)]] assms(2) obtain g t where t: "delete h r s = (Inr g, t)"
    "inv t g" "recs t g = (recs s h)(r := None)" "like h g" by auto
  from lookup_law[OF t(2) like_rid[OF t(4) dom_ok[OF assms(2)]]] t(3) show ?thesis
    using t by auto
qed

lemma update_lookup:
  assumes "inv s h" "recs s h r \<noteq> None" "fits h v"
  shows "\<exists>t u. update h r v s = (Inr (), t) \<and> lookup h r t = (Inr v, u) \<and> inv u h \<and>
    recs u h = (recs s h)(r \<mapsto> v)"
proof -
  note ok = dom_ok[OF assms(2)]
  from update_law[OF assms(1) ok assms(3)] assms(2) obtain t where t: "update h r v s = (Inr (), t)"
    "inv t h" "recs t h = (recs s h)(r \<mapsto> v)" by auto
  from lookup_law[OF t(2) ok] t show ?thesis by auto
qed

text \<open>A batch of insertions, threading the handle.\<close>

primrec insert_all :: "'h \<Rightarrow> 'v list \<Rightarrow> ('s, 'e, 'r list \<times> 'h) prog" where
  "insert_all h [] = ret ([], h)"
| "insert_all h (v # vs) = andThen (insert h v) (\<lambda>(r, g).
     andThen (insert_all g vs) (\<lambda>(rs, k). ret (r # rs, k)))"

lemma insert_all_run:
  assumes "inv s h" "room (length vs) h" "\<forall>v \<in> set vs. fits h v"
  shows "\<exists>rs g t. insert_all h vs s = (Inr (rs, g), t) \<and> inv t g \<and> length rs = length vs \<and> distinct rs \<and>
    set rs \<inter> dom (recs s h) = {} \<and> recs t g = (recs s h) ++ map_of (zip rs vs) \<and> like h g \<and> frame s h t"
  using assms
proof (induction vs arbitrary: s h)
  case Nil
  then show ?case by (auto intro: like_refl frame_refl)
next
  case (Cons v vs)
  have r: "room (Suc (length vs)) h" and v: "fits h v" using Cons.prems by auto
  obtain r g t where t: "insert h v s = (Inr (r, g), t)" "inv t g" "recs s h r = None"
    "recs t g = (recs s h)(r \<mapsto> v)" "room (length vs) g" "like h g" "frame s h t"
    using insert_law[OF Cons.prems(1) r v] by blast
  obtain rs k u where u: "insert_all g vs t = (Inr (rs, k), u)" "inv u k" "length rs = length vs" "distinct rs"
    "set rs \<inter> dom (recs t g) = {}" "recs u k = (recs t g) ++ map_of (zip rs vs)" "like g k" "frame t g u"
    using Cons.IH[OF t(2,5)] Cons.prems(3) like_fits[OF t(6)] by auto
  have nin: "r \<notin> set rs" using u(5) t(4) by auto
  have "insert_all h (v # vs) s = (Inr (r # rs, k), u)" using t(1) u(1) by simp
  moreover have "recs u k = (recs s h) ++ map_of (zip (r # rs) (v # vs))"
  proof -
    have "map_of (zip rs vs) r = None" using nin u(3) by (simp add: map_of_zip_is_None)
    then show ?thesis using u(6) t(4) by (auto simp: fun_eq_iff map_add_def split: option.split)
  qed
  moreover have "set (r # rs) \<inter> dom (recs s h) = {}" using u(5) t(3,4) by auto
  ultimately show ?case
    using u(2-4) nin like_trans[OF t(6) u(7)] frame_trans[OF t(7,6) u(8)] by auto
qed

end

section \<open>The record file is such a store\<close>

definition rec_fits :: "RM_FileHandle \<Rightarrow> byte list \<Rightarrow> bool" where
  "rec_fits fh data \<longleftrightarrow> length data = nat (record_size (fh_hdr fh))"

definition rec_room :: "nat \<Rightarrow> RM_FileHandle \<Rightarrow> bool" where
  "rec_room k fh \<longleftrightarrow> num_pages (fh_hdr fh) + int k \<le> 524288"

definition rec_frame :: "'z pf_state_scheme \<Rightarrow> RM_FileHandle \<Rightarrow> 'z pf_state_scheme \<Rightarrow> bool" where
  "rec_frame s fh t \<longleftrightarrow> rm_frame s (fh_fd fh) t"

definition same_rec_file :: "RM_FileHandle \<Rightarrow> RM_FileHandle \<Rightarrow> bool" where
  "same_rec_file fh gh \<longleftrightarrow> fh_fd gh = fh_fd fh \<and> same_layout (fh_hdr fh) (fh_hdr gh) \<and>
     num_pages (fh_hdr fh) \<le> num_pages (fh_hdr gh)"

definition rec_missing :: "RecordID \<Rightarrow> stop" where
  "rec_missing rid = Throw (RecordNotFoundError (rid_page rid) (rid_slot rid))"

lemma insert_record_law:
  assumes wf: "rm_wf s fh" and room: "rec_room (Suc k) fh" and fits: "rec_fits fh data"
  shows "\<exists>rid gh t. insert_record fh data s = (Inr (rid, gh), t) \<and> rm_wf t gh \<and> rm_recs s fh rid = None \<and>
    rm_recs t gh = (rm_recs s fh)(rid \<mapsto> data) \<and> rec_room k gh \<and> same_rec_file fh gh \<and> rec_frame s fh t"
proof -
  have can: "can_insert fh" using room by (simp add: can_insert_def rec_room_def)
  obtain rid gh t where t: "insert_record fh data s = (Inr (rid, gh), t)" "rm_wf t gh" "valid_rid gh rid"
    "rm_recs s fh rid = None" "rm_recs t gh = (rm_recs s fh)(rid \<mapsto> data)" "rm_frame s (fh_fd fh) t"
    "fh_fd gh = fh_fd fh" "same_layout (fh_hdr fh) (fh_hdr gh)" "num_pages (fh_hdr gh) \<le> num_pages (fh_hdr fh) + 1"
    "num_pages (fh_hdr fh) \<le> num_pages (fh_hdr gh)"
    by (rule insert_record_run[OF wf can fits[unfolded rec_fits_def]])
  have "rec_room k gh" using room t(9) by (simp add: rec_room_def)
  with t show ?thesis by (simp add: rec_frame_def same_rec_file_def)
qed

interpretation rs: record_store rm_wf rm_recs rec_fits rec_room valid_rid rec_frame same_rec_file rec_missing
  insert_record delete_record get_record update_record
proof (unfold_locales, goal_cases)
  case (1 s h r)
  then show ?case by (intro dom_rm_recs) auto
next
  case (5 h g r)
  then show ?case by (auto simp: same_rec_file_def valid_rid_def data_page_def same_layout_def)
next
  case (7 s h t g u)
  then show ?case using rm_frame_trans by (auto simp: rec_frame_def same_rec_file_def)
next
  case (8 s h k v)
  then show ?case by (rule insert_record_law)
next
  case (9 s h r)
  show ?case
  proof (cases "rm_recs s h r = None")
    case True
    obtain t where "delete_record h r s = (Inl (Throw (RecordNotFoundError (rid_page r) (rid_slot r))), t)"
      "rm_wf t h" "rm_recs t h = rm_recs s h" "rm_frame s (fh_fd h) t"
      using update_record_absent[OF 9 True] by metis
    then show ?thesis using True by (simp add: rec_missing_def rec_frame_def)
  next
    case False
    obtain g t where "delete_record h r s = (Inr g, t)" "rm_wf t g" "rm_recs t g = (rm_recs s h)(r := None)"
      "rm_frame s (fh_fd h) t" "fh_fd g = fh_fd h" "same_layout (fh_hdr h) (fh_hdr g)"
      "num_pages (fh_hdr g) = num_pages (fh_hdr h)"
      by (rule delete_record_run[OF 9 False])
    then show ?thesis using False by (simp add: rec_frame_def same_rec_file_def)
  qed
next
  case (10 s h r)
  obtain t where "get_record h r s = ((case rm_recs s h r of Some x \<Rightarrow> Inr x
      | None \<Rightarrow> Inl (Throw (RecordNotFoundError (rid_page r) (rid_slot r)))), t)" "rm_wf t h"
    "rm_recs t h = rm_recs s h" "rm_frame s (fh_fd h) t"
    by (rule get_record_run[OF 10])
  then show ?case by (intro exI[of _ t]) (simp add: rec_missing_def rec_frame_def split: option.split)
next
  case (11 s h r v)
  show ?case
  proof (cases "rm_recs s h r = None")
    case True
    obtain t where "update_record h r v s = (Inl (Throw (RecordNotFoundError (rid_page r) (rid_slot r))), t)"
      "rm_wf t h" "rm_recs t h = rm_recs s h" "rm_frame s (fh_fd h) t"
      using update_record_absent[OF 11(1,2) True] by metis
    then show ?thesis using True by (simp add: rec_missing_def rec_frame_def)
  next
    case False
    obtain t where "update_record h r v s = (Inr (), t)" "rm_wf t h" "rm_recs t h = (rm_recs s h)(r \<mapsto> v)"
      "rm_frame s (fh_fd h) t"
      by (rule update_record_run[OF 11(1,2) False 11(3)[unfolded rec_fits_def]])
    then show ?thesis using False by (simp add: rec_frame_def)
  qed
qed (auto simp: same_rec_file_def same_layout_def rec_fits_def[abs_def] rec_frame_def)

end
