(* ===== verification/ByteArray.thy ===== *)
theory ByteArray
  imports Bytes
begin

text \<open>
  Arrays of fixed-width elements inside a region, and the two shifts the index node code
  does on them: \<open>memmove\<close> up and \<open>memcpy\<close> to insert, \<open>memmove\<close> down to erase. The lemmas
  say that they are insertion into and deletion from the list of elements.
\<close>

definition arr :: "byte list \<Rightarrow> nat \<Rightarrow> nat \<Rightarrow> nat \<Rightarrow> byte list list" where
  "arr b o0 w n = map (\<lambda>i. load b (o0 + i * w) w) [0..<n]"

definition arr_insert :: "byte list \<Rightarrow> nat \<Rightarrow> nat \<Rightarrow> nat \<Rightarrow> nat \<Rightarrow> byte list \<Rightarrow> nat \<Rightarrow> byte list" where
  "arr_insert b o0 w c pos src n =
     store (memmove b (o0 + (pos + n) * w) (o0 + pos * w) ((c - pos) * w)) (o0 + pos * w) (take (n * w) src)"

definition arr_erase :: "byte list \<Rightarrow> nat \<Rightarrow> nat \<Rightarrow> nat \<Rightarrow> nat \<Rightarrow> byte list" where
  "arr_erase b o0 w c pos = memmove b (o0 + pos * w) (o0 + (pos + 1) * w) ((c - pos - 1) * w)"

lemma elem_le: "i < n \<Longrightarrow> i * w + w \<le> n * (w :: nat)"
  using mult_le_mono1[of "Suc i" n w] by simp

lemma length_arr [simp]: "length (arr b o0 w n) = n"
  by (simp add: arr_def)

lemma nth_arr: "i < n \<Longrightarrow> arr b o0 w n ! i = load b (o0 + i * w) w"
  by (simp add: arr_def)

lemma arr_width: "o0 + n * w \<le> length b \<Longrightarrow> x \<in> set (arr b o0 w n) \<Longrightarrow> length x = w"
proof -
  assume b: "o0 + n * w \<le> length b" and x: "x \<in> set (arr b o0 w n)"
  then obtain i where i: "i < n" "x = load b (o0 + i * w) w" by (auto simp: arr_def)
  have "Suc i * w \<le> n * w" using i(1) by (intro mult_le_mono1) simp
  then show "length x = w" using i(2) b by (simp add: length_load)
qed

lemma arr_cong:
  assumes "\<And>i. i < n \<Longrightarrow> load b (o0 + i * w) w = load b' (o0 + i * w) w"
  shows "arr b o0 w n = arr b' o0 w n"
  using assms by (simp add: arr_def)

text \<open>Shifted source ranges.\<close>

lemma load_load: "i + k \<le> n \<Longrightarrow> load (load b off n) i k = load b (off + i) k"
  by (simp add: load_def drop_take min_def add.commute)

lemma load_take: "i + k \<le> n \<Longrightarrow> load (take n b) i k = load b i k"
  by (simp add: load_def drop_take min_def)

lemma load_store_within:
  assumes "off \<le> o1" "o1 + n \<le> off + length xs" "off + length xs \<le> length b"
  shows "load (store b off xs) o1 n = load xs (o1 - off) n"
proof -
  have "load (store b off xs) o1 n = load (load (store b off xs) off (length xs)) (o1 - off) n"
    using assms by (subst load_load) simp_all
  then show ?thesis using assms by (simp add: load_store_same)
qed

lemma split_mult: "pos \<le> c \<Longrightarrow> pos * w + (c - pos) * w = c * (w :: nat)"
  by (metis add_mult_distrib le_add_diff_inverse)

text \<open>The ranges an insertion moves lie inside the array of the new size.\<close>

lemma arr_insert_ranges:
  assumes "o0 + (c + n) * w \<le> length b" "pos \<le> c"
  shows "o0 + (pos + n) * w + (c - pos) * w = o0 + (c + n) * w"
    "o0 + pos * w + (c - pos) * w \<le> length b" "o0 + pos * w + n * w \<le> length b"
    "length (memmove b (o0 + (pos + n) * w) (o0 + pos * w) ((c - pos) * w)) = length b"
proof -
  note s = split_mult[OF assms(2), of w]
  have d: "(pos + n) * w = pos * w + n * w" "(c + n) * w = c * w + n * w" by (simp_all add: add_mult_distrib)
  have "o0 + (pos + n) * w + (c - pos) * w = o0 + (pos * w + (c - pos) * w) + n * w"
    unfolding d by (simp only: add.assoc add.commute add.left_commute)
  then show 1: "o0 + (pos + n) * w + (c - pos) * w = o0 + (c + n) * w"
    unfolding s d by (simp only: add.assoc add.commute add.left_commute)
  have "o0 + pos * w + (c - pos) * w = o0 + c * w" unfolding s[symmetric] by (simp only: add.assoc)
  then show 2: "o0 + pos * w + (c - pos) * w \<le> length b" using assms(1) d(2) by (metis add_leD1 add.assoc)
  have "o0 + pos * w + n * w \<le> o0 + c * w + n * w"
    using mult_le_mono1[OF assms(2), of w] by (intro add_mono order.refl)
  also have "\<dots> = o0 + (c + n) * w" unfolding d by (simp only: add.assoc)
  finally show "o0 + pos * w + n * w \<le> length b" using assms(1) by (rule order.trans)
  show "length (memmove b (o0 + (pos + n) * w) (o0 + pos * w) ((c - pos) * w)) = length b"
    using 1 2 assms(1) by (intro length_memmove) simp_all
qed

lemma arr_insert_length:
  assumes "o0 + (c + n) * w \<le> length b" "pos \<le> c" "n * w \<le> length src"
  shows "length (arr_insert b o0 w c pos src n) = length b"
  using arr_insert_ranges[OF assms(1,2)] assms(3) by (simp add: arr_insert_def length_store)

lemma arr_insert_outside:
  assumes "o0 + (c + n) * w \<le> length b" "pos \<le> c" "n * w \<le> length src"
    and out: "o1 + k \<le> o0 \<or> o0 + (c + n) * w \<le> o1"
  shows "load (arr_insert b o0 w c pos src n) o1 k = load b o1 k"
proof -
  note r = arr_insert_ranges[OF assms(1,2)]
  let ?m = "memmove b (o0 + (pos + n) * w) (o0 + pos * w) ((c - pos) * w)"
  have lt: "length (take (n * w) src) = n * w" using assms(3) by simp
  have ll: "length (load b (o0 + pos * w) ((c - pos) * w)) = (c - pos) * w" using r(2) by (rule length_load)
  have d: "(pos + n) * w = pos * w + n * w" by (simp add: add_mult_distrib)
  from out show ?thesis
  proof
    assume o: "o1 + k \<le> o0"
    have "load (arr_insert b o0 w c pos src n) o1 k = load ?m o1 k"
      unfolding arr_insert_def using o r(3,4) by (intro load_store_before) simp_all
    also have "\<dots> = load b o1 k"
      unfolding memmove_def using o r(1) assms(1) by (intro load_store_before) linarith+
    finally show ?thesis .
  next
    assume o: "o0 + (c + n) * w \<le> o1"
    have "load (arr_insert b o0 w c pos src n) o1 k = load ?m o1 k"
      unfolding arr_insert_def using o r d lt by (intro load_store_after) linarith+
    also have "\<dots> = load b o1 k"
      unfolding memmove_def using o r(1) ll assms(1) by (intro load_store_after) linarith+
    finally show ?thesis .
  qed
qed

lemma arr_insert_elems:
  assumes b: "o0 + (c + n) * w \<le> length b" and pos: "pos \<le> c" and src: "n * w \<le> length src"
  shows "arr (arr_insert b o0 w c pos src n) o0 w (c + n)
       = take pos (arr b o0 w c) @ arr src 0 w n @ drop pos (arr b o0 w c)"
proof (rule nth_equalityI)
  let ?m = "memmove b (o0 + (pos + n) * w) (o0 + pos * w) ((c - pos) * w)"
  let ?b = "arr_insert b o0 w c pos src n"
  note r = arr_insert_ranges[OF b pos]
  have lt: "length (take (n * w) src) = n * w" using src by simp
  have ll: "length (load b (o0 + pos * w) ((c - pos) * w)) = (c - pos) * w" using r(2) by (rule length_load)
  have d: "(pos + n) * w = pos * w + n * w" by (simp add: add_mult_distrib)
  show "length (arr ?b o0 w (c + n)) = length (take pos (arr b o0 w c) @ arr src 0 w n @ drop pos (arr b o0 w c))"
    using pos by simp
  fix i assume "i < length (arr ?b o0 w (c + n))"
  then have i: "i < c + n" by simp
  have iw: "i * w + w \<le> (c + n) * w" using mult_le_mono1[of "Suc i" "c + n" w] i by simp
  consider "i < pos" | "pos \<le> i" "i < pos + n" | "pos + n \<le> i" by linarith
  then show "arr ?b o0 w (c + n) ! i = (take pos (arr b o0 w c) @ arr src 0 w n @ drop pos (arr b o0 w c)) ! i"
  proof cases
    case 1
    have e: "i * w + w \<le> pos * w" using mult_le_mono1[of "Suc i" pos w] 1 by simp
    have "load ?b (o0 + i * w) w = load ?m (o0 + i * w) w"
      unfolding arr_insert_def using e r(3,4) by (intro load_store_before) linarith+
    also have "\<dots> = load b (o0 + i * w) w"
      unfolding memmove_def using e r(1) b d by (intro load_store_before) linarith+
    finally show ?thesis using 1 i pos by (simp add: nth_arr nth_append)
  next
    case 2
    have e1: "pos * w \<le> i * w" using 2 by simp
    have e2: "i * w + w \<le> (pos + n) * w" using mult_le_mono1[of "Suc i" "pos + n" w] 2 by simp
    have "load ?b (o0 + i * w) w = load (take (n * w) src) (o0 + i * w - (o0 + pos * w)) w"
      unfolding arr_insert_def using e1 e2 r(3,4) lt d by (intro load_store_within) linarith+
    also have "\<dots> = load src ((i - pos) * w) w"
    proof -
      have "o0 + i * w - (o0 + pos * w) = (i - pos) * w" by (simp add: diff_mult_distrib)
      moreover have "(i - pos) * w + w \<le> n * w" using 2 by (intro elem_le) linarith
      ultimately show ?thesis by (simp add: load_take)
    qed
    finally have "load ?b (o0 + i * w) w = load src ((i - pos) * w) w" .
    moreover have "i - pos < n" using 2 by linarith
    ultimately show ?thesis using 2 i pos by (simp add: nth_arr nth_append)
  next
    case 3
    have e1: "(pos + n) * w \<le> i * w" using 3 by simp
    have "load ?b (o0 + i * w) w = load ?m (o0 + i * w) w"
      unfolding arr_insert_def using e1 r(3,4) lt d by (intro load_store_after) linarith+
    also have "\<dots> = load (load b (o0 + pos * w) ((c - pos) * w)) (o0 + i * w - (o0 + (pos + n) * w)) w"
      unfolding memmove_def using e1 iw r(1) b ll by (intro load_store_within) linarith+
    also have "\<dots> = load b (o0 + (i - n) * w) w"
    proof -
      have "o0 + i * w - (o0 + (pos + n) * w) = (i - (pos + n)) * w"
        by (simp add: diff_mult_distrib)
      moreover have "(i - (pos + n)) * w + w \<le> (c - pos) * w"
        using i 3 by (intro elem_le) linarith
      moreover have "o0 + pos * w + (i - (pos + n)) * w = o0 + (i - n) * w"
      proof -
        have "pos + (i - (pos + n)) = i - n" using 3 by simp
        then show ?thesis by (metis add.assoc distrib_right)
      qed
      ultimately show ?thesis by (simp only: load_load)
    qed
    finally have "load ?b (o0 + i * w) w = load b (o0 + (i - n) * w) w" .
    moreover have "\<not> i - pos < n" using 3 by linarith
    ultimately show ?thesis using 3 i pos by (simp add: nth_arr nth_append)
  qed
qed

text \<open>Erasing.\<close>

lemma arr_erase_ranges:
  assumes "o0 + c * w \<le> length b" "pos < c"
  shows "o0 + (pos + 1) * w + (c - pos - 1) * w = o0 + c * w"
    "o0 + pos * w + (c - pos - 1) * w = o0 + (c - 1) * w" "o0 + (c - 1) * w \<le> length b"
    "length (arr_erase b o0 w c pos) = length b"
proof -
  show 1: "o0 + (pos + 1) * w + (c - pos - 1) * w = o0 + c * w"
    using split_mult[of "pos + 1" c w] assms(2) by simp
  show 2: "o0 + pos * w + (c - pos - 1) * w = o0 + (c - 1) * w"
  proof -
    have "c - 1 - pos = c - pos - 1" by simp
    then show ?thesis using split_mult[of pos "c - 1" w] assms(2) by simp
  qed
  have "(c - 1) * w \<le> c * w" by (intro mult_le_mono1) simp
  then show 3: "o0 + (c - 1) * w \<le> length b" using assms(1) by linarith
  show "length (arr_erase b o0 w c pos) = length b"
    unfolding arr_erase_def using 1 2 3 assms(1) by (intro length_memmove) simp_all
qed

lemma arr_erase_outside:
  assumes "o0 + c * w \<le> length b" "pos < c" and out: "o1 + k \<le> o0 \<or> o0 + c * w \<le> o1"
  shows "load (arr_erase b o0 w c pos) o1 k = load b o1 k"
proof -
  note r = arr_erase_ranges[OF assms(1,2)]
  have src: "o0 + (pos + 1) * w + (c - pos - 1) * w \<le> length b" using r(1) assms(1) by simp
  note ll = length_load[OF src]
  have m: "(c - 1) * w \<le> c * w" by (intro mult_le_mono1) simp
  from out show ?thesis
  proof
    assume "o1 + k \<le> o0"
    then show ?thesis
      unfolding arr_erase_def memmove_def using r(2,3) by (intro load_store_before) linarith+
  next
    assume "o0 + c * w \<le> o1"
    then show ?thesis
      unfolding arr_erase_def memmove_def using r(2,3) ll m by (intro load_store_after) linarith+
  qed
qed

lemma arr_erase_elems:
  assumes b: "o0 + c * w \<le> length b" and pos: "pos < c"
  shows "arr (arr_erase b o0 w c pos) o0 w (c - 1) = take pos (arr b o0 w c) @ drop (Suc pos) (arr b o0 w c)"
proof (rule nth_equalityI)
  let ?b = "arr_erase b o0 w c pos"
  note r = arr_erase_ranges[OF b pos]
  have src: "o0 + (pos + 1) * w + (c - pos - 1) * w \<le> length b" using r(1) b by simp
  note ll = length_load[OF src]
  show "length (arr ?b o0 w (c - 1)) = length (take pos (arr b o0 w c) @ drop (Suc pos) (arr b o0 w c))"
    using pos by simp
  fix i assume "i < length (arr ?b o0 w (c - 1))"
  then have i: "i < c - 1" by simp
  have iw: "i * w + w \<le> (c - 1) * w" using mult_le_mono1[of "Suc i" "c - 1" w] i by simp
  show "arr ?b o0 w (c - 1) ! i = (take pos (arr b o0 w c) @ drop (Suc pos) (arr b o0 w c)) ! i"
  proof (cases "i < pos")
    case True
    have "i * w + w \<le> pos * w" using mult_le_mono1[of "Suc i" pos w] True by simp
    then have "load ?b (o0 + i * w) w = load b (o0 + i * w) w"
      unfolding arr_erase_def memmove_def using r(2,3) by (intro load_store_before) linarith+
    then show ?thesis using True i pos by (simp add: nth_arr nth_append)
  next
    case False
    have e: "pos * w \<le> i * w" using False by simp
    have "load ?b (o0 + i * w) w = load (load b (o0 + (pos + 1) * w) ((c - pos - 1) * w)) (o0 + i * w - (o0 + pos * w)) w"
      unfolding arr_erase_def memmove_def using e iw r(2,3) ll by (intro load_store_within) linarith+
    also have "\<dots> = load b (o0 + Suc i * w) w"
    proof -
      have "o0 + i * w - (o0 + pos * w) = (i - pos) * w" by (simp add: diff_mult_distrib)
      moreover have "(i - pos) * w + w \<le> (c - pos - 1) * w"
        using i False by (intro elem_le) linarith
      moreover have "o0 + (pos + 1) * w + (i - pos) * w = o0 + Suc i * w"
      proof -
        have "pos + 1 + (i - pos) = Suc i" using False by simp
        then show ?thesis by (metis add.assoc distrib_right)
      qed
      ultimately show ?thesis by (simp only: load_load)
    qed
    finally show ?thesis using False i pos by (simp add: nth_arr nth_append)
  qed
qed

text \<open>Overwriting one element.\<close>

lemma arr_store_elem:
  assumes b: "o0 + c * w \<le> length b" and pos: "pos < c" and x: "length x = w"
  shows "arr (store b (o0 + pos * w) x) o0 w c = (arr b o0 w c)[pos := x]"
proof (rule nth_equalityI)
  fix i assume "i < length (arr (store b (o0 + pos * w) x) o0 w c)"
  then have i: "i < c" by simp
  have pw: "pos * w + w \<le> c * w" "i * w + w \<le> c * w"
    using mult_le_mono1[of "Suc pos" c w] mult_le_mono1[of "Suc i" c w] pos i by simp_all
  consider "i = pos" | "i < pos" | "pos < i" by linarith
  then show "arr (store b (o0 + pos * w) x) o0 w c ! i = (arr b o0 w c)[pos := x] ! i"
  proof cases
    case 1
    then show ?thesis using pos x b pw by (simp add: nth_arr load_store_same_n)
  next
    case 2
    have "i * w + w \<le> pos * w" using mult_le_mono1[of "Suc i" pos w] 2 by simp
    then have "load (store b (o0 + pos * w) x) (o0 + i * w) w = load b (o0 + i * w) w"
      using b pw by (intro load_store_before) linarith+
    then show ?thesis using 2 i by (simp add: nth_arr)
  next
    case 3
    have "pos * w + w \<le> i * w" using mult_le_mono1[of "Suc pos" i w] 3 by simp
    then have "load (store b (o0 + pos * w) x) (o0 + i * w) w = load b (o0 + i * w) w"
      using b pw x by (intro load_store_after) linarith+
    then show ?thesis using 3 i by (simp add: nth_arr)
  qed
qed simp

end
