(* ===== verification/TextIO.thy ===== *)
theory TextIO
  imports Prelude
begin

text \<open>
  What the sources use of text streams: \<open>operator<<\<close> on integers appends decimal digits
  (\<open>int_to_string\<close>), \<open>operator>>\<close> skips white space and reads an integer, a character or a
  word. A stream being read is the rest of its text; \<open>None\<close> is a stream whose fail bit is
  set, on which nothing more is read.
\<close>

definition is_space :: "char \<Rightarrow> bool" where
  "is_space c \<longleftrightarrow> c \<in> set [CHR '' '', CHR 0x09, CHR 0x0A, CHR 0x0B, CHR 0x0C, CHR 0x0D]"

definition is_digit :: "char \<Rightarrow> bool" where
  "is_digit c \<longleftrightarrow> 48 \<le> (of_char c :: nat) \<and> (of_char c :: nat) \<le> 57"

definition skip_ws :: "string \<Rightarrow> string" where
  "skip_ws = dropWhile is_space"

definition digit_val :: "char \<Rightarrow> nat" where
  "digit_val c = of_char c - 48"

fun digits_val :: "nat \<Rightarrow> string \<Rightarrow> nat" where
  "digits_val acc [] = acc"
| "digits_val acc (c # cs) = digits_val (acc * 10 + digit_val c) cs"

text \<open>\<open>in >> i\<close> for an \<open>int\<close>: an optional sign and digits; no digits or overflow fail.\<close>

definition extract_nat :: "string \<Rightarrow> (nat \<times> string) option" where
  "extract_nat s = (let ds = takeWhile is_digit s in
     if ds = [] then None else Some (digits_val 0 ds, dropWhile is_digit s))"

definition extract_int :: "string \<Rightarrow> (int \<times> string) option" where
  "extract_int s0 = (let s = skip_ws s0;
       neg = (s \<noteq> [] \<and> hd s = CHR ''-'');
       body = (if s \<noteq> [] \<and> (hd s = CHR ''-'' \<or> hd s = CHR ''+'') then tl s else s)
     in case extract_nat body of None \<Rightarrow> None
        | Some (n, rest) \<Rightarrow> let i = (if neg then - int n else int n) in
            if int_ok i then Some (i, rest) else None)"

definition extract_char :: "string \<Rightarrow> (char \<times> string) option" where
  "extract_char s0 = (case skip_ws s0 of [] \<Rightarrow> None | c # rest \<Rightarrow> Some (c, rest))"

definition extract_word :: "string \<Rightarrow> (string \<times> string) option" where
  "extract_word s0 = (let s = skip_ws s0; w = takeWhile (\<lambda>c. \<not> is_space c) s in
     if w = [] then None else Some (w, dropWhile (\<lambda>c. \<not> is_space c) s))"

section \<open>Reading back what was printed\<close>

lemma of_char_digit [simp]: "d < 10 \<Longrightarrow> (of_char (digit_char d) :: nat) = 48 + d"
  by (simp add: digit_char_def)

lemma is_digit_digit [simp]: "d < 10 \<Longrightarrow> is_digit (digit_char d)"
  by (simp add: is_digit_def)

lemma digit_val_digit [simp]: "d < 10 \<Longrightarrow> digit_val (digit_char d) = d"
  by (simp add: digit_val_def)

lemma digit_char_ne: "d < 10 \<Longrightarrow> (of_char c :: nat) < 48 \<Longrightarrow> digit_char d \<noteq> c"
  using of_char_digit[of d] by auto

lemma digit_not_sign:
  assumes "d < 10"
  shows "digit_char d \<noteq> CHR ''-''" "digit_char d \<noteq> CHR ''+''" "\<not> is_space (digit_char d)"
  using digit_char_ne[OF assms] by (auto simp: is_space_def)

lemma digits_nat_to_string:
  "list_all is_digit (nat_to_string n)" "digits_val 0 (nat_to_string n) = n"
  "\<exists>d ds. nat_to_string n = digit_char d # ds \<and> d < 10"
proof -
  have app: "digits_val acc (xs @ ys) = digits_val (digits_val acc xs) ys" for acc xs ys
    by (induction xs arbitrary: acc) simp_all
  have "list_all is_digit (nat_to_string n) \<and> digits_val 0 (nat_to_string n) = n \<and>
      (\<exists>d ds. nat_to_string n = digit_char d # ds \<and> d < 10)"
  proof (induction n rule: nat_to_string.induct)
    case (1 n)
    show ?case
    proof (cases "n < 10")
      case True
      then show ?thesis by (subst (1 2 3) nat_to_string.simps) auto
    next
      case False
      then have IH: "list_all is_digit (nat_to_string (n div 10))" "digits_val 0 (nat_to_string (n div 10)) = n div 10"
        "\<exists>d ds. nat_to_string (n div 10) = digit_char d # ds \<and> d < 10" using 1 by auto
      have "n mod 10 < 10" by simp
      then show ?thesis
        using False IH by (subst (1 2 3) nat_to_string.simps) (auto simp: app)
    qed
  qed
  then show "list_all is_digit (nat_to_string n)" "digits_val 0 (nat_to_string n) = n"
    "\<exists>d ds. nat_to_string n = digit_char d # ds \<and> d < 10" by auto
qed

lemma extract_nat_print:
  assumes "rest = [] \<or> \<not> is_digit (hd rest)"
  shows "extract_nat (nat_to_string n @ rest) = Some (n, rest)"
proof -
  have all: "\<And>c. c \<in> set (nat_to_string n) \<Longrightarrow> is_digit c"
    using digits_nat_to_string(1)[of n] by (simp add: list_all_iff)
  have "takeWhile is_digit (nat_to_string n @ rest) = nat_to_string n"
    using all assms by (cases rest) (simp_all add: takeWhile_append)
  moreover have "dropWhile is_digit (nat_to_string n @ rest) = rest"
    using all assms by (cases rest) (simp_all add: dropWhile_append)
  ultimately show ?thesis by (simp add: extract_nat_def digits_nat_to_string(2))
qed

lemma extract_int_print:
  assumes "int_ok i" "rest = [] \<or> \<not> is_digit (hd rest)"
  shows "extract_int (int_to_string i @ rest) = Some (i, rest)"
proof -
  obtain d ds where d: "nat_to_string (nat \<bar>i\<bar>) = digit_char d # ds" "d < 10"
    using digits_nat_to_string(3) by blast
  note ns = digit_not_sign[OF d(2)]
  have nr: "extract_nat (nat_to_string (nat \<bar>i\<bar>) @ rest) = Some (nat \<bar>i\<bar>, rest)"
    using assms(2) by (rule extract_nat_print)
  show ?thesis
  proof (cases "i < 0")
    case True
    then have "int_to_string i @ rest = CHR ''-'' # (nat_to_string (nat \<bar>i\<bar>) @ rest)"
      by (simp add: int_to_string_def)
    then show ?thesis
      using True nr assms(1) by (simp add: extract_int_def skip_ws_def is_space_def Let_def)
  next
    case False
    then have "int_to_string i @ rest = nat_to_string (nat \<bar>i\<bar>) @ rest" by (simp add: int_to_string_def)
    then show ?thesis
      using False nr assms(1) d(1) ns by (simp add: extract_int_def skip_ws_def Let_def)
  qed
qed

lemma nat_to_string_small: "n < 10 \<Longrightarrow> nat_to_string n = [digit_char n]"
  by (simp add: nat_to_string.simps)

end
