(* ===== verification/DateTime.thy ===== *)
theory DateTime
  imports TextIO DbDefs
begin

text \<open>
  \<open>datetime.h\<close>: the \<open>DATETIME\<close> values. \<open>getTimestamp\<close> computes in \<open>int\<close> and only then widens to
  \<open>long long\<close>, so every product and partial sum must fit \<open>int\<close>; the model makes leaving the
  range \<open>Undefined\<close>. The lemmas characterise the validation functions, show that reading a
  printed value back loses the first digit of the hour, and that the order by timestamp does
  not separate all values.
\<close>

record DateTime =
  day :: int
  month :: int
  year :: int
  hour :: int
  minute :: int
  second :: int

definition dt_eq :: "DateTime \<Rightarrow> DateTime \<Rightarrow> bool" where
  "dt_eq x y \<longleftrightarrow> day x = day y \<and> month x = month y \<and> year x = year y \<and>
     hour x = hour y \<and> minute x = minute y \<and> second x = second y"

definition dt_neq :: "DateTime \<Rightarrow> DateTime \<Rightarrow> bool" where
  "dt_neq x y \<longleftrightarrow> day x \<noteq> day y \<or> month x \<noteq> month y \<or> year x \<noteq> year y \<or>
     hour x \<noteq> hour y \<or> minute x \<noteq> minute y \<or> second x \<noteq> second y"

text \<open>The terms of \<open>getTimestamp\<close> and the partial sums, from left to right.\<close>

definition ts_terms :: "DateTime \<Rightarrow> int list" where
  "ts_terms dt = [year dt * 365 * 24 * 60 * 60, month dt * 30 * 24 * 60 * 60, day dt * 24 * 60 * 60,
     hour dt * 60 * 60, minute dt * 60, second dt]"

fun partial_sums :: "int \<Rightarrow> int list \<Rightarrow> int list" where
  "partial_sums acc [] = []"
| "partial_sums acc (x # xs) = (acc + x) # partial_sums (acc + x) xs"

definition getTimestamp :: "DateTime \<Rightarrow> stop + int" where
  "getTimestamp dt = (if list_all int_ok (ts_terms dt) \<and> list_all int_ok (partial_sums 0 (ts_terms dt))
     then Inr (sum_list (ts_terms dt)) else Inl Undefined)"

definition dt_compare :: "(int \<Rightarrow> int \<Rightarrow> bool) \<Rightarrow> DateTime \<Rightarrow> DateTime \<Rightarrow> stop + bool" where
  "dt_compare op x y = (case getTimestamp x of Inl e \<Rightarrow> Inl e
     | Inr a \<Rightarrow> (case getTimestamp y of Inl e \<Rightarrow> Inl e | Inr b \<Rightarrow> Inr (op a b)))"

definition dt_less :: "DateTime \<Rightarrow> DateTime \<Rightarrow> stop + bool" where
  "dt_less = dt_compare (<)"

definition dt_greater :: "DateTime \<Rightarrow> DateTime \<Rightarrow> stop + bool" where
  "dt_greater = dt_compare (>)"

definition dt_less_eq :: "DateTime \<Rightarrow> DateTime \<Rightarrow> stop + bool" where
  "dt_less_eq = dt_compare (\<le>)"

definition dt_greater_eq :: "DateTime \<Rightarrow> DateTime \<Rightarrow> stop + bool" where
  "dt_greater_eq = dt_compare (\<ge>)"

definition DTtoString :: "DateTime \<Rightarrow> string" where
  "DTtoString dt = int_to_string (day dt) @ ''-'' @ int_to_string (month dt) @ ''-'' @
     int_to_string (year dt) @ '' '' @ int_to_string (hour dt) @ '':'' @
     int_to_string (minute dt) @ '':'' @ int_to_string (second dt)"

text \<open>\<open>operator>>\<close>: six integers with a character read after each of the first five.\<close>

definition int_then_char :: "string \<Rightarrow> (int \<times> string) option" where
  "int_then_char s = (case extract_int s of None \<Rightarrow> None
     | Some (i, r) \<Rightarrow> (case extract_char r of None \<Rightarrow> None | Some (c, r') \<Rightarrow> Some (i, r')))"

definition read_DateTime :: "string \<Rightarrow> (DateTime \<times> string) option" where
  "read_DateTime s =
     (case int_then_char s of None \<Rightarrow> None | Some (d, s1) \<Rightarrow>
     (case int_then_char s1 of None \<Rightarrow> None | Some (m, s2) \<Rightarrow>
     (case int_then_char s2 of None \<Rightarrow> None | Some (y, s3) \<Rightarrow>
     (case int_then_char s3 of None \<Rightarrow> None | Some (h, s4) \<Rightarrow>
     (case int_then_char s4 of None \<Rightarrow> None | Some (mi, s5) \<Rightarrow>
     (case extract_int s5 of None \<Rightarrow> None | Some (se, s6) \<Rightarrow>
       Some (\<lparr>day = d, month = m, year = y, hour = h, minute = mi, second = se\<rparr>, s6)))))))"

definition validateDateTime :: "int \<Rightarrow> int \<Rightarrow> int \<Rightarrow> int \<Rightarrow> int \<Rightarrow> int \<Rightarrow> bool" where
  "validateDateTime d m y h mi s =
     (if d < 1 \<or> d > 31 \<or> m < 1 \<or> m > 12 \<or> y < 0 \<or> h < 0 \<or> h > 23 \<or> mi < 0 \<or> mi > 59 \<or> s < 0 \<or> s > 59
      then False
      else if m = 2 \<and> d > 29 then False
      else if (m = 4 \<or> m = 6 \<or> m = 9 \<or> m = 11) \<and> d > 30 then False
      else True)"

definition validateDate :: "int \<Rightarrow> int \<Rightarrow> int \<Rightarrow> bool" where
  "validateDate d m y = validateDateTime d m y 0 0 0"

definition validateTime :: "int \<Rightarrow> int \<Rightarrow> int \<Rightarrow> bool" where
  "validateTime h mi s = validateDateTime 0 0 0 h mi s"

section \<open>Validation\<close>

text \<open>The specification: a month has its days (29 in February, whatever the year).\<close>

definition month_days :: "int \<Rightarrow> int" where
  "month_days m = (if m = 2 then 29 else if m \<in> {4, 6, 9, 11} then 30 else 31)"

lemma validateDateTime_iff:
  "validateDateTime d m y h mi s \<longleftrightarrow> m \<in> {1..12} \<and> d \<in> {1..month_days m} \<and> 0 \<le> y \<and>
     h \<in> {0..23} \<and> mi \<in> {0..59} \<and> s \<in> {0..59}"
  by (auto simp: validateDateTime_def month_days_def)

lemma validateTime_never: "\<not> validateTime h mi s"
  by (simp add: validateTime_def validateDateTime_iff)

section \<open>Timestamps\<close>

lemma getTimestamp_valid:
  assumes "validateDateTime (day dt) (month dt) (year dt) (hour dt) (minute dt) (second dt)"
  shows "getTimestamp dt = (if year dt \<le> 66 \<or> int_ok (year dt * 31536000 + month dt * 2592000 + day dt * 86400 +
      hour dt * 3600 + minute dt * 60 + second dt)
    then Inr (year dt * 31536000 + month dt * 2592000 + day dt * 86400 + hour dt * 3600 + minute dt * 60 + second dt)
    else Inl Undefined)"
proof -
  have b: "1 \<le> day dt" "day dt \<le> 31" "1 \<le> month dt" "month dt \<le> 12" "0 \<le> year dt" "0 \<le> hour dt" "hour dt \<le> 23"
    "0 \<le> minute dt" "minute dt \<le> 59" "0 \<le> second dt" "second dt \<le> 59"
    using assms by (auto simp: validateDateTime_iff month_days_def split: if_splits)
  let ?sum = "year dt * 31536000 + month dt * 2592000 + day dt * 86400 + hour dt * 3600 + minute dt * 60 + second dt"
  have sum: "sum_list (ts_terms dt) = ?sum" by (simp add: ts_terms_def)
  have all: "list_all int_ok (ts_terms dt) \<and> list_all int_ok (partial_sums 0 (ts_terms dt)) \<longleftrightarrow> int_ok ?sum"
    using b by (simp add: ts_terms_def int_ok_def INT_MAX_def INT_MIN_def) arith
  have "year dt \<le> 66 \<Longrightarrow> int_ok ?sum" using b by (simp add: int_ok_def INT_MAX_def INT_MIN_def)
  then show ?thesis using all sum by (auto simp: getTimestamp_def)
qed

lemma getTimestamp_overflow:
  assumes "validateDateTime (day dt) (month dt) (year dt) (hour dt) (minute dt) (second dt)" "69 \<le> year dt"
  shows "getTimestamp dt = Inl Undefined"
proof -
  have "0 \<le> month dt" "0 \<le> day dt" "0 \<le> hour dt" "0 \<le> minute dt" "0 \<le> second dt"
    using assms(1) by (auto simp: validateDateTime_iff)
  then show ?thesis
    using assms(2) getTimestamp_valid[OF assms(1)] by (simp add: int_ok_def INT_MAX_def)
qed

section \<open>Printing and reading\<close>

lemma extract_char_sep: "\<not> is_space c \<Longrightarrow> extract_char (c # rest) = Some (c, rest)"
  by (simp add: extract_char_def skip_ws_def)

lemma int_then_char_print:
  assumes "int_ok i" "\<not> is_digit c" "\<not> is_space c"
  shows "int_then_char (int_to_string i @ c # rest) = Some (i, rest)"
  using extract_int_print[OF assms(1), of "c # rest"] assms(2,3)
  by (simp add: int_then_char_def extract_char_sep)

text \<open>After the year the separator is a blank, which the extraction of a character skips: it
  takes the first digit of the hour instead.\<close>

lemma int_then_char_blank:
  assumes "int_ok i" "\<not> is_space c"
  shows "int_then_char (int_to_string i @ CHR '' '' # c # rest) = Some (i, rest)"
  using extract_int_print[OF assms(1), of "CHR '' '' # c # rest"] assms(2)
  by (simp add: int_then_char_def extract_char_def skip_ws_def is_space_def is_digit_def)

lemma nat_to_string_two: "10 \<le> n \<Longrightarrow> n < 100 \<Longrightarrow> nat_to_string n = [digit_char (n div 10), digit_char (n mod 10)]"
  by (simp add: nat_to_string.simps[of n] nat_to_string_small)

lemma read_printed:
  assumes ok: "int_ok (day dt)" "int_ok (month dt)" "int_ok (year dt)" "int_ok (minute dt)" "int_ok (second dt)"
    and h: "0 \<le> hour dt" "hour dt < 24"
  shows "read_DateTime (DTtoString dt) =
    (if hour dt < 10 then None else Some (dt\<lparr>hour := hour dt mod 10\<rparr>, ''''))"
proof -
  have sep: "\<not> is_digit CHR ''-''" "\<not> is_space CHR ''-''" "\<not> is_digit CHR '':''" "\<not> is_space CHR '':''"
    by (simp_all add: is_digit_def is_space_def)
  let ?tail = "CHR '':'' # int_to_string (minute dt) @ CHR '':'' # int_to_string (second dt)"
  have dm: "int_then_char (DTtoString dt) = Some (day dt, int_to_string (month dt) @ CHR ''-'' #
      int_to_string (year dt) @ CHR '' '' # int_to_string (hour dt) @ ?tail)"
    using int_then_char_print[OF ok(1) sep(1,2)] by (simp add: DTtoString_def)
  have m: "int_then_char (int_to_string (month dt) @ CHR ''-'' # rest) = Some (month dt, rest)" for rest
    by (rule int_then_char_print[OF ok(2) sep(1,2)])
  have mi: "int_then_char (int_to_string (minute dt) @ CHR '':'' # rest) = Some (minute dt, rest)" for rest
    by (rule int_then_char_print[OF ok(4) sep(3,4)])
  have se: "extract_int (int_to_string (second dt)) = Some (second dt, [])"
    using extract_int_print[OF ok(5), of "[]"] by simp
  have its: "int_to_string (hour dt) = nat_to_string (nat (hour dt))" using h(1) by (simp add: int_to_string_def)
  show ?thesis
  proof (cases "hour dt < 10")
    case True
    then have d: "nat (hour dt) < 10" using h(1) by simp
    have y: "int_then_char (int_to_string (year dt) @ CHR '' '' # int_to_string (hour dt) @ ?tail) = Some (year dt, ?tail)"
      using int_then_char_blank[OF ok(3) digit_not_sign(3)[OF d]] its nat_to_string_small[OF d] by simp
    have "int_then_char ?tail = None"
      by (simp add: int_then_char_def extract_int_def skip_ws_def is_space_def extract_nat_def is_digit_def Let_def)
    then show ?thesis using True dm m y by (simp add: read_DateTime_def)
  next
    case False
    let ?n = "nat (hour dt)"
    have n: "10 \<le> ?n" "?n < 100" "?n div 10 < 10" "?n mod 10 < 10" using False h(2) by auto
    have y: "int_then_char (int_to_string (year dt) @ CHR '' '' # int_to_string (hour dt) @ ?tail)
        = Some (year dt, digit_char (?n mod 10) # ?tail)"
      using int_then_char_blank[OF ok(3) digit_not_sign(3)[OF n(3)]] its nat_to_string_two[OF n(1,2)] by simp
    have "int_to_string (hour dt mod 10) = [digit_char (?n mod 10)]"
      using False nat_to_string_small[OF n(4)] h(1) by (simp add: int_to_string_def nat_mod_distrib)
    moreover have "int_ok (hour dt mod 10)"
    proof -
      have "0 \<le> hour dt mod 10" "hour dt mod 10 < 10" by simp_all
      then show ?thesis unfolding int_ok_def INT_MAX_def INT_MIN_def by linarith
    qed
    ultimately have hh: "int_then_char (digit_char (?n mod 10) # ?tail) = Some (hour dt mod 10, tl ?tail)"
      using int_then_char_print[of "hour dt mod 10" "CHR '':''" "tl ?tail"] sep by simp
    show ?thesis using False dm m y hh mi se by (simp add: read_DateTime_def)
  qed
qed

end
