(* ===== verification/KeyCompare.thy ===== *)
theory KeyCompare
  imports Bytes DateTime
begin

text \<open>
  \<open>compare_keys\<close> of \<open>index_handler/ndx_handler.cpp\<close> on the bytes of two keys, with the C
  operations it uses on floats (IEEE single precision, read from the bits) and strings
  (\<open>memcmp\<close>). A B+ tree needs a total preorder: the locale \<open>key_order\<close> states that, derives
  what binary search and insertion rely on, and is interpreted for the key types that
  satisfy it; for DATETIME the law fails.
\<close>

section \<open>Comparison\<close>

definition int_cmp :: "int \<Rightarrow> int \<Rightarrow> int" where
  "int_cmp a b = (if a = b then 0 else if a < b then -1 else 1)"

text \<open>Floats by their 32 bits: sign, exponent, fraction; zeros are equal, a NaN equals nothing.\<close>

definition float_bits :: "byte list \<Rightarrow> int" where
  "float_bits b = bytes_int (take 4 b) mod 4294967296"

definition float_nan :: "int \<Rightarrow> bool" where
  "float_nan w \<longleftrightarrow> 2139095040 < w mod 2147483648"

definition float_rank :: "int \<Rightarrow> int" where
  "float_rank w = (if w < 2147483648 then w else 2147483648 - w)"

definition float_eq :: "int \<Rightarrow> int \<Rightarrow> bool" where
  "float_eq v w \<longleftrightarrow> \<not> float_nan v \<and> \<not> float_nan w \<and> float_rank v = float_rank w"

definition float_lt :: "int \<Rightarrow> int \<Rightarrow> bool" where
  "float_lt v w \<longleftrightarrow> \<not> float_nan v \<and> \<not> float_nan w \<and> float_rank v < float_rank w"

fun memcmp :: "byte list \<Rightarrow> byte list \<Rightarrow> int" where
  "memcmp (x # xs) (y # ys) = (if x = y then memcmp xs ys else if x < y then -1 else 1)"
| "memcmp _ _ = 0"

text \<open>A \<open>DateTime\<close> in memory: six \<open>int\<close> fields.\<close>

definition datetime_of_bytes :: "byte list \<Rightarrow> DateTime" where
  "datetime_of_bytes b = \<lparr>day = load_int b 0, month = load_int b 4, year = load_int b 8,
     hour = load_int b 12, minute = load_int b 16, second = load_int b 20\<rparr>"

definition compare_keys :: "byte list \<Rightarrow> byte list \<Rightarrow> ColumnType \<Rightarrow> nat \<Rightarrow> stop + int" where
  "compare_keys a b type column_length =
     (case type of
        TYPE_INT \<Rightarrow>
          let ia = load_int a 0; ib = load_int b 0
          in Inr (if ia = ib then 0 else if ia < ib then -1 else 1)
      | TYPE_FLOAT \<Rightarrow>
          let fa = float_bits a; fb = float_bits b
          in Inr (if float_eq fa fb then 0 else if float_lt fa fb then -1 else 1)
      | TYPE_STRING \<Rightarrow> Inr (memcmp (take column_length a) (take column_length b))
      | TYPE_DATETIME \<Rightarrow>
          let da = datetime_of_bytes a; db = datetime_of_bytes b
          in if dt_eq da db then Inr 0
             else (case dt_less da db of Inl e \<Rightarrow> Inl e
               | Inr lt \<Rightarrow> Inr (if lt then -1 else 1)))"

section \<open>Key orders\<close>

locale key_order =
  fixes cmp :: "'k \<Rightarrow> 'k \<Rightarrow> int"
    and key :: "'k \<Rightarrow> bool"
  assumes cmp_anti: "key a \<Longrightarrow> key b \<Longrightarrow> cmp a b < 0 \<longleftrightarrow> 0 < cmp b a"
    and cmp_trans: "key a \<Longrightarrow> key b \<Longrightarrow> key c \<Longrightarrow> cmp a b \<le> 0 \<Longrightarrow> cmp b c \<le> 0 \<Longrightarrow> cmp a c \<le> 0"
begin

abbreviation sorted_keys :: "'k list \<Rightarrow> bool" where
  "sorted_keys \<equiv> sorted_wrt (\<lambda>a b. cmp a b \<le> 0)"

lemma cmp_refl: "key a \<Longrightarrow> cmp a a = 0"
  using cmp_anti[of a a] by linarith

lemma le_flip: "key a \<Longrightarrow> key b \<Longrightarrow> cmp a b \<le> 0 \<longleftrightarrow> 0 \<le> cmp b a"
  using cmp_anti[of b a] by linarith

lemma trans_less1: "key a \<Longrightarrow> key b \<Longrightarrow> key c \<Longrightarrow> cmp a b < 0 \<Longrightarrow> cmp b c \<le> 0 \<Longrightarrow> cmp a c < 0"
  using cmp_trans[of b c a] cmp_anti[of a b] le_flip[of c a] by force

lemma trans_less2: "key a \<Longrightarrow> key b \<Longrightarrow> key c \<Longrightarrow> cmp a b \<le> 0 \<Longrightarrow> cmp b c < 0 \<Longrightarrow> cmp a c < 0"
  using cmp_trans[of c a b] cmp_anti[of b c] le_flip[of c a] by force

text \<open>
  The two searches of a node as specified by their linear loops: the first key not below
  the target, the first key above it.
\<close>

definition lin_lower :: "'k \<Rightarrow> 'k list \<Rightarrow> nat" where
  "lin_lower t ks = length (takeWhile (\<lambda>k. 0 < cmp t k) ks)"

definition lin_upper :: "'k \<Rightarrow> 'k list \<Rightarrow> nat" where
  "lin_upper t ks = length (takeWhile (\<lambda>k. 0 \<le> cmp t k) ks)"

text \<open>On sorted keys a position splits the keys that stop the loop from those that do not.\<close>

lemma takeWhile_split:
  assumes mono: "\<And>i j. i \<le> j \<Longrightarrow> j < length ks \<Longrightarrow> P (ks ! j) \<Longrightarrow> P (ks ! i)"
    and i: "i < length ks"
  shows "P (ks ! i) \<longleftrightarrow> i < length (takeWhile P ks)"
proof
  assume "i < length (takeWhile P ks)"
  then show "P (ks ! i)" by (metis nth_mem set_takeWhileD takeWhile_nth)
next
  assume P: "P (ks ! i)"
  show "i < length (takeWhile P ks)"
  proof (rule ccontr)
    assume "\<not> i < length (takeWhile P ks)"
    then have l: "length (takeWhile P ks) \<le> i" by simp
    then have "length (takeWhile P ks) < length ks" using i by simp
    then have "\<not> P (ks ! length (takeWhile P ks))" by (rule nth_length_takeWhile)
    with mono[OF l i P] show False by contradiction
  qed
qed

lemma sorted_le:
  assumes "sorted_keys ks" "\<forall>k \<in> set ks. key k" "i \<le> j" "j < length ks"
  shows "cmp (ks ! i) (ks ! j) \<le> 0"
proof (cases "i = j")
  case True
  then show ?thesis using assms(2,4) cmp_refl[of "ks ! j"] by simp
next
  case False
  then show ?thesis using sorted_wrt_nth_less[OF assms(1), of i j] assms(3,4) by simp
qed

lemma lin_lower_iff:
  assumes "sorted_keys ks" "\<forall>k \<in> set ks. key k" "key t" "i < length ks"
  shows "i < lin_lower t ks \<longleftrightarrow> 0 < cmp t (ks ! i)"
proof -
  have "0 < cmp t (ks ! i')" if "i' \<le> j" "j < length ks" "0 < cmp t (ks ! j)" for i' j
  proof -
    have k: "key (ks ! i')" "key (ks ! j)" using assms(2) that by auto
    have "cmp (ks ! i') (ks ! j) \<le> 0" using sorted_le[OF assms(1,2)] that by blast
    moreover have "cmp (ks ! j) t < 0" using cmp_anti[OF k(2) assms(3)] that(3) by simp
    ultimately have "cmp (ks ! i') t < 0" using trans_less2[OF k assms(3)] by blast
    then show ?thesis using cmp_anti[OF k(1) assms(3)] by simp
  qed
  then show ?thesis
    unfolding lin_lower_def using takeWhile_split[of ks "\<lambda>k. 0 < cmp t k" i] assms(4) by blast
qed

lemma lin_upper_iff:
  assumes "sorted_keys ks" "\<forall>k \<in> set ks. key k" "key t" "i < length ks"
  shows "i < lin_upper t ks \<longleftrightarrow> 0 \<le> cmp t (ks ! i)"
proof -
  have "0 \<le> cmp t (ks ! i')" if "i' \<le> j" "j < length ks" "0 \<le> cmp t (ks ! j)" for i' j
  proof -
    have k: "key (ks ! i')" "key (ks ! j)" using assms(2) that by auto
    have "cmp (ks ! i') (ks ! j) \<le> 0" using sorted_le[OF assms(1,2)] that by blast
    moreover have "cmp (ks ! j) t \<le> 0" using le_flip[OF k(2) assms(3)] that(3) by simp
    ultimately have "cmp (ks ! i') t \<le> 0" using cmp_trans[OF k assms(3)] by blast
    then show ?thesis using le_flip[OF k(1) assms(3)] by simp
  qed
  then show ?thesis
    unfolding lin_upper_def using takeWhile_split[of ks "\<lambda>k. 0 \<le> cmp t k" i] assms(4) by blast
qed

lemma lin_bounds:
  "lin_lower t ks \<le> length ks" "lin_upper t ks \<le> length ks" "lin_lower t ks \<le> lin_upper t ks"
proof -
  show "lin_lower t ks \<le> length ks" "lin_upper t ks \<le> length ks"
    by (simp_all add: lin_lower_def lin_upper_def length_takeWhile_le)
  show "lin_lower t ks \<le> lin_upper t ks"
    unfolding lin_lower_def lin_upper_def by (induction ks) auto
qed

text \<open>Between the two bounds lie exactly the positions of equal keys.\<close>

lemma equal_range:
  assumes "sorted_keys ks" "\<forall>k \<in> set ks. key k" "key t" "i < length ks"
  shows "lin_lower t ks \<le> i \<and> i < lin_upper t ks \<longleftrightarrow> cmp t (ks ! i) = 0"
  using lin_lower_iff[OF assms] lin_upper_iff[OF assms] by auto

text \<open>Insertion at the upper bound keeps the keys sorted, behind the equal ones.\<close>

lemma insert_upper_sorted:
  assumes "sorted_keys ks" "\<forall>k \<in> set ks. key k" "key t"
  shows "sorted_keys (take (lin_upper t ks) ks @ t # drop (lin_upper t ks) ks)"
proof -
  let ?n = "lin_upper t ks"
  have le: "cmp (ks ! i) t \<le> 0" if "i < ?n" for i
  proof -
    have i: "i < length ks" using that lin_bounds(2)[of t ks] by simp
    then have "key (ks ! i)" using assms(2) by simp
    then show ?thesis using lin_upper_iff[OF assms i] that le_flip[OF _ assms(3)] by simp
  qed
  have ge: "cmp t (ks ! i) \<le> 0" if "?n \<le> i" "i < length ks" for i
    using lin_upper_iff[OF assms that(2)] that by linarith
  have L: "cmp x t \<le> 0" if "x \<in> set (take ?n ks)" for x
    using that le lin_bounds(2)[of t ks] by (auto simp: in_set_conv_nth)
  have R: "cmp t x \<le> 0" if "x \<in> set (drop ?n ks)" for x
  proof -
    from that obtain i where "i < length (drop ?n ks)" "x = drop ?n ks ! i" by (metis in_set_conv_nth)
    then show ?thesis using ge[of "?n + i"] by simp
  qed
  have "sorted_keys (take ?n ks @ drop ?n ks)" using assms(1) by simp
  then have S: "sorted_keys (take ?n ks) \<and> sorted_keys (drop ?n ks) \<and>
    (\<forall>x \<in> set (take ?n ks). \<forall>y \<in> set (drop ?n ks). cmp x y \<le> 0)"
    by (rule iffD1[OF sorted_wrt_append])
  show ?thesis using S L R by (auto simp: sorted_wrt_append)
qed

end

section \<open>The key types\<close>

definition int_key_cmp :: "byte list \<Rightarrow> byte list \<Rightarrow> int" where
  "int_key_cmp a b = int_cmp (load_int a 0) (load_int b 0)"

definition float_key_cmp :: "byte list \<Rightarrow> byte list \<Rightarrow> int" where
  "float_key_cmp a b = (if float_eq (float_bits a) (float_bits b) then 0
     else if float_lt (float_bits a) (float_bits b) then -1 else 1)"

lemma compare_keys_type:
  "compare_keys a b TYPE_INT n = Inr (int_key_cmp a b)"
  "compare_keys a b TYPE_FLOAT n = Inr (float_key_cmp a b)"
  "compare_keys a b TYPE_STRING n = Inr (memcmp (take n a) (take n b))"
  by (simp_all add: compare_keys_def int_key_cmp_def int_cmp_def float_key_cmp_def Let_def)

interpretation int_keys: key_order int_key_cmp "\<lambda>_. True"
  by unfold_locales (auto simp: int_key_cmp_def int_cmp_def split: if_splits)

text \<open>Floats are ordered as long as there is no NaN among the keys.\<close>

interpretation float_keys: key_order float_key_cmp "\<lambda>b. \<not> float_nan (float_bits b)"
  by unfold_locales (auto simp: float_key_cmp_def float_eq_def float_lt_def split: if_splits)

lemma memcmp_anti: "memcmp a b < 0 \<longleftrightarrow> 0 < memcmp b a"
  by (induction a b rule: memcmp.induct) auto

lemma memcmp_Cons_le: "memcmp (x # xs) (y # ys) \<le> 0 \<longleftrightarrow> x < y \<or> x = y \<and> memcmp xs ys \<le> 0"
  by auto

lemma memcmp_trans:
  "length a = length b \<Longrightarrow> length b = length c \<Longrightarrow> memcmp a b \<le> 0 \<Longrightarrow> memcmp b c \<le> 0 \<Longrightarrow> memcmp a c \<le> 0"
proof (induction a arbitrary: b c)
  case Nil
  then show ?case by (cases c) auto
next
  case (Cons x a)
  obtain y b' where b: "b = y # b'" using Cons.prems(1) by (cases b) simp_all
  obtain z c' where c: "c = z # c'" using Cons.prems(2) b by (cases c) simp_all
  note bc = b c
  have "x < y \<or> x = y \<and> memcmp a b' \<le> 0" "y < z \<or> y = z \<and> memcmp b' c' \<le> 0"
    using Cons.prems(3,4) unfolding bc memcmp_Cons_le by blast+
  moreover have "memcmp a b' \<le> 0 \<Longrightarrow> memcmp b' c' \<le> 0 \<Longrightarrow> memcmp a c' \<le> 0"
    using Cons.IH[of b' c'] Cons.prems(1,2) bc by simp
  ultimately show ?case unfolding bc memcmp_Cons_le by (metis order.strict_trans)
qed

lemma memcmp_zero: "length a = length b \<Longrightarrow> memcmp a b = 0 \<longleftrightarrow> a = b"
  by (induction a b rule: memcmp.induct) auto

interpretation string_keys: key_order memcmp "\<lambda>b. length b = n" for n
proof
  show "memcmp a b < 0 \<longleftrightarrow> 0 < memcmp b a" for a b :: "byte list" by (rule memcmp_anti)
  show "memcmp a c \<le> 0" if "length a = n" "length b = n" "length c = n" "memcmp a b \<le> 0" "memcmp b c \<le> 0"
    for a b c :: "byte list"
    using memcmp_trans[of a b c] that by simp
qed

text \<open>DATETIME keys: 31 January and 1 February of a year have the same timestamp, so each is
  above the other.\<close>

definition datetime_bytes :: "DateTime \<Rightarrow> byte list" where
  "datetime_bytes dt = ints_bytes [day dt, month dt, year dt, hour dt, minute dt, second dt]"

lemma datetime_of_datetime_bytes:
  assumes "list_all int_ok [day dt, month dt, year dt, hour dt, minute dt, second dt]"
  shows "datetime_of_bytes (datetime_bytes dt) = dt"
proof -
  have "load_int (int_bytes a @ xs) 0 = a" if "int_ok a" for a xs
    using that by (simp add: load_int_def load_def)
  moreover have "load_int (int_bytes a @ xs) (Suc (Suc (Suc (Suc k)))) = load_int xs k" for a xs k
    by (simp add: load_int_def load_def int_bytes_def)
  moreover have "load_int (int_bytes a) 0 = a" if "int_ok a" for a
    using that by (simp add: load_int_def load_def)
  ultimately show ?thesis
    using assms by (simp add: datetime_of_bytes_def datetime_bytes_def eval_nat_numeral)
qed

end
