(* ===== verification/IndexNode.thy ===== *)
theory IndexNode
  imports ByteArray KeyCompare PageCache
begin

text \<open>
  \<open>index_handler/ndx_defs.h\<close> and the class \<open>IndexNodeHandle\<close> of \<open>ndx_handler.{h,cpp}\<close>: a
  node of the B+ tree is a page with a header of 28 bytes, an array of keys at \<open>key_offset\<close> and
  an array of record ids (children in an inner node) at \<open>rid_offset\<close>. The functions work on the
  bytes of the page; an access outside the page, or a negative count, is \<open>Undefined\<close>.
\<close>

section \<open>ndx_defs.h\<close>

definition NDX_NO_PAGE :: int where
  "NDX_NO_PAGE = -1"

definition NDX_FILE_HDR_PAGE :: int where
  "NDX_FILE_HDR_PAGE = 0"

definition NDX_LEAF_HEADER_PAGE :: int where
  "NDX_LEAF_HEADER_PAGE = 1"

definition NDX_INIT_ROOT_PAGE :: int where
  "NDX_INIT_ROOT_PAGE = 2"

definition NDX_INIT_NUM_PAGES :: int where
  "NDX_INIT_NUM_PAGES = 3"

definition NDX_MAX_COL_LEN :: int where
  "NDX_MAX_COL_LEN = 512"

datatype IndexID = IndexID (page_number: int) (slot_number: int)

record IndexFileHeader =
  ix_first_free :: int
  ix_num_pages :: int
  root_page :: int
  column_type :: ColumnType
  col_len :: int
  btree_order :: int
  key_offset :: int
  rid_offset :: int
  first_leaf :: int
  last_leaf :: int

record IndexPageHeader =
  next_free :: int
  parent :: int
  num_key :: int
  num_child :: int
  is_leaf :: bool
  prev_leaf :: int
  next_leaf :: int

text \<open>The structs in memory: \<open>bool is_leaf\<close> at 16, padding up to 20.\<close>

definition sizeof_IndexPageHeader :: nat where
  "sizeof_IndexPageHeader = 28"

definition sizeof_RecordID :: nat where
  "sizeof_RecordID = 8"

definition sizeof_IndexFileHeader :: nat where
  "sizeof_IndexFileHeader = 40"

definition get_header :: "byte list \<Rightarrow> IndexPageHeader" where
  "get_header b = \<lparr>next_free = load_int b 0, parent = load_int b 4, num_key = load_int b 8,
     num_child = load_int b 12, is_leaf = (b ! 16 \<noteq> 0), prev_leaf = load_int b 20,
     next_leaf = load_int b 24\<rparr>"

definition put_header :: "IndexPageHeader \<Rightarrow> byte list \<Rightarrow> byte list" where
  "put_header h b =
     store (store (store b 0 (ints_bytes [next_free h, parent h, num_key h, num_child h]))
       16 [if is_leaf h then 1 else 0]) 20 (ints_bytes [prev_leaf h, next_leaf h])"

definition set_next_free :: "int \<Rightarrow> byte list \<Rightarrow> byte list" where
  "set_next_free i b = store_int b 0 i"

definition set_parent :: "int \<Rightarrow> byte list \<Rightarrow> byte list" where
  "set_parent i b = store_int b 4 i"

definition set_num_key :: "int \<Rightarrow> byte list \<Rightarrow> byte list" where
  "set_num_key i b = store_int b 8 i"

definition set_num_child :: "int \<Rightarrow> byte list \<Rightarrow> byte list" where
  "set_num_child i b = store_int b 12 i"

definition set_prev_leaf :: "int \<Rightarrow> byte list \<Rightarrow> byte list" where
  "set_prev_leaf i b = store_int b 20 i"

definition set_next_leaf :: "int \<Rightarrow> byte list \<Rightarrow> byte list" where
  "set_next_leaf i b = store_int b 24 i"

definition ix_hdr_bytes :: "IndexFileHeader \<Rightarrow> byte list" where
  "ix_hdr_bytes h = ints_bytes [ix_first_free h, ix_num_pages h, root_page h, enum_to_int (column_type h),
     col_len h, btree_order h, key_offset h, rid_offset h, first_leaf h, last_leaf h]"

text \<open>Reading it back; an integer that is no enumerator gives no header.\<close>

definition ix_hdr_of_bytes :: "byte list \<Rightarrow> IndexFileHeader option" where
  "ix_hdr_of_bytes b = (case bytes_ints 10 b of
     [ff, np, rp, ct, cl, bo, ko, ro, fl, ll] \<Rightarrow>
       map_option (\<lambda>t. \<lparr>ix_first_free = ff, ix_num_pages = np, root_page = rp, column_type = t,
         col_len = cl, btree_order = bo, key_offset = ko, rid_offset = ro, first_leaf = fl,
         last_leaf = ll\<rparr>) (enum_of_int ct))"

section \<open>IndexNodeHandle: addresses\<close>

definition in_page :: "int \<Rightarrow> int \<Rightarrow> bool" where
  "in_page off n \<longleftrightarrow> 0 \<le> off \<and> 0 \<le> n \<and> off + n \<le> int PAGE_SIZE"

definition key_at :: "IndexFileHeader \<Rightarrow> int \<Rightarrow> int" where
  "key_at h key_id = key_offset h + key_id * col_len h"

definition rid_at :: "IndexFileHeader \<Rightarrow> int \<Rightarrow> int" where
  "rid_at h record_id = rid_offset h + record_id * int sizeof_RecordID"

text \<open>The bytes of \<open>n\<close> keys from \<open>get_key(key_id)\<close> on, of \<open>n\<close> ids from \<open>get_record_id(id)\<close> on.\<close>

definition read_keys :: "IndexFileHeader \<Rightarrow> int \<Rightarrow> int \<Rightarrow> byte list \<Rightarrow> stop + byte list" where
  "read_keys h key_id n b = (if in_page (key_at h key_id) (n * col_len h)
     then Inr (load b (nat (key_at h key_id)) (nat (n * col_len h))) else Inl Undefined)"

definition get_key :: "IndexFileHeader \<Rightarrow> int \<Rightarrow> byte list \<Rightarrow> stop + byte list" where
  "get_key h key_id b = read_keys h key_id 1 b"

definition read_rids :: "IndexFileHeader \<Rightarrow> int \<Rightarrow> int \<Rightarrow> byte list \<Rightarrow> stop + byte list" where
  "read_rids h record_id n b = (if in_page (rid_at h record_id) (n * int sizeof_RecordID)
     then Inr (load b (nat (rid_at h record_id)) (nat (n * int sizeof_RecordID))) else Inl Undefined)"

definition rid_bytes :: "RecordID \<Rightarrow> byte list" where
  "rid_bytes rid = ints_bytes [rid_page rid, rid_slot rid]"

definition rid_of_bytes :: "byte list \<Rightarrow> RecordID" where
  "rid_of_bytes b = RecordID (load_int b 0) (load_int b 4)"

definition get_record_id :: "IndexFileHeader \<Rightarrow> int \<Rightarrow> byte list \<Rightarrow> stop + RecordID" where
  "get_record_id h record_id b = map_sum id rid_of_bytes (read_rids h record_id 1 b)"

section \<open>IndexNodeHandle: searching\<close>

text \<open>The loop \<open>while (lo < hi)\<close> of both searches: \<open>go_left mid\<close> moves \<open>hi\<close>.\<close>

function bsearch :: "(int \<Rightarrow> stop + bool) \<Rightarrow> int \<Rightarrow> int \<Rightarrow> stop + int" where
  "bsearch go_left lo hi =
     (if 0 \<le> lo \<and> lo < hi then
        (case go_left ((lo + hi) div 2) of
           Inl e \<Rightarrow> Inl e
         | Inr True \<Rightarrow> bsearch go_left lo ((lo + hi) div 2)
         | Inr False \<Rightarrow> bsearch go_left ((lo + hi) div 2 + 1) hi)
      else Inr lo)"
  by pat_completeness auto
termination by (relation "measure (\<lambda>(p, lo, hi). nat (hi - lo))") auto

declare bsearch.simps [simp del]

definition compare_at :: "IndexFileHeader \<Rightarrow> byte list \<Rightarrow> byte list \<Rightarrow> (int \<Rightarrow> bool) \<Rightarrow> int \<Rightarrow> stop + bool" where
  "compare_at h b target test mid =
     (case get_key h mid b of Inl e \<Rightarrow> Inl e
      | Inr k \<Rightarrow> (case compare_keys target k (column_type h) (nat (col_len h)) of
          Inl e \<Rightarrow> Inl e | Inr c \<Rightarrow> Inr (test c)))"

definition node_lower_bound :: "IndexFileHeader \<Rightarrow> byte list \<Rightarrow> byte list \<Rightarrow> stop + int" where
  "node_lower_bound h target b =
     bsearch (compare_at h b target (\<lambda>c. c \<le> 0)) 0 (num_key (get_header b))"

definition node_upper_bound :: "IndexFileHeader \<Rightarrow> byte list \<Rightarrow> byte list \<Rightarrow> stop + int" where
  "node_upper_bound h target b =
     bsearch (compare_at h b target (\<lambda>c. c < 0)) 0 (num_key (get_header b))"

section \<open>IndexNodeHandle: inserting and erasing\<close>

definition insert_keys :: "IndexFileHeader \<Rightarrow> int \<Rightarrow> byte list \<Rightarrow> int \<Rightarrow> byte list \<Rightarrow> stop + byte list" where
  "insert_keys h pos ks n b =
     (let nk = num_key (get_header b); len = col_len h;
          key_slot = key_at h pos; moved = (nk - pos) * len
      in if in_page (key_slot + n * len) moved \<and> in_page key_slot moved \<and> in_page key_slot (n * len) \<and>
            nat (n * len) \<le> length ks \<and> int_ok (nk + n)
         then Inr (set_num_key (nk + n)
           (store (memmove b (nat (key_slot + n * len)) (nat key_slot) (nat moved))
              (nat key_slot) (take (nat (n * len)) ks)))
         else Inl Undefined)"

definition insert_key :: "IndexFileHeader \<Rightarrow> int \<Rightarrow> byte list \<Rightarrow> byte list \<Rightarrow> stop + byte list" where
  "insert_key h pos k b = insert_keys h pos k 1 b"

definition erase_key :: "IndexFileHeader \<Rightarrow> int \<Rightarrow> byte list \<Rightarrow> stop + byte list" where
  "erase_key h pos b =
     (let nk = num_key (get_header b); len = col_len h;
          k = key_at h pos; moved = (nk - pos - 1) * len
      in if in_page k moved \<and> in_page (k + len) moved \<and> int_ok (nk - 1)
         then Inr (set_num_key (nk - 1) (memmove b (nat k) (nat (k + len)) (nat moved)))
         else Inl Undefined)"

definition insert_record_ids :: "IndexFileHeader \<Rightarrow> int \<Rightarrow> byte list \<Rightarrow> int \<Rightarrow> byte list \<Rightarrow> stop + byte list" where
  "insert_record_ids h pos rids n b =
     (let nc = num_child (get_header b); len = int sizeof_RecordID;
          slot = rid_at h pos; moved = (nc - pos) * len
      in if in_page (slot + n * len) moved \<and> in_page slot moved \<and> in_page slot (n * len) \<and>
            nat (n * len) \<le> length rids \<and> int_ok (nc + n)
         then Inr (set_num_child (nc + n)
           (store (memmove b (nat (slot + n * len)) (nat slot) (nat moved))
              (nat slot) (take (nat (n * len)) rids)))
         else Inl Undefined)"

definition insert_record_id :: "IndexFileHeader \<Rightarrow> int \<Rightarrow> RecordID \<Rightarrow> byte list \<Rightarrow> stop + byte list" where
  "insert_record_id h pos rid b = insert_record_ids h pos (rid_bytes rid) 1 b"

definition erase_record_id :: "IndexFileHeader \<Rightarrow> int \<Rightarrow> byte list \<Rightarrow> stop + byte list" where
  "erase_record_id h pos b =
     (let nc = num_child (get_header b); len = int sizeof_RecordID;
          slot = rid_at h pos; moved = (nc - pos - 1) * len
      in if in_page slot moved \<and> in_page (slot + len) moved \<and> int_ok (nc - 1)
         then Inr (set_num_child (nc - 1) (memmove b (nat slot) (nat (slot + len)) (nat moved)))
         else Inl Undefined)"

text \<open>\<open>find_child\<close>: the least position whose id names the page of the child.\<close>

function find_child_from :: "IndexFileHeader \<Rightarrow> int \<Rightarrow> byte list \<Rightarrow> int \<Rightarrow> stop + int" where
  "find_child_from h child_page b crank =
     (if crank < num_child (get_header b) then
        (case get_record_id h crank b of
           Inl e \<Rightarrow> Inl e
         | Inr rid \<Rightarrow> if rid_page rid = child_page then Inr crank
             else find_child_from h child_page b (crank + 1))
      else Inl AssertFail)"
  by pat_completeness auto
termination by (relation "measure (\<lambda>(h, c, b, crank). nat (num_child (get_header b) - crank))") auto

declare find_child_from.simps [simp del]

definition find_child :: "IndexFileHeader \<Rightarrow> int \<Rightarrow> byte list \<Rightarrow> stop + int" where
  "find_child h child_page b = find_child_from h child_page b 0"

end
