(* ===== verification/IndexNodeProps.thy ===== *)
theory IndexNodeProps
  imports IndexNode
begin

text \<open>
  A node page read as a list of keys and a list of record ids, and the node functions as list
  functions on them: insertion and deletion at a position, the binary searches as the
  linear ones of the locale \<open>key_order\<close>, \<open>find_child\<close> as the position of a page number.
\<close>

section \<open>Layout and abstraction\<close>

definition ix_layout :: "IndexFileHeader \<Rightarrow> bool" where
  "ix_layout h \<longleftrightarrow> 1 \<le> col_len h \<and> 2 < btree_order h \<and> key_offset h = 28 \<and>
     rid_offset h = 28 + (btree_order h + 1) * col_len h \<and>
     rid_offset h + (btree_order h + 1) * 8 \<le> int PAGE_SIZE"

definition node_ok :: "IndexFileHeader \<Rightarrow> byte list \<Rightarrow> bool" where
  "node_ok h b \<longleftrightarrow> length b = PAGE_SIZE \<and>
     0 \<le> num_key (get_header b) \<and> num_key (get_header b) \<le> btree_order h + 1 \<and>
     0 \<le> num_child (get_header b) \<and> num_child (get_header b) \<le> btree_order h + 1"

definition node_keys :: "IndexFileHeader \<Rightarrow> byte list \<Rightarrow> byte list list" where
  "node_keys h b = arr b 28 (nat (col_len h)) (nat (num_key (get_header b)))"

definition node_rids :: "IndexFileHeader \<Rightarrow> byte list \<Rightarrow> RecordID list" where
  "node_rids h b = map rid_of_bytes (arr b (nat (rid_offset h)) 8 (nat (num_child (get_header b))))"

text \<open>The widths and counts as natural numbers.\<close>

lemma layout_nat:
  assumes "ix_layout h"
  obtains w m where "col_len h = int w" "btree_order h + 1 = int m" "0 < w" "3 < m"
    "key_offset h = 28" "rid_offset h = int (28 + m * w)" "28 + m * w + m * 8 \<le> PAGE_SIZE"
proof -
  define w m where "w = nat (col_len h)" and "m = nat (btree_order h + 1)"
  have e: "col_len h = int w" "btree_order h + 1 = int m" "0 < w" "3 < m"
    using assms by (auto simp: ix_layout_def w_def m_def)
  have r: "rid_offset h = int (28 + m * w)" using assms e by (simp add: ix_layout_def)
  have "int (28 + m * w) + int m * 8 \<le> int PAGE_SIZE"
    using assms unfolding r[symmetric] e(2)[symmetric] by (simp add: ix_layout_def)
  then have "28 + m * w + m * 8 \<le> PAGE_SIZE" by linarith
  then show ?thesis using that[OF e] assms r by (simp add: ix_layout_def)
qed

section \<open>Header fields\<close>

lemma get_header_cong:
  assumes "load b' 0 28 = load b 0 28" "28 \<le> length b" "28 \<le> length b'"
  shows "get_header b' = get_header b"
proof -
  have i: "load_int b' k = load_int b k" if "k + 4 \<le> 28" for k
    using load_load[of k 4 28 b' 0] load_load[of k 4 28 b 0] assms(1) that by (simp add: load_int_def)
  have "b' ! 16 = b ! 16"
    using nth_load[of 16 28 0 b'] nth_load[of 16 28 0 b] assms by simp
  then show ?thesis using i by (simp add: get_header_def)
qed

lemma set_field:
  assumes "length b = PAGE_SIZE" "int_ok i"
  shows "get_header (set_num_key i b) = (get_header b)\<lparr>num_key := i\<rparr>"
    "get_header (set_num_child i b) = (get_header b)\<lparr>num_child := i\<rparr>"
    "get_header (set_parent i b) = (get_header b)\<lparr>parent := i\<rparr>"
    "get_header (set_next_free i b) = (get_header b)\<lparr>next_free := i\<rparr>"
    "get_header (set_prev_leaf i b) = (get_header b)\<lparr>prev_leaf := i\<rparr>"
    "get_header (set_next_leaf i b) = (get_header b)\<lparr>next_leaf := i\<rparr>"
  using assms
  by (simp_all add: get_header_def set_num_key_def set_num_child_def set_parent_def set_next_free_def
      set_prev_leaf_def set_next_leaf_def PAGE_SIZE_def layout)
    (simp_all add: store_int_def nth_store)

lemma set_num_rest:
  assumes "length b = PAGE_SIZE" "28 \<le> off"
  shows "length (set_num_key i b) = PAGE_SIZE" "length (set_num_child i b) = PAGE_SIZE"
    "load (set_num_key i b) off n = load b off n" "load (set_num_child i b) off n = load b off n"
  using assms by (simp_all add: set_num_key_def set_num_child_def PAGE_SIZE_def layout)

lemma put_get_header:
  assumes "length b = PAGE_SIZE"
    "\<forall>i \<in> {next_free h, parent h, num_key h, num_child h, prev_leaf h, next_leaf h}. int_ok i"
  shows "get_header (put_header h b) = h" "length (put_header h b) = PAGE_SIZE"
proof -
  let ?b1 = "store b 0 (ints_bytes [next_free h, parent h, num_key h, num_child h])"
  let ?b2 = "store ?b1 16 [if is_leaf h then 1 else 0]"
  let ?b3 = "store ?b2 20 (ints_bytes [prev_leaf h, next_leaf h])"
  have l: "length ?b1 = 4096" "length ?b2 = 4096" "length ?b3 = 4096"
    using assms(1) by (simp_all add: length_store PAGE_SIZE_def)
  have i4: "load (int_bytes i @ xs) 0 4 = int_bytes i" "load (int_bytes i @ xs) (Suc (Suc (Suc (Suc k)))) n = load xs k n"
    for i xs k n by (simp_all add: load_def int_bytes_def)
  have a: "load_int ?b3 k = load_int (ints_bytes [next_free h, parent h, num_key h, num_child h]) k" if "k + 4 \<le> 16" for k
  proof -
    have "load ?b3 k 4 = load ?b2 k 4" using that l by (intro load_store_before) simp_all
    also have "\<dots> = load ?b1 k 4" using that l by (intro load_store_before) simp_all
    also have "\<dots> = load (ints_bytes [next_free h, parent h, num_key h, num_child h]) (k - 0) 4"
      using that assms(1) by (intro load_store_within) (simp_all add: PAGE_SIZE_def)
    finally show ?thesis by (simp add: load_int_def)
  qed
  have c: "load_int ?b3 k = load_int (ints_bytes [prev_leaf h, next_leaf h]) (k - 20)" if "20 \<le> k" "k + 4 \<le> 28" for k
    unfolding load_int_def using that l by (subst load_store_within) simp_all
  have "?b3 ! 16 = (if is_leaf h then 1 else 0)" using l by (simp add: nth_store)
  then have leaf: "(?b3 ! 16 \<noteq> 0) = is_leaf h" by simp
  have e: "load_int (ints_bytes [x, y]) 0 = x" "load_int (ints_bytes [x, y]) 4 = y" if "int_ok x" "int_ok y" for x y
    using that by (simp_all add: load_int_def i4 eval_nat_numeral) (simp_all add: load_def)
  have f: "load_int (ints_bytes [x, y, z, u]) 0 = x" "load_int (ints_bytes [x, y, z, u]) 4 = y"
    "load_int (ints_bytes [x, y, z, u]) 8 = z" "load_int (ints_bytes [x, y, z, u]) 12 = u"
    if "int_ok x" "int_ok y" "int_ok z" "int_ok u" for x y z u
    using that by (simp_all add: load_int_def i4 eval_nat_numeral) (simp_all add: load_def)
  show "get_header (put_header h b) = h"
    unfolding get_header_def put_header_def
    using a[of 0] a[of 4] a[of 8] a[of 12] c[of 20] c[of 24] leaf e f assms(2) by simp
  show "length (put_header h b) = PAGE_SIZE" using l by (simp add: put_header_def PAGE_SIZE_def)
qed

section \<open>Insertion and deletion\<close>

lemma key_at_nat: "key_offset h = 28 \<Longrightarrow> col_len h = int w \<Longrightarrow> key_at h (int p) = int (28 + p * w)"
  by (simp add: key_at_def)

lemma rid_at_nat: "rid_offset h = int r \<Longrightarrow> rid_at h (int p) = int (r + p * 8)"
  by (simp add: rid_at_def sizeof_RecordID_def)

lemma in_page_nat: "in_page (int off) (int n) \<longleftrightarrow> off + n \<le> PAGE_SIZE"
  unfolding in_page_def by linarith

text \<open>The two stores of an insertion are \<open>arr_insert\<close>, on keys and on ids.\<close>

lemma insert_keys_arr:
  assumes h: "key_offset h = 28" "col_len h = int w" and c: "num_key (get_header b) = int c"
    and p: "p \<le> c" and fit: "28 + (c + n) * w \<le> PAGE_SIZE" and ks: "n * w \<le> length ks" and ok: "int_ok (int (c + n))"
    and len: "length b = PAGE_SIZE"
  shows "insert_keys h (int p) ks (int n) b = Inr (set_num_key (int (c + n)) (arr_insert b 28 w c p ks n))"
proof -
  have fit': "28 + (c + n) * w \<le> length b" using fit len by simp
  note r = arr_insert_ranges[OF fit' p]
  have moved: "(int c - int p) * int w = int ((c - p) * w)" using p by (simp add: of_nat_diff)
  have slot: "key_at h (int p) = int (28 + p * w)" using h by (rule key_at_nat)
  have dst: "key_at h (int p) + int n * int w = int (28 + (p + n) * w)"
    unfolding slot by (simp add: distrib_right)
  have pages: "in_page (int (28 + (p + n) * w)) (int ((c - p) * w))" "in_page (int (28 + p * w)) (int ((c - p) * w))"
    "in_page (int (28 + p * w)) (int (n * w))"
    using r(1-3) fit len unfolding in_page_nat by simp_all
  have nw: "int n * int w = int (n * w)" by simp
  have cn: "int c + int n = int (c + n)" by simp
  show ?thesis
    unfolding insert_keys_def Let_def c h(2) moved dst
    unfolding slot nw cn
    using pages ks ok by (simp only: nat_int arr_insert_def if_True simp_thms)
qed

lemma insert_rids_arr:
  assumes h: "rid_offset h = int r0" and c: "num_child (get_header b) = int c"
    and p: "p \<le> c" and fit: "r0 + (c + n) * 8 \<le> PAGE_SIZE" and ks: "n * 8 \<le> length rs" and ok: "int_ok (int (c + n))"
    and len: "length b = PAGE_SIZE"
  shows "insert_record_ids h (int p) rs (int n) b = Inr (set_num_child (int (c + n)) (arr_insert b r0 8 c p rs n))"
proof -
  have fit': "r0 + (c + n) * 8 \<le> length b" using fit len by simp
  note r = arr_insert_ranges[OF fit' p]
  have moved: "(int c - int p) * int sizeof_RecordID = int ((c - p) * 8)"
    using p by (simp add: of_nat_diff sizeof_RecordID_def)
  have slot: "rid_at h (int p) = int (r0 + p * 8)" using h by (rule rid_at_nat)
  have dst: "rid_at h (int p) + int n * int sizeof_RecordID = int (r0 + (p + n) * 8)"
    unfolding slot by (simp add: distrib_right sizeof_RecordID_def)
  have pages: "in_page (int (r0 + (p + n) * 8)) (int ((c - p) * 8))" "in_page (int (r0 + p * 8)) (int ((c - p) * 8))"
    "in_page (int (r0 + p * 8)) (int (n * 8))"
    using r(1-3) fit len unfolding in_page_nat by simp_all
  have nw: "int n * int sizeof_RecordID = int (n * 8)" by (simp add: sizeof_RecordID_def)
  have cn: "int c + int n = int (c + n)" by simp
  show ?thesis
    unfolding insert_record_ids_def Let_def c moved dst
    unfolding slot nw cn
    using pages ks ok by (simp only: nat_int arr_insert_def if_True simp_thms)
qed

lemma erase_key_arr:
  assumes h: "key_offset h = 28" "col_len h = int w" and c: "num_key (get_header b) = int c"
    and p: "p < c" and fit: "28 + c * w \<le> PAGE_SIZE" and ok: "int_ok (int c - 1)" and len: "length b = PAGE_SIZE"
  shows "erase_key h (int p) b = Inr (set_num_key (int (c - 1)) (arr_erase b 28 w c p))"
proof -
  have fit': "28 + c * w \<le> length b" using fit len by simp
  note r = arr_erase_ranges[OF fit' p]
  have moved: "(int c - int p - 1) * int w = int ((c - p - 1) * w)" using p by (simp add: of_nat_diff)
  have slot: "key_at h (int p) = int (28 + p * w)" using h by (rule key_at_nat)
  have src: "key_at h (int p) + int w = int (28 + (p + 1) * w)"
    unfolding slot by (simp add: distrib_right)
  have pages: "in_page (int (28 + p * w)) (int ((c - p - 1) * w))" "in_page (int (28 + (p + 1) * w)) (int ((c - p - 1) * w))"
    using r(1-3) fit len unfolding in_page_nat by simp_all
  have c1: "int c - 1 = int (c - 1)" using p by simp
  show ?thesis
    unfolding erase_key_def Let_def c h(2) moved src
    unfolding slot c1
    using pages ok c1 by (simp only: nat_int arr_erase_def if_True simp_thms)
qed

lemma erase_rid_arr:
  assumes h: "rid_offset h = int r0" and c: "num_child (get_header b) = int c"
    and p: "p < c" and fit: "r0 + c * 8 \<le> PAGE_SIZE" and ok: "int_ok (int c - 1)" and len: "length b = PAGE_SIZE"
  shows "erase_record_id h (int p) b = Inr (set_num_child (int (c - 1)) (arr_erase b r0 8 c p))"
proof -
  have fit': "r0 + c * 8 \<le> length b" using fit len by simp
  note r = arr_erase_ranges[OF fit' p]
  have moved: "(int c - int p - 1) * int sizeof_RecordID = int ((c - p - 1) * 8)"
    using p by (simp add: of_nat_diff sizeof_RecordID_def)
  have slot: "rid_at h (int p) = int (r0 + p * 8)" using h by (rule rid_at_nat)
  have src: "rid_at h (int p) + int sizeof_RecordID = int (r0 + (p + 1) * 8)"
    unfolding slot by (simp add: distrib_right sizeof_RecordID_def)
  have pages: "in_page (int (r0 + p * 8)) (int ((c - p - 1) * 8))" "in_page (int (r0 + (p + 1) * 8)) (int ((c - p - 1) * 8))"
    using r(1-3) fit len unfolding in_page_nat by simp_all
  have c1: "int c - 1 = int (c - 1)" using p by simp
  show ?thesis
    unfolding erase_record_id_def Let_def c moved src
    unfolding slot c1
    using pages ok c1 by (simp only: nat_int arr_erase_def if_True simp_thms)
qed


section \<open>As list operations\<close>

text \<open>Where the arrays of a node of the layout lie.\<close>

lemma node_nat:
  assumes "ix_layout h" "node_ok h b"
  obtains w m r c d where "col_len h = int w" "btree_order h + 1 = int m" "rid_offset h = int r" "key_offset h = 28"
    "r = 28 + m * w" "r + m * 8 \<le> PAGE_SIZE" "0 < w" "3 < m" "num_key (get_header b) = int c" "num_child (get_header b) = int d"
    "c \<le> m" "d \<le> m" "length b = PAGE_SIZE" "node_keys h b = arr b 28 w c"
    "node_rids h b = map rid_of_bytes (arr b r 8 d)"
proof -
  obtain w m where w: "col_len h = int w" "btree_order h + 1 = int m" "0 < w" "3 < m"
    "key_offset h = 28" "rid_offset h = int (28 + m * w)" "28 + m * w + m * 8 \<le> PAGE_SIZE"
    using assms(1) by (rule layout_nat)
  obtain c d where c: "num_key (get_header b) = int c" "num_child (get_header b) = int d"
    using assms(2) unfolding node_ok_def by (metis nonneg_int_cases)
  have "c \<le> m" "d \<le> m" "length b = PAGE_SIZE"
    using assms(2) w(2) c unfolding node_ok_def by simp_all
  moreover have "node_keys h b = arr b 28 w c" "node_rids h b = map rid_of_bytes (arr b (28 + m * w) 8 d)"
    unfolding node_keys_def node_rids_def c w(1,6) nat_int by simp_all
  ultimately show ?thesis using that[OF w(1,2,6,5) _ w(7,3,4) c] by simp
qed

lemma small_ok: "n \<le> PAGE_SIZE \<Longrightarrow> int_ok (int n)" "n \<le> PAGE_SIZE \<Longrightarrow> 0 < n \<Longrightarrow> int_ok (int n - 1)"
  by (simp_all add: int_ok_def INT_MIN_def INT_MAX_def PAGE_SIZE_def)

text \<open>A change of the key array with its count, seen from the node.\<close>

lemma keys_changed:
  assumes "ix_layout h" "node_ok h b" and b': "length b' = PAGE_SIZE" and n: "int n \<le> btree_order h + 1"
    and out: "\<And>o1 k. o1 + k \<le> 28 \<or> rid_offset h \<le> int o1 \<Longrightarrow> load b' o1 k = load b o1 k"
    and els: "arr b' 28 (nat (col_len h)) n = ks"
  shows "get_header (set_num_key (int n) b') = (get_header b)\<lparr>num_key := int n\<rparr>"
    "node_ok h (set_num_key (int n) b')" "node_keys h (set_num_key (int n) b') = ks"
    "node_rids h (set_num_key (int n) b') = node_rids h b"
proof -
  obtain w m r c d where N: "col_len h = int w" "btree_order h + 1 = int m" "rid_offset h = int r" "key_offset h = 28"
    "r = 28 + m * w" "r + m * 8 \<le> PAGE_SIZE" "0 < w" "3 < m" "num_key (get_header b) = int c" "num_child (get_header b) = int d"
    "c \<le> m" "d \<le> m" "length b = PAGE_SIZE" "node_keys h b = arr b 28 w c"
    "node_rids h b = map rid_of_bytes (arr b r 8 d)"
    using assms(1,2) by (rule node_nat)
  have ok: "int_ok (int n)" using n N(2,6) by (intro small_ok) simp
  have "get_header b' = get_header b" using out[of 0 28] b' N(13) by (intro get_header_cong) (simp_all add: PAGE_SIZE_def)
  then show hd: "get_header (set_num_key (int n) b') = (get_header b)\<lparr>num_key := int n\<rparr>"
    using set_field(1)[OF b' ok] by simp
  have c': "num_key (get_header (set_num_key (int n) b')) = int n" "num_child (get_header (set_num_key (int n) b')) = int d"
    using hd N(10) by simp_all
  note rest = set_num_rest[OF b']
  show "node_ok h (set_num_key (int n) b')"
    unfolding node_ok_def c' using n N(2,12) rest(1)[of 28] by simp
  have "arr (set_num_key (int n) b') 28 w n = arr b' 28 w n"
    by (intro arr_cong rest(3)) simp
  then show "node_keys h (set_num_key (int n) b') = ks"
    unfolding node_keys_def c' N(1) nat_int using els N(1) by simp
  have "arr (set_num_key (int n) b') r 8 d = arr b r 8 d"
  proof (intro arr_cong)
    fix i assume "i < d"
    have "load (set_num_key (int n) b') (r + i * 8) 8 = load b' (r + i * 8) 8"
      using N(5) by (intro rest(3)) simp
    also have "\<dots> = load b (r + i * 8) 8" using N(3) by (intro out) simp
    finally show "load (set_num_key (int n) b') (r + i * 8) 8 = load b (r + i * 8) 8" .
  qed
  then show "node_rids h (set_num_key (int n) b') = node_rids h b"
    unfolding node_rids_def c' N(3,10) nat_int by simp
qed

lemma rids_changed:
  assumes "ix_layout h" "node_ok h b" and b': "length b' = PAGE_SIZE" and n: "int n \<le> btree_order h + 1"
    and out: "\<And>o1 k. int (o1 + k) \<le> rid_offset h \<Longrightarrow> load b' o1 k = load b o1 k"
    and els: "map rid_of_bytes (arr b' (nat (rid_offset h)) 8 n) = rs"
  shows "get_header (set_num_child (int n) b') = (get_header b)\<lparr>num_child := int n\<rparr>"
    "node_ok h (set_num_child (int n) b')" "node_rids h (set_num_child (int n) b') = rs"
    "node_keys h (set_num_child (int n) b') = node_keys h b"
proof -
  obtain w m r c d where N: "col_len h = int w" "btree_order h + 1 = int m" "rid_offset h = int r" "key_offset h = 28"
    "r = 28 + m * w" "r + m * 8 \<le> PAGE_SIZE" "0 < w" "3 < m" "num_key (get_header b) = int c" "num_child (get_header b) = int d"
    "c \<le> m" "d \<le> m" "length b = PAGE_SIZE" "node_keys h b = arr b 28 w c"
    "node_rids h b = map rid_of_bytes (arr b r 8 d)"
    using assms(1,2) by (rule node_nat)
  have ok: "int_ok (int n)" using n N(2,6) by (intro small_ok) simp
  have "get_header b' = get_header b"
    using out[of 0 28] b' N(3,5,13) by (intro get_header_cong) (simp_all add: PAGE_SIZE_def)
  then show hd: "get_header (set_num_child (int n) b') = (get_header b)\<lparr>num_child := int n\<rparr>"
    using set_field(2)[OF b' ok] by simp
  have c': "num_key (get_header (set_num_child (int n) b')) = int c" "num_child (get_header (set_num_child (int n) b')) = int n"
    using hd N(9) by simp_all
  note rest = set_num_rest[OF b']
  show "node_ok h (set_num_child (int n) b')"
    unfolding node_ok_def c' using n N(2,11) rest(2)[of 28] by simp
  have "arr (set_num_child (int n) b') r 8 n = arr b' r 8 n"
    using N(5) by (intro arr_cong rest(4)) simp
  then show "node_rids h (set_num_child (int n) b') = rs"
    unfolding node_rids_def c' N(3) nat_int using els N(3) by simp
  have "arr (set_num_child (int n) b') 28 w c = arr b 28 w c"
  proof (intro arr_cong)
    fix i assume i: "i < c"
    have "i * w + w \<le> m * w" using i N(11) by (intro elem_le) simp
    then have "28 + i * w + w \<le> r" using N(5) by simp
    moreover have "load (set_num_child (int n) b') (28 + i * w) w = load b' (28 + i * w) w"
      by (intro rest(4)) simp
    ultimately show "load (set_num_child (int n) b') (28 + i * w) w = load b (28 + i * w) w"
      using out[of "28 + i * w" w] N(3) by (simp del: of_nat_add of_nat_mult)
  qed
  then show "node_keys h (set_num_child (int n) b') = node_keys h b"
    unfolding node_keys_def c' N(1,9) nat_int by simp
qed

lemma insert_keys_list:
  assumes "ix_layout h" "node_ok h b" "p \<le> length (node_keys h b)"
    and room: "int (length (node_keys h b) + n) \<le> btree_order h + 1" and src: "n * nat (col_len h) \<le> length ks"
  obtains b' where "insert_keys h (int p) ks (int n) b = Inr b'" "node_ok h b'" "node_rids h b' = node_rids h b"
    "node_keys h b' = take p (node_keys h b) @ arr ks 0 (nat (col_len h)) n @ drop p (node_keys h b)"
    "get_header b' = (get_header b)\<lparr>num_key := int (length (node_keys h b) + n)\<rparr>"
proof -
  obtain w m r c d where N: "col_len h = int w" "btree_order h + 1 = int m" "rid_offset h = int r" "key_offset h = 28"
    "r = 28 + m * w" "r + m * 8 \<le> PAGE_SIZE" "0 < w" "3 < m" "num_key (get_header b) = int c" "num_child (get_header b) = int d"
    "c \<le> m" "d \<le> m" "length b = PAGE_SIZE" "node_keys h b = arr b 28 w c"
    "node_rids h b = map rid_of_bytes (arr b r 8 d)"
    using assms(1,2) by (rule node_nat)
  let ?b = "arr_insert b 28 w c p ks n"
  have p: "p \<le> c" and cn: "c + n \<le> m" and s: "n * w \<le> length ks" and cl: "length (node_keys h b) = c"
    using assms(3) room src N(1,2,14) by simp_all
  have rr: "(c + n) * w \<le> m * w" using cn by (intro mult_le_mono1)
  then have fit: "28 + (c + n) * w \<le> PAGE_SIZE" using N(5,6) by linarith
  have ok: "int_ok (int (c + n))" using cn N(6) by (intro small_ok) simp
  have run: "insert_keys h (int p) ks (int n) b = Inr (set_num_key (int (c + n)) ?b)"
    by (rule insert_keys_arr[OF N(4,1,9) p fit s ok N(13)])
  have fit': "28 + (c + n) * w \<le> length b" using fit N(13) by simp
  have lb: "length ?b = PAGE_SIZE" using arr_insert_length[OF fit' p s] N(13) by simp
  have out: "load ?b o1 k = load b o1 k" if "o1 + k \<le> 28 \<or> rid_offset h \<le> int o1" for o1 k
  proof (intro arr_insert_outside[OF fit' p s])
    have "o1 + k \<le> 28 \<or> r \<le> o1" using that N(3) by simp
    then show "o1 + k \<le> 28 \<or> 28 + (c + n) * w \<le> o1" using N(5) rr by linarith
  qed
  have els: "arr ?b 28 (nat (col_len h)) (c + n) =
      take p (node_keys h b) @ arr ks 0 (nat (col_len h)) n @ drop p (node_keys h b)"
    using arr_insert_elems[OF fit' p s] N(1,14) by simp
  have n': "int (c + n) \<le> btree_order h + 1" using room cl by simp
  note k = keys_changed[OF assms(1,2) lb n' out els]
  show ?thesis using that[OF run k(2,4,3)] k(1) cl by simp
qed

lemma erase_key_list:
  assumes "ix_layout h" "node_ok h b" "p < length (node_keys h b)"
  obtains b' where "erase_key h (int p) b = Inr b'" "node_ok h b'" "node_rids h b' = node_rids h b"
    "node_keys h b' = take p (node_keys h b) @ drop (Suc p) (node_keys h b)"
    "get_header b' = (get_header b)\<lparr>num_key := int (length (node_keys h b) - 1)\<rparr>"
proof -
  obtain w m r c d where N: "col_len h = int w" "btree_order h + 1 = int m" "rid_offset h = int r" "key_offset h = 28"
    "r = 28 + m * w" "r + m * 8 \<le> PAGE_SIZE" "0 < w" "3 < m" "num_key (get_header b) = int c" "num_child (get_header b) = int d"
    "c \<le> m" "d \<le> m" "length b = PAGE_SIZE" "node_keys h b = arr b 28 w c"
    "node_rids h b = map rid_of_bytes (arr b r 8 d)"
    using assms(1,2) by (rule node_nat)
  let ?b = "arr_erase b 28 w c p"
  have p: "p < c" and cl: "length (node_keys h b) = c" using assms(3) N(14) by simp_all
  have rr: "c * w \<le> m * w" using N(11) by (intro mult_le_mono1)
  then have fit: "28 + c * w \<le> PAGE_SIZE" using N(5,6) by linarith
  have ok: "int_ok (int c - 1)" using p N(6,11) by (intro small_ok) simp_all
  have run: "erase_key h (int p) b = Inr (set_num_key (int (c - 1)) ?b)"
    by (rule erase_key_arr[OF N(4,1,9) p fit ok N(13)])
  have fit': "28 + c * w \<le> length b" using fit N(13) by simp
  have lb: "length ?b = PAGE_SIZE" using arr_erase_ranges(4)[OF fit' p] N(13) by simp
  have out: "load ?b o1 k = load b o1 k" if "o1 + k \<le> 28 \<or> rid_offset h \<le> int o1" for o1 k
  proof (intro arr_erase_outside[OF fit' p])
    have "o1 + k \<le> 28 \<or> r \<le> o1" using that N(3) by simp
    then show "o1 + k \<le> 28 \<or> 28 + c * w \<le> o1" using N(5) rr by linarith
  qed
  have els: "arr ?b 28 (nat (col_len h)) (c - 1) = take p (node_keys h b) @ drop (Suc p) (node_keys h b)"
    using arr_erase_elems[OF fit' p] N(1,14) by simp
  have n': "int (c - 1) \<le> btree_order h + 1" using N(2,11) by simp
  note k = keys_changed[OF assms(1,2) lb n' out els]
  show ?thesis using that[OF run k(2,4,3)] k(1) cl by simp
qed

lemma insert_rids_list:
  assumes "ix_layout h" "node_ok h b" "p \<le> length (node_rids h b)"
    and room: "int (length (node_rids h b) + n) \<le> btree_order h + 1" and src: "n * 8 \<le> length rs"
  obtains b' where "insert_record_ids h (int p) rs (int n) b = Inr b'" "node_ok h b'" "node_keys h b' = node_keys h b"
    "node_rids h b' = take p (node_rids h b) @ map rid_of_bytes (arr rs 0 8 n) @ drop p (node_rids h b)"
    "get_header b' = (get_header b)\<lparr>num_child := int (length (node_rids h b) + n)\<rparr>"
proof -
  obtain w m r c d where N: "col_len h = int w" "btree_order h + 1 = int m" "rid_offset h = int r" "key_offset h = 28"
    "r = 28 + m * w" "r + m * 8 \<le> PAGE_SIZE" "0 < w" "3 < m" "num_key (get_header b) = int c" "num_child (get_header b) = int d"
    "c \<le> m" "d \<le> m" "length b = PAGE_SIZE" "node_keys h b = arr b 28 w c"
    "node_rids h b = map rid_of_bytes (arr b r 8 d)"
    using assms(1,2) by (rule node_nat)
  let ?b = "arr_insert b r 8 d p rs n"
  have p: "p \<le> d" and cn: "d + n \<le> m" and cl: "length (node_rids h b) = d"
    using assms(3) room N(2,15) by simp_all
  have fit: "r + (d + n) * 8 \<le> PAGE_SIZE" using cn N(6) by simp
  have ok: "int_ok (int (d + n))" using cn N(6) by (intro small_ok) simp
  have run: "insert_record_ids h (int p) rs (int n) b = Inr (set_num_child (int (d + n)) ?b)"
    by (rule insert_rids_arr[OF N(3,10) p fit src ok N(13)])
  have fit': "r + (d + n) * 8 \<le> length b" using fit N(13) by simp
  have lb: "length ?b = PAGE_SIZE" using arr_insert_length[OF fit' p src] N(13) by simp
  have out: "load ?b o1 k = load b o1 k" if "int (o1 + k) \<le> rid_offset h" for o1 k
    using that N(3) by (intro arr_insert_outside[OF fit' p src]) simp
  have els: "map rid_of_bytes (arr ?b (nat (rid_offset h)) 8 (d + n)) =
      take p (node_rids h b) @ map rid_of_bytes (arr rs 0 8 n) @ drop p (node_rids h b)"
    using arr_insert_elems[OF fit' p src] N(3,15) by (simp add: take_map drop_map)
  have n': "int (d + n) \<le> btree_order h + 1" using room cl by simp
  note k = rids_changed[OF assms(1,2) lb n' out els]
  show ?thesis using that[OF run k(2,4,3)] k(1) cl by simp
qed

lemma erase_rid_list:
  assumes "ix_layout h" "node_ok h b" "p < length (node_rids h b)"
  obtains b' where "erase_record_id h (int p) b = Inr b'" "node_ok h b'" "node_keys h b' = node_keys h b"
    "node_rids h b' = take p (node_rids h b) @ drop (Suc p) (node_rids h b)"
    "get_header b' = (get_header b)\<lparr>num_child := int (length (node_rids h b) - 1)\<rparr>"
proof -
  obtain w m r c d where N: "col_len h = int w" "btree_order h + 1 = int m" "rid_offset h = int r" "key_offset h = 28"
    "r = 28 + m * w" "r + m * 8 \<le> PAGE_SIZE" "0 < w" "3 < m" "num_key (get_header b) = int c" "num_child (get_header b) = int d"
    "c \<le> m" "d \<le> m" "length b = PAGE_SIZE" "node_keys h b = arr b 28 w c"
    "node_rids h b = map rid_of_bytes (arr b r 8 d)"
    using assms(1,2) by (rule node_nat)
  let ?b = "arr_erase b r 8 d p"
  have p: "p < d" and cl: "length (node_rids h b) = d" using assms(3) N(15) by simp_all
  have fit: "r + d * 8 \<le> PAGE_SIZE" using N(6,12) by simp
  have ok: "int_ok (int d - 1)" using p N(6,12) by (intro small_ok) simp_all
  have run: "erase_record_id h (int p) b = Inr (set_num_child (int (d - 1)) ?b)"
    by (rule erase_rid_arr[OF N(3,10) p fit ok N(13)])
  have fit': "r + d * 8 \<le> length b" using fit N(13) by simp
  have lb: "length ?b = PAGE_SIZE" using arr_erase_ranges(4)[OF fit' p] N(13) by simp
  have out: "load ?b o1 k = load b o1 k" if "int (o1 + k) \<le> rid_offset h" for o1 k
    using that N(3) by (intro arr_erase_outside[OF fit' p]) simp
  have els: "map rid_of_bytes (arr ?b (nat (rid_offset h)) 8 (d - 1)) =
      take p (node_rids h b) @ drop (Suc p) (node_rids h b)"
    using arr_erase_elems[OF fit' p] N(3,15) by (simp add: take_map drop_map)
  have n': "int (d - 1) \<le> btree_order h + 1" using N(2,12) by simp
  note k = rids_changed[OF assms(1,2) lb n' out els]
  show ?thesis using that[OF run k(2,4,3)] k(1) cl by simp
qed

section \<open>Reading and searching\<close>

lemma get_key_list:
  assumes "ix_layout h" "node_ok h b" "i < length (node_keys h b)"
  shows "get_key h (int i) b = Inr (node_keys h b ! i)"
proof -
  obtain w m r c d where N: "col_len h = int w" "btree_order h + 1 = int m" "rid_offset h = int r" "key_offset h = 28"
    "r = 28 + m * w" "r + m * 8 \<le> PAGE_SIZE" "0 < w" "3 < m" "num_key (get_header b) = int c" "num_child (get_header b) = int d"
    "c \<le> m" "d \<le> m" "length b = PAGE_SIZE" "node_keys h b = arr b 28 w c"
    "node_rids h b = map rid_of_bytes (arr b r 8 d)"
    using assms(1,2) by (rule node_nat)
  have i: "i < c" using assms(3) N(14) by simp
  have "i * w + w \<le> m * w" using i N(11) by (intro elem_le) simp
  then have "in_page (int (28 + i * w)) (int w)" unfolding in_page_nat using N(5,6) by simp
  moreover have "key_at h (int i) = int (28 + i * w)" by (rule key_at_nat[OF N(4,1)])
  ultimately show ?thesis
    unfolding get_key_def read_keys_def N(1) N(14) by (simp add: nth_arr[OF i] del: of_nat_add of_nat_mult)
qed

lemma get_record_id_list:
  assumes "ix_layout h" "node_ok h b" "i < length (node_rids h b)"
  shows "get_record_id h (int i) b = Inr (node_rids h b ! i)"
proof -
  obtain w m r c d where N: "col_len h = int w" "btree_order h + 1 = int m" "rid_offset h = int r" "key_offset h = 28"
    "r = 28 + m * w" "r + m * 8 \<le> PAGE_SIZE" "0 < w" "3 < m" "num_key (get_header b) = int c" "num_child (get_header b) = int d"
    "c \<le> m" "d \<le> m" "length b = PAGE_SIZE" "node_keys h b = arr b 28 w c"
    "node_rids h b = map rid_of_bytes (arr b r 8 d)"
    using assms(1,2) by (rule node_nat)
  have i: "i < d" using assms(3) N(15) by simp
  have "in_page (int (r + i * 8)) (int 8)" unfolding in_page_nat using i N(6,12) by simp
  moreover have "rid_at h (int i) = int (r + i * 8)" by (rule rid_at_nat[OF N(3)])
  ultimately show ?thesis
    unfolding get_record_id_def read_rids_def N(15)
    by (simp add: nth_arr[OF i] i sizeof_RecordID_def del: of_nat_add of_nat_mult)
qed

text \<open>The search loop finds the border of a test that holds from some position on.\<close>

lemma bsearch_border:
  assumes "\<And>i. i < n \<Longrightarrow> P (int i) = Inr (k \<le> i)" "lo \<le> k" "k \<le> hi" "hi \<le> n"
  shows "bsearch P (int lo) (int hi) = Inr (int k)"
  using assms
proof (induction "hi - lo" arbitrary: lo hi rule: less_induct)
  case less
  show ?case
  proof (cases "lo < hi")
    case True
    define mid where "mid = (lo + hi) div 2"
    have mid: "(int lo + int hi) div 2 = int mid" "lo \<le> mid" "mid < hi"
      using True by (auto simp: mid_def)
    have P: "P (int mid) = Inr (k \<le> mid)" using less.prems mid by simp
    show ?thesis
    proof (cases "k \<le> mid")
      case k: True
      have "bsearch P (int lo) (int mid) = Inr (int k)"
        using less.hyps[of mid lo] less.prems mid k by simp
      then show ?thesis
        by (subst bsearch.simps) (use True mid(1) P k in simp)
    next
      case k: False
      have "bsearch P (int (Suc mid)) (int hi) = Inr (int k)"
        using less.hyps[of hi "Suc mid"] less.prems mid k by simp
      then show ?thesis
        by (subst bsearch.simps) (use True mid(1) P k in \<open>simp add: add.commute\<close>)
    qed
  next
    case False
    then show ?thesis using less.prems by (subst bsearch.simps) simp
  qed
qed

text \<open>The comparison of a key type as the C code computes it.\<close>

definition key_cmp :: "IndexFileHeader \<Rightarrow> byte list \<Rightarrow> byte list \<Rightarrow> int" where
  "key_cmp h a b = (case compare_keys a b (column_type h) (nat (col_len h)) of Inr c \<Rightarrow> c | Inl _ \<Rightarrow> 0)"

definition comparable :: "IndexFileHeader \<Rightarrow> byte list \<Rightarrow> byte list \<Rightarrow> bool" where
  "comparable h a b \<longleftrightarrow> compare_keys a b (column_type h) (nat (col_len h)) = Inr (key_cmp h a b)"

lemma comparable_unless_datetime: "column_type h \<noteq> TYPE_DATETIME \<Longrightarrow> comparable h a b"
  by (cases "column_type h") (simp_all add: comparable_def key_cmp_def compare_keys_type)

lemma compare_at_list:
  assumes "ix_layout h" "node_ok h b" "i < length (node_keys h b)" "comparable h t (node_keys h b ! i)"
  shows "compare_at h b t test (int i) = Inr (test (key_cmp h t (node_keys h b ! i)))"
  unfolding compare_at_def get_key_list[OF assms(1-3)] using assms(4) by (simp add: comparable_def)

text \<open>On sorted keys the two binary searches return what the linear loops of the source return.\<close>

lemma node_bounds_run:
  assumes "ix_layout h" "node_ok h b" and ord: "key_order (key_cmp h) V" and V: "V t" "\<forall>k \<in> set (node_keys h b). V k"
    and cmp: "\<forall>k \<in> set (node_keys h b). comparable h t k"
    and sorted: "sorted_wrt (\<lambda>x y. key_cmp h x y \<le> 0) (node_keys h b)"
  shows "node_lower_bound h t b = Inr (int (key_order.lin_lower (key_cmp h) t (node_keys h b)))"
    "node_upper_bound h t b = Inr (int (key_order.lin_upper (key_cmp h) t (node_keys h b)))"
proof -
  let ?K = "node_keys h b"
  note lin = key_order.lin_lower_iff[OF ord sorted V(2,1)] key_order.lin_upper_iff[OF ord sorted V(2,1)]
  have nk: "num_key (get_header b) = int (length ?K)"
    using assms(2) by (simp add: node_keys_def node_ok_def)
  have c: "compare_at h b t test (int i) = Inr (test (key_cmp h t (?K ! i)))" if "i < length ?K" for i test
    using compare_at_list[OF assms(1,2) that] cmp that by simp
  have L: "compare_at h b t (\<lambda>c. c \<le> 0) (int i) = Inr (key_order.lin_lower (key_cmp h) t ?K \<le> i)" if "i < length ?K" for i
    unfolding c[OF that] using lin(1)[OF that] by auto
  have "bsearch (compare_at h b t (\<lambda>c. c \<le> 0)) (int 0) (int (length ?K)) = Inr (int (key_order.lin_lower (key_cmp h) t ?K))"
    by (rule bsearch_border[OF L _ key_order.lin_bounds(1)[OF ord] order.refl]) simp_all
  then show "node_lower_bound h t b = Inr (int (key_order.lin_lower (key_cmp h) t ?K))"
    unfolding node_lower_bound_def nk by simp
  have U: "compare_at h b t (\<lambda>c. c < 0) (int i) = Inr (key_order.lin_upper (key_cmp h) t ?K \<le> i)" if "i < length ?K" for i
    unfolding c[OF that] using lin(2)[OF that] by auto
  have "bsearch (compare_at h b t (\<lambda>c. c < 0)) (int 0) (int (length ?K)) = Inr (int (key_order.lin_upper (key_cmp h) t ?K))"
    by (rule bsearch_border[OF U _ key_order.lin_bounds(2)[OF ord] order.refl]) simp_all
  then show "node_upper_bound h t b = Inr (int (key_order.lin_upper (key_cmp h) t ?K))"
    unfolding node_upper_bound_def nk by simp
qed

text \<open>\<open>find_child\<close> is the position of the first child on that page, or the assertion fails.\<close>

lemma find_child_from_run:
  assumes "ix_layout h" "node_ok h b" "i \<le> length (node_rids h b)"
  shows "find_child_from h c b (int i) =
    (let k = length (takeWhile (\<lambda>r. rid_page r \<noteq> c) (drop i (node_rids h b)))
     in if i + k < length (node_rids h b) then Inr (int (i + k)) else Inl AssertFail)"
  using assms(3)
proof (induction "length (node_rids h b) - i" arbitrary: i)
  case 0
  then have i: "i = length (node_rids h b)" by simp
  have "num_child (get_header b) = int (length (node_rids h b))"
    using assms(2) by (simp add: node_rids_def node_ok_def)
  then show ?case using i by (subst find_child_from.simps) simp
next
  case (Suc x)
  then have i: "i < length (node_rids h b)" by simp
  have nc: "num_child (get_header b) = int (length (node_rids h b))"
    using assms(2) by (simp add: node_rids_def node_ok_def)
  have IH: "find_child_from h c b (int (Suc i)) =
    (let k = length (takeWhile (\<lambda>r. rid_page r \<noteq> c) (drop (Suc i) (node_rids h b)))
     in if Suc i + k < length (node_rids h b) then Inr (int (Suc i + k)) else Inl AssertFail)"
    using Suc.hyps(1)[of "Suc i"] Suc.hyps(2) i by simp
  have d: "drop i (node_rids h b) = node_rids h b ! i # drop (Suc i) (node_rids h b)"
    using i by (rule Cons_nth_drop_Suc[symmetric])
  show ?case
    by (subst find_child_from.simps)
      (use i nc d IH get_record_id_list[OF assms(1,2) i] in \<open>simp add: Let_def add.commute\<close>)
qed

lemma find_child_run:
  assumes "ix_layout h" "node_ok h b"
  shows "find_child h c b =
    (let k = length (takeWhile (\<lambda>r. rid_page r \<noteq> c) (node_rids h b))
     in if k < length (node_rids h b) then Inr (int k) else Inl AssertFail)"
  using find_child_from_run[OF assms, of 0 c] by (simp add: find_child_def Let_def)

section \<open>The orders of the key types\<close>

definition key_ok :: "IndexFileHeader \<Rightarrow> byte list \<Rightarrow> bool" where
  "key_ok h k \<longleftrightarrow> length k = nat (col_len h) \<and> (column_type h = TYPE_FLOAT \<longrightarrow> \<not> float_nan (float_bits k))"

lemma key_order_transfer:
  assumes "key_order c P" "\<And>a b. Q a \<Longrightarrow> Q b \<Longrightarrow> d a b = c a b" "\<And>a. Q a \<Longrightarrow> P a"
  shows "key_order d Q"
proof
  fix a b x
  show "d a b < 0 \<longleftrightarrow> 0 < d b a" if "Q a" "Q b"
    using key_order.cmp_anti[OF assms(1), of a b] assms(2,3) that by simp
  show "d a x \<le> 0" if "Q a" "Q b" "Q x" "d a b \<le> 0" "d b x \<le> 0"
    using key_order.cmp_trans[OF assms(1), of a b x] assms(2,3) that by simp
qed

lemma key_cmp_order:
  assumes "column_type h \<noteq> TYPE_DATETIME"
  shows "key_order (key_cmp h) (key_ok h)"
proof (cases "column_type h")
  case TYPE_INT
  show ?thesis
    by (rule key_order_transfer[OF int_keys.key_order_axioms]) (simp_all add: key_cmp_def TYPE_INT compare_keys_type)
next
  case TYPE_FLOAT
  show ?thesis
    by (rule key_order_transfer[OF float_keys.key_order_axioms])
      (simp_all add: key_cmp_def TYPE_FLOAT compare_keys_type key_ok_def)
next
  case TYPE_STRING
  show ?thesis
    by (rule key_order_transfer[OF string_keys.key_order_axioms[of "nat (col_len h)"]])
      (simp_all add: key_cmp_def TYPE_STRING compare_keys_type key_ok_def)
next
  case TYPE_DATETIME
  then show ?thesis using assms by simp
qed

text \<open>Inserting where \<open>upper_bound\<close> points keeps a node sorted; this is the leaf step of \<open>insert_entry\<close>.\<close>

definition node_sorted :: "IndexFileHeader \<Rightarrow> byte list \<Rightarrow> bool" where
  "node_sorted h b \<longleftrightarrow> (\<forall>k \<in> set (node_keys h b). key_ok h k) \<and>
     sorted_wrt (\<lambda>x y. key_cmp h x y \<le> 0) (node_keys h b)"

lemma arr_single: "length k = w \<Longrightarrow> arr k 0 w 1 = [k]"
  by (simp add: arr_def load_def)

lemma node_insert_sorted:
  assumes "ix_layout h" "node_ok h b" "column_type h \<noteq> TYPE_DATETIME" "node_sorted h b" "key_ok h k"
    and room: "int (length (node_keys h b)) \<le> btree_order h"
  obtains p b' where "node_upper_bound h k b = Inr (int p)" "p \<le> length (node_keys h b)"
    "insert_key h (int p) k b = Inr b'" "node_ok h b'" "node_sorted h b'"
    "node_keys h b' = take p (node_keys h b) @ k # drop p (node_keys h b)" "node_rids h b' = node_rids h b"
    "get_header b' = (get_header b)\<lparr>num_key := num_key (get_header b) + 1\<rparr>"
proof -
  let ?K = "node_keys h b"
  note ord = key_cmp_order[OF assms(3)]
  have K: "\<forall>k \<in> set ?K. key_ok h k" "sorted_wrt (\<lambda>x y. key_cmp h x y \<le> 0) ?K"
    using assms(4) by (simp_all add: node_sorted_def)
  define p where "p = key_order.lin_upper (key_cmp h) k ?K"
  have p: "p \<le> length ?K" unfolding p_def by (rule key_order.lin_bounds(2)[OF ord])
  have run: "node_upper_bound h k b = Inr (int p)"
    unfolding p_def using comparable_unless_datetime[OF assms(3)] K assms(5)
    by (intro node_bounds_run(2)[OF assms(1,2) ord]) simp_all
  have w: "1 * nat (col_len h) \<le> length k" using assms(5) by (simp add: key_ok_def)
  have room': "int (length ?K + 1) \<le> btree_order h + 1" using room by simp
  obtain b' where b': "insert_keys h (int p) k (int 1) b = Inr b'" "node_ok h b'" "node_rids h b' = node_rids h b"
    "node_keys h b' = take p ?K @ arr k 0 (nat (col_len h)) 1 @ drop p ?K"
    "get_header b' = (get_header b)\<lparr>num_key := int (length ?K + 1)\<rparr>"
    by (rule insert_keys_list[OF assms(1,2) p room' w])
  have k1: "arr k 0 (nat (col_len h)) 1 = [k]" using assms(5) by (intro arr_single) (simp add: key_ok_def)
  have keys: "node_keys h b' = take p ?K @ k # drop p ?K" using b'(4) unfolding k1 by simp
  have "sorted_wrt (\<lambda>x y. key_cmp h x y \<le> 0) (node_keys h b')"
    unfolding keys p_def by (rule key_order.insert_upper_sorted[OF ord K(2,1) assms(5)])
  moreover have "\<forall>k \<in> set (node_keys h b'). key_ok h k"
    unfolding keys using K(1) assms(5) by (auto dest: in_set_takeD in_set_dropD)
  ultimately have sorted: "node_sorted h b'" by (simp add: node_sorted_def)
  have nk: "num_key (get_header b) = int (length ?K)"
    using assms(2) by (simp add: node_keys_def node_ok_def)
  have "get_header b' = (get_header b)\<lparr>num_key := num_key (get_header b) + 1\<rparr>"
    unfolding b'(5) nk by (simp add: add.commute)
  then show ?thesis
    using that[OF run p _ b'(2) sorted keys b'(3)] b'(1) by (simp add: insert_key_def)
qed

end
