(* ===== verification/IndexTree.thy ===== *)
theory IndexTree
  imports IndexNodeProps PfManager "HOL-Library.Signed_Division"
begin

text \<open>
  The class \<open>IndexHandle\<close> of \<open>index_handler/ndx_handler.{h,cpp}\<close>, with \<open>ndx_iterator.{h,cpp}\<close>
  and \<open>ndx_manager.{h,cpp}\<close>: the B+ tree of an index file over the buffer pool. A method runs
  on the handle (its descriptor and the file header in memory) together with the pool, and
  what it has changed of either stays when it throws. An \<open>IndexNodeHandle\<close> is the index of the
  cache page that holds the node: its \<open>header\<close>, \<open>keys\<close> and \<open>record_pointers\<close> are read from the
  buffer each time, as the pointers of the source are. The loops take fuel; \<open>NoReturn\<close> is the
  outcome when it is used up.
\<close>

section \<open>The handle\<close>

record IndexHandle =
  ih_fd :: int
  index_header :: IndexFileHeader

type_synonym ('z, 'a) ix_prog = "(IndexHandle \<times> 'z pf_state_scheme, stop, 'a) prog"

definition pf :: "('z, 'a) pf_prog \<Rightarrow> ('z, 'a) ix_prog" where
  "pf m = (\<lambda>(ih, s). case m s of (r, t) \<Rightarrow> (r, (ih, t)))"

definition the_handle :: "('z, IndexHandle) ix_prog" where
  "the_handle = gets fst"

definition the_header :: "('z, IndexFileHeader) ix_prog" where
  "the_header = gets (\<lambda>(ih, s). index_header ih)"

definition upd_header :: "(IndexFileHeader \<Rightarrow> IndexFileHeader) \<Rightarrow> ('z, unit) ix_prog" where
  "upd_header f = modify (\<lambda>(ih, s). (ih\<lparr>index_header := f (index_header ih)\<rparr>, s))"

text \<open>Looking at a node, and changing it, through its page.\<close>

definition node_header :: "nat \<Rightarrow> ('z, IndexPageHeader) ix_prog" where
  "node_header i = gets (\<lambda>(ih, s). get_header (page_bytes i s))"

definition node_page :: "nat \<Rightarrow> ('z, int) ix_prog" where
  "node_page i = gets (\<lambda>(ih, s). pid_page (page_ident i s))"

definition node_read :: "(IndexFileHeader \<Rightarrow> byte list \<Rightarrow> stop + 'a) \<Rightarrow> nat \<Rightarrow> ('z, 'a) ix_prog" where
  "node_read f i = (\<lambda>(ih, s). (f (index_header ih) (page_bytes i s), (ih, s)))"

definition node_edit :: "(IndexFileHeader \<Rightarrow> byte list \<Rightarrow> stop + byte list) \<Rightarrow> nat \<Rightarrow> ('z, unit) ix_prog" where
  "node_edit f i = andThen (node_read f i) (\<lambda>b. pf (edit_buf i (\<lambda>_. b)))"

definition node_set :: "(byte list \<Rightarrow> byte list) \<Rightarrow> nat \<Rightarrow> ('z, unit) ix_prog" where
  "node_set f i = pf (edit_buf i f)"

definition node_mark :: "nat \<Rightarrow> ('z, unit) ix_prog" where
  "node_mark i = pf (mark_dirty i)"

section \<open>Nodes of the tree\<close>

definition get_node :: "int \<Rightarrow> ('z, nat) ix_prog" where
  "get_node page_no =
     andThen the_handle (\<lambda>ih.
     andThen (ensure (page_no < ix_num_pages (index_header ih)) AssertFail) (\<lambda>_.
     pf (fetch_page (ih_fd ih) page_no)))"

definition create_node :: "('z, nat) ix_prog" where
  "create_node =
     andThen the_handle (\<lambda>ih.
     andThen (if ix_first_free (index_header ih) = NDX_NO_PAGE then
          andThen (pf (create_page (ih_fd ih) (ix_num_pages (index_header ih)))) (\<lambda>i.
          andThen (ensure (int_ok (ix_num_pages (index_header ih) + 1)) Undefined) (\<lambda>_.
          andThen (upd_header (\<lambda>h. h\<lparr>ix_num_pages := ix_num_pages h + 1\<rparr>)) (\<lambda>_. ret i)))
        else
          andThen (pf (fetch_page (ih_fd ih) (ix_first_free (index_header ih)))) (\<lambda>i.
          andThen (node_header i) (\<lambda>hd.
          andThen (upd_header (\<lambda>h. h\<lparr>ix_first_free := next_free hd\<rparr>)) (\<lambda>_. ret i)))) (\<lambda>i.
     andThen (node_mark i) (\<lambda>_. ret i)))"

definition release_node :: "nat \<Rightarrow> ('z, unit) ix_prog" where
  "release_node node =
     andThen the_header (\<lambda>h.
     andThen (node_set (set_next_free (ix_first_free h)) node) (\<lambda>_.
     andThen (node_page node) (\<lambda>page_no.
     upd_header (\<lambda>h. h\<lparr>ix_first_free := page_no\<rparr>))))"

section \<open>Searching\<close>

definition leaf_begin :: "('z, IndexID) ix_prog" where
  "leaf_begin = andThen the_header (\<lambda>h. ret (IndexID (first_leaf h) 0))"

definition leaf_end :: "('z, IndexID) ix_prog" where
  "leaf_end =
     andThen the_header (\<lambda>h.
     andThen (get_node (last_leaf h)) (\<lambda>node.
     andThen (node_header node) (\<lambda>hd.
     ret (IndexID (last_leaf h) (num_key hd)))))"

definition index_record_id :: "IndexID \<Rightarrow> ('z, RecordID) ix_prog" where
  "index_record_id index_id =
     andThen (ensure (\<not> (page_number index_id = -1 \<and> slot_number index_id = -1))
       (Throw IndexEntryNotFoundError)) (\<lambda>_.
     andThen (get_node (page_number index_id)) (\<lambda>node.
     andThen (node_header node) (\<lambda>hd.
     andThen (ensure (is_leaf hd)
       (Throw (InternalError ''Attempting to get record ID from non-leaf node''))) (\<lambda>_.
     andThen (ensure (slot_number index_id < num_key hd) (Throw IndexEntryNotFoundError)) (\<lambda>_.
     node_read (\<lambda>h. get_record_id h (slot_number index_id)) node)))))"

text \<open>
  The way down: \<open>Some\<close> the leaf, or \<open>None\<close> when every key of an inner node is passed (the
  source returns \<open>leaf_end()\<close>). A path without a repeated page has at most as many nodes as
  the file has pages, and a search that meets a page again goes round forever.
\<close>

fun descend :: "nat \<Rightarrow> (IndexFileHeader \<Rightarrow> byte list \<Rightarrow> stop + int) \<Rightarrow> nat \<Rightarrow> ('z, nat option) ix_prog" where
  "descend 0 search node = throw NoReturn"
| "descend (Suc fuel) search node =
     andThen (node_header node) (\<lambda>hd.
     if is_leaf hd then ret (Some node)
     else
       andThen (node_read search node) (\<lambda>key_idx.
       if num_key hd \<le> key_idx then ret None
       else
         andThen (node_read (\<lambda>h. get_record_id h key_idx) node) (\<lambda>child.
         andThen (get_node (rid_page child)) (\<lambda>node. descend fuel search node))))"

definition index_bound :: "(IndexFileHeader \<Rightarrow> byte list \<Rightarrow> stop + int) \<Rightarrow> ('z, IndexID) ix_prog" where
  "index_bound search =
     andThen the_header (\<lambda>h.
     andThen (get_node (root_page h)) (\<lambda>root.
     andThen (descend (nat (ix_num_pages h)) search root) (\<lambda>found.
     case found of
       None \<Rightarrow> leaf_end
     | Some node \<Rightarrow>
         andThen (node_read search node) (\<lambda>slot.
         andThen (node_header node) (\<lambda>hd.
         if num_key hd \<le> slot then
           (if next_leaf hd = NDX_LEAF_HEADER_PAGE \<or> next_leaf hd = NDX_NO_PAGE then leaf_end
            else ret (IndexID (next_leaf hd) 0))
         else andThen (node_page node) (\<lambda>page_no. ret (IndexID page_no slot)))))))"

definition index_lower_bound :: "byte list \<Rightarrow> ('z, IndexID) ix_prog" where
  "index_lower_bound target = index_bound (\<lambda>h. node_lower_bound h target)"

definition index_upper_bound :: "byte list \<Rightarrow> ('z, IndexID) ix_prog" where
  "index_upper_bound target = index_bound (\<lambda>h. node_upper_bound h target)"

section \<open>IndexIterator\<close>

record IndexIterator =
  current_index :: IndexID
  end_index :: IndexID

definition ix_is_end :: "IndexIterator \<Rightarrow> bool" where
  "ix_is_end it \<longleftrightarrow> current_index it = end_index it"

definition ix_get_RecordID :: "IndexIterator \<Rightarrow> ('z, RecordID) ix_prog" where
  "ix_get_RecordID it = index_record_id (current_index it)"

definition ix_next :: "IndexIterator \<Rightarrow> ('z, IndexIterator) ix_prog" where
  "ix_next it =
     andThen (ensure (\<not> ix_is_end it) AssertFail) (\<lambda>_.
     andThen (get_node (page_number (current_index it))) (\<lambda>node.
     andThen (node_header node) (\<lambda>hd.
     andThen (ensure (is_leaf hd) AssertFail) (\<lambda>_.
     andThen (ensure (slot_number (current_index it) < num_key hd) AssertFail) (\<lambda>_.
     if num_key hd \<le> slot_number (current_index it) + 1 then
       (if next_leaf hd = NDX_LEAF_HEADER_PAGE \<or> next_leaf hd = NDX_NO_PAGE
        then andThen leaf_end (\<lambda>iid. ret (it\<lparr>current_index := iid\<rparr>))
        else ret (it\<lparr>current_index := IndexID (next_leaf hd) 0\<rparr>))
     else ret (it\<lparr>current_index :=
       IndexID (page_number (current_index it)) (slot_number (current_index it) + 1)\<rparr>))))))"

end
