(* ===== verification/IndexUpdate.thy ===== *)
theory IndexUpdate
  imports IndexTree
begin

text \<open>
  The updates of \<open>IndexHandle\<close> (\<open>maintain_parent\<close>, \<open>erase_leaf\<close>, \<open>maintain_child\<close>,
  \<open>insert_entry\<close>, \<open>delete_entry\<close>) and the class \<open>IndexManager\<close>. The overflow and underflow
  loops are split into the blocks of their bodies, in the order of the source.
\<close>

section \<open>Keeping parents, children and the leaf list\<close>

definition put_key :: "IndexFileHeader \<Rightarrow> int \<Rightarrow> byte list \<Rightarrow> byte list \<Rightarrow> stop + byte list" where
  "put_key h key_id k b = (if in_page (key_at h key_id) (col_len h) \<and> length k = nat (col_len h)
     then Inr (store b (nat (key_at h key_id)) k) else Inl Undefined)"

text \<open>The step of the loop at \<open>cur\<close> with its parent page fetched: refresh the key of \<open>cur\<close>.\<close>

definition update_parent_key :: "nat \<Rightarrow> nat \<Rightarrow> ('z, unit) ix_prog" where
  "update_parent_key parent_node cur =
     andThen (node_page cur) (\<lambda>child_page.
     andThen (node_read (\<lambda>h. find_child h child_page) parent_node) (\<lambda>rank.
     andThen (node_header cur) (\<lambda>chd.
     andThen (node_read (\<lambda>h. get_key h (num_key chd - 1)) cur) (\<lambda>child_max_key.
     andThen (node_header parent_node) (\<lambda>phd.
     if num_key phd \<le> rank then
       node_edit (\<lambda>h. insert_key h (num_key phd) child_max_key) parent_node
     else
       andThen (node_read (\<lambda>h. get_key h rank) parent_node) (\<lambda>parent_key.
       whenP (memcmp parent_key child_max_key \<noteq> 0)
         (node_edit (\<lambda>h. put_key h rank child_max_key) parent_node)))))))"

fun maintain_parent_loop :: "nat \<Rightarrow> nat \<Rightarrow> ('z, unit) ix_prog" where
  "maintain_parent_loop 0 cur = throw NoReturn"
| "maintain_parent_loop (Suc fuel) cur =
     andThen (node_header cur) (\<lambda>hd.
     if parent hd = NDX_NO_PAGE then ret ()
     else if num_key hd = 0 then
       andThen (get_node (parent hd)) (\<lambda>parent_node. maintain_parent_loop fuel parent_node)
     else
       andThen (get_node (parent hd)) (\<lambda>parent_node.
       andThen (node_mark parent_node) (\<lambda>_.
       andThen (update_parent_key parent_node cur) (\<lambda>_.
       maintain_parent_loop fuel parent_node))))"

text \<open>The fuel of the loops that climb the tree: a path has at most as many nodes as the file has
  pages; the overflow loop may allocate a new root above the old one.\<close>

definition climb_fuel :: "IndexFileHeader \<Rightarrow> nat" where
  "climb_fuel h = nat (ix_num_pages h) + 2"

definition maintain_parent :: "nat \<Rightarrow> ('z, unit) ix_prog" where
  "maintain_parent node = andThen the_header (\<lambda>h. maintain_parent_loop (climb_fuel h) node)"

definition erase_leaf :: "nat \<Rightarrow> ('z, unit) ix_prog" where
  "erase_leaf leaf =
     andThen (node_header leaf) (\<lambda>hd.
     andThen (ensure (is_leaf hd) AssertFail) (\<lambda>_.
     andThen (get_node (prev_leaf hd)) (\<lambda>prev.
     andThen (node_mark prev) (\<lambda>_.
     andThen (node_header leaf) (\<lambda>hd.
     andThen (node_set (set_next_leaf (next_leaf hd)) prev) (\<lambda>_.
     andThen (node_header leaf) (\<lambda>hd.
     andThen (get_node (next_leaf hd)) (\<lambda>next.
     andThen (node_mark next) (\<lambda>_.
     andThen (node_header leaf) (\<lambda>hd.
     node_set (set_prev_leaf (prev_leaf hd)) next))))))))))"

definition maintain_child :: "nat \<Rightarrow> int \<Rightarrow> ('z, unit) ix_prog" where
  "maintain_child node child_idx =
     andThen (node_header node) (\<lambda>hd.
     whenP (\<not> is_leaf hd)
       (andThen (node_read (\<lambda>h. get_record_id h child_idx) node) (\<lambda>rid.
        andThen (get_node (rid_page rid)) (\<lambda>child.
        andThen (node_mark child) (\<lambda>_.
        andThen (node_page node) (\<lambda>page_no.
        node_set (set_parent page_no) child))))))"

text \<open>\<open>for (i = from; i < upto; i++) maintain_child(node, i)\<close>\<close>

definition maintain_children :: "nat \<Rightarrow> int \<Rightarrow> int \<Rightarrow> ('z, unit) ix_prog" where
  "maintain_children node from upto_idx = forEach [from..upto_idx - 1] (maintain_child node)"

section \<open>insert_entry\<close>

text \<open>The current node is the root: a new root above it, with the node as its only child.\<close>

definition grow_root :: "nat \<Rightarrow> ('z, unit) ix_prog" where
  "grow_root node =
     andThen create_node (\<lambda>root.
     andThen (node_set (put_header \<lparr>next_free = NDX_NO_PAGE, parent = NDX_NO_PAGE, num_key = 0,
        num_child = 0, is_leaf = False, prev_leaf = NDX_NO_PAGE, next_leaf = NDX_NO_PAGE\<rparr>) root) (\<lambda>_.
     andThen (node_page node) (\<lambda>cur_page.
     andThen (node_edit (\<lambda>h. insert_record_id h 0 (RecordID cur_page (-1))) root) (\<lambda>_.
     andThen (node_header node) (\<lambda>hd.
     andThen (node_read (\<lambda>h. get_key h (num_key hd - 1)) node) (\<lambda>max_key.
     andThen (node_edit (\<lambda>h. insert_key h 0 max_key) root) (\<lambda>_.
     andThen (node_page root) (\<lambda>root_no.
     andThen (node_set (set_parent root_no) node) (\<lambda>_.
     upd_header (\<lambda>h. h\<lparr>root_page := root_no\<rparr>))))))))))"

text \<open>The brother node, linked into the leaf list behind a leaf.\<close>

definition new_brother :: "nat \<Rightarrow> ('z, nat) ix_prog" where
  "new_brother node =
     andThen create_node (\<lambda>bro.
     andThen (node_header node) (\<lambda>hd.
     andThen (node_set (put_header \<lparr>next_free = NDX_NO_PAGE, parent = parent hd, num_key = 0,
        num_child = 0, is_leaf = is_leaf hd, prev_leaf = NDX_NO_PAGE, next_leaf = NDX_NO_PAGE\<rparr>) bro) (\<lambda>_.
     andThen (whenP (is_leaf hd)
       (andThen (node_page node) (\<lambda>node_no.
        andThen (node_set (\<lambda>b. set_prev_leaf node_no (set_next_leaf (next_leaf hd) b)) bro) (\<lambda>_.
        andThen (get_node (next_leaf hd)) (\<lambda>next.
        andThen (node_mark next) (\<lambda>_.
        andThen (node_page bro) (\<lambda>bro_no.
        andThen (node_set (set_prev_leaf bro_no) next) (\<lambda>_.
        node_set (set_next_leaf bro_no) node)))))))) (\<lambda>_.
     ret bro))))"

text \<open>Keys and children from the middle on move to the brother.\<close>

definition move_half :: "nat \<Rightarrow> nat \<Rightarrow> ('z, int) ix_prog" where
  "move_half node bro =
     andThen (node_header node) (\<lambda>hd.
     (let split_idx = num_child hd sdiv 2; num_transfer = num_key hd - split_idx in
     andThen (node_read (\<lambda>h. read_keys h split_idx num_transfer) node) (\<lambda>ks.
     andThen (node_edit (\<lambda>h. insert_keys h 0 ks num_transfer) bro) (\<lambda>_.
     andThen (node_read (\<lambda>h. read_rids h split_idx num_transfer) node) (\<lambda>rids.
     andThen (node_edit (\<lambda>h. insert_record_ids h 0 rids num_transfer) bro) (\<lambda>_.
     andThen (node_set (\<lambda>b. set_num_child split_idx (set_num_key split_idx b)) node) (\<lambda>_.
     andThen (node_header bro) (\<lambda>bhd.
     andThen (maintain_children bro 0 (num_child bhd)) (\<lambda>_.
     ret split_idx)))))))))"

text \<open>The last key of the node goes up, the brother becomes the next child of the parent.\<close>

definition link_brother :: "nat \<Rightarrow> nat \<Rightarrow> int \<Rightarrow> ('z, nat) ix_prog" where
  "link_brother node bro split_idx =
     andThen (node_header node) (\<lambda>hd.
     andThen (get_node (parent hd)) (\<lambda>parent_node.
     andThen (node_mark parent_node) (\<lambda>_.
     andThen (node_page node) (\<lambda>node_no.
     andThen (node_read (\<lambda>h. find_child h node_no) parent_node) (\<lambda>child_idx.
     andThen (node_read (\<lambda>h. get_key h (split_idx - 1)) node) (\<lambda>popup_key.
     andThen (node_edit (\<lambda>h. insert_key h child_idx popup_key) parent_node) (\<lambda>_.
     andThen (node_page bro) (\<lambda>bro_no.
     andThen (node_edit (\<lambda>h. insert_record_id h (child_idx + 1) (RecordID bro_no (-1))) parent_node) (\<lambda>_.
     andThen (upd_header (\<lambda>h. if last_leaf h = node_no then h\<lparr>last_leaf := bro_no\<rparr> else h)) (\<lambda>_.
     ret parent_node))))))))))"

definition split_node :: "nat \<Rightarrow> ('z, nat) ix_prog" where
  "split_node node =
     andThen (node_header node) (\<lambda>hd.
     andThen (whenP (parent hd = NDX_NO_PAGE) (grow_root node)) (\<lambda>_.
     andThen (new_brother node) (\<lambda>bro.
     andThen (move_half node bro) (\<lambda>split_idx.
     link_brother node bro split_idx))))"

fun solve_overflow :: "nat \<Rightarrow> nat \<Rightarrow> ('z, unit) ix_prog" where
  "solve_overflow 0 node = throw NoReturn"
| "solve_overflow (Suc fuel) node =
     andThen (node_header node) (\<lambda>hd.
     andThen the_header (\<lambda>h.
     if num_child hd \<le> btree_order h then ret ()
     else andThen (split_node node) (\<lambda>parent_node. solve_overflow fuel parent_node)))"

definition insert_entry :: "byte list \<Rightarrow> RecordID \<Rightarrow> ('z, unit) ix_prog" where
  "insert_entry key rid =
     andThen (index_upper_bound key) (\<lambda>iid.
     andThen (get_node (page_number iid)) (\<lambda>node.
     andThen (node_mark node) (\<lambda>_.
     andThen (node_edit (\<lambda>h. insert_key h (slot_number iid) key) node) (\<lambda>_.
     andThen (node_edit (\<lambda>h. insert_record_id h (slot_number iid) rid) node) (\<lambda>_.
     andThen (node_header node) (\<lambda>hd.
     andThen the_header (\<lambda>h.
     andThen (whenP (page_number iid = last_leaf h \<and> slot_number iid = num_key hd - 1)
       (maintain_parent node)) (\<lambda>_.
     solve_overflow (climb_fuel h) node))))))))"

section \<open>delete_entry\<close>

definition min_children :: "IndexFileHeader \<Rightarrow> int" where
  "min_children h = (btree_order h + 1) sdiv 2"

text \<open>The node is the root: an inner root with one child left makes way for the child.\<close>

definition shrink_root :: "nat \<Rightarrow> ('z, unit) ix_prog" where
  "shrink_root node =
     andThen (node_header node) (\<lambda>hd.
     whenP (\<not> is_leaf hd \<and> num_key hd \<le> 1)
       (andThen (node_read (\<lambda>h. get_record_id h 0) node) (\<lambda>rid.
        andThen (get_node (rid_page rid)) (\<lambda>new_root.
        andThen (node_mark new_root) (\<lambda>_.
        andThen (node_set (set_parent NDX_NO_PAGE) new_root) (\<lambda>_.
        andThen (upd_header (\<lambda>h. h\<lparr>root_page := rid_page rid\<rparr>)) (\<lambda>_.
        release_node node)))))))"

text \<open>Moving entry \<open>from\<close> of one node to position \<open>to\<close> of another, as borrowing does.\<close>

definition move_entry :: "nat \<Rightarrow> int \<Rightarrow> int \<Rightarrow> nat \<Rightarrow> int \<Rightarrow> int \<Rightarrow> ('z, unit) ix_prog" where
  "move_entry src key_from rid_from dst key_to rid_to =
     andThen (node_mark src) (\<lambda>_.
     andThen (node_read (\<lambda>h. get_key h key_from) src) (\<lambda>k.
     andThen (node_edit (\<lambda>h. insert_key h key_to k) dst) (\<lambda>_.
     andThen (node_read (\<lambda>h. get_record_id h rid_from) src) (\<lambda>rid.
     andThen (node_edit (\<lambda>h. insert_record_id h rid_to rid) dst) (\<lambda>_.
     andThen (node_edit (\<lambda>h. erase_key h key_from) src) (\<lambda>_.
     node_edit (\<lambda>h. erase_record_id h rid_from) src))))))"

definition borrow_left :: "nat \<Rightarrow> nat \<Rightarrow> int \<Rightarrow> ('z, bool) ix_prog" where
  "borrow_left node parent_node child_idx =
     (if child_idx \<le> 0 then ret False
      else
        andThen (node_read (\<lambda>h. get_record_id h (child_idx - 1)) parent_node) (\<lambda>rid.
        andThen (get_node (rid_page rid)) (\<lambda>bro.
        andThen (node_header bro) (\<lambda>bhd.
        andThen the_header (\<lambda>h.
        if num_child bhd \<le> min_children h then ret False
        else
          andThen (move_entry bro (num_key bhd - 1) (num_child bhd - 1) node 0 0) (\<lambda>_.
          andThen (maintain_parent bro) (\<lambda>_.
          andThen (maintain_child node 0) (\<lambda>_. ret True))))))))"

definition borrow_right :: "nat \<Rightarrow> nat \<Rightarrow> int \<Rightarrow> ('z, bool) ix_prog" where
  "borrow_right node parent_node child_idx =
     andThen (node_header parent_node) (\<lambda>phd.
     if num_child phd \<le> child_idx + 1 then ret False
     else
       andThen (node_read (\<lambda>h. get_record_id h (child_idx + 1)) parent_node) (\<lambda>rid.
       andThen (get_node (rid_page rid)) (\<lambda>bro.
       andThen (node_header bro) (\<lambda>bhd.
       andThen the_header (\<lambda>h.
       if num_child bhd \<le> min_children h then ret False
       else
         andThen (node_header node) (\<lambda>hd.
         andThen (move_entry bro 0 0 node (num_key hd) (num_child hd)) (\<lambda>_.
         andThen (maintain_parent node) (\<lambda>_.
         andThen (node_header node) (\<lambda>hd.
         andThen (maintain_child node (num_child hd - 1)) (\<lambda>_. ret True))))))))))"

text \<open>Neither brother can give an entry: the node goes into its left brother.\<close>

definition merge_left :: "nat \<Rightarrow> nat \<Rightarrow> int \<Rightarrow> ('z, unit) ix_prog" where
  "merge_left node parent_node child_idx =
     andThen (node_read (\<lambda>h. get_record_id h (child_idx - 1)) parent_node) (\<lambda>rid.
     andThen (get_node (rid_page rid)) (\<lambda>bro.
     andThen (node_mark bro) (\<lambda>_.
     andThen (node_header node) (\<lambda>hd.
     andThen (node_header bro) (\<lambda>bhd.
     andThen (node_read (\<lambda>h. read_keys h 0 (num_key hd)) node) (\<lambda>ks.
     andThen (node_edit (\<lambda>h. insert_keys h (num_key bhd) ks (num_key hd)) bro) (\<lambda>_.
     andThen (node_read (\<lambda>h. read_rids h 0 (num_child hd)) node) (\<lambda>rids.
     andThen (node_edit (\<lambda>h. insert_record_ids h (num_child bhd) rids (num_child hd)) bro) (\<lambda>_.
     andThen (maintain_children bro (num_child bhd) (num_child bhd + num_child hd)) (\<lambda>_.
     andThen (node_edit (\<lambda>h. erase_key h child_idx) parent_node) (\<lambda>_.
     andThen (node_edit (\<lambda>h. erase_record_id h child_idx) parent_node) (\<lambda>_.
     andThen (maintain_parent bro) (\<lambda>_.
     andThen (node_header node) (\<lambda>hd.
     andThen (whenP (is_leaf hd) (erase_leaf node)) (\<lambda>_.
     andThen (node_page node) (\<lambda>node_no.
     andThen (node_page bro) (\<lambda>bro_no.
     andThen (upd_header (\<lambda>h. if last_leaf h = node_no then h\<lparr>last_leaf := bro_no\<rparr> else h)) (\<lambda>_.
     release_node node))))))))))))))))))"

text \<open>A node without left brother takes in its right one.\<close>

definition merge_right :: "nat \<Rightarrow> nat \<Rightarrow> int \<Rightarrow> ('z, unit) ix_prog" where
  "merge_right node parent_node child_idx =
     andThen (node_header parent_node) (\<lambda>phd.
     andThen (ensure (child_idx + 1 < num_child phd) AssertFail) (\<lambda>_.
     andThen (node_read (\<lambda>h. get_record_id h (child_idx + 1)) parent_node) (\<lambda>rid.
     andThen (get_node (rid_page rid)) (\<lambda>bro.
     andThen (node_mark bro) (\<lambda>_.
     andThen (node_header node) (\<lambda>hd.
     andThen (node_header bro) (\<lambda>bhd.
     andThen (node_read (\<lambda>h. read_rids h 0 (num_child bhd)) bro) (\<lambda>rids.
     andThen (node_edit (\<lambda>h. insert_record_ids h (num_child hd) rids (num_child bhd)) node) (\<lambda>_.
     andThen (node_read (\<lambda>h. read_keys h 0 (num_key bhd)) bro) (\<lambda>ks.
     andThen (node_edit (\<lambda>h. insert_keys h (num_key hd) ks (num_key bhd)) node) (\<lambda>_.
     andThen (maintain_children node (num_child hd) (num_child hd + num_child bhd)) (\<lambda>_.
     andThen (node_edit (\<lambda>h. erase_record_id h (child_idx + 1)) parent_node) (\<lambda>_.
     andThen (node_edit (\<lambda>h. erase_key h child_idx) parent_node) (\<lambda>_.
     andThen (maintain_parent node) (\<lambda>_.
     andThen (node_header bro) (\<lambda>bhd.
     andThen (whenP (is_leaf bhd) (erase_leaf bro)) (\<lambda>_.
     andThen (node_page node) (\<lambda>node_no.
     andThen (node_page bro) (\<lambda>bro_no.
     andThen (upd_header (\<lambda>h. if last_leaf h = bro_no then h\<lparr>last_leaf := node_no\<rparr> else h)) (\<lambda>_.
     release_node bro))))))))))))))))))))"

text \<open>One turn of the loop: \<open>None\<close> is its \<open>break\<close>, \<open>Some\<close> the parent it goes on with.\<close>

definition underflow_step :: "nat \<Rightarrow> ('z, nat option) ix_prog" where
  "underflow_step node =
     andThen (node_header node) (\<lambda>hd.
     if parent hd = NDX_NO_PAGE then andThen (shrink_root node) (\<lambda>_. ret None)
     else
       andThen (get_node (parent hd)) (\<lambda>parent_node.
       andThen (node_mark parent_node) (\<lambda>_.
       andThen (node_page node) (\<lambda>node_no.
       andThen (node_read (\<lambda>h. find_child h node_no) parent_node) (\<lambda>child_idx.
       andThen (borrow_left node parent_node child_idx) (\<lambda>borrowed.
       if borrowed then ret None
       else
         andThen (borrow_right node parent_node child_idx) (\<lambda>borrowed.
         if borrowed then ret None
         else
           andThen (if 0 < child_idx then merge_left node parent_node child_idx
             else merge_right node parent_node child_idx) (\<lambda>_.
           ret (Some parent_node)))))))))"

fun solve_underflow :: "nat \<Rightarrow> nat \<Rightarrow> ('z, unit) ix_prog" where
  "solve_underflow 0 node = throw NoReturn"
| "solve_underflow (Suc fuel) node =
     andThen (node_header node) (\<lambda>hd.
     andThen the_header (\<lambda>h.
     if min_children h \<le> num_child hd then ret ()
     else
       andThen (underflow_step node) (\<lambda>step.
       case step of None \<Rightarrow> ret () | Some parent_node \<Rightarrow> solve_underflow fuel parent_node)))"

text \<open>The entry at slot \<open>slot\<close> of a leaf goes.\<close>

definition delete_at :: "nat \<Rightarrow> int \<Rightarrow> ('z, unit) ix_prog" where
  "delete_at node slot =
     andThen (node_mark node) (\<lambda>_.
     andThen (node_edit (\<lambda>h. erase_key h slot) node) (\<lambda>_.
     andThen (node_edit (\<lambda>h. erase_record_id h slot) node) (\<lambda>_.
     andThen (maintain_parent node) (\<lambda>_.
     andThen the_header (\<lambda>h.
     solve_underflow (climb_fuel h) node)))))"

text \<open>The scan over the entries of the key, up to the first with the record id.\<close>

fun delete_scan :: "nat \<Rightarrow> IndexIterator \<Rightarrow> RecordID \<Rightarrow> ('z, unit) ix_prog" where
  "delete_scan 0 scan rid = throw NoReturn"
| "delete_scan (Suc fuel) scan rid =
     (if ix_is_end scan then throw (Throw IndexEntryNotFoundError)
      else
        andThen (get_node (page_number (current_index scan))) (\<lambda>node.
        andThen (node_header node) (\<lambda>hd.
        andThen (ensure (is_leaf hd) AssertFail) (\<lambda>_.
        andThen (node_read (\<lambda>h. get_record_id h (slot_number (current_index scan))) node) (\<lambda>cur_rid.
        if cur_rid \<noteq> rid then
          andThen (ix_next scan) (\<lambda>scan. delete_scan fuel scan rid)
        else delete_at node (slot_number (current_index scan)))))))"

text \<open>A scan passes every slot of every page at most once, and once the end of each page.\<close>

definition scan_fuel :: "IndexFileHeader \<Rightarrow> nat" where
  "scan_fuel h = nat (ix_num_pages h) * (nat (btree_order h) + 2) + 1"

definition delete_entry :: "byte list \<Rightarrow> RecordID \<Rightarrow> ('z, unit) ix_prog" where
  "delete_entry key rid =
     andThen (index_lower_bound key) (\<lambda>lower.
     andThen (index_upper_bound key) (\<lambda>upper.
     andThen the_header (\<lambda>h.
     delete_scan (scan_fuel h) \<lparr>current_index = lower, end_index = upper\<rparr> rid)))"

section \<open>IndexManager\<close>

definition get_index_name :: "string \<Rightarrow> int \<Rightarrow> string" where
  "get_index_name filename index_number = filename @ ''.'' @ int_to_string index_number @ ''.ndx''"

definition index_exists :: "string \<Rightarrow> int \<Rightarrow> ('z, bool) pf_prog" where
  "index_exists filename index_number = is_file (get_index_name filename index_number)"

text \<open>
  \<open>(int)((PAGE_SIZE - sizeof(IndexPageHeader)) / (col_len + sizeof(RecordID)) - 1)\<close>: the operands
  are \<open>size_t\<close>, so a negative \<open>col_len\<close> is taken modulo 2 to the 64.
\<close>

definition new_btree_order :: "int \<Rightarrow> int" where
  "new_btree_order len = (int PAGE_SIZE - int sizeof_IndexPageHeader) div
     ((len + int sizeof_RecordID) mod 18446744073709551616) - 1"

definition new_index_header :: "ColumnType \<Rightarrow> int \<Rightarrow> IndexFileHeader" where
  "new_index_header type len = \<lparr>ix_first_free = NDX_NO_PAGE, ix_num_pages = NDX_INIT_NUM_PAGES,
     root_page = NDX_INIT_ROOT_PAGE, column_type = type, col_len = len,
     btree_order = new_btree_order len, key_offset = int sizeof_IndexPageHeader,
     rid_offset = int sizeof_IndexPageHeader + (new_btree_order len + 1) * len,
     first_leaf = NDX_INIT_ROOT_PAGE, last_leaf = NDX_INIT_ROOT_PAGE\<rparr>"

text \<open>The two static buffers hold zeros behind the header that is assigned each time.\<close>

definition leaf_header_page :: "byte list" where
  "leaf_header_page = put_header \<lparr>next_free = NDX_NO_PAGE, parent = NDX_NO_PAGE, num_key = 0,
     num_child = 0, is_leaf = True, prev_leaf = NDX_INIT_ROOT_PAGE, next_leaf = NDX_INIT_ROOT_PAGE\<rparr>
     (replicate PAGE_SIZE 0)"

definition first_root_page :: "byte list" where
  "first_root_page = put_header \<lparr>next_free = NDX_NO_PAGE, parent = NDX_NO_PAGE, num_key = 0,
     num_child = 0, is_leaf = True, prev_leaf = NDX_LEAF_HEADER_PAGE, next_leaf = NDX_LEAF_HEADER_PAGE\<rparr>
     (replicate PAGE_SIZE 0)"

definition create_index :: "string \<Rightarrow> int \<Rightarrow> ColumnType \<Rightarrow> int \<Rightarrow> ('z, unit) pf_prog" where
  "create_index filename index_number type len =
     andThen (ensure (0 \<le> index_number) AssertFail) (\<lambda>_.
     andThen (create_file (get_index_name filename index_number)) (\<lambda>_.
     andThen (open_file (get_index_name filename index_number)) (\<lambda>fd.
     andThen (ensure (len \<le> NDX_MAX_COL_LEN) (Throw (InvalidColLengthError len))) (\<lambda>_.
     andThen (ensure ((len + int sizeof_RecordID) mod 18446744073709551616 \<noteq> 0) Undefined) (\<lambda>_.
     andThen (ensure (2 < new_btree_order len) AssertFail) (\<lambda>_.
     andThen (write_page fd NDX_FILE_HDR_PAGE (ix_hdr_bytes (new_index_header type len))) (\<lambda>_.
     andThen (write_page fd NDX_LEAF_HEADER_PAGE leaf_header_page) (\<lambda>_.
     andThen (write_page fd NDX_INIT_ROOT_PAGE first_root_page) (\<lambda>_.
     close_file fd)))))))))"

definition destroy_index :: "string \<Rightarrow> int \<Rightarrow> ('z, unit) pf_prog" where
  "destroy_index filename index_number = destroy_file (get_index_name filename index_number)"

text \<open>The constructor of \<open>IndexHandle\<close> reads the header; a type code that is no enumerator is undefined.\<close>

definition IndexHandle_init :: "int \<Rightarrow> ('z, IndexHandle) pf_prog" where
  "IndexHandle_init fd =
     andThen (read_page fd NDX_FILE_HDR_PAGE sizeof_IndexFileHeader (\<lambda>_ s. s)) (\<lambda>bytes.
     case ix_hdr_of_bytes bytes of
       None \<Rightarrow> throw Undefined
     | Some h \<Rightarrow> ret \<lparr>ih_fd = fd, index_header = h\<rparr>)"

definition open_index :: "string \<Rightarrow> int \<Rightarrow> ('z, IndexHandle) pf_prog" where
  "open_index filename index_number =
     andThen (open_file (get_index_name filename index_number)) (\<lambda>fd. IndexHandle_init fd)"

definition close_index :: "IndexHandle \<Rightarrow> ('z, unit) pf_prog" where
  "close_index ih =
     andThen (write_page (ih_fd ih) NDX_FILE_HDR_PAGE (ix_hdr_bytes (index_header ih))) (\<lambda>_.
     close_file (ih_fd ih))"

end
