(* ===== verification/BTree.thy ===== *)
theory BTree
  imports IndexUpdate
begin

text \<open>
  B+ trees as trees: the specification of an index. A leaf lists its entries, an inner node its
  children with the greatest key of each. A search by a test that holds from some entry on
  (\<open>target <= key\<close>, \<open>target < key\<close>) goes to the first entry that passes; the lemmas reduce it,
  level by level, to the same search in the keys of a node.
\<close>

type_synonym entry = "byte list \<times> RecordID"

datatype bt =
    Leaf int "entry list"
  | Inner int "byte list list" "bt list"

fun bt_page :: "bt \<Rightarrow> int" where
  "bt_page (Leaf p es) = p"
| "bt_page (Inner p ks cs) = p"

fun bt_leaves :: "bt \<Rightarrow> (int \<times> entry list) list" where
  "bt_leaves (Leaf p es) = [(p, es)]"
| "bt_leaves (Inner p ks cs) = concat (map bt_leaves cs)"

definition leaf_entries :: "(int \<times> entry list) list \<Rightarrow> entry list" where
  "leaf_entries ls = concat (map snd ls)"

definition bt_entries :: "bt \<Rightarrow> entry list" where
  "bt_entries t = leaf_entries (bt_leaves t)"

fun bt_last :: "bt \<Rightarrow> byte list" where
  "bt_last (Leaf p es) = fst (last es)"
| "bt_last (Inner p ks cs) = last ks"

fun bt_pages :: "bt \<Rightarrow> int list" where
  "bt_pages (Leaf p es) = [p]"
| "bt_pages (Inner p ks cs) = p # concat (map bt_pages cs)"

text \<open>Every leaf but a lone root has entries; the key of a child is its greatest.\<close>

fun bt_ok :: "bt \<Rightarrow> bool" where
  "bt_ok (Leaf p es) \<longleftrightarrow> es \<noteq> []"
| "bt_ok (Inner p ks cs) \<longleftrightarrow> cs \<noteq> [] \<and> ks = map bt_last cs \<and> (\<forall>c \<in> set cs. bt_ok c)"

text \<open>All leaves at one level.\<close>

fun bt_level :: "nat \<Rightarrow> bt \<Rightarrow> bool" where
  "bt_level n (Leaf p es) \<longleftrightarrow> n = 0"
| "bt_level n (Inner p ks cs) \<longleftrightarrow> 0 < n \<and> (\<forall>c \<in> set cs. bt_level (n - 1) c)"

text \<open>How full the nodes are; the root is exempt from the lower bound.\<close>

fun bt_fill :: "nat \<Rightarrow> nat \<Rightarrow> bt \<Rightarrow> bool" where
  "bt_fill lo hi (Leaf p es) \<longleftrightarrow> lo \<le> length es \<and> length es \<le> hi"
| "bt_fill lo hi (Inner p ks cs) \<longleftrightarrow> lo \<le> length cs \<and> length cs \<le> hi \<and> (\<forall>c \<in> set cs. bt_fill lo hi c)"

fun bt_root_fill :: "nat \<Rightarrow> nat \<Rightarrow> bt \<Rightarrow> bool" where
  "bt_root_fill lo hi (Leaf p es) \<longleftrightarrow> length es \<le> hi"
| "bt_root_fill lo hi (Inner p ks cs) \<longleftrightarrow> 2 \<le> length cs \<and> length cs \<le> hi \<and> (\<forall>c \<in> set cs. bt_fill lo hi c)"

section \<open>Positions\<close>

text \<open>The \<open>IndexID\<close> of position \<open>n\<close> in the entries; behind the last entry the end of the last leaf.\<close>

fun pos_id :: "(int \<times> entry list) list \<Rightarrow> nat \<Rightarrow> IndexID" where
  "pos_id [] n = IndexID NDX_NO_PAGE 0"
| "pos_id [(p, es)] n = IndexID p (int n)"
| "pos_id ((p, es) # l # ls) n =
     (if n < length es then IndexID p (int n) else pos_id (l # ls) (n - length es))"

definition first_pos :: "('a \<Rightarrow> bool) \<Rightarrow> 'a list \<Rightarrow> nat" where
  "first_pos P xs = length (takeWhile (\<lambda>x. \<not> P x) xs)"

abbreviation upward :: "('a \<Rightarrow> bool) \<Rightarrow> 'a list \<Rightarrow> bool" where
  "upward P \<equiv> sorted_wrt (\<lambda>a b. P a \<longrightarrow> P b)"

lemma first_pos_le: "first_pos P xs \<le> length xs"
  by (simp add: first_pos_def length_takeWhile_le)

lemma first_pos_append:
  "first_pos P (xs @ ys) = (if first_pos P xs < length xs then first_pos P xs else length xs + first_pos P ys)"
  unfolding first_pos_def by (induction xs) auto

lemma first_pos_less_iff: "first_pos P xs < length xs \<longleftrightarrow> (\<exists>x \<in> set xs. P x)"
  unfolding first_pos_def by (induction xs) auto

lemma first_pos_nth: "first_pos P xs < length xs \<Longrightarrow> P (xs ! first_pos P xs)"
  unfolding first_pos_def by (metis nth_length_takeWhile)

lemma first_pos_before: "i < first_pos P xs \<Longrightarrow> \<not> P (xs ! i)"
  unfolding first_pos_def by (metis (mono_tags, lifting) nth_mem set_takeWhileD takeWhile_nth)

lemma first_pos_map: "first_pos P (map f xs) = first_pos (\<lambda>x. P (f x)) xs"
  unfolding first_pos_def by (induction xs) auto

lemma upward_last: "upward P xs \<Longrightarrow> xs \<noteq> [] \<Longrightarrow> first_pos P xs < length xs \<longleftrightarrow> P (last xs)"
  unfolding first_pos_less_iff
  by (induction xs) (auto simp: sorted_wrt_append)

section \<open>Entries of subtrees\<close>

lemma bt_leaves_ne: "bt_ok t \<Longrightarrow> bt_leaves t \<noteq> []"
proof (induction t)
  case (Inner p ks cs)
  then obtain c cs' where "cs = c # cs'" by (cases cs) auto
  then show ?case using Inner by auto
qed simp

lemma entries_inner: "bt_entries (Inner p ks cs) = concat (map bt_entries cs)"
proof -
  have "concat (map snd (concat xss)) = concat (map (\<lambda>xs. concat (map snd xs)) xss)" for xss :: "('a \<times> 'b list) list list"
    by (induction xss) simp_all
  from this[of "map bt_leaves cs"] show ?thesis
    by (simp add: bt_entries_def[abs_def] leaf_entries_def comp_def)
qed

lemma entries_leaf [simp]: "bt_entries (Leaf p es) = es"
  by (simp add: bt_entries_def leaf_entries_def)

lemma bt_entries_ne: "bt_ok t \<Longrightarrow> bt_entries t \<noteq> []"
proof (induction t)
  case (Inner p ks cs)
  then obtain c cs' where "cs = c # cs'" by (cases cs) auto
  then show ?case using Inner by (auto simp: entries_inner)
qed simp

lemma last_concat: "xss \<noteq> [] \<Longrightarrow> last xss \<noteq> [] \<Longrightarrow> last (concat xss) = last (last xss)"
  by (induction xss) (auto simp: last_append)

lemma bt_last_entries: "bt_ok t \<Longrightarrow> bt_last t = fst (last (bt_entries t))"
proof (induction t)
  case (Inner p ks cs)
  then have ne: "cs \<noteq> []" by simp
  then have l: "last cs \<in> set cs" by simp
  then have ok: "bt_ok (last cs)" "bt_last (last cs) = fst (last (bt_entries (last cs)))"
    using Inner by auto
  have "bt_last (Inner p ks cs) = bt_last (last cs)" using Inner.prems ne by (simp add: last_map)
  then show ?case
    using ok ne bt_entries_ne[OF ok(1)] by (simp add: entries_inner last_concat last_map)
qed simp

section \<open>One level of a search\<close>

text \<open>The parts before the one chosen have no element that passes, the chosen one has.\<close>

lemma first_pos_concat:
  assumes "\<forall>xs \<in> set xss. xs \<noteq> []" "upward P (concat xss)"
  defines "i \<equiv> first_pos (\<lambda>xs. P (last xs)) xss"
  shows "(i < length xss \<longleftrightarrow> first_pos P (concat xss) < length (concat xss)) \<and>
    (i < length xss \<longrightarrow> first_pos P (concat xss) = length (concat (take i xss)) + first_pos P (xss ! i) \<and>
       first_pos P (xss ! i) < length (xss ! i))"
  using assms(1,2) unfolding i_def
proof (induction xss)
  case (Cons xs xss)
  have up: "upward P xs" "upward P (concat xss)" using Cons.prems(2) by (simp_all add: sorted_wrt_append)
  have ne: "xs \<noteq> []" using Cons.prems(1) by simp
  note hit = upward_last[OF up(1) ne]
  note IH = Cons.IH[OF _ up(2)]
  show ?case
  proof (cases "P (last xs)")
    case True
    have "first_pos (\<lambda>xs. P (last xs)) (xs # xss) = 0" using True by (simp add: first_pos_def)
    then show ?thesis using hit True by (simp add: first_pos_append)
  next
    case False
    have "first_pos (\<lambda>xs. P (last xs)) (xs # xss) = Suc (first_pos (\<lambda>xs. P (last xs)) xss)"
      using False by (simp add: first_pos_def)
    then show ?thesis using hit False IH Cons.prems(1) by (simp add: first_pos_append)
  qed
qed (simp add: first_pos_def)

lemma search_children:
  assumes ok: "\<forall>c \<in> set cs. bt_ok c" and up: "upward P (map fst (concat (map bt_entries cs)))"
  defines "i \<equiv> first_pos P (map bt_last cs)"
  shows "i < length cs \<longleftrightarrow> first_pos P (map fst (concat (map bt_entries cs))) < length (concat (map bt_entries cs))"
    "i < length cs \<Longrightarrow> first_pos P (map fst (concat (map bt_entries cs))) =
       length (concat (map bt_entries (take i cs))) + first_pos P (map fst (bt_entries (cs ! i)))"
    "i < length cs \<Longrightarrow> first_pos P (map fst (bt_entries (cs ! i))) < length (bt_entries (cs ! i))"
proof -
  let ?xss = "map (\<lambda>c. map fst (bt_entries c)) cs"
  have c: "concat ?xss = map fst (concat (map bt_entries cs))" by (simp add: map_concat comp_def)
  have ne: "\<forall>xs \<in> set ?xss. xs \<noteq> []" using ok bt_entries_ne by auto
  have up': "upward P (concat ?xss)" using up c by simp
  have l: "map bt_last cs = map last ?xss"
    using ok bt_last_entries bt_entries_ne by (auto simp: last_map)
  have i: "first_pos (\<lambda>xs. P (last xs)) ?xss = i" unfolding i_def l first_pos_map by simp
  have t: "length (concat (take i ?xss)) = length (concat (map bt_entries (take i cs)))"
    by (simp add: take_map length_concat comp_def)
  note r = first_pos_concat[OF ne up', unfolded i c t]
  have n: "i < length cs \<Longrightarrow> ?xss ! i = map fst (bt_entries (cs ! i))" by simp
  show "i < length cs \<longleftrightarrow> first_pos P (map fst (concat (map bt_entries cs))) < length (concat (map bt_entries cs))"
    using r by simp
  show "first_pos P (map fst (concat (map bt_entries cs))) =
       length (concat (map bt_entries (take i cs))) + first_pos P (map fst (bt_entries (cs ! i)))" if "i < length cs"
    using r that n by simp
  show "first_pos P (map fst (bt_entries (cs ! i))) < length (bt_entries (cs ! i))" if "i < length cs"
    using r that n by simp
qed

text \<open>Positions in the leaves of the children.\<close>

lemma pos_id_append:
  assumes "ls \<noteq> []" "ms \<noteq> []"
  shows "pos_id (ls @ ms) n = (if n < length (leaf_entries ls) then pos_id ls n
    else pos_id ms (n - length (leaf_entries ls)))"
  using assms
proof (induction ls n rule: pos_id.induct)
  case (2 p es n)
  then show ?case by (cases ms) (auto simp: leaf_entries_def)
next
  case (3 p es l ls n)
  then show ?case by (cases "n < length es") (auto simp: leaf_entries_def)
qed simp

lemma pos_id_child:
  assumes "\<forall>c \<in> set cs. bt_leaves c \<noteq> []" "i < length cs" "n < length (bt_entries (cs ! i))"
  shows "pos_id (concat (map bt_leaves cs)) (length (concat (map bt_entries (take i cs))) + n) =
    pos_id (bt_leaves (cs ! i)) n"
  using assms
proof (induction cs arbitrary: i)
  case Nil
  then show ?case by simp
next
  case (Cons c cs)
  show ?case
  proof (cases cs)
    case Nil
    then show ?thesis using Cons.prems by simp
  next
    case (Cons c' cs')
    then have ne: "bt_leaves c \<noteq> []" "concat (map bt_leaves cs) \<noteq> []" using Cons.prems by auto
    have e: "length (leaf_entries (bt_leaves c)) = length (bt_entries c)" by (simp add: bt_entries_def)
    show ?thesis
    proof (cases i)
      case 0
      then show ?thesis using Cons.prems(3) pos_id_append[OF ne, of n] e by simp
    next
      case (Suc j)
      then show ?thesis
        using Cons.IH[of j] Cons.prems pos_id_append[OF ne] e by (simp add: add.assoc)
    qed
  qed
qed

lemma pos_id_end:
  "ls \<noteq> [] \<Longrightarrow> pos_id ls (length (leaf_entries ls)) = IndexID (fst (last ls)) (int (length (snd (last ls))))"
proof (induction ls)
  case (Cons l ls)
  obtain p es where l: "l = (p, es)" by (cases l)
  show ?case
  proof (cases ls)
    case Nil
    then show ?thesis using l by (simp add: leaf_entries_def)
  next
    case (Cons l' ls')
    have "length (leaf_entries (l # ls)) = length es + length (leaf_entries ls)"
      by (simp add: leaf_entries_def l)
    then show ?thesis using Cons.IH Cons l by simp
  qed
qed simp

text \<open>The greatest keys of the children, in the order of the entries.\<close>

lemma bt_last_mem: "bt_ok t \<Longrightarrow> \<exists>e \<in> set (bt_entries t). bt_last t = fst e"
  using bt_last_entries bt_entries_ne last_in_set by blast

lemma sorted_lasts:
  assumes "sorted_wrt R (map fst (concat (map bt_entries cs)))" "\<forall>c \<in> set cs. bt_ok c"
  shows "sorted_wrt R (map bt_last cs)"
  using assms
proof (induction cs)
  case (Cons c cs)
  have s: "sorted_wrt R (map fst (concat (map bt_entries cs)))"
    "\<forall>x \<in> set (map fst (bt_entries c)). \<forall>y \<in> set (map fst (concat (map bt_entries cs))). R x y"
    using Cons.prems(1) by (simp_all add: sorted_wrt_append)
  have "R (bt_last c) (bt_last d)" if d: "d \<in> set cs" for d
  proof -
    obtain e where e: "e \<in> set (bt_entries c)" "bt_last c = fst e"
      using bt_last_mem[of c] Cons.prems(2) by auto
    obtain f where f: "f \<in> set (bt_entries d)" "bt_last d = fst f"
      using bt_last_mem[of d] Cons.prems(2) d by auto
    have "fst e \<in> set (map fst (bt_entries c))" "fst f \<in> set (map fst (concat (map bt_entries cs)))"
      using e(1) f(1) d by auto
    then show ?thesis using s(2) unfolding e(2) f(2) by blast
  qed
  then show ?case using Cons.IH s(1) Cons.prems(2) by simp
qed simp

lemma bt_page_in: "bt_page t \<in> set (bt_pages t)"
  by (cases t) simp_all

lemma child_pages: "c \<in> set cs \<Longrightarrow> length (bt_pages c) < length (bt_pages (Inner p ks cs))"
proof -
  assume "c \<in> set cs"
  then have "length (bt_pages c) \<le> sum_list (map length (map bt_pages cs))"
    by (intro member_le_sum_list) auto
  then show ?thesis by (simp add: length_concat)
qed

section \<open>Positions along the list of leaves\<close>

lemma leaf_entries_append [simp]: "leaf_entries (xs @ ys) = leaf_entries xs @ leaf_entries ys"
  by (simp add: leaf_entries_def)

lemma leaf_entries_Cons [simp]: "leaf_entries ((p, es) # ls) = es @ leaf_entries ls"
  by (simp add: leaf_entries_def)

lemma leaf_entries_Nil [simp]: "leaf_entries [] = []"
  by (simp add: leaf_entries_def)

lemma pos_id_skip: "ys \<noteq> [] \<Longrightarrow> pos_id (xs @ ys) (length (leaf_entries xs) + n) = pos_id ys n"
  by (cases "xs = []") (simp_all add: pos_id_append)

lemma pos_split:
  assumes "n < length (leaf_entries ls)"
  obtains xs p es ys k where "ls = xs @ (p, es) # ys" "n = length (leaf_entries xs) + k" "k < length es"
    "pos_id ls n = IndexID p (int k)"
  using assms
proof (induction ls n arbitrary: thesis rule: pos_id.induct)
  case (2 p es n)
  show ?case by (rule "2.prems"(1)[of "[]" p es "[]" n]) (use "2.prems"(2) in simp_all)
next
  case (3 p es l ls n)
  show ?case
  proof (cases "n < length es")
    case True
    show ?thesis by (rule "3.prems"(1)[of "[]" p es "l # ls" n]) (use True in simp_all)
  next
    case False
    then have "n - length es < length (leaf_entries (l # ls))" using "3.prems"(2) by simp
    then obtain xs q fs ys k where r: "l # ls = xs @ (q, fs) # ys" "n - length es = length (leaf_entries xs) + k"
      "k < length fs" "pos_id (l # ls) (n - length es) = IndexID q (int k)"
      using "3.IH"[OF False] by metis
    have pos: "pos_id ((p, es) # l # ls) n = IndexID q (int k)" using r(4) False by simp
    show ?thesis by (rule "3.prems"(1)[of "(p, es) # xs" q fs ys k]) (use r(1-3) False pos in simp_all)
  qed
qed simp

text \<open>The position behind the one at slot \<open>k\<close> of a leaf.\<close>

lemma pos_next:
  assumes "ls = xs @ (p, es) # ys" "k < length es" "\<forall>l \<in> set ls. snd l \<noteq> [] "
  shows "pos_id ls (Suc (length (leaf_entries xs) + k)) =
    (if Suc k < length es then IndexID p (int (Suc k))
     else case ys of [] \<Rightarrow> IndexID p (int (length es)) | (q, fs) # _ \<Rightarrow> IndexID q 0)"
proof -
  have "pos_id ls (Suc (length (leaf_entries xs) + k)) = pos_id ((p, es) # ys) (Suc k)"
    using pos_id_skip[of "(p, es) # ys" xs "Suc k"] assms(1) by simp
  moreover have "pos_id ys 0 = IndexID (fst (hd ys)) 0" if "ys \<noteq> []"
    using that assms(1,3) by (cases ys; cases "tl ys") auto
  ultimately show ?thesis using assms(2) by (cases ys) (auto simp: not_less_eq less_Suc_eq)
qed

lemma pos_id_page: "ls \<noteq> [] \<Longrightarrow> page_number (pos_id ls n) \<in> fst ` set ls"
  by (induction ls n rule: pos_id.induct) auto

lemma pos_id_inj:
  assumes "distinct (map fst ls)" "m \<le> length (leaf_entries ls)" "n \<le> length (leaf_entries ls)"
    "pos_id ls m = pos_id ls n"
  shows "m = n"
  using assms
proof (induction ls arbitrary: m n)
  case (Cons l ls)
  obtain p es where l: "l = (p, es)" by (cases l)
  show ?case
  proof (cases ls)
    case Nil
    then show ?thesis using Cons.prems(4) l by simp
  next
    case (Cons l' ls')
    have other: "pos_id ls j \<noteq> IndexID p i" for i j
    proof
      assume "pos_id ls j = IndexID p i"
      then have "p \<in> fst ` set ls" using pos_id_page[of ls j] Cons by simp
      then show False using Cons.prems(1) l by simp
    qed
    have e: "pos_id (l # ls) j = (if j < length es then IndexID p (int j) else pos_id ls (j - length es))" for j
      using l Cons by simp
    have IH: "\<not> m < length es \<Longrightarrow> \<not> n < length es \<Longrightarrow> m - length es = n - length es"
      using Cons.IH[of "m - length es" "n - length es"] Cons.prems l e by auto
    show ?thesis
      using Cons.prems(4) IH other[of "m - length es"] other[of "n - length es"] unfolding e
      by (auto split: if_splits) (metis other)+
  qed
qed simp

end
