(* ===== verification/IndexSearch.thy ===== *)
theory IndexSearch
  imports BTree
begin

text \<open>
  The pages of an index file that represent a B+ tree, and the searches on them:
  \<open>lower_bound\<close> and \<open>upper_bound\<close> of \<open>IndexHandle\<close> return the position of the first entry that
  is not below, or above, the target, and leave the file as it was.
\<close>

section \<open>Trees in a file\<close>

definition node_is :: "IndexFileHeader \<Rightarrow> bool \<Rightarrow> int \<Rightarrow> byte list \<Rightarrow> bool" where
  "node_is h leaf pa b \<longleftrightarrow> node_ok h b \<and> is_leaf (get_header b) = leaf \<and> parent (get_header b) = pa \<and>
     num_key (get_header b) = num_child (get_header b)"

fun bt_rep :: "IndexFileHeader \<Rightarrow> pview \<Rightarrow> int \<Rightarrow> bt \<Rightarrow> bool" where
  "bt_rep h V pa (Leaf p es) \<longleftrightarrow> (case V p of None \<Rightarrow> False
     | Some b \<Rightarrow> node_is h True pa b \<and> node_keys h b = map fst es \<and> node_rids h b = map snd es)"
| "bt_rep h V pa (Inner p ks cs) \<longleftrightarrow> (case V p of None \<Rightarrow> False
     | Some b \<Rightarrow> node_is h False pa b \<and> node_keys h b = ks \<and> map rid_page (node_rids h b) = map bt_page cs) \<and>
     (\<forall>c \<in> set cs. bt_rep h V p c)"

text \<open>The list of leaves: each points to its neighbours, the header page closes the circle.\<close>

fun leaf_chain :: "pview \<Rightarrow> int \<Rightarrow> int list \<Rightarrow> bool" where
  "leaf_chain V prev [] \<longleftrightarrow> (case V NDX_LEAF_HEADER_PAGE of None \<Rightarrow> False
     | Some b \<Rightarrow> is_leaf (get_header b) \<and> prev_leaf (get_header b) = prev)"
| "leaf_chain V prev (p # ps) \<longleftrightarrow> (case V p of None \<Rightarrow> False
     | Some b \<Rightarrow> prev_leaf (get_header b) = prev \<and>
         next_leaf (get_header b) = (case ps of [] \<Rightarrow> NDX_LEAF_HEADER_PAGE | q # _ \<Rightarrow> q)) \<and>
     leaf_chain V p ps"

abbreviation leaf_pages :: "bt \<Rightarrow> int list" where
  "leaf_pages t \<equiv> map fst (bt_leaves t)"

definition keys_ok :: "IndexFileHeader \<Rightarrow> bt \<Rightarrow> bool" where
  "keys_ok h t \<longleftrightarrow> (\<forall>e \<in> set (bt_entries t). key_ok h (fst e)) \<and>
     sorted_wrt (\<lambda>a b. key_cmp h a b \<le> 0) (map fst (bt_entries t))"

text \<open>A lone root leaf may be empty.\<close>

definition bt_shape :: "bt \<Rightarrow> bool" where
  "bt_shape t \<longleftrightarrow> bt_ok t \<or> bt_entries t = [] \<and> (\<exists>p. t = Leaf p [])"

text \<open>The free pages, linked through \<open>next_free\<close>: every page of the file that is no node of the tree.\<close>

fun ix_free_list :: "pview \<Rightarrow> int \<Rightarrow> int list \<Rightarrow> bool" where
  "ix_free_list V p [] \<longleftrightarrow> p = NDX_NO_PAGE"
| "ix_free_list V p (q # qs) \<longleftrightarrow> p = q \<and> (case V q of None \<Rightarrow> False
     | Some b \<Rightarrow> ix_free_list V (next_free (get_header b)) qs)"

definition ix_free :: "IndexFileHeader \<Rightarrow> pview \<Rightarrow> bt \<Rightarrow> bool" where
  "ix_free h V t \<longleftrightarrow> (\<exists>fs. ix_free_list V (ix_first_free h) fs \<and> distinct (fs @ bt_pages t) \<and>
     set (fs @ bt_pages t) = {NDX_INIT_ROOT_PAGE..<ix_num_pages h})"

definition min_fill :: "IndexFileHeader \<Rightarrow> nat" where
  "min_fill h = nat ((btree_order h + 1) div 2)"

definition ix_tree :: "IndexFileHeader \<Rightarrow> pview \<Rightarrow> bt \<Rightarrow> bool" where
  "ix_tree h V t \<longleftrightarrow> ix_layout h \<and> column_type h \<noteq> TYPE_DATETIME \<and>
     bt_rep h V NDX_NO_PAGE t \<and> bt_shape t \<and> keys_ok h t \<and> bt_page t = root_page h \<and>
     (\<exists>n. bt_level n t) \<and> bt_root_fill (min_fill h) (nat (btree_order h)) t \<and>
     ix_free h V t \<and> ix_num_pages h \<le> 524288 \<and>
     leaf_chain V NDX_LEAF_HEADER_PAGE (leaf_pages t) \<and>
     first_leaf h = hd (leaf_pages t) \<and> last_leaf h = last (leaf_pages t)"

lemma ix_tree_pages:
  assumes "ix_tree h V t"
  shows "distinct (bt_pages t)" "\<forall>p \<in> set (bt_pages t). NDX_INIT_ROOT_PAGE \<le> p \<and> p < ix_num_pages h"
proof -
  obtain fs where "distinct (fs @ bt_pages t)" "set (fs @ bt_pages t) = {NDX_INIT_ROOT_PAGE..<ix_num_pages h}"
    using assms unfolding ix_tree_def ix_free_def by blast
  then show "distinct (bt_pages t)" "\<forall>p \<in> set (bt_pages t). NDX_INIT_ROOT_PAGE \<le> p \<and> p < ix_num_pages h"
    by auto
qed

definition ix_wf :: "'z pf_state_scheme \<Rightarrow> IndexHandle \<Rightarrow> bt \<Rightarrow> bool" where
  "ix_wf s ih t \<longleftrightarrow> pf_wf s \<and> fd_path s (ih_fd ih) \<noteq> None \<and>
     PageID (ih_fd ih) NDX_FILE_HDR_PAGE \<notin> cached_pages s \<and>
     ix_tree (index_header ih) (file_view s (ih_fd ih)) t"

text \<open>Looking at pages of the file: every page stays as it was.\<close>

definition ix_pids :: "int \<Rightarrow> PageID set" where
  "ix_pids fd = {q. pid_fd q = fd \<and> pid_page q \<noteq> NDX_FILE_HDR_PAGE}"

abbreviation looked :: "int \<Rightarrow> 'z pf_state_scheme \<Rightarrow> 'z pf_state_scheme \<Rightarrow> bool" where
  "looked fd s t \<equiv> pool.reach s (ix_pids fd) (page_view s) t"

lemma looked_trans: "looked fd s t \<Longrightarrow> looked fd t u \<Longrightarrow> looked fd s u"
  using pool.reach_trans[of s "ix_pids fd" "page_view s" t "ix_pids fd" "page_view t" u "page_view s"]
  by (simp add: pool.reach_def)

lemma looked_refl: "pf_wf s \<Longrightarrow> looked fd s s"
  by (rule pool.reach_refl)

lemma looked_view: "looked fd s t \<Longrightarrow> file_view s fd p = Some b \<Longrightarrow> file_view t fd p = Some b"
  unfolding pool.reach_def file_view_def by (blast intro: map_le_Some)

lemma looked_fd: "looked fd s t \<Longrightarrow> fd_path t = fd_path s"
  by (simp add: pool.reach_def same_env_def fd_path_def fun_eq_iff)

lemma looked_wf: "looked fd s t \<Longrightarrow> pf_wf t"
  by (simp add: pool.reach_def)

section \<open>Getting nodes\<close>

text \<open>What a held node is: its page in the cache, with its bytes.\<close>

definition at_node :: "'z pf_state_scheme \<Rightarrow> int \<Rightarrow> int \<Rightarrow> nat \<Rightarrow> byte list \<Rightarrow> bool" where
  "at_node s fd p i b \<longleftrightarrow> page_bytes i s = b \<and> page_ident i s = PageID fd p \<and> file_view s fd p = Some b"

lemma pf_run [simp]: "m s = (r, t) \<Longrightarrow> pf m (ih, s) = (r, (ih, t))"
  by (simp add: pf_def)

lemma node_header_run [simp]: "node_header i (ih, s) = (Inr (get_header (page_bytes i s)), (ih, s))"
  by (simp add: node_header_def)

lemma node_page_run [simp]: "node_page i (ih, s) = (Inr (pid_page (page_ident i s)), (ih, s))"
  by (simp add: node_page_def)

lemma node_read_run [simp]: "node_read f i (ih, s) = (f (index_header ih) (page_bytes i s), (ih, s))"
  by (simp add: node_read_def)

lemma the_header_run [simp]: "the_header (ih, s) = (Inr (index_header ih), (ih, s))"
  by (simp add: the_header_def)

lemma the_handle_run [simp]: "the_handle (ih, s) = (Inr ih, (ih, s))"
  by (simp add: the_handle_def)

lemma get_node_run:
  assumes wf: "pf_wf s" "fd_path s (ih_fd ih) \<noteq> None" and p: "1 \<le> p" "p < ix_num_pages (index_header ih)"
    and np: "ix_num_pages (index_header ih) \<le> 524288" and v: "file_view s (ih_fd ih) p = Some b"
  obtains i t where "get_node p (ih, s) = (Inr i, (ih, t))" "at_node t (ih_fd ih) p i b" "looked (ih_fd ih) s t"
proof -
  let ?fd = "ih_fd ih"
  have valid: "valid_pid s (PageID ?fd p)"
    using wf(2) p np by (simp add: valid_pid_def int_ok_def PAGE_SIZE_def INT_MAX_def INT_MIN_def)
  have v': "page_view s (PageID ?fd p) = Some b" using v by (simp add: file_view_def)
  obtain i t where t: "pf_fetch (PageID ?fd p) s = (Inr i, t)" "holds t (PageID ?fd p) i b"
    "page_bytes i t = b" "pool.reach s {PageID ?fd p} (page_view s) t"
    by (rule pool.fetch_reach[OF wf(1) valid v'])
  have "PageID ?fd p \<in> ix_pids ?fd" using p by (simp add: ix_pids_def NDX_FILE_HDR_PAGE_def)
  then have l: "looked ?fd s t" using t(4) by (auto simp: pool.reach_def)
  have "page_ident i t = PageID ?fd p" using pool.held_facts[OF t(2)] by simp
  then have "at_node t ?fd p i b" using t(3) looked_view[OF l v] by (simp add: at_node_def)
  moreover have "get_node p (ih, s) = (Inr i, (ih, t))" using t(1) p by (simp add: get_node_def)
  ultimately show ?thesis using that l by blast
qed

lemma get_node_beyond:
  "ix_num_pages (index_header ih) \<le> p \<Longrightarrow> get_node p (ih, s) = (Inl AssertFail, (ih, s))"
  by (simp add: get_node_def)

section \<open>Representations\<close>

lemma bt_rep_mono: "bt_rep h V pa t \<Longrightarrow> (\<And>p b. p \<in> set (bt_pages t) \<Longrightarrow> V p = Some b \<Longrightarrow> W p = Some b) \<Longrightarrow> bt_rep h W pa t"
proof (induction t arbitrary: pa)
  case (Leaf p es)
  then show ?case by (auto split: option.splits)
next
  case (Inner p ks cs)
  have "bt_rep h W p c" if "c \<in> set cs" for c
    using Inner.IH[OF that, of p] Inner.prems that by auto
  moreover obtain b where "V p = Some b" using Inner.prems(1) by (auto split: option.splits)
  ultimately show ?case using Inner.prems by auto
qed

lemma looked_rep: "bt_rep h (file_view s fd) pa t \<Longrightarrow> looked fd s u \<Longrightarrow> bt_rep h (file_view u fd) pa t"
  by (erule bt_rep_mono) (rule looked_view)

lemma bt_rep_root: "bt_rep h V pa t \<Longrightarrow> \<exists>b. V (bt_page t) = Some b"
  by (cases t) (auto split: option.splits)

lemma leaf_rep:
  assumes "bt_rep h V pa t" "(p, es) \<in> set (bt_leaves t)"
  obtains b pa' where "V p = Some b" "node_is h True pa' b" "node_keys h b = map fst es"
    "node_rids h b = map snd es" "p \<in> set (bt_pages t)"
  using assms
proof (induction t arbitrary: pa thesis)
  case (Leaf p es)
  then show ?case by (auto split: option.splits)
next
  case (Inner q ks cs)
  obtain c where c: "c \<in> set cs" "(p, es) \<in> set (bt_leaves c)" using Inner.prems(3) by auto
  have r: "bt_rep h V q c" using Inner.prems(2) c(1) by simp
  obtain b pa' where b: "V p = Some b" "node_is h True pa' b" "node_keys h b = map fst es"
    "node_rids h b = map snd es" "p \<in> set (bt_pages c)"
    by (rule Inner.IH[OF c(1) _ r c(2)])
  show ?case by (rule Inner.prems(1)[OF b(1-4)]) (use b(5) c(1) in auto)
qed

lemma num_key_keys: "node_ok h b \<Longrightarrow> num_key (get_header b) = int (length (node_keys h b))"
  by (simp add: node_ok_def node_keys_def)

lemma num_child_rids: "node_ok h b \<Longrightarrow> num_child (get_header b) = int (length (node_rids h b))"
  by (simp add: node_ok_def node_rids_def)

section \<open>Searching down\<close>

definition searches :: "IndexFileHeader \<Rightarrow> (IndexFileHeader \<Rightarrow> byte list \<Rightarrow> stop + int) \<Rightarrow> (byte list \<Rightarrow> bool) \<Rightarrow> bool" where
  "searches h search P \<longleftrightarrow>
     (\<forall>b. node_ok h b \<longrightarrow> node_sorted h b \<longrightarrow>
        search h b = Inr (int (first_pos P (node_keys h b))) \<and> upward P (node_keys h b)) \<and>
     (\<forall>ks. (\<forall>k \<in> set ks. key_ok h k) \<longrightarrow> sorted_wrt (\<lambda>a b. key_cmp h a b \<le> 0) ks \<longrightarrow> upward P ks)"

lemma searches_lower:
  assumes "ix_layout h" "column_type h \<noteq> TYPE_DATETIME" "key_ok h k"
  shows "searches h (\<lambda>h. node_lower_bound h k) (\<lambda>x. key_cmp h k x \<le> 0)"
    "searches h (\<lambda>h. node_upper_bound h k) (\<lambda>x. key_cmp h k x < 0)"
proof -
  note ord = key_cmp_order[OF assms(2)]
  have up: "upward (\<lambda>x. key_cmp h k x \<le> 0) ks" "upward (\<lambda>x. key_cmp h k x < 0) ks"
    if ks: "\<forall>k \<in> set ks. key_ok h k" "sorted_wrt (\<lambda>a b. key_cmp h a b \<le> 0) ks" for ks
  proof -
    have "key_cmp h k a \<le> 0 \<longrightarrow> key_cmp h k b \<le> 0" "key_cmp h k a < 0 \<longrightarrow> key_cmp h k b < 0"
      if "a \<in> set ks" "b \<in> set ks" "key_cmp h a b \<le> 0" for a b
      using that ks(1) key_order.cmp_trans[OF ord assms(3), of a b] key_order.trans_less1[OF ord assms(3), of a b] by auto
    then show "upward (\<lambda>x. key_cmp h k x \<le> 0) ks" "upward (\<lambda>x. key_cmp h k x < 0) ks"
      by (auto intro: sorted_wrt_mono_rel[OF _ ks(2)])
  qed
  have run: "node_lower_bound h k b = Inr (int (first_pos (\<lambda>x. key_cmp h k x \<le> 0) (node_keys h b)))"
    "node_upper_bound h k b = Inr (int (first_pos (\<lambda>x. key_cmp h k x < 0) (node_keys h b)))"
    if b: "node_ok h b" "node_sorted h b" for b
    using node_bounds_run[OF assms(1) b(1) ord assms(3)] b(2) comparable_unless_datetime[OF assms(2)]
    by (simp_all add: node_sorted_def key_order.lin_lower_def[OF ord] key_order.lin_upper_def[OF ord]
        first_pos_def not_le not_less)
  show "searches h (\<lambda>h. node_lower_bound h k) (\<lambda>x. key_cmp h k x \<le> 0)"
    "searches h (\<lambda>h. node_upper_bound h k) (\<lambda>x. key_cmp h k x < 0)"
    using up run by (simp_all add: searches_def node_sorted_def)
qed

lemma keys_ok_child: "keys_ok h (Inner p ks cs) \<Longrightarrow> c \<in> set cs \<Longrightarrow> keys_ok h c"
proof -
  assume k: "keys_ok h (Inner p ks cs)" and c: "c \<in> set cs"
  obtain xs ys where s: "cs = xs @ c # ys" using split_list[OF c] by blast
  then show "keys_ok h c" using k by (simp add: keys_ok_def entries_inner sorted_wrt_append)
qed

lemma inner_sorted:
  assumes "keys_ok h (Inner p ks cs)" "bt_ok (Inner p ks cs)" "node_keys h b = ks"
  shows "node_sorted h b"
proof -
  have "sorted_wrt (\<lambda>a b. key_cmp h a b \<le> 0) ks"
    using assms(1,2) sorted_lasts by (simp add: keys_ok_def entries_inner)
  moreover have "key_ok h k" if "k \<in> set ks" for k
  proof -
    obtain c where c: "c \<in> set cs" "k = bt_last c" using \<open>k \<in> set ks\<close> assms(2) by auto
    then obtain e where e: "e \<in> set (bt_entries c)" "k = fst e" using bt_last_mem[of c] assms(2) by auto
    then show ?thesis using assms(1) c(1) by (auto simp: keys_ok_def entries_inner)
  qed
  ultimately show ?thesis using assms(3) by (simp add: node_sorted_def)
qed

lemma leaf_sorted: "keys_ok h (Leaf p es) \<Longrightarrow> node_keys h b = map fst es \<Longrightarrow> node_sorted h b"
  by (simp add: keys_ok_def node_sorted_def)

lemma descend_run:
  assumes search: "searches h search P" and lay: "ix_layout h" and ih: "index_header ih = h" "ih_fd ih = fd"
    and np: "ix_num_pages h \<le> 524288"
    and rep: "bt_rep h (file_view s fd) pa t" "bt_ok t" "keys_ok h t" "length (bt_pages t) \<le> fuel"
      "\<forall>p \<in> set (bt_pages t). NDX_INIT_ROOT_PAGE \<le> p \<and> p < ix_num_pages h"
    and st: "pf_wf s" "fd_path s fd \<noteq> None" "at_node s fd (bt_page t) i b"
    and hit: "first_pos P (map fst (bt_entries t)) < length (bt_entries t)"
  shows "\<exists>j u p (es :: entry list) c. descend fuel search i (ih, s) = (Inr (Some j), (ih, u)) \<and> looked fd s u \<and>
    at_node u fd p j c \<and> (\<exists>pa. node_is h True pa c) \<and> node_keys h c = map fst es \<and> node_sorted h c \<and>
    first_pos P (map fst es) < length es \<and>
    pos_id (bt_leaves t) (first_pos P (map fst (bt_entries t))) = IndexID p (int (first_pos P (map fst es)))"
  using rep st hit
proof (induction t arbitrary: s pa i b fuel)
  case (Leaf p es)
  obtain n where n: "fuel = Suc n" using Leaf.prems(4) by (cases fuel) simp_all
  have b: "page_bytes i s = b" "file_view s fd p = Some b" using Leaf.prems(8) by (simp_all add: at_node_def)
  have node: "node_is h True pa b" "node_keys h b = map fst es" using Leaf.prems(1) b(2) by simp_all
  have "descend fuel search i (ih, s) = (Inr (Some i), (ih, s))"
    using node(1) b(1) by (simp add: n node_is_def)
  moreover have "first_pos P (map fst es) < length es" using Leaf.prems(9) by simp
  moreover have "pos_id (bt_leaves (Leaf p es)) (first_pos P (map fst (bt_entries (Leaf p es)))) =
      IndexID p (int (first_pos P (map fst es)))" by simp
  moreover have "at_node s fd p i b" using Leaf.prems(8) by simp
  moreover have "looked fd s s" by (rule looked_refl[OF Leaf.prems(6)])
  moreover have "\<exists>pa. node_is h True pa b" using node(1) by blast
  moreover have "node_sorted h b" by (rule leaf_sorted[OF Leaf.prems(3) node(2)])
  ultimately have "descend fuel search i (ih, s) = (Inr (Some i), (ih, s)) \<and> looked fd s s \<and>
    at_node s fd p i b \<and> (\<exists>pa. node_is h True pa b) \<and> node_keys h b = map fst es \<and> node_sorted h b \<and>
    first_pos P (map fst es) < length es \<and>
    pos_id (bt_leaves (Leaf p es)) (first_pos P (map fst (bt_entries (Leaf p es)))) = IndexID p (int (first_pos P (map fst es)))"
    using node(2) by blast
  then show ?case by blast
next
  case (Inner p ks cs)
  obtain n where n: "fuel = Suc n" using Inner.prems(4) by (cases fuel) simp_all
  have b: "page_bytes i s = b" "file_view s fd p = Some b" using Inner.prems(8) by (simp_all add: at_node_def)
  have node: "node_is h False pa b" "node_keys h b = ks" "map rid_page (node_rids h b) = map bt_page cs"
    and kids: "\<forall>c \<in> set cs. bt_rep h (file_view s fd) p c"
    using Inner.prems(1) b(2) by auto
  have nok: "node_ok h b" using node(1) by (simp add: node_is_def)
  have cok: "\<forall>c \<in> set cs. bt_ok c" "ks = map bt_last cs" using Inner.prems(2) by simp_all
  have run: "search h b = Inr (int (first_pos P ks))"
    using search nok inner_sorted[OF Inner.prems(3,2) node(2)] node(2) by (simp add: searches_def)
  define k where "k = first_pos P ks"
  have up: "upward P (map fst (concat (map bt_entries cs)))"
    using search Inner.prems(3) by (simp add: searches_def keys_ok_def entries_inner)
  note sc = search_children[OF cok(1) up, folded cok(2) k_def]
  have k: "k < length cs" using Inner.prems(9) sc(1) by (simp add: entries_inner)
  have lr: "length (node_rids h b) = length cs" using node(3) by (metis length_map)
  have rid: "get_record_id h (int k) b = Inr (node_rids h b ! k)" "rid_page (node_rids h b ! k) = bt_page (cs ! k)"
    using get_record_id_list[OF lay nok, of k] k lr node(3) nth_map[of k "node_rids h b" rid_page] nth_map[of k cs bt_page]
    by simp_all
  have c: "cs ! k \<in> set cs" using k by simp
  have crep: "bt_rep h (file_view s fd) p (cs ! k)" using kids c by blast
  obtain cb where cb: "file_view s fd (bt_page (cs ! k)) = Some cb" using bt_rep_root[OF crep] by blast
  have pg: "\<forall>q \<in> set (bt_pages (cs ! k)). NDX_INIT_ROOT_PAGE \<le> q \<and> q < ix_num_pages h"
    using Inner.prems(5) c by auto
  then have pgc: "1 \<le> bt_page (cs ! k)" "bt_page (cs ! k) < ix_num_pages (index_header ih)"
    using bt_page_in[of "cs ! k"] ih(1) by (auto simp: NDX_INIT_ROOT_PAGE_def)
  obtain j u where g: "get_node (bt_page (cs ! k)) (ih, s) = (Inr j, (ih, u))" "at_node u fd (bt_page (cs ! k)) j cb"
    "looked fd s u"
    using get_node_run[of s ih, OF Inner.prems(6) _ pgc] Inner.prems(7) np ih cb by metis
  have fuel: "length (bt_pages (cs ! k)) \<le> n" using child_pages[OF c, of p ks] Inner.prems(4) n by simp
  have hit': "first_pos P (map fst (bt_entries (cs ! k))) < length (bt_entries (cs ! k))"
    using sc(3)[OF k] by simp
  have fdu: "fd_path u fd \<noteq> None" using looked_fd[OF g(3)] Inner.prems(7) by simp
  have IH: "\<exists>j' v q (es :: entry list) c. descend n search j (ih, u) = (Inr (Some j'), (ih, v)) \<and> looked fd u v \<and>
    at_node v fd q j' c \<and> (\<exists>pa. node_is h True pa c) \<and> node_keys h c = map fst es \<and> node_sorted h c \<and>
    first_pos P (map fst es) < length es \<and>
    pos_id (bt_leaves (cs ! k)) (first_pos P (map fst (bt_entries (cs ! k)))) = IndexID q (int (first_pos P (map fst es)))"
    by (rule Inner.IH[OF c looked_rep[OF crep g(3)] _ keys_ok_child[OF Inner.prems(3) c] fuel pg looked_wf[OF g(3)] fdu g(2) hit'])
      (use cok c in simp)
  have nk: "num_key (get_header b) = int (length cs)" using num_key_keys[OF nok] node(2) cok(2) by simp
  have lf: "\<not> is_leaf (get_header b)" using node(1) by (simp add: node_is_def)
  have d: "descend fuel search i (ih, s) = descend n search j (ih, u)"
    using lf nk k run[folded k_def] rid g(1) b(1) ih(1) by (simp add: n)
  have ne: "\<forall>c \<in> set cs. bt_leaves c \<noteq> []" using cok(1) bt_leaves_ne by blast
  have pos: "pos_id (bt_leaves (Inner p ks cs)) (first_pos P (map fst (bt_entries (Inner p ks cs)))) =
      pos_id (bt_leaves (cs ! k)) (first_pos P (map fst (bt_entries (cs ! k))))"
    using sc(2)[OF k] pos_id_child[OF ne k hit'] by (simp add: entries_inner)
  show ?case unfolding d pos using IH looked_trans[OF g(3)] by blast
qed

section \<open>The leaves of a tree\<close>

lemma leaf_chain_mono:
  "leaf_chain V q ps \<Longrightarrow> (\<And>p b. V p = Some b \<Longrightarrow> W p = Some b) \<Longrightarrow> leaf_chain W q ps"
proof (induction ps arbitrary: q)
  case Nil
  obtain b where "V NDX_LEAF_HEADER_PAGE = Some b" using Nil.prems(1) by (auto split: option.splits)
  then show ?case using Nil.prems(1) Nil.prems(2)[of NDX_LEAF_HEADER_PAGE b] by simp
next
  case (Cons p ps)
  obtain b where b: "V p = Some b" using Cons.prems(1) by (auto split: option.splits)
  have "leaf_chain W p ps" using Cons.prems by (intro Cons.IH) simp_all
  then show ?case using Cons.prems(1) Cons.prems(2)[OF b] b by simp
qed

lemma ix_free_list_mono:
  "ix_free_list V p fs \<Longrightarrow> (\<And>p b. V p = Some b \<Longrightarrow> W p = Some b) \<Longrightarrow> ix_free_list W p fs"
proof (induction fs arbitrary: p)
  case (Cons q fs)
  obtain b where b: "V q = Some b" using Cons.prems(1) by (auto split: option.splits)
  have "ix_free_list W (next_free (get_header b)) fs" using Cons.prems b by (intro Cons.IH) simp_all
  then show ?case using Cons.prems(1) Cons.prems(2)[OF b] b by simp
qed simp

lemma ix_tree_mono:
  assumes tr: "ix_tree h V t" and mono: "\<And>p b. V p = Some b \<Longrightarrow> W p = Some b"
  shows "ix_tree h W t"
proof -
  have "ix_free h W t" using tr ix_free_list_mono[where V = V and W = W, OF _ mono] unfolding ix_tree_def ix_free_def by blast
  then show ?thesis
    using tr bt_rep_mono[of h V NDX_NO_PAGE t W] leaf_chain_mono[of V NDX_LEAF_HEADER_PAGE "leaf_pages t" W] mono
    by (simp add: ix_tree_def)
qed

lemma looked_ix_wf: "ix_wf s ih t \<Longrightarrow> looked (ih_fd ih) s u \<Longrightarrow> ix_wf u ih t"
proof -
  assume wf: "ix_wf s ih t" and l: "looked (ih_fd ih) s u"
  have "ix_tree (index_header ih) (file_view u (ih_fd ih)) t"
  proof (rule ix_tree_mono)
    show "ix_tree (index_header ih) (file_view s (ih_fd ih)) t" using wf unfolding ix_wf_def by blast
  qed (rule looked_view[OF l])
  moreover have "PageID (ih_fd ih) NDX_FILE_HDR_PAGE \<notin> cached_pages u"
  proof -
    have "cached_pages u \<subseteq> ix_pids (ih_fd ih) \<union> cached_pages s" using l by (simp add: pool.reach_def)
    moreover have "PageID (ih_fd ih) NDX_FILE_HDR_PAGE \<notin> ix_pids (ih_fd ih)" by (simp add: ix_pids_def)
    moreover have "PageID (ih_fd ih) NDX_FILE_HDR_PAGE \<notin> cached_pages s" using wf unfolding ix_wf_def by blast
    ultimately show ?thesis by blast
  qed
  ultimately show "ix_wf u ih t" using wf looked_wf[OF l] looked_fd[OF l] by (simp add: ix_wf_def)
qed

lemma shape_leaves: "bt_shape t \<Longrightarrow> bt_leaves t \<noteq> []"
  by (auto simp: bt_shape_def bt_leaves_ne)

lemma bt_ok_leaves: "bt_ok t \<Longrightarrow> l \<in> set (bt_leaves t) \<Longrightarrow> snd l \<noteq> []"
  by (induction t) auto

lemma shape_full: "bt_shape t \<Longrightarrow> bt_entries t \<noteq> [] \<Longrightarrow> \<forall>l \<in> set (bt_leaves t). snd l \<noteq> []"
  by (auto simp: bt_shape_def bt_ok_leaves)

lemma leaf_pages_sub: "distinct (bt_pages t) \<Longrightarrow> distinct (leaf_pages t) \<and> set (leaf_pages t) \<subseteq> set (bt_pages t)"
proof (induction t)
  case (Inner p ks cs)
  have "distinct (concat (map bt_pages ds)) \<Longrightarrow> set ds \<subseteq> set cs \<Longrightarrow>
      distinct (map fst (concat (map bt_leaves ds))) \<and>
      set (map fst (concat (map bt_leaves ds))) \<subseteq> set (concat (map bt_pages ds))" for ds
  proof (induction ds)
    case (Cons d ds)
    then have "distinct (leaf_pages d) \<and> set (leaf_pages d) \<subseteq> set (bt_pages d)"
      using Inner.IH[of d] by simp
    moreover have "distinct (map fst (concat (map bt_leaves ds))) \<and>
        set (map fst (concat (map bt_leaves ds))) \<subseteq> set (concat (map bt_pages ds))"
      using Cons by simp
    moreover have "set (bt_pages d) \<inter> set (concat (map bt_pages ds)) = {}" using Cons.prems by simp
    ultimately show ?case by (simp only: concat.simps list.map map_append distinct_append set_append) blast
  qed simp
  from this[of cs] show ?case using Inner.prems by auto
qed simp

text \<open>Fetching the node of a leaf of the tree.\<close>

lemma get_leaf_run:
  assumes wf: "ix_wf s ih t" and leaf: "(p, es) \<in> set (bt_leaves t)"
  obtains i u b where "get_node p (ih, s) = (Inr i, (ih, u))" "at_node u (ih_fd ih) p i b" "looked (ih_fd ih) s u"
    "node_ok (index_header ih) b" "is_leaf (get_header b)" "num_key (get_header b) = int (length es)"
    "node_keys (index_header ih) b = map fst es" "node_rids (index_header ih) b = map snd es"
proof -
  let ?h = "index_header ih" and ?V = "file_view s (ih_fd ih)"
  have st: "pf_wf s" "fd_path s (ih_fd ih) \<noteq> None" and tr: "ix_tree ?h ?V t" using wf by (simp_all add: ix_wf_def)
  have rep: "bt_rep ?h ?V NDX_NO_PAGE t" using tr by (simp add: ix_tree_def)
  obtain b pa where b: "?V p = Some b" "node_is ?h True pa b" "node_keys ?h b = map fst es"
    "node_rids ?h b = map snd es" "p \<in> set (bt_pages t)"
    by (rule leaf_rep[OF rep leaf])
  have pg: "1 \<le> p" "p < ix_num_pages ?h" "ix_num_pages ?h \<le> 524288"
    using tr b(5) ix_tree_pages(2)[OF tr] by (auto simp: ix_tree_def NDX_INIT_ROOT_PAGE_def)
  obtain i u where g: "get_node p (ih, s) = (Inr i, (ih, u))" "at_node u (ih_fd ih) p i b" "looked (ih_fd ih) s u"
    by (rule get_node_run[OF st pg b(1)])
  have ok: "node_ok ?h b" "is_leaf (get_header b)" using b(2) by (simp_all add: node_is_def)
  have "num_key (get_header b) = int (length es)" using num_key_keys[OF ok(1)] b(3) by simp
  then show ?thesis using that[OF g ok] b(3,4) by simp
qed

lemma chain_next:
  assumes "leaf_chain V q (map fst (xs @ (p, es) # ys))" "V p = Some b"
  shows "next_leaf (get_header b) = (case ys of [] \<Rightarrow> NDX_LEAF_HEADER_PAGE | l # _ \<Rightarrow> fst l)"
  using assms
proof (induction xs arbitrary: q)
  case Nil
  then show ?case by (cases ys) simp_all
next
  case (Cons x xs)
  have "leaf_chain V (fst x) (map fst (xs @ (p, es) # ys))" using Cons.prems(1) by simp
  then show ?case using Cons.prems(2) by (rule Cons.IH)
qed

lemma leaf_end_run:
  assumes wf: "ix_wf s ih t"
  obtains u where "leaf_end (ih, s) = (Inr (pos_id (bt_leaves t) (length (bt_entries t))), (ih, u))"
    "looked (ih_fd ih) s u"
proof -
  have tr: "ix_tree (index_header ih) (file_view s (ih_fd ih)) t" using wf by (simp add: ix_wf_def)
  have ne: "bt_leaves t \<noteq> []" using tr by (simp add: ix_tree_def shape_leaves)
  obtain p es where l: "last (bt_leaves t) = (p, es)" by (cases "last (bt_leaves t)")
  have m: "(p, es) \<in> set (bt_leaves t)" using last_in_set[OF ne] l by simp
  have ll: "last_leaf (index_header ih) = p" using tr l ne by (simp add: ix_tree_def last_map)
  obtain i u b where g: "get_node p (ih, s) = (Inr i, (ih, u))" "at_node u (ih_fd ih) p i b" "looked (ih_fd ih) s u"
    "num_key (get_header b) = int (length es)"
    by (rule get_leaf_run[OF wf m])
  have "pos_id (bt_leaves t) (length (bt_entries t)) = IndexID p (int (length es))"
    using pos_id_end[OF ne] l by (simp add: bt_entries_def)
  moreover have "leaf_end (ih, s) = (Inr (IndexID p (int (length es))), (ih, u))"
    using g ll by (simp add: leaf_end_def at_node_def)
  ultimately show ?thesis using that g(3) by simp
qed

section \<open>lower_bound and upper_bound\<close>

lemma distinct_bound:
  assumes "distinct ps" "\<forall>p \<in> set ps. NDX_INIT_ROOT_PAGE \<le> p \<and> p < n"
  shows "length ps \<le> nat n"
proof -
  have "set ps \<subseteq> {0..<n}" using assms(2) by (auto simp: NDX_INIT_ROOT_PAGE_def)
  then have "card (set ps) \<le> card {0..<n}" by (intro card_mono) simp_all
  then show ?thesis using distinct_card[OF assms(1)] by simp
qed

lemma index_bound_run:
  assumes wf: "ix_wf s ih t" and search: "searches (index_header ih) search P"
  obtains u where "index_bound search (ih, s) =
      (Inr (pos_id (bt_leaves t) (first_pos P (map fst (bt_entries t)))), (ih, u))" "looked (ih_fd ih) s u"
proof -
  let ?h = "index_header ih" and ?fd = "ih_fd ih" and ?n = "first_pos P (map fst (bt_entries t))"
  have st: "pf_wf s" "fd_path s ?fd \<noteq> None" and tr: "ix_tree ?h (file_view s ?fd) t" using wf by (simp_all add: ix_wf_def)
  then have T: "ix_layout ?h" "bt_rep ?h (file_view s ?fd) NDX_NO_PAGE t" "bt_shape t" "keys_ok ?h t"
    "bt_page t = root_page ?h" "distinct (bt_pages t)"
    "\<forall>p \<in> set (bt_pages t). NDX_INIT_ROOT_PAGE \<le> p \<and> p < ix_num_pages ?h" "ix_num_pages ?h \<le> 524288"
    "leaf_chain (file_view s ?fd) NDX_LEAF_HEADER_PAGE (leaf_pages t)"
    using ix_tree_pages[OF tr] by (simp_all add: ix_tree_def)
  have len: "length (bt_pages t) \<le> nat (ix_num_pages ?h)" by (rule distinct_bound[OF T(6,7)])
  have pg: "1 \<le> bt_page t" "bt_page t < ix_num_pages ?h"
    using T(7) bt_page_in[of t] by (auto simp: NDX_INIT_ROOT_PAGE_def)
  obtain rb where rb: "file_view s ?fd (bt_page t) = Some rb" using bt_rep_root[OF T(2)] by blast
  obtain i u where g: "get_node (bt_page t) (ih, s) = (Inr i, (ih, u))" "at_node u ?fd (bt_page t) i rb" "looked ?fd s u"
    by (rule get_node_run[OF st pg T(8) rb])
  have wfu: "ix_wf u ih t" by (rule looked_ix_wf[OF wf g(3)])
  have stu: "pf_wf u" "fd_path u ?fd \<noteq> None" using wfu by (simp_all add: ix_wf_def)
  have repu: "bt_rep ?h (file_view u ?fd) NDX_NO_PAGE t" by (rule looked_rep[OF T(2) g(3)])
  have fuel: "length (bt_pages t) > 0" by (cases t) simp_all
  obtain fl where fl: "nat (ix_num_pages ?h) = Suc fl" using len fuel by (cases "nat (ix_num_pages ?h)") simp_all
  have pu: "page_bytes i u = rb" "page_ident i u = PageID ?fd (bt_page t)" using g(2) by (simp_all add: at_node_def)
  show ?thesis
  proof (cases "?n < length (bt_entries t)")
    case True
    then have ok: "bt_ok t" using T(3) by (auto simp: bt_shape_def)
    obtain j v p es c where d: "descend (nat (ix_num_pages ?h)) search i (ih, u) = (Inr (Some j), (ih, v))"
      "looked ?fd u v" "at_node v ?fd p j c" "\<exists>pa. node_is ?h True pa c" "node_keys ?h c = map fst es"
      "node_sorted ?h c" "first_pos P (map fst es) < length (es :: entry list)"
      "pos_id (bt_leaves t) ?n = IndexID p (int (first_pos P (map fst es)))"
      using descend_run[OF search T(1) refl refl T(8) repu ok T(4) len T(7) stu g(2) True] by blast
    have nok: "node_ok ?h c" using d(4) by (auto simp: node_is_def)
    have s1: "search ?h c = Inr (int (first_pos P (map fst es)))"
      using search nok d(5,6) by (simp add: searches_def)
    have nk: "num_key (get_header c) = int (length es)" using num_key_keys[OF nok] d(5) by simp
    have "index_bound search (ih, s) = (Inr (IndexID p (int (first_pos P (map fst es)))), (ih, v))"
      using g(1) T(5) d(1,3,7) s1 nk by (simp add: index_bound_def at_node_def)
    then show ?thesis using that d(8) looked_trans[OF g(3) d(2)] by simp
  next
    case False
    then have n: "?n = length (bt_entries t)" using first_pos_le[of P "map fst (bt_entries t)"] by simp
    obtain v where e: "leaf_end (ih, u) = (Inr (pos_id (bt_leaves t) (length (bt_entries t))), (ih, v))" "looked ?fd u v"
      by (rule leaf_end_run[OF wfu])
    have "index_bound search (ih, s) = leaf_end (ih, u)"
    proof (cases t)
      case (Leaf p es)
      have nd: "node_is ?h True NDX_NO_PAGE rb" "node_keys ?h rb = map fst es" using T(2) rb Leaf by simp_all
      have nok: "node_ok ?h rb" using nd(1) by (simp add: node_is_def)
      have srt: "node_sorted ?h rb" using leaf_sorted[of ?h p es rb] T(4) nd(2) Leaf by simp
      have s1: "search ?h rb = Inr (int (length es))" using search nok srt nd(2) n Leaf by (simp add: searches_def)
      have nk: "num_key (get_header rb) = int (length es)" using num_key_keys[OF nok] nd(2) by simp
      have nx: "next_leaf (get_header rb) = NDX_LEAF_HEADER_PAGE" using T(9) rb Leaf by simp
      have "descend (nat (ix_num_pages ?h)) search i (ih, u) = (Inr (Some i), (ih, u))"
        using nd(1) pu(1) by (simp add: fl node_is_def)
      then show ?thesis using g(1) T(5) pu(1) s1 nk nx by (simp add: index_bound_def)
    next
      case (Inner p ks cs)
      have ok: "bt_ok t" using T(3) Inner by (simp add: bt_shape_def)
      have nd: "node_is ?h False NDX_NO_PAGE rb" "node_keys ?h rb = ks" using T(2) rb Inner by simp_all
      have nok: "node_ok ?h rb" using nd(1) by (simp add: node_is_def)
      have cok: "\<forall>c \<in> set cs. bt_ok c" "ks = map bt_last cs" using ok Inner by simp_all
      have up: "upward P (map fst (concat (map bt_entries cs)))"
        using search T(4) Inner by (simp add: searches_def keys_ok_def entries_inner)
      have "\<not> first_pos P ks < length cs"
        using search_children(1)[OF cok(1) up] cok(2) False Inner by (simp add: entries_inner)
      then have full: "first_pos P ks = length cs" using first_pos_le[of P ks] cok(2) by simp
      have srt: "node_sorted ?h rb" using inner_sorted[of ?h p ks cs rb] T(4) ok nd(2) Inner by simp
      have s1: "search ?h rb = Inr (int (length cs))" using search nok srt nd(2) full by (simp add: searches_def)
      have nk: "num_key (get_header rb) = int (length cs)" using num_key_keys[OF nok] nd(2) cok(2) by simp
      have "descend (nat (ix_num_pages ?h)) search i (ih, u) = (Inr None, (ih, u))"
        using nd(1) pu(1) s1 nk by (simp add: fl node_is_def)
      then show ?thesis using g(1) T(5) by (simp add: index_bound_def)
    qed
    then show ?thesis using that e n looked_trans[OF g(3) e(2)] by simp
  qed
qed

end
