(* ===== verification/IndexScan.thy ===== *)
theory IndexScan
  imports IndexSearch
begin

text \<open>
  The iterator over an index: each step goes to the next entry, across leaves, and a scan
  between two positions delivers the record ids between them. Scanning from \<open>lower_bound\<close> to
  \<open>upper_bound\<close> of a key delivers the ids of the entries with that key.
\<close>

section \<open>Steps\<close>

lemma tree_entries: "leaf_entries (bt_leaves t) = bt_entries t"
  by (simp add: bt_entries_def)

lemma ix_wf_tree:
  assumes "ix_wf s ih t"
  shows "bt_leaves t \<noteq> []" "distinct (leaf_pages t)" "bt_entries t \<noteq> [] \<Longrightarrow> \<forall>l \<in> set (bt_leaves t). snd l \<noteq> []"
    "leaf_chain (file_view s (ih_fd ih)) NDX_LEAF_HEADER_PAGE (leaf_pages t)"
    "set (leaf_pages t) \<subseteq> {NDX_INIT_ROOT_PAGE..<ix_num_pages (index_header ih)}"
proof -
  have tr: "ix_tree (index_header ih) (file_view s (ih_fd ih)) t" using assms unfolding ix_wf_def by blast
  then have shape: "bt_shape t" by (simp add: ix_tree_def)
  show "bt_leaves t \<noteq> []" by (rule shape_leaves[OF shape])
  show "\<forall>l \<in> set (bt_leaves t). snd l \<noteq> []" if "bt_entries t \<noteq> []" by (rule shape_full[OF shape that])
  show "leaf_chain (file_view s (ih_fd ih)) NDX_LEAF_HEADER_PAGE (leaf_pages t)" using tr by (simp add: ix_tree_def)
  show "distinct (leaf_pages t)" "set (leaf_pages t) \<subseteq> {NDX_INIT_ROOT_PAGE..<ix_num_pages (index_header ih)}"
    using ix_tree_pages[OF tr] leaf_pages_sub[of t] by auto
qed

lemma ix_next_run:
  assumes wf: "ix_wf s ih t" and n: "n < length (bt_entries t)" and cur: "current_index it = pos_id (bt_leaves t) n"
    and fin: "end_index it \<noteq> current_index it"
  obtains u where "ix_next it (ih, s) = (Inr (it\<lparr>current_index := pos_id (bt_leaves t) (Suc n)\<rparr>), (ih, u))"
    "looked (ih_fd ih) s u"
proof -
  note T = ix_wf_tree[OF wf]
  have full: "\<forall>l \<in> set (bt_leaves t). snd l \<noteq> []" using T(3) n by fastforce
  obtain xs p es ys k where sp: "bt_leaves t = xs @ (p, es) # ys" "n = length (leaf_entries xs) + k" "k < length es"
    "pos_id (bt_leaves t) n = IndexID p (int k)"
    using pos_split[of n "bt_leaves t"] n tree_entries[of t] by metis
  have m: "(p, es) \<in> set (bt_leaves t)" using sp(1) by simp
  obtain i u b where g: "get_node p (ih, s) = (Inr i, (ih, u))" "at_node u (ih_fd ih) p i b" "looked (ih_fd ih) s u"
    "is_leaf (get_header b)" "num_key (get_header b) = int (length es)"
    by (rule get_leaf_run[OF wf m])
  have wfu: "ix_wf u ih t" by (rule looked_ix_wf[OF wf g(3)])
  have b: "page_bytes i u = b" "file_view u (ih_fd ih) p = Some b" using g(2) by (simp_all add: at_node_def)
  have nx: "next_leaf (get_header b) = (case ys of [] \<Rightarrow> NDX_LEAF_HEADER_PAGE | l # _ \<Rightarrow> fst l)"
    by (rule chain_next[where V = "file_view u (ih_fd ih)", OF _ b(2)]) (use ix_wf_tree(4)[OF wfu] sp(1) in simp)
  note pn = pos_next[OF sp(1,3) full, folded sp(2)]
  have ne: "\<not> ix_is_end it" using fin by (simp add: ix_is_end_def)
  have run: "ix_next it (ih, s) = (if int (length es) \<le> int k + 1 then
       (if next_leaf (get_header b) = NDX_LEAF_HEADER_PAGE \<or> next_leaf (get_header b) = NDX_NO_PAGE
        then andThen leaf_end (\<lambda>iid. ret (it\<lparr>current_index := iid\<rparr>))
        else ret (it\<lparr>current_index := IndexID (next_leaf (get_header b)) 0\<rparr>))
     else ret (it\<lparr>current_index := IndexID p (int k + 1)\<rparr>)) (ih, u)"
    using ne cur sp(3,4) g(1,4,5) b(1) by (simp add: ix_next_def)
  show ?thesis
  proof (cases "Suc k < length es")
    case True
    then show ?thesis using that[of u] run pn g(3) by (simp add: add.commute)
  next
    case False
    then have k: "Suc k = length es" using sp(3) by simp
    show ?thesis
    proof (cases ys)
      case Nil
      have "Suc n = length (bt_entries t)"
        using sp(1,2) k Nil by (simp add: bt_entries_def)
      moreover obtain v where "leaf_end (ih, u) = (Inr (pos_id (bt_leaves t) (length (bt_entries t))), (ih, v))"
        "looked (ih_fd ih) u v"
        by (rule leaf_end_run[OF wfu])
      ultimately show ?thesis using that[of v] run nx Nil k looked_trans[OF g(3)] by simp
    next
      case (Cons l ls)
      obtain q fs where l: "l = (q, fs)" by (cases l)
      have "q \<in> set (leaf_pages t)" using sp(1) Cons l by simp
      then have "2 \<le> q" using T(5) by (auto simp: NDX_INIT_ROOT_PAGE_def)
      then have "q \<noteq> NDX_LEAF_HEADER_PAGE" "q \<noteq> NDX_NO_PAGE" by (simp_all add: NDX_LEAF_HEADER_PAGE_def NDX_NO_PAGE_def)
      then show ?thesis using that[of u] run nx Cons l k pn g(3) by simp
    qed
  qed
qed

lemma ix_get_RecordID_run:
  assumes wf: "ix_wf s ih t" and n: "n < length (bt_entries t)" and cur: "current_index it = pos_id (bt_leaves t) n"
  obtains u where "ix_get_RecordID it (ih, s) = (Inr (snd (bt_entries t ! n)), (ih, u))" "looked (ih_fd ih) s u"
proof -
  obtain xs p es ys k where sp: "bt_leaves t = xs @ (p, es) # ys" "n = length (leaf_entries xs) + k" "k < length es"
    "pos_id (bt_leaves t) n = IndexID p (int k)"
    using pos_split[of n "bt_leaves t"] n tree_entries[of t] by metis
  have m: "(p, es) \<in> set (bt_leaves t)" using sp(1) by simp
  obtain i u b where g: "get_node p (ih, s) = (Inr i, (ih, u))" "at_node u (ih_fd ih) p i b" "looked (ih_fd ih) s u"
    "node_ok (index_header ih) b" "is_leaf (get_header b)" "num_key (get_header b) = int (length es)"
    "node_rids (index_header ih) b = map snd es"
    by (rule get_leaf_run[OF wf m])
  have lay: "ix_layout (index_header ih)" using wf unfolding ix_wf_def ix_tree_def by blast
  have rid: "get_record_id (index_header ih) (int k) b = Inr (snd (es ! k))"
    using get_record_id_list[OF lay g(4), of k] g(7) sp(3) by simp
  have "leaf_entries (bt_leaves t) ! n = es ! k" using sp(1-3) by (simp add: nth_append)
  then have e: "bt_entries t ! n = es ! k" using tree_entries by simp
  have "ix_get_RecordID it (ih, s) = (Inr (snd (es ! k)), (ih, u))"
    using cur sp(3,4) g(1,2,5,6) rid by (simp add: ix_get_RecordID_def index_record_id_def at_node_def)
  then show ?thesis using that g(3) e by simp
qed

section \<open>Scans\<close>

text \<open>The loop \<open>for (...; !scan.is_end(); scan.next())\<close> of the clients, collecting the ids.\<close>

fun index_scan :: "nat \<Rightarrow> IndexIterator \<Rightarrow> ('z, RecordID list) ix_prog" where
  "index_scan 0 it = throw NoReturn"
| "index_scan (Suc fuel) it =
     (if ix_is_end it then ret []
      else andThen (ix_get_RecordID it) (\<lambda>rid.
        andThen (ix_next it) (\<lambda>it.
        andThen (index_scan fuel it) (\<lambda>rids. ret (rid # rids)))))"

lemma index_scan_run:
  assumes "ix_wf s ih t" "m \<le> n" "n \<le> length (bt_entries t)" "n - m < fuel"
  shows "\<exists>u. index_scan fuel \<lparr>current_index = pos_id (bt_leaves t) m, end_index = pos_id (bt_leaves t) n\<rparr> (ih, s) =
      (Inr (map snd (take (n - m) (drop m (bt_entries t)))), (ih, u)) \<and> looked (ih_fd ih) s u"
  using assms
proof (induction fuel arbitrary: m s)
  case (Suc fuel)
  let ?it = "\<lparr>current_index = pos_id (bt_leaves t) m, end_index = pos_id (bt_leaves t) n\<rparr>"
  show ?case
  proof (cases "m = n")
    case True
    have "looked (ih_fd ih) s s" using Suc.prems(1) by (intro looked_refl) (simp add: ix_wf_def)
    then show ?thesis using True by (simp add: ix_is_end_def)
  next
    case False
    then have m: "m < n" "m < length (bt_entries t)" using Suc.prems(2,3) by simp_all
    note T = ix_wf_tree[OF Suc.prems(1)]
    have ne: "pos_id (bt_leaves t) n \<noteq> pos_id (bt_leaves t) m"
    proof
      assume e: "pos_id (bt_leaves t) n = pos_id (bt_leaves t) m"
      have "n = m" by (rule pos_id_inj[OF T(2) _ _ e]) (use m Suc.prems(3) tree_entries[of t] in simp_all)
      then show False using m by simp
    qed
    obtain u where u: "ix_get_RecordID ?it (ih, s) = (Inr (snd (bt_entries t ! m)), (ih, u))" "looked (ih_fd ih) s u"
      by (rule ix_get_RecordID_run[OF Suc.prems(1) m(2), of ?it]) simp_all
    have wfu: "ix_wf u ih t" by (rule looked_ix_wf[OF Suc.prems(1) u(2)])
    obtain v where v: "ix_next ?it (ih, u) = (Inr (?it\<lparr>current_index := pos_id (bt_leaves t) (Suc m)\<rparr>), (ih, v))"
      "looked (ih_fd ih) u v"
      by (rule ix_next_run[OF wfu m(2), of ?it]) (use ne in simp_all)
    have wfv: "ix_wf v ih t" by (rule looked_ix_wf[OF wfu v(2)])
    obtain w where w: "index_scan fuel (?it\<lparr>current_index := pos_id (bt_leaves t) (Suc m)\<rparr>) (ih, v) =
        (Inr (map snd (take (n - Suc m) (drop (Suc m) (bt_entries t)))), (ih, w))" "looked (ih_fd ih) v w"
    proof -
      have "Suc m \<le> n" "n - Suc m < fuel" using m(1) Suc.prems(4) by linarith+
      then show thesis using Suc.IH[OF wfv _ Suc.prems(3)] that by force
    qed
    have "take (n - m) (drop m (bt_entries t)) = bt_entries t ! m # take (n - Suc m) (drop (Suc m) (bt_entries t))"
      using m by (simp add: Cons_nth_drop_Suc[symmetric] take_Cons')
    then show ?thesis
      using u v w ne looked_trans[OF u(2) looked_trans[OF v(2) w(2)]] by (simp add: ix_is_end_def)
  qed
qed simp

text \<open>Between the bounds lie the elements that pass the first test and not the second.\<close>

lemma first_pos_range:
  assumes "upward P xs" "upward Q xs" "\<And>x. Q x \<Longrightarrow> P x"
  shows "first_pos P xs \<le> first_pos Q xs \<and>
    take (first_pos Q xs - first_pos P xs) (drop (first_pos P xs) xs) = filter (\<lambda>x. P x \<and> \<not> Q x) xs"
  using assms(1,2)
proof (induction xs)
  case (Cons x xs)
  have IH: "first_pos P xs \<le> first_pos Q xs \<and>
    take (first_pos Q xs - first_pos P xs) (drop (first_pos P xs) xs) = filter (\<lambda>x. P x \<and> \<not> Q x) xs"
    using Cons by simp
  have f: "first_pos R (x # xs) = (if R x then 0 else Suc (first_pos R xs))" for R by (simp add: first_pos_def)
  show ?case
  proof (cases "P x")
    case True
    then have "\<forall>y \<in> set xs. P y" using Cons.prems(1) by simp
    then have p0: "first_pos P xs = 0" by (cases xs) (simp_all add: first_pos_def)
    have "\<forall>y \<in> set xs. Q y" if "Q x" using that Cons.prems(2) by simp
    then show ?thesis using True IH p0 unfolding f by auto
  next
    case False
    then show ?thesis using assms(3) IH unfolding f by auto
  qed
qed (simp add: first_pos_def)

definition index_lookup :: "nat \<Rightarrow> byte list \<Rightarrow> ('z, RecordID list) ix_prog" where
  "index_lookup fuel key =
     andThen (index_lower_bound key) (\<lambda>lower.
     andThen (index_upper_bound key) (\<lambda>upper.
     index_scan fuel \<lparr>current_index = lower, end_index = upper\<rparr>))"

lemma index_lookup_run:
  assumes wf: "ix_wf s ih t" and key: "key_ok (index_header ih) k" and fuel: "length (bt_entries t) < fuel"
  obtains u where "index_lookup fuel k (ih, s) =
      (Inr (map snd (filter (\<lambda>e. key_cmp (index_header ih) k (fst e) = 0) (bt_entries t))), (ih, u))"
    "looked (ih_fd ih) s u"
proof -
  let ?h = "index_header ih"
  let ?P = "\<lambda>x. key_cmp ?h k x \<le> 0" and ?Q = "\<lambda>x. key_cmp ?h k x < 0"
  let ?K = "map fst (bt_entries t)"
  have tr: "ix_layout ?h" "column_type ?h \<noteq> TYPE_DATETIME" "keys_ok ?h t"
    using wf unfolding ix_wf_def ix_tree_def by blast+
  note se = searches_lower[OF tr(1,2) key]
  obtain u where u: "index_bound (\<lambda>h. node_lower_bound h k) (ih, s) = (Inr (pos_id (bt_leaves t) (first_pos ?P ?K)), (ih, u))"
    "looked (ih_fd ih) s u"
    by (rule index_bound_run[OF wf se(1)])
  have wfu: "ix_wf u ih t" by (rule looked_ix_wf[OF wf u(2)])
  obtain v where v: "index_bound (\<lambda>h. node_upper_bound h k) (ih, u) = (Inr (pos_id (bt_leaves t) (first_pos ?Q ?K)), (ih, v))"
    "looked (ih_fd ih) u v"
    by (rule index_bound_run[OF wfu se(2)])
  have wfv: "ix_wf v ih t" by (rule looked_ix_wf[OF wfu v(2)])
  have up: "upward ?P ?K" "upward ?Q ?K" using se tr(3) by (simp_all add: searches_def keys_ok_def)
  have up': "upward (\<lambda>e. ?P (fst e)) (bt_entries t)" "upward (\<lambda>e. ?Q (fst e)) (bt_entries t)"
    using up by (simp_all add: sorted_wrt_map)
  note r = first_pos_range[OF up']
  have r': "first_pos ?P ?K \<le> first_pos ?Q ?K"
    "take (first_pos ?Q ?K - first_pos ?P ?K) (drop (first_pos ?P ?K) (bt_entries t)) =
      filter (\<lambda>e. key_cmp ?h k (fst e) = 0) (bt_entries t)"
  proof -
    have f: "filter (\<lambda>e. ?P (fst e) \<and> \<not> ?Q (fst e)) (bt_entries t) = filter (\<lambda>e. key_cmp ?h k (fst e) = 0) (bt_entries t)"
      by (rule filter_cong) auto
    show "first_pos ?P ?K \<le> first_pos ?Q ?K"
      "take (first_pos ?Q ?K - first_pos ?P ?K) (drop (first_pos ?P ?K) (bt_entries t)) =
        filter (\<lambda>e. key_cmp ?h k (fst e) = 0) (bt_entries t)"
      using r by (simp_all add: first_pos_map f)
  qed
  have le: "first_pos ?Q ?K \<le> length (bt_entries t)" using first_pos_le[of ?Q ?K] by simp
  obtain w where w: "index_scan fuel \<lparr>current_index = pos_id (bt_leaves t) (first_pos ?P ?K),
      end_index = pos_id (bt_leaves t) (first_pos ?Q ?K)\<rparr> (ih, v) =
      (Inr (map snd (filter (\<lambda>e. key_cmp ?h k (fst e) = 0) (bt_entries t))), (ih, w))" "looked (ih_fd ih) v w"
  proof -
    have "first_pos ?Q ?K - first_pos ?P ?K < fuel" using le fuel by linarith
    then show thesis using index_scan_run[OF wfv r'(1) le] that unfolding r'(2) by blast
  qed
  show ?thesis
    using that[of w] u(1) v(1) w(1) looked_trans[OF u(2) looked_trans[OF v(2) w(2)]]
    by (simp add: index_lookup_def index_lower_bound_def index_upper_bound_def)
qed

end
