(* ===== verification/IndexFile.thy ===== *)
theory IndexFile
  imports IndexScan RecordManager
begin

text \<open>
  \<open>IndexManager\<close>: the layout of a new index, and what create, open and close do. A created
  index is the empty tree, and a closed one reopens as the tree it was.
\<close>

section \<open>The layout of a new index\<close>

lemma new_btree_order_bounds:
  assumes "1 \<le> len" "len \<le> NDX_MAX_COL_LEN"
  shows "6 \<le> new_btree_order len" "new_btree_order len \<le> 451"
    "(new_btree_order len + 1) * (len + 8) \<le> 4068"
proof -
  have l: "1 \<le> len" "len \<le> 512" using assms by (simp_all add: NDX_MAX_COL_LEN_def)
  have m: "(len + 8) mod 18446744073709551616 = len + 8" using l by (intro mod_pos_pos_trivial) simp_all
  have o: "new_btree_order len = 4068 div (len + 8) - 1"
    using m by (simp add: new_btree_order_def PAGE_SIZE_def sizeof_IndexPageHeader_def sizeof_RecordID_def)
  have "4068 div 520 \<le> 4068 div (len + 8)" using l by (intro zdiv_mono2) simp_all
  then show "6 \<le> new_btree_order len" using o by simp
  have "4068 div (len + 8) \<le> 4068 div 9" using l by (intro zdiv_mono2) simp_all
  then show "new_btree_order len \<le> 451" using o by simp
  have "(len + 8) * (4068 div (len + 8)) + 4068 mod (len + 8) = 4068" by (rule mult_div_mod_eq)
  moreover have "0 \<le> 4068 mod (len + 8)" using l by (intro pos_mod_sign) simp
  ultimately have "(len + 8) * (4068 div (len + 8)) \<le> 4068" by linarith
  then show "(new_btree_order len + 1) * (len + 8) \<le> 4068" unfolding o by (simp add: mult.commute)
qed

lemma new_index_layout:
  assumes "1 \<le> len" "len \<le> NDX_MAX_COL_LEN"
  shows "ix_layout (new_index_header type len)"
proof -
  note b = new_btree_order_bounds[OF assms]
  have "28 + (new_btree_order len + 1) * len + (new_btree_order len + 1) * 8 \<le> 4096"
    using b(3) unfolding distrib_left by linarith
  then show ?thesis
    using assms b(1) by (simp add: ix_layout_def new_index_header_def sizeof_IndexPageHeader_def PAGE_SIZE_def)
qed

section \<open>The header in the file\<close>

definition ix_hdr_ints :: "IndexFileHeader \<Rightarrow> int list" where
  "ix_hdr_ints h = [ix_first_free h, ix_num_pages h, root_page h, enum_to_int (column_type h), col_len h,
     btree_order h, key_offset h, rid_offset h, first_leaf h, last_leaf h]"

lemma length_ix_hdr_bytes [simp]: "length (ix_hdr_bytes h) = 40"
  by (simp add: ix_hdr_bytes_def)

lemma ix_hdr_of_hdr_bytes: "\<forall>i \<in> set (ix_hdr_ints h). int_ok i \<Longrightarrow> ix_hdr_of_bytes (ix_hdr_bytes h) = Some h"
  using bytes_ints_bytes[of "ix_hdr_ints h" 10]
  by (simp add: ix_hdr_of_bytes_def ix_hdr_bytes_def ix_hdr_ints_def)

lemma enum_small: "0 \<le> enum_to_int t \<and> enum_to_int t \<le> 3"
  by (cases t) simp_all

lemma ix_tree_ints:
  assumes "ix_tree h V t"
  shows "\<forall>i \<in> set (ix_hdr_ints h). int_ok i"
proof -
  have lay: "ix_layout h" and np: "ix_num_pages h \<le> 524288" and rp: "bt_page t = root_page h"
    and fl: "first_leaf h = hd (leaf_pages t)" "last_leaf h = last (leaf_pages t)" and ne: "bt_shape t"
    using assms by (simp_all add: ix_tree_def)
  note P = ix_tree_pages[OF assms]
  have ne': "leaf_pages t \<noteq> []" using shape_leaves[OF ne] by simp
  have sub: "set (leaf_pages t) \<subseteq> set (bt_pages t)" using leaf_pages_sub[OF P(1)] by simp
  have pg: "2 \<le> p \<and> p < ix_num_pages h" if "p \<in> set (bt_pages t)" for p
    using P(2) that by (simp add: NDX_INIT_ROOT_PAGE_def)
  have r: "2 \<le> root_page h \<and> root_page h < ix_num_pages h" using pg[OF bt_page_in] rp by simp
  have l: "2 \<le> first_leaf h \<and> first_leaf h < ix_num_pages h" "2 \<le> last_leaf h \<and> last_leaf h < ix_num_pages h"
    using pg sub hd_in_set[OF ne'] last_in_set[OF ne'] fl by auto
  obtain fs where fs: "ix_free_list V (ix_first_free h) fs" "set (fs @ bt_pages t) = {NDX_INIT_ROOT_PAGE..<ix_num_pages h}"
    using assms unfolding ix_tree_def ix_free_def by blast
  have ff: "- 1 \<le> ix_first_free h \<and> ix_first_free h \<le> ix_num_pages h"
  proof (cases fs)
    case Nil
    then show ?thesis using fs(1) r by (simp add: NDX_NO_PAGE_def)
  next
    case (Cons q qs)
    then have "q \<in> {NDX_INIT_ROOT_PAGE..<ix_num_pages h}" unfolding fs(2)[symmetric] by simp
    then show ?thesis using fs(1) Cons by (simp add: NDX_INIT_ROOT_PAGE_def)
  qed
  obtain w m where w: "col_len h = int w" "btree_order h + 1 = int m" "0 < w" "3 < m"
    "key_offset h = 28" "rid_offset h = int (28 + m * w)" "28 + m * w + m * 8 \<le> PAGE_SIZE"
    using lay by (rule layout_nat)
  have mw: "1 * w \<le> m * w" using w(4) by (intro mult_le_mono1) simp
  have "PAGE_SIZE = 4096" by (simp add: PAGE_SIZE_def)
  then have s: "w \<le> 4096" "m \<le> 4096" "28 + m * w \<le> 4096" using w(7) mw by linarith+
  have c: "int_ok (int n)" if "n \<le> 4096" for n using that by (simp add: int_ok_def INT_MAX_def INT_MIN_def)
  have o: "btree_order h = int m - 1" using w(2) by simp
  have i: "int_ok x" if "- 1 \<le> x" "x \<le> 524288" for x using that by (simp add: int_ok_def INT_MAX_def INT_MIN_def)
  have "int_ok (ix_first_free h)" "int_ok (ix_num_pages h)" "int_ok (root_page h)" "int_ok (enum_to_int (column_type h))"
    "int_ok (first_leaf h)" "int_ok (last_leaf h)" "int_ok (btree_order h)" "int_ok (28 :: int)"
    using ff r l np enum_small[of "column_type h"] o s(2) by (auto intro!: i)
  moreover have "int_ok (col_len h)" "int_ok (rid_offset h)" unfolding w(1,6) by (rule c[OF s(1)], rule c[OF s(3)])
  ultimately show ?thesis unfolding ix_hdr_ints_def w(5) by auto
qed

text \<open>An index file on disk.\<close>

definition ix_file :: "IndexFileHeader \<Rightarrow> byte list \<Rightarrow> bt \<Rightarrow> bool" where
  "ix_file h b t \<longleftrightarrow> sizeof_IndexFileHeader \<le> length b \<and> take sizeof_IndexFileHeader b = ix_hdr_bytes h \<and>
     ix_tree h (file_page b) t"

section \<open>Opening\<close>

lemma open_index_run:
  assumes wf: "pm_wf s" and disk: "files s (resolve s (get_index_name name n)) = Some b" "ix_file h b t"
    and closed: "path2fd s (get_index_name name n) = None"
  obtains fd where "open_index name n s = (Inr \<lparr>ih_fd = fd, index_header = h\<rparr>, opened fd (get_index_name name n) s)"
    "pm_wf (opened fd (get_index_name name n) s)"
    "ix_wf (opened fd (get_index_name name n) s) \<lparr>ih_fd = fd, index_header = h\<rparr> t"
    "fd \<notin> set (map fst (open_fds s))"
proof -
  let ?path = "get_index_name name n"
  have there: "sys_is_reg s ?path" using disk(1) by (simp add: sys_is_reg_def)
  obtain fd where fd: "open_file ?path s = (Inr fd, opened fd ?path s)" "pm_wf (opened fd ?path s)"
    "fd \<notin> set (map fst (open_fds s))" "fd2path s fd = None"
    by (rule open_file_run[OF wf there closed])
  let ?t = "opened fd ?path s"
  have fp: "fd_path ?t fd = Some (resolve s ?path)" by (simp add: fd_path_def)
  have v: "valid_pid ?t (PageID fd NDX_FILE_HDR_PAGE)"
    using fp by (simp add: valid_pid_def NDX_FILE_HDR_PAGE_def int_ok_def INT_MAX_def INT_MIN_def)
  have b: "40 \<le> length b" "take 40 b = ix_hdr_bytes h" "ix_tree h (file_page b) t"
    using disk(2) by (simp_all add: ix_file_def sizeof_IndexFileHeader_def)
  have o: "page_off NDX_FILE_HDR_PAGE = 0" by (simp add: page_off_def NDX_FILE_HDR_PAGE_def)
  have "sys_pread ?t fd 0 40 = ix_hdr_bytes h"
    using fp disk(1) b(1,2) by (simp add: sys_pread_def fd_data_def load_def)
  then have "read_page fd NDX_FILE_HDR_PAGE sizeof_IndexFileHeader (\<lambda>_ s. s) ?t = (Inr (ix_hdr_bytes h), ?t)"
    using v by (simp add: read_page_def o sizeof_IndexFileHeader_def)
  then have run: "open_index name n s = (Inr \<lparr>ih_fd = fd, index_header = h\<rparr>, ?t)"
    using fd(1) ix_hdr_of_hdr_bytes[OF ix_tree_ints[OF b(3)]] by (simp add: open_index_def IndexHandle_init_def)
  note ov = opened_view[OF wf fd(3)]
  have fv: "file_view ?t fd = file_page b"
    using ov(3)[of ?path fd] disk(1) by (simp add: file_view_def fun_eq_iff)
  have "PageID fd NDX_FILE_HDR_PAGE \<notin> cached_pages ?t" using ov(2) by (simp add: cached_pages_def domIff)
  then have "ix_wf ?t \<lparr>ih_fd = fd, index_header = h\<rparr> t"
    using fd(2) fp b(3) fv by (simp add: ix_wf_def pm_wf_def)
  then show ?thesis using that[OF run fd(2) _ fd(3)] by simp
qed

section \<open>Closing\<close>

lemma cached_above_header:
  assumes wf: "pm_wf s" and out: "PageID fd RM_FILE_HDR_PAGE \<notin> cached_pages s" and b: "busy_map s (PageID fd p) \<noteq> None"
  shows "PAGE_SIZE \<le> page_off p" "40 \<le> page_off p"
proof -
  from b obtain i where i: "busy_map s (PageID fd p) = Some i" by auto
  have inv: "pager_inv s" using wf by (simp add: pm_wf_def pf_wf_def)
  have "0 \<le> p" using held_page(6)[OF inv i] by (simp add: valid_pid_def)
  moreover have "p \<noteq> 0" using i out by (auto simp: cached_pages_def RM_FILE_HDR_PAGE_def)
  ultimately have "1 * PAGE_SIZE \<le> nat p * PAGE_SIZE" by (intro mult_right_mono) auto
  then show "PAGE_SIZE \<le> page_off p" "40 \<le> page_off p" by (simp_all add: page_off_def PAGE_SIZE_def)
qed

text \<open>The tree does not depend on the header page.\<close>

lemma tree_drop_header:
  assumes tr: "ix_tree h V t" shows "ix_tree h (V(NDX_FILE_HDR_PAGE := None)) t"
proof -
  let ?W = "V(NDX_FILE_HDR_PAGE := None)"
  note P = ix_tree_pages[OF tr]
  have eq: "?W p = V p" if "1 \<le> p" for p using that by (simp add: NDX_FILE_HDR_PAGE_def)
  have pg: "1 \<le> p" if "p \<in> set (bt_pages t)" for p using P(2) that by (force simp: NDX_INIT_ROOT_PAGE_def)
  have rep0: "bt_rep h V NDX_NO_PAGE t" using tr by (simp add: ix_tree_def)
  have rep: "bt_rep h ?W NDX_NO_PAGE t"
    by (rule bt_rep_mono[where V = V, OF rep0]) (use eq[OF pg] in simp)
  have chain: "leaf_chain ?W q ps" if "leaf_chain V q ps" "\<forall>p \<in> set ps. 1 \<le> p" for q ps
    using that eq eq[of NDX_LEAF_HEADER_PAGE]
    by (induction ps arbitrary: q) (simp_all add: NDX_LEAF_HEADER_PAGE_def NDX_FILE_HDR_PAGE_def)
  have "\<forall>p \<in> set (leaf_pages t). 1 \<le> p" using pg leaf_pages_sub[OF P(1)] by blast
  then have lc: "leaf_chain ?W NDX_LEAF_HEADER_PAGE (leaf_pages t)" using chain tr by (simp add: ix_tree_def)
  obtain fs where fs: "ix_free_list V (ix_first_free h) fs" "distinct (fs @ bt_pages t)"
    "set (fs @ bt_pages t) = {NDX_INIT_ROOT_PAGE..<ix_num_pages h}"
    using tr unfolding ix_tree_def ix_free_def by blast
  have free: "ix_free_list ?W p qs" if "ix_free_list V p qs" "\<forall>p \<in> set qs. 1 \<le> p" for p qs
    using that eq by (induction qs arbitrary: p) (auto split: option.splits)
  have "set fs \<subseteq> {NDX_INIT_ROOT_PAGE..<ix_num_pages h}" using fs(3) by auto
  then have "\<forall>p \<in> set fs. 1 \<le> p" by (auto simp: NDX_INIT_ROOT_PAGE_def)
  then have "ix_free_list ?W (ix_first_free h) fs" using free fs(1) by blast
  then have "ix_free h ?W t" unfolding ix_free_def using fs(2,3) by blast
  then show ?thesis using tr rep lc by (simp add: ix_tree_def)
qed

lemma ix_wf_kept:
  assumes "kept G s u" "pf_wf u" "ix_wf s ih t" "ih_fd ih \<in> G"
  shows "ix_wf u ih t"
  using assms ix_tree_mono[of "index_header ih" "file_view s (ih_fd ih)" t "file_view u (ih_fd ih)"]
    map_le_Some[OF kept_view[OF assms(1,4)]]
  by (auto simp: ix_wf_def kept_def)

lemma close_index_run:
  assumes wf: "pm_wf s" "ix_wf s ih t" and path: "fd2path s (ih_fd ih) = Some path"
  obtains u b where "close_index ih s = (Inr (), u)" "pm_wf u" "path2fd u = (path2fd s)(path := None)"
    "cwd u = cwd s" "files u (resolve s path) = Some b" "ix_file (index_header ih) b t"
    "\<And>g p x. g \<noteq> ih_fd ih \<Longrightarrow> page_view s (PageID g p) = Some x \<Longrightarrow> page_view u (PageID g p) = Some x"
    "\<And>f. f \<notin> snd ` set (open_fds s) \<Longrightarrow> files u f = files s f"
    "kept (- {ih_fd ih}) s u" "pf_state.more u = pf_state.more s"
    "open_fds u = filter (\<lambda>e. fst e \<noteq> ih_fd ih) (open_fds s)" "fd2path u = (fd2path s)(ih_fd ih := None)"
proof -
  let ?fd = "ih_fd ih" and ?hb = "ix_hdr_bytes (index_header ih)"
  have hp: "NDX_FILE_HDR_PAGE = RM_FILE_HDR_PAGE" by (simp add: NDX_FILE_HDR_PAGE_def RM_FILE_HDR_PAGE_def)
  have tr: "ix_tree (index_header ih) (file_view s ?fd) t" and out: "PageID ?fd RM_FILE_HDR_PAGE \<notin> cached_pages s"
    using wf(2) hp by (simp_all add: ix_wf_def)
  have len: "length ?hb \<le> PAGE_SIZE" by (simp add: PAGE_SIZE_def)
  obtain F b where F: "write_page ?fd RM_FILE_HDR_PAGE ?hb s = (Inr (), s\<lparr>files := F\<rparr>)"
    "F (resolve s path) = Some b" "take (length ?hb) b = ?hb" "length ?hb \<le> length b"
    "\<And>f. f \<noteq> resolve s path \<Longrightarrow> F f = files s f" "pm_wf (s\<lparr>files := F\<rparr>)"
    "\<And>q x. q \<noteq> PageID ?fd RM_FILE_HDR_PAGE \<Longrightarrow> page_view s q = Some x \<Longrightarrow> page_view (s\<lparr>files := F\<rparr>) q = Some x"
    by (rule header_write[OF wf(1) path len out]) (rule that; assumption)
  let ?u = "s\<lparr>files := F\<rparr>"
  have low: "40 \<le> page_off p" if "busy_map ?u (PageID ?fd p) \<noteq> None" for p
    using that cached_above_header[OF wf(1) out] by simp
  have pathu: "fd2path ?u ?fd = Some path" using path by simp
  obtain t' where t: "close_file ?fd ?u = (Inr (), t')" "pm_wf t'" "cwd t' = cwd ?u"
    "path2fd t' = (path2fd ?u)(path := None)" "fd2path t' = (fd2path ?u)(?fd := None)"
    "dom (files t') = dom (files ?u)" "prefix_kept 40 ?u t'"
    "\<And>p x. page_view ?u (PageID ?fd p) = Some x \<Longrightarrow>
       \<exists>b. files t' (resolve ?u path) = Some b \<and> file_page b p = Some x"
    "\<And>g p x. g \<noteq> ?fd \<Longrightarrow> page_view ?u (PageID g p) = Some x \<Longrightarrow> page_view t' (PageID g p) = Some x"
    "\<And>f. f \<notin> snd ` set (open_fds ?u) \<Longrightarrow> files t' f = files ?u f"
    "open_fds t' = filter (\<lambda>e. fst e \<noteq> ?fd) (open_fds ?u)" "pf_state.more t' = pf_state.more ?u"
    "dom (busy_map t') \<subseteq> dom (busy_map ?u)"
    by (rule close_file_run[where n = 40, OF F(6) pathu low], assumption) (rule that; assumption)
  have run: "close_index ih s = (Inr (), t')" using F(1) t(1) hp by (simp add: close_index_def)
  have ru: "resolve ?u path = resolve s path" by (simp add: resolve_def)
  obtain b' where b': "files t' (resolve s path) = Some b'" "length b \<le> length b'"
    "\<And>k. k \<le> 40 \<Longrightarrow> k \<le> length b \<Longrightarrow> take k b' = take k b"
    using t(7) F(2) unfolding prefix_kept_def by force
  have mono: "file_page b' p = Some x" if "((file_view s ?fd)(NDX_FILE_HDR_PAGE := None)) p = Some x" for p x
  proof -
    have x: "p \<noteq> RM_FILE_HDR_PAGE" "page_view s (PageID ?fd p) = Some x"
      using that hp by (auto simp: file_view_def split: if_splits)
    then have "page_view ?u (PageID ?fd p) = Some x" using F(7) by simp
    then show ?thesis using t(8) b'(1) ru by fastforce
  qed
  have "ix_tree (index_header ih) (file_page b') t" by (rule ix_tree_mono[OF tree_drop_header[OF tr] mono])
  moreover have "take 40 b' = ?hb" using b'(3)[of 40] F(3,4) by simp
  ultimately have fl: "ix_file (index_header ih) b' t"
    using b'(2) F(4) by (simp add: ix_file_def sizeof_IndexFileHeader_def)
  have others: "page_view t' (PageID g p) = Some x" if "g \<noteq> ?fd" "page_view s (PageID g p) = Some x" for g p x
    using t(9)[OF that(1)] F(7) that by simp
  show ?thesis
  proof (rule that[OF run t(2) _ _ b'(1) fl])
    show "path2fd t' = (path2fd s)(path := None)" "cwd t' = cwd s" using t(3,4) by simp_all
    show "page_view t' (PageID g p) = Some x" if "g \<noteq> ?fd" "page_view s (PageID g p) = Some x" for g p x
      by (rule others[OF that])
    show "open_fds t' = filter (\<lambda>e. fst e \<noteq> ?fd) (open_fds s)" "fd2path t' = (fd2path s)(?fd := None)"
      "pf_state.more t' = pf_state.more s" using t(5,11,12) by simp_all
    show "kept (- {?fd}) s t'"
      using others t(11,13) by (auto simp: kept_def cached_pages_def fd_path_def map_of_filter_fst)
    show "files t' f = files s f" if "f \<notin> snd ` set (open_fds s)" for f
    proof -
      have "(?fd, resolve s path) \<in> set (open_fds s)"
        using wf(1) path by (intro fd_path_in) (simp add: pm_wf_def pm_maps_def)
      then have "f \<noteq> resolve s path" using that by force
      then show ?thesis using t(10) that F(5) by simp
    qed
  qed
qed

section \<open>Creating\<close>

text \<open>A write to an open file none of whose pages is cached only changes the file.\<close>

lemma uncached_write:
  fixes xs :: "byte list"
  assumes wf: "pm_wf s" and path: "fd2path s fd = Some path" and gone: "\<And>p. busy_map s (PageID fd p) = None"
    and b0: "files s (resolve s path) = Some b0" and p: "0 \<le> p" "p < 524288"
  defines "t \<equiv> s\<lparr>files := (files s)(resolve s path \<mapsto> file_write b0 (page_off p) xs)\<rparr>"
  shows "write_page fd p xs s = (Inr (), t)" "pm_wf t"
    "g \<noteq> fd \<Longrightarrow> page_view t (PageID g q) = page_view s (PageID g q)"
proof -
  have inv: "pager_inv s" and maps: "pm_maps s" using wf by (auto simp: pm_wf_def pf_wf_def)
  note pp = pager_inv_parts[OF inv]
  have fp: "fd_path s fd = Some (resolve s path)" using maps path by (simp add: pm_maps_def)
  have v: "valid_pid s (PageID fd p)"
    using fp p by (simp add: valid_pid_def int_ok_def PAGE_SIZE_def INT_MAX_def INT_MIN_def)
  show "write_page fd p xs s = (Inr (), t)"
    using v fp b0 by (simp add: write_page_def sys_pwrite_def t_def)
  have other: "disk_page t (PageID g q) = disk_page s (PageID g q)" if "g \<noteq> fd" for g q
  proof (cases "fd_path s g")
    case None
    then show ?thesis by (simp add: disk_page_def fd_data_def t_def fd_path_def)
  next
    case (Some path')
    then have "path' \<noteq> resolve s path" using fd_path_inj[OF pp(1), of g path' fd] fp that by auto
    then show ?thesis using Some by (simp add: disk_page_def fd_data_def t_def fd_path_def)
  qed
  show "page_view t (PageID g q) = page_view s (PageID g q)" if "g \<noteq> fd" for g q
    using other[OF that, of q] by (simp add: page_view_def t_def split: option.split)
  have "page_synced t i" if i: "i \<in> set (busy_pages s)" for i
  proof -
    have m: "busy_map s (page_id (pages s ! i)) = Some i" by (rule map_lists_Some[OF pp(3) i])
    obtain g q where gq: "page_id (pages s ! i) = PageID g q" by (cases "page_id (pages s ! i)")
    have "g \<noteq> fd" using m gone gq by auto
    then show ?thesis using pp(4)[OF i] other gq by (simp add: page_synced_def t_def)
  qed
  moreover have "os_wf t" using pp(1) b0 by (auto simp: os_wf_def t_def)
  moreover have "pager_struct t" using pp(2) by (simp add: pager_struct_def t_def)
  moreover have "map_lists t (busy_pages s)" using pp(3) by (simp add: map_lists_def t_def)
  ultimately have "pager_inv t" by (simp add: pager_inv_def t_def)
  then show "pm_wf t" using wf by (simp add: pm_wf_def pf_wf_def pm_maps_def fd_path_def resolve_def t_def)
qed

lemma uncached_write_run:
  assumes "pm_wf s" "fd2path s fd = Some path" "\<forall>p. busy_map s (PageID fd p) = None"
    "files s (resolve s path) = Some b0" "0 \<le> p" "p < 524288"
  obtains t where "write_page fd p xs s = (Inr (), t)" "pm_wf t" "fd2path t = fd2path s" "path2fd t = path2fd s"
    "cwd t = cwd s" "resolve t = resolve s" "\<forall>p. busy_map t (PageID fd p) = None"
    "files t (resolve s path) = Some (file_write b0 (page_off p) xs)"
proof -
  have gone: "\<And>p. busy_map s (PageID fd p) = None" using assms(3) by blast
  note w = uncached_write[OF assms(1,2) gone assms(4-6), where xs = xs]
  show ?thesis by (rule that[OF w(1,2)]) (simp_all add: gone resolve_def fun_eq_iff)
qed

lemma prefix_kept_file:
  assumes "prefix_kept (length b) s t" "files s f = Some b"
  obtains b' where "files t f = Some b'" "length b \<le> length b'" "take (length b) b' = b"
  using assms unfolding prefix_kept_def by force

text \<open>The three pages of a new index, and the tree they represent.\<close>

lemma put_header_page:
  assumes "\<forall>i \<in> {next_free h, parent h, num_key h, num_child h, prev_leaf h, next_leaf h}. int_ok i"
  shows "get_header (put_header h (replicate PAGE_SIZE 0)) = h" "length (put_header h (replicate PAGE_SIZE 0)) = PAGE_SIZE"
  using put_get_header[of "replicate PAGE_SIZE 0" h] assms by simp_all

lemma new_pages:
  "length leaf_header_page = PAGE_SIZE" "is_leaf (get_header leaf_header_page)"
  "prev_leaf (get_header leaf_header_page) = NDX_INIT_ROOT_PAGE"
  "length first_root_page = PAGE_SIZE" "get_header first_root_page = \<lparr>next_free = NDX_NO_PAGE, parent = NDX_NO_PAGE,
     num_key = 0, num_child = 0, is_leaf = True, prev_leaf = NDX_LEAF_HEADER_PAGE, next_leaf = NDX_LEAF_HEADER_PAGE\<rparr>"
  by (simp_all add: leaf_header_page_def first_root_page_def put_header_page int_ok_def INT_MIN_def INT_MAX_def
      NDX_NO_PAGE_def NDX_INIT_ROOT_PAGE_def NDX_LEAF_HEADER_PAGE_def)

lemma empty_tree:
  assumes len: "1 \<le> len" "len \<le> NDX_MAX_COL_LEN" and type: "type \<noteq> TYPE_DATETIME"
    and V: "V NDX_LEAF_HEADER_PAGE = Some leaf_header_page" "V NDX_INIT_ROOT_PAGE = Some first_root_page"
  shows "ix_tree (new_index_header type len) V (Leaf NDX_INIT_ROOT_PAGE [])"
proof -
  let ?h = "new_index_header type len" and ?t = "Leaf NDX_INIT_ROOT_PAGE []"
  note b = new_btree_order_bounds[OF len]
  have ok: "node_ok ?h first_root_page" using b(1) by (simp add: node_ok_def new_pages new_index_header_def)
  have "node_keys ?h first_root_page = []" "node_rids ?h first_root_page = []"
    by (simp_all add: node_keys_def node_rids_def new_pages arr_def)
  then have rep: "bt_rep ?h V NDX_NO_PAGE ?t" using V(2) ok by (simp add: node_is_def new_pages)
  have chain: "leaf_chain V NDX_LEAF_HEADER_PAGE (leaf_pages ?t)" using V by (simp add: new_pages)
  have free: "ix_free ?h V ?t"
    unfolding ix_free_def
    by (rule exI[of _ "[]"])
      (auto simp: new_index_header_def NDX_INIT_ROOT_PAGE_def NDX_INIT_NUM_PAGES_def NDX_NO_PAGE_def)
  show ?thesis
    unfolding ix_tree_def
    using new_index_layout[OF len, of type] rep chain free type
    by (simp add: bt_shape_def keys_ok_def new_index_header_def NDX_INIT_NUM_PAGES_def)
qed

lemma create_index_run:
  assumes wf: "pm_wf s" and fresh: "\<not> sys_is_reg s (get_index_name name n)" and n: "0 \<le> n"
    and len: "1 \<le> len" "len \<le> NDX_MAX_COL_LEN" and type: "type \<noteq> TYPE_DATETIME"
  obtains t b where "create_index name n type len s = (Inr (), t)" "pm_wf t" "path2fd t = path2fd s" "cwd t = cwd s"
    "files t (resolve s (get_index_name name n)) = Some b"
    "ix_file (new_index_header type len) b (Leaf NDX_INIT_ROOT_PAGE [])"
proof -
  let ?path = "get_index_name name n" and ?h = "new_index_header type len"
  let ?s1 = "s\<lparr>files := (files s)(resolve s ?path \<mapsto> [])\<rparr>"
  note c = create_file_run[OF wf fresh]
  have r1: "resolve ?s1 = resolve s" by (simp add: resolve_def fun_eq_iff)
  have reg: "sys_is_reg ?s1 ?path" by (simp add: sys_is_reg_def r1)
  have cl: "path2fd ?s1 ?path = None" using missing_closed[OF wf fresh] by simp
  obtain fd where fd: "open_file ?path ?s1 = (Inr fd, opened fd ?path ?s1)" "pm_wf (opened fd ?path ?s1)"
    "fd \<notin> set (map fst (open_fds ?s1))" "fd2path ?s1 fd = None"
    by (rule open_file_run[OF c(2) reg cl])
  obtain s2 where s2: "open_file ?path ?s1 = (Inr fd, s2)" "pm_wf s2" "\<forall>p. busy_map s2 (PageID fd p) = None"
    "fd2path s2 fd = Some ?path" "path2fd s2 = (path2fd s)(?path \<mapsto> fd)" "cwd s2 = cwd s"
    "resolve s2 = resolve s" "files s2 (resolve s2 ?path) = Some []"
    using that[of "opened fd ?path ?s1"] fd(1,2) opened_view(2)[OF c(2) fd(3)] r1 by simp
  let ?b1 = "file_write [] (page_off NDX_FILE_HDR_PAGE) (ix_hdr_bytes ?h)"
  let ?b2 = "file_write ?b1 (page_off NDX_LEAF_HEADER_PAGE) leaf_header_page"
  let ?b3 = "file_write ?b2 (page_off NDX_INIT_ROOT_PAGE) first_root_page"
  have pr: "0 \<le> NDX_FILE_HDR_PAGE" "NDX_FILE_HDR_PAGE < 524288" "0 \<le> NDX_LEAF_HEADER_PAGE"
    "NDX_LEAF_HEADER_PAGE < 524288" "0 \<le> NDX_INIT_ROOT_PAGE" "NDX_INIT_ROOT_PAGE < 524288"
    by (simp_all add: NDX_FILE_HDR_PAGE_def NDX_LEAF_HEADER_PAGE_def NDX_INIT_ROOT_PAGE_def)
  obtain s3 where s3: "write_page fd NDX_FILE_HDR_PAGE (ix_hdr_bytes ?h) s2 = (Inr (), s3)" "pm_wf s3"
    "fd2path s3 = fd2path s2" "path2fd s3 = path2fd s2" "cwd s3 = cwd s2" "resolve s3 = resolve s2"
    "\<forall>p. busy_map s3 (PageID fd p) = None" "files s3 (resolve s2 ?path) = Some ?b1"
    by (rule uncached_write_run[OF s2(2,4,3,8) pr(1,2)])
  have f3: "fd2path s3 fd = Some ?path" "files s3 (resolve s3 ?path) = Some ?b1" using s3(3,6,8) s2(4) by simp_all
  obtain s4 where s4: "write_page fd NDX_LEAF_HEADER_PAGE leaf_header_page s3 = (Inr (), s4)" "pm_wf s4"
    "fd2path s4 = fd2path s3" "path2fd s4 = path2fd s3" "cwd s4 = cwd s3" "resolve s4 = resolve s3"
    "\<forall>p. busy_map s4 (PageID fd p) = None" "files s4 (resolve s3 ?path) = Some ?b2"
    by (rule uncached_write_run[OF s3(2) f3(1) s3(7) f3(2) pr(3,4)])
  have f4: "fd2path s4 fd = Some ?path" "files s4 (resolve s4 ?path) = Some ?b2" using s4(3,6,8) f3(1) by simp_all
  obtain s5 where s5: "write_page fd NDX_INIT_ROOT_PAGE first_root_page s4 = (Inr (), s5)" "pm_wf s5"
    "fd2path s5 = fd2path s4" "path2fd s5 = path2fd s4" "cwd s5 = cwd s4" "resolve s5 = resolve s4"
    "\<forall>p. busy_map s5 (PageID fd p) = None" "files s5 (resolve s4 ?path) = Some ?b3"
    by (rule uncached_write_run[OF s4(2) f4(1) s4(7) f4(2) pr(5,6)])
  have f5: "fd2path s5 fd = Some ?path" using s5(3) f4(1) by simp
  have low: "length ?b3 \<le> page_off p" if "busy_map s5 (PageID fd p) \<noteq> None" for p using that s5(7) by simp
  obtain t where t: "close_file fd s5 = (Inr (), t)" "pm_wf t" "cwd t = cwd s5"
    "path2fd t = (path2fd s5)(?path := None)" "prefix_kept (length ?b3) s5 t"
    by (rule close_file_run[where n = "length ?b3", OF s5(2) f5 low], assumption) (rule that; assumption)
  have rr: "resolve s4 ?path = resolve s ?path" using s4(6) s3(6) s2(7) by simp
  obtain b' where b': "files t (resolve s ?path) = Some b'" "length ?b3 \<le> length b'" "take (length ?b3) b' = ?b3"
    by (rule prefix_kept_file[OF t(5) s5(8)[unfolded rr]])
  have m: "(len + 8) mod 18446744073709551616 \<noteq> 0"
    using len by (subst mod_pos_pos_trivial) (simp_all add: NDX_MAX_COL_LEN_def)
  have run: "create_index name n type len s = (Inr (), t)"
    using n c(1) s2(1) len(2) m new_btree_order_bounds(1)[OF len] s3(1) s4(1) s5(1) t(1)
    by (simp add: create_index_def sizeof_RecordID_def)
  have off: "page_off NDX_FILE_HDR_PAGE = 0" "page_off NDX_LEAF_HEADER_PAGE = 4096" "page_off NDX_INIT_ROOT_PAGE = 8192"
    by (simp_all add: page_off_def NDX_FILE_HDR_PAGE_def NDX_LEAF_HEADER_PAGE_def NDX_INIT_ROOT_PAGE_def PAGE_SIZE_def)
  have ll: "length leaf_header_page = 4096" "length first_root_page = 4096" using new_pages by (simp_all add: PAGE_SIZE_def)
  have len3: "length ?b1 = 40" "length ?b2 = 8192" "length ?b3 = 12288"
    by (simp_all add: length_file_write off ll)
  have hd: "load ?b3 0 40 = ix_hdr_bytes ?h"
  proof -
    have "load ?b3 0 40 = load ?b2 0 40" by (rule load_file_write_before) (simp_all add: off len3[unfolded off])
    also have "\<dots> = load ?b1 0 40" by (rule load_file_write_before) (simp_all add: off len3[unfolded off])
    also have "\<dots> = ix_hdr_bytes ?h" using load_file_write_same[of 40 "ix_hdr_bytes ?h" "[]" 0] by (simp add: off)
    finally show ?thesis .
  qed
  have p1: "load ?b3 4096 4096 = leaf_header_page"
  proof -
    have "load ?b3 4096 4096 = load ?b2 4096 4096" by (rule load_file_write_before) (simp_all add: off len3[unfolded off])
    also have "\<dots> = leaf_header_page" using load_file_write_same[of 4096 leaf_header_page ?b1 4096] ll by (simp add: off)
    finally show ?thesis .
  qed
  have p2: "load ?b3 8192 4096 = first_root_page" using load_file_write_same[of 4096 first_root_page ?b2 8192] ll by (simp add: off)
  have ld: "load b' o1 k = load ?b3 o1 k" if "o1 + k \<le> 12288" for o1 k
    using load_take[of o1 k 12288 b'] b'(3) len3(3) that by simp
  have V: "file_page b' NDX_LEAF_HEADER_PAGE = Some leaf_header_page" "file_page b' NDX_INIT_ROOT_PAGE = Some first_root_page"
    using b'(2) len3(3) off ld[of 4096 4096] ld[of 8192 4096] p1 p2
    by (simp_all add: file_page_def NDX_LEAF_HEADER_PAGE_def NDX_INIT_ROOT_PAGE_def PAGE_SIZE_def)
  have "take 40 b' = ix_hdr_bytes ?h" using ld[of 0 40] hd by (simp add: load_def)
  then have fl: "ix_file ?h b' (Leaf NDX_INIT_ROOT_PAGE [])"
    using empty_tree[OF len type V] b'(2) len3(3) by (simp add: ix_file_def sizeof_IndexFileHeader_def)
  have "path2fd t = path2fd s" using t(4) s5(4) s4(4) s3(4) s2(5) cl by (simp add: fun_eq_iff)
  moreover have "cwd t = cwd s" using t(3) s5(5) s4(5) s3(5) s2(6) by simp
  ultimately show ?thesis using that[OF run t(2) _ _ b'(1) fl] by simp
qed

end
