(* ===== verification/Examples.thy ===== *)
theory Examples
  imports RecordStore IndexFile
begin

text \<open>
  Concrete states on which the theorems of the development are instantiated: a server process
  with a pool of four pages and an empty disk, a record file of eight-byte records with one record
  in it, an index on an \<open>int\<close> column, and byte strings that stand for keys and records.
\<close>

section \<open>A fresh process\<close>

definition boot :: pf_state where
  "boot = \<lparr>files = Map.empty, open_fds = [], other_fds = [0, 1, 2], cwd = ''/db/'', pages = [],
     busy_map = Map.empty, busy_pages = [], free_pages = [], path2fd = Map.empty, fd2path = Map.empty,
     cache_sem = 1, fd_map_sem = 1\<rparr>"

definition start :: pf_state where
  "start = PF_Pager_init 4 boot"

lemma boot_os: "os_wf boot" "cache_sem boot = 1"
  by (simp_all add: boot_def os_wf_def)

lemma start_fields: "files start = Map.empty" "open_fds start = []" "path2fd start = Map.empty"
  "fd2path start = Map.empty" "fd_map_sem start = 1" "cwd start = ''/db/''" "busy_map start = Map.empty"
  by (simp_all add: start_def boot_def PF_Pager_init_def)

lemma start_wf: "pm_wf start"
  using PF_Pager_init_wf(1)[of boot 4, folded start_def]
  by (simp add: pm_wf_def boot_os start_fields pm_maps_def fd_path_def)

lemma start_fresh: "\<not> sys_is_reg start path"
  by (simp add: sys_is_reg_def start_fields)

section \<open>A record file\<close>

definition bytes8 :: "byte list" where
  "bytes8 = replicate 8 7"

definition ex_made :: pf_state where
  "ex_made = snd (RM_create_file ''t'' 8 start)"

definition ex_fh :: RM_FileHandle where
  "ex_fh = projr (fst (RM_open_file ''t'' ex_made))"

definition ex_open :: pf_state where
  "ex_open = snd (RM_open_file ''t'' ex_made)"

lemma ex_made_facts:
  "RM_create_file ''t'' 8 start = (Inr (), ex_made)" "pm_wf ex_made" "path2fd ex_made = Map.empty"
  "\<exists>b. files ex_made (resolve ex_made ''t'') = Some b \<and> rm_file (new_file_header 8) b \<and>
     rm_map (new_file_header 8) (file_page b) = Map.empty"
proof -
  have sz: "(1::int) \<le> 8" "8 \<le> RM_MAX_RECORD_SIZE" by (simp_all add: RM_MAX_RECORD_SIZE_def)
  obtain t b where t: "RM_create_file ''t'' 8 start = (Inr (), t)" "pm_wf t" "path2fd t = path2fd start"
    "cwd t = cwd start" "files t (resolve start ''t'') = Some b" "rm_file (new_file_header 8) b"
    "rm_map (new_file_header 8) (file_page b) = Map.empty"
    by (rule RM_create_file_run[OF start_wf start_fresh sz]) (rule that; assumption)
  then have e: "ex_made = t" by (simp add: ex_made_def)
  then show "RM_create_file ''t'' 8 start = (Inr (), ex_made)" "pm_wf ex_made" "path2fd ex_made = Map.empty"
    "\<exists>b. files ex_made (resolve ex_made ''t'') = Some b \<and> rm_file (new_file_header 8) b \<and>
       rm_map (new_file_header 8) (file_page b) = Map.empty"
    using t by (simp_all add: start_fields resolve_def)
qed

lemma ex_open_facts:
  "RM_open_file ''t'' ex_made = (Inr ex_fh, ex_open)" "pm_wf ex_open" "rm_wf ex_open ex_fh"
  "rm_recs ex_open ex_fh = Map.empty" "fh_hdr ex_fh = new_file_header 8" "fd2path ex_open (fh_fd ex_fh) = Some ''t''"
proof -
  obtain b where b: "files ex_made (resolve ex_made ''t'') = Some b" "rm_file (new_file_header 8) b"
    "rm_map (new_file_header 8) (file_page b) = Map.empty" using ex_made_facts(4) by blast
  have closed: "path2fd ex_made ''t'' = None" by (simp add: ex_made_facts(3))
  obtain fd where o: "RM_open_file ''t'' ex_made = (Inr \<lparr>fh_hdr = new_file_header 8, fh_fd = fd\<rparr>, opened fd ''t'' ex_made)"
    "pm_wf (opened fd ''t'' ex_made)" "rm_wf (opened fd ''t'' ex_made) \<lparr>fh_hdr = new_file_header 8, fh_fd = fd\<rparr>"
    "rm_recs (opened fd ''t'' ex_made) \<lparr>fh_hdr = new_file_header 8, fh_fd = fd\<rparr> =
       rm_map (new_file_header 8) (file_page b)"
    by (rule RM_open_file_run[OF ex_made_facts(2) b(1,2) closed]) (rule that; assumption)
  then have e: "ex_fh = \<lparr>fh_hdr = new_file_header 8, fh_fd = fd\<rparr>" "ex_open = opened fd ''t'' ex_made"
    by (simp_all add: ex_fh_def ex_open_def)
  show "RM_open_file ''t'' ex_made = (Inr ex_fh, ex_open)" "pm_wf ex_open" "rm_wf ex_open ex_fh"
    "rm_recs ex_open ex_fh = Map.empty" "fh_hdr ex_fh = new_file_header 8" "fd2path ex_open (fh_fd ex_fh) = Some ''t''"
    using o b(3) by (simp_all add: e)
qed

definition ex_ins :: "(stop + RecordID \<times> RM_FileHandle) \<times> pf_state" where
  "ex_ins = insert_record ex_fh bytes8 ex_open"

definition ex_rid :: RecordID where
  "ex_rid = fst (projr (fst ex_ins))"

definition ex_fh1 :: RM_FileHandle where
  "ex_fh1 = snd (projr (fst ex_ins))"

definition ex_full :: pf_state where
  "ex_full = snd ex_ins"

lemma ex_room: "rec_fits ex_fh bytes8" "rec_room 1000 ex_fh" "can_insert ex_fh"
  by (simp_all add: rec_fits_def rec_room_def can_insert_def ex_open_facts(5) bytes8_def new_file_header_def Let_def
      RM_FIRST_RECORD_PAGE_def)

lemma ex_full_facts:
  "insert_record ex_fh bytes8 ex_open = (Inr (ex_rid, ex_fh1), ex_full)" "rm_wf ex_full ex_fh1" "pm_wf ex_full"
  "rm_recs ex_full ex_fh1 = [ex_rid \<mapsto> bytes8]" "fd2path ex_full (fh_fd ex_fh1) = Some ''t''"
  "rec_fits ex_fh1 bytes8" "valid_rid ex_fh1 ex_rid" "rec_room 1 ex_fh1"
  "same_rec_file ex_fh ex_fh1"
proof -
  have r: "rec_room (Suc 999) ex_fh" using ex_room(2) by simp
  obtain rid gh t where t: "insert_record ex_fh bytes8 ex_open = (Inr (rid, gh), t)" "rm_wf t gh"
    "rm_recs t gh = (rm_recs ex_open ex_fh)(rid \<mapsto> bytes8)" "rec_room 999 gh"
    "same_rec_file ex_fh gh" "rec_frame ex_open ex_fh t"
    using insert_record_law[OF ex_open_facts(3) r ex_room(1)] by blast
  have e: "ex_rid = rid" "ex_fh1 = gh" "ex_full = t"
    using t(1) by (simp_all add: ex_rid_def ex_fh1_def ex_full_def ex_ins_def)
  have env: "same_env ex_open t" and pf: "pf_wf t"
    using t(2,6) by (simp_all add: rec_frame_def rm_frame_def rm_wf_def)
  show "insert_record ex_fh bytes8 ex_open = (Inr (ex_rid, ex_fh1), ex_full)" "rm_wf ex_full ex_fh1" "pm_wf ex_full"
    "rm_recs ex_full ex_fh1 = [ex_rid \<mapsto> bytes8]"
    using t pm_wf_frame[OF ex_open_facts(2) env pf] by (simp_all add: e ex_open_facts(4))
  show "fd2path ex_full (fh_fd ex_fh1) = Some ''t''"
    using ex_open_facts(6) env t(5) by (simp add: e same_env_def same_rec_file_def)
  show "rec_fits ex_fh1 bytes8" using rs.like_fits[OF t(5)] ex_room(1) by (simp add: e)
  show "rec_room 1 ex_fh1" using t(4) by (simp add: e rec_room_def)
  show "same_rec_file ex_fh ex_fh1" using t(5) by (simp add: e)
  show "valid_rid ex_fh1 ex_rid" using rs.dom_ok[of t gh rid] t(3) by (simp add: e)
qed

section \<open>An index\<close>

definition key7 :: "byte list" where
  "key7 = int_bytes 7"

definition ex_ix_made :: pf_state where
  "ex_ix_made = snd (create_index ''t'' 0 TYPE_INT 4 start)"

definition ex_ih :: IndexHandle where
  "ex_ih = projr (fst (open_index ''t'' 0 ex_ix_made))"

definition ex_ix :: pf_state where
  "ex_ix = snd (open_index ''t'' 0 ex_ix_made)"

definition int_header :: IndexFileHeader where
  "int_header = new_index_header TYPE_INT 4"

lemma len4: "1 \<le> (4::int)" "4 \<le> NDX_MAX_COL_LEN"
  by (simp_all add: NDX_MAX_COL_LEN_def)

lemma ex_ix_made_facts:
  "create_index ''t'' 0 TYPE_INT 4 start = (Inr (), ex_ix_made)" "pm_wf ex_ix_made" "path2fd ex_ix_made = Map.empty"
  "\<exists>b. files ex_ix_made (resolve ex_ix_made (get_index_name ''t'' 0)) = Some b \<and>
     ix_file int_header b (Leaf NDX_INIT_ROOT_PAGE [])"
  "cwd ex_ix_made = ''/db/''"
proof -
  have type: "TYPE_INT \<noteq> TYPE_DATETIME" by simp
  obtain t b where t: "create_index ''t'' 0 TYPE_INT 4 start = (Inr (), t)" "pm_wf t" "path2fd t = path2fd start"
    "cwd t = cwd start" "files t (resolve start (get_index_name ''t'' 0)) = Some b"
    "ix_file (new_index_header TYPE_INT 4) b (Leaf NDX_INIT_ROOT_PAGE [])"
    by (rule create_index_run[OF start_wf start_fresh order_refl len4 type]) (rule that; assumption)
  then have e: "ex_ix_made = t" by (simp add: ex_ix_made_def)
  then show "create_index ''t'' 0 TYPE_INT 4 start = (Inr (), ex_ix_made)" "pm_wf ex_ix_made"
    "path2fd ex_ix_made = Map.empty"
    "\<exists>b. files ex_ix_made (resolve ex_ix_made (get_index_name ''t'' 0)) = Some b \<and>
     ix_file int_header b (Leaf NDX_INIT_ROOT_PAGE [])" "cwd ex_ix_made = ''/db/''"
    using t by (simp_all add: start_fields resolve_def int_header_def)
qed

lemma ex_ix_facts:
  "open_index ''t'' 0 ex_ix_made = (Inr ex_ih, ex_ix)" "pm_wf ex_ix"
  "ix_wf ex_ix ex_ih (Leaf NDX_INIT_ROOT_PAGE [])" "index_header ex_ih = int_header"
  "fd2path ex_ix (ih_fd ex_ih) = Some (get_index_name ''t'' 0)"
proof -
  let ?n = "get_index_name ''t'' 0"
  obtain b where b: "files ex_ix_made (resolve ex_ix_made ?n) = Some b"
    "ix_file int_header b (Leaf NDX_INIT_ROOT_PAGE [])" using ex_ix_made_facts(4) by blast
  have closed: "path2fd ex_ix_made ?n = None" by (simp add: ex_ix_made_facts(3))
  obtain fd where o: "open_index ''t'' 0 ex_ix_made = (Inr \<lparr>ih_fd = fd, index_header = int_header\<rparr>, opened fd ?n ex_ix_made)"
    "pm_wf (opened fd ?n ex_ix_made)"
    "ix_wf (opened fd ?n ex_ix_made) \<lparr>ih_fd = fd, index_header = int_header\<rparr> (Leaf NDX_INIT_ROOT_PAGE [])"
    by (rule open_index_run[OF ex_ix_made_facts(2) b closed]) (rule that; assumption)
  then have e: "ex_ih = \<lparr>ih_fd = fd, index_header = int_header\<rparr>" "ex_ix = opened fd ?n ex_ix_made"
    by (simp_all add: ex_ih_def ex_ix_def)
  show "open_index ''t'' 0 ex_ix_made = (Inr ex_ih, ex_ix)" "pm_wf ex_ix"
    "ix_wf ex_ix ex_ih (Leaf NDX_INIT_ROOT_PAGE [])" "index_header ex_ih = int_header"
    "fd2path ex_ix (ih_fd ex_ih) = Some ?n"
    using o by (simp_all add: e)
qed

end
