(* ===== verification/PageTheorems.thy ===== *)
theory PageTheorems
  imports Examples
begin

text \<open>
  The properties of the page file handler: what the buffer pool promises its clients, what
  reaches the disk, the replacement order, and the branches of the file operations.
\<close>

section \<open>Two pages to look at: the leaf chain's header page and the root of an index\<close>

definition ex_leaf_hdr :: "byte list" where
  "ex_leaf_hdr = the (page_view ex_ix (PageID (ih_fd ex_ih) 1))"

definition ex_root :: "byte list" where
  "ex_root = the (page_view ex_ix (PageID (ih_fd ex_ih) 2))"

lemma ex_page_facts:
  "pf_wf ex_ix" "valid_pid ex_ix (PageID (ih_fd ex_ih) 1)" "valid_pid ex_ix (PageID (ih_fd ex_ih) 2)"
  "page_view ex_ix (PageID (ih_fd ex_ih) 1) = Some ex_leaf_hdr" "page_view ex_ix (PageID (ih_fd ex_ih) 2) = Some ex_root"
  "length ex_root = PAGE_SIZE"
proof -
  have tr: "bt_rep int_header (file_view ex_ix (ih_fd ex_ih)) NDX_NO_PAGE (Leaf 2 [])"
    "leaf_chain (file_view ex_ix (ih_fd ex_ih)) 1 [2]"
    using ex_ix_facts(3) by (auto simp: ix_wf_def ix_tree_def ex_ix_facts(4) NDX_INIT_ROOT_PAGE_def NDX_LEAF_HEADER_PAGE_def)
  show "page_view ex_ix (PageID (ih_fd ex_ih) 1) = Some ex_leaf_hdr"
    using tr(2) by (auto simp: ex_leaf_hdr_def file_view_def NDX_LEAF_HEADER_PAGE_def split: option.splits)
  show root: "page_view ex_ix (PageID (ih_fd ex_ih) 2) = Some ex_root"
    using tr(1) by (auto simp: ex_root_def file_view_def split: option.splits)
  show "length ex_root = PAGE_SIZE"
    using tr(1) root by (auto simp: file_view_def node_is_def node_ok_def)
  show "pf_wf ex_ix" "valid_pid ex_ix (PageID (ih_fd ex_ih) 1)" "valid_pid ex_ix (PageID (ih_fd ex_ih) 2)"
    using ex_ix_facts(3) by (auto simp: ix_wf_def valid_pid_def PAGE_SIZE_def int_ok_def INT_MAX_def INT_MIN_def)
qed

text \<open>An empty file, open.\<close>

definition ex_bare :: pf_state where
  "ex_bare = snd (create_file ''f'' start)"

definition ex_fd :: int where
  "ex_fd = projr (fst (open_file ''f'' ex_bare))"

definition ex_empty :: pf_state where
  "ex_empty = snd (open_file ''f'' ex_bare)"

lemma ex_bare_facts:
  "create_file ''f'' start = (Inr (), ex_bare)" "pm_wf ex_bare" "files ex_bare (resolve ex_bare ''f'') = Some []"
  "sys_is_reg ex_bare ''f''" "path2fd ex_bare = Map.empty" "busy_map ex_bare = Map.empty" "free_pages ex_bare = [0..<4]"
proof -
  note c = create_file_run[OF start_wf start_fresh]
  have e: "ex_bare = start\<lparr>files := (files start)(resolve start ''f'' \<mapsto> [])\<rparr>" by (simp add: ex_bare_def c(1))
  show "create_file ''f'' start = (Inr (), ex_bare)" "pm_wf ex_bare" "files ex_bare (resolve ex_bare ''f'') = Some []"
    "sys_is_reg ex_bare ''f''" "path2fd ex_bare = Map.empty" "busy_map ex_bare = Map.empty"
    using c by (simp_all add: e resolve_def sys_is_reg_def start_fields)
  show "free_pages ex_bare = [0..<4]" by (simp add: e start_def PF_Pager_init_def)
qed

lemma ex_empty_facts:
  "open_file ''f'' ex_bare = (Inr ex_fd, ex_empty)" "pm_wf ex_empty" "fd2path ex_empty ex_fd = Some ''f''"
  "path2fd ex_empty ''f'' = Some ex_fd" "sys_is_reg ex_empty ''f''" "valid_pid ex_empty (PageID ex_fd 0)"
  "page_view ex_empty (PageID ex_fd 0) = None" "free_pages ex_empty \<noteq> []" "busy_map ex_empty = Map.empty"
proof -
  have closed: "path2fd ex_bare ''f'' = None" by (simp add: ex_bare_facts(5))
  obtain fd where o: "open_file ''f'' ex_bare = (Inr fd, opened fd ''f'' ex_bare)" "pm_wf (opened fd ''f'' ex_bare)"
    by (rule open_file_run[OF ex_bare_facts(2,4) closed]) (rule that; assumption)
  have e: "ex_fd = fd" "ex_empty = opened fd ''f'' ex_bare" using o(1) by (simp_all add: ex_fd_def ex_empty_def)
  show "open_file ''f'' ex_bare = (Inr ex_fd, ex_empty)" "pm_wf ex_empty" using o by (simp_all add: e)
  show p: "fd2path ex_empty ex_fd = Some ''f''" and "path2fd ex_empty ''f'' = Some ex_fd" "busy_map ex_empty = Map.empty"
    "free_pages ex_empty \<noteq> []" using ex_bare_facts(6,7) by (simp_all add: e)
  show "sys_is_reg ex_empty ''f''" using ex_bare_facts(4) by (simp add: e sys_is_reg_def resolve_def)
  have path: "fd_path ex_empty ex_fd = Some (resolve ex_empty ''f'')"
    using \<open>pm_wf ex_empty\<close> p by (simp add: pm_wf_def pm_maps_def)
  then show "valid_pid ex_empty (PageID ex_fd 0)" by (simp add: valid_pid_def int_ok_def INT_MAX_def INT_MIN_def)
  have "files ex_empty (resolve ex_empty ''f'') = Some []" using ex_bare_facts(3) by (simp add: e resolve_def)
  then show "page_view ex_empty (PageID ex_fd 0) = None"
    using path \<open>busy_map ex_empty = Map.empty\<close> by (simp add: page_view_def disk_page_def fd_data_def file_page_def)
qed

lemma ex_empty_pf: "pf_wf ex_empty"
  using ex_empty_facts(2) by (simp add: pm_wf_def)

section \<open>The buffer pool\<close>

text \<open>C10: the pool is transparent. Fetching a page that the client can see (in memory or on disk)
  returns a frame with exactly these bytes under that page's name, whatever page is evicted for
  it; every page seen before is seen unchanged, the invariant of the pool holds again, and nothing
  but this page enters the cache.\<close>

theorem fetch_transparent:
  assumes "pf_wf s" "valid_pid s (PageID fd p)" "page_view s (PageID fd p) = Some x"
  shows "\<exists>i t. fetch_page fd p s = (Inr i, t) \<and> pf_wf t \<and> buf (pages t ! i) = x \<and>
    page_id (pages t ! i) = PageID fd p \<and> page_view s \<subseteq>\<^sub>m page_view t \<and> same_env s t \<and>
    dom (busy_map t) \<subseteq> insert (PageID fd p) (dom (busy_map s))"
proof -
  obtain i t where t: "fetch_page fd p s = (Inr i, t)" "holds t (PageID fd p) i x" "page_view s \<subseteq>\<^sub>m page_view t"
    "same_env s t" "dom (busy_map t) \<subseteq> insert (PageID fd p) (dom (busy_map s))"
    by (rule fetch_page_holds[OF assms])
  then show ?thesis using pool.held_facts[OF t(2)] by (auto simp: page_bytes_def page_ident_def)
qed

theorem fetch_transparent_witness:
  "\<exists>i t. fetch_page (ih_fd ex_ih) 2 ex_ix = (Inr i, t) \<and> pf_wf t \<and> buf (pages t ! i) = ex_root"
  using fetch_transparent[OF ex_page_facts(1,3,5)] by blast

text \<open>C12: a change is not lost. After a client edits a fetched page and marks it dirty, fetching any
  other page (which may evict the first) and then the first one again returns the edited bytes.\<close>

theorem edit_survives:
  assumes "pf_wf s" "valid_pid s (PageID fd p)" "page_view s (PageID fd p) = Some x" "length (f x) = PAGE_SIZE"
    and "valid_pid s (PageID gd q)" "page_view s (PageID gd q) = Some y" "gd \<noteq> fd \<or> q \<noteq> p"
  shows "\<exists>i t. (andThen (fetch_page fd p) (\<lambda>i. andThen (edit_buf i f) (\<lambda>_. andThen (mark_dirty i) (\<lambda>_.
      andThen (fetch_page gd q) (\<lambda>_. fetch_page fd p))))) s = (Inr i, t) \<and>
    pf_wf t \<and> buf (pages t ! i) = f x \<and> page_view t (PageID gd q) = Some y"
proof -
  obtain i t where t: "fetch_page fd p s = (Inr i, t)" "holds t (PageID fd p) i x" "page_view s \<subseteq>\<^sub>m page_view t"
    "same_env s t" by (rule fetch_page_holds[OF assms(1-3)])
  obtain u v where u: "edit_buf i f t = (Inr (), u)" "mark_dirty i u = (Inr (), v)" "holds_dirty v (PageID fd p) i (f x)"
    "page_view v = (page_view t)(PageID fd p \<mapsto> f x)" "same_env t v"
    using pool.edit_mark_law[OF t(2), where f = f, OF assms(4)] by blast
  have env: "same_env s v" by (rule same_env_trans[OF t(4) u(5)])
  have wf: "pf_wf v" using u(3) by (simp add: holds_dirty_def holds_def)
  have ok: "valid_pid v = valid_pid s" by (rule pool.env_valid[OF env])
  have y: "page_view v (PageID gd q) = Some y" using u(4) map_le_Some[OF t(3) assms(6)] assms(7) by auto
  have vq: "valid_pid v (PageID gd q)" using assms(5) ok by simp
  obtain j w where w: "fetch_page gd q v = (Inr j, w)" "holds w (PageID gd q) j y" "page_view v \<subseteq>\<^sub>m page_view w"
    "same_env v w" by (rule fetch_page_holds[OF wf vq y])
  have wf': "pf_wf w" using w(2) by (simp add: holds_def)
  have vp: "valid_pid w (PageID fd p)" using assms(2) ok pool.env_valid[OF w(4)] by simp
  have fx: "page_view w (PageID fd p) = Some (f x)" by (rule map_le_Some[OF w(3)]) (simp add: u(4))
  obtain k z where z: "fetch_page fd p w = (Inr k, z)" "holds z (PageID fd p) k (f x)" "page_view w \<subseteq>\<^sub>m page_view z"
    by (rule fetch_page_holds[OF wf' vp fx])
  then have "page_view z (PageID gd q) = Some y" using map_le_Some[OF w(3) y] map_le_Some[OF z(3)] by blast
  then show ?thesis using t(1) u(1,2) w(1) z(1,2) by (simp add: holds_def)
qed

theorem edit_survives_witness:
  "\<exists>i t. (andThen (fetch_page (ih_fd ex_ih) 2) (\<lambda>i. andThen (edit_buf i (\<lambda>b. b[0 := 1])) (\<lambda>_. andThen (mark_dirty i) (\<lambda>_.
      andThen (fetch_page (ih_fd ex_ih) 1) (\<lambda>_. fetch_page (ih_fd ex_ih) 2))))) ex_ix = (Inr i, t) \<and>
    pf_wf t \<and> buf (pages t ! i) = ex_root[0 := 1] \<and> page_view t (PageID (ih_fd ex_ih) 1) = Some ex_leaf_hdr"
  by (rule edit_survives[OF ex_page_facts(1,3,5) _ ex_page_facts(2,4)]) (simp_all add: ex_page_facts(6))

text \<open>C22: the list of busy pages is the least-recently-used order. A request puts its page in front; a hit
  moves it there, a miss in a full pool drops exactly the last (least recently used) page.\<close>

theorem busy_list_is_lru:
  assumes "pf_wf s" "valid_pid s (PageID fd p)" "EXISTS \<Longrightarrow> page_view s (PageID fd p) \<noteq> None"
  shows "\<exists>i t. get_page EXISTS fd p s = (Inr i, t) \<and>
    map (\<lambda>i. page_id (pages t ! i)) (busy_pages t) =
      PageID fd p # (let busy = map (\<lambda>i. page_id (pages s ! i)) (busy_pages s) in
        if PageID fd p \<in> set busy then remove1 (PageID fd p) busy
        else if length busy = length (pages s) then butlast busy else busy)"
  using lru_get_page[OF assms] by (simp add: lru_ids_def lru_touch_def Let_def)

theorem busy_list_is_lru_witness:
  "\<exists>i t. get_page True (ih_fd ex_ih) 2 ex_ix = (Inr i, t) \<and>
    hd (map (\<lambda>i. page_id (pages t ! i)) (busy_pages t)) = PageID (ih_fd ex_ih) 2"
  using busy_list_is_lru[OF ex_page_facts(1,3), of True] by (auto simp: ex_page_facts(5))

text \<open>the constructor of the pager establishes its invariant, and the client sees the disk.\<close>

theorem pager_starts:
  assumes "os_wf s" "0 < n" "cache_sem s = 1"
  shows "pf_wf (PF_Pager_init n s) \<and> page_view (PF_Pager_init n s) = disk_page s"
  using PF_Pager_init_wf[OF assms] by blast

theorem pager_starts_witness:
  "pf_wf (PF_Pager_init NUM_CACHE_PAGES boot) \<and> page_view (PF_Pager_init NUM_CACHE_PAGES boot) = disk_page boot"
  by (rule pager_starts) (simp_all add: boot_os NUM_CACHE_PAGES_def)

text \<open>C32: the destructor loses nothing. Every page a client could see is on the disk afterwards, no page is
  busy, and the assertion that all pages are free again holds.\<close>

theorem pager_destroy_flushes:
  assumes "pf_wf s"
  shows "\<exists>t. PF_Pager_destroy s = (Inr (), t) \<and> pf_wf t \<and> page_view s \<subseteq>\<^sub>m disk_page t \<and> busy_pages t = [] \<and>
    length (free_pages t) = length (pages t) \<and> same_env s t"
  by (rule flush_all_run[OF assms]) blast

theorem pager_destroy_flushes_witness:
  "\<exists>t. PF_Pager_destroy ex_ix = (Inr (), t) \<and> disk_page t (PageID (ih_fd ex_ih) 2) = Some ex_root"
proof -
  obtain t where "PF_Pager_destroy ex_ix = (Inr (), t)" "page_view ex_ix \<subseteq>\<^sub>m disk_page t"
    using pager_destroy_flushes[OF ex_page_facts(1)] by blast
  then show ?thesis using map_le_Some[of "page_view ex_ix" "disk_page t"] ex_page_facts(5) by blast
qed

text \<open>C31: a failed read leaves the pool locked. Fetching a page the file does not have throws
  \<open>UnixError\<close> while \<open>cache_sem\<close> is held and the page is already entered in the map; every later
  request blocks.\<close>

theorem failed_fetch_locks_pool:
  assumes "pf_wf s" "valid_pid s (PageID fd p)" "page_view s (PageID fd p) = None" "free_pages s \<noteq> []"
  shows "\<exists>t. fetch_page fd p s = (Inl (Throw UnixError), t) \<and> busy_map t (PageID fd p) \<noteq> None \<and>
    (\<forall>gd q. fetch_page gd q t = (Inl Blocked, t) \<and> create_page gd q t = (Inl Blocked, t))"
proof -
  obtain t where t: "fetch_page fd p s = (Inl (Throw UnixError), t)" "cache_sem t = 0" "busy_map t (PageID fd p) \<noteq> None"
    using fetch_page_absent[OF assms] by blast
  then show ?thesis using get_page_locked[OF t(2)] by (auto simp: fetch_page_def create_page_def)
qed

theorem failed_fetch_locks_pool_witness:
  "\<exists>t. fetch_page ex_fd 0 ex_empty = (Inl (Throw UnixError), t) \<and> create_page 3 0 t = (Inl Blocked, t)"
  using failed_fetch_locks_pool[OF ex_empty_pf ex_empty_facts(6-8)] by blast

section \<open>Files\<close>

text \<open>creating a file that is not there, opening it, and closing it succeed, keep the invariant of
  the two maps (they stay inverse and agree with the system's descriptors), and leave an
  empty file; destroying it then removes it.\<close>

theorem file_life_cycle:
  assumes "pm_wf s" "\<not> sys_is_reg s path"
  shows "\<exists>fd t u. (andThen (create_file path) (\<lambda>_. open_file path)) s = (Inr fd, t) \<and> pm_wf t \<and>
    path2fd t = (path2fd s)(path \<mapsto> fd) \<and> fd2path s fd = None \<and> fd2path t = (fd2path s)(fd \<mapsto> path) \<and>
    files t = (files s)(resolve s path \<mapsto> []) \<and>
    (andThen (create_file path) (\<lambda>_. destroy_file path)) s = (Inr (), u) \<and> pm_wf u \<and> files u = files s"
proof -
  let ?m = "s\<lparr>files := (files s)(resolve s path \<mapsto> [])\<rparr>"
  note c = create_file_run[OF assms]
  have there: "sys_is_reg ?m path" by (simp add: sys_is_reg_def resolve_def)
  have closed: "path2fd ?m path = None" using missing_closed[OF assms] by simp
  obtain fd where o: "open_file path ?m = (Inr fd, opened fd path ?m)" "pm_wf (opened fd path ?m)" "fd2path ?m fd = None"
    by (rule open_file_run[OF c(2) there closed])
  note d = destroy_file_run[OF c(2) there closed]
  have "(files s)(resolve s path := None) = files s" using assms(2) by (auto simp: sys_is_reg_def)
  then show ?thesis using c(1) o d(1,2) by (simp add: resolve_def)
qed

theorem file_life_cycle_witness:
  "\<exists>fd t. (andThen (create_file ''f'') (\<lambda>_. open_file ''f'')) start = (Inr fd, t) \<and> pm_wf t \<and> path2fd t ''f'' = Some fd"
  using file_life_cycle[OF start_wf start_fresh, of "''f''"] by (metis fun_upd_same)

text \<open>C34: every refused file operation reports its own error and changes nothing: creating what exists,
  destroying or opening what is absent or already open, closing what is not open. The
  semaphore of the maps is free again afterwards.\<close>

theorem file_errors:
  assumes "fd_map_sem s = 1"
  shows "(sys_is_reg s path \<longrightarrow> create_file path s = (Inl (Throw (FileExistsError path)), s)) \<and>
    (\<not> sys_is_reg s path \<longrightarrow> destroy_file path s = (Inl (Throw (FileNotFoundError path)), s) \<and>
       open_file path s = (Inl (Throw (FileNotFoundError path)), s)) \<and>
    (sys_is_reg s path \<and> path2fd s path \<noteq> None \<longrightarrow> destroy_file path s = (Inl (Throw (FileNotClosedError path)), s) \<and>
       open_file path s = (Inl (Throw (FileNotClosedError path)), s)) \<and>
    (fd2path s fd = None \<longrightarrow> close_file fd s = (Inl (Throw (FileNotOpenError fd)), s))"
  using create_file_exists[OF assms] destroy_file_absent[OF assms] open_file_absent[OF assms] destroy_file_opened[OF assms]
    open_file_opened[OF assms] close_file_unknown[OF assms] by auto

theorem file_errors_witness:
  "open_file ''f'' ex_empty = (Inl (Throw (FileNotClosedError ''f'')), ex_empty) \<and>
   create_file ''f'' ex_empty = (Inl (Throw (FileExistsError ''f'')), ex_empty) \<and>
   destroy_file ''g'' start = (Inl (Throw (FileNotFoundError ''g'')), start) \<and>
   close_file 7 start = (Inl (Throw (FileNotOpenError 7)), start)"
proof -
  have "fd_map_sem ex_empty = 1" using ex_empty_facts(2) by (simp add: pm_wf_def)
  from file_errors[OF this, of "''f''"] file_errors[of start "''g''" 7] show ?thesis
    using ex_empty_facts(4,5) start_fresh[of "''g''"] by (simp add: start_fields)
qed

text \<open>C15: closing a file makes it durable. Every page of it that the client could see is in the file's
  bytes afterwards, both maps forget it, the pages of other files are seen unchanged and
  files that are not open keep their bytes.\<close>

theorem close_is_durable:
  assumes "pm_wf s" "fd2path s fd = Some path"
  shows "\<exists>t. close_file fd s = (Inr (), t) \<and> pm_wf t \<and> path2fd t = (path2fd s)(path := None) \<and>
    fd2path t = (fd2path s)(fd := None) \<and>
    (\<forall>p x. page_view s (PageID fd p) = Some x \<longrightarrow>
       (\<exists>b. files t (resolve s path) = Some b \<and> file_page b p = Some x)) \<and>
    (\<forall>g p x. g \<noteq> fd \<longrightarrow> page_view s (PageID g p) = Some x \<longrightarrow> page_view t (PageID g p) = Some x) \<and>
    (\<forall>f. f \<notin> snd ` set (open_fds s) \<longrightarrow> files t f = files s f)"
proof -
  have low: "0 \<le> page_off p" for p by simp
  show ?thesis by (rule close_file_run[OF assms low]) blast
qed

theorem close_is_durable_witness:
  "\<exists>t b. close_file (ih_fd ex_ih) ex_ix = (Inr (), t) \<and>
    files t (resolve ex_ix (get_index_name ''t'' 0)) = Some b \<and> file_page b 2 = Some ex_root"
  using close_is_durable[OF ex_ix_facts(2,5)] ex_page_facts(5) by blast

end
