(* ===== verification/RecordTheorems.thy ===== *)
theory RecordTheorems
  imports Examples RecordStore
begin

text \<open>
  The properties of record files: the effect of each operation on the content, what a scan
  returns, the error branches, the life of a file on disk, and the bitmap the pages use.
\<close>

section \<open>Operations on an open file\<close>

text \<open>C4: inserting a record returns an id that was free, adds exactly that record to the content, and keeps
  the invariant of the file (free-page list, counters and bitmaps agree); files under other
  descriptors are not touched.\<close>

theorem insert_record_adds:
  assumes "rm_wf s fh" "can_insert fh" "length data = nat (record_size (fh_hdr fh))"
  shows "\<exists>rid gh t. insert_record fh data s = (Inr (rid, gh), t) \<and> rm_wf t gh \<and> rm_recs s fh rid = None \<and>
    rm_recs t gh = (rm_recs s fh)(rid \<mapsto> data) \<and> fh_fd gh = fh_fd fh \<and>
    num_pages (fh_hdr gh) \<le> num_pages (fh_hdr fh) + 1 \<and>
    (\<forall>other. rm_wf s other \<and> fh_fd other \<noteq> fh_fd fh \<longrightarrow> rm_wf t other \<and> rm_recs t other = rm_recs s other)"
proof -
  obtain rid gh t where t: "insert_record fh data s = (Inr (rid, gh), t)" "rm_wf t gh" "rm_recs s fh rid = None"
    "rm_recs t gh = (rm_recs s fh)(rid \<mapsto> data)" "rm_frame s (fh_fd fh) t" "fh_fd gh = fh_fd fh"
    "num_pages (fh_hdr gh) \<le> num_pages (fh_hdr fh) + 1"
    by (rule insert_record_run[OF assms])
  have "pf_wf t" using t(2) by (simp add: rm_wf_def)
  then show ?thesis using t rm_frame_other[OF t(5)] by blast
qed

theorem insert_record_adds_witness:
  "\<exists>rid gh t. insert_record ex_fh1 bytes8 ex_full = (Inr (rid, gh), t) \<and> rid \<noteq> ex_rid \<and>
    rm_recs t gh = [ex_rid \<mapsto> bytes8, rid \<mapsto> bytes8]"
proof -
  have "can_insert ex_fh1" using ex_full_facts(8) by (simp add: can_insert_def rec_room_def)
  moreover have "length bytes8 = nat (record_size (fh_hdr ex_fh1))" using ex_full_facts(6) by (simp add: rec_fits_def)
  ultimately obtain rid gh t where "insert_record ex_fh1 bytes8 ex_full = (Inr (rid, gh), t)"
    "rm_recs ex_full ex_fh1 rid = None" "rm_recs t gh = (rm_recs ex_full ex_fh1)(rid \<mapsto> bytes8)"
    using insert_record_adds[OF ex_full_facts(2)] by blast
  then show ?thesis by (auto simp: ex_full_facts(4) split: if_splits)
qed

text \<open>what was inserted reads back, and deleting it again restores the content.\<close>

theorem insert_then_get:
  assumes "rm_wf s fh" "rec_room (Suc k) fh" "rec_fits fh data"
  shows "\<exists>rid gh t u g v. insert_record fh data s = (Inr (rid, gh), t) \<and> get_record gh rid t = (Inr data, u) \<and>
    rm_recs u gh = (rm_recs s fh)(rid \<mapsto> data) \<and> rm_recs s fh rid = None \<and>
    delete_record gh rid t = (Inr g, v) \<and> rm_wf v g \<and> rm_recs v g = rm_recs s fh"
proof -
  from rs.insert_lookup[OF assms] obtain rid gh t u where "insert_record fh data s = (Inr (rid, gh), t)"
    "get_record gh rid t = (Inr data, u)" "rm_recs u gh = (rm_recs s fh)(rid \<mapsto> data)" "rm_recs s fh rid = None" by blast
  moreover from rs.insert_delete[OF assms] calculation(1) obtain g v where "delete_record gh rid t = (Inr g, v)"
    "rm_wf v g" "rm_recs v g = rm_recs s fh" by auto
  ultimately show ?thesis by blast
qed

theorem insert_then_get_witness:
  "\<exists>rid gh t u. insert_record ex_fh bytes8 ex_open = (Inr (rid, gh), t) \<and> get_record gh rid t = (Inr bytes8, u)"
proof -
  have "rec_room (Suc 0) ex_fh" using ex_room(2) by (simp add: rec_room_def)
  from insert_then_get[OF ex_open_facts(3) this ex_room(1)] show ?thesis by blast
qed

text \<open>C16: a deleted record is gone: every operation on its id then reports \<open>RecordNotFoundError\<close>, and all
  other records are as they were.\<close>

theorem delete_then_get:
  assumes "rm_wf s fh" "rm_recs s fh rid \<noteq> None"
  shows "\<exists>gh t u. delete_record fh rid s = (Inr gh, t) \<and>
    get_record gh rid t = (Inl (Throw (RecordNotFoundError (rid_page rid) (rid_slot rid))), u) \<and>
    rm_wf u gh \<and> rm_recs u gh = (rm_recs s fh)(rid := None)"
  using rs.delete_gone[OF assms] by (simp add: rec_missing_def)

theorem delete_then_get_witness:
  "\<exists>gh t u. delete_record ex_fh1 ex_rid ex_full = (Inr gh, t) \<and>
    get_record gh ex_rid t = (Inl (Throw (RecordNotFoundError (rid_page ex_rid) (rid_slot ex_rid))), u) \<and>
    rm_wf u gh \<and> rm_recs u gh = Map.empty"
proof -
  have "rm_recs ex_full ex_fh1 ex_rid \<noteq> None" "(rm_recs ex_full ex_fh1)(ex_rid := None) = Map.empty"
    by (simp_all add: ex_full_facts(4))
  then show ?thesis using delete_then_get[OF ex_full_facts(2), of ex_rid] by metis
qed

text \<open>C17: an update changes the record it names and no other, and reads back.\<close>

theorem update_then_get:
  assumes "rm_wf s fh" "rm_recs s fh rid \<noteq> None" "rec_fits fh data"
  shows "\<exists>t u. update_record fh rid data s = (Inr (), t) \<and> get_record fh rid t = (Inr data, u) \<and> rm_wf u fh \<and>
    rm_recs u fh = (rm_recs s fh)(rid \<mapsto> data)"
  by (rule rs.update_lookup[OF assms])

theorem update_then_get_witness:
  "\<exists>t u. update_record ex_fh1 ex_rid (replicate 8 9) ex_full = (Inr (), t) \<and>
    get_record ex_fh1 ex_rid t = (Inr (replicate 8 9), u)"
proof -
  have "rec_fits ex_fh1 (replicate 8 9)" using ex_full_facts(6) by (simp add: rec_fits_def bytes8_def)
  moreover have "rm_recs ex_full ex_fh1 ex_rid \<noteq> None" by (simp add: ex_full_facts(4))
  ultimately show ?thesis using update_then_get[OF ex_full_facts(2)] by blast
qed

text \<open>a batch of insertions gives distinct new ids and adds exactly the given records.\<close>

theorem insert_batch:
  assumes "rm_wf s fh" "rec_room (length rows) fh" "\<forall>row \<in> set rows. rec_fits fh row"
  shows "\<exists>rids gh t. rs.insert_all fh rows s = (Inr (rids, gh), t) \<and> rm_wf t gh \<and> length rids = length rows \<and>
    distinct rids \<and> set rids \<inter> dom (rm_recs s fh) = {} \<and> rm_recs t gh = rm_recs s fh ++ map_of (zip rids rows)"
  using rs.insert_all_run[OF assms] by blast

theorem insert_batch_witness:
  "\<exists>r1 r2 gh t. rs.insert_all ex_fh [bytes8, replicate 8 9] ex_open = (Inr ([r1, r2], gh), t) \<and> r1 \<noteq> r2 \<and>
    rm_recs t gh r1 = Some bytes8 \<and> rm_recs t gh r2 = Some (replicate 8 9)"
proof -
  have "rec_room (length [bytes8, replicate 8 9]) ex_fh" using ex_room(2) by (simp add: rec_room_def)
  moreover have "\<forall>row \<in> set [bytes8, replicate 8 9]. rec_fits ex_fh row" using ex_room(1) by (simp add: rec_fits_def bytes8_def)
  ultimately obtain rids gh t where r: "rs.insert_all ex_fh [bytes8, replicate 8 9] ex_open = (Inr (rids, gh), t)"
    "length rids = length [bytes8, replicate 8 9]" "distinct rids"
    "rm_recs t gh = rm_recs ex_open ex_fh ++ map_of (zip rids [bytes8, replicate 8 9])"
    using insert_batch[OF ex_open_facts(3)] by blast
  moreover from r(2) obtain r1 r2 where "rids = [r1, r2]" by (auto simp: length_Suc_conv)
  ultimately show ?thesis by (intro exI[of _ r1] exI[of _ r2] exI[of _ gh] exI[of _ t]) (simp add: map_add_def)
qed

text \<open>C14: a scan (the iterator from its constructor until \<open>is_end\<close>) ends and returns the id of every record
  of the file exactly once, in ascending page and slot order, and changes nothing.\<close>

theorem scan_complete:
  assumes "rm_wf s fh" "card (dom (rm_recs s fh)) \<le> k"
  shows "\<exists>t. scan_file k fh s = (Inr (Some (sorted_list_of_set (dom (rm_recs s fh)))), t) \<and> rm_wf t fh \<and>
    rm_recs t fh = rm_recs s fh"
  by (rule scan_file_run[OF assms]) blast

theorem scan_complete_witness:
  "\<exists>t. scan_file 1 ex_fh1 ex_full = (Inr (Some [ex_rid]), t)"
proof -
  have "dom (rm_recs ex_full ex_fh1) = {ex_rid}" by (simp add: ex_full_facts(4))
  then show ?thesis using scan_complete[OF ex_full_facts(2), of 1] by auto
qed

text \<open>C33: the operations on an id that names a slot of the file but no record throw
  \<open>RecordNotFoundError\<close>, and on a page past the end of the file they run into the assertion of
  \<open>fetch_page\<close>; in both cases the content is unchanged.\<close>

theorem missing_record_errors:
  assumes "rm_wf s fh" "valid_rid fh rid" "rm_recs s fh rid = None"
  shows "(\<exists>t u. get_record fh rid s = (Inl (Throw (RecordNotFoundError (rid_page rid) (rid_slot rid))), t) \<and>
         delete_record fh rid s = (Inl (Throw (RecordNotFoundError (rid_page rid) (rid_slot rid))), u) \<and>
         update_record fh rid data s = (Inl (Throw (RecordNotFoundError (rid_page rid) (rid_slot rid))), u) \<and>
         (\<forall>w \<in> {t, u}. rm_wf w fh \<and> rm_recs w fh = rm_recs s fh)) \<and>
    (\<forall>r. num_pages (fh_hdr fh) \<le> rid_page r \<longrightarrow> get_record fh r s = (Inl AssertFail, s) \<and>
       delete_record fh r s = (Inl AssertFail, s) \<and> update_record fh r data s = (Inl AssertFail, s))"
proof -
  obtain t where t: "get_record fh rid s = (Inl (rec_missing rid), t)" "rm_wf t fh" "rm_recs t fh = rm_recs s fh"
    using rs.lookup_law[OF assms(1,2)] assms(3) by auto
  obtain u where u: "update_record fh rid data s = (Inl (Throw (RecordNotFoundError (rid_page rid) (rid_slot rid))), u)"
    "delete_record fh rid s = (Inl (Throw (RecordNotFoundError (rid_page rid) (rid_slot rid))), u)"
    "rm_wf u fh" "rm_recs u fh = rm_recs s fh"
    by (rule update_record_absent[OF assms]) (rule that; assumption)
  have "\<exists>t u. get_record fh rid s = (Inl (Throw (RecordNotFoundError (rid_page rid) (rid_slot rid))), t) \<and>
         delete_record fh rid s = (Inl (Throw (RecordNotFoundError (rid_page rid) (rid_slot rid))), u) \<and>
         update_record fh rid data s = (Inl (Throw (RecordNotFoundError (rid_page rid) (rid_slot rid))), u) \<and>
         (\<forall>w \<in> {t, u}. rm_wf w fh \<and> rm_recs w fh = rm_recs s fh)"
    using t u by (intro exI[of _ t] exI[of _ u]) (simp add: rec_missing_def)
  then show ?thesis using past_end[of fh] by blast
qed

definition ex_other_rid :: RecordID where
  "ex_other_rid = RecordID (rid_page ex_rid) (if rid_slot ex_rid = 0 then 1 else 0)"

lemma ex_other_rid_facts: "valid_rid ex_fh1 ex_other_rid" "rm_recs ex_full ex_fh1 ex_other_rid = None"
proof -
  have n: "num_records_per_page (fh_hdr ex_fh1) = num_records_per_page (new_file_header 8)"
    using ex_full_facts(9) by (simp add: same_rec_file_def same_layout_def ex_open_facts(5))
  have "2 \<le> num_records_per_page (new_file_header 8)"
    by (simp add: new_file_header_def Let_def PAGE_SIZE_def records_per_page_def sizeof_RM_PageHeader_def WIDTH_def)
  then show "valid_rid ex_fh1 ex_other_rid" using ex_full_facts(7) n by (simp add: valid_rid_def ex_other_rid_def)
  have "rid_slot ex_other_rid \<noteq> rid_slot ex_rid" by (simp add: ex_other_rid_def)
  then have "ex_other_rid \<noteq> ex_rid" by auto
  then show "rm_recs ex_full ex_fh1 ex_other_rid = None" by (simp add: ex_full_facts(4))
qed

theorem missing_record_errors_witness:
  "\<exists>t. get_record ex_fh1 ex_other_rid ex_full =
    (Inl (Throw (RecordNotFoundError (rid_page ex_other_rid) (rid_slot ex_other_rid))), t) \<and> rm_wf t ex_fh1"
  using missing_record_errors[OF ex_full_facts(2) ex_other_rid_facts] by blast

section \<open>A record file on disk\<close>

text \<open>C13: closing a record file and opening it again gives the same records.\<close>

theorem close_reopen_records:
  assumes "pm_wf s" "rm_wf s fh" "fd2path s (fh_fd fh) = Some path"
  shows "\<exists>gh t. (andThen (RM_close_file fh) (\<lambda>_. RM_open_file path)) s = (Inr gh, t) \<and> pm_wf t \<and> rm_wf t gh \<and>
    fh_hdr gh = fh_hdr fh \<and> rm_recs t gh = rm_recs s fh"
proof -
  obtain t b where t: "RM_close_file fh s = (Inr (), t)" "pm_wf t" "path2fd t = (path2fd s)(path := None)" "cwd t = cwd s"
    "files t (resolve s path) = Some b" "rm_file (fh_hdr fh) b" "rm_map (fh_hdr fh) (file_page b) = rm_recs s fh"
    by (rule RM_close_file_run[OF assms])
  have b: "files t (resolve t path) = Some b" and closed: "path2fd t path = None" using t(3-5) by (simp_all add: resolve_def)
  obtain fd where o: "RM_open_file path t = (Inr \<lparr>fh_hdr = fh_hdr fh, fh_fd = fd\<rparr>, opened fd path t)"
    "pm_wf (opened fd path t)" "rm_wf (opened fd path t) \<lparr>fh_hdr = fh_hdr fh, fh_fd = fd\<rparr>"
    "rm_recs (opened fd path t) \<lparr>fh_hdr = fh_hdr fh, fh_fd = fd\<rparr> = rm_map (fh_hdr fh) (file_page b)"
    by (rule RM_open_file_run[OF t(2) b t(6) closed])
  then show ?thesis using t(1,7) by simp
qed

theorem close_reopen_records_witness:
  "\<exists>gh t. (andThen (RM_close_file ex_fh1) (\<lambda>_. RM_open_file ''t'')) ex_full = (Inr gh, t) \<and>
    rm_recs t gh = [ex_rid \<mapsto> bytes8]"
  using close_reopen_records[OF ex_full_facts(3,2,5)] by (auto simp: ex_full_facts(4))

text \<open>C21: a record file created with a legal record size opens as an empty file whose header obeys the page
  layout (bitmap and slots fit the page); an illegal size or an existing file is refused and
  nothing happens.\<close>

theorem create_open_empty:
  assumes "pm_wf s"
  shows "(1 \<le> sz \<and> sz \<le> 512 \<and> \<not> sys_is_reg s path \<longrightarrow>
      (\<exists>fh t. (andThen (RM_create_file path sz) (\<lambda>_. RM_open_file path)) s = (Inr fh, t) \<and> pm_wf t \<and> rm_wf t fh \<and>
         record_size (fh_hdr fh) = sz \<and> hdr_ok (fh_hdr fh) \<and> rm_recs t fh = Map.empty)) \<and>
    (1 \<le> sz \<and> sz \<le> 512 \<and> sys_is_reg s path \<longrightarrow> RM_create_file path sz s = (Inl (Throw (FileExistsError path)), s)) \<and>
    (sz < 1 \<or> 512 < sz \<longrightarrow> RM_create_file path sz s = (Inl (Throw (InvalidRecordSizeError sz)), s))"
proof -
  have "\<exists>fh t. (andThen (RM_create_file path sz) (\<lambda>_. RM_open_file path)) s = (Inr fh, t) \<and> pm_wf t \<and> rm_wf t fh \<and>
      record_size (fh_hdr fh) = sz \<and> hdr_ok (fh_hdr fh) \<and> rm_recs t fh = Map.empty"
    if sz: "1 \<le> sz" "sz \<le> RM_MAX_RECORD_SIZE" and fresh: "\<not> sys_is_reg s path"
  proof -
    obtain t b where t: "RM_create_file path sz s = (Inr (), t)" "pm_wf t" "path2fd t = path2fd s" "cwd t = cwd s"
      "files t (resolve s path) = Some b" "rm_file (new_file_header sz) b"
      "rm_map (new_file_header sz) (file_page b) = Map.empty"
      by (rule RM_create_file_run[OF assms fresh sz])
    have b: "files t (resolve t path) = Some b" and closed: "path2fd t path = None"
      using t(3-5) missing_closed[OF assms fresh] by (simp_all add: resolve_def)
    obtain fd where o: "RM_open_file path t = (Inr \<lparr>fh_hdr = new_file_header sz, fh_fd = fd\<rparr>, opened fd path t)"
      "pm_wf (opened fd path t)" "rm_wf (opened fd path t) \<lparr>fh_hdr = new_file_header sz, fh_fd = fd\<rparr>"
      "rm_recs (opened fd path t) \<lparr>fh_hdr = new_file_header sz, fh_fd = fd\<rparr> = rm_map (new_file_header sz) (file_page b)"
      by (rule RM_open_file_run[OF t(2) b t(6) closed])
    then show ?thesis using t(1,7) new_file_header_ok[OF sz] by (simp add: new_file_header_def Let_def)
  qed
  moreover have "fd_map_sem s = 1" using assms by (simp add: pm_wf_def)
  ultimately show ?thesis
    using RM_create_file_exists[of s path sz] RM_create_file_size[of sz path s] by (auto simp: RM_MAX_RECORD_SIZE_def)
qed

theorem create_open_empty_witness:
  "(\<exists>fh t. (andThen (RM_create_file ''t'' 512) (\<lambda>_. RM_open_file ''t'')) start = (Inr fh, t) \<and> rm_recs t fh = Map.empty) \<and>
    RM_create_file ''t'' 513 start = (Inl (Throw (InvalidRecordSizeError 513)), start)"
  using create_open_empty[OF start_wf, of 512 "''t''"] create_open_empty[OF start_wf, of 513 "''t''"] start_fresh[of "''t''"]
  by auto

section \<open>The bitmap of a page\<close>

text \<open>C35: the bit operations of a page's bitmap are those of a set of slot numbers: setting, resetting and
  clearing do what they say to the bit they name and leave the others, and the search
  \<open>first_bit\<close> returns the least slot whose bit has the wanted value, or the size when there is none.\<close>

theorem bitmap_is_a_set:
  assumes "p div 8 < length bm"
  shows "(bm_test (bm_set bm p) q \<longleftrightarrow> q = p \<or> bm_test bm q) \<and>
    (bm_test (bm_reset bm p) q \<longleftrightarrow> q \<noteq> p \<and> bm_test bm q) \<and> \<not> bm_test (bm_init bm (length bm)) p \<and>
    first_bit b bm n = (if \<exists>k < n. bm_test bm k = b then (LEAST k. bm_test bm k = b) else n)"
proof -
  have "first_bit b bm n = (if \<exists>k < n. bm_test bm k = b then (LEAST k. bm_test bm k = b) else n)"
  proof (cases "first_bit b bm n < n")
    case True
    have "(LEAST k. bm_test bm k = b) = first_bit b bm n"
      by (rule Least_equality) (use first_bit_props(2)[OF True] first_bit_props(3) not_le in blast)+
    then show ?thesis using True first_bit_props(2)[OF True] by auto
  next
    case False
    then have "first_bit b bm n = n" using first_bit_props(1)[of b bm n] by simp
    then show ?thesis using first_bit_props(3)[of _ b bm n] by auto
  qed
  then show ?thesis using bm_test_set[OF assms] bm_test_reset[OF assms] bm_test_init[OF assms] by simp
qed

theorem bitmap_is_a_set_witness:
  "bm_test (bm_set [0, 0] 9) 9 \<and> \<not> bm_test (bm_set [0, 0] 9) 8 \<and> first_bit True (bm_set [0, 0] 9) 16 = 9"
proof -
  have s: "bm_test (bm_set [0, 0] 9) q \<longleftrightarrow> q = 9 \<or> bm_test [0, 0] q" for q
    using bitmap_is_a_set[of 9 "[0, 0]" q] by simp
  show ?thesis by (simp add: s) (code_simp)
qed

end
