(* ===== verification/ValueTheorems.thy ===== *)
theory ValueTheorems
  imports DateTime KeyCompare
begin

text \<open>
  The properties of the values a table stores: \<open>DateTime\<close> (its validity test, its time stamps and
  their range, its text form) and the comparison of index keys.
\<close>

text \<open>\<open>validateDateTime\<close> accepts exactly the dates of a calendar in which February always has 29 days, with a
  year that is not negative and a time of day.\<close>

theorem validateDateTime_calendar:
  "validateDateTime d m y h mi s \<longleftrightarrow> m \<in> {1..12} \<and> d \<in> {1..if m = 2 then 29 else if m \<in> {4, 6, 9, 11} then 30 else 31} \<and>
     0 \<le> y \<and> h \<in> {0..23} \<and> mi \<in> {0..59} \<and> s \<in> {0..59}"
  by (simp only: validateDateTime_iff month_days_def)

text \<open>C40: the time stamp of a valid date is exact (in a calendar of 365-day years and 30-day months) up to the
  year 66, and overflows \<open>int\<close>, which is undefined behaviour in C++, for every valid date from the year 69 on:
  such a date can be compared with nothing.\<close>

theorem timestamp_range:
  assumes "validateDateTime (day dt) (month dt) (year dt) (hour dt) (minute dt) (second dt)"
  shows "(year dt \<le> 66 \<longrightarrow> getTimestamp dt =
      Inr (((((year dt * 365 + month dt * 30 + day dt) * 24 + hour dt) * 60) + minute dt) * 60 + second dt)) \<and>
    (69 \<le> year dt \<longrightarrow> getTimestamp dt = Inl Undefined \<and> dt_less dt e = Inl Undefined \<and> dt_greater_eq dt e = Inl Undefined)"
  using getTimestamp_valid[OF assms] getTimestamp_overflow[OF assms]
  by (auto simp: dt_less_def dt_greater_eq_def dt_compare_def)

definition ex_date :: DateTime where
  "ex_date = \<lparr>day = 31, month = 12, year = 2024, hour = 23, minute = 59, second = 58\<rparr>"

theorem timestamp_range_witness:
  "getTimestamp ex_date = Inl Undefined \<and> getTimestamp (ex_date\<lparr>year := 24\<rparr>) = Inr 790732798"
  using timestamp_range[of ex_date] timestamp_range[of "ex_date\<lparr>year := 24\<rparr>"]
  by (simp add: ex_date_def validateDateTime_def)

text \<open>what \<open>operator<<\<close> prints, \<open>operator>>\<close> does not read back: the character it takes for the separator after
  the year is the first digit of the hour (extraction skips the blank). With a one-digit hour the extraction fails,
  with a two-digit hour the hour loses its tens and everything else is as printed.\<close>

theorem datetime_text:
  assumes "\<forall>i \<in> {day dt, month dt, year dt, minute dt, second dt}. int_ok i" "hour dt \<in> {0..23}"
  shows "read_DateTime (DTtoString dt) = (if hour dt < 10 then None else Some (dt\<lparr>hour := hour dt mod 10\<rparr>, ''''))"
  using assms by (intro read_printed) simp_all

theorem datetime_text_witness:
  "read_DateTime (DTtoString ex_date) = Some (ex_date\<lparr>hour := 3\<rparr>, '''') \<and>
   read_DateTime (DTtoString (ex_date\<lparr>hour := 9\<rparr>)) = None"
  using datetime_text[of ex_date] datetime_text[of "ex_date\<lparr>hour := 9\<rparr>"]
  by (simp add: ex_date_def int_ok_def INT_MAX_def INT_MIN_def)

text \<open>C36: index keys of type INT, STRING and (without NaN) FLOAT are compared by a total preorder: the sign
  flips with the arguments and \<open>\<le>\<close> is transitive.\<close>

theorem compare_keys_preorder:
  assumes "type \<noteq> TYPE_DATETIME" "\<forall>x \<in> {a, b, c}. length x = n \<and> (type = TYPE_FLOAT \<longrightarrow> \<not> float_nan (float_bits x))"
  shows "\<exists>ab ba bc ac. compare_keys a b type n = Inr ab \<and> compare_keys b a type n = Inr ba \<and>
    compare_keys b c type n = Inr bc \<and> compare_keys a c type n = Inr ac \<and>
    (ab < 0 \<longleftrightarrow> 0 < ba) \<and> (ab = 0 \<longleftrightarrow> ba = 0) \<and> (ab \<le> 0 \<and> bc \<le> 0 \<longrightarrow> ac \<le> 0)"
proof -
  have law: ?thesis if o: "key_order cmp key" and k: "key a" "key b" "key c"
    and e: "\<And>x y. x \<in> {a, b, c} \<Longrightarrow> y \<in> {a, b, c} \<Longrightarrow> compare_keys x y type n = Inr (cmp x y)" for cmp key
    using e[of a b] e[of b a] e[of b c] e[of a c] key_order.cmp_anti[OF o k(1,2)] key_order.cmp_anti[OF o k(2,1)]
      key_order.cmp_trans[OF o k] by (auto simp: order.order_iff_strict)
  show ?thesis
  proof (cases type)
    case TYPE_INT
    then show ?thesis by (intro law[OF int_keys.key_order_axioms]) (auto simp: compare_keys_type)
  next
    case TYPE_FLOAT
    then show ?thesis using assms(2) by (intro law[OF float_keys.key_order_axioms]) (auto simp: compare_keys_type)
  next
    case TYPE_STRING
    then show ?thesis using assms(2) by (intro law[OF string_keys.key_order_axioms[of n]]) (auto simp: compare_keys_type)
  qed (use assms(1) in simp)
qed

theorem compare_keys_preorder_witness:
  "\<exists>ab ba. compare_keys (int_bytes 5) (int_bytes (-7)) TYPE_INT 4 = Inr ab \<and>
    compare_keys (int_bytes (-7)) (int_bytes 5) TYPE_INT 4 = Inr ba \<and> (ab < 0 \<longleftrightarrow> 0 < ba)"
  using compare_keys_preorder[of TYPE_INT "int_bytes 5" "int_bytes (-7)" "int_bytes 9" 4] by auto

text \<open>C37: DATETIME keys are not: 31 January and 1 February of any year whose time stamps fit have the same time
  stamp but differ, so each compares above the other, and no sorted order of an index that holds both exists.\<close>

theorem datetime_keys_unordered:
  assumes "y \<in> {0..66}" "h \<in> {0..23}" "mi \<in> {0..59}" "s \<in> {0..59}"
  shows "let a = datetime_bytes \<lparr>day = 31, month = 1, year = y, hour = h, minute = mi, second = s\<rparr>;
             b = datetime_bytes \<lparr>day = 1, month = 2, year = y, hour = h, minute = mi, second = s\<rparr>
         in compare_keys a b TYPE_DATETIME n = Inr 1 \<and> compare_keys b a TYPE_DATETIME n = Inr 1"
proof -
  have ok: "int_ok i" if "0 \<le> i" "i \<le> 66" for i using that by (simp add: int_ok_def INT_MAX_def INT_MIN_def)
  let ?x = "\<lparr>day = 31, month = 1, year = y, hour = h, minute = mi, second = s\<rparr>"
  let ?y = "\<lparr>day = 1, month = 2, year = y, hour = h, minute = mi, second = s\<rparr>"
  have b: "datetime_of_bytes (datetime_bytes ?x) = ?x" "datetime_of_bytes (datetime_bytes ?y) = ?y"
    using assms by (auto intro!: datetime_of_datetime_bytes ok)
  have v: "validateDateTime 31 1 y h mi s" "validateDateTime 1 2 y h mi s" using assms by (auto simp: validateDateTime_def)
  have t: "getTimestamp ?x = getTimestamp ?y" "\<exists>i. getTimestamp ?x = Inr i"
    using getTimestamp_valid[of ?x] getTimestamp_valid[of ?y] v assms(1) by simp_all
  then show ?thesis by (auto simp: b Let_def compare_keys_def dt_eq_def dt_less_def dt_compare_def)
qed

theorem datetime_keys_unordered_witness:
  "compare_keys (datetime_bytes \<lparr>day = 31, month = 1, year = 24, hour = 0, minute = 0, second = 0\<rparr>)
     (datetime_bytes \<lparr>day = 1, month = 2, year = 24, hour = 0, minute = 0, second = 0\<rparr>) TYPE_DATETIME 24 = Inr 1"
  using datetime_keys_unordered[of 24 0 0 0 24] by (simp add: Let_def)

end
