(* ===== verification/IndexTheorems.thy ===== *)
theory IndexTheorems
  imports Examples
begin

text \<open>
  The properties of an index: its nodes as sorted arrays in a page, searches and scans of the tree
  against the sorted list of its entries, and the life of an index file on disk.
\<close>

section \<open>Nodes\<close>

definition ex_node :: "byte list" where
  "ex_node = projr (insert_key int_header 0 (int_bytes 7) first_root_page)"

lemma int_layout: "ix_layout int_header" "column_type int_header \<noteq> TYPE_DATETIME" "col_len int_header = 4"
  "btree_order int_header = 338"
  using new_index_layout[OF len4, of TYPE_INT]
  by (simp_all add: int_header_def new_index_header_def new_btree_order_def PAGE_SIZE_def sizeof_IndexPageHeader_def
      sizeof_RecordID_def)

lemma root_node: "node_ok int_header first_root_page" "node_keys int_header first_root_page = []"
  "node_rids int_header first_root_page = []"
  by (simp_all add: node_ok_def node_keys_def node_rids_def new_pages int_layout(4) arr_def)

lemma ex_node_facts: "node_ok int_header ex_node" "node_keys int_header ex_node = [int_bytes 7]"
  "node_sorted int_header ex_node" "key_ok int_header (int_bytes i)"
proof -
  have k: "key_ok int_header (int_bytes i)" for i by (simp add: key_ok_def int_layout(3)) (simp add: int_header_def new_index_header_def)
  have room: "int (length (node_keys int_header first_root_page) + 1) \<le> btree_order int_header + 1"
    and src: "1 * nat (col_len int_header) \<le> length (int_bytes 7)" by (simp_all add: int_layout root_node)
  obtain b' where b: "insert_keys int_header (int 0) (int_bytes 7) (int 1) first_root_page = Inr b'" "node_ok int_header b'"
    "node_keys int_header b' = take 0 (node_keys int_header first_root_page) @
       arr (int_bytes 7) 0 (nat (col_len int_header)) 1 @ drop 0 (node_keys int_header first_root_page)"
    by (rule insert_keys_list[where p = 0, OF int_layout(1) root_node(1) le0 room src]) (rule that; assumption)
  then have e: "ex_node = b'" by (simp add: ex_node_def insert_key_def)
  show "node_ok int_header ex_node" "key_ok int_header (int_bytes i)" using b(2) k by (simp_all add: e)
  show keys: "node_keys int_header ex_node = [int_bytes 7]"
    using b(3) arr_single[of "int_bytes 7" 4] by (simp add: e root_node int_layout(3))
  show "node_sorted int_header ex_node" by (simp add: node_sorted_def keys k)
qed

text \<open>C18: the two binary searches of a node find what a linear search of its sorted keys finds: the first key not
  below the target and the first key above it, or the number of keys.\<close>

theorem node_search_linear:
  assumes "ix_layout h" "node_ok h b" "column_type h \<noteq> TYPE_DATETIME" "node_sorted h b" "key_ok h k"
  shows "node_lower_bound h k b = Inr (int (length (takeWhile (\<lambda>x. 0 < key_cmp h k x) (node_keys h b)))) \<and>
    node_upper_bound h k b = Inr (int (length (takeWhile (\<lambda>x. 0 \<le> key_cmp h k x) (node_keys h b))))"
proof -
  note ord = key_cmp_order[OF assms(3)]
  have V: "\<forall>x \<in> set (node_keys h b). key_ok h x" "sorted_wrt (\<lambda>x y. key_cmp h x y \<le> 0) (node_keys h b)"
    using assms(4) by (simp_all add: node_sorted_def)
  have c: "\<forall>x \<in> set (node_keys h b). comparable h k x" using comparable_unless_datetime[OF assms(3)] by blast
  show ?thesis
    using node_bounds_run[OF assms(1,2) ord assms(5) V(1) c V(2)]
    by (simp add: key_order.lin_lower_def[OF ord] key_order.lin_upper_def[OF ord])
qed

theorem node_search_linear_witness:
  "node_lower_bound int_header (int_bytes 9) ex_node = Inr 1 \<and> node_upper_bound int_header (int_bytes 2) ex_node = Inr 0"
proof -
  have "key_cmp int_header (int_bytes 9) (int_bytes 7) = 1" "key_cmp int_header (int_bytes 2) (int_bytes 7) = -1"
    by (simp_all add: key_cmp_def compare_keys_def int_header_def new_index_header_def load_int_def load_def int_ok_def
      INT_MAX_def INT_MIN_def)
  then show ?thesis
    using node_search_linear[OF int_layout(1) ex_node_facts(1) int_layout(2) ex_node_facts(3,4), of 9]
      node_search_linear[OF int_layout(1) ex_node_facts(1) int_layout(2) ex_node_facts(3,4), of 2]
    by (simp add: ex_node_facts(2))
qed

text \<open>Inserting a key at the position its upper bound names keeps the keys of the node sorted, adds that key
  after its equals and shifts the rest, and leaves the record ids and the other header fields alone; erasing
  the key at that position again restores the keys.\<close>

theorem node_insert_keeps_sorted:
  assumes "ix_layout h" "node_ok h b" "column_type h \<noteq> TYPE_DATETIME" "node_sorted h b" "key_ok h k"
    and "int (length (node_keys h b)) \<le> btree_order h"
  shows "\<exists>p b' b''. node_upper_bound h k b = Inr (int p) \<and> insert_key h (int p) k b = Inr b' \<and> node_ok h b' \<and>
    node_sorted h b' \<and> node_keys h b' = take p (node_keys h b) @ k # drop p (node_keys h b) \<and>
    node_rids h b' = node_rids h b \<and> get_header b' = (get_header b)\<lparr>num_key := num_key (get_header b) + 1\<rparr> \<and>
    erase_key h (int p) b' = Inr b'' \<and> node_keys h b'' = node_keys h b \<and> node_rids h b'' = node_rids h b"
proof -
  obtain p b' where b: "node_upper_bound h k b = Inr (int p)" "p \<le> length (node_keys h b)"
    "insert_key h (int p) k b = Inr b'" "node_ok h b'" "node_sorted h b'"
    "node_keys h b' = take p (node_keys h b) @ k # drop p (node_keys h b)" "node_rids h b' = node_rids h b"
    "get_header b' = (get_header b)\<lparr>num_key := num_key (get_header b) + 1\<rparr>"
    by (rule node_insert_sorted[OF assms])
  have "p < length (node_keys h b')" using b(2,6) by simp
  from erase_key_list[OF assms(1) b(4) this] obtain b'' where "erase_key h (int p) b' = Inr b''"
    "node_rids h b'' = node_rids h b'" "node_keys h b'' = take p (node_keys h b') @ drop (Suc p) (node_keys h b')" by metis
  moreover have "take p (node_keys h b') @ drop (Suc p) (node_keys h b') = node_keys h b" using b(2,6) by simp
  ultimately show ?thesis using b by auto
qed

theorem node_insert_keeps_sorted_witness:
  "\<exists>p b'. insert_key int_header (int p) (int_bytes 3) ex_node = Inr b' \<and> node_sorted int_header b' \<and>
    set (node_keys int_header b') = {int_bytes 3, int_bytes 7}"
proof -
  have "int (length (node_keys int_header ex_node)) \<le> btree_order int_header" by (simp add: ex_node_facts(2) int_layout(4))
  from node_insert_keeps_sorted[OF int_layout(1) ex_node_facts(1) int_layout(2) ex_node_facts(3,4) this, of 3]
  obtain p b' where "insert_key int_header (int p) (int_bytes 3) ex_node = Inr b'" "node_sorted int_header b'"
    "node_keys int_header b' = take p (node_keys int_header ex_node) @ int_bytes 3 # drop p (node_keys int_header ex_node)" by blast
  moreover have "set (take p [int_bytes 7] @ int_bytes 3 # drop p [int_bytes 7]) = {int_bytes 3, int_bytes 7}"
    by (cases p) auto
  ultimately show ?thesis unfolding ex_node_facts(2) by metis
qed

text \<open>C39: the layout that \<open>create_index\<close> computes for a column of 1 to 512 bytes: the order is between 6 and 451, and
  the header, one key and one record id more than the order fit the page exactly one behind the other.\<close>

theorem index_layout_fits:
  assumes "1 \<le> len" "len \<le> 512"
  shows "6 \<le> btree_order (new_index_header type len) \<and> btree_order (new_index_header type len) \<le> 451 \<and>
    ix_layout (new_index_header type len)"
  using new_btree_order_bounds[of len] new_index_layout[of len] assms by (simp add: NDX_MAX_COL_LEN_def new_index_header_def)

theorem index_layout_fits_witness:
  "btree_order (new_index_header TYPE_STRING 512) = 6 \<and> ix_layout (new_index_header TYPE_STRING 512)"
  using index_layout_fits[of 512 TYPE_STRING]
  by (simp add: new_index_header_def new_btree_order_def PAGE_SIZE_def sizeof_IndexPageHeader_def sizeof_RecordID_def)

section \<open>Trees\<close>

text \<open>C11: the descents of an index return the position in the sorted list of its entries that the linear search
  of this list gives: \<open>lower_bound\<close> the first entry whose key is not below the target, \<open>upper_bound\<close> the first above
  it, each as the leaf page and slot of that entry (the end of the last leaf when there is none). The
  tree is only read.\<close>

theorem index_bounds_linear:
  assumes "ix_wf s ih t" "key_ok (index_header ih) k"
  shows "(\<exists>u. index_lower_bound k (ih, s) = (Inr (pos_id (bt_leaves t)
        (length (takeWhile (\<lambda>e. 0 < key_cmp (index_header ih) k (fst e)) (bt_entries t)))), (ih, u)) \<and> ix_wf u ih t) \<and>
    (\<exists>u. index_upper_bound k (ih, s) = (Inr (pos_id (bt_leaves t)
        (length (takeWhile (\<lambda>e. 0 \<le> key_cmp (index_header ih) k (fst e)) (bt_entries t)))), (ih, u)) \<and> ix_wf u ih t)"
proof -
  have lay: "ix_layout (index_header ih)" "column_type (index_header ih) \<noteq> TYPE_DATETIME"
    using assms(1) unfolding ix_wf_def ix_tree_def by blast+
  note se = searches_lower[OF lay assms(2)]
  have fp: "first_pos P (map fst xs) = length (takeWhile (\<lambda>e. \<not> P (fst e)) xs)" for P and xs :: "entry list"
    by (simp add: first_pos_def takeWhile_map comp_def)
  obtain u where u: "index_lower_bound k (ih, s) = (Inr (pos_id (bt_leaves t)
      (first_pos (\<lambda>x. key_cmp (index_header ih) k x \<le> 0) (map fst (bt_entries t)))), (ih, u))" "looked (ih_fd ih) s u"
    unfolding index_lower_bound_def by (rule index_bound_run[OF assms(1) se(1)])
  obtain v where v: "index_upper_bound k (ih, s) = (Inr (pos_id (bt_leaves t)
      (first_pos (\<lambda>x. key_cmp (index_header ih) k x < 0) (map fst (bt_entries t)))), (ih, v))" "looked (ih_fd ih) s v"
    unfolding index_upper_bound_def by (rule index_bound_run[OF assms(1) se(2)])
  show ?thesis
    using u v looked_ix_wf[OF assms(1) u(2)] looked_ix_wf[OF assms(1) v(2)] unfolding fp not_le not_less by blast
qed

theorem index_bounds_linear_witness:
  "\<exists>u. index_lower_bound (int_bytes 5) (ex_ih, ex_ix) = (Inr (IndexID 2 0), (ex_ih, u))"
proof -
  have "key_ok (index_header ex_ih) (int_bytes 5)" by (simp add: ex_ix_facts(4) ex_node_facts(4))
  from index_bounds_linear[OF ex_ix_facts(3) this] show ?thesis by (auto simp: NDX_INIT_ROOT_PAGE_def)
qed

text \<open>C2: looking a key up (lower bound, upper bound, and the iterator between them) ends and returns the record
  ids of exactly the entries with an equal key, in the order of the tree.\<close>

theorem index_lookup_exact:
  assumes "ix_wf s ih t" "key_ok (index_header ih) k" "length (bt_entries t) < fuel"
  shows "\<exists>u. index_lookup fuel k (ih, s) =
      (Inr (map snd (filter (\<lambda>e. key_cmp (index_header ih) k (fst e) = 0) (bt_entries t))), (ih, u)) \<and> ix_wf u ih t"
  by (rule index_lookup_run[OF assms]) (use looked_ix_wf[OF assms(1)] in blast)

theorem index_lookup_exact_witness:
  "\<exists>u. index_lookup 1 (int_bytes 5) (ex_ih, ex_ix) = (Inr [], (ex_ih, u))"
proof -
  have "key_ok (index_header ex_ih) (int_bytes 5)" by (simp add: ex_ix_facts(4) ex_node_facts(4))
  from index_lookup_exact[OF ex_ix_facts(3) this, of 1] show ?thesis by auto
qed

section \<open>Index files\<close>

text \<open>C20: an index created for a column of an ordered type opens as the empty tree.\<close>

theorem create_open_empty_index:
  assumes "pm_wf s" "\<not> sys_is_reg s (get_index_name name n)" "0 \<le> n" "1 \<le> len" "len \<le> 512" "type \<noteq> TYPE_DATETIME"
  shows "\<exists>ih t. (andThen (create_index name n type len) (\<lambda>_. open_index name n)) s = (Inr ih, t) \<and> pm_wf t \<and>
    ix_wf t ih (Leaf NDX_INIT_ROOT_PAGE []) \<and> column_type (index_header ih) = type \<and> col_len (index_header ih) = len"
proof -
  have len: "len \<le> NDX_MAX_COL_LEN" using assms(5) by (simp add: NDX_MAX_COL_LEN_def)
  obtain t b where t: "create_index name n type len s = (Inr (), t)" "pm_wf t" "path2fd t = path2fd s" "cwd t = cwd s"
    "files t (resolve s (get_index_name name n)) = Some b"
    "ix_file (new_index_header type len) b (Leaf NDX_INIT_ROOT_PAGE [])"
    by (rule create_index_run[OF assms(1-4) len assms(6)])
  have b: "files t (resolve t (get_index_name name n)) = Some b" and closed: "path2fd t (get_index_name name n) = None"
    using t(3-5) missing_closed[OF assms(1,2)] by (simp_all add: resolve_def)
  obtain fd where o: "open_index name n t = (Inr \<lparr>ih_fd = fd, index_header = new_index_header type len\<rparr>,
      opened fd (get_index_name name n) t)" "pm_wf (opened fd (get_index_name name n) t)"
    "ix_wf (opened fd (get_index_name name n) t) \<lparr>ih_fd = fd, index_header = new_index_header type len\<rparr> (Leaf NDX_INIT_ROOT_PAGE [])"
    by (rule open_index_run[OF t(2) b t(6) closed])
  then show ?thesis using t(1) by (simp add: new_index_header_def)
qed

theorem create_open_empty_index_witness:
  "\<exists>ih t. (andThen (create_index ''t'' 3 TYPE_STRING 20) (\<lambda>_. open_index ''t'' 3)) start = (Inr ih, t) \<and>
    ix_wf t ih (Leaf NDX_INIT_ROOT_PAGE [])"
  using create_open_empty_index[OF start_wf start_fresh, of 3 20 TYPE_STRING "''t''"] by auto

text \<open>C19: closing an index and opening it again gives the same tree.\<close>

theorem close_reopen_index:
  assumes "pm_wf s" "ix_wf s ih t" "fd2path s (ih_fd ih) = Some (get_index_name name n)"
  shows "\<exists>jh u. (andThen (close_index ih) (\<lambda>_. open_index name n)) s = (Inr jh, u) \<and> pm_wf u \<and> ix_wf u jh t \<and>
    index_header jh = index_header ih"
proof -
  obtain u b where u: "close_index ih s = (Inr (), u)" "pm_wf u" "path2fd u = (path2fd s)(get_index_name name n := None)"
    "cwd u = cwd s" "files u (resolve s (get_index_name name n)) = Some b" "ix_file (index_header ih) b t"
    by (rule close_index_run[OF assms])
  have b: "files u (resolve u (get_index_name name n)) = Some b" and closed: "path2fd u (get_index_name name n) = None"
    using u(3-5) by (simp_all add: resolve_def)
  obtain fd where o: "open_index name n u = (Inr \<lparr>ih_fd = fd, index_header = index_header ih\<rparr>,
      opened fd (get_index_name name n) u)" "pm_wf (opened fd (get_index_name name n) u)"
    "ix_wf (opened fd (get_index_name name n) u) \<lparr>ih_fd = fd, index_header = index_header ih\<rparr> t"
    by (rule open_index_run[OF u(2) b u(6) closed])
  then show ?thesis using u(1) by simp
qed

theorem close_reopen_index_witness:
  "\<exists>jh u. (andThen (close_index ex_ih) (\<lambda>_. open_index ''t'' 0)) ex_ix = (Inr jh, u) \<and>
    ix_wf u jh (Leaf NDX_INIT_ROOT_PAGE [])"
  using close_reopen_index[OF ex_ix_facts(2,3,5)] by blast

text \<open>C38: \<open>create_index\<close> tests the column length only after it has created and opened the file: with a length over
  512 it throws, but leaves an empty index file behind that stays open, so every further attempt to create or to
  destroy this index is refused.\<close>

theorem create_index_bad_length:
  assumes "pm_wf s" "\<not> sys_is_reg s (get_index_name name n)" "0 \<le> n" "512 < len"
  shows "\<exists>fd t. create_index name n type len s = (Inl (Throw (InvalidColLengthError len)), t) \<and> pm_wf t \<and>
    files t (resolve s (get_index_name name n)) = Some [] \<and> path2fd t (get_index_name name n) = Some fd \<and>
    create_index name n type 4 t = (Inl (Throw (FileExistsError (get_index_name name n))), t) \<and>
    destroy_index name n t = (Inl (Throw (FileNotClosedError (get_index_name name n))), t)"
proof -
  let ?p = "get_index_name name n"
  let ?m = "s\<lparr>files := (files s)(resolve s ?p \<mapsto> [])\<rparr>"
  note c = create_file_run[OF assms(1,2)]
  have there: "sys_is_reg ?m ?p" by (simp add: sys_is_reg_def resolve_def)
  have closed: "path2fd ?m ?p = None" using missing_closed[OF assms(1,2)] by simp
  obtain fd where o: "open_file ?p ?m = (Inr fd, opened fd ?p ?m)" "pm_wf (opened fd ?p ?m)"
    by (rule open_file_run[OF c(2) there closed])
  let ?t = "opened fd ?p ?m"
  have t: "fd_map_sem ?t = 1" "sys_is_reg ?t ?p" "path2fd ?t ?p = Some fd"
    using o(2) by (simp_all add: pm_wf_def sys_is_reg_def resolve_def)
  have "create_index name n type len s = (Inl (Throw (InvalidColLengthError len)), ?t)"
    using assms(3,4) c(1) o(1) by (simp add: create_index_def NDX_MAX_COL_LEN_def)
  moreover have "create_index name n type 4 ?t = (Inl (Throw (FileExistsError ?p)), ?t)"
    using assms(3) create_file_exists[OF t(1,2)] by (simp add: create_index_def)
  moreover have "destroy_index name n ?t = (Inl (Throw (FileNotClosedError ?p)), ?t)"
    using destroy_file_opened[OF t] by (simp add: destroy_index_def)
  ultimately show ?thesis using o(2) t(3) by (intro exI[of _ fd] exI[of _ ?t]) simp
qed

theorem create_index_bad_length_witness:
  "\<exists>t. create_index ''t'' 0 TYPE_STRING 600 start = (Inl (Throw (InvalidColLengthError 600)), t) \<and>
    destroy_index ''t'' 0 t = (Inl (Throw (FileNotClosedError (get_index_name ''t'' 0))), t)"
  using create_index_bad_length[OF start_wf start_fresh, of 0 600 "''t''" TYPE_STRING] by auto

end
