(* ===== verification/SmMeta.thy ===== *)
theory SmMeta
  imports TextIO DbDefs "HOL-Library.List_Lexorder" "HOL-Library.Char_ord"
begin

text \<open>
  \<open>system_management/sm_meta.h\<close>: the catalog of a database (\<open>DB_Metadata\<close>, \<open>Table_Metadata\<close>,
  \<open>Column_Metadata\<close>) with its lookups and its text form, which \<open>operator<<\<close> writes to
  \<open>db.meta\<close> and \<open>operator>>\<close> reads back; and the result types of \<open>sm_defs.h\<close>. A
  \<open>std::map\<close> with string keys is a list of pairs in ascending key order, as iteration sees it.
\<close>

section \<open>std::map over strings\<close>

fun map_put :: "'k::linorder \<Rightarrow> 'v \<Rightarrow> ('k \<times> 'v) list \<Rightarrow> ('k \<times> 'v) list" where
  "map_put k v [] = [(k, v)]"
| "map_put k v ((k', v') # m) = (if k < k' then (k, v) # (k', v') # m
     else if k = k' then (k, v) # m else (k', v') # map_put k v m)"

definition map_erase :: "'k \<Rightarrow> ('k \<times> 'v) list \<Rightarrow> ('k \<times> 'v) list" where
  "map_erase k m = filter (\<lambda>e. fst e \<noteq> k) m"

abbreviation map_sorted :: "('k::linorder \<times> 'v) list \<Rightarrow> bool" where
  "map_sorted m \<equiv> sorted_wrt (<) (map fst m)"

lemma set_map_put: "fst ` set (map_put k v m) = insert k (fst ` set m)"
  by (induction m rule: map_put.induct) auto

lemma map_put_sorted [simp]: "map_sorted m \<Longrightarrow> map_sorted (map_put k v m)"
proof (induction k v m rule: map_put.induct)
  case (2 k v k' v' m)
  have *: "set (map fst (map_put k v m)) = insert k (set (map fst m))" using set_map_put[of k v m] by simp
  show ?case using 2 by (auto simp: * simp del: set_map)
qed simp

lemma map_of_put [simp]: "map_of (map_put k v m) = (map_of m)(k \<mapsto> v)"
  by (induction m rule: map_put.induct) (auto simp: fun_eq_iff)

lemma map_erase_sorted [simp]: "map_sorted m \<Longrightarrow> map_sorted (map_erase k m)"
  unfolding map_erase_def sorted_wrt_map by (rule sorted_wrt_filter)

lemma map_of_erase [simp]: "map_of (map_erase k m) = (map_of m)(k := None)"
  by (induction m) (auto simp: map_erase_def fun_eq_iff)

lemma map_put_last: "\<forall>e \<in> set m. fst e < k \<Longrightarrow> map_put k v m = m @ [(k, v)]"
  by (induction m rule: map_put.induct) auto

section \<open>The catalog\<close>

record Column_Metadata =
  cm_tab_name :: string
  cm_name :: string
  cm_type :: ColumnType
  cm_len :: int
  cm_offset :: int
  cm_index :: bool

record Table_Metadata =
  tm_name :: string
  tm_cols :: "Column_Metadata list"

record DB_Metadata =
  dm_name :: string
  dm_tabs :: "(string \<times> Table_Metadata) list"

definition is_col :: "Table_Metadata \<Rightarrow> string \<Rightarrow> bool" where
  "is_col tab col_name = list_ex (\<lambda>c. cm_name c = col_name) (tm_cols tab)"

text \<open>The iterator \<open>get_col\<close> returns, as an index into the columns.\<close>

definition get_col :: "Table_Metadata \<Rightarrow> string \<Rightarrow> db_error + nat" where
  "get_col tab col_name = (let pos = length (takeWhile (\<lambda>c. cm_name c \<noteq> col_name) (tm_cols tab))
     in if pos = length (tm_cols tab) then Inl (ColumnNotFoundError col_name) else Inr pos)"

definition is_table :: "DB_Metadata \<Rightarrow> string \<Rightarrow> bool" where
  "is_table db tab_name \<longleftrightarrow> map_of (dm_tabs db) tab_name \<noteq> None"

definition get_table :: "DB_Metadata \<Rightarrow> string \<Rightarrow> db_error + Table_Metadata" where
  "get_table db tab_name = (case map_of (dm_tabs db) tab_name of
     None \<Rightarrow> Inl (TableNotFoundError tab_name) | Some tab \<Rightarrow> Inr tab)"

text \<open>\<open>std::find_if\<close> as a position: the first element that passes the test.\<close>

lemma find_if_pos:
  "length (takeWhile (\<lambda>x. \<not> P x) xs) = i \<and> i < length xs \<longleftrightarrow> i < length xs \<and> P (xs ! i) \<and> (\<forall>j < i. \<not> P (xs ! j))"
proof -
  let ?p = "length (takeWhile (\<lambda>x. \<not> P x) xs)"
  have before: "\<not> P (xs ! j)" if "j < ?p" for j
    using takeWhile_nth[OF that] nth_mem[OF that] set_takeWhileD[of "takeWhile (\<lambda>x. \<not> P x) xs ! j" "\<lambda>x. \<not> P x" xs] by simp
  have at: "P (xs ! ?p)" if "?p < length xs" using nth_length_takeWhile[OF that] by simp
  have "?p = i" if "i < length xs" "P (xs ! i)" "\<forall>j < i. \<not> P (xs ! j)"
  proof (rule antisym)
    show "?p \<le> i" using before that(2) not_le by blast
    show "i \<le> ?p" using at that(1,3) by (metis not_le order.strict_trans)
  qed
  then show ?thesis using before at by blast
qed

lemma get_col_Inr:
  "get_col tab c = Inr i \<longleftrightarrow> i < length (tm_cols tab) \<and> cm_name (tm_cols tab ! i) = c \<and> (\<forall>j < i. cm_name (tm_cols tab ! j) \<noteq> c)"
  unfolding find_if_pos[where P = "\<lambda>x. cm_name x = c", symmetric] get_col_def Let_def
  using length_takeWhile_le[of "\<lambda>x. cm_name x \<noteq> c" "tm_cols tab"] by (auto simp: le_less)

lemma get_col_is_col: "(\<exists>i. get_col tab c = Inr i) \<longleftrightarrow> is_col tab c"
proof
  assume "is_col tab c"
  then obtain i where i: "i < length (tm_cols tab)" "cm_name (tm_cols tab ! i) = c" by (auto simp: is_col_def list_ex_length)
  let ?Q = "\<lambda>i. i < length (tm_cols tab) \<and> cm_name (tm_cols tab ! i) = c"
  have l: "?Q (Least ?Q)" by (rule LeastI[of ?Q i]) (use i in simp)
  have "cm_name (tm_cols tab ! j) \<noteq> c" if "j < Least ?Q" for j
    using not_less_Least[OF that] that l by (metis (no_types, lifting) order_less_trans)
  then show "\<exists>i. get_col tab c = Inr i" unfolding get_col_Inr using l by blast
qed (auto simp: get_col_Inr is_col_def list_ex_length)

section \<open>Its text form\<close>

definition nl :: string where
  "nl = [CHR 0x0A]"

definition print_bool :: "bool \<Rightarrow> string" where
  "print_bool b = (if b then ''1'' else ''0'')"

definition print_column :: "Column_Metadata \<Rightarrow> string" where
  "print_column col = cm_tab_name col @ '' '' @ cm_name col @ '' '' @ int_to_string (enum_to_int (cm_type col)) @ '' '' @
     int_to_string (cm_len col) @ '' '' @ int_to_string (cm_offset col) @ '' '' @ print_bool (cm_index col)"

definition print_table :: "Table_Metadata \<Rightarrow> string" where
  "print_table tab = tm_name tab @ nl @ nat_to_string (length (tm_cols tab)) @ nl @
     concat (map (\<lambda>col. print_column col @ nl) (tm_cols tab))"

definition print_db :: "DB_Metadata \<Rightarrow> string" where
  "print_db db = dm_name db @ nl @ nat_to_string (length (dm_tabs db)) @ nl @
     concat (map (\<lambda>e. print_table (snd e) @ nl) (dm_tabs db))"

text \<open>
  Extraction: \<open>None\<close> when it fails. The source goes on with the failed stream and indeterminate
  integers then, so every failure is \<open>Undefined\<close> to its callers.
\<close>

type_synonym 'a reader = "string \<Rightarrow> ('a \<times> string) option"

definition read_then :: "'a reader \<Rightarrow> ('a \<Rightarrow> 'b reader) \<Rightarrow> 'b reader" where
  "read_then m f = (\<lambda>s. case m s of None \<Rightarrow> None | Some (x, r) \<Rightarrow> f x r)"

definition read_done :: "'a \<Rightarrow> 'a reader" where
  "read_done x = (\<lambda>s. Some (x, s))"

definition extract_size :: "nat reader" where
  "extract_size s0 = (let s = skip_ws s0;
       neg = (s \<noteq> [] \<and> hd s = CHR ''-'');
       body = (if s \<noteq> [] \<and> (hd s = CHR ''-'' \<or> hd s = CHR ''+'') then tl s else s)
     in case extract_nat body of None \<Rightarrow> None
        | Some (n, rest) \<Rightarrow> if n < 18446744073709551616
            then Some (if neg then (18446744073709551616 - n) mod 18446744073709551616 else n, rest) else None)"

definition extract_bool :: "bool reader" where
  "extract_bool = read_then extract_int (\<lambda>i. if i = 0 then read_done False else if i = 1 then read_done True else (\<lambda>_. None))"

definition extract_coltype :: "ColumnType reader" where
  "extract_coltype = read_then extract_int (\<lambda>i. case enum_of_int i of None \<Rightarrow> (\<lambda>_. None) | Some t \<Rightarrow> read_done t)"

definition read_column :: "Column_Metadata reader" where
  "read_column =
     read_then extract_word (\<lambda>tab_name. read_then extract_word (\<lambda>name. read_then extract_coltype (\<lambda>type.
     read_then extract_int (\<lambda>len. read_then extract_int (\<lambda>offset. read_then extract_bool (\<lambda>index.
     read_done \<lparr>cm_tab_name = tab_name, cm_name = name, cm_type = type, cm_len = len, cm_offset = offset, cm_index = index\<rparr>))))))"

fun read_times :: "nat \<Rightarrow> 'a reader \<Rightarrow> 'a list reader" where
  "read_times 0 m = read_done []"
| "read_times (Suc n) m = read_then m (\<lambda>x. read_then (read_times n m) (\<lambda>xs. read_done (x # xs)))"

definition read_table :: "Table_Metadata reader" where
  "read_table =
     read_then extract_word (\<lambda>name. read_then extract_size (\<lambda>n. read_then (read_times n read_column) (\<lambda>cols.
     read_done \<lparr>tm_name = name, tm_cols = cols\<rparr>)))"

text \<open>The tables read are put into the map the object already has.\<close>

definition read_db :: "DB_Metadata \<Rightarrow> DB_Metadata reader" where
  "read_db db =
     read_then extract_word (\<lambda>name. read_then extract_size (\<lambda>n. read_then (read_times n read_table) (\<lambda>tabs.
     read_done \<lparr>dm_name = name, dm_tabs = fold (\<lambda>tab. map_put (tm_name tab) tab) tabs (dm_tabs db)\<rparr>)))"

section \<open>Reading what was printed\<close>

definition word_ok :: "string \<Rightarrow> bool" where
  "word_ok w \<longleftrightarrow> w \<noteq> [] \<and> list_all (\<lambda>c. \<not> is_space c) w"

definition column_ok :: "Column_Metadata \<Rightarrow> bool" where
  "column_ok col \<longleftrightarrow> word_ok (cm_tab_name col) \<and> word_ok (cm_name col) \<and> int_ok (cm_len col) \<and> int_ok (cm_offset col)"

definition table_ok :: "Table_Metadata \<Rightarrow> bool" where
  "table_ok tab \<longleftrightarrow> word_ok (tm_name tab) \<and> list_all column_ok (tm_cols tab) \<and> length (tm_cols tab) < 18446744073709551616"

definition db_ok :: "DB_Metadata \<Rightarrow> bool" where
  "db_ok db \<longleftrightarrow> word_ok (dm_name db) \<and> map_sorted (dm_tabs db) \<and> length (dm_tabs db) < 18446744073709551616 \<and>
     (\<forall>(k, tab) \<in> set (dm_tabs db). tm_name tab = k \<and> table_ok tab)"

lemma read_then_Some [simp]: "m s = Some (x, r) \<Longrightarrow> read_then m f s = f x r"
  by (simp add: read_then_def)

lemma read_done_run [simp]: "read_done x s = Some (x, s)"
  by (simp add: read_done_def)

lemma skip_ws_space: "is_space c \<Longrightarrow> skip_ws (c # s) = skip_ws s"
  by (simp add: skip_ws_def)

lemma space_chars [simp]: "is_space (CHR '' '')" "is_space (CHR 0x0A)"
  by (simp_all add: is_space_def)

lemma takeWhile_word: "list_all P w \<Longrightarrow> rest = [] \<or> \<not> P (hd rest) \<Longrightarrow> takeWhile P (w @ rest) = w \<and> dropWhile P (w @ rest) = rest"
  by (induction w) (cases rest; auto)+

lemma extract_word_print:
  assumes "word_ok w" "rest = [] \<or> is_space (hd rest)"
  shows "extract_word (w @ rest) = Some (w, rest)"
proof -
  have "skip_ws (w @ rest) = w @ rest" using assms(1) by (cases w) (auto simp: word_ok_def skip_ws_def)
  then show ?thesis
    using takeWhile_word[of "\<lambda>c. \<not> is_space c" w rest] assms by (auto simp: extract_word_def Let_def word_ok_def)
qed

text \<open>Every extraction skips white space first.\<close>

lemma skips [simp]:
  assumes "is_space c"
  shows "extract_word (c # s) = extract_word s" "extract_int (c # s) = extract_int s" "extract_size (c # s) = extract_size s"
    "extract_bool (c # s) = extract_bool s" "extract_coltype (c # s) = extract_coltype s"
  using skip_ws_space[OF assms]
  by (simp_all add: extract_word_def extract_int_def extract_size_def extract_bool_def extract_coltype_def read_then_def)

lemma extract_size_print:
  assumes "n < 18446744073709551616" "rest = [] \<or> \<not> is_digit (hd rest)"
  shows "extract_size (nat_to_string n @ rest) = Some (n, rest)"
proof -
  obtain d ds where d: "nat_to_string n = digit_char d # ds" "d < 10" using digits_nat_to_string(3) by blast
  then have "skip_ws (nat_to_string n @ rest) = nat_to_string n @ rest"
    using digit_not_sign(3) by (simp add: skip_ws_def)
  then show ?thesis
    using extract_nat_print[OF assms(2), of n] assms(1) digit_not_sign(1,2)[OF d(2)] by (simp add: extract_size_def d(1))
qed

lemma space_not_digit: "is_space c \<Longrightarrow> \<not> is_digit c"
  by (auto simp: is_space_def is_digit_def)

lemma int_ok_small: "int_ok (enum_to_int t)" "int_ok 0" "int_ok 1"
  by (cases t) (simp_all add: int_ok_def INT_MAX_def INT_MIN_def)

lemma digit_char_bit: "digit_char 0 = CHR ''0''" "digit_char 1 = CHR ''1''"
  by code_simp+

lemma extract_bool_print:
  assumes "rest = [] \<or> is_space (hd rest)"
  shows "extract_bool (print_bool b @ rest) = Some (b, rest)"
proof -
  have r: "rest = [] \<or> \<not> is_digit (hd rest)" using assms space_not_digit by blast
  have "print_bool b = int_to_string (if b then 1 else 0)"
    using digit_char_bit by (simp add: print_bool_def int_to_string_def nat_to_string_small)
  then show ?thesis
    using extract_int_print[of "if b then 1 else 0" rest, OF _ r] int_ok_small by (simp add: extract_bool_def)
qed

lemma extract_coltype_print:
  assumes "rest = [] \<or> is_space (hd rest)"
  shows "extract_coltype (int_to_string (enum_to_int t) @ rest) = Some (t, rest)"
  using extract_int_print[of "enum_to_int t" rest] int_ok_small assms space_not_digit by (auto simp: extract_coltype_def)

lemma read_column_print:
  assumes "column_ok col" "rest = [] \<or> is_space (hd rest)"
  shows "read_column (print_column col @ rest) = Some (col, rest)"
proof -
  have i: "extract_int (int_to_string i @ CHR '' '' # r) = Some (i, CHR '' '' # r)" if "int_ok i" for i r
    using extract_int_print[OF that, of "CHR '' '' # r"] space_not_digit[of "CHR '' ''"] by simp
  show ?thesis
    using assms extract_bool_print[OF assms(2), of "cm_index col"]
    by (simp add: read_column_def print_column_def column_ok_def extract_word_print extract_coltype_print i)
qed

text \<open>Readers do not see white space in front of what they read.\<close>

lemma skip_ws_idem [simp]: "skip_ws (skip_ws s) = skip_ws s"
  by (simp add: skip_ws_def dropWhile_idem)

lemma skip_ws_nl [simp]: "skip_ws (nl @ s) = skip_ws s"
  by (simp add: nl_def skip_ws_space)

lemma reads_cong:
  assumes "skip_ws s = skip_ws r"
  shows "extract_word s = extract_word r" "extract_size s = extract_size r"
    "read_column s = read_column r" "read_table s = read_table r"
  using assms by (simp_all add: extract_word_def extract_size_def read_column_def read_table_def read_then_def)

lemma read_times_print:
  assumes "\<And>x r. x \<in> set xs \<Longrightarrow> \<exists>q. m (print x @ nl @ r) = Some (x, q) \<and> skip_ws q = skip_ws r"
    and "\<And>s r. skip_ws s = skip_ws r \<Longrightarrow> m s = m r"
    and "skip_ws s = skip_ws (concat (map (\<lambda>x. print x @ nl) xs) @ rest)"
  shows "\<exists>q. read_times (length xs) m s = Some (xs, q) \<and> skip_ws q = skip_ws rest"
  using assms(1,3)
proof (induction xs arbitrary: s)
  case (Cons x xs)
  obtain q where q: "m (print x @ nl @ concat (map (\<lambda>x. print x @ nl) xs) @ rest) = Some (x, q)"
    "skip_ws q = skip_ws (concat (map (\<lambda>x. print x @ nl) xs) @ rest)" using Cons.prems(1)[of x] by force
  have "m s = Some (x, q)" using assms(2)[OF Cons.prems(2)] q(1) by simp
  moreover obtain q' where "read_times (length xs) m q = Some (xs, q')" "skip_ws q' = skip_ws rest"
    using Cons.IH[OF Cons.prems(1) q(2)] by auto
  ultimately show ?case by simp
qed simp

lemma nl_space: "nl @ r = [] \<or> is_space (hd (nl @ r))" "nl @ r = [] \<or> \<not> is_digit (hd (nl @ r))"
  using space_not_digit[of "CHR 0x0A"] by (simp_all add: nl_def)

lemma read_table_print:
  assumes "table_ok tab"
  shows "\<exists>q. read_table (print_table tab @ r) = Some (tab, q) \<and> skip_ws q = skip_ws r"
proof -
  have w: "word_ok (tm_name tab)" and n: "length (tm_cols tab) < 18446744073709551616" using assms by (simp_all add: table_ok_def)
  have c: "\<exists>q. read_column (print_column x @ nl @ s) = Some (x, q) \<and> skip_ws q = skip_ws s" if "x \<in> set (tm_cols tab)" for x s
    using assms that read_column_print[OF _ nl_space(1)] by (auto simp: table_ok_def list_all_iff)
  obtain q where q: "read_times (length (tm_cols tab)) read_column (nl @ concat (map (\<lambda>x. print_column x @ nl) (tm_cols tab)) @ r) =
      Some (tm_cols tab, q)" "skip_ws q = skip_ws r"
    using read_times_print[where m = read_column and print = print_column and xs = "tm_cols tab" and rest = r, OF c reads_cong(3)]
    by (metis skip_ws_nl)
  show ?thesis
    using q extract_word_print[OF w nl_space(1)] extract_size_print[OF n nl_space(2)]
      reads_cong(2)[OF skip_ws_nl, of "nat_to_string (length (tm_cols tab)) @ nl @ concat (map (\<lambda>x. print_column x @ nl) (tm_cols tab)) @ r"]
    by (simp add: read_table_def print_table_def)
qed

lemma put_all_sorted:
  assumes "map_sorted (m @ tabs)" "\<forall>(k, tab) \<in> set tabs. key tab = k"
  shows "fold (\<lambda>tab. map_put (key tab) tab) (map snd tabs) m = m @ tabs"
  using assms
proof (induction tabs arbitrary: m)
  case (Cons e tabs)
  then have "map_put (key (snd e)) (snd e) m = m @ [e]"
    by (cases e) (auto simp: sorted_wrt_append intro!: map_put_last)
  then show ?case using Cons.IH[of "m @ [e]"] Cons.prems by simp
qed simp

lemma read_print_db:
  assumes "db_ok db" "dm_tabs old = []"
  shows "\<exists>q. read_db old (print_db db @ r) = Some (db, q) \<and> skip_ws q = skip_ws r"
proof -
  have w: "word_ok (dm_name db)" and n: "length (dm_tabs db) < 18446744073709551616" and s: "map_sorted (dm_tabs db)"
    and k: "\<forall>(k, tab) \<in> set (dm_tabs db). tm_name tab = k" and ok: "\<forall>tab \<in> snd ` set (dm_tabs db). table_ok tab"
    using assms(1) by (auto simp: db_ok_def)
  have c: "\<exists>q. read_table (print_table x @ nl @ s) = Some (x, q) \<and> skip_ws q = skip_ws s" if "x \<in> set (map snd (dm_tabs db))" for x s
    using read_table_print[of x "nl @ s"] ok that by auto
  obtain q where q: "read_times (length (map snd (dm_tabs db))) read_table
      (nl @ concat (map (\<lambda>x. print_table x @ nl) (map snd (dm_tabs db))) @ r) = Some (map snd (dm_tabs db), q)" "skip_ws q = skip_ws r"
    using read_times_print[where m = read_table and print = print_table and xs = "map snd (dm_tabs db)" and rest = r, OF c reads_cong(4)]
    by (metis skip_ws_nl)
  have e: "fold (\<lambda>tab. map_put (tm_name tab) tab) (map snd (dm_tabs db)) [] = dm_tabs db"
    using put_all_sorted[of "[]" "dm_tabs db" tm_name] s k by simp
  show ?thesis
    using q e assms(2) extract_word_print[OF w nl_space(1)] extract_size_print[OF n nl_space(2)]
      reads_cong(2)[OF skip_ws_nl, of "nat_to_string (length (dm_tabs db)) @ nl @ concat (map (\<lambda>e. print_table (snd e) @ nl) (dm_tabs db)) @ r"]
    by (simp add: read_db_def print_db_def comp_def)
qed

end
