(* ===== verification/SmManager.thy ===== *)
theory SmManager
  imports SmMeta RecordStore IndexFile
begin

text \<open>
  \<open>system_management/sm_manager.{h,cpp}\<close>: databases as directories, the open database with its
  catalog, and the handles of its record files and indexes. The state extends that of the page
  file layer, so the operations of the lower components run on it as they are. Directories are
  absolute paths; the names of databases and tables are identifiers (the lexer admits no others),
  so a path is its text. \<open>system("rm -rf ...")\<close> removes the directory and all below it.
\<close>

section \<open>State\<close>

record sm_state = pf_state +
  dirs :: "string list"
  base_dir :: string
  current_db_name :: string
  db :: DB_Metadata
  fhs :: "(string \<times> RM_FileHandle) list"
  ihs :: "(string \<times> IndexHandle) list"
  metadata_sem :: nat
  file_handles_sem :: nat
  index_handles_sem :: nat

type_synonym ('z, 'a) sm_prog = "('z sm_state_scheme, stop, 'a) prog"

definition sem_wait_meta :: "('z, unit) sm_prog" where
  "sem_wait_meta = andThen (gets metadata_sem) (\<lambda>v.
     if v = 0 then throw Blocked else modify (\<lambda>s. s\<lparr>metadata_sem := v - 1\<rparr>))"

definition sem_post_meta :: "('z, unit) sm_prog" where
  "sem_post_meta = modify (\<lambda>s. s\<lparr>metadata_sem := metadata_sem s + 1\<rparr>)"

definition sem_wait_fhs :: "('z, unit) sm_prog" where
  "sem_wait_fhs = andThen (gets file_handles_sem) (\<lambda>v.
     if v = 0 then throw Blocked else modify (\<lambda>s. s\<lparr>file_handles_sem := v - 1\<rparr>))"

definition sem_post_fhs :: "('z, unit) sm_prog" where
  "sem_post_fhs = modify (\<lambda>s. s\<lparr>file_handles_sem := file_handles_sem s + 1\<rparr>)"

definition sem_wait_ihs :: "('z, unit) sm_prog" where
  "sem_wait_ihs = andThen (gets index_handles_sem) (\<lambda>v.
     if v = 0 then throw Blocked else modify (\<lambda>s. s\<lparr>index_handles_sem := v - 1\<rparr>))"

definition sem_post_ihs :: "('z, unit) sm_prog" where
  "sem_post_ihs = modify (\<lambda>s. s\<lparr>index_handles_sem := index_handles_sem s + 1\<rparr>)"

text \<open>\<open>if (b) { sem_post(metadata_sem); throw e; }\<close>, and errors of the lookups.\<close>

definition fail_meta_if :: "bool \<Rightarrow> db_error \<Rightarrow> ('z, unit) sm_prog" where
  "fail_meta_if b e = (if b then andThen sem_post_meta (\<lambda>_. throw (Throw e)) else ret ())"

definition from_sum :: "db_error + 'a \<Rightarrow> ('s, stop, 'a) prog" where
  "from_sum r = (case r of Inl e \<Rightarrow> throw (Throw e) | Inr x \<Rightarrow> ret x)"

text \<open>\<open>m.at(key)\<close>\<close>

definition map_at :: "('s \<Rightarrow> ('k \<times> 'v) list) \<Rightarrow> 'k \<Rightarrow> ('s, stop, 'v) prog" where
  "map_at m k = andThen (gets m) (\<lambda>m. case map_of m k of None \<Rightarrow> throw OutOfRange | Some v \<Rightarrow> ret v)"

section \<open>Directories and plain files\<close>

definition DB_META_NAME :: string where
  "DB_META_NAME = ''db.meta''"

definition DB_LIST_FILE :: string where
  "DB_LIST_FILE = ''databases.list''"

text \<open>The working directory is kept with a slash at its end, \<open>getcwd\<close> gives it without.\<close>

definition getcwd :: "'z os_state_scheme \<Rightarrow> string" where
  "getcwd s = (if cwd s = ''/'' then ''/'' else butlast (cwd s))"

definition parent_path :: "string \<Rightarrow> string" where
  "parent_path p = rev (tl (dropWhile (\<lambda>c. c \<noteq> CHR ''/'') (rev p)))"

definition sys_mkdir :: "string \<Rightarrow> 'z sm_state_scheme \<Rightarrow> int \<times> 'z sm_state_scheme" where
  "sys_mkdir path s =
     (if path \<in> set (dirs s) \<or> files s path \<noteq> None \<or> parent_path path \<notin> set (dirs s) then (-1, s)
      else (0, s\<lparr>dirs := path # dirs s\<rparr>))"

definition sys_chdir :: "string \<Rightarrow> 'z sm_state_scheme \<Rightarrow> int \<times> 'z sm_state_scheme" where
  "sys_chdir path s = (if path \<in> set (dirs s) then (0, s\<lparr>cwd := path @ ''/''\<rparr>) else (-1, s))"

text \<open>\<open>chdir("../..")\<close> fails when the working directory has been removed.\<close>

definition up_two :: "string \<Rightarrow> string" where
  "up_two c = parent_path (parent_path (butlast c))"

definition sys_chdir_up :: "'z sm_state_scheme \<Rightarrow> int \<times> 'z sm_state_scheme" where
  "sys_chdir_up s = (if getcwd s \<noteq> ''/'' \<and> getcwd s \<notin> set (dirs s) then (-1, s)
     else (0, s\<lparr>cwd := up_two (cwd s) @ ''/''\<rparr>))"

definition below :: "string \<Rightarrow> string \<Rightarrow> bool" where
  "below dir path \<longleftrightarrow> take (length dir + 1) path = dir @ ''/''"

definition rm_rf :: "string \<Rightarrow> 'z sm_state_scheme \<Rightarrow> 'z sm_state_scheme" where
  "rm_rf path s = s\<lparr>dirs := filter (\<lambda>d. d \<noteq> path \<and> \<not> below path d) (dirs s),
     files := (\<lambda>f. if f = path \<or> below path f then None else files s f)\<rparr>"

definition text_bytes :: "string \<Rightarrow> byte list" where
  "text_bytes = map (\<lambda>c. word_of_nat (of_char c))"

definition bytes_text :: "byte list \<Rightarrow> string" where
  "bytes_text = map (\<lambda>b. char_of (unat b))"

text \<open>\<open>std::ofstream ofs(path)\<close>, the text written to it, and its destructor.\<close>

definition write_text :: "string \<Rightarrow> string \<Rightarrow> ('z, unit) sm_prog" where
  "write_text path txt = modify (\<lambda>s. s\<lparr>files := (files s)(path \<mapsto> text_bytes txt)\<rparr>)"

text \<open>\<open>std::ifstream ifs(path)\<close> and reading all of it: \<open>None\<close> when it does not open.\<close>

definition read_text :: "string \<Rightarrow> 'z os_state_scheme \<Rightarrow> string option" where
  "read_text path s = map_option bytes_text (files s path)"

text \<open>The lines \<open>std::getline\<close> yields until it fails.\<close>

function getlines :: "string \<Rightarrow> string list" where
  "getlines s = (if s = [] then [] else
     takeWhile (\<lambda>c. c \<noteq> CHR 0x0A) s # getlines (tl (dropWhile (\<lambda>c. c \<noteq> CHR 0x0A) s)))"
  by pat_completeness auto
termination
proof (relation "measure length", goal_cases)
  case (2 s)
  have "length (dropWhile (\<lambda>c. c \<noteq> CHR 0x0A) s) \<le> length s" by (rule length_dropWhile_le)
  moreover have "0 < length s" using 2 by simp
  ultimately show ?case unfolding in_measure length_tl by linarith
qed simp

declare getlines.simps [simp del]

section \<open>Databases\<close>

definition initialize_base_dir :: "('z, unit) sm_prog" where
  "initialize_base_dir = modify (\<lambda>s. if base_dir s = [] \<and> length (getcwd s) < 1024
     then s\<lparr>base_dir := getcwd s\<rparr> else s)"

definition databases_dir :: "'z sm_state_scheme \<Rightarrow> string" where
  "databases_dir s = base_dir s @ ''/databases''"

definition list_file :: "'z sm_state_scheme \<Rightarrow> string" where
  "list_file s = base_dir s @ ''/'' @ DB_LIST_FILE"

definition is_dir :: "string \<Rightarrow> ('z, bool) sm_prog" where
  "is_dir db_name = andThen initialize_base_dir (\<lambda>_.
     gets (\<lambda>s. databases_dir s @ ''/'' @ db_name \<in> set (dirs s)))"

definition get_db_path :: "string \<Rightarrow> ('z, string) sm_prog" where
  "get_db_path db_name = andThen initialize_base_dir (\<lambda>_. gets (\<lambda>s. databases_dir s @ ''/'' @ db_name))"

definition read_list :: "(string \<Rightarrow> bool) \<Rightarrow> 'z sm_state_scheme \<Rightarrow> string list" where
  "read_list P s = (case read_text (list_file s) s of None \<Rightarrow> []
     | Some txt \<Rightarrow> filter (\<lambda>l. l \<noteq> [] \<and> P l) (getlines txt))"

definition write_list :: "string list \<Rightarrow> ('z, unit) sm_prog" where
  "write_list names = andThen (gets list_file) (\<lambda>f. write_text f (concat (map (\<lambda>name. name @ nl) names)))"

definition register_database :: "string \<Rightarrow> ('z, unit) sm_prog" where
  "register_database db_name =
     andThen initialize_base_dir (\<lambda>_.
     andThen (gets databases_dir) (\<lambda>db_dir.
     andThen (modify (\<lambda>s. snd (sys_mkdir db_dir s))) (\<lambda>_.
     andThen sem_wait_meta (\<lambda>_.
     andThen (gets (read_list (\<lambda>_. True))) (\<lambda>db_list.
     andThen (write_list (if db_name \<in> set db_list then db_list else db_list @ [db_name])) (\<lambda>_.
     sem_post_meta))))))"

definition unregister_database :: "string \<Rightarrow> ('z, unit) sm_prog" where
  "unregister_database db_name =
     andThen initialize_base_dir (\<lambda>_.
     andThen sem_wait_meta (\<lambda>_.
     andThen (gets (read_list (\<lambda>name. name \<noteq> db_name))) (\<lambda>db_list.
     andThen (write_list db_list) (\<lambda>_.
     sem_post_meta))))"

definition list_databases :: "('z, string list) sm_prog" where
  "list_databases = andThen initialize_base_dir (\<lambda>_. gets (read_list (\<lambda>_. True)))"

definition get_current_db :: "('z, string) sm_prog" where
  "get_current_db = andThen (gets current_db_name) (\<lambda>name.
     if name = [] then throw (Throw (InternalError ''No database is currently open'')) else ret name)"

definition create_db :: "string \<Rightarrow> ('z, unit) sm_prog" where
  "create_db db_name =
     andThen initialize_base_dir (\<lambda>_.
     andThen (is_dir db_name) (\<lambda>there.
     andThen (ensure (\<not> there) (Throw (DatabaseExistsError db_name))) (\<lambda>_.
     andThen (gets databases_dir) (\<lambda>db_dir.
     andThen (modify (\<lambda>s. snd (sys_mkdir db_dir s))) (\<lambda>_.
     andThen (get_db_path db_name) (\<lambda>db_path.
     andThen (\<lambda>s. case sys_mkdir db_path s of (r, t) \<Rightarrow> (Inr r, t)) (\<lambda>r.
     andThen (ensure (0 \<le> r) (Throw UnixError)) (\<lambda>_.
     andThen (write_text (db_path @ ''/'' @ DB_META_NAME) (print_db \<lparr>dm_name = db_name, dm_tabs = []\<rparr>)) (\<lambda>_.
     register_database db_name)))))))))"

definition drop_db :: "string \<Rightarrow> ('z, unit) sm_prog" where
  "drop_db db_name =
     andThen initialize_base_dir (\<lambda>_.
     andThen (is_dir db_name) (\<lambda>there.
     andThen (ensure there (Throw (DatabaseNotFoundError db_name))) (\<lambda>_.
     andThen (gets current_db_name) (\<lambda>current.
     andThen (ensure (db_name \<noteq> current)
       (Throw (InternalError (''Cannot drop currently open database '' @ [CHR 0x27] @ db_name @ [CHR 0x27] @ ''. Close it first.'')))) (\<lambda>_.
     andThen (get_db_path db_name) (\<lambda>db_path.
     andThen (modify (rm_rf db_path)) (\<lambda>_.
     unregister_database db_name)))))))"

section \<open>Opening and closing\<close>

definition put_fh :: "string \<Rightarrow> RM_FileHandle \<Rightarrow> ('z, unit) sm_prog" where
  "put_fh name fh = modify (\<lambda>s. s\<lparr>fhs := map_put name fh (fhs s)\<rparr>)"

definition put_ih :: "string \<Rightarrow> IndexHandle \<Rightarrow> ('z, unit) sm_prog" where
  "put_ih name ih = modify (\<lambda>s. s\<lparr>ihs := map_put name ih (ihs s)\<rparr>)"

definition store_new_ih :: "string \<Rightarrow> IndexHandle \<Rightarrow> ('z, unit) sm_prog" where
  "store_new_ih name ih =
     andThen (gets (\<lambda>s. map_of (ihs s) name = None)) (\<lambda>fresh.
     andThen (ensure fresh AssertFail) (\<lambda>_. put_ih name ih))"

definition open_column_index :: "Table_Metadata \<Rightarrow> nat \<Rightarrow> ('z, unit) sm_prog" where
  "open_column_index tab i = whenP (cm_index (tm_cols tab ! i))
     (andThen (gets (\<lambda>s. map_of (ihs s) (get_index_name (tm_name tab) (int i)) = None)) (\<lambda>fresh.
      andThen (ensure fresh AssertFail) (\<lambda>_.
      andThen (open_index (tm_name tab) (int i)) (\<lambda>ih.
      put_ih (get_index_name (tm_name tab) (int i)) ih))))"

definition open_table :: "Table_Metadata \<Rightarrow> ('z, unit) sm_prog" where
  "open_table tab =
     andThen (RM_open_file (tm_name tab)) (\<lambda>fh.
     andThen (put_fh (tm_name tab) fh) (\<lambda>_.
     forEach [0..<length (tm_cols tab)] (open_column_index tab)))"

definition close_db :: "('z, unit) sm_prog" where
  "close_db =
     andThen sem_wait_meta (\<lambda>_.
     andThen (gets current_db_name) (\<lambda>name.
     andThen (fail_meta_if (name = []) (InternalError ''No database is currently open'')) (\<lambda>_.
     andThen (gets (\<lambda>s. (resolve s DB_META_NAME, print_db (db s)))) (\<lambda>(path, txt).
     andThen (write_text path txt) (\<lambda>_.
     andThen (modify (\<lambda>s. s\<lparr>db := \<lparr>dm_name = [], dm_tabs = []\<rparr>\<rparr>)) (\<lambda>_.
     andThen sem_post_meta (\<lambda>_.
     andThen sem_wait_fhs (\<lambda>_.
     andThen (gets fhs) (\<lambda>handles.
     andThen (forEach handles (\<lambda>e. RM_close_file (snd e))) (\<lambda>_.
     andThen (modify (\<lambda>s. s\<lparr>fhs := []\<rparr>)) (\<lambda>_.
     andThen sem_post_fhs (\<lambda>_.
     andThen sem_wait_ihs (\<lambda>_.
     andThen (gets ihs) (\<lambda>handles.
     andThen (forEach handles (\<lambda>e. close_index (snd e))) (\<lambda>_.
     andThen (modify (\<lambda>s. s\<lparr>ihs := []\<rparr>)) (\<lambda>_.
     andThen sem_post_ihs (\<lambda>_.
     andThen sem_wait_meta (\<lambda>_.
     andThen (\<lambda>s. case sys_chdir_up s of (r, t) \<Rightarrow> (Inr r, t)) (\<lambda>r.
     andThen (fail_meta_if (r < 0) UnixError) (\<lambda>_.
     andThen (modify (\<lambda>s. s\<lparr>current_db_name := []\<rparr>)) (\<lambda>_.
     sem_post_meta)))))))))))))))))))))"

definition load_meta :: "('z, unit) sm_prog" where
  "load_meta =
     andThen (gets (\<lambda>s. case read_text (resolve s DB_META_NAME) s of None \<Rightarrow> None | Some txt \<Rightarrow> read_db (db s) txt)) (\<lambda>r.
     case r of None \<Rightarrow> throw Undefined | Some (d, _) \<Rightarrow> modify (\<lambda>s. s\<lparr>db := d\<rparr>))"

definition open_db :: "string \<Rightarrow> ('z, unit) sm_prog" where
  "open_db db_name =
     andThen initialize_base_dir (\<lambda>_.
     andThen (is_dir db_name) (\<lambda>there.
     andThen (ensure there (Throw (DatabaseNotFoundError db_name))) (\<lambda>_.
     andThen sem_wait_meta (\<lambda>_.
     andThen (gets current_db_name) (\<lambda>current.
     andThen (whenP (current \<noteq> [])
       (andThen sem_post_meta (\<lambda>_. andThen close_db (\<lambda>_. sem_wait_meta)))) (\<lambda>_.
     andThen (get_db_path db_name) (\<lambda>db_path.
     andThen (\<lambda>s. case sys_chdir db_path s of (r, t) \<Rightarrow> (Inr r, t)) (\<lambda>r.
     andThen (fail_meta_if (r < 0) UnixError) (\<lambda>_.
     andThen load_meta (\<lambda>_.
     andThen (modify (\<lambda>s. s\<lparr>current_db_name := db_name\<rparr>)) (\<lambda>_.
     andThen sem_post_meta (\<lambda>_.
     andThen sem_wait_fhs (\<lambda>_.
     andThen sem_wait_ihs (\<lambda>_.
     andThen (gets (\<lambda>s. map snd (dm_tabs (db s)))) (\<lambda>tabs.
     andThen (forEach tabs open_table) (\<lambda>_.
     andThen sem_post_ihs (\<lambda>_.
     sem_post_fhs)))))))))))))))))"

end
