(* ===== verification/SmTables.thy ===== *)
theory SmTables
  imports SmManager
begin

text \<open>
  The table and index statements of \<open>sm_manager.cpp\<close>: \<open>show_tables\<close>, \<open>desc_table\<close>,
  \<open>create_table\<close>, \<open>drop_table\<close>, \<open>create_index\<close>, \<open>drop_index\<close>, on the open database. A reference or
  iterator into the catalog that the source keeps across calls is the name (and column number)
  it was found by, and is looked up again where the source uses it.
\<close>

section \<open>Output structures (sm_defs.h)\<close>

type_synonym ShowTablesResult = "string list"

record ColumnDescription =
  field_name :: string
  type_name :: string
  has_index :: string

record DescTableResult =
  dt_table_name :: string
  dt_columns :: "ColumnDescription list"

definition show_tables :: "('z, ShowTablesResult) sm_prog" where
  "show_tables = gets (\<lambda>s. map (\<lambda>e. tm_name (snd e)) (dm_tabs (db s)))"

definition desc_table :: "string \<Rightarrow> ('z, DescTableResult) sm_prog" where
  "desc_table tab_name =
     andThen (gets db) (\<lambda>db.
     andThen (from_sum (get_table db tab_name)) (\<lambda>tab.
     ret \<lparr>dt_table_name = tab_name, dt_columns = map (\<lambda>col.
       \<lparr>field_name = cm_name col, type_name = ColumnType2str (cm_type col),
        has_index = (if cm_index col then ''YES'' else ''NO'')\<rparr>) (tm_cols tab)\<rparr>))"

section \<open>Tables\<close>

record ColumnInfo =
  ci_name :: string
  ci_type :: ColumnType
  ci_len :: int

definition upd_db :: "(DB_Metadata \<Rightarrow> DB_Metadata) \<Rightarrow> ('z, unit) sm_prog" where
  "upd_db f = modify (\<lambda>s. s\<lparr>db := f (db s)\<rparr>)"

definition set_table :: "string \<Rightarrow> Table_Metadata \<Rightarrow> DB_Metadata \<Rightarrow> DB_Metadata" where
  "set_table tab_name tab d = d\<lparr>dm_tabs := map_put tab_name tab (dm_tabs d)\<rparr>"

text \<open>The columns with running offsets, and the record size; the sum is computed in \<open>int\<close>.\<close>

fun make_columns :: "string \<Rightarrow> int \<Rightarrow> ColumnInfo list \<Rightarrow> stop + (Column_Metadata list \<times> int)" where
  "make_columns tab_name curr_offset [] = Inr ([], curr_offset)"
| "make_columns tab_name curr_offset (c # cs) =
     (if \<not> int_ok (curr_offset + ci_len c) then Inl Undefined
      else (case make_columns tab_name (curr_offset + ci_len c) cs of
          Inl e \<Rightarrow> Inl e
        | Inr (cols, rec_size) \<Rightarrow> Inr (\<lparr>cm_tab_name = tab_name, cm_name = ci_name c, cm_type = ci_type c,
            cm_len = ci_len c, cm_offset = curr_offset, cm_index = False\<rparr> # cols, rec_size)))"

definition create_table :: "string \<Rightarrow> ColumnInfo list \<Rightarrow> ('z, unit) sm_prog" where
  "create_table tab_name col_defs =
     andThen sem_wait_meta (\<lambda>_.
     andThen (gets (\<lambda>s. is_table (db s) tab_name)) (\<lambda>there.
     andThen (fail_meta_if there (TableExistsError tab_name)) (\<lambda>_.
     andThen (\<lambda>s. (make_columns tab_name 0 col_defs, s)) (\<lambda>(cols, record_size).
     andThen (RM_create_file tab_name record_size) (\<lambda>_.
     andThen (upd_db (set_table tab_name \<lparr>tm_name = tab_name, tm_cols = cols\<rparr>)) (\<lambda>_.
     andThen sem_post_meta (\<lambda>_.
     andThen sem_wait_fhs (\<lambda>_.
     andThen (RM_open_file tab_name) (\<lambda>fh.
     andThen (put_fh tab_name fh) (\<lambda>_.
     sem_post_fhs))))))))))"

section \<open>Indexes\<close>

definition set_index :: "string \<Rightarrow> nat \<Rightarrow> bool \<Rightarrow> DB_Metadata \<Rightarrow> DB_Metadata" where
  "set_index tab_name i b d = (case map_of (dm_tabs d) tab_name of None \<Rightarrow> d
     | Some tab \<Rightarrow> set_table tab_name
         (tab\<lparr>tm_cols := (tm_cols tab)[i := (tm_cols tab ! i)\<lparr>cm_index := b\<rparr>]\<rparr>) d)"

text \<open>
  A method of an index that is not in \<open>ihs\<close> yet: it is created by \<open>create_index\<close> and lost when an
  exception passes. The key is the column's bytes in the record.
\<close>

definition with_index :: "IndexHandle \<Rightarrow> ('z, 'a) ix_prog \<Rightarrow> ('z, 'a \<times> IndexHandle) pf_prog" where
  "with_index ih m = (\<lambda>s. case m (ih, s) of (Inl e, (_, t)) \<Rightarrow> (Inl e, t) | (Inr x, (ih', t)) \<Rightarrow> (Inr (x, ih'), t))"

definition column_key :: "Column_Metadata \<Rightarrow> byte list \<Rightarrow> byte list" where
  "column_key col data = load data (nat (cm_offset col)) (nat (cm_len col))"

fun index_records :: "nat \<Rightarrow> Column_Metadata \<Rightarrow> RM_FileHandle \<Rightarrow> RecordID \<Rightarrow> IndexHandle \<Rightarrow> ('z, IndexHandle) pf_prog" where
  "index_records 0 col fh rid ih = throw NoReturn"
| "index_records (Suc fuel) col fh rid ih =
     (if rm_is_end rid then ret ih
      else
        andThen (get_record fh rid) (\<lambda>rec.
        andThen (with_index ih (insert_entry (column_key col rec) rid)) (\<lambda>(_, ih).
        andThen (rm_next fh rid) (\<lambda>rid.
        index_records fuel col fh rid ih))))"

text \<open>A scan meets each slot of the file at most once.\<close>

definition scan_fuel_rm :: "RM_FileHandle \<Rightarrow> nat" where
  "scan_fuel_rm fh = nat (num_pages (fh_hdr fh)) * nat (num_records_per_page (fh_hdr fh)) + 1"

definition sm_create_index :: "string \<Rightarrow> string \<Rightarrow> ('z, unit) sm_prog" where
  "sm_create_index tab_name col_name =
     andThen sem_wait_meta (\<lambda>_.
     andThen (gets db) (\<lambda>d.
     andThen (from_sum (get_table d tab_name)) (\<lambda>tab.
     andThen (from_sum (get_col tab col_name)) (\<lambda>col_idx.
     let col = tm_cols tab ! col_idx in
     andThen (fail_meta_if (cm_index col) (IndexExistsError tab_name col_name)) (\<lambda>_.
     andThen (create_index tab_name (int col_idx) (cm_type col) (cm_len col)) (\<lambda>_.
     andThen (open_index tab_name (int col_idx)) (\<lambda>ih.
     andThen sem_post_meta (\<lambda>_.
     andThen sem_wait_fhs (\<lambda>_.
     andThen (map_at fhs tab_name) (\<lambda>fh.
     andThen sem_post_fhs (\<lambda>_.
     andThen (RM_Iterator fh) (\<lambda>rid.
     andThen (index_records (scan_fuel_rm fh) col fh rid ih) (\<lambda>ih.
     andThen sem_wait_ihs (\<lambda>_.
     andThen (store_new_ih (get_index_name tab_name (int col_idx)) ih) (\<lambda>_.
     andThen sem_post_ihs (\<lambda>_.
     andThen sem_wait_meta (\<lambda>_.
     andThen (upd_db (set_index tab_name col_idx True)) (\<lambda>_.
     sem_post_meta))))))))))))))))))"

text \<open>\<open>db.tabs[tab_name]\<close> makes an empty table when there is none.\<close>

definition touch_table :: "string \<Rightarrow> DB_Metadata \<Rightarrow> DB_Metadata" where
  "touch_table tab_name d = (if is_table d tab_name then d else set_table tab_name \<lparr>tm_name = [], tm_cols = []\<rparr> d)"

definition drop_index :: "string \<Rightarrow> string \<Rightarrow> ('z, unit) sm_prog" where
  "drop_index tab_name col_name =
     andThen sem_wait_meta (\<lambda>_.
     andThen (upd_db (touch_table tab_name)) (\<lambda>_.
     andThen (gets db) (\<lambda>d.
     andThen (from_sum (get_table d tab_name)) (\<lambda>tab.
     andThen (from_sum (get_col tab col_name)) (\<lambda>col_idx.
     andThen (fail_meta_if (\<not> cm_index (tm_cols tab ! col_idx)) (IndexNotFoundError tab_name col_name)) (\<lambda>_.
     let index_name = get_index_name tab_name (int col_idx) in
     andThen sem_post_meta (\<lambda>_.
     andThen sem_wait_ihs (\<lambda>_.
     andThen (map_at ihs index_name) (\<lambda>ih.
     andThen (close_index ih) (\<lambda>_.
     andThen (destroy_index tab_name (int col_idx)) (\<lambda>_.
     andThen (modify (\<lambda>s. s\<lparr>ihs := map_erase index_name (ihs s)\<rparr>)) (\<lambda>_.
     andThen sem_post_ihs (\<lambda>_.
     andThen sem_wait_meta (\<lambda>_.
     andThen (upd_db (set_index tab_name col_idx False)) (\<lambda>_.
     sem_post_meta)))))))))))))))"

text \<open>One turn of the loop of \<open>drop_table\<close> over the columns of the table the catalog now has.\<close>

definition drop_column_index :: "string \<Rightarrow> nat \<Rightarrow> ('z, unit) sm_prog" where
  "drop_column_index tab_name i =
     andThen (gets db) (\<lambda>d.
     andThen (from_sum (get_table d tab_name)) (\<lambda>tab.
     whenP (cm_index (tm_cols tab ! i)) (drop_index tab_name (cm_name (tm_cols tab ! i)))))"

definition drop_table :: "string \<Rightarrow> ('z, unit) sm_prog" where
  "drop_table tab_name =
     andThen sem_wait_meta (\<lambda>_.
     andThen (gets db) (\<lambda>d.
     andThen (from_sum (get_table d tab_name)) (\<lambda>tab.
     andThen sem_post_meta (\<lambda>_.
     andThen sem_wait_fhs (\<lambda>_.
     andThen (map_at fhs tab_name) (\<lambda>fh.
     andThen (RM_close_file fh) (\<lambda>_.
     andThen (RM_destroy_file tab_name) (\<lambda>_.
     andThen (modify (\<lambda>s. s\<lparr>fhs := map_erase tab_name (fhs s)\<rparr>)) (\<lambda>_.
     andThen sem_post_fhs (\<lambda>_.
     andThen (forEach [0..<length (tm_cols tab)] (drop_column_index tab_name)) (\<lambda>_.
     andThen sem_wait_meta (\<lambda>_.
     andThen (upd_db (\<lambda>d. d\<lparr>dm_tabs := map_erase tab_name (dm_tabs d)\<rparr>)) (\<lambda>_.
     sem_post_meta)))))))))))))"

end
