(* ===== verification/QlValues.thy ===== *)
theory QlValues
  imports SmTables
begin

text \<open>
  The data of the query layer: \<open>TabCol\<close>, \<open>Value\<close>, \<open>Condition\<close>, \<open>SetClause\<close> of
  \<open>query_language/ql_manager.h\<close> and the result structures of \<open>ql_defs.h\<close>; the evaluation of a
  condition on a record (\<open>ql_node.cpp\<close>) and the text a result shows for a stored value. A
  \<open>float\<close> is its four bytes.
\<close>

section \<open>Values\<close>

datatype TabCol = TabCol (tc_tab: string) (tc_col: string)

datatype literal = IntVal int | FloatVal "byte list" | StrVal string | DateTimeVal DateTime

record Value =
  v_lit :: literal
  v_raw :: "byte list option"

fun literal_type :: "literal \<Rightarrow> ColumnType" where
  "literal_type (IntVal _) = TYPE_INT"
| "literal_type (FloatVal _) = TYPE_FLOAT"
| "literal_type (StrVal _) = TYPE_STRING"
| "literal_type (DateTimeVal _) = TYPE_DATETIME"

definition v_type :: "Value \<Rightarrow> ColumnType" where
  "v_type v = literal_type (v_lit v)"

definition fresh_value :: "literal \<Rightarrow> Value" where
  "fresh_value l = \<lparr>v_lit = l, v_raw = None\<rparr>"

fun raw_bytes :: "int \<Rightarrow> literal \<Rightarrow> stop + byte list" where
  "raw_bytes len (IntVal i) = (if len = 4 then Inr (int_bytes i) else Inl AssertFail)"
| "raw_bytes len (FloatVal f) = (if len = 4 then Inr f else Inl AssertFail)"
| "raw_bytes len (StrVal w) = (if len < int (length w) then Inl (Throw StringOverflowError)
     else Inr (text_bytes w @ replicate (nat len - length w) 0))"
| "raw_bytes len (DateTimeVal d) = (if len = 24 then Inr (datetime_bytes d) else Inl AssertFail)"

definition init_raw :: "int \<Rightarrow> Value \<Rightarrow> stop + Value" where
  "init_raw len v = (if v_raw v \<noteq> None then Inl AssertFail
     else if len < 0 then Inl BadLength
     else (case raw_bytes len (v_lit v) of Inl e \<Rightarrow> Inl e | Inr b \<Rightarrow> Inr (v\<lparr>v_raw := Some b\<rparr>)))"

datatype CompOp = OP_EQ | OP_NE | OP_LT | OP_GT | OP_LE | OP_GE

record Condition =
  lhs_col :: TabCol
  cond_op :: CompOp
  is_rhs_val :: bool
  rhs_col :: TabCol
  rhs_val :: Value

record SetClause =
  set_lhs :: TabCol
  set_rhs :: Value

section \<open>Results\<close>

record SelectResult =
  column_names :: "string list"
  result_rows :: "string list list"

record InsertResult =
  ir_table :: string
  ir_success :: bool
  ir_message :: string

record AffectedResult =
  ar_table :: string
  affected_rows :: nat
  ar_success :: bool
  ar_message :: string

section \<open>Stored values\<close>

text \<open>Bytes up to the first zero, as \<open>std::string(buf, len)\<close> cut at \<open>strlen\<close>.\<close>

definition stored_string :: "byte list \<Rightarrow> string" where
  "stored_string b = bytes_text (takeWhile (\<lambda>x. x \<noteq> 0) b)"

definition column_literal :: "Column_Metadata \<Rightarrow> byte list \<Rightarrow> literal" where
  "column_literal col data = (let b = drop (nat (cm_offset col)) data in
     case cm_type col of
       TYPE_INT \<Rightarrow> IntVal (load_int b 0)
     | TYPE_FLOAT \<Rightarrow> FloatVal (take 4 b)
     | TYPE_STRING \<Rightarrow> StrVal (stored_string (take (nat (cm_len col)) b))
     | TYPE_DATETIME \<Rightarrow> DateTimeVal (datetime_of_bytes b))"

text \<open>\<open>std::to_string(float)\<close>: \<open>%f\<close>, six decimals, the exact value rounded to the nearest, ties to even.\<close>

definition pad_six :: "nat \<Rightarrow> string" where
  "pad_six n = (let d = nat_to_string n in replicate (6 - length d) (CHR ''0'') @ d)"

definition round_div :: "nat \<Rightarrow> nat \<Rightarrow> nat" where
  "round_div x d = (let q = x div d; r = x mod d in if d < 2 * r \<or> (2 * r = d \<and> odd q) then q + 1 else q)"

definition float_to_string :: "byte list \<Rightarrow> string" where
  "float_to_string b =
     (let w = nat (float_bits b); sign = (if 2147483648 \<le> w then ''-'' else []);
          e = (w div 8388608) mod 256; m = w mod 8388608;
          mant = (if e = 0 then m else m + 8388608); e1 = (if e = 0 then 1 else e);
          scaled = (if 150 \<le> e1 then mant * 1000000 * 2 ^ (e1 - 150) else round_div (mant * 1000000) (2 ^ (150 - e1)))
      in if e = 255 then sign @ (if m = 0 then ''inf'' else ''nan'')
         else sign @ nat_to_string (scaled div 1000000) @ ''.'' @ pad_six (scaled mod 1000000))"

text \<open>The text \<open>select_from\<close> shows.\<close>

fun literal_text :: "literal \<Rightarrow> string" where
  "literal_text (IntVal i) = int_to_string i"
| "literal_text (FloatVal f) = float_to_string f"
| "literal_text (StrVal w) = w"
| "literal_text (DateTimeVal d) = DTtoString d"

section \<open>Columns of a record\<close>

definition ql_get_col :: "Column_Metadata list \<Rightarrow> TabCol \<Rightarrow> stop + nat" where
  "ql_get_col rec_cols target =
     (let pos = length (takeWhile (\<lambda>c. \<not> (cm_tab_name c = tc_tab target \<and> cm_name c = tc_col target)) rec_cols)
      in if pos = length rec_cols then Inl (Throw (ColumnNotFoundError (tc_tab target @ ''.'' @ tc_col target)))
         else Inr pos)"

text \<open>\<open>rec2dict\<close>: the values of a record by column, with their raw bytes.\<close>

fun rec2dict :: "Column_Metadata list \<Rightarrow> byte list \<Rightarrow> (TabCol \<rightharpoonup> Value) \<Rightarrow> stop + (TabCol \<rightharpoonup> Value)" where
  "rec2dict [] data dict = Inr dict"
| "rec2dict (col # cols) data dict =
     (let key = TabCol (cm_tab_name col) (cm_name col) in
      if dict key \<noteq> None then Inl AssertFail
      else (case init_raw (cm_len col) (fresh_value (column_literal col data)) of
          Inl e \<Rightarrow> Inl e
        | Inr val \<Rightarrow> rec2dict cols data (dict(key \<mapsto> val))))"

section \<open>Conditions\<close>

fun test_op :: "CompOp \<Rightarrow> int \<Rightarrow> bool" where
  "test_op OP_EQ cmp \<longleftrightarrow> cmp = 0"
| "test_op OP_NE cmp \<longleftrightarrow> cmp \<noteq> 0"
| "test_op OP_LT cmp \<longleftrightarrow> cmp < 0"
| "test_op OP_GT cmp \<longleftrightarrow> 0 < cmp"
| "test_op OP_LE cmp \<longleftrightarrow> cmp \<le> 0"
| "test_op OP_GE cmp \<longleftrightarrow> 0 \<le> cmp"

text \<open>Type and bytes of the right-hand side; a value without raw bytes is a null pointer.\<close>

definition rhs_operand :: "Column_Metadata list \<Rightarrow> Condition \<Rightarrow> byte list \<Rightarrow> stop + ColumnType \<times> byte list" where
  "rhs_operand rec_cols cond data =
     (if is_rhs_val cond then
        (case v_raw (rhs_val cond) of None \<Rightarrow> Inl Undefined | Some raw \<Rightarrow> Inr (v_type (rhs_val cond), raw))
      else (case ql_get_col rec_cols (rhs_col cond) of Inl e \<Rightarrow> Inl e
        | Inr i \<Rightarrow> Inr (cm_type (rec_cols ! i), drop (nat (cm_offset (rec_cols ! i))) data)))"

text \<open>The bytes \<open>compare_keys\<close> reads of each operand; a shorter buffer is overrun.\<close>

definition key_size :: "ColumnType \<Rightarrow> int \<Rightarrow> nat" where
  "key_size type len = (case type of TYPE_INT \<Rightarrow> 4 | TYPE_FLOAT \<Rightarrow> 4 | TYPE_STRING \<Rightarrow> nat len | TYPE_DATETIME \<Rightarrow> 24)"

definition eval_cond :: "Column_Metadata list \<Rightarrow> Condition \<Rightarrow> byte list \<Rightarrow> stop + bool" where
  "eval_cond rec_cols cond data =
     (case ql_get_col rec_cols (lhs_col cond) of Inl e \<Rightarrow> Inl e
      | Inr i \<Rightarrow> let lhs_col = rec_cols ! i; lhs = drop (nat (cm_offset lhs_col)) data in
          (case rhs_operand rec_cols cond data of Inl e \<Rightarrow> Inl e
           | Inr (rhs_type, rhs) \<Rightarrow>
               if rhs_type \<noteq> cm_type lhs_col then Inl AssertFail
               else if length lhs < key_size rhs_type (cm_len lhs_col) \<or> length rhs < key_size rhs_type (cm_len lhs_col)
               then Inl Undefined
               else (case compare_keys lhs rhs rhs_type (nat (cm_len lhs_col)) of
                   Inl e \<Rightarrow> Inl e | Inr cmp \<Rightarrow> Inr (test_op (cond_op cond) cmp))))"

text \<open>\<open>std::all_of\<close>: stops at the first condition that fails.\<close>

fun eval_conds :: "Column_Metadata list \<Rightarrow> Condition list \<Rightarrow> byte list \<Rightarrow> stop + bool" where
  "eval_conds rec_cols [] data = Inr True"
| "eval_conds rec_cols (c # cs) data =
     (case eval_cond rec_cols c data of Inl e \<Rightarrow> Inl e
      | Inr b \<Rightarrow> if b then eval_conds rec_cols cs data else Inr False)"

end
