(* ===== verification/QlNode.thy ===== *)
theory QlNode
  imports QlValues
begin

text \<open>
  \<open>query_language/ql_node.{h,cpp}\<close>: the nodes of a query plan (table scan, join, projection) and
  their iteration. A node is a value that \<open>begin\<close> and \<open>next\<close> return updated. The record file
  and the indexes of a table node are found by name among the open handles, which do not change
  while a statement runs. Every loop takes its turns from \<open>fuel\<close>.
\<close>

section \<open>Nodes\<close>

datatype scan = NoScan | RecScan RecordID | NdxScan string IndexIterator

record TableNode =
  tn_tab_name :: string
  tn_conds :: "Condition list"
  tn_cols :: "Column_Metadata list"
  tn_len :: int
  tn_fed_conds :: "Condition list"
  tn_rid :: RecordID
  tn_scan :: scan

datatype QlNode =
    NTable TableNode
  | NJoin QlNode QlNode int "Column_Metadata list" "TabCol \<rightharpoonup> Value"
  | NProj QlNode "Column_Metadata list" int "nat list"

fun node_len :: "QlNode \<Rightarrow> int" where
  "node_len (NTable t) = tn_len t"
| "node_len (NJoin l r len cols feed) = len"
| "node_len (NProj p cols len idxs) = len"

fun node_cols :: "QlNode \<Rightarrow> Column_Metadata list" where
  "node_cols (NTable t) = tn_cols t"
| "node_cols (NJoin l r len cols feed) = cols"
| "node_cols (NProj p cols len idxs) = cols"

section \<open>Construction\<close>

fun swap_op :: "CompOp \<Rightarrow> CompOp" where
  "swap_op OP_EQ = OP_EQ"
| "swap_op OP_NE = OP_NE"
| "swap_op OP_LT = OP_GT"
| "swap_op OP_GT = OP_LT"
| "swap_op OP_LE = OP_GE"
| "swap_op OP_GE = OP_LE"

text \<open>A condition whose left-hand side is on another table is turned round.\<close>

definition orient_cond :: "string \<Rightarrow> Condition \<Rightarrow> stop + Condition" where
  "orient_cond tab_name cond =
     (if tc_tab (lhs_col cond) = tab_name then Inr cond
      else if \<not> is_rhs_val cond \<and> tc_tab (rhs_col cond) = tab_name
        then Inr (cond\<lparr>lhs_col := rhs_col cond, rhs_col := lhs_col cond, cond_op := swap_op (cond_op cond)\<rparr>)
        else Inl AssertFail)"

fun map_sum_list :: "('a \<Rightarrow> 'e + 'b) \<Rightarrow> 'a list \<Rightarrow> 'e + 'b list" where
  "map_sum_list f [] = Inr []"
| "map_sum_list f (x # xs) = (case f x of Inl e \<Rightarrow> Inl e
     | Inr y \<Rightarrow> (case map_sum_list f xs of Inl e \<Rightarrow> Inl e | Inr ys \<Rightarrow> Inr (y # ys)))"

definition QlNodeTable :: "string \<Rightarrow> Condition list \<Rightarrow> ('z, TableNode) sm_prog" where
  "QlNodeTable tab_name conds =
     andThen (gets db) (\<lambda>d.
     andThen (from_sum (get_table d tab_name)) (\<lambda>tab.
     andThen (map_at fhs tab_name) (\<lambda>_.
     andThen (ensure (tm_cols tab \<noteq> []) Undefined) (\<lambda>_.
     andThen (\<lambda>s. (map_sum_list (orient_cond tab_name) conds, s)) (\<lambda>conds.
     ret \<lparr>tn_tab_name = tab_name, tn_conds = conds, tn_cols = tm_cols tab,
          tn_len = cm_offset (last (tm_cols tab)) + cm_len (last (tm_cols tab)),
          tn_fed_conds = conds, tn_rid = RecordID 0 0, tn_scan = NoScan\<rparr>)))))"

definition QlNodeJoin :: "QlNode \<Rightarrow> QlNode \<Rightarrow> QlNode" where
  "QlNodeJoin l r = NJoin l r (node_len l + node_len r)
     (node_cols l @ map (\<lambda>col. col\<lparr>cm_offset := cm_offset col + node_len l\<rparr>) (node_cols r)) Map.empty"

fun project_cols :: "Column_Metadata list \<Rightarrow> int \<Rightarrow> TabCol list \<Rightarrow> stop + Column_Metadata list \<times> int \<times> nat list" where
  "project_cols prev_cols off [] = Inr ([], off, [])"
| "project_cols prev_cols off (c # cs) =
     (case ql_get_col prev_cols c of Inl e \<Rightarrow> Inl e
      | Inr i \<Rightarrow> (case project_cols prev_cols (off + cm_len (prev_cols ! i)) cs of Inl e \<Rightarrow> Inl e
          | Inr (cols, len, idxs) \<Rightarrow> Inr ((prev_cols ! i)\<lparr>cm_offset := off\<rparr> # cols, len, i # idxs)))"

definition QlNodeProj :: "QlNode \<Rightarrow> TabCol list \<Rightarrow> stop + QlNode" where
  "QlNodeProj prev sel_cols = (case project_cols (node_cols prev) 0 sel_cols of Inl e \<Rightarrow> Inl e
     | Inr (cols, len, idxs) \<Rightarrow> Inr (NProj prev cols len idxs))"

section \<open>Table scans\<close>

text \<open>A method of an open index: what it changes of the handle stays, also when it throws.\<close>

definition on_index :: "string \<Rightarrow> (IndexHandle \<times> 'z sm_state_scheme, stop, 'a) prog \<Rightarrow> ('z, 'a) sm_prog" where
  "on_index name m = (\<lambda>s. case map_of (ihs s) name of None \<Rightarrow> (Inl OutOfRange, s)
     | Some ih \<Rightarrow> (case m (ih, s) of (r, (ih', t)) \<Rightarrow> (r, t\<lparr>ihs := map_put name ih' (ihs t)\<rparr>)))"

definition stopped :: "stop + 'a \<Rightarrow> ('s, stop, 'a) prog" where
  "stopped r = (\<lambda>s. (r, s))"

definition check_runtime_conds :: "TableNode \<Rightarrow> ('s, stop, unit) prog" where
  "check_runtime_conds t = ensure (list_all (\<lambda>c. tc_tab (lhs_col c) = tn_tab_name t \<and>
     (is_rhs_val c \<or> tc_tab (rhs_col c) = tn_tab_name t)) (tn_fed_conds t)) AssertFail"

text \<open>The first condition that compares an indexed column with a value.\<close>

fun find_index :: "Table_Metadata \<Rightarrow> Condition list \<Rightarrow> stop + nat option" where
  "find_index tab [] = Inr None"
| "find_index tab (c # cs) =
     (if is_rhs_val c \<and> cond_op c \<noteq> OP_NE then
        (case get_col tab (tc_col (lhs_col c)) of Inl e \<Rightarrow> Inl (Throw e)
         | Inr i \<Rightarrow> if cm_index (tm_cols tab ! i) then Inr (Some i) else find_index tab cs)
      else find_index tab cs)"

definition index_interval :: "string \<Rightarrow> Condition list \<Rightarrow> ('z, IndexID \<times> IndexID) ix_prog" where
  "index_interval col_name conds =
     andThen leaf_begin (\<lambda>lower.
     andThen leaf_end (\<lambda>upper.
     case find (\<lambda>c. is_rhs_val c \<and> cond_op c \<noteq> OP_NE \<and> tc_col (lhs_col c) = col_name) conds of
       None \<Rightarrow> ret (lower, upper)
     | Some c \<Rightarrow> (case v_raw (rhs_val c) of
           None \<Rightarrow> throw Undefined
         | Some rhs_key \<Rightarrow> (case cond_op c of
               OP_EQ \<Rightarrow> andThen (index_lower_bound rhs_key) (\<lambda>lower.
                 andThen (index_upper_bound rhs_key) (\<lambda>upper. ret (lower, upper)))
             | OP_LT \<Rightarrow> andThen (index_lower_bound rhs_key) (\<lambda>upper. ret (lower, upper))
             | OP_GT \<Rightarrow> andThen (index_upper_bound rhs_key) (\<lambda>lower. ret (lower, upper))
             | OP_LE \<Rightarrow> andThen (index_upper_bound rhs_key) (\<lambda>upper. ret (lower, upper))
             | OP_GE \<Rightarrow> andThen (index_lower_bound rhs_key) (\<lambda>lower. ret (lower, upper))
             | OP_NE \<Rightarrow> throw (Throw (InternalError ''Unexpected op type''))))))"

text \<open>The virtual methods of \<open>RecordIterator\<close>.\<close>

fun scan_is_end :: "scan \<Rightarrow> stop + bool" where
  "scan_is_end NoScan = Inl Undefined"
| "scan_is_end (RecScan rid) = Inr (rm_is_end rid)"
| "scan_is_end (NdxScan name it) = Inr (ix_is_end it)"

fun scan_rid :: "scan \<Rightarrow> ('z, RecordID) sm_prog" where
  "scan_rid NoScan = throw Undefined"
| "scan_rid (RecScan rid) = ret rid"
| "scan_rid (NdxScan name it) = on_index name (ix_get_RecordID it)"

fun scan_next :: "string \<Rightarrow> scan \<Rightarrow> ('z, scan) sm_prog" where
  "scan_next tab_name NoScan = throw Undefined"
| "scan_next tab_name (RecScan rid) =
     andThen (map_at fhs tab_name) (\<lambda>fh. andThen (rm_next fh rid) (\<lambda>rid. ret (RecScan rid)))"
| "scan_next tab_name (NdxScan name it) =
     andThen (on_index name (ix_next it)) (\<lambda>it. ret (NdxScan name it))"

text \<open>\<open>while (!_scan->is_end()) { ... _scan->next(); }\<close>: stops at the first record that satisfies the conditions.\<close>

fun table_seek :: "nat \<Rightarrow> TableNode \<Rightarrow> ('z, TableNode) sm_prog" where
  "table_seek 0 t = throw NoReturn"
| "table_seek (Suc fuel) t =
     andThen (stopped (scan_is_end (tn_scan t))) (\<lambda>fin.
     if fin then ret t
     else
       andThen (scan_rid (tn_scan t)) (\<lambda>rid.
       andThen (map_at fhs (tn_tab_name t)) (\<lambda>fh.
       andThen (get_record fh rid) (\<lambda>data.
       andThen (stopped (eval_conds (tn_cols t) (tn_fed_conds t) data)) (\<lambda>hit.
       if hit then ret (t\<lparr>tn_rid := rid\<rparr>)
       else
         andThen (scan_next (tn_tab_name t) (tn_scan t)) (\<lambda>sc.
         table_seek fuel (t\<lparr>tn_rid := rid, tn_scan := sc\<rparr>)))))))"

definition table_scan :: "TableNode \<Rightarrow> ('z, scan) sm_prog" where
  "table_scan t =
     andThen (gets db) (\<lambda>d.
     andThen (from_sum (get_table d (tn_tab_name t))) (\<lambda>tab.
     andThen (stopped (find_index tab (tn_fed_conds t))) (\<lambda>index_no.
     case index_no of
       None \<Rightarrow> andThen (map_at fhs (tn_tab_name t)) (\<lambda>fh. andThen (RM_Iterator fh) (\<lambda>rid. ret (RecScan rid)))
     | Some i \<Rightarrow> let name = get_index_name (tn_tab_name t) (int i) in
         andThen (on_index name (index_interval (cm_name (tn_cols t ! i)) (tn_fed_conds t))) (\<lambda>(lower, upper).
         ret (NdxScan name \<lparr>current_index = lower, end_index = upper\<rparr>)))))"

definition table_begin :: "nat \<Rightarrow> TableNode \<Rightarrow> ('z, TableNode) sm_prog" where
  "table_begin fuel t =
     andThen (check_runtime_conds t) (\<lambda>_.
     andThen (table_scan t) (\<lambda>sc.
     table_seek fuel (t\<lparr>tn_scan := sc\<rparr>)))"

definition table_next :: "nat \<Rightarrow> TableNode \<Rightarrow> ('z, TableNode) sm_prog" where
  "table_next fuel t =
     andThen (check_runtime_conds t) (\<lambda>_.
     andThen (stopped (scan_is_end (tn_scan t))) (\<lambda>fin.
     andThen (ensure (\<not> fin) AssertFail) (\<lambda>_.
     andThen (scan_next (tn_tab_name t) (tn_scan t)) (\<lambda>sc.
     table_seek fuel (t\<lparr>tn_scan := sc\<rparr>)))))"

definition feed_cond :: "string \<Rightarrow> (TabCol \<rightharpoonup> Value) \<Rightarrow> Condition \<Rightarrow> stop + Condition" where
  "feed_cond tab_name dict c =
     (if \<not> is_rhs_val c \<and> tc_tab (rhs_col c) \<noteq> tab_name
      then (case dict (rhs_col c) of None \<Rightarrow> Inl OutOfRange | Some v \<Rightarrow> Inr (c\<lparr>is_rhs_val := True, rhs_val := v\<rparr>))
      else Inr c)"

definition table_feed :: "TableNode \<Rightarrow> (TabCol \<rightharpoonup> Value) \<Rightarrow> ('s, stop, TableNode) prog" where
  "table_feed t dict =
     andThen (stopped (map_sum_list (feed_cond (tn_tab_name t) dict) (tn_conds t))) (\<lambda>conds.
     andThen (check_runtime_conds (t\<lparr>tn_fed_conds := conds\<rparr>)) (\<lambda>_. ret (t\<lparr>tn_fed_conds := conds\<rparr>)))"

section \<open>Plans\<close>

fun node_is_end :: "QlNode \<Rightarrow> stop + bool" where
  "node_is_end (NTable t) = scan_is_end (tn_scan t)"
| "node_is_end (NJoin l r len cols feed) = node_is_end l"
| "node_is_end (NProj p cols len idxs) = node_is_end p"

text \<open>\<open>assert(!is_end())\<close>\<close>

definition not_at_end :: "QlNode \<Rightarrow> ('s, stop, unit) prog" where
  "not_at_end n = andThen (stopped (node_is_end n)) (\<lambda>fin. ensure (\<not> fin) AssertFail)"

fun project_bytes :: "Column_Metadata list \<Rightarrow> (Column_Metadata \<times> nat) list \<Rightarrow> byte list \<Rightarrow> byte list \<Rightarrow> byte list" where
  "project_bytes prev_cols [] prev out = out"
| "project_bytes prev_cols ((col, i) # cols) prev out =
     project_bytes prev_cols cols prev
       (store out (nat (cm_offset col)) (load prev (nat (cm_offset (prev_cols ! i))) (nat (cm_len col))))"

fun node_rec :: "QlNode \<Rightarrow> ('z, byte list) sm_prog" where
  "node_rec (NTable t) =
     andThen (not_at_end (NTable t)) (\<lambda>_.
     andThen (map_at fhs (tn_tab_name t)) (\<lambda>fh. get_record fh (tn_rid t)))"
| "node_rec (NJoin l r len cols feed) =
     andThen (not_at_end (NJoin l r len cols feed)) (\<lambda>_.
     andThen (node_rec l) (\<lambda>lrec.
     andThen (node_rec r) (\<lambda>rrec.
     ret (take (nat (node_len l)) lrec @ take (nat (node_len r)) rrec))))"
| "node_rec (NProj p cols len idxs) =
     andThen (not_at_end (NProj p cols len idxs)) (\<lambda>_.
     andThen (node_rec p) (\<lambda>prev_rec.
     ret (project_bytes (node_cols p) (zip cols idxs) prev_rec (replicate (nat len) 0))))"

fun node_feed :: "QlNode \<Rightarrow> (TabCol \<rightharpoonup> Value) \<Rightarrow> ('s, stop, QlNode) prog" where
  "node_feed (NTable t) dict = andThen (table_feed t dict) (\<lambda>t. ret (NTable t))"
| "node_feed (NJoin l r len cols feed) dict = andThen (node_feed l dict) (\<lambda>l. ret (NJoin l r len cols dict))"
| "node_feed (NProj p cols len idxs) dict = throw (Throw (InternalError ''Cannot feed a projection node''))"

text \<open>\<open>feed_right\<close>: the right node is given the left record's values; those fed from above come first.\<close>

definition feed_right :: "QlNode \<Rightarrow> QlNode \<Rightarrow> (TabCol \<rightharpoonup> Value) \<Rightarrow> ('z, QlNode) sm_prog" where
  "feed_right l r feed =
     andThen (node_rec l) (\<lambda>lrec.
     andThen (stopped (rec2dict (node_cols l) lrec Map.empty)) (\<lambda>left_dict.
     node_feed r (left_dict ++ feed)))"

fun node_begin :: "nat \<Rightarrow> QlNode \<Rightarrow> ('z, QlNode) sm_prog"
  and node_next :: "nat \<Rightarrow> QlNode \<Rightarrow> ('z, QlNode) sm_prog"
  and join_seek :: "nat \<Rightarrow> QlNode \<Rightarrow> QlNode \<Rightarrow> int \<Rightarrow> Column_Metadata list \<Rightarrow> (TabCol \<rightharpoonup> Value) \<Rightarrow> ('z, QlNode) sm_prog"
where
  "node_begin 0 n = throw NoReturn"
| "node_begin (Suc fuel) (NTable t) = andThen (table_begin fuel t) (\<lambda>t. ret (NTable t))"
| "node_begin (Suc fuel) (NJoin l r len cols feed) =
     andThen (node_begin fuel l) (\<lambda>l.
     andThen (stopped (node_is_end l)) (\<lambda>fin.
     if fin then ret (NJoin l r len cols feed)
     else
       andThen (feed_right l r feed) (\<lambda>r.
       andThen (node_begin fuel r) (\<lambda>r.
       join_seek fuel l r len cols feed))))"
| "node_begin (Suc fuel) (NProj p cols len idxs) = andThen (node_begin fuel p) (\<lambda>p. ret (NProj p cols len idxs))"
| "node_next 0 n = throw NoReturn"
| "node_next (Suc fuel) (NTable t) = andThen (table_next fuel t) (\<lambda>t. ret (NTable t))"
| "node_next (Suc fuel) (NJoin l r len cols feed) =
     andThen (not_at_end l) (\<lambda>_.
     andThen (node_next fuel r) (\<lambda>r. join_seek fuel l r len cols feed))"
| "node_next (Suc fuel) (NProj p cols len idxs) =
     andThen (not_at_end p) (\<lambda>_.
     andThen (node_next fuel p) (\<lambda>p. ret (NProj p cols len idxs)))"
| "join_seek 0 l r len cols feed = throw NoReturn"
| "join_seek (Suc fuel) l r len cols feed =
     andThen (stopped (node_is_end r)) (\<lambda>fin.
     if \<not> fin then ret (NJoin l r len cols feed)
     else
       andThen (node_next fuel l) (\<lambda>l.
       andThen (stopped (node_is_end l)) (\<lambda>fin.
       if fin then ret (NJoin l r len cols feed)
       else
         andThen (feed_right l r feed) (\<lambda>r.
         andThen (node_begin fuel r) (\<lambda>r.
         join_seek fuel l r len cols feed)))))"

end
