(* ===== verification/QlManager.thy ===== *)
theory QlManager
  imports QlNode
begin

text \<open>
  \<open>query_language/ql_manager.cpp\<close>: the checks of selectors and where clauses, and the four
  statements over the open database. The catalog does not change while one runs, so the copies
  and references the source takes of it are the same value. A record buffer of the source is
  uninitialised memory that the columns cover; here it starts as zeros.
\<close>

section \<open>Checks\<close>

text \<open>Looking for the only table that has a column of this name.\<close>

fun infer_table :: "string \<Rightarrow> string \<Rightarrow> Column_Metadata list \<Rightarrow> stop + string" where
  "infer_table col_name found [] = (if found = [] then Inl (Throw (ColumnNotFoundError col_name)) else Inr found)"
| "infer_table col_name found (c # cs) =
     (if cm_name c = col_name
      then (if found \<noteq> [] then Inl (Throw (AmbiguousColumnError col_name)) else infer_table col_name (cm_tab_name c) cs)
      else infer_table col_name found cs)"

definition check_column :: "DB_Metadata \<Rightarrow> Column_Metadata list \<Rightarrow> TabCol \<Rightarrow> stop + TabCol" where
  "check_column d all_cols target =
     (if tc_tab target = [] then
        (case infer_table (tc_col target) [] all_cols of Inl e \<Rightarrow> Inl e | Inr tab_name \<Rightarrow> Inr (TabCol tab_name (tc_col target)))
      else (case get_table d (tc_tab target) of
          Inr tab \<Rightarrow> if is_col tab (tc_col target) then Inr target
            else Inl (Throw (ColumnNotFoundError (tc_tab target @ ''.'' @ tc_col target)))
        | Inl _ \<Rightarrow> Inl (Throw (ColumnNotFoundError (tc_tab target @ ''.'' @ tc_col target)))))"

fun get_all_cols :: "DB_Metadata \<Rightarrow> string list \<Rightarrow> stop + Column_Metadata list" where
  "get_all_cols d [] = Inr []"
| "get_all_cols d (t # ts) = (case get_table d t of Inl e \<Rightarrow> Inl (Throw e)
     | Inr tab \<Rightarrow> (case get_all_cols d ts of Inl e \<Rightarrow> Inl e | Inr cols \<Rightarrow> Inr (tm_cols tab @ cols)))"

definition find_column :: "DB_Metadata \<Rightarrow> TabCol \<Rightarrow> stop + Column_Metadata" where
  "find_column d c = (case get_table d (tc_tab c) of Inl e \<Rightarrow> Inl (Throw e)
     | Inr tab \<Rightarrow> (case get_col tab (tc_col c) of Inl e \<Rightarrow> Inl (Throw e) | Inr i \<Rightarrow> Inr (tm_cols tab ! i)))"

definition sum_then :: "'e + 'a \<Rightarrow> ('a \<Rightarrow> 'e + 'b) \<Rightarrow> 'e + 'b" where
  "sum_then r f = (case r of Inl e \<Rightarrow> Inl e | Inr x \<Rightarrow> f x)"

definition check_types :: "ColumnType \<Rightarrow> ColumnType \<Rightarrow> 'a \<Rightarrow> stop + 'a" where
  "check_types lhs rhs x = (if lhs \<noteq> rhs
     then Inl (Throw (IncompatibleTypeError (ColumnType2str lhs) (ColumnType2str rhs))) else Inr x)"

text \<open>One turn of the loop of \<open>check_where_clause\<close>.\<close>

definition check_cond :: "DB_Metadata \<Rightarrow> Column_Metadata list \<Rightarrow> Condition \<Rightarrow> stop + Condition" where
  "check_cond d all_cols c =
     sum_then (check_column d all_cols (lhs_col c)) (\<lambda>lhs.
     sum_then (if is_rhs_val c then Inr (rhs_col c) else check_column d all_cols (rhs_col c)) (\<lambda>rhs.
     sum_then (find_column d lhs) (\<lambda>lcol.
     if is_rhs_val c then
       sum_then (init_raw (cm_len lcol) (rhs_val c)) (\<lambda>v.
       check_types (cm_type lcol) (v_type v) (c\<lparr>lhs_col := lhs, rhs_col := rhs, rhs_val := v\<rparr>))
     else
       sum_then (find_column d rhs) (\<lambda>rcol.
       check_types (cm_type lcol) (cm_type rcol) (c\<lparr>lhs_col := lhs, rhs_col := rhs\<rparr>)))))"

definition check_where_clause :: "DB_Metadata \<Rightarrow> string list \<Rightarrow> Condition list \<Rightarrow> stop + Condition list" where
  "check_where_clause d tab_names conds =
     sum_then (get_all_cols d tab_names) (\<lambda>all_cols. map_sum_list (check_cond d all_cols) conds)"

section \<open>insert_into\<close>

text \<open>The loop that fills the record buffer.\<close>

fun fill_record :: "(Column_Metadata \<times> Value) list \<Rightarrow> byte list \<Rightarrow> stop + byte list" where
  "fill_record [] data = Inr data"
| "fill_record ((col, v) # rest) data =
     (if cm_type col \<noteq> v_type v
      then Inl (Throw (IncompatibleTypeError (ColumnType2str (cm_type col)) (ColumnType2str (v_type v))))
      else sum_then (init_raw (cm_len col) v) (\<lambda>v.
        fill_record rest (store data (nat (cm_offset col)) (the (v_raw v)))))"

definition index_entry :: "(byte list \<Rightarrow> RecordID \<Rightarrow> (IndexHandle \<times> 'z sm_state_scheme, stop, unit) prog)
    \<Rightarrow> Table_Metadata \<Rightarrow> string \<Rightarrow> byte list \<Rightarrow> RecordID \<Rightarrow> nat \<Rightarrow> ('z, unit) sm_prog" where
  "index_entry update tab tab_name data rid i = whenP (cm_index (tm_cols tab ! i))
     (on_index (get_index_name tab_name (int i)) (update (column_key (tm_cols tab ! i) data) rid))"

definition insert_into :: "string \<Rightarrow> Value list \<Rightarrow> ('z, InsertResult) sm_prog" where
  "insert_into tab_name vals =
     andThen (gets db) (\<lambda>d.
     andThen (from_sum (get_table d tab_name)) (\<lambda>tab.
     andThen (ensure (length vals = length (tm_cols tab)) (Throw InvalidValueCountError)) (\<lambda>_.
     andThen (map_at fhs tab_name) (\<lambda>fh.
     andThen (stopped (fill_record (zip (tm_cols tab) vals) (replicate (nat (record_size (fh_hdr fh))) 0))) (\<lambda>data.
     andThen (insert_record fh data) (\<lambda>(rid, fh).
     andThen (put_fh tab_name fh) (\<lambda>_.
     andThen (forEach [0..<length (tm_cols tab)] (index_entry insert_entry tab tab_name data rid)) (\<lambda>_.
     ret \<lparr>ir_table = tab_name, ir_success = True, ir_message = ''1 row inserted''\<rparr>))))))))"

section \<open>delete_from and update_set\<close>

text \<open>\<open>for (table_scan.begin(); !table_scan.is_end(); table_scan.next()) rids.push_back(...)\<close>\<close>

fun collect_rids :: "nat \<Rightarrow> TableNode \<Rightarrow> ('z, RecordID list) sm_prog" where
  "collect_rids 0 t = throw NoReturn"
| "collect_rids (Suc fuel) t =
     andThen (stopped (scan_is_end (tn_scan t))) (\<lambda>fin.
     if fin then ret []
     else
       andThen (table_next fuel t) (\<lambda>t'.
       andThen (collect_rids fuel t') (\<lambda>rids. ret (tn_rid t # rids))))"

definition matching_rids :: "nat \<Rightarrow> string \<Rightarrow> Condition list \<Rightarrow> ('z, RecordID list) sm_prog" where
  "matching_rids fuel tab_name conds =
     andThen (QlNodeTable tab_name conds) (\<lambda>t.
     andThen (table_begin fuel t) (\<lambda>t. collect_rids fuel t))"

definition unindex_record :: "Table_Metadata \<Rightarrow> string \<Rightarrow> RecordID \<Rightarrow> ('z, unit) sm_prog" where
  "unindex_record tab tab_name rid =
     andThen (map_at fhs tab_name) (\<lambda>fh.
     andThen (get_record fh rid) (\<lambda>data.
     forEach [0..<length (tm_cols tab)] (index_entry delete_entry tab tab_name data rid)))"

definition remove_record :: "string \<Rightarrow> RecordID \<Rightarrow> ('z, unit) sm_prog" where
  "remove_record tab_name rid =
     andThen (map_at fhs tab_name) (\<lambda>fh. andThen (delete_record fh rid) (\<lambda>fh. put_fh tab_name fh))"

definition delete_from :: "nat \<Rightarrow> string \<Rightarrow> Condition list \<Rightarrow> ('z, AffectedResult) sm_prog" where
  "delete_from fuel tab_name conds =
     andThen (gets db) (\<lambda>d.
     andThen (from_sum (get_table d tab_name)) (\<lambda>tab.
     andThen (stopped (check_where_clause d [tab_name] conds)) (\<lambda>conds.
     andThen (map_at fhs tab_name) (\<lambda>_.
     andThen (matching_rids fuel tab_name conds) (\<lambda>rids.
     andThen (forEach rids (unindex_record tab tab_name)) (\<lambda>_.
     andThen (forEach rids (remove_record tab_name)) (\<lambda>_.
     ret \<lparr>ar_table = tab_name, affected_rows = length rids, ar_success = True,
          ar_message = nat_to_string (length rids) @ '' row(s) deleted''\<rparr>)))))))"

definition check_set_clause :: "Table_Metadata \<Rightarrow> SetClause \<Rightarrow> stop + SetClause" where
  "check_set_clause tab sc =
     (case get_col tab (tc_col (set_lhs sc)) of Inl e \<Rightarrow> Inl (Throw e)
      | Inr i \<Rightarrow> let col = tm_cols tab ! i in
          if cm_type col \<noteq> v_type (set_rhs sc)
          then Inl (Throw (IncompatibleTypeError (ColumnType2str (cm_type col)) (ColumnType2str (v_type (set_rhs sc)))))
          else sum_then (init_raw (cm_len col) (set_rhs sc)) (\<lambda>v. Inr (sc\<lparr>set_rhs := v\<rparr>)))"

text \<open>The columns whose index is maintained: indexed and set by a clause.\<close>

fun set_indexes :: "Table_Metadata \<Rightarrow> SetClause list \<Rightarrow> stop + nat list" where
  "set_indexes tab [] = Inr []"
| "set_indexes tab (sc # scs) =
     (case get_col tab (tc_col (set_lhs sc)) of Inl e \<Rightarrow> Inl (Throw e)
      | Inr i \<Rightarrow> sum_then (set_indexes tab scs) (\<lambda>is. Inr (if cm_index (tm_cols tab ! i) then i # is else is)))"

fun apply_sets :: "Table_Metadata \<Rightarrow> SetClause list \<Rightarrow> byte list \<Rightarrow> stop + byte list" where
  "apply_sets tab [] data = Inr data"
| "apply_sets tab (sc # scs) data =
     (case get_col tab (tc_col (set_lhs sc)) of Inl e \<Rightarrow> Inl (Throw e)
      | Inr i \<Rightarrow> apply_sets tab scs (store data (nat (cm_offset (tm_cols tab ! i)))
          (take (nat (cm_len (tm_cols tab ! i))) (the (v_raw (set_rhs sc))))))"

definition update_row :: "Table_Metadata \<Rightarrow> string \<Rightarrow> nat list \<Rightarrow> SetClause list \<Rightarrow> RecordID \<Rightarrow> ('z, unit) sm_prog" where
  "update_row tab tab_name idxs scs rid =
     (let indexed = filter (\<lambda>i. i \<in> set idxs) [0..<length (tm_cols tab)] in
     andThen (map_at fhs tab_name) (\<lambda>fh.
     andThen (get_record fh rid) (\<lambda>data.
     andThen (forEach indexed (index_entry delete_entry tab tab_name data rid)) (\<lambda>_.
     andThen (stopped (apply_sets tab scs data)) (\<lambda>data.
     andThen (update_record fh rid data) (\<lambda>_.
     forEach indexed (index_entry insert_entry tab tab_name data rid)))))))"

definition update_set :: "nat \<Rightarrow> string \<Rightarrow> SetClause list \<Rightarrow> Condition list \<Rightarrow> ('z, AffectedResult) sm_prog" where
  "update_set fuel tab_name set_clauses conds =
     andThen (gets db) (\<lambda>d.
     andThen (from_sum (get_table d tab_name)) (\<lambda>tab.
     andThen (stopped (check_where_clause d [tab_name] conds)) (\<lambda>conds.
     andThen (stopped (map_sum_list (check_set_clause tab) set_clauses)) (\<lambda>scs.
     andThen (matching_rids fuel tab_name conds) (\<lambda>rids.
     andThen (map_at fhs tab_name) (\<lambda>_.
     andThen (stopped (set_indexes tab scs)) (\<lambda>idxs.
     andThen (forEach idxs (\<lambda>i. andThen (map_at ihs (get_index_name tab_name (int i))) (\<lambda>_. ret ()))) (\<lambda>_.
     andThen (forEach rids (update_row tab tab_name idxs scs)) (\<lambda>_.
     ret \<lparr>ar_table = tab_name, affected_rows = length rids, ar_success = True,
          ar_message = nat_to_string (length rids) @ '' row(s) updated''\<rparr>)))))))))"

section \<open>select_from\<close>

definition solved_by :: "string list \<Rightarrow> Condition \<Rightarrow> bool" where
  "solved_by tab_names c \<longleftrightarrow> tc_tab (lhs_col c) \<in> set tab_names \<and> (is_rhs_val c \<or> tc_tab (rhs_col c) \<in> set tab_names)"

text \<open>The solved conditions, and those that stay.\<close>

definition pop_conds :: "Condition list \<Rightarrow> string list \<Rightarrow> Condition list \<times> Condition list" where
  "pop_conds conds tab_names = (filter (solved_by tab_names) conds, filter (\<lambda>c. \<not> solved_by tab_names c) conds)"

text \<open>Table \<open>i\<close> takes the conditions that are solved once tables \<open>0..i\<close> are joined.\<close>

fun table_nodes :: "string list \<Rightarrow> string list \<Rightarrow> Condition list \<Rightarrow> ('z, TableNode list \<times> Condition list) sm_prog" where
  "table_nodes before [] conds = ret ([], conds)"
| "table_nodes before (t # ts) conds =
     (let (curr, rest) = pop_conds conds (before @ [t]) in
      andThen (QlNodeTable t curr) (\<lambda>n.
      andThen (table_nodes (before @ [t]) ts rest) (\<lambda>(ns, left). ret (n # ns, left))))"

fun join_plan :: "TableNode list \<Rightarrow> QlNode option" where
  "join_plan [] = None"
| "join_plan [t] = Some (NTable t)"
| "join_plan (t # ts) = map_option (QlNodeJoin (NTable t)) (join_plan ts)"

definition result_row :: "Column_Metadata list \<Rightarrow> byte list \<Rightarrow> string list" where
  "result_row cols data = map (\<lambda>col. literal_text (column_literal col data)) cols"

fun collect_rows :: "nat \<Rightarrow> QlNode \<Rightarrow> ('z, string list list) sm_prog" where
  "collect_rows 0 n = throw NoReturn"
| "collect_rows (Suc fuel) n =
     andThen (stopped (node_is_end n)) (\<lambda>fin.
     if fin then ret []
     else
       andThen (node_rec n) (\<lambda>data.
       andThen (node_next fuel n) (\<lambda>n'.
       andThen (collect_rows fuel n') (\<lambda>rows. ret (result_row (node_cols n) data # rows)))))"

definition select_from :: "nat \<Rightarrow> TabCol list \<Rightarrow> string list \<Rightarrow> Condition list \<Rightarrow> ('z, SelectResult) sm_prog" where
  "select_from fuel sel_cols tab_names conds =
     andThen (gets db) (\<lambda>d.
     andThen (stopped (get_all_cols d tab_names)) (\<lambda>all_cols.
     andThen (stopped (if sel_cols = [] then Inr (map (\<lambda>c. TabCol (cm_tab_name c) (cm_name c)) all_cols)
       else map_sum_list (check_column d all_cols) sel_cols)) (\<lambda>sel_cols.
     andThen (stopped (check_where_clause d tab_names conds)) (\<lambda>conds.
     andThen (table_nodes [] tab_names conds) (\<lambda>(nodes, conds).
     andThen (ensure (conds = []) AssertFail) (\<lambda>_.
     case join_plan nodes of None \<Rightarrow> throw Undefined
     | Some plan \<Rightarrow>
         andThen (stopped (QlNodeProj plan sel_cols)) (\<lambda>plan.
         andThen (node_begin fuel plan) (\<lambda>plan.
         andThen (collect_rows fuel plan) (\<lambda>rows.
         ret \<lparr>column_names = map tc_col sel_cols, result_rows = rows\<rparr>)))))))))"

end
