(* ===== verification/OpenDb.thy ===== *)
theory OpenDb
  imports QlManager
begin

text \<open>
  The open database as the statements of \<open>ql_manager.cpp\<close> see it: every record file and every
  index among the handles is well formed, no two share a descriptor. An operation on one file
  leaves the others as they are (\<open>rm_frame\<close>), so the content of all tables is a function of
  the table name that each statement changes at one place only.
\<close>

section \<open>Fields beyond those of the page files\<close>

lemma more_fields:
  fixes s t :: "'z sm_state_scheme"
  assumes "pf_state.more t = pf_state.more s"
  shows "fhs t = fhs s" "ihs t = ihs s" "db t = db s" "current_db_name t = current_db_name s" "dirs t = dirs s"
    "base_dir t = base_dir s" "metadata_sem t = metadata_sem s" "file_handles_sem t = file_handles_sem s"
    "index_handles_sem t = index_handles_sem s" "sm_state.more t = sm_state.more s"
  using assms by (cases s; cases t; simp)+

lemma same_env_fields:
  fixes s t :: "'z sm_state_scheme"
  assumes "same_env s t"
  shows "fhs t = fhs s" "ihs t = ihs s" "db t = db s" "current_db_name t = current_db_name s" "dirs t = dirs s"
    "base_dir t = base_dir s" "metadata_sem t = metadata_sem s" "file_handles_sem t = file_handles_sem s"
    "index_handles_sem t = index_handles_sem s" "sm_state.more t = sm_state.more s"
  using more_fields[of t s] assms by (simp_all add: same_env_def)

text \<open>The page file layer does not see the handles.\<close>

lemma view_handles [simp]:
  fixes s :: "'z sm_state_scheme"
  shows "page_view (s\<lparr>fhs := x\<rparr>) = page_view s" "page_view (s\<lparr>ihs := y\<rparr>) = page_view s"
    "cached_pages (s\<lparr>fhs := x\<rparr>) = cached_pages s" "cached_pages (s\<lparr>ihs := y\<rparr>) = cached_pages s"
    "file_view (s\<lparr>fhs := x\<rparr>) = file_view s" "file_view (s\<lparr>ihs := y\<rparr>) = file_view s"
    "fd_path (s\<lparr>fhs := x\<rparr>) = fd_path s" "fd_path (s\<lparr>ihs := y\<rparr>) = fd_path s"
  by (simp_all add: fun_eq_iff page_view_def disk_page_def fd_data_def fd_path_def cached_pages_def file_view_def
    cong: option.case_cong)

lemma pf_wf_handles [simp]:
  fixes s :: "'z sm_state_scheme"
  shows "pf_wf (s\<lparr>fhs := x\<rparr>) = pf_wf s" "pf_wf (s\<lparr>ihs := y\<rparr>) = pf_wf s"
  by (simp_all add: pf_wf_def pager_inv_def os_wf_def pager_struct_def map_lists_def page_synced_def valid_pid_def
    disk_page_def fd_data_def fd_path_def cong: option.case_cong)

lemma rm_wf_handles [simp]:
  fixes s :: "'z sm_state_scheme"
  shows "rm_wf (s\<lparr>fhs := x\<rparr>) = rm_wf s" "rm_wf (s\<lparr>ihs := y\<rparr>) = rm_wf s"
    "rm_recs (s\<lparr>fhs := x\<rparr>) = rm_recs s" "rm_recs (s\<lparr>ihs := y\<rparr>) = rm_recs s"
    "ix_wf (s\<lparr>fhs := x\<rparr>) = ix_wf s" "ix_wf (s\<lparr>ihs := y\<rparr>) = ix_wf s"
  by (simp_all add: fun_eq_iff rm_wf_def rm_recs_def ix_wf_def)

section \<open>The open files\<close>

definition db_fds :: "'z sm_state_scheme \<Rightarrow> int list" where
  "db_fds s = map (\<lambda>e. fh_fd (snd e)) (fhs s) @ map (\<lambda>e. ih_fd (snd e)) (ihs s)"

text \<open>\<open>T\<close> gives the tree each index file represents.\<close>

definition db_open :: "(string \<Rightarrow> bt) \<Rightarrow> 'z sm_state_scheme \<Rightarrow> bool" where
  "db_open T s \<longleftrightarrow> pf_wf s \<and> distinct (db_fds s) \<and> map_sorted (fhs s) \<and> map_sorted (ihs s) \<and>
     (\<forall>(n, fh) \<in> set (fhs s). rm_wf s fh) \<and> (\<forall>(n, ih) \<in> set (ihs s). ix_wf s ih (T n))"

definition content :: "'z sm_state_scheme \<Rightarrow> string \<Rightarrow> RecordID \<rightharpoonup> byte list" where
  "content s n = (case map_of (fhs s) n of None \<Rightarrow> Map.empty | Some fh \<Rightarrow> rm_recs s fh)"

text \<open>A run that only reads.\<close>

definition db_reads :: "(string \<Rightarrow> bt) \<Rightarrow> 'z sm_state_scheme \<Rightarrow> 'z sm_state_scheme \<Rightarrow> bool" where
  "db_reads T s t \<longleftrightarrow> same_env s t \<and> db_open T t \<and> content t = content s"

lemma db_reads_refl: "db_open T s \<Longrightarrow> db_reads T s s"
  by (simp add: db_reads_def)

lemma db_reads_trans: "db_reads T s t \<Longrightarrow> db_reads T t u \<Longrightarrow> db_reads T s u"
  unfolding db_reads_def using same_env_trans by fastforce

lemma db_reads_open: "db_reads T s t \<Longrightarrow> db_open T t"
  by (simp add: db_reads_def)

lemma db_reads_fields:
  assumes "db_reads T s t"
  shows "fhs t = fhs s" "ihs t = ihs s" "db t = db s" "content t = content s"
  using assms same_env_fields[of s t] by (simp_all add: db_reads_def)

lemma sorted_keys_distinct: "map_sorted m \<Longrightarrow> distinct (map fst (m :: (string \<times> 'v) list))"
  by (simp only: strict_sorted_iff)

lemma entry_unique:
  fixes m :: "(string \<times> 'v) list"
  assumes "map_sorted m" "(k, v) \<in> set m"
  shows "map_of m k = Some v"
  using map_of_is_SomeI[OF sorted_keys_distinct[OF assms(1)] assms(2)] .

lemma table_file:
  assumes "db_open T s" "map_of (fhs s) n = Some fh"
  shows "rm_wf s fh" "content s n = rm_recs s fh"
  using assms map_of_SomeD[OF assms(2)] by (auto simp: db_open_def content_def)

lemma index_file:
  assumes "db_open T s" "map_of (ihs s) n = Some ih"
  shows "ix_wf s ih (T n)"
  using assms map_of_SomeD[OF assms(2)] by (auto simp: db_open_def)

text \<open>Different entries have different descriptors.\<close>

lemma distinct_map_entry:
  assumes "distinct (map f xs)" "a \<in> set xs" "b \<in> set xs" "f a = f b"
  shows "a = b"
  using assms by (meson distinct_map inj_on_def)

lemma table_fds:
  assumes "db_open T s" "(m, gh) \<in> set (fhs s)" "(n, fh) \<in> set (fhs s)" "m \<noteq> n"
  shows "fh_fd gh \<noteq> fh_fd fh"
proof
  assume e: "fh_fd gh = fh_fd fh"
  have "distinct (map (\<lambda>e. fh_fd (snd e)) (fhs s))" using assms(1) by (simp add: db_open_def db_fds_def)
  from distinct_map_entry[OF this assms(2,3)] e assms(4) show False by simp
qed

lemma index_fds:
  assumes "db_open T s" "(m, gh) \<in> set (ihs s)" "(n, fh) \<in> set (ihs s)" "m \<noteq> n"
  shows "ih_fd gh \<noteq> ih_fd fh"
proof
  assume e: "ih_fd gh = ih_fd fh"
  have "distinct (map (\<lambda>e. ih_fd (snd e)) (ihs s))" using assms(1) by (simp add: db_open_def db_fds_def)
  from distinct_map_entry[OF this assms(2,3)] e assms(4) show False by simp
qed

lemma table_index_fds:
  assumes "db_open T s" "(m, fh) \<in> set (fhs s)" "(n, ih) \<in> set (ihs s)"
  shows "fh_fd fh \<noteq> ih_fd ih"
proof -
  have "fh_fd fh \<in> set (map (\<lambda>e. fh_fd (snd e)) (fhs s))" "ih_fd ih \<in> set (map (\<lambda>e. ih_fd (snd e)) (ihs s))"
    using assms(2,3) by force+
  moreover have "set (map (\<lambda>e. fh_fd (snd e)) (fhs s)) \<inter> set (map (\<lambda>e. ih_fd (snd e)) (ihs s)) = {}"
    using assms(1) by (simp only: db_open_def db_fds_def distinct_append)
  ultimately show ?thesis by (metis IntI empty_iff)
qed

section \<open>What a statement leaves alone\<close>

text \<open>The descriptor of each table's file.\<close>

definition table_fd :: "'z sm_state_scheme \<Rightarrow> string \<Rightarrow> int option" where
  "table_fd s n = map_option fh_fd (map_of (fhs s) n)"

text \<open>Everything but the pool, the bytes of the open files, the handles and the catalog.\<close>

definition db_frame :: "'z sm_state_scheme \<Rightarrow> 'z sm_state_scheme \<Rightarrow> bool" where
  "db_frame s t \<longleftrightarrow> open_fds t = open_fds s \<and> other_fds t = other_fds s \<and> cwd t = cwd s \<and> path2fd t = path2fd s \<and>
     fd2path t = fd2path s \<and> fd_map_sem t = fd_map_sem s \<and> dirs t = dirs s \<and> base_dir t = base_dir s \<and>
     current_db_name t = current_db_name s \<and> metadata_sem t = metadata_sem s \<and>
     file_handles_sem t = file_handles_sem s \<and> index_handles_sem t = index_handles_sem s \<and>
     sm_state.more t = sm_state.more s \<and>
     (\<forall>path. path \<notin> snd ` set (open_fds s) \<longrightarrow> files t path = files s path)"

lemma db_frame_refl: "db_frame s s"
  by (simp add: db_frame_def)

lemma db_frame_trans: "db_frame s t \<Longrightarrow> db_frame t u \<Longrightarrow> db_frame s u"
  by (simp add: db_frame_def)

lemma same_env_db_frame: "same_env s t \<Longrightarrow> db_frame s t"
  using same_env_fields[of s t] by (simp add: same_env_def db_frame_def)

lemma db_frame_handles: "db_frame s t \<Longrightarrow> db_frame s (t\<lparr>fhs := x\<rparr>)"
  by (simp add: db_frame_def)

text \<open>An open database whose handles name the files they were opened from.\<close>

definition db_live :: "(string \<Rightarrow> bt) \<Rightarrow> 'z sm_state_scheme \<Rightarrow> bool" where
  "db_live T s \<longleftrightarrow> db_open T s \<and> pm_wf s \<and> (\<forall>n fd. table_fd s n = Some fd \<longrightarrow> path2fd s n = Some fd) \<and>
     (\<forall>n ih. map_of (ihs s) n = Some ih \<longrightarrow> path2fd s n = Some (ih_fd ih))"

lemma pm_wf_db_frame: "pm_wf s \<Longrightarrow> db_frame s t \<Longrightarrow> pf_wf t \<Longrightarrow> pm_wf t"
  by (simp add: pm_wf_def pm_maps_def db_frame_def fd_path_def resolve_def)

lemma db_live_frame:
  assumes "db_live T s" "db_open T t" "db_frame s t" "table_fd t = table_fd s" "ihs t = ihs s"
  shows "db_live T t"
proof -
  have "pf_wf t" using assms(2) by (simp add: db_open_def)
  then have "pm_wf t" using assms(1,3) pm_wf_db_frame by (auto simp: db_live_def)
  then show ?thesis using assms by (simp add: db_live_def db_frame_def)
qed

lemma db_live_reads: "db_live T s \<Longrightarrow> db_reads T s t \<Longrightarrow> db_live T t"
proof -
  assume l: "db_live T s" and r: "db_reads T s t"
  have "same_env s t" using r by (simp add: db_reads_def)
  then have "db_frame s t" by (rule same_env_db_frame)
  moreover have "table_fd t = table_fd s" by (rule ext) (simp add: table_fd_def db_reads_fields(1)[OF r])
  ultimately show "db_live T t" by (rule db_live_frame[OF l db_reads_open[OF r] _ _ db_reads_fields(2)[OF r]])
qed

section \<open>Operations on one file\<close>

lemma ix_frame_other:
  assumes "rm_frame s fd t" "pf_wf t" "ix_wf s ih T" "ih_fd ih \<noteq> fd"
  shows "ix_wf t ih T"
proof -
  have tr: "ix_tree (index_header ih) (file_view s (ih_fd ih)) T" "fd_path s (ih_fd ih) \<noteq> None"
    "PageID (ih_fd ih) NDX_FILE_HDR_PAGE \<notin> cached_pages s"
    using assms(3) unfolding ix_wf_def by blast+
  have "ix_tree (index_header ih) (file_view t (ih_fd ih)) T"
    by (rule ix_tree_mono[OF tr(1)]) (use assms(1,4) in \<open>auto simp: rm_frame_def file_view_def\<close>)
  moreover have "fd_path t = fd_path s" using assms(1) by (simp add: rm_frame_def same_env_def fd_path_def fun_eq_iff)
  moreover have "PageID (ih_fd ih) NDX_FILE_HDR_PAGE \<notin> cached_pages t"
    using assms(1,4) tr(3) by (auto simp: rm_frame_def)
  ultimately show ?thesis using assms(2) tr(2) by (simp add: ix_wf_def)
qed

lemma looked_frame: "looked fd s u \<Longrightarrow> rm_frame s fd u"
  by (auto simp: pool.reach_def rm_frame_def ix_pids_def map_le_def dom_def)

lemma table_read:
  assumes o: "db_open T s" and n: "map_of (fhs s) n = Some fh"
    and t: "rm_frame s (fh_fd fh) t" "rm_wf t fh" "rm_recs t fh = rm_recs s fh"
  shows "db_reads T s t"
proof -
  note n_in = map_of_SomeD[OF n]
  have env: "same_env s t" and wf: "pf_wf t" using t by (simp_all add: rm_frame_def rm_wf_def)
  note F = same_env_fields[OF env]
  have other: "rm_wf t gh \<and> rm_recs t gh = rm_recs s gh" if e: "(m, gh) \<in> set (fhs s)" for m gh
  proof (cases "m = n")
    case True
    then have "gh = fh" using e n entry_unique[of "fhs s"] o by (auto simp: db_open_def)
    then show ?thesis using t(2,3) by simp
  next
    case False
    have "rm_wf s gh" using o e by (auto simp: db_open_def)
    then show ?thesis using rm_frame_other[OF t(1) wf _ table_fds[OF o e n_in False]] by blast
  qed
  have idx: "ix_wf t ih (T m)" if e: "(m, ih) \<in> set (ihs s)" for m ih
  proof -
    have "ix_wf s ih (T m)" using o e by (auto simp: db_open_def)
    then show ?thesis using ix_frame_other[OF t(1) wf] table_index_fds[OF o n_in e] by auto
  qed
  have "content t = content s"
    using other by (auto simp: fun_eq_iff content_def F split: option.split dest: map_of_SomeD)
  moreover have "db_open T t" using o wf other idx by (auto simp: db_open_def db_fds_def F)
  ultimately show ?thesis using env by (simp add: db_reads_def)
qed

lemma index_read:
  assumes o: "db_open T s" and n: "map_of (ihs s) n = Some ih" and t: "looked (ih_fd ih) s t"
  shows "db_reads T s t"
proof -
  note n_in = map_of_SomeD[OF n]
  have fr: "rm_frame s (ih_fd ih) t" by (rule looked_frame[OF t])
  have env: "same_env s t" and wf: "pf_wf t" using t fr by (simp_all add: rm_frame_def pool.reach_def)
  note F = same_env_fields[OF env]
  have idx: "ix_wf t jh (T m)" if e: "(m, jh) \<in> set (ihs s)" for m jh
  proof (cases "m = n")
    case True
    then have "jh = ih" using e n entry_unique[of "ihs s"] o by (auto simp: db_open_def)
    then show ?thesis using True looked_ix_wf[OF index_file[OF o n] t] by simp
  next
    case False
    have "ix_wf s jh (T m)" using o e by (auto simp: db_open_def)
    then show ?thesis using ix_frame_other[OF fr wf] index_fds[OF o e n_in False] by blast
  qed
  have other: "rm_wf t gh \<and> rm_recs t gh = rm_recs s gh" if e: "(m, gh) \<in> set (fhs s)" for m gh
  proof -
    have "rm_wf s gh" using o e by (auto simp: db_open_def)
    then show ?thesis using rm_frame_other[OF fr wf _ table_index_fds[OF o e n_in]] by blast
  qed
  have "content t = content s"
    using other by (auto simp: fun_eq_iff content_def F split: option.split dest: map_of_SomeD)
  moreover have "db_open T t" using o wf other idx by (auto simp: db_open_def db_fds_def F)
  ultimately show ?thesis using env by (simp add: db_reads_def)
qed

text \<open>An index operation on a handle that comes back unchanged leaves the state as the pool left it.\<close>

lemma map_put_same: "map_sorted m \<Longrightarrow> map_of m k = Some v \<Longrightarrow> map_put k v m = m" for m :: "(string \<times> 'v) list"
proof (induction m)
  case (Cons e m)
  obtain k' v' where e: "e = (k', v')" by force
  show ?case
  proof (cases "k = k'")
    case False
    then have m: "map_of m k = Some v" using Cons.prems(2) e by simp
    then have "k' < k" using Cons.prems(1) e map_of_SomeD[OF m] by force
    then show ?thesis using Cons m e False by simp
  qed (use Cons e in simp)
qed simp

lemma on_index_run:
  fixes s :: "'z sm_state_scheme"
  assumes o: "db_open T s" and n: "map_of (ihs s) n = Some ih"
    and m: "m (ih, s) = (Inr x, (ih, t))" and t: "looked (ih_fd ih) s t"
  shows "on_index n m s = (Inr x, t)" "db_reads T s t"
proof -
  show r: "db_reads T s t" by (rule index_read[OF o n t])
  have "ihs t = ihs s" "map_sorted (ihs s)" using db_reads_fields[OF r] o by (simp_all add: db_open_def)
  then have "t\<lparr>ihs := map_put n ih (ihs t)\<rparr> = t" using map_put_same[OF _ n] by simp
  then show "on_index n m s = (Inr x, t)" using n m by (simp add: on_index_def)
qed

text \<open>A change of one record file and its handle.\<close>

lemma table_write:
  fixes s :: "'z sm_state_scheme"
  assumes o: "db_open T s" and n: "map_of (fhs s) n = Some fh"
    and t: "rm_frame s (fh_fd fh) t" "rm_wf t gh" "fh_fd gh = fh_fd fh"
  defines "u \<equiv> t\<lparr>fhs := map_put n gh (fhs t)\<rparr>"
  shows "db_open T u" "content u = (content s)(n := rm_recs t gh)" "db u = db s" "ihs u = ihs s"
    "map_of (fhs u) n = Some gh" "\<And>m. m \<noteq> n \<Longrightarrow> map_of (fhs u) m = map_of (fhs s) m"
proof -
  note n_in = map_of_SomeD[OF n]
  have env: "same_env s t" and wf: "pf_wf t" using t by (simp_all add: rm_frame_def rm_wf_def)
  note F = same_env_fields[OF env]
  have srt: "map_sorted (fhs s)" using o by (simp add: db_open_def)
  have other: "rm_wf t kh \<and> rm_recs t kh = rm_recs s kh" if e: "(m, kh) \<in> set (fhs s)" "m \<noteq> n" for m kh
  proof -
    have "rm_wf s kh" using o e by (auto simp: db_open_def)
    then show ?thesis using rm_frame_other[OF t(1) wf _ table_fds[OF o e(1) n_in e(2)]] by blast
  qed
  have idx: "ix_wf t ih (T m)" if e: "(m, ih) \<in> set (ihs s)" for m ih
  proof -
    have "ix_wf s ih (T m)" using o e by (auto simp: db_open_def)
    then show ?thesis using ix_frame_other[OF t(1) wf] table_index_fds[OF o n_in e] by auto
  qed
  have put: "map_sorted (fhs u)" "map_of (fhs u) = (map_of (fhs s))(n \<mapsto> gh)" using srt by (simp_all add: u_def F)
  have fds: "map (\<lambda>e. fh_fd (snd e)) (map_put n gh m) = map (\<lambda>e. fh_fd (snd e)) m"
    if "map_of m n = Some fh" "map_sorted m" for m
    using that t(3)
  proof (induction m)
    case (Cons e m)
    obtain k' v' where e: "e = (k', v')" by force
    show ?case
    proof (cases "n = k'")
      case False
      then have m: "map_of m n = Some fh" using Cons.prems(1) e by simp
      then have "k' < n" using Cons.prems(2) e map_of_SomeD[OF m] by force
      then show ?thesis using Cons m e False by simp
    qed (use Cons e in simp)
  qed simp
  have entries: "(m, kh) \<in> set (fhs u) \<longleftrightarrow> (if m = n then kh = gh else (m, kh) \<in> set (fhs s))" for m kh
  proof -
    have "(m, kh) \<in> set (fhs u) \<longleftrightarrow> map_of (fhs u) m = Some kh" using entry_unique[OF put(1)] map_of_SomeD by fast
    moreover have "(m, kh) \<in> set (fhs s) \<longleftrightarrow> map_of (fhs s) m = Some kh" using entry_unique[OF srt] map_of_SomeD by fast
    ultimately show ?thesis using put(2) by auto
  qed
  have "db_fds u = db_fds s" using fds[OF n srt] by (simp add: db_fds_def u_def F)
  moreover have "\<forall>(m, kh) \<in> set (fhs u). rm_wf u kh" using entries other t(2) by (auto simp: u_def split: if_splits)
  moreover have "\<forall>(m, ih) \<in> set (ihs u). ix_wf u ih (T m)" using idx by (auto simp: u_def F)
  ultimately show "db_open T u" using o put(1) wf by (simp add: db_open_def u_def F)
  show "content u = (content s)(n := rm_recs t gh)"
  proof (rule ext)
    fix m
    show "content u m = ((content s)(n := rm_recs t gh)) m"
      using put(2) other[of m] by (auto simp: content_def u_def split: option.split dest: map_of_SomeD)
  qed
  show "db u = db s" "ihs u = ihs s" by (simp_all add: u_def F)
  show "map_of (fhs u) n = Some gh" "\<And>m. m \<noteq> n \<Longrightarrow> map_of (fhs u) m = map_of (fhs s) m" using put(2) by simp_all
qed

end
