(* ===== verification/QlScan.thy ===== *)
theory QlScan
  imports OpenDb
begin

text \<open>
  Table nodes of a query plan. A scan is a \<open>RecordIterator\<close>; what \<open>QlNodeTable\<close> needs of one is
  stated as a locale: it stands at a list of record ids still to come, \<open>next\<close> drops the first
  of them, reading changes nothing. Both iterators, over a record file and over an interval of
  an index, satisfy it. A table node then yields exactly the records of its scan that satisfy
  its conditions.
\<close>

section \<open>The iterator interface\<close>

locale record_iterator =
  fixes at :: "(string \<Rightarrow> bt) \<Rightarrow> 'z sm_state_scheme \<Rightarrow> string \<Rightarrow> scan \<Rightarrow> RecordID list \<Rightarrow> bool"
  assumes at_open: "at T s tab sc rids \<Longrightarrow> db_open T s \<and> map_of (fhs s) tab \<noteq> None"
    and at_dom: "at T s tab sc rids \<Longrightarrow> set rids \<subseteq> dom (content s tab)"
    and at_reads: "at T s tab sc rids \<Longrightarrow> db_reads T s t \<Longrightarrow> at T t tab sc rids"
    and at_end: "at T s tab sc rids \<Longrightarrow> scan_is_end sc = Inr (rids = [])"
    and at_get: "at T s tab sc (r # rids) \<Longrightarrow> \<exists>t. scan_rid sc s = (Inr r, t) \<and> db_reads T s t"
    and at_next: "at T s tab sc (r # rids) \<Longrightarrow>
      \<exists>sc' t. scan_next tab sc s = (Inr sc', t) \<and> db_reads T s t \<and> at T t tab sc' rids"

text \<open>Getting a record of the content.\<close>

lemma get_content:
  assumes o: "db_open T s" and r: "r \<in> dom (content s tab)"
  obtains fh t where "map_of (fhs s) tab = Some fh" "get_record fh r s = (Inr (the (content s tab r)), t)" "db_reads T s t"
proof -
  obtain fh where fh: "map_of (fhs s) tab = Some fh" using r by (auto simp: content_def split: option.splits)
  note F = table_file[OF o fh]
  have d: "r \<in> dom (rm_recs s fh)" using r F(2) by simp
  obtain t where t: "get_record fh r s = ((case rm_recs s fh r of Some x \<Rightarrow> Inr x
      | None \<Rightarrow> Inl (Throw (RecordNotFoundError (rid_page r) (rid_slot r)))), t)" "rm_wf t fh"
    "rm_recs t fh = rm_recs s fh" "rm_frame s (fh_fd fh) t"
    by (rule get_record_run[OF F(1) dom_rm_recs[OF d]])
  have "get_record fh r s = (Inr (the (content s tab r)), t)" using t(1) d F(2) by auto
  then show ?thesis using that fh table_read[OF o fh t(4,2,3)] by blast
qed

text \<open>The conditions of a table node on a stored record.\<close>

definition row_sat :: "TableNode \<Rightarrow> byte list \<Rightarrow> bool" where
  "row_sat tn data \<longleftrightarrow> eval_conds (tn_cols tn) (tn_fed_conds tn) data = Inr True"

definition row_defined :: "TableNode \<Rightarrow> byte list \<Rightarrow> bool" where
  "row_defined tn data \<longleftrightarrow> (\<exists>b. eval_conds (tn_cols tn) (tn_fed_conds tn) data = Inr b)"

definition rows_defined :: "TableNode \<Rightarrow> (RecordID \<rightharpoonup> byte list) \<Rightarrow> bool" where
  "rows_defined tn M \<longleftrightarrow> (\<forall>data \<in> ran M. row_defined tn data)"

definition hits :: "TableNode \<Rightarrow> (RecordID \<rightharpoonup> byte list) \<Rightarrow> RecordID list \<Rightarrow> RecordID list" where
  "hits tn M rids = filter (\<lambda>r. row_sat tn (the (M r))) rids"

lemma row_sat_node [simp]:
  "row_sat (tn\<lparr>tn_rid := r\<rparr>) = row_sat tn" "row_sat (tn\<lparr>tn_scan := sc\<rparr>) = row_sat tn"
  "rows_defined (tn\<lparr>tn_rid := r\<rparr>) = rows_defined tn" "rows_defined (tn\<lparr>tn_scan := sc\<rparr>) = rows_defined tn"
  "hits (tn\<lparr>tn_rid := r\<rparr>) = hits tn" "hits (tn\<lparr>tn_scan := sc\<rparr>) = hits tn"
  by (simp_all add: fun_eq_iff row_sat_def row_defined_def rows_defined_def hits_def)

text \<open>The conditions can be run on the table they are for.\<close>

definition conds_here :: "TableNode \<Rightarrow> bool" where
  "conds_here tn \<longleftrightarrow> list_all (\<lambda>c. tc_tab (lhs_col c) = tn_tab_name tn \<and>
     (is_rhs_val c \<or> tc_tab (rhs_col c) = tn_tab_name tn)) (tn_fed_conds tn)"

lemma check_runtime_conds_run [simp]: "conds_here tn \<Longrightarrow> check_runtime_conds tn s = (Inr (), s)"
  by (simp add: check_runtime_conds_def conds_here_def)

lemma conds_here_node [simp]:
  "conds_here (tn\<lparr>tn_rid := r\<rparr>) = conds_here tn" "conds_here (tn\<lparr>tn_scan := sc\<rparr>) = conds_here tn"
  by (simp_all add: conds_here_def)

lemma stopped_run [simp]: "stopped r s = (r, s)"
  by (simp add: stopped_def)

lemma andThen_stopped [simp]:
  "andThen (stopped (Inr x)) f s = f x s" "andThen (stopped (Inl e)) f s = (Inl e, s)"
  by (simp_all add: andThen_run)

lemma map_at_run [simp]:
  "map_of (m s) k = Some v \<Longrightarrow> map_at m k s = (Inr v, s)" "map_of (m s) k = None \<Longrightarrow> map_at m k s = (Inl OutOfRange, s)"
  by (simp_all add: map_at_def)

context record_iterator begin

text \<open>The scan stands at the ids \<open>all\<close> and the node at the first of them, which satisfies the conditions.\<close>

definition table_at :: "(string \<Rightarrow> bt) \<Rightarrow> 'z sm_state_scheme \<Rightarrow> TableNode \<Rightarrow> RecordID list \<Rightarrow> bool" where
  "table_at T s tn all \<longleftrightarrow> at T s (tn_tab_name tn) (tn_scan tn) all \<and> conds_here tn \<and>
     rows_defined tn (content s (tn_tab_name tn)) \<and>
     (all \<noteq> [] \<longrightarrow> tn_rid tn = hd all \<and> row_sat tn (the (content s (tn_tab_name tn) (hd all))))"

lemma table_at_reads: "table_at T s tn all \<Longrightarrow> db_reads T s t \<Longrightarrow> table_at T t tn all"
  unfolding table_at_def using at_reads db_reads_fields(4) by metis

lemma table_seek_run:
  assumes "at T s (tn_tab_name tn) (tn_scan tn) rids" "rows_defined tn (content s (tn_tab_name tn))" "conds_here tn"
    "length rids < fuel"
  shows "\<exists>all r sc t. table_seek fuel tn s = (Inr (tn\<lparr>tn_rid := r, tn_scan := sc\<rparr>), t) \<and> db_reads T s t \<and>
    table_at T t (tn\<lparr>tn_rid := r, tn_scan := sc\<rparr>) all \<and> length all \<le> length rids \<and>
    hits tn (content s (tn_tab_name tn)) all = hits tn (content s (tn_tab_name tn)) rids"
  using assms
proof (induction fuel arbitrary: tn rids s)
  case (Suc fuel)
  let ?tab = "tn_tab_name tn"
  note o = at_open[OF Suc.prems(1)]
  show ?case
  proof (cases rids)
    case Nil
    have "table_seek (Suc fuel) tn s = (Inr tn, s)" using at_end[OF Suc.prems(1)] Nil by simp
    moreover have "table_at T s tn []" using Suc.prems(1-3) Nil by (simp add: table_at_def)
    ultimately show ?thesis
      using Nil db_reads_refl[of T s] o
      by (intro exI[of _ "[]"] exI[of _ "tn_rid tn"] exI[of _ "tn_scan tn"] exI[of _ s]) simp
  next
    case (Cons r rest)
    have a: "at T s ?tab (tn_scan tn) (r # rest)" using Suc.prems(1) Cons by simp
    obtain t where t: "scan_rid (tn_scan tn) s = (Inr r, t)" "db_reads T s t" using at_get[OF a] by blast
    have r: "r \<in> dom (content t ?tab)" using at_dom[OF a] db_reads_fields(4)[OF t(2)] by auto
    obtain fh u where u: "map_of (fhs t) ?tab = Some fh" "get_record fh r t = (Inr (the (content t ?tab r)), u)" "db_reads T t u"
      by (rule get_content[OF db_reads_open[OF t(2)] r])
    note su = db_reads_trans[OF t(2) u(3)]
    have data: "the (content t ?tab r) = the (content s ?tab r)" using db_reads_fields(4)[OF t(2)] by simp
    have ran: "the (content s ?tab r) \<in> ran (content s ?tab)"
      using r db_reads_fields(4)[OF t(2)] by (auto intro: ranI)
    obtain b where b: "eval_conds (tn_cols tn) (tn_fed_conds tn) (the (content s ?tab r)) = Inr b"
      using Suc.prems(2) ran by (auto simp: rows_defined_def row_defined_def)
    note au = at_reads[OF a su]
    note cu = db_reads_fields(4)[OF su]
    show ?thesis
    proof (cases b)
      case True
      have "table_seek (Suc fuel) tn s = (Inr (tn\<lparr>tn_rid := r\<rparr>), u)"
        using at_end[OF a] t(1) u(1,2) b True data by simp
      moreover have "table_at T u (tn\<lparr>tn_rid := r\<rparr>) (r # rest)"
        using au Suc.prems(2,3) b True cu by (simp add: table_at_def row_sat_def)
      ultimately show ?thesis
        using su Cons by (intro exI[of _ "r # rest"] exI[of _ r] exI[of _ "tn_scan tn"] exI[of _ u]) simp
    next
      case False
      obtain sc v where v: "scan_next ?tab (tn_scan tn) u = (Inr sc, v)" "db_reads T u v" "at T v ?tab sc rest"
        using at_next[OF au] by blast
      note sv = db_reads_trans[OF su v(2)]
      note cv = db_reads_fields(4)[OF sv]
      let ?tn = "tn\<lparr>tn_rid := r, tn_scan := sc\<rparr>"
      have IH: "\<exists>all r' sc' w. table_seek fuel ?tn v = (Inr (?tn\<lparr>tn_rid := r', tn_scan := sc'\<rparr>), w) \<and> db_reads T v w \<and>
          table_at T w (?tn\<lparr>tn_rid := r', tn_scan := sc'\<rparr>) all \<and> length all \<le> length rest \<and>
          hits ?tn (content v ?tab) all = hits ?tn (content v ?tab) rest"
        using Suc.IH[of v ?tn rest] v(3) Suc.prems(2-4) Cons cv by simp
      then obtain all r' sc' w where w: "table_seek fuel ?tn v = (Inr (tn\<lparr>tn_rid := r', tn_scan := sc'\<rparr>), w)"
        "db_reads T v w" "table_at T w (tn\<lparr>tn_rid := r', tn_scan := sc'\<rparr>) all" "length all \<le> length rest"
        "hits tn (content v ?tab) all = hits tn (content v ?tab) rest" by auto
      have "table_seek (Suc fuel) tn s = (Inr (tn\<lparr>tn_rid := r', tn_scan := sc'\<rparr>), w)"
        using at_end[OF a] t(1) u(1,2) b False data v(1) w(1) by simp
      moreover have "hits tn (content s ?tab) all = hits tn (content s ?tab) rids"
        using w(5) cv b False Cons by (simp add: hits_def row_sat_def)
      moreover have "length all \<le> length rids" using w(4) Cons by simp
      ultimately show ?thesis using w(3) db_reads_trans[OF sv w(2)] by blast
    qed
  qed
qed simp

lemma table_is_end: "table_at T s tn all \<Longrightarrow> scan_is_end (tn_scan tn) = Inr (all = [])"
  unfolding table_at_def using at_end by blast

lemma table_next_run:
  assumes p: "table_at T s tn (r # rest)" and fuel: "length rest < fuel"
  shows "\<exists>all r' sc t. table_next fuel tn s = (Inr (tn\<lparr>tn_rid := r', tn_scan := sc\<rparr>), t) \<and> db_reads T s t \<and>
    table_at T t (tn\<lparr>tn_rid := r', tn_scan := sc\<rparr>) all \<and> length all \<le> length rest \<and>
    hits tn (content s (tn_tab_name tn)) all = hits tn (content s (tn_tab_name tn)) rest"
proof -
  let ?tab = "tn_tab_name tn"
  have a: "at T s ?tab (tn_scan tn) (r # rest)" and c: "conds_here tn" and d: "rows_defined tn (content s ?tab)"
    using p by (simp_all add: table_at_def)
  obtain sc t where t: "scan_next ?tab (tn_scan tn) s = (Inr sc, t)" "db_reads T s t" "at T t ?tab sc rest"
    using at_next[OF a] by blast
  note ct = db_reads_fields(4)[OF t(2)]
  have "\<exists>all r' sc' w. table_seek fuel (tn\<lparr>tn_scan := sc\<rparr>) t = (Inr (tn\<lparr>tn_scan := sc, tn_rid := r', tn_scan := sc'\<rparr>), w) \<and>
      db_reads T t w \<and> table_at T w (tn\<lparr>tn_scan := sc, tn_rid := r', tn_scan := sc'\<rparr>) all \<and> length all \<le> length rest \<and>
      hits (tn\<lparr>tn_scan := sc\<rparr>) (content t ?tab) all = hits (tn\<lparr>tn_scan := sc\<rparr>) (content t ?tab) rest"
    using table_seek_run[of T t "tn\<lparr>tn_scan := sc\<rparr>" rest fuel] t(3) c d ct fuel by simp
  then obtain all r' sc' w where w: "table_seek fuel (tn\<lparr>tn_scan := sc\<rparr>) t = (Inr (tn\<lparr>tn_rid := r', tn_scan := sc'\<rparr>), w)"
    "db_reads T t w" "table_at T w (tn\<lparr>tn_rid := r', tn_scan := sc'\<rparr>) all" "length all \<le> length rest"
    "hits tn (content t ?tab) all = hits tn (content t ?tab) rest" by auto
  have "table_next fuel tn s = (Inr (tn\<lparr>tn_rid := r', tn_scan := sc'\<rparr>), w)"
    using table_is_end[OF p] c t(1) w(1) by (simp add: table_next_def)
  then show ?thesis using w(3-5) ct db_reads_trans[OF t(2) w(2)] by metis
qed

text \<open>The loop of \<open>delete_from\<close> and \<open>update_set\<close> over a table node.\<close>

lemma collect_rids_run:
  assumes "table_at T s tn all" "length all + 1 < fuel"
  shows "\<exists>t. collect_rids fuel tn s = (Inr (hits tn (content s (tn_tab_name tn)) all), t) \<and> db_reads T s t"
  using assms
proof (induction fuel arbitrary: s tn all)
  case (Suc fuel)
  have o: "db_open T s" using Suc.prems(1) at_open by (auto simp: table_at_def)
  show ?case
  proof (cases all)
    case Nil
    then show ?thesis using table_is_end[OF Suc.prems(1)] db_reads_refl[OF o] by (simp add: hits_def)
  next
    case (Cons r rest)
    have p: "table_at T s tn (r # rest)" using Suc.prems(1) Cons by simp
    have f: "length rest < fuel" using Suc.prems(2) Cons by simp
    obtain all' r' sc t where t: "table_next fuel tn s = (Inr (tn\<lparr>tn_rid := r', tn_scan := sc\<rparr>), t)" "db_reads T s t"
      "table_at T t (tn\<lparr>tn_rid := r', tn_scan := sc\<rparr>) all'" "length all' \<le> length rest"
      "hits tn (content s (tn_tab_name tn)) all' = hits tn (content s (tn_tab_name tn)) rest"
      using table_next_run[OF p f] by blast
    have "length all' + 1 < fuel" using t(4) Suc.prems(2) Cons by simp
    from Suc.IH[OF t(3) this] obtain u where u: "collect_rids fuel (tn\<lparr>tn_rid := r', tn_scan := sc\<rparr>) t =
        (Inr (hits tn (content s (tn_tab_name tn)) all'), u)" "db_reads T t u"
      using db_reads_fields(4)[OF t(2)] by auto
    have "tn_rid tn = r" "row_sat tn (the (content s (tn_tab_name tn) r))" using p by (simp_all add: table_at_def)
    then have "collect_rids (Suc fuel) tn s = (Inr (hits tn (content s (tn_tab_name tn)) all), u)"
      using table_is_end[OF p] t(1,5) u(1) Cons by (simp add: hits_def)
    then show ?thesis using db_reads_trans[OF t(2) u(2)] by blast
  qed
qed simp

end

section \<open>Scanning a record file\<close>

definition rec_at :: "(string \<Rightarrow> bt) \<Rightarrow> 'z sm_state_scheme \<Rightarrow> string \<Rightarrow> scan \<Rightarrow> RecordID list \<Rightarrow> bool" where
  "rec_at T s tab sc rids \<longleftrightarrow> db_open T s \<and> map_of (fhs s) tab \<noteq> None \<and> (\<exists>rid. sc = RecScan rid \<and>
     (if rids = [] then rm_is_end rid
      else rid \<in> dom (content s tab) \<and> rids = sorted_list_of_set {x \<in> dom (content s tab). rid \<le> x}))"

lemma finite_content [simp]: "finite (dom (content s tab))"
  by (simp add: content_def split: option.split)

lemma content_rid:
  assumes "map_of (fhs s) tab = Some fh" "r \<in> dom (content s tab)"
  shows "valid_rid fh r" "\<not> rm_is_end r" "RM_FIRST_RECORD_PAGE \<le> rid_page r" "-1 \<le> rid_slot r"
    "rid_slot r < num_records_per_page (fh_hdr fh)"
proof -
  have "r \<in> dom (rm_recs s fh)" using assms by (simp add: content_def)
  from dom_rm_recs[OF this] show "valid_rid fh r" "\<not> rm_is_end r" "RM_FIRST_RECORD_PAGE \<le> rid_page r" "-1 \<le> rid_slot r"
    "rid_slot r < num_records_per_page (fh_hdr fh)"
    by (auto simp: valid_rid_def data_page_def rm_is_end_def RM_FIRST_RECORD_PAGE_def RM_NO_PAGE_def)
qed

text \<open>From a position behind which the next record is sought.\<close>

lemma scan_step:
  assumes o: "db_open T s" and fh: "map_of (fhs s) tab = Some fh"
    and rid: "RM_FIRST_RECORD_PAGE \<le> rid_page rid" "-1 \<le> rid_slot rid" "rid_slot rid < num_records_per_page (fh_hdr fh)"
  shows "\<exists>r t. rm_next fh rid s = (Inr r, t) \<and> db_reads T s t \<and>
    rec_at T t tab (RecScan r) (sorted_list_of_set {x \<in> dom (content s tab). rid < x})"
proof -
  note F = table_file[OF o fh]
  obtain r t where t: "rm_next fh rid s = (Inr r, t)" "rm_wf t fh" "rm_recs t fh = rm_recs s fh"
    "rm_frame s (fh_fd fh) t" "next_rid (rm_recs s fh) rid r"
    by (rule rm_next_run[OF F(1) rid])
  let ?M = "content s tab"
  have rd: "db_reads T s t" by (rule table_read[OF o fh t(4,2,3)])
  note R = db_reads_fields[OF rd]
  have fin: "finite {x \<in> dom ?M. rid < x}" by simp
  have "rec_at T t tab (RecScan r) (sorted_list_of_set {x \<in> dom ?M. rid < x})"
  proof (cases "rm_is_end r")
    case True
    then have "{x \<in> dom ?M. rid < x} = {}" using t(5) F(2) by (force simp: next_rid_def)
    then show ?thesis using True db_reads_open[OF rd] fh R by (simp add: rec_at_def)
  next
    case False
    then have r: "r \<in> dom ?M" "rid < r" "\<And>x. x \<in> dom ?M \<Longrightarrow> rid < x \<Longrightarrow> r \<le> x"
      using t(5) F(2) by (auto simp: next_rid_def)
    then have "{x \<in> dom ?M. rid < x} = {x \<in> dom ?M. r \<le> x}" by (auto intro: order.strict_trans2)
    moreover have "sorted_list_of_set {x \<in> dom ?M. rid < x} \<noteq> []"
      using r(1,2) fin by (auto simp only: sorted_list_of_set_eq_Nil_iff)
    ultimately show ?thesis using r(1) db_reads_open[OF rd] fh R by (auto simp: rec_at_def)
  qed
  then show ?thesis using t(1) rd by blast
qed

lemma rec_at_Cons:
  assumes "rec_at T s tab sc (r # rids)"
  shows "sc = RecScan r" "r \<in> dom (content s tab)" "db_open T s"
    "rids = sorted_list_of_set {x \<in> dom (content s tab). r < x}"
proof -
  obtain rid where d: "db_open T s" "sc = RecScan rid" "rid \<in> dom (content s tab)"
    "r # rids = sorted_list_of_set {x \<in> dom (content s tab). rid \<le> x}"
    using assms by (auto simp: rec_at_def split: if_splits)
  have "sorted_list_of_set {x \<in> dom (content s tab). rid \<le> x} =
      rid # sorted_list_of_set ({x \<in> dom (content s tab). rid \<le> x} - {rid})"
    by (rule sorted_least) (use d(3) in auto)
  moreover have "{x \<in> dom (content s tab). rid \<le> x} - {rid} = {x \<in> dom (content s tab). rid < x}" by auto
  ultimately have "r = rid" "rids = sorted_list_of_set {x \<in> dom (content s tab). rid < x}" using d(4) by simp_all
  then show "sc = RecScan r" "r \<in> dom (content s tab)" "db_open T s"
    "rids = sorted_list_of_set {x \<in> dom (content s tab). r < x}" using d(1-3) by simp_all
qed

interpretation rec: record_iterator rec_at
proof (unfold_locales, goal_cases)
  case (1 T s tab sc rids)
  then show ?case by (auto simp: rec_at_def)
next
  case (2 T s tab sc rids)
  have "set (sorted_list_of_set A) \<subseteq> dom (content s tab)" if "A \<subseteq> dom (content s tab)" for A
    using that finite_subset[OF that finite_content] by simp
  then show ?case using 2 by (auto simp: rec_at_def split: if_splits)
next
  case (3 T s tab sc rids t)
  then show ?case using db_reads_fields[OF 3(2)] db_reads_open[OF 3(2)] unfolding rec_at_def by metis
next
  case (4 T s tab sc rids)
  show ?case
  proof (cases rids)
    case Nil
    then show ?thesis using 4 by (auto simp: rec_at_def)
  next
    case (Cons r rs)
    then have p: "rec_at T s tab sc (r # rs)" using 4 by simp
    then obtain fh where "map_of (fhs s) tab = Some fh" by (auto simp: rec_at_def)
    then show ?thesis using rec_at_Cons(1,2)[OF p] content_rid(2)[of s tab fh r] Cons by simp
  qed
next
  case (5 T s tab sc r rids)
  then show ?case using rec_at_Cons[OF 5] db_reads_refl[of T s] by auto
next
  case (6 T s tab sc r rids)
  note C = rec_at_Cons[OF 6]
  obtain fh where fh: "map_of (fhs s) tab = Some fh" using 6 by (auto simp: rec_at_def)
  from scan_step[OF C(3) fh content_rid(3-5)[OF fh C(2)]] show ?case using C(1,4) fh by auto
qed

lemma rec_begin:
  assumes o: "db_open T s" and fh: "map_of (fhs s) tab = Some fh"
  shows "\<exists>r t. RM_Iterator fh s = (Inr r, t) \<and> db_reads T s t \<and>
    rec_at T t tab (RecScan r) (sorted_list_of_set (dom (content s tab)))"
proof -
  have "hdr_ok (fh_hdr fh)" using table_file[OF o fh] by (simp add: rm_wf_def rm_ok_def)
  then have "-1 < num_records_per_page (fh_hdr fh)" by (simp add: hdr_ok_def)
  then obtain r t where t: "rm_next fh (RecordID RM_FIRST_RECORD_PAGE (-1)) s = (Inr r, t)" "db_reads T s t"
    "rec_at T t tab (RecScan r) (sorted_list_of_set {x \<in> dom (content s tab). RecordID RM_FIRST_RECORD_PAGE (-1) < x})"
    using scan_step[OF o fh, of "RecordID RM_FIRST_RECORD_PAGE (-1)"] by auto
  have "RecordID RM_FIRST_RECORD_PAGE (-1) < x" if "x \<in> dom (content s tab)" for x
    using content_rid(1)[OF fh that] by (auto simp: valid_rid_def data_page_def less_RecordID_def)
  then have "{x \<in> dom (content s tab). RecordID RM_FIRST_RECORD_PAGE (-1) < x} = dom (content s tab)" by blast
  then show ?thesis using t by (auto simp: RM_Iterator_def)
qed

section \<open>Scanning an interval of an index\<close>

definition idx_at :: "(string \<Rightarrow> bt) \<Rightarrow> 'z sm_state_scheme \<Rightarrow> string \<Rightarrow> scan \<Rightarrow> RecordID list \<Rightarrow> bool" where
  "idx_at T s tab sc rids \<longleftrightarrow> db_open T s \<and> map_of (fhs s) tab \<noteq> None \<and> set rids \<subseteq> dom (content s tab) \<and>
     (\<exists>name m n. sc = NdxScan name \<lparr>current_index = pos_id (bt_leaves (T name)) m, end_index = pos_id (bt_leaves (T name)) n\<rparr> \<and>
       map_of (ihs s) name \<noteq> None \<and> m \<le> n \<and> n \<le> length (bt_entries (T name)) \<and>
       rids = map snd (take (n - m) (drop m (bt_entries (T name)))))"

lemma idx_atE:
  assumes "idx_at T s tab sc rids"
  obtains name m n ih where "db_open T s" "map_of (fhs s) tab \<noteq> None" "set rids \<subseteq> dom (content s tab)"
    "sc = NdxScan name \<lparr>current_index = pos_id (bt_leaves (T name)) m, end_index = pos_id (bt_leaves (T name)) n\<rparr>"
    "map_of (ihs s) name = Some ih" "ix_wf s ih (T name)" "m \<le> n" "n \<le> length (bt_entries (T name))"
    "rids = map snd (take (n - m) (drop m (bt_entries (T name))))"
proof -
  obtain name m n ih where *: "db_open T s" "map_of (fhs s) tab \<noteq> None" "set rids \<subseteq> dom (content s tab)"
    "sc = NdxScan name \<lparr>current_index = pos_id (bt_leaves (T name)) m, end_index = pos_id (bt_leaves (T name)) n\<rparr>"
    "map_of (ihs s) name = Some ih" "m \<le> n" "n \<le> length (bt_entries (T name))"
    "rids = map snd (take (n - m) (drop m (bt_entries (T name))))"
    using assms unfolding idx_at_def by blast
  show thesis by (rule that[OF *(1-5) index_file[OF *(1,5)] *(6-8)])
qed

lemma idx_at_reads: "idx_at T s tab sc rids \<Longrightarrow> db_reads T s t \<Longrightarrow> idx_at T t tab sc rids"
  unfolding idx_at_def using db_reads_fields[of T s t] db_reads_open[of T s t] by metis

lemma idx_is_end:
  assumes "idx_at T s tab sc rids"
  shows "scan_is_end sc = Inr (rids = [])"
proof -
  obtain name m n ih where a: "sc = NdxScan name \<lparr>current_index = pos_id (bt_leaves (T name)) m, end_index = pos_id (bt_leaves (T name)) n\<rparr>"
    "ix_wf s ih (T name)" "m \<le> n" "n \<le> length (bt_entries (T name))"
    "rids = map snd (take (n - m) (drop m (bt_entries (T name))))"
    by (rule idx_atE[OF assms])
  have "pos_id (bt_leaves (T name)) m = pos_id (bt_leaves (T name)) n \<longleftrightarrow> m = n"
    using pos_id_inj[OF ix_wf_tree(2)[OF a(2)], of m n] a(3,4) tree_entries[of "T name"] by auto
  moreover have "rids = [] \<longleftrightarrow> m = n" using a(3-5) by auto
  ultimately show ?thesis by (simp add: a(1) ix_is_end_def)
qed

lemma idx_at_Cons:
  assumes "idx_at T s tab sc (r # rids)"
  shows "\<exists>t. scan_rid sc s = (Inr r, t) \<and> db_reads T s t"
    "\<exists>sc' t. scan_next tab sc s = (Inr sc', t) \<and> db_reads T s t \<and> idx_at T t tab sc' rids"
proof -
  obtain name m n ih where a: "db_open T s" "map_of (fhs s) tab \<noteq> None" "set (r # rids) \<subseteq> dom (content s tab)"
    "sc = NdxScan name \<lparr>current_index = pos_id (bt_leaves (T name)) m, end_index = pos_id (bt_leaves (T name)) n\<rparr>"
    "map_of (ihs s) name = Some ih" "ix_wf s ih (T name)" "m \<le> n" "n \<le> length (bt_entries (T name))"
    "r # rids = map snd (take (n - m) (drop m (bt_entries (T name))))"
    by (rule idx_atE[OF assms])
  let ?it = "\<lparr>current_index = pos_id (bt_leaves (T name)) m, end_index = pos_id (bt_leaves (T name)) n\<rparr>"
  have m: "m < n" using a(9) by (cases "m = n") (use a(7) in auto)
  have ml: "m < length (bt_entries (T name))" using m a(8) by simp
  have "take (n - m) (drop m (bt_entries (T name))) =
      bt_entries (T name) ! m # take (n - Suc m) (drop (Suc m) (bt_entries (T name)))"
    using m ml by (simp add: Cons_nth_drop_Suc[symmetric] take_Cons')
  then have rr: "snd (bt_entries (T name) ! m) = r" "rids = map snd (take (n - Suc m) (drop (Suc m) (bt_entries (T name))))"
    using a(9) by simp_all
  obtain u where u: "ix_get_RecordID ?it (ih, s) = (Inr (snd (bt_entries (T name) ! m)), (ih, u))" "looked (ih_fd ih) s u"
    by (rule ix_get_RecordID_run[OF a(6) ml, of ?it]) simp_all
  show "\<exists>t. scan_rid sc s = (Inr r, t) \<and> db_reads T s t"
    using on_index_run[where m = "ix_get_RecordID ?it", OF a(1,5) u] a(4) rr(1) by auto
  have ne: "end_index ?it \<noteq> current_index ?it"
    using pos_id_inj[OF ix_wf_tree(2)[OF a(6)], of m n] m a(7,8) tree_entries[of "T name"] by auto
  obtain v where v: "ix_next ?it (ih, s) = (Inr (?it\<lparr>current_index := pos_id (bt_leaves (T name)) (Suc m)\<rparr>), (ih, v))"
    "looked (ih_fd ih) s v"
    by (rule ix_next_run[OF a(6) ml _ ne]) simp_all
  note w = on_index_run[where m = "ix_next ?it", OF a(1,5) v]
  let ?sc = "NdxScan name (?it\<lparr>current_index := pos_id (bt_leaves (T name)) (Suc m)\<rparr>)"
  have "scan_next tab sc s = (Inr ?sc, v)" using w(1) a(4) by simp
  moreover have "idx_at T v tab ?sc rids"
  proof -
    note R = db_reads_fields[OF w(2)]
    have "m < n" "set rids \<subseteq> dom (content v tab)" "map_of (fhs v) tab \<noteq> None" "map_of (ihs v) name \<noteq> None"
      using m a(2,3,5) R by simp_all
    then show ?thesis
      unfolding idx_at_def using db_reads_open[OF w(2)] rr(2) a(8)
      by (intro conjI exI[of _ name] exI[of _ "Suc m"] exI[of _ n]) simp_all
  qed
  ultimately show "\<exists>sc' t. scan_next tab sc s = (Inr sc', t) \<and> db_reads T s t \<and> idx_at T t tab sc' rids"
    using w(2) by blast
qed

interpretation idx: record_iterator idx_at
proof (unfold_locales, goal_cases)
  case (1 T s tab sc rids)
  then show ?case by (auto simp: idx_at_def)
next
  case (2 T s tab sc rids)
  then show ?case by (auto simp: idx_at_def)
next
  case (3 T s tab sc rids t)
  then show ?case by (rule idx_at_reads)
next
  case (4 T s tab sc rids)
  then show ?case by (rule idx_is_end)
next
  case (5 T s tab sc r rids)
  then show ?case by (rule idx_at_Cons(1))
next
  case (6 T s tab sc r rids)
  then show ?case by (rule idx_at_Cons(2))
qed

end
