(* ===== verification/QlTable.thy ===== *)
theory QlTable
  imports QlScan
begin

text \<open>
  Starting a table node: which iterator it takes and what that iterator stands at. An index
  gives the records whose key passes the first condition on the indexed column, in key order;
  no index gives all records in the order of the file. Either way the records that satisfy all
  conditions are the same.
\<close>

section \<open>Either iterator\<close>

definition scan_at :: "(string \<Rightarrow> bt) \<Rightarrow> 'z sm_state_scheme \<Rightarrow> string \<Rightarrow> scan \<Rightarrow> RecordID list \<Rightarrow> bool" where
  "scan_at T s tab sc rids \<longleftrightarrow> rec_at T s tab sc rids \<or> idx_at T s tab sc rids"

interpretation any: record_iterator scan_at
proof (unfold_locales, goal_cases)
  case (1 T s tab sc rids)
  then show ?case unfolding scan_at_def using rec.at_open idx.at_open by blast
next
  case (2 T s tab sc rids)
  then show ?case unfolding scan_at_def using rec.at_dom idx.at_dom by blast
next
  case (3 T s tab sc rids t)
  then show ?case unfolding scan_at_def using rec.at_reads idx.at_reads by blast
next
  case (4 T s tab sc rids)
  then show ?case unfolding scan_at_def using rec.at_end idx.at_end by blast
next
  case (5 T s tab sc r rids)
  then show ?case unfolding scan_at_def using rec.at_get idx.at_get by blast
next
  case (6 T s tab sc r rids)
  then show ?case unfolding scan_at_def using rec.at_next idx.at_next by meson
qed

section \<open>Intervals of an index\<close>

lemma first_pos_const: "first_pos (\<lambda>_. True) xs = 0" "first_pos (\<lambda>_. False) xs = length xs"
  by (induction xs) (simp_all add: first_pos_def)

lemma leaf_begin_run:
  assumes wf: "ix_wf s ih t"
  shows "leaf_begin (ih, s) = (Inr (pos_id (bt_leaves t) 0), (ih, s))"
proof -
  note L = ix_wf_tree(1,3)[OF wf]
  have "first_leaf (index_header ih) = hd (leaf_pages t)" using wf unfolding ix_wf_def ix_tree_def by blast
  moreover have "pos_id (bt_leaves t) 0 = IndexID (hd (leaf_pages t)) 0"
  proof (cases "bt_entries t = []")
    case True
    have "bt_shape t" using wf unfolding ix_wf_def ix_tree_def by blast
    moreover have "\<not> bt_ok t"
    proof
      assume "bt_ok t"
      then have "snd (hd (bt_leaves t)) \<noteq> []" using bt_ok_leaves[OF _ hd_in_set[OF L(1)]] by blast
      then show False using True hd_in_set[OF L(1)] by (auto simp: bt_entries_def leaf_entries_def)
    qed
    ultimately have "\<exists>p. t = Leaf p []" by (auto simp: bt_shape_def)
    then show ?thesis by auto
  next
    case False
    then obtain p es ls where l: "bt_leaves t = (p, es) # ls" "es \<noteq> []" using L by (cases "bt_leaves t") fastforce+
    then show ?thesis by (cases ls) simp_all
  qed
  ultimately show ?thesis by (simp add: leaf_begin_def the_header_def)
qed

text \<open>Which entries lie between the bounds \<open>begin\<close> takes for a comparison with \<open>k\<close>.\<close>

definition below_op :: "IndexFileHeader \<Rightarrow> byte list \<Rightarrow> CompOp \<Rightarrow> byte list \<Rightarrow> bool" where
  "below_op h k op x = (case op of OP_EQ \<Rightarrow> key_cmp h k x \<le> 0 | OP_LT \<Rightarrow> True | OP_GT \<Rightarrow> key_cmp h k x < 0
     | OP_LE \<Rightarrow> True | OP_GE \<Rightarrow> key_cmp h k x \<le> 0 | OP_NE \<Rightarrow> True)"

definition above_op :: "IndexFileHeader \<Rightarrow> byte list \<Rightarrow> CompOp \<Rightarrow> byte list \<Rightarrow> bool" where
  "above_op h k op x = (case op of OP_EQ \<Rightarrow> key_cmp h k x < 0 | OP_LT \<Rightarrow> key_cmp h k x \<le> 0 | OP_GT \<Rightarrow> False
     | OP_LE \<Rightarrow> key_cmp h k x < 0 | OP_GE \<Rightarrow> False | OP_NE \<Rightarrow> False)"

lemma op_interval:
  assumes "column_type h \<noteq> TYPE_DATETIME" "key_ok h k" "key_ok h x" "op \<noteq> OP_NE"
  shows "below_op h k op x \<and> \<not> above_op h k op x \<longleftrightarrow> test_op op (key_cmp h x k)"
proof -
  note ord = key_cmp_order[OF assms(1)]
  have "key_cmp h x k < 0 \<longleftrightarrow> 0 < key_cmp h k x" "key_cmp h k x < 0 \<longleftrightarrow> 0 < key_cmp h x k"
    using key_order.cmp_anti[OF ord assms(2,3)] key_order.cmp_anti[OF ord assms(3,2)] by simp_all
  then show ?thesis using assms(4) by (cases op) (auto simp: below_op_def above_op_def)
qed

lemma op_upward:
  assumes "ix_wf s ih t" "key_ok (index_header ih) k"
  shows "upward (below_op (index_header ih) k op) (map fst (bt_entries t))"
    "upward (above_op (index_header ih) k op) (map fst (bt_entries t))"
proof -
  have tr: "ix_layout (index_header ih)" "column_type (index_header ih) \<noteq> TYPE_DATETIME" "keys_ok (index_header ih) t"
    using assms(1) unfolding ix_wf_def ix_tree_def by blast+
  have up: "upward (\<lambda>x. key_cmp (index_header ih) k x \<le> 0) (map fst (bt_entries t))"
    "upward (\<lambda>x. key_cmp (index_header ih) k x < 0) (map fst (bt_entries t))"
    using searches_lower[OF tr(1,2) assms(2)] tr(3) by (simp_all add: searches_def keys_ok_def)
  have triv: "sorted_wrt (\<lambda>a b. True) xs" for xs :: "byte list list" by (induction xs) simp_all
  show "upward (below_op (index_header ih) k op) (map fst (bt_entries t))"
    "upward (above_op (index_header ih) k op) (map fst (bt_entries t))"
    using up triv by (cases op; simp add: below_op_def above_op_def)+
qed

lemma index_interval_run:
  assumes wf: "ix_wf s ih t"
    and c: "find (\<lambda>c. is_rhs_val c \<and> cond_op c \<noteq> OP_NE \<and> tc_col (lhs_col c) = col_name) conds = Some c"
      "v_raw (rhs_val c) = Some k" "key_ok (index_header ih) k"
  obtains lo hi u where "index_interval col_name conds (ih, s) = (Inr (pos_id (bt_leaves t) lo, pos_id (bt_leaves t) hi), (ih, u))"
    "looked (ih_fd ih) s u" "lo \<le> hi" "hi \<le> length (bt_entries t)"
    "take (hi - lo) (drop lo (bt_entries t)) =
      filter (\<lambda>e. test_op (cond_op c) (key_cmp (index_header ih) (fst e) k)) (bt_entries t)"
proof -
  let ?h = "index_header ih" and ?op = "cond_op c" and ?K = "map fst (bt_entries t)"
  let ?lo = "first_pos (below_op ?h k ?op) ?K" and ?hi = "first_pos (above_op ?h k ?op) ?K"
  have tr: "ix_layout ?h" "column_type ?h \<noteq> TYPE_DATETIME" "keys_ok ?h t"
    using wf unfolding ix_wf_def ix_tree_def by blast+
  have op: "?op \<noteq> OP_NE" using c(1) by (auto simp: find_Some_iff)
  note se = searches_lower[OF tr(1,2) c(3)]
  have bounds: "\<exists>v. index_lower_bound k (ih, u) = (Inr (pos_id (bt_leaves t) (first_pos (\<lambda>x. key_cmp ?h k x \<le> 0) ?K)), (ih, v)) \<and> looked (ih_fd ih) u v"
    "\<exists>v. index_upper_bound k (ih, u) = (Inr (pos_id (bt_leaves t) (first_pos (\<lambda>x. key_cmp ?h k x < 0) ?K)), (ih, v)) \<and> looked (ih_fd ih) u v"
    if "ix_wf u ih t" for u
    using index_bound_run[OF that se(1)] index_bound_run[OF that se(2)]
    unfolding index_lower_bound_def index_upper_bound_def by metis+
  obtain u where u: "leaf_end (ih, s) = (Inr (pos_id (bt_leaves t) (length (bt_entries t))), (ih, u))" "looked (ih_fd ih) s u"
    by (rule leaf_end_run[OF wf])
  have wfu: "ix_wf u ih t" by (rule looked_ix_wf[OF wf u(2)])
  obtain v where v: "index_lower_bound k (ih, u) = (Inr (pos_id (bt_leaves t) (first_pos (\<lambda>x. key_cmp ?h k x \<le> 0) ?K)), (ih, v))" "looked (ih_fd ih) u v"
    using bounds(1)[OF wfu] by blast
  obtain w where w: "index_upper_bound k (ih, u) = (Inr (pos_id (bt_leaves t) (first_pos (\<lambda>x. key_cmp ?h k x < 0) ?K)), (ih, w))" "looked (ih_fd ih) u w"
    using bounds(2)[OF wfu] by blast
  obtain w' where w': "index_upper_bound k (ih, v) = (Inr (pos_id (bt_leaves t) (first_pos (\<lambda>x. key_cmp ?h k x < 0) ?K)), (ih, w'))" "looked (ih_fd ih) v w'"
    using bounds(2)[OF looked_ix_wf[OF wfu v(2)]] by blast
  note look = looked_trans[OF u(2) v(2)] looked_trans[OF u(2) w(2)] looked_trans[OF looked_trans[OF u(2) v(2)] w'(2)]
  have "\<exists>z. index_interval col_name conds (ih, s) = (Inr (pos_id (bt_leaves t) ?lo, pos_id (bt_leaves t) ?hi), (ih, z)) \<and>
      looked (ih_fd ih) s z"
    using op c(1,2) leaf_begin_run[OF wf] u(1) v(1) w(1) w'(1) look
    by (cases ?op) (simp_all add: index_interval_def below_op_def[abs_def] above_op_def[abs_def] first_pos_const)
  then obtain z where z: "index_interval col_name conds (ih, s) = (Inr (pos_id (bt_leaves t) ?lo, pos_id (bt_leaves t) ?hi), (ih, z))"
    "looked (ih_fd ih) s z" by blast
  have imp: "above_op ?h k ?op x \<Longrightarrow> below_op ?h k ?op x" for x by (cases ?op) (simp_all add: below_op_def above_op_def)
  have up': "upward (\<lambda>e. below_op ?h k ?op (fst e)) (bt_entries t)" "upward (\<lambda>e. above_op ?h k ?op (fst e)) (bt_entries t)"
    using op_upward[OF wf c(3), of ?op] by (simp_all add: sorted_wrt_map)
  have flt: "filter (\<lambda>e. below_op ?h k ?op (fst e) \<and> \<not> above_op ?h k ?op (fst e)) (bt_entries t) =
      filter (\<lambda>e. test_op ?op (key_cmp ?h (fst e) k)) (bt_entries t)"
    by (rule filter_cong) (use op_interval[OF tr(2) c(3) _ op] tr(3) in \<open>auto simp: keys_ok_def\<close>)
  have r: "?lo \<le> ?hi \<and> take (?hi - ?lo) (drop ?lo (bt_entries t)) = filter (\<lambda>e. test_op ?op (key_cmp ?h (fst e) k)) (bt_entries t)"
    using first_pos_range[OF up'] imp unfolding flt by (simp add: first_pos_map)
  have "?hi \<le> length (bt_entries t)" using first_pos_le[of "above_op ?h k ?op" ?K] by simp
  then show thesis using that[OF z] r by blast
qed

section \<open>Tables and their indexes\<close>

text \<open>The columns of a table: named apart, with lengths that are those of their types.\<close>

definition col_sized :: "Column_Metadata \<Rightarrow> bool" where
  "col_sized col \<longleftrightarrow> 0 \<le> cm_offset col \<and> 0 \<le> cm_len col \<and> key_size (cm_type col) (cm_len col) = nat (cm_len col)"

definition cols_named :: "string \<Rightarrow> Column_Metadata list \<Rightarrow> bool" where
  "cols_named name cols \<longleftrightarrow> cols \<noteq> [] \<and> distinct (map cm_name cols) \<and>
     (\<forall>c \<in> set cols. cm_tab_name c = name \<and> col_sized c)"

definition table_meta :: "'z sm_state_scheme \<Rightarrow> string \<Rightarrow> Table_Metadata \<Rightarrow> bool" where
  "table_meta s name tab \<longleftrightarrow> map_of (dm_tabs (db s)) name = Some tab \<and> map_of (fhs s) name \<noteq> None \<and>
     cols_named name (tm_cols tab)"

text \<open>An index holds the key of every record with its id, and nothing else.\<close>

definition index_agrees :: "(string \<Rightarrow> bt) \<Rightarrow> 'z sm_state_scheme \<Rightarrow> string \<Rightarrow> Table_Metadata \<Rightarrow> nat \<Rightarrow> bool" where
  "index_agrees T s name tab i \<longleftrightarrow> (let n = get_index_name name (int i); col = tm_cols tab ! i in
     (\<exists>ih. map_of (ihs s) n = Some ih \<and> column_type (index_header ih) = cm_type col \<and> col_len (index_header ih) = cm_len col) \<and>
     distinct (map snd (bt_entries (T n))) \<and>
     set (bt_entries (T n)) = (\<lambda>r. (column_key col (the (content s name r)), r)) ` dom (content s name))"

definition indexes_agree :: "(string \<Rightarrow> bt) \<Rightarrow> 'z sm_state_scheme \<Rightarrow> string \<Rightarrow> Table_Metadata \<Rightarrow> bool" where
  "indexes_agree T s name tab \<longleftrightarrow> (\<forall>i < length (tm_cols tab). cm_index (tm_cols tab ! i) \<longrightarrow> index_agrees T s name tab i)"

lemma table_meta_reads: "table_meta s name tab \<Longrightarrow> db_reads T s t \<Longrightarrow> table_meta t name tab"
  by (simp add: table_meta_def db_reads_fields)

lemma indexes_agree_reads: "indexes_agree T s name tab \<Longrightarrow> db_reads T s t \<Longrightarrow> indexes_agree T t name tab"
  by (simp add: indexes_agree_def index_agrees_def db_reads_fields)

text \<open>What a condition compares its column with, when it is a value.\<close>

definition key_for :: "Column_Metadata \<Rightarrow> byte list \<Rightarrow> bool" where
  "key_for col k \<longleftrightarrow> length k = nat (cm_len col) \<and> (cm_type col = TYPE_FLOAT \<longrightarrow> \<not> float_nan (float_bits k))"

definition fed_cond_ok :: "Column_Metadata list \<Rightarrow> Condition \<Rightarrow> bool" where
  "fed_cond_ok cols c \<longleftrightarrow> (\<exists>i < length cols. cm_name (cols ! i) = tc_col (lhs_col c) \<and>
     (is_rhs_val c \<longrightarrow> (\<exists>k. v_raw (rhs_val c) = Some k \<and> key_for (cols ! i) k)))"

definition fed_ok :: "TableNode \<Rightarrow> bool" where
  "fed_ok tn \<longleftrightarrow> (\<forall>c \<in> set (tn_fed_conds tn). fed_cond_ok (tn_cols tn) c)"

section \<open>Finding columns\<close>

lemma ql_get_col_Inr:
  "ql_get_col cols t = Inr i \<longleftrightarrow> i < length cols \<and> (cm_tab_name (cols ! i) = tc_tab t \<and> cm_name (cols ! i) = tc_col t) \<and>
     (\<forall>j < i. \<not> (cm_tab_name (cols ! j) = tc_tab t \<and> cm_name (cols ! j) = tc_col t))"
  unfolding find_if_pos[where P = "\<lambda>c. cm_tab_name c = tc_tab t \<and> cm_name c = tc_col t", symmetric] ql_get_col_def Let_def
  using length_takeWhile_le[of "\<lambda>c. \<not> (cm_tab_name c = tc_tab t \<and> cm_name c = tc_col t)" cols] by (auto simp: le_less)

lemma named_unique:
  assumes "cols_named name cols" "i < length cols" "j < length cols" "cm_name (cols ! i) = cm_name (cols ! j)"
  shows "i = j"
  using assms nth_eq_iff_index_eq[of "map cm_name cols" i j] by (simp add: cols_named_def)

lemma get_col_named:
  assumes "cols_named name (tm_cols tab)" "i < length (tm_cols tab)"
  shows "get_col tab (cm_name (tm_cols tab ! i)) = Inr i"
  unfolding get_col_Inr using assms named_unique[OF assms(1)] by (metis nat_neq_iff order.strict_trans)

lemma ql_get_col_named:
  assumes "cols_named name cols" "i < length cols"
  shows "ql_get_col cols (TabCol name (cm_name (cols ! i))) = Inr i"
  unfolding ql_get_col_Inr using assms named_unique[OF assms(1)]
  by (metis TabCol.sel cols_named_def nat_neq_iff nth_mem order.strict_trans)

section \<open>Starting\<close>

lemma eval_conds_all:
  "eval_conds cols cs data = Inr True \<longleftrightarrow> (\<forall>c \<in> set cs. eval_cond cols c data = Inr True)"
  by (induction cs) (auto split: sum.splits if_splits)

text \<open>A comparison reads the bytes of the key only.\<close>

lemma compare_key_prefix:
  assumes "key_size ty (int n) = n" "ty \<noteq> TYPE_DATETIME"
  shows "compare_keys (take n a) k ty n = compare_keys a k ty n"
proof (cases ty)
  case TYPE_INT
  then show ?thesis using assms by (simp add: key_size_def compare_keys_def load_int_def load_def)
next
  case TYPE_FLOAT
  then show ?thesis using assms by (simp add: key_size_def compare_keys_def float_bits_def)
qed (use assms in \<open>simp_all add: compare_keys_def\<close>)

lemma cond_on_key:
  assumes named: "cols_named name cols" and i: "i < length cols" "lhs_col c = TabCol name (cm_name (cols ! i))"
    and c: "is_rhs_val c" "v_raw (rhs_val c) = Some k" "key_for (cols ! i) k"
    and h: "column_type h = cm_type (cols ! i)" "col_len h = cm_len (cols ! i)" "column_type h \<noteq> TYPE_DATETIME"
    and e: "eval_cond cols c data = Inr True"
  shows "test_op (cond_op c) (key_cmp h (column_key (cols ! i) data) k)"
proof -
  let ?col = "cols ! i" and ?n = "nat (cm_len (cols ! i))"
  have sz: "col_sized ?col" using named i(1) by (auto simp: cols_named_def)
  have g: "ql_get_col cols (lhs_col c) = Inr i" using ql_get_col_named[OF named i(1)] i(2) by simp
  obtain cmp where cmp: "compare_keys (drop (nat (cm_offset ?col)) data) k (cm_type ?col) ?n = Inr cmp" "test_op (cond_op c) cmp"
    using e g c(1,2) by (auto simp: eval_cond_def rhs_operand_def Let_def split: if_splits sum.splits)
  have "key_size (cm_type ?col) (int ?n) = ?n" using sz by (simp add: col_sized_def)
  then have "compare_keys (column_key ?col data) k (cm_type ?col) ?n = Inr cmp"
    using cmp(1) compare_key_prefix h(1,3) by (simp add: column_key_def load_def)
  then show ?thesis using cmp(2) h(1,2) by (simp add: key_cmp_def)
qed

lemma find_index_Some:
  assumes "find_index tab cs = Inr (Some i)"
  shows "i < length (tm_cols tab)" "cm_index (tm_cols tab ! i)"
    "\<exists>c \<in> set cs. is_rhs_val c \<and> cond_op c \<noteq> OP_NE \<and> tc_col (lhs_col c) = cm_name (tm_cols tab ! i)"
  using assms
proof (induction cs)
  case (Cons c cs)
  case 1
  then show ?case using Cons by (auto simp: get_col_Inr split: if_splits sum.splits)
next
  case (Cons c cs)
  case 2
  then show ?case using Cons by (auto simp: get_col_Inr split: if_splits sum.splits)
next
  case (Cons c cs)
  case 3
  then show ?case using Cons by (auto simp: get_col_Inr split: if_splits sum.splits)
qed simp_all

lemma find_index_runs:
  assumes "cols_named name (tm_cols tab)" "\<forall>c \<in> set cs. fed_cond_ok (tm_cols tab) c"
  shows "\<exists>r. find_index tab cs = Inr r"
  using assms(2)
proof (induction cs)
  case (Cons c cs)
  then obtain i where i: "i < length (tm_cols tab)" "cm_name (tm_cols tab ! i) = tc_col (lhs_col c)"
    by (auto simp: fed_cond_ok_def)
  then have "get_col tab (tc_col (lhs_col c)) = Inr i" using get_col_named[OF assms(1) i(1)] by simp
  then show ?case using Cons by auto
qed simp

text \<open>The ids in the order the chosen iterator visits them.\<close>

definition scan_order :: "(string \<Rightarrow> bt) \<Rightarrow> Table_Metadata \<Rightarrow> TableNode \<Rightarrow> (RecordID \<rightharpoonup> byte list) \<Rightarrow> RecordID list" where
  "scan_order T tab tn M = (case find_index tab (tn_fed_conds tn) of
     Inr (Some i) \<Rightarrow> map snd (bt_entries (T (get_index_name (tn_tab_name tn) (int i))))
   | _ \<Rightarrow> sorted_list_of_set (dom M))"

lemma scan_order_perm:
  assumes "indexes_agree T s (tn_tab_name tn) tab"
  shows "distinct (scan_order T tab tn (content s (tn_tab_name tn)))"
    "set (scan_order T tab tn (content s (tn_tab_name tn))) = dom (content s (tn_tab_name tn))"
proof -
  let ?M = "content s (tn_tab_name tn)"
  have "distinct (scan_order T tab tn ?M) \<and> set (scan_order T tab tn ?M) = dom ?M"
  proof (cases "\<exists>i. find_index tab (tn_fed_conds tn) = Inr (Some i)")
    case True
    then obtain i where i: "find_index tab (tn_fed_conds tn) = Inr (Some i)" by blast
    then have "index_agrees T s (tn_tab_name tn) tab i"
      using assms find_index_Some(1,2)[OF i] by (simp add: indexes_agree_def)
    then show ?thesis using i by (auto simp: scan_order_def index_agrees_def Let_def image_image)
  next
    case False
    then have "scan_order T tab tn ?M = sorted_list_of_set (dom ?M)"
      by (auto simp: scan_order_def split: sum.splits option.splits)
    then show ?thesis by simp
  qed
  then show "distinct (scan_order T tab tn ?M)" "set (scan_order T tab tn ?M) = dom ?M" by simp_all
qed

lemma index_scan_begin:
  assumes o: "db_open T s" and meta: "table_meta s name tab" and agrees: "indexes_agree T s name tab"
    and tn: "tn_tab_name tn = name" "tn_cols tn = tm_cols tab" "conds_here tn" "fed_ok tn"
    and i: "find_index tab (tn_fed_conds tn) = Inr (Some i)"
  shows "\<exists>rids sc t. table_scan tn s = (Inr sc, t) \<and> db_reads T s t \<and> scan_at T t name sc rids \<and>
    length rids \<le> card (dom (content s name)) \<and>
    hits tn (content s name) rids = hits tn (content s name) (scan_order T tab tn (content s name))"
proof -
  let ?M = "content s name" and ?n = "get_index_name name (int i)" and ?col = "tm_cols tab ! i"
  note I = find_index_Some[OF i]
  have named: "cols_named name (tm_cols tab)" using meta by (simp add: table_meta_def)
  have "index_agrees T s name tab i" using agrees I(1,2) by (simp add: indexes_agree_def)
  then obtain ih where ih: "map_of (ihs s) ?n = Some ih" "column_type (index_header ih) = cm_type ?col"
    "col_len (index_header ih) = cm_len ?col" "distinct (map snd (bt_entries (T ?n)))"
    "set (bt_entries (T ?n)) = (\<lambda>r. (column_key ?col (the (?M r)), r)) ` dom ?M"
    by (auto simp: index_agrees_def Let_def)
  have wf: "ix_wf s ih (T ?n)" by (rule index_file[OF o ih(1)])
  have ty: "column_type (index_header ih) \<noteq> TYPE_DATETIME" using wf unfolding ix_wf_def ix_tree_def by blast
  let ?P = "\<lambda>c. is_rhs_val c \<and> cond_op c \<noteq> OP_NE \<and> tc_col (lhs_col c) = cm_name ?col"
  obtain c where c: "find ?P (tn_fed_conds tn) = Some c"
    using I(3) find_None_iff[of ?P "tn_fed_conds tn"] by (cases "find ?P (tn_fed_conds tn)") auto
  then have cc: "c \<in> set (tn_fed_conds tn)" "?P c" by (auto simp: find_Some_iff)
  have lhs: "lhs_col c = TabCol name (cm_name ?col)"
    using cc tn(1,3) by (cases "lhs_col c") (auto simp: conds_here_def list_all_iff)
  obtain j k where k: "j < length (tm_cols tab)" "cm_name (tm_cols tab ! j) = tc_col (lhs_col c)"
    "v_raw (rhs_val c) = Some k" "key_for (tm_cols tab ! j) k"
    using tn(2,4) cc by (auto simp: fed_ok_def fed_cond_ok_def)
  have "j = i" by (rule named_unique[OF named k(1) I(1)]) (use k(2) cc(2) in simp)
  then have kf: "key_for ?col k" using k(4) by simp
  then have key: "key_ok (index_header ih) k" using ih(2,3) by (simp add: key_ok_def key_for_def)
  obtain lo hi u where u: "index_interval (cm_name ?col) (tn_fed_conds tn) (ih, s) =
      (Inr (pos_id (bt_leaves (T ?n)) lo, pos_id (bt_leaves (T ?n)) hi), (ih, u))" "looked (ih_fd ih) s u" "lo \<le> hi"
    "hi \<le> length (bt_entries (T ?n))"
    "take (hi - lo) (drop lo (bt_entries (T ?n))) =
      filter (\<lambda>e. test_op (cond_op c) (key_cmp (index_header ih) (fst e) k)) (bt_entries (T ?n))"
    by (rule index_interval_run[OF wf c k(3) key])
  note v = on_index_run[where m = "index_interval (cm_name ?col) (tn_fed_conds tn)", OF o ih(1) u(1,2)]
  note R = db_reads_fields[OF v(2)]
  let ?sc = "NdxScan ?n \<lparr>current_index = pos_id (bt_leaves (T ?n)) lo, end_index = pos_id (bt_leaves (T ?n)) hi\<rparr>"
  let ?rids = "map snd (take (hi - lo) (drop lo (bt_entries (T ?n))))"
  have run: "table_scan tn s = (Inr ?sc, u)"
    using meta tn(1,2) i v(1) by (simp add: table_scan_def from_sum_def get_table_def table_meta_def Let_def)
  have sub: "set ?rids \<subseteq> dom ?M" unfolding u(5) using ih(5) by auto
  have len: "length ?rids \<le> card (dom ?M)"
  proof -
    have "length ?rids \<le> length (bt_entries (T ?n))" unfolding u(5) by simp
    also have "\<dots> = card (set (map snd (bt_entries (T ?n))))" using distinct_card[OF ih(4)] by simp
    also have "set (map snd (bt_entries (T ?n))) = dom ?M" using ih(5) by (auto simp: image_image)
    finally show ?thesis .
  qed
  have "\<exists>na m n. ?sc = NdxScan na \<lparr>current_index = pos_id (bt_leaves (T na)) m, end_index = pos_id (bt_leaves (T na)) n\<rparr> \<and>
       map_of (ihs u) na \<noteq> None \<and> m \<le> n \<and> n \<le> length (bt_entries (T na)) \<and>
       ?rids = map snd (take (n - m) (drop m (bt_entries (T na))))"
    using ih(1) R u(3,4) by (intro exI[of _ ?n] exI[of _ lo] exI[of _ hi]) simp
  then have "idx_at T u name ?sc ?rids"
    using db_reads_open[OF v(2)] sub meta R by (simp add: idx_at_def table_meta_def)
  moreover have "hits tn ?M ?rids = hits tn ?M (scan_order T tab tn ?M)"
  proof -
    have pass: "test_op (cond_op c) (key_cmp (index_header ih) (fst e) k)"
      if e: "e \<in> set (bt_entries (T ?n))" "row_sat tn (the (?M (snd e)))" for e
    proof -
      have ke: "fst e = column_key ?col (the (?M (snd e)))" using ih(5) e(1) by auto
      have "eval_cond (tm_cols tab) c (the (?M (snd e))) = Inr True"
        using e(2) cc(1) tn(2) by (auto simp: row_sat_def eval_conds_all)
      from cond_on_key[OF named I(1) lhs _ k(3) kf ih(2,3) ty this] cc(2) show ?thesis by (simp add: ke)
    qed
    have "hits tn ?M ?rids = map snd (filter (\<lambda>e. row_sat tn (the (?M (snd e))) \<and>
        test_op (cond_op c) (key_cmp (index_header ih) (fst e) k)) (bt_entries (T ?n)))"
      unfolding u(5) by (simp add: hits_def filter_map comp_def conj_commute)
    also have "\<dots> = map snd (filter (\<lambda>e. row_sat tn (the (?M (snd e)))) (bt_entries (T ?n)))"
      using pass by (intro arg_cong[where f = "map snd"] filter_cong) auto
    also have "\<dots> = hits tn ?M (scan_order T tab tn ?M)"
      using i tn(1) by (simp add: hits_def scan_order_def filter_map comp_def)
    finally show ?thesis .
  qed
  ultimately show ?thesis using run v(2) len unfolding scan_at_def by blast
qed

lemma record_scan_begin:
  assumes o: "db_open T s" and meta: "table_meta s name tab" and tn: "tn_tab_name tn = name"
    and i: "find_index tab (tn_fed_conds tn) = Inr None"
  shows "\<exists>rids sc t. table_scan tn s = (Inr sc, t) \<and> db_reads T s t \<and> scan_at T t name sc rids \<and>
    length rids \<le> card (dom (content s name)) \<and>
    hits tn (content s name) rids = hits tn (content s name) (scan_order T tab tn (content s name))"
proof -
  obtain fh where fh: "map_of (fhs s) name = Some fh" using meta by (auto simp: table_meta_def)
  obtain r t where t: "RM_Iterator fh s = (Inr r, t)" "db_reads T s t"
    "rec_at T t name (RecScan r) (sorted_list_of_set (dom (content s name)))"
    using rec_begin[OF o fh] by blast
  have "table_scan tn s = (Inr (RecScan r), t)"
    using meta tn i fh t(1) by (simp add: table_scan_def from_sum_def get_table_def table_meta_def)
  then show ?thesis using t(2,3) i unfolding scan_at_def scan_order_def by fastforce
qed

lemma table_begin_run:
  assumes o: "db_open T s" and meta: "table_meta s name tab" and agrees: "indexes_agree T s name tab"
    and tn: "tn_tab_name tn = name" "tn_cols tn = tm_cols tab" "conds_here tn" "fed_ok tn"
    and rows: "rows_defined tn (content s name)" and fuel: "card (dom (content s name)) < fuel"
  shows "\<exists>all r sc t. table_begin fuel tn s = (Inr (tn\<lparr>tn_rid := r, tn_scan := sc\<rparr>), t) \<and> db_reads T s t \<and>
    any.table_at T t (tn\<lparr>tn_rid := r, tn_scan := sc\<rparr>) all \<and> length all \<le> card (dom (content s name)) \<and>
    hits tn (content s name) all = hits tn (content s name) (scan_order T tab tn (content s name))"
proof -
  let ?M = "content s name"
  have named: "cols_named name (tm_cols tab)" using meta by (simp add: table_meta_def)
  obtain f where f: "find_index tab (tn_fed_conds tn) = Inr f"
    using find_index_runs[OF named] tn(2,4) by (auto simp: fed_ok_def)
  obtain rids sc t where t: "table_scan tn s = (Inr sc, t)" "db_reads T s t" "scan_at T t name sc rids"
    "length rids \<le> card (dom ?M)" "hits tn ?M rids = hits tn ?M (scan_order T tab tn ?M)"
    using record_scan_begin[OF o meta tn(1)] index_scan_begin[OF o meta agrees tn] f by (cases f) blast+
  note ct = db_reads_fields(4)[OF t(2)]
  have "\<exists>all r sc' u. table_seek fuel (tn\<lparr>tn_scan := sc\<rparr>) t = (Inr (tn\<lparr>tn_scan := sc, tn_rid := r, tn_scan := sc'\<rparr>), u) \<and>
      db_reads T t u \<and> any.table_at T u (tn\<lparr>tn_scan := sc, tn_rid := r, tn_scan := sc'\<rparr>) all \<and> length all \<le> length rids \<and>
      hits (tn\<lparr>tn_scan := sc\<rparr>) ?M all = hits (tn\<lparr>tn_scan := sc\<rparr>) ?M rids"
    using any.table_seek_run[of T t "tn\<lparr>tn_scan := sc\<rparr>" rids fuel] t(3,4) tn(1,3) rows ct fuel by simp
  then obtain all r sc' u where u: "table_seek fuel (tn\<lparr>tn_scan := sc\<rparr>) t = (Inr (tn\<lparr>tn_rid := r, tn_scan := sc'\<rparr>), u)"
    "db_reads T t u" "any.table_at T u (tn\<lparr>tn_rid := r, tn_scan := sc'\<rparr>) all" "length all \<le> length rids"
    "hits tn ?M all = hits tn ?M rids" by auto
  have "table_begin fuel tn s = (Inr (tn\<lparr>tn_rid := r, tn_scan := sc'\<rparr>), u)"
    using t(1) u(1) tn(3) by (simp add: table_begin_def)
  moreover have "length all \<le> card (dom ?M)" using u(4) t(4) by linarith
  ultimately show ?thesis using u(3,5) t(5) db_reads_trans[OF t(2) u(2)] by metis
qed

section \<open>The ids of the matching records\<close>

definition conds_on :: "string \<Rightarrow> Condition list \<Rightarrow> bool" where
  "conds_on name conds \<longleftrightarrow> list_all (\<lambda>c. tc_tab (lhs_col c) = name \<and> (is_rhs_val c \<or> tc_tab (rhs_col c) = name)) conds"

definition sat_all :: "Column_Metadata list \<Rightarrow> Condition list \<Rightarrow> byte list \<Rightarrow> bool" where
  "sat_all cols conds data \<longleftrightarrow> eval_conds cols conds data = Inr True"

text \<open>The conditions run on every record of the table.\<close>

definition conds_run :: "Column_Metadata list \<Rightarrow> Condition list \<Rightarrow> (RecordID \<rightharpoonup> byte list) \<Rightarrow> bool" where
  "conds_run cols conds M \<longleftrightarrow> (\<forall>c \<in> set conds. fed_cond_ok cols c) \<and> (\<forall>data \<in> ran M. \<exists>b. eval_conds cols conds data = Inr b)"

definition start_node :: "string \<Rightarrow> Condition list \<Rightarrow> Table_Metadata \<Rightarrow> TableNode" where
  "start_node name conds tab = \<lparr>tn_tab_name = name, tn_conds = conds, tn_cols = tm_cols tab,
     tn_len = cm_offset (last (tm_cols tab)) + cm_len (last (tm_cols tab)), tn_fed_conds = conds,
     tn_rid = RecordID 0 0, tn_scan = NoScan\<rparr>"

lemma map_sum_list_id: "(\<And>x. x \<in> set xs \<Longrightarrow> f x = Inr x) \<Longrightarrow> map_sum_list f xs = Inr xs"
  by (induction xs) simp_all

lemma map_at_found: "map_of (m s) k \<noteq> None \<Longrightarrow> andThen (map_at m k) f s = f (the (map_of (m s) k)) s"
  by auto

lemma QlNodeTable_run:
  assumes "table_meta s name tab" "conds_on name conds"
  shows "QlNodeTable name conds s = (Inr (start_node name conds tab), s)"
proof -
  have "map_sum_list (orient_cond name) conds = Inr conds"
    by (rule map_sum_list_id) (use assms(2) in \<open>auto simp: conds_on_def list_all_iff orient_cond_def\<close>)
  then show ?thesis
    using assms(1) by (auto simp: QlNodeTable_def from_sum_def get_table_def table_meta_def cols_named_def start_node_def)
qed

lemma matching_rids_run:
  assumes o: "db_open T s" and meta: "table_meta s name tab" and agrees: "indexes_agree T s name tab"
    and conds: "conds_on name conds" "conds_run (tm_cols tab) conds (content s name)"
    and fuel: "card (dom (content s name)) + 1 < fuel"
  shows "\<exists>rids t. matching_rids fuel name conds s = (Inr rids, t) \<and> db_reads T s t \<and> distinct rids \<and>
    set rids = {r \<in> dom (content s name). sat_all (tm_cols tab) conds (the (content s name r))} \<and>
    rids = filter (\<lambda>r. sat_all (tm_cols tab) conds (the (content s name r)))
      (scan_order T tab (start_node name conds tab) (content s name))"
proof -
  let ?M = "content s name" and ?tn = "start_node name conds tab"
  have tn: "tn_tab_name ?tn = name" "tn_cols ?tn = tm_cols tab" "tn_fed_conds ?tn = conds" by (simp_all add: start_node_def)
  have ok: "conds_here ?tn" "fed_ok ?tn" "rows_defined ?tn ?M"
    using conds tn by (simp_all add: conds_here_def conds_on_def fed_ok_def conds_run_def rows_defined_def row_defined_def)
  have sat: "row_sat ?tn = sat_all (tm_cols tab) conds" using tn by (simp add: fun_eq_iff row_sat_def sat_all_def)
  have f: "card (dom ?M) < fuel" using fuel by simp
  obtain all r sc t where t: "table_begin fuel ?tn s = (Inr (?tn\<lparr>tn_rid := r, tn_scan := sc\<rparr>), t)" "db_reads T s t"
    "any.table_at T t (?tn\<lparr>tn_rid := r, tn_scan := sc\<rparr>) all" "length all \<le> card (dom ?M)"
    "hits ?tn ?M all = hits ?tn ?M (scan_order T tab ?tn ?M)"
    using table_begin_run[OF o meta agrees tn(1,2) ok f] by blast
  have f2: "length all + 1 < fuel" using t(4) fuel by simp
  obtain u where u: "collect_rids fuel (?tn\<lparr>tn_rid := r, tn_scan := sc\<rparr>) t = (Inr (hits ?tn ?M all), u)" "db_reads T t u"
    using any.collect_rids_run[OF t(3) f2] db_reads_fields(4)[OF t(2)] tn(1) by auto
  have run: "matching_rids fuel name conds s = (Inr (hits ?tn ?M (scan_order T tab ?tn ?M)), u)"
    using QlNodeTable_run[OF meta conds(1)] t(1,5) u(1) by (simp add: matching_rids_def)
  have agr: "indexes_agree T s (tn_tab_name ?tn) tab" using agrees tn(1) by simp
  note perm = scan_order_perm[OF agr, unfolded tn(1)]
  have "distinct (hits ?tn ?M (scan_order T tab ?tn ?M))" "set (hits ?tn ?M (scan_order T tab ?tn ?M)) =
      {r \<in> dom ?M. sat_all (tm_cols tab) conds (the (?M r))}"
    using perm sat by (auto simp: hits_def)
  then show ?thesis
    using run db_reads_trans[OF t(2) u(2)] sat by (intro exI[of _ "hits ?tn ?M (scan_order T tab ?tn ?M)"] exI[of _ u]) (simp add: hits_def)
qed

end
