(* ===== verification/QlChange.thy ===== *)
theory QlChange
  imports QlTable
begin

text \<open>
  The statements that change a table without indexes: \<open>insert_into\<close>, \<open>delete_from\<close>, \<open>update_set\<close>
  act on the content of the table as insertion of one record, removal of the matching records
  and replacement of the matching records, and leave every other table alone.
\<close>

text \<open>The content of one table becomes \<open>M\<close>.\<close>

definition db_writes :: "(string \<Rightarrow> bt) \<Rightarrow> 'z sm_state_scheme \<Rightarrow> string \<Rightarrow> (RecordID \<rightharpoonup> byte list) \<Rightarrow> 'z sm_state_scheme \<Rightarrow> bool" where
  "db_writes T s name M t \<longleftrightarrow> db_open T t \<and> db t = db s \<and> ihs t = ihs s \<and>
     table_fd t = table_fd s \<and> db_frame s t \<and> content t = (content s)(name := M) \<and>
     (\<forall>n. n \<noteq> name \<longrightarrow> map_of (fhs t) n = map_of (fhs s) n) \<and>
     (\<forall>fh gh. map_of (fhs s) name = Some fh \<longrightarrow> map_of (fhs t) name = Some gh \<longrightarrow> same_rec_file fh gh)"

lemma table_fd_dom: "table_fd t = table_fd s \<Longrightarrow> dom (map_of (fhs t)) = dom (map_of (fhs s))"
  unfolding table_fd_def fun_eq_iff dom_def by (metis option.map_disc_iff)

lemma db_reads_frame:
  assumes r: "db_reads T s t"
  shows "db_frame s t \<and> table_fd t = table_fd s"
proof
  have "same_env s t" using r by (simp add: db_reads_def)
  then show "db_frame s t" by (rule same_env_db_frame)
  show "table_fd t = table_fd s" by (rule ext) (simp add: table_fd_def db_reads_fields(1)[OF r])
qed

lemma db_writes_live: "db_live T s \<Longrightarrow> db_writes T s name M t \<Longrightarrow> db_live T t"
  using db_live_frame[of T s t] by (simp add: db_writes_def)

lemma db_writes_reads:
  assumes "db_writes T s name M t" "db_reads T t u"
  shows "db_writes T s name M u"
  using assms(1) db_reads_fields[OF assms(2)] db_reads_open[OF assms(2)] db_reads_frame[OF assms(2)] db_frame_trans[of s t u]
  by (simp add: db_writes_def)

lemma db_reads_writes:
  assumes "db_reads T s t" "db_writes T t name M u"
  shows "db_writes T s name M u"
  using assms(2) db_reads_fields[OF assms(1)] db_reads_frame[OF assms(1)] db_frame_trans[of s t u]
  by (simp add: db_writes_def)

lemma db_writes_same: "db_open T s \<Longrightarrow> db_writes T s name (content s name) s"
  by (simp add: db_writes_def rs.like_refl db_frame_refl)

lemma db_writes_trans:
  assumes "db_writes T s name M t" "db_writes T t name N u"
  shows "db_writes T s name N u"
proof -
  have "same_rec_file fh gh" if g: "map_of (fhs s) name = Some fh" "map_of (fhs u) name = Some gh" for fh gh
  proof -
    have "name \<in> dom (map_of (fhs t))" using assms(1) g(1) table_fd_dom[of t s] by (auto simp: db_writes_def)
    then obtain kh where "map_of (fhs t) name = Some kh" by blast
    then show ?thesis using assms g rs.like_trans unfolding db_writes_def by metis
  qed
  then show ?thesis using assms db_frame_trans[of s t u] by (simp add: db_writes_def)
qed

lemma db_writes_meta: "db_writes T s name M t \<Longrightarrow> table_meta s n tab \<Longrightarrow> table_meta t n tab"
  unfolding db_writes_def table_meta_def by (metis domIff table_fd_dom)

lemma writes_content: "db_writes T s name M t \<Longrightarrow> content t name = M"
  by (simp add: db_writes_def)

text \<open>A record operation that gives back a handle, which is stored.\<close>

lemma table_writes:
  assumes o: "db_open T s" and n: "map_of (fhs s) n = Some fh"
    and t: "rm_frame s (fh_fd fh) t" "rm_wf t gh" "same_rec_file fh gh"
  shows "\<exists>u. put_fh n gh t = (Inr (), u) \<and> db_writes T s n (rm_recs t gh) u \<and> map_of (fhs u) n = Some gh"
proof -
  have fd: "fh_fd gh = fh_fd fh" using t(3) by (simp add: same_rec_file_def)
  note W = table_write[OF o n t(1,2) fd]
  have env: "same_env s t" using t(1) by (simp add: rm_frame_def)
  have "table_fd (t\<lparr>fhs := map_put n gh (fhs t)\<rparr>) = table_fd s"
    using n fd same_env_fields(1)[OF env] by (simp add: table_fd_def fun_eq_iff)
  moreover have "db_frame s (t\<lparr>fhs := map_put n gh (fhs t)\<rparr>)" by (rule db_frame_handles[OF same_env_db_frame[OF env]])
  ultimately show ?thesis using W n t(3) by (simp add: put_fh_def db_writes_def)
qed

section \<open>Deleting\<close>

lemma remove_record_run:
  assumes o: "db_open T s" and r: "r \<in> dom (content s name)"
  shows "\<exists>t. remove_record name r s = (Inr (), t) \<and> db_writes T s name ((content s name)(r := None)) t"
proof -
  obtain fh where fh: "map_of (fhs s) name = Some fh" using r by (auto simp: content_def split: option.splits)
  note F = table_file[OF o fh]
  have "rm_recs s fh r \<noteq> None" using r F(2) by auto
  then obtain gh t where t: "delete_record fh r s = (Inr gh, t)" "rm_wf t gh" "rm_recs t gh = (rm_recs s fh)(r := None)"
    "rec_frame s fh t" "same_rec_file fh gh"
    using rs.delete_law[OF F(1), of r] rs.dom_ok[of s fh r] by auto
  obtain u where u: "put_fh name gh t = (Inr (), u)" "db_writes T s name (rm_recs t gh) u"
    using table_writes[OF o fh t(4)[unfolded rec_frame_def] t(2,5)] by blast
  have "remove_record name r s = (Inr (), u)" using fh t(1) u(1) by (simp add: remove_record_def)
  then show ?thesis using u(2) t(3) F(2) by auto
qed

lemma remove_records_run:
  assumes "db_open T s" "distinct rids" "set rids \<subseteq> dom (content s name)"
  shows "\<exists>t. forEach rids (remove_record name) s = (Inr (), t) \<and> db_writes T s name (content s name |` (- set rids)) t"
  using assms
proof (induction rids arbitrary: s)
  case Nil
  then show ?case using db_writes_same[of T s name] by simp
next
  case (Cons r rids)
  obtain t where t: "remove_record name r s = (Inr (), t)" "db_writes T s name ((content s name)(r := None)) t"
    using remove_record_run[OF Cons.prems(1), of r name] Cons.prems(3) by auto
  have c: "content t name = (content s name)(r := None)" by (rule writes_content[OF t(2)])
  have "db_open T t" using t(2) by (simp add: db_writes_def)
  moreover have "set rids \<subseteq> dom (content t name)" using c Cons.prems(2,3) by auto
  ultimately obtain u where u: "forEach rids (remove_record name) t = (Inr (), u)"
    "db_writes T t name (content t name |` (- set rids)) u"
    using Cons.IH Cons.prems(2) by auto
  have "(content s name)(r := None) |` (- set rids) = content s name |` (- set (r # rids))"
    by (auto simp: restrict_map_def fun_eq_iff)
  then show ?case using t(1) u(1) db_writes_trans[OF t(2) u(2)] c by simp
qed

definition no_index :: "Table_Metadata \<Rightarrow> bool" where
  "no_index tab \<longleftrightarrow> list_all (\<lambda>c. \<not> cm_index c) (tm_cols tab)"

lemma forEach_skip: "(\<And>x s. x \<in> set xs \<Longrightarrow> f x s = (Inr (), s)) \<Longrightarrow> forEach xs f s = (Inr (), s)"
  by (induction xs arbitrary: s) simp_all

lemma no_index_entries:
  assumes "no_index tab" "\<forall>i \<in> set is. i < length (tm_cols tab)"
  shows "forEach is (index_entry update tab name data rid) s = (Inr (), s)"
  by (rule forEach_skip) (use assms in \<open>auto simp: index_entry_def no_index_def list_all_length\<close>)

lemma no_index_agrees: "no_index tab \<Longrightarrow> indexes_agree T s name tab"
  by (simp add: no_index_def indexes_agree_def list_all_length)

lemma unindex_none:
  assumes "no_index tab" "db_open T s" "r \<in> dom (content s name)"
  shows "\<exists>t. unindex_record tab name r s = (Inr (), t) \<and> db_reads T s t"
proof -
  obtain fh t where t: "map_of (fhs s) name = Some fh" "get_record fh r s = (Inr (the (content s name r)), t)" "db_reads T s t"
    by (rule get_content[OF assms(2,3)])
  then show ?thesis by (simp add: unindex_record_def no_index_entries[OF assms(1)])
qed

lemma unindex_all_none:
  assumes "no_index tab" "db_open T s" "set rids \<subseteq> dom (content s name)"
  shows "\<exists>t. forEach rids (unindex_record tab name) s = (Inr (), t) \<and> db_reads T s t"
proof (rule forEach_invariant[where P = "db_reads T s"])
  show "\<exists>u. unindex_record tab name r t = (Inr (), u) \<and> db_reads T s u" if "r \<in> set rids" "db_reads T s t" for r t
    using unindex_none[OF assms(1) db_reads_open[OF that(2)], of r name] that(1) assms(3)
      db_reads_fields(4)[OF that(2)] db_reads_trans[OF that(2)] by auto
  show "db_reads T s s" using assms(2) by (rule db_reads_refl)
qed

text \<open>The records that satisfy the conditions.\<close>

definition matching :: "Table_Metadata \<Rightarrow> Condition list \<Rightarrow> (RecordID \<rightharpoonup> byte list) \<Rightarrow> RecordID set" where
  "matching tab conds M = {r \<in> dom M. sat_all (tm_cols tab) conds (the (M r))}"

lemma delete_from_run:
  assumes o: "db_open T s" and meta: "table_meta s name tab" and none: "no_index tab"
    and chk: "check_where_clause (db s) [name] conds = Inr conds'"
    and conds: "conds_on name conds'" "conds_run (tm_cols tab) conds' (content s name)"
    and fuel: "card (dom (content s name)) + 1 < fuel"
  shows "\<exists>t. delete_from fuel name conds s = (Inr \<lparr>ar_table = name,
      affected_rows = card (matching tab conds' (content s name)), ar_success = True,
      ar_message = nat_to_string (card (matching tab conds' (content s name))) @ '' row(s) deleted''\<rparr>, t) \<and>
    db_writes T s name (content s name |` (- matching tab conds' (content s name))) t"
proof -
  obtain rids t where t: "matching_rids fuel name conds' s = (Inr rids, t)" "db_reads T s t" "distinct rids"
    "set rids = matching tab conds' (content s name)"
    using matching_rids_run[OF o meta no_index_agrees[OF none] conds fuel] unfolding matching_def by blast
  have sub: "set rids \<subseteq> dom (content s name)" using t(4) by (auto simp: matching_def)
  note ct = db_reads_fields(4)[OF t(2)]
  obtain u where u: "forEach rids (unindex_record tab name) t = (Inr (), u)" "db_reads T t u"
    using unindex_all_none[OF none db_reads_open[OF t(2)]] sub ct by metis
  note cu = db_reads_fields(4)[OF u(2)]
  obtain v where v: "forEach rids (remove_record name) u = (Inr (), v)" "db_writes T u name (content u name |` (- set rids)) v"
    using remove_records_run[OF db_reads_open[OF u(2)] t(3)] sub ct cu by metis
  have "length rids = card (matching tab conds' (content s name))" using distinct_card[OF t(3)] t(4) by simp
  moreover obtain fh where "map_of (fhs s) name = Some fh" using meta by (auto simp: table_meta_def)
  ultimately have "delete_from fuel name conds s = (Inr \<lparr>ar_table = name,
      affected_rows = card (matching tab conds' (content s name)), ar_success = True,
      ar_message = nat_to_string (card (matching tab conds' (content s name))) @ '' row(s) deleted''\<rparr>, v)"
    using meta chk t(1) u(1) v(1) by (simp add: delete_from_def from_sum_def get_table_def table_meta_def)
  moreover have "db_writes T s name (content s name |` (- matching tab conds' (content s name))) v"
    using db_reads_writes[OF db_reads_trans[OF t(2) u(2)] v(2)] ct cu t(4) by simp
  ultimately show ?thesis by blast
qed

section \<open>Updating\<close>

definition cols_fit :: "nat \<Rightarrow> Column_Metadata list \<Rightarrow> bool" where
  "cols_fit n cols \<longleftrightarrow> (\<forall>c \<in> set cols. nat (cm_offset c) + nat (cm_len c) \<le> n)"

text \<open>The records of a file have the record size of its header.\<close>

lemma rm_recs_length:
  assumes "rm_wf s fh" "rm_recs s fh r = Some data"
  shows "length data = nat (record_size (fh_hdr fh))"
proof -
  have ok: "rm_ok (fh_hdr fh) (file_view s (fh_fd fh))" using assms(1) by (simp add: rm_wf_def)
  obtain p m where r: "r = RecordID p m" by (cases r)
  obtain b n where b: "data_page (fh_hdr fh) p" "file_view s (fh_fd fh) p = Some b" "n < npp (fh_hdr fh)"
    "data = load b (slot_off (fh_hdr fh) n) (nat (record_size (fh_hdr fh)))"
    using assms(2) unfolding rm_recs_def r by (rule rm_map_Some)
  have "hdr_ok (fh_hdr fh)" "page_ok (fh_hdr fh) b" using ok b(1,2) by (auto simp: rm_ok_def pages_ok_def)
  then show ?thesis using hdr_bounds(3)[OF _ b(3)] b(4) by (simp add: page_ok_def length_load)
qed

text \<open>What a set clause has after \<open>update_set\<close> checked it.\<close>

definition set_ready :: "Table_Metadata \<Rightarrow> SetClause \<Rightarrow> bool" where
  "set_ready tab sc \<longleftrightarrow> (\<exists>i raw. get_col tab (tc_col (set_lhs sc)) = Inr i \<and> v_raw (set_rhs sc) = Some raw \<and>
     nat (cm_len (tm_cols tab ! i)) \<le> length raw)"

fun set_row :: "Table_Metadata \<Rightarrow> SetClause list \<Rightarrow> byte list \<Rightarrow> byte list" where
  "set_row tab [] data = data"
| "set_row tab (sc # scs) data = (case get_col tab (tc_col (set_lhs sc)) of Inl e \<Rightarrow> data
     | Inr i \<Rightarrow> set_row tab scs (store data (nat (cm_offset (tm_cols tab ! i)))
         (take (nat (cm_len (tm_cols tab ! i))) (the (v_raw (set_rhs sc))))))"

lemma apply_sets_run:
  assumes "list_all (set_ready tab) scs" "cols_fit (length data) (tm_cols tab)"
  shows "apply_sets tab scs data = Inr (set_row tab scs data) \<and> length (set_row tab scs data) = length data"
  using assms
proof (induction scs arbitrary: data)
  case (Cons sc scs)
  obtain i raw where i: "get_col tab (tc_col (set_lhs sc)) = Inr i" "v_raw (set_rhs sc) = Some raw"
    "nat (cm_len (tm_cols tab ! i)) \<le> length raw" using Cons.prems(1) by (auto simp: set_ready_def)
  let ?d = "store data (nat (cm_offset (tm_cols tab ! i))) (take (nat (cm_len (tm_cols tab ! i))) raw)"
  have "i < length (tm_cols tab)" using i(1) by (simp add: get_col_Inr)
  then have "nat (cm_offset (tm_cols tab ! i)) + nat (cm_len (tm_cols tab ! i)) \<le> length data"
    using Cons.prems(2) by (simp add: cols_fit_def)
  then have len: "length ?d = length data" using i(3) by (simp add: length_store)
  have "apply_sets tab scs ?d = Inr (set_row tab scs ?d) \<and> length (set_row tab scs ?d) = length ?d"
    using Cons.IH[of ?d] Cons.prems len by simp
  then show ?case using i(1,2) len by simp
qed simp

lemma raw_bytes_nonneg: "raw_bytes len l = Inr b \<Longrightarrow> \<not> len < 0"
  by (cases l) (auto split: if_splits)

lemma raw_bytes_length: "raw_bytes len l = Inr b \<Longrightarrow> (\<And>f. l = FloatVal f \<Longrightarrow> length f = 4) \<Longrightarrow> length b = nat len"
  by (cases l) (auto simp: datetime_bytes_def text_bytes_def split: if_splits)

definition value_ok :: "Value \<Rightarrow> bool" where
  "value_ok v \<longleftrightarrow> (\<forall>f. v_lit v = FloatVal f \<longrightarrow> length f = 4)"

lemma check_set_clause_ready:
  assumes "check_set_clause tab sc = Inr sc'" "value_ok (set_rhs sc)"
  shows "set_ready tab sc'"
proof -
  obtain i v where i: "get_col tab (tc_col (set_lhs sc)) = Inr i" "init_raw (cm_len (tm_cols tab ! i)) (set_rhs sc) = Inr v"
    "sc' = sc\<lparr>set_rhs := v\<rparr>"
    using assms(1) by (auto simp: check_set_clause_def sum_then_def Let_def split: sum.splits if_splits)
  obtain b where b: "raw_bytes (cm_len (tm_cols tab ! i)) (v_lit (set_rhs sc)) = Inr b" "v_raw v = Some b"
    using i(2) by (auto simp: init_raw_def split: sum.splits if_splits)
  have "length b = nat (cm_len (tm_cols tab ! i))"
    by (rule raw_bytes_length[OF b(1)]) (use assms(2) in \<open>simp add: value_ok_def\<close>)
  then show ?thesis using i b(2) by (simp add: set_ready_def)
qed

lemma map_sum_list_all:
  assumes "map_sum_list f xs = Inr ys" "\<And>x y. x \<in> set xs \<Longrightarrow> f x = Inr y \<Longrightarrow> P y"
  shows "list_all P ys"
  using assms
proof (induction xs arbitrary: ys)
  case (Cons x xs)
  obtain y zs where y: "f x = Inr y" "map_sum_list f xs = Inr zs" "ys = y # zs"
    using Cons.prems(1) by (auto split: sum.splits)
  have "list_all P zs" by (rule Cons.IH[OF y(2)]) (use Cons.prems(2) in \<open>meson list.set_intros(2)\<close>)
  then show ?case using y(1,3) Cons.prems(2)[of x y] by simp
qed simp

definition updated :: "(byte list \<Rightarrow> byte list) \<Rightarrow> RecordID set \<Rightarrow> (RecordID \<rightharpoonup> byte list) \<Rightarrow> RecordID \<rightharpoonup> byte list" where
  "updated f R M = (\<lambda>r. if r \<in> R then map_option f (M r) else M r)"

definition table_size :: "'z sm_state_scheme \<Rightarrow> string \<Rightarrow> nat" where
  "table_size s name = nat (record_size (fh_hdr (the (map_of (fhs s) name))))"

lemma content_length:
  assumes "db_open T s" "content s name r = Some data"
  shows "length data = table_size s name"
proof -
  obtain fh where fh: "map_of (fhs s) name = Some fh" using assms(2) by (auto simp: content_def split: option.splits)
  then show ?thesis using rm_recs_length[OF table_file(1)[OF assms(1) fh]] assms(2) by (simp add: content_def table_size_def)
qed

lemma writes_size:
  assumes "db_writes T s name M t" "map_of (fhs s) name \<noteq> None"
  shows "table_size t name = table_size s name"
proof -
  obtain fh where fh: "map_of (fhs s) name = Some fh" using assms(2) by blast
  then have "name \<in> dom (map_of (fhs t))" using assms(1) table_fd_dom[of t s] by (auto simp: db_writes_def)
  then obtain gh where gh: "map_of (fhs t) name = Some gh" by blast
  have "same_rec_file fh gh" using assms(1) fh gh unfolding db_writes_def by blast
  then show ?thesis using fh gh by (simp add: table_size_def same_rec_file_def same_layout_def)
qed

lemma put_same_handle: "map_sorted (fhs s) \<Longrightarrow> map_of (fhs s) n = Some fh \<Longrightarrow> put_fh n fh s = (Inr (), s)"
  by (simp add: put_fh_def map_put_same)

lemma update_row_run:
  assumes o: "db_open T s" and none: "no_index tab" and r: "content s name r = Some data"
    and scs: "list_all (set_ready tab) scs" and fit: "cols_fit (table_size s name) (tm_cols tab)"
  shows "\<exists>t. update_row tab name [] scs r s = (Inr (), t) \<and> db_writes T s name ((content s name)(r \<mapsto> set_row tab scs data)) t"
proof -
  have d: "r \<in> dom (content s name)" using r by blast
  obtain fh t where t: "map_of (fhs s) name = Some fh" "get_record fh r s = (Inr (the (content s name r)), t)" "db_reads T s t"
    by (rule get_content[OF o d])
  note R = db_reads_fields[OF t(3)]
  have fh: "map_of (fhs t) name = Some fh" using t(1) R by simp
  note F = table_file[OF db_reads_open[OF t(3)] fh]
  have len: "length data = table_size s name" by (rule content_length[OF o r])
  have a: "apply_sets tab scs data = Inr (set_row tab scs data)" "length (set_row tab scs data) = length data"
    using apply_sets_run[OF scs, of data] fit len by simp_all
  have "rec_fits fh (set_row tab scs data)" using a(2) len t(1) by (simp add: rec_fits_def table_size_def)
  moreover have "rm_recs t fh r \<noteq> None" using r R F(2) by simp
  moreover note rs.update_law[OF F(1) rs.dom_ok[of t fh r], of "set_row tab scs data"]
  ultimately obtain u where u: "update_record fh r (set_row tab scs data) t = (Inr (), u)" "rm_wf u fh"
    "rm_recs u fh = (rm_recs t fh)(r \<mapsto> set_row tab scs data)" "rec_frame t fh u"
    by (metis (no_types, lifting))
  obtain v where v: "put_fh name fh u = (Inr (), v)" "db_writes T t name (rm_recs u fh) v"
    using table_writes[OF db_reads_open[OF t(3)] fh u(4)[unfolded rec_frame_def] u(2) rs.like_refl] by blast
  have env: "same_env t u" using u(4) by (simp add: rec_frame_def rm_frame_def)
  have "map_sorted (fhs u)" "map_of (fhs u) name = Some fh"
    using same_env_fields(1)[OF env] fh db_reads_open[OF t(3)] by (simp_all add: db_open_def)
  then have uv: "v = u" using put_same_handle[of u name fh] v(1) by simp
  have "update_row tab name [] scs r s = (Inr (), u)"
    using t(1,2) r a(1) u(1) by (simp add: update_row_def Let_def)
  then show ?thesis using db_reads_writes[OF t(3) v(2)] uv u(3) F(2) R by auto
qed

lemma update_rows_run:
  assumes "db_open T s" "no_index tab" "list_all (set_ready tab) scs" "cols_fit (table_size s name) (tm_cols tab)"
    "distinct rids" "set rids \<subseteq> dom (content s name)"
  shows "\<exists>t. forEach rids (update_row tab name [] scs) s = (Inr (), t) \<and>
    db_writes T s name (updated (set_row tab scs) (set rids) (content s name)) t"
  using assms
proof (induction rids arbitrary: s)
  case Nil
  then show ?case using db_writes_same[of T s name] by (simp add: updated_def)
next
  case (Cons r rids)
  obtain data where data: "content s name r = Some data" using Cons.prems(6) by auto
  obtain t where t: "update_row tab name [] scs r s = (Inr (), t)"
    "db_writes T s name ((content s name)(r \<mapsto> set_row tab scs data)) t"
    using update_row_run[OF Cons.prems(1,2) data Cons.prems(3,4)] by blast
  have c: "content t name = (content s name)(r \<mapsto> set_row tab scs data)" by (rule writes_content[OF t(2)])
  have "map_of (fhs s) name \<noteq> None" using data by (auto simp: content_def split: option.splits)
  from writes_size[OF t(2) this] have sz: "table_size t name = table_size s name" .
  have "db_open T t" using t(2) by (simp add: db_writes_def)
  then obtain u where u: "forEach rids (update_row tab name [] scs) t = (Inr (), u)"
    "db_writes T t name (updated (set_row tab scs) (set rids) (content t name)) u"
    using Cons.IH[of t] Cons.prems c sz by fastforce
  have "updated (set_row tab scs) (set rids) (content t name) = updated (set_row tab scs) (set (r # rids)) (content s name)"
    using Cons.prems(5) data by (auto simp: updated_def c fun_eq_iff)
  then show ?case using t(1) u(1) db_writes_trans[OF t(2) u(2)] by simp
qed

lemma set_indexes_none:
  assumes "no_index tab" "list_all (set_ready tab) scs"
  shows "set_indexes tab scs = Inr []"
  using assms(2)
proof (induction scs)
  case (Cons sc scs)
  then obtain i where i: "get_col tab (tc_col (set_lhs sc)) = Inr i" by (auto simp: set_ready_def)
  then have "\<not> cm_index (tm_cols tab ! i)" using assms(1) by (auto simp: get_col_Inr no_index_def list_all_length)
  then show ?case using Cons i by (simp add: sum_then_def)
qed simp

lemma update_set_run:
  assumes o: "db_open T s" and meta: "table_meta s name tab" and none: "no_index tab"
    and chk: "check_where_clause (db s) [name] conds = Inr conds'" "map_sum_list (check_set_clause tab) set_clauses = Inr scs"
    and vals: "\<forall>sc \<in> set set_clauses. value_ok (set_rhs sc)"
    and conds: "conds_on name conds'" "conds_run (tm_cols tab) conds' (content s name)"
    and fit: "cols_fit (table_size s name) (tm_cols tab)" and fuel: "card (dom (content s name)) + 1 < fuel"
  shows "\<exists>t. update_set fuel name set_clauses conds s = (Inr \<lparr>ar_table = name,
      affected_rows = card (matching tab conds' (content s name)), ar_success = True,
      ar_message = nat_to_string (card (matching tab conds' (content s name))) @ '' row(s) updated''\<rparr>, t) \<and>
    db_writes T s name (updated (set_row tab scs) (matching tab conds' (content s name)) (content s name)) t"
proof -
  obtain rids t where t: "matching_rids fuel name conds' s = (Inr rids, t)" "db_reads T s t" "distinct rids"
    "set rids = matching tab conds' (content s name)"
    using matching_rids_run[OF o meta no_index_agrees[OF none] conds fuel] unfolding matching_def by blast
  note R = db_reads_fields[OF t(2)]
  have ready: "list_all (set_ready tab) scs"
    using map_sum_list_all[OF chk(2), of "set_ready tab"] check_set_clause_ready vals by blast
  have sub: "set rids \<subseteq> dom (content t name)" using t(4) R by (auto simp: matching_def)
  have sz: "table_size t name = table_size s name" using R by (simp add: table_size_def)
  obtain u where u: "forEach rids (update_row tab name [] scs) t = (Inr (), u)"
    "db_writes T t name (updated (set_row tab scs) (set rids) (content t name)) u"
    using update_rows_run[OF db_reads_open[OF t(2)] none ready _ t(3) sub] fit sz by auto
  have "length rids = card (matching tab conds' (content s name))" using distinct_card[OF t(3)] t(4) by simp
  moreover obtain fh where "map_of (fhs s) name = Some fh" using meta by (auto simp: table_meta_def)
  ultimately have "update_set fuel name set_clauses conds s = (Inr \<lparr>ar_table = name,
      affected_rows = card (matching tab conds' (content s name)), ar_success = True,
      ar_message = nat_to_string (card (matching tab conds' (content s name))) @ '' row(s) updated''\<rparr>, u)"
    using meta chk t(1) u(1) R(1) set_indexes_none[OF none ready]
    by (simp add: update_set_def from_sum_def get_table_def table_meta_def)
  then show ?thesis using db_reads_writes[OF t(2) u(2)] R t(4) by auto
qed

section \<open>Inserting\<close>

text \<open>The bytes of a row: each value at the offset of its column.\<close>

fun row_of :: "(Column_Metadata \<times> Value) list \<Rightarrow> byte list \<Rightarrow> byte list" where
  "row_of [] data = data"
| "row_of ((col, v) # rest) data = (case raw_bytes (cm_len col) (v_lit v) of Inl e \<Rightarrow> data
     | Inr b \<Rightarrow> row_of rest (store data (nat (cm_offset col)) b))"

text \<open>A value fits a column: its type, and for strings its length.\<close>

definition value_fits :: "Column_Metadata \<Rightarrow> Value \<Rightarrow> bool" where
  "value_fits col v \<longleftrightarrow> v_type v = cm_type col \<and> v_raw v = None \<and> value_ok v \<and> (\<exists>b. raw_bytes (cm_len col) (v_lit v) = Inr b)"

lemma fill_record_run:
  assumes "\<forall>(col, v) \<in> set cvs. value_fits col v" "cols_fit (length data) (map fst cvs)"
  shows "fill_record cvs data = Inr (row_of cvs data) \<and> length (row_of cvs data) = length data"
  using assms
proof (induction cvs arbitrary: data)
  case (Cons cv cvs)
  obtain col v where cv: "cv = (col, v)" by force
  obtain b where b: "v_type v = cm_type col" "v_raw v = None" "value_ok v" "raw_bytes (cm_len col) (v_lit v) = Inr b"
    using Cons.prems(1) by (auto simp: cv value_fits_def)
  have "length b = nat (cm_len col)"
    by (rule raw_bytes_length[OF b(4)]) (use b(3) in \<open>simp add: value_ok_def\<close>)
  then have len: "length (store data (nat (cm_offset col)) b) = length data"
    using Cons.prems(2) by (simp add: cv cols_fit_def length_store)
  have "fill_record cvs (store data (nat (cm_offset col)) b) = Inr (row_of cvs (store data (nat (cm_offset col)) b)) \<and>
      length (row_of cvs (store data (nat (cm_offset col)) b)) = length (store data (nat (cm_offset col)) b)"
    by (rule Cons.IH) (use Cons.prems len in \<open>auto simp: cols_fit_def\<close>)
  then show ?case using b len raw_bytes_nonneg[OF b(4)] by (simp add: cv init_raw_def sum_then_def)
qed simp

lemma insert_into_run:
  assumes o: "db_open T s" and meta: "table_meta s name tab" and none: "no_index tab"
    and vals: "length vals = length (tm_cols tab)" "\<forall>(col, v) \<in> set (zip (tm_cols tab) vals). value_fits col v"
    and fit: "cols_fit (table_size s name) (tm_cols tab)" and room: "rec_room (Suc k) (the (map_of (fhs s) name))"
  shows "\<exists>r t. insert_into name vals s = (Inr \<lparr>ir_table = name, ir_success = True, ir_message = ''1 row inserted''\<rparr>, t) \<and>
    content s name r = None \<and>
    db_writes T s name ((content s name)(r \<mapsto> row_of (zip (tm_cols tab) vals) (replicate (table_size s name) 0))) t \<and>
    rec_room k (the (map_of (fhs t) name))"
proof -
  obtain fh where fh: "map_of (fhs s) name = Some fh" using meta by (auto simp: table_meta_def)
  note F = table_file[OF o fh]
  let ?z = "replicate (table_size s name) 0" and ?cvs = "zip (tm_cols tab) vals"
  have fitz: "cols_fit (length ?z) (map fst ?cvs)" using fit vals(1) by (simp add: map_fst_zip_take)
  note row = fill_record_run[OF vals(2) fitz]
  have z: "table_size s name = nat (record_size (fh_hdr fh))" using fh by (simp add: table_size_def)
  have "rec_fits fh (row_of ?cvs ?z)" using row z by (simp add: rec_fits_def)
  moreover have "rec_room (Suc k) fh" using room fh by simp
  ultimately obtain r gh t where t: "insert_record fh (row_of ?cvs ?z) s = (Inr (r, gh), t)" "rm_wf t gh" "rm_recs s fh r = None"
    "rm_recs t gh = (rm_recs s fh)(r \<mapsto> row_of ?cvs ?z)" "rec_room k gh" "same_rec_file fh gh" "rec_frame s fh t"
    using rs.insert_law[OF F(1)] by metis
  obtain u where u: "put_fh name gh t = (Inr (), u)" "db_writes T s name (rm_recs t gh) u" "map_of (fhs u) name = Some gh"
    using table_writes[OF o fh t(7)[unfolded rec_frame_def] t(2,6)] by blast
  have "forEach [0..<length (tm_cols tab)] (index_entry insert_entry tab name (row_of ?cvs ?z) r) u = (Inr (), u)"
    by (rule no_index_entries[OF none]) simp
  then have "insert_into name vals s = (Inr \<lparr>ir_table = name, ir_success = True, ir_message = ''1 row inserted''\<rparr>, u)"
    using meta vals(1) fh row z t(1) u(1)
    by (simp add: insert_into_def from_sum_def get_table_def table_meta_def)
  then show ?thesis using t(3-5) u(2,3) F(2) by auto
qed

end
