(* ===== verification/QlRows.thy ===== *)
theory QlRows
  imports QlChange
begin

text \<open>
  Rows as values: the columns \<open>create_table\<close> lays out tile the record, a row written by
  \<open>insert_into\<close> reads back value by value, and a condition on such a row means the comparison
  of values it stands for.
\<close>

section \<open>Layout\<close>

fun tiled :: "int \<Rightarrow> Column_Metadata list \<Rightarrow> bool" where
  "tiled off [] \<longleftrightarrow> 0 \<le> off"
| "tiled off (c # cs) \<longleftrightarrow> 0 \<le> off \<and> cm_offset c = off \<and> 0 \<le> cm_len c \<and> tiled (off + cm_len c) cs"

fun cols_end :: "int \<Rightarrow> Column_Metadata list \<Rightarrow> int" where
  "cols_end off [] = off"
| "cols_end off (c # cs) = cols_end (off + cm_len c) cs"

lemma tiled_bounds:
  assumes "tiled off cols" "i < length cols"
  shows "off \<le> cm_offset (cols ! i)" "0 \<le> cm_len (cols ! i)" "cm_offset (cols ! i) + cm_len (cols ! i) \<le> cols_end off cols"
  using assms
proof (induction cols arbitrary: off i)
  case (Cons c cs)
  have e: "off \<le> cols_end off cs" if "tiled off cs" for off
    using that by (induction cs arbitrary: off) fastforce+
  { case 1 then show ?case using Cons.IH(1)[of "off + cm_len c"] by (cases i) force+ }
  { case 2 then show ?case using Cons.IH(2)[of "off + cm_len c"] by (cases i) force+ }
  { case 3 then show ?case using Cons.IH(3)[of "off + cm_len c"] e[of "off + cm_len c"] by (cases i) force+ }
qed simp_all

lemma tiled_fit: "tiled 0 cols \<Longrightarrow> cols_fit (nat (cols_end 0 cols)) cols"
proof -
  assume t: "tiled 0 cols"
  have "nat (cm_offset c) + nat (cm_len c) \<le> nat (cols_end 0 cols)" if m: "c \<in> set cols" for c
  proof -
    obtain i where "i < length cols" "cols ! i = c" using m by (auto simp: in_set_conv_nth)
    then show ?thesis using tiled_bounds[OF t, of i] by (simp add: nat_add_distrib[symmetric] nat_mono)
  qed
  then show ?thesis by (simp add: cols_fit_def)
qed

lemma make_columns_layout:
  assumes "make_columns name off infos = Inr (cols, n)" "0 \<le> off" "\<forall>c \<in> set infos. 0 \<le> ci_len c"
  shows "tiled off cols \<and> n = cols_end off cols \<and> n = off + sum_list (map ci_len infos) \<and>
    map cm_name cols = map ci_name infos \<and> map cm_type cols = map ci_type infos \<and> map cm_len cols = map ci_len infos \<and>
    (\<forall>c \<in> set cols. cm_tab_name c = name \<and> \<not> cm_index c)"
  using assms
proof (induction infos arbitrary: off cols)
  case (Cons c cs)
  obtain cols' where c': "make_columns name (off + ci_len c) cs = Inr (cols', n)"
    "cols = \<lparr>cm_tab_name = name, cm_name = ci_name c, cm_type = ci_type c, cm_len = ci_len c, cm_offset = off,
       cm_index = False\<rparr> # cols'"
    using Cons.prems(1) by (auto split: if_splits sum.splits)
  then show ?case using Cons.IH[OF c'(1)] Cons.prems(2,3) by auto
qed auto

text \<open>It fails exactly when a running sum leaves the range of \<open>int\<close>.\<close>

lemma make_columns_fails:
  "(\<exists>r. make_columns name off infos = Inr r) \<longleftrightarrow>
     (\<forall>k \<in> {1..length infos}. int_ok (off + sum_list (map ci_len (take k infos))))"
proof (induction infos arbitrary: off)
  case (Cons c cs)
  have "(\<exists>r. make_columns name off (c # cs) = Inr r) \<longleftrightarrow>
      int_ok (off + ci_len c) \<and> (\<forall>k \<in> {1..length cs}. int_ok (off + ci_len c + sum_list (map ci_len (take k cs))))"
    using Cons.IH[of "off + ci_len c"] by (auto split: sum.splits)
  also have "\<dots> \<longleftrightarrow> (\<forall>k \<in> {1..Suc (length cs)}. int_ok (off + sum_list (map ci_len (take k (c # cs)))))"
  proof -
    have *: "(\<forall>k \<in> {1..Suc n}. P k) \<longleftrightarrow> P 1 \<and> (\<forall>k \<in> {1..n}. P (Suc k))" for P :: "nat \<Rightarrow> bool" and n
    proof -
      have "P k" if "P 1" "\<forall>k \<in> {1..n}. P (Suc k)" "k \<in> {1..Suc n}" for k
        using that by (cases k; cases "k - 1") auto
      then show ?thesis by auto
    qed
    show ?thesis unfolding * by (simp add: add.assoc)
  qed
  finally show ?case by simp
qed simp

section \<open>Writing a row\<close>

lemma row_of_before:
  assumes "tiled off cols" "length vals = length cols" "\<forall>(col, v) \<in> set (zip cols vals). value_fits col v"
    "nat (cols_end off cols) \<le> length data" "p + n \<le> nat off"
  shows "load (row_of (zip cols vals) data) p n = load data p n"
  using assms
proof (induction cols arbitrary: off vals data)
  case (Cons c cs)
  obtain v vs where v: "vals = v # vs" using Cons.prems(2) by (cases vals) auto
  obtain b where b: "raw_bytes (cm_len c) (v_lit v) = Inr b" "value_ok v" using Cons.prems(3) v by (auto simp: value_fits_def)
  have lb: "length b = nat (cm_len c)" by (rule raw_bytes_length[OF b(1)]) (use b(2) in \<open>simp add: value_ok_def\<close>)
  have c: "0 \<le> off" "cm_offset c = off" "0 \<le> cm_len c" "tiled (off + cm_len c) cs" using Cons.prems(1) by auto
  have fin: "off + cm_len c \<le> cols_end off (c # cs)" using tiled_bounds(3)[OF Cons.prems(1), of 0] c(2) by simp
  have room: "nat off + length b \<le> length data"
    using Cons.prems(4) c(1,3) fin lb by (simp add: nat_add_distrib[symmetric])
  let ?d = "store data (nat off) b"
  have ld: "length ?d = length data" using room by (simp add: length_store)
  have "load (row_of (zip cs vs) ?d) p n = load ?d p n"
    by (rule Cons.IH[OF c(4)]) (use Cons.prems v ld c(1,3) in \<open>auto simp: nat_add_distrib\<close>)
  moreover have "load ?d p n = load data p n" using Cons.prems(5) room by (simp add: load_store_before)
  ultimately show ?case using v b(1) c(2) by simp
qed simp

lemma row_of_at:
  assumes "tiled off cols" "length vals = length cols" "\<forall>(col, v) \<in> set (zip cols vals). value_fits col v"
    "nat (cols_end off cols) \<le> length data" "i < length cols"
  shows "Inr (load (row_of (zip cols vals) data) (nat (cm_offset (cols ! i))) (nat (cm_len (cols ! i)))) =
    raw_bytes (cm_len (cols ! i)) (v_lit (vals ! i))"
  using assms
proof (induction cols arbitrary: off vals data i)
  case (Cons c cs)
  obtain v vs where v: "vals = v # vs" using Cons.prems(2) by (cases vals) auto
  obtain b where b: "raw_bytes (cm_len c) (v_lit v) = Inr b" "value_ok v" using Cons.prems(3) v by (auto simp: value_fits_def)
  have lb: "length b = nat (cm_len c)" by (rule raw_bytes_length[OF b(1)]) (use b(2) in \<open>simp add: value_ok_def\<close>)
  have c: "0 \<le> off" "cm_offset c = off" "0 \<le> cm_len c" "tiled (off + cm_len c) cs" using Cons.prems(1) by auto
  have fin: "off + cm_len c \<le> cols_end off (c # cs)" using tiled_bounds(3)[OF Cons.prems(1), of 0] c(2) by simp
  have room: "nat off + length b \<le> length data"
    using Cons.prems(4) c(1,3) fin lb by (simp add: nat_add_distrib[symmetric])
  let ?d = "store data (nat off) b"
  have ld: "length ?d = length data" using room by (simp add: length_store)
  have fits: "\<forall>(col, v) \<in> set (zip cs vs). value_fits col v" using Cons.prems(3) v by auto
  have l: "length vs = length cs" "nat (cols_end (off + cm_len c) cs) \<le> length ?d" using Cons.prems(2,4) v ld by auto
  show ?case
  proof (cases i)
    case 0
    have "load (row_of (zip cs vs) ?d) (nat off) (nat (cm_len c)) = load ?d (nat off) (nat (cm_len c))"
      by (rule row_of_before[OF c(4) l(1) fits l(2)]) (use c(1,3) in simp)
    moreover have "load ?d (nat off) (nat (cm_len c)) = b" using room lb by (simp add: load_store_same_n)
    ultimately show ?thesis using 0 v b(1) c(2) by simp
  next
    case (Suc j)
    then show ?thesis using Cons.IH[OF c(4) l(1) fits l(2), of j] Cons.prems(5) v b(1) c(2) by simp
  qed
qed simp

section \<open>Reading it back\<close>

definition storable :: "literal \<Rightarrow> bool" where
  "storable l \<longleftrightarrow> (case l of IntVal i \<Rightarrow> int_ok i | FloatVal f \<Rightarrow> length f = 4 | StrVal w \<Rightarrow> CHR 0x00 \<notin> set w
     | DateTimeVal d \<Rightarrow> list_all int_ok [day d, month d, year d, hour d, minute d, second d])"

lemma bytes_text_bytes [simp]: "bytes_text (text_bytes w) = w"
proof -
  have "of_char c < (256::nat)" for c :: char by (rule nat_of_char_less_256)
  then have "unat (word_of_nat (of_char c) :: byte) = of_char c" for c :: char
    by (simp add: unat_of_nat take_bit_nat_eq_self)
  then show ?thesis by (simp add: bytes_text_def text_bytes_def comp_def)
qed

lemma text_byte_zero: "(word_of_nat (of_char c) :: byte) = 0 \<longleftrightarrow> c = CHR 0x00"
proof
  assume "(word_of_nat (of_char c) :: byte) = 0"
  then have "unat (word_of_nat (of_char c) :: byte) = 0" by simp
  moreover have "of_char c < (256::nat)" by (rule nat_of_char_less_256)
  ultimately have "of_char c = (0::nat)" by (simp add: unat_of_nat take_bit_nat_eq_self)
  then have "c = char_of (0::nat)" using char_of_char[of c, where 'a = nat] by simp
  moreover have "char_of (0::nat) = CHR 0x00" by (simp add: char_of_def)
  ultimately show "c = CHR 0x00" by (rule trans)
qed simp

lemma stored_string_pad:
  assumes "CHR 0x00 \<notin> set w"
  shows "stored_string (text_bytes w @ replicate n 0) = w"
proof -
  have "takeWhile (\<lambda>x. x \<noteq> 0) (text_bytes w @ replicate n 0) = text_bytes w"
    using assms by (induction w) (auto simp: text_bytes_def text_byte_zero takeWhile_replicate)
  then show ?thesis by (simp add: stored_string_def)
qed

lemma load_int_prefix: "o1 + 4 \<le> n \<Longrightarrow> load_int (take n b) o1 = load_int b o1"
  by (simp add: load_int_def load_def drop_take min_def)

lemma column_literal_raw:
  assumes "raw_bytes (cm_len col) l = Inr (load data (nat (cm_offset col)) (nat (cm_len col)))"
    and "literal_type l = cm_type col" "storable l"
  shows "column_literal col data = l"
proof (cases l)
  case (IntVal i)
  then have "cm_len col = 4" "load data (nat (cm_offset col)) 4 = int_bytes i" using assms(1) by (auto split: if_splits)
  then show ?thesis using IntVal assms(2,3) by (simp add: column_literal_def load_int_def load_def storable_def)
next
  case (FloatVal f)
  then have "load data (nat (cm_offset col)) 4 = f" using assms(1) by (auto split: if_splits)
  then show ?thesis using FloatVal assms(2) by (simp add: column_literal_def load_def)
next
  case (StrVal w)
  then have "load data (nat (cm_offset col)) (nat (cm_len col)) = text_bytes w @ replicate (nat (cm_len col) - length w) 0"
    using assms(1) by (auto split: if_splits)
  then show ?thesis using StrVal assms(2,3) stored_string_pad by (simp add: column_literal_def load_def storable_def)
next
  case (DateTimeVal d)
  then have b: "load data (nat (cm_offset col)) 24 = datetime_bytes d" using assms(1) by (auto split: if_splits)
  have "datetime_of_bytes (drop (nat (cm_offset col)) data) = datetime_of_bytes (load data (nat (cm_offset col)) 24)"
    by (simp add: datetime_of_bytes_def load_def load_int_prefix)
  then show ?thesis
    using DateTimeVal assms(2,3) b datetime_of_datetime_bytes[of d] by (simp add: column_literal_def storable_def)
qed

text \<open>The bytes of a record stand for these values.\<close>

definition row_is :: "Column_Metadata list \<Rightarrow> literal list \<Rightarrow> byte list \<Rightarrow> bool" where
  "row_is cols lits data \<longleftrightarrow> length lits = length cols \<and> (\<forall>i < length cols.
     literal_type (lits ! i) = cm_type (cols ! i) \<and> storable (lits ! i) \<and>
     nat (cm_offset (cols ! i)) + nat (cm_len (cols ! i)) \<le> length data \<and>
     raw_bytes (cm_len (cols ! i)) (lits ! i) = Inr (load data (nat (cm_offset (cols ! i))) (nat (cm_len (cols ! i)))))"

lemma row_of_is:
  assumes "tiled 0 cols" "length vals = length cols" "\<forall>(col, v) \<in> set (zip cols vals). value_fits col v \<and> storable (v_lit v)"
    "nat (cols_end 0 cols) \<le> length data"
  shows "row_is cols (map v_lit vals) (row_of (zip cols vals) data)"
proof -
  have fits: "\<forall>(col, v) \<in> set (zip cols vals). value_fits col v" using assms(3) by auto
  have fitc: "cols_fit (length data) (map fst (zip cols vals))"
    using tiled_fit[OF assms(1)] assms(2,4) by (fastforce simp: cols_fit_def)
  have len: "length (row_of (zip cols vals) data) = length data" using fill_record_run[OF fits fitc] by simp
  have "value_fits (cols ! i) (vals ! i) \<and> storable (v_lit (vals ! i))" if "i < length cols" for i
  proof -
    have "(cols ! i, vals ! i) \<in> set (zip cols vals)" using that assms(2) by (auto simp: set_zip)
    then show ?thesis using assms(3) by auto
  qed
  moreover have "nat (cm_offset (cols ! i)) + nat (cm_len (cols ! i)) \<le> length data" if "i < length cols" for i
    using tiled_fit[OF assms(1)] assms(4) nth_mem[OF that] by (fastforce simp: cols_fit_def)
  ultimately show ?thesis
    using row_of_at[OF assms(1,2) fits assms(4)] assms(2) len by (simp add: row_is_def value_fits_def v_type_def)
qed

lemma row_is_literal:
  assumes "row_is cols lits data" "i < length cols"
  shows "column_literal (cols ! i) data = lits ! i"
  by (rule column_literal_raw) (use assms in \<open>simp_all add: row_is_def\<close>)

lemma row_is_text: "row_is cols lits data \<Longrightarrow> result_row cols data = map literal_text lits"
  by (rule nth_equalityI) (simp_all add: result_row_def row_is_literal, simp_all add: row_is_def)

section \<open>Comparing values\<close>

fun str_cmp :: "string \<Rightarrow> string \<Rightarrow> int" where
  "str_cmp [] [] = 0"
| "str_cmp [] (y # ys) = -1"
| "str_cmp (x # xs) [] = 1"
| "str_cmp (x # xs) (y # ys) = (if x = y then str_cmp xs ys else if (of_char x :: nat) < of_char y then -1 else 1)"

text \<open>Values of one type; strings in lexicographic order, dates are left out.\<close>

fun lit_cmp :: "literal \<Rightarrow> literal \<Rightarrow> int" where
  "lit_cmp (IntVal a) (IntVal b) = int_cmp a b"
| "lit_cmp (FloatVal f) (FloatVal g) = float_key_cmp f g"
| "lit_cmp (StrVal a) (StrVal b) = str_cmp a b"
| "lit_cmp _ _ = 0"

lemma unat_text_byte: "unat (word_of_nat (of_char c) :: byte) = of_char c"
  using nat_of_char_less_256[of c] by (simp add: unat_of_nat take_bit_nat_eq_self)

lemma text_bytes_less: "(word_of_nat (of_char x) :: byte) < word_of_nat (of_char y) \<longleftrightarrow> (of_char x :: nat) < of_char y"
  by (simp add: word_less_nat_alt unat_text_byte)

lemma text_bytes_eq: "(word_of_nat (of_char x) :: byte) = word_of_nat (of_char y) \<longleftrightarrow> x = y"
proof
  assume "(word_of_nat (of_char x) :: byte) = word_of_nat (of_char y)"
  then have "(of_char x :: nat) = of_char y" by (metis unat_text_byte)
  then show "x = y" by (metis char_of_char)
qed simp

lemma memcmp_zeros: "memcmp (replicate m 0) (replicate n 0) = 0"
proof (induction m arbitrary: n)
  case (Suc m)
  then show ?case by (cases n) simp_all
qed simp

lemma memcmp_pad:
  assumes "CHR 0x00 \<notin> set a" "CHR 0x00 \<notin> set b" "length a \<le> n" "length b \<le> n"
  shows "memcmp (text_bytes a @ replicate (n - length a) 0) (text_bytes b @ replicate (n - length b) 0) = str_cmp a b"
  using assms
proof (induction a b arbitrary: n rule: str_cmp.induct)
  case 1
  then show ?case by (simp add: text_bytes_def memcmp_zeros)
next
  case (2 y ys)
  then have "(0::byte) < word_of_nat (of_char y)" by (auto simp: text_byte_zero word_gt_0)
  moreover have "n = Suc (n - 1)" using 2 by simp
  then have "replicate n (0::byte) = 0 # replicate (n - 1) 0" by (metis replicate_Suc)
  ultimately show ?case by (simp add: text_bytes_def)
next
  case (3 x xs)
  then have "(0::byte) < word_of_nat (of_char x)" by (auto simp: text_byte_zero word_gt_0)
  moreover have "n = Suc (n - 1)" using 3 by simp
  then have "replicate n (0::byte) = 0 # replicate (n - 1) 0" by (metis replicate_Suc)
  ultimately show ?case by (simp add: text_bytes_def less_imp_not_less)
next
  case (4 x xs y ys)
  then show ?case using 4(1)[of "n - 1"] by (auto simp: text_bytes_def text_bytes_eq text_bytes_less)
qed

lemma compare_raw:
  assumes "literal_type a = ty" "literal_type b = ty" "ty \<noteq> TYPE_DATETIME" "storable a" "storable b"
    "raw_bytes len a = Inr x" "raw_bytes len b = Inr y"
  shows "compare_keys x y ty (nat len) = Inr (lit_cmp a b)"
proof (cases a)
  case (IntVal i)
  then obtain j where "b = IntVal j" using assms(1,2) by (cases b) auto
  then show ?thesis using IntVal assms by (auto simp: compare_keys_type int_key_cmp_def storable_def load_int_def load_def split: if_splits)
next
  case (FloatVal f)
  then obtain g where "b = FloatVal g" using assms(1,2) by (cases b) auto
  then show ?thesis using FloatVal assms by (auto simp: compare_keys_type split: if_splits)
next
  case (StrVal v)
  then obtain w where b: "b = StrVal w" using assms(1,2) by (cases b) auto
  have l: "length v \<le> nat len" "length w \<le> nat len" using StrVal b assms(6,7) by (auto split: if_splits)
  have "x = text_bytes v @ replicate (nat len - length v) 0" "y = text_bytes w @ replicate (nat len - length w) 0"
    using StrVal b assms(6,7) by (auto split: if_splits)
  then show ?thesis
    using memcmp_pad[of v w "nat len"] l StrVal b assms(1,4,5) by (auto simp: compare_keys_type storable_def text_bytes_def)
next
  case (DateTimeVal d)
  then show ?thesis using assms(1,3) by auto
qed

lemma compare_key_prefixes:
  assumes "key_size ty (int n) = n" "ty \<noteq> TYPE_DATETIME"
  shows "compare_keys (take n a) (take n b) ty n = compare_keys a b ty n"
proof (cases ty)
  case TYPE_INT
  then show ?thesis using assms by (simp add: key_size_def compare_keys_def load_int_def load_def)
next
  case TYPE_FLOAT
  then show ?thesis using assms by (simp add: key_size_def compare_keys_def float_bits_def)
qed (use assms in \<open>simp_all add: compare_keys_def\<close>)

section \<open>Conditions on rows\<close>

definition lit_of :: "Column_Metadata list \<Rightarrow> literal list \<Rightarrow> TabCol \<Rightarrow> literal option" where
  "lit_of cols lits c = map_of (zip (map cm_name cols) lits) (tc_col c)"

definition cond_holds :: "Column_Metadata list \<Rightarrow> literal list \<Rightarrow> Condition \<Rightarrow> bool" where
  "cond_holds cols lits c \<longleftrightarrow> (case (lit_of cols lits (lhs_col c),
       if is_rhs_val c then Some (v_lit (rhs_val c)) else lit_of cols lits (rhs_col c)) of
     (Some a, Some b) \<Rightarrow> test_op (cond_op c) (lit_cmp a b) | _ \<Rightarrow> False)"

lemma lit_of_nth:
  assumes "cols_named name cols" "length lits = length cols" "i < length cols" "tc_col c = cm_name (cols ! i)"
  shows "lit_of cols lits c = Some (lits ! i)"
proof -
  have "distinct (map cm_name cols)" using assms(1) by (simp add: cols_named_def)
  then show ?thesis
    using map_of_zip_nth[of "map cm_name cols" lits i] assms(2-4) by (simp add: lit_of_def)
qed

text \<open>A checked condition: its columns are columns of the table, its value has the bytes of the column's type.\<close>

definition cond_checked :: "string \<Rightarrow> Column_Metadata list \<Rightarrow> Condition \<Rightarrow> bool" where
  "cond_checked name cols c \<longleftrightarrow> (\<exists>i < length cols. lhs_col c = TabCol name (cm_name (cols ! i)) \<and>
     cm_type (cols ! i) \<noteq> TYPE_DATETIME \<and>
     (if is_rhs_val c then \<exists>b. v_raw (rhs_val c) = Some b \<and> raw_bytes (cm_len (cols ! i)) (v_lit (rhs_val c)) = Inr b \<and>
          v_type (rhs_val c) = cm_type (cols ! i) \<and> storable (v_lit (rhs_val c))
      else \<exists>j < length cols. rhs_col c = TabCol name (cm_name (cols ! j)) \<and> cm_type (cols ! j) = cm_type (cols ! i) \<and>
          cm_len (cols ! j) = cm_len (cols ! i)))"

lemma row_raw:
  assumes "row_is cols lits data" "i < length cols"
  shows "raw_bytes (cm_len (cols ! i)) (lits ! i) = Inr (take (nat (cm_len (cols ! i))) (drop (nat (cm_offset (cols ! i))) data))"
    "literal_type (lits ! i) = cm_type (cols ! i)" "storable (lits ! i)"
    "nat (cm_len (cols ! i)) \<le> length (drop (nat (cm_offset (cols ! i))) data)"
proof -
  have "nat (cm_offset (cols ! i)) + nat (cm_len (cols ! i)) \<le> length data"
    "raw_bytes (cm_len (cols ! i)) (lits ! i) = Inr (load data (nat (cm_offset (cols ! i))) (nat (cm_len (cols ! i))))"
    "literal_type (lits ! i) = cm_type (cols ! i)" "storable (lits ! i)"
    using assms by (simp_all add: row_is_def)
  then show "raw_bytes (cm_len (cols ! i)) (lits ! i) = Inr (take (nat (cm_len (cols ! i))) (drop (nat (cm_offset (cols ! i))) data))"
    "literal_type (lits ! i) = cm_type (cols ! i)" "storable (lits ! i)"
    "nat (cm_len (cols ! i)) \<le> length (drop (nat (cm_offset (cols ! i))) data)"
    by (simp_all add: load_def)
qed

lemma eval_cond_holds:
  assumes named: "cols_named name cols" and row: "row_is cols lits data" and c: "cond_checked name cols c"
  shows "eval_cond cols c data = Inr (cond_holds cols lits c)"
proof -
  obtain i where i: "i < length cols" "lhs_col c = TabCol name (cm_name (cols ! i))" "cm_type (cols ! i) \<noteq> TYPE_DATETIME"
    and rhs: "if is_rhs_val c then \<exists>b. v_raw (rhs_val c) = Some b \<and> raw_bytes (cm_len (cols ! i)) (v_lit (rhs_val c)) = Inr b \<and>
          v_type (rhs_val c) = cm_type (cols ! i) \<and> storable (v_lit (rhs_val c))
      else \<exists>j < length cols. rhs_col c = TabCol name (cm_name (cols ! j)) \<and> cm_type (cols ! j) = cm_type (cols ! i) \<and>
          cm_len (cols ! j) = cm_len (cols ! i)"
    using c unfolding cond_checked_def by blast
  let ?col = "cols ! i" and ?n = "nat (cm_len (cols ! i))"
  have len: "length lits = length cols" using row by (simp add: row_is_def)
  have sz: "key_size (cm_type ?col) (cm_len ?col) = ?n" "key_size (cm_type ?col) (int ?n) = ?n"
    using named i(1) by (auto simp: cols_named_def col_sized_def)
  note gi = ql_get_col_named[OF named i(1)]
  note li = lit_of_nth[OF named len i(1), of "lhs_col c"]
  note R = row_raw[OF row i(1)]
  show ?thesis
  proof (cases "is_rhs_val c")
    case True
    then obtain b where b: "v_raw (rhs_val c) = Some b" "raw_bytes (cm_len ?col) (v_lit (rhs_val c)) = Inr b"
      "v_type (rhs_val c) = cm_type ?col" "storable (v_lit (rhs_val c))" using rhs by auto
    have "length b = ?n" by (rule raw_bytes_length[OF b(2)]) (use b(4) in \<open>simp add: storable_def\<close>)
    then have cmp: "compare_keys (drop (nat (cm_offset ?col)) data) b (cm_type ?col) ?n = Inr (lit_cmp (lits ! i) (v_lit (rhs_val c)))"
      using compare_raw[OF R(2) _ i(3) R(3) b(4) R(1) b(2)] b(3) compare_key_prefixes[OF sz(2) i(3), of _ b] by (simp add: v_type_def)
    show ?thesis
      using True gi i(2) b(1,3) li R(4) sz(1) \<open>length b = ?n\<close> cmp
      by (simp add: eval_cond_def rhs_operand_def Let_def cond_holds_def)
  next
    case False
    then obtain j where j: "j < length cols" "rhs_col c = TabCol name (cm_name (cols ! j))" "cm_type (cols ! j) = cm_type ?col"
      "cm_len (cols ! j) = cm_len ?col" using rhs by auto
    note gj = ql_get_col_named[OF named j(1)]
    note lj = lit_of_nth[OF named len j(1), of "rhs_col c"]
    note S = row_raw[OF row j(1), unfolded j(3,4)]
    have cmp: "compare_keys (drop (nat (cm_offset ?col)) data) (drop (nat (cm_offset (cols ! j))) data) (cm_type ?col) ?n =
        Inr (lit_cmp (lits ! i) (lits ! j))"
      using compare_raw[OF R(2) S(2) i(3) R(3) S(3) R(1) S(1)] compare_key_prefixes[OF sz(2) i(3)] by simp
    show ?thesis
      using False gi gj i(2) j(2,3) li lj R(4) S(4) sz(1) cmp
      by (simp add: eval_cond_def rhs_operand_def Let_def cond_holds_def)
  qed
qed

lemma eval_conds_hold:
  assumes "cols_named name cols" "row_is cols lits data" "\<forall>c \<in> set cs. cond_checked name cols c"
  shows "eval_conds cols cs data = Inr (list_all (cond_holds cols lits) cs)"
  using assms(3)
proof (induction cs)
  case (Cons c cs)
  then show ?case using eval_cond_holds[OF assms(1,2), of c] by simp
qed simp

section \<open>Checked conditions\<close>

lemma infer_table_name:
  assumes "infer_table cn found cols = Inr t" "\<forall>c \<in> set cols. cm_tab_name c = name" "found = [] \<or> found = name" "name \<noteq> []"
  shows "t = name \<and> (found = [] \<longrightarrow> cn \<in> cm_name ` set cols)"
  using assms
proof (induction cols arbitrary: found)
  case (Cons c cs)
  show ?case
  proof (cases "cm_name c = cn")
    case True
    then have "found = []" "infer_table cn name cs = Inr t" using Cons.prems(1,2) by (auto split: if_splits)
    then show ?thesis using Cons.IH[of name] Cons.prems(2,4) True by auto
  next
    case False
    then show ?thesis using Cons.IH[of found] Cons.prems by auto
  qed
qed (auto split: if_splits)

definition own_column :: "string \<Rightarrow> TabCol \<Rightarrow> bool" where
  "own_column name c \<longleftrightarrow> tc_tab c = [] \<or> tc_tab c = name"

text \<open>A column that passes the check of a statement on one table is one of its columns, named in full.\<close>

lemma check_column_own:
  assumes g: "get_table d name = Inr tab" and n: "name \<noteq> []" and named: "cols_named name (tm_cols tab)"
    and c: "check_column d (tm_cols tab) t = Inr t'" "own_column name t"
  shows "\<exists>i < length (tm_cols tab). t' = TabCol name (cm_name (tm_cols tab ! i)) \<and> cm_name (tm_cols tab ! i) = tc_col t"
proof -
  have "t' = TabCol name (tc_col t) \<and> tc_col t \<in> cm_name ` set (tm_cols tab)"
  proof (cases "tc_tab t = []")
    case True
    then obtain w where w: "infer_table (tc_col t) [] (tm_cols tab) = Inr w" "t' = TabCol w (tc_col t)"
      using c(1) by (auto simp: check_column_def split: sum.splits)
    have "\<forall>c \<in> set (tm_cols tab). cm_tab_name c = name" using named by (simp add: cols_named_def)
    then show ?thesis using infer_table_name[OF w(1) _ _ n] w(2) by simp
  next
    case False
    then have "tc_tab t = name" using c(2) by (simp add: own_column_def)
    then have "t' = t" "is_col tab (tc_col t)" "tc_tab t = name"
      using c(1) False g by (auto simp: check_column_def split: if_splits sum.splits)
    moreover have "tc_col t \<in> cm_name ` set (tm_cols tab)" using \<open>is_col tab (tc_col t)\<close> by (force simp: is_col_def list_ex_iff)
    ultimately show ?thesis by (cases t) simp
  qed
  then show ?thesis by (auto simp: in_set_conv_nth)
qed

lemma find_column_own:
  assumes "get_table d name = Inr tab" "cols_named name (tm_cols tab)" "i < length (tm_cols tab)"
  shows "find_column d (TabCol name (cm_name (tm_cols tab ! i))) = Inr (tm_cols tab ! i)"
  using assms get_col_named[OF assms(2,3)] by (simp add: find_column_def)

text \<open>
  The conditions of a statement on one table whose meaning is the comparison of values: no
  condition names another table, no date is compared, two columns that are compared have one
  length, the value is storable and no NaN.
\<close>

definition cond_plain :: "string \<Rightarrow> Column_Metadata list \<Rightarrow> Condition \<Rightarrow> bool" where
  "cond_plain name cols c \<longleftrightarrow> own_column name (lhs_col c) \<and>
     (\<forall>col \<in> set cols. cm_name col = tc_col (lhs_col c) \<longrightarrow> cm_type col \<noteq> TYPE_DATETIME) \<and>
     (if is_rhs_val c then storable (v_lit (rhs_val c)) \<and> (\<forall>f. v_lit (rhs_val c) = FloatVal f \<longrightarrow> \<not> float_nan (float_bits f))
      else own_column name (rhs_col c) \<and> (\<forall>col \<in> set cols. \<forall>col' \<in> set cols. cm_name col = tc_col (lhs_col c) \<longrightarrow>
        cm_name col' = tc_col (rhs_col c) \<longrightarrow> cm_len col' = cm_len col))"

lemma check_cond_plain:
  assumes g: "get_table d name = Inr tab" and n: "name \<noteq> []" and named: "cols_named name (tm_cols tab)"
    and c: "check_cond d (tm_cols tab) c = Inr c'" and plain: "cond_plain name (tm_cols tab) c"
  shows "cond_checked name (tm_cols tab) c' \<and> fed_cond_ok (tm_cols tab) c' \<and> conds_on name [c'] \<and>
    cond_holds (tm_cols tab) lits c' = cond_holds (tm_cols tab) lits c"
proof -
  let ?cols = "tm_cols tab"
  obtain lhs where lhs: "check_column d ?cols (lhs_col c) = Inr lhs"
    using c by (auto simp: check_cond_def sum_then_def split: sum.splits)
  have "own_column name (lhs_col c)" using plain by (simp add: cond_plain_def)
  from check_column_own[OF g n named lhs this]
  obtain i where i: "i < length ?cols" "lhs = TabCol name (cm_name (?cols ! i))" "cm_name (?cols ! i) = tc_col (lhs_col c)"
    by blast
  note fi = find_column_own[OF g named i(1)]
  have ty: "cm_type (?cols ! i) \<noteq> TYPE_DATETIME" using plain nth_mem[OF i(1)] i(3) by (auto simp: cond_plain_def)
  show ?thesis
  proof (cases "is_rhs_val c")
    case True
    obtain v where v: "init_raw (cm_len (?cols ! i)) (rhs_val c) = Inr v" "v_type v = cm_type (?cols ! i)"
      "c' = c\<lparr>lhs_col := lhs, rhs_val := v\<rparr>"
      using c lhs True fi i(2) by (auto simp: check_cond_def sum_then_def check_types_def split: sum.splits if_splits)
    obtain b where b: "raw_bytes (cm_len (?cols ! i)) (v_lit (rhs_val c)) = Inr b" "v = (rhs_val c)\<lparr>v_raw := Some b\<rparr>"
      using v(1) by (auto simp: init_raw_def split: sum.splits if_splits)
    have st: "storable (v_lit (rhs_val c))" "\<forall>f. v_lit (rhs_val c) = FloatVal f \<longrightarrow> \<not> float_nan (float_bits f)"
      using plain True by (auto simp: cond_plain_def)
    have lb: "length b = nat (cm_len (?cols ! i))" by (rule raw_bytes_length[OF b(1)]) (use st(1) in \<open>simp add: storable_def\<close>)
    have "key_for (?cols ! i) b"
    proof (cases "v_lit (rhs_val c)")
      case (FloatVal f)
      then show ?thesis using b(1) st lb by (auto simp: key_for_def split: if_splits)
    qed (use v(2) b(2) lb in \<open>auto simp: key_for_def v_type_def\<close>)
    then show ?thesis
      using i ty st(1) b v True lit_of_def
      by (auto simp: cond_checked_def fed_cond_ok_def conds_on_def cond_holds_def lit_of_def v_type_def cong: option.case_cong)
  next
    case False
    obtain rhs where rhs: "check_column d ?cols (rhs_col c) = Inr rhs"
      using c False by (auto simp: check_cond_def sum_then_def split: sum.splits)
    have "own_column name (rhs_col c)" using plain False by (simp add: cond_plain_def)
    from check_column_own[OF g n named rhs this]
    obtain j where j: "j < length ?cols" "rhs = TabCol name (cm_name (?cols ! j))" "cm_name (?cols ! j) = tc_col (rhs_col c)"
      by blast
    note fj = find_column_own[OF g named j(1)]
    have c': "cm_type (?cols ! i) = cm_type (?cols ! j)" "c' = c\<lparr>lhs_col := lhs, rhs_col := rhs\<rparr>"
      using c lhs rhs False fi fj i(2) j(2) by (auto simp: check_cond_def sum_then_def check_types_def split: if_splits)
    have "cm_len (?cols ! j) = cm_len (?cols ! i)"
      using plain False nth_mem[OF i(1)] nth_mem[OF j(1)] i(3) j(3) by (auto simp: cond_plain_def)
    then have "cond_checked name ?cols c'"
      unfolding cond_checked_def by (intro exI[of _ i]) (use i j c' ty False in \<open>auto intro!: exI[of _ j]\<close>)
    moreover have "fed_cond_ok ?cols c'"
      unfolding fed_cond_ok_def by (rule exI[of _ i]) (use i c' False in simp)
    ultimately show ?thesis
      using i(2,3) j(2,3) c'(2) False by (simp add: conds_on_def cond_holds_def lit_of_def cong: option.case_cong)
  qed
qed

lemma map_sum_list_Inr: "map_sum_list f xs = Inr ys \<Longrightarrow> list_all2 (\<lambda>x y. f x = Inr y) xs ys"
  by (induction xs arbitrary: ys) (auto split: sum.splits)

text \<open>The conditions of a statement on the rows of a table, before and after their check.\<close>

lemma check_where_plain:
  assumes "get_table d name = Inr tab" "name \<noteq> []" "cols_named name (tm_cols tab)"
    and "check_where_clause d [name] conds = Inr conds'" "list_all (cond_plain name (tm_cols tab)) conds"
  shows "list_all (cond_checked name (tm_cols tab)) conds'" "list_all (fed_cond_ok (tm_cols tab)) conds'" "conds_on name conds'"
    "list_all (cond_holds (tm_cols tab) lits) conds' = list_all (cond_holds (tm_cols tab) lits) conds"
proof -
  have "list_all2 (\<lambda>c c'. check_cond d (tm_cols tab) c = Inr c') conds conds'"
    by (rule map_sum_list_Inr) (use assms(1,4) in \<open>simp add: check_where_clause_def sum_then_def\<close>)
  then have "list_all2 (\<lambda>c c'. check_cond d (tm_cols tab) c = Inr c' \<and> cond_plain name (tm_cols tab) c) conds conds'"
    using assms(5) by (auto simp: list_all2_conv_all_nth list_all_length)
  then have "list_all (cond_checked name (tm_cols tab)) conds' \<and> list_all (fed_cond_ok (tm_cols tab)) conds' \<and> conds_on name conds' \<and>
      list_all (cond_holds (tm_cols tab) lits) conds' = list_all (cond_holds (tm_cols tab) lits) conds"
    using check_cond_plain[OF assms(1-3)] by (induction rule: list_all2_induct) (auto simp: conds_on_def)
  then show "list_all (cond_checked name (tm_cols tab)) conds'" "list_all (fed_cond_ok (tm_cols tab)) conds'" "conds_on name conds'"
    "list_all (cond_holds (tm_cols tab) lits) conds' = list_all (cond_holds (tm_cols tab) lits) conds" by simp_all
qed

section \<open>A table as rows of values\<close>

definition row_lits :: "Column_Metadata list \<Rightarrow> byte list \<Rightarrow> literal list" where
  "row_lits cols data = map (\<lambda>col. column_literal col data) cols"

lemma row_is_lits: "row_is cols lits data \<Longrightarrow> row_lits cols data = lits"
  by (rule nth_equalityI) (simp_all add: row_lits_def row_is_literal, simp_all add: row_is_def)

definition table_rows :: "'z sm_state_scheme \<Rightarrow> string \<Rightarrow> Column_Metadata list \<Rightarrow> RecordID \<rightharpoonup> literal list" where
  "table_rows s name cols r = map_option (row_lits cols) (content s name r)"

text \<open>Every record is a row.\<close>

definition rows_stored :: "'z sm_state_scheme \<Rightarrow> string \<Rightarrow> Column_Metadata list \<Rightarrow> bool" where
  "rows_stored s name cols \<longleftrightarrow> (\<forall>r data. content s name r = Some data \<longrightarrow> row_is cols (row_lits cols data) data)"

lemma dom_table_rows [simp]: "dom (table_rows s name cols) = dom (content s name)"
  by (auto simp: table_rows_def)

lemma conds_run_plain:
  assumes g: "get_table d name = Inr tab" "name \<noteq> []" and named: "cols_named name (tm_cols tab)"
    and chk: "check_where_clause d [name] conds = Inr conds'" and plain: "list_all (cond_plain name (tm_cols tab)) conds"
    and rows: "rows_stored s name (tm_cols tab)"
  shows "conds_run (tm_cols tab) conds' (content s name)"
    "matching tab conds' (content s name) =
      {r. \<exists>lits. table_rows s name (tm_cols tab) r = Some lits \<and> list_all (cond_holds (tm_cols tab) lits) conds}"
proof -
  note W = check_where_plain[OF g named chk plain]
  have e: "eval_conds (tm_cols tab) conds' data = Inr (list_all (cond_holds (tm_cols tab) (row_lits (tm_cols tab) data)) conds)"
    if d: "content s name r = Some data" for r data
  proof -
    have "row_is (tm_cols tab) (row_lits (tm_cols tab) data) data" using rows d by (simp add: rows_stored_def)
    from eval_conds_hold[OF named this] W(1) W(4)[of "row_lits (tm_cols tab) data"] show ?thesis by (simp add: list_all_iff)
  qed
  then show "conds_run (tm_cols tab) conds' (content s name)"
    using W(2) by (auto simp: conds_run_def list_all_iff ran_def)
  show "matching tab conds' (content s name) =
      {r. \<exists>lits. table_rows s name (tm_cols tab) r = Some lits \<and> list_all (cond_holds (tm_cols tab) lits) conds}"
    using e by (auto simp: matching_def sat_all_def table_rows_def)
qed

end
