(* ===== verification/QlStatements.thy ===== *)
theory QlStatements
  imports QlRows
begin

text \<open>
  The statements on rows of values: \<open>insert_into\<close> adds a row, \<open>delete_from\<close> removes the rows on
  which the where clause holds, \<open>update_set\<close> replaces values in them, and all keep the table a
  table of rows.
\<close>

section \<open>Replacing values\<close>

lemma tiled_apart:
  assumes "tiled off cols" "i < j" "j < length cols"
  shows "cm_offset (cols ! i) + cm_len (cols ! i) \<le> cm_offset (cols ! j)"
  using assms
proof (induction cols arbitrary: off i j)
  case (Cons c cs)
  obtain k where k: "j = Suc k" "k < length cs" using Cons.prems(2,3) by (cases j) auto
  show ?case
  proof (cases i)
    case 0
    then show ?thesis using tiled_bounds(1)[of "off + cm_len c" cs k] Cons.prems(1) k by simp
  next
    case (Suc l)
    then show ?thesis using Cons.IH[of "off + cm_len c" l k] Cons.prems k by simp
  qed
qed simp

lemma store_row_is:
  assumes t: "tiled 0 cols" and row: "row_is cols lits data" and i: "i < length cols"
    and l: "literal_type l = cm_type (cols ! i)" "storable l" "raw_bytes (cm_len (cols ! i)) l = Inr b"
  shows "row_is cols (lits[i := l]) (store data (nat (cm_offset (cols ! i))) b)"
proof -
  let ?o = "\<lambda>j. nat (cm_offset (cols ! j))" and ?n = "\<lambda>j. nat (cm_len (cols ! j))"
  have lb: "length b = ?n i" by (rule raw_bytes_length[OF l(3)]) (use l(2) in \<open>simp add: storable_def\<close>)
  have room: "?o i + ?n i \<le> length data" using row i by (simp add: row_is_def)
  let ?d = "store data (?o i) b"
  have len: "length ?d = length data" using room lb by (simp add: length_store)
  have keep: "load ?d (?o j) (?n j) = load data (?o j) (?n j)" if "j < length cols" "j \<noteq> i" for j
  proof (cases "j < i")
    case True
    then have "?o j + ?n j \<le> ?o i"
      using tiled_apart[OF t True i] tiled_bounds(1,2)[OF t that(1)] by (simp add: nat_add_distrib[symmetric])
    then show ?thesis using room by (simp add: load_store_before)
  next
    case False
    then have "i < j" using that(2) by simp
    from tiled_apart[OF t this that(1)] have "?o i + length b \<le> ?o j"
      using tiled_bounds(1,2)[OF t i] lb by (simp add: nat_add_distrib[symmetric])
    then show ?thesis using room lb by (simp add: load_store_after)
  qed
  have at: "load ?d (?o i) (?n i) = b" using room lb by (simp add: load_store_same_n)
  have "literal_type (lits[i := l] ! j) = cm_type (cols ! j) \<and> storable (lits[i := l] ! j) \<and> ?o j + ?n j \<le> length ?d \<and>
      raw_bytes (cm_len (cols ! j)) (lits[i := l] ! j) = Inr (load ?d (?o j) (?n j))" if j: "j < length cols" for j
    using row l at keep[OF j] j by (cases "j = i") (simp_all add: row_is_def len)
  then show ?thesis using row by (simp add: row_is_def)
qed

text \<open>The values a list of set clauses leaves in a row.\<close>

fun set_lits :: "Column_Metadata list \<Rightarrow> SetClause list \<Rightarrow> literal list \<Rightarrow> literal list" where
  "set_lits cols [] lits = lits"
| "set_lits cols (sc # scs) lits = set_lits cols scs
     (lits[length (takeWhile (\<lambda>c. cm_name c \<noteq> tc_col (set_lhs sc)) cols) := v_lit (set_rhs sc)])"

definition set_plain :: "SetClause \<Rightarrow> bool" where
  "set_plain sc \<longleftrightarrow> storable (v_lit (set_rhs sc))"

lemma get_col_pos: "get_col tab cn = Inr i \<Longrightarrow> length (takeWhile (\<lambda>c. cm_name c \<noteq> cn) (tm_cols tab)) = i \<and> i < length (tm_cols tab)"
  using length_takeWhile_le[of "\<lambda>c. cm_name c \<noteq> cn" "tm_cols tab"] by (auto simp: get_col_def Let_def split: if_splits)

lemma set_row_is:
  assumes t: "tiled 0 (tm_cols tab)"
    and chk: "list_all2 (\<lambda>sc sc'. check_set_clause tab sc = Inr sc') scs scs'" "list_all set_plain scs"
    and row: "row_is (tm_cols tab) lits data"
  shows "row_is (tm_cols tab) (set_lits (tm_cols tab) scs lits) (set_row tab scs' data)"
  using chk row
proof (induction scs scs' arbitrary: lits data rule: list_all2_induct)
  case (Cons sc scs sc' scs')
  obtain i v where i: "get_col tab (tc_col (set_lhs sc)) = Inr i" "init_raw (cm_len (tm_cols tab ! i)) (set_rhs sc) = Inr v"
    "cm_type (tm_cols tab ! i) = v_type (set_rhs sc)" "sc' = sc\<lparr>set_rhs := v\<rparr>"
    using Cons.hyps(1) by (auto simp: check_set_clause_def sum_then_def Let_def split: sum.splits if_splits)
  obtain b where b: "raw_bytes (cm_len (tm_cols tab ! i)) (v_lit (set_rhs sc)) = Inr b" "v_raw v = Some b"
    using i(2) by (auto simp: init_raw_def split: sum.splits if_splits)
  note pos = get_col_pos[OF i(1)]
  have st: "storable (v_lit (set_rhs sc))" using Cons.prems(1) by (simp add: set_plain_def)
  have lb: "length b = nat (cm_len (tm_cols tab ! i))" by (rule raw_bytes_length[OF b(1)]) (use st in \<open>simp add: storable_def\<close>)
  have "row_is (tm_cols tab) (lits[i := v_lit (set_rhs sc)]) (store data (nat (cm_offset (tm_cols tab ! i))) b)"
    by (rule store_row_is[OF t Cons.prems(2) _ _ st b(1)]) (use pos i(3) in \<open>simp_all add: v_type_def\<close>)
  then show ?case using Cons.IH Cons.prems(1) pos i(1,4) b(2) lb by simp
qed simp

section \<open>Tables of rows\<close>

text \<open>What \<open>create_table\<close> leaves and the statements keep: columns that tile the record, rows in it.\<close>

definition row_table :: "(string \<Rightarrow> bt) \<Rightarrow> 'z sm_state_scheme \<Rightarrow> string \<Rightarrow> Table_Metadata \<Rightarrow> bool" where
  "row_table T s name tab \<longleftrightarrow> db_open T s \<and> name \<noteq> [] \<and> table_meta s name tab \<and> tiled 0 (tm_cols tab) \<and>
     nat (cols_end 0 (tm_cols tab)) = table_size s name \<and> rows_stored s name (tm_cols tab)"

lemma row_table_fit: "row_table T s name tab \<Longrightarrow> cols_fit (table_size s name) (tm_cols tab)"
  using tiled_fit by (fastforce simp: row_table_def)

lemma row_table_get: "row_table T s name tab \<Longrightarrow> get_table (db s) name = Inr tab"
  by (simp add: row_table_def table_meta_def get_table_def)

lemma row_table_writes:
  assumes r: "row_table T s name tab" and w: "db_writes T s name M t"
    and rows: "\<And>r data. M r = Some data \<Longrightarrow> row_is (tm_cols tab) (row_lits (tm_cols tab) data) data"
  shows "row_table T t name tab" "table_rows t name (tm_cols tab) = (\<lambda>r. map_option (row_lits (tm_cols tab)) (M r))"
    "n \<noteq> name \<Longrightarrow> content t n = content s n"
proof -
  have "map_of (fhs s) name \<noteq> None" using r by (simp add: row_table_def table_meta_def)
  from writes_size[OF w this] have sz: "table_size t name = table_size s name" .
  note c = writes_content[OF w]
  show "row_table T t name tab"
    using r w sz db_writes_meta[OF w] rows c by (simp add: row_table_def rows_stored_def db_writes_def)
  show "table_rows t name (tm_cols tab) = (\<lambda>r. map_option (row_lits (tm_cols tab)) (M r))"
    by (simp add: fun_eq_iff table_rows_def c)
  show "n \<noteq> name \<Longrightarrow> content t n = content s n" using w by (simp add: db_writes_def)
qed

lemma row_table_row:
  assumes "row_table T s name tab" "content s name r = Some data"
  shows "row_is (tm_cols tab) (row_lits (tm_cols tab) data) data"
  using assms by (simp add: row_table_def rows_stored_def)

text \<open>The rows on which a where clause holds.\<close>

definition where_rows :: "Column_Metadata list \<Rightarrow> Condition list \<Rightarrow> (RecordID \<rightharpoonup> literal list) \<Rightarrow> RecordID set" where
  "where_rows cols conds R = {r. \<exists>lits. R r = Some lits \<and> list_all (cond_holds cols lits) conds}"

lemma matching_where:
  assumes r: "row_table T s name tab" and chk: "check_where_clause (db s) [name] conds = Inr conds'"
    and plain: "list_all (cond_plain name (tm_cols tab)) conds"
  shows "conds_on name conds'" "conds_run (tm_cols tab) conds' (content s name)"
    "matching tab conds' (content s name) = where_rows (tm_cols tab) conds (table_rows s name (tm_cols tab))"
proof -
  have g: "get_table (db s) name = Inr tab" "name \<noteq> []" "cols_named name (tm_cols tab)" "rows_stored s name (tm_cols tab)"
    using r row_table_get[OF r] by (simp_all add: row_table_def table_meta_def)
  show "conds_on name conds'" by (rule check_where_plain(3)[OF g(1-3) chk plain])
  show "conds_run (tm_cols tab) conds' (content s name)"
    "matching tab conds' (content s name) = where_rows (tm_cols tab) conds (table_rows s name (tm_cols tab))"
    using conds_run_plain[OF g(1-3) chk plain g(4)] by (simp_all add: where_rows_def)
qed

section \<open>The statements\<close>

lemma delete_rows:
  assumes r: "row_table T s name tab" "no_index tab"
    and chk: "check_where_clause (db s) [name] conds = Inr conds'" and plain: "list_all (cond_plain name (tm_cols tab)) conds"
    and fuel: "card (dom (table_rows s name (tm_cols tab))) + 1 < fuel"
  defines "R \<equiv> table_rows s name (tm_cols tab)"
  shows "\<exists>t res. delete_from fuel name conds s = (Inr res, t) \<and> affected_rows res = card (where_rows (tm_cols tab) conds R) \<and>
    row_table T t name tab \<and> table_rows t name (tm_cols tab) = R |` (- where_rows (tm_cols tab) conds R) \<and>
    (\<forall>n. n \<noteq> name \<longrightarrow> content t n = content s n) \<and> (\<exists>M. db_writes T s name M t)"
proof -
  note W = matching_where[OF r(1) chk plain, folded R_def]
  have o: "db_open T s" "table_meta s name tab" using r(1) by (simp_all add: row_table_def)
  have f: "card (dom (content s name)) + 1 < fuel" using fuel by simp
  obtain t where t: "delete_from fuel name conds s = (Inr \<lparr>ar_table = name,
      affected_rows = card (matching tab conds' (content s name)), ar_success = True,
      ar_message = nat_to_string (card (matching tab conds' (content s name))) @ '' row(s) deleted''\<rparr>, t)"
    "db_writes T s name (content s name |` (- matching tab conds' (content s name))) t"
    using delete_from_run[OF o r(2) chk W(1,2) f] by blast
  have "(\<lambda>q. map_option (row_lits (tm_cols tab)) ((content s name |` (- matching tab conds' (content s name))) q)) =
      R |` (- where_rows (tm_cols tab) conds R)"
    unfolding W(3) by (simp add: fun_eq_iff restrict_map_def R_def table_rows_def)
  moreover have "row_is (tm_cols tab) (row_lits (tm_cols tab) data) data"
    if "(content s name |` (- matching tab conds' (content s name))) q = Some data" for q data
    using that row_table_row[OF r(1)] by (simp add: restrict_map_def split: if_splits)
  note rt = row_table_writes[OF r(1) t(2) this]
  moreover have "\<exists>M. db_writes T s name M t" using t(2) by blast
  ultimately show ?thesis using t(1) W(3) rt by (intro exI[of _ t] exI) (rule conjI, assumption, simp)
qed

lemma update_rows:
  assumes r: "row_table T s name tab" "no_index tab"
    and chk: "check_where_clause (db s) [name] conds = Inr conds'" and plain: "list_all (cond_plain name (tm_cols tab)) conds"
    and set: "map_sum_list (check_set_clause tab) scs = Inr scs'" "list_all set_plain scs"
    and fuel: "card (dom (table_rows s name (tm_cols tab))) + 1 < fuel"
  defines "R \<equiv> table_rows s name (tm_cols tab)"
  shows "\<exists>t res. update_set fuel name scs conds s = (Inr res, t) \<and> affected_rows res = card (where_rows (tm_cols tab) conds R) \<and>
    row_table T t name tab \<and>
    table_rows t name (tm_cols tab) =
      (\<lambda>q. if q \<in> where_rows (tm_cols tab) conds R then map_option (set_lits (tm_cols tab) scs) (R q) else R q) \<and>
    (\<forall>n. n \<noteq> name \<longrightarrow> content t n = content s n) \<and> (\<exists>M. db_writes T s name M t)"
proof -
  note W = matching_where[OF r(1) chk plain, folded R_def]
  have o: "db_open T s" "table_meta s name tab" "tiled 0 (tm_cols tab)" using r(1) by (simp_all add: row_table_def)
  have f: "card (dom (content s name)) + 1 < fuel" using fuel by simp
  have ok: "\<forall>sc \<in> set scs. value_ok (set_rhs sc)"
    using set(2) by (auto simp: list_all_iff set_plain_def storable_def value_ok_def)
  let ?M = "matching tab conds' (content s name)"
  obtain t where t: "update_set fuel name scs conds s = (Inr \<lparr>ar_table = name, affected_rows = card ?M, ar_success = True,
      ar_message = nat_to_string (card ?M) @ '' row(s) updated''\<rparr>, t)"
    "db_writes T s name (updated (set_row tab scs') ?M (content s name)) t"
    using update_set_run[OF o(1,2) r(2) chk set(1) ok W(1,2) row_table_fit[OF r(1)] f] by blast
  have row: "row_is (tm_cols tab) (set_lits (tm_cols tab) scs (row_lits (tm_cols tab) data)) (set_row tab scs' data)"
    if "content s name q = Some data" for q data
    by (rule set_row_is[OF o(3) map_sum_list_Inr[OF set(1)] set(2) row_table_row[OF r(1) that]])
  have "row_is (tm_cols tab) (row_lits (tm_cols tab) data) data"
    if "updated (set_row tab scs') ?M (content s name) q = Some data" for q data
    using that row row_table_row[OF r(1)] row_is_lits[OF row] by (auto simp: updated_def split: if_splits)
  note rt = row_table_writes[OF r(1) t(2) this]
  have "(\<lambda>q. map_option (row_lits (tm_cols tab)) (updated (set_row tab scs') ?M (content s name) q)) =
      (\<lambda>q. if q \<in> where_rows (tm_cols tab) conds R then map_option (set_lits (tm_cols tab) scs) (R q) else R q)"
    unfolding W(3) using row_is_lits[OF row] by (auto simp: fun_eq_iff updated_def R_def table_rows_def option.map_comp comp_def intro!: option.map_cong0)
  moreover have "\<exists>M. db_writes T s name M t" using t(2) by blast
  ultimately show ?thesis using t(1) W(3) rt by auto
qed

lemma insert_row:
  assumes r: "row_table T s name tab" "no_index tab"
    and vals: "length vals = length (tm_cols tab)"
      "\<forall>(col, v) \<in> set (zip (tm_cols tab) vals). value_fits col v \<and> storable (v_lit v)"
    and room: "rec_room (Suc k) (the (map_of (fhs s) name))"
  defines "R \<equiv> table_rows s name (tm_cols tab)"
  shows "\<exists>q t. insert_into name vals s = (Inr \<lparr>ir_table = name, ir_success = True, ir_message = ''1 row inserted''\<rparr>, t) \<and>
    R q = None \<and> row_table T t name tab \<and> table_rows t name (tm_cols tab) = R(q \<mapsto> map v_lit vals) \<and>
    (\<forall>n. n \<noteq> name \<longrightarrow> content t n = content s n) \<and> rec_room k (the (map_of (fhs t) name)) \<and> (\<exists>M. db_writes T s name M t)"
proof -
  have o: "db_open T s" "table_meta s name tab" "tiled 0 (tm_cols tab)" "nat (cols_end 0 (tm_cols tab)) = table_size s name"
    using r(1) by (simp_all add: row_table_def)
  have fits: "\<forall>(col, v) \<in> set (zip (tm_cols tab) vals). value_fits col v" using vals(2) by auto
  let ?b = "row_of (zip (tm_cols tab) vals) (replicate (table_size s name) 0)"
  obtain q t where t: "insert_into name vals s = (Inr \<lparr>ir_table = name, ir_success = True, ir_message = ''1 row inserted''\<rparr>, t)"
    "content s name q = None" "db_writes T s name ((content s name)(q \<mapsto> ?b)) t" "rec_room k (the (map_of (fhs t) name))"
    using insert_into_run[OF o(1,2) r(2) vals(1) fits row_table_fit[OF r(1)] room] by blast
  have row: "row_is (tm_cols tab) (map v_lit vals) ?b"
    by (rule row_of_is[OF o(3) vals]) (simp add: o(4))
  have "row_is (tm_cols tab) (row_lits (tm_cols tab) data) data" if "((content s name)(q \<mapsto> ?b)) p = Some data" for p data
    using that row row_is_lits[OF row] row_table_row[OF r(1)] by (auto split: if_splits)
  note rt = row_table_writes[OF r(1) t(3) this]
  have "(\<lambda>p. map_option (row_lits (tm_cols tab)) (((content s name)(q \<mapsto> ?b)) p)) = R(q \<mapsto> map v_lit vals)"
    using row_is_lits[OF row] by (simp add: fun_eq_iff R_def table_rows_def)
  moreover have "\<exists>M. db_writes T s name M t" using t(3) by blast
  ultimately show ?thesis using t(1,2,4) rt by (intro exI[of _ q] exI[of _ t]) (simp add: R_def table_rows_def)
qed

end
