(* ===== verification/SmFiles.thy ===== *)
theory SmFiles
  imports QlStatements
begin

text \<open>
  The files of a database between disk and handle. Record files and indexes share one interface:
  closing a handle leaves a file that stands for what the handle showed, opening such a file gives
  a handle that shows it, and no operation on one file is seen through another handle.
\<close>

section \<open>Fields above the page files\<close>

text \<open>What the page file layer and the file handles say depends on the fields of that layer only.\<close>

lemma base_cong:
  fixes s t :: "'z pf_state_scheme"
  assumes "pf_state.truncate t = pf_state.truncate s"
  shows "files t = files s" "open_fds t = open_fds s" "cwd t = cwd s" "path2fd t = path2fd s" "fd2path t = fd2path s"
    "fd_map_sem t = fd_map_sem s" "cache_sem t = cache_sem s" "busy_map t = busy_map s" "busy_pages t = busy_pages s"
    "free_pages t = free_pages s" "pages t = pages s" "other_fds t = other_fds s"
  using assms by (simp_all add: pf_state.defs)

lemma base_view:
  fixes s t :: "'z pf_state_scheme"
  assumes "pf_state.truncate t = pf_state.truncate s"
  shows "page_view t = page_view s" "cached_pages t = cached_pages s" "file_view t = file_view s" "fd_path t = fd_path s"
    "resolve t = resolve s" "sys_is_reg t = sys_is_reg s"
  by (simp_all add: fun_eq_iff page_view_def disk_page_def fd_data_def fd_path_def cached_pages_def file_view_def
    resolve_def sys_is_reg_def base_cong[OF assms] cong: option.case_cong)

lemma base_wf:
  fixes s t :: "'z pf_state_scheme"
  assumes "pf_state.truncate t = pf_state.truncate s"
  shows "pf_wf t = pf_wf s" "pm_wf t = pm_wf s" "rm_wf t = rm_wf s" "rm_recs t = rm_recs s" "ix_wf t = ix_wf s"
proof -
  have d: "disk_page t = disk_page s"
    by (simp add: fun_eq_iff disk_page_def fd_data_def fd_path_def base_cong[OF assms] cong: option.case_cong)
  show p: "pf_wf t = pf_wf s"
    by (simp add: pf_wf_def pager_inv_def os_wf_def pager_struct_def map_lists_def page_synced_def valid_pid_def
      d base_view[OF assms] base_cong[OF assms])
  show "pm_wf t = pm_wf s"
    by (simp add: pm_wf_def pm_maps_def p base_view[OF assms] base_cong[OF assms])
  show "rm_wf t = rm_wf s" "rm_recs t = rm_recs s" "ix_wf t = ix_wf s"
    by (simp_all add: fun_eq_iff rm_wf_def rm_recs_def ix_wf_def p base_view[OF assms])
qed

lemma base_fields [simp]:
  fixes s :: "'z sm_state_scheme"
  shows "pf_state.truncate (s\<lparr>dirs := a\<rparr>) = pf_state.truncate s" "pf_state.truncate (s\<lparr>base_dir := b\<rparr>) = pf_state.truncate s"
    "pf_state.truncate (s\<lparr>current_db_name := b\<rparr>) = pf_state.truncate s" "pf_state.truncate (s\<lparr>db := c\<rparr>) = pf_state.truncate s"
    "pf_state.truncate (s\<lparr>fhs := d\<rparr>) = pf_state.truncate s" "pf_state.truncate (s\<lparr>ihs := e\<rparr>) = pf_state.truncate s"
    "pf_state.truncate (s\<lparr>metadata_sem := n\<rparr>) = pf_state.truncate s" "pf_state.truncate (s\<lparr>file_handles_sem := n\<rparr>) = pf_state.truncate s"
    "pf_state.truncate (s\<lparr>index_handles_sem := n\<rparr>) = pf_state.truncate s"
  by (simp_all add: pf_state.defs)

lemma kept_base:
  fixes s t :: "'z pf_state_scheme"
  assumes "pf_state.truncate t' = pf_state.truncate t"
  shows "kept G s t' = kept G s t"
  by (simp add: kept_def base_view[OF assms])

lemma opened_fields_sm [simp]:
  fixes s :: "'z sm_state_scheme"
  shows "fhs (opened fd path s) = fhs s" "ihs (opened fd path s) = ihs s" "db (opened fd path s) = db s"
    "metadata_sem (opened fd path s) = metadata_sem s" "file_handles_sem (opened fd path s) = file_handles_sem s"
    "index_handles_sem (opened fd path s) = index_handles_sem s" "dirs (opened fd path s) = dirs s"
    "base_dir (opened fd path s) = base_dir s" "current_db_name (opened fd path s) = current_db_name s"
  by (simp_all add: opened_def)

section \<open>Semaphores\<close>

lemma sem_runs [simp]:
  "0 < metadata_sem s \<Longrightarrow> sem_wait_meta s = (Inr (), s\<lparr>metadata_sem := metadata_sem s - 1\<rparr>)"
  "sem_post_meta s = (Inr (), s\<lparr>metadata_sem := metadata_sem s + 1\<rparr>)"
  "0 < file_handles_sem s \<Longrightarrow> sem_wait_fhs s = (Inr (), s\<lparr>file_handles_sem := file_handles_sem s - 1\<rparr>)"
  "sem_post_fhs s = (Inr (), s\<lparr>file_handles_sem := file_handles_sem s + 1\<rparr>)"
  "0 < index_handles_sem s \<Longrightarrow> sem_wait_ihs s = (Inr (), s\<lparr>index_handles_sem := index_handles_sem s - 1\<rparr>)"
  "sem_post_ihs s = (Inr (), s\<lparr>index_handles_sem := index_handles_sem s + 1\<rparr>)"
  by (simp_all add: sem_wait_meta_def sem_post_meta_def sem_wait_fhs_def sem_post_fhs_def sem_wait_ihs_def sem_post_ihs_def)

lemma sem_blocked:
  "metadata_sem s = 0 \<Longrightarrow> sem_wait_meta s = (Inl Blocked, s)"
  "file_handles_sem s = 0 \<Longrightarrow> sem_wait_fhs s = (Inl Blocked, s)"
  by (simp_all add: sem_wait_meta_def sem_wait_fhs_def)

lemma fail_meta_runs [simp]:
  "\<not> b \<Longrightarrow> fail_meta_if b e s = (Inr (), s)"
  "b \<Longrightarrow> fail_meta_if b e s = (Inl (Throw e), s\<lparr>metadata_sem := metadata_sem s + 1\<rparr>)"
  by (simp_all add: fail_meta_if_def)

section \<open>Files on disk\<close>

text \<open>A file that is not open, with bytes that satisfy \<open>P\<close>.\<close>

definition on_disk :: "'z pf_state_scheme \<Rightarrow> string \<Rightarrow> (byte list \<Rightarrow> bool) \<Rightarrow> bool" where
  "on_disk s n P \<longleftrightarrow> path2fd s n = None \<and> (\<exists>b. files s (resolve s n) = Some b \<and> P b)"

text \<open>The open files \<open>X\<close> (names and descriptors) have been closed.\<close>

definition shut :: "(string \<times> int) set \<Rightarrow> 'z pf_state_scheme \<Rightarrow> 'z pf_state_scheme \<Rightarrow> bool" where
  "shut X s t \<longleftrightarrow> pm_wf t \<and> pf_state.more t = pf_state.more s \<and> cwd t = cwd s \<and>
     (\<forall>n. path2fd t n = (if n \<in> fst ` X then None else path2fd s n)) \<and>
     (\<forall>fd. fd2path t fd = (if fd \<in> snd ` X then None else fd2path s fd)) \<and> kept (- snd ` X) s t \<and>
     snd ` set (open_fds t) \<subseteq> snd ` set (open_fds s) \<and>
     (\<forall>f. f \<notin> snd ` set (open_fds s) \<longrightarrow> files t f = files s f)"

lemma shut_refl: "pm_wf s \<Longrightarrow> shut {} s s"
  by (simp add: shut_def kept_refl)

lemma shut_trans:
  assumes x: "shut X s t" and y: "shut Y t u"
  shows "shut (X \<union> Y) s u"
proof -
  have "kept (- snd ` X \<inter> - snd ` Y) s u"
    using kept_trans[of "- snd ` X \<inter> - snd ` Y" s t u] kept_mono[of "- snd ` X" s t] kept_mono[of "- snd ` Y" t u] x y
    by (simp add: shut_def)
  moreover have "files u f = files s f" if "f \<notin> snd ` set (open_fds s)" for f
    using x y that unfolding shut_def by (metis (no_types, lifting) subsetD)
  moreover have "snd ` set (open_fds u) \<subseteq> snd ` set (open_fds s)" using x y unfolding shut_def by blast
  ultimately show ?thesis using x y by (simp add: shut_def image_Un)
qed

lemma on_disk_shut:
  assumes "on_disk s n P" "shut X s t" "pm_wf s"
  shows "on_disk t n P"
proof -
  have "resolve s n \<notin> snd ` set (open_fds s)" using closed_path[OF assms(3), of n] assms(1) unfolding on_disk_def by fastforce
  then show ?thesis using assms(1,2) by (auto simp: on_disk_def shut_def resolve_def)
qed

locale stored_files =
  fixes opn :: "'k \<Rightarrow> ('z, 'h) pf_prog" and cls :: "'h \<Rightarrow> ('z, unit) pf_prog" and path :: "'k \<Rightarrow> string"
    and fd :: "'h \<Rightarrow> int" and hdr :: "'h \<Rightarrow> 'd"
    and shows_in :: "'z pf_state_scheme \<Rightarrow> 'h \<Rightarrow> 'm \<Rightarrow> bool" and stands :: "'d \<Rightarrow> 'm \<Rightarrow> byte list \<Rightarrow> bool"
  assumes open_law: "pm_wf s \<Longrightarrow> on_disk s (path k) (stands d m) \<Longrightarrow>
      \<exists>h. opn k s = (Inr h, opened (fd h) (path k) s) \<and> hdr h = d \<and> pm_wf (opened (fd h) (path k) s) \<and>
        shows_in (opened (fd h) (path k) s) h m \<and> fd h \<notin> set (map fst (open_fds s))"
    and close_law: "pm_wf s \<Longrightarrow> shows_in s h m \<Longrightarrow> fd2path s (fd h) = Some n \<Longrightarrow>
      \<exists>t. cls h s = (Inr (), t) \<and> shut {(n, fd h)} s t \<and> on_disk t n (stands (hdr h) m)"
    and kept_law: "shows_in s h m \<Longrightarrow> kept G s t \<Longrightarrow> pf_wf t \<Longrightarrow> fd h \<in> G \<Longrightarrow> shows_in t h m"
    and used_law: "shows_in s h m \<Longrightarrow> fd_path s (fd h) \<noteq> None"
begin

text \<open>The loops of \<open>close_db\<close>.\<close>

lemma close_all:
  assumes "pm_wf s" "distinct (map (\<lambda>e. fd (snd e)) hs)"
    "\<And>e. e \<in> set hs \<Longrightarrow> shows_in s (snd e) (m e) \<and> fd2path s (fd (snd e)) = Some (fst e)"
  shows "\<exists>t. forEach hs (\<lambda>e. cls (snd e)) s = (Inr (), t) \<and> shut ((\<lambda>e. (fst e, fd (snd e))) ` set hs) s t \<and>
    (\<forall>e \<in> set hs. on_disk t (fst e) (stands (hdr (snd e)) (m e)))"
  using assms
proof (induction hs arbitrary: s)
  case Nil
  then show ?case using shut_refl by simp
next
  case (Cons e hs)
  have e: "shows_in s (snd e) (m e)" "fd2path s (fd (snd e)) = Some (fst e)" using Cons.prems(3)[of e] by simp_all
  obtain t where t: "cls (snd e) s = (Inr (), t)" "shut {(fst e, fd (snd e))} s t" "on_disk t (fst e) (stands (hdr (snd e)) (m e))"
    using close_law[OF Cons.prems(1) e] by blast
  have pm: "pm_wf t" using t(2) by (simp add: shut_def)
  have later: "shows_in t (snd g) (m g) \<and> fd2path t (fd (snd g)) = Some (fst g)" if g: "g \<in> set hs" for g
  proof -
    have ne: "fd (snd g) \<noteq> fd (snd e)" using Cons.prems(2) g by (auto simp: image_iff)
    have G: "shows_in s (snd g) (m g)" "fd2path s (fd (snd g)) = Some (fst g)" using Cons.prems(3)[of g] g by simp_all
    have k: "kept (- {fd (snd e)}) s t" and f: "fd2path t (fd (snd g)) = fd2path s (fd (snd g))"
      using t(2) ne by (simp_all add: shut_def)
    have "pf_wf t" using pm by (simp add: pm_wf_def)
    then show ?thesis using kept_law[OF G(1) k] G(2) f ne by simp
  qed
  obtain u where u: "forEach hs (\<lambda>e. cls (snd e)) t = (Inr (), u)" "shut ((\<lambda>e. (fst e, fd (snd e))) ` set hs) t u"
    "\<forall>e \<in> set hs. on_disk u (fst e) (stands (hdr (snd e)) (m e))"
    using Cons.IH[OF pm _ later] Cons.prems(2) by auto
  then show ?case
    using t shut_trans[OF t(2) u(2)] on_disk_shut[OF t(3) u(2) pm] by auto
qed

end

text \<open>Record files and indexes.\<close>

definition rec_stands :: "RM_FileHeader \<Rightarrow> (RecordID \<rightharpoonup> byte list) \<Rightarrow> byte list \<Rightarrow> bool" where
  "rec_stands h M b \<longleftrightarrow> rm_file h b \<and> rm_map h (file_page b) = M"

definition ndx_stands :: "IndexFileHeader \<Rightarrow> bt \<Rightarrow> byte list \<Rightarrow> bool" where
  "ndx_stands h T b \<longleftrightarrow> ix_file h b T"

definition index_path :: "string \<times> nat \<Rightarrow> string" where
  "index_path k = get_index_name (fst k) (int (snd k))"

definition rec_shows :: "'z pf_state_scheme \<Rightarrow> RM_FileHandle \<Rightarrow> (RecordID \<rightharpoonup> byte list) \<Rightarrow> bool" where
  "rec_shows s fh M \<longleftrightarrow> rm_wf s fh \<and> rm_recs s fh = M"

interpretation rfile: stored_files RM_open_file RM_close_file "\<lambda>n. n" fh_fd fh_hdr rec_shows rec_stands
proof (unfold_locales, goal_cases)
  case (1 s k d m)
  then obtain b where b: "files s (resolve s k) = Some b" "rm_file d b" "rm_map d (file_page b) = m" "path2fd s k = None"
    by (auto simp: on_disk_def rec_stands_def)
  obtain fd where "RM_open_file k s = (Inr \<lparr>fh_hdr = d, fh_fd = fd\<rparr>, opened fd k s)" "pm_wf (opened fd k s)"
    "rm_wf (opened fd k s) \<lparr>fh_hdr = d, fh_fd = fd\<rparr>" "rm_recs (opened fd k s) \<lparr>fh_hdr = d, fh_fd = fd\<rparr> = rm_map d (file_page b)"
    "fd \<notin> set (map fst (open_fds s))"
    by (rule RM_open_file_run[OF 1(1) b(1,2,4)]) (rule that; assumption)
  then show ?case using b(3) by (intro exI[of _ "\<lparr>fh_hdr = d, fh_fd = fd\<rparr>"]) (simp add: rec_shows_def)
next
  case (2 s h m n)
  then have wf: "rm_wf s h" "rm_recs s h = m" by (simp_all add: rec_shows_def)
  obtain t b where t: "RM_close_file h s = (Inr (), t)" "pm_wf t" "path2fd t = (path2fd s)(n := None)"
    "cwd t = cwd s" "files t (resolve s n) = Some b" "rm_file (fh_hdr h) b" "rm_map (fh_hdr h) (file_page b) = rm_recs s h"
    "\<And>f. f \<notin> snd ` set (open_fds s) \<Longrightarrow> files t f = files s f" "kept (- {fh_fd h}) s t" "pf_state.more t = pf_state.more s"
    "open_fds t = filter (\<lambda>e. fst e \<noteq> fh_fd h) (open_fds s)" "fd2path t = (fd2path s)(fh_fd h := None)"
    by (rule RM_close_file_run[OF 2(1) wf(1) 2(3)]) (rule that; assumption)
  then have "shut {(n, fh_fd h)} s t" by (auto simp: shut_def)
  moreover have "on_disk t n (rec_stands (fh_hdr h) m)" using t wf(2) by (simp add: on_disk_def rec_stands_def resolve_def)
  ultimately show ?case using t(1) by blast
next
  case (3 s h m G t)
  then show ?case using rm_wf_kept[of G s t h] by (simp add: rec_shows_def)
next
  case (4 s h m)
  then show ?case by (simp add: rec_shows_def rm_wf_def)
qed

interpretation ndx: stored_files "\<lambda>k. open_index (fst k) (int (snd k))" close_index index_path ih_fd index_header ix_wf ndx_stands
proof (unfold_locales, goal_cases)
  case (1 s k d m)
  then obtain b where b: "files s (resolve s (get_index_name (fst k) (int (snd k)))) = Some b" "ix_file d b m"
    "path2fd s (get_index_name (fst k) (int (snd k))) = None"
    by (auto simp: on_disk_def ndx_stands_def index_path_def)
  obtain fd where "open_index (fst k) (int (snd k)) s = (Inr \<lparr>ih_fd = fd, index_header = d\<rparr>, opened fd (get_index_name (fst k) (int (snd k))) s)"
    "pm_wf (opened fd (get_index_name (fst k) (int (snd k))) s)"
    "ix_wf (opened fd (get_index_name (fst k) (int (snd k))) s) \<lparr>ih_fd = fd, index_header = d\<rparr> m" "fd \<notin> set (map fst (open_fds s))"
    by (rule open_index_run[OF 1(1) b])
  then show ?case by (intro exI[of _ "\<lparr>ih_fd = fd, index_header = d\<rparr>"]) (simp add: index_path_def)
next
  case (2 s h m n)
  obtain t b where t: "close_index h s = (Inr (), t)" "pm_wf t" "path2fd t = (path2fd s)(n := None)"
    "cwd t = cwd s" "files t (resolve s n) = Some b" "ix_file (index_header h) b m"
    "\<And>f. f \<notin> snd ` set (open_fds s) \<Longrightarrow> files t f = files s f" "kept (- {ih_fd h}) s t" "pf_state.more t = pf_state.more s"
    "open_fds t = filter (\<lambda>e. fst e \<noteq> ih_fd h) (open_fds s)" "fd2path t = (fd2path s)(ih_fd h := None)"
    by (rule close_index_run[OF 2]) (rule that; assumption)
  then have "shut {(n, ih_fd h)} s t" by (auto simp: shut_def)
  moreover have "on_disk t n (ndx_stands (index_header h) m)" using t by (simp add: on_disk_def ndx_stands_def resolve_def)
  ultimately show ?case using t(1) by blast
next
  case (3 s h m G t)
  then show ?case using ix_wf_kept[of G s t h m] by simp
next
  case (4 s h m)
  then show ?case by (simp add: ix_wf_def)
qed

end
