(* ===== verification/SmLife.thy ===== *)
theory SmLife
  imports SmFiles
begin

text \<open>
  The life of a database: \<open>create_table\<close> adds an empty table to an open database, \<open>close_db\<close>
  leaves its catalog and files on disk, \<open>open_db\<close> brings back what \<open>close_db\<close> left.
\<close>

section \<open>Opening one more file\<close>

lemma set_put_fresh: "map_of m k = None \<Longrightarrow> set (map_put k v m) = insert (k, v) (set m)"
  by (induction m) (auto split: if_splits)

lemma put_fresh_map:
  assumes "map_of m k = None" "distinct (map f m)" "f (k, v) \<notin> set (map f m)"
  shows "distinct (map f (map_put k v m)) \<and> set (map f (map_put k v m)) = insert (f (k, v)) (set (map f m))"
  using assms
proof (induction m)
  case (Cons e m)
  obtain k' v' where e: "e = (k', v')" by force
  have "map_of m k = None" using Cons.prems(1) e by (auto split: if_splits)
  then show ?case using Cons e by (auto split: if_splits)
qed simp

lemma sorted_entries: "map_sorted m \<Longrightarrow> (\<forall>(k, v) \<in> set m. P k v) \<longleftrightarrow> (\<forall>k v. map_of m k = Some v \<longrightarrow> P k v)"
  for m :: "(string \<times> 'v) list"
  using entry_unique[of m] map_of_SomeD[of m] by fast

lemma db_open_maps: "db_open T s \<longleftrightarrow> pf_wf s \<and> distinct (db_fds s) \<and> map_sorted (fhs s) \<and> map_sorted (ihs s) \<and>
    (\<forall>n fh. map_of (fhs s) n = Some fh \<longrightarrow> rm_wf s fh) \<and> (\<forall>n ih. map_of (ihs s) n = Some ih \<longrightarrow> ix_wf s ih (T n))"
  using sorted_entries[of "fhs s" "\<lambda>n fh. rm_wf s fh"] sorted_entries[of "ihs s" "\<lambda>n ih. ix_wf s ih (T n)"]
  unfolding db_open_def by blast

lemma db_live_maps: "db_live T s \<longleftrightarrow> db_open T s \<and> pm_wf s \<and> (\<forall>n fh. map_of (fhs s) n = Some fh \<longrightarrow> path2fd s n = Some (fh_fd fh)) \<and>
    (\<forall>n ih. map_of (ihs s) n = Some ih \<longrightarrow> path2fd s n = Some (ih_fd ih))"
  by (auto simp: db_live_def table_fd_def)

lemma db_live_cong:
  fixes s t :: "'z sm_state_scheme"
  assumes "pf_state.truncate t = pf_state.truncate s" "fhs t = fhs s" "ihs t = ihs s"
  shows "db_live T t = db_live T s" "content t = content s"
proof -
  show "content t = content s" by (simp add: content_def fun_eq_iff assms(2) base_wf[OF assms(1)] cong: option.case_cong)
  show "db_live T t = db_live T s"
    by (simp add: db_live_def db_open_def db_fds_def table_fd_def assms(2,3) base_wf[OF assms(1)] base_cong[OF assms(1)])
qed

lemma live_table:
  assumes "db_live T s" "map_of (fhs s) n = Some fh"
  shows "rm_wf s fh" "path2fd s n = Some (fh_fd fh)" "fh_fd fh \<in> set (db_fds s)"
  using assms table_file(1)[of T s n fh] map_of_SomeD[OF assms(2)] by (force simp: db_live_def table_fd_def db_fds_def)+

lemma live_index:
  assumes "db_live T s" "map_of (ihs s) n = Some ih"
  shows "ix_wf s ih (T n)" "path2fd s n = Some (ih_fd ih)" "ih_fd ih \<in> set (db_fds s)"
  using assms index_file[of T s n ih] map_of_SomeD[OF assms(2)] by (force simp: db_live_def db_fds_def)+

text \<open>The handles of a live database after another file is opened.\<close>

lemma live_opened:
  assumes live: "db_live T s" and fd: "fd \<notin> set (map fst (open_fds s))" and pm: "pm_wf (opened fd n s)" and no: "path2fd s n = None"
  shows "fd \<notin> set (db_fds s)" "map_of (fhs s) n = None" "map_of (ihs s) n = None"
    "map_of (fhs s) m = Some gh \<Longrightarrow> rm_wf (opened fd n s) gh \<and> rm_recs (opened fd n s) gh = rm_recs s gh \<and>
       m \<noteq> n \<and> path2fd s m = Some (fh_fd gh)"
    "map_of (ihs s) m = Some ih \<Longrightarrow> ix_wf (opened fd n s) ih (T m) \<and> m \<noteq> n \<and> path2fd s m = Some (ih_fd ih)"
proof -
  have o: "db_open T s" and pms: "pm_wf s" using live by (simp_all add: db_live_def)
  have k: "kept (- {fd}) s (opened fd n s)" by (rule kept_opened[OF pms fd])
  have pf: "pf_wf (opened fd n s)" using pm by (simp add: pm_wf_def)
  have used: "fd_path s g \<noteq> None" if "g \<in> set (db_fds s)" for g
    using that o by (auto simp: db_fds_def db_open_def rm_wf_def ix_wf_def)
  then show out: "fd \<notin> set (db_fds s)" using fd by (auto simp: fd_path_def map_of_eq_None_iff)
  show n: "map_of (fhs s) n = None" "map_of (ihs s) n = None"
    using live_table(2)[OF live, of n] live_index(2)[OF live, of n] no by fastforce+
  show "rm_wf (opened fd n s) gh \<and> rm_recs (opened fd n s) gh = rm_recs s gh \<and> m \<noteq> n \<and> path2fd s m = Some (fh_fd gh)"
    if g: "map_of (fhs s) m = Some gh"
  proof -
    note G = live_table[OF live g]
    have "fh_fd gh \<in> - {fd}" using G(3) out by auto
    then show ?thesis using rm_wf_kept[OF k pf G(1)] G(2) g n by auto
  qed
  show "ix_wf (opened fd n s) ih (T m) \<and> m \<noteq> n \<and> path2fd s m = Some (ih_fd ih)" if g: "map_of (ihs s) m = Some ih"
  proof -
    note G = live_index[OF live g]
    have "ih_fd ih \<in> - {fd}" using G(3) out by auto
    then show ?thesis using ix_wf_kept[OF k pf G(1)] G(2) g n by auto
  qed
qed

text \<open>What opening files leaves alone.\<close>

definition opens :: "string set \<Rightarrow> 'z sm_state_scheme \<Rightarrow> 'z sm_state_scheme \<Rightarrow> bool" where
  "opens N s t \<longleftrightarrow> files t = files s \<and> cwd t = cwd s \<and> dirs t = dirs s \<and> base_dir t = base_dir s \<and>
     current_db_name t = current_db_name s \<and> db t = db s \<and> metadata_sem t = metadata_sem s \<and>
     file_handles_sem t = file_handles_sem s \<and> index_handles_sem t = index_handles_sem s \<and>
     (\<forall>n. n \<notin> N \<longrightarrow> path2fd t n = path2fd s n)"

lemma opens_refl: "opens N s s"
  by (simp add: opens_def)

lemma opens_trans: "opens N s t \<Longrightarrow> opens M t u \<Longrightarrow> opens (N \<union> M) s u"
  by (simp add: opens_def)

lemma on_disk_opens: "opens N s t \<Longrightarrow> n \<notin> N \<Longrightarrow> on_disk t n P = on_disk s n P"
  by (simp add: opens_def on_disk_def resolve_def)

lemma add_table:
  fixes s :: "'z sm_state_scheme"
  assumes live: "db_live T s" and disk: "on_disk s n (rec_stands h M)"
  obtains fh where "RM_open_file n s = (Inr fh, opened (fh_fd fh) n s)" "fh_hdr fh = h" "map_of (fhs s) n = None"
    "db_live T ((opened (fh_fd fh) n s)\<lparr>fhs := map_put n fh (fhs s)\<rparr>)"
    "content ((opened (fh_fd fh) n s)\<lparr>fhs := map_put n fh (fhs s)\<rparr>) = (content s)(n := M)"
    "opens {n} s ((opened (fh_fd fh) n s)\<lparr>fhs := map_put n fh (fhs s)\<rparr>)"
proof -
  have o: "db_open T s" and pm: "pm_wf s" using live by (simp_all add: db_live_def)
  have no: "path2fd s n = None" using disk by (simp add: on_disk_def)
  obtain fh where fh: "RM_open_file n s = (Inr fh, opened (fh_fd fh) n s)" "fh_hdr fh = h" "pm_wf (opened (fh_fd fh) n s)"
    "rec_shows (opened (fh_fd fh) n s) fh M" "fh_fd fh \<notin> set (map fst (open_fds s))"
    using rfile.open_law[OF pm disk] by blast
  note L = live_opened[OF live fh(5,3) no]
  let ?t = "(opened (fh_fd fh) n s)\<lparr>fhs := map_put n fh (fhs s)\<rparr>"
  have b: "pf_state.truncate ?t = pf_state.truncate (opened (fh_fd fh) n s)" by simp
  note B = base_wf[OF b] base_cong[OF b]
  have new: "rm_wf ?t fh" "rm_recs ?t fh = M" using fh(4) B by (simp_all add: rec_shows_def)
  have srt: "map_sorted (fhs s)" "map_sorted (ihs s)" "distinct (db_fds s)" using o by (simp_all add: db_open_def)
  have dist: "distinct (db_fds ?t)"
    using put_fresh_map[OF L(2), of "\<lambda>e. fh_fd (snd e)" fh] srt(3) L(1) by (auto simp: db_fds_def)
  have pf: "pf_wf ?t" using fh(3) B by (simp add: pm_wf_def)
  have op: "db_open T ?t"
    unfolding db_open_maps using pf dist srt(1,2) L(4,5) new(1) B by auto
  have "content ?t = (content s)(n := M)"
    using L(4) new(2) B by (auto simp: fun_eq_iff content_def split: option.split)
  moreover have "db_live T ?t"
    unfolding db_live_maps using op fh(3) L(4,5) B by auto
  moreover have "opens {n} s ?t" by (simp add: opens_def)
  ultimately show ?thesis using that[OF fh(1,2) L(2)] by blast
qed

lemma add_index:
  fixes s :: "'z sm_state_scheme"
  assumes live: "db_live T s" and disk: "on_disk s (index_path k) (ndx_stands h (T (index_path k)))"
  obtains ih where "open_index (fst k) (int (snd k)) s = (Inr ih, opened (ih_fd ih) (index_path k) s)" "index_header ih = h"
    "map_of (ihs s) (index_path k) = None"
    "db_live T ((opened (ih_fd ih) (index_path k) s)\<lparr>ihs := map_put (index_path k) ih (ihs s)\<rparr>)"
    "content ((opened (ih_fd ih) (index_path k) s)\<lparr>ihs := map_put (index_path k) ih (ihs s)\<rparr>) = content s"
    "opens {index_path k} s ((opened (ih_fd ih) (index_path k) s)\<lparr>ihs := map_put (index_path k) ih (ihs s)\<rparr>)"
proof -
  let ?n = "index_path k"
  have o: "db_open T s" and pm: "pm_wf s" using live by (simp_all add: db_live_def)
  have no: "path2fd s ?n = None" using disk by (simp add: on_disk_def)
  obtain ih where ih: "open_index (fst k) (int (snd k)) s = (Inr ih, opened (ih_fd ih) ?n s)" "index_header ih = h"
    "pm_wf (opened (ih_fd ih) ?n s)" "ix_wf (opened (ih_fd ih) ?n s) ih (T ?n)" "ih_fd ih \<notin> set (map fst (open_fds s))"
    using ndx.open_law[OF pm disk] by blast
  note L = live_opened[OF live ih(5,3) no]
  let ?t = "(opened (ih_fd ih) ?n s)\<lparr>ihs := map_put ?n ih (ihs s)\<rparr>"
  have b: "pf_state.truncate ?t = pf_state.truncate (opened (ih_fd ih) ?n s)" by simp
  note B = base_wf[OF b] base_cong[OF b]
  have srt: "map_sorted (fhs s)" "map_sorted (ihs s)" "distinct (db_fds s)" using o by (simp_all add: db_open_def)
  have dist: "distinct (db_fds ?t)"
    using put_fresh_map[OF L(3), of "\<lambda>e. ih_fd (snd e)" ih] srt(3) L(1) by (auto simp: db_fds_def)
  have pf: "pf_wf ?t" using ih(3) B by (simp add: pm_wf_def)
  have op: "db_open T ?t"
    unfolding db_open_maps using pf dist srt(1,2) L(4,5) ih(4) B by auto
  have "content ?t = content s" using L(4) B by (auto simp: fun_eq_iff content_def split: option.split)
  moreover have "db_live T ?t"
    unfolding db_live_maps using op ih(3) L(4,5) B by auto
  moreover have "opens {?n} s ?t" by (simp add: opens_def)
  ultimately show ?thesis using that[OF ih(1,2) L(3)] by blast
qed

section \<open>Creating a table\<close>

text \<open>The semaphores when no statement is under way.\<close>

definition sems_free :: "'z sm_state_scheme \<Rightarrow> bool" where
  "sems_free s \<longleftrightarrow> metadata_sem s = 1 \<and> file_handles_sem s = 1 \<and> index_handles_sem s = 1"

lemma live_kept:
  fixes s t :: "'z sm_state_scheme"
  assumes live: "db_live T s" and k: "kept {g. fd_path s g \<noteq> None} s t" and pm: "pm_wf t"
    and same: "fhs t = fhs s" "ihs t = ihs s" "path2fd t = path2fd s"
  shows "db_live T t" "content t = content s"
proof -
  have o: "db_open T s" using live by (simp add: db_live_def)
  have pf: "pf_wf t" using pm by (simp add: pm_wf_def)
  have tables: "rm_wf t gh \<and> rm_recs t gh = rm_recs s gh" if "map_of (fhs s) n = Some gh" for n gh
    using rm_wf_kept[OF k pf, of gh] live_table(1)[OF live that] by (auto simp: rm_wf_def)
  have indexes: "ix_wf t ih (T n)" if "map_of (ihs s) n = Some ih" for n ih
    using ix_wf_kept[OF k pf, of ih] live_index(1)[OF live that] by (auto simp: ix_wf_def)
  have "db_open T t" using o pf tables indexes by (simp add: db_open_maps db_fds_def same)
  then show "db_live T t" using live pm by (simp add: db_live_def table_fd_def same)
  show "content t = content s" using tables by (auto simp: fun_eq_iff content_def same split: option.split)
qed

lemma create_table_run:
  fixes s :: "'z sm_state_scheme"
  assumes live: "db_live T s" and sems: "sems_free s"
    and new: "\<not> is_table (db s) name" "\<not> sys_is_reg s name"
    and cols: "make_columns name 0 infos = Inr (cols, sz)" "1 \<le> sz" "sz \<le> RM_MAX_RECORD_SIZE"
  obtains t fh where "create_table name infos s = (Inr (), t)" "db_live T t" "sems_free t"
    "db t = set_table name \<lparr>tm_name = name, tm_cols = cols\<rparr> (db s)" "content t = content s" "content s name = Map.empty"
    "map_of (fhs t) = (map_of (fhs s))(name \<mapsto> fh)" "fh_hdr fh = new_file_header sz" "ihs t = ihs s" "cwd t = cwd s"
    "dirs t = dirs s" "base_dir t = base_dir s" "current_db_name t = current_db_name s" "fhs t = map_put name fh (fhs s)"
    "\<forall>n. n \<noteq> name \<longrightarrow> path2fd t n = path2fd s n" "open_fds t = (fh_fd fh, resolve s name) # open_fds s"
    "\<forall>f. f \<noteq> resolve s name \<longrightarrow> f \<notin> snd ` set (open_fds s) \<longrightarrow> files t f = files s f"
proof -
  let ?s0 = "s\<lparr>metadata_sem := 0\<rparr>" and ?tab = "\<lparr>tm_name = name, tm_cols = cols\<rparr>"
  have pm: "pm_wf s" using live by (simp add: db_live_def)
  have b0: "pf_state.truncate ?s0 = pf_state.truncate s" by simp
  note B0 = base_cong[OF b0] base_view[OF b0] base_wf[OF b0]
  have live0: "db_live T ?s0" "content ?s0 = content s" using live db_live_cong[OF b0] by simp_all
  have pm0: "pm_wf ?s0" and fresh0: "\<not> sys_is_reg ?s0 name" using pm new(2) B0 by simp_all
  obtain u b where u: "RM_create_file name sz ?s0 = (Inr (), u)" "pm_wf u" "path2fd u = path2fd ?s0" "cwd u = cwd ?s0"
    "files u (resolve ?s0 name) = Some b" "rm_file (new_file_header sz) b"
    "rm_map (new_file_header sz) (file_page b) = Map.empty" "kept {g. fd_path ?s0 g \<noteq> None} ?s0 u"
    "pf_state.more u = pf_state.more ?s0" "open_fds u = open_fds ?s0" "fd2path u = fd2path ?s0"
    "\<And>f. f \<noteq> resolve ?s0 name \<Longrightarrow> f \<notin> snd ` set (open_fds ?s0) \<Longrightarrow> files u f = files ?s0 f"
    by (rule RM_create_file_run[OF pm0 fresh0 cols(2,3)]) (rule that; assumption)
  note M = more_fields[OF u(9)]
  have live_u: "db_live T u" "content u = content s" using live_kept[OF live0(1) u(8,2)] M u(3) live0(2) by simp_all
  let ?v = "u\<lparr>db := set_table name ?tab (db s), metadata_sem := 1, file_handles_sem := 0\<rparr>"
  have bv: "pf_state.truncate ?v = pf_state.truncate u" by simp
  note BV = base_cong[OF bv]
  have live_v: "db_live T ?v" "content ?v = content s" using db_live_cong[OF bv] live_u by simp_all
  have no: "path2fd s name = None" by (rule missing_closed[OF pm new(2)])
  have "on_disk ?v name (rec_stands (new_file_header sz) Map.empty)"
    using u(3-7) no BV B0 by (simp add: on_disk_def rec_stands_def resolve_def)
  then obtain fh where fh: "RM_open_file name ?v = (Inr fh, opened (fh_fd fh) name ?v)" "fh_hdr fh = new_file_header sz"
    "map_of (fhs ?v) name = None"
    "db_live T ((opened (fh_fd fh) name ?v)\<lparr>fhs := map_put name fh (fhs ?v)\<rparr>)"
    "content ((opened (fh_fd fh) name ?v)\<lparr>fhs := map_put name fh (fhs ?v)\<rparr>) = (content ?v)(name := Map.empty)"
    "opens {name} ?v ((opened (fh_fd fh) name ?v)\<lparr>fhs := map_put name fh (fhs ?v)\<rparr>)"
    by (rule add_table[OF live_v(1)]) (rule that; assumption)
  let ?w = "(opened (fh_fd fh) name ?v)\<lparr>fhs := map_put name fh (fhs ?v)\<rparr>"
  let ?t = "?w\<lparr>file_handles_sem := 1\<rparr>"
  have run: "create_table name infos s = (Inr (), ?t)"
    using sems new(1) cols(1) u(1) M fh(1)
    by (simp add: create_table_def sems_free_def upd_db_def put_fh_def)
  have bt: "pf_state.truncate ?t = pf_state.truncate ?w" by simp
  have "db_live T ?t" "content ?t = (content s)(name := Map.empty)"
    using db_live_cong[OF bt] fh(4,5) live_v(2) by simp_all
  moreover have "content s name = Map.empty" using fh(3) M by (simp add: content_def)
  ultimately show ?thesis
    using that[OF run, of fh] M sems u(3,4,10,12) fh(2,6) B0 by (simp add: sems_free_def fun_upd_idem opens_def resolve_def)
qed

end
