(* ===== verification/SmReopen.thy ===== *)
theory SmReopen
  imports SmLife
begin

text \<open>
  \<open>close_db\<close> and \<open>open_db\<close>: what the one leaves in the directory of the database, and that the
  other makes a live database of it, with the catalog, the tables and the indexes there were.
\<close>

section \<open>The files of a database\<close>

text \<open>A file of a directory (with a slash at its end) that is not open.\<close>

definition stored_at :: "string \<Rightarrow> 'z pf_state_scheme \<Rightarrow> string \<Rightarrow> (byte list \<Rightarrow> bool) \<Rightarrow> bool" where
  "stored_at dir s n P \<longleftrightarrow> path2fd s n = None \<and> (\<exists>b. files s (dir @ n) = Some b \<and> P b)"

lemma stored_at_disk: "stored_at (cwd s) s n P = on_disk s n P"
  by (simp add: stored_at_def on_disk_def resolve_def)

definition indexed :: "Table_Metadata \<Rightarrow> nat list" where
  "indexed tab = filter (\<lambda>i. cm_index (tm_cols tab ! i)) [0..<length (tm_cols tab)]"

definition table_files :: "Table_Metadata \<Rightarrow> string list" where
  "table_files tab = tm_name tab # map (\<lambda>i. index_path (tm_name tab, i)) (indexed tab)"

text \<open>
  The files of the tables stand for the contents \<open>M\<close>, under headers \<open>H\<close>, and for the trees \<open>T\<close>,
  under headers \<open>J\<close>.
\<close>

definition tables_stored :: "string \<Rightarrow> (string \<Rightarrow> RM_FileHeader) \<Rightarrow> (string \<Rightarrow> RecordID \<rightharpoonup> byte list) \<Rightarrow>
    (string \<Rightarrow> IndexFileHeader) \<Rightarrow> (string \<Rightarrow> bt) \<Rightarrow> Table_Metadata list \<Rightarrow> 'z pf_state_scheme \<Rightarrow> bool" where
  "tables_stored dir H M J T tabs s \<longleftrightarrow> (\<forall>tab \<in> set tabs. let n = tm_name tab in
     stored_at dir s n (rec_stands (H n) (M n)) \<and>
     (\<forall>i \<in> set (indexed tab). let p = index_path (n, i) in stored_at dir s p (ndx_stands (J p) (T p))))"

lemma tables_stored_Cons: "tables_stored dir H M J T (tab # tabs) s \<longleftrightarrow>
    tables_stored dir H M J T [tab] s \<and> tables_stored dir H M J T tabs s"
  by (simp add: tables_stored_def)

lemma tables_stored_opens:
  assumes "tables_stored dir H M J T tabs s" "opens N s t" "N \<inter> set (concat (map table_files tabs)) = {}"
  shows "tables_stored dir H M J T tabs t"
proof -
  have "path2fd t n = path2fd s n" if "tab \<in> set tabs" "n \<in> set (table_files tab)" for tab n
    using assms(2,3) that by (auto simp: opens_def)
  moreover have "files t = files s" using assms(2) by (simp add: opens_def)
  ultimately show ?thesis using assms(1) by (auto simp: tables_stored_def stored_at_def Let_def table_files_def)
qed

text \<open>A table name is an identifier, which has no dot; so the files of different tables have different names.\<close>

definition dotless :: "string \<Rightarrow> bool" where
  "dotless n \<longleftrightarrow> CHR ''.'' \<notin> set n"

lemma nat_to_string_inj: "nat_to_string i = nat_to_string j \<longleftrightarrow> i = j"
  using digits_nat_to_string(2) by metis

lemma index_path_text: "index_path (n, i) = n @ CHR ''.'' # nat_to_string i @ ''.ndx''"
  by (simp add: index_path_def get_index_name_def int_to_string_def)

lemma dotless_split: "dotless n \<Longrightarrow> takeWhile (\<lambda>c. c \<noteq> CHR ''.'') (n @ CHR ''.'' # r) = n \<and> dropWhile (\<lambda>c. c \<noteq> CHR ''.'') (n @ CHR ''.'' # r) = CHR ''.'' # r"
  by (auto simp: dotless_def takeWhile_append dropWhile_append)

lemma index_path_eq: "dotless n \<Longrightarrow> dotless m \<Longrightarrow> index_path (n, i) = index_path (m, j) \<longleftrightarrow> n = m \<and> i = j"
  unfolding index_path_text using dotless_split by (metis append_same_eq list.inject nat_to_string_inj)

lemma index_path_dot [simp]: "\<not> dotless (index_path k)"
  by (cases k) (simp add: index_path_text dotless_def)

lemma index_path_name: "dotless n \<Longrightarrow> index_path k \<noteq> n"
  by auto

lemma index_path_own: "dotless n \<Longrightarrow> inj_on (\<lambda>i. index_path (n, i)) A"
  by (simp add: inj_on_def index_path_eq)

lemma table_files_distinct:
  assumes "distinct (map tm_name tabs)" "\<forall>tab \<in> set tabs. dotless (tm_name tab)"
  shows "distinct (concat (map table_files tabs))"
  using assms
proof (induction tabs)
  case (Cons tab tabs)
  have n: "dotless (tm_name tab)" using Cons.prems(2) by simp
  have "tm_name tab \<noteq> index_path (tm_name tab, i)" for i using index_path_name[OF n, of "(tm_name tab, i)"] by simp
  then have "distinct (table_files tab)"
    using index_path_own[OF n] by (auto simp: table_files_def distinct_map indexed_def)
  moreover have "set (table_files tab) \<inter> set (table_files x) = {}" if x: "x \<in> set tabs" for x
  proof -
    have "dotless (tm_name x)" "tm_name x \<noteq> tm_name tab" using Cons.prems x by (auto simp: image_iff)
    then have "tm_name x \<noteq> index_path k" "tm_name tab \<noteq> index_path k" for k using n by auto
    then show ?thesis using \<open>dotless (tm_name x)\<close> \<open>tm_name x \<noteq> tm_name tab\<close> n by (auto simp: table_files_def index_path_eq)
  qed
  ultimately show ?case using Cons by auto
qed simp

section \<open>Opening\<close>

lemma open_column_index_run:
  fixes s :: "'z sm_state_scheme"
  assumes live: "db_live T s" and disk: "cm_index (tm_cols tab ! i) \<Longrightarrow>
      on_disk s (index_path (tm_name tab, i)) (ndx_stands (J (index_path (tm_name tab, i))) (T (index_path (tm_name tab, i))))"
  shows "\<exists>t. open_column_index tab i s = (Inr (), t) \<and> db_live T t \<and> content t = content s \<and> fhs t = fhs s \<and>
    opens (if cm_index (tm_cols tab ! i) then {index_path (tm_name tab, i)} else {}) s t \<and>
    dom (map_of (ihs t)) = dom (map_of (ihs s)) \<union> (if cm_index (tm_cols tab ! i) then {index_path (tm_name tab, i)} else {}) \<and>
    (\<forall>p ih. map_of (ihs t) p = Some ih \<longrightarrow> map_of (ihs s) p = Some ih \<or> index_header ih = J p)"
proof (cases "cm_index (tm_cols tab ! i)")
  case True
  let ?k = "(tm_name tab, i)"
  obtain ih where ih: "open_index (fst ?k) (int (snd ?k)) s = (Inr ih, opened (ih_fd ih) (index_path ?k) s)"
    "index_header ih = J (index_path ?k)" "map_of (ihs s) (index_path ?k) = None"
    "db_live T ((opened (ih_fd ih) (index_path ?k) s)\<lparr>ihs := map_put (index_path ?k) ih (ihs s)\<rparr>)"
    "content ((opened (ih_fd ih) (index_path ?k) s)\<lparr>ihs := map_put (index_path ?k) ih (ihs s)\<rparr>) = content s"
    "opens {index_path ?k} s ((opened (ih_fd ih) (index_path ?k) s)\<lparr>ihs := map_put (index_path ?k) ih (ihs s)\<rparr>)"
    by (rule add_index[OF live disk[OF True]]) (rule that; assumption)
  have "open_column_index tab i s = (Inr (), (opened (ih_fd ih) (index_path ?k) s)\<lparr>ihs := map_put (index_path ?k) ih (ihs s)\<rparr>)"
    using ih(1,3) True by (simp add: open_column_index_def index_path_def put_ih_def)
  then show ?thesis using True ih(2,4-6) by (intro exI conjI) (assumption, simp_all)
next
  case False
  then show ?thesis using live by (simp add: open_column_index_def opens_refl)
qed

lemma open_indexes_run:
  fixes s :: "'z sm_state_scheme"
  assumes "db_live T s" "distinct is"
    "\<forall>i \<in> set is. cm_index (tm_cols tab ! i) \<longrightarrow>
      on_disk s (index_path (tm_name tab, i)) (ndx_stands (J (index_path (tm_name tab, i))) (T (index_path (tm_name tab, i))))"
    "inj_on (\<lambda>i. index_path (tm_name tab, i)) (set is)"
  defines "N \<equiv> (\<lambda>i. index_path (tm_name tab, i)) ` {i \<in> set is. cm_index (tm_cols tab ! i)}"
  shows "\<exists>t. forEach is (open_column_index tab) s = (Inr (), t) \<and> db_live T t \<and> content t = content s \<and> fhs t = fhs s \<and>
    opens N s t \<and> dom (map_of (ihs t)) = dom (map_of (ihs s)) \<union> N \<and>
    (\<forall>p ih. map_of (ihs t) p = Some ih \<longrightarrow> map_of (ihs s) p = Some ih \<or> index_header ih = J p)"
  using assms(1-4) unfolding N_def
proof (induction "is" arbitrary: s)
  case Nil
  then show ?case by (simp add: opens_refl)
next
  case (Cons i js)
  let ?P = "\<lambda>i. index_path (tm_name tab, i)" and ?on = "\<lambda>i. cm_index (tm_cols tab ! i)"
  have d: "?on i \<Longrightarrow> on_disk s (?P i) (ndx_stands (J (?P i)) (T (?P i)))" using Cons.prems(3) by simp
  obtain t where t: "open_column_index tab i s = (Inr (), t)" "db_live T t" "content t = content s" "fhs t = fhs s"
    "opens (if ?on i then {?P i} else {}) s t" "dom (map_of (ihs t)) = dom (map_of (ihs s)) \<union> (if ?on i then {?P i} else {})"
    "\<forall>p ih. map_of (ihs t) p = Some ih \<longrightarrow> map_of (ihs s) p = Some ih \<or> index_header ih = J p"
    using open_column_index_run[where J = J, OF Cons.prems(1) d] by blast
  have later: "\<forall>j \<in> set js. ?on j \<longrightarrow> on_disk t (?P j) (ndx_stands (J (?P j)) (T (?P j)))"
  proof (intro ballI impI)
    fix j assume j: "j \<in> set js" "?on j"
    have "?P j \<noteq> ?P i" using Cons.prems(2,4) j(1) by (auto simp: inj_on_def)
    then show "on_disk t (?P j) (ndx_stands (J (?P j)) (T (?P j)))"
      using on_disk_opens[OF t(5), of "?P j"] Cons.prems(3) j by auto
  qed
  have inj: "inj_on ?P (set js)" using Cons.prems(4) by simp
  have dist: "distinct js" using Cons.prems(2) by simp
  obtain u where u: "forEach js (open_column_index tab) t = (Inr (), u)" "db_live T u" "content u = content t" "fhs u = fhs t"
    "opens (?P ` {i \<in> set js. ?on i}) t u" "dom (map_of (ihs u)) = dom (map_of (ihs t)) \<union> ?P ` {i \<in> set js. ?on i}"
    "\<forall>p ih. map_of (ihs u) p = Some ih \<longrightarrow> map_of (ihs t) p = Some ih \<or> index_header ih = J p"
    using Cons.IH[OF t(2) dist later inj] by blast
  have N: "?P ` {k \<in> set (i # js). ?on k} = (if ?on i then {?P i} else {}) \<union> ?P ` {k \<in> set js. ?on k}" by auto
  have "forEach (i # js) (open_column_index tab) s = (Inr (), u)" using t(1) u(1) by simp
  moreover have "opens (?P ` {k \<in> set (i # js). ?on k}) s u" unfolding N by (rule opens_trans[OF t(5) u(5)])
  moreover have "dom (map_of (ihs u)) = dom (map_of (ihs s)) \<union> ?P ` {k \<in> set (i # js). ?on k}" unfolding N u(6) t(6) by blast
  moreover have "\<forall>p ih. map_of (ihs u) p = Some ih \<longrightarrow> map_of (ihs s) p = Some ih \<or> index_header ih = J p"
    using t(7) u(7) by blast
  ultimately show ?case using t(3,4) u(2-4) by (intro exI[of _ u]) simp
qed

lemma indexed_set: "set (indexed tab) = {i. i < length (tm_cols tab) \<and> cm_index (tm_cols tab ! i)}"
  by (auto simp: indexed_def)

lemma open_table_run:
  fixes s :: "'z sm_state_scheme"
  assumes live: "db_live T s" and disk: "tables_stored (cwd s) H M J T [tab] s"
    and name: "dotless (tm_name tab)"
  obtains fh t where "open_table tab s = (Inr (), t)" "db_live T t" "content t = (content s)(tm_name tab := M (tm_name tab))"
    "opens (set (table_files tab)) s t" "map_of (fhs t) = (map_of (fhs s))(tm_name tab \<mapsto> fh)" "fh_hdr fh = H (tm_name tab)"
    "dom (map_of (ihs t)) = dom (map_of (ihs s)) \<union> (\<lambda>i. index_path (tm_name tab, i)) ` set (indexed tab)"
    "\<forall>p ih. map_of (ihs t) p = Some ih \<longrightarrow> map_of (ihs s) p = Some ih \<or> index_header ih = J p"
proof -
  let ?n = "tm_name tab" and ?P = "\<lambda>i. index_path (tm_name tab, i)"
  have d: "on_disk s ?n (rec_stands (H ?n) (M ?n))" "\<forall>i \<in> set (indexed tab). on_disk s (?P i) (ndx_stands (J (?P i)) (T (?P i)))"
    using disk by (simp_all add: tables_stored_def Let_def stored_at_disk)
  obtain fh where fh: "RM_open_file ?n s = (Inr fh, opened (fh_fd fh) ?n s)" "fh_hdr fh = H ?n" "map_of (fhs s) ?n = None"
    "db_live T ((opened (fh_fd fh) ?n s)\<lparr>fhs := map_put ?n fh (fhs s)\<rparr>)"
    "content ((opened (fh_fd fh) ?n s)\<lparr>fhs := map_put ?n fh (fhs s)\<rparr>) = (content s)(?n := M ?n)"
    "opens {?n} s ((opened (fh_fd fh) ?n s)\<lparr>fhs := map_put ?n fh (fhs s)\<rparr>)"
    by (rule add_table[OF live d(1)]) (rule that; assumption)
  let ?t = "(opened (fh_fd fh) ?n s)\<lparr>fhs := map_put ?n fh (fhs s)\<rparr>"
  have later: "\<forall>i \<in> set [0..<length (tm_cols tab)]. cm_index (tm_cols tab ! i) \<longrightarrow> on_disk ?t (?P i) (ndx_stands (J (?P i)) (T (?P i)))"
  proof (intro ballI impI)
    fix i assume "i \<in> set [0..<length (tm_cols tab)]" "cm_index (tm_cols tab ! i)"
    then have i: "i \<in> set (indexed tab)" by (simp add: indexed_set)
    have "?P i \<noteq> ?n" by (rule index_path_name[OF name])
    then show "on_disk ?t (?P i) (ndx_stands (J (?P i)) (T (?P i)))" using on_disk_opens[OF fh(6), of "?P i"] d(2) i by simp
  qed
  have dd: "distinct [0..<length (tm_cols tab)]" by simp
  have inj: "inj_on ?P (set [0..<length (tm_cols tab)])" by (rule index_path_own[OF name])
  have N: "?P ` {i \<in> set [0..<length (tm_cols tab)]. cm_index (tm_cols tab ! i)} = ?P ` set (indexed tab)"
    by (auto simp: indexed_set)
  obtain u where u: "forEach [0..<length (tm_cols tab)] (open_column_index tab) ?t = (Inr (), u)" "db_live T u"
    "content u = content ?t" "fhs u = fhs ?t" "opens (?P ` set (indexed tab)) ?t u"
    "dom (map_of (ihs u)) = dom (map_of (ihs ?t)) \<union> ?P ` set (indexed tab)"
    "\<forall>p ih. map_of (ihs u) p = Some ih \<longrightarrow> map_of (ihs ?t) p = Some ih \<or> index_header ih = J p"
    using open_indexes_run[where J = J, OF fh(4) dd later inj] unfolding N by blast
  have run: "open_table tab s = (Inr (), u)"
    using fh(1) u(1) by (simp add: open_table_def put_fh_def)
  have "opens (set (table_files tab)) s u"
    using opens_trans[OF fh(6) u(5)] by (simp add: table_files_def)
  then show ?thesis using that[OF run u(2) _ _ _ fh(2)] u(3,4,6,7) fh(5) by simp
qed

lemma open_tables_run:
  fixes s :: "'z sm_state_scheme"
  assumes "db_live T s" "tables_stored (cwd s) H M J T tabs s" "distinct (concat (map table_files tabs))"
    "\<forall>tab \<in> set tabs. dotless (tm_name tab)"
  shows "\<exists>t. forEach tabs open_table s = (Inr (), t) \<and> db_live T t \<and>
    content t = (\<lambda>n. if n \<in> tm_name ` set tabs then M n else content s n) \<and> opens (set (concat (map table_files tabs))) s t \<and>
    dom (map_of (fhs t)) = dom (map_of (fhs s)) \<union> tm_name ` set tabs \<and>
    (\<forall>n fh. map_of (fhs t) n = Some fh \<longrightarrow> (if n \<in> tm_name ` set tabs then fh_hdr fh = H n else map_of (fhs s) n = Some fh)) \<and>
    dom (map_of (ihs t)) = dom (map_of (ihs s)) \<union> (\<Union>tab \<in> set tabs. (\<lambda>i. index_path (tm_name tab, i)) ` set (indexed tab)) \<and>
    (\<forall>p ih. map_of (ihs t) p = Some ih \<longrightarrow> map_of (ihs s) p = Some ih \<or> index_header ih = J p)"
  using assms
proof (induction tabs arbitrary: s)
  case Nil
  then show ?case by (simp add: opens_refl)
next
  case (Cons tab tabs)
  have d: "tables_stored (cwd s) H M J T [tab] s" "tables_stored (cwd s) H M J T tabs s"
    using Cons.prems(2) tables_stored_Cons by blast+
  have dist: "distinct (table_files tab)" "set (table_files tab) \<inter> set (concat (map table_files tabs)) = {}"
    "distinct (concat (map table_files tabs))" using Cons.prems(3) by simp_all
  have names: "dotless (tm_name tab)" "\<forall>tab \<in> set tabs. dotless (tm_name tab)" using Cons.prems(4) by simp_all
  obtain fh t where t: "open_table tab s = (Inr (), t)" "db_live T t" "content t = (content s)(tm_name tab := M (tm_name tab))"
    "opens (set (table_files tab)) s t" "map_of (fhs t) = (map_of (fhs s))(tm_name tab \<mapsto> fh)" "fh_hdr fh = H (tm_name tab)"
    "dom (map_of (ihs t)) = dom (map_of (ihs s)) \<union> (\<lambda>i. index_path (tm_name tab, i)) ` set (indexed tab)"
    "\<forall>p ih. map_of (ihs t) p = Some ih \<longrightarrow> map_of (ihs s) p = Some ih \<or> index_header ih = J p"
    by (rule open_table_run[OF Cons.prems(1) d(1) names(1)])
  have cw: "cwd t = cwd s" using t(4) by (simp add: opens_def)
  have st: "tables_stored (cwd t) H M J T tabs t" unfolding cw by (rule tables_stored_opens[OF d(2) t(4) dist(2)])
  obtain u where u: "forEach tabs open_table t = (Inr (), u)" "db_live T u"
    "content u = (\<lambda>n. if n \<in> tm_name ` set tabs then M n else content t n)" "opens (set (concat (map table_files tabs))) t u"
    "dom (map_of (fhs u)) = dom (map_of (fhs t)) \<union> tm_name ` set tabs"
    "\<forall>n fh. map_of (fhs u) n = Some fh \<longrightarrow> (if n \<in> tm_name ` set tabs then fh_hdr fh = H n else map_of (fhs t) n = Some fh)"
    "dom (map_of (ihs u)) = dom (map_of (ihs t)) \<union> (\<Union>tab \<in> set tabs. (\<lambda>i. index_path (tm_name tab, i)) ` set (indexed tab))"
    "\<forall>p ih. map_of (ihs u) p = Some ih \<longrightarrow> map_of (ihs t) p = Some ih \<or> index_header ih = J p"
    using Cons.IH[OF t(2) st dist(3) names(2)] by (elim exE conjE) (rule that; assumption)
  have "forEach (tab # tabs) open_table s = (Inr (), u)" using t(1) u(1) by simp
  moreover have "content u = (\<lambda>n. if n \<in> tm_name ` set (tab # tabs) then M n else content s n)"
    using t(3) u(3) by (auto simp: fun_eq_iff)
  moreover have "opens (set (concat (map table_files (tab # tabs)))) s u" using opens_trans[OF t(4) u(4)] by simp
  moreover have "dom (map_of (fhs u)) = dom (map_of (fhs s)) \<union> tm_name ` set (tab # tabs)" unfolding u(5) t(5) by simp
  moreover have "\<forall>n fh. map_of (fhs u) n = Some fh \<longrightarrow>
      (if n \<in> tm_name ` set (tab # tabs) then fh_hdr fh = H n else map_of (fhs s) n = Some fh)"
  proof (intro allI impI)
    fix n g assume g: "map_of (fhs u) n = Some g"
    show "if n \<in> tm_name ` set (tab # tabs) then fh_hdr g = H n else map_of (fhs s) n = Some g"
      using u(6)[rule_format, OF g] t(5,6) by (cases "n = tm_name tab") (auto split: if_splits)
  qed
  moreover have "dom (map_of (ihs u)) = dom (map_of (ihs s)) \<union>
      (\<Union>tab \<in> set (tab # tabs). (\<lambda>i. index_path (tm_name tab, i)) ` set (indexed tab))" unfolding u(7) t(7) by auto
  moreover have "\<forall>p ih. map_of (ihs u) p = Some ih \<longrightarrow> map_of (ihs s) p = Some ih \<or> index_header ih = J p"
    using t(8) u(8) by blast
  ultimately show ?case using u(2) by blast
qed

section \<open>close\_db\<close>

text \<open>
  The handles of a live database are those of its catalog, no other file is open, and the working
  directory holds the catalog.
\<close>

definition catalog_open :: "'z sm_state_scheme \<Rightarrow> bool" where
  "catalog_open s \<longleftrightarrow> (let tabs = map snd (dm_tabs (db s)) in
     map fst (dm_tabs (db s)) = map tm_name tabs \<and> distinct (map tm_name tabs) \<and> (\<forall>tab \<in> set tabs. dotless (tm_name tab)) \<and>
     dom (map_of (fhs s)) = tm_name ` set tabs \<and>
     dom (map_of (ihs s)) = (\<Union>tab \<in> set tabs. (\<lambda>i. index_path (tm_name tab, i)) ` set (indexed tab)) \<and>
     dom (path2fd s) = dom (map_of (fhs s)) \<union> dom (map_of (ihs s)))"

lemma pm_wf_no_files:
  assumes "pm_wf s" "path2fd s = Map.empty"
  shows "fd2path s = Map.empty" "open_fds s = []" "pm_wf (s\<lparr>cwd := c\<rparr>)"
proof -
  have maps: "pm_maps s" using assms(1) by (simp add: pm_wf_def)
  show f: "fd2path s = Map.empty"
  proof
    fix fd
    show "fd2path s fd = None" using maps assms(2) by (cases "fd2path s fd") (auto simp: pm_maps_def)
  qed
  have none: "fd_path s fd = None" for fd
  proof (rule ccontr)
    assume "fd_path s fd \<noteq> None"
    then show False using maps f unfolding pm_maps_def by simp
  qed
  show "open_fds s = []"
  proof (cases "open_fds s")
    case (Cons e es)
    then show ?thesis using none[of "fst e"] by (simp add: fd_path_def)
  qed
  have d: "disk_page (s\<lparr>cwd := c\<rparr>) = disk_page s" by (rule disk_page_cong) simp_all
  have v: "valid_pid (s\<lparr>cwd := c\<rparr>) = valid_pid s" by (rule valid_pid_cong) simp
  have "pf_wf (s\<lparr>cwd := c\<rparr>)" using assms(1) d v
    by (simp add: pm_wf_def pf_wf_def pager_inv_def os_wf_def pager_struct_def map_lists_def page_synced_def)
  then show "pm_wf (s\<lparr>cwd := c\<rparr>)"
    using assms f none by (simp add: pm_wf_def pm_maps_def fd_path_def resolve_def)
qed

text \<open>The loops over the handles.\<close>

lemma close_handles_run:
  fixes s :: "'z sm_state_scheme"
  assumes live: "db_live T s"
  obtains t u where "forEach (fhs s) (\<lambda>e. RM_close_file (snd e)) s = (Inr (), t)" "pf_state.more t = pf_state.more s"
    "forEach (ihs s) (\<lambda>e. close_index (snd e)) (t\<lparr>fhs := [], file_handles_sem := a, index_handles_sem := b\<rparr>) = (Inr (), u)"
    "pf_state.more u = pf_state.more (t\<lparr>fhs := [], file_handles_sem := a, index_handles_sem := b\<rparr>)" "pm_wf u" "cwd u = cwd s" "cwd t = cwd s"
    "\<forall>n. path2fd u n = (if n \<in> dom (map_of (fhs s)) \<union> dom (map_of (ihs s)) then None else path2fd s n)"
    "\<forall>n fh. map_of (fhs s) n = Some fh \<longrightarrow> on_disk u n (rec_stands (fh_hdr fh) (content s n))"
    "\<forall>n ih. map_of (ihs s) n = Some ih \<longrightarrow> on_disk u n (ndx_stands (index_header ih) (T n))"
    "\<forall>f. f \<notin> snd ` set (open_fds s) \<longrightarrow> files u f = files s f"
proof -
  have pm: "pm_wf s" and o: "db_open T s" using live by (simp_all add: db_live_def)
  have srt: "map_sorted (fhs s)" "map_sorted (ihs s)" "distinct (db_fds s)" using o by (simp_all add: db_open_def)
  have p2fd: "fd2path s fd = Some n" if "path2fd s n = Some fd" for n fd using pm that by (simp add: pm_wf_def pm_maps_def)
  have T1: "rec_shows s (snd e) (rm_recs s (snd e)) \<and> fd2path s (fh_fd (snd e)) = Some (fst e)" if "e \<in> set (fhs s)" for e
    using live_table[OF live, of "fst e" "snd e"] entry_unique[OF srt(1), of "fst e" "snd e"] that p2fd by (simp add: rec_shows_def)
  have d: "distinct (map (\<lambda>e. fh_fd (snd e)) (fhs s))" "distinct (map (\<lambda>e. ih_fd (snd e)) (ihs s))"
    using srt(3) by (simp_all add: db_fds_def)
  let ?X = "(\<lambda>e. (fst e, fh_fd (snd e))) ` set (fhs s)" and ?Y = "(\<lambda>e. (fst e, ih_fd (snd e))) ` set (ihs s)"
  obtain t where t: "forEach (fhs s) (\<lambda>e. RM_close_file (snd e)) s = (Inr (), t)" "shut ?X s t"
    "\<forall>e \<in> set (fhs s). on_disk t (fst e) (rec_stands (fh_hdr (snd e)) (rm_recs s (snd e)))"
    using rfile.close_all[where m = "\<lambda>e. rm_recs s (snd e)", OF pm d(1) T1] by blast
  let ?t = "t\<lparr>fhs := [], file_handles_sem := a, index_handles_sem := b\<rparr>"
  have bt: "pf_state.truncate ?t = pf_state.truncate t" by simp
  note B = base_cong[OF bt] base_wf[OF bt] base_view[OF bt]
  have pmt: "pm_wf ?t" "pf_wf ?t" using t(2) B by (simp_all add: shut_def pm_wf_def)
  have T2: "ix_wf ?t (snd e) (T (fst e)) \<and> fd2path ?t (ih_fd (snd e)) = Some (fst e)" if e: "e \<in> set (ihs s)" for e
  proof -
    have m: "map_of (ihs s) (fst e) = Some (snd e)" using entry_unique[OF srt(2)] e by simp
    note L = live_index[OF live m]
    have "set (map (\<lambda>e. fh_fd (snd e)) (fhs s)) \<inter> set (map (\<lambda>e. ih_fd (snd e)) (ihs s)) = {}"
      using srt(3) by (simp only: db_fds_def distinct_append)
    moreover have "ih_fd (snd e) \<in> set (map (\<lambda>e. ih_fd (snd e)) (ihs s))" using e by simp
    moreover have "snd ` ?X = set (map (\<lambda>e. fh_fd (snd e)) (fhs s))" by (simp add: image_image)
    ultimately have out: "ih_fd (snd e) \<notin> snd ` ?X" by blast
    then have "ih_fd (snd e) \<in> - snd ` ?X" by simp
    moreover have "kept (- snd ` ?X) s t" "pf_wf t" using t(2) by (simp_all add: shut_def pm_wf_def)
    ultimately have "ix_wf t (snd e) (T (fst e))" using ix_wf_kept[OF _ _ L(1)] by blast
    moreover have "fd2path t (ih_fd (snd e)) = Some (fst e)" using t(2) out p2fd[OF L(2)] by (simp add: shut_def)
    ultimately show ?thesis using B by simp
  qed
  obtain u where u: "forEach (ihs s) (\<lambda>e. close_index (snd e)) ?t = (Inr (), u)" "shut ?Y ?t u"
    "\<forall>e \<in> set (ihs s). on_disk u (fst e) (ndx_stands (index_header (snd e)) (T (fst e)))"
    using ndx.close_all[where m = "\<lambda>e. T (fst e)", OF pmt(1) d(2) T2] by blast
  have fst: "fst ` ?X = dom (map_of (fhs s))" "fst ` ?Y = dom (map_of (ihs s))" by (simp_all add: dom_map_of_conv_image_fst image_image)
  have p2: "path2fd u n = (if n \<in> dom (map_of (fhs s)) \<union> dom (map_of (ihs s)) then None else path2fd s n)" for n
    using t(2) u(2) B unfolding shut_def fst by simp
  have tabs: "on_disk u n (rec_stands (fh_hdr fh) (content s n))" if n: "map_of (fhs s) n = Some fh" for n fh
  proof -
    have "on_disk t n (rec_stands (fh_hdr fh) (rm_recs s fh))" using t(3) map_of_SomeD[OF n] by fastforce
    then have "on_disk ?t n (rec_stands (fh_hdr fh) (rm_recs s fh))" using B by (simp add: on_disk_def)
    from on_disk_shut[OF this u(2) pmt(1)] show ?thesis using table_file(2)[OF o n] by simp
  qed
  have inds: "on_disk u n (ndx_stands (index_header ih) (T n))" if "map_of (ihs s) n = Some ih" for n ih
    using u(3) map_of_SomeD[OF that] by fastforce
  have fl: "files u f = files s f" if f: "f \<notin> snd ` set (open_fds s)" for f
  proof -
    have "f \<notin> snd ` set (open_fds ?t)" using t(2) f B unfolding shut_def by auto
    then have "files u f = files ?t f" using u(2) by (simp add: shut_def)
    also have "\<dots> = files s f" using t(2) f B by (simp add: shut_def)
    finally show ?thesis .
  qed
  have "pm_wf u" "cwd u = cwd s" "cwd t = cwd s" "pf_state.more t = pf_state.more s" "pf_state.more u = pf_state.more ?t"
    using t(2) u(2) B by (simp_all add: shut_def)
  then show ?thesis using that[OF t(1) _ u(1)] p2 tabs inds fl by blast
qed

lemma meta_name_closed:
  assumes "catalog_open s"
  shows "path2fd s DB_META_NAME = None"
proof (rule ccontr)
  assume "path2fd s DB_META_NAME \<noteq> None"
  then have "DB_META_NAME \<in> dom (path2fd s)" by blast
  then consider tab where "tab \<in> snd ` set (dm_tabs (db s))" "DB_META_NAME = tm_name tab" | n i where "DB_META_NAME = index_path (n, i)"
    using assms unfolding catalog_open_def Let_def by auto
  then show False
  proof cases
    case 1
    then have "dotless DB_META_NAME" using assms by (auto simp: catalog_open_def Let_def)
    then show False by (simp add: dotless_def DB_META_NAME_def)
  next
    case 2
    have "last (index_path (n, i)) = CHR ''x''" by (simp add: index_path_text)
    then show False using 2 by (simp add: DB_META_NAME_def)
  qed
qed

definition headers_of :: "'z sm_state_scheme \<Rightarrow> string \<Rightarrow> RM_FileHeader" where
  "headers_of s n = fh_hdr (the (map_of (fhs s) n))"

definition ndx_headers_of :: "'z sm_state_scheme \<Rightarrow> string \<Rightarrow> IndexFileHeader" where
  "ndx_headers_of s n = index_header (the (map_of (ihs s) n))"

text \<open>A database that is closed, as \<open>close_db\<close> leaves it in the directory \<open>dir\<close>.\<close>

definition db_closed :: "string \<Rightarrow> DB_Metadata \<Rightarrow> (string \<Rightarrow> RM_FileHeader) \<Rightarrow> (string \<Rightarrow> RecordID \<rightharpoonup> byte list) \<Rightarrow>
    (string \<Rightarrow> IndexFileHeader) \<Rightarrow> (string \<Rightarrow> bt) \<Rightarrow> 'z sm_state_scheme \<Rightarrow> bool" where
  "db_closed dir d H M J T u \<longleftrightarrow> pm_wf u \<and> path2fd u = Map.empty \<and> fhs u = [] \<and> ihs u = [] \<and>
     db u = \<lparr>dm_name = [], dm_tabs = []\<rparr> \<and> current_db_name u = [] \<and> sems_free u \<and>
     files u (dir @ DB_META_NAME) = Some (text_bytes (print_db d)) \<and> tables_stored dir H M J T (map snd (dm_tabs d)) u"

lemma close_db_run:
  fixes s :: "'z sm_state_scheme"
  assumes live: "db_live T s" and sems: "sems_free s" and cur: "current_db_name s \<noteq> []" and cat: "catalog_open s"
    and here: "getcwd s \<in> set (dirs s)"
  obtains u where "close_db s = (Inr (), u)"
    "db_closed (cwd s) (db s) (headers_of s) (content s) (ndx_headers_of s) T u" "dirs u = dirs s" "base_dir u = base_dir s"
    "cwd u = up_two (cwd s) @ ''/''" "\<forall>f. f \<notin> snd ` set (open_fds s) \<longrightarrow> f \<noteq> cwd s @ DB_META_NAME \<longrightarrow> files u f = files s f"
proof -
  let ?mp = "resolve s DB_META_NAME" and ?txt = "text_bytes (print_db (db s))"
  define F where "F = (files s)(?mp \<mapsto> ?txt)"
  let ?s1 = "s\<lparr>files := F, db := \<lparr>dm_name = [], dm_tabs = []\<rparr>, metadata_sem := Suc 0, file_handles_sem := 0\<rparr>"
  have pm: "pm_wf s" using live by (simp add: db_live_def)
  have closed: "?mp \<notin> snd ` set (open_fds s)" using closed_path[OF pm meta_name_closed[OF cat]] by force
  then have keep: "F (snd e) = files s (snd e)" if "e \<in> set (open_fds s)" for e using that by (force simp: F_def)
  have b1: "pf_state.truncate ?s1 = pf_state.truncate (s\<lparr>files := F\<rparr>)" by (simp add: pf_state.defs)
  note B = base_wf[OF b1] base_view[OF b1] base_cong[OF b1]
  have pm1: "pm_wf ?s1" unfolding B(2) by (rule closed_files_wf[OF pm keep])
  have "page_view ?s1 = page_view s" unfolding B(6) by (rule closed_files_view(2)[OF keep])
  then have k: "kept {g. fd_path s g \<noteq> None} s ?s1" by (simp add: kept_def cached_pages_def fd_path_def)
  have live1: "db_live T ?s1" "content ?s1 = content s" using live_kept[OF live k pm1] by simp_all
  obtain t u where t: "forEach (fhs ?s1) (\<lambda>e. RM_close_file (snd e)) ?s1 = (Inr (), t)" "pf_state.more t = pf_state.more ?s1"
    "forEach (ihs ?s1) (\<lambda>e. close_index (snd e)) (t\<lparr>fhs := [], file_handles_sem := Suc 0, index_handles_sem := 0\<rparr>) = (Inr (), u)"
    "pf_state.more u = pf_state.more (t\<lparr>fhs := [], file_handles_sem := Suc 0, index_handles_sem := 0\<rparr>)"
    "pm_wf u" "cwd u = cwd ?s1" "cwd t = cwd ?s1"
    "\<forall>n. path2fd u n = (if n \<in> dom (map_of (fhs ?s1)) \<union> dom (map_of (ihs ?s1)) then None else path2fd ?s1 n)"
    "\<forall>n fh. map_of (fhs ?s1) n = Some fh \<longrightarrow> on_disk u n (rec_stands (fh_hdr fh) (content ?s1 n))"
    "\<forall>n ih. map_of (ihs ?s1) n = Some ih \<longrightarrow> on_disk u n (ndx_stands (index_header ih) (T n))"
    "\<forall>f. f \<notin> snd ` set (open_fds ?s1) \<longrightarrow> files u f = files ?s1 f"
    by (rule close_handles_run[where a = "Suc 0" and b = 0, OF live1(1)]) (rule that; assumption)
  note M = more_fields[OF t(2)] more_fields[OF t(4)]
  let ?u = "u\<lparr>ihs := [], index_handles_sem := 1, metadata_sem := 1, cwd := up_two (cwd s) @ ''/'', current_db_name := []\<rparr>"
  have up: "sys_chdir_up x = (0, x\<lparr>cwd := up_two (cwd s) @ ''/''\<rparr>)" if "cwd x = cwd s" "dirs x = dirs s" for x :: "'z sm_state_scheme"
    using that here by (auto simp: sys_chdir_up_def getcwd_def split: if_splits)
  have run: "close_db s = (Inr (), ?u)"
    using sems cur t(1,3,6,7) M
    by (simp add: close_db_def sems_free_def write_text_def F_def resolve_def andThen_run up)
  have "path2fd u n = None" for n
  proof (cases "n \<in> dom (map_of (fhs s)) \<union> dom (map_of (ihs s))")
    case True
    then show ?thesis using t(8) by simp
  next
    case False
    then have "n \<notin> dom (path2fd s)" using cat unfolding catalog_open_def Let_def by blast
    then show ?thesis using False t(8) by (simp add: domIff)
  qed
  then have p2: "path2fd u = Map.empty" by blast
  have bu: "pf_state.truncate ?u = pf_state.truncate (u\<lparr>cwd := up_two (cwd s) @ ''/''\<rparr>)" by (simp add: pf_state.defs)
  note U = base_wf[OF bu] base_cong[OF bu]
  have "files u ?mp = Some ?txt" using t(11) closed by (simp add: F_def)
  moreover have "tables_stored (cwd s) (headers_of s) (content s) (ndx_headers_of s) T (map snd (dm_tabs (db s))) ?u"
  proof -
    have dom: "tm_name tab \<in> dom (map_of (fhs s))" "i \<in> set (indexed tab) \<Longrightarrow> index_path (tm_name tab, i) \<in> dom (map_of (ihs s))"
      if "tab \<in> set (map snd (dm_tabs (db s)))" for tab i
      using cat that unfolding catalog_open_def Let_def by auto
    have st: "stored_at (cwd s) ?u n P" if "on_disk u n P" for n P
      using that t(6) by (simp add: stored_at_def on_disk_def resolve_def)
    have "stored_at (cwd s) ?u n (rec_stands (headers_of s n) (content s n))" if "n \<in> dom (map_of (fhs s))" for n
      using that t(9) live1(2) by (intro st) (auto simp: headers_of_def)
    moreover have "stored_at (cwd s) ?u n (ndx_stands (ndx_headers_of s n) (T n))" if "n \<in> dom (map_of (ihs s))" for n
      using that t(10) by (intro st) (auto simp: ndx_headers_of_def)
    ultimately show ?thesis using dom unfolding tables_stored_def Let_def by blast
  qed
  moreover have "pm_wf ?u" using pm_wf_no_files(3)[OF t(5) p2] U by simp
  ultimately have "db_closed (cwd s) (db s) (headers_of s) (content s) (ndx_headers_of s) T ?u"
    using p2 M by (simp add: db_closed_def sems_free_def resolve_def)
  moreover have "files ?u f = files s f" if "f \<notin> snd ` set (open_fds s)" "f \<noteq> cwd s @ DB_META_NAME" for f
    using t(11) that by (simp add: resolve_def F_def)
  ultimately show ?thesis using that[OF run] M by simp
qed

section \<open>open\_db\<close>

lemma open_db_run:
  fixes s :: "'z sm_state_scheme"
  assumes closed: "db_closed dir d H M J T s" and base: "base_dir s \<noteq> []"
    and dir: "dir = base_dir s @ ''/databases/'' @ name @ ''/''" "base_dir s @ ''/databases/'' @ name \<in> set (dirs s)"
    and ok: "db_ok d" "\<forall>(n, tab) \<in> set (dm_tabs d). dotless n"
  obtains t where "open_db name s = (Inr (), t)" "db_live T t" "sems_free t" "db t = d" "current_db_name t = name"
    "cwd t = dir" "dirs t = dirs s" "base_dir t = base_dir s" "files t = files s"
    "content t = (\<lambda>n. if n \<in> fst ` set (dm_tabs d) then M n else Map.empty)"
    "dom (map_of (fhs t)) = fst ` set (dm_tabs d)" "\<forall>n fh. map_of (fhs t) n = Some fh \<longrightarrow> fh_hdr fh = H n"
    "\<forall>p ih. map_of (ihs t) p = Some ih \<longrightarrow> index_header ih = J p" "catalog_open t"
proof -
  have cl: "pm_wf s" "path2fd s = Map.empty" "fhs s = []" "ihs s = []" "db s = \<lparr>dm_name = [], dm_tabs = []\<rparr>"
    "current_db_name s = []" "sems_free s" "files s (dir @ DB_META_NAME) = Some (text_bytes (print_db d))"
    "tables_stored dir H M J T (map snd (dm_tabs d)) s" using closed by (simp_all add: db_closed_def)
  let ?tabs = "map snd (dm_tabs d)"
  let ?s1 = "s\<lparr>cwd := dir, db := d, current_db_name := name, metadata_sem := Suc 0, file_handles_sem := 0, index_handles_sem := 0\<rparr>"
  have b1: "pf_state.truncate ?s1 = pf_state.truncate (s\<lparr>cwd := dir\<rparr>)" by (simp add: pf_state.defs)
  note B = base_wf[OF b1] base_cong[OF b1]
  have pm1: "pm_wf ?s1" using pm_wf_no_files(3)[OF cl(1,2)] B by simp
  have live1: "db_live T ?s1" using pm1 cl(3,4) by (simp add: db_live_maps db_open_maps db_fds_def pm_wf_def)
  have c1: "content ?s1 = (\<lambda>n. Map.empty)" using cl(3) by (simp add: content_def fun_eq_iff)
  have names: "map fst (dm_tabs d) = map tm_name ?tabs" using ok(1) by (auto simp: db_ok_def)
  have dist: "distinct (map tm_name ?tabs)" using ok(1) names sorted_keys_distinct by (metis db_ok_def)
  have dot: "\<forall>tab \<in> set ?tabs. dotless (tm_name tab)" using ok by (fastforce simp: db_ok_def)
  have st: "tables_stored (cwd ?s1) H M J T ?tabs ?s1" using cl(9) by (simp add: tables_stored_def stored_at_def Let_def)
  obtain t where t: "forEach ?tabs open_table ?s1 = (Inr (), t)" "db_live T t"
    "content t = (\<lambda>n. if n \<in> tm_name ` set ?tabs then M n else content ?s1 n)" "opens (set (concat (map table_files ?tabs))) ?s1 t"
    "dom (map_of (fhs t)) = dom (map_of (fhs ?s1)) \<union> tm_name ` set ?tabs"
    "\<forall>n fh. map_of (fhs t) n = Some fh \<longrightarrow> (if n \<in> tm_name ` set ?tabs then fh_hdr fh = H n else map_of (fhs ?s1) n = Some fh)"
    "dom (map_of (ihs t)) = dom (map_of (ihs ?s1)) \<union> (\<Union>tab \<in> set ?tabs. (\<lambda>i. index_path (tm_name tab, i)) ` set (indexed tab))"
    "\<forall>p ih. map_of (ihs t) p = Some ih \<longrightarrow> map_of (ihs ?s1) p = Some ih \<or> index_header ih = J p"
    using open_tables_run[OF live1 st table_files_distinct[OF dist dot] dot] by (elim exE conjE) (rule that; assumption)
  note O = t(4)[unfolded opens_def]
  let ?t = "t\<lparr>index_handles_sem := 1, file_handles_sem := 1\<rparr>"
  have bt: "pf_state.truncate ?t = pf_state.truncate t" by simp
  note C = db_live_cong[OF bt]
  have img: "tm_name ` set ?tabs = fst ` set (dm_tabs d)" using names by (metis set_map)
  have dp: "databases_dir s @ ''/'' @ name = base_dir s @ ''/databases/'' @ name" by (simp add: databases_dir_def)
  obtain q where q: "read_db \<lparr>dm_name = [], dm_tabs = []\<rparr> (print_db d) = Some (d, q)"
    using read_print_db[OF ok(1), of "\<lparr>dm_name = [], dm_tabs = []\<rparr>" "[]"] by auto
  have r: "open_db name s = (Inr (), ?t)"
  proof -
    have init: "initialize_base_dir u = (Inr (), u)" if "base_dir u \<noteq> []" for u :: "'z sm_state_scheme"
      using that by (simp add: initialize_base_dir_def)
    have isd: "is_dir name s = (Inr True, s)" using base dir(2) dp by (simp add: is_dir_def init)
    have path: "get_db_path name u = (Inr (base_dir s @ ''/databases/'' @ name), u)" if "base_dir u = base_dir s" for u :: "'z sm_state_scheme"
      using base that by (simp add: get_db_path_def init databases_dir_def)
    have ld: "load_meta (s\<lparr>metadata_sem := 0, cwd := dir\<rparr>) = (Inr (), s\<lparr>metadata_sem := 0, cwd := dir, db := d\<rparr>)"
      using cl(5,8) q by (simp add: load_meta_def read_text_def resolve_def)
    have e1: "s\<lparr>metadata_sem := 0, cwd := dir, db := d, current_db_name := name, metadata_sem := Suc 0, file_handles_sem := 0, index_handles_sem := 0\<rparr> = ?s1"
      by simp
    show ?thesis
      using cl(6,7) dir init[OF base] isd path ld t(1) O
      by (simp add: open_db_def sems_free_def sys_chdir_def)
  qed
  have "catalog_open ?t"
  proof -
    have "path2fd ?t n \<noteq> None \<longleftrightarrow> n \<in> dom (map_of (fhs t)) \<union> dom (map_of (ihs t))" for n
    proof
      assume "path2fd ?t n \<noteq> None"
      then have "n \<in> set (concat (map table_files ?tabs))" using O cl(2) by fastforce
      then show "n \<in> dom (map_of (fhs t)) \<union> dom (map_of (ihs t))" unfolding t(5,7) by (auto simp: table_files_def)
    next
      assume "n \<in> dom (map_of (fhs t)) \<union> dom (map_of (ihs t))"
      then show "path2fd ?t n \<noteq> None" using live_table(2)[OF t(2)] live_index(2)[OF t(2)] by auto
    qed
    then have "dom (path2fd ?t) = dom (map_of (fhs t)) \<union> dom (map_of (ihs t))" by blast
    then show ?thesis using names dist dot O t(5,7) cl(3,4) by (simp add: catalog_open_def Let_def)
  qed
  moreover have "content ?t = (\<lambda>n. if n \<in> fst ` set (dm_tabs d) then M n else Map.empty)"
    using C(2) t(3) c1 img by (simp add: fun_eq_iff)
  moreover have "dom (map_of (fhs ?t)) = fst ` set (dm_tabs d)" using t(5) cl(3) img by simp
  moreover have "\<forall>n fh. map_of (fhs ?t) n = Some fh \<longrightarrow> fh_hdr fh = H n"
  proof (intro allI impI)
    fix n fh
    assume a: "map_of (fhs ?t) n = Some fh"
    then have "n \<in> tm_name ` set ?tabs" using t(5) cl(3) by fastforce
    then show "fh_hdr fh = H n" using t(6) a by simp
  qed
  moreover have "\<forall>p ih. map_of (ihs ?t) p = Some ih \<longrightarrow> index_header ih = J p" using t(8) cl(4) by simp
  ultimately show ?thesis
    using that[OF r] t(2) C(1) O cl(3,4,7) by (simp add: sems_free_def)
qed

end
