(* ===== verification/SmRows.thy ===== *)
theory SmRows
  imports SmReopen
begin

text \<open>
  Tables of rows from creation on: \<open>create_table\<close> makes an empty one and leaves the others as
  they were, the statements on rows keep the catalog in step with the open files, and a table that
  is closed with its database and opened again has the rows it had.
\<close>

section \<open>Creation\<close>

definition col_info_ok :: "ColumnInfo \<Rightarrow> bool" where
  "col_info_ok c \<longleftrightarrow> 0 \<le> ci_len c \<and> key_size (ci_type c) (ci_len c) = nat (ci_len c)"

lemma make_columns_named:
  assumes mk: "make_columns name 0 infos = Inr (cols, sz)" and ok: "list_all col_info_ok infos"
    and names: "distinct (map ci_name infos)" "infos \<noteq> []"
  shows "cols_named name cols" "tiled 0 cols" "cols_end 0 cols = sz" "list_all (\<lambda>c. \<not> cm_index c) cols"
    "map cm_name cols = map ci_name infos" "map cm_type cols = map ci_type infos" "map cm_len cols = map ci_len infos"
    "sz = sum_list (map ci_len infos)"
proof -
  have "\<forall>c \<in> set infos. 0 \<le> ci_len c" using ok by (auto simp: list_all_iff col_info_ok_def)
  note L = make_columns_layout[OF mk _ this, simplified]
  then show "tiled 0 cols" "cols_end 0 cols = sz" "list_all (\<lambda>c. \<not> cm_index c) cols"
    "map cm_name cols = map ci_name infos" "map cm_type cols = map ci_type infos" "map cm_len cols = map ci_len infos"
    "sz = sum_list (map ci_len infos)" by (simp_all add: list_all_iff)
  have len: "length cols = length infos" using L by (metis length_map)
  have "col_sized (cols ! i)" if "i < length cols" for i
  proof -
    have "cm_type (cols ! i) = ci_type (infos ! i)" "cm_len (cols ! i) = ci_len (infos ! i)"
      using L that len by (metis nth_map)+
    moreover have "col_info_ok (infos ! i)" using ok that len by (simp add: list_all_length)
    ultimately show ?thesis using tiled_bounds[of 0 cols i] L that by (simp add: col_sized_def col_info_ok_def)
  qed
  then have "\<forall>c \<in> set cols. col_sized c" by (auto simp: in_set_conv_nth)
  moreover have "cols \<noteq> []" using len names(2) by auto
  ultimately show "cols_named name cols" using L names(1) by (simp add: cols_named_def)
qed

text \<open>Another table of the catalog, seen from a state with one more.\<close>

lemma row_table_keeps:
  assumes "row_table T s n tab" "db_open T t" "get_table (db t) n = get_table (db s) n"
    "map_of (fhs t) n = map_of (fhs s) n" "content t n = content s n"
  shows "row_table T t n tab" "table_rows t n cols = table_rows s n cols"
proof -
  have "map_of (dm_tabs (db t)) n = map_of (dm_tabs (db s)) n"
    using assms(3) by (auto simp: get_table_def split: option.splits)
  then show "row_table T t n tab"
    using assms by (simp add: row_table_def table_meta_def rows_stored_def table_size_def)
  show "table_rows t n cols = table_rows s n cols" using assms(5) by (simp add: table_rows_def fun_eq_iff)
qed

lemma writes_row_table:
  assumes "db_writes T s name M t" "n \<noteq> name" "row_table T s n tab"
  shows "row_table T t n tab" "table_rows t n cols = table_rows s n cols"
proof -
  have "db_open T t" "get_table (db t) n = get_table (db s) n" "map_of (fhs t) n = map_of (fhs s) n" "content t n = content s n"
    using assms(1,2) by (simp_all add: db_writes_def)
  from row_table_keeps[OF assms(3) this] show "row_table T t n tab" "table_rows t n cols = table_rows s n cols" .
qed

lemma create_table_rows:
  fixes s :: "'z sm_state_scheme"
  assumes live: "db_live T s" and sems: "sems_free s"
    and new: "\<not> is_table (db s) name" "\<not> sys_is_reg s name" "name \<noteq> []"
    and mk: "make_columns name 0 infos = Inr (cols, sz)" "1 \<le> sz" "sz \<le> RM_MAX_RECORD_SIZE"
    and ok: "list_all col_info_ok infos" "distinct (map ci_name infos)"
  obtains t fh where "create_table name infos s = (Inr (), t)" "db_live T t" "sems_free t"
    "row_table T t name \<lparr>tm_name = name, tm_cols = cols\<rparr>" "no_index \<lparr>tm_name = name, tm_cols = cols\<rparr>"
    "table_rows t name cols = Map.empty" "content t = content s"
    "db t = set_table name \<lparr>tm_name = name, tm_cols = cols\<rparr> (db s)" "ihs t = ihs s"
    "map_of (fhs t) = (map_of (fhs s))(name \<mapsto> fh)" "fh_hdr fh = new_file_header sz" "cwd t = cwd s" "dirs t = dirs s"
    "base_dir t = base_dir s" "current_db_name t = current_db_name s" "\<forall>n. n \<noteq> name \<longrightarrow> path2fd t n = path2fd s n"
    "open_fds t = (fh_fd fh, resolve s name) # open_fds s"
    "\<forall>f. f \<noteq> resolve s name \<longrightarrow> f \<notin> snd ` set (open_fds s) \<longrightarrow> files t f = files s f"
proof -
  have ne: "infos \<noteq> []" using mk by auto
  note N = make_columns_named[OF mk(1) ok ne]
  obtain t fh where t: "create_table name infos s = (Inr (), t)" "db_live T t" "sems_free t"
    "db t = set_table name \<lparr>tm_name = name, tm_cols = cols\<rparr> (db s)" "content t = content s" "content s name = Map.empty"
    "map_of (fhs t) = (map_of (fhs s))(name \<mapsto> fh)" "fh_hdr fh = new_file_header sz" "ihs t = ihs s" "cwd t = cwd s"
    "dirs t = dirs s" "base_dir t = base_dir s" "current_db_name t = current_db_name s" "fhs t = map_put name fh (fhs s)"
    "\<forall>n. n \<noteq> name \<longrightarrow> path2fd t n = path2fd s n" "open_fds t = (fh_fd fh, resolve s name) # open_fds s"
    "\<forall>f. f \<noteq> resolve s name \<longrightarrow> f \<notin> snd ` set (open_fds s) \<longrightarrow> files t f = files s f"
    by (rule create_table_run[OF live sems new(1,2) mk]) (rule that; assumption)
  let ?tab = "\<lparr>tm_name = name, tm_cols = cols\<rparr>"
  have "table_meta t name ?tab" using t(4,7) N(1) by (simp add: table_meta_def set_table_def)
  moreover have "nat (cols_end 0 cols) = table_size t name"
    using t(7,8) N(3) by (simp add: table_size_def new_file_header_def Let_def)
  ultimately have "row_table T t name ?tab"
    using t(2,5,6) N(2) new(3) by (simp add: row_table_def db_live_def rows_stored_def)
  moreover have "no_index ?tab" using N(4) by (simp add: no_index_def)
  moreover have "table_rows t name cols = Map.empty" using t(5,6) by (simp add: table_rows_def fun_eq_iff)
  ultimately show ?thesis using that t by blast
qed

section \<open>The catalog and the open files\<close>

lemma catalog_open_maps:
  assumes "map_sorted (dm_tabs (db s))"
  shows "catalog_open s \<longleftrightarrow> (\<forall>n tab. map_of (dm_tabs (db s)) n = Some tab \<longrightarrow> tm_name tab = n \<and> dotless n) \<and>
     dom (map_of (fhs s)) = dom (map_of (dm_tabs (db s))) \<and>
     dom (map_of (ihs s)) = {index_path (n, i) | n i. \<exists>tab. map_of (dm_tabs (db s)) n = Some tab \<and> i \<in> set (indexed tab)} \<and>
     dom (path2fd s) = dom (map_of (fhs s)) \<union> dom (map_of (ihs s))"
proof -
  let ?m = "dm_tabs (db s)"
  have mem: "(n, tab) \<in> set ?m \<longleftrightarrow> map_of ?m n = Some tab" for n tab
    using sorted_keys_distinct[OF assms] by (simp add: map_of_eq_Some_iff)
  have n1: "map fst ?m = map tm_name (map snd ?m) \<longleftrightarrow> (\<forall>n tab. map_of ?m n = Some tab \<longrightarrow> tm_name tab = n)"
    unfolding mem[symmetric] by (induction ?m) auto
  show ?thesis
  proof (cases "map fst ?m = map tm_name (map snd ?m)")
    case True
    have d: "tm_name ` snd ` set ?m = dom (map_of ?m)" using True by (metis dom_map_of_conv_image_fst list.set_map)
    have dot: "(\<forall>tab \<in> set (map snd ?m). dotless (tm_name tab)) \<longleftrightarrow> (\<forall>n tab. map_of ?m n = Some tab \<longrightarrow> dotless n)"
      using True n1 unfolding mem[symmetric] by fastforce
    have i: "(\<Union>tab \<in> set (map snd ?m). (\<lambda>i. index_path (tm_name tab, i)) ` set (indexed tab)) =
        {index_path (n, i) | n i. \<exists>tab. map_of ?m n = Some tab \<and> i \<in> set (indexed tab)}"
      using True n1 unfolding mem[symmetric] by fastforce
    have ds: "distinct (map tm_name (map snd ?m))" using True sorted_keys_distinct[OF assms] by metis
    show ?thesis unfolding catalog_open_def Let_def i dot using True n1 d ds by auto
  qed (use n1 in \<open>auto simp: catalog_open_def Let_def\<close>)
qed

lemma create_table_catalog:
  fixes s t :: "'z sm_state_scheme"
  assumes cat: "catalog_open s" "map_sorted (dm_tabs (db s))" and new: "\<not> is_table (db s) name" "dotless name"
    and tab: "no_index \<lparr>tm_name = name, tm_cols = cols\<rparr>" "db t = set_table name \<lparr>tm_name = name, tm_cols = cols\<rparr> (db s)"
    and t: "map_of (fhs t) = (map_of (fhs s))(name \<mapsto> fh)" "ihs t = ihs s" "db_live T t"
      "\<forall>n. n \<noteq> name \<longrightarrow> path2fd t n = path2fd s n"
  shows "catalog_open t" "map_sorted (dm_tabs (db t))"
proof -
  show srt: "map_sorted (dm_tabs (db t))" using cat(2) tab(2) by (simp add: set_table_def)
  have m: "map_of (dm_tabs (db t)) = (map_of (dm_tabs (db s)))(name \<mapsto> \<lparr>tm_name = name, tm_cols = cols\<rparr>)"
    by (simp add: tab(2) set_table_def)
  have no: "map_of (dm_tabs (db s)) name = None" using new(1) by (simp add: is_table_def)
  have idx: "indexed \<lparr>tm_name = name, tm_cols = cols\<rparr> = []"
    using tab(1) by (auto simp: indexed_def no_index_def list_all_length filter_empty_conv)
  have fd: "path2fd t name = Some (fh_fd fh)" using live_table(2)[OF t(3)] t(1) by simp
  have "path2fd t n \<noteq> None \<longleftrightarrow> n = name \<or> path2fd s n \<noteq> None" for n
    using fd t(4) by (cases "n = name") simp_all
  then have p: "dom (path2fd t) = insert name (dom (path2fd s))" unfolding dom_def by blast
  have same: "(\<exists>tab. map_of (dm_tabs (db t)) n = Some tab \<and> i \<in> set (indexed tab)) \<longleftrightarrow>
      (\<exists>tab. map_of (dm_tabs (db s)) n = Some tab \<and> i \<in> set (indexed tab))" for n i
    using idx no by (cases "n = name") (simp_all add: m)
  have i: "{index_path (n, i) | n i. \<exists>tab. map_of (dm_tabs (db t)) n = Some tab \<and> i \<in> set (indexed tab)} =
      {index_path (n, i) | n i. \<exists>tab. map_of (dm_tabs (db s)) n = Some tab \<and> i \<in> set (indexed tab)}"
    using same by simp
  show "catalog_open t"
    using cat(1) new(2) t(1,2) unfolding catalog_open_maps[OF srt] catalog_open_maps[OF cat(2)] i p by (auto simp: m)
qed

lemma writes_catalog:
  assumes "db_writes T s name M t" "catalog_open s"
  shows "catalog_open t"
proof -
  have "dom (map_of (fhs t)) = dom (map_of (fhs s))" using assms(1) by (intro table_fd_dom) (simp add: db_writes_def)
  then show ?thesis using assms by (simp add: catalog_open_def db_writes_def db_frame_def)
qed

lemma writes_sems: "db_writes T s name M t \<Longrightarrow> sems_free s \<Longrightarrow> sems_free t"
  by (simp add: db_writes_def db_frame_def sems_free_def)

section \<open>Closing and opening the database\<close>

lemma reopen_rows:
  fixes s :: "'z sm_state_scheme"
  assumes live: "db_live T s" and sems: "sems_free s" and cat: "catalog_open s" "db_ok (db s)"
    and base: "base_dir s \<noteq> []" "current_db_name s = nm" "nm \<noteq> []" "cwd s = base_dir s @ ''/databases/'' @ nm @ ''/''"
      "base_dir s @ ''/databases/'' @ nm \<in> set (dirs s)"
  obtains u t where "close_db s = (Inr (), u)" "fhs u = []" "ihs u = []" "path2fd u = Map.empty" "current_db_name u = []"
    "open_db nm u = (Inr (), t)" "db_live T t" "sems_free t" "catalog_open t" "db t = db s" "content t = content s"
    "current_db_name t = nm" "cwd t = cwd s" "dirs t = dirs s" "base_dir t = base_dir s"
    "\<And>n tab. row_table T s n tab \<Longrightarrow> row_table T t n tab"
proof -
  have cur: "current_db_name s \<noteq> []" using base by simp
  have here: "getcwd s \<in> set (dirs s)" using base(4,5) by (simp add: getcwd_def butlast_append)
  obtain u where u: "close_db s = (Inr (), u)"
    "db_closed (cwd s) (db s) (headers_of s) (content s) (ndx_headers_of s) T u" "dirs u = dirs s" "base_dir u = base_dir s"
    "cwd u = up_two (cwd s) @ ''/''"
    by (rule close_db_run[OF live sems cur cat(1) here]) (rule that; assumption)
  have srt: "map_sorted (dm_tabs (db s))" using cat(2) by (simp add: db_ok_def)
  note C = cat(1)[unfolded catalog_open_maps[OF srt]]
  have dot: "\<forall>(n, tab) \<in> set (dm_tabs (db s)). dotless n"
    unfolding sorted_entries[OF srt] using C by simp
  have b: "base_dir u \<noteq> []" "cwd s = base_dir u @ ''/databases/'' @ nm @ ''/''" "base_dir u @ ''/databases/'' @ nm \<in> set (dirs u)"
    using base u(3,4) by simp_all
  obtain t where t: "open_db nm u = (Inr (), t)" "db_live T t" "sems_free t" "db t = db s" "current_db_name t = nm"
    "cwd t = cwd s" "dirs t = dirs u" "base_dir t = base_dir u" "files t = files u"
    "content t = (\<lambda>n. if n \<in> fst ` set (dm_tabs (db s)) then content s n else Map.empty)"
    "dom (map_of (fhs t)) = fst ` set (dm_tabs (db s))" "\<forall>n fh. map_of (fhs t) n = Some fh \<longrightarrow> fh_hdr fh = headers_of s n"
    "\<forall>p ih. map_of (ihs t) p = Some ih \<longrightarrow> index_header ih = ndx_headers_of s p" "catalog_open t"
    by (rule open_db_run[OF u(2) b cat(2) dot]) (rule that; assumption)
  have keys: "dom (map_of (fhs s)) = fst ` set (dm_tabs (db s))" using C by (simp add: dom_map_of_conv_image_fst)
  have con: "content t = content s"
  proof
    fix n
    show "content t n = content s n"
    proof (cases "n \<in> fst ` set (dm_tabs (db s))")
      case False
      then have "map_of (fhs s) n = None" using keys by blast
      then have "content s n = Map.empty" by (simp add: content_def)
      then show ?thesis by (simp add: t(10))
    qed (simp add: t(10))
  qed
  have open_t: "map_of (fhs t) n \<noteq> None" if "map_of (fhs s) n \<noteq> None" for n
  proof -
    have "n \<in> dom (map_of (fhs t))" unfolding t(11) keys[symmetric] using that by (simp add: domIff)
    then show ?thesis by (simp add: domIff)
  qed
  have size: "table_size t n = table_size s n" if "map_of (fhs s) n \<noteq> None" for n
  proof -
    from open_t[OF that] obtain fh where "map_of (fhs t) n = Some fh" by blast
    then show ?thesis using t(12) by (simp add: table_size_def headers_of_def)
  qed
  have rt: "row_table T t n tab" if "row_table T s n tab" for n tab
  proof -
    have n: "map_of (fhs s) n \<noteq> None" using that by (simp add: row_table_def table_meta_def)
    from open_t[OF n] show ?thesis using that t(2,4) con size[OF n] by (simp add: row_table_def table_meta_def db_live_def rows_stored_def)
  qed
  show ?thesis using that[OF u(1) _ _ _ _ t(1-3) t(14,4) con t(5,6) _ _ rt] u(2-4) t(7,8) by (simp add: db_closed_def)
qed

end
