(* ===== verification/DbExamples.thy ===== *)
theory DbExamples
  imports SmRows Examples
begin

text \<open>
  A concrete database for the theorems on statements: the server with an open, empty database
  \<open>d\<close>, and the same after \<open>CREATE TABLE t (a INT, b CHAR(4))\<close> and one insertion.
\<close>

section \<open>An empty database\<close>

definition dbd :: string where
  "dbd = ''/r/databases/d''"

definition sm_boot :: "'z \<Rightarrow> 'z sm_state_scheme" where
  "sm_boot m = \<lparr>files = Map.empty, open_fds = [], other_fds = [0, 1, 2], cwd = dbd @ ''/'', pages = [],
     busy_map = Map.empty, busy_pages = [], free_pages = [], path2fd = Map.empty, fd2path = Map.empty,
     cache_sem = 1, fd_map_sem = 1, dirs = [''/r/databases'', dbd], base_dir = ''/r'', current_db_name = ''d'',
     db = \<lparr>dm_name = ''d'', dm_tabs = []\<rparr>, fhs = [], ihs = [], metadata_sem = 1, file_handles_sem = 1, index_handles_sem = 1, \<dots> = m\<rparr>"

definition sm_start :: "'z \<Rightarrow> 'z sm_state_scheme" where
  "sm_start m = PF_Pager_init 4 (sm_boot m)"

lemma sm_start_fields: "files (sm_start m) = Map.empty" "open_fds (sm_start m) = []" "path2fd (sm_start m) = Map.empty"
  "fd2path (sm_start m) = Map.empty" "fd_map_sem (sm_start m) = 1" "cwd (sm_start m) = dbd @ ''/''"
  "dirs (sm_start m) = [''/r/databases'', dbd]" "base_dir (sm_start m) = ''/r''" "current_db_name (sm_start m) = ''d''"
  "db (sm_start m) = \<lparr>dm_name = ''d'', dm_tabs = []\<rparr>" "fhs (sm_start m) = []" "ihs (sm_start m) = []"
  "metadata_sem (sm_start m) = 1" "file_handles_sem (sm_start m) = 1" "index_handles_sem (sm_start m) = 1"
  by (simp_all add: sm_start_def sm_boot_def PF_Pager_init_def)

definition no_trees :: "string \<Rightarrow> bt" where
  "no_trees n = Leaf 0 []"

lemma sm_start_live: "db_live no_trees (sm_start m)" "sems_free (sm_start m)" "catalog_open (sm_start m)"
proof -
  have "os_wf (sm_boot m)" "cache_sem (sm_boot m) = 1" by (simp_all add: sm_boot_def os_wf_def)
  then have "pf_wf (sm_start m)" using PF_Pager_init_wf(1)[of "sm_boot m" 4] by (simp add: sm_start_def)
  then have "pm_wf (sm_start m)" by (simp add: pm_wf_def sm_start_fields pm_maps_def fd_path_def)
  then show "db_live no_trees (sm_start m)" by (simp add: db_live_maps db_open_maps db_fds_def pm_wf_def sm_start_fields)
  show "sems_free (sm_start m)" by (simp add: sems_free_def sm_start_fields)
  show "catalog_open (sm_start m)" by (simp add: catalog_open_def sm_start_fields)
qed

lemma sm_start_fresh: "\<not> sys_is_reg (sm_start m) path" "\<not> is_table (db (sm_start m)) name"
  by (simp_all add: sys_is_reg_def sm_start_fields is_table_def)

section \<open>A table\<close>

definition ex_infos :: "ColumnInfo list" where
  "ex_infos = [\<lparr>ci_name = ''a'', ci_type = TYPE_INT, ci_len = 4\<rparr>, \<lparr>ci_name = ''b'', ci_type = TYPE_STRING, ci_len = 4\<rparr>]"

definition ex_cols :: "Column_Metadata list" where
  "ex_cols = [\<lparr>cm_tab_name = ''t'', cm_name = ''a'', cm_type = TYPE_INT, cm_len = 4, cm_offset = 0, cm_index = False\<rparr>,
     \<lparr>cm_tab_name = ''t'', cm_name = ''b'', cm_type = TYPE_STRING, cm_len = 4, cm_offset = 4, cm_index = False\<rparr>]"

lemma ex_make_columns: "make_columns ''t'' 0 ex_infos = Inr (ex_cols, 8)"
  by (simp add: ex_infos_def ex_cols_def int_ok_def INT_MAX_def INT_MIN_def)


definition ex_tab :: Table_Metadata where
  "ex_tab = \<lparr>tm_name = ''t'', tm_cols = ex_cols\<rparr>"

definition ex_db1 :: "'z \<Rightarrow> 'z sm_state_scheme" where
  "ex_db1 m = snd (create_table ''t'' ex_infos (sm_start m))"

lemma ex_infos_ok: "list_all col_info_ok ex_infos" "distinct (map ci_name ex_infos)"
  by (simp_all add: ex_infos_def col_info_ok_def key_size_def)

lemma ex_size: "(1::int) \<le> 8" "8 \<le> RM_MAX_RECORD_SIZE"
  by (simp_all add: RM_MAX_RECORD_SIZE_def)

lemma ex_db1_facts:
  "create_table ''t'' ex_infos (sm_start m) = (Inr (), (ex_db1 m))" "db_live no_trees (ex_db1 m)" "sems_free (ex_db1 m)" "catalog_open (ex_db1 m)"
  "row_table no_trees (ex_db1 m) ''t'' ex_tab" "no_index ex_tab" "table_rows (ex_db1 m) ''t'' ex_cols = Map.empty"
  "db (ex_db1 m) = \<lparr>dm_name = ''d'', dm_tabs = [(''t'', ex_tab)]\<rparr>" "rec_room 1000 (the (map_of (fhs (ex_db1 m)) ''t''))"
  "cwd (ex_db1 m) = dbd @ ''/''" "dirs (ex_db1 m) = [''/r/databases'', dbd]" "base_dir (ex_db1 m) = ''/r''" "current_db_name (ex_db1 m) = ''d''"
  "snd ` set (open_fds (ex_db1 m)) = {resolve (sm_start m) ''t''}" "\<forall>f. f \<noteq> resolve (sm_start m) ''t'' \<longrightarrow> files (ex_db1 m) f = None"
proof -
  have ne: "''t'' \<noteq> []" by simp
  obtain t fh where t: "create_table ''t'' ex_infos (sm_start m) = (Inr (), t)" "db_live no_trees t" "sems_free t"
    "row_table no_trees t ''t'' \<lparr>tm_name = ''t'', tm_cols = ex_cols\<rparr>" "no_index \<lparr>tm_name = ''t'', tm_cols = ex_cols\<rparr>"
    "table_rows t ''t'' ex_cols = Map.empty" "content t = content (sm_start m)"
    "db t = set_table ''t'' \<lparr>tm_name = ''t'', tm_cols = ex_cols\<rparr> (db (sm_start m))" "ihs t = ihs (sm_start m)"
    "map_of (fhs t) = (map_of (fhs (sm_start m)))(''t'' \<mapsto> fh)" "fh_hdr fh = new_file_header 8" "cwd t = cwd (sm_start m)"
    "dirs t = dirs (sm_start m)" "base_dir t = base_dir (sm_start m)" "current_db_name t = current_db_name (sm_start m)"
    "\<forall>n. n \<noteq> ''t'' \<longrightarrow> path2fd t n = path2fd (sm_start m) n"
    "open_fds t = (fh_fd fh, resolve (sm_start m) ''t'') # open_fds (sm_start m)"
    "\<forall>f. f \<noteq> resolve (sm_start m) ''t'' \<longrightarrow> f \<notin> snd ` set (open_fds (sm_start m)) \<longrightarrow> files t f = files (sm_start m) f"
    by (rule create_table_rows[OF sm_start_live(1,2) sm_start_fresh(2,1) ne ex_make_columns ex_size ex_infos_ok])
      (rule that; assumption)
  have e: "(ex_db1 m) = t" using t(1) by (simp add: ex_db1_def)
  have srt: "map_sorted (dm_tabs (db (sm_start m)))" by (simp add: sm_start_fields)
  have dot: "dotless ''t''" by (simp add: dotless_def)
  show "create_table ''t'' ex_infos (sm_start m) = (Inr (), (ex_db1 m))" "db_live no_trees (ex_db1 m)" "sems_free (ex_db1 m)"
    "row_table no_trees (ex_db1 m) ''t'' ex_tab" "no_index ex_tab" "table_rows (ex_db1 m) ''t'' ex_cols = Map.empty"
    "db (ex_db1 m) = \<lparr>dm_name = ''d'', dm_tabs = [(''t'', ex_tab)]\<rparr>" "rec_room 1000 (the (map_of (fhs (ex_db1 m)) ''t''))"
    "cwd (ex_db1 m) = dbd @ ''/''" "dirs (ex_db1 m) = [''/r/databases'', dbd]" "base_dir (ex_db1 m) = ''/r''" "current_db_name (ex_db1 m) = ''d''"
    "snd ` set (open_fds (ex_db1 m)) = {resolve (sm_start m) ''t''}" "\<forall>f. f \<noteq> resolve (sm_start m) ''t'' \<longrightarrow> files (ex_db1 m) f = None"
    using t by (simp_all add: e ex_tab_def sm_start_fields set_table_def rec_room_def new_file_header_def Let_def RM_FIRST_RECORD_PAGE_def)
  show "catalog_open (ex_db1 m)"
    using create_table_catalog(1)[OF sm_start_live(3) srt sm_start_fresh(2) dot t(5,8,10,9,2,16)] by (simp add: e)
qed

section \<open>A row\<close>

definition ex_vals :: "Value list" where
  "ex_vals = [fresh_value (IntVal 7), fresh_value (StrVal ''xy'')]"

definition ex_row :: "literal list" where
  "ex_row = [IntVal 7, StrVal ''xy'']"

definition ex_db2 :: "'z \<Rightarrow> 'z sm_state_scheme" where
  "ex_db2 m = snd (insert_into ''t'' ex_vals (ex_db1 m))"

lemma ex_vals_fit: "length ex_vals = length (tm_cols ex_tab)" "map v_lit ex_vals = ex_row"
  "\<forall>(col, v) \<in> set (zip (tm_cols ex_tab) ex_vals). value_fits col v \<and> storable (v_lit v)"
  by (simp_all add: ex_vals_def ex_row_def ex_tab_def ex_cols_def value_fits_def v_type_def fresh_value_def value_ok_def
      storable_def int_ok_def INT_MAX_def INT_MIN_def)

lemma ex_db2_facts:
  "insert_into ''t'' ex_vals (ex_db1 m) = (Inr \<lparr>ir_table = ''t'', ir_success = True, ir_message = ''1 row inserted''\<rparr>, (ex_db2 m))"
  "db_live no_trees (ex_db2 m)" "sems_free (ex_db2 m)" "catalog_open (ex_db2 m)" "row_table no_trees (ex_db2 m) ''t'' ex_tab"
  "\<exists>q. table_rows (ex_db2 m) ''t'' ex_cols = [q \<mapsto> ex_row]" "db (ex_db2 m) = \<lparr>dm_name = ''d'', dm_tabs = [(''t'', ex_tab)]\<rparr>"
  "cwd (ex_db2 m) = dbd @ ''/''" "dirs (ex_db2 m) = [''/r/databases'', dbd]" "base_dir (ex_db2 m) = ''/r''" "current_db_name (ex_db2 m) = ''d''"
  "\<forall>f. f \<noteq> resolve (sm_start m) ''t'' \<longrightarrow> files (ex_db2 m) f = None"
proof -
  have room: "rec_room (Suc 999) (the (map_of (fhs (ex_db1 m)) ''t''))" using ex_db1_facts(9) by simp
  obtain q t M where t: "insert_into ''t'' ex_vals (ex_db1 m) =
      (Inr \<lparr>ir_table = ''t'', ir_success = True, ir_message = ''1 row inserted''\<rparr>, t)"
    "row_table no_trees t ''t'' ex_tab" "table_rows t ''t'' (tm_cols ex_tab) =
      (table_rows (ex_db1 m) ''t'' (tm_cols ex_tab))(q \<mapsto> map v_lit ex_vals)" "db_writes no_trees (ex_db1 m) ''t'' M t"
    using insert_row[OF ex_db1_facts(5,6) ex_vals_fit(1,3) room] by blast
  have e: "(ex_db2 m) = t" using t(1) by (simp add: ex_db2_def)
  show "insert_into ''t'' ex_vals (ex_db1 m) = (Inr \<lparr>ir_table = ''t'', ir_success = True, ir_message = ''1 row inserted''\<rparr>, (ex_db2 m))"
    "row_table no_trees (ex_db2 m) ''t'' ex_tab" using t(1,2) by (simp_all add: e)
  show "db_live no_trees (ex_db2 m)" "sems_free (ex_db2 m)" "catalog_open (ex_db2 m)"
    using db_writes_live[OF ex_db1_facts(2) t(4)] writes_sems[OF t(4) ex_db1_facts(3)] writes_catalog[OF t(4) ex_db1_facts(4)]
    by (simp_all add: e)
  show "\<exists>q. table_rows (ex_db2 m) ''t'' ex_cols = [q \<mapsto> ex_row]"
    using t(3) ex_db1_facts(7)[of m] by (simp add: e ex_tab_def ex_vals_fit(2)) blast
  show "db (ex_db2 m) = \<lparr>dm_name = ''d'', dm_tabs = [(''t'', ex_tab)]\<rparr>"
    "cwd (ex_db2 m) = dbd @ ''/''" "dirs (ex_db2 m) = [''/r/databases'', dbd]" "base_dir (ex_db2 m) = ''/r''" "current_db_name (ex_db2 m) = ''d''"
  "\<forall>f. f \<noteq> resolve (sm_start m) ''t'' \<longrightarrow> files (ex_db2 m) f = None"
    using t(4) ex_db1_facts(8)[of m] ex_db1_facts(10-15)[of m] by (simp_all add: e db_writes_def db_frame_def)
qed

text \<open>\<open>WHERE a = 7\<close> and \<open>SET b = 'z'\<close>.\<close>

definition ex_cond :: Condition where
  "ex_cond = \<lparr>lhs_col = TabCol [] ''a'', cond_op = OP_EQ, is_rhs_val = True, rhs_col = TabCol [] [], rhs_val = fresh_value (IntVal 7)\<rparr>"

definition ex_set :: SetClause where
  "ex_set = \<lparr>set_lhs = TabCol [] ''b'', set_rhs = fresh_value (StrVal ''z'')\<rparr>"

lemma ex_cond_checks: "\<exists>cs. check_where_clause \<lparr>dm_name = ''d'', dm_tabs = [(''t'', ex_tab)]\<rparr> [''t''] [ex_cond] = Inr cs"
  by (simp add: check_where_clause_def get_table_def ex_tab_def ex_cols_def sum_then_def check_cond_def check_column_def
      find_column_def ex_cond_def init_raw_def fresh_value_def check_types_def v_type_def get_col_def Let_def)

lemma ex_cond_plain: "list_all (cond_plain ''t'' (tm_cols ex_tab)) [ex_cond]"
  by (simp add: ex_cond_def cond_plain_def ex_tab_def ex_cols_def own_column_def storable_def fresh_value_def int_ok_def
      INT_MAX_def INT_MIN_def)

lemma ex_set_checks: "\<exists>scs. map_sum_list (check_set_clause ex_tab) [ex_set] = Inr scs" "list_all set_plain [ex_set]"
  by (simp_all add: check_set_clause_def get_col_def ex_set_def ex_tab_def ex_cols_def sum_then_def init_raw_def fresh_value_def
      v_type_def Let_def set_plain_def storable_def)

lemma ex_where: "where_rows ex_cols [ex_cond] [q \<mapsto> ex_row] = {q}" "set_lits ex_cols [ex_set] ex_row = [IntVal 7, StrVal ''z'']"
  by (auto simp: where_rows_def cond_holds_def lit_of_def ex_cols_def ex_cond_def ex_row_def ex_set_def fresh_value_def int_cmp_def
      split: if_splits)

end
