(* ===== verification/StatementTheorems.thy ===== *)
theory StatementTheorems
  imports DbExamples
begin

text \<open>
  The properties of the statements on the open database, each with an instance on the database of
  \<open>DbExamples\<close>.
\<close>

section \<open>Tables and rows\<close>

text \<open>C25: creating a table of legal columns makes an empty table whose columns lie one behind the other
  in the record, opens its file, and leaves every other table and all semaphores as they were.\<close>

theorem create_table_empty:
  assumes "db_live T s" "sems_free s" "\<not> is_table (db s) name" "\<not> sys_is_reg s name" "name \<noteq> []"
    and "make_columns name 0 infos = Inr (cols, sz)" "1 \<le> sz" "sz \<le> RM_MAX_RECORD_SIZE"
    and "list_all col_info_ok infos" "distinct (map ci_name infos)"
  shows "\<exists>t. create_table name infos s = (Inr (), t) \<and> db_live T t \<and> sems_free t \<and>
    row_table T t name \<lparr>tm_name = name, tm_cols = cols\<rparr> \<and> table_rows t name cols = Map.empty \<and>
    sz = sum_list (map ci_len infos) \<and> map cm_name cols = map ci_name infos \<and>
    (\<forall>n tab. n \<noteq> name \<and> row_table T s n tab \<longrightarrow> row_table T t n tab \<and> table_rows t n (tm_cols tab) = table_rows s n (tm_cols tab))"
proof -
  have ne: "infos \<noteq> []" using assms by auto
  note N = make_columns_named[OF assms(6,9,10) ne]
  obtain t fh where t: "create_table name infos s = (Inr (), t)" "db_live T t" "sems_free t"
    "row_table T t name \<lparr>tm_name = name, tm_cols = cols\<rparr>" "no_index \<lparr>tm_name = name, tm_cols = cols\<rparr>"
    "table_rows t name cols = Map.empty" "content t = content s"
    "db t = set_table name \<lparr>tm_name = name, tm_cols = cols\<rparr> (db s)" "ihs t = ihs s"
    "map_of (fhs t) = (map_of (fhs s))(name \<mapsto> fh)" "fh_hdr fh = new_file_header sz" "cwd t = cwd s" "dirs t = dirs s"
    "base_dir t = base_dir s" "current_db_name t = current_db_name s" "\<forall>n. n \<noteq> name \<longrightarrow> path2fd t n = path2fd s n"
    by (rule create_table_rows[OF assms]) (rule that; assumption)
  have "row_table T t n tab \<and> table_rows t n (tm_cols tab) = table_rows s n (tm_cols tab)" if "n \<noteq> name" "row_table T s n tab" for n tab
  proof -
    have "db_open T t" "get_table (db t) n = get_table (db s) n" "map_of (fhs t) n = map_of (fhs s) n" "content t n = content s n"
      using that(1) t(2,7,8,10) by (simp_all add: db_live_def get_table_def set_table_def)
    from row_table_keeps[OF that(2) this] show ?thesis by blast
  qed
  then show ?thesis using t(1-4,6) N(5,8) by blast
qed

theorem create_table_empty_witness:
  "\<exists>t. create_table ''t'' ex_infos (sm_start ()) = (Inr (), t) \<and> row_table no_trees t ''t'' \<lparr>tm_name = ''t'', tm_cols = ex_cols\<rparr> \<and>
    table_rows t ''t'' ex_cols = Map.empty"
proof -
  have "''t'' \<noteq> []" by simp
  then show ?thesis
    using create_table_empty[OF sm_start_live(1,2)[where m = "()"] sm_start_fresh(2,1)[where m = "()"] _ ex_make_columns ex_size ex_infos_ok] by blast
qed

text \<open>C9: \<open>INSERT\<close> into a table without indexes, with values of the columns' types, adds exactly the row of these values under an unused
  record id; no other row of any table changes and the database stays consistent.\<close>

theorem insert_adds_row:
  assumes "row_table T s name tab" "no_index tab" "length vals = length (tm_cols tab)"
    and "\<forall>(col, v) \<in> set (zip (tm_cols tab) vals). value_fits col v \<and> storable (v_lit v)"
    and "rec_room (Suc k) (the (map_of (fhs s) name))"
  shows "\<exists>q t. insert_into name vals s = (Inr \<lparr>ir_table = name, ir_success = True, ir_message = ''1 row inserted''\<rparr>, t) \<and>
    table_rows s name (tm_cols tab) q = None \<and> row_table T t name tab \<and>
    table_rows t name (tm_cols tab) = (table_rows s name (tm_cols tab))(q \<mapsto> map v_lit vals) \<and>
    (\<forall>n. n \<noteq> name \<longrightarrow> content t n = content s n) \<and> (db_live T s \<longrightarrow> db_live T t) \<and> (catalog_open s \<longrightarrow> catalog_open t)"
proof -
  obtain q t M where t: "insert_into name vals s = (Inr \<lparr>ir_table = name, ir_success = True, ir_message = ''1 row inserted''\<rparr>, t)"
    "table_rows s name (tm_cols tab) q = None" "row_table T t name tab"
    "table_rows t name (tm_cols tab) = (table_rows s name (tm_cols tab))(q \<mapsto> map v_lit vals)"
    "\<forall>n. n \<noteq> name \<longrightarrow> content t n = content s n" "db_writes T s name M t"
    using insert_row[OF assms] by blast
  then show ?thesis using db_writes_live[OF _ t(6)] writes_catalog[OF t(6)] by blast
qed

theorem insert_adds_row_witness:
  "\<exists>q t. insert_into ''t'' ex_vals (ex_db1 ()) = (Inr \<lparr>ir_table = ''t'', ir_success = True, ir_message = ''1 row inserted''\<rparr>, t) \<and>
    table_rows t ''t'' ex_cols = [q \<mapsto> ex_row]"
proof -
  have "rec_room (Suc 999) (the (map_of (fhs (ex_db1 ())) ''t''))" using ex_db1_facts(9)[where m = "()"] by simp
  then obtain q t where "insert_into ''t'' ex_vals (ex_db1 ()) = (Inr \<lparr>ir_table = ''t'', ir_success = True, ir_message = ''1 row inserted''\<rparr>, t)"
    "table_rows t ''t'' (tm_cols ex_tab) = (table_rows (ex_db1 ()) ''t'' (tm_cols ex_tab))(q \<mapsto> map v_lit ex_vals)"
    using insert_adds_row[OF ex_db1_facts(5)[where m = "()"] ex_db1_facts(6) ex_vals_fit(1,3)] by blast
  then show ?thesis using ex_db1_facts(7)[where m = "()"] ex_vals_fit(2) by (auto simp: ex_tab_def)
qed

text \<open>C6: \<open>DELETE\<close> on a table without indexes removes exactly the rows on which the where clause holds, reports their number, and ends
  whenever the bound on the loop exceeds the number of rows.\<close>

theorem delete_removes_matching:
  assumes "row_table T s name tab" "no_index tab"
    and "check_where_clause (db s) [name] conds = Inr conds'" "list_all (cond_plain name (tm_cols tab)) conds"
    and "card (dom (table_rows s name (tm_cols tab))) + 1 < fuel"
  shows "\<exists>t res. delete_from fuel name conds s = (Inr res, t) \<and>
    affected_rows res = card (where_rows (tm_cols tab) conds (table_rows s name (tm_cols tab))) \<and> row_table T t name tab \<and>
    table_rows t name (tm_cols tab) =
      table_rows s name (tm_cols tab) |` (- where_rows (tm_cols tab) conds (table_rows s name (tm_cols tab))) \<and>
    (\<forall>n. n \<noteq> name \<longrightarrow> content t n = content s n)"
  using delete_rows[OF assms] by blast

theorem delete_removes_matching_witness:
  "\<exists>t res. delete_from 3 ''t'' [ex_cond] (ex_db2 ()) = (Inr res, t) \<and> affected_rows res = 1 \<and> table_rows t ''t'' ex_cols = Map.empty"
proof -
  obtain q where q: "table_rows (ex_db2 ()) ''t'' (tm_cols ex_tab) = [q \<mapsto> ex_row]" using ex_db2_facts(6)[where m = "()"] by (auto simp: ex_tab_def)
  obtain cs where cs: "check_where_clause (db (ex_db2 ())) [''t''] [ex_cond] = Inr cs" using ex_cond_checks by (auto simp: ex_db2_facts(7)[where m = "()"])
  have "card (dom (table_rows (ex_db2 ()) ''t'' (tm_cols ex_tab))) + 1 < 3" unfolding q by simp
  from delete_removes_matching[OF ex_db2_facts(5)[where m = "()"] ex_db1_facts(6) cs ex_cond_plain this, unfolded q]
  show ?thesis using ex_where(1) by (auto simp: ex_tab_def)
qed

text \<open>C7: \<open>UPDATE\<close> on a table without indexes replaces the values of the set clauses in exactly the rows on which the where clause
  holds, and reports their number.\<close>

theorem update_changes_matching:
  assumes "row_table T s name tab" "no_index tab"
    and "check_where_clause (db s) [name] conds = Inr conds'" "list_all (cond_plain name (tm_cols tab)) conds"
    and "map_sum_list (check_set_clause tab) scs = Inr scs'" "list_all set_plain scs"
    and "card (dom (table_rows s name (tm_cols tab))) + 1 < fuel"
  shows "\<exists>t res. update_set fuel name scs conds s = (Inr res, t) \<and>
    affected_rows res = card (where_rows (tm_cols tab) conds (table_rows s name (tm_cols tab))) \<and> row_table T t name tab \<and>
    table_rows t name (tm_cols tab) = (\<lambda>q. if q \<in> where_rows (tm_cols tab) conds (table_rows s name (tm_cols tab))
       then map_option (set_lits (tm_cols tab) scs) (table_rows s name (tm_cols tab) q) else table_rows s name (tm_cols tab) q) \<and>
    (\<forall>n. n \<noteq> name \<longrightarrow> content t n = content s n)"
  using update_rows[OF assms] by blast

theorem update_changes_matching_witness:
  "\<exists>t res q. update_set 3 ''t'' [ex_set] [ex_cond] (ex_db2 ()) = (Inr res, t) \<and> affected_rows res = 1 \<and>
    table_rows t ''t'' ex_cols = [q \<mapsto> [IntVal 7, StrVal ''z'']]"
proof -
  obtain q where q: "table_rows (ex_db2 ()) ''t'' (tm_cols ex_tab) = [q \<mapsto> ex_row]" using ex_db2_facts(6)[where m = "()"] by (auto simp: ex_tab_def)
  obtain cs where cs: "check_where_clause (db (ex_db2 ())) [''t''] [ex_cond] = Inr cs" using ex_cond_checks by (auto simp: ex_db2_facts(7)[where m = "()"])
  obtain scs where scs: "map_sum_list (check_set_clause ex_tab) [ex_set] = Inr scs" using ex_set_checks(1) by blast
  have "card (dom (table_rows (ex_db2 ()) ''t'' (tm_cols ex_tab))) + 1 < 3" unfolding q by simp
  note this' = this
  have c: "tm_cols ex_tab = ex_cols" by (simp add: ex_tab_def)
  from update_changes_matching[OF ex_db2_facts(5)[where m = "()"] ex_db1_facts(6) cs ex_cond_plain scs ex_set_checks(2) this', unfolded q]
  obtain t res where "update_set 3 ''t'' [ex_set] [ex_cond] (ex_db2 ()) = (Inr res, t)" "affected_rows res = 1"
    "table_rows t ''t'' ex_cols = (\<lambda>r. if r \<in> {q} then map_option (set_lits ex_cols [ex_set]) ([q \<mapsto> ex_row] r) else [q \<mapsto> ex_row] r)"
    unfolding c ex_where(1) by auto
  moreover from this(3) have "table_rows t ''t'' ex_cols = [q \<mapsto> [IntVal 7, StrVal ''z'']]"
    using ex_where(2) by (auto simp: fun_eq_iff)
  ultimately show ?thesis by blast
qed

section \<open>The life of a database\<close>

text \<open>C8: closing a consistent database and opening it again restores the catalog and every record of every
  table, with all files closed in between; the database is consistent again, so this can be repeated.\<close>

theorem close_open_database:
  assumes "db_live T s" "sems_free s" "catalog_open s" "db_ok (db s)"
    and "base_dir s \<noteq> []" "current_db_name s = nm" "nm \<noteq> []" "cwd s = base_dir s @ ''/databases/'' @ nm @ ''/''"
    and "base_dir s @ ''/databases/'' @ nm \<in> set (dirs s)"
  shows "\<exists>u t. close_db s = (Inr (), u) \<and> fhs u = [] \<and> ihs u = [] \<and> path2fd u = Map.empty \<and> current_db_name u = [] \<and>
    open_db nm u = (Inr (), t) \<and> db t = db s \<and> content t = content s \<and> current_db_name t = nm \<and>
    db_live T t \<and> sems_free t \<and> catalog_open t \<and> (\<forall>n tab. row_table T s n tab \<longrightarrow> row_table T t n tab)"
  by (rule reopen_rows[OF assms]) blast

theorem close_open_database_witness:
  "\<exists>u t q. close_db (ex_db2 ()) = (Inr (), u) \<and> open_db ''d'' u = (Inr (), t) \<and> table_rows t ''t'' ex_cols = [q \<mapsto> ex_row]"
proof -
  have ok: "db_ok (db (ex_db2 ()))"
    by (simp add: ex_db2_facts(7)[where m = "()"] ex_tab_def ex_cols_def db_ok_def table_ok_def word_ok_def column_ok_def int_ok_def INT_MAX_def
        INT_MIN_def is_space_def)
  have "base_dir (ex_db2 ()) \<noteq> []" "current_db_name (ex_db2 ()) = ''d''" "''d'' \<noteq> []"
    "cwd (ex_db2 ()) = base_dir (ex_db2 ()) @ ''/databases/'' @ ''d'' @ ''/''" "base_dir (ex_db2 ()) @ ''/databases/'' @ ''d'' \<in> set (dirs (ex_db2 ()))"
    by (simp_all add: ex_db2_facts(8-11)[where m = "()"] dbd_def)
  from close_open_database[OF ex_db2_facts(2-4)[where m = "()"] ok this] obtain u t where "close_db (ex_db2 ()) = (Inr (), u)"
    "open_db ''d'' u = (Inr (), t)" "content t = content (ex_db2 ())" by blast
  then show ?thesis using ex_db2_facts(6)[where m = "()"] by (auto simp: table_rows_def fun_eq_iff)
qed

text \<open>C26: what the catalog's output operator prints, its input operator reads back to the same catalog, for
  any catalog whose names are words and whose numbers fit their types, whatever follows in the file.\<close>

theorem catalog_text:
  assumes "db_ok d" "dm_tabs old = []"
  shows "\<exists>q. read_db old (print_db d @ r) = Some (d, q) \<and> skip_ws q = skip_ws r"
  by (rule read_print_db[OF assms])

theorem catalog_text_witness:
  "\<exists>q. read_db \<lparr>dm_name = [], dm_tabs = []\<rparr> (print_db \<lparr>dm_name = ''d'', dm_tabs = [(''t'', ex_tab)]\<rparr> @ []) =
     Some (\<lparr>dm_name = ''d'', dm_tabs = [(''t'', ex_tab)]\<rparr>, q)"
proof -
  have "db_ok \<lparr>dm_name = ''d'', dm_tabs = [(''t'', ex_tab)]\<rparr>"
    by (simp add: ex_tab_def ex_cols_def db_ok_def table_ok_def word_ok_def column_ok_def int_ok_def INT_MAX_def
        INT_MIN_def is_space_def)
  from catalog_text[OF this, of "\<lparr>dm_name = [], dm_tabs = []\<rparr>" "[]"] show ?thesis by auto
qed

section \<open>Errors that keep a lock\<close>

text \<open>C27: \<open>create_table\<close> with a record that is empty or too long throws while it holds \<open>metadata_sem\<close>: from
  then on the creation and removal of tables and indexes and the closing of the database, the operations that
  begin by taking this semaphore, wait for ever. Those that read the catalog without it, as \<open>SHOW TABLES\<close> and
  \<open>DESC\<close>, still answer.\<close>

theorem create_table_keeps_lock:
  assumes "metadata_sem s = 1" "\<not> is_table (db s) name" "make_columns name 0 infos = Inr (cols, sz)"
    and "sz < 1 \<or> RM_MAX_RECORD_SIZE < sz"
  shows "\<exists>t. create_table name infos s = (Inl (Throw (InvalidRecordSizeError sz)), t) \<and> t = s\<lparr>metadata_sem := 0\<rparr> \<and>
    (\<forall>n is. create_table n is t = (Inl Blocked, t)) \<and> (\<forall>n. drop_table n t = (Inl Blocked, t)) \<and>
    (\<forall>n c. sm_create_index n c t = (Inl Blocked, t)) \<and> (\<forall>n c. drop_index n c t = (Inl Blocked, t)) \<and>
    close_db t = (Inl Blocked, t) \<and>
    fst (show_tables t) = fst (show_tables s) \<and> (\<forall>n. fst (desc_table n t) = fst (desc_table n s))"
proof -
  let ?t = "s\<lparr>metadata_sem := 0\<rparr>"
  have b: "metadata_sem ?t = 0" by simp
  have "create_table name infos s = (Inl (Throw (InvalidRecordSizeError sz)), ?t)"
    using assms by (auto simp: create_table_def RM_create_file_def ensure_def)
  then show ?thesis
    by (simp add: create_table_def drop_table_def sm_create_index_def drop_index_def close_db_def sem_blocked(1)[OF b]
        show_tables_def desc_table_def from_sum_def andThen_def split: sum.splits)
qed

theorem create_table_keeps_lock_witness:
  "\<exists>t. create_table ''u'' [\<lparr>ci_name = ''a'', ci_type = TYPE_STRING, ci_len = 600\<rparr>] (sm_start ()) =
     (Inl (Throw (InvalidRecordSizeError 600)), t) \<and> close_db t = (Inl Blocked, t)"
proof -
  have "make_columns ''u'' 0 [\<lparr>ci_name = ''a'', ci_type = TYPE_STRING, ci_len = 600\<rparr>] =
      Inr ([\<lparr>cm_tab_name = ''u'', cm_name = ''a'', cm_type = TYPE_STRING, cm_len = 600, cm_offset = 0, cm_index = False\<rparr>], 600)"
    by (simp add: int_ok_def INT_MAX_def INT_MIN_def)
  moreover have "(600::int) < 1 \<or> RM_MAX_RECORD_SIZE < 600" by (simp add: RM_MAX_RECORD_SIZE_def)
  ultimately show ?thesis
    using create_table_keeps_lock[OF sm_start_fields(13)[where m = "()"] sm_start_fresh(2)[where m = "()"]] by blast
qed

text \<open>C30: \<open>drop_index\<close> on a table that does not exist enters a nameless table in the catalog under the
  table's name, throws, and keeps \<open>metadata_sem\<close>.\<close>

theorem drop_index_phantom:
  assumes "metadata_sem s = 1" "\<not> is_table (db s) name"
  shows "\<exists>t. drop_index name col s = (Inl (Throw (ColumnNotFoundError col)), t) \<and> is_table (db t) name \<and> metadata_sem t = 0 \<and>
    get_table (db t) name = Inr \<lparr>tm_name = [], tm_cols = []\<rparr> \<and> fst (show_tables t) \<noteq> fst (show_tables s) \<and>
    (\<forall>n is. create_table n is t = (Inl Blocked, t))"
proof -
  let ?t = "s\<lparr>metadata_sem := 0, db := set_table name \<lparr>tm_name = [], tm_cols = []\<rparr> (db s)\<rparr>"
  have run: "drop_index name col s = (Inl (Throw (ColumnNotFoundError col)), ?t)"
    using assms by (simp add: drop_index_def upd_db_def touch_table_def set_table_def get_table_def get_col_def from_sum_def)
  have "length (map_put name v m) = Suc (length m)" if "map_of m name = None" for m :: "(string \<times> Table_Metadata) list" and v
    using that by (induction m rule: map_put.induct) (auto split: if_splits)
  then have "length (dm_tabs (db ?t)) \<noteq> length (dm_tabs (db s))" using assms(2) by (simp add: set_table_def is_table_def)
  then have shown: "fst (show_tables ?t) \<noteq> fst (show_tables s)" by (auto simp: show_tables_def dest!: arg_cong[where f = length])
  have m: "metadata_sem ?t = 0" by simp
  have blk: "create_table n is ?t = (Inl Blocked, ?t)" for n "is"
    by (simp add: create_table_def sem_blocked(1)[of ?t])
  have g: "is_table (db ?t) name" "get_table (db ?t) name = Inr \<lparr>tm_name = [], tm_cols = []\<rparr>"
    by (simp_all add: is_table_def get_table_def set_table_def)
  show ?thesis by (intro exI[of _ ?t] conjI allI run m g shown blk)
qed

theorem drop_index_phantom_witness:
  "\<exists>t. drop_index ''u'' ''a'' (sm_start ()) = (Inl (Throw (ColumnNotFoundError ''a'')), t) \<and> is_table (db t) ''u''"
  using drop_index_phantom[OF sm_start_fields(13)[where m = "()"] sm_start_fresh(2)[where m = "()"]] by blast

end
