(* ===== verification/Semaphores.thy ===== *)
theory Semaphores
  imports SmManager
begin

text \<open>
  \<open>concurrency.{h,cpp}\<close>: the five named semaphores. They live in the kernel, here a map from names
  to values, and outlast the server unless it removes them. \<open>ok\<close> says which \<open>sem_open\<close> succeed; the
  first that fails ends the program with \<open>exit(1)\<close>.
\<close>

definition sem_names :: "string list" where
  "sem_names = [''/db_cache_sem'', ''/db_fd_map_sem'', ''/db_metadata_sem'', ''/db_fh_sem'', ''/db_ih_sem'']"

text \<open>\<open>sem_open(name, O_CREAT, 0644, 1)\<close>: the value counts only if the semaphore is new.\<close>

definition sem_open :: "string \<Rightarrow> (string \<rightharpoonup> nat) \<Rightarrow> (string \<rightharpoonup> nat)" where
  "sem_open name K = (case K name of None \<Rightarrow> K(name \<mapsto> 1) | Some _ \<Rightarrow> K)"

fun open_all :: "(string \<Rightarrow> bool) \<Rightarrow> string list \<Rightarrow> (string \<rightharpoonup> nat) \<Rightarrow> (string \<rightharpoonup> nat) option" where
  "open_all ok [] K = Some K"
| "open_all ok (n # ns) K = (if ok n then open_all ok ns (sem_open n K) else None)"

definition setup_db_semaphores :: "(string \<Rightarrow> bool) \<Rightarrow> (string \<rightharpoonup> nat) \<Rightarrow> (string \<rightharpoonup> nat) option" where
  "setup_db_semaphores ok K = open_all ok sem_names K"

text \<open>\<open>sem_close\<close> and \<open>sem_unlink\<close> of each, by the signal handler.\<close>

definition cleanup_db_semaphores :: "(string \<rightharpoonup> nat) \<Rightarrow> (string \<rightharpoonup> nat)" where
  "cleanup_db_semaphores K = fold (\<lambda>n K. K(n := None)) sem_names K"

text \<open>The counters of the state are those of the semaphores the server has opened.\<close>

definition attach :: "(string \<rightharpoonup> nat) \<Rightarrow> 'z sm_state_scheme \<Rightarrow> 'z sm_state_scheme" where
  "attach K s = s\<lparr>cache_sem := the (K ''/db_cache_sem''), fd_map_sem := the (K ''/db_fd_map_sem''),
     metadata_sem := the (K ''/db_metadata_sem''), file_handles_sem := the (K ''/db_fh_sem''),
     index_handles_sem := the (K ''/db_ih_sem'')\<rparr>"

definition detach :: "'z sm_state_scheme \<Rightarrow> (string \<rightharpoonup> nat) \<Rightarrow> (string \<rightharpoonup> nat)" where
  "detach s K = K(''/db_cache_sem'' \<mapsto> cache_sem s, ''/db_fd_map_sem'' \<mapsto> fd_map_sem s,
     ''/db_metadata_sem'' \<mapsto> metadata_sem s, ''/db_fh_sem'' \<mapsto> file_handles_sem s, ''/db_ih_sem'' \<mapsto> index_handles_sem s)"

lemma open_all_found:
  assumes "\<forall>n \<in> set ns. ok n"
  shows "open_all ok ns K = Some (\<lambda>n. if n \<in> set ns \<and> K n = None then Some 1 else K n)"
  using assms by (induction ns arbitrary: K) (auto simp: sem_open_def fun_eq_iff split: option.splits)

lemma setup_run:
  assumes "\<forall>n \<in> set sem_names. ok n"
  obtains K' where "setup_db_semaphores ok K = Some K'" "\<And>n. n \<in> set sem_names \<Longrightarrow> K' n = Some (case K n of None \<Rightarrow> 1 | Some v \<Rightarrow> v)"
  using open_all_found[OF assms, of K] that by (auto simp: setup_db_semaphores_def split: option.splits)

end
