(* ===== verification/SqlAst.thy ===== *)
theory SqlAst
  imports QlManager
begin

text \<open>
  \<open>parser/ast.h\<close>: the classes of the syntax tree, one constructor per class; a pointer to a base
  class is a datatype of its subclasses. \<open>parser/ast_printer.h\<close>: the tree printer. The grammar and
  the lexer are flex and bison input, and what they generate is not part of the sources: \<open>yyparse\<close>
  is a parameter of \<open>parse_sql\<close>, a function of the text. (The generated lexer has a state of its own,
  which a comment without end leaves changed for the next text; the parameter has none.)
\<close>

section \<open>ast.h\<close>

datatype SvType = SV_TYPE_INT | SV_TYPE_FLOAT | SV_TYPE_STRING | SV_TYPE_DATETIME

datatype SvCompOp = SV_OP_EQ | SV_OP_NE | SV_OP_LT | SV_OP_GT | SV_OP_LE | SV_OP_GE

datatype TypeLen = TypeLen (tl_type: SvType) (tl_len: int)

text \<open>\<open>OtherField\<close>, \<open>OtherValue\<close> and \<open>OtherExpr\<close> are objects of the base classes themselves.\<close>

datatype Field = ColDef string TypeLen | OtherField

datatype AstValue = IntLit int | FloatLit "byte list" | StringLit string | DateTimeLit DateTime | OtherValue

datatype Col = Col (col_tab: string) (col_col: string)

datatype Expr = ValueExpr AstValue | ColExpr Col | OtherExpr

datatype AstSetClause = AstSetClause (sc_col: string) (sc_val: AstValue)

datatype BinaryExpr = BinaryExpr (be_lhs: Col) (be_op: SvCompOp) (be_rhs: Expr)

datatype TreeNode =
    Help | ShowTables | ShowDatabases
  | CreateDatabase string | DropDatabase string | UseDatabase string
  | CreateTable string "Field list" | DropTable string | DescTable string
  | CreateIndex string string | DropIndex string string
  | InsertStmt string "AstValue list"
  | DeleteStmt string "BinaryExpr list"
  | UpdateStmt string "AstSetClause list" "BinaryExpr list"
  | SelectStmt "Col list" "string list" "BinaryExpr list"
  | FieldNode Field | TypeLenNode TypeLen | ExprNode Expr | SetClauseNode AstSetClause | BinaryExprNode BinaryExpr
  | NullNode

text \<open>
  The constructor of a literal from text, \<open>sscanf\<close> with \<open>%d-%d-%d %d:%d:%d\<close>: a number that is not
  read leaves its variable uninitialised. A \<open>%d\<close> skips blanks, a blank in the format any number of
  them, any other character must be there.
\<close>

definition scan_lit :: "char \<Rightarrow> string \<Rightarrow> string option" where
  "scan_lit c s = (case s of [] \<Rightarrow> None | d # r \<Rightarrow> if d = c then Some r else None)"

fun scan_ints :: "string list \<Rightarrow> string \<Rightarrow> (int list \<times> string) option" where
  "scan_ints [] s = Some ([], s)"
| "scan_ints (sep # seps) s =
     (case (if sep = '' '' then Some (skip_ws s) else if sep = [] then Some s else scan_lit (hd sep) s) of None \<Rightarrow> None
      | Some s1 \<Rightarrow> (case extract_int s1 of None \<Rightarrow> None
        | Some (i, s2) \<Rightarrow> (case scan_ints seps s2 of None \<Rightarrow> None | Some (is, r) \<Rightarrow> Some (i # is, r))))"

definition DateTimeLit_text :: "string \<Rightarrow> stop + AstValue" where
  "DateTimeLit_text str_val = (case scan_ints [[], ''-'', ''-'', '' '', '':'', '':''] str_val of
     Some ([y, m, d, h, mi, se], _) \<Rightarrow>
       Inr (DateTimeLit \<lparr>day = d, month = m, year = y, hour = h, minute = mi, second = se\<rparr>)
   | _ \<Rightarrow> Inl Undefined)"

section \<open>Printing numbers\<close>

text \<open>
  \<open>oss << f\<close> for a \<open>float\<close>: \<open>%g\<close> with six significant digits. A positive value is the fraction
  \<open>num / den\<close>; \<open>X\<close> is the decimal exponent of its first digit.
\<close>

definition strip_zeros :: "string \<Rightarrow> string" where
  "strip_zeros s = (let t = rev (dropWhile (\<lambda>c. c = CHR ''0'') (rev s)) in if t \<noteq> [] \<and> last t = CHR ''.'' then butlast t else t)"

definition decimal_exponent :: "nat \<Rightarrow> nat \<Rightarrow> int" where
  "decimal_exponent num den = (if den \<le> num then int (length (nat_to_string (num div den))) - 1
     else - int (hd (filter (\<lambda>k. den \<le> num * 10 ^ k) [0..<60])))"

definition six_digits :: "nat \<Rightarrow> nat \<Rightarrow> nat \<times> int" where
  "six_digits num den = (let X = decimal_exponent num den;
       n = (if X \<le> 5 then round_div (num * 10 ^ nat (5 - X)) den else round_div num (den * 10 ^ nat (X - 5)))
     in if n = 1000000 then (100000, X + 1) else (n, X))"

definition general_text :: "nat \<Rightarrow> nat \<Rightarrow> string" where
  "general_text num den =
     (if num = 0 then ''0''
      else let (n, X) = six_digits num den; ds = nat_to_string n in
        if X < -4 \<or> 6 \<le> X
        then strip_zeros (take 1 ds @ ''.'' @ drop 1 ds) @ ''e'' @ (if X < 0 then ''-'' else ''+'') @
          (let e = nat_to_string (nat \<bar>X\<bar>) in if length e < 2 then CHR ''0'' # e else e)
        else if 0 \<le> X then strip_zeros (take (nat X + 1) ds @ ''.'' @ drop (nat X + 1) ds)
        else strip_zeros (''0.'' @ replicate (nat (- X - 1)) (CHR ''0'') @ ds))"

definition float_text :: "byte list \<Rightarrow> string" where
  "float_text b =
     (let w = nat (float_bits b); sign = (if 2147483648 \<le> w then ''-'' else []);
          e = (w div 8388608) mod 256; m = w mod 8388608;
          mant = (if e = 0 then m else m + 8388608); e1 = (if e = 0 then 1 else e)
      in if e = 255 then sign @ (if m = 0 then ''inf'' else ''nan'')
         else sign @ general_text (mant * 2 ^ (e1 - 150)) (2 ^ (150 - e1)))"

section \<open>ast_printer.h\<close>

definition offset2string :: "nat \<Rightarrow> string" where
  "offset2string offset = replicate offset (CHR '' '')"

definition print_val :: "string \<Rightarrow> nat \<Rightarrow> string" where
  "print_val txt offset = offset2string offset @ txt @ nl"

definition print_val_list :: "string list \<Rightarrow> nat \<Rightarrow> string" where
  "print_val_list vals offset = offset2string offset @ ''LIST'' @ nl @ concat (map (\<lambda>v. print_val v (offset + 2)) vals)"

fun type2str :: "SvType \<Rightarrow> string" where
  "type2str SV_TYPE_INT = ''INT''"
| "type2str SV_TYPE_FLOAT = ''FLOAT''"
| "type2str SV_TYPE_STRING = ''STRING''"
| "type2str SV_TYPE_DATETIME = ''DATETIME''"

fun op2str :: "SvCompOp \<Rightarrow> string" where
  "op2str SV_OP_EQ = ''==''"
| "op2str SV_OP_NE = ''!=''"
| "op2str SV_OP_LT = ''<''"
| "op2str SV_OP_GT = ''>''"
| "op2str SV_OP_LE = ''<=''"
| "op2str SV_OP_GE = ''>=''"

text \<open>The text of a list of nodes; a node of no known class stops the program.\<close>

definition print_nodes :: "('a \<Rightarrow> nat \<Rightarrow> stop + string) \<Rightarrow> 'a list \<Rightarrow> nat \<Rightarrow> stop + string" where
  "print_nodes print_one nodes offset =
     sum_then (map_sum_list (\<lambda>n. print_one n (offset + 2)) nodes) (\<lambda>txts.
     Inr (offset2string offset @ ''LIST'' @ nl @ concat txts))"

definition print_type_len :: "TypeLen \<Rightarrow> nat \<Rightarrow> string" where
  "print_type_len x offset = print_val ''TYPE_LEN'' offset @ print_val (type2str (tl_type x)) (offset + 2) @
     print_val (int_to_string (tl_len x)) (offset + 2)"

fun print_field :: "Field \<Rightarrow> nat \<Rightarrow> stop + string" where
  "print_field (ColDef col_name type_len) offset =
     Inr (print_val ''COL_DEF'' offset @ print_val col_name (offset + 2) @ print_type_len type_len (offset + 2))"
| "print_field OtherField offset = Inl AssertFail"

fun print_value :: "AstValue \<Rightarrow> nat \<Rightarrow> stop + string" where
  "print_value (IntLit i) offset = Inr (print_val ''INT_LIT'' offset @ print_val (int_to_string i) (offset + 2))"
| "print_value (FloatLit f) offset = Inr (print_val ''FLOAT_LIT'' offset @ print_val (float_text f) (offset + 2))"
| "print_value (StringLit w) offset = Inr (print_val ''STRING_LIT'' offset @ print_val w (offset + 2))"
| "print_value (DateTimeLit d) offset = Inr (print_val ''DATETIME_LIT'' offset @ print_val (DTtoString d) (offset + 2))"
| "print_value OtherValue offset = Inl AssertFail"

definition print_col :: "Col \<Rightarrow> nat \<Rightarrow> string" where
  "print_col c offset = print_val ''COL'' offset @ print_val (col_tab c) (offset + 2) @ print_val (col_col c) (offset + 2)"

fun print_expr :: "Expr \<Rightarrow> nat \<Rightarrow> stop + string" where
  "print_expr (ValueExpr v) offset = print_value v offset"
| "print_expr (ColExpr c) offset = Inr (print_col c offset)"
| "print_expr OtherExpr offset = Inl AssertFail"

fun print_set_clause :: "AstSetClause \<Rightarrow> nat \<Rightarrow> stop + string" where
  "print_set_clause (AstSetClause col_name val) offset =
     sum_then (print_value val (offset + 2)) (\<lambda>v.
     Inr (print_val ''SET_CLAUSE'' offset @ print_val col_name (offset + 2) @ v))"

fun print_binary :: "BinaryExpr \<Rightarrow> nat \<Rightarrow> stop + string" where
  "print_binary (BinaryExpr lhs op rhs) offset =
     sum_then (print_expr rhs (offset + 2)) (\<lambda>r.
     Inr (print_val ''BINARY_EXPR'' offset @ print_col lhs (offset + 2) @ print_val (op2str op) (offset + 2) @ r))"

fun print_node :: "TreeNode \<Rightarrow> nat \<Rightarrow> stop + string" where
  "print_node Help offset = Inr (print_val ''HELP'' offset)"
| "print_node ShowTables offset = Inr (print_val ''SHOW_TABLES'' offset)"
| "print_node ShowDatabases offset = Inr (print_val ''SHOW_DATABASES'' offset)"
| "print_node (CreateDatabase d) offset = Inr (print_val ''CREATE_DATABASE'' offset @ print_val d (offset + 2))"
| "print_node (DropDatabase d) offset = Inr (print_val ''DROP_DATABASE'' offset @ print_val d (offset + 2))"
| "print_node (UseDatabase d) offset = Inr (print_val ''USE_DATABASE'' offset @ print_val d (offset + 2))"
| "print_node (CreateTable t defs) offset =
     sum_then (print_nodes print_field defs (offset + 2)) (\<lambda>fs.
     Inr (print_val ''CREATE_TABLE'' offset @ print_val t (offset + 2) @ fs))"
| "print_node (DropTable t) offset = Inr (print_val ''DROP_TABLE'' offset @ print_val t (offset + 2))"
| "print_node (DescTable t) offset = Inr (print_val ''DESC_TABLE'' offset @ print_val t (offset + 2))"
| "print_node (CreateIndex t c) offset =
     Inr (print_val ''CREATE_INDEX'' offset @ print_val t (offset + 2) @ print_val c (offset + 2))"
| "print_node (DropIndex t c) offset =
     Inr (print_val ''DROP_INDEX'' offset @ print_val t (offset + 2) @ print_val c (offset + 2))"
| "print_node (FieldNode f) offset = print_field f offset"
| "print_node (TypeLenNode t) offset = Inr (print_type_len t offset)"
| "print_node (ExprNode e) offset = print_expr e offset"
| "print_node (SetClauseNode c) offset = print_set_clause c offset"
| "print_node (BinaryExprNode b) offset = print_binary b offset"
| "print_node (InsertStmt t vals) offset =
     sum_then (print_nodes print_value vals (offset + 2)) (\<lambda>vs.
     Inr (print_val ''INSERT'' offset @ print_val t (offset + 2) @ vs))"
| "print_node (DeleteStmt t conds) offset =
     sum_then (print_nodes print_binary conds (offset + 2)) (\<lambda>cs.
     Inr (print_val ''DELETE'' offset @ print_val t (offset + 2) @ cs))"
| "print_node (UpdateStmt t set_clauses conds) offset =
     sum_then (print_nodes print_set_clause set_clauses (offset + 2)) (\<lambda>ss.
     sum_then (print_nodes print_binary conds (offset + 2)) (\<lambda>cs.
     Inr (print_val ''UPDATE'' offset @ print_val t (offset + 2) @ ss @ cs)))"
| "print_node (SelectStmt cols tabs conds) offset =
     sum_then (print_nodes print_binary conds (offset + 2)) (\<lambda>cs.
     Inr (print_val ''SELECT'' offset @ offset2string (offset + 2) @ ''LIST'' @ nl @
       concat (map (\<lambda>c. print_col c (offset + 4)) cols) @ print_val_list tabs (offset + 2) @ cs))"
| "print_node NullNode offset = Inl AssertFail"

definition print_tree :: "TreeNode \<Rightarrow> stop + string" where
  "print_tree node = print_node node 0"

section \<open>parser_defs.h, ast.cpp\<close>

text \<open>
  The server's state with the global \<open>parse_tree\<close>. \<open>yyparse text\<close> is what a run of the generated
  parser assigns to it: nothing (\<open>None\<close>) when the text is no statement. The text ends at the first
  zero character. The result of \<open>yyparse()\<close> is not looked at.
\<close>

record server_state = sm_state +
  parse_tree :: TreeNode

type_synonym yyparse = "string \<Rightarrow> TreeNode option"

definition parse_sql :: "yyparse \<Rightarrow> string \<Rightarrow> ('z server_state_scheme, stop, TreeNode) prog" where
  "parse_sql yy sql =
     andThen (modify (\<lambda>s. case yy (takeWhile (\<lambda>c. c \<noteq> CHR 0x00) sql) of None \<Rightarrow> s | Some n \<Rightarrow> s\<lparr>parse_tree := n\<rparr>)) (\<lambda>_.
     gets parse_tree)"

end
