(* ===== verification/Interp.thy ===== *)
theory Interp
  imports SqlAst
begin

text \<open>
  \<open>interpreter_defs.h\<close>, \<open>interpreter.h\<close>: the result of a statement and \<open>interp_sql\<close>, which takes a
  syntax tree to the operation of the system or query manager. \<open>fuel\<close> bounds the loops of the
  queries.
\<close>

section \<open>Results (interpreter_defs.h)\<close>

datatype CommandType = CMD_HELP | CMD_SHOW_TABLES | CMD_SHOW_DATABASES | CMD_CREATE_DATABASE | CMD_DROP_DATABASE
  | CMD_USE_DATABASE | CMD_DESC_TABLE | CMD_CREATE_TABLE | CMD_DROP_TABLE | CMD_CREATE_INDEX | CMD_DROP_INDEX
  | CMD_INSERT | CMD_DELETE | CMD_UPDATE | CMD_SELECT

record DatabaseOperationResult =
  do_name :: string
  do_success :: bool
  do_message :: string

record DDLResult =
  ddl_type :: string
  ddl_name :: string
  ddl_success :: bool
  ddl_message :: string

datatype ResultData = NoData
  | HelpResult string
  | TablesData ShowTablesResult
  | DatabasesData "string list"
  | DatabaseOp DatabaseOperationResult
  | DescData DescTableResult
  | DDLData DDLResult
  | InsertData InsertResult
  | DeleteData AffectedResult
  | UpdateData AffectedResult
  | SelectData SelectResult

record InterpreterResult =
  command_type :: CommandType
  ir_ok :: bool
  error_message :: string
  res_data :: ResultData

definition interp_result :: "CommandType \<Rightarrow> bool \<Rightarrow> ResultData \<Rightarrow> InterpreterResult" where
  "interp_result c ok d = \<lparr>command_type = c, ir_ok = ok, error_message = [], res_data = d\<rparr>"

section \<open>Translation of the parts of a statement\<close>

fun interp_sv_type :: "SvType \<Rightarrow> ColumnType" where
  "interp_sv_type SV_TYPE_INT = TYPE_INT"
| "interp_sv_type SV_TYPE_FLOAT = TYPE_FLOAT"
| "interp_sv_type SV_TYPE_STRING = TYPE_STRING"
| "interp_sv_type SV_TYPE_DATETIME = TYPE_DATETIME"

fun interp_sv_comp_op :: "SvCompOp \<Rightarrow> CompOp" where
  "interp_sv_comp_op SV_OP_EQ = OP_EQ"
| "interp_sv_comp_op SV_OP_NE = OP_NE"
| "interp_sv_comp_op SV_OP_LT = OP_LT"
| "interp_sv_comp_op SV_OP_GT = OP_GT"
| "interp_sv_comp_op SV_OP_LE = OP_LE"
| "interp_sv_comp_op SV_OP_GE = OP_GE"

fun interp_sv_value :: "AstValue \<Rightarrow> stop + Value" where
  "interp_sv_value (IntLit i) = Inr (fresh_value (IntVal i))"
| "interp_sv_value (FloatLit f) = Inr (fresh_value (FloatVal f))"
| "interp_sv_value (StringLit w) = Inr (fresh_value (StrVal w))"
| "interp_sv_value (DateTimeLit d) = Inr (fresh_value (DateTimeVal d))"
| "interp_sv_value OtherValue = Inl (Throw (InternalError ''Unexpected sv value type''))"

text \<open>
  A condition whose right-hand side is neither a value nor a column keeps an uninitialised
  \<open>is_rhs_val\<close>, which the query manager then reads. The side that is not set (a default
  \<open>TabCol\<close>, an empty \<open>Value\<close>) is not read.
\<close>

fun interp_condition :: "BinaryExpr \<Rightarrow> stop + Condition" where
  "interp_condition (BinaryExpr lhs op rhs) =
     (let cond = \<lparr>lhs_col = TabCol (col_tab lhs) (col_col lhs), cond_op = interp_sv_comp_op op, is_rhs_val = False,
                   rhs_col = TabCol [] [], rhs_val = fresh_value (IntVal 0)\<rparr> in
      case rhs of
        ValueExpr v \<Rightarrow> sum_then (interp_sv_value v) (\<lambda>val. Inr (cond\<lparr>is_rhs_val := True, rhs_val := val\<rparr>))
      | ColExpr c \<Rightarrow> Inr (cond\<lparr>rhs_col := TabCol (col_tab c) (col_col c)\<rparr>)
      | OtherExpr \<Rightarrow> Inl Undefined)"

definition interp_where_clause :: "BinaryExpr list \<Rightarrow> stop + Condition list" where
  "interp_where_clause sv_conds = map_sum_list interp_condition sv_conds"

fun interp_field :: "Field \<Rightarrow> stop + ColumnInfo" where
  "interp_field (ColDef col_name type_len) =
     Inr \<lparr>ci_name = col_name, ci_type = interp_sv_type (tl_type type_len), ci_len = tl_len type_len\<rparr>"
| "interp_field OtherField = Inl (Throw (InternalError ''Unexpected field type''))"

definition interp_set_clause :: "AstSetClause \<Rightarrow> stop + SetClause" where
  "interp_set_clause sc = sum_then (interp_sv_value (sc_val sc)) (\<lambda>v. Inr \<lparr>set_lhs = TabCol [] (sc_col sc), set_rhs = v\<rparr>)"

section \<open>interp\_sql\<close>

definition help_text :: string where
  "help_text = concat (map (\<lambda>l. l @ nl) [
     ''Supported SQL syntax:'',
     ''  command ;'',
     ''command:'',
     ''  SHOW DATABASES'',
     ''  CREATE DATABASE database_name'',
     ''  DROP DATABASE database_name'',
     ''  USE database_name'',
     ''  SHOW TABLES'',
     ''  DESC table_name'',
     ''  CREATE TABLE table_name (column_name type [, column_name type ...])'',
     ''  DROP TABLE table_name'',
     ''  CREATE INDEX table_name (column_name)'',
     ''  DROP INDEX table_name (column_name)'',
     ''  INSERT INTO table_name VALUES (value [, value ...])'',
     ''  DELETE FROM table_name [WHERE where_clause]'',
     ''  UPDATE table_name SET column_name = value [, column_name = value ...] [WHERE where_clause]'',
     ''  SELECT selector FROM table_name [WHERE where_clause]'',
     ''type:'',
     ''  {INT | FLOAT | CHAR(n) | DATETIME}'',
     ''where_clause:'',
     ''  condition [AND condition ...]'',
     ''condition:'',
     ''  column op {column | value}'',
     ''column:'',
     ''  [table_name.]column_name'',
     ''op:'',
     ''  {= | <> | < | > | <= | >=}'',
     ''selector:'',
     ''  {* | column [, column ...]}''])"

definition database_op :: "CommandType \<Rightarrow> string \<Rightarrow> string \<Rightarrow> ('s, stop, unit) prog \<Rightarrow> ('s, stop, InterpreterResult) prog" where
  "database_op c db_name msg run = andThen run (\<lambda>_.
     ret (interp_result c True (DatabaseOp \<lparr>do_name = db_name, do_success = True, do_message = msg\<rparr>)))"

definition ddl_op :: "CommandType \<Rightarrow> string \<Rightarrow> string \<Rightarrow> string \<Rightarrow> ('s, stop, unit) prog \<Rightarrow> ('s, stop, InterpreterResult) prog" where
  "ddl_op c kind name msg run = andThen run (\<lambda>_.
     ret (interp_result c True (DDLData \<lparr>ddl_type = kind, ddl_name = name, ddl_success = True, ddl_message = msg\<rparr>)))"

fun interp_sql :: "nat \<Rightarrow> TreeNode \<Rightarrow> ('z, InterpreterResult) sm_prog" where
  "interp_sql fuel Help = ret (interp_result CMD_HELP True (HelpResult help_text))"
| "interp_sql fuel ShowTables = andThen show_tables (\<lambda>r. ret (interp_result CMD_SHOW_TABLES True (TablesData r)))"
| "interp_sql fuel ShowDatabases = andThen list_databases (\<lambda>dbs. ret (interp_result CMD_SHOW_DATABASES True (DatabasesData dbs)))"
| "interp_sql fuel (CreateDatabase d) = database_op CMD_CREATE_DATABASE d ''Database created successfully'' (create_db d)"
| "interp_sql fuel (DropDatabase d) = database_op CMD_DROP_DATABASE d ''Database dropped successfully'' (drop_db d)"
| "interp_sql fuel (UseDatabase d) = database_op CMD_USE_DATABASE d ''Switched to database'' (open_db d)"
| "interp_sql fuel (DescTable t) = andThen (desc_table t) (\<lambda>r. ret (interp_result CMD_DESC_TABLE True (DescData r)))"
| "interp_sql fuel (CreateTable t defs) =
     andThen (stopped (map_sum_list interp_field defs)) (\<lambda>col_defs.
     ddl_op CMD_CREATE_TABLE ''table'' t ''Table created successfully'' (create_table t col_defs))"
| "interp_sql fuel (DropTable t) = ddl_op CMD_DROP_TABLE ''table'' t ''Table dropped successfully'' (drop_table t)"
| "interp_sql fuel (CreateIndex t c) =
     ddl_op CMD_CREATE_INDEX ''index'' (t @ ''.'' @ c) ''Index created successfully'' (sm_create_index t c)"
| "interp_sql fuel (DropIndex t c) =
     ddl_op CMD_DROP_INDEX ''index'' (t @ ''.'' @ c) ''Index dropped successfully'' (drop_index t c)"
| "interp_sql fuel (InsertStmt t vals) =
     andThen (stopped (map_sum_list interp_sv_value vals)) (\<lambda>values.
     andThen (insert_into t values) (\<lambda>r.
     ret (interp_result CMD_INSERT (ir_success r) (InsertData r))))"
| "interp_sql fuel (DeleteStmt t conds) =
     andThen (stopped (interp_where_clause conds)) (\<lambda>conds.
     andThen (delete_from fuel t conds) (\<lambda>r.
     ret (interp_result CMD_DELETE (ar_success r) (DeleteData r))))"
| "interp_sql fuel (UpdateStmt t scs conds) =
     andThen (stopped (interp_where_clause conds)) (\<lambda>conds.
     andThen (stopped (map_sum_list interp_set_clause scs)) (\<lambda>set_clauses.
     andThen (update_set fuel t set_clauses conds) (\<lambda>r.
     ret (interp_result CMD_UPDATE (ar_success r) (UpdateData r)))))"
| "interp_sql fuel (SelectStmt cols tabs conds) =
     andThen (stopped (interp_where_clause conds)) (\<lambda>conds.
     andThen (select_from fuel (map (\<lambda>c. TabCol (col_tab c) (col_col c)) cols) tabs conds) (\<lambda>r.
     ret (interp_result CMD_SELECT True (SelectData r))))"
| "interp_sql fuel (FieldNode _) = throw (Throw (InternalError ''Unexpected AST root''))"
| "interp_sql fuel (TypeLenNode _) = throw (Throw (InternalError ''Unexpected AST root''))"
| "interp_sql fuel (ExprNode _) = throw (Throw (InternalError ''Unexpected AST root''))"
| "interp_sql fuel (SetClauseNode _) = throw (Throw (InternalError ''Unexpected AST root''))"
| "interp_sql fuel (BinaryExprNode _) = throw (Throw (InternalError ''Unexpected AST root''))"
| "interp_sql fuel NullNode = throw (Throw (InternalError ''Unexpected AST root''))"

end
