(* ===== verification/Server.thy ===== *)
theory Server
  imports Interp
begin

text \<open>
  \<open>db_server.cpp\<close> and \<open>db_client.cpp\<close>: the messages between them, how they are sent and received in
  pieces, the text of results, and what one client thread of the server does with its requests.
  A socket is the bytes that have arrived on it and not been read, whether the peer has closed it, and
  the sizes of the pieces \<open>read\<close> returns; what is sent is the list of responses, and the server ignores
  what sending returns. The log and the measured times are left out; the two \<open>main\<close> functions are in
  \<open>ServerMain\<close> and \<open>ClientMain\<close>.
\<close>

section \<open>Messages\<close>

definition MSG_QUERY :: int where "MSG_QUERY = 1"
definition MSG_RESULT :: int where "MSG_RESULT = 2"
definition MSG_ERROR :: int where "MSG_ERROR = 3"
definition MSG_EXIT :: int where "MSG_EXIT = 4"

text \<open>\<open>rq_query\<close> is the array of 4096 characters, \<open>rs_message\<close> that of 1024.\<close>

record QueryRequest =
  rq_type :: int
  rq_length :: int
  rq_query :: "byte list"

record QueryResponse =
  rs_type :: int
  rs_success :: int
  rs_result_length :: int
  rs_rows_affected :: int
  rs_message :: "byte list"

definition request_bytes :: "QueryRequest \<Rightarrow> byte list" where
  "request_bytes r = int_bytes (rq_type r) @ int_bytes (rq_length r) @ rq_query r"

definition request_of_bytes :: "byte list \<Rightarrow> QueryRequest" where
  "request_of_bytes b = \<lparr>rq_type = load_int b 0, rq_length = load_int b 4, rq_query = load b 8 4096\<rparr>"

definition REQUEST_SIZE :: nat where
  "REQUEST_SIZE = 4104"

text \<open>\<open>strncpy(buf, str.c_str(), n - 1)\<close> into a zeroed array of \<open>n\<close> characters.\<close>

definition c_str :: "string \<Rightarrow> string" where
  "c_str = takeWhile (\<lambda>c. c \<noteq> CHR 0x00)"

definition strncpy_into :: "nat \<Rightarrow> string \<Rightarrow> byte list" where
  "strncpy_into n w = (let b = text_bytes (take (n - 1) (c_str w)) in b @ replicate (n - length b) 0)"

text \<open>A \<open>size_t\<close> stored in an \<open>int\<close>.\<close>

definition size_to_int :: "nat \<Rightarrow> int" where
  "size_to_int n = sint (word_of_nat n :: 32 word)"

section \<open>Sockets\<close>

text \<open>
  One call of \<open>read(sd, p, n)\<close> on a socket with the bytes \<open>inp\<close> still to come: at least one byte, at
  most \<open>n\<close>, as many as the next piece brings; none when nothing is to come because the peer has closed
  it. A \<open>read\<close> that fails counts as a closed socket: the callers of \<open>recv_all\<close> only ask whether it
  returned a positive number.
\<close>

fun sock_read :: "nat list \<Rightarrow> nat \<Rightarrow> byte list \<Rightarrow> byte list \<times> nat list \<times> byte list" where
  "sock_read [] n inp = (take n inp, [], drop n inp)"
| "sock_read (k # ks) n inp = (let m = min n (max 1 k) in (take m inp, ks, drop m inp))"

text \<open>\<open>recv_all\<close>: the value it returns, the bytes it got, and the rest of the socket.\<close>

function recv_all :: "nat list \<Rightarrow> nat \<Rightarrow> byte list \<Rightarrow> byte list \<Rightarrow> int \<times> byte list \<times> nat list \<times> byte list" where
  "recv_all ks len acc inp =
     (if len \<le> length acc then (int (length acc), acc, ks, inp)
      else case sock_read ks (len - length acc) inp of (got, ks', inp') \<Rightarrow>
        if got = [] then (0, acc, ks', inp') else recv_all ks' len (acc @ got) inp')"
  by pat_completeness auto
termination
  by (relation "measure (\<lambda>(ks, len, acc, inp). len - length acc)") (auto simp: neq_Nil_conv)

declare recv_all.simps [simp del]

text \<open>\<open>send_all\<close>: \<open>write\<close> takes what the pieces allow (at least one byte), or fails with a number below one.\<close>

fun sock_write :: "int list \<Rightarrow> byte list \<Rightarrow> int \<times> int list" where
  "sock_write [] b = (int (length b), [])"
| "sock_write (k # ks) b = (min k (int (length b)), ks)"

function send_all :: "int list \<Rightarrow> nat \<Rightarrow> byte list \<Rightarrow> byte list \<Rightarrow> int \<times> byte list" where
  "send_all ks so_far b out =
     (if length b \<le> so_far then (int so_far, out)
      else case sock_write ks (drop so_far b) of (sent, ks') \<Rightarrow>
        if sent \<le> 0 then (sent, out) else send_all ks' (so_far + nat sent) b (out @ take (nat sent) (drop so_far b)))"
  by pat_completeness auto
termination
  by (relation "measure (\<lambda>(ks, so_far, b, out). length b - so_far)") auto

declare send_all.simps [simp del]

section \<open>The text of results\<close>

definition line :: "nat \<Rightarrow> string" where
  "line n = replicate n (CHR ''-'')"

definition pad_left :: "nat \<Rightarrow> string \<Rightarrow> string" where
  "pad_left w s = s @ replicate (w - length s) (CHR '' '')"

definition numbered :: "string list \<Rightarrow> string" where
  "numbered names = concat (map (\<lambda>(i, n). ''  '' @ nat_to_string (i + 1) @ ''. '' @ n @ nl) (zip [0..<length names] names))"

definition format_show_databases_result :: "string list \<Rightarrow> string" where
  "format_show_databases_result dbs = nl @ ''Databases:'' @ nl @ line 40 @ nl @
     (if dbs = [] then ''(No databases found)'' @ nl else numbered dbs) @ line 40 @ nl"

definition format_show_tables_result :: "ShowTablesResult \<Rightarrow> string" where
  "format_show_tables_result tables = ''Tables:'' @ nl @ (if tables = [] then ''  (No tables)'' @ nl else numbered tables)"

definition desc_line :: "string \<Rightarrow> string \<Rightarrow> string \<Rightarrow> string" where
  "desc_line f t i = pad_left 20 f @ pad_left 20 t @ pad_left 10 i @ nl"

definition format_desc_table_result :: "DescTableResult \<Rightarrow> string" where
  "format_desc_table_result r = nl @ ''Table: '' @ dt_table_name r @ nl @ line 50 @ nl @
     desc_line ''Field'' ''Type'' ''Index'' @ line 50 @ nl @
     concat (map (\<lambda>c. desc_line (field_name c) (type_name c) (has_index c)) (dt_columns r)) @ line 50 @ nl"

fun widen :: "nat list \<Rightarrow> string list \<Rightarrow> nat list" where
  "widen (w # ws) (v # vs) = max w (length v) # widen ws vs"
| "widen ws vs = ws"

definition col_widths :: "SelectResult \<Rightarrow> nat list" where
  "col_widths r = fold (\<lambda>row ws. widen ws row) (result_rows r) (map (\<lambda>n. max (length n) 15) (column_names r))"

definition table_line :: "nat list \<Rightarrow> string list \<Rightarrow> string" where
  "table_line ws vs = ''|'' @ concat (map (\<lambda>(w, v). '' '' @ pad_left w v @ '' |'') (zip ws vs)) @ nl"

text \<open>A row with more values than there are columns indexes \<open>col_widths\<close> out of bounds.\<close>

definition format_select_result :: "SelectResult \<Rightarrow> stop + string" where
  "format_select_result r =
     (if result_rows r = [] then Inr (nl @ ''(Empty result set)'' @ nl)
      else let ws = col_widths r; total = 1 + sum_list (map (\<lambda>w. w + 3) ws); n = length (result_rows r) in
        if \<exists>row \<in> set (result_rows r). length ws < length row then Inl Undefined
        else Inr (nl @ line total @ nl @ table_line ws (column_names r) @ line total @ nl @
          concat (map (table_line ws) (result_rows r)) @ line total @ nl @
          ''('' @ nat_to_string n @ '' row'' @ (if n \<noteq> 1 then ''s'' else []) @ '')'' @ nl))"

section \<open>A request\<close>

text \<open>
  The message, the text and the number of rows of a result. \<open>std::get\<close> of a variant that holds
  another type throws an exception, here \<open>OutOfRange\<close>; \<open>interp_sql\<close> never returns such a result
  (lemma \<open>interp_sql_matches\<close>).
\<close>

definition format_result :: "CommandType \<Rightarrow> ResultData \<Rightarrow> stop + (string \<times> string \<times> nat)" where
  "format_result c d =
     (if c = CMD_SELECT then (case d of SelectData r \<Rightarrow>
          sum_then (format_select_result r) (\<lambda>txt. Inr ([], txt, length (result_rows r))) | _ \<Rightarrow> Inl OutOfRange)
      else if c = CMD_SHOW_DATABASES then (case d of DatabasesData dbs \<Rightarrow>
          Inr ([], format_show_databases_result dbs, length dbs) | _ \<Rightarrow> Inl OutOfRange)
      else if c = CMD_SHOW_TABLES then (case d of TablesData ts \<Rightarrow>
          Inr ([], format_show_tables_result ts, length ts) | _ \<Rightarrow> Inl OutOfRange)
      else if c = CMD_DESC_TABLE then (case d of DescData r \<Rightarrow>
          Inr ([], format_desc_table_result r, length (dt_columns r)) | _ \<Rightarrow> Inl OutOfRange)
      else if c = CMD_INSERT then (case d of InsertData r \<Rightarrow> Inr (ir_message r, [], 1) | _ \<Rightarrow> Inl OutOfRange)
      else if c = CMD_DELETE then (case d of DeleteData r \<Rightarrow> Inr (ar_message r, [], affected_rows r) | _ \<Rightarrow> Inl OutOfRange)
      else if c = CMD_UPDATE then (case d of UpdateData r \<Rightarrow> Inr (ar_message r, [], affected_rows r) | _ \<Rightarrow> Inl OutOfRange)
      else if c = CMD_CREATE_TABLE \<or> c = CMD_DROP_TABLE \<or> c = CMD_CREATE_INDEX \<or> c = CMD_DROP_INDEX
        then (case d of DDLData r \<Rightarrow> Inr (ddl_message r, [], 0) | _ \<Rightarrow> Inl OutOfRange)
      else if c = CMD_CREATE_DATABASE \<or> c = CMD_DROP_DATABASE \<or> c = CMD_USE_DATABASE
        then (case d of DatabaseOp r \<Rightarrow> Inr (do_message r, [], 0) | _ \<Rightarrow> Inl OutOfRange)
      else (case d of HelpResult txt \<Rightarrow> Inr ([], txt, 0) | _ \<Rightarrow> Inl OutOfRange))"

definition result_response :: "bool \<Rightarrow> string \<Rightarrow> string \<Rightarrow> nat \<Rightarrow> QueryResponse \<times> string" where
  "result_response ok msg txt rows = (\<lparr>rs_type = MSG_RESULT, rs_success = (if ok then 1 else 0),
     rs_result_length = size_to_int (length txt), rs_rows_affected = size_to_int rows, rs_message = strncpy_into 1024 msg\<rparr>, txt)"

text \<open>
  The catch block. Its message is \<open>what()\<close>; \<open>std::map::at\<close> throws with the text \<open>map::at\<close>, an array of
  negative length with \<open>std::bad_array_new_length\<close>. A failed
  assertion, a wait that never ends and undefined behaviour are no exceptions.
\<close>

definition error_response :: "string \<Rightarrow> QueryResponse \<times> string" where
  "error_response msg = (\<lparr>rs_type = MSG_ERROR, rs_success = 0, rs_result_length = 0, rs_rows_affected = 0,
     rs_message = strncpy_into 1024 msg\<rparr>, [])"

definition try_catch :: "string \<Rightarrow> ('s, stop, QueryResponse \<times> string) prog \<Rightarrow> ('s, stop, QueryResponse \<times> string) prog" where
  "try_catch strerr m = (\<lambda>s. case m s of
     (Inl (Throw e), t) \<Rightarrow> (Inr (error_response (what strerr e)), t)
   | (Inl OutOfRange, t) \<Rightarrow> (Inr (error_response ''map::at''), t)
   | (Inl BadLength, t) \<Rightarrow> (Inr (error_response ''std::bad_array_new_length''), t)
   | r \<Rightarrow> r)"

text \<open>
  \<open>std::string query(request.query, request.query_length)\<close>: a negative length becomes a huge one and
  the exception of the constructor leaves the thread, which ends the program; more than the 4096
  characters of the array are read from behind it.
\<close>

definition request_query :: "QueryRequest \<Rightarrow> stop + string" where
  "request_query r = (if rq_length r < 0 then Inl AssertFail else if 4096 < rq_length r then Inl Undefined
     else Inr (bytes_text (take (nat (rq_length r)) (rq_query r))))"

definition handle_query :: "string \<Rightarrow> yyparse \<Rightarrow> nat \<Rightarrow> string \<Rightarrow> ('z server_state_scheme, stop, QueryResponse \<times> string) prog" where
  "handle_query strerr yy fuel query = try_catch strerr
     (andThen (parse_sql yy query) (\<lambda>tree.
      andThen (interp_sql fuel tree) (\<lambda>res.
      andThen (stopped (format_result (command_type res) (res_data res))) (\<lambda>(msg, txt, rows).
      ret (result_response (ir_ok res) msg txt rows)))))"

text \<open>
  A connection: the bytes that have arrived, whether the client has closed its end, the pieces, and the
  responses sent. While the connection is open, \<open>read\<close> waits for bytes that have not arrived: with too
  few of them \<open>recv_all\<close> does not return.
\<close>

record conn_state = server_state +
  conn_in :: "byte list"
  conn_pieces :: "nat list"
  conn_closed :: bool
  conn_out :: "(QueryResponse \<times> string) list"

definition receive :: "nat \<Rightarrow> ('z conn_state_scheme, stop, int \<times> byte list) prog" where
  "receive n = (\<lambda>s.
     if \<not> conn_closed s \<and> length (conn_in s) < n then (Inl Blocked, s)
     else case recv_all (conn_pieces s) n [] (conn_in s) of
       (r, got, ks, inp) \<Rightarrow> (Inr (r, got), s\<lparr>conn_pieces := ks, conn_in := inp\<rparr>))"

text \<open>The loop of \<open>client_thread_handler\<close>: every turn takes a request, so \<open>fuel\<close> bounds their number too.\<close>

fun client_thread :: "string \<Rightarrow> yyparse \<Rightarrow> nat \<Rightarrow> nat \<Rightarrow> ('z conn_state_scheme, stop, unit) prog" where
  "client_thread strerr yy fuel 0 = throw NoReturn"
| "client_thread strerr yy fuel (Suc turns) =
     andThen (receive REQUEST_SIZE) (\<lambda>(bytes_read, got).
     if bytes_read \<le> 0 then ret ()
     else let request = request_of_bytes got in
       if rq_type request = MSG_EXIT then ret ()
       else
         andThen (stopped (request_query request)) (\<lambda>query.
         andThen (handle_query strerr yy fuel query) (\<lambda>resp.
         andThen (modify (\<lambda>s. s\<lparr>conn_out := conn_out s @ [resp]\<rparr>)) (\<lambda>_.
         client_thread strerr yy fuel turns))))"

section \<open>The client\<close>

text \<open>What \<open>main\<close> of the client does with a line: nothing, leave, show the help, or send a request.\<close>

datatype client_action = SkipLine | ExitClient QueryRequest | ShowHelp | SendQuery QueryRequest

definition blank :: "char \<Rightarrow> bool" where
  "blank c \<longleftrightarrow> c \<in> set [CHR '' '', CHR 0x09, CHR 0x0A, CHR 0x0D]"

definition trim :: "string \<Rightarrow> string" where
  "trim w = rev (dropWhile blank (rev (dropWhile blank w)))"

definition query_request :: "string \<Rightarrow> QueryRequest" where
  "query_request w = \<lparr>rq_type = MSG_QUERY, rq_length = size_to_int (length w), rq_query = strncpy_into 4096 w\<rparr>"

text \<open>The exit request is sent with an uninitialised query, here \<open>junk\<close>.\<close>

definition client_line :: "byte list \<Rightarrow> string \<Rightarrow> client_action" where
  "client_line junk w =
     (if trim w = [] then SkipLine
      else if trim w = ''exit'' \<or> trim w = ''quit''
        then ExitClient \<lparr>rq_type = MSG_EXIT, rq_length = 0, rq_query = junk\<rparr>
      else if trim w = ''help'' then ShowHelp
      else SendQuery (query_request (trim w)))"

text \<open>A message, up to its terminating zero.\<close>

definition message_text :: "byte list \<Rightarrow> string" where
  "message_text b = bytes_text (takeWhile (\<lambda>x. x \<noteq> 0) b)"

section \<open>The result holds what the command promises\<close>

definition result_matches :: "InterpreterResult \<Rightarrow> bool" where
  "result_matches r \<longleftrightarrow> format_result (command_type r) (res_data r) \<noteq> Inl OutOfRange"

lemma format_simps [simp]:
  "format_result CMD_SELECT (SelectData r) = sum_then (format_select_result r) (\<lambda>txt. Inr ([], txt, length (result_rows r)))"
  "format_result CMD_SHOW_DATABASES (DatabasesData dbs) = Inr ([], format_show_databases_result dbs, length dbs)"
  "format_result CMD_SHOW_TABLES (TablesData ts) = Inr ([], format_show_tables_result ts, length ts)"
  "format_result CMD_DESC_TABLE (DescData d) = Inr ([], format_desc_table_result d, length (dt_columns d))"
  "format_result CMD_INSERT (InsertData i) = Inr (ir_message i, [], 1)"
  "format_result CMD_DELETE (DeleteData a) = Inr (ar_message a, [], affected_rows a)"
  "format_result CMD_UPDATE (UpdateData a) = Inr (ar_message a, [], affected_rows a)"
  "c \<in> {CMD_CREATE_TABLE, CMD_DROP_TABLE, CMD_CREATE_INDEX, CMD_DROP_INDEX} \<Longrightarrow> format_result c (DDLData l) = Inr (ddl_message l, [], 0)"
  "c \<in> {CMD_CREATE_DATABASE, CMD_DROP_DATABASE, CMD_USE_DATABASE} \<Longrightarrow> format_result c (DatabaseOp o') = Inr (do_message o', [], 0)"
  "format_result CMD_HELP (HelpResult txt) = Inr ([], txt, 0)"
  by (auto simp: format_result_def)

lemma format_select_ne [simp]: "sum_then (format_select_result r) (\<lambda>txt. Inr (f txt)) \<noteq> Inl OutOfRange"
  by (simp add: format_select_result_def sum_then_def Let_def)

lemma interp_sql_matches:
  assumes "interp_sql fuel tree s = (Inr r, t)"
  shows "result_matches r"
  using assms
  by (cases tree) (auto simp: result_matches_def interp_result_def database_op_def ddl_op_def andThen_Inr_iff)

end
