(* ===== verification/ClientMain.thy ===== *)
theory ClientMain
  imports Server
begin

text \<open>
  \<open>main\<close> of \<open>db_client.cpp\<close>: the prompt, the commands of the client, a request and the display of
  its response. The state is what the process reads (the lines of its standard input, the bytes that
  have arrived on its socket in the pieces \<open>read\<close> returns, whether the server has closed it, what its
  clock measures) and what it writes (the bytes sent,
  the two output streams). How a \<open>double\<close> prints is a parameter, as is whether the connection succeeds.
\<close>

section \<open>The response on the wire\<close>

text \<open>
  The layout of \<open>QueryResponse\<close>: the \<open>double\<close> is aligned to eight bytes, and so is the end. The
  padding is zero because the server clears the structure first; \<open>ms\<close> are the bytes of the time.
\<close>

definition RESPONSE_SIZE :: nat where
  "RESPONSE_SIZE = 1056"

definition response_bytes :: "byte list \<Rightarrow> QueryResponse \<Rightarrow> byte list" where
  "response_bytes ms r = int_bytes (rs_type r) @ int_bytes (rs_success r) @ int_bytes (rs_result_length r) @
     replicate 4 0 @ ms @ int_bytes (rs_rows_affected r) @ rs_message r @ replicate 4 0"

definition response_of_bytes :: "byte list \<Rightarrow> QueryResponse" where
  "response_of_bytes b = \<lparr>rs_type = load_int b 0, rs_success = load_int b 4, rs_result_length = load_int b 8,
     rs_rows_affected = load_int b 24, rs_message = load b 28 1024\<rparr>"

definition response_time :: "byte list \<Rightarrow> byte list" where
  "response_time b = load b 16 8"

text \<open>What the server writes to the socket for its answers: the response, then the text of the result.\<close>

definition answer_bytes :: "byte list list \<Rightarrow> (QueryResponse \<times> string) list \<Rightarrow> byte list" where
  "answer_bytes clocks answers = concat (map (\<lambda>(ms, r, txt). response_bytes ms r @ text_bytes txt) (zip clocks answers))"

section \<open>The process\<close>

record client_state =
  cl_lines :: "string list"
  cl_clock :: "string list"
  cl_in :: "byte list"
  cl_pieces :: "nat list"
  cl_closed :: bool
  cl_writes :: "int list list"
  cl_sent :: "byte list"
  cl_out :: string
  cl_err :: string

definition say :: "string \<Rightarrow> ('z client_state_scheme, stop, unit) prog" where
  "say w = modify (\<lambda>s. s\<lparr>cl_out := cl_out s @ w\<rparr>)"

definition complain :: "string \<Rightarrow> ('z client_state_scheme, stop, unit) prog" where
  "complain w = modify (\<lambda>s. s\<lparr>cl_err := cl_err s @ w\<rparr>)"

text \<open>\<open>std::getline\<close> into a new string: at the end of the input the string stays empty.\<close>

definition getline :: "('z client_state_scheme, stop, string) prog" where
  "getline = (\<lambda>s. (Inr (case cl_lines s of [] \<Rightarrow> [] | l # _ \<Rightarrow> l), s\<lparr>cl_lines := tl (cl_lines s)\<rparr>))"

text \<open>What the two time stamps of a request are apart, as it prints.\<close>

definition elapsed :: "('z client_state_scheme, stop, string) prog" where
  "elapsed = (\<lambda>s. (Inr (case cl_clock s of [] \<Rightarrow> [] | t # _ \<Rightarrow> t), s\<lparr>cl_clock := tl (cl_clock s)\<rparr>))"

definition client_send :: "byte list \<Rightarrow> ('z client_state_scheme, stop, int) prog" where
  "client_send b = (\<lambda>s. case send_all (case cl_writes s of [] \<Rightarrow> [] | ks # _ \<Rightarrow> ks) 0 b [] of
     (r, out) \<Rightarrow> (Inr r, s\<lparr>cl_sent := cl_sent s @ out, cl_writes := tl (cl_writes s)\<rparr>))"

text \<open>While the server has not closed the connection, \<open>read\<close> waits for bytes that have not arrived.\<close>

definition client_recv :: "nat \<Rightarrow> ('z client_state_scheme, stop, int \<times> byte list) prog" where
  "client_recv n = (\<lambda>s.
     if \<not> cl_closed s \<and> length (cl_in s) < n then (Inl Blocked, s)
     else case recv_all (cl_pieces s) n [] (cl_in s) of
       (r, got, ks, inp) \<Rightarrow> (Inr (r, got), s\<lparr>cl_pieces := ks, cl_in := inp\<rparr>))"

definition print_separator :: "nat \<Rightarrow> string" where
  "print_separator width = replicate width (CHR ''='') @ nl"

section \<open>The commands of the client\<close>

definition display_help :: string where
  "display_help = concat [
     nl,
     print_separator 80,
     ''                    DATABASE CLIENT - HELP MENU'' @ nl,
     print_separator 80,
     nl @ ''Supported SQL Commands:'' @ nl @ nl,
     ''DATABASE OPERATIONS:'' @ nl,
     ''  CREATE DATABASE <db_name>    - Create a new database'' @ nl,
     ''  DROP DATABASE <db_name>      - Delete a database'' @ nl,
     ''  USE DATABASE <db_name>       - Switch to a database'' @ nl,
     ''  SHOW DATABASES               - List all databases'' @ nl,
     nl @ ''TABLE OPERATIONS:'' @ nl,
     ''  CREATE TABLE <table> (<cols>)  - Create a new table'' @ nl,
     ''  DROP TABLE <table>             - Delete a table'' @ nl,
     ''  SHOW TABLES                    - List all tables'' @ nl,
     ''  DESC <table>                   - Show table schema'' @ nl,
     nl @ ''INDEX OPERATIONS:'' @ nl,
     ''  CREATE INDEX <table>(<col>)    - Create an index'' @ nl,
     ''  DROP INDEX <table>(<col>)      - Delete an index'' @ nl,
     nl @ ''DATA OPERATIONS:'' @ nl,
     ''  SELECT * FROM <table> [WHERE <condition>]'' @ nl,
     ''  INSERT INTO <table> VALUES (<values>)'' @ nl,
     ''  UPDATE <table> SET <col>=<val> [WHERE <condition>]'' @ nl,
     ''  DELETE FROM <table> [WHERE <condition>]'' @ nl,
     nl @ ''DATA TYPES:'' @ nl,
     ''  INT       - 32-bit integer'' @ nl,
     ''  FLOAT     - 32-bit floating point'' @ nl,
     ''  CHAR(n)   - Fixed-length string'' @ nl,
     ''  DATETIME  - Date and time'' @ nl,
     nl @ ''CLIENT COMMANDS:'' @ nl,
     ''  help      - Show this help menu'' @ nl,
     ''  exit      - Disconnect and exit'' @ nl,
     ''  quit      - Disconnect and exit'' @ nl,
     print_separator 80,
     nl]"

text \<open>The metrics after a result.\<close>

definition metrics :: "string \<Rightarrow> string \<Rightarrow> int \<Rightarrow> string" where
  "metrics ms all_ms rows = nl @ print_separator 50 @ ''Query execution time: '' @ ms @ '' ms'' @ nl @
     ''Network + display time: '' @ all_ms @ '' ms'' @ nl @
     (if 0 < rows then ''Rows affected: '' @ int_to_string rows @ nl else []) @ print_separator 50 @ nl"

text \<open>
  The message is printed as a C string: one without a terminating zero is read past its end. The
  buffer of the result has one byte more than \<open>result_length\<close>. The result is whether the loop goes on.
\<close>

definition show_response :: "string \<Rightarrow> string \<Rightarrow> QueryResponse \<Rightarrow> ('z client_state_scheme, stop, bool) prog" where
  "show_response ms all_ms r =
     (if rs_type r = MSG_ERROR then
        andThen (ensure (0 \<in> set (rs_message r)) Undefined) (\<lambda>_.
        andThen (complain (''Error: '' @ message_text (rs_message r) @ nl)) (\<lambda>_.
        andThen (say (''Query execution time: '' @ ms @ '' ms'' @ nl @ nl)) (\<lambda>_. ret True)))
      else if 0 < rs_result_length r then
        andThen (ensure (rs_result_length r < INT_MAX) Undefined) (\<lambda>_.
        andThen (client_recv (nat (rs_result_length r))) (\<lambda>(n, data).
        if n \<le> 0 then andThen (complain (''Error: Failed to receive result data'' @ nl)) (\<lambda>_. ret False)
        else andThen (say (c_str (bytes_text data) @ metrics ms all_ms (rs_rows_affected r))) (\<lambda>_. ret True)))
      else
        andThen (ensure (0 \<in> set (rs_message r)) Undefined) (\<lambda>_.
        andThen (say (message_text (rs_message r) @ nl @ metrics ms all_ms (rs_rows_affected r))) (\<lambda>_. ret True)))"

definition run_request :: "(byte list \<Rightarrow> string) \<Rightarrow> QueryRequest \<Rightarrow> ('z client_state_scheme, stop, bool) prog" where
  "run_request show_ms request =
     andThen (client_send (request_bytes request)) (\<lambda>sent.
     if sent \<le> 0 then andThen (complain (''Error: Failed to send query to server'' @ nl)) (\<lambda>_. ret False)
     else
       andThen (client_recv RESPONSE_SIZE) (\<lambda>(n, b).
       if n \<le> 0 then andThen (complain (''Error: Failed to receive response from server'' @ nl)) (\<lambda>_. ret False)
       else andThen elapsed (\<lambda>all_ms. show_response (show_ms (response_time b)) all_ms (response_of_bytes b))))"

text \<open>One turn of the loop; \<open>junk\<close> is the uninitialised query of the exit request.\<close>

definition client_turn :: "(byte list \<Rightarrow> string) \<Rightarrow> byte list \<Rightarrow> ('z client_state_scheme, stop, bool) prog" where
  "client_turn show_ms junk =
     andThen (say ''db> '') (\<lambda>_.
     andThen getline (\<lambda>query_line.
     case client_line junk query_line of
       SkipLine \<Rightarrow> ret True
     | ExitClient request \<Rightarrow>
         andThen (client_send (request_bytes request)) (\<lambda>_.
         andThen (say (''Disconnecting from server... Goodbye!'' @ nl)) (\<lambda>_. ret False))
     | ShowHelp \<Rightarrow> andThen (say display_help) (\<lambda>_. ret True)
     | SendQuery request \<Rightarrow> run_request show_ms request))"

fun client_loop :: "(byte list \<Rightarrow> string) \<Rightarrow> byte list \<Rightarrow> nat \<Rightarrow> ('z client_state_scheme, stop, unit) prog" where
  "client_loop show_ms junk 0 = throw NoReturn"
| "client_loop show_ms junk (Suc turns) =
     andThen (client_turn show_ms junk) (\<lambda>go_on. if go_on then client_loop show_ms junk turns else ret ())"

text \<open>\<open>main\<close>, with whether \<open>socket\<close> and \<open>connect\<close> succeed; the result is the exit status.\<close>

definition client_main :: "bool \<Rightarrow> bool \<Rightarrow> (byte list \<Rightarrow> string) \<Rightarrow> byte list \<Rightarrow> nat \<Rightarrow> ('z client_state_scheme, stop, nat) prog" where
  "client_main socket_ok connect_ok show_ms junk turns =
     (if \<not> socket_ok then andThen (complain (''Error: Failed to create socket'' @ nl)) (\<lambda>_. ret 1)
      else
        andThen (say (''Connecting to database server at 127.0.0.1:8888...'' @ nl)) (\<lambda>_.
        if \<not> connect_ok then
          andThen (complain (''Error: Failed to connect to server'' @ nl @ ''Make sure the database server is running!'' @ nl)) (\<lambda>_. ret 1)
        else
          andThen (say (print_separator 80 @ ''              DATABASE CLIENT - Connected Successfully'' @ nl @
            print_separator 80 @ ''Type '' @ CHR 0x27 # ''help'' @ CHR 0x27 # '' for available commands, '' @ CHR 0x27 # ''exit'' @ CHR 0x27 # '' to quit'' @ nl @ nl)) (\<lambda>_.
          andThen (client_loop show_ms junk turns) (\<lambda>_. ret 0))))"

end
