(* ===== verification/ServerMain.thy ===== *)
theory ServerMain
  imports Server Semaphores
begin

text \<open>
  \<open>main\<close> and \<open>cleanup_handler\<close> of \<open>db_server.cpp\<close>: the start of the server and the loop that accepts
  connections and starts a thread for each. What the calls on sockets and threads return is the
  environment: a parameter for each call of the set-up, a list of events for the loop. The loop has no
  end; a run of it is what it does with the events so far.
\<close>

definition SERVER_PORT :: nat where "SERVER_PORT = 8888"
definition MAX_THREADS :: nat where "MAX_THREADS = 100"

record ClientInfo =
  info_socket :: int
  info_ip_address :: string
  info_port :: nat
  info_client_id :: int

text \<open>One round of the loop: \<open>accept\<close> fails, or gives a socket of an address; then \<open>pthread_create\<close>
  gives a thread or fails.\<close>

datatype accepted = AcceptFails | Accepts int string nat "int option"

text \<open>\<open>running\<close> are the arguments of the threads that have been started, \<open>closed\<close> the sockets that were closed.\<close>

record listen_state =
  client_id_counter :: int
  thread_ids :: "int list"
  running :: "ClientInfo list"
  closed_sockets :: "int list"
  listen_out :: string
  listen_err :: string

definition server_start :: listen_state where
  "server_start = \<lparr>client_id_counter = 0, thread_ids = [], running = [], closed_sockets = [], listen_out = [], listen_err = []\<rparr>"

text \<open>The list of thread ids drops its first element when it has more than \<open>MAX_THREADS\<close>.\<close>

definition push_thread :: "int \<Rightarrow> int list \<Rightarrow> int list" where
  "push_thread t ts = (let ts' = ts @ [t] in if MAX_THREADS < length ts' then tl ts' else ts')"

fun accept_turn :: "accepted \<Rightarrow> listen_state \<Rightarrow> listen_state" where
  "accept_turn AcceptFails s = s\<lparr>listen_err := listen_err s @ ''Error: Failed to accept client connection'' @ nl\<rparr>"
| "accept_turn (Accepts client_sd client_ip port created) s =
     (let n = client_id_counter s + 1;
          s1 = s\<lparr>client_id_counter := n, listen_out := listen_out s @ ''[New connection] Client #'' @ int_to_string n @
            '', IP: '' @ client_ip @ '', Port: '' @ nat_to_string port @ nl\<rparr>;
          client_info = \<lparr>info_socket = client_sd, info_ip_address = client_ip, info_port = port, info_client_id = n\<rparr> in
      case created of
        None \<Rightarrow> s1\<lparr>listen_err := listen_err s1 @ ''Error: Failed to create thread for client #'' @ int_to_string n @ nl,
                   closed_sockets := closed_sockets s1 @ [client_sd]\<rparr>
      | Some thread_id \<Rightarrow> s1\<lparr>running := running s1 @ [client_info], thread_ids := push_thread thread_id (thread_ids s1)\<rparr>)"

definition accept_loop :: "accepted list \<Rightarrow> listen_state \<Rightarrow> listen_state" where
  "accept_loop evs s = fold accept_turn evs s"

definition server_banner :: string where
  "server_banner = (let sep = ''========================================'' @ nl in
     sep @ ''    DATABASE SERVER - Started'' @ nl @ sep @
     ''Listening on port: '' @ nat_to_string SERVER_PORT @ nl @
     ''Max concurrent clients: '' @ nat_to_string MAX_THREADS @ nl @
     ''Waiting for client connections...'' @ nl @
     ''Press Ctrl+C to stop the server'' @ nl @ sep @ nl)"

text \<open>The four calls that can fail before the loop, in order.\<close>

datatype socket_setup = SocketFails | OptionFails | BindFails | ListenFails | Listening

definition setup_error :: "socket_setup \<Rightarrow> string" where
  "setup_error r = (case r of
     SocketFails \<Rightarrow> ''Error: Failed to create socket'' @ nl
   | OptionFails \<Rightarrow> ''Error: Failed to set socket options'' @ nl
   | BindFails \<Rightarrow> ''Error: Failed to bind socket to port '' @ nat_to_string SERVER_PORT @ nl
   | ListenFails \<Rightarrow> ''Error: Failed to listen on socket'' @ nl
   | Listening \<Rightarrow> [])"

text \<open>What \<open>setup_db_semaphores\<close> prints: the first semaphore that cannot be opened, or its success.\<close>

definition sem_labels :: "(string \<times> string) list" where
  "sem_labels = zip sem_names [''cache_sem'', ''fd_map_sem'', ''metadata_sem'', ''file_handles_sem'', ''index_handles_sem'']"

definition semaphore_error :: "(string \<Rightarrow> bool) \<Rightarrow> string" where
  "semaphore_error sem_ok = (case List.find (\<lambda>(n, _). \<not> sem_ok n) sem_labels of
     None \<Rightarrow> [] | Some (_, l) \<Rightarrow> ''Failed to create '' @ l @ nl)"

definition semaphore_banner :: string where
  "semaphore_banner = ''Database semaphores initialized successfully'' @ nl"

text \<open>\<open>main\<close>: the exit status, if it has ended, the named semaphores and the state of the loop.\<close>

definition server_main :: "(string \<Rightarrow> bool) \<Rightarrow> (string \<rightharpoonup> nat) \<Rightarrow> socket_setup \<Rightarrow> accepted list \<Rightarrow>
    nat option \<times> (string \<rightharpoonup> nat) option \<times> listen_state" where
  "server_main sem_ok K net evs = (case setup_db_semaphores sem_ok K of
     None \<Rightarrow> (Some 1, None, server_start\<lparr>listen_err := semaphore_error sem_ok\<rparr>)
   | Some K' \<Rightarrow>
       if net \<noteq> Listening then (Some 1, Some K', server_start\<lparr>listen_out := semaphore_banner, listen_err := setup_error net\<rparr>)
       else (None, Some K', accept_loop evs (server_start\<lparr>listen_out := semaphore_banner @ server_banner\<rparr>)))"

text \<open>\<open>SIGINT\<close> and \<open>SIGTERM\<close>: the semaphores are removed and the process exits.\<close>

definition cleanup_handler :: "(string \<rightharpoonup> nat) \<Rightarrow> listen_state \<Rightarrow> nat \<times> (string \<rightharpoonup> nat) \<times> listen_state" where
  "cleanup_handler K s = (0, cleanup_db_semaphores K, s\<lparr>listen_out := listen_out s @ nl @ ''Shutting down server...'' @ nl @
     ''Database semaphores cleaned up'' @ nl\<rparr>)"

section \<open>The loop\<close>

definition started :: "accepted \<Rightarrow> bool" where
  "started e \<longleftrightarrow> (case e of Accepts _ _ _ (Some _) \<Rightarrow> True | _ \<Rightarrow> False)"

lemma accept_loop_snoc: "accept_loop (evs @ [e]) s = accept_turn e (accept_loop evs s)"
  by (simp add: accept_loop_def)

text \<open>
  Every accepted connection has a thread of its own and a number of its own; the list of thread ids
  is cut, the number of threads is not.
\<close>

lemma accept_loop_threads:
  "length (running (accept_loop evs server_start)) = length (List.filter started evs) \<and>
   distinct (map info_client_id (running (accept_loop evs server_start))) \<and>
   (\<forall>i \<in> set (running (accept_loop evs server_start)). info_client_id i \<le> client_id_counter (accept_loop evs server_start)) \<and>
   length (thread_ids (accept_loop evs server_start)) = min MAX_THREADS (length (List.filter started evs))"
proof (induction evs rule: rev_induct)
  case Nil
  show ?case by (simp add: accept_loop_def server_start_def)
next
  case (snoc e evs)
  show ?case
  proof (cases e)
    case AcceptFails
    then show ?thesis using snoc by (simp add: accept_loop_snoc started_def)
  next
    case (Accepts sd ip port created)
    then show ?thesis using snoc
      by (cases created) (force simp: accept_loop_snoc started_def Let_def push_thread_def min_def MAX_THREADS_def)+
  qed
qed

end
