(* ===== verification/Demo.thy ===== *)
theory Demo
  imports Server
begin

text \<open>
  \<open>src/examples/interpreter_example.cpp\<close>: a program that runs a list of statements through the parser and
  the interpreter in its own process and prints the structured results. It writes to two streams.
  The check mark, the cross and the bullet are the bytes of their UTF-8 encodings. The program never
  calls \<open>setup_db_semaphores\<close>; here it runs with the semaphores set up.
\<close>

record demo_state = server_state +
  demo_out :: string
  demo_err :: string

definition check_mark :: string where "check_mark = [CHR 0xE2, CHR 0x9C, CHR 0x93, CHR '' '']"
definition cross :: string where "cross = [CHR 0xE2, CHR 0x9D, CHR 0x8C, CHR '' '']"
definition bullet :: string where "bullet = [CHR 0xE2, CHR 0x80, CHR 0xA2, CHR '' '']"
definition tab_stop :: string where "tab_stop = [CHR 0x09]"

definition print_select_result :: "SelectResult \<Rightarrow> string" where
  "print_select_result sel =
     concat (map (\<lambda>c. c @ tab_stop) (column_names sel)) @ nl @
     concat (map (\<lambda>c. ''--------'' @ tab_stop) (column_names sel)) @ nl @
     concat (map (\<lambda>row. concat (map (\<lambda>v. v @ tab_stop) row) @ nl) (result_rows sel)) @
     nl @ ''('' @ nat_to_string (length (result_rows sel)) @ '' row(s) returned)'' @ nl"

definition print_table_list :: "ShowTablesResult \<Rightarrow> string" where
  "print_table_list tables = ''Tables in current database:'' @ nl @ ''----------------------------'' @ nl @
     concat (map (\<lambda>t. ''  '' @ bullet @ t @ nl) tables) @
     nl @ ''Total: '' @ nat_to_string (length tables) @ '' table(s)'' @ nl"

definition print_database_list :: "string list \<Rightarrow> string" where
  "print_database_list dbs = ''Available databases:'' @ nl @ ''--------------------'' @ nl @
     concat (map (\<lambda>d. ''  '' @ bullet @ d @ nl) dbs) @
     nl @ ''Total: '' @ nat_to_string (length dbs) @ '' database(s)'' @ nl"

definition print_table_description :: "DescTableResult \<Rightarrow> string" where
  "print_table_description desc = (let bar = ''+'' @ line 60 @ ''+'' @ nl in
     ''Table: '' @ dt_table_name desc @ nl @ bar @ ''| Field            | Type         | Indexed |'' @ nl @ bar @
     concat (map (\<lambda>c. ''| '' @ pad_left 16 (field_name c) @ '' | '' @ pad_left 12 (type_name c) @ '' | '' @
       pad_left 7 (has_index c) @ '' |'' @ nl) (dt_columns desc)) @
     bar @ nat_to_string (length (dt_columns desc)) @ '' column(s)'' @ nl)"

definition done_text :: "string \<Rightarrow> string \<Rightarrow> string" where
  "done_text msg name = check_mark @ msg @ '': '' @ name @ nl"

definition change_text :: "AffectedResult \<Rightarrow> string" where
  "change_text r = check_mark @ ar_message r @ nl @ ''  Table: '' @ ar_table r @ nl @
     ''  Affected rows: '' @ nat_to_string (affected_rows r) @ nl"

text \<open>The switch; \<open>std::get\<close> on a variant of another type throws, here \<open>OutOfRange\<close>.\<close>

definition result_text :: "CommandType \<Rightarrow> ResultData \<Rightarrow> stop + string" where
  "result_text c d = (case c of
       CMD_HELP \<Rightarrow> (case d of HelpResult txt \<Rightarrow> Inr txt | _ \<Rightarrow> Inl OutOfRange)
     | CMD_SHOW_TABLES \<Rightarrow> (case d of TablesData ts \<Rightarrow> Inr (print_table_list ts) | _ \<Rightarrow> Inl OutOfRange)
     | CMD_SHOW_DATABASES \<Rightarrow> (case d of DatabasesData dbs \<Rightarrow> Inr (print_database_list dbs) | _ \<Rightarrow> Inl OutOfRange)
     | CMD_DESC_TABLE \<Rightarrow> (case d of DescData r \<Rightarrow> Inr (print_table_description r) | _ \<Rightarrow> Inl OutOfRange)
     | CMD_INSERT \<Rightarrow> (case d of InsertData r \<Rightarrow>
         Inr (check_mark @ ir_message r @ nl @ ''  Table: '' @ ir_table r @ nl) | _ \<Rightarrow> Inl OutOfRange)
     | CMD_DELETE \<Rightarrow> (case d of DeleteData r \<Rightarrow> Inr (change_text r) | _ \<Rightarrow> Inl OutOfRange)
     | CMD_UPDATE \<Rightarrow> (case d of UpdateData r \<Rightarrow> Inr (change_text r) | _ \<Rightarrow> Inl OutOfRange)
     | CMD_SELECT \<Rightarrow> (case d of SelectData r \<Rightarrow> Inr (print_select_result r) | _ \<Rightarrow> Inl OutOfRange)
     | _ \<Rightarrow> if c \<in> {CMD_CREATE_DATABASE, CMD_DROP_DATABASE, CMD_USE_DATABASE}
         then (case d of DatabaseOp r \<Rightarrow> Inr (done_text (do_message r) (do_name r)) | _ \<Rightarrow> Inl OutOfRange)
         else (case d of DDLData r \<Rightarrow> Inr (done_text (ddl_message r) (ddl_name r)) | _ \<Rightarrow> Inl OutOfRange))"

definition demo_print :: "string \<Rightarrow> ('z demo_state_scheme, stop, unit) prog" where
  "demo_print w = modify (\<lambda>s. s\<lparr>demo_out := demo_out s @ w\<rparr>)"

definition demo_error :: "string \<Rightarrow> ('z demo_state_scheme, stop, unit) prog" where
  "demo_error w = modify (\<lambda>s. s\<lparr>demo_err := demo_err s @ w\<rparr>)"

definition catch_and_show :: "string \<Rightarrow> ('z demo_state_scheme, stop, unit) prog \<Rightarrow> ('z demo_state_scheme, stop, unit) prog" where
  "catch_and_show strerr m = (\<lambda>s. case m s of
     (Inl (Throw e), t) \<Rightarrow> demo_error (cross @ ''Exception: '' @ what strerr e @ nl) t
   | (Inl OutOfRange, t) \<Rightarrow> demo_error (cross @ ''Exception: map::at'' @ nl) t
   | (Inl BadLength, t) \<Rightarrow> demo_error (cross @ ''Exception: std::bad_array_new_length'' @ nl) t
   | r \<Rightarrow> r)"

definition execute_and_display :: "string \<Rightarrow> yyparse \<Rightarrow> nat \<Rightarrow> string \<Rightarrow> ('z demo_state_scheme, stop, unit) prog" where
  "execute_and_display strerr yy fuel sql =
     andThen (demo_print (nl @ ''> '' @ sql @ nl @ replicate 70 (CHR ''='') @ nl)) (\<lambda>_.
     catch_and_show strerr
       (andThen (parse_sql yy sql) (\<lambda>ast_root.
        andThen (interp_sql fuel ast_root) (\<lambda>result.
        if \<not> ir_ok result then demo_error (cross @ ''Error: '' @ error_message result @ nl)
        else
          andThen (stopped (result_text (command_type result) (res_data result))) (\<lambda>txt.
          demo_print txt)))))"

definition quoted :: "string \<Rightarrow> string" where
  "quoted w = CHR 0x27 # w @ [CHR 0x27]"

definition demo_statements :: "string list" where
  "demo_statements = [
     ''SHOW DATABASES;'',
     ''CREATE DATABASE university;'',
     ''USE university;'',
     ''CREATE TABLE students (id INT, name CHAR(50), age INT, enrolled DATETIME);'',
     ''DESC students;'',
     ''SHOW TABLES;'',
     ''INSERT INTO students VALUES (1, '' @ quoted ''Alice'' @ '', 20, '' @ quoted ''2024-09-01 09:00:00'' @ '');'',
     ''SELECT * FROM students;'',
     ''UPDATE students SET age = 21 WHERE id = 1;'',
     ''DELETE FROM students WHERE age > 100;'',
     ''HELP;'']"

definition demo_main :: "string \<Rightarrow> yyparse \<Rightarrow> nat \<Rightarrow> ('z demo_state_scheme, stop, unit) prog" where
  "demo_main strerr yy fuel =
     andThen (demo_print (''=== Interpreter Structured Results Demo ==='' @ nl @
       ''No console logging from interpreter!'' @ nl @ ''All output is formatted by the application.'' @ nl)) (\<lambda>_.
     forEach demo_statements (execute_and_display strerr yy fuel))"

end
