(* ===== verification/ServerTheorems.thy ===== *)
theory ServerTheorems
  imports Semaphores DbExamples ClientMain ServerMain Demo
begin

text \<open>
  The properties of the server: requests arrive whole however the network cuts them, a session of
  insertions is answered request by request, a text that is no statement runs the previous one
  again, and a lock that is kept survives a restart.
\<close>

section \<open>Receiving\<close>

lemma recv_all_whole:
  assumes "len = length acc + length x"
  shows "\<exists>ks'. recv_all ks len acc (x @ rest) = (int len, acc @ x, ks', rest)"
  using assms
proof (induction "length x" arbitrary: ks acc x rule: less_induct)
  case less
  show ?case
  proof (cases "x = []")
    case True
    then show ?thesis using less.prems by (simp add: recv_all.simps)
  next
    case False
    obtain k ks' where k: "sock_read ks (length x) (x @ rest) = (take k x, ks', drop k x @ rest)" "0 < k" "k \<le> length x"
    proof (cases ks)
      case Nil
      then show ?thesis using that[of "length x" "[]"] False by simp
    next
      case (Cons a list)
      show ?thesis using that[of "min (length x) (max 1 a)" list] False by (simp add: Cons Let_def)
    qed
    have ne: "take k x \<noteq> []" using k False by simp
    have "\<exists>ks''. recv_all ks' len (acc @ take k x) (drop k x @ rest) = (int len, (acc @ take k x) @ drop k x, ks'', rest)"
      by (rule less.hyps) (use k less.prems in simp_all)
    moreover have "recv_all ks len acc (x @ rest) = recv_all ks' len (acc @ take k x) (drop k x @ rest)"
      using less.prems False k(1) ne by (subst recv_all.simps) simp
    ultimately show ?thesis by simp
  qed
qed

lemma load_int_front: "int_ok i \<Longrightarrow> load_int (int_bytes i @ b) 0 = i"
  by (simp add: load_int_def load_def)

lemma length_strncpy [simp]: "0 < n \<Longrightarrow> length (strncpy_into n w) = n"
  by (simp add: strncpy_into_def Let_def text_bytes_def)

lemma c_str_id [simp]: "CHR 0x00 \<notin> set w \<Longrightarrow> c_str w = w"
  unfolding c_str_def by (rule takeWhile_eq_all_conv[THEN iffD2]) auto

lemma size_to_int_small: "int n \<le> INT_MAX \<Longrightarrow> size_to_int n = int n"
proof -
  assume "int n \<le> INT_MAX"
  then have "signed_take_bit 31 (int n) = int n" by (intro signed_take_bit_int_eq_self) (simp_all add: INT_MAX_def)
  moreover have "size_to_int n = signed_take_bit 31 (int n)"
    using sint_sbintrunc'[where 'a = 32, of "int n"] by (simp add: size_to_int_def)
  ultimately show ?thesis by simp
qed

lemma query_request_back:
  assumes "int (length w) \<le> INT_MAX"
  shows "request_of_bytes (request_bytes (query_request w)) =
    \<lparr>rq_type = MSG_QUERY, rq_length = int (length w), rq_query = strncpy_into 4096 w\<rparr>"
proof -
  have i: "int_ok (int (length w))" "int_ok MSG_QUERY" using assms by (simp_all add: int_ok_def INT_MIN_def MSG_QUERY_def INT_MAX_def)
  have "load_int (int_bytes MSG_QUERY @ int_bytes (int (length w)) @ b) 4 = int (length w)" for b
    using i(1) by (simp add: load_int_def load_def)
  then show ?thesis
    using i load_int_front[OF i(2)]
    by (simp add: request_of_bytes_def request_bytes_def query_request_def size_to_int_small[OF assms] load_def)
qed

lemma query_request_text:
  assumes "CHR 0x00 \<notin> set w" "length w \<le> 4095"
  shows "request_query (request_of_bytes (request_bytes (query_request w))) = Inr w"
proof -
  have i: "int (length w) \<le> INT_MAX" using assms(2) by (simp add: INT_MAX_def)
  have "take (length w) (strncpy_into 4096 w) = text_bytes w"
    using assms by (simp add: strncpy_into_def Let_def text_bytes_def)
  then show ?thesis using assms(2) by (simp add: request_query_def query_request_back[OF i])
qed

lemma length_request [simp]: "length (request_bytes (query_request w)) = REQUEST_SIZE"
  by (simp add: request_bytes_def query_request_def REQUEST_SIZE_def)

text \<open>C24: whatever pieces the network makes of it, a request of the client with a line of at most 4095
  characters arrives whole, leaves what follows in the socket, and gives the server exactly that line; a
  line of more than 4096 characters makes the server read past the array of the request.\<close>

theorem request_arrives:
  assumes "CHR 0x00 \<notin> set w" "int (length w) \<le> INT_MAX"
  shows "(\<exists>ks'. recv_all ks REQUEST_SIZE [] (request_bytes (query_request w) @ rest) =
      (int REQUEST_SIZE, request_bytes (query_request w), ks', rest)) \<and>
    rq_type (request_of_bytes (request_bytes (query_request w))) = MSG_QUERY \<and>
    (length w \<le> 4095 \<longrightarrow> request_query (request_of_bytes (request_bytes (query_request w))) = Inr w) \<and>
    (4096 < length w \<longrightarrow> request_query (request_of_bytes (request_bytes (query_request w))) = Inl Undefined)"
proof (intro conjI impI)
  show "\<exists>ks'. recv_all ks REQUEST_SIZE [] (request_bytes (query_request w) @ rest) =
      (int REQUEST_SIZE, request_bytes (query_request w), ks', rest)"
    using recv_all_whole[of REQUEST_SIZE "[]" "request_bytes (query_request w)" ks rest] by simp
  show "rq_type (request_of_bytes (request_bytes (query_request w))) = MSG_QUERY"
    by (simp add: query_request_back[OF assms(2)])
  show "request_query (request_of_bytes (request_bytes (query_request w))) = Inr w" if "length w \<le> 4095"
    by (rule query_request_text[OF assms(1) that])
  show "request_query (request_of_bytes (request_bytes (query_request w))) = Inl Undefined" if "4096 < length w"
    using that by (simp add: request_query_def query_request_back[OF assms(2)])
qed

theorem request_arrives_witness:
  "\<exists>ks'. recv_all [1, 2, 3] REQUEST_SIZE [] (request_bytes (query_request ''help'') @ [7]) =
     (int REQUEST_SIZE, request_bytes (query_request ''help''), ks', [7]) \<and>
   request_query (request_of_bytes (request_bytes (query_request ''help''))) = Inr ''help''"
proof -
  have "CHR 0x00 \<notin> set ''help''" "int (length ''help'') \<le> INT_MAX" "length ''help'' \<le> 4095" by (simp_all add: INT_MAX_def)
  from request_arrives[OF this(1,2), of "[1, 2, 3]" "[7]"] this(3) show ?thesis by blast
qed

section \<open>Sessions\<close>

lemma row_table_cong:
  fixes s t :: "'z sm_state_scheme"
  assumes "pf_state.truncate t = pf_state.truncate s" "fhs t = fhs s" "ihs t = ihs s" "db t = db s"
  shows "row_table T t n tab = row_table T s n tab" "table_rows t n cols = table_rows s n cols" "content t = content s"
proof -
  show c: "content t = content s" by (rule db_live_cong[OF assms(1-3)])
  then show "table_rows t n cols = table_rows s n cols" by (simp add: table_rows_def fun_eq_iff)
  have "db_open T t = db_open T s"
    by (simp add: db_open_def db_fds_def assms(2,3) base_wf[OF assms(1)] base_cong[OF assms(1)])
  then show "row_table T t n tab = row_table T s n tab"
    using assms c by (simp add: row_table_def table_meta_def rows_stored_def table_size_def)
qed

lemma more_conn:
  fixes s t :: "'z conn_state_scheme"
  assumes "sm_state.more t = sm_state.more s"
  shows "parse_tree t = parse_tree s" "conn_in t = conn_in s" "conn_pieces t = conn_pieces s" "conn_closed t = conn_closed s" "conn_out t = conn_out s"
  using assms by (cases s; cases t; simp)+

definition inserted_response :: "QueryResponse \<times> string" where
  "inserted_response = result_response True ''1 row inserted'' [] 1"

text \<open>A statement \<open>INSERT\<close> whose literals fit the columns of the table.\<close>

definition fitting_row :: "Table_Metadata \<Rightarrow> AstValue list \<Rightarrow> literal list \<Rightarrow> bool" where
  "fitting_row tab lits row \<longleftrightarrow> (\<exists>vals. map_sum_list interp_sv_value lits = Inr vals \<and> length vals = length (tm_cols tab) \<and>
     row = map v_lit vals \<and> (\<forall>(col, v) \<in> set (zip (tm_cols tab) vals). value_fits col v \<and> storable (v_lit v)))"

text \<open>The try block of the server from the parsed tree on.\<close>

definition run_parsed :: "string \<Rightarrow> nat \<Rightarrow> ('z server_state_scheme, stop, QueryResponse \<times> string) prog" where
  "run_parsed strerr fuel = try_catch strerr (andThen (gets parse_tree) (\<lambda>tree. andThen (interp_sql fuel tree) (\<lambda>res.
      andThen (stopped (format_result (command_type res) (res_data res))) (\<lambda>(msg, txt, rows).
      ret (result_response (ir_ok res) msg txt rows)))))"

lemma handle_query_parsed:
  "yy (c_str q) = None \<Longrightarrow> handle_query strerr yy fuel q s = run_parsed strerr fuel s"
  "yy (c_str q) = Some n \<Longrightarrow> handle_query strerr yy fuel q s = run_parsed strerr fuel (s\<lparr>parse_tree := n\<rparr>)"
  by (simp_all add: handle_query_def run_parsed_def parse_sql_def try_catch_def c_str_def)

lemma insert_stmt_run:
  assumes r: "row_table T s name tab" "no_index tab" and f: "fitting_row tab lits row"
    and room: "rec_room (Suc k) (the (map_of (fhs s) name))" and tree: "parse_tree s = InsertStmt name lits"
  shows "\<exists>q t. run_parsed strerr fuel s = (Inr inserted_response, t) \<and>
    table_rows s name (tm_cols tab) q = None \<and> row_table T t name tab \<and>
    table_rows t name (tm_cols tab) = (table_rows s name (tm_cols tab))(q \<mapsto> row) \<and>
    rec_room k (the (map_of (fhs t) name)) \<and> sm_state.more t = sm_state.more s"
proof -
  obtain vals where v: "map_sum_list interp_sv_value lits = Inr vals" "length vals = length (tm_cols tab)" "row = map v_lit vals"
    "\<forall>(col, v) \<in> set (zip (tm_cols tab) vals). value_fits col v \<and> storable (v_lit v)"
    using f by (auto simp: fitting_row_def)
  obtain q t M where t: "insert_into name vals s = (Inr \<lparr>ir_table = name, ir_success = True, ir_message = ''1 row inserted''\<rparr>, t)"
    "table_rows s name (tm_cols tab) q = None" "row_table T t name tab"
    "table_rows t name (tm_cols tab) = (table_rows s name (tm_cols tab))(q \<mapsto> map v_lit vals)"
    "rec_room k (the (map_of (fhs t) name))" "db_writes T s name M t"
    using insert_row[OF r v(2,4) room] by blast
  have "sm_state.more t = sm_state.more s" using t(6) by (simp add: db_writes_def db_frame_def)
  then show ?thesis
    using t v tree by (intro exI[of _ q] exI[of _ t]) (simp add: run_parsed_def try_catch_def interp_result_def inserted_response_def)
qed

text \<open>C28: a text that is no statement makes the server run the statement before it again: after an
  \<open>INSERT\<close>, the row is inserted once more and the client is told so.\<close>

theorem bad_query_inserts_again:
  assumes "row_table T s name tab" "no_index tab" "fitting_row tab lits row"
    and "rec_room (Suc k) (the (map_of (fhs s) name))" "parse_tree s = InsertStmt name lits" "yy (c_str bad) = None"
  shows "\<exists>q t. handle_query strerr yy fuel bad s = (Inr inserted_response, t) \<and> table_rows s name (tm_cols tab) q = None \<and>
    table_rows t name (tm_cols tab) = (table_rows s name (tm_cols tab))(q \<mapsto> row) \<and> parse_tree t = parse_tree s"
proof -
  obtain q t where t: "run_parsed strerr fuel s = (Inr inserted_response, t)"
    "table_rows s name (tm_cols tab) q = None" "table_rows t name (tm_cols tab) = (table_rows s name (tm_cols tab))(q \<mapsto> row)"
    "sm_state.more t = sm_state.more s"
    using insert_stmt_run[OF assms(1-5)] by blast
  have "handle_query strerr yy fuel bad s = (Inr inserted_response, t)"
    using t(1) assms(6) by (simp add: handle_query_parsed(1))
  moreover have "parse_tree t = parse_tree s" using t(4) by (cases s; cases t; simp)
  ultimately show ?thesis using t(2,3) by blast
qed


lemma fitting_ex: "fitting_row ex_tab [IntLit 7, StringLit ''xy''] ex_row"
  unfolding fitting_row_def using ex_vals_fit by (intro exI[of _ ex_vals]) (simp add: ex_vals_def)

definition ex_again :: server_state where
  "ex_again = (ex_db1 \<lparr>parse_tree = NullNode\<rparr>)\<lparr>parse_tree := InsertStmt ''t'' [IntLit 7, StringLit ''xy'']\<rparr>"

theorem bad_query_inserts_again_witness:
  "\<exists>q t. handle_query [] (\<lambda>_. None) 5 ''oops'' ex_again = (Inr inserted_response, t) \<and> table_rows t ''t'' ex_cols = [q \<mapsto> ex_row]"
proof -
  let ?s = "ex_db1 \<lparr>parse_tree = NullNode\<rparr>"
  have c: "row_table T ex_again n tab = row_table T ?s n tab" "table_rows ex_again n cols = table_rows ?s n cols" for T n tab cols
    unfolding ex_again_def by (rule row_table_cong; simp add: pf_state.defs)+
  have room: "rec_room (Suc 999) (the (map_of (fhs ex_again) ''t''))"
    using ex_db1_facts(9)[of "\<lparr>parse_tree = NullNode\<rparr>"] by (simp add: ex_again_def)
  have tree: "parse_tree ex_again = InsertStmt ''t'' [IntLit 7, StringLit ''xy'']" by (simp add: ex_again_def)
  have e: "table_rows ex_again ''t'' ex_cols = Map.empty" "tm_cols ex_tab = ex_cols"
    using ex_db1_facts(7)[of "\<lparr>parse_tree = NullNode\<rparr>"] by (simp_all add: ex_tab_def c)
  have "row_table no_trees ex_again ''t'' ex_tab" using ex_db1_facts(5)[of "\<lparr>parse_tree = NullNode\<rparr>"] by (simp add: c)
  from bad_query_inserts_again[OF this ex_db1_facts(6) fitting_ex room tree, of "\<lambda>_. None" "''oops''" "[]" 5]
  show ?thesis unfolding e by auto
qed

lemma recv_closed: "\<exists>ks' inp. recv_all ks n [] [] = (0, [], ks', inp)"
  by (cases ks) (simp_all add: recv_all.simps)

text \<open>Requests of \<open>INSERT\<close> statements are answered one by one; what follows them stays in the socket.\<close>

lemma insert_requests:
  fixes s :: "'z conn_state_scheme"
  assumes "row_table T s name tab" "no_index tab"
    and "\<forall>(w, lits, row) \<in> set reqs. CHR 0x00 \<notin> set w \<and> length w \<le> 4095 \<and> yy w = Some (InsertStmt name lits) \<and> fitting_row tab lits row"
    and "rec_room (length reqs) (the (map_of (fhs s) name))"
    and "conn_in s = concat (map (\<lambda>req. request_bytes (query_request (fst req))) reqs) @ rest"
  shows "\<exists>rids t. (\<forall>k. client_thread strerr yy fuel (length reqs + k) s = client_thread strerr yy fuel k t) \<and> conn_in t = rest \<and> conn_closed t = conn_closed s \<and>
    conn_out t = conn_out s @ replicate (length reqs) inserted_response \<and>
    length rids = length reqs \<and> distinct rids \<and> set rids \<inter> dom (table_rows s name (tm_cols tab)) = {} \<and>
    row_table T t name tab \<and>
    table_rows t name (tm_cols tab) = table_rows s name (tm_cols tab) ++ map_of (zip rids (map (\<lambda>(_, _, row). row) reqs))"
  using assms(1,3,4,5)
proof (induction reqs arbitrary: s)
  case Nil
  then show ?case by (intro exI[of _ "[]"] exI[of _ s]) simp
next
  case (Cons req reqs)
  obtain w lits row where req: "req = (w, lits, row)" by (cases req)
  have q: "CHR 0x00 \<notin> set w" "length w \<le> 4095" "yy w = Some (InsertStmt name lits)" "fitting_row tab lits row"
    using Cons.prems(2) by (simp_all add: req)
  let ?rest = "concat (map (\<lambda>req. request_bytes (query_request (fst req))) reqs) @ rest"
  obtain ks where ks: "recv_all (conn_pieces s) REQUEST_SIZE [] (request_bytes (query_request w) @ ?rest) =
      (int REQUEST_SIZE, request_bytes (query_request w), ks, ?rest)"
    using recv_all_whole[of REQUEST_SIZE "[]" "request_bytes (query_request w)" "conn_pieces s" ?rest] by auto
  let ?s2 = "s\<lparr>conn_pieces := ks, conn_in := ?rest, parse_tree := InsertStmt name lits\<rparr>"
  have c2: "row_table T ?s2 name tab = row_table T s name tab" "table_rows ?s2 name cols = table_rows s name cols" for cols
    by (rule row_table_cong; simp add: pf_state.defs)+
  have r2: "row_table T ?s2 name tab" "rec_room (Suc (length reqs)) (the (map_of (fhs ?s2) name))"
    using Cons.prems(1,3) c2 by simp_all
  have tree: "parse_tree ?s2 = InsertStmt name lits" by simp
  obtain r t where t: "run_parsed strerr fuel ?s2 = (Inr inserted_response, t)"
    "table_rows ?s2 name (tm_cols tab) r = None" "row_table T t name tab"
    "table_rows t name (tm_cols tab) = (table_rows ?s2 name (tm_cols tab))(r \<mapsto> row)"
    "rec_room (length reqs) (the (map_of (fhs t) name))" "sm_state.more t = sm_state.more ?s2"
    using insert_stmt_run[OF r2(1) assms(2) q(4) r2(2) tree, of strerr fuel] by blast
  note M = more_conn[OF t(6)]
  have handled: "handle_query strerr yy fuel w (s\<lparr>conn_pieces := ks, conn_in := ?rest\<rparr>) = (Inr inserted_response, t)"
    using t(1) q(1,3) by (simp add: handle_query_parsed(2)[where n = "InsertStmt name lits"])
  let ?t3 = "t\<lparr>conn_out := conn_out t @ [inserted_response]\<rparr>"
  have c3: "row_table T ?t3 name tab = row_table T t name tab" "table_rows ?t3 name cols = table_rows t name cols" for cols
    by (rule row_table_cong; simp add: pf_state.defs)+
  have i: "int (length w) \<le> INT_MAX" using q(2) by (simp add: INT_MAX_def)
  have step: "client_thread strerr yy fuel (Suc (length reqs + k)) s = client_thread strerr yy fuel (length reqs + k) ?t3" for k
    using Cons.prems(4) ks handled query_request_text[OF q(1,2)]
    by (simp add: req receive_def query_request_back[OF i] MSG_QUERY_def MSG_EXIT_def REQUEST_SIZE_def)
  obtain rids u where u: "\<And>k. client_thread strerr yy fuel (length reqs + k) ?t3 = client_thread strerr yy fuel k u"
    "conn_out u = conn_out ?t3 @ replicate (length reqs) inserted_response" "length rids = length reqs" "distinct rids"
    "set rids \<inter> dom (table_rows ?t3 name (tm_cols tab)) = {}" "row_table T u name tab"
    "table_rows u name (tm_cols tab) = table_rows ?t3 name (tm_cols tab) ++ map_of (zip rids (map (\<lambda>(_, _, row). row) reqs))"
    "conn_in u = rest" "conn_closed u = conn_closed ?t3"
    using Cons.IH[of ?t3] t(3,5) c3 M Cons.prems(2) by auto
  have nr: "r \<notin> set rids" using u(5) c3 t(4) by auto
  then have "r \<notin> dom (map_of (zip rids (map (\<lambda>(_, _, row). row) reqs)))" using u(3) by (simp add: dom_map_of_zip)
  then have "table_rows u name (tm_cols tab) =
      table_rows s name (tm_cols tab) ++ map_of (zip (r # rids) (map (\<lambda>(_, _, row). row) (req # reqs)))"
    using u(7) t(4) c2 c3 by (simp add: req map_add_upd_left)
  moreover have "set (r # rids) \<inter> dom (table_rows s name (tm_cols tab)) = {}"
  proof -
    have "set rids \<inter> dom ((table_rows s name (tm_cols tab))(r \<mapsto> row)) = {}" using u(5) c2(2) c3(2) t(4) by (simp del: dom_table_rows)
    moreover have "r \<notin> dom (table_rows s name (tm_cols tab))" using t(2) c2(2) by (simp add: domIff del: dom_table_rows)
    ultimately show ?thesis by (simp del: dom_table_rows)
  qed
  moreover have "client_thread strerr yy fuel (length (req # reqs) + k) s = client_thread strerr yy fuel k u" for k
    using step[of k] u(1)[of k] by (simp del: client_thread.simps)
  moreover have "conn_out u = conn_out s @ replicate (length (req # reqs)) inserted_response" using u(2) M by simp
  moreover have "length (r # rids) = length (req # reqs)" "distinct (r # rids)" using u(3,4) nr by simp_all
  moreover have "conn_closed u = conn_closed s" using u(9) M by simp
  ultimately show ?case using u(6,8) by blast
qed


text \<open>A session of \<open>INSERT\<close> statements: every request is answered, in order and with success, the
  rows are stored under new and distinct ids, and the thread ends when the client closes the connection.\<close>

theorem insert_session:
  fixes s :: "'z conn_state_scheme"
  assumes "row_table T s name tab" "no_index tab"
    and "\<forall>(w, lits, row) \<in> set reqs. CHR 0x00 \<notin> set w \<and> length w \<le> 4095 \<and> yy w = Some (InsertStmt name lits) \<and> fitting_row tab lits row"
    and "rec_room (length reqs) (the (map_of (fhs s) name))"
    and "conn_in s = concat (map (\<lambda>req. request_bytes (query_request (fst req))) reqs)" "conn_closed s"
  shows "\<exists>rids t. client_thread strerr yy fuel (Suc (length reqs)) s = (Inr (), t) \<and>
    conn_out t = conn_out s @ replicate (length reqs) inserted_response \<and>
    length rids = length reqs \<and> distinct rids \<and> set rids \<inter> dom (table_rows s name (tm_cols tab)) = {} \<and>
    row_table T t name tab \<and>
    table_rows t name (tm_cols tab) = table_rows s name (tm_cols tab) ++ map_of (zip rids (map (\<lambda>(_, _, row). row) reqs))"
proof -
  obtain rids u where u: "\<And>k. client_thread strerr yy fuel (length reqs + k) s = client_thread strerr yy fuel k u" "conn_in u = []"
    "conn_out u = conn_out s @ replicate (length reqs) inserted_response" "length rids = length reqs" "distinct rids"
    "set rids \<inter> dom (table_rows s name (tm_cols tab)) = {}" "row_table T u name tab"
    "table_rows u name (tm_cols tab) = table_rows s name (tm_cols tab) ++ map_of (zip rids (map (\<lambda>(_, _, row). row) reqs))"
    "conn_closed u = conn_closed s"
    using insert_requests[OF assms(1-4), of "[]" strerr fuel] assms(5) by auto
  obtain ks inp where r: "recv_all (conn_pieces u) REQUEST_SIZE [] [] = (0, [], ks, inp)"
    using recv_closed by blast
  let ?t = "u\<lparr>conn_pieces := ks, conn_in := inp\<rparr>"
  have "client_thread strerr yy fuel (Suc (length reqs)) s = (Inr (), ?t)" using u(1)[of 1] r u(2,9) assms(6) by (simp add: receive_def)
  moreover have "row_table T ?t name tab = row_table T u name tab" "table_rows ?t name cols = table_rows u name cols" for cols
    by (rule row_table_cong; simp add: pf_state.defs)+
  ultimately show ?thesis using u(3-8) by (intro exI[of _ rids] exI[of _ ?t]) simp
qed

definition ex_conn :: conn_state where
  "ex_conn = (ex_db1 \<lparr>parse_tree = NullNode, conn_in = [], conn_pieces = [1000, 7], conn_closed = True, conn_out = []\<rparr>)
     \<lparr>conn_in := concat (replicate 2 (request_bytes (query_request ''ins''))), conn_closed := True, conn_out := []\<rparr>"

theorem insert_session_witness:
  "\<exists>p q t. client_thread [] (\<lambda>_. Some (InsertStmt ''t'' [IntLit 7, StringLit ''xy''])) 5 3 ex_conn = (Inr (), t) \<and> p \<noteq> q \<and>
     conn_out t = [inserted_response, inserted_response] \<and> table_rows t ''t'' ex_cols = [p \<mapsto> ex_row, q \<mapsto> ex_row]"
proof -
  let ?m = "\<lparr>parse_tree = NullNode, conn_in = [], conn_pieces = [1000, 7], conn_closed = True, conn_out = []\<rparr>" and ?lits = "[IntLit 7, StringLit ''xy'']"
  let ?reqs = "[(''ins'', ?lits, ex_row), (''ins'', ?lits, ex_row)]" and ?yy = "\<lambda>_. Some (InsertStmt ''t'' ?lits)"
  have c: "row_table T ex_conn n tab = row_table T (ex_db1 ?m) n tab" "table_rows ex_conn n cols = table_rows (ex_db1 ?m) n cols" for T n tab cols
    unfolding ex_conn_def by (rule row_table_cong; simp add: pf_state.defs)+
  have rt: "row_table no_trees ex_conn ''t'' ex_tab" using ex_db1_facts(5)[of ?m] by (simp add: c)
  have ok: "\<forall>(w, lits, row) \<in> set ?reqs. CHR 0x00 \<notin> set w \<and> length w \<le> 4095 \<and> ?yy w = Some (InsertStmt ''t'' lits) \<and> fitting_row ex_tab lits row"
    using fitting_ex by simp
  have room: "rec_room (length ?reqs) (the (map_of (fhs ex_conn) ''t''))"
    using ex_db1_facts(9)[of ?m] by (simp add: ex_conn_def rec_room_def)
  have inp: "conn_in ex_conn = concat (map (\<lambda>req. request_bytes (query_request (fst req))) ?reqs)"
    by (simp add: ex_conn_def numeral_2_eq_2)
  have e: "table_rows ex_conn ''t'' ex_cols = Map.empty" "tm_cols ex_tab = ex_cols" "conn_out ex_conn = []" "conn_closed ex_conn"
    using ex_db1_facts(7)[of ?m] by (simp_all add: ex_tab_def c) (simp_all add: ex_conn_def)
  obtain rids t where t: "client_thread [] ?yy 5 (Suc (length ?reqs)) ex_conn = (Inr (), t)"
    "conn_out t = conn_out ex_conn @ replicate (length ?reqs) inserted_response" "length rids = length ?reqs" "distinct rids"
    "table_rows t ''t'' ex_cols = table_rows ex_conn ''t'' ex_cols ++ map_of (zip rids (map (\<lambda>(_, _, row). row) ?reqs))"
    using insert_session[OF rt ex_db1_facts(6) ok room inp e(4), of "[]" 5] unfolding e(2) by blast
  obtain p q where pq: "rids = [p, q]" using t(3) by (auto simp: length_Suc_conv)
  show ?thesis
    using t pq e by (intro exI[of _ q] exI[of _ p] exI[of _ t]) (simp add: numeral_3_eq_3)
qed

section \<open>Locks and restarts\<close>

text \<open>C29: the value of a semaphore outlasts the process: when \<open>metadata_sem\<close> is still taken as the server
  ends without its signal handler, the next server starts with it taken and every statement on the catalog
  blocks; the handler removes the semaphores, and a server that starts after it can take all of them.\<close>

theorem restart_keeps_lock:
  assumes "\<forall>n \<in> set sem_names. ok n" "metadata_sem s = 0"
  shows "(\<exists>K. setup_db_semaphores ok (detach s K0) = Some K \<and> metadata_sem (attach K u) = 0 \<and>
      (\<forall>n is. create_table n is (attach K u) = (Inl Blocked, attach K u)) \<and> close_db (attach K u) = (Inl Blocked, attach K u)) \<and>
    (\<exists>K. setup_db_semaphores ok (cleanup_db_semaphores (detach s K0)) = Some K \<and> sems_free (attach K u) \<and>
      cache_sem (attach K u) = 1 \<and> fd_map_sem (attach K u) = 1)"
proof
  obtain K where K: "setup_db_semaphores ok (detach s K0) = Some K" "\<And>n. n \<in> set sem_names \<Longrightarrow> K n = Some (case detach s K0 n of None \<Rightarrow> 1 | Some v \<Rightarrow> v)"
    by (rule setup_run[OF assms(1), of "detach s K0"]) blast
  have m: "metadata_sem (attach K u) = 0"
    using K(2)[of "''/db_metadata_sem''"] assms(2) by (simp add: attach_def detach_def sem_names_def)
  have "create_table n is (attach K u) = (Inl Blocked, attach K u)" "close_db (attach K u) = (Inl Blocked, attach K u)" for n "is"
    by (simp_all add: create_table_def close_db_def sem_blocked(1)[OF m])
  then show "\<exists>K. setup_db_semaphores ok (detach s K0) = Some K \<and> metadata_sem (attach K u) = 0 \<and>
      (\<forall>n is. create_table n is (attach K u) = (Inl Blocked, attach K u)) \<and> close_db (attach K u) = (Inl Blocked, attach K u)"
    using K(1) m by blast
next
  let ?C = "cleanup_db_semaphores (detach s K0)"
  obtain K where K: "setup_db_semaphores ok ?C = Some K" "\<And>n. n \<in> set sem_names \<Longrightarrow> K n = Some (case ?C n of None \<Rightarrow> 1 | Some v \<Rightarrow> v)"
    by (rule setup_run[OF assms(1), of ?C]) blast
  have "K n = Some 1" if "n \<in> set sem_names" for n
    using K(2)[OF that] that by (auto simp: cleanup_db_semaphores_def sem_names_def)
  then have "sems_free (attach K u) \<and> cache_sem (attach K u) = 1 \<and> fd_map_sem (attach K u) = 1"
    by (simp add: attach_def sems_free_def sem_names_def)
  then show "\<exists>K. setup_db_semaphores ok ?C = Some K \<and> sems_free (attach K u) \<and> cache_sem (attach K u) = 1 \<and> fd_map_sem (attach K u) = 1"
    using K(1) by blast
qed

theorem restart_keeps_lock_witness:
  "\<exists>K. setup_db_semaphores (\<lambda>_. True) (detach ((sm_start ())\<lparr>metadata_sem := 0\<rparr>) Map.empty) = Some K \<and>
     close_db (attach K (sm_start ())) = (Inl Blocked, attach K (sm_start ()))"
  using restart_keeps_lock[of "\<lambda>_. True" "(sm_start ())\<lparr>metadata_sem := 0\<rparr>" Map.empty "sm_start ()"] by auto

end
