(* ===== verification/QlPlan.thy ===== *)
theory QlPlan
  imports QlRows
begin

text \<open>
  What a query plan produces. \<open>stream k T s n ds\<close>: from the state \<open>s\<close> on, the node \<open>n\<close> yields the
  records \<open>ds\<close> one after the other, when every step gets fuel \<open>k\<close>; the steps only read. Table nodes,
  projections and joins are streams, so a plan is one: a join of tables yields its records by
  nested loops, each table filtered by the conditions that are closed once the tables before it
  are fixed.
\<close>

section \<open>Streams\<close>

text \<open>A node without what iteration changes.\<close>

fun bare :: "QlNode \<Rightarrow> QlNode" where
  "bare (NTable t) = NTable (t\<lparr>tn_fed_conds := tn_conds t, tn_rid := RecordID 0 0, tn_scan := NoScan\<rparr>)"
| "bare (NJoin l r len cols feed) = NJoin (bare l) (bare r) len cols Map.empty"
| "bare (NProj p cols len idxs) = NProj (bare p) cols len idxs"

lemma bare_fields: "node_len (bare n) = node_len n" "node_cols (bare n) = node_cols n"
  by (induction n) simp_all

lemma bare_same: "bare m = bare n \<Longrightarrow> node_len m = node_len n \<and> node_cols m = node_cols n"
  by (metis bare_fields)

primrec stream :: "nat \<Rightarrow> (string \<Rightarrow> bt) \<Rightarrow> 'z sm_state_scheme \<Rightarrow> QlNode \<Rightarrow> byte list list \<Rightarrow> bool" where
  "stream k T s n [] = (node_is_end n = Inr True)"
| "stream k T s n (d # ds) = (node_is_end n = Inr False \<and> (\<forall>t. db_reads T s t \<longrightarrow>
     (\<exists>u. node_rec n t = (Inr d, u) \<and> db_reads T t u) \<and>
     (\<forall>fuel \<ge> k. \<exists>n' u. node_next fuel n t = (Inr n', u) \<and> db_reads T t u \<and> bare n' = bare n \<and> stream k T u n' ds)))"

lemma stream_end: "stream k T s n ds \<Longrightarrow> node_is_end n = Inr (ds = [])"
  by (cases ds) auto

lemma stream_reads:
  assumes "stream k T s n ds" "db_reads T s t"
  shows "stream k T t n ds"
proof (cases ds)
  case (Cons d ds')
  have "\<forall>u. db_reads T t u \<longrightarrow> db_reads T s u" using db_reads_trans[OF assms(2)] by blast
  then show ?thesis using assms(1) unfolding Cons by (simp del: split_paired_All split_paired_Ex)
qed (use assms in simp)

lemma stream_mono:
  assumes "stream k T s n ds" "k \<le> k'"
  shows "stream k' T s n ds"
  using assms(1)
proof (induction ds arbitrary: s n)
  case (Cons d ds)
  have "(\<exists>u. node_rec n t = (Inr d, u) \<and> db_reads T t u) \<and>
     (\<forall>fuel \<ge> k'. \<exists>n' u. node_next fuel n t = (Inr n', u) \<and> db_reads T t u \<and> bare n' = bare n \<and> stream k' T u n' ds)"
    if t: "db_reads T s t" for t
  proof (intro conjI allI impI)
    show "\<exists>u. node_rec n t = (Inr d, u) \<and> db_reads T t u" using Cons.prems t by simp
    fix fuel assume "k' \<le> fuel"
    then have "k \<le> fuel" using assms(2) by simp
    with Cons.prems t obtain n' u where "node_next fuel n t = (Inr n', u)" "db_reads T t u" "bare n' = bare n" "stream k T u n' ds"
      unfolding stream.simps by blast
    then show "\<exists>n' u. node_next fuel n t = (Inr n', u) \<and> db_reads T t u \<and> bare n' = bare n \<and> stream k' T u n' ds"
      using Cons.IH by blast
  qed
  then show ?case using Cons.prems by simp
qed simp

text \<open>The steps of a stream as runs.\<close>

lemma stream_step:
  assumes "stream k T s n (d # ds)" "db_open T s"
  shows "node_is_end n = Inr False" "\<exists>u. node_rec n s = (Inr d, u) \<and> db_reads T s u"
    "k \<le> fuel \<Longrightarrow> \<exists>n' u. node_next fuel n s = (Inr n', u) \<and> db_reads T s u \<and> bare n' = bare n \<and> stream k T u n' ds"
  using assms db_reads_refl[of T s] by simp_all

lemma stream_intro:
  assumes "node_is_end n = Inr False"
    and "\<And>t. db_reads T s t \<Longrightarrow> \<exists>u. node_rec n t = (Inr d, u) \<and> db_reads T t u"
    and "\<And>t fuel. db_reads T s t \<Longrightarrow> k \<le> fuel \<Longrightarrow>
      \<exists>n' u. node_next fuel n t = (Inr n', u) \<and> db_reads T t u \<and> bare n' = bare n \<and> stream k T u n' ds"
  shows "stream k T s n (d # ds)"
  unfolding stream.simps using assms by blast

lemma not_at_end_run [simp]: "node_is_end n = Inr False \<Longrightarrow> not_at_end n s = (Inr (), s)"
  by (simp add: not_at_end_def)

section \<open>Table nodes\<close>

definition table_data :: "'z sm_state_scheme \<Rightarrow> TableNode \<Rightarrow> RecordID list \<Rightarrow> byte list list" where
  "table_data s tn rids = map (\<lambda>r. the (content s (tn_tab_name tn) r)) (hits tn (content s (tn_tab_name tn)) rids)"

lemma scan_at_dom: "scan_at T s tab sc rids \<Longrightarrow> set rids \<subseteq> dom (content s tab)"
  unfolding scan_at_def using rec.at_dom idx.at_dom by blast

lemma table_stream:
  assumes "any.table_at T s tn all" "length all < k"
  shows "stream k T s (NTable tn) (table_data s tn all)"
  using assms
proof (induction "length all" arbitrary: s tn all rule: less_induct)
  case less
  let ?name = "tn_tab_name tn"
  show ?case
  proof (cases all)
    case Nil
    then show ?thesis using any.table_is_end[OF less.prems(1)] by (simp add: table_data_def hits_def)
  next
    case (Cons r rest)
    have at: "any.table_at T s tn (r # rest)" using less.prems(1) Cons by simp
    have "set (r # rest) \<subseteq> dom (content s ?name)" using at scan_at_dom unfolding any.table_at_def by blast
    then have sat: "row_sat tn (the (content s ?name r))" "tn_rid tn = r" "r \<in> dom (content s ?name)"
      using at unfolding any.table_at_def by auto
    have data: "table_data s tn all = the (content s ?name r) # table_data s tn rest"
      using sat(1) Cons by (simp add: table_data_def hits_def)
    show ?thesis
      unfolding data
    proof (rule stream_intro)
      show e: "node_is_end (NTable tn) = Inr False" using any.table_is_end[OF at] by simp
      fix t assume t: "db_reads T s t"
      note c = db_reads_fields(4)[OF t]
      have r: "r \<in> dom (content t ?name)" using sat(3) c by simp
      obtain fh u where "map_of (fhs t) ?name = Some fh" "get_record fh r t = (Inr (the (content t ?name r)), u)" "db_reads T t u"
        by (rule get_content[OF db_reads_open[OF t] r])
      then show "\<exists>u. node_rec (NTable tn) t = (Inr (the (content s ?name r)), u) \<and> db_reads T t u"
        using e sat(2) c by simp
      fix fuel assume k: "k \<le> fuel"
      then obtain f where f: "fuel = Suc f" using less.prems(2) by (cases fuel) simp_all
      have fr: "length rest < f" using k less.prems(2) Cons f by simp
      have at_t: "any.table_at T t tn (r # rest)" by (rule any.table_at_reads[OF at t])
      obtain all' r' sc u where u: "table_next f tn t = (Inr (tn\<lparr>tn_rid := r', tn_scan := sc\<rparr>), u)" "db_reads T t u"
        "any.table_at T u (tn\<lparr>tn_rid := r', tn_scan := sc\<rparr>) all'" "length all' \<le> length rest"
        "hits tn (content t ?name) all' = hits tn (content t ?name) rest"
        using any.table_next_run[OF at_t fr] by blast
      have len: "length all' < length all" "length all' < k" using u(4) Cons less.prems(2) by simp_all
      have "table_data u (tn\<lparr>tn_rid := r', tn_scan := sc\<rparr>) all' = table_data s tn rest"
        using u(5) c db_reads_fields(4)[OF u(2)] by (simp add: table_data_def)
      then have "stream k T u (NTable (tn\<lparr>tn_rid := r', tn_scan := sc\<rparr>)) (table_data s tn rest)"
        using less.hyps[OF len(1) u(3) len(2)] by simp
      then show "\<exists>n' u. node_next fuel (NTable tn) t = (Inr n', u) \<and> db_reads T t u \<and> bare n' = bare (NTable tn) \<and>
          stream k T u n' (table_data s tn rest)"
        using f u(1,2) by (intro exI[of _ "NTable (tn\<lparr>tn_rid := r', tn_scan := sc\<rparr>)"] exI[of _ u]) simp
    qed
  qed
qed

section \<open>Projections and collecting\<close>

lemma proj_stream:
  assumes "stream k T s p ds" "db_open T s"
  shows "stream (Suc k) T s (NProj p cols len idxs)
    (map (\<lambda>d. project_bytes (node_cols p) (zip cols idxs) d (replicate (nat len) 0)) ds)"
  using assms
proof (induction ds arbitrary: s p)
  case (Cons d ds)
  note P = stream_step[OF Cons.prems]
  have "stream (Suc k) T s (NProj p cols len idxs) (project_bytes (node_cols p) (zip cols idxs) d (replicate (nat len) 0) #
      map (\<lambda>d. project_bytes (node_cols p) (zip cols idxs) d (replicate (nat len) 0)) ds)"
  proof (rule stream_intro)
    show e: "node_is_end (NProj p cols len idxs) = Inr False" using P(1) by simp
    fix t assume t: "db_reads T s t"
    note Q = stream_step[OF stream_reads[OF Cons.prems(1) t] db_reads_open[OF t]]
    show "\<exists>u. node_rec (NProj p cols len idxs) t = (Inr (project_bytes (node_cols p) (zip cols idxs) d (replicate (nat len) 0)), u) \<and>
        db_reads T t u" using Q(2) e by auto
    fix fuel assume "Suc k \<le> fuel"
    then obtain f where f: "fuel = Suc f" "k \<le> f" by (cases fuel) simp_all
    from Q(3)[OF f(2)] obtain p' u where u: "node_next f p t = (Inr p', u)" "db_reads T t u" "bare p' = bare p" "stream k T u p' ds"
      by blast
    have "stream (Suc k) T u (NProj p' cols len idxs)
        (map (\<lambda>d. project_bytes (node_cols p) (zip cols idxs) d (replicate (nat len) 0)) ds)"
      using Cons.IH[OF u(4) db_reads_open[OF u(2)]] bare_same[OF u(3)] by simp
    then show "\<exists>n' u. node_next fuel (NProj p cols len idxs) t = (Inr n', u) \<and> db_reads T t u \<and>
        bare n' = bare (NProj p cols len idxs) \<and>
        stream (Suc k) T u n' (map (\<lambda>d. project_bytes (node_cols p) (zip cols idxs) d (replicate (nat len) 0)) ds)"
      using f(1) u(1-3) P(1) by (intro exI[of _ "NProj p' cols len idxs"] exI[of _ u]) simp
  qed
  then show ?case by (simp only: list.map)
qed simp

lemma collect_rows_stream:
  assumes "stream k T s n ds" "db_open T s" "k + length ds < fuel"
  shows "\<exists>t. collect_rows fuel n s = (Inr (map (result_row (node_cols n)) ds), t) \<and> db_reads T s t"
  using assms
proof (induction ds arbitrary: s n fuel)
  case Nil
  then obtain f where "fuel = Suc f" by (cases fuel) simp_all
  then show ?case using Nil db_reads_refl[of T s] by simp
next
  case (Cons d ds)
  then obtain f where f: "fuel = Suc f" "k \<le> f" by (cases fuel) simp_all
  note P = stream_step[OF Cons.prems(1,2)]
  obtain t where t: "node_rec n s = (Inr d, t)" "db_reads T s t" using P(2) by blast
  have st: "stream k T t n (d # ds)" by (rule stream_reads[OF Cons.prems(1) t(2)])
  obtain n' u where u: "node_next f n t = (Inr n', u)" "db_reads T t u" "bare n' = bare n" "stream k T u n' ds"
    using stream_step(3)[OF st db_reads_open[OF t(2)] f(2)] by blast
  obtain v where v: "collect_rows f n' u = (Inr (map (result_row (node_cols n')) ds), v)" "db_reads T u v"
    using Cons.IH[OF u(4) db_reads_open[OF u(2)], of f] Cons.prems(3) f(1) by auto
  show ?case
    using P(1) t u v f(1) bare_same[OF u(3)] db_reads_trans[OF db_reads_trans[OF t(2) u(2)] v(2)]
    by (intro exI[of _ v]) simp
qed

section \<open>Joins\<close>

definition glue :: "int \<Rightarrow> int \<Rightarrow> byte list \<Rightarrow> byte list \<Rightarrow> byte list" where
  "glue la lb d e = take (nat la) d @ take (nat lb) e"

text \<open>The right node can be started again for every left record, and then yields \<open>den\<close> of it.\<close>

definition restarts :: "nat \<Rightarrow> (string \<Rightarrow> bt) \<Rightarrow> 'z sm_state_scheme \<Rightarrow> QlNode \<Rightarrow> Column_Metadata list \<Rightarrow> (TabCol \<rightharpoonup> Value) \<Rightarrow>
    (byte list \<Rightarrow> byte list list) \<Rightarrow> byte list set \<Rightarrow> bool" where
  "restarts k T s r0 cols feed den D \<longleftrightarrow> (\<forall>d \<in> D. \<forall>r t. bare r = bare r0 \<longrightarrow> db_reads T s t \<longrightarrow>
     (\<exists>dict r1. rec2dict cols d Map.empty = Inr dict \<and> node_feed r (dict ++ feed) t = (Inr r1, t) \<and>
       (\<forall>fuel \<ge> k. \<exists>r2 u. node_begin fuel r1 t = (Inr r2, u) \<and> db_reads T t u \<and> bare r2 = bare r0 \<and> stream k T u r2 (den d))))"

lemma restarts_reads: "restarts k T s r0 cols feed den D \<Longrightarrow> db_reads T s t \<Longrightarrow> restarts k T t r0 cols feed den D"
  unfolding restarts_def using db_reads_trans by blast

lemma restarts_sub: "restarts k T s r0 cols feed den D \<Longrightarrow> E \<subseteq> D \<Longrightarrow> restarts k T s r0 cols feed den E"
  unfolding restarts_def by blast

text \<open>The right node for the record the left node stands at.\<close>

lemma restart_run:
  assumes l: "stream k T s l (d # ls)" "db_open T s" and r: "restarts k T s r0 (node_cols l) feed den D" "d \<in> D" "bare r = bare r0"
    and f: "k \<le> fuel"
  shows "\<exists>r1 r2 t u. feed_right l r feed s = (Inr r1, t) \<and> node_begin fuel r1 t = (Inr r2, u) \<and> db_reads T s u \<and>
    bare r2 = bare r0 \<and> stream k T u r2 (den d)"
proof -
  obtain t where t: "node_rec l s = (Inr d, t)" "db_reads T s t" using stream_step(2)[OF l] by blast
  obtain dict r1 where r1: "rec2dict (node_cols l) d Map.empty = Inr dict" "node_feed r (dict ++ feed) t = (Inr r1, t)"
    "\<forall>fuel \<ge> k. \<exists>r2 u. node_begin fuel r1 t = (Inr r2, u) \<and> db_reads T t u \<and> bare r2 = bare r0 \<and> stream k T u r2 (den d)"
    using r(1)[unfolded restarts_def, rule_format, OF r(2,3) t(2)] by blast
  obtain r2 u where u: "node_begin fuel r1 t = (Inr r2, u)" "db_reads T t u" "bare r2 = bare r0" "stream k T u r2 (den d)"
    using r1(3) f by blast
  have "feed_right l r feed s = (Inr r1, t)" using t(1) r1(1,2) by (simp add: feed_right_def)
  then show ?thesis using u db_reads_trans[OF t(2) u(2)] by blast
qed

lemma join_rec:
  assumes "stream k T s l (d # ls)" "stream k T s r (e # rs)" "db_open T s"
  shows "\<exists>u. node_rec (NJoin l r len cols feed) s = (Inr (glue (node_len l) (node_len r) d e), u) \<and> db_reads T s u"
proof -
  obtain t where t: "node_rec l s = (Inr d, t)" "db_reads T s t" using stream_step(2)[OF assms(1,3)] by blast
  obtain u where "node_rec r t = (Inr e, u)" "db_reads T t u"
    using stream_step(2)[OF stream_reads[OF assms(2) t(2)] db_reads_open[OF t(2)]] by blast
  then show ?thesis using t db_reads_trans[OF t(2)] stream_step(1)[OF assms(1,3)] by (simp add: glue_def)
qed

text \<open>A join that stands at a record of both sides, when the right side can go on.\<close>

lemma join_stands:
  assumes "stream k T s l (d # ls)" "stream k T s r (e # rs)" "db_open T s"
    and step: "\<And>t r' fuel. db_reads T s t \<Longrightarrow> stream k T t r' rs \<Longrightarrow> bare r' = bare r \<Longrightarrow> k + m + 1 \<le> fuel \<Longrightarrow>
      \<exists>n u. join_seek fuel l r' len cols feed t = (Inr n, u) \<and> db_reads T t u \<and> bare n = bare (NJoin l r len cols feed) \<and>
        stream (k + m + 2) T u n ds"
  shows "stream (k + m + 2) T s (NJoin l r len cols feed) (glue (node_len l) (node_len r) d e # ds)"
proof (rule stream_intro)
  show "node_is_end (NJoin l r len cols feed) = Inr False" using stream_step(1)[OF assms(1,3)] by simp
  fix t assume t: "db_reads T s t"
  note lt = stream_reads[OF assms(1) t] and rt = stream_reads[OF assms(2) t] and ot = db_reads_open[OF t]
  show "\<exists>u. node_rec (NJoin l r len cols feed) t = (Inr (glue (node_len l) (node_len r) d e), u) \<and> db_reads T t u"
    by (rule join_rec[OF lt rt ot])
  fix fuel assume "k + m + 2 \<le> fuel"
  then obtain f where f: "fuel = Suc f" "k \<le> f" "k + m + 1 \<le> f" by (cases fuel) simp_all
  obtain r' u where u: "node_next f r t = (Inr r', u)" "db_reads T t u" "bare r' = bare r" "stream k T u r' rs"
    using stream_step(3)[OF rt ot f(2)] by blast
  obtain n v where v: "join_seek f l r' len cols feed u = (Inr n, v)" "db_reads T u v"
    "bare n = bare (NJoin l r len cols feed)" "stream (k + m + 2) T v n ds"
    using step[OF db_reads_trans[OF t u(2)] u(4,3) f(3)] by blast
  have "node_next fuel (NJoin l r len cols feed) t = (Inr n, v)"
    using f(1) u(1) v(1) stream_step(1)[OF assms(1,3)] by simp
  then show "\<exists>n' u. node_next fuel (NJoin l r len cols feed) t = (Inr n', u) \<and> db_reads T t u \<and>
      bare n' = bare (NJoin l r len cols feed) \<and> stream (k + m + 2) T u n' ds"
    using v(3,4) db_reads_trans[OF u(2) v(2)] by blast
qed

lemma join_seek_stop:
  assumes "stream k T s r (e # rs)" "db_open T s" "0 < fuel" "stream K T s (NJoin l r len cols feed) ds"
  shows "\<exists>n u. join_seek fuel l r len cols feed s = (Inr n, u) \<and> db_reads T s u \<and> bare n = bare (NJoin l r len cols feed) \<and>
    stream K T u n ds"
  using assms(3,4) stream_step(1)[OF assms(1,2)] db_reads_refl[OF assms(2)]
  by (cases fuel) (simp_all del: bare.simps)

lemma join_seek_stream:
  assumes "stream k T s l (d # ls)" "stream k T s r rs" "db_open T s" "restarts k T s r0 (node_cols l) feed den (set ls)"
    "bare r = bare r0" "length ls \<le> m" "k + length ls + 1 \<le> fuel"
  shows "\<exists>n u. join_seek fuel l r len cols feed s = (Inr n, u) \<and> db_reads T s u \<and> bare n = bare (NJoin l r len cols feed) \<and>
    stream (k + m + 2) T u n (map (glue (node_len l) (node_len r0) d) rs @
      concat (map (\<lambda>d. map (glue (node_len l) (node_len r0) d) (den d)) ls))"
  using assms
proof (induction ls arbitrary: s l d r rs fuel)
  case (Nil s l d r rs fuel)
  show ?case
    using Nil.prems
  proof (induction rs arbitrary: s r fuel)
    case (Nil s r fuel)
    obtain f where f: "fuel = Suc f" "k \<le> f" using Nil.prems(7) by (cases fuel) simp_all
    obtain l' u where u: "node_next f l s = (Inr l', u)" "db_reads T s u" "bare l' = bare l" "stream k T u l' []"
      using stream_step(3)[OF Nil.prems(1,3) f(2)] by blast
    then show ?case
      using f stream_end[OF Nil.prems(2)] by (intro exI[of _ "NJoin l' r len cols feed"] exI[of _ u]) simp
  next
    case (Cons e rs s r fuel)
    note st = Cons.prems(1-3)
    have nl: "node_len r = node_len r0" using bare_same[OF Cons.prems(5)] by simp
    have "stream (k + m + 2) T s (NJoin l r len cols feed) (glue (node_len l) (node_len r) d e #
        (map (glue (node_len l) (node_len r0) d) rs @ concat (map (\<lambda>d. map (glue (node_len l) (node_len r0) d) (den d)) [])))"
    proof (rule join_stands[OF st])
      fix t r' f assume t: "db_reads T s t" "stream k T t r' rs" "bare r' = bare r" "k + m + 1 \<le> f"
      have b: "bare r' = bare r0" "k + length ([] :: byte list list) + 1 \<le> f" using t(3,4) Cons.prems(5) by simp_all
      from Cons.IH[OF stream_reads[OF st(1) t(1)] t(2) db_reads_open[OF t(1)] restarts_reads[OF Cons.prems(4) t(1)] b(1) _ b(2)]
      show "\<exists>n u. join_seek f l r' len cols feed t = (Inr n, u) \<and> db_reads T t u \<and> bare n = bare (NJoin l r len cols feed) \<and>
          stream (k + m + 2) T u n (map (glue (node_len l) (node_len r0) d) rs @
            concat (map (\<lambda>d. map (glue (node_len l) (node_len r0) d) (den d)) []))"
        using t(3) by simp
    qed
    note stands = this[unfolded nl list.map(2)]
    have pos: "0 < fuel" using Cons.prems(7) by simp
    show ?case unfolding list.map(2) append_Cons by (rule join_seek_stop[OF st(2,3) pos stands])
  qed
next
  case (Cons d' ls s l d r rs fuel)
  note outer = Cons.IH
  show ?case
    using Cons.prems
  proof (induction rs arbitrary: s r fuel)
    case (Nil s r fuel)
    obtain f where f: "fuel = Suc f" "k \<le> f" "k + length ls + 1 \<le> f" using Nil.prems(7) by (cases fuel) simp_all
    obtain l' u where u: "node_next f l s = (Inr l', u)" "db_reads T s u" "bare l' = bare l" "stream k T u l' (d' # ls)"
      using stream_step(3)[OF Nil.prems(1,3) f(2)] by blast
    note same = bare_same[OF u(3)]
    note ou = db_reads_open[OF u(2)]
    have re: "restarts k T u r0 (node_cols l') feed den (set (d' # ls))" using restarts_reads[OF Nil.prems(4) u(2)] same by simp
    have mem: "d' \<in> set (d' # ls)" by simp
    obtain r1 r2 v w where w: "feed_right l' r feed u = (Inr r1, v)" "node_begin f r1 v = (Inr r2, w)" "db_reads T u w"
      "bare r2 = bare r0" "stream k T w r2 (den d')"
      using restart_run[OF u(4) ou re mem Nil.prems(5) f(2)] by blast
    have re': "restarts k T w r0 (node_cols l') feed den (set ls)"
      by (rule restarts_sub[OF restarts_reads[OF re w(3)]]) auto
    have m: "length ls \<le> m" using Nil.prems(6) by simp
    obtain n x where x: "join_seek f l' r2 len cols feed w = (Inr n, x)" "db_reads T w x"
      "bare n = bare (NJoin l' r2 len cols feed)"
      "stream (k + m + 2) T x n (map (glue (node_len l') (node_len r0) d') (den d') @
        concat (map (\<lambda>d. map (glue (node_len l') (node_len r0) d) (den d)) ls))"
      using outer[OF stream_reads[OF u(4) w(3)] w(5) db_reads_open[OF w(3)] re' w(4) m f(3)] by blast
    have "join_seek fuel l r len cols feed s = (Inr n, x)"
      using f(1) stream_end[OF Nil.prems(2)] u(1) stream_step(1)[OF u(4) ou] w(1,2) x(1) by simp
    then show ?case
      using x(3,4) same u(3) w(4) Nil.prems(5) db_reads_trans[OF db_reads_trans[OF u(2) w(3)] x(2)]
      by (intro exI[of _ n] exI[of _ x]) simp
  next
    case (Cons e rs s r fuel)
    note st = Cons.prems(1-3)
    let ?rest = "concat (map (\<lambda>d. map (glue (node_len l) (node_len r0) d) (den d)) (d' # ls))"
    have nl: "node_len r = node_len r0" using bare_same[OF Cons.prems(5)] by simp
    have "stream (k + m + 2) T s (NJoin l r len cols feed) (glue (node_len l) (node_len r) d e #
        (map (glue (node_len l) (node_len r0) d) rs @ ?rest))"
    proof (rule join_stands[OF st])
      fix t r' f assume t: "db_reads T s t" "stream k T t r' rs" "bare r' = bare r" "k + m + 1 \<le> f"
      have b: "bare r' = bare r0" "k + length (d' # ls) + 1 \<le> f" using t(3,4) Cons.prems(5,6) by simp_all
      from Cons.IH[OF stream_reads[OF st(1) t(1)] t(2) db_reads_open[OF t(1)] restarts_reads[OF Cons.prems(4) t(1)] b(1) Cons.prems(6) b(2)]
      show "\<exists>n u. join_seek f l r' len cols feed t = (Inr n, u) \<and> db_reads T t u \<and> bare n = bare (NJoin l r len cols feed) \<and>
          stream (k + m + 2) T u n (map (glue (node_len l) (node_len r0) d) rs @ ?rest)"
        using t(3) by simp
    qed
    note stands = this[unfolded nl list.map(2)]
    have pos: "0 < fuel" using Cons.prems(7) by simp
    show ?case unfolding list.map(2) append_Cons by (rule join_seek_stop[OF st(2,3) pos stands])
  qed
qed

text \<open>Starting a join whose left node starts.\<close>

lemma join_begin:
  assumes l: "node_begin fuel l s = (Inr l', t)" "db_reads T s t" "bare l' = bare l" "stream k T t l' ds"
    and r: "restarts k T s r0 (node_cols l) feed den (set ds)" "bare r = bare r0"
    and f: "k + length ds + 1 \<le> fuel"
  shows "\<exists>n u. node_begin (Suc fuel) (NJoin l r len cols feed) s = (Inr n, u) \<and> db_reads T s u \<and>
    bare n = bare (NJoin l r len cols feed) \<and>
    stream (k + length ds + 2) T u n (concat (map (\<lambda>d. map (glue (node_len l) (node_len r0) d) (den d)) ds))"
proof (cases ds)
  case Nil
  then show ?thesis using l by (intro exI[of _ "NJoin l' r len cols feed"] exI[of _ t]) simp
next
  case (Cons d ls)
  note ot = db_reads_open[OF l(2)]
  note same = bare_same[OF l(3)]
  have st: "stream k T t l' (d # ls)" using l(4) Cons by simp
  have re: "restarts k T t r0 (node_cols l') feed den (set ds)" using restarts_reads[OF r(1) l(2)] same by simp
  have f': "k \<le> fuel" "k + length ls + 1 \<le> fuel" "length ls \<le> length ds" "d \<in> set ds" using f Cons by simp_all
  obtain r1 r2 v w where w: "feed_right l' r feed t = (Inr r1, v)" "node_begin fuel r1 v = (Inr r2, w)" "db_reads T t w"
    "bare r2 = bare r0" "stream k T w r2 (den d)"
    using restart_run[OF st ot re f'(4) r(2) f'(1)] by blast
  have re': "restarts k T w r0 (node_cols l') feed den (set ls)"
    by (rule restarts_sub[OF restarts_reads[OF re w(3)]]) (auto simp: Cons)
  obtain n x where x: "join_seek fuel l' r2 len cols feed w = (Inr n, x)" "db_reads T w x"
    "bare n = bare (NJoin l' r2 len cols feed)"
    "stream (k + length ds + 2) T x n (map (glue (node_len l') (node_len r0) d) (den d) @
      concat (map (\<lambda>d. map (glue (node_len l') (node_len r0) d) (den d)) ls))"
    using join_seek_stream[OF stream_reads[OF st w(3)] w(5) db_reads_open[OF w(3)] re' w(4) f'(3,2)] by blast
  have "node_begin (Suc fuel) (NJoin l r len cols feed) s = (Inr n, x)"
    using l(1) stream_step(1)[OF st ot] w(1,2) x(1) by simp
  then show ?thesis
    using x(3,4) same l(3) w(4) r(2) db_reads_trans[OF db_reads_trans[OF l(2) w(3)] x(2)] Cons
    by (intro exI[of _ n] exI[of _ x]) simp
qed

section \<open>Plans\<close>

definition meta_of :: "'z sm_state_scheme \<Rightarrow> TableNode \<Rightarrow> Table_Metadata" where
  "meta_of s tn = the (map_of (dm_tabs (db s)) (tn_tab_name tn))"

text \<open>What a table node yields, and that it can run.\<close>

definition node_data :: "(string \<Rightarrow> bt) \<Rightarrow> 'z sm_state_scheme \<Rightarrow> TableNode \<Rightarrow> byte list list" where
  "node_data T s tn = table_data s tn (scan_order T (meta_of s tn) tn (content s (tn_tab_name tn)))"

definition tn_ok :: "(string \<Rightarrow> bt) \<Rightarrow> 'z sm_state_scheme \<Rightarrow> TableNode \<Rightarrow> bool" where
  "tn_ok T s tn \<longleftrightarrow> table_meta s (tn_tab_name tn) (meta_of s tn) \<and> indexes_agree T s (tn_tab_name tn) (meta_of s tn) \<and>
     tn_cols tn = tm_cols (meta_of s tn) \<and> conds_here tn \<and> fed_ok tn \<and> rows_defined tn (content s (tn_tab_name tn))"

definition node_rows :: "'z sm_state_scheme \<Rightarrow> TableNode \<Rightarrow> nat" where
  "node_rows s tn = card (dom (content s (tn_tab_name tn)))"

lemma node_reads:
  assumes "db_reads T s t"
  shows "meta_of t tn = meta_of s tn" "node_data T t tn = node_data T s tn" "node_rows t tn = node_rows s tn"
    "tn_ok T s tn \<Longrightarrow> tn_ok T t tn"
proof -
  note R = db_reads_fields[OF assms]
  show m: "meta_of t tn = meta_of s tn" by (simp add: meta_of_def R)
  then show "node_data T t tn = node_data T s tn" "node_rows t tn = node_rows s tn"
    by (simp_all add: node_data_def table_data_def node_rows_def R)
  show "tn_ok T s tn \<Longrightarrow> tn_ok T t tn"
    using table_meta_reads[OF _ assms] indexes_agree_reads[OF _ assms] by (simp add: tn_ok_def m R)
qed

lemma node_begin_run:
  assumes "db_open T s" "tn_ok T s tn" "node_rows s tn + 2 \<le> fuel"
  shows "\<exists>n u. node_begin fuel (NTable tn) s = (Inr n, u) \<and> db_reads T s u \<and> bare n = bare (NTable tn) \<and>
    stream (node_rows s tn + 1) T u n (node_data T s tn)"
proof -
  let ?name = "tn_tab_name tn" and ?M = "content s (tn_tab_name tn)"
  obtain f where f: "fuel = Suc f" "card (dom ?M) < f" using assms(3) by (cases fuel) (simp_all add: node_rows_def)
  obtain all r sc t where t: "table_begin f tn s = (Inr (tn\<lparr>tn_rid := r, tn_scan := sc\<rparr>), t)" "db_reads T s t"
    "any.table_at T t (tn\<lparr>tn_rid := r, tn_scan := sc\<rparr>) all" "length all \<le> card (dom ?M)"
    "hits tn ?M all = hits tn ?M (scan_order T (meta_of s tn) tn ?M)"
    using table_begin_run[OF assms(1) _ _ refl _ _ _ _ f(2), of "meta_of s tn"] assms(2) unfolding tn_ok_def by blast
  have "length all < node_rows s tn + 1" using t(4) by (simp add: node_rows_def)
  from table_stream[OF t(3) this] have "stream (node_rows s tn + 1) T t (NTable (tn\<lparr>tn_rid := r, tn_scan := sc\<rparr>)) (node_data T s tn)"
    using t(5) db_reads_fields(4)[OF t(2)] by (simp add: node_data_def table_data_def)
  then show ?thesis
    using t(1,2) f(1) by (intro exI[of _ "NTable (tn\<lparr>tn_rid := r, tn_scan := sc\<rparr>)"] exI[of _ t]) simp
qed

text \<open>A table node for given values of the tables before it.\<close>

definition fed :: "(TabCol \<rightharpoonup> Value) \<Rightarrow> TableNode \<Rightarrow> TableNode" where
  "fed dict tn = tn\<lparr>tn_fed_conds := (case map_sum_list (feed_cond (tn_tab_name tn) dict) (tn_conds tn) of Inr cs \<Rightarrow> cs | Inl _ \<Rightarrow> []),
     tn_rid := RecordID 0 0, tn_scan := NoScan\<rparr>"

definition feeds :: "(TabCol \<rightharpoonup> Value) \<Rightarrow> TableNode \<Rightarrow> bool" where
  "feeds dict tn \<longleftrightarrow> (\<exists>cs. map_sum_list (feed_cond (tn_tab_name tn) dict) (tn_conds tn) = Inr cs)"

definition row_dict :: "TableNode \<Rightarrow> byte list \<Rightarrow> TabCol \<rightharpoonup> Value" where
  "row_dict tn d = (case rec2dict (tn_cols tn) d Map.empty of Inr dict \<Rightarrow> dict | Inl _ \<Rightarrow> Map.empty)"

definition has_dict :: "TableNode \<Rightarrow> byte list \<Rightarrow> bool" where
  "has_dict tn d \<longleftrightarrow> (\<exists>dict. rec2dict (tn_cols tn) d Map.empty = Inr dict)"

fun plan_len :: "TableNode list \<Rightarrow> int" where
  "plan_len [] = 0"
| "plan_len [tn] = tn_len tn"
| "plan_len (tn # ts) = tn_len tn + plan_len ts"

text \<open>The records of the join, by nested loops.\<close>

fun plan_data :: "(string \<Rightarrow> bt) \<Rightarrow> 'z sm_state_scheme \<Rightarrow> (TabCol \<rightharpoonup> Value) \<Rightarrow> TableNode list \<Rightarrow> byte list list" where
  "plan_data T s dict [] = []"
| "plan_data T s dict [tn] = node_data T s (fed dict tn)"
| "plan_data T s dict (tn # ts) = concat (map (\<lambda>d. map (glue (tn_len tn) (plan_len ts) d)
     (plan_data T s (row_dict tn d ++ dict) ts)) (node_data T s (fed dict tn)))"

fun plan_ok :: "(string \<Rightarrow> bt) \<Rightarrow> 'z sm_state_scheme \<Rightarrow> (TabCol \<rightharpoonup> Value) \<Rightarrow> TableNode list \<Rightarrow> bool" where
  "plan_ok T s dict [] \<longleftrightarrow> False"
| "plan_ok T s dict [tn] \<longleftrightarrow> feeds dict tn \<and> tn_ok T s (fed dict tn)"
| "plan_ok T s dict (tn # ts) \<longleftrightarrow> feeds dict tn \<and> tn_ok T s (fed dict tn) \<and>
     (\<forall>d \<in> set (node_data T s (fed dict tn)). has_dict tn d \<and> plan_ok T s (row_dict tn d ++ dict) ts)"

fun plan_fuel :: "'z sm_state_scheme \<Rightarrow> TableNode list \<Rightarrow> nat" where
  "plan_fuel s [] = 0"
| "plan_fuel s (tn # ts) = 2 * node_rows s tn + 4 + plan_fuel s ts"

lemma node_data_length: "tn_ok T s tn \<Longrightarrow> length (node_data T s tn) \<le> node_rows s tn"
proof -
  assume ok: "tn_ok T s tn"
  then have "indexes_agree T s (tn_tab_name tn) (meta_of s tn)" by (simp add: tn_ok_def)
  note P = scan_order_perm[OF this]
  have "length (scan_order T (meta_of s tn) tn (content s (tn_tab_name tn))) = node_rows s tn"
    using distinct_card[OF P(1)] P(2) by (simp add: node_rows_def)
  then show ?thesis unfolding node_data_def table_data_def hits_def by (metis length_filter_le length_map)
qed

lemma fed_fields [simp]: "tn_tab_name (fed dict tn) = tn_tab_name tn" "tn_cols (fed dict tn) = tn_cols tn"
  "tn_len (fed dict tn) = tn_len tn" "tn_conds (fed dict tn) = tn_conds tn"
  by (simp_all add: fed_def)

lemma scan_order_node [simp]:
  "scan_order T tab (tn\<lparr>tn_rid := r\<rparr>) M = scan_order T tab tn M" "scan_order T tab (tn\<lparr>tn_scan := sc\<rparr>) M = scan_order T tab tn M"
  by (simp_all add: scan_order_def split: sum.split option.split)

lemma node_fields [simp]:
  "tn_ok T s (tn\<lparr>tn_rid := r\<rparr>) = tn_ok T s tn" "tn_ok T s (tn\<lparr>tn_scan := sc\<rparr>) = tn_ok T s tn"
  "node_data T s (tn\<lparr>tn_rid := r\<rparr>) = node_data T s tn" "node_data T s (tn\<lparr>tn_scan := sc\<rparr>) = node_data T s tn"
  by (simp_all add: tn_ok_def node_data_def table_data_def meta_of_def fed_ok_def)

lemma plan_reads:
  assumes "db_reads T s t"
  shows "plan_ok T s dict ts \<Longrightarrow> plan_ok T t dict ts" "plan_data T t dict ts = plan_data T s dict ts" "plan_fuel t ts = plan_fuel s ts"
proof -
  note R = node_reads[OF assms]
  show d: "plan_data T t dict ts = plan_data T s dict ts" for dict by (induction ts arbitrary: dict rule: plan_len.induct) (simp_all add: R)
  show "plan_ok T s dict ts \<Longrightarrow> plan_ok T t dict ts" by (induction ts arbitrary: dict rule: plan_len.induct) (auto simp: R)
  show "plan_fuel t ts = plan_fuel s ts" by (induction ts) (simp_all add: R)
qed

lemma plan_node_len: "join_plan ts = Some n \<Longrightarrow> node_len n = plan_len ts"
  by (induction ts arbitrary: n rule: plan_len.induct) (auto simp: QlNodeJoin_def)

lemma bare_table: "bare n = bare (NTable tn) \<Longrightarrow> \<exists>r sc cs. n = NTable (tn\<lparr>tn_fed_conds := cs, tn_rid := r, tn_scan := sc\<rparr>)"
proof (cases n)
  case (NTable m)
  assume "bare n = bare (NTable tn)"
  then have "m = tn\<lparr>tn_fed_conds := tn_fed_conds m, tn_rid := tn_rid m, tn_scan := tn_scan m\<rparr>"
    unfolding NTable by (cases m; cases tn) simp
  then show ?thesis using NTable by blast
qed simp_all

lemma bare_join: "bare n = NJoin a b len cols Map.empty \<Longrightarrow> \<exists>l r feed. n = NJoin l r len cols feed \<and> bare l = a \<and> bare r = b"
  by (cases n) auto

text \<open>A table node that is fed and started.\<close>

lemma feed_table:
  assumes "feeds dict tn" "tn_ok T s (fed dict tn)" "bare n = bare (NTable tn)"
  shows "\<exists>n1. node_feed n dict s = (Inr n1, s) \<and> bare n1 = bare (NTable tn) \<and>
    (db_open T s \<longrightarrow> (\<forall>fuel \<ge> node_rows s tn + 2. \<exists>n2 u. node_begin fuel n1 s = (Inr n2, u) \<and> db_reads T s u \<and> bare n2 = bare (NTable tn) \<and>
      stream (node_rows s tn + 1) T u n2 (node_data T s (fed dict tn))))"
proof -
  obtain r sc cs where n: "n = NTable (tn\<lparr>tn_fed_conds := cs, tn_rid := r, tn_scan := sc\<rparr>)" using bare_table[OF assms(3)] by blast
  obtain cs' where cs': "map_sum_list (feed_cond (tn_tab_name tn) dict) (tn_conds tn) = Inr cs'" using assms(1) by (auto simp: feeds_def)
  let ?tn = "tn\<lparr>tn_fed_conds := cs', tn_rid := r, tn_scan := sc\<rparr>"
  have f: "fed dict tn = ?tn\<lparr>tn_rid := RecordID 0 0, tn_scan := NoScan\<rparr>" using cs' by (simp add: fed_def)
  have ok: "tn_ok T s ?tn" using assms(2) unfolding f by simp
  then have "conds_here ?tn" by (simp add: tn_ok_def)
  then have "conds_here (tn\<lparr>tn_rid := r, tn_scan := sc, tn_fed_conds := cs'\<rparr>)" by (simp add: conds_here_def)
  then have run: "node_feed n dict s = (Inr (NTable ?tn), s)" using n cs' by (simp add: table_feed_def andThen_run)
  have "node_rows s ?tn = node_rows s tn" "node_data T s ?tn = node_data T s (fed dict tn)" "bare (NTable ?tn) = bare (NTable tn)"
    unfolding f by (simp_all add: node_rows_def)
  then show ?thesis using run node_begin_run[OF _ ok] by (intro exI[of _ "NTable ?tn"]) simp
qed

lemma plan_begin:
  assumes "join_plan ts = Some n0" "plan_ok T s dict ts" "bare n = bare n0" "db_open T s"
  shows "\<exists>n1. node_feed n dict s = (Inr n1, s) \<and> bare n1 = bare n0 \<and> (\<forall>fuel \<ge> plan_fuel s ts.
    \<exists>n2 u. node_begin fuel n1 s = (Inr n2, u) \<and> db_reads T s u \<and> bare n2 = bare n0 \<and>
      stream (plan_fuel s ts) T u n2 (plan_data T s dict ts))"
  using assms
proof (induction ts arbitrary: n0 n s dict rule: plan_len.induct)
  case (2 tn)
  have n0: "n0 = NTable tn" using 2(1) by simp
  obtain n1 where n1: "node_feed n dict s = (Inr n1, s)" "bare n1 = bare (NTable tn)"
    "\<forall>fuel \<ge> node_rows s tn + 2. \<exists>n2 u. node_begin fuel n1 s = (Inr n2, u) \<and> db_reads T s u \<and> bare n2 = bare (NTable tn) \<and>
      stream (node_rows s tn + 1) T u n2 (node_data T s (fed dict tn))"
    using feed_table[of dict tn T s n] 2(2-4) n0 by auto
  have "node_rows s tn + 1 \<le> plan_fuel s [tn]" "\<And>f. plan_fuel s [tn] \<le> f \<Longrightarrow> node_rows s tn + 2 \<le> f" by simp_all
  then show ?case using n1 stream_mono unfolding n0 plan_data.simps by meson
next
  case (3 tn t ts)
  let ?ts = "t # ts"
  obtain m0 where m0: "join_plan ?ts = Some m0" "n0 = QlNodeJoin (NTable tn) m0" using 3(2) by auto
  let ?len = "tn_len tn + node_len m0"
  let ?cols = "tn_cols tn @ map (\<lambda>col. col\<lparr>cm_offset := cm_offset col + tn_len tn\<rparr>) (node_cols m0)"
  let ?den = "\<lambda>d. plan_data T s (row_dict tn d ++ dict) ?ts" and ?ds = "node_data T s (fed dict tn)"
  let ?k = "node_rows s tn + 1 + plan_fuel s ?ts"
  have b0: "bare n0 = NJoin (bare (NTable tn)) (bare m0) ?len ?cols Map.empty" using m0(2) by (simp add: QlNodeJoin_def)
  obtain l r feed where n: "n = NJoin l r ?len ?cols feed" "bare l = bare (NTable tn)" "bare r = bare m0"
    using bare_join[OF trans[OF 3(4) b0]] by blast
  have ok: "feeds dict tn" "tn_ok T s (fed dict tn)" "\<forall>d \<in> set ?ds. has_dict tn d \<and> plan_ok T s (row_dict tn d ++ dict) ?ts"
    using 3(3) by simp_all
  obtain l1 where l1: "node_feed l dict s = (Inr l1, s)" "bare l1 = bare (NTable tn)"
    "\<forall>fuel \<ge> node_rows s tn + 2. \<exists>n2 u. node_begin fuel l1 s = (Inr n2, u) \<and> db_reads T s u \<and> bare n2 = bare (NTable tn) \<and>
      stream (node_rows s tn + 1) T u n2 ?ds"
    using feed_table[OF ok(1,2) n(2)] 3(5) by blast
  have cols: "node_cols l1 = tn_cols tn" "node_len l1 = tn_len tn" using bare_same[OF l1(2)] by simp_all
  have re: "restarts ?k T s m0 (node_cols l1) dict ?den (set ?ds)"
    unfolding restarts_def cols
  proof (intro ballI allI impI)
    fix d r t assume d: "d \<in> set ?ds" and r: "bare r = bare m0" and t: "db_reads T s t"
    obtain di where di: "rec2dict (tn_cols tn) d Map.empty = Inr di" using ok(3) d by (auto simp: has_dict_def)
    then have rd: "row_dict tn d = di" by (simp add: row_dict_def)
    have pt: "plan_ok T t (di ++ dict) ?ts" using ok(3) d plan_reads(1)[OF t] rd by blast
    obtain n1 where n1: "node_feed r (di ++ dict) t = (Inr n1, t)" "\<forall>fuel \<ge> plan_fuel t ?ts.
      \<exists>n2 u. node_begin fuel n1 t = (Inr n2, u) \<and> db_reads T t u \<and> bare n2 = bare m0 \<and>
        stream (plan_fuel t ?ts) T u n2 (plan_data T t (di ++ dict) ?ts)"
      using 3(1)[OF m0(1) pt r db_reads_open[OF t]] by blast
    have "plan_fuel t ?ts = plan_fuel s ?ts" "plan_data T t (di ++ dict) ?ts = ?den d" using plan_reads(2,3)[OF t] rd by (simp_all del: plan_fuel.simps plan_data.simps)
    note n2 = n1(2)[unfolded this]
    have "\<exists>n2 u. node_begin fuel n1 t = (Inr n2, u) \<and> db_reads T t u \<and> bare n2 = bare m0 \<and> stream ?k T u n2 (?den d)"
      if f: "?k \<le> fuel" for fuel
    proof -
      have "plan_fuel s ?ts \<le> fuel" "plan_fuel s ?ts \<le> ?k" using f by simp_all
      then show ?thesis using n2 stream_mono by meson
    qed
    then show "\<exists>dict' r1. rec2dict (tn_cols tn) d Map.empty = Inr dict' \<and> node_feed r (dict' ++ dict) t = (Inr r1, t) \<and>
       (\<forall>fuel \<ge> ?k. \<exists>r2 u. node_begin fuel r1 t = (Inr r2, u) \<and> db_reads T t u \<and> bare r2 = bare m0 \<and> stream ?k T u r2 (?den d))"
      using di n1(1) by blast
  qed
  have dl: "length ?ds \<le> node_rows s tn" using node_data_length[OF ok(2)] by (simp add: node_rows_def)
  have "\<exists>n2 u. node_begin fuel (NJoin l1 r ?len ?cols dict) s = (Inr n2, u) \<and> db_reads T s u \<and> bare n2 = bare n0 \<and>
      stream (plan_fuel s (tn # ?ts)) T u n2 (plan_data T s dict (tn # ?ts))" if h: "plan_fuel s (tn # ?ts) \<le> fuel" for fuel
  proof -
    obtain f where f: "fuel = Suc f" "node_rows s tn + 2 \<le> f" "?k + length ?ds + 1 \<le> f" using h dl by (cases fuel) simp_all
    obtain l2 t where l2: "node_begin f l1 s = (Inr l2, t)" "db_reads T s t" "bare l2 = bare (NTable tn)"
      "stream (node_rows s tn + 1) T t l2 ?ds" using l1(3) f(2) by blast
    have st: "stream ?k T t l2 ?ds" by (rule stream_mono[OF l2(4)]) simp
    obtain n2 u where u: "node_begin (Suc f) (NJoin l1 r ?len ?cols dict) s = (Inr n2, u)" "db_reads T s u"
      "bare n2 = bare (NJoin l1 r ?len ?cols dict)"
      "stream (?k + length ?ds + 2) T u n2 (concat (map (\<lambda>d. map (glue (node_len l1) (node_len m0) d) (?den d)) ?ds))"
      using join_begin[OF l2(1,2) trans[OF l2(3) l1(2)[symmetric]] st re n(3) f(3)] by blast
    have "?k + length ?ds + 2 \<le> plan_fuel s (tn # ?ts)" using dl by simp
    from stream_mono[OF u(4) this] have "stream (plan_fuel s (tn # ?ts)) T u n2 (plan_data T s dict (tn # ?ts))"
      using cols(2) plan_node_len[OF m0(1)] by simp
    then show ?thesis using u(1-3) f(1) b0 l1(2) n(3) by auto
  qed
  moreover have "node_feed n dict s = (Inr (NJoin l1 r ?len ?cols dict), s)" using n(1) l1(1) by simp
  moreover have "bare (NJoin l1 r ?len ?cols dict) = bare n0" using b0 l1(2) n(3) by simp
  ultimately show ?case by blast
qed simp

end
