(* ===== verification/QlJoin.thy ===== *)
theory QlJoin
  imports QlPlan QlStatements
begin

text \<open>
  The meaning of a query: rows of several tables side by side, a column reference that names one
  value of them, a condition as a comparison of values. A condition that a table node is given,
  turned round and fed with the rows before it, means on the row of the table what the condition
  of the query means on all the rows.
\<close>

section \<open>Rows side by side\<close>

definition col_key :: "Column_Metadata \<Rightarrow> TabCol" where
  "col_key col = TabCol (cm_tab_name col) (cm_name col)"

text \<open>The value a reference names; without a table it names any column of this name.\<close>

definition lit_at :: "Column_Metadata list \<Rightarrow> literal list \<Rightarrow> TabCol \<Rightarrow> literal option" where
  "lit_at cols lits c = map_of (zip (map (\<lambda>col. TabCol (if tc_tab c = [] then [] else cm_tab_name col) (cm_name col)) cols) lits) c"

definition cond_true :: "Column_Metadata list \<Rightarrow> literal list \<Rightarrow> Condition \<Rightarrow> bool" where
  "cond_true cols lits c \<longleftrightarrow> (case (lit_at cols lits (lhs_col c),
       if is_rhs_val c then Some (v_lit (rhs_val c)) else lit_at cols lits (rhs_col c)) of
     (Some a, Some b) \<Rightarrow> test_op (cond_op c) (lit_cmp a b) | _ \<Rightarrow> False)"

definition keyed :: "Column_Metadata list \<Rightarrow> bool" where
  "keyed cols \<longleftrightarrow> distinct (map col_key cols) \<and> (\<forall>col \<in> set cols. cm_tab_name col \<noteq> [])"

lemma lit_at_nth:
  assumes "keyed cols" "length lits = length cols" "i < length cols"
  shows "lit_at cols lits (col_key (cols ! i)) = Some (lits ! i)"
proof -
  have "cm_tab_name (cols ! i) \<noteq> []" "distinct (map col_key cols)" using assms(1,3) by (simp_all add: keyed_def)
  then show ?thesis
    using map_of_zip_nth[of "map col_key cols" lits i] assms(2,3) by (simp add: lit_at_def col_key_def[abs_def])
qed

lemma keyed_append: "keyed (a @ b) \<Longrightarrow> keyed a \<and> keyed b"
  by (simp add: keyed_def)

lemma lit_at_append:
  assumes "keyed (a @ b)" "length k = length a" "length l = length b" "i < length a"
  shows "lit_at (a @ b) (k @ l) (col_key (a ! i)) = lit_at a k (col_key (a ! i))"
  using lit_at_nth[OF assms(1), of "k @ l" i] lit_at_nth[of a k i] keyed_append[OF assms(1)] assms(2-4) by (simp add: nth_append)

text \<open>Values without NaN.\<close>

definition plain_lit :: "literal \<Rightarrow> bool" where
  "plain_lit l \<longleftrightarrow> storable l \<and> (\<forall>f. l = FloatVal f \<longrightarrow> \<not> float_nan (float_bits f))"

lemma raw_key_for:
  assumes "raw_bytes (cm_len col) l = Inr b" "literal_type l = cm_type col" "plain_lit l"
  shows "key_for col b"
proof -
  have "length b = nat (cm_len col)"
    by (rule raw_bytes_length[OF assms(1)]) (use assms(3) in \<open>simp add: plain_lit_def storable_def\<close>)
  then show ?thesis using assms by (cases l) (auto simp: key_for_def plain_lit_def split: if_splits)
qed

lemma str_cmp_swap: "str_cmp y x = - str_cmp x y"
  by (induction x y rule: str_cmp.induct) auto

lemma lit_cmp_swap:
  assumes "plain_lit a" "plain_lit b"
  shows "test_op (swap_op op) (lit_cmp b a) = test_op op (lit_cmp a b)"
proof -
  have "(lit_cmp b a = 0 \<longleftrightarrow> lit_cmp a b = 0) \<and> (lit_cmp b a < 0 \<longleftrightarrow> 0 < lit_cmp a b) \<and> (0 < lit_cmp b a \<longleftrightarrow> lit_cmp a b < 0)"
  proof (cases a)
    case (IntVal i)
    then show ?thesis by (cases b) (simp_all add: int_cmp_def)
  next
    case (FloatVal f)
    show ?thesis
    proof (cases b)
      case (FloatVal g)
      have "\<not> float_nan (float_bits f)" "\<not> float_nan (float_bits g)" using assms \<open>a = FloatVal f\<close> FloatVal by (simp_all add: plain_lit_def)
      note anti = float_keys.cmp_anti[OF this] float_keys.cmp_anti[OF this(2,1)]
      then have "float_key_cmp g f = 0 \<longleftrightarrow> float_key_cmp f g = 0" by (metis linorder_neqE_linordered_idom less_irrefl)
      then show ?thesis using anti \<open>a = FloatVal f\<close> FloatVal by simp
    qed (use FloatVal in simp_all)
  next
    case (StrVal w)
    show ?thesis
    proof (cases b)
      case (StrVal v)
      then show ?thesis using str_cmp_swap[of v w] \<open>a = StrVal w\<close> by simp
    qed (use StrVal in simp_all)
  qed simp
  then show ?thesis by (cases op) auto
qed

section \<open>Conditions of a join\<close>

text \<open>A checked condition over the columns of all tables.\<close>

definition full_cond :: "Column_Metadata list \<Rightarrow> Condition \<Rightarrow> bool" where
  "full_cond cols c \<longleftrightarrow> (\<exists>i < length cols. lhs_col c = col_key (cols ! i) \<and> cm_type (cols ! i) \<noteq> TYPE_DATETIME \<and>
     (if is_rhs_val c then \<exists>b. v_raw (rhs_val c) = Some b \<and> raw_bytes (cm_len (cols ! i)) (v_lit (rhs_val c)) = Inr b \<and>
          v_type (rhs_val c) = cm_type (cols ! i) \<and> plain_lit (v_lit (rhs_val c))
      else \<exists>j < length cols. rhs_col c = col_key (cols ! j) \<and> cm_type (cols ! j) = cm_type (cols ! i) \<and>
          cm_len (cols ! j) = cm_len (cols ! i)))"

lemma orient_cond_full:
  assumes k: "keyed cols" and c: "full_cond cols c" and o: "orient_cond name c = Inr c'"
  shows "full_cond cols c'" "tc_tab (lhs_col c') = name" "solved_by ns c' = solved_by ns c"
    "length lits = length cols \<Longrightarrow> list_all plain_lit lits \<Longrightarrow> cond_true cols lits c' = cond_true cols lits c"
proof -
  have "full_cond cols c' \<and> tc_tab (lhs_col c') = name \<and> solved_by ns c' = solved_by ns c \<and>
    (length lits = length cols \<longrightarrow> list_all plain_lit lits \<longrightarrow> cond_true cols lits c' = cond_true cols lits c)"
  proof (cases "tc_tab (lhs_col c) = name")
    case True
    then show ?thesis using o c by (simp add: orient_cond_def)
  next
    case False
    then have c': "\<not> is_rhs_val c" "tc_tab (rhs_col c) = name"
      "c' = c\<lparr>lhs_col := rhs_col c, rhs_col := lhs_col c, cond_op := swap_op (cond_op c)\<rparr>"
      using o by (auto simp: orient_cond_def split: if_splits)
    obtain i j where ij: "i < length cols" "lhs_col c = col_key (cols ! i)" "cm_type (cols ! i) \<noteq> TYPE_DATETIME"
      "j < length cols" "rhs_col c = col_key (cols ! j)" "cm_type (cols ! j) = cm_type (cols ! i)" "cm_len (cols ! j) = cm_len (cols ! i)"
      using c c'(1) by (auto simp: full_cond_def)
    have "cond_true cols lits c' = cond_true cols lits c" if "length lits = length cols" "list_all plain_lit lits"
    proof -
      have "plain_lit (lits ! i)" "plain_lit (lits ! j)" using that ij(1,4) by (simp_all add: list_all_length)
      then show ?thesis
        using lit_cmp_swap c' ij lit_at_nth[OF k that(1) ij(1)] lit_at_nth[OF k that(1) ij(4)] by (simp add: cond_true_def)
    qed
    moreover have "full_cond cols c'"
      unfolding full_cond_def using c' ij by (intro exI[of _ j]) (auto intro!: exI[of _ i])
    ultimately show ?thesis using c' by (auto simp: solved_by_def)
  qed
  then show "full_cond cols c'" "tc_tab (lhs_col c') = name" "solved_by ns c' = solved_by ns c"
    "length lits = length cols \<Longrightarrow> list_all plain_lit lits \<Longrightarrow> cond_true cols lits c' = cond_true cols lits c" by simp_all
qed

text \<open>A condition looks at its own columns only.\<close>

lemma cond_true_append:
  assumes "full_cond a c" "keyed (a @ b)" "length k = length a" "length l = length b"
  shows "cond_true (a @ b) (k @ l) c = cond_true a k c"
proof -
  obtain i where i: "i < length a" "lhs_col c = col_key (a ! i)" using assms(1) by (auto simp: full_cond_def)
  have "lit_at (a @ b) (k @ l) (lhs_col c) = lit_at a k (lhs_col c)" using lit_at_append[OF assms(2-4) i(1)] i(2) by simp
  moreover have "\<not> is_rhs_val c \<Longrightarrow> lit_at (a @ b) (k @ l) (rhs_col c) = lit_at a k (rhs_col c)"
    using assms(1) lit_at_append[OF assms(2-4)] by (auto simp: full_cond_def)
  ultimately show ?thesis by (cases "is_rhs_val c") (simp_all add: cond_true_def)
qed

text \<open>A solved condition is one over the columns of the tables it is solved by.\<close>

lemma full_cond_solved:
  assumes c: "full_cond (a @ b) c" and s: "solved_by ns c" and b: "\<forall>col \<in> set b. cm_tab_name col \<notin> set ns"
  shows "full_cond a c"
proof -
  have in_a: "i < length a" "(a @ b) ! i = a ! i" if "i < length (a @ b)" "cm_tab_name ((a @ b) ! i) \<in> set ns" for i
  proof -
    show "i < length a"
    proof (rule ccontr)
      assume "\<not> i < length a"
      then have "(a @ b) ! i \<in> set b" using that(1) by (simp add: nth_append)
      then show False using b that(2) by blast
    qed
    then show "(a @ b) ! i = a ! i" by (simp add: nth_append)
  qed
  obtain i where i: "i < length (a @ b)" "lhs_col c = col_key ((a @ b) ! i)" "cm_type ((a @ b) ! i) \<noteq> TYPE_DATETIME"
    and r: "if is_rhs_val c then \<exists>d. v_raw (rhs_val c) = Some d \<and> raw_bytes (cm_len ((a @ b) ! i)) (v_lit (rhs_val c)) = Inr d \<and>
          v_type (rhs_val c) = cm_type ((a @ b) ! i) \<and> plain_lit (v_lit (rhs_val c))
      else \<exists>j < length (a @ b). rhs_col c = col_key ((a @ b) ! j) \<and> cm_type ((a @ b) ! j) = cm_type ((a @ b) ! i) \<and>
          cm_len ((a @ b) ! j) = cm_len ((a @ b) ! i)"
    using c unfolding full_cond_def by blast
  have "cm_tab_name ((a @ b) ! i) \<in> set ns" using s i(2) by (simp add: solved_by_def col_key_def)
  note ia = in_a[OF i(1) this]
  show ?thesis
  proof (cases "is_rhs_val c")
    case True
    then show ?thesis using i(2,3) r ia by (auto simp: full_cond_def)
  next
    case False
    then obtain j where j: "j < length (a @ b)" "rhs_col c = col_key ((a @ b) ! j)" "cm_type ((a @ b) ! j) = cm_type ((a @ b) ! i)"
      "cm_len ((a @ b) ! j) = cm_len ((a @ b) ! i)" using r by auto
    have "cm_tab_name ((a @ b) ! j) \<in> set ns" using s j(2) False by (simp add: solved_by_def col_key_def)
    note ja = in_a[OF j(1) this]
    show ?thesis unfolding full_cond_def using i(2,3) j(2-4) ia ja False by auto
  qed
qed

section \<open>Feeding\<close>

text \<open>The values of the rows before, by column, with the bytes they are stored as.\<close>

definition dict_is :: "Column_Metadata list \<Rightarrow> literal list \<Rightarrow> (TabCol \<rightharpoonup> Value) \<Rightarrow> bool" where
  "dict_is cols lits dict \<longleftrightarrow> length lits = length cols \<and> (\<forall>i < length cols. literal_type (lits ! i) = cm_type (cols ! i) \<and>
     (\<exists>b. dict (col_key (cols ! i)) = Some \<lparr>v_lit = lits ! i, v_raw = Some b\<rparr> \<and> raw_bytes (cm_len (cols ! i)) (lits ! i) = Inr b))"

lemma rec2dict_lits:
  assumes "distinct (map col_key cols)" "\<forall>col \<in> set cols. dict (col_key col) = None" "length lits = length cols"
    "\<forall>i < length cols. column_literal (cols ! i) d = lits ! i \<and> literal_type (lits ! i) = cm_type (cols ! i) \<and>
       (\<exists>b. raw_bytes (cm_len (cols ! i)) (lits ! i) = Inr b)"
  shows "\<exists>dict'. rec2dict cols d dict = Inr dict' \<and> dict_is cols lits dict' \<and>
    (\<forall>k. k \<notin> col_key ` set cols \<longrightarrow> dict' k = dict k)"
  using assms
proof (induction cols arbitrary: dict lits)
  case (Cons col cols)
  obtain l ls where l: "lits = l # ls" using Cons.prems(3) by (cases lits) auto
  have "\<forall>i < Suc (length cols). column_literal ((col # cols) ! i) d = (l # ls) ! i \<and>
      literal_type ((l # ls) ! i) = cm_type ((col # cols) ! i) \<and> (\<exists>b. raw_bytes (cm_len ((col # cols) ! i)) ((l # ls) ! i) = Inr b)"
    using Cons.prems(4) l by simp
  note H = this[rule_format, of 0, simplified] this[rule_format, of "Suc i" for i, simplified]
  obtain b where b: "raw_bytes (cm_len col) l = Inr b" using H(1) by blast
  let ?v = "\<lparr>v_lit = l, v_raw = Some b\<rparr>"
  have ir: "init_raw (cm_len col) (fresh_value (column_literal col d)) = Inr ?v" using H(1) b raw_bytes_nonneg[OF b] by (simp add: init_raw_def fresh_value_def)
  have rest: "\<forall>i < length cols. column_literal (cols ! i) d = ls ! i \<and> literal_type (ls ! i) = cm_type (cols ! i) \<and>
      (\<exists>b. raw_bytes (cm_len (cols ! i)) (ls ! i) = Inr b)" using H(2) by blast
  have free: "distinct (map col_key cols)" "\<forall>col' \<in> set cols. (dict(col_key col \<mapsto> ?v)) (col_key col') = None" "length ls = length cols"
    using Cons.prems(1-3) l by (simp_all, metis image_eqI)
  obtain dict' where d: "rec2dict cols d (dict(col_key col \<mapsto> ?v)) = Inr dict'" "dict_is cols ls dict'"
    "\<forall>k. k \<notin> col_key ` set cols \<longrightarrow> dict' k = (dict(col_key col \<mapsto> ?v)) k"
    using Cons.IH[OF free rest] by blast
  have "dict' (col_key col) = Some ?v" using d(3) Cons.prems(1) by simp
  then have "dict_is (col # cols) lits dict'"
    using d(2) l b H(1) by (auto simp: dict_is_def less_Suc_eq_0_disj)
  moreover have "rec2dict (col # cols) d dict = Inr dict'" using d(1) ir Cons.prems(2) by (simp add: col_key_def)
  ultimately show ?case using d(3) by auto
qed (simp add: dict_is_def)

text \<open>\<open>left_dict ++ feed\<close>: the values fed from above stay, those of the row come to them.\<close>

lemma dict_is_append:
  assumes "dict_is a k dict" "dict_is b l di" "\<forall>col \<in> set b. dict (col_key col) = None"
  shows "dict_is (a @ b) (k @ l) (di ++ dict)"
proof -
  have "literal_type ((k @ l) ! i) = cm_type ((a @ b) ! i) \<and> (\<exists>d. (di ++ dict) (col_key ((a @ b) ! i)) =
      Some \<lparr>v_lit = (k @ l) ! i, v_raw = Some d\<rparr> \<and> raw_bytes (cm_len ((a @ b) ! i)) ((k @ l) ! i) = Inr d)"
    if i: "i < length (a @ b)" for i
  proof (cases "i < length a")
    case True
    then show ?thesis using assms(1) by (fastforce simp: dict_is_def nth_append map_add_def)
  next
    case False
    then have "i - length a < length b" using i by simp
    then show ?thesis
      using False assms(1,2) assms(3)[rule_format, OF nth_mem] by (fastforce simp: dict_is_def nth_append map_add_def)
  qed
  then show ?thesis using assms(1,2) by (simp add: dict_is_def)
qed

lemma feed_full:
  assumes k: "keyed (a @ cols)" and named: "cols_named name cols" and a: "\<forall>col \<in> set a. cm_tab_name col \<noteq> name"
    and d: "dict_is a k dict" "list_all plain_lit k" and c: "full_cond (a @ cols) c" "tc_tab (lhs_col c) = name"
  shows "\<exists>c'. feed_cond name dict c = Inr c' \<and> cond_checked name cols c' \<and> fed_cond_ok cols c' \<and> conds_on name [c'] \<and>
    lhs_col c' = lhs_col c \<and> cond_op c' = cond_op c \<and> is_rhs_val c' = (is_rhs_val c \<or> tc_tab (rhs_col c) \<noteq> name) \<and>
    (\<forall>lits. length lits = length cols \<longrightarrow> cond_holds cols lits c' = cond_true (a @ cols) (k @ lits) c)"
proof -
  have lk: "length k = length a" using d(1) by (simp add: dict_is_def)
  have own: "\<exists>i' < length cols. (a @ cols) ! i = cols ! i' \<and> i = length a + i'"
    if "i < length (a @ cols)" "cm_tab_name ((a @ cols) ! i) = name" for i
  proof -
    have "\<not> i < length a" using that(2) a by (auto simp: nth_append)
    then show ?thesis using that(1) by (intro exI[of _ "i - length a"]) (simp add: nth_append)
  qed
  have at: "lit_at (a @ cols) (k @ lits) (col_key (cols ! i)) = Some (lits ! i)" if "i < length cols" "length lits = length cols" for i lits
    using lit_at_nth[OF k, of "k @ lits" "length a + i"] that lk by (simp add: nth_append)
  have at_a: "lit_at (a @ cols) (k @ lits) (col_key (a ! j)) = Some (k ! j)" if "j < length a" "length lits = length cols" for j lits
    using lit_at_nth[OF k, of "k @ lits" j] that lk by (simp add: nth_append)
  have nm: "cm_tab_name (cols ! i) = name" "col_key (cols ! i) = TabCol name (cm_name (cols ! i))" if "i < length cols" for i
    using named that by (simp_all add: cols_named_def col_key_def)
  have of: "lit_of cols lits c' = Some (lits ! i)"
    if "i < length cols" "length lits = length cols" "c' = col_key (cols ! i)" for i lits c'
    using lit_of_nth[OF named that(2,1)] that(3) by (simp add: col_key_def)
  obtain m where m: "m < length (a @ cols)" "lhs_col c = col_key ((a @ cols) ! m)" "cm_type ((a @ cols) ! m) \<noteq> TYPE_DATETIME"
    and r: "if is_rhs_val c then \<exists>b. v_raw (rhs_val c) = Some b \<and> raw_bytes (cm_len ((a @ cols) ! m)) (v_lit (rhs_val c)) = Inr b \<and>
          v_type (rhs_val c) = cm_type ((a @ cols) ! m) \<and> plain_lit (v_lit (rhs_val c))
      else \<exists>j < length (a @ cols). rhs_col c = col_key ((a @ cols) ! j) \<and> cm_type ((a @ cols) ! j) = cm_type ((a @ cols) ! m) \<and>
          cm_len ((a @ cols) ! j) = cm_len ((a @ cols) ! m)"
    using c(1) unfolding full_cond_def by blast
  have "cm_tab_name ((a @ cols) ! m) = name" using c(2) m(2) by (simp add: col_key_def)
  then obtain i where i: "i < length cols" "(a @ cols) ! m = cols ! i" using own[OF m(1)] by blast
  note lhs = m(2)[unfolded i(2)] and ty = m(3)[unfolded i(2)] and r = r[unfolded i(2)]
  show ?thesis
  proof (cases "is_rhs_val c")
    case True
    then obtain b where b: "v_raw (rhs_val c) = Some b" "raw_bytes (cm_len (cols ! i)) (v_lit (rhs_val c)) = Inr b"
      "v_type (rhs_val c) = cm_type (cols ! i)" "plain_lit (v_lit (rhs_val c))" using r by auto
    have "key_for (cols ! i) b" by (rule raw_key_for[OF b(2) _ b(4)]) (use b(3) in \<open>simp add: v_type_def\<close>)
    moreover have "feed_cond name dict c = Inr c" using True by (simp add: feed_cond_def)
    moreover have "cond_checked name cols c"
      unfolding cond_checked_def by (rule exI[of _ i]) (use i lhs ty b True nm in \<open>simp add: plain_lit_def\<close>)
    moreover have "cond_holds cols lits c = cond_true (a @ cols) (k @ lits) c" if "length lits = length cols" for lits
      using True at[OF i(1) that] of[OF i(1) that lhs] lhs by (simp add: cond_holds_def cond_true_def)
    ultimately show ?thesis
      using True i(1) b(1) lhs nm[OF i(1)] by (intro exI[of _ c]) (auto simp: fed_cond_ok_def conds_on_def)
  next
    case False
    then obtain j where j: "j < length (a @ cols)" "rhs_col c = col_key ((a @ cols) ! j)" "cm_type ((a @ cols) ! j) = cm_type (cols ! i)"
      "cm_len ((a @ cols) ! j) = cm_len (cols ! i)" using r by auto
    show ?thesis
    proof (cases "tc_tab (rhs_col c) = name")
      case True
      then have "cm_tab_name ((a @ cols) ! j) = name" using j(2) by (simp add: col_key_def)
      then obtain j' where j': "j' < length cols" "(a @ cols) ! j = cols ! j'" using own[OF j(1)] by blast
      note rhs = j(2)[unfolded j'(2)]
      have "feed_cond name dict c = Inr c" using True by (simp add: feed_cond_def)
      moreover have "cond_checked name cols c"
        unfolding cond_checked_def
        by (rule exI[of _ i]) (use i lhs ty j j' rhs False nm in \<open>auto intro!: exI[of _ j']\<close>)
      moreover have "cond_holds cols lits c = cond_true (a @ cols) (k @ lits) c" if "length lits = length cols" for lits
        using False at[OF i(1) that] at[OF j'(1) that] of[OF i(1) that lhs] of[OF j'(1) that rhs] lhs rhs
        by (simp add: cond_holds_def cond_true_def)
      ultimately show ?thesis
        using True False i(1) lhs nm[OF i(1)] by (intro exI[of _ c]) (auto simp: fed_cond_ok_def conds_on_def)
    next
      case foreign: False
      have ja: "j < length a"
      proof (rule ccontr)
        assume "\<not> j < length a"
        then have "(a @ cols) ! j = cols ! (j - length a)" "j - length a < length cols" using j(1) by (simp_all add: nth_append)
        then show False using foreign j(2) nm by (simp add: col_key_def)
      qed
      then have e: "(a @ cols) ! j = a ! j" by (simp add: nth_append)
      note rhs = j(2)[unfolded e] and jt = j(3,4)[unfolded e]
      obtain b where b: "dict (rhs_col c) = Some \<lparr>v_lit = k ! j, v_raw = Some b\<rparr>" "raw_bytes (cm_len (a ! j)) (k ! j) = Inr b"
        "literal_type (k ! j) = cm_type (a ! j)" using d(1) ja rhs by (auto simp: dict_is_def)
      have pl: "plain_lit (k ! j)" using d(2) ja lk by (simp add: list_all_length)
      let ?c = "c\<lparr>is_rhs_val := True, rhs_val := \<lparr>v_lit = k ! j, v_raw = Some b\<rparr>\<rparr>"
      have "key_for (cols ! i) b" by (rule raw_key_for[OF _ _ pl]) (use b jt in simp_all)
      moreover have "feed_cond name dict c = Inr ?c" using False foreign b(1) by (simp add: feed_cond_def)
      moreover have "cond_checked name cols ?c"
        unfolding cond_checked_def
        by (rule exI[of _ i]) (use i lhs ty b jt pl nm in \<open>simp add: plain_lit_def v_type_def\<close>)
      moreover have "cond_holds cols lits ?c = cond_true (a @ cols) (k @ lits) c" if "length lits = length cols" for lits
        using False at[OF i(1) that] at_a[OF ja that] of[OF i(1) that lhs] lhs rhs by (simp add: cond_holds_def cond_true_def)
      ultimately show ?thesis
        using foreign i(1) lhs nm[OF i(1)] by (intro exI[of _ ?c]) (auto simp: fed_cond_ok_def conds_on_def)
    qed
  qed
qed

end
