(* ===== verification/QlSelect.thy ===== *)
theory QlSelect
  imports QlJoin
begin

text \<open>
  The answer of \<open>select_from\<close>: the plan of table nodes yields, by nested loops, the rows of the
  product of the tables on which all conditions hold; the projection picks the selected columns
  and the result shows their values.
\<close>

section \<open>One table of the plan\<close>

definition join_cols :: "(string \<Rightarrow> Table_Metadata) \<Rightarrow> string list \<Rightarrow> Column_Metadata list" where
  "join_cols tab names = concat (map (\<lambda>n. tm_cols (tab n)) names)"

lemma join_cols_append: "join_cols tab (a @ b) = join_cols tab a @ join_cols tab b" "join_cols tab [n] = tm_cols (tab n)"
  "join_cols tab [] = []" "join_cols tab (n # a) = tm_cols (tab n) @ join_cols tab a"
  by (simp_all add: join_cols_def)

text \<open>Tables a query can join: rows without NaN, indexes that agree with them.\<close>

definition query_table :: "(string \<Rightarrow> bt) \<Rightarrow> 'z sm_state_scheme \<Rightarrow> string \<Rightarrow> Table_Metadata \<Rightarrow> bool" where
  "query_table T s n tab \<longleftrightarrow> row_table T s n tab \<and> indexes_agree T s n tab \<and>
     (\<forall>r lits. table_rows s n (tm_cols tab) r = Some lits \<longrightarrow> list_all plain_lit lits)"

definition query_tables :: "(string \<Rightarrow> bt) \<Rightarrow> 'z sm_state_scheme \<Rightarrow> (string \<Rightarrow> Table_Metadata) \<Rightarrow> string list \<Rightarrow> bool" where
  "query_tables T s tab names \<longleftrightarrow> distinct names \<and> (\<forall>n \<in> set names. query_table T s n (tab n))"

lemma query_table_fields:
  assumes "query_table T s n tab"
  shows "db_open T s" "n \<noteq> []" "table_meta s n tab" "cols_named n (tm_cols tab)" "tiled 0 (tm_cols tab)"
    "nat (cols_end 0 (tm_cols tab)) = table_size s n" "indexes_agree T s n tab"
    "map_of (dm_tabs (db s)) n = Some tab"
  using assms by (simp_all add: query_table_def row_table_def table_meta_def)

lemma join_cols_tables: "query_tables T s tab names \<Longrightarrow> col \<in> set (join_cols tab names) \<Longrightarrow> cm_tab_name col \<in> set names"
proof -
  assume q: "query_tables T s tab names" and c: "col \<in> set (join_cols tab names)"
  obtain n where n: "n \<in> set names" "col \<in> set (tm_cols (tab n))" using c by (auto simp: join_cols_def)
  then have "cols_named n (tm_cols (tab n))" using q query_table_fields(4)[of T s n "tab n"] by (simp add: query_tables_def)
  then show ?thesis using n by (simp add: cols_named_def)
qed

lemma join_cols_keyed: "query_tables T s tab names \<Longrightarrow> keyed (join_cols tab names)"
proof (induction names)
  case (Cons n ns)
  have q: "query_tables T s tab ns" "query_table T s n (tab n)" "n \<notin> set ns" using Cons.prems by (simp_all add: query_tables_def)
  note F = query_table_fields[OF q(2)]
  have nm: "cm_tab_name col = n" if "col \<in> set (tm_cols (tab n))" for col using F(4) that by (simp add: cols_named_def)
  have "inj_on col_key (set (tm_cols (tab n)))" "distinct (tm_cols (tab n))"
    using F(4) by (auto simp: cols_named_def distinct_map inj_on_def col_key_def)
  then have "distinct (map col_key (tm_cols (tab n)))" by (simp add: distinct_map)
  moreover have "col_key ` set (tm_cols (tab n)) \<inter> col_key ` set (join_cols tab ns) = {}"
    using nm join_cols_tables[OF q(1)] q(3) by (auto simp: col_key_def)
  ultimately show ?case using Cons.IH[OF q(1)] nm F(2) by (auto simp: keyed_def join_cols_append)
qed (simp add: keyed_def join_cols_def)

text \<open>The node \<open>table_nodes\<close> makes for a table.\<close>

definition oriented :: "string \<Rightarrow> Condition list \<Rightarrow> Condition list" where
  "oriented n conds = (case map_sum_list (orient_cond n) conds of Inr cs \<Rightarrow> cs | Inl _ \<Rightarrow> [])"

definition plan_node :: "(string \<Rightarrow> Table_Metadata) \<Rightarrow> string \<Rightarrow> Condition list \<Rightarrow> TableNode" where
  "plan_node tab n conds = start_node n (oriented n conds) (tab n)"

lemma plan_node_fields [simp]: "tn_tab_name (plan_node tab n conds) = n" "tn_cols (plan_node tab n conds) = tm_cols (tab n)"
  "tn_conds (plan_node tab n conds) = oriented n conds" "tn_fed_conds (plan_node tab n conds) = oriented n conds"
  by (simp_all add: plan_node_def start_node_def)

lemma map_sum_list_ok: "(\<And>x. x \<in> set xs \<Longrightarrow> \<exists>y. f x = Inr y) \<Longrightarrow> \<exists>ys. map_sum_list f xs = Inr ys"
  by (induction xs) fastforce+

lemma QlNodeTable_plan:
  assumes "table_meta s n (tab n)" "map_sum_list (orient_cond n) conds = Inr cs"
  shows "QlNodeTable n conds s = (Inr (plan_node tab n conds), s)"
  using assms by (auto simp: QlNodeTable_def from_sum_def get_table_def table_meta_def cols_named_def start_node_def plan_node_def oriented_def)

text \<open>A condition that the tables \<open>before\<close> do not solve but this one does too can be turned to this table.\<close>

lemma orient_solved: "solved_by (before @ [n]) c \<Longrightarrow> \<not> solved_by before c \<Longrightarrow> \<exists>c'. orient_cond n c = Inr c'"
  by (auto simp: solved_by_def orient_cond_def)

text \<open>The order in which a node visits its table, and the rows in this order. The values it is fed do not matter for it.\<close>

definition visit_order :: "(string \<Rightarrow> bt) \<Rightarrow> 'z sm_state_scheme \<Rightarrow> TableNode \<Rightarrow> RecordID list" where
  "visit_order T s tn = scan_order T (meta_of s tn) (fed (\<lambda>_. Some (fresh_value (IntVal 0))) tn) (content s (tn_tab_name tn))"

lemma find_index_cong:
  "list_all2 (\<lambda>c c'. lhs_col c = lhs_col c' \<and> cond_op c = cond_op c' \<and> is_rhs_val c = is_rhs_val c') cs cs' \<Longrightarrow>
   find_index tab cs = find_index tab cs'"
  by (induction rule: list_all2_induct) (auto split: sum.splits)

lemma fed_conds: "feeds dict tn \<Longrightarrow> list_all2 (\<lambda>c c'. feed_cond (tn_tab_name tn) dict c = Inr c') (tn_conds tn) (tn_fed_conds (fed dict tn))"
  using map_sum_list_Inr by (fastforce simp: feeds_def fed_def)

lemma scan_order_fed:
  assumes "feeds dict tn"
  shows "scan_order T (meta_of s tn) (fed dict tn) (content s (tn_tab_name tn)) = visit_order T s tn"
proof -
  let ?d = "\<lambda>_. Some (fresh_value (IntVal 0))"
  have "feeds ?d tn" unfolding feeds_def by (rule map_sum_list_ok) (simp add: feed_cond_def)
  note A = fed_conds[OF assms] and B = fed_conds[OF this]
  have sim: "lhs_col c' = lhs_col c'' \<and> cond_op c' = cond_op c'' \<and> is_rhs_val c' = is_rhs_val c''"
    if "feed_cond n dict c = Inr c'" "feed_cond n ?d c = Inr c''" for n c c' c''
    using that by (auto simp: feed_cond_def split: if_splits option.splits)
  have "list_all2 (\<lambda>c c'. lhs_col c = lhs_col c' \<and> cond_op c = cond_op c' \<and> is_rhs_val c = is_rhs_val c')
      (tn_fed_conds (fed dict tn)) (tn_fed_conds (fed ?d tn))"
    using A B sim by (simp add: list_all2_conv_all_nth) metis
  from find_index_cong[OF this] show ?thesis
    unfolding visit_order_def scan_order_def by (simp split: sum.split option.split)
qed

definition visit_rows :: "(string \<Rightarrow> bt) \<Rightarrow> 'z sm_state_scheme \<Rightarrow> TableNode \<Rightarrow> literal list list" where
  "visit_rows T s tn = map (\<lambda>r. the (table_rows s (tn_tab_name tn) (tn_cols tn) r)) (visit_order T s tn)"

lemma list_all2_chain:
  "list_all2 P xs ys \<Longrightarrow> list_all2 Q ys zs \<Longrightarrow> (\<And>x y z. x \<in> set xs \<Longrightarrow> P x y \<Longrightarrow> Q y z \<Longrightarrow> R x z) \<Longrightarrow> list_all2 R xs zs"
proof (induction xs arbitrary: ys zs)
  case (Cons x xs)
  then show ?case by (auto simp: list_all2_Cons1)
qed simp

text \<open>The conditions of a node, as given to it, as turned, as fed.\<close>

definition cond_means :: "string \<Rightarrow> Column_Metadata list \<Rightarrow> Column_Metadata list \<Rightarrow> literal list \<Rightarrow> Condition \<Rightarrow> Condition \<Rightarrow> bool" where
  "cond_means n a cols k c d \<longleftrightarrow> cond_checked n cols d \<and> fed_cond_ok cols d \<and> conds_on n [d] \<and>
     (\<forall>lits. length lits = length cols \<longrightarrow> list_all plain_lit lits \<longrightarrow> cond_holds cols lits d = cond_true (a @ cols) (k @ lits) c)"

lemma node_conds:
  assumes q: "query_tables T s tab (before @ [n])"
    and c: "\<forall>c \<in> set conds. full_cond (join_cols tab before @ tm_cols (tab n)) c \<and> solved_by (before @ [n]) c \<and> \<not> solved_by before c"
    and d: "dict_is (join_cols tab before) k dict" "list_all plain_lit k"
  shows "map_sum_list (orient_cond n) conds = Inr (oriented n conds)" "feeds dict (plan_node tab n conds)"
    "list_all2 (cond_means n (join_cols tab before) (tm_cols (tab n)) k) conds (tn_fed_conds (fed dict (plan_node tab n conds)))"
proof -
  let ?a = "join_cols tab before" and ?cols = "tm_cols (tab n)" and ?tn = "plan_node tab n conds"
  have q': "query_tables T s tab before" "query_table T s n (tab n)" "n \<notin> set before" using q by (simp_all add: query_tables_def)
  have keyed: "keyed (?a @ ?cols)" using join_cols_keyed[OF q] by (simp add: join_cols_append)
  have a: "\<forall>col \<in> set ?a. cm_tab_name col \<noteq> n" using join_cols_tables[OF q'(1)] q'(3) by blast
  have "\<exists>cs. map_sum_list (orient_cond n) conds = Inr cs" by (rule map_sum_list_ok) (use c orient_solved in blast)
  then show o: "map_sum_list (orient_cond n) conds = Inr (oriented n conds)" by (auto simp: oriented_def)
  note O = map_sum_list_Inr[OF o]
  have full: "full_cond (?a @ ?cols) c' \<and> tc_tab (lhs_col c') = n \<and> (\<forall>lits. length lits = length (?a @ ?cols) \<longrightarrow>
      list_all plain_lit lits \<longrightarrow> cond_true (?a @ ?cols) lits c' = cond_true (?a @ ?cols) lits c)"
    if "c \<in> set conds" "orient_cond n c = Inr c'" for c c'
    using orient_cond_full[OF keyed _ that(2)] c that(1) by blast
  have fc: "\<exists>d. feed_cond n dict c' = Inr d \<and> cond_checked n ?cols d \<and> fed_cond_ok ?cols d \<and> conds_on n [d] \<and>
      (\<forall>lits. length lits = length ?cols \<longrightarrow> cond_holds ?cols lits d = cond_true (?a @ ?cols) (k @ lits) c')"
    if "full_cond (?a @ ?cols) c'" "tc_tab (lhs_col c') = n" for c'
    using feed_full[OF keyed query_table_fields(4)[OF q'(2)] a d that] by blast
  have oc: "\<exists>c \<in> set conds. orient_cond n c = Inr c'" if m: "c' \<in> set (oriented n conds)" for c'
  proof -
    obtain i where i: "i < length (oriented n conds)" "c' = oriented n conds ! i" using m unfolding in_set_conv_nth by blast
    then have "orient_cond n (conds ! i) = Inr c'" "conds ! i \<in> set conds" using O by (auto simp: list_all2_conv_all_nth)
    then show ?thesis by blast
  qed
  show f: "feeds dict ?tn"
    unfolding feeds_def
  proof (rule map_sum_list_ok)
    fix c' assume "c' \<in> set (tn_conds ?tn)"
    then have "c' \<in> set (oriented n conds)" by simp
    then obtain c where "c \<in> set conds" "orient_cond n c = Inr c'" using oc by blast
    from full[OF this] have "full_cond (?a @ ?cols) c'" "tc_tab (lhs_col c') = n" by simp_all
    from fc[OF this] show "\<exists>d. feed_cond (tn_tab_name ?tn) dict c' = Inr d" unfolding plan_node_fields(1) by blast
  qed
  have lk: "length k = length ?a" using d(1) by (simp add: dict_is_def)
  have F: "list_all2 (\<lambda>c d. feed_cond n dict c = Inr d) (oriented n conds) (tn_fed_conds (fed dict ?tn))"
    using fed_conds[OF f] by simp
  show "list_all2 (cond_means n ?a ?cols k) conds (tn_fed_conds (fed dict ?tn))"
  proof (rule list_all2_chain[OF O F])
    fix c c' d assume h: "c \<in> set conds" "orient_cond n c = Inr c'" "feed_cond n dict c' = Inr d"
    note A = full[OF h(1,2)]
    obtain d' where d': "feed_cond n dict c' = Inr d'" "cond_checked n ?cols d'" "fed_cond_ok ?cols d'" "conds_on n [d']"
      "\<forall>lits. length lits = length ?cols \<longrightarrow> cond_holds ?cols lits d' = cond_true (?a @ ?cols) (k @ lits) c'"
      using fc A by blast
    have "d' = d" using d'(1) h(3) by simp
    then show "cond_means n ?a ?cols k c d" using d' A lk d(2) by (simp add: cond_means_def)
  qed
qed

lemma visit_dom:
  assumes "query_table T s n (tab n)"
  shows "set (visit_order T s (plan_node tab n conds)) = dom (content s n)" "distinct (visit_order T s (plan_node tab n conds))"
proof -
  note Q = query_table_fields[OF assms]
  let ?tn = "plan_node tab n conds"
  have m: "meta_of s ?tn = tab n" using Q(8) by (simp add: meta_of_def)
  have "indexes_agree T s (tn_tab_name (fed (\<lambda>_. Some (fresh_value (IntVal 0))) ?tn)) (tab n)" using Q(7) by simp
  from scan_order_perm[OF this] m show "set (visit_order T s ?tn) = dom (content s n)" "distinct (visit_order T s ?tn)"
    by (simp_all add: visit_order_def)
qed

lemma node_run:
  assumes q: "query_tables T s tab (before @ [n])"
    and c: "\<forall>c \<in> set conds. full_cond (join_cols tab before @ tm_cols (tab n)) c \<and> solved_by (before @ [n]) c \<and> \<not> solved_by before c"
    and d: "dict_is (join_cols tab before) k dict" "list_all plain_lit k"
  defines "hit \<equiv> \<lambda>r. list_all (cond_true (join_cols tab before @ tm_cols (tab n)) (k @ the (table_rows s n (tm_cols (tab n)) r))) conds"
    and "tn \<equiv> plan_node tab n conds"
  shows "tn_ok T s (fed dict tn)"
    "node_data T s (fed dict tn) = map (\<lambda>r. the (content s n r)) (filter hit (visit_order T s tn))"
proof -
  let ?a = "join_cols tab before" and ?cols = "tm_cols (tab n)" and ?ds = "tn_fed_conds (fed dict tn)"
  have q': "query_table T s n (tab n)" using q by (simp add: query_tables_def)
  note Q = query_table_fields[OF q']
  note C = node_conds[OF q c d, folded tn_def]
  have m: "meta_of s tn = tab n" "tn_tab_name tn = n" "tn_cols tn = ?cols" using Q(8) by (simp_all add: meta_of_def tn_def)
  have row: "row_is ?cols (row_lits ?cols data) data" "table_rows s n ?cols r = Some (row_lits ?cols data)" "list_all plain_lit (row_lits ?cols data)"
    if "content s n r = Some data" for r data
  proof -
    have "row_table T s n (tab n)" using q' by (simp add: query_table_def)
    from row_table_row[OF this that] show "row_is ?cols (row_lits ?cols data) data" .
    show "table_rows s n ?cols r = Some (row_lits ?cols data)" using that by (simp add: table_rows_def)
    then show "list_all plain_lit (row_lits ?cols data)" using q' by (simp add: query_table_def)
  qed
  have chk: "\<forall>d \<in> set ?ds. cond_checked n ?cols d \<and> fed_cond_ok ?cols d \<and> conds_on n [d]"
    using C(3) by (auto simp: list_all2_conv_all_nth in_set_conv_nth cond_means_def)
  have ev: "eval_conds ?cols ?ds data = Inr (hit r)" if "content s n r = Some data" for r data
  proof -
    note R = row[OF that]
    have len: "length (row_lits ?cols data) = length ?cols" by (simp add: row_lits_def)
    have "list_all (cond_holds ?cols (row_lits ?cols data)) ?ds = list_all (cond_true (?a @ ?cols) (k @ row_lits ?cols data)) conds"
      using C(3) by (induction rule: list_all2_induct) (use len R(3) in \<open>auto simp: cond_means_def\<close>)
    then show ?thesis using eval_conds_hold[OF Q(4) R(1)] chk R(2) by (simp add: hit_def)
  qed
  have meta: "meta_of s (fed dict tn) = tab n" using m by (simp add: meta_of_def)
  show "tn_ok T s (fed dict tn)"
    using Q(3,7) chk ev meta m
    by (auto simp: tn_ok_def conds_here_def fed_ok_def rows_defined_def row_defined_def conds_on_def list_all_iff ran_def)
  note v = visit_dom[of T s n tab conds, OF q', folded tn_def]
  have "row_sat (fed dict tn) (the (content s n r)) = hit r" if "r \<in> set (visit_order T s tn)" for r
    using that v(1) ev m by (auto simp: row_sat_def)
  then have "filter (\<lambda>r. row_sat (fed dict tn) (the (content s n r))) (visit_order T s tn) = filter hit (visit_order T s tn)"
    by (rule filter_cong[OF refl])
  then show "node_data T s (fed dict tn) = map (\<lambda>r. the (content s n r)) (filter hit (visit_order T s tn))"
    using scan_order_fed[OF C(2), of T s, unfolded m(1,2)] m(2) meta by (simp add: node_data_def table_data_def hits_def)
qed

section \<open>The nodes of a query\<close>

fun plan_nodes :: "(string \<Rightarrow> Table_Metadata) \<Rightarrow> string list \<Rightarrow> string list \<Rightarrow> Condition list \<Rightarrow> TableNode list" where
  "plan_nodes tab before [] conds = []"
| "plan_nodes tab before (n # ns) conds = plan_node tab n (filter (solved_by (before @ [n])) conds) #
     plan_nodes tab (before @ [n]) ns (filter (\<lambda>c. \<not> solved_by (before @ [n]) c) conds)"

lemma solved_more: "solved_by ns c \<Longrightarrow> solved_by (ns @ ms) c"
  by (auto simp: solved_by_def)

lemma table_nodes_run:
  assumes "query_tables T s tab (before @ names)" "\<forall>c \<in> set conds. \<not> solved_by before c"
  shows "\<exists>left. table_nodes before names conds s = (Inr (plan_nodes tab before names conds, left), s) \<and>
    (\<forall>c \<in> set left. c \<in> set conds \<and> \<not> solved_by (before @ names) c)"
  using assms
proof (induction names arbitrary: before conds)
  case (Cons n ns)
  let ?curr = "filter (solved_by (before @ [n])) conds" and ?rest = "filter (\<lambda>c. \<not> solved_by (before @ [n]) c) conds"
  have q: "query_tables T s tab ((before @ [n]) @ ns)" "query_table T s n (tab n)" using Cons.prems(1) by (simp_all add: query_tables_def)
  have "\<exists>cs. map_sum_list (orient_cond n) ?curr = Inr cs"
    by (rule map_sum_list_ok) (use Cons.prems(2) orient_solved in auto)
  then obtain cs where cs: "map_sum_list (orient_cond n) ?curr = Inr cs" by blast
  note N = QlNodeTable_plan[of s n tab, OF query_table_fields(3)[OF q(2)] cs]
  obtain left where "table_nodes (before @ [n]) ns ?rest s = (Inr (plan_nodes tab (before @ [n]) ns ?rest, left), s)"
    "\<forall>c \<in> set left. c \<in> set ?rest \<and> \<not> solved_by ((before @ [n]) @ ns) c"
    using Cons.IH[OF q(1), of ?rest] by auto
  then show ?case using N by (intro exI[of _ left]) (auto simp: pop_conds_def)
qed simp

section \<open>Rows of the join\<close>

definition shift_col :: "int \<Rightarrow> Column_Metadata \<Rightarrow> Column_Metadata" where
  "shift_col n col = col\<lparr>cm_offset := cm_offset col + n\<rparr>"

fun plan_cols :: "TableNode list \<Rightarrow> Column_Metadata list" where
  "plan_cols [] = []"
| "plan_cols [tn] = tn_cols tn"
| "plan_cols (tn # ts) = tn_cols tn @ map (shift_col (tn_len tn)) (plan_cols ts)"

lemma plan_node_cols: "join_plan ts = Some n \<Longrightarrow> node_cols n = plan_cols ts"
  by (induction ts arbitrary: n rule: plan_len.induct) (auto simp: QlNodeJoin_def shift_col_def)

lemma load_append: "p + n \<le> length a \<Longrightarrow> load (a @ b) p n = load a p n" "load (a @ b) (length a + p) n = load b p n"
  by (simp_all add: load_def)

lemma glue_row_is:
  assumes "row_is a k d" "length d = nat la" "0 \<le> la" "row_is b l e" "length e = nat lb" "0 \<le> lb" "\<forall>col \<in> set b. 0 \<le> cm_offset col"
  shows "row_is (a @ map (shift_col la) b) (k @ l) (glue la lb d e)" "length (glue la lb d e) = nat (la + lb)"
proof -
  have g: "glue la lb d e = d @ e" using assms(2,5) by (simp add: glue_def)
  show "length (glue la lb d e) = nat (la + lb)" using g assms(2,3,5,6) by simp
  have "literal_type ((k @ l) ! i) = cm_type ((a @ map (shift_col la) b) ! i) \<and> storable ((k @ l) ! i) \<and>
     nat (cm_offset ((a @ map (shift_col la) b) ! i)) + nat (cm_len ((a @ map (shift_col la) b) ! i)) \<le> length (d @ e) \<and>
     raw_bytes (cm_len ((a @ map (shift_col la) b) ! i)) ((k @ l) ! i) =
       Inr (load (d @ e) (nat (cm_offset ((a @ map (shift_col la) b) ! i))) (nat (cm_len ((a @ map (shift_col la) b) ! i))))"
    if i: "i < length (a @ map (shift_col la) b)" for i
  proof (cases "i < length a")
    case True
    then show ?thesis using assms(1) by (auto simp: row_is_def nth_append load_append(1) intro: trans_le_add1)
  next
    case False
    let ?j = "i - length a"
    have j: "?j < length b" using i False by simp
    have nth: "(a @ map (shift_col la) b) ! i = shift_col la (b ! ?j)" "(k @ l) ! i = l ! ?j"
      using False j assms(1) by (simp_all add: nth_append row_is_def)
    have "nat (cm_offset (shift_col la (b ! ?j))) = length d + nat (cm_offset (b ! ?j))"
      using assms(2,3,7) nth_mem[OF j] by (simp add: shift_col_def nat_add_distrib)
    then show ?thesis using assms(4) j unfolding nth by (simp add: row_is_def load_append(2)) (simp add: shift_col_def)
  qed
  then show "row_is (a @ map (shift_col la) b) (k @ l) (glue la lb d e)"
    using assms(1,4) unfolding g by (simp add: row_is_def)
qed

text \<open>Rows of one table, and the values they feed.\<close>

lemma plan_node_layout:
  assumes q: "query_table T s n (tab n)"
  shows "tn_len (plan_node tab n conds) = cols_end 0 (tm_cols (tab n))" "0 \<le> tn_len (plan_node tab n conds)"
    "\<forall>col \<in> set (tm_cols (tab n)). 0 \<le> cm_offset col"
proof -
  note Q = query_table_fields[OF q]
  have ce: "cm_offset (last cs) + cm_len (last cs) = cols_end off cs" if "tiled off cs" "cs \<noteq> []" for off cs
    using that by (induction cs arbitrary: off) auto
  have ne: "tm_cols (tab n) \<noteq> []" using Q(4) by (simp add: cols_named_def)
  show len: "tn_len (plan_node tab n conds) = cols_end 0 (tm_cols (tab n))"
    using ce[OF Q(5) ne] by (simp add: plan_node_def start_node_def)
  have pos: "0 \<le> cm_offset (tm_cols (tab n) ! i)" "0 \<le> cols_end 0 (tm_cols (tab n))" if "i < length (tm_cols (tab n))" for i
    using tiled_bounds[OF Q(5) that] by simp_all
  show "0 \<le> tn_len (plan_node tab n conds)" using pos(2)[of 0] ne len by simp
  show "\<forall>col \<in> set (tm_cols (tab n)). 0 \<le> cm_offset col" using pos(1) by (auto simp: in_set_conv_nth)
qed

lemma table_row:
  fixes conds :: "Condition list"
  assumes q: "query_table T s n (tab n)" and r: "r \<in> dom (content s n)"
  defines "cols \<equiv> tm_cols (tab n)"
  defines "tn \<equiv> plan_node tab n conds" and "d \<equiv> the (content s n r)" and "l \<equiv> the (table_rows s n cols r)"
  shows "row_is cols l d" "length d = nat (tn_len tn)" "list_all plain_lit l"
    "has_dict tn d" "dict_is cols l (row_dict tn d)" "\<forall>k. k \<notin> col_key ` set cols \<longrightarrow> row_dict tn d k = None"
proof -
  note Q = query_table_fields[OF q]
  obtain data where data: "content s n r = Some data" using r by blast
  have d: "d = data" "l = row_lits cols data" "table_rows s n cols r = Some l" using data by (simp_all add: d_def l_def table_rows_def)
  have "row_table T s n (tab n)" using q by (simp add: query_table_def)
  from row_table_row[OF this data] show ri: "row_is cols l d" by (simp add: d cols_def)
  show "list_all plain_lit l" using q d(3) by (simp add: query_table_def cols_def)
  show "length d = nat (tn_len tn)"
    using content_length[OF Q(1) data] Q(6) d(1) plan_node_layout(1)[of T s n tab, OF q] by (simp add: cols_def tn_def)
  have qs: "query_tables T s tab [n]" using q by (simp add: query_tables_def)
  have k: "distinct (map col_key cols)" using join_cols_keyed[OF qs] by (simp add: keyed_def join_cols_append cols_def)
  have "\<exists>dict'. rec2dict cols d Map.empty = Inr dict' \<and> dict_is cols l dict' \<and> (\<forall>k. k \<notin> col_key ` set cols \<longrightarrow> dict' k = None)"
    using rec2dict_lits[OF k, of Map.empty l d] ri row_is_literal[OF ri] by (fastforce simp: row_is_def)
  then obtain dict' where "rec2dict cols d Map.empty = Inr dict'" "dict_is cols l dict'" "\<forall>k. k \<notin> col_key ` set cols \<longrightarrow> dict' k = None"
    by blast
  then show "has_dict tn d" "dict_is cols l (row_dict tn d)" "\<forall>k. k \<notin> col_key ` set cols \<longrightarrow> row_dict tn d k = None"
    by (simp_all add: has_dict_def row_dict_def tn_def cols_def)
qed

lemma full_solved: "query_tables T s tab names \<Longrightarrow> full_cond (join_cols tab names) c \<Longrightarrow> solved_by names c"
proof -
  assume q: "query_tables T s tab names" and c: "full_cond (join_cols tab names) c"
  have "cm_tab_name (join_cols tab names ! i) \<in> set names" if "i < length (join_cols tab names)" for i
    using join_cols_tables[OF q nth_mem[OF that]] .
  then show ?thesis using c by (cases "is_rhs_val c") (auto simp: full_cond_def solved_by_def col_key_def)
qed

text \<open>Rows and the records that hold them.\<close>

definition plan_row :: "TableNode list \<Rightarrow> literal list \<Rightarrow> byte list \<Rightarrow> bool" where
  "plan_row ts row data \<longleftrightarrow> row_is (plan_cols ts) row data \<and> length data = nat (plan_len ts)"

definition join_rows :: "(string \<Rightarrow> bt) \<Rightarrow> 'z sm_state_scheme \<Rightarrow> TableNode list \<Rightarrow> literal list list" where
  "join_rows T s ts = map concat (product_lists (map (visit_rows T s) ts))"

lemma join_rows_Cons: "join_rows T s (tn # ts) = concat (map (\<lambda>r. map ((@) r) (join_rows T s ts)) (visit_rows T s tn))"
  by (simp add: join_rows_def map_concat comp_def)

lemma join_rows_one: "join_rows T s [tn] = visit_rows T s tn"
  by (simp add: join_rows_def map_concat comp_def)

lemma list_all2_concat_map:
  "(\<And>x. x \<in> set xs \<Longrightarrow> list_all2 P (f x) (g x)) \<Longrightarrow> list_all2 P (concat (map f xs)) (concat (map g xs))"
  by (induction xs) (auto intro: list_all2_appendI)

lemma filter_concat_map:
  "filter P (concat (map (\<lambda>x. map (h x) ys) xs)) = concat (map (\<lambda>x. map (h x) (filter (\<lambda>y. P (h x y)) ys)) xs)"
  by (induction xs) (simp_all add: filter_map comp_def)

lemma concat_map_filter:
  "(\<And>x. x \<in> set xs \<Longrightarrow> \<not> P x \<Longrightarrow> f x = []) \<Longrightarrow> concat (map f xs) = concat (map f (filter P xs))"
  by (induction xs) auto

lemma plan_layout:
  assumes "\<forall>n \<in> set names. query_table T s n (tab n)"
  shows "0 \<le> plan_len (plan_nodes tab before names conds)" "\<forall>col \<in> set (plan_cols (plan_nodes tab before names conds)). 0 \<le> cm_offset col"
proof -
  have "0 \<le> plan_len (plan_nodes tab before names conds) \<and>
    (\<forall>col \<in> set (plan_cols (plan_nodes tab before names conds)). 0 \<le> cm_offset col)"
    using assms
  proof (induction names arbitrary: before conds)
    case (Cons n ns)
    let ?curr = "filter (solved_by (before @ [n])) conds" and ?ts = "plan_nodes tab (before @ [n]) ns (filter (\<lambda>c. \<not> solved_by (before @ [n]) c) conds)"
    have q: "query_table T s n (tab n)" using Cons.prems by simp
    note lay = plan_node_layout(2)[of T s n tab ?curr, OF q] plan_node_layout(3)[of T s n tab, OF q]
    have IH: "0 \<le> plan_len ?ts \<and> (\<forall>col \<in> set (plan_cols ?ts). 0 \<le> cm_offset col)" using Cons.IH Cons.prems by simp
    show ?case
    proof (cases ?ts)
      case Nil
      then show ?thesis using lay by simp
    next
      case (Cons t ts)
      then show ?thesis using lay IH by (auto simp: shift_col_def)
    qed
  qed simp
  then show "0 \<le> plan_len (plan_nodes tab before names conds)" "\<forall>col \<in> set (plan_cols (plan_nodes tab before names conds)). 0 \<le> cm_offset col"
    by simp_all
qed

lemma join_rows_length:
  assumes "\<forall>n \<in> set names. query_table T s n (tab n)"
  shows "row \<in> set (join_rows T s (plan_nodes tab before names conds)) \<Longrightarrow> length row = length (join_cols tab names)"
  using assms
proof (induction names arbitrary: before conds row)
  case Nil
  then show ?case by (simp add: join_rows_def join_cols_def)
next
  case (Cons n ns)
  let ?tn = "plan_node tab n (filter (solved_by (before @ [n])) conds)"
  obtain l rest where l: "l \<in> set (visit_rows T s ?tn)" "row = l @ rest"
    "rest \<in> set (join_rows T s (plan_nodes tab (before @ [n]) ns (filter (\<lambda>c. \<not> solved_by (before @ [n]) c) conds)))"
    using Cons.prems(1) by (auto simp: join_rows_Cons)
  have q: "query_table T s n (tab n)" using Cons.prems(2) by simp
  obtain r where r: "r \<in> dom (content s n)" "l = the (table_rows s n (tm_cols (tab n)) r)"
    using l(1) visit_dom[of T s n tab, OF q] by (auto simp: visit_rows_def)
  have "length l = length (tm_cols (tab n))" using r by (auto simp: table_rows_def row_lits_def)
  then show ?case using Cons.IH[OF l(3)] Cons.prems(2) l(2) by (simp add: join_cols_append)
qed

lemma plan_rows:
  assumes q: "query_tables T s tab (before @ names)" and ne: "names \<noteq> []"
    and c: "\<forall>c \<in> set conds. full_cond (join_cols tab (before @ names)) c \<and> \<not> solved_by before c"
    and d: "dict_is (join_cols tab before) k dict" "list_all plain_lit k"
    and dom: "\<forall>key. key \<notin> col_key ` set (join_cols tab before) \<longrightarrow> dict key = None"
  shows "plan_ok T s dict (plan_nodes tab before names conds) \<and>
    list_all2 (plan_row (plan_nodes tab before names conds))
      (filter (\<lambda>row. list_all (cond_true (join_cols tab (before @ names)) (k @ row)) conds) (join_rows T s (plan_nodes tab before names conds)))
      (plan_data T s dict (plan_nodes tab before names conds))"
  using assms
proof (induction names arbitrary: before conds k dict)
  case (Cons n ns)
  let ?curr = "filter (solved_by (before @ [n])) conds" and ?rest = "filter (\<lambda>c. \<not> solved_by (before @ [n]) c) conds"
  let ?tn = "plan_node tab n ?curr" and ?cols = "tm_cols (tab n)" and ?all = "join_cols tab (before @ n # ns)"
  let ?dat = "\<lambda>r. the (content s n r)" and ?lit = "\<lambda>r. the (table_rows s n ?cols r)"
  have q: "query_tables T s tab (before @ [n])" "query_tables T s tab ((before @ [n]) @ ns)" "query_table T s n (tab n)"
    "query_tables T s tab before" "set ns \<inter> set (before @ [n]) = {}" "query_tables T s tab ns"
    using Cons.prems(1) by (auto simp: query_tables_def)
  have later: "\<forall>col \<in> set (join_cols tab ns). cm_tab_name col \<notin> set (before @ [n])"
    using join_cols_tables[OF q(6)] q(5) by blast
  have all: "?all = (join_cols tab before @ ?cols) @ join_cols tab ns" by (simp add: join_cols_append)
  have curr: "\<forall>c \<in> set ?curr. full_cond (join_cols tab before @ ?cols) c \<and> solved_by (before @ [n]) c \<and> \<not> solved_by before c"
    using Cons.prems(3) full_cond_solved[of "join_cols tab before @ ?cols" "join_cols tab ns"] later unfolding all by auto
  note N = node_run[OF q(1) curr Cons.prems(4,5)] and F = node_conds(2)[OF q(1) curr Cons.prems(4,5)]
  let ?hit = "\<lambda>r. list_all (cond_true (join_cols tab before @ ?cols) (k @ ?lit r)) ?curr"
  let ?R = "filter ?hit (visit_order T s ?tn)"
  have vr: "visit_rows T s (plan_node tab n cs) = map ?lit (visit_order T s (plan_node tab n cs))" for cs by (simp add: visit_rows_def)
  have inR: "r \<in> dom (content s n)" if "r \<in> set (visit_order T s ?tn)" for r using that visit_dom(1)[of T s n tab, OF q(3)] by simp
  note row = table_row(1,3)[where tab = tab and n = n, OF q(3)]
    and fed = table_row(2,4-6)[where tab = tab and n = n and conds = ?curr, OF q(3)]
    and lay = plan_node_layout(2)[where tab = tab and n = n and conds = ?curr, OF q(3)] plan_node_layout(3)[of T s n tab, OF q(3)]
  have lk: "length k = length (join_cols tab before)" using Cons.prems(4) by (simp add: dict_is_def)
  have ll: "length (?lit r) = length ?cols" if "r \<in> dom (content s n)" for r using row(1)[OF that] by (simp add: row_is_def)
  show ?case
  proof (cases "ns = []")
    case True
    have cc: "?curr = conds"
      by (rule filter_True) (use Cons.prems(3) True full_solved[OF q(1)] in auto)
    have f: "filter (\<lambda>row. list_all (cond_true ?all (k @ row)) conds) (visit_rows T s ?tn) = map ?lit ?R"
      using cc True by (simp add: vr filter_map comp_def all join_cols_append)
    have "list_all2 (plan_row [?tn]) (map ?lit ?R) (map ?dat ?R)"
      using row(1) fed(1) inR by (auto simp: list_all2_conv_all_nth plan_row_def dest!: nth_mem)
    then show ?thesis using True N(1,2) F f lay by (simp add: join_rows_one)
  next
    case False
    then obtain m ms where ms: "ns = m # ms" by (cases ns) auto
    let ?ts = "plan_nodes tab (before @ [n]) ns ?rest"
    obtain t0 ts0 where ts: "?ts = t0 # ts0" using ms by simp
    have nodes: "plan_nodes tab before (n # ns) conds = ?tn # ?ts" by simp
    let ?F = "\<lambda>r. filter (\<lambda>row. list_all (cond_true ?all ((k @ ?lit r) @ row)) ?rest) (join_rows T s ?ts)"
    let ?D = "\<lambda>r. plan_data T s (row_dict ?tn (?dat r) ++ dict) ?ts"
    have same: "?all = join_cols tab ((before @ [n]) @ ns)" "join_cols tab (before @ [n]) = join_cols tab before @ ?cols"
      by (simp_all add: join_cols_append)
    have rest: "\<forall>c \<in> set ?rest. full_cond (join_cols tab ((before @ [n]) @ ns)) c \<and> \<not> solved_by (before @ [n]) c"
      using Cons.prems(3) by simp
    have IH: "plan_ok T s (row_dict ?tn (?dat r) ++ dict) ?ts \<and> list_all2 (plan_row ?ts) (?F r) (?D r)" if r: "r \<in> dom (content s n)" for r
    proof -
      have "\<forall>col \<in> set ?cols. dict (col_key col) = None"
      proof
        fix col assume "col \<in> set ?cols"
        then have "cm_tab_name col = n" using query_table_fields(4)[OF q(3)] by (simp add: cols_named_def)
        moreover have "n \<notin> set before" using q(1) by (simp add: query_tables_def)
        ultimately have "col_key col \<notin> col_key ` set (join_cols tab before)"
          using join_cols_tables[OF q(4)] by (auto simp: col_key_def)
        then show "dict (col_key col) = None" using Cons.prems(6) by blast
      qed
      from dict_is_append[OF Cons.prems(4) fed(3)[OF r] this]
      have di: "dict_is (join_cols tab (before @ [n])) (k @ ?lit r) (row_dict ?tn (?dat r) ++ dict)" unfolding same(2) .
      have pl: "list_all plain_lit (k @ ?lit r)" using Cons.prems(5) row(2)[OF r] by simp
      have dm: "\<forall>key. key \<notin> col_key ` set (join_cols tab (before @ [n])) \<longrightarrow> (row_dict ?tn (?dat r) ++ dict) key = None"
        unfolding same(2) using Cons.prems(6) fed(4)[OF r] by (simp add: image_Un)
      show ?thesis using Cons.IH[OF q(2) False rest di pl dm] unfolding same(1) .
    qed
    have q6: "\<forall>n \<in> set ns. query_table T s n (tab n)" using q(6) by (simp add: query_tables_def)
    have split: "filter (\<lambda>row. list_all (cond_true ?all (k @ (?lit r @ row))) conds) (join_rows T s ?ts) = (if ?hit r then ?F r else [])"
      if r: "r \<in> dom (content s n)" for r
    proof -
      have "list_all (cond_true ?all (k @ (?lit r @ row))) conds \<longleftrightarrow> ?hit r \<and> list_all (cond_true ?all ((k @ ?lit r) @ row)) ?rest"
        if row: "row \<in> set (join_rows T s ?ts)" for row
      proof -
        have lr: "length row = length (join_cols tab ns)" by (rule join_rows_length[OF q6 row])
        have "cond_true ?all ((k @ ?lit r) @ row) c = cond_true (join_cols tab before @ ?cols) (k @ ?lit r) c" if "c \<in> set ?curr" for c
          unfolding all by (rule cond_true_append[OF _ join_cols_keyed[OF Cons.prems(1), unfolded all]])
            (use curr that lk ll[OF r] lr in auto)
        then show ?thesis by (auto simp: list_all_iff)
      qed
      then show ?thesis by (cases "?hit r") (auto intro!: filter_cong simp: filter_empty_conv)
    qed
    have "filter (\<lambda>row. list_all (cond_true ?all (k @ row)) conds) (join_rows T s (?tn # ?ts)) =
        concat (map (\<lambda>r. map ((@) (?lit r)) (if ?hit r then ?F r else [])) (visit_order T s ?tn))"
      unfolding join_rows_Cons vr map_map comp_def filter_concat_map
      by (intro arg_cong[where f = concat] map_cong refl) (use split inR in \<open>simp only:\<close>)
    also have "\<dots> = concat (map (\<lambda>r. map ((@) (?lit r)) (if ?hit r then ?F r else [])) ?R)"
      by (rule concat_map_filter) simp
    also have "\<dots> = concat (map (\<lambda>r. map ((@) (?lit r)) (?F r)) ?R)"
      by (intro arg_cong[where f = concat] map_cong refl) simp
    finally have lhs: "filter (\<lambda>row. list_all (cond_true ?all (k @ row)) conds) (join_rows T s (?tn # ?ts)) =
        concat (map (\<lambda>r. map ((@) (?lit r)) (?F r)) ?R)" .
    have rhs: "plan_data T s dict (?tn # ?ts) = concat (map (\<lambda>r. map (glue (tn_len ?tn) (plan_len ?ts) (?dat r)) (?D r)) ?R)"
      unfolding ts plan_data.simps N(2) map_map comp_def ..
    have lay2: "0 \<le> plan_len ?ts" "\<forall>col \<in> set (plan_cols ?ts). 0 \<le> cm_offset col" by (rule plan_layout[OF q6])+
    have each: "list_all2 (plan_row (?tn # ?ts)) (map ((@) (?lit r)) (?F r)) (map (glue (tn_len ?tn) (plan_len ?ts) (?dat r)) (?D r))"
      if "r \<in> set ?R" for r
    proof -
      have r: "r \<in> dom (content s n)" using that inR by simp
      have "plan_row (?tn # ?ts) (?lit r @ row) (glue (tn_len ?tn) (plan_len ?ts) (?dat r) data)" if "plan_row ?ts row data" for row data
        using glue_row_is[OF row(1)[OF r] fed(1)[OF r] lay(1), of "plan_cols ?ts" row data "plan_len ?ts"] lay2 that
        by (simp add: plan_row_def ts)
      then show ?thesis
        using IH[OF r] by (auto simp: list_all2_map1 list_all2_map2 elim!: list_all2_mono)
    qed
    have data: "list_all2 (plan_row (?tn # ?ts)) (filter (\<lambda>row. list_all (cond_true ?all (k @ row)) conds) (join_rows T s (?tn # ?ts)))
        (plan_data T s dict (?tn # ?ts))"
      unfolding lhs rhs by (rule list_all2_concat_map[OF each])
    have "plan_ok T s dict (?tn # ?ts)"
      unfolding ts plan_ok.simps N(2) using F N(1) IH fed(2) inR by (auto simp: ts)
    then show ?thesis unfolding nodes using data by blast
  qed
qed simp

section \<open>Checked references\<close>

definition names_column :: "TabCol \<Rightarrow> Column_Metadata \<Rightarrow> bool" where
  "names_column c col \<longleftrightarrow> cm_name col = tc_col c \<and> (tc_tab c = [] \<or> tc_tab c = cm_tab_name col)"

definition only_at :: "('a \<Rightarrow> bool) \<Rightarrow> 'a list \<Rightarrow> nat \<Rightarrow> bool" where
  "only_at P xs i \<longleftrightarrow> i < length xs \<and> P (xs ! i) \<and> (\<forall>j < length xs. P (xs ! j) \<longrightarrow> j = i)"

lemma only_at_Suc: "\<not> P x \<Longrightarrow> only_at P xs i \<Longrightarrow> only_at P (x # xs) (Suc i)"
  by (simp add: only_at_def All_less_Suc2)

lemma only_at_0: "P x \<Longrightarrow> \<forall>y \<in> set xs. \<not> P y \<Longrightarrow> only_at P (x # xs) 0"
  by (simp add: only_at_def All_less_Suc2 all_set_conv_all_nth)

lemma only_at_map: "only_at P (map f xs) i = only_at (\<lambda>x. P (f x)) xs i"
  by (simp add: only_at_def cong: conj_cong)

lemma map_of_only: "only_at (\<lambda>x. x = k) ks i \<Longrightarrow> length vs = length ks \<Longrightarrow> map_of (zip ks vs) k = Some (vs ! i)"
proof (induction ks arbitrary: vs i)
  case (Cons x xs)
  obtain v vs' where v: "vs = v # vs'" using Cons.prems(2) by (cases vs) auto
  note O = Cons.prems(1)[unfolded only_at_def]
  show ?case
  proof (cases i)
    case 0
    then show ?thesis using O v by simp
  next
    case (Suc i')
    have "x \<noteq> k" using O Suc by force
    moreover have "only_at (\<lambda>x. x = k) xs i'" unfolding only_at_def using O Suc by force
    ultimately show ?thesis using Cons.IH[of i' vs'] Cons.prems(2) v Suc by simp
  qed
qed (simp add: only_at_def)

lemma infer_table_rest: "infer_table cn found cols = Inr t \<Longrightarrow> found \<noteq> [] \<Longrightarrow> t = found \<and> (\<forall>c \<in> set cols. cm_name c \<noteq> cn)"
  by (induction cols) (auto split: if_splits)

lemma infer_table_one:
  assumes "infer_table cn [] cols = Inr t" "\<forall>c \<in> set cols. cm_tab_name c \<noteq> []"
  shows "\<exists>i. only_at (\<lambda>c. cm_name c = cn) cols i \<and> cm_tab_name (cols ! i) = t"
  using assms
proof (induction cols)
  case (Cons c cs)
  show ?case
  proof (cases "cm_name c = cn")
    case True
    then have "infer_table cn (cm_tab_name c) cs = Inr t" "cm_tab_name c \<noteq> []" using Cons.prems by simp_all
    from infer_table_rest[OF this] have "t = cm_tab_name c" "\<forall>c \<in> set cs. cm_name c \<noteq> cn" by simp_all
    then show ?thesis using only_at_0[of "\<lambda>c. cm_name c = cn" c cs] True by (intro exI[of _ 0]) simp
  next
    case False
    then obtain i where "only_at (\<lambda>c. cm_name c = cn) cs i" "cm_tab_name (cs ! i) = t" using Cons.IH Cons.prems by auto
    then show ?thesis using only_at_Suc[of "\<lambda>c. cm_name c = cn" c cs i] False by (intro exI[of _ "Suc i"]) simp
  qed
qed simp

text \<open>A reference that passes the check stands for one column of the tables of the query.\<close>

lemma check_column_names:
  assumes q: "query_tables T s tab names" and c: "check_column (db s) (join_cols tab names) c = Inr c'"
    and own: "tc_tab c \<in> insert [] (set names)"
  shows "\<exists>i < length (join_cols tab names). c' = col_key (join_cols tab names ! i) \<and> tc_col c' = tc_col c \<and>
    names_column c (join_cols tab names ! i) \<and>
    (\<forall>lits. length lits = length (join_cols tab names) \<longrightarrow> lit_at (join_cols tab names) lits c = Some (lits ! i))"
proof (cases "tc_tab c = []")
  case True
  let ?cols = "join_cols tab names"
  have ne: "\<forall>c \<in> set ?cols. cm_tab_name c \<noteq> []" using join_cols_keyed[OF q] by (simp add: keyed_def)
  obtain t where t: "infer_table (tc_col c) [] ?cols = Inr t" "c' = TabCol t (tc_col c)"
    using c True by (auto simp: check_column_def split: sum.splits)
  obtain i where i: "only_at (\<lambda>col. cm_name col = tc_col c) ?cols i" "cm_tab_name (?cols ! i) = t"
    using infer_table_one[OF t(1) ne] by blast
  have il: "i < length ?cols" "cm_name (?cols ! i) = tc_col c" using i(1) by (simp_all add: only_at_def)
  have "lit_at ?cols lits c = Some (lits ! i)" if l: "length lits = length ?cols" for lits
  proof -
    have "(\<lambda>col. TabCol [] (cm_name col) = c) = (\<lambda>col :: Column_Metadata. cm_name col = tc_col c)" using True by (cases c) auto
    then have "only_at (\<lambda>x. x = c) (map (\<lambda>col. TabCol [] (cm_name col)) ?cols) i" using i(1) by (simp only: only_at_map)
    from map_of_only[OF this, of lits] show ?thesis using l True by (simp add: lit_at_def)
  qed
  then show ?thesis using t(2) i(2) il True by (intro exI[of _ i]) (simp add: col_key_def names_column_def)
next
  case False
  let ?cols = "join_cols tab names"
  have n: "tc_tab c \<in> set names" using own False by simp
  have qt: "query_table T s (tc_tab c) (tab (tc_tab c))" using q n by (simp add: query_tables_def)
  have g: "get_table (db s) (tc_tab c) = Inr (tab (tc_tab c))" using query_table_fields(8)[OF qt] by (simp add: get_table_def)
  then have cc: "c' = c" "is_col (tab (tc_tab c)) (tc_col c)" using c False by (auto simp: check_column_def split: if_splits)
  then obtain col where col: "col \<in> set (tm_cols (tab (tc_tab c)))" "cm_name col = tc_col c" by (auto simp: is_col_def list_ex_iff)
  then have nm: "cm_tab_name col = tc_tab c" using query_table_fields(4)[OF qt] by (simp add: cols_named_def)
  have "col \<in> set ?cols" using col(1) n by (auto simp: join_cols_def)
  then obtain i where i: "i < length ?cols" "?cols ! i = col" by (auto simp: in_set_conv_nth)
  have key: "c = col_key (?cols ! i)" using i(2) col(2) nm by (simp add: col_key_def)
  then show ?thesis
    using lit_at_nth[OF join_cols_keyed[OF q] _ i(1)] i cc(1) nm col(2) by (intro exI[of _ i]) (simp add: names_column_def)
qed

text \<open>
  The conditions of a query whose meaning is the comparison of values: their columns are columns of
  the tables of the query, no date is compared, two columns that are compared have one length, a
  value is storable and no NaN.
\<close>

definition query_cond :: "string list \<Rightarrow> Column_Metadata list \<Rightarrow> Condition \<Rightarrow> bool" where
  "query_cond names cols c \<longleftrightarrow> tc_tab (lhs_col c) \<in> insert [] (set names) \<and>
     (\<forall>col \<in> set cols. names_column (lhs_col c) col \<longrightarrow> cm_type col \<noteq> TYPE_DATETIME) \<and>
     (if is_rhs_val c then plain_lit (v_lit (rhs_val c))
      else tc_tab (rhs_col c) \<in> insert [] (set names) \<and> (\<forall>col \<in> set cols. \<forall>col' \<in> set cols. names_column (lhs_col c) col \<longrightarrow>
        names_column (rhs_col c) col' \<longrightarrow> cm_len col' = cm_len col))"

lemma find_column_join:
  assumes q: "query_tables T s tab names" and i: "i < length (join_cols tab names)"
  shows "find_column (db s) (col_key (join_cols tab names ! i)) = Inr (join_cols tab names ! i)"
proof -
  let ?col = "join_cols tab names ! i"
  obtain n where n: "n \<in> set names" "?col \<in> set (tm_cols (tab n))" using nth_mem[OF i] by (auto simp: join_cols_def)
  have qt: "query_table T s n (tab n)" using q n(1) by (simp add: query_tables_def)
  note Q = query_table_fields[OF qt]
  obtain j where j: "j < length (tm_cols (tab n))" "tm_cols (tab n) ! j = ?col" using n(2) by (auto simp: in_set_conv_nth)
  have "cm_tab_name ?col = n" using Q(4) n(2) by (simp add: cols_named_def)
  moreover have "get_table (db s) n = Inr (tab n)" using Q(8) by (simp add: get_table_def)
  ultimately show ?thesis using find_column_own[OF _ Q(4) j(1)] j(2) by (simp add: col_key_def)
qed

lemma check_cond_full:
  assumes q: "query_tables T s tab names" and c: "check_cond (db s) (join_cols tab names) c = Inr c'"
    and plain: "query_cond names (join_cols tab names) c"
  shows "full_cond (join_cols tab names) c' \<and> (\<forall>lits. length lits = length (join_cols tab names) \<longrightarrow>
    cond_true (join_cols tab names) lits c' = cond_true (join_cols tab names) lits c)"
proof -
  let ?cols = "join_cols tab names"
  obtain lhs where lhs: "check_column (db s) ?cols (lhs_col c) = Inr lhs"
    using c by (auto simp: check_cond_def sum_then_def split: sum.splits)
  have "tc_tab (lhs_col c) \<in> insert [] (set names)" using plain by (simp add: query_cond_def)
  from check_column_names[OF q lhs this] obtain i where i: "i < length ?cols" "lhs = col_key (?cols ! i)"
    "names_column (lhs_col c) (?cols ! i)" "\<forall>lits. length lits = length ?cols \<longrightarrow> lit_at ?cols lits (lhs_col c) = Some (lits ! i)"
    by blast
  note fi = find_column_join[OF q i(1)] and li = lit_at_nth[OF join_cols_keyed[OF q] _ i(1)]
  have ty: "cm_type (?cols ! i) \<noteq> TYPE_DATETIME" using plain nth_mem[OF i(1)] i(3) by (auto simp: query_cond_def)
  show ?thesis
  proof (cases "is_rhs_val c")
    case True
    obtain v where v: "init_raw (cm_len (?cols ! i)) (rhs_val c) = Inr v" "v_type v = cm_type (?cols ! i)"
      "c' = c\<lparr>lhs_col := lhs, rhs_val := v\<rparr>"
      using c lhs True fi i(2) by (auto simp: check_cond_def sum_then_def check_types_def split: sum.splits if_splits)
    obtain b where b: "raw_bytes (cm_len (?cols ! i)) (v_lit (rhs_val c)) = Inr b" "v = (rhs_val c)\<lparr>v_raw := Some b\<rparr>"
      using v(1) by (auto simp: init_raw_def split: sum.splits if_splits)
    have pl: "plain_lit (v_lit (rhs_val c))" using plain True by (simp add: query_cond_def)
    have "full_cond ?cols c'"
      unfolding full_cond_def by (rule exI[of _ i]) (use i ty b v True pl in simp)
    then show ?thesis using i(2,4) li b(2) v(3) True by (simp add: cond_true_def)
  next
    case False
    obtain rhs where rhs: "check_column (db s) ?cols (rhs_col c) = Inr rhs"
      using c False by (auto simp: check_cond_def sum_then_def split: sum.splits)
    have "tc_tab (rhs_col c) \<in> insert [] (set names)" using plain False by (simp add: query_cond_def)
    from check_column_names[OF q rhs this] obtain j where j: "j < length ?cols" "rhs = col_key (?cols ! j)"
      "names_column (rhs_col c) (?cols ! j)" "\<forall>lits. length lits = length ?cols \<longrightarrow> lit_at ?cols lits (rhs_col c) = Some (lits ! j)"
      by blast
    note fj = find_column_join[OF q j(1)] and lj = lit_at_nth[OF join_cols_keyed[OF q] _ j(1)]
    have c': "cm_type (?cols ! i) = cm_type (?cols ! j)" "c' = c\<lparr>lhs_col := lhs, rhs_col := rhs\<rparr>"
      using c lhs rhs False fi fj i(2) j(2) by (auto simp: check_cond_def sum_then_def check_types_def split: if_splits)
    have "cm_len (?cols ! j) = cm_len (?cols ! i)"
      using plain False nth_mem[OF i(1)] nth_mem[OF j(1)] i(3) j(3) by (auto simp: query_cond_def)
    then have "full_cond ?cols c'"
      unfolding full_cond_def by (intro exI[of _ i]) (use i j c' ty False in \<open>auto intro!: exI[of _ j]\<close>)
    then show ?thesis using i(2,4) j(2,4) li lj c'(2) False by (simp add: cond_true_def)
  qed
qed

lemma check_where_full:
  assumes q: "query_tables T s tab names" and ne: "names \<noteq> []"
    and c: "check_where_clause (db s) names conds = Inr conds'"
    and plain: "list_all (query_cond names (join_cols tab names)) conds"
  shows "list_all (full_cond (join_cols tab names)) conds'"
    "length lits = length (join_cols tab names) \<Longrightarrow>
      list_all (cond_true (join_cols tab names) lits) conds' = list_all (cond_true (join_cols tab names) lits) conds"
    "get_all_cols (db s) names = Inr (join_cols tab names)"
proof -
  let ?cols = "join_cols tab names"
  have "get_all_cols (db s) ns = Inr (join_cols tab ns)" if "set ns \<subseteq> set names" for ns
    using that
  proof (induction ns)
    case (Cons n ns)
    have "query_table T s n (tab n)" using q Cons.prems by (simp add: query_tables_def)
    from query_table_fields(8)[OF this] show ?case using Cons by (simp add: get_table_def join_cols_append)
  qed (simp add: join_cols_append)
  then show g: "get_all_cols (db s) names = Inr ?cols" by simp
  have "list_all2 (\<lambda>c c'. check_cond (db s) ?cols c = Inr c') conds conds'"
    by (rule map_sum_list_Inr) (use c g in \<open>simp add: check_where_clause_def sum_then_def\<close>)
  then have "list_all2 (\<lambda>c c'. check_cond (db s) ?cols c = Inr c' \<and> query_cond names ?cols c) conds conds'"
    using plain by (auto simp: list_all2_conv_all_nth list_all_length)
  then have "list_all (full_cond ?cols) conds' \<and> (length lits = length ?cols \<longrightarrow>
      list_all (cond_true ?cols lits) conds' = list_all (cond_true ?cols lits) conds)" for lits
    using check_cond_full[OF q] by (induction rule: list_all2_induct) auto
  then show "list_all (full_cond ?cols) conds'" "length lits = length ?cols \<Longrightarrow>
      list_all (cond_true ?cols lits) conds' = list_all (cond_true ?cols lits) conds" by simp_all
qed

end
