(* ===== verification/QlAnswer.thy ===== *)
theory QlAnswer
  imports QlSelect
begin

text \<open>
  The projection and the whole of \<open>select_from\<close>.
\<close>

section \<open>Projection\<close>

lemma ql_get_col_keyed:
  assumes "distinct (map col_key cols)" "i < length cols"
  shows "ql_get_col cols (col_key (cols ! i)) = Inr i"
proof -
  have same: "j = i" if "j < length cols" "cm_tab_name (cols ! j) = cm_tab_name (cols ! i)" "cm_name (cols ! j) = cm_name (cols ! i)" for j
    using nth_eq_iff_index_eq[OF assms(1), of j i] that assms(2) by (simp add: col_key_def)
  have "\<not> (cm_tab_name (cols ! j) = cm_tab_name (cols ! i) \<and> cm_name (cols ! j) = cm_name (cols ! i))" if "j < i" for j
    using same[of j] that assms(2) by fastforce
  then show ?thesis unfolding ql_get_col_Inr using assms(2) by (simp add: col_key_def)
qed

text \<open>The columns picked from \<open>prev\<close>: one behind the other, otherwise as they were.\<close>

definition picked :: "Column_Metadata list \<Rightarrow> nat list \<Rightarrow> Column_Metadata list \<Rightarrow> bool" where
  "picked prev idxs cols \<longleftrightarrow> length idxs = length cols \<and> (\<forall>k < length cols. idxs ! k < length prev \<and>
     cm_type (cols ! k) = cm_type (prev ! (idxs ! k)) \<and> cm_len (cols ! k) = cm_len (prev ! (idxs ! k)))"

lemma project_cols_run:
  assumes "distinct (map col_key prev)" "\<forall>col \<in> set prev. 0 \<le> cm_len col" "0 \<le> off"
    "list_all2 (\<lambda>c i. i < length prev \<and> c = col_key (prev ! i)) sel idxs"
  shows "\<exists>cols. project_cols prev off sel = Inr (cols, cols_end off cols, idxs) \<and> tiled off cols \<and> picked prev idxs cols"
  using assms(3,4)
proof (induction sel arbitrary: off idxs)
  case Nil
  then show ?case by (simp add: picked_def)
next
  case (Cons c cs)
  obtain i js where i: "idxs = i # js" "i < length prev" "c = col_key (prev ! i)"
    "list_all2 (\<lambda>c i. i < length prev \<and> c = col_key (prev ! i)) cs js" using Cons.prems(2) by (auto simp: list_all2_Cons1)
  have len: "0 \<le> cm_len (prev ! i)" using assms(2) i(2) by simp
  then have "0 \<le> off + cm_len (prev ! i)" using Cons.prems(1) by simp
  from Cons.IH[OF this i(4)] obtain cols where c: "project_cols prev (off + cm_len (prev ! i)) cs =
      Inr (cols, cols_end (off + cm_len (prev ! i)) cols, js)" "tiled (off + cm_len (prev ! i)) cols" "picked prev js cols" by blast
  let ?c = "(prev ! i)\<lparr>cm_offset := off\<rparr>"
  have "picked prev (i # js) (?c # cols)" using c(3) i(2) by (auto simp: picked_def nth_Cons split: nat.split)
  then show ?case
    using c(1,2) i(1,3) ql_get_col_keyed[OF assms(1) i(2)] len Cons.prems(1) by (intro exI[of _ "?c # cols"]) simp
qed

lemma picked_Cons: "picked prev (i # js) (c # cols) \<longleftrightarrow> i < length prev \<and> cm_type c = cm_type (prev ! i) \<and>
    cm_len c = cm_len (prev ! i) \<and> picked prev js cols"
  by (auto simp: picked_def All_less_Suc2)

text \<open>Copying the columns is writing the row of their values.\<close>

lemma project_bytes_row:
  assumes "row_is prev lits d" "picked prev idxs cols"
  shows "project_bytes prev (zip cols idxs) d out = row_of (zip cols (map (\<lambda>i. fresh_value (lits ! i)) idxs)) out"
  using assms(2)
proof (induction cols arbitrary: idxs out)
  case (Cons c cols)
  obtain i js where i: "idxs = i # js" using Cons.prems by (cases idxs) (auto simp: picked_def)
  then have p: "i < length prev" "cm_len c = cm_len (prev ! i)" "picked prev js cols" using Cons.prems by (simp_all add: picked_Cons)
  have "raw_bytes (cm_len c) (lits ! i) = Inr (load d (nat (cm_offset (prev ! i))) (nat (cm_len c)))"
    using assms(1) p(1,2) by (simp add: row_is_def)
  then show ?case using Cons.IH[OF p(3)] i by (simp add: fresh_value_def)
qed simp

lemma project_row:
  assumes r: "row_is prev lits d" and p: "picked prev idxs cols" and t: "tiled 0 cols"
  shows "row_is cols (map (\<lambda>i. lits ! i) idxs) (project_bytes prev (zip cols idxs) d (replicate (nat (cols_end 0 cols)) 0))"
proof -
  let ?vals = "map (\<lambda>i. fresh_value (lits ! i)) idxs"
  have len: "length ?vals = length cols" using p by (simp add: picked_def)
  have "value_fits (cols ! k) (?vals ! k) \<and> storable (v_lit (?vals ! k))" if k: "k < length cols" for k
  proof -
    have i: "idxs ! k < length prev" "cm_type (cols ! k) = cm_type (prev ! (idxs ! k))" "cm_len (cols ! k) = cm_len (prev ! (idxs ! k))"
      using p k by (simp_all add: picked_def)
    have "storable (lits ! (idxs ! k))" "literal_type (lits ! (idxs ! k)) = cm_type (prev ! (idxs ! k))"
      "\<exists>b. raw_bytes (cm_len (prev ! (idxs ! k))) (lits ! (idxs ! k)) = Inr b" using r i(1) by (auto simp: row_is_def)
    then show ?thesis using i k len by (auto simp: value_fits_def fresh_value_def v_type_def value_ok_def storable_def)
  qed
  then have "\<forall>(col, v) \<in> set (zip cols ?vals). value_fits col v \<and> storable (v_lit v)" using len by (auto simp: set_zip)
  from row_of_is[OF t len this] show ?thesis
    unfolding project_bytes_row[OF r p] by (simp add: comp_def fresh_value_def)
qed

section \<open>The answer\<close>

lemma map_sum_list_same: "map_sum_list f xs = Inr ys \<Longrightarrow> (\<And>x y. f x = Inr y \<Longrightarrow> y = x) \<Longrightarrow> ys = xs"
  by (induction xs arbitrary: ys) (auto split: sum.splits)

text \<open>The plan as \<open>table_nodes\<close> builds it is the plan fed with nothing.\<close>

lemma feed_nothing:
  assumes "join_plan (tn # ts) = Some n" "tn_fed_conds tn = tn_conds tn" "node_feed n Map.empty s = (Inr n1, s)"
  shows "n1 = n"
proof -
  have fc: "c' = c" if "feed_cond name Map.empty c = Inr c'" for name c c' using that by (auto simp: feed_cond_def split: if_splits)
  have "t = tn" if h: "table_feed tn Map.empty s = (Inr t, u)" for t u
  proof -
    obtain cs where cs: "map_sum_list (feed_cond (tn_tab_name tn) Map.empty) (tn_conds tn) = Inr cs" "t = tn\<lparr>tn_fed_conds := cs\<rparr>"
      using h by (auto simp: table_feed_def andThen_run check_runtime_conds_def split: sum.splits prod.splits if_splits)
    have "cs = tn_conds tn" by (rule map_sum_list_same[OF cs(1) fc])
    then show ?thesis using cs(2) assms(2) by (cases tn) simp
  qed
  then show ?thesis
    using assms(1,3) by (cases ts) (auto simp: QlNodeJoin_def andThen_run split: sum.splits prod.splits)
qed

definition row_order :: "'z sm_state_scheme \<Rightarrow> string \<Rightarrow> Table_Metadata \<Rightarrow> RecordID list \<Rightarrow> bool" where
  "row_order s n tab rids \<longleftrightarrow> distinct rids \<and> set rids = dom (table_rows s n (tm_cols tab)) \<and>
     (no_index tab \<longrightarrow> rids = sorted_list_of_set (dom (table_rows s n (tm_cols tab))))"

definition query_rows :: "'z sm_state_scheme \<Rightarrow> (string \<Rightarrow> Table_Metadata) \<Rightarrow> string list \<Rightarrow> RecordID list list \<Rightarrow> literal list list" where
  "query_rows s tab names orders = map concat (product_lists
     (map2 (\<lambda>n rids. map (\<lambda>r. the (table_rows s n (tm_cols (tab n)) r)) rids) names orders))"

definition shown_row :: "Column_Metadata list \<Rightarrow> TabCol list \<Rightarrow> literal list \<Rightarrow> string list" where
  "shown_row cols sel row = (if sel = [] then map literal_text row else map (\<lambda>c. literal_text (the (lit_at cols row c))) sel)"

definition select_fuel :: "'z sm_state_scheme \<Rightarrow> (string \<Rightarrow> Table_Metadata) \<Rightarrow> string list \<Rightarrow> nat" where
  "select_fuel s tab names = (\<Sum>n\<leftarrow>names. 2 * card (dom (table_rows s n (tm_cols (tab n)))) + 4) +
     foldr (*) (map (\<lambda>n. card (dom (table_rows s n (tm_cols (tab n))))) names) 1 + 2"

lemma visit_row_order:
  assumes q: "query_table T s n (tab n)"
  shows "row_order s n (tab n) (visit_order T s (plan_node tab n conds))"
proof -
  have "visit_order T s (plan_node tab n conds) = sorted_list_of_set (dom (content s n))" if no: "no_index (tab n)"
  proof -
    have m: "meta_of s (plan_node tab n conds) = tab n" using query_table_fields(8)[OF q] by (simp add: meta_of_def)
    have "find_index (tab n) cs \<noteq> Inr (Some i)" for cs i
      using find_index_Some(1,2)[of "tab n" cs i] no by (auto simp: no_index_def list_all_length)
    then show ?thesis using m by (simp add: visit_order_def scan_order_def split: sum.split option.split)
  qed
  then show ?thesis using visit_dom[of T s n tab, OF q] by (simp add: row_order_def)
qed

lemma plan_orders:
  assumes "\<forall>n \<in> set names. query_table T s n (tab n)"
  shows "list_all2 (\<lambda>n rids. row_order s n (tab n) rids) names (map (visit_order T s) (plan_nodes tab before names conds))"
    "join_rows T s (plan_nodes tab before names conds) = query_rows s tab names (map (visit_order T s) (plan_nodes tab before names conds))"
    "plan_fuel s (plan_nodes tab before names conds) = (\<Sum>n\<leftarrow>names. 2 * card (dom (table_rows s n (tm_cols (tab n)))) + 4)"
    "map length (map (visit_rows T s) (plan_nodes tab before names conds)) = map (\<lambda>n. card (dom (table_rows s n (tm_cols (tab n))))) names"
proof -
  have "list_all2 (\<lambda>n rids. row_order s n (tab n) rids) names (map (visit_order T s) (plan_nodes tab before names conds)) \<and>
    map (visit_rows T s) (plan_nodes tab before names conds) = map2 (\<lambda>n rids. map (\<lambda>r. the (table_rows s n (tm_cols (tab n)) r)) rids)
      names (map (visit_order T s) (plan_nodes tab before names conds)) \<and>
    plan_fuel s (plan_nodes tab before names conds) = (\<Sum>n\<leftarrow>names. 2 * card (dom (table_rows s n (tm_cols (tab n)))) + 4)"
    using assms
  proof (induction names arbitrary: before conds)
    case (Cons n ns)
    have q: "query_table T s n (tab n)" using Cons.prems by simp
    have "length (visit_order T s (plan_node tab n cs)) = card (dom (content s n))" for cs
      using visit_dom[of T s n tab, OF q] distinct_card by metis
    then show ?case
      using Cons.IH Cons.prems visit_row_order[of T s n tab, OF q] by (simp add: node_rows_def visit_rows_def)
  qed simp
  then show "list_all2 (\<lambda>n rids. row_order s n (tab n) rids) names (map (visit_order T s) (plan_nodes tab before names conds))"
    "join_rows T s (plan_nodes tab before names conds) = query_rows s tab names (map (visit_order T s) (plan_nodes tab before names conds))"
    "plan_fuel s (plan_nodes tab before names conds) = (\<Sum>n\<leftarrow>names. 2 * card (dom (table_rows s n (tm_cols (tab n)))) + 4)"
    by (simp_all only: join_rows_def query_rows_def)
  show "map length (map (visit_rows T s) (plan_nodes tab before names conds)) = map (\<lambda>n. card (dom (table_rows s n (tm_cols (tab n))))) names"
    using assms
  proof (induction names arbitrary: before conds)
    case (Cons n ns)
    have q: "query_table T s n (tab n)" using Cons.prems by simp
    have "length (visit_order T s (plan_node tab n cs)) = card (dom (content s n))" for cs
      using visit_dom[of T s n tab, OF q] distinct_card by metis
    then have "length (visit_rows T s (plan_node tab n cs)) = card (dom (content s n))" for cs by (simp add: visit_rows_def)
    then show ?case using Cons.IH Cons.prems by (simp del: map_map)
  qed simp
qed

text \<open>The columns of the plan are those of the tables, further along the record.\<close>

lemma plan_cols_keys:
  assumes "\<forall>n \<in> set names. query_table T s n (tab n)"
  shows "map (\<lambda>col. col\<lparr>cm_offset := 0\<rparr>) (plan_cols (plan_nodes tab before names conds)) = map (\<lambda>col. col\<lparr>cm_offset := 0\<rparr>) (join_cols tab names)"
  using assms
proof (induction names arbitrary: before conds)
  case (Cons n ns)
  let ?ts = "plan_nodes tab (before @ [n]) ns (filter (\<lambda>c. \<not> solved_by (before @ [n]) c) conds)"
  have IH: "map (\<lambda>col. col\<lparr>cm_offset := 0\<rparr>) (plan_cols ?ts) = map (\<lambda>col. col\<lparr>cm_offset := 0\<rparr>) (join_cols tab ns)"
    using Cons.IH Cons.prems by simp
  show ?case
  proof (cases "?ts")
    case Nil
    then have "ns = []" by (cases ns) simp_all
    then show ?thesis by (simp add: join_cols_append)
  next
    case (Cons t ts)
    then show ?thesis using IH by (simp add: join_cols_append comp_def shift_col_def)
  qed
qed (simp add: join_cols_def)

text \<open>The plan yields the rows of the query.\<close>

lemma query_plan:
  assumes q: "query_tables T s tab names" and ne: "names \<noteq> []"
    and chk: "check_where_clause (db s) names conds = Inr conds'" and plain: "list_all (query_cond names (join_cols tab names)) conds"
  defines "nodes \<equiv> plan_nodes tab [] names conds'"
  shows "\<exists>orders plan ds. table_nodes [] names conds' s = (Inr (nodes, []), s) \<and> join_plan nodes = Some plan \<and>
    list_all2 (\<lambda>n rids. row_order s n (tab n) rids) names orders \<and> node_cols plan = plan_cols nodes \<and>
    (\<forall>fuel \<ge> plan_fuel s nodes. \<exists>n2 u. node_begin fuel plan s = (Inr n2, u) \<and> db_reads T s u \<and> bare n2 = bare plan \<and>
      stream (plan_fuel s nodes) T u n2 ds) \<and>
    list_all2 (plan_row nodes) (filter (\<lambda>row. list_all (cond_true (join_cols tab names) row) conds) (query_rows s tab names orders)) ds \<and>
    length (query_rows s tab names orders) = foldr (*) (map (\<lambda>n. card (dom (table_rows s n (tm_cols (tab n))))) names) 1"
proof -
  have q': "\<forall>n \<in> set names. query_table T s n (tab n)" "query_tables T s tab ([] @ names)" using q by (simp_all add: query_tables_def)
  note W = check_where_full[OF q ne chk plain]
  have unsolved: "\<forall>c \<in> set conds'. \<not> solved_by [] c" by (simp add: solved_by_def)
  obtain left where l: "table_nodes [] names conds' s = (Inr (nodes, left), s)"
    "\<forall>c \<in> set left. c \<in> set conds' \<and> \<not> solved_by ([] @ names) c"
    using table_nodes_run[OF q'(2) unsolved] unfolding nodes_def by blast
  have "left = []"
  proof (rule ccontr)
    assume "left \<noteq> []"
    then have "hd left \<in> set left" by simp
    with l(2) W(1) full_solved[OF q] show False by (auto simp: list_all_iff)
  qed
  have full: "\<forall>c \<in> set conds'. full_cond (join_cols tab ([] @ names)) c \<and> \<not> solved_by [] c"
    using W(1) unsolved by (simp add: list_all_iff)
  have start: "dict_is (join_cols tab []) [] Map.empty" "list_all plain_lit []"
    "\<forall>key. key \<notin> col_key ` set (join_cols tab []) \<longrightarrow> Map.empty key = (None :: Value option)"
    by (simp_all add: dict_is_def join_cols_append)
  note P = plan_rows[OF q'(2) ne full start, folded nodes_def]
  note O = plan_orders[OF q'(1), of "[]" conds', folded nodes_def]
  have some: "\<exists>p. join_plan (t # ts) = Some p" for t ts by (induction ts arbitrary: t) auto
  obtain n ns where n: "names = n # ns" using ne by (cases names) auto
  obtain tn ts where tn: "nodes = tn # ts" "tn_fed_conds tn = tn_conds tn" unfolding nodes_def n by simp
  obtain plan where plan: "join_plan nodes = Some plan" using some[of tn ts] tn(1) by auto
  have o: "db_open T s" using query_table_fields(1)[of T s n "tab n"] q'(1) n by simp
  obtain n1 where n1: "node_feed plan Map.empty s = (Inr n1, s)" "\<forall>fuel \<ge> plan_fuel s nodes.
    \<exists>n2 u. node_begin fuel n1 s = (Inr n2, u) \<and> db_reads T s u \<and> bare n2 = bare plan \<and>
      stream (plan_fuel s nodes) T u n2 (plan_data T s Map.empty nodes)"
    using plan_begin[OF plan conjunct1[OF P] refl o] by blast
  have e: "n1 = plan" using feed_nothing[OF plan[unfolded tn(1)] tn(2) n1(1)] .
  have rows: "filter (\<lambda>row. list_all (cond_true (join_cols tab ([] @ names)) ([] @ row)) conds') (join_rows T s nodes) =
      filter (\<lambda>row. list_all (cond_true (join_cols tab names) row) conds) (query_rows s tab names (map (visit_order T s) nodes))"
    unfolding O(2)[symmetric]
    by (rule filter_cong[OF refl]) (use W(2) join_rows_length[where before = "[]" and conds = conds', OF q'(1), folded nodes_def] in simp)
  have "length (query_rows s tab names (map (visit_order T s) nodes)) =
      foldr (*) (map (\<lambda>n. card (dom (table_rows s n (tm_cols (tab n))))) names) 1"
    unfolding O(2)[symmetric] join_rows_def length_map length_product_lists O(4) ..
  moreover have "list_all2 (plan_row nodes) (filter (\<lambda>row. list_all (cond_true (join_cols tab names) row) conds)
      (query_rows s tab names (map (visit_order T s) nodes))) (plan_data T s Map.empty nodes)"
    using conjunct2[OF P] unfolding rows .
  ultimately show ?thesis
    using l(1) \<open>left = []\<close> plan O(1) plan_node_cols[OF plan] n1(2)[unfolded e]
    by (intro exI[of _ "map (visit_order T s) nodes"] exI[of _ plan] exI[of _ "plan_data T s Map.empty nodes"] conjI) simp_all
qed

text \<open>The positions of the selected columns.\<close>

lemma selected_columns:
  assumes q: "query_tables T s tab names"
    and sel: "map_sum_list (check_column (db s) (join_cols tab names)) sel = Inr sel'"
      "list_all (\<lambda>c. tc_tab c \<in> insert [] (set names)) sel"
  defines "selected \<equiv> (if sel = [] then map col_key (join_cols tab names) else sel')"
  shows "\<exists>idxs. list_all2 (\<lambda>c i. i < length (join_cols tab names) \<and> c = col_key (join_cols tab names ! i)) selected idxs \<and>
    map tc_col selected = (if sel = [] then map cm_name (join_cols tab names) else map tc_col sel) \<and>
    (\<forall>row. length row = length (join_cols tab names) \<longrightarrow>
      shown_row (join_cols tab names) sel row = map (\<lambda>i. literal_text (row ! i)) idxs)"
proof (cases "sel = []")
  case True
  let ?cols = "join_cols tab names"
  have "map literal_text row = map (\<lambda>i. literal_text (row ! i)) [0..<length ?cols]" if "length row = length ?cols" for row
    by (rule nth_equalityI) (use that in simp_all)
  then show ?thesis
    using True by (intro exI[of _ "[0..<length ?cols]"]) (simp add: selected_def shown_row_def list_all2_conv_all_nth col_key_def)
next
  case False
  let ?cols = "join_cols tab names"
  have "list_all2 (\<lambda>c c'. check_column (db s) ?cols c = Inr c' \<and> tc_tab c \<in> insert [] (set names)) sel sel'"
    using map_sum_list_Inr[OF sel(1)] sel(2) by (auto simp: list_all2_conv_all_nth list_all_length)
  then have "\<exists>idxs. list_all2 (\<lambda>c i. i < length ?cols \<and> c = col_key (?cols ! i)) sel' idxs \<and> map tc_col sel' = map tc_col sel \<and>
    (\<forall>row. length row = length ?cols \<longrightarrow> map (\<lambda>c. literal_text (the (lit_at ?cols row c))) sel = map (\<lambda>i. literal_text (row ! i)) idxs)"
  proof (induction rule: list_all2_induct)
    case Nil
    then show ?case by (intro exI[of _ "[]"]) simp
  next
    case (Cons c cs c' cs')
    obtain i where i: "i < length ?cols" "c' = col_key (?cols ! i)" "tc_col c' = tc_col c"
      "\<forall>lits. length lits = length ?cols \<longrightarrow> lit_at ?cols lits c = Some (lits ! i)"
      using check_column_names[OF q, of c c'] Cons.hyps(1) by blast
    from Cons.IH obtain idxs where "list_all2 (\<lambda>c i. i < length ?cols \<and> c = col_key (?cols ! i)) cs' idxs" "map tc_col cs' = map tc_col cs"
      "\<forall>row. length row = length ?cols \<longrightarrow> map (\<lambda>c. literal_text (the (lit_at ?cols row c))) cs = map (\<lambda>i. literal_text (row ! i)) idxs"
      by blast
    then show ?case using i by (intro exI[of _ "i # idxs"]) simp
  qed
  then show ?thesis using False by (simp add: selected_def shown_row_def)
qed

lemma select_run:
  assumes q: "query_tables T s tab names" and ne: "names \<noteq> []"
    and chk: "check_where_clause (db s) names conds = Inr conds'" and plain: "list_all (query_cond names (join_cols tab names)) conds"
    and sel: "map_sum_list (check_column (db s) (join_cols tab names)) sel = Inr sel'"
      "list_all (\<lambda>c. tc_tab c \<in> insert [] (set names)) sel"
    and fuel: "select_fuel s tab names \<le> fuel"
  shows "\<exists>t orders. list_all2 (\<lambda>n rids. row_order s n (tab n) rids) names orders \<and>
    select_from fuel sel names conds s = (Inr \<lparr>column_names = (if sel = [] then map cm_name (join_cols tab names) else map tc_col sel),
      result_rows = map (shown_row (join_cols tab names) sel)
        (filter (\<lambda>row. list_all (cond_true (join_cols tab names) row) conds) (query_rows s tab names orders))\<rparr>, t) \<and>
    db_reads T s t"
proof -
  let ?cols = "join_cols tab names" and ?nodes = "plan_nodes tab [] names conds'"
  let ?cond = "\<lambda>row. list_all (cond_true ?cols row) conds"
  have q': "\<forall>n \<in> set names. query_table T s n (tab n)" using q by (simp add: query_tables_def)
  have keyed: "keyed ?cols" by (rule join_cols_keyed[OF q])
  have pk: "map (\<lambda>col. col\<lparr>cm_offset := 0\<rparr>) (plan_cols ?nodes) = map (\<lambda>col. col\<lparr>cm_offset := 0\<rparr>) ?cols" by (rule plan_cols_keys[OF q'])
  have pl: "length (plan_cols ?nodes) = length ?cols" using pk by (metis length_map)
  have pc: "col_key (plan_cols ?nodes ! i) = col_key (?cols ! i) \<and> cm_len (plan_cols ?nodes ! i) = cm_len (?cols ! i)" if "i < length ?cols" for i
  proof -
    have "(plan_cols ?nodes ! i)\<lparr>cm_offset := 0\<rparr> = (?cols ! i)\<lparr>cm_offset := 0\<rparr>"
      using arg_cong[OF pk, of "\<lambda>xs. xs ! i"] that pl by simp
    then show ?thesis by (metis (no_types, lifting) Column_Metadata.select_convs(1,2,4) Column_Metadata.surjective Column_Metadata.update_convs(5) col_key_def)
  qed
  have cl: "\<forall>col \<in> set (plan_cols ?nodes). 0 \<le> cm_len col"
  proof
    fix col assume "col \<in> set (plan_cols ?nodes)"
    then obtain i where i: "i < length ?cols" "plan_cols ?nodes ! i = col" by (auto simp: in_set_conv_nth pl)
    obtain n where n: "n \<in> set names" "?cols ! i \<in> set (tm_cols (tab n))" using nth_mem[OF i(1)] by (auto simp: join_cols_def)
    have "cols_named n (tm_cols (tab n))" using query_table_fields(4)[of T s n "tab n"] q' n(1) by blast
    then have "0 \<le> cm_len (?cols ! i)" using n(2) by (simp add: cols_named_def col_sized_def)
    then show "0 \<le> cm_len col" using pc[OF i(1)] i(2) by simp
  qed
  have pd: "distinct (map col_key (plan_cols ?nodes))"
  proof -
    have "map col_key (plan_cols ?nodes) = map col_key ?cols" by (rule nth_equalityI) (use pl pc in simp_all)
    then show ?thesis using keyed by (simp add: keyed_def)
  qed
  let ?selected = "if sel = [] then map col_key ?cols else sel'"
  obtain idxs where idxs: "list_all2 (\<lambda>c i. i < length ?cols \<and> c = col_key (?cols ! i)) ?selected idxs"
    "map tc_col ?selected = (if sel = [] then map cm_name ?cols else map tc_col sel)"
    "\<forall>row. length row = length ?cols \<longrightarrow> shown_row ?cols sel row = map (\<lambda>i. literal_text (row ! i)) idxs"
    using selected_columns[OF q sel] by blast
  have "list_all2 (\<lambda>c i. i < length (plan_cols ?nodes) \<and> c = col_key (plan_cols ?nodes ! i)) ?selected idxs"
    using idxs(1) pc pl by (auto elim!: list_all2_mono)
  from project_cols_run[OF pd cl order_refl this] obtain cols where cols:
    "project_cols (plan_cols ?nodes) 0 ?selected = Inr (cols, cols_end 0 cols, idxs)" "tiled 0 cols" "picked (plan_cols ?nodes) idxs cols" by blast
  obtain orders plan ds where P: "table_nodes [] names conds' s = (Inr (?nodes, []), s)" "join_plan ?nodes = Some plan"
    "list_all2 (\<lambda>n rids. row_order s n (tab n) rids) names orders" "node_cols plan = plan_cols ?nodes"
    "\<forall>fuel \<ge> plan_fuel s ?nodes. \<exists>n2 u. node_begin fuel plan s = (Inr n2, u) \<and> db_reads T s u \<and> bare n2 = bare plan \<and>
      stream (plan_fuel s ?nodes) T u n2 ds"
    "list_all2 (plan_row ?nodes) (filter ?cond (query_rows s tab names orders)) ds"
    "length (query_rows s tab names orders) = foldr (*) (map (\<lambda>n. card (dom (table_rows s n (tm_cols (tab n))))) names) 1"
    using query_plan[OF q ne chk plain] by (elim exE conjE) (rule that; assumption)
  have pf: "plan_fuel s ?nodes = (\<Sum>n\<leftarrow>names. 2 * card (dom (table_rows s n (tm_cols (tab n)))) + 4)" by (rule plan_orders(3)[OF q'])
  have dl: "length ds \<le> length (query_rows s tab names orders)" using list_all2_lengthD[OF P(6)] length_filter_le by metis
  have f: "plan_fuel s ?nodes + length ds + 2 \<le> fuel" using fuel pf P(7) dl by (simp add: select_fuel_def del: dom_table_rows)
  obtain g where g: "fuel = Suc g" "plan_fuel s ?nodes \<le> g" using f by (cases fuel) simp_all
  obtain n2 u where u: "node_begin g plan s = (Inr n2, u)" "db_reads T s u" "bare n2 = bare plan" "stream (plan_fuel s ?nodes) T u n2 ds"
    using P(5) g(2) by blast
  let ?proj = "NProj n2 cols (cols_end 0 cols) idxs" and ?pb = "\<lambda>d. project_bytes (plan_cols ?nodes) (zip cols idxs) d (replicate (nat (cols_end 0 cols)) 0)"
  have nc: "node_cols n2 = plan_cols ?nodes" using bare_same[OF u(3)] P(4) by simp
  have st: "stream (Suc (plan_fuel s ?nodes)) T u ?proj (map ?pb ds)"
    using proj_stream[OF u(4) db_reads_open[OF u(2)], of cols "cols_end 0 cols" idxs] unfolding nc .
  have fl: "Suc (plan_fuel s ?nodes) + length (map ?pb ds) < fuel" using f by simp
  obtain v where v: "collect_rows fuel ?proj u = (Inr (map (result_row cols) (map ?pb ds)), v)" "db_reads T u v"
    using collect_rows_stream[OF st db_reads_open[OF u(2)] fl] by auto
  have "map (result_row cols) (map ?pb ds) = map (shown_row ?cols sel) (filter ?cond (query_rows s tab names orders))"
    using P(6)
  proof (induction rule: list_all2_induct)
    case (Cons row rows d ds)
    have r: "row_is (plan_cols ?nodes) row d" using Cons.hyps(1) by (simp add: plan_row_def)
    then have "length row = length ?cols" using pl by (simp add: row_is_def)
    moreover have "result_row cols (?pb d) = map literal_text (map (\<lambda>i. row ! i) idxs)"
      by (rule row_is_text[OF project_row[OF r cols(3,2)]])
    ultimately show ?case using Cons.IH idxs(3) by (simp add: comp_def)
  qed simp
  note rows = v(1)[unfolded this]
  have "(\<lambda>c. TabCol (cm_tab_name c) (cm_name c)) = col_key" by (simp add: fun_eq_iff col_key_def)
  then have sl: "(if sel = [] then Inr (map (\<lambda>c. TabCol (cm_tab_name c) (cm_name c)) ?cols)
      else map_sum_list (check_column (db s) ?cols) sel) = Inr ?selected" using sel(1) by simp
  have all: "get_all_cols (db s) names = Inr ?cols" by (rule check_where_full(3)[OF q ne chk plain])
  have pj: "QlNodeProj plan ?selected = Inr (NProj plan cols (cols_end 0 cols) idxs)" using cols(1) P(4) by (simp add: QlNodeProj_def)
  have nb: "node_begin fuel (NProj plan cols (cols_end 0 cols) idxs) s = (Inr ?proj, u)" using g(1) u(1) by simp
  have "select_from fuel sel names conds s = (Inr \<lparr>column_names = map tc_col ?selected,
      result_rows = map (shown_row ?cols sel) (filter ?cond (query_rows s tab names orders))\<rparr>, v)"
    unfolding select_from_def using chk P(1,2) by (simp add: all sl pj nb rows del: node_begin.simps map_map)
  note run = this[unfolded idxs(2)]
  show ?thesis using run P(3) db_reads_trans[OF u(2) v(2)] by blast
qed

end
