(* ===== verification/SelectTheorems.thy ===== *)
theory SelectTheorems
  imports QlAnswer DbExamples
begin

text \<open>
  The property of \<open>SELECT\<close>, with a join of two tables as its instance.
\<close>

text \<open>C1: \<open>SELECT\<close> answers with exactly the rows of the product of its tables on which the where clause
  holds, each showing the selected columns, whatever indexes the plan uses: the rows come in the order of
  nested loops over the tables, each table visited once in an order that is that of the file when it has
  no index. Nothing is changed.\<close>

theorem select_joins:
  assumes "query_tables T s tab names" "names \<noteq> []"
    and "check_where_clause (db s) names conds = Inr conds'" "list_all (query_cond names (join_cols tab names)) conds"
    and "map_sum_list (check_column (db s) (join_cols tab names)) sel = Inr sel'"
    and "list_all (\<lambda>c. tc_tab c \<in> insert [] (set names)) sel" "select_fuel s tab names \<le> fuel"
  shows "\<exists>t orders. list_all2 (\<lambda>n rids. row_order s n (tab n) rids) names orders \<and>
    select_from fuel sel names conds s = (Inr \<lparr>column_names = (if sel = [] then map cm_name (join_cols tab names) else map tc_col sel),
      result_rows = map (shown_row (join_cols tab names) sel)
        (filter (\<lambda>row. list_all (cond_true (join_cols tab names) row) conds) (query_rows s tab names orders))\<rparr>, t) \<and>
    db_reads T s t"
  using select_run[OF assms] .

section \<open>A second table\<close>

definition ex_infos2 :: "ColumnInfo list" where
  "ex_infos2 = [\<lparr>ci_name = ''x'', ci_type = TYPE_INT, ci_len = 4\<rparr>, \<lparr>ci_name = ''y'', ci_type = TYPE_INT, ci_len = 4\<rparr>]"

definition ex_cols2 :: "Column_Metadata list" where
  "ex_cols2 = [\<lparr>cm_tab_name = ''u'', cm_name = ''x'', cm_type = TYPE_INT, cm_len = 4, cm_offset = 0, cm_index = False\<rparr>,
     \<lparr>cm_tab_name = ''u'', cm_name = ''y'', cm_type = TYPE_INT, cm_len = 4, cm_offset = 4, cm_index = False\<rparr>]"

definition ex_tab2 :: Table_Metadata where
  "ex_tab2 = \<lparr>tm_name = ''u'', tm_cols = ex_cols2\<rparr>"

definition ex_vals2 :: "Value list" where
  "ex_vals2 = [fresh_value (IntVal 7), fresh_value (IntVal 9)]"

definition ex_db3 :: "unit sm_state_scheme" where
  "ex_db3 = snd (create_table ''u'' ex_infos2 (ex_db2 ()))"

definition ex_db4 :: "unit sm_state_scheme" where
  "ex_db4 = snd (insert_into ''u'' ex_vals2 ex_db3)"

lemma ex_make_columns2: "make_columns ''u'' 0 ex_infos2 = Inr (ex_cols2, 8)"
  by (simp add: ex_infos2_def ex_cols2_def int_ok_def INT_MAX_def INT_MIN_def)

lemma ex_infos2_ok: "list_all col_info_ok ex_infos2" "distinct (map ci_name ex_infos2)"
  by (simp_all add: ex_infos2_def col_info_ok_def key_size_def)

lemma ex_vals2_fit: "length ex_vals2 = length (tm_cols ex_tab2)" "map v_lit ex_vals2 = [IntVal 7, IntVal 9]"
  "\<forall>(col, v) \<in> set (zip (tm_cols ex_tab2) ex_vals2). value_fits col v \<and> storable (v_lit v)"
  by (simp_all add: ex_vals2_def ex_tab2_def ex_cols2_def value_fits_def v_type_def fresh_value_def value_ok_def
      storable_def int_ok_def INT_MAX_def INT_MIN_def)

lemma ex_db3_facts:
  "db_live no_trees ex_db3" "sems_free ex_db3" "row_table no_trees ex_db3 ''u'' ex_tab2" "no_index ex_tab2"
  "table_rows ex_db3 ''u'' ex_cols2 = Map.empty" "row_table no_trees ex_db3 ''t'' ex_tab"
  "\<exists>q. table_rows ex_db3 ''t'' ex_cols = [q \<mapsto> ex_row]"
  "db ex_db3 = \<lparr>dm_name = ''d'', dm_tabs = [(''t'', ex_tab), (''u'', ex_tab2)]\<rparr>"
  "rec_room 1000 (the (map_of (fhs ex_db3) ''u''))"
proof -
  let ?s = "ex_db2 ()"
  have ne: "''u'' \<noteq> []" by simp
  have c: "cwd ?s = cwd (sm_start ())" using ex_db2_facts(8)[of "()"] by (simp add: sm_start_fields)
  have "resolve ?s ''u'' \<noteq> resolve (sm_start ()) ''t''" by (simp add: resolve_def c)
  then have new: "\<not> is_table (db ?s) ''u''" "\<not> sys_is_reg ?s ''u''"
    using ex_db2_facts(7,12)[of "()"] by (simp_all add: is_table_def sys_is_reg_def)
  obtain t fh where t: "create_table ''u'' ex_infos2 ?s = (Inr (), t)" "db_live no_trees t" "sems_free t"
    "row_table no_trees t ''u'' \<lparr>tm_name = ''u'', tm_cols = ex_cols2\<rparr>" "no_index \<lparr>tm_name = ''u'', tm_cols = ex_cols2\<rparr>"
    "table_rows t ''u'' ex_cols2 = Map.empty" "content t = content ?s"
    "db t = set_table ''u'' \<lparr>tm_name = ''u'', tm_cols = ex_cols2\<rparr> (db ?s)" "ihs t = ihs ?s"
    "map_of (fhs t) = (map_of (fhs ?s))(''u'' \<mapsto> fh)" "fh_hdr fh = new_file_header 8"
    by (rule create_table_rows[OF ex_db2_facts(2,3)[of "()"] new ne ex_make_columns2 ex_size ex_infos2_ok]) (rule that; assumption)
  have e: "ex_db3 = t" using t(1) by (simp add: ex_db3_def)
  show "db_live no_trees ex_db3" "sems_free ex_db3" "row_table no_trees ex_db3 ''u'' ex_tab2" "no_index ex_tab2"
    "table_rows ex_db3 ''u'' ex_cols2 = Map.empty"
    using t by (simp_all add: e ex_tab2_def)
  show "db ex_db3 = \<lparr>dm_name = ''d'', dm_tabs = [(''t'', ex_tab), (''u'', ex_tab2)]\<rparr>"
    using t(8) ex_db2_facts(7)[of "()"] by (simp add: e set_table_def ex_tab2_def)
  show "rec_room 1000 (the (map_of (fhs ex_db3) ''u''))"
    using t(10,11) by (simp add: e rec_room_def new_file_header_def Let_def RM_FIRST_RECORD_PAGE_def)
  have "db_open no_trees t" "get_table (db t) ''t'' = get_table (db ?s) ''t''" "map_of (fhs t) ''t'' = map_of (fhs ?s) ''t''"
    "content t ''t'' = content ?s ''t''"
    using t(2,7,8,10) by (simp_all add: db_live_def get_table_def set_table_def)
  note K = row_table_keeps[OF ex_db2_facts(5)[of "()"] this]
  show "row_table no_trees ex_db3 ''t'' ex_tab" using K by (simp add: e)
  show "\<exists>q. table_rows ex_db3 ''t'' ex_cols = [q \<mapsto> ex_row]"
    using K ex_db2_facts(6)[of "()"] by (simp add: e ex_tab_def)
qed

lemma ex_db4_facts:
  "row_table no_trees ex_db4 ''t'' ex_tab" "row_table no_trees ex_db4 ''u'' ex_tab2"
  "\<exists>q. table_rows ex_db4 ''t'' ex_cols = [q \<mapsto> ex_row]" "\<exists>q. table_rows ex_db4 ''u'' ex_cols2 = [q \<mapsto> [IntVal 7, IntVal 9]]"
  "db ex_db4 = \<lparr>dm_name = ''d'', dm_tabs = [(''t'', ex_tab), (''u'', ex_tab2)]\<rparr>"
proof -
  have room: "rec_room (Suc 999) (the (map_of (fhs ex_db3) ''u''))" using ex_db3_facts(9) by simp
  obtain q t M where t: "insert_into ''u'' ex_vals2 ex_db3 =
      (Inr \<lparr>ir_table = ''u'', ir_success = True, ir_message = ''1 row inserted''\<rparr>, t)"
    "row_table no_trees t ''u'' ex_tab2" "table_rows t ''u'' (tm_cols ex_tab2) =
      (table_rows ex_db3 ''u'' (tm_cols ex_tab2))(q \<mapsto> map v_lit ex_vals2)" "db_writes no_trees ex_db3 ''u'' M t"
    using insert_row[OF ex_db3_facts(3,4) ex_vals2_fit(1,3) room] by blast
  have e: "ex_db4 = t" using t(1) by (simp add: ex_db4_def)
  show "row_table no_trees ex_db4 ''u'' ex_tab2" using t(2) by (simp add: e)
  show "\<exists>q. table_rows ex_db4 ''u'' ex_cols2 = [q \<mapsto> [IntVal 7, IntVal 9]]"
    using t(3) ex_db3_facts(5) by (simp add: e ex_tab2_def ex_vals2_fit(2)) blast
  show "db ex_db4 = \<lparr>dm_name = ''d'', dm_tabs = [(''t'', ex_tab), (''u'', ex_tab2)]\<rparr>"
    using t(4) ex_db3_facts(8) by (simp add: e db_writes_def)
  have ne: "''t'' \<noteq> ''u''" by simp
  note K = writes_row_table[OF t(4) ne ex_db3_facts(6)]
  show "row_table no_trees ex_db4 ''t'' ex_tab" "\<exists>q. table_rows ex_db4 ''t'' ex_cols = [q \<mapsto> ex_row]"
    using K ex_db3_facts(7) by (simp_all add: e)
qed

section \<open>A join\<close>

text \<open>\<open>SELECT b, y FROM t, u WHERE a = x\<close>.\<close>

definition ex_join :: Condition where
  "ex_join = \<lparr>lhs_col = TabCol [] ''a'', cond_op = OP_EQ, is_rhs_val = False, rhs_col = TabCol ''u'' ''x'',
     rhs_val = fresh_value (IntVal 0)\<rparr>"

definition ex_tabs :: "string \<Rightarrow> Table_Metadata" where
  "ex_tabs n = (if n = ''t'' then ex_tab else ex_tab2)"

definition ex_sel :: "TabCol list" where
  "ex_sel = [TabCol [] ''b'', TabCol ''u'' ''y'']"

lemma ex_join_cols: "join_cols ex_tabs [''t'', ''u''] = ex_cols @ ex_cols2"
  by (simp add: join_cols_def ex_tabs_def ex_tab_def ex_tab2_def)

lemma ex_query: "query_tables no_trees ex_db4 ex_tabs [''t'', ''u'']"
proof -
  have agr: "indexes_agree no_trees ex_db4 ''t'' ex_tab" "indexes_agree no_trees ex_db4 ''u'' ex_tab2"
    by (rule no_index_agrees, rule ex_db1_facts(6), rule no_index_agrees, rule ex_db3_facts(4))
  obtain q r where q: "table_rows ex_db4 ''t'' (tm_cols ex_tab) = [q \<mapsto> ex_row]" "table_rows ex_db4 ''u'' (tm_cols ex_tab2) = [r \<mapsto> [IntVal 7, IntVal 9]]"
    using ex_db4_facts(3,4) by (auto simp: ex_tab_def ex_tab2_def)
  show ?thesis
    using ex_db4_facts(1,2) agr q
    by (auto simp: query_tables_def query_table_def ex_tabs_def ex_row_def plain_lit_def storable_def int_ok_def INT_MAX_def INT_MIN_def
      split: if_splits)
qed

lemma ex_join_checks:
  "\<exists>cs. check_where_clause (db ex_db4) [''t'', ''u''] [ex_join] = Inr cs"
  "\<exists>cs. map_sum_list (check_column (db ex_db4) (ex_cols @ ex_cols2)) ex_sel = Inr cs"
  "list_all (query_cond [''t'', ''u''] (ex_cols @ ex_cols2)) [ex_join]" "list_all (\<lambda>c. tc_tab c \<in> insert [] (set [''t'', ''u''])) ex_sel"
  by (simp_all add: ex_db4_facts(5) check_where_clause_def get_table_def ex_tab_def ex_tab2_def ex_cols_def ex_cols2_def sum_then_def
      check_cond_def check_column_def find_column_def ex_join_def ex_sel_def check_types_def get_col_def is_col_def Let_def
      query_cond_def names_column_def)

theorem select_joins_witness:
  "\<exists>t. select_from 16 ex_sel [''t'', ''u''] [ex_join] ex_db4 =
    (Inr \<lparr>column_names = [''b'', ''y''], result_rows = [[''xy'', ''9'']]\<rparr>, t)"
proof -
  obtain q r where q: "table_rows ex_db4 ''t'' (tm_cols (ex_tabs ''t'')) = [q \<mapsto> ex_row]"
    "table_rows ex_db4 ''u'' (tm_cols (ex_tabs ''u'')) = [r \<mapsto> [IntVal 7, IntVal 9]]"
    using ex_db4_facts(3,4) by (auto simp: ex_tabs_def ex_tab_def ex_tab2_def)
  obtain cs where cs: "check_where_clause (db ex_db4) [''t'', ''u''] [ex_join] = Inr cs" using ex_join_checks(1) by blast
  obtain sel' where sel: "map_sum_list (check_column (db ex_db4) (join_cols ex_tabs [''t'', ''u''])) ex_sel = Inr sel'"
    using ex_join_checks(2) by (auto simp: ex_join_cols)
  have plain: "list_all (query_cond [''t'', ''u''] (join_cols ex_tabs [''t'', ''u''])) [ex_join]" using ex_join_checks(3) by (simp only: ex_join_cols)
  have ne: "[''t'', ''u''] \<noteq> []" by simp
  have fuel: "select_fuel ex_db4 ex_tabs [''t'', ''u''] \<le> 16" by (simp add: select_fuel_def q del: dom_table_rows)
  obtain t orders where t: "list_all2 (\<lambda>n rids. row_order ex_db4 n (ex_tabs n) rids) [''t'', ''u''] orders"
    "select_from 16 ex_sel [''t'', ''u''] [ex_join] ex_db4 = (Inr \<lparr>column_names = (if ex_sel = [] then map cm_name (join_cols ex_tabs [''t'', ''u'']) else map tc_col ex_sel),
      result_rows = map (shown_row (join_cols ex_tabs [''t'', ''u'']) ex_sel)
        (filter (\<lambda>row. list_all (cond_true (join_cols ex_tabs [''t'', ''u'']) row) [ex_join]) (query_rows ex_db4 ex_tabs [''t'', ''u''] orders))\<rparr>, t)"
    using select_joins[OF ex_query ne cs plain sel ex_join_checks(4) fuel] by blast
  obtain o1 o2 where o: "orders = [o1, o2]" "row_order ex_db4 ''t'' (ex_tabs ''t'') o1" "row_order ex_db4 ''u'' (ex_tabs ''u'') o2"
    using t(1) by (auto simp: list_all2_Cons1)
  have one: "rids = [x]" if "distinct rids" "set rids = {x}" for rids and x :: RecordID
    using that by (cases rids) (auto simp: subset_singleton_iff)
  have "o1 = [q]" "o2 = [r]" using o(2,3) q one by (simp_all add: row_order_def del: dom_table_rows)
  then have rows: "query_rows ex_db4 ex_tabs [''t'', ''u''] orders = [ex_row @ [IntVal 7, IntVal 9]]"
    using o(1) q by (simp add: query_rows_def)
  have "cond_true (ex_cols @ ex_cols2) (ex_row @ [IntVal 7, IntVal 9]) ex_join"
    by (simp add: cond_true_def lit_at_def ex_join_def ex_cols_def ex_cols2_def ex_row_def int_cmp_def)
  moreover have "digit_char 9 = CHR ''9''" by code_simp
  then have "shown_row (ex_cols @ ex_cols2) ex_sel (ex_row @ [IntVal 7, IntVal 9]) = [''xy'', ''9'']"
    by (simp add: shown_row_def lit_at_def ex_sel_def ex_cols_def ex_cols2_def ex_row_def int_to_string_def nat_to_string.simps)
  ultimately show ?thesis using t(2) unfolding rows ex_join_cols by (simp add: ex_sel_def)
qed

end
