(* ===== verification/SessionTheorems.thy ===== *)
theory SessionTheorems
  imports ServerTheorems
begin

text \<open>
  The properties that span the client, the server and the engine: what the interpreter returns is
  what the programs that display it expect, and a conversation of a client with the server.
\<close>

section \<open>Results\<close>

lemma map_sum_list_length: "map_sum_list f xs = Inr ys \<Longrightarrow> length ys = length xs"
  by (induction xs arbitrary: ys) (auto simp: sum_then_def split: sum.splits)

lemma proj_stays:
  "node_begin fuel (NProj p cols len idxs) s = (Inr n, t) \<Longrightarrow> node_cols n = cols \<and> (\<exists>p'. n = NProj p' cols len idxs)"
  "node_next fuel (NProj p cols len idxs) s = (Inr n, t) \<Longrightarrow> node_cols n = cols \<and> (\<exists>p'. n = NProj p' cols len idxs)"
  by (cases fuel; auto simp: andThen_Inr_iff)+

lemma collect_rows_width:
  "collect_rows fuel (NProj p cols len idxs) s = (Inr rows, t) \<Longrightarrow> row \<in> set rows \<Longrightarrow> length row = length cols"
proof (induction fuel arbitrary: p s rows t)
  case 0
  then show ?case by simp
next
  case (Suc fuel)
  show ?case
  proof (cases "\<exists>x u. stopped (node_is_end p) s = (Inr True, u)")
    case True
    then show ?thesis using Suc.prems by (auto simp: andThen_Inr_iff)
  next
    case False
    then obtain data n' rest u v where n: "node_next fuel (NProj p cols len idxs) u = (Inr n', v)"
      "collect_rows fuel n' v = (Inr rest, t)" "rows = result_row cols data # rest"
      using Suc.prems(1) by (auto simp: andThen_Inr_iff simp del: node_rec.simps split: if_splits)
    obtain p' where "n' = NProj p' cols len idxs" using proj_stays(2)[OF n(1)] by blast
    then show ?thesis using Suc.IH[of p' v rest t] n(2,3) Suc.prems(2) by (auto simp: result_row_def)
  qed
qed

lemma project_cols_width: "project_cols prev off cs = Inr (cols, len, idxs) \<Longrightarrow> length cols = length cs"
  by (induction cs arbitrary: off cols len idxs) (auto split: sum.splits)

lemma QlNodeProj_Inr: "QlNodeProj prev cs = Inr n \<longleftrightarrow>
    (\<exists>cols len idxs. project_cols (node_cols prev) 0 cs = Inr (cols, len, idxs) \<and> n = NProj prev cols len idxs)"
  by (auto simp: QlNodeProj_def split: sum.splits)

lemma stopped_Inr: "stopped r s = (Inr x, t) \<longleftrightarrow> r = Inr x \<and> t = s"
  by (cases r) (auto simp: stopped_def)

lemma select_from_width:
  assumes "select_from fuel sel_cols tab_names conds s = (Inr r, t)" "row \<in> set (result_rows r)"
  shows "length row = length (column_names r)"
proof -
  obtain cs plan cols len idxs n rows u v where q: "project_cols (node_cols plan) 0 cs = Inr (cols, len, idxs)"
    "node_begin fuel (NProj plan cols len idxs) u = (Inr n, v)" "collect_rows fuel n v = (Inr rows, t)"
    "r = \<lparr>column_names = map tc_col cs, result_rows = rows\<rparr>"
    using assms(1) by (auto simp: select_from_def andThen_Inr_iff QlNodeProj_Inr stopped_Inr split: option.split_asm)
  obtain p' where "n = NProj p' cols len idxs" using proj_stays(1)[OF q(2)] by blast
  then show ?thesis using collect_rows_width[of fuel p' cols len idxs v rows t row] q assms(2) project_cols_width[OF q(1)] by simp
qed

lemma format_select_total: "(\<forall>row \<in> set (result_rows r). length row = length (column_names r)) \<Longrightarrow> \<exists>txt. format_select_result r = Inr txt"
proof -
  have w: "length (widen ws vs) = length ws" for ws vs by (induction ws vs rule: widen.induct) simp_all
  have "length (fold (\<lambda>row ws. widen ws row) rows ws) = length ws" for rows ws
    by (induction rows arbitrary: ws) (simp_all add: w)
  then have c: "length (col_widths r) = length (column_names r)" by (simp add: col_widths_def)
  assume "\<forall>row \<in> set (result_rows r). length row = length (column_names r)"
  then have "\<not> (\<exists>row \<in> set (result_rows r). length (col_widths r) < length row)" using c by auto
  then show ?thesis by (simp add: format_select_result_def Let_def)
qed

text \<open>The command of each kind of statement.\<close>

fun command_of :: "TreeNode \<Rightarrow> CommandType option" where
  "command_of Help = Some CMD_HELP"
| "command_of ShowTables = Some CMD_SHOW_TABLES"
| "command_of ShowDatabases = Some CMD_SHOW_DATABASES"
| "command_of (CreateDatabase _) = Some CMD_CREATE_DATABASE"
| "command_of (DropDatabase _) = Some CMD_DROP_DATABASE"
| "command_of (UseDatabase _) = Some CMD_USE_DATABASE"
| "command_of (DescTable _) = Some CMD_DESC_TABLE"
| "command_of (CreateTable _ _) = Some CMD_CREATE_TABLE"
| "command_of (DropTable _) = Some CMD_DROP_TABLE"
| "command_of (CreateIndex _ _) = Some CMD_CREATE_INDEX"
| "command_of (DropIndex _ _) = Some CMD_DROP_INDEX"
| "command_of (InsertStmt _ _) = Some CMD_INSERT"
| "command_of (DeleteStmt _ _) = Some CMD_DELETE"
| "command_of (UpdateStmt _ _ _) = Some CMD_UPDATE"
| "command_of (SelectStmt _ _ _) = Some CMD_SELECT"
| "command_of _ = None"

lemma ok_results:
  "insert_into n vals s = (Inr i, t) \<Longrightarrow> ir_success i"
  "delete_from fuel n conds s = (Inr a, t) \<Longrightarrow> ar_success a"
  "update_set fuel n scs conds s = (Inr a, t) \<Longrightarrow> ar_success a"
  by (auto simp: insert_into_def delete_from_def update_set_def andThen_Inr_iff from_sum_def split: if_splits)

text \<open>C23: the interpreter answers a statement only with a result of the statement's own command, marked as a
  success, that holds the alternative of the variant this command promises, with as many values in every row
  of a \<open>SELECT\<close> as there are columns; so neither the server nor the example program throws from \<open>std::get\<close>
  or reads past the column widths when it displays the result.\<close>

theorem results_well_typed:
  fixes s :: "'z sm_state_scheme"
  assumes "interp_sql fuel tree s = (Inr r, t)"
  shows "command_of tree = Some (command_type r) \<and> ir_ok r \<and>
    (\<forall>q. res_data r = SelectData q \<longrightarrow> (\<forall>row \<in> set (result_rows q). length row = length (column_names q))) \<and>
    (\<exists>reply. format_result (command_type r) (res_data r) = Inr reply) \<and>
    (\<exists>txt. result_text (command_type r) (res_data r) = Inr txt)"
proof (cases tree)
  case (SelectStmt cols tabs conds)
  then obtain cs q and u v :: "'z sm_state_scheme" where q: "select_from fuel (map (\<lambda>c. TabCol (col_tab c) (col_col c)) cols) tabs cs u = (Inr q, v)"
    "r = interp_result CMD_SELECT True (SelectData q)"
    using assms by (auto simp: andThen_Inr_iff)
  have w: "\<forall>row \<in> set (result_rows q). length row = length (column_names q)"
    using select_from_width[OF q(1)] by blast
  with format_select_total[OF w] show ?thesis
    by (auto simp: q(2) SelectStmt interp_result_def result_text_def sum_then_def)
qed (use assms in \<open>auto simp: interp_result_def database_op_def ddl_op_def andThen_Inr_iff result_text_def ok_results\<close>)

theorem results_well_typed_witness:
  "\<exists>r t. interp_sql 5 (InsertStmt ''t'' [IntLit 7, StringLit ''xy'']) (ex_db1 ()) = (Inr r, t) \<and> command_type r = CMD_INSERT \<and>
     (\<exists>reply. format_result (command_type r) (res_data r) = Inr reply)"
proof -
  have "map_sum_list interp_sv_value [IntLit 7, StringLit ''xy''] = Inr ex_vals" by (simp add: ex_vals_def)
  then obtain r where r: "interp_sql 5 (InsertStmt ''t'' [IntLit 7, StringLit ''xy'']) (ex_db1 ()) = (Inr r, ex_db2 ())"
    using ex_db2_facts(1)[of "()"] by simp
  show ?thesis using results_well_typed[OF r] r by auto
qed

section \<open>A conversation\<close>

lemma send_all_whole:
  "\<forall>k \<in> set ks. 0 < k \<Longrightarrow> so_far \<le> length b \<Longrightarrow> send_all ks so_far b out = (int (length b), out @ drop so_far b)"
proof (induction ks so_far b out rule: send_all.induct)
  case (1 ks so_far b out)
  show ?case
  proof (cases "length b \<le> so_far")
    case True
    then show ?thesis using 1 by (simp add: send_all.simps)
  next
    case False
    obtain sent ks' where w: "sock_write ks (drop so_far b) = (sent, ks')" by fastforce
    have s: "0 < sent" "nat sent \<le> length b - so_far" "\<forall>k \<in> set ks'. 0 < k"
      using w "1.prems" False by (cases ks; auto)+
    have "send_all ks' (so_far + nat sent) b (out @ take (nat sent) (drop so_far b)) =
        (int (length b), (out @ take (nat sent) (drop so_far b)) @ drop (so_far + nat sent) b)"
      by (rule "1.IH"[OF False w[symmetric]]) (use s "1.prems" False in simp_all)
    moreover have "take (nat sent) (drop so_far b) @ drop (so_far + nat sent) b = drop so_far b"
      by (metis append_take_drop_id drop_drop add.commute)
    ultimately show ?thesis using False w s(1) by (subst send_all.simps) simp
  qed
qed

definition response_ok :: "QueryResponse \<Rightarrow> bool" where
  "response_ok r \<longleftrightarrow> int_ok (rs_type r) \<and> int_ok (rs_success r) \<and> int_ok (rs_result_length r) \<and> int_ok (rs_rows_affected r) \<and>
     length (rs_message r) = 1024"

lemma length_response [simp]: "length ms = 8 \<Longrightarrow> length (rs_message r) = 1024 \<Longrightarrow> length (response_bytes ms r) = RESPONSE_SIZE"
  by (simp add: response_bytes_def RESPONSE_SIZE_def)

lemma response_back:
  assumes "length ms = 8" "response_ok r"
  shows "response_of_bytes (response_bytes ms r) = r" "response_time (response_bytes ms r) = ms"
proof -
  have i: "int_ok (rs_type r)" "int_ok (rs_success r)" "int_ok (rs_result_length r)" "int_ok (rs_rows_affected r)"
    "length (rs_message r) = 1024"
    using assms(2) by (simp_all add: response_ok_def)
  let ?m = "rs_message r @ replicate 4 0"
  let ?h = "int_bytes (rs_type r) @ int_bytes (rs_success r) @ int_bytes (rs_result_length r) @ replicate 4 0"
  have e: "response_bytes ms r = int_bytes (rs_type r) @ int_bytes (rs_success r) @ int_bytes (rs_result_length r) @
      replicate 4 0 @ ms @ int_bytes (rs_rows_affected r) @ ?m"
    by (simp add: response_bytes_def)
  have "load_int (response_bytes ms r) 0 = rs_type r" using i(1) by (simp add: e load_int_def load_def)
  moreover have "load_int (response_bytes ms r) 4 = rs_success r" using i(2) by (simp add: e load_int_def load_def)
  moreover have "load_int (response_bytes ms r) 8 = rs_result_length r" using i(3) by (simp add: e load_int_def load_def)
  moreover have "load_int (response_bytes ms r) 24 = rs_rows_affected r" using i(4) assms(1) by (simp add: e load_int_def load_def)
  moreover have "load (response_bytes ms r) 28 1024 = rs_message r" using i(5) assms(1) by (simp add: e load_def)
  ultimately show "response_of_bytes (response_bytes ms r) = r" by (simp add: response_of_bytes_def)
  show "response_time (response_bytes ms r) = ms" using assms(1) by (simp add: e response_time_def load_def)
qed

lemma message_back:
  assumes "CHR 0x00 \<notin> set w" "length w \<le> 1023"
  shows "message_text (strncpy_into 1024 w) = w" "0 \<in> set (strncpy_into 1024 w)" "length (strncpy_into 1024 w) = 1024"
proof -
  have e: "strncpy_into 1024 w = text_bytes w @ replicate (1024 - length w) 0"
    using assms by (simp add: strncpy_into_def Let_def text_bytes_def)
  have nz: "\<forall>x \<in> set (text_bytes w). x \<noteq> 0"
    using assms(1) by (auto simp: text_bytes_def text_byte_zero)
  have "takeWhile (\<lambda>x. x \<noteq> 0) (strncpy_into 1024 w) = text_bytes w"
    using nz assms(2) by (simp add: e takeWhile_append2 takeWhile_append1)
  then show "message_text (strncpy_into 1024 w) = w" by (simp add: message_text_def)
  show "0 \<in> set (strncpy_into 1024 w)" using assms(2) by (simp add: e)
  show "length (strncpy_into 1024 w) = 1024" by simp
qed

text \<open>What the client prints for an insertion, and one turn of it.\<close>

definition inserted_text :: "string \<Rightarrow> string \<Rightarrow> string" where
  "inserted_text ms tick = ''db> '' @ ''1 row inserted'' @ nl @ metrics ms tick 1"

definition statement_line :: "string \<Rightarrow> bool" where
  "statement_line w \<longleftrightarrow> trim w = w \<and> w \<noteq> [] \<and> w \<notin> {''exit'', ''quit'', ''help''}"

lemma statement_client_line: "statement_line w \<Longrightarrow> client_line junk w = SendQuery (query_request w)"
  by (simp add: statement_line_def client_line_def)

lemma inserted_response_ok:
  "inserted_response = (fst inserted_response, [])" "response_ok (fst inserted_response)"
  "rs_type (fst inserted_response) = MSG_RESULT" "rs_result_length (fst inserted_response) = 0"
  "rs_rows_affected (fst inserted_response) = 1" "rs_message (fst inserted_response) = strncpy_into 1024 ''1 row inserted''"
  by (simp_all add: inserted_response_def result_response_def response_ok_def MSG_RESULT_def size_to_int_small INT_MAX_def
      int_ok_def INT_MIN_def)

lemma client_recv_whole:
  assumes "cl_in s = x @ rest" "length x = n"
  shows "\<exists>ks. client_recv n s = (Inr (int n, x), s\<lparr>cl_pieces := ks, cl_in := rest\<rparr>)"
  using recv_all_whole[of n "[]" x "cl_pieces s" rest] assms by (auto simp: client_recv_def)

lemma client_recv_waits: "cl_in s = [] \<Longrightarrow> \<not> cl_closed s \<Longrightarrow> 0 < n \<Longrightarrow> client_recv n s = (Inl Blocked, s)"
  by (simp add: client_recv_def)

lemma client_send_whole:
  assumes "\<forall>ks \<in> set (cl_writes s). \<forall>k \<in> set ks. 0 < k"
  shows "client_send b s = (Inr (int (length b)), s\<lparr>cl_sent := cl_sent s @ b, cl_writes := tl (cl_writes s)\<rparr>)"
  using assms by (cases "cl_writes s") (simp_all add: client_send_def send_all_whole)

lemma client_inserts:
  fixes s :: "'z client_state_scheme"
  assumes "statement_line w" "cl_lines s = w # ls" "cl_clock s = tick # ticks" "length ms = 8"
    and "cl_in s = response_bytes ms (fst inserted_response) @ rest" "\<forall>ks \<in> set (cl_writes s). \<forall>k \<in> set ks. 0 < k"
  shows "\<exists>ps. client_turn show_ms junk s = (Inr True, s\<lparr>cl_lines := ls, cl_clock := ticks, cl_in := rest, cl_pieces := ps,
     cl_writes := tl (cl_writes s), cl_sent := cl_sent s @ request_bytes (query_request w),
     cl_out := cl_out s @ inserted_text (show_ms ms) tick\<rparr>)"
proof -
  let ?r = "fst inserted_response"
  let ?s1 = "s\<lparr>cl_lines := ls, cl_writes := tl (cl_writes s), cl_sent := cl_sent s @ request_bytes (query_request w), cl_out := cl_out s @ ''db> ''\<rparr>"
  have "length (response_bytes ms ?r) = RESPONSE_SIZE" using assms(4) by (simp add: inserted_response_ok(6))
  then obtain ps where ps: "client_recv RESPONSE_SIZE ?s1 =
      (Inr (int RESPONSE_SIZE, response_bytes ms ?r), ?s1\<lparr>cl_pieces := ps, cl_in := rest\<rparr>)"
    using client_recv_whole[of ?s1 "response_bytes ms ?r" rest RESPONSE_SIZE] assms(5) by auto
  note rb = response_back[OF assms(4) inserted_response_ok(2)]
  have m: "message_text (strncpy_into 1024 ''1 row inserted'') = ''1 row inserted''" "0 \<in> set (strncpy_into 1024 ''1 row inserted'')"
    by (rule message_back; simp)+
  have sz: "REQUEST_SIZE \<noteq> 0" "RESPONSE_SIZE \<noteq> 0" by (simp_all add: REQUEST_SIZE_def RESPONSE_SIZE_def)
  have send: "client_send (request_bytes (query_request w)) (s\<lparr>cl_out := cl_out s @ ''db> '', cl_lines := ls\<rparr>) = (Inr (int REQUEST_SIZE), ?s1)"
    using client_send_whole[of "s\<lparr>cl_out := cl_out s @ ''db> '', cl_lines := ls\<rparr>" "request_bytes (query_request w)"] assms(6) by simp
  have start: "andThen (say ''db> '') (\<lambda>_. andThen getline f) s = f w (s\<lparr>cl_out := cl_out s @ ''db> '', cl_lines := ls\<rparr>)" for f :: "string \<Rightarrow> ('z client_state_scheme, stop, bool) prog"
    using assms(2) by (simp add: say_def getline_def andThen_run)
  have "client_turn show_ms junk s = run_request show_ms (query_request w) (s\<lparr>cl_out := cl_out s @ ''db> '', cl_lines := ls\<rparr>)"
    unfolding client_turn_def start statement_client_line[OF assms(1)] by simp
  also have "\<dots> = (Inr True, ?s1\<lparr>cl_pieces := ps, cl_in := rest, cl_clock := ticks,
      cl_out := cl_out s @ inserted_text (show_ms ms) tick\<rparr>)"
    using assms(3) m
    by (simp add: run_request_def send ps rb elapsed_def andThen_run sz show_response_def inserted_response_ok(3-6)
        MSG_RESULT_def MSG_ERROR_def say_def inserted_text_def)
  finally show ?thesis by (intro exI[of _ ps]) simp
qed

lemma client_statements:
  fixes s :: "'z client_state_scheme"
  assumes "list_all statement_line ws" "length ticks = length ws" "list_all (\<lambda>(ms, _). length ms = 8) ticks"
    and "cl_lines s = ws @ ls" "cl_clock s = map snd ticks @ cs"
    and "cl_in s = concat (map (\<lambda>(ms, _). response_bytes ms (fst inserted_response)) ticks)"
    and "\<forall>ks \<in> set (cl_writes s). \<forall>k \<in> set ks. 0 < k"
  shows "\<exists>t. (\<forall>k. client_loop show_ms junk (length ws + k) s = client_loop show_ms junk k t) \<and> cl_lines t = ls \<and>
    cl_in t = [] \<and> cl_closed t = cl_closed s \<and>
    cl_sent t = cl_sent s @ concat (map (\<lambda>w. request_bytes (query_request w)) ws) \<and>
    cl_out t = cl_out s @ concat (map (\<lambda>(ms, tick). inserted_text (show_ms ms) tick) ticks) \<and> cl_err t = cl_err s \<and>
    (\<forall>ks \<in> set (cl_writes t). \<forall>k \<in> set ks. 0 < k)"
  using assms
proof (induction ws arbitrary: ticks s)
  case Nil
  then show ?case by (intro exI[of _ s]) simp
next
  case (Cons w ws)
  then obtain ms tick ticks' where tk: "ticks = (ms, tick) # ticks'" by (cases ticks) auto
  let ?rest = "concat (map (\<lambda>(ms, _). response_bytes ms (fst inserted_response)) ticks')"
  have q: "statement_line w" "cl_lines s = w # ws @ ls" "cl_clock s = tick # map snd ticks' @ cs" "length ms = 8"
    "cl_in s = response_bytes ms (fst inserted_response) @ ?rest"
    using Cons.prems(1,3-6) by (simp_all add: tk)
  let ?s1 = "\<lambda>ps. s\<lparr>cl_lines := ws @ ls, cl_clock := map snd ticks' @ cs, cl_in := ?rest, cl_pieces := ps, cl_writes := tl (cl_writes s),
     cl_sent := cl_sent s @ request_bytes (query_request w), cl_out := cl_out s @ inserted_text (show_ms ms) tick\<rparr>"
  obtain ps where turn: "client_turn show_ms junk s = (Inr True, ?s1 ps)"
    using client_inserts[OF q Cons.prems(7)] by blast
  have pos: "\<forall>ks \<in> set (cl_writes (?s1 ps)). \<forall>k \<in> set ks. 0 < k"
    using Cons.prems(7) by (cases "cl_writes s") simp_all
  obtain t where t: "\<And>k. client_loop show_ms junk (length ws + k) (?s1 ps) = client_loop show_ms junk k t" "cl_lines t = ls"
    "cl_in t = []" "cl_closed t = cl_closed s" "cl_sent t = cl_sent (?s1 ps) @ concat (map (\<lambda>w. request_bytes (query_request w)) ws)"
    "cl_out t = cl_out (?s1 ps) @ concat (map (\<lambda>(ms, tick). inserted_text (show_ms ms) tick) ticks')"
    "cl_err t = cl_err (?s1 ps)" "\<forall>ks \<in> set (cl_writes t). \<forall>k \<in> set ks. 0 < k"
    using Cons.IH[of ticks' "?s1 ps"] Cons.prems(1-3) pos by (auto simp: tk)
  show ?case using t turn by (intro exI[of _ t]) (simp add: tk)
qed

lemma exit_request_back:
  "length junk = 4096 \<Longrightarrow> request_of_bytes (request_bytes \<lparr>rq_type = MSG_EXIT, rq_length = 0, rq_query = junk\<rparr>) =
    \<lparr>rq_type = MSG_EXIT, rq_length = 0, rq_query = junk\<rparr>"
proof -
  have i: "int_ok MSG_EXIT" "int_ok 0" by (simp_all add: int_ok_def MSG_EXIT_def INT_MIN_def INT_MAX_def)
  have "load_int (int_bytes MSG_EXIT @ int_bytes 0 @ junk) 4 = 0" using i(2) by (simp add: load_int_def load_def)
  moreover assume "length junk = 4096"
  ultimately show ?thesis using load_int_front[OF i(1)] by (simp add: request_of_bytes_def request_bytes_def load_def)
qed

text \<open>
  The two programs on one connection. What a program sends is a function of what has reached it; in a
  round, each takes in what the other has sent so far and goes on until it ends or waits in \<open>read\<close>.
  At first nothing has been sent. (A program that waits for what the other sends only later stays
  where it is, and if both do, so does the exchange.)
\<close>

definition client_says :: "(byte list \<Rightarrow> string) \<Rightarrow> byte list \<Rightarrow> nat \<Rightarrow> 'z client_state_scheme \<Rightarrow> byte list \<Rightarrow> byte list" where
  "client_says show_ms junk turns c arrived = cl_sent (snd (client_loop show_ms junk turns (c\<lparr>cl_in := arrived\<rparr>)))"

definition server_says :: "string \<Rightarrow> yyparse \<Rightarrow> nat \<Rightarrow> nat \<Rightarrow> byte list list \<Rightarrow> 'z conn_state_scheme \<Rightarrow> byte list \<Rightarrow> byte list" where
  "server_says strerr yy fuel turns clocks s arrived =
     answer_bytes clocks (conn_out (snd (client_thread strerr yy fuel turns (s\<lparr>conn_in := arrived\<rparr>))))"

primrec exchange :: "(byte list \<Rightarrow> byte list) \<Rightarrow> (byte list \<Rightarrow> byte list) \<Rightarrow> nat \<Rightarrow> byte list \<times> byte list" where
  "exchange client server 0 = ([], [])"
| "exchange client server (Suc n) = (case exchange client server n of (q, a) \<Rightarrow> (client a, server q))"

text \<open>When every answer brings the next request and every request its answer, the exchange goes on to its end.\<close>

lemma exchange_alternates:
  assumes c: "\<And>k. k \<le> n \<Longrightarrow> client (A k) = Q (Suc k)" and s: "\<And>j. j \<le> Suc n \<Longrightarrow> server (Q j) = A (min j n)"
    and start: "Q 0 = []" "A 0 = []"
  shows "exchange client server m = (Q (min ((m + 1) div 2) (Suc n)), A (min (m div 2) n))"
proof (induction m)
  case 0
  then show ?case by (simp add: start)
next
  case (Suc m)
  have "min ((m + 1) div 2) (Suc n) \<le> Suc n" by simp
  moreover have "min (min ((m + 1) div 2) (Suc n)) n = min (Suc m div 2) n" by simp
  moreover have "Suc (min (m div 2) n) = min ((Suc m + 1) div 2) (Suc n)" by simp
  ultimately show ?case using Suc c[of "min (m div 2) n"] s[of "min ((m + 1) div 2) (Suc n)"] by simp
qed

definition asked :: "byte list \<Rightarrow> string list \<Rightarrow> nat \<Rightarrow> byte list" where
  "asked junk ws j = concat (map (\<lambda>w. request_bytes (query_request w)) (take j ws)) @
     (if length ws < j then request_bytes \<lparr>rq_type = MSG_EXIT, rq_length = 0, rq_query = junk\<rparr> else [])"

definition answered :: "byte list list \<Rightarrow> nat \<Rightarrow> byte list" where
  "answered clocks k = concat (map (\<lambda>ms. response_bytes ms (fst inserted_response)) (take k clocks))"

lemma answer_bytes_inserted:
  "k \<le> length clocks \<Longrightarrow> answer_bytes clocks (replicate k inserted_response) = answered clocks k"
proof -
  have z: "k \<le> length clocks \<Longrightarrow> zip clocks (replicate k inserted_response) = map (\<lambda>ms. (ms, inserted_response)) (take k clocks)"
    by (induction clocks arbitrary: k) (auto simp: take_Cons split: nat.splits)
  have "(\<lambda>(ms, r, txt). response_bytes ms r @ text_bytes txt) (ms, inserted_response) = response_bytes ms (fst inserted_response)" for ms
    by (subst inserted_response_ok(1)) (simp add: text_bytes_def)
  moreover assume "k \<le> length clocks"
  ultimately show ?thesis using z by (simp add: answer_bytes_def answered_def comp_def case_prod_unfold)
qed

text \<open>The server with the first requests: it has answered them and waits for the next one.\<close>

lemma server_waits:
  fixes s :: "'z conn_state_scheme"
  assumes "row_table T s name tab" "no_index tab"
    and "\<forall>(w, lits, row) \<in> set reqs. CHR 0x00 \<notin> set w \<and> length w \<le> 4095 \<and> yy w = Some (InsertStmt name lits) \<and> fitting_row tab lits row"
    and "rec_room (length reqs) (the (map_of (fhs s) name))" "conn_out s = []" "\<not> conn_closed s" "j \<le> length reqs"
  shows "\<exists>t. client_thread strerr yy fuel (Suc (length reqs)) (s\<lparr>conn_in := asked junk (map fst reqs) j\<rparr>) = (Inl Blocked, t) \<and>
    conn_out t = replicate j inserted_response"
proof -
  let ?s = "s\<lparr>conn_in := asked junk (map fst reqs) j\<rparr>" and ?reqs = "take j reqs"
  have c: "row_table T ?s name tab = row_table T s name tab"
    by (rule row_table_cong; simp add: pf_state.defs)
  have ok: "\<forall>(w, lits, row) \<in> set ?reqs. CHR 0x00 \<notin> set w \<and> length w \<le> 4095 \<and> yy w = Some (InsertStmt name lits) \<and> fitting_row tab lits row"
    using assms(3) by (auto dest: in_set_takeD)
  have room: "rec_room (length ?reqs) (the (map_of (fhs ?s) name))" using assms(4,7) by (auto simp: rec_room_def)
  have inp: "conn_in ?s = concat (map (\<lambda>req. request_bytes (query_request (fst req))) ?reqs) @ []"
    using assms(7) by (simp add: asked_def take_map comp_def)
  obtain u where u: "\<And>k. client_thread strerr yy fuel (length ?reqs + k) ?s = client_thread strerr yy fuel k u" "conn_in u = []"
    "conn_closed u = conn_closed s" "conn_out u = replicate j inserted_response"
    using insert_requests[OF _ assms(2) ok room inp, of T strerr fuel] assms(1,5,7) c by auto
  have e: "Suc (length reqs) = length ?reqs + Suc (length reqs - j)" using assms(7) by simp
  have "client_thread strerr yy fuel (Suc (length reqs)) ?s = client_thread strerr yy fuel (Suc (length reqs - j)) u"
    unfolding e by (rule u(1))
  also have "\<dots> = (Inl Blocked, u)" using u(2,3) assms(6) by (simp add: receive_def REQUEST_SIZE_def)
  finally show ?thesis using u(4) by blast
qed

text \<open>The client with the first answers: it has sent one request more and waits for its answer.\<close>

lemma client_waits:
  fixes c :: "'z client_state_scheme"
  assumes "list_all statement_line ws" "length ticks = length ws" "list_all (\<lambda>(ms, _). length ms = 8) ticks"
    and "cl_lines c = ws @ ls" "cl_clock c = map snd ticks" "cl_sent c = []" "\<not> cl_closed c"
    and "\<forall>ks \<in> set (cl_writes c). \<forall>k \<in> set ks. 0 < k" "k < length ws"
  shows "\<exists>t. client_loop show_ms junk (Suc (length ws)) (c\<lparr>cl_in := answered (map fst ticks) k\<rparr>) = (Inl Blocked, t) \<and>
    cl_sent t = asked junk' ws (Suc k)"
proof -
  let ?c = "c\<lparr>cl_in := answered (map fst ticks) k\<rparr>" and ?w = "ws ! k"
  have "list_all statement_line (take k ws)" "length (take k ticks) = length (take k ws)"
    "list_all (\<lambda>(ms, _). length ms = 8) (take k ticks)" "cl_lines ?c = take k ws @ drop k ws @ ls"
    "cl_clock ?c = map snd (take k ticks) @ map snd (drop k ticks)"
    "cl_in ?c = concat (map (\<lambda>(ms, _). response_bytes ms (fst inserted_response)) (take k ticks))"
    "\<forall>ks \<in> set (cl_writes ?c). \<forall>k \<in> set ks. 0 < k"
    using assms by (auto simp: list_all_iff answered_def take_map comp_def case_prod_unfold dest: in_set_takeD simp flip: map_append)
  from client_statements[OF this, of show_ms junk]
  obtain v where v: "\<And>n. client_loop show_ms junk (length (take k ws) + n) ?c = client_loop show_ms junk n v"
    "cl_lines v = drop k ws @ ls" "cl_in v = []" "\<not> cl_closed v"
    "cl_sent v = concat (map (\<lambda>w. request_bytes (query_request w)) (take k ws))" "\<forall>ks \<in> set (cl_writes v). \<forall>k \<in> set ks. 0 < k"
    using assms(6,7) by auto
  have w: "statement_line ?w" "drop k ws = ?w # drop (Suc k) ws" using assms(1,9) by (simp_all add: list_all_length Cons_nth_drop_Suc)
  have sz: "0 < RESPONSE_SIZE" "0 < REQUEST_SIZE" by (simp_all add: RESPONSE_SIZE_def REQUEST_SIZE_def)
  have "\<exists>t. client_turn show_ms junk v = (Inl Blocked, t) \<and> cl_sent t = cl_sent v @ request_bytes (query_request ?w)"
    using v(2-4,6) sz
    by (simp add: client_turn_def say_def getline_def andThen_run w(2) statement_client_line[OF w(1)] run_request_def
        client_send_whole client_recv_waits)
  then obtain t where t: "client_turn show_ms junk v = (Inl Blocked, t)" "cl_sent t = cl_sent v @ request_bytes (query_request ?w)" by blast
  have "Suc (length ws) = length (take k ws) + Suc (length ws - k)" using assms(9) by simp
  then have "client_loop show_ms junk (Suc (length ws)) ?c = client_loop show_ms junk (Suc (length ws - k)) v"
    using v(1)[of "Suc (length ws - k)"] by metis
  also have "\<dots> = (Inl Blocked, t)" using t(1) by (simp add: andThen_run)
  finally have "client_loop show_ms junk (Suc (length ws)) ?c = (Inl Blocked, t)" .
  moreover have "cl_sent t = asked junk' ws (Suc k)"
    using t(2) v(5) assms(9) by (simp add: asked_def take_Suc_conv_app_nth)
  ultimately show ?thesis by blast
qed

lemma server_ends:
  fixes s :: "'z conn_state_scheme"
  assumes "row_table T s name tab" "no_index tab"
    and "\<forall>(w, lits, row) \<in> set reqs. CHR 0x00 \<notin> set w \<and> length w \<le> 4095 \<and> yy w = Some (InsertStmt name lits) \<and> fitting_row tab lits row"
    and "rec_room (length reqs) (the (map_of (fhs s) name))" "conn_out s = []" "length junk = 4096"
  shows "\<exists>rids t. client_thread strerr yy fuel (Suc (length reqs)) (s\<lparr>conn_in := asked junk (map fst reqs) (Suc (length reqs))\<rparr>) = (Inr (), t) \<and>
    conn_out t = replicate (length reqs) inserted_response \<and>
    length rids = length reqs \<and> distinct rids \<and> set rids \<inter> dom (table_rows s name (tm_cols tab)) = {} \<and>
    table_rows t name (tm_cols tab) = table_rows s name (tm_cols tab) ++ map_of (zip rids (map (\<lambda>(_, _, row). row) reqs))"
proof -
  let ?exit = "\<lparr>rq_type = MSG_EXIT, rq_length = 0, rq_query = junk\<rparr>"
  let ?s = "s\<lparr>conn_in := asked junk (map fst reqs) (Suc (length reqs))\<rparr>"
  have inp: "conn_in ?s = concat (map (\<lambda>req. request_bytes (query_request (fst req))) reqs) @ request_bytes ?exit"
    by (simp add: asked_def comp_def)
  have c: "row_table T ?s name tab = row_table T s name tab" "table_rows ?s name cols = table_rows s name cols" for cols
    by (rule row_table_cong; simp add: pf_state.defs)+
  obtain rids u where u: "\<And>k. client_thread strerr yy fuel (length reqs + k) ?s = client_thread strerr yy fuel k u"
    "conn_in u = request_bytes ?exit" "conn_out u = replicate (length reqs) inserted_response" "length rids = length reqs" "distinct rids"
    "set rids \<inter> dom (table_rows s name (tm_cols tab)) = {}"
    "table_rows u name (tm_cols tab) = table_rows s name (tm_cols tab) ++ map_of (zip rids (map (\<lambda>(_, _, row). row) reqs))"
    using insert_requests[OF _ assms(2,3) _ inp, of T strerr fuel] assms(1,4,5) c by auto
  obtain ks where ks: "recv_all (conn_pieces u) REQUEST_SIZE [] (request_bytes ?exit) = (int REQUEST_SIZE, request_bytes ?exit, ks, [])"
    using recv_all_whole[of REQUEST_SIZE "[]" "request_bytes ?exit" "conn_pieces u" "[]"] assms(6)
    by (auto simp: request_bytes_def REQUEST_SIZE_def)
  let ?t = "u\<lparr>conn_pieces := ks, conn_in := []\<rparr>"
  have len: "length (request_bytes ?exit) = REQUEST_SIZE" using assms(6) by (simp add: request_bytes_def REQUEST_SIZE_def)
  have "client_thread strerr yy fuel (Suc (length reqs)) ?s = (Inr (), ?t)"
    using u(1)[of 1] u(2) ks len exit_request_back[OF assms(6)] by (simp add: receive_def REQUEST_SIZE_def)
  moreover have "table_rows ?t name cols = table_rows u name cols" for cols
    by (rule row_table_cong; simp add: pf_state.defs)
  ultimately show ?thesis using u(3-7) by (intro exI[of _ rids] exI[of _ ?t]) simp
qed

lemma client_ends:
  fixes c :: "'z client_state_scheme"
  assumes "list_all statement_line ws" "length ticks = length ws" "list_all (\<lambda>(ms, _). length ms = 8) ticks"
    and "cl_lines c = ws @ [''exit'']" "cl_clock c = map snd ticks" "cl_sent c = []"
    and "\<forall>ks \<in> set (cl_writes c). \<forall>k \<in> set ks. 0 < k"
  shows "\<exists>t. client_loop show_ms junk (Suc (length ws)) (c\<lparr>cl_in := answered (map fst ticks) (length ws)\<rparr>) = (Inr (), t) \<and>
    cl_sent t = asked junk ws (Suc (length ws)) \<and>
    cl_out t = cl_out c @ concat (map (\<lambda>(ms, tick). inserted_text (show_ms ms) tick) ticks) @
      ''db> Disconnecting from server... Goodbye!'' @ nl \<and> cl_err t = cl_err c"
proof -
  let ?exit = "\<lparr>rq_type = MSG_EXIT, rq_length = 0, rq_query = junk\<rparr>" and ?c = "c\<lparr>cl_in := answered (map fst ticks) (length ws)\<rparr>"
  have a: "cl_clock ?c = map snd ticks @ []" "cl_in ?c = concat (map (\<lambda>(ms, _). response_bytes ms (fst inserted_response)) ticks)"
    "cl_lines ?c = ws @ [''exit'']" "\<forall>ks \<in> set (cl_writes ?c). \<forall>k \<in> set ks. 0 < k"
    using assms by (simp_all add: answered_def comp_def case_prod_unfold flip: assms(2))
  obtain v where v: "\<And>k. client_loop show_ms junk (length ws + k) ?c = client_loop show_ms junk k v" "cl_lines v = [''exit'']"
    "cl_sent v = concat (map (\<lambda>w. request_bytes (query_request w)) ws)"
    "cl_out v = cl_out c @ concat (map (\<lambda>(ms, tick). inserted_text (show_ms ms) tick) ticks)" "cl_err v = cl_err c"
    "\<forall>ks \<in> set (cl_writes v). \<forall>k \<in> set ks. 0 < k"
    using client_statements[OF assms(1-3) a(3,1,2,4), of show_ms junk] assms(6) by auto
  have "client_line junk ''exit'' = ExitClient ?exit"
    by (simp add: client_line_def trim_def blank_def)
  then have "client_loop show_ms junk (Suc 0) v = (Inr (), v\<lparr>cl_lines := [], cl_writes := tl (cl_writes v),
      cl_sent := cl_sent v @ request_bytes ?exit, cl_out := cl_out v @ ''db> Disconnecting from server... Goodbye!'' @ nl\<rparr>)"
    using v(2,6) by (simp add: client_turn_def say_def getline_def andThen_run client_send_whole)
  then show ?thesis using v(1)[of 1] v(3-5) by (simp add: asked_def)
qed

text \<open>C5: a user of the client types lines that are insertions into a table without indexes, and \<open>exit\<close>.
  Client and server start with nothing on the connection, and a program that needs bytes that have not been
  sent waits. Whatever the pieces in which the two sockets deliver and take the bytes, neither waits for ever:
  after \<open>2 * n + 1\<close> rounds for \<open>n\<close> lines both loops have ended. The client has sent one request per line, the
  server has stored every row under a new id and answered, and the client has shown each answer after its prompt
  and nothing on its error stream.\<close>

theorem client_and_server:
  fixes s :: "'z conn_state_scheme" and c :: "'y client_state_scheme"
  assumes "row_table T s name tab" "no_index tab"
    and "\<forall>(w, lits, row) \<in> set reqs. statement_line w \<and> CHR 0x00 \<notin> set w \<and> length w \<le> 4095 \<and>
      yy w = Some (InsertStmt name lits) \<and> fitting_row tab lits row"
    and "rec_room (length reqs) (the (map_of (fhs s) name))" "conn_out s = []" "\<not> conn_closed s"
    and "cl_lines c = map fst reqs @ [''exit'']" "cl_sent c = []" "\<forall>ks \<in> set (cl_writes c). \<forall>k \<in> set ks. 0 < k" "\<not> cl_closed c"
    and "length ticks = length reqs" "list_all (\<lambda>(ms, _). length ms = 8) ticks" "cl_clock c = map snd ticks" "length junk = 4096"
  shows "\<exists>rids t c'. (\<forall>m \<ge> 2 * length reqs + 1.
      exchange (client_says show_ms junk (Suc (length reqs)) c) (server_says strerr yy fuel (Suc (length reqs)) (map fst ticks) s) m =
        (cl_sent c', answer_bytes (map fst ticks) (conn_out t))) \<and>
    client_thread strerr yy fuel (Suc (length reqs)) (s\<lparr>conn_in := cl_sent c'\<rparr>) = (Inr (), t) \<and>
    client_loop show_ms junk (Suc (length reqs)) (c\<lparr>cl_in := answer_bytes (map fst ticks) (conn_out t)\<rparr>) = (Inr (), c') \<and>
    cl_out c' = cl_out c @ concat (map (\<lambda>(ms, tick). inserted_text (show_ms ms) tick) ticks) @
      ''db> Disconnecting from server... Goodbye!'' @ nl \<and> cl_err c' = cl_err c \<and>
    length rids = length reqs \<and> distinct rids \<and> set rids \<inter> dom (table_rows s name (tm_cols tab)) = {} \<and>
    table_rows t name (tm_cols tab) = table_rows s name (tm_cols tab) ++ map_of (zip rids (map (\<lambda>(_, _, row). row) reqs))"
proof -
  let ?exit = "\<lparr>rq_type = MSG_EXIT, rq_length = 0, rq_query = junk\<rparr>" and ?n = "length reqs" and ?ws = "map fst reqs"
  let ?Q = "asked junk ?ws" and ?A = "answered (map fst ticks)"
  let ?C = "client_says show_ms junk (Suc ?n) c" and ?S = "server_says strerr yy fuel (Suc ?n) (map fst ticks) s"
  have ok: "\<forall>(w, lits, row) \<in> set reqs. CHR 0x00 \<notin> set w \<and> length w \<le> 4095 \<and> yy w = Some (InsertStmt name lits) \<and> fitting_row tab lits row"
    using assms(3) by fastforce
  obtain rids t where t: "client_thread strerr yy fuel (Suc ?n) (s\<lparr>conn_in := ?Q (Suc ?n)\<rparr>) = (Inr (), t)"
    "conn_out t = replicate ?n inserted_response" "length rids = ?n" "distinct rids"
    "set rids \<inter> dom (table_rows s name (tm_cols tab)) = {}"
    "table_rows t name (tm_cols tab) = table_rows s name (tm_cols tab) ++ map_of (zip rids (map (\<lambda>(_, _, row). row) reqs))"
    using server_ends[OF assms(1,2) ok assms(4,5,14), of strerr fuel] by blast
  have lines: "list_all statement_line ?ws" "length ticks = length ?ws" using assms(3,11) by (fastforce simp: list_all_iff)+
  obtain c' where c': "client_loop show_ms junk (Suc ?n) (c\<lparr>cl_in := ?A ?n\<rparr>) = (Inr (), c')" "cl_sent c' = ?Q (Suc ?n)"
    "cl_out c' = cl_out c @ concat (map (\<lambda>(ms, tick). inserted_text (show_ms ms) tick) ticks) @
      ''db> Disconnecting from server... Goodbye!'' @ nl" "cl_err c' = cl_err c"
    using client_ends[OF lines assms(12,7,13,8,9), of show_ms junk] by auto
  have ans: "answer_bytes (map fst ticks) (replicate k inserted_response) = ?A k" if "k \<le> ?n" for k
    using answer_bytes_inserted[of k "map fst ticks"] that assms(11) by simp
  have client: "?C (?A k) = ?Q (Suc k)" if "k \<le> ?n" for k
    using that c'(1,2) client_waits[OF lines assms(12,7,13,8,10,9), of k show_ms junk junk]
    by (cases "k = ?n") (fastforce simp: client_says_def)+
  have server: "?S (?Q j) = ?A (min j ?n)" if "j \<le> Suc ?n" for j
    using that t(1,2) server_waits[OF assms(1,2) ok assms(4,5,6), of j strerr fuel junk] ans
    by (cases "j = Suc ?n") (fastforce simp: server_says_def min_def)+
  have "exchange ?C ?S m = (?Q (Suc ?n), ?A ?n)" if "2 * ?n + 1 \<le> m" for m
  proof -
    have "min ((m + 1) div 2) (Suc ?n) = Suc ?n" "min (m div 2) ?n = ?n" using that by auto
    moreover have "exchange ?C ?S m = (?Q (min ((m + 1) div 2) (Suc ?n)), ?A (min (m div 2) ?n))"
      by (rule exchange_alternates[where n = ?n and client = ?C and server = ?S and Q = ?Q and A = ?A])
        (simp_all add: client server, simp_all add: asked_def answered_def)
    ultimately show ?thesis by simp
  qed
  then show ?thesis using t c' ans[of ?n] by (intro exI[of _ rids] exI[of _ t] exI[of _ c']) simp
qed

definition ex_client :: client_state where
  "ex_client = \<lparr>cl_lines = [''ins'', ''exit''], cl_clock = [''0.5''], cl_in = [], cl_pieces = [3, 100], cl_closed = False, cl_writes = [[7, 9], [], [1]],
     cl_sent = [], cl_out = [], cl_err = []\<rparr>"

theorem client_and_server_witness:
  "\<exists>q t c'. exchange (client_says (\<lambda>_. ''0.25'') (replicate 4096 1) 2 ex_client)
       (server_says [] (\<lambda>_. Some (InsertStmt ''t'' [IntLit 7, StringLit ''xy''])) 5 2 [replicate 8 0] (ex_conn\<lparr>conn_closed := False\<rparr>)) 3 =
       (cl_sent c', answer_bytes [replicate 8 0] (conn_out t)) \<and>
     client_thread [] (\<lambda>_. Some (InsertStmt ''t'' [IntLit 7, StringLit ''xy''])) 5 2 (ex_conn\<lparr>conn_closed := False, conn_in := cl_sent c'\<rparr>) = (Inr (), t) \<and>
     client_loop (\<lambda>_. ''0.25'') (replicate 4096 1) 2 (ex_client\<lparr>cl_in := answer_bytes [replicate 8 0] (conn_out t)\<rparr>) = (Inr (), c') \<and>
     cl_err c' = [] \<and> table_rows t ''t'' ex_cols = [q \<mapsto> ex_row]"
proof -
  let ?m = "\<lparr>parse_tree = NullNode, conn_in = [], conn_pieces = [1000, 7], conn_closed = True, conn_out = []\<rparr>"
  let ?s = "ex_conn\<lparr>conn_closed := False\<rparr>" and ?lits = "[IntLit 7, StringLit ''xy'']"
  let ?reqs = "[(''ins'', ?lits, ex_row)]" and ?yy = "\<lambda>_. Some (InsertStmt ''t'' ?lits)" and ?ticks = "[(replicate 8 (0 :: byte), ''0.5'')]"
  have c: "row_table T ?s n tab = row_table T (ex_db1 ?m) n tab" "table_rows ?s n cols = table_rows (ex_db1 ?m) n cols" for T n tab cols
    unfolding ex_conn_def by (rule row_table_cong; simp add: pf_state.defs)+
  have rt: "row_table no_trees ?s ''t'' ex_tab" using ex_db1_facts(5)[of ?m] by (simp add: c)
  have ok: "\<forall>(w, lits, row) \<in> set ?reqs. statement_line w \<and> CHR 0x00 \<notin> set w \<and> length w \<le> 4095 \<and>
      ?yy w = Some (InsertStmt ''t'' lits) \<and> fitting_row ex_tab lits row"
    using fitting_ex by (simp add: statement_line_def trim_def blank_def)
  have room: "rec_room (length ?reqs) (the (map_of (fhs ?s) ''t''))"
    using ex_db1_facts(9)[of ?m] by (simp add: ex_conn_def rec_room_def)
  have e: "table_rows ?s ''t'' ex_cols = Map.empty" "tm_cols ex_tab = ex_cols" "conn_out ?s = []" "\<not> conn_closed ?s"
    using ex_db1_facts(7)[of ?m] by (simp_all add: ex_tab_def c) (simp add: ex_conn_def)
  have cl: "cl_lines ex_client = map fst ?reqs @ [''exit'']" "cl_sent ex_client = []" "\<forall>ks \<in> set (cl_writes ex_client). \<forall>k \<in> set ks. 0 < k"
    "\<not> cl_closed ex_client" "length ?ticks = length ?reqs" "list_all (\<lambda>(ms, _). length ms = 8) ?ticks" "cl_clock ex_client = map snd ?ticks"
    "length (replicate 4096 1 :: byte list) = 4096"
    by (simp_all add: ex_client_def)
  obtain rids t c' where t: "\<forall>m \<ge> 2 * length ?reqs + 1. exchange (client_says (\<lambda>_. ''0.25'') (replicate 4096 1) (Suc (length ?reqs)) ex_client)
      (server_says [] ?yy 5 (Suc (length ?reqs)) (map fst ?ticks) ?s) m = (cl_sent c', answer_bytes (map fst ?ticks) (conn_out t))"
    "client_thread [] ?yy 5 (Suc (length ?reqs)) (?s\<lparr>conn_in := cl_sent c'\<rparr>) = (Inr (), t)"
    "client_loop (\<lambda>_. ''0.25'') (replicate 4096 1) (Suc (length ?reqs)) (ex_client\<lparr>cl_in := answer_bytes (map fst ?ticks) (conn_out t)\<rparr>) = (Inr (), c')"
    "cl_err c' = cl_err ex_client" "length rids = length ?reqs"
    "table_rows t ''t'' ex_cols = table_rows ?s ''t'' ex_cols ++ map_of (zip rids (map (\<lambda>(_, _, row). row) ?reqs))"
    using client_and_server[OF rt ex_db1_facts(6) ok room e(3,4) cl, of "\<lambda>_. ''0.25''" "[]" 5] unfolding e(2) by blast
  obtain q where q: "rids = [q]" using t(5) by (auto simp: length_Suc_conv)
  have two: "Suc (length ?reqs) = 2" "map fst ?ticks = [replicate 8 0]" "cl_err ex_client = []" "2 * length ?reqs + 1 \<le> 3" by (simp_all add: ex_client_def)
  have "table_rows t ''t'' ex_cols = [q \<mapsto> ex_row]" using t(6) by (simp add: e(1) q)
  with t(1-4) two(4) show ?thesis unfolding two(1-3) by blast
qed

section \<open>End of input\<close>

text \<open>At the end of its input the client neither leaves nor waits: it prints its prompt for ever.\<close>

lemma client_spins_at_end:
  "cl_lines s = [] \<Longrightarrow> client_loop show_ms junk turns s = (Inl NoReturn, s\<lparr>cl_out := cl_out s @ concat (replicate turns ''db> '')\<rparr>)"
proof (induction turns arbitrary: s)
  case 0
  then show ?case by simp
next
  case (Suc turns)
  have "client_turn show_ms junk s = (Inr True, s\<lparr>cl_out := cl_out s @ ''db> ''\<rparr>)"
    using Suc.prems by (simp add: client_turn_def say_def getline_def andThen_run client_line_def trim_def)
  then show ?case using Suc.IH[of "s\<lparr>cl_out := cl_out s @ ''db> ''\<rparr>"] Suc.prems by simp
qed

end
