(* ===== verification/PageGrip.thy ===== *)
theory PageGrip
  imports PageCache
begin

text \<open>
  How long a page in hand stays in hand. A client that has fetched a page keeps its index in the
  pool while it fetches others; the index is good as long as the page is not evicted. The busy list is
  in order of last use and only its last page is ever evicted, so a page at position \<open>n\<close> of a pool of
  \<open>N\<close> pages survives \<open>N - 1 - n\<close> further fetches.
\<close>

definition grip :: "'z pf_state_scheme \<Rightarrow> PageID \<Rightarrow> nat \<Rightarrow> nat \<Rightarrow> bool \<Rightarrow> bool" where
  "grip s pid i r d \<longleftrightarrow> busy_map s pid = Some i \<and>
     (\<exists>xs ys. busy_pages s = xs @ i # ys \<and> length xs + r < length (pages s)) \<and> (d \<longrightarrow> is_dirty (pages s ! i))"

text \<open>What is gripped in \<open>s\<close> is gripped in \<open>t\<close>, after at most \<open>k\<close> fetches.\<close>

definition grips :: "'z pf_state_scheme \<Rightarrow> 'z pf_state_scheme \<Rightarrow> nat \<Rightarrow> bool" where
  "grips s t k \<longleftrightarrow> (\<forall>pid i r d. grip s pid i (r + k) d \<longrightarrow> grip t pid i r d)"

lemma grip_less: "grip s pid i r d \<Longrightarrow> r' \<le> r \<Longrightarrow> (d' \<Longrightarrow> d) \<Longrightarrow> grip s pid i r' d'"
  unfolding grip_def by fastforce

lemma grips_refl: "grips s s 0"
  by (simp add: grips_def)

lemma grips_trans: "grips s t k \<Longrightarrow> grips t u l \<Longrightarrow> grips s u (k + l)"
  unfolding grips_def by (metis add.assoc add.commute)

lemma grips_more: "grips s t k \<Longrightarrow> k \<le> l \<Longrightarrow> grips s t l"
  unfolding grips_def by (meson add_left_mono grip_less)

lemma gripsD: "grips s t k \<Longrightarrow> grip s pid i r d \<Longrightarrow> r' + k \<le> r \<Longrightarrow> grip t pid i r' d"
  unfolding grips_def by (meson grip_less)

lemma grip_page:
  assumes "pf_wf s" "grip s pid i r d"
  shows "page_view s pid = Some (page_bytes i s)" "page_ident i s = pid" "length (page_bytes i s) = PAGE_SIZE"
    "holds s pid i (page_bytes i s)" "valid_pid s pid"
proof -
  show h: "holds s pid i (page_bytes i s)" using assms by (simp add: holds_def grip_def page_bytes_def)
  show "page_view s pid = Some (page_bytes i s)" "page_ident i s = pid" "length (page_bytes i s) = PAGE_SIZE"
    using pool.held_facts[OF h] by simp_all
  show "valid_pid s pid" by (rule holds_valid[OF h])
qed

lemma grip_front: "busy_map s pid = Some i \<Longrightarrow> busy_pages s = i # ys \<Longrightarrow> 0 < length (pages s) \<Longrightarrow> grip s pid i (length (pages s) - 1) False"
  unfolding grip_def by (intro conjI exI[of _ "[]"] exI[of _ ys]) simp_all

lemma pool_nonempty: "pf_wf s \<Longrightarrow> 0 < length (pages s)"
  by (simp add: pf_wf_def pager_inv_def pager_struct_def)

text \<open>A hit moves the page to the front.\<close>

lemma touched_grips:
  assumes "i \<in> set (busy_pages s)"
  shows "grips s (touched i s) 1"
  unfolding grips_def
proof (intro allI impI)
  fix pid j r d assume g: "grip s pid j (r + 1) d"
  then obtain xs ys where b: "busy_pages s = xs @ j # ys" "length xs + (r + 1) < length (pages s)" by (auto simp: grip_def)
  have "\<exists>xs' ys'. i # remove1 i (busy_pages s) = xs' @ j # ys' \<and> length xs' \<le> length xs + 1"
  proof (cases "i = j")
    case True
    then show ?thesis by (intro exI[of _ "[]"] exI[of _ "remove1 i (busy_pages s)"]) simp
  next
    case False
    show ?thesis
    proof (cases "i \<in> set xs")
      case True
      then have "remove1 i (busy_pages s) = remove1 i xs @ j # ys" by (simp add: b(1) remove1_append)
      then show ?thesis using True by (intro exI[of _ "i # remove1 i xs"] exI[of _ ys]) (simp add: length_remove1)
    next
      case False
      then have "remove1 i (busy_pages s) = xs @ j # remove1 i ys" using \<open>i \<noteq> j\<close> by (simp add: b(1) remove1_append)
      then show ?thesis by (intro exI[of _ "i # xs"] exI[of _ "remove1 i ys"]) simp
    qed
  qed
  then obtain xs' ys' where b': "i # remove1 i (busy_pages s) = xs' @ j # ys'" "length xs' \<le> length xs + 1" by blast
  show "grip (touched i s) pid j r d"
    unfolding grip_def
  proof (intro conjI)
    show "busy_map (touched i s) pid = Some j" using g by (simp add: grip_def touched_def)
    show "\<exists>xs ys. busy_pages (touched i s) = xs @ j # ys \<and> length xs + r < length (pages (touched i s))"
      using b' b(2) by (intro exI[of _ xs'] exI[of _ ys']) (simp add: touched_def)
    show "d \<longrightarrow> is_dirty (pages (touched i s) ! j)" using g by (simp add: grip_def touched_def)
  qed
qed

text \<open>A miss puts a page in front and drops the last one of a full list.\<close>

lemma missed_grips:
  assumes wf: "pf_wf s" and cl: "claimed i t" and i: "i < length (pages t)"
    and tl: "tl (busy_pages t) = (if free_pages s = [] then butlast (busy_pages s) else busy_pages s)"
    and ids: "\<And>j. page_id (pages t ! j) = page_id (pages s ! j)"
    and dirt: "\<And>j. j \<in> set (tl (busy_pages t)) \<Longrightarrow> is_dirty (pages t ! j) = is_dirty (pages s ! j)"
    and miss: "busy_map s pid = None" and len: "length (pages t) = length (pages s)"
    and u: "u = (put_page pid i x dd t)\<lparr>cache_sem := 1\<rparr>"
  shows "grips s u 1" "grip u pid i (length (pages s) - 1) dd"
proof -
  obtain rest where bt: "busy_pages t = i # rest" "map_lists t rest" "pager_struct t"
    using cl by (cases "busy_pages t") (auto simp: claimed_def)
  have inv: "pager_inv s" using wf by (simp add: pf_wf_def)
  show "grip u pid i (length (pages s) - 1) dd"
    using bt(1) i len by (auto simp: grip_def u put_page_nth intro: exI[of _ "[]"])
  show "grips s u 1"
    unfolding grips_def
  proof (intro allI impI)
    fix q j r d assume g: "grip s q j (r + 1) d"
    then obtain xs ys where b: "busy_pages s = xs @ j # ys" "length xs + (r + 1) < length (pages s)" by (auto simp: grip_def)
    have "\<exists>ys'. rest = xs @ j # ys'"
    proof (cases "free_pages s = []")
      case False
      then show ?thesis using tl bt(1) b(1) by simp
    next
      case True
      have ys: "ys \<noteq> []"
      proof
        assume "ys = []"
        have "distinct (busy_pages s)" "set (busy_pages s) = {..<length (pages s)}"
          using inv True by (simp_all add: pager_inv_def pager_struct_def)
        then have "length (busy_pages s) = length (pages s)" by (metis card_lessThan distinct_card)
        then show False using b \<open>ys = []\<close> by simp
      qed
      then have "rest = xs @ j # butlast ys" using tl bt(1) True b(1) by (simp add: butlast_append)
      then show ?thesis by blast
    qed
    then obtain ys' where rest: "rest = xs @ j # ys'" by blast
    have jr: "j \<in> set rest" using rest by simp
    have ij: "j \<noteq> i" using bt(1,3) jr by (auto simp: pager_struct_def)
    have jl: "j < length (pages s)" using bt(3) jr bt(1) len pager_struct_index[of t j] by simp
    have q: "page_id (pages s ! j) = q" using g held_page(3)[OF inv] by (simp add: grip_def)
    have "busy_map t q = Some j" using bt(2) jr ids q by (simp add: map_lists_def)
    moreover have "q \<noteq> pid" using g miss by (auto simp: grip_def)
    ultimately have "busy_map u q = Some j" by (simp add: u)
    moreover have "is_dirty (pages u ! j)" if d using g that dirt jr bt(1) ij by (simp add: grip_def u put_page_nth)
    moreover have "busy_pages u = (i # xs) @ j # ys'" by (simp add: u bt(1) rest)
    moreover have "length (i # xs) + r < length (pages u)" using b(2) len by (simp add: u)
    ultimately show "grip u q j r d" unfolding grip_def by blast
  qed
qed

text \<open>The operations of the pool, with what they do to the pages in hand.\<close>

lemma get_page_grip:
  assumes wf: "pf_wf s" and v: "valid_pid s (PageID fd p)" and run: "get_page EXISTS fd p s = (Inr i, t)"
    and seen: "EXISTS \<longrightarrow> page_view s (PageID fd p) \<noteq> None"
  shows "grips s t 1 \<and> grip t (PageID fd p) i (length (pages s) - 1) False"
proof (cases "busy_map s (PageID fd p)")
  case (Some j)
  have inv: "pager_inv s" using wf by (simp add: pf_wf_def)
  have j: "j \<in> set (busy_pages s)" using held_page(2)[OF inv Some] .
  have e: "i = j" "t = touched j s" using run get_page_hit[OF wf Some, of EXISTS] by auto
  have "grip (touched j s) (PageID fd p) j (length (pages (touched j s)) - 1) False"
    using Some pool_nonempty[OF wf] by (intro grip_front) (simp_all add: touched_def)
  moreover have "length (pages (touched j s)) = length (pages s)" by (simp add: touched_def)
  ultimately show ?thesis using touched_grips[OF j] e by simp
next
  case None
  from get_page_miss[OF wf v None] obtain j t1 where t1: "claimed j t1" "j < length (pages t1)" "same_env s t1"
    "page_view s \<subseteq>\<^sub>m page_view t1" "busy_map t1 (PageID fd p) = None"
    "tl (busy_pages t1) = (if free_pages s = [] then butlast (busy_pages s) else busy_pages s)"
    "\<And>j. page_id (pages t1 ! j) = page_id (pages s ! j)"
    "get_page False fd p s = (Inr j, (put_page (PageID fd p) j (buf (pages t1 ! j)) False t1)\<lparr>cache_sem := 1\<rparr>)"
    "\<And>x. disk_page t1 (PageID fd p) = Some x \<Longrightarrow>
       get_page True fd p s = (Inr j, (put_page (PageID fd p) j x False t1)\<lparr>cache_sem := 1\<rparr>)"
    "\<And>j. j \<in> set (tl (busy_pages t1)) \<Longrightarrow> is_dirty (pages t1 ! j) = is_dirty (pages s ! j)"
    by metis
  have len: "length (pages t1) = length (pages s)" using t1(3) by (simp add: same_env_def)
  have "\<exists>x. get_page EXISTS fd p s = (Inr j, (put_page (PageID fd p) j x False t1)\<lparr>cache_sem := 1\<rparr>)"
  proof (cases EXISTS)
    case True
    then obtain x where "page_view s (PageID fd p) = Some x" using seen by auto
    then have "page_view t1 (PageID fd p) = Some x" by (rule map_le_Some[OF t1(4)])
    then have "disk_page t1 (PageID fd p) = Some x" using t1(5) by (simp add: page_view_def)
    then show ?thesis using t1(9) True by auto
  next
    case False
    then show ?thesis using t1(8) by auto
  qed
  then obtain x where x: "get_page EXISTS fd p s = (Inr j, (put_page (PageID fd p) j x False t1)\<lparr>cache_sem := 1\<rparr>)" by blast
  have e: "i = j" "t = (put_page (PageID fd p) j x False t1)\<lparr>cache_sem := 1\<rparr>" using run x by auto
  show ?thesis using missed_grips[OF wf t1(1,2,6,7,10) None len e(2)] e(1) by simp
qed

lemma fetch_grip:
  assumes "pf_wf s" "valid_pid s (PageID fd p)" "page_view s (PageID fd p) = Some x"
  obtains i t where "fetch_page fd p s = (Inr i, t)" "pf_wf t" "page_view s \<subseteq>\<^sub>m page_view t" "same_env s t"
    "cached_pages t \<subseteq> insert (PageID fd p) (cached_pages s)" "grips s t 1" "grip t (PageID fd p) i (length (pages s) - 1) False"
proof -
  obtain i t where t: "fetch_page fd p s = (Inr i, t)" "pf_wf t" "page_view s \<subseteq>\<^sub>m page_view t" "same_env s t"
    "dom (busy_map t) \<subseteq> insert (PageID fd p) (dom (busy_map s))"
    by (rule fetch_page_run[OF assms]) (rule that)
  have "get_page True fd p s = (Inr i, t)" using t(1) by (simp add: fetch_page_def)
  from get_page_grip[OF assms(1,2) this] assms(3) show ?thesis using that[OF t(1-4)] t(5) by (simp add: cached_pages_def)
qed

lemma mark_grip:
  assumes wf: "pf_wf s" and g: "grip s pid i r d"
  obtains t where "mark_dirty i s = (Inr (), t)" "pf_wf t" "page_view t = page_view s" "same_env s t"
    "cached_pages t = cached_pages s" "grips s t 0" "grip t pid i r True"
proof -
  have m: "busy_map s pid = Some i" using g by (simp add: grip_def)
  have inv: "pager_inv s" using wf by (simp add: pf_wf_def)
  let ?t = "put_page pid i (buf (pages s ! i)) True s"
  have run: "mark_dirty i s = (Inr (), ?t)" by (rule mark_dirty_run[OF inv m])
  obtain t where t: "mark_dirty i s = (Inr (), t)" "holds_dirty t pid i (page_bytes i s)" "same_env s t"
    "page_view t = page_view s" "dom (busy_map t) = dom (busy_map s)"
    by (rule mark_dirty_holds[OF grip_page(4)[OF wf g]])
  have e: "t = ?t" using run t(1) by simp
  have gs: "grips s ?t 0"
    unfolding grips_def grip_def using m held_page(1,3)[OF inv m] by (auto simp: put_page_def nth_list_update)
  have "grip ?t pid i r True"
    using g held_page(1)[OF inv m] by (auto simp: grip_def put_page_nth)
  then show ?thesis using that[OF run] gs t(2-5) unfolding e by (simp add: holds_dirty_def holds_def cached_pages_def)
qed

lemma edit_grip:
  assumes wf: "pf_wf s" and g: "grip s pid i r True" and len: "length (f (page_bytes i s)) = PAGE_SIZE"
  obtains t where "edit_buf i f s = (Inr (), t)" "pf_wf t" "page_view t = (page_view s)(pid \<mapsto> f (page_bytes i s))" "same_env s t"
    "cached_pages t = cached_pages s" "grips s t 0"
proof -
  have m: "busy_map s pid = Some i" and d: "is_dirty (pages s ! i)" using g by (simp_all add: grip_def)
  have inv: "pager_inv s" using wf by (simp add: pf_wf_def)
  have hd: "holds_dirty s pid i (page_bytes i s)" using grip_page(4)[OF wf g] d by (simp add: holds_dirty_def)
  let ?t = "put_page pid i (f (buf (pages s ! i))) True s"
  have run: "edit_buf i f s = (Inr (), ?t)" by (rule edit_buf_run[OF inv m d])
  obtain t where t: "edit_buf i f s = (Inr (), t)" "holds_dirty t pid i (f (page_bytes i s))" "same_env s t"
    "page_view t = (page_view s)(pid \<mapsto> f (page_bytes i s))" "dom (busy_map t) = dom (busy_map s)"
    by (rule edit_buf_holds[where f = f, OF hd len])
  have e: "t = ?t" using run t(1) by simp
  have "grips s ?t 0"
    unfolding grips_def grip_def using m held_page(1,3)[OF inv m] d by (auto simp: put_page_def nth_list_update)
  then show ?thesis using that[OF run] t(2-5) unfolding e by (simp add: holds_dirty_def holds_def cached_pages_def)
qed

lemma marked_grips: "mark_dirty i s = (Inr (), t) \<Longrightarrow> grips s t 0"
proof -
  assume "mark_dirty i s = (Inr (), t)"
  then have t: "t = upd_page i (\<lambda>pg. pg\<lparr>is_dirty := True\<rparr>) s" by (simp add: mark_dirty_def)
  have "is_dirty (pages s ! j) \<Longrightarrow> is_dirty (pages t ! j)" for j
    by (cases "i < length (pages s)") (auto simp: t upd_page_def nth_list_update list_update_beyond)
  moreover have "busy_map t = busy_map s" "busy_pages t = busy_pages s" "length (pages t) = length (pages s)"
    by (simp_all add: t upd_page_def)
  ultimately show "grips s t 0" unfolding grips_def grip_def by simp
qed

lemma create_grip:
  assumes wf: "pf_wf s" and v: "valid_pid s (PageID fd p)"
  obtains i t where "create_page fd p s = (Inr i, t)" "pf_wf t" "(page_view s)(PageID fd p := None) \<subseteq>\<^sub>m page_view t"
    "same_env s t" "cached_pages t \<subseteq> insert (PageID fd p) (cached_pages s)" "grips s t 1"
    "grip t (PageID fd p) i (length (pages s) - 1) True"
proof -
  obtain i t b where t: "create_page fd p s = (Inr i, t)" "holds_dirty t (PageID fd p) i b"
    "(page_view s)(PageID fd p := None) \<subseteq>\<^sub>m page_view t" "same_env s t"
    "dom (busy_map t) \<subseteq> insert (PageID fd p) (dom (busy_map s))"
    by (rule create_page_run[OF assms])
  obtain j u where u: "get_page False fd p s = (Inr j, u)" "mark_dirty j u = (Inr (), t)" "i = j"
    using t(1) by (auto simp: create_page_def andThen_Inr_iff)
  have gp: "grips s u 1" "grip u (PageID fd p) j (length (pages s) - 1) False"
    using get_page_grip[OF wf v u(1)] by simp_all
  have gu: "grips u t 0" by (rule marked_grips[OF u(2)])
  have "grips s t 1" using grips_trans[OF gp(1) gu] by simp
  moreover have "grip t (PageID fd p) i (length (pages s) - 1) True"
    using gripsD[OF gu gp(2), of "length (pages s) - 1"] t(2) u(3) by (simp add: grip_def holds_dirty_def)
  ultimately show ?thesis using that[OF t(1)] t(2-5) by (simp add: holds_dirty_def holds_def cached_pages_def)
qed

end
