(* ===== verification/IndexPages.thy ===== *)
theory IndexPages
  imports IndexSearch PageGrip
begin

text \<open>
  The pages of an index as the update operations see them. A page is abstracted to its header fields
  and its lists of keys and record ids; the functions of \<open>IndexNodeHandle\<close> become changes of this record.
\<close>

record npage =
  np_ok :: bool
  np_leaf :: bool
  np_parent :: int
  np_keys :: "byte list list"
  np_rids :: "RecordID list"
  np_prev :: int
  np_next :: int
  np_free :: int

definition abs_page :: "IndexFileHeader \<Rightarrow> byte list \<Rightarrow> npage" where
  "abs_page h b = \<lparr>np_ok = node_ok h b, np_leaf = is_leaf (get_header b), np_parent = parent (get_header b),
     np_keys = node_keys h b, np_rids = node_rids h b, np_prev = prev_leaf (get_header b),
     np_next = next_leaf (get_header b), np_free = next_free (get_header b)\<rparr>"

definition npages :: "IndexFileHeader \<Rightarrow> pview \<Rightarrow> (int \<rightharpoonup> npage)" where
  "npages h V = (\<lambda>p. map_option (abs_page h) (V p))"

lemma abs_fields [simp]:
  "np_ok (abs_page h b) = node_ok h b" "np_leaf (abs_page h b) = is_leaf (get_header b)"
  "np_parent (abs_page h b) = parent (get_header b)" "np_keys (abs_page h b) = node_keys h b"
  "np_rids (abs_page h b) = node_rids h b" "np_prev (abs_page h b) = prev_leaf (get_header b)"
  "np_next (abs_page h b) = next_leaf (get_header b)" "np_free (abs_page h b) = next_free (get_header b)"
  by (simp_all add: abs_page_def)

lemma npages_mono: "V \<subseteq>\<^sub>m W \<Longrightarrow> npages h V \<subseteq>\<^sub>m npages h W"
  unfolding npages_def map_le_def by (metis (no_types, lifting) domIff option.map_disc_iff)

lemma npages_upd: "npages h (V(p \<mapsto> b)) = (npages h V)(p \<mapsto> abs_page h b)"
  by (simp add: npages_def fun_eq_iff)

text \<open>Only the layout of the nodes matters of the file header.\<close>

definition ix_same_layout :: "IndexFileHeader \<Rightarrow> IndexFileHeader \<Rightarrow> bool" where
  "ix_same_layout h g \<longleftrightarrow> col_len g = col_len h \<and> btree_order g = btree_order h \<and> key_offset g = key_offset h \<and>
     rid_offset g = rid_offset h \<and> column_type g = column_type h"

lemma abs_page_cong: "ix_same_layout h g \<Longrightarrow> abs_page g b = abs_page h b"
  by (simp add: ix_same_layout_def abs_page_def node_ok_def node_keys_def node_rids_def)

lemma layout_cong: "ix_same_layout h g \<Longrightarrow> ix_layout g = ix_layout h"
  by (simp add: ix_same_layout_def ix_layout_def)

lemma npages_cong: "ix_same_layout h g \<Longrightarrow> npages g = npages h"
proof -
  assume "ix_same_layout h g"
  then have "abs_page g = abs_page h" by (intro ext) (rule abs_page_cong)
  then show "npages g = npages h" unfolding npages_def by (rule arg_cong)
qed

section \<open>Reading\<close>

lemma abs_counts:
  assumes "abs_page h b = n" "np_ok n"
  shows "num_key (get_header b) = int (length (np_keys n))" "num_child (get_header b) = int (length (np_rids n))"
  using assms num_key_keys[of h b] num_child_rids[of h b] by auto

lemma abs_get_key:
  assumes "ix_layout h" "abs_page h b = n" "np_ok n" "i < length (np_keys n)"
  shows "get_key h (int i) b = Inr (np_keys n ! i)"
  using get_key_list[of h b i] assms by auto

lemma abs_get_rid:
  assumes "ix_layout h" "abs_page h b = n" "np_ok n" "i < length (np_rids n)"
  shows "get_record_id h (int i) b = Inr (np_rids n ! i)"
  using get_record_id_list[of h b i] assms by auto

lemma abs_find_child:
  assumes "ix_layout h" "abs_page h b = n" "np_ok n" "map rid_page (np_rids n) = xs @ c # ys" "c \<notin> set xs"
  shows "find_child h c b = Inr (int (length xs))"
proof -
  have ok: "node_ok h b" and r: "map rid_page (node_rids h b) = xs @ c # ys" using assms(2-4) by auto
  have "takeWhile (\<lambda>q. q \<noteq> c) (xs @ c # ys) = xs" using assms(5) by (subst takeWhile_append2) auto
  then have "takeWhile (\<lambda>q. q \<noteq> c) (map rid_page (node_rids h b)) = xs" by (simp only: r)
  then have "length (takeWhile (\<lambda>q. rid_page q \<noteq> c) (node_rids h b)) = length xs"
    by (simp only: takeWhile_map length_map[of rid_page, symmetric] comp_def)
  moreover have "length xs < length (node_rids h b)" using arg_cong[OF r, of length] by simp
  ultimately show ?thesis using find_child_run[OF assms(1) ok, of c] by (simp add: Let_def)
qed

text \<open>The bytes of a run of keys or ids.\<close>

lemma arr_arr: "n * w \<le> k \<Longrightarrow> arr (load b off k) 0 w n = arr b off w n"
proof -
  assume k: "n * w \<le> k"
  have "load (load b off k) (i * w) w = load b (off + i * w) w" if "i < n" for i
  proof -
    have "i * w + w \<le> n * w" using that by (intro elem_le) simp
    then show ?thesis using k load_load[of "i * w" w k b off] by simp
  qed
  then show ?thesis by (simp add: arr_def)
qed

lemma abs_read_keys:
  assumes "ix_layout h" "abs_page h b = n" "np_ok n" "i + m \<le> length (np_keys n)"
  obtains ks where "read_keys h (int i) (int m) b = Inr ks" "m * nat (col_len h) \<le> length ks"
    "arr ks 0 (nat (col_len h)) m = take m (drop i (np_keys n))"
proof -
  have ok: "node_ok h b" and im: "i + m \<le> length (node_keys h b)" using assms(2-4) by auto
  obtain w M r c d where N: "col_len h = int w" "btree_order h + 1 = int M" "rid_offset h = int r" "key_offset h = 28"
    "r = 28 + M * w" "r + M * 8 \<le> PAGE_SIZE" "0 < w" "3 < M" "num_key (get_header b) = int c" "num_child (get_header b) = int d"
    "c \<le> M" "d \<le> M" "length b = PAGE_SIZE" "node_keys h b = arr b 28 w c"
    "node_rids h b = map rid_of_bytes (arr b r 8 d)"
    using assms(1) ok by (rule node_nat)
  have im': "i + m \<le> c" using im N(14) by simp
  then have "(i + m) * w \<le> M * w" using N(11) by (intro mult_le_mono1) simp
  then have fit: "28 + i * w + m * w \<le> PAGE_SIZE" using N(5,6) by (simp add: algebra_simps)
  then have "in_page (int (28 + i * w)) (int (m * w))" unfolding in_page_nat by simp
  then have run: "read_keys h (int i) (int m) b = Inr (load b (28 + i * w) (m * w))"
    using key_at_nat[OF N(4,1), of i] N(1) by (simp add: read_keys_def del: of_nat_add of_nat_mult) (simp add: of_nat_mult[symmetric] del: of_nat_mult)
  have "arr b (28 + i * w) w m = take m (drop i (arr b 28 w c))"
  proof (rule nth_equalityI)
    show "length (arr b (28 + i * w) w m) = length (take m (drop i (arr b 28 w c)))" using im' by simp
    show "arr b (28 + i * w) w m ! j = take m (drop i (arr b 28 w c)) ! j" if "j < length (arr b (28 + i * w) w m)" for j
      using that im' by (simp add: nth_arr algebra_simps)
  qed
  then have "arr (load b (28 + i * w) (m * w)) 0 w m = take m (drop i (np_keys n))"
    using assms(2) N(14) by (auto simp: arr_arr)
  then show ?thesis using that[OF run] N(1,13) fit by (simp add: length_load)
qed

lemma abs_read_rids:
  assumes "ix_layout h" "abs_page h b = n" "np_ok n" "i + m \<le> length (np_rids n)"
  obtains rs where "read_rids h (int i) (int m) b = Inr rs" "m * 8 \<le> length rs"
    "map rid_of_bytes (arr rs 0 8 m) = take m (drop i (np_rids n))"
proof -
  have ok: "node_ok h b" and im: "i + m \<le> length (node_rids h b)" using assms(2-4) by auto
  obtain w M r c d where N: "col_len h = int w" "btree_order h + 1 = int M" "rid_offset h = int r" "key_offset h = 28"
    "r = 28 + M * w" "r + M * 8 \<le> PAGE_SIZE" "0 < w" "3 < M" "num_key (get_header b) = int c" "num_child (get_header b) = int d"
    "c \<le> M" "d \<le> M" "length b = PAGE_SIZE" "node_keys h b = arr b 28 w c"
    "node_rids h b = map rid_of_bytes (arr b r 8 d)"
    using assms(1) ok by (rule node_nat)
  have im': "i + m \<le> d" using im N(15) by simp
  then have fit: "r + i * 8 + m * 8 \<le> PAGE_SIZE" using N(6,12) by linarith
  then have "in_page (int (r + i * 8)) (int (m * 8))" unfolding in_page_nat by simp
  then have run: "read_rids h (int i) (int m) b = Inr (load b (r + i * 8) (m * 8))"
    using rid_at_nat[OF N(3), of i] by (simp add: read_rids_def sizeof_RecordID_def del: of_nat_add of_nat_mult)
      (simp add: nat_mult_distrib)
  have "arr b (r + i * 8) 8 m = take m (drop i (arr b r 8 d))"
  proof (rule nth_equalityI)
    show "length (arr b (r + i * 8) 8 m) = length (take m (drop i (arr b r 8 d)))" using im' by simp
    show "arr b (r + i * 8) 8 m ! j = take m (drop i (arr b r 8 d)) ! j" if "j < length (arr b (r + i * 8) 8 m)" for j
      using that im' by (simp add: nth_arr algebra_simps)
  qed
  then have "map rid_of_bytes (arr (load b (r + i * 8) (m * 8)) 0 8 m) = take m (drop i (np_rids n))"
    using assms(2) N(15) by (auto simp: arr_arr take_map drop_map)
  then show ?thesis using that[OF run] N(13) fit by (simp add: length_load)
qed

section \<open>Changing\<close>

lemma npage_eqI:
  "np_ok a = np_ok b \<Longrightarrow> np_leaf a = np_leaf b \<Longrightarrow> np_parent a = np_parent b \<Longrightarrow> np_keys a = np_keys b \<Longrightarrow>
   np_rids a = np_rids b \<Longrightarrow> np_prev a = np_prev b \<Longrightarrow> np_next a = np_next b \<Longrightarrow> np_free a = np_free b \<Longrightarrow> (a :: npage) = b"
  by simp

lemma ok_length: "node_ok h b \<Longrightarrow> length b = PAGE_SIZE"
  by (simp add: node_ok_def)

lemma abs_insert_keys:
  assumes "ix_layout h" "abs_page h b = n" "np_ok n" "p \<le> length (np_keys n)"
    and "int (length (np_keys n) + m) \<le> btree_order h + 1" "m * nat (col_len h) \<le> length ks"
  shows "\<exists>b'. insert_keys h (int p) ks (int m) b = Inr b' \<and> length b' = PAGE_SIZE \<and>
    abs_page h b' = n\<lparr>np_keys := take p (np_keys n) @ arr ks 0 (nat (col_len h)) m @ drop p (np_keys n)\<rparr>"
proof -
  have ok: "node_ok h b" and q: "p \<le> length (node_keys h b)" "int (length (node_keys h b) + m) \<le> btree_order h + 1"
    using assms(2-5) by auto
  obtain b' where b': "insert_keys h (int p) ks (int m) b = Inr b'" "node_ok h b'" "node_rids h b' = node_rids h b"
    "node_keys h b' = take p (node_keys h b) @ arr ks 0 (nat (col_len h)) m @ drop p (node_keys h b)"
    "get_header b' = (get_header b)\<lparr>num_key := int (length (node_keys h b) + m)\<rparr>"
    by (rule insert_keys_list[OF assms(1) ok q assms(6)])
  show ?thesis
    using b' assms(2) ok by (intro exI[of _ b']) (auto simp: ok_length abs_page_def)
qed

lemma abs_insert_key:
  assumes "ix_layout h" "abs_page h b = n" "np_ok n" "p \<le> length (np_keys n)"
    and "int (length (np_keys n)) \<le> btree_order h" "length k = nat (col_len h)"
  shows "\<exists>b'. insert_key h (int p) k b = Inr b' \<and> length b' = PAGE_SIZE \<and>
    abs_page h b' = n\<lparr>np_keys := take p (np_keys n) @ k # drop p (np_keys n)\<rparr>"
  using abs_insert_keys[OF assms(1-4), of 1 k] assms(5,6) arr_single[of k "nat (col_len h)"]
  by (simp add: insert_key_def)

lemma abs_insert_rids:
  assumes "ix_layout h" "abs_page h b = n" "np_ok n" "p \<le> length (np_rids n)"
    and "int (length (np_rids n) + m) \<le> btree_order h + 1" "m * 8 \<le> length rs"
  shows "\<exists>b'. insert_record_ids h (int p) rs (int m) b = Inr b' \<and> length b' = PAGE_SIZE \<and>
    abs_page h b' = n\<lparr>np_rids := take p (np_rids n) @ map rid_of_bytes (arr rs 0 8 m) @ drop p (np_rids n)\<rparr>"
proof -
  have ok: "node_ok h b" and q: "p \<le> length (node_rids h b)" "int (length (node_rids h b) + m) \<le> btree_order h + 1"
    using assms(2-5) by auto
  obtain b' where b': "insert_record_ids h (int p) rs (int m) b = Inr b'" "node_ok h b'" "node_keys h b' = node_keys h b"
    "node_rids h b' = take p (node_rids h b) @ map rid_of_bytes (arr rs 0 8 m) @ drop p (node_rids h b)"
    "get_header b' = (get_header b)\<lparr>num_child := int (length (node_rids h b) + m)\<rparr>"
    by (rule insert_rids_list[OF assms(1) ok q assms(6)])
  show ?thesis
    using b' assms(2) ok by (intro exI[of _ b']) (auto simp: ok_length abs_page_def)
qed

definition rid_ok :: "RecordID \<Rightarrow> bool" where
  "rid_ok rid \<longleftrightarrow> int_ok (rid_page rid) \<and> int_ok (rid_slot rid)"

lemma rid_bytes_back: "rid_ok rid \<Longrightarrow> rid_of_bytes (rid_bytes rid) = rid" "length (rid_bytes rid) = 8"
proof -
  have i4: "load (int_bytes i @ xs) 0 4 = int_bytes i" "load (int_bytes i @ int_bytes j) 4 4 = int_bytes j"
    for i j xs by (simp_all add: load_def)
  show "rid_ok rid \<Longrightarrow> rid_of_bytes (rid_bytes rid) = rid"
    by (cases rid) (simp add: rid_of_bytes_def rid_bytes_def rid_ok_def load_int_def i4)
  show "length (rid_bytes rid) = 8" by (simp add: rid_bytes_def)
qed

lemma abs_insert_rid:
  assumes "ix_layout h" "abs_page h b = n" "np_ok n" "p \<le> length (np_rids n)"
    and "int (length (np_rids n)) \<le> btree_order h" "rid_ok rid"
  shows "\<exists>b'. insert_record_id h (int p) rid b = Inr b' \<and> length b' = PAGE_SIZE \<and>
    abs_page h b' = n\<lparr>np_rids := take p (np_rids n) @ rid # drop p (np_rids n)\<rparr>"
  using abs_insert_rids[OF assms(1-4), of 1 "rid_bytes rid"] assms(5,6) arr_single[of "rid_bytes rid" 8]
  by (simp add: insert_record_id_def rid_bytes_back)

text \<open>A key that is overwritten in place.\<close>

lemma abs_put_key:
  assumes "ix_layout h" "abs_page h b = n" "np_ok n" "p < length (np_keys n)" "length k = nat (col_len h)"
  shows "\<exists>b'. put_key h (int p) k b = Inr b' \<and> length b' = PAGE_SIZE \<and> abs_page h b' = n\<lparr>np_keys := (np_keys n)[p := k]\<rparr>"
proof -
  have ok: "node_ok h b" and p: "p < length (node_keys h b)" using assms(2-4) by auto
  obtain w M r c d where N: "col_len h = int w" "btree_order h + 1 = int M" "rid_offset h = int r" "key_offset h = 28"
    "r = 28 + M * w" "r + M * 8 \<le> PAGE_SIZE" "0 < w" "3 < M" "num_key (get_header b) = int c" "num_child (get_header b) = int d"
    "c \<le> M" "d \<le> M" "length b = PAGE_SIZE" "node_keys h b = arr b 28 w c"
    "node_rids h b = map rid_of_bytes (arr b r 8 d)"
    using assms(1) ok by (rule node_nat)
  let ?o = "28 + p * w" and ?b = "store b (28 + p * w) k"
  have pc: "p < c" using p N(14) by simp
  have lk: "length k = w" using assms(5) N(1) by simp
  have "p * w + w \<le> c * w" using pc by (intro elem_le)
  moreover have "c * w \<le> M * w" using N(11) by (intro mult_le_mono1)
  ultimately have fit: "?o + w \<le> r" using N(5) by linarith
  then have fit': "?o + w \<le> PAGE_SIZE" using N(6) by simp
  then have "in_page (int ?o) (int w)" unfolding in_page_nat .
  then have run: "put_key h (int p) k b = Inr ?b"
    using key_at_nat[OF N(4,1), of p] N(1) lk by (simp add: put_key_def del: of_nat_add of_nat_mult)
  have lb: "length ?b = PAGE_SIZE" using N(13) fit' lk by (simp add: length_store)
  have before: "load ?b o1 m = load b o1 m" if "o1 + m \<le> ?o" for o1 m
    using that fit' lk N(13) by (intro load_store_before) simp_all
  have after: "load ?b o1 m = load b o1 m" if "?o + w \<le> o1" for o1 m
    using that fit' lk N(13) by (intro load_store_after) simp_all
  have "get_header ?b = get_header b" using before[of 0 28] lb N(13) by (intro get_header_cong) (simp_all add: PAGE_SIZE_def)
  then have hd: "get_header ?b = get_header b" .
  have "arr ?b 28 w c = (arr b 28 w c)[p := k]"
  proof (rule nth_equalityI)
    show "arr ?b 28 w c ! i = (arr b 28 w c)[p := k] ! i" if "i < length (arr ?b 28 w c)" for i
    proof -
      have i: "i < c" using that by simp
      consider "i < p" | "i = p" | "p < i" by linarith
      then show ?thesis
      proof cases
        case 1
        then have "i * w + w \<le> p * w" by (intro elem_le)
        then show ?thesis using 1 i before[of "28 + i * w" w] by (simp add: nth_arr)
      next
        case 2
        then show ?thesis using i lk N(13) fit' load_store_same[of ?o b k] by (simp add: nth_arr)
      next
        case 3
        then have "p * w + w \<le> i * w" by (intro elem_le)
        then show ?thesis using 3 i after[of "28 + i * w" w] by (simp add: nth_arr)
      qed
    qed
  qed simp
  then have keys: "node_keys h ?b = (node_keys h b)[p := k]" using N(14) by (simp only: node_keys_def hd N(1,9) nat_int)
  have "arr ?b r 8 d = arr b r 8 d" using fit by (intro arr_cong after) simp
  then have rids: "node_rids h ?b = node_rids h b" by (simp only: node_rids_def hd N(3,10) nat_int)
  have "node_ok h ?b" using ok lb by (simp only: node_ok_def hd)
  then have "abs_page h ?b = n\<lparr>np_keys := (np_keys n)[p := k]\<rparr>"
    using assms(2) ok by (auto simp: abs_page_def hd keys rids)
  then show ?thesis using run lb by blast
qed

text \<open>Fields of the header.\<close>

lemma rid_offset_low: "ix_layout h \<Longrightarrow> 28 \<le> nat (rid_offset h)"
proof -
  assume "ix_layout h"
  then obtain w m where "rid_offset h = int (28 + m * w)" by (rule layout_nat)
  then have "nat (rid_offset h) = 28 + m * w" by (simp only: nat_int)
  then show ?thesis by simp
qed

lemma abs_same_arrays:
  assumes "ix_layout h" "length b = PAGE_SIZE" "length b' = PAGE_SIZE"
    and "num_key (get_header b') = num_key (get_header b)" "num_child (get_header b') = num_child (get_header b)"
    and "\<And>o1 k. 28 \<le> o1 \<Longrightarrow> load b' o1 k = load b o1 k"
  shows "node_ok h b' = node_ok h b" "node_keys h b' = node_keys h b" "node_rids h b' = node_rids h b"
proof -
  note r = rid_offset_low[OF assms(1)]
  have "arr b' 28 w n = arr b 28 w n" "arr b' (nat (rid_offset h)) w n = arr b (nat (rid_offset h)) w n" for w n
    using r by (intro arr_cong assms(6); simp)+
  then show "node_ok h b' = node_ok h b" "node_keys h b' = node_keys h b" "node_rids h b' = node_rids h b"
    using assms(2-5) by (simp_all add: node_ok_def node_keys_def node_rids_def)
qed

lemma set_length:
  "length b = PAGE_SIZE \<Longrightarrow> length (set_parent i b) = PAGE_SIZE \<and> length (set_next_free i b) = PAGE_SIZE \<and>
     length (set_prev_leaf i b) = PAGE_SIZE \<and> length (set_next_leaf i b) = PAGE_SIZE \<and>
     length (set_num_key i b) = PAGE_SIZE \<and> length (set_num_child i b) = PAGE_SIZE"
  by (simp add: set_parent_def set_next_free_def set_prev_leaf_def set_next_leaf_def set_num_key_def set_num_child_def
      PAGE_SIZE_def layout)

lemma set_load:
  assumes "length b = PAGE_SIZE" "28 \<le> o1"
  shows "load (set_parent i b) o1 k = load b o1 k" "load (set_next_free i b) o1 k = load b o1 k"
    "load (set_prev_leaf i b) o1 k = load b o1 k" "load (set_next_leaf i b) o1 k = load b o1 k"
  using assms by (simp_all add: set_parent_def set_next_free_def set_prev_leaf_def set_next_leaf_def PAGE_SIZE_def layout)

lemma abs_set:
  assumes "ix_layout h" "length b = PAGE_SIZE" "int_ok i"
  shows "abs_page h (set_parent i b) = (abs_page h b)\<lparr>np_parent := i\<rparr>"
    "abs_page h (set_next_free i b) = (abs_page h b)\<lparr>np_free := i\<rparr>"
    "abs_page h (set_prev_leaf i b) = (abs_page h b)\<lparr>np_prev := i\<rparr>"
    "abs_page h (set_next_leaf i b) = (abs_page h b)\<lparr>np_next := i\<rparr>"
proof -
  note f = set_field[OF assms(2,3)]
  note l = set_length[OF assms(2), of i]
  have "node_ok h (set_parent i b) = node_ok h b" "node_keys h (set_parent i b) = node_keys h b"
    "node_rids h (set_parent i b) = node_rids h b"
    using l f(3) set_load(1)[OF assms(2)] by (intro abs_same_arrays[OF assms(1,2)]; simp)+
  then show "abs_page h (set_parent i b) = (abs_page h b)\<lparr>np_parent := i\<rparr>" by (simp add: abs_page_def f)
  have "node_ok h (set_next_free i b) = node_ok h b" "node_keys h (set_next_free i b) = node_keys h b"
    "node_rids h (set_next_free i b) = node_rids h b"
    using l f(4) set_load(2)[OF assms(2)] by (intro abs_same_arrays[OF assms(1,2)]; simp)+
  then show "abs_page h (set_next_free i b) = (abs_page h b)\<lparr>np_free := i\<rparr>" by (simp add: abs_page_def f)
  have "node_ok h (set_prev_leaf i b) = node_ok h b" "node_keys h (set_prev_leaf i b) = node_keys h b"
    "node_rids h (set_prev_leaf i b) = node_rids h b"
    using l f(5) set_load(3)[OF assms(2)] by (intro abs_same_arrays[OF assms(1,2)]; simp)+
  then show "abs_page h (set_prev_leaf i b) = (abs_page h b)\<lparr>np_prev := i\<rparr>" by (simp add: abs_page_def f)
  have "node_ok h (set_next_leaf i b) = node_ok h b" "node_keys h (set_next_leaf i b) = node_keys h b"
    "node_rids h (set_next_leaf i b) = node_rids h b"
    using l f(6) set_load(4)[OF assms(2)] by (intro abs_same_arrays[OF assms(1,2)]; simp)+
  then show "abs_page h (set_next_leaf i b) = (abs_page h b)\<lparr>np_next := i\<rparr>" by (simp add: abs_page_def f)
qed

lemma set_page:
  assumes "ix_layout h" "int_ok i" "abs_page h b = n" "length b = PAGE_SIZE"
  shows "length (set_parent i b) = PAGE_SIZE \<and> abs_page h (set_parent i b) = n\<lparr>np_parent := i\<rparr>"
    "length (set_next_free i b) = PAGE_SIZE \<and> abs_page h (set_next_free i b) = n\<lparr>np_free := i\<rparr>"
    "length (set_prev_leaf i b) = PAGE_SIZE \<and> abs_page h (set_prev_leaf i b) = n\<lparr>np_prev := i\<rparr>"
    "length (set_next_leaf i b) = PAGE_SIZE \<and> abs_page h (set_next_leaf i b) = n\<lparr>np_next := i\<rparr>"
  using abs_set[OF assms(1,4,2)] set_length[OF assms(4), of i] assms(3) by simp_all

lemma take_arr: "m \<le> n \<Longrightarrow> take m (arr b o0 w n) = arr b o0 w m"
  by (simp add: arr_def take_map min_def take_upt)

text \<open>Both counts are cut.\<close>

lemma abs_cut:
  assumes "ix_layout h" "abs_page h b = n" "np_ok n" "m \<le> length (np_keys n)" "m \<le> length (np_rids n)"
  shows "length (set_num_child (int m) (set_num_key (int m) b)) = PAGE_SIZE"
    "abs_page h (set_num_child (int m) (set_num_key (int m) b)) = n\<lparr>np_keys := take m (np_keys n), np_rids := take m (np_rids n)\<rparr>"
proof -
  have ok: "node_ok h b" and lb: "length b = PAGE_SIZE" and m: "m \<le> length (node_keys h b)" "m \<le> length (node_rids h b)"
    using assms(2-5) by (auto simp: node_ok_def)
  note c = num_key_keys[OF ok] num_child_rids[OF ok]
  have mo: "int m \<le> btree_order h + 1" using m(1) c(1) ok by (simp add: node_ok_def)
  have iok: "int_ok (int m)"
  proof -
    obtain w M r where "btree_order h + 1 = int M" "r + M * 8 \<le> PAGE_SIZE" using assms(1) ok by (rule node_nat) blast
    then show ?thesis using mo by (intro small_ok) simp
  qed
  let ?b1 = "set_num_key (int m) b" let ?b2 = "set_num_child (int m) ?b1"
  have l1: "length ?b1 = PAGE_SIZE" and l2: "length ?b2 = PAGE_SIZE" using set_length[OF lb] set_length by blast+
  show "length ?b2 = PAGE_SIZE" by (rule l2)
  have hd: "get_header ?b2 = (get_header b)\<lparr>num_key := int m, num_child := int m\<rparr>"
    using set_field(1)[OF lb iok] set_field(2)[OF l1 iok] by simp
  have ld: "load ?b2 o1 k = load b o1 k" if "28 \<le> o1" for o1 k
    using set_num_rest(4)[OF l1 that] set_num_rest(3)[OF lb that] by simp
  note r = rid_offset_low[OF assms(1)]
  have m': "m \<le> nat (num_key (get_header b))" "m \<le> nat (num_child (get_header b))" using m c by linarith+
  have "arr ?b2 28 w k = arr b 28 w k" "arr ?b2 (nat (rid_offset h)) w k = arr b (nat (rid_offset h)) w k" for w k
    using r by (intro arr_cong ld; simp)+
  then have "node_keys h ?b2 = take m (node_keys h b)" "node_rids h ?b2 = take m (node_rids h b)"
    using m' by (simp_all add: node_keys_def node_rids_def hd take_map take_arr)
  moreover have "node_ok h ?b2" using mo l2 by (simp add: node_ok_def hd)
  ultimately show "abs_page h ?b2 = n\<lparr>np_keys := take m (np_keys n), np_rids := take m (np_rids n)\<rparr>"
    using assms(2) ok by (auto simp: abs_page_def hd)
qed

text \<open>A whole new header with no entries.\<close>

lemma abs_put_header:
  fixes l :: bool
  assumes "ix_layout h" "length b = PAGE_SIZE" "int_ok pa" "int_ok pv" "int_ok nx" "int_ok nf"
  defines "ph \<equiv> \<lparr>next_free = nf, parent = pa, num_key = 0, num_child = 0, is_leaf = l, prev_leaf = pv, next_leaf = nx\<rparr>"
  shows "length (put_header ph b) = PAGE_SIZE"
    "abs_page h (put_header ph b) = \<lparr>np_ok = True, np_leaf = l, np_parent = pa, np_keys = [], np_rids = [], np_prev = pv,
       np_next = nx, np_free = nf\<rparr>"
proof -
  have i: "\<forall>i \<in> {next_free ph, parent ph, num_key ph, num_child ph, prev_leaf ph, next_leaf ph}. int_ok i"
    using assms(3-6) by (simp add: ph_def int_ok_def INT_MIN_def INT_MAX_def)
  note p = put_get_header[OF assms(2) i]
  show "length (put_header ph b) = PAGE_SIZE" by (rule p(2))
  have "node_ok h (put_header ph b)" using assms(1) p by (simp add: node_ok_def ph_def ix_layout_def)
  then show "abs_page h (put_header ph b) = \<lparr>np_ok = True, np_leaf = l, np_parent = pa, np_keys = [], np_rids = [], np_prev = pv,
       np_next = nx, np_free = nf\<rparr>"
    by (simp add: abs_page_def p(1) node_keys_def node_rids_def arr_def) (simp add: ph_def)
qed

end
