(* ===== verification/IndexRun.thy ===== *)
theory IndexRun
  imports IndexPages
begin

text \<open>
  Running the update operations of an index. A configuration is what a run knows of the state: the
  file header, the pages of the file as records, and the pages in hand, by their slots in the pool.
  A triple says that a program, started in a configuration, returns and ends in another; there is a rule
  for every primitive of \<open>IndexHandle\<close>.
\<close>

section \<open>Triples\<close>

definition triple :: "('s \<Rightarrow> bool) \<Rightarrow> ('s, 'e, 'a) prog \<Rightarrow> ('a \<Rightarrow> 's \<Rightarrow> bool) \<Rightarrow> bool" where
  "triple P m Q \<longleftrightarrow> (\<forall>s. P s \<longrightarrow> (\<exists>x t. m s = (Inr x, t) \<and> Q x t))"

lemma tripleD: "triple P m Q \<Longrightarrow> P s \<Longrightarrow> \<exists>x t. m s = (Inr x, t) \<and> Q x t"
  by (simp add: triple_def)

lemma triple_ret: "(\<And>s. P s \<Longrightarrow> Q v s) \<Longrightarrow> triple P (ret v) Q"
  by (simp add: triple_def)

lemma triple_bind:
  assumes "triple P m R" "\<And>x. triple (R x) (f x) Q"
  shows "triple P (andThen m f) Q"
  unfolding triple_def
proof (intro allI impI)
  fix s assume "P s"
  then obtain x t where t: "m s = (Inr x, t)" "R x t" using tripleD[OF assms(1)] by blast
  then show "\<exists>y u. andThen m f s = (Inr y, u) \<and> Q y u" using tripleD[OF assms(2) t(2)] by simp
qed

lemma triple_conseq: "triple P' m Q' \<Longrightarrow> (\<And>s. P s \<Longrightarrow> P' s) \<Longrightarrow> (\<And>x s. Q' x s \<Longrightarrow> Q x s) \<Longrightarrow> triple P m Q"
  unfolding triple_def by blast

lemma triple_pre: "triple P' m Q \<Longrightarrow> (\<And>s. P s \<Longrightarrow> P' s) \<Longrightarrow> triple P m Q"
  unfolding triple_def by blast

lemma triple_read:
  assumes "\<And>s. P s \<Longrightarrow> m s = (Inr v, s)" "triple P (f v) Q"
  shows "triple P (andThen m f) Q"
  using assms unfolding triple_def by fastforce

lemma triple_when_no: "\<not> b \<Longrightarrow> triple P (f ()) Q \<Longrightarrow> triple P (andThen (whenP b m) f) Q"
  by (simp add: whenP_def triple_def)

lemma triple_when:
  "b \<Longrightarrow> triple P m R \<Longrightarrow> triple (R ()) (f ()) Q \<Longrightarrow> triple P (andThen (whenP b m) f) Q"
  using triple_bind[of P m R f Q] by (simp add: whenP_def)

section \<open>Configurations\<close>

abbreviation hnd :: "int \<Rightarrow> IndexFileHeader \<Rightarrow> IndexHandle" where
  "hnd fd h \<equiv> \<lparr>ih_fd = fd, index_header = h\<rparr>"

definition header_ok :: "IndexFileHeader \<Rightarrow> bool" where
  "header_ok h \<longleftrightarrow> ix_layout h \<and> 1 \<le> ix_num_pages h \<and> ix_num_pages h \<le> 524288"

text \<open>What a run may do beside changing pages of its own file.\<close>

definition others :: "int \<Rightarrow> 'z pf_state_scheme \<Rightarrow> (PageID \<rightharpoonup> byte list)" where
  "others fd s = page_view s |` {q. pid_fd q \<noteq> fd}"

text \<open>The pages of \<open>K\<close> have just been fetched, those of \<open>G\<close> stay for \<open>r\<close> more fetches. The last
  component of a page in hand tells whether it is marked dirty.\<close>

type_synonym hand = "(nat \<times> int \<times> bool) set"

definition in_hand :: "int \<Rightarrow> nat \<Rightarrow> 'z pf_state_scheme \<Rightarrow> hand \<Rightarrow> bool" where
  "in_hand fd r s G \<longleftrightarrow> (\<forall>(i, p, d) \<in> G. 1 \<le> p \<and> grip s (PageID fd p) i r d)"

definition conf :: "int \<Rightarrow> 'z pf_state_scheme \<Rightarrow> IndexFileHeader \<Rightarrow> (int \<rightharpoonup> npage) \<Rightarrow> hand \<Rightarrow> hand \<Rightarrow> nat \<Rightarrow>
    IndexHandle \<times> 'z pf_state_scheme \<Rightarrow> bool" where
  "conf fd s0 h A K G r = (\<lambda>(ih, s). ih = hnd fd h \<and> header_ok h \<and>
     pool.reach s0 (ix_pids fd) (others fd s0) s \<and> fd_path s0 fd \<noteq> None \<and> PageID fd NDX_FILE_HDR_PAGE \<notin> cached_pages s0 \<and>
     A \<subseteq>\<^sub>m npages h (file_view s fd) \<and> dom A \<subseteq> {1..<ix_num_pages h} \<and>
     r < length (pages s0) \<and> in_hand fd (length (pages s0) - 1) s K \<and> in_hand fd r s G)"

lemma in_hand_sub: "in_hand fd r s G \<Longrightarrow> G' \<subseteq> G \<Longrightarrow> r' \<le> r \<Longrightarrow> in_hand fd r' s G'"
  unfolding in_hand_def by (fastforce intro: grip_less)

lemma in_hand_insert: "in_hand fd r s (insert (i, p, d) G) \<longleftrightarrow> 1 \<le> p \<and> grip s (PageID fd p) i r d \<and> in_hand fd r s G"
  by (auto simp: in_hand_def)

lemma in_hand_Un: "in_hand fd r s (G \<union> H) \<longleftrightarrow> in_hand fd r s G \<and> in_hand fd r s H"
  unfolding in_hand_def by (rule ball_Un)

lemma in_hand_empty [simp]: "in_hand fd r s {}"
  by (simp add: in_hand_def)

lemma in_hand_grips: "in_hand fd r s G \<Longrightarrow> grips s t k \<Longrightarrow> r' + k \<le> r \<Longrightarrow> in_hand fd r' t G"
  unfolding in_hand_def by (fastforce intro: gripsD)

lemma conf_less:
  assumes "conf fd s0 h A K G r \<sigma>" "K' \<subseteq> K" "G' \<subseteq> K \<union> G" "r' \<le> r" "A' \<subseteq>\<^sub>m A"
  shows "conf fd s0 h A' K' G' r' \<sigma>"
proof -
  obtain ih s where e: "\<sigma> = (ih, s)" by (cases \<sigma>)
  note c = assms(1)[unfolded conf_def e prod.case]
  have "r' \<le> length (pages s0) - 1" using c assms(4) by linarith
  then have "in_hand fd r' s (K \<union> G)"
    unfolding in_hand_Un using c assms(4) in_hand_sub[of fd "length (pages s0) - 1" s K K r'] in_hand_sub[of fd r s G G r'] by simp
  then have "in_hand fd r' s G'" by (rule in_hand_sub) (use assms(3) in simp_all)
  moreover have "in_hand fd (length (pages s0) - 1) s K'" using c in_hand_sub[OF _ assms(2)] by blast
  moreover have "A' \<subseteq>\<^sub>m npages h (file_view s fd)" using c map_le_trans[OF assms(5)] by blast
  moreover have "dom A' \<subseteq> dom A" using assms(5) by (rule map_le_implies_dom_le)
  ultimately show ?thesis unfolding e conf_def using c assms(4) by auto
qed

lemma conf_full: "conf fd s0 h A K G r \<sigma> \<Longrightarrow> K' \<subseteq> K \<Longrightarrow> conf fd s0 h A {} K' (length (pages s0) - 1) \<sigma>"
  unfolding conf_def by (auto simp: in_hand_sub)

lemma conf_facts:
  assumes "conf fd s0 h A K G r \<sigma>"
  obtains s where "\<sigma> = (hnd fd h, s)" "header_ok h" "pf_wf s" "A \<subseteq>\<^sub>m npages h (file_view s fd)"
    "dom A \<subseteq> {1..<ix_num_pages h}" "fd_path s fd \<noteq> None" "length (pages s) = length (pages s0)" "same_env s0 s"
    "in_hand fd (length (pages s0) - 1) s K" "in_hand fd r s G"
proof -
  obtain s where s: "\<sigma> = (hnd fd h, s)" using assms by (cases \<sigma>) (simp add: conf_def)
  then show ?thesis using assms that[OF s] by (auto simp: conf_def pool.reach_def same_env_def fd_path_def)
qed

lemma conf_page:
  assumes "conf fd s0 h A K G r (ih, s)" "(i, p, d) \<in> K \<union> G"
  shows "page_view s (PageID fd p) = Some (page_bytes i s)" "page_ident i s = PageID fd p" "length (page_bytes i s) = PAGE_SIZE"
    "1 \<le> p" "A p = Some n \<Longrightarrow> abs_page h (page_bytes i s) = n" "ih = hnd fd h" "header_ok h"
proof -
  note c = assms(1)[unfolded conf_def prod.case]
  obtain r' where g: "grip s (PageID fd p) i r' d" "1 \<le> p"
    using assms(2) c by (fastforce simp: in_hand_def)
  have wf: "pf_wf s" using c by (simp add: pool.reach_def)
  show v: "page_view s (PageID fd p) = Some (page_bytes i s)" and "page_ident i s = PageID fd p" "length (page_bytes i s) = PAGE_SIZE"
    using grip_page[OF wf g(1)] by simp_all
  show "1 \<le> p" by (rule g(2))
  show "abs_page h (page_bytes i s) = n" if "A p = Some n"
  proof -
    have "npages h (file_view s fd) p = Some n" using c that by (meson map_le_Some)
    then show ?thesis using v by (simp add: npages_def file_view_def)
  qed
  show "ih = hnd fd h" "header_ok h" using c by blast+
qed

section \<open>Reading\<close>

definition np_header :: "npage \<Rightarrow> IndexPageHeader" where
  "np_header n = \<lparr>next_free = np_free n, parent = np_parent n, num_key = int (length (np_keys n)),
     num_child = int (length (np_rids n)), is_leaf = np_leaf n, prev_leaf = np_prev n, next_leaf = np_next n\<rparr>"

lemma np_header_sel [simp]:
  "next_free (np_header n) = np_free n" "parent (np_header n) = np_parent n"
  "num_key (np_header n) = int (length (np_keys n))" "num_child (np_header n) = int (length (np_rids n))"
  "is_leaf (np_header n) = np_leaf n" "prev_leaf (np_header n) = np_prev n" "next_leaf (np_header n) = np_next n"
  by (simp_all add: np_header_def)

lemma abs_header: "abs_page h b = n \<Longrightarrow> np_ok n \<Longrightarrow> get_header b = np_header n"
  using abs_counts[of h b n] by (cases "get_header b") (auto simp: np_header_def abs_page_def)

lemma run_header:
  assumes "(i, p, d) \<in> K \<union> G" "A p = Some n" "np_ok n" "triple (conf fd s0 h A K G r) (f (np_header n)) Q"
  shows "triple (conf fd s0 h A K G r) (andThen (node_header i) f) Q"
proof (rule triple_read[where v = "np_header n" and f = f, OF _ assms(4)])
  fix \<sigma> assume c: "conf fd s0 h A K G r \<sigma>"
  obtain ih s where e: "\<sigma> = (ih, s)" by (cases \<sigma>)
  show "node_header i \<sigma> = (Inr (np_header n), \<sigma>)"
    using abs_header[OF conf_page(5)[OF c[unfolded e] assms(1,2)] assms(3)] by (simp add: e)
qed

lemma run_page:
  assumes "(i, p, d) \<in> K \<union> G" "triple (conf fd s0 h A K G r) (f p) Q"
  shows "triple (conf fd s0 h A K G r) (andThen (node_page i) f) Q"
proof (rule triple_read[where v = p and f = f, OF _ assms(2)])
  fix \<sigma> assume c: "conf fd s0 h A K G r \<sigma>"
  obtain ih s where e: "\<sigma> = (ih, s)" by (cases \<sigma>)
  show "node_page i \<sigma> = (Inr p, \<sigma>)" using conf_page(2)[OF c[unfolded e] assms(1)] by (simp add: e)
qed

lemma run_the_header:
  assumes "triple (conf fd s0 h A K G r) (f h) Q"
  shows "triple (conf fd s0 h A K G r) (andThen the_header f) Q"
  by (rule triple_read[where v = h and f = f, OF _ assms]) (auto elim: conf_facts)

lemma run_read:
  assumes "(i, p, d) \<in> K \<union> G" "A p = Some n" "\<And>b. abs_page h b = n \<Longrightarrow> ix_layout h \<Longrightarrow> g h b = Inr v"
    "triple (conf fd s0 h A K G r) (f v) Q"
  shows "triple (conf fd s0 h A K G r) (andThen (node_read g i) f) Q"
proof (rule triple_read[where v = v and f = f, OF _ assms(4)])
  fix \<sigma> assume c: "conf fd s0 h A K G r \<sigma>"
  obtain ih s where e: "\<sigma> = (ih, s)" by (cases \<sigma>)
  note f = conf_page[OF c[unfolded e] assms(1)]
  show "node_read g i \<sigma> = (Inr v, \<sigma>)"
    using assms(3)[OF f(5)[OF assms(2)]] f(6,7) by (simp add: e header_ok_def)
qed

lemma run_read_ex:
  assumes "(i, p, d) \<in> K \<union> G" "A p = Some n"
    and g: "\<And>b. abs_page h b = n \<Longrightarrow> ix_layout h \<Longrightarrow> \<exists>v. g h b = Inr v \<and> P v"
    and f: "\<And>v. P v \<Longrightarrow> triple (conf fd s0 h A K G r) (f v) Q"
  shows "triple (conf fd s0 h A K G r) (andThen (node_read g i) f) Q"
  unfolding triple_def
proof (intro allI impI)
  fix \<sigma> assume c: "conf fd s0 h A K G r \<sigma>"
  obtain ih s where e: "\<sigma> = (ih, s)" by (cases \<sigma>)
  note q = conf_page[OF c[unfolded e] assms(1)]
  obtain v where v: "g h (page_bytes i s) = Inr v" "P v" using g[OF q(5)[OF assms(2)]] q(7) by (auto simp: header_ok_def)
  have "andThen (node_read g i) f \<sigma> = f v \<sigma>" using v(1) q(6) by (simp add: e)
  then show "\<exists>x \<tau>. andThen (node_read g i) f \<sigma> = (Inr x, \<tau>) \<and> Q x \<tau>" using tripleD[OF f[OF v(2)] c] by simp
qed

section \<open>Changing pages\<close>

lemma conf_edit:
  assumes c: "conf fd s0 h A K G r (ih, s)" and i: "(i, p, True) \<in> K \<union> G" and p: "p < ix_num_pages h"
    and len: "length (f (page_bytes i s)) = PAGE_SIZE"
  shows "\<exists>t. edit_buf i f s = (Inr (), t) \<and> conf fd s0 h (A(p \<mapsto> abs_page h (f (page_bytes i s)))) K G r (ih, t)"
proof -
  note c' = c[unfolded conf_def prod.case]
  have wf: "pf_wf s" using c' by (simp add: pool.reach_def)
  obtain r' where g: "grip s (PageID fd p) i r' True" "1 \<le> p" using i c' by (fastforce simp: in_hand_def)
  obtain t where t: "edit_buf i f s = (Inr (), t)" "pf_wf t" "page_view t = (page_view s)(PageID fd p \<mapsto> f (page_bytes i s))"
    "same_env s t" "cached_pages t = cached_pages s" "grips s t 0"
    by (rule edit_grip[where f = f, OF wf g(1) len])
  have "others fd s0 \<subseteq>\<^sub>m page_view t"
    using c' by (auto simp: pool.reach_def others_def t(3) map_le_def restrict_map_def dom_def)
  then have "pool.reach s0 (ix_pids fd) (others fd s0) t"
    using c' t(2,4,5) pool.env_trans[of s0 s t] by (simp add: pool.reach_def)
  moreover have "A(p \<mapsto> abs_page h (f (page_bytes i s))) \<subseteq>\<^sub>m npages h (file_view t fd)"
  proof -
    have "npages h (file_view t fd) = (npages h (file_view s fd))(p \<mapsto> abs_page h (f (page_bytes i s)))"
      by (auto simp: npages_def file_view_def t(3))
    then show ?thesis using c' by (simp add: map_le_def)
  qed
  moreover have "in_hand fd (length (pages s0) - 1) t K" "in_hand fd r t G"
    using c' by (auto intro: in_hand_grips[OF _ t(6)])
  ultimately have "conf fd s0 h (A(p \<mapsto> abs_page h (f (page_bytes i s)))) K G r (ih, t)"
    using c' p g(2) by (auto simp: conf_def)
  then show ?thesis using t(1) by blast
qed

lemma run_edit:
  assumes i: "(i, p, True) \<in> K \<union> G" and n: "A p = Some n"
    and g: "\<And>b. abs_page h b = n \<Longrightarrow> ix_layout h \<Longrightarrow> \<exists>b'. g h b = Inr b' \<and> length b' = PAGE_SIZE \<and> abs_page h b' = n'"
    and f: "triple (conf fd s0 h (A(p \<mapsto> n')) K G r) (f ()) Q"
  shows "triple (conf fd s0 h A K G r) (andThen (node_edit g i) f) Q"
proof (rule triple_bind[where R = "\<lambda>_. conf fd s0 h (A(p \<mapsto> n')) K G r"])
  show "triple (conf fd s0 h A K G r) (node_edit g i) (\<lambda>_. conf fd s0 h (A(p \<mapsto> n')) K G r)"
    unfolding triple_def
  proof (intro allI impI)
    fix \<sigma> assume c: "conf fd s0 h A K G r \<sigma>"
    obtain ih s where e: "\<sigma> = (ih, s)" by (cases \<sigma>)
    note q = conf_page[OF c[unfolded e] i]
    obtain b' where b': "g h (page_bytes i s) = Inr b'" "length b' = PAGE_SIZE" "abs_page h b' = n'"
      using g[OF q(5)[OF n]] q(7) by (auto simp: header_ok_def)
    have p: "p < ix_num_pages h" using c n unfolding e by (auto simp: conf_def)
    obtain t where t: "edit_buf i (\<lambda>_. b') s = (Inr (), t)" "conf fd s0 h (A(p \<mapsto> n')) K G r (ih, t)"
      using conf_edit[OF c[unfolded e] i p, of "\<lambda>_. b'"] b'(2,3) by auto
    have "node_edit g i \<sigma> = (Inr (), (ih, t))" using b'(1) q(6) t(1) by (simp add: node_edit_def e)
    then show "\<exists>x \<tau>. node_edit g i \<sigma> = (Inr x, \<tau>) \<and> conf fd s0 h (A(p \<mapsto> n')) K G r \<tau>" using t(2) by blast
  qed
qed (use f in simp)

lemma then_ret: "andThen m ret = m"
  by (auto simp: andThen_def fun_eq_iff split: prod.splits sum.splits)

lemma run_edit_end:
  assumes "(i, p, True) \<in> K \<union> G" "A p = Some n"
    and "\<And>b. abs_page h b = n \<Longrightarrow> ix_layout h \<Longrightarrow> \<exists>b'. g h b = Inr b' \<and> length b' = PAGE_SIZE \<and> abs_page h b' = n'"
  shows "triple (conf fd s0 h A K G r) (node_edit g i) (\<lambda>_. conf fd s0 h (A(p \<mapsto> n')) K G r)"
proof -
  have "triple (conf fd s0 h A K G r) (andThen (node_edit g i) ret) (\<lambda>_. conf fd s0 h (A(p \<mapsto> n')) K G r)"
    by (rule run_edit[where p = p and n = n and n' = n' and A = A and g = g and f = ret, OF assms]) (auto intro: triple_ret)
  then show ?thesis by (simp only: then_ret)
qed

lemma run_set_last:
  assumes i: "(i, p, True) \<in> K \<union> G" and p: "p < ix_num_pages h \<or> p \<in> dom A"
    and g: "\<And>b. (A p = Some n \<Longrightarrow> abs_page h b = n) \<Longrightarrow> length b = PAGE_SIZE \<Longrightarrow> ix_layout h \<Longrightarrow>
      length (g b) = PAGE_SIZE \<and> abs_page h (g b) = n'"
  shows "triple (conf fd s0 h A K G r) (node_set g i) (\<lambda>_. conf fd s0 h (A(p \<mapsto> n')) K G r)"
  unfolding triple_def
proof (intro allI impI)
  fix \<sigma> assume c: "conf fd s0 h A K G r \<sigma>"
  obtain ih s where e: "\<sigma> = (ih, s)" by (cases \<sigma>)
  note q = conf_page[OF c[unfolded e] i]
  have b': "length (g (page_bytes i s)) = PAGE_SIZE" "abs_page h (g (page_bytes i s)) = n'"
    using g[OF q(5) q(3)] q(7) by (auto simp: header_ok_def)
  have p': "p < ix_num_pages h" using c p unfolding e by (auto simp: conf_def)
  obtain t where t: "edit_buf i g s = (Inr (), t)" "conf fd s0 h (A(p \<mapsto> n')) K G r (ih, t)"
    using conf_edit[OF c[unfolded e] i p', of g] b' by auto
  have "node_set g i \<sigma> = (Inr (), (ih, t))" using t(1) by (simp add: node_set_def e)
  then show "\<exists>x \<tau>. node_set g i \<sigma> = (Inr x, \<tau>) \<and> conf fd s0 h (A(p \<mapsto> n')) K G r \<tau>" using t(2) by blast
qed

lemma run_fill:
  assumes "(i, p, True) \<in> K \<union> G" "p < ix_num_pages h \<or> p \<in> dom A"
    and "\<And>b. length b = PAGE_SIZE \<Longrightarrow> ix_layout h \<Longrightarrow> length (g b) = PAGE_SIZE \<and> abs_page h (g b) = n'"
    and f: "triple (conf fd s0 h (A(p \<mapsto> n')) K G r) (f ()) Q"
  shows "triple (conf fd s0 h A K G r) (andThen (node_set g i) f) Q"
  by (rule triple_bind[OF run_set_last[where n = undefined, OF assms(1,2)]]) (use assms(3) f in auto)

lemma run_set:
  assumes "(i, p, True) \<in> K \<union> G" "A p = Some n"
    and "\<And>b. abs_page h b = n \<Longrightarrow> length b = PAGE_SIZE \<Longrightarrow> ix_layout h \<Longrightarrow> length (g b) = PAGE_SIZE \<and> abs_page h (g b) = n'"
    and f: "triple (conf fd s0 h (A(p \<mapsto> n')) K G r) (f ()) Q"
  shows "triple (conf fd s0 h A K G r) (andThen (node_set g i) f) Q"
  by (rule triple_bind[OF run_set_last[where p = p, OF assms(1)]]) (use assms(2,3) f in auto)

lemma run_set_end:
  assumes "(i, p, True) \<in> K \<union> G" "A p = Some n"
    and "\<And>b. abs_page h b = n \<Longrightarrow> length b = PAGE_SIZE \<Longrightarrow> ix_layout h \<Longrightarrow> length (g b) = PAGE_SIZE \<and> abs_page h (g b) = n'"
    and "\<And>s. conf fd s0 h (A(p \<mapsto> n')) K G r s \<Longrightarrow> Q () s"
  shows "triple (conf fd s0 h A K G r) (node_set g i) Q"
  by (rule triple_conseq[OF run_set_last[where p = p and n = n, OF assms(1)]]) (use assms(2-4) in auto)

lemma run_mark_last:
  assumes "(i, p, d) \<in> K \<union> G"
  shows "triple (conf fd s0 h A K G r) (node_mark i) (\<lambda>_. conf fd s0 h A (if (i, p, d) \<in> K then insert (i, p, True) K else K)
     (insert (i, p, True) G) r)"
  unfolding triple_def
proof (intro allI impI)
  fix \<sigma> assume c: "conf fd s0 h A K G r \<sigma>"
  obtain ih s where e: "\<sigma> = (ih, s)" by (cases \<sigma>)
  note c' = c[unfolded e conf_def prod.case]
  have wf: "pf_wf s" using c' by (simp add: pool.reach_def)
  let ?N = "length (pages s0) - 1"
  let ?r = "if (i, p, d) \<in> K then ?N else r"
  have g: "grip s (PageID fd p) i ?r d" "1 \<le> p" using assms c' by (fastforce simp: in_hand_def)+
  obtain t where t: "mark_dirty i s = (Inr (), t)" "pf_wf t" "page_view t = page_view s" "same_env s t"
    "cached_pages t = cached_pages s" "grips s t 0" "grip t (PageID fd p) i ?r True"
    by (rule mark_grip[OF wf g(1)])
  have rN: "r \<le> ?N" using c' by linarith
  have rr: "r \<le> ?r" using rN by simp
  have gr: "grip t (PageID fd p) i r True" by (rule grip_less[OF t(7) rr]) simp
  have gn: "(i, p, d) \<in> K \<Longrightarrow> grip t (PageID fd p) i ?N True" using t(7) by simp
  have ks: "in_hand fd ?N t K" "in_hand fd r t G" using c' by (auto intro: in_hand_grips[OF _ t(6)])
  have "in_hand fd ?N t (if (i, p, d) \<in> K then insert (i, p, True) K else K)" "in_hand fd r t (insert (i, p, True) G)"
    using ks gr gn g(2) by (simp_all add: in_hand_insert)
  moreover have "pool.reach s0 (ix_pids fd) (others fd s0) t"
    using c' t(2-5) pool.env_trans[of s0 s t] by (simp add: pool.reach_def)
  moreover have "file_view t fd = file_view s fd" by (simp add: file_view_def fun_eq_iff t(3))
  ultimately have "conf fd s0 h A (if (i, p, d) \<in> K then insert (i, p, True) K else K) (insert (i, p, True) G) r (ih, t)"
    using c' unfolding conf_def by simp
  moreover have "node_mark i \<sigma> = (Inr (), (ih, t))" using t(1) by (simp add: node_mark_def e)
  ultimately show "\<exists>x \<tau>. node_mark i \<sigma> = (Inr x, \<tau>) \<and> conf fd s0 h A (if (i, p, d) \<in> K then insert (i, p, True) K else K)
     (insert (i, p, True) G) r \<tau>" by blast
qed

lemma run_mark:
  assumes "(i, p, d) \<in> K \<union> G" "triple (conf fd s0 h A K (insert (i, p, True) G) r) (f ()) Q"
  shows "triple (conf fd s0 h A K G r) (andThen (node_mark i) f) Q"
  by (rule triple_bind[OF run_mark_last[OF assms(1)]])
    (use assms(2) in \<open>auto elim!: triple_pre intro: conf_less\<close>)

lemma run_mark_new:
  assumes "triple (conf fd s0 h A (insert (i, p, True) K) G r) (f ()) Q" "(i, p, d) \<in> K"
  shows "triple (conf fd s0 h A K G r) (andThen (node_mark i) f) Q"
  by (rule triple_bind[OF run_mark_last[of i p d]])
    (use assms in \<open>auto elim!: triple_pre intro: conf_less\<close>)

section \<open>Getting pages\<close>

lemma conf_valid: "fd_path s fd \<noteq> None \<Longrightarrow> 1 \<le> p \<Longrightarrow> p < 524288 \<Longrightarrow> valid_pid s (PageID fd p)"
  by (simp add: valid_pid_def int_ok_def PAGE_SIZE_def INT_MAX_def INT_MIN_def)

lemma conf_fetch:
  assumes c: "conf fd s0 h A K G (Suc r) (ih, s)" and n: "p \<in> dom A"
  shows "\<exists>i t. fetch_page fd p s = (Inr i, t) \<and> conf fd s0 h A {(i, p, False)} (K \<union> G) r (ih, t)"
proof -
  note c' = c[unfolded conf_def prod.case]
  have wf: "pf_wf s" and env: "same_env s0 s" using c' by (simp_all add: pool.reach_def)
  have p: "1 \<le> p" "p < ix_num_pages h" using c' n by auto
  have fp: "fd_path s fd \<noteq> None" and N: "length (pages s) = length (pages s0)"
    using c' env by (simp_all add: same_env_def fd_path_def)
  have v: "valid_pid s (PageID fd p)" using p c' by (intro conf_valid[OF fp]) (auto simp: header_ok_def)
  obtain x where x: "page_view s (PageID fd p) = Some x"
  proof -
    obtain y where "A p = Some y" using n by blast
    then have "npages h (file_view s fd) p = Some y" using c' by (meson map_le_Some)
    then show ?thesis using that by (auto simp: npages_def file_view_def)
  qed
  obtain i t where t: "fetch_page fd p s = (Inr i, t)" "pf_wf t" "page_view s \<subseteq>\<^sub>m page_view t" "same_env s t"
    "cached_pages t \<subseteq> insert (PageID fd p) (cached_pages s)" "grips s t 1" "grip t (PageID fd p) i (length (pages s) - 1) False"
    by (rule fetch_grip[OF wf v x])
  have k: "PageID fd p \<in> ix_pids fd" using p(1) by (simp add: ix_pids_def NDX_FILE_HDR_PAGE_def)
  have "pool.reach s0 (ix_pids fd) (others fd s0) t"
    using c' t(2-5) k pool.env_trans[of s0 s t] map_le_trans[of "others fd s0" "page_view s" "page_view t"]
    by (auto simp: pool.reach_def)
  moreover have "A \<subseteq>\<^sub>m npages h (file_view t fd)"
  proof -
    have "file_view s fd \<subseteq>\<^sub>m file_view t fd" using t(3) by (auto simp: map_le_def file_view_def dom_def)
    then show ?thesis using c' npages_mono map_le_trans by blast
  qed
  moreover have "in_hand fd r t (K \<union> G)"
    unfolding in_hand_Un using c' by (auto intro: in_hand_grips[OF _ t(6)])
  moreover have "in_hand fd (length (pages s0) - 1) t {(i, p, False)}" using t(7) p(1) N by (simp add: in_hand_def)
  ultimately have "conf fd s0 h A {(i, p, False)} (K \<union> G) r (ih, t)" using c' by (simp add: conf_def)
  then show ?thesis using t(1) by blast
qed

lemma run_get_last:
  assumes "p \<in> dom A"
  shows "triple (conf fd s0 h A K G (Suc r)) (get_node p) (\<lambda>i. conf fd s0 h A {(i, p, False)} (K \<union> G) r)"
  unfolding triple_def
proof (intro allI impI)
  fix \<sigma> assume c: "conf fd s0 h A K G (Suc r) \<sigma>"
  obtain s where e: "\<sigma> = (hnd fd h, s)" "dom A \<subseteq> {1..<ix_num_pages h}" using c by (rule conf_facts) blast
  obtain i t where t: "fetch_page fd p s = (Inr i, t)" "conf fd s0 h A {(i, p, False)} (K \<union> G) r (hnd fd h, t)"
    using conf_fetch[OF c[unfolded e(1)] assms] by blast
  have "p < ix_num_pages h" using e(2) assms by auto
  then have "get_node p \<sigma> = (Inr i, (hnd fd h, t))" using t(1) by (simp add: get_node_def e(1))
  then show "\<exists>x \<tau>. get_node p \<sigma> = (Inr x, \<tau>) \<and> conf fd s0 h A {(x, p, False)} (K \<union> G) r \<tau>" using t(2) by blast
qed

lemma run_get:
  assumes "p \<in> dom A" "\<And>i. triple (conf fd s0 h A {(i, p, False)} (K \<union> G) r) (f i) Q"
  shows "triple (conf fd s0 h A K G (Suc r)) (andThen (get_node p) f) Q"
  by (rule triple_bind[OF run_get_last[OF assms(1)] assms(2)])

section \<open>The file header\<close>

lemma conf_header:
  assumes c: "conf fd s0 h A K G r (hnd fd h, s)" and g: "ix_same_layout h g" "ix_num_pages h \<le> ix_num_pages g" "ix_num_pages g \<le> 524288"
  shows "conf fd s0 g A K G r (hnd fd g, s)"
  using c g layout_cong[OF g(1)] npages_cong[OF g(1)] by (auto simp: conf_def header_ok_def)

lemma run_upd_header_last:
  assumes "ix_same_layout h (g h)" "ix_num_pages (g h) = ix_num_pages h"
  shows "triple (conf fd s0 h A K G r) (upd_header g) (\<lambda>_. conf fd s0 (g h) A K G r)"
  unfolding triple_def
proof (intro allI impI)
  fix \<sigma> assume c: "conf fd s0 h A K G r \<sigma>"
  obtain s where e: "\<sigma> = (hnd fd h, s)" "header_ok h" using c by (rule conf_facts) blast
  have "conf fd s0 (g h) A K G r (hnd fd (g h), s)"
    by (rule conf_header[OF c[unfolded e(1)] assms(1)]) (use assms(2) e(2) in \<open>simp_all add: header_ok_def\<close>)
  then show "\<exists>x t. upd_header g \<sigma> = (Inr x, t) \<and> conf fd s0 (g h) A K G r t" by (simp add: upd_header_def e(1))
qed

lemma run_upd_header_end:
  assumes "ix_same_layout h (g h)" "ix_num_pages (g h) = ix_num_pages h" "\<And>s. conf fd s0 (g h) A K G r s \<Longrightarrow> Q () s"
  shows "triple (conf fd s0 h A K G r) (upd_header g) Q"
  by (rule triple_conseq[OF run_upd_header_last[where g = g, OF assms(1,2)]]) (use assms(3) in auto)

lemma run_upd_header:
  assumes "ix_same_layout h (g h)" "ix_num_pages (g h) = ix_num_pages h" "triple (conf fd s0 (g h) A K G r) (f ()) Q"
  shows "triple (conf fd s0 h A K G r) (andThen (upd_header g) f) Q"
  by (rule triple_bind[OF run_upd_header_last[where g = g, OF assms(1,2)]]) (use assms(3) in simp)

section \<open>New pages\<close>

definition new_page :: "IndexFileHeader \<Rightarrow> int" where
  "new_page h = (if ix_first_free h = NDX_NO_PAGE then ix_num_pages h else ix_first_free h)"

definition new_header :: "(int \<rightharpoonup> npage) \<Rightarrow> IndexFileHeader \<Rightarrow> IndexFileHeader" where
  "new_header A h = (if ix_first_free h = NDX_NO_PAGE then h\<lparr>ix_num_pages := ix_num_pages h + 1\<rparr>
     else h\<lparr>ix_first_free := np_free (the (A (ix_first_free h)))\<rparr>)"

lemma new_header_same: "ix_same_layout h (new_header A h)"
  by (simp add: new_header_def ix_same_layout_def)

lemma conf_create:
  assumes c: "conf fd s0 h A K G (Suc r) (hnd fd h, s)" and g: "g = h\<lparr>ix_num_pages := ix_num_pages h + 1\<rparr>" "ix_num_pages h < 524288"
    and p: "p = ix_num_pages h"
  shows "\<exists>i t. create_page fd p s = (Inr i, t) \<and> conf fd s0 g A {(i, p, True)} (K \<union> G) r (hnd fd g, t)"
proof -
  note c' = c[unfolded conf_def prod.case]
  have wf: "pf_wf s" and env: "same_env s0 s" using c' by (simp_all add: pool.reach_def)
  have p1: "1 \<le> p" "p \<notin> dom A" using c' p by (auto simp: header_ok_def)
  have fp: "fd_path s fd \<noteq> None" and N: "length (pages s) = length (pages s0)"
    using c' env by (simp_all add: same_env_def fd_path_def)
  have v: "valid_pid s (PageID fd p)" using p1 p g(2) by (intro conf_valid[OF fp]) simp_all
  obtain i t where t: "create_page fd p s = (Inr i, t)" "pf_wf t" "(page_view s)(PageID fd p := None) \<subseteq>\<^sub>m page_view t"
    "same_env s t" "cached_pages t \<subseteq> insert (PageID fd p) (cached_pages s)" "grips s t 1"
    "grip t (PageID fd p) i (length (pages s) - 1) True"
    by (rule create_grip[OF wf v])
  have k: "PageID fd p \<in> ix_pids fd" using p1(1) by (simp add: ix_pids_def NDX_FILE_HDR_PAGE_def)
  have "others fd s0 \<subseteq>\<^sub>m (page_view s)(PageID fd p := None)"
    using c' by (auto simp: pool.reach_def others_def map_le_def restrict_map_def dom_def)
  then have "pool.reach s0 (ix_pids fd) (others fd s0) t"
    using c' t(2-5) k pool.env_trans[of s0 s t] map_le_trans[OF _ t(3), of "others fd s0"] by (auto simp: pool.reach_def)
  moreover have "A \<subseteq>\<^sub>m npages h (file_view t fd)"
    unfolding map_le_def
  proof
    fix q assume q: "q \<in> dom A"
    then have "q \<noteq> p" using p1(2) by blast
    have "A q = npages h (file_view s fd) q" using c' q by (simp add: map_le_def)
    moreover obtain n where "A q = Some n" using q by blast
    ultimately obtain b where b: "page_view s (PageID fd q) = Some b" "A q = Some (abs_page h b)"
      by (cases "page_view s (PageID fd q)") (auto simp: npages_def file_view_def)
    have "page_view t (PageID fd q) = Some b" using \<open>q \<noteq> p\<close> b(1) by (intro map_le_Some[OF t(3)]) simp
    then show "A q = npages h (file_view t fd) q" using b(2) by (simp add: npages_def file_view_def)
  qed
  moreover have "in_hand fd r t (K \<union> G)"
    unfolding in_hand_Un using c' by (auto intro: in_hand_grips[OF _ t(6)])
  moreover have "in_hand fd (length (pages s0) - 1) t {(i, p, True)}" using t(7) p1(1) N by (simp add: in_hand_def)
  ultimately have "conf fd s0 h A {(i, p, True)} (K \<union> G) r (hnd fd h, t)" using c' by (simp add: conf_def)
  then have "conf fd s0 g A {(i, p, True)} (K \<union> G) r (hnd fd g, t)"
    by (rule conf_header) (use g in \<open>simp_all add: ix_same_layout_def\<close>)
  then show ?thesis using t(1) by blast
qed

lemma run_create:
  assumes "ix_first_free h = NDX_NO_PAGE \<Longrightarrow> ix_num_pages h < 524288" "ix_first_free h \<noteq> NDX_NO_PAGE \<Longrightarrow> ix_first_free h \<in> dom A"
    and f: "\<And>i. triple (conf fd s0 (new_header A h) A {(i, new_page h, True)} (K \<union> G) r) (f i) Q"
  shows "triple (conf fd s0 h A K G (Suc r)) (andThen create_node f) Q"
proof (rule triple_bind[OF _ f])
  show "triple (conf fd s0 h A K G (Suc r)) create_node (\<lambda>i. conf fd s0 (new_header A h) A {(i, new_page h, True)} (K \<union> G) r)"
    unfolding triple_def
  proof (intro allI impI)
    fix \<sigma> assume c: "conf fd s0 h A K G (Suc r) \<sigma>"
    obtain s where e: "\<sigma> = (hnd fd h, s)" "header_ok h" using c by (rule conf_facts) blast
    let ?g = "new_header A h" let ?p = "new_page h"
    let ?I = "if ix_first_free h = NDX_NO_PAGE then
          andThen (pf (create_page fd (ix_num_pages h))) (\<lambda>i.
          andThen (ensure (int_ok (ix_num_pages h + 1)) Undefined) (\<lambda>_.
          andThen (upd_header (\<lambda>h. h\<lparr>ix_num_pages := ix_num_pages h + 1\<rparr>)) (\<lambda>_. ret i)))
        else
          andThen (pf (fetch_page fd (ix_first_free h))) (\<lambda>i.
          andThen (node_header i) (\<lambda>hd.
          andThen (upd_header (\<lambda>h. h\<lparr>ix_first_free := next_free hd\<rparr>)) (\<lambda>_. ret i)))"
    have "\<exists>i t d. ?I \<sigma> = (Inr i, (hnd fd ?g, t)) \<and> conf fd s0 ?g A {(i, ?p, d)} (K \<union> G) r (hnd fd ?g, t)"
    proof (cases "ix_first_free h = NDX_NO_PAGE")
      case True
      have ok: "int_ok (ix_num_pages h + 1)"
        using assms(1)[OF True] e(2) by (simp add: int_ok_def INT_MAX_def INT_MIN_def header_ok_def)
      have g: "?g = h\<lparr>ix_num_pages := ix_num_pages h + 1\<rparr>" "?p = ix_num_pages h" using True by (simp_all add: new_header_def new_page_def)
      obtain i t where t: "create_page fd (ix_num_pages h) s = (Inr i, t)" "conf fd s0 ?g A {(i, ?p, True)} (K \<union> G) r (hnd fd ?g, t)"
        using conf_create[OF c[unfolded e(1)] g(1) assms(1)[OF True] g(2)] g(2) by auto
      have "?I \<sigma> = (Inr i, (hnd fd ?g, t))" using True t(1) ok by (simp add: e(1) g(1) upd_header_def ensure_def)
      then show ?thesis using t(2) by blast
    next
      case False
      then have q: "ix_first_free h \<in> dom A" by (rule assms(2))
      then obtain n where n: "A (ix_first_free h) = Some n" by blast
      obtain i t where t: "fetch_page fd (ix_first_free h) s = (Inr i, t)" "conf fd s0 h A {(i, ix_first_free h, False)} (K \<union> G) r (hnd fd h, t)"
        using conf_fetch[OF c[unfolded e(1)] q] by blast
      have "abs_page h (page_bytes i t) = n" using conf_page(5)[OF t(2) _ n, of i False] by simp
      then have nf: "next_free (get_header (page_bytes i t)) = np_free n" by auto
      have g: "?g = h\<lparr>ix_first_free := np_free n\<rparr>" "?p = ix_first_free h" using False n by (simp_all add: new_header_def new_page_def)
      have "conf fd s0 ?g A {(i, ?p, False)} (K \<union> G) r (hnd fd ?g, t)"
        unfolding g(2) by (rule conf_header[OF t(2) new_header_same]) (use e(2) in \<open>simp_all add: g(1) header_ok_def\<close>)
      moreover have "?I \<sigma> = (Inr i, (hnd fd ?g, t))" using False t(1) nf by (simp add: e(1) g(1) upd_header_def)
      ultimately show ?thesis by blast
    qed
    then obtain i t d where t: "?I \<sigma> = (Inr i, (hnd fd ?g, t))" "conf fd s0 ?g A {(i, ?p, d)} (K \<union> G) r (hnd fd ?g, t)" by blast
    obtain x \<tau> where m: "node_mark i (hnd fd ?g, t) = (Inr x, \<tau>)" "conf fd s0 ?g A (insert (i, ?p, True) {(i, ?p, d)}) (insert (i, ?p, True) (K \<union> G)) r \<tau>"
      using tripleD[OF run_mark_last[where i = i and K = "{(i, ?p, d)}" and p = ?p and d = d] t(2)] by auto
    have "create_node \<sigma> = (Inr i, \<tau>)"
      using t(1) m(1) by (cases "ix_first_free h = NDX_NO_PAGE") (simp_all add: create_node_def e(1))
    moreover have "conf fd s0 ?g A {(i, ?p, True)} (K \<union> G) r \<tau>" by (rule conf_less[OF m(2)]) auto
    ultimately show "\<exists>x \<tau>. create_node \<sigma> = (Inr x, \<tau>) \<and> conf fd s0 ?g A {(x, ?p, True)} (K \<union> G) r \<tau>" by blast
  qed
qed

end
