(* ===== verification/IndexSplit.thy ===== *)
theory IndexSplit
  imports IndexRun
begin

text \<open>
  The blocks of \<open>insert_entry\<close> on the pages of the file: what each does to the records of the pages.
\<close>

section \<open>A new root\<close>

definition root_over :: "int \<Rightarrow> npage \<Rightarrow> npage" where
  "root_over p n = \<lparr>np_ok = True, np_leaf = False, np_parent = NDX_NO_PAGE, np_keys = [last (np_keys n)],
     np_rids = [RecordID p (-1)], np_prev = NDX_NO_PAGE, np_next = NDX_NO_PAGE, np_free = NDX_NO_PAGE\<rparr>"

lemma minus_one_ok [simp]: "int_ok NDX_NO_PAGE" "int_ok (-1)"
  by (simp_all add: NDX_NO_PAGE_def int_ok_def INT_MIN_def INT_MAX_def)

lemma page_no_ok: "1 \<le> p \<Longrightarrow> p \<le> 524288 \<Longrightarrow> int_ok p"
  by (simp add: int_ok_def INT_MIN_def INT_MAX_def)

text \<open>What is asked of the page that \<open>create_node\<close> is going to return.\<close>

definition can_grow :: "IndexFileHeader \<Rightarrow> (int \<rightharpoonup> npage) \<Rightarrow> bool" where
  "can_grow h A \<longleftrightarrow> (if ix_first_free h = NDX_NO_PAGE then ix_num_pages h < 524288 else ix_first_free h \<in> dom A) \<and>
     1 \<le> new_page h \<and> new_page h \<le> 524288 \<and> new_page h < ix_num_pages (new_header A h)"

lemma abs_get_last:
  assumes "ix_layout h" "abs_page h b = n" "np_ok n" "np_keys n \<noteq> []"
  shows "get_key h (int (length (np_keys n)) - 1) b = Inr (last (np_keys n))"
proof -
  have e: "int (length (np_keys n)) - 1 = int (length (np_keys n) - 1)" using assms(4) by (cases "np_keys n") simp_all
  have "get_key h (int (length (np_keys n) - 1)) b = Inr (np_keys n ! (length (np_keys n) - 1))"
    using assms(4) by (intro abs_get_key[OF assms(1-3)]) simp
  then show ?thesis by (simp only: e last_conv_nth[OF assms(4)])
qed

lemma run_grow_root:
  assumes i: "(i, p, True) \<in> K \<union> G" and n: "A p = Some n" "np_ok n" "np_keys n \<noteq> []" "length (last (np_keys n)) = nat (col_len h)"
    and q: "can_grow h A" "q = new_page h" "q \<noteq> p" and p: "1 \<le> p" "p \<le> 524288"
  shows "triple (conf fd s0 h A K G (Suc r)) (grow_root i)
    (\<lambda>_. conf fd s0 ((new_header A h)\<lparr>root_page := q\<rparr>) (A(q \<mapsto> root_over p n, p \<mapsto> n\<lparr>np_parent := q\<rparr>)) {} (K \<union> G) r)"
proof -
  let ?g = "new_header A h"
  have sl: "col_len ?g = col_len h" using new_header_same[of h A] by (simp add: ix_same_layout_def)
  show ?thesis
    unfolding grow_root_def
    apply (rule run_create)
      apply (use q(1) in \<open>simp add: can_grow_def\<close>)
     apply (use q(1) in \<open>simp add: can_grow_def\<close>)
    subgoal for j
      apply (rule run_fill[where p = q and n' = "(root_over p n)\<lparr>np_keys := [], np_rids := []\<rparr>"])
         apply (simp add: q(2))
        apply (use q(1,2) in \<open>simp add: can_grow_def\<close>)
       apply (use abs_put_header[of ?g] in \<open>simp add: root_over_def\<close>)
      apply (rule run_page[where p = p and d = True])
       apply (use i in simp)
      apply (rule run_edit[where p = q and n = "(root_over p n)\<lparr>np_keys := [], np_rids := []\<rparr>" and n' = "(root_over p n)\<lparr>np_keys := []\<rparr>"])
         apply (simp add: q(2))
        apply simp
       apply (use abs_insert_rid[of ?g _ "(root_over p n)\<lparr>np_keys := [], np_rids := []\<rparr>" 0 "RecordID p (-1)"] p
          in \<open>simp add: root_over_def rid_ok_def page_no_ok ix_layout_def\<close>)
      apply (rule run_header[where p = p and d = True and n = n])
         apply (use i n q(3) in simp_all)[3]
      apply (rule run_read[where p = p and d = True and n = n and v = "last (np_keys n)"])
         apply (use i n q(3) in simp_all)[2]
       apply (use n abs_get_last[of ?g _ n] in simp)
      apply (rule run_edit[where p = q and n = "(root_over p n)\<lparr>np_keys := []\<rparr>" and n' = "root_over p n"])
         apply (use q(2) in simp_all)[2]
       apply (use abs_insert_key[of ?g _ "(root_over p n)\<lparr>np_keys := []\<rparr>" 0 "last (np_keys n)"] n sl
          in \<open>simp add: root_over_def ix_layout_def\<close>)
      apply (rule run_page[where p = q and d = True])
       apply (simp add: q(2))
      apply (rule run_set[where p = p and n = n and n' = "n\<lparr>np_parent := q\<rparr>"])
         apply (use i n q(3) in simp_all)[2]
       apply (use set_page(1)[of ?g q] q(1,2) in \<open>auto simp: can_grow_def page_no_ok\<close>)[1]
      apply (rule run_upd_header_end)
        apply (simp_all add: ix_same_layout_def)[2]
      apply (erule conf_less)
         apply auto
      done
    done
qed

section \<open>The brother\<close>

definition bare_brother :: "npage \<Rightarrow> npage" where
  "bare_brother n = \<lparr>np_ok = True, np_leaf = np_leaf n, np_parent = np_parent n, np_keys = [], np_rids = [],
     np_prev = NDX_NO_PAGE, np_next = NDX_NO_PAGE, np_free = NDX_NO_PAGE\<rparr>"

definition with_brother :: "int \<Rightarrow> int \<Rightarrow> (int \<rightharpoonup> npage) \<Rightarrow> (int \<rightharpoonup> npage)" where
  "with_brother p q A = (let n = the (A p); x = np_next n in
     if np_leaf n then A(q \<mapsto> (bare_brother n)\<lparr>np_prev := p, np_next := x\<rparr>, x \<mapsto> (the (A x))\<lparr>np_prev := q\<rparr>,
       p \<mapsto> n\<lparr>np_next := q\<rparr>)
     else A(q \<mapsto> bare_brother n))"

lemma run_new_brother:
  assumes i: "(i, p, True) \<in> K \<union> G" and n: "A p = Some n" "np_ok n" "int_ok (np_parent n)"
    and q: "can_grow h A" "q = new_page h" "q \<noteq> p" and p: "1 \<le> p" "p \<le> 524288"
    and x: "np_leaf n \<Longrightarrow> np_next n \<in> dom A \<and> np_next n \<noteq> p \<and> np_next n \<noteq> q \<and> int_ok (np_next n)"
  shows "triple (conf fd s0 h A K G (Suc (Suc r))) (new_brother i)
    (\<lambda>j. conf fd s0 (new_header A h) (with_brother p q A) {} (insert (j, q, True) (K \<union> G)) r)"
proof -
  let ?g = "new_header A h" and ?x = "np_next n"
  let ?A = "A(q \<mapsto> bare_brother n)"
  have qo: "int_ok q" using q(1,2) by (auto simp: can_grow_def page_no_ok)
  have leaf: "triple (conf fd s0 ?g ?A {(j, q, True)} (K \<union> G) (Suc r)) (andThen (node_page i) (\<lambda>node_no.
        andThen (node_set (\<lambda>b. set_prev_leaf node_no (set_next_leaf (next_leaf (np_header n)) b)) j) (\<lambda>_.
        andThen (get_node (next_leaf (np_header n))) (\<lambda>next.
        andThen (node_mark next) (\<lambda>_.
        andThen (node_page j) (\<lambda>bro_no.
        andThen (node_set (set_prev_leaf bro_no) next) (\<lambda>_.
        node_set (set_next_leaf bro_no) i)))))))
      (\<lambda>_. conf fd s0 ?g (with_brother p q A) {} (insert (j, q, True) (K \<union> G)) r)" if l: "np_leaf n" for j
  proof -
    note x = x[OF l]
    then obtain m where m: "A ?x = Some m" by blast
    let ?n = "(bare_brother n)\<lparr>np_prev := p, np_next := ?x\<rparr>"
    show ?thesis
      apply (rule run_page[where p = p and d = True])
       apply (use i in simp)
      apply (rule run_set[where p = q and n = "bare_brother n" and n' = ?n])
         apply simp_all[2]
       subgoal for b
         using set_page(3)[of ?g p "set_next_leaf ?x b"] set_page(4)[of ?g ?x b] x page_no_ok[OF p] by simp
      apply (rule run_get)
       apply (use x in simp)
      subgoal for k
        apply (rule run_mark[where p = ?x and d = False])
         apply simp
        apply (rule run_page[where p = q and d = True])
         apply simp
        apply (rule run_set[where p = ?x and n = m and n' = "m\<lparr>np_prev := q\<rparr>"])
           apply (use x m in simp_all)[2]
         apply (rule set_page(3)[OF _ qo]; assumption)
        apply (rule run_set_end[where p = p and n = n and n' = "n\<lparr>np_next := q\<rparr>"])
           apply (use i n q(3) x in simp_all)[2]
         apply (rule set_page(4)[OF _ qo]; assumption)
        apply (erule conf_less)
           apply (use n m l in \<open>auto simp: with_brother_def Let_def\<close>)
        done
      done
  qed
  show ?thesis
    unfolding new_brother_def
    apply (rule run_create)
      apply (use q(1) in \<open>simp add: can_grow_def\<close>)
     apply (use q(1) in \<open>simp add: can_grow_def\<close>)
    subgoal for j
      apply (rule run_header[where p = p and d = True and n = n])
         apply (use i n in simp_all)[3]
      apply (rule run_fill[where p = q and n' = "bare_brother n"])
         apply (simp add: q(2))
        apply (use q(1,2) in \<open>simp add: can_grow_def\<close>)
       apply (use abs_put_header[of ?g] n in \<open>simp add: bare_brother_def\<close>)
      apply (rule triple_bind[where R = "\<lambda>_. conf fd s0 ?g (with_brother p q A) {} (insert (j, q, True) (K \<union> G)) r"])
       apply (cases "np_leaf n")
        apply (use leaf[of j] in \<open>simp add: whenP_def q(2)\<close>)
       apply (simp add: whenP_def)
       apply (rule triple_ret)
       apply (erule conf_less)
          apply (use n q(2) in \<open>auto simp: with_brother_def\<close>)[4]
      apply (rule triple_ret)
      apply assumption
      done
    done
qed

section \<open>Moving entries\<close>

definition reparent :: "int \<Rightarrow> int list \<Rightarrow> (int \<rightharpoonup> npage) \<Rightarrow> (int \<rightharpoonup> npage)" where
  "reparent q ps A = (\<lambda>x. if x \<in> set ps then map_option (\<lambda>n. n\<lparr>np_parent := q\<rparr>) (A x) else A x)"

lemma reparent_Nil [simp]: "reparent q [] A = A"
  by (simp add: reparent_def)

lemma reparent_dom [simp]: "dom (reparent q ps A) = dom A"
  by (auto simp: reparent_def dom_def split: if_splits)

lemma reparent_Cons: "A p = Some n \<Longrightarrow> reparent q (p # ps) A = reparent q ps (A(p \<mapsto> n\<lparr>np_parent := q\<rparr>))"
  by (auto simp: reparent_def fun_eq_iff)

lemma reparent_other: "x \<notin> set ps \<Longrightarrow> reparent q ps A x = A x"
  by (simp add: reparent_def)

lemma run_maintain_child:
  assumes i: "(i, q, d) \<in> G" and n: "A q = Some n" "np_ok n" "\<not> np_leaf n" "k < length (np_rids n)"
    and c: "A (rid_page (np_rids n ! k)) = Some m" and q: "int_ok q"
  shows "triple (conf fd s0 h A {} G (Suc r)) (maintain_child i (int k))
    (\<lambda>_. conf fd s0 h (A(rid_page (np_rids n ! k) \<mapsto> m\<lparr>np_parent := q\<rparr>)) {} G r)"
  unfolding maintain_child_def
  apply (rule run_header[where p = q and d = d and n = n])
     apply (use i n in simp_all)[3]
  apply (simp add: whenP_def n(3))
  apply (rule run_read[where p = q and d = d and n = n and v = "np_rids n ! k"])
     apply (use i n in simp_all)[2]
   apply (use n abs_get_rid in auto)[1]
  apply (rule run_get)
   apply (use c in blast)
  subgoal for j
    apply (rule run_mark[where p = "rid_page (np_rids n ! k)" and d = False])
     apply simp
    apply (rule run_page[where p = q and d = d])
     apply (use i in simp)
    apply (rule run_set_end[where p = "rid_page (np_rids n ! k)" and n = m])
       apply (use c in simp_all)[2]
     apply (rule set_page(1)[OF _ q]; assumption)
    apply (erule conf_less)
       apply auto
    done
  done

lemma run_children:
  assumes i: "(i, q, d) \<in> G" and n: "A q = Some n" "np_ok n" "\<not> np_leaf n" "\<forall>k \<in> set ks. k < length (np_rids n)"
    and c: "\<forall>k \<in> set ks. rid_page (np_rids n ! k) \<in> dom A \<and> rid_page (np_rids n ! k) \<noteq> q" and q: "int_ok q"
  shows "triple (conf fd s0 h A {} G (length ks + r)) (forEach (map int ks) (maintain_child i))
    (\<lambda>_. conf fd s0 h (reparent q (map (\<lambda>k. rid_page (np_rids n ! k)) ks) A) {} G r)"
  using n(1,4) c
proof (induction ks arbitrary: A)
  case Nil
  then show ?case by (simp add: triple_def)
next
  case (Cons k ks)
  let ?c = "rid_page (np_rids n ! k)"
  obtain m where m: "A ?c = Some m" using Cons.prems(3) by auto
  have k: "k < length (np_rids n)" using Cons.prems(2) by simp
  let ?B = "A(?c \<mapsto> m\<lparr>np_parent := q\<rparr>)"
  have "triple (conf fd s0 h ?B {} G (length ks + r)) (forEach (map int ks) (maintain_child i))
    (\<lambda>_. conf fd s0 h (reparent q (map (\<lambda>k. rid_page (np_rids n ! k)) ks) ?B) {} G r)"
    using Cons.prems by (intro Cons.IH) auto
  then show ?case
    using triple_bind[OF run_maintain_child[where r = "length ks + r", OF i Cons.prems(1) n(2,3) k m q], where f = "\<lambda>_. forEach (map int ks) (maintain_child i)"]
    by (simp add: reparent_Cons[where A = A and p = ?c, OF m])
qed

lemma upto_nats: "[0..int n - 1] = map int [0..<n]"
proof (induction n)
  case (Suc n)
  have "[0..int (Suc n) - 1] = [0..int n - 1] @ [int n]" using upto_rec2[of 0 "int n"] by simp
  then show ?case using Suc by simp
qed simp

definition moved_half :: "int \<Rightarrow> int \<Rightarrow> nat \<Rightarrow> (int \<rightharpoonup> npage) \<Rightarrow> (int \<rightharpoonup> npage)" where
  "moved_half p q m A = (let n = the (A p); b = the (A q);
       B = A(q \<mapsto> b\<lparr>np_keys := drop m (np_keys n), np_rids := drop m (np_rids n)\<rparr>,
             p \<mapsto> n\<lparr>np_keys := take m (np_keys n), np_rids := take m (np_rids n)\<rparr>)
     in if np_leaf b then B else reparent q (map rid_page (drop m (np_rids n))) B)"

lemma split_index: "int n sdiv 2 = int (n div 2)"
  by (cases n) (simp_all add: signed_divide_int_def zdiv_int)

lemma children_leaf:
  assumes "(j, q, d) \<in> G" "A q = Some b" "np_ok b" "np_leaf b"
  shows "triple (conf fd s0 h A {} G r) (forEach ks (maintain_child j)) (\<lambda>_. conf fd s0 h A {} G r)"
proof (induction ks)
  case Nil
  then show ?case by (simp add: triple_def)
next
  case (Cons k ks)
  have "triple (conf fd s0 h A {} G r) (maintain_child j k) (\<lambda>_. conf fd s0 h A {} G r)"
    unfolding maintain_child_def
    by (rule run_header[where p = q and d = d and n = b]) (use assms in \<open>simp_all add: whenP_def triple_def\<close>)
  then show ?case using triple_bind[OF _ Cons.IH] by simp
qed

lemma run_move_half:
  assumes i: "(i, p, True) \<in> G" and j: "(j, q, True) \<in> G" and pq: "p \<noteq> q"
    and n: "A p = Some n" "np_ok n" "length (np_rids n) = length (np_keys n)" "int (length (np_keys n)) \<le> btree_order h + 1"
      "\<forall>k \<in> set (np_keys n). length k = nat (col_len h)"
    and b: "A q = Some b" "np_ok b" "np_keys b = []" "np_rids b = []"
    and m: "m = length (np_keys n) div 2" and q: "int_ok q"
    and c: "\<not> np_leaf b \<Longrightarrow> rid_page ` set (np_rids n) \<subseteq> dom A - {p, q}" and len: "l = length (np_keys n) - m"
  shows "triple (conf fd s0 h A {} G (l + r)) (move_half i j)
    (\<lambda>x s. x = int m \<and> conf fd s0 h (moved_half p q m A) {} G r s)"
proof -
  let ?b1 = "b\<lparr>np_keys := drop m (np_keys n)\<rparr>"
  let ?b2 = "b\<lparr>np_keys := drop m (np_keys n), np_rids := drop m (np_rids n)\<rparr>"
  let ?n1 = "n\<lparr>np_keys := take m (np_keys n), np_rids := take m (np_rids n)\<rparr>"
  let ?B = "A(q \<mapsto> ?b2, p \<mapsto> ?n1)"
  have lm: "m \<le> length (np_keys n)" "m + l = length (np_keys n)" "int (length (np_keys n)) - int m = int l"
    using m len by simp_all
  have lb: "int l \<le> btree_order h + 1" using n(4) lm by linarith
  have all: "take l (drop m (np_keys n)) = drop m (np_keys n)" "take l (drop m (np_rids n)) = drop m (np_rids n)"
    "length (drop m (np_rids n)) = l" using lm n(3) by simp_all
  have kids: "triple (conf fd s0 h ?B {} G (l + r)) (maintain_children j 0 (num_child (np_header ?b2)))
      (\<lambda>_. conf fd s0 h (moved_half p q m A) {} G r)"
  proof (cases "np_leaf b")
    case True
    have "triple (conf fd s0 h ?B {} G (l + r)) (maintain_children j 0 (num_child (np_header ?b2)))
        (\<lambda>_. conf fd s0 h ?B {} G (l + r))"
      unfolding maintain_children_def
      by (rule children_leaf[where q = q and d = True and b = ?b2]) (use True j b pq in auto)
    then show ?thesis
      by (rule triple_conseq) (use True n(1) b(1) in \<open>auto simp: moved_half_def elim!: conf_less\<close>)
  next
    case False
    have ix: "map (\<lambda>k. rid_page (np_rids ?b2 ! k)) [0..<l] = map rid_page (drop m (np_rids n))"
      by (rule nth_equalityI) (use all(3) in auto)
    have ch: "rid_page (drop m (np_rids n) ! k) \<in> dom ?B \<and> rid_page (drop m (np_rids n) ! k) \<noteq> q" if "k < l" for k
    proof -
      have "drop m (np_rids n) ! k \<in> set (np_rids n)" using that all(3) by (meson in_set_dropD nth_mem)
      then show ?thesis using c[OF False] by auto
    qed
    have kb: "\<forall>k \<in> set [0..<l]. rid_page (np_rids ?b2 ! k) \<in> dom ?B \<and> rid_page (np_rids ?b2 ! k) \<noteq> q"
      using ch by (simp del: nth_drop dom_fun_upd)
    have "triple (conf fd s0 h ?B {} G (length [0..<l] + r)) (forEach (map int [0..<l]) (maintain_child j))
        (\<lambda>_. conf fd s0 h (reparent q (map (\<lambda>k. rid_page (np_rids ?b2 ! k)) [0..<l]) ?B) {} G r)"
      by (rule run_children[where d = True and n = ?b2, OF j _ _ _ _ kb q]) (use b pq False all(3) in auto)
    then show ?thesis
      unfolding ix using False n(1) b(1) all(3) by (simp add: maintain_children_def upto_nats moved_half_def Let_def)
  qed
  have rk: "\<exists>v. read_keys h (int m) (int l) pb = Inr v \<and> l * nat (col_len h) \<le> length v \<and> arr v 0 (nat (col_len h)) l = drop m (np_keys n)"
    and rr: "\<exists>v. read_rids h (int m) (int l) pb = Inr v \<and> l * 8 \<le> length v \<and> map rid_of_bytes (arr v 0 8 l) = drop m (np_rids n)"
    if pb: "abs_page h pb = n" "ix_layout h" for pb
  proof -
    have ml: "m + l \<le> length (np_keys n)" "m + l \<le> length (np_rids n)" using lm n(3) by simp_all
    obtain ks where "read_keys h (int m) (int l) pb = Inr ks" "l * nat (col_len h) \<le> length ks"
      "arr ks 0 (nat (col_len h)) l = take l (drop m (np_keys n))"
      using abs_read_keys[OF pb(2,1) n(2) ml(1)] by blast
    then show "\<exists>v. read_keys h (int m) (int l) pb = Inr v \<and> l * nat (col_len h) \<le> length v \<and> arr v 0 (nat (col_len h)) l = drop m (np_keys n)"
      unfolding all(1) by blast
    obtain rs where "read_rids h (int m) (int l) pb = Inr rs" "l * 8 \<le> length rs"
      "map rid_of_bytes (arr rs 0 8 l) = take l (drop m (np_rids n))"
      using abs_read_rids[OF pb(2,1) n(2) ml(2)] by blast
    then show "\<exists>v. read_rids h (int m) (int l) pb = Inr v \<and> l * 8 \<le> length v \<and> map rid_of_bytes (arr v 0 8 l) = drop m (np_rids n)"
      unfolding all(2) by blast
  qed
  show ?thesis
    unfolding move_half_def Let_def
    apply (rule run_header[where p = p and d = True and n = n])
       apply (use i n in simp_all)[3]
    apply (simp only: np_header_sel n(3) split_index m[symmetric] lm(3))
    apply (rule run_read_ex[where p = p and d = True and n = n and
          P = "\<lambda>ks. l * nat (col_len h) \<le> length ks \<and> arr ks 0 (nat (col_len h)) l = drop m (np_keys n)"])
       apply (use i n in simp_all)[2]
     apply (rule rk; assumption)
    subgoal for ks
      apply (rule run_edit[where p = q and n = b and n' = ?b1])
         apply (use j b in simp_all)[2]
       apply (use abs_insert_keys[of h _ b 0 l ks] b lb in force)
      apply (rule run_read_ex[where p = p and d = True and n = n and
          P = "\<lambda>rs. l * 8 \<le> length rs \<and> map rid_of_bytes (arr rs 0 8 l) = drop m (np_rids n)"])
         apply (use i n pq in simp_all)[2]
       apply (rule rr; assumption)
      subgoal for rs
        apply (rule run_edit[where p = q and n = ?b1 and n' = ?b2])
           apply (use j b in simp_all)[2]
         apply (use abs_insert_rids[of h _ ?b1 0 l rs] b lb in force)
        apply (rule run_set[where p = p and n = n and n' = ?n1])
           apply (use i n pq in simp_all)[2]
         apply (use abs_cut[of h _ n m] n lm in force)
        apply (rule run_header[where p = q and d = True and n = ?b2])
           apply (use j b pq in simp_all)[3]
        apply (rule triple_bind)
         apply (use kids in \<open>simp add: fun_upd_twist[OF pq]\<close>)
        apply (rule triple_ret)
        apply simp
        done
      done
    done
qed

section \<open>The parent\<close>

definition linked :: "nat \<Rightarrow> int \<Rightarrow> byte list \<Rightarrow> npage \<Rightarrow> npage" where
  "linked x q k f = f\<lparr>np_keys := take x (np_keys f) @ k # drop x (np_keys f),
     np_rids := take (Suc x) (np_rids f) @ RecordID q (-1) # drop (Suc x) (np_rids f)\<rparr>"

definition tail_header :: "int \<Rightarrow> int \<Rightarrow> IndexFileHeader \<Rightarrow> IndexFileHeader" where
  "tail_header p q h = (if last_leaf h = p then h\<lparr>last_leaf := q\<rparr> else h)"

lemma tail_header_same: "ix_same_layout h (tail_header p q h)" "ix_num_pages (tail_header p q h) = ix_num_pages h"
  by (simp_all add: tail_header_def ix_same_layout_def)

lemma run_link_brother:
  assumes i: "(i, p, True) \<in> G" and j: "(j, q, True) \<in> G" and pq: "p \<noteq> q"
    and n: "A p = Some n" "np_ok n" "np_keys n \<noteq> []" "np_parent n = u" "length (last (np_keys n)) = nat (col_len h)"
    and f: "A u = Some f" "np_ok f" "u \<noteq> p" "u \<noteq> q" "map rid_page (np_rids f) = xs @ p # ys" "p \<notin> set xs"
      "length (np_keys f) = length (np_rids f)" "int (length (np_rids f)) \<le> btree_order h"
    and q: "1 \<le> q" "q \<le> 524288"
  shows "triple (conf fd s0 h A {} G (Suc r)) (link_brother i j (int (length (np_keys n))))
    (\<lambda>k. conf fd s0 (tail_header p q h) (A(u \<mapsto> linked (length xs) q (last (np_keys n)) f)) {(k, u, True)} G r)"
proof -
  let ?x = "length xs" and ?k = "last (np_keys n)"
  have x: "?x < length (np_rids f)" using arg_cong[OF f(5), of length] by simp
  let ?f1 = "f\<lparr>np_keys := take ?x (np_keys f) @ ?k # drop ?x (np_keys f)\<rparr>"
  have e: "int ?x + 1 = int (Suc ?x)" by simp
  show ?thesis
    unfolding link_brother_def
    apply (rule run_header[where p = p and d = True and n = n])
       apply (use i n in simp_all)[3]
    apply (simp only: np_header_sel n(4))
    apply (rule run_get)
     apply (use f in blast)
    subgoal for k
      apply (rule run_mark_new[where p = u and d = False])
       defer
       apply simp
      apply (rule run_page[where p = p and d = True])
       apply (use i in simp)
      apply (rule run_read[where p = u and d = True and n = f and v = "int ?x"])
         apply (use f in simp_all)[2]
       apply (rule abs_find_child[where n = f]; (assumption | rule f))
      apply (rule run_read[where p = p and d = True and n = n and v = ?k])
         apply (use i n in simp_all)[2]
       apply (rule abs_get_last; (assumption | rule n))
      apply (rule run_edit[where p = u and n = f and n' = ?f1])
         apply (use f in simp_all)[2]
       apply (rule abs_insert_key; (assumption | use f n x in simp))
      apply (rule run_page[where p = q and d = True])
       apply (use j in simp)
      apply (simp only: e)
      apply (rule run_edit[where p = u and n = ?f1 and n' = "linked ?x q ?k f"])
         apply (use f in simp_all)[2]
       subgoal for b
         using abs_insert_rid[of h b ?f1 "Suc ?x" "RecordID q (-1)"] f x q by (simp add: linked_def rid_ok_def page_no_ok)
      apply (rule run_upd_header)
        apply (simp_all add: tail_header_same[unfolded tail_header_def])[2]
      apply (rule triple_ret)
      apply (simp only: tail_header_def[symmetric])
      apply (erule conf_less)
         apply auto
      done
    done
qed

end
