(* ===== verification/BTreePath.thy ===== *)
theory BTreePath
  imports IndexSearch "HOL-Library.Multiset"
begin

text \<open>
  Paths in a B+ tree, as an update climbs them: a path is the list of the inner nodes from the parent of a
  node up to the root, each with its keys and the children to the left and to the right of the way down.
  Whatever is said of the whole tree is said of the path and of the node below it.
\<close>

type_synonym frame = "int \<times> byte list list \<times> bt list \<times> bt list"

fun plug :: "frame list \<Rightarrow> bt \<Rightarrow> bt" where
  "plug [] t = t"
| "plug ((p, ks, ls, rs) # fs) t = plug fs (Inner p ks (ls @ t # rs))"

fun up_page :: "frame list \<Rightarrow> int" where
  "up_page [] = NDX_NO_PAGE"
| "up_page ((p, ks, ls, rs) # fs) = p"

fun path_pages :: "frame list \<Rightarrow> int list" where
  "path_pages [] = []"
| "path_pages ((p, ks, ls, rs) # fs) = p # concat (map bt_pages (ls @ rs)) @ path_pages fs"

fun lefts :: "frame list \<Rightarrow> (int \<times> entry list) list" where
  "lefts [] = []"
| "lefts ((p, ks, ls, rs) # fs) = lefts fs @ concat (map bt_leaves ls)"

fun rights :: "frame list \<Rightarrow> (int \<times> entry list) list" where
  "rights [] = []"
| "rights ((p, ks, ls, rs) # fs) = concat (map bt_leaves rs) @ rights fs"

fun path_ok :: "frame list \<Rightarrow> byte list \<Rightarrow> bool" where
  "path_ok [] k = True"
| "path_ok ((p, ks, ls, rs) # fs) k \<longleftrightarrow> ks = map bt_last ls @ k # map bt_last rs \<and>
     (\<forall>c \<in> set ls \<union> set rs. bt_ok c) \<and> path_ok fs (last ks)"

fun path_level :: "nat \<Rightarrow> frame list \<Rightarrow> bool" where
  "path_level n [] = True"
| "path_level n ((p, ks, ls, rs) # fs) \<longleftrightarrow> (\<forall>c \<in> set ls \<union> set rs. bt_level n c) \<and> path_level (Suc n) fs"

fun path_fill :: "nat \<Rightarrow> nat \<Rightarrow> frame list \<Rightarrow> bool" where
  "path_fill lo hi [] = True"
| "path_fill lo hi ((p, ks, ls, rs) # fs) \<longleftrightarrow> (if fs = [] then 2 else lo) \<le> Suc (length ls + length rs) \<and>
     Suc (length ls + length rs) \<le> hi \<and> (\<forall>c \<in> set ls \<union> set rs. bt_fill lo hi c) \<and> path_fill lo hi fs"

section \<open>The whole tree\<close>

lemma plug_append: "plug (fs @ gs) t = plug gs (plug fs t)"
  by (induction fs t rule: plug.induct) simp_all

lemma lefts_append: "lefts (fs @ gs) = lefts gs @ lefts fs"
  by (induction fs rule: lefts.induct) simp_all

lemma rights_append: "rights (fs @ gs) = rights fs @ rights gs"
  by (induction fs rule: rights.induct) simp_all

lemma pages_plug: "mset (bt_pages (plug fs t)) = mset (path_pages fs) + mset (bt_pages t)"
  by (induction fs t rule: plug.induct) (simp_all add: ac_simps)

lemma set_pages_plug: "set (bt_pages (plug fs t)) = set (path_pages fs) \<union> set (bt_pages t)"
  using arg_cong[OF pages_plug[of fs t], of set_mset] by simp

lemma distinct_plug: "distinct (bt_pages (plug fs t)) \<longleftrightarrow> distinct (path_pages fs @ bt_pages t)"
  by (rule mset_eq_imp_distinct_iff) (simp add: pages_plug)

lemma leaves_plug: "bt_leaves (plug fs t) = lefts fs @ bt_leaves t @ rights fs"
  by (induction fs t rule: plug.induct) simp_all

lemma ok_plug: "bt_ok (plug fs t) \<longleftrightarrow> path_ok fs (bt_last t) \<and> bt_ok t"
  by (induction fs t rule: plug.induct) auto

lemma level_plug: "bt_level n (plug fs t) \<longleftrightarrow> (\<exists>m. n = m + length fs \<and> bt_level m t \<and> path_level m fs)"
proof (induction fs t arbitrary: n rule: plug.induct)
  case (2 p ks ls rs fs t)
  show ?case
  proof
    assume "bt_level n (plug ((p, ks, ls, rs) # fs) t)"
    then obtain m where m: "n = m + length fs" "0 < m" "\<forall>c \<in> set ls \<union> set rs. bt_level (m - 1) c" "bt_level (m - 1) t" "path_level m fs"
      using "2.IH"[of n] by auto
    then show "\<exists>m. n = m + length ((p, ks, ls, rs) # fs) \<and> bt_level m t \<and> path_level m ((p, ks, ls, rs) # fs)"
      by (intro exI[of _ "m - 1"]) auto
  next
    assume "\<exists>m. n = m + length ((p, ks, ls, rs) # fs) \<and> bt_level m t \<and> path_level m ((p, ks, ls, rs) # fs)"
    then obtain m where m: "n = Suc m + length fs" "bt_level m t" "\<forall>c \<in> set ls \<union> set rs. bt_level m c" "path_level (Suc m) fs"
      by auto
    then have "bt_level (Suc m) (Inner p ks (ls @ t # rs))" by auto
    then show "bt_level n (plug ((p, ks, ls, rs) # fs) t)" using m "2.IH"[of n] by auto
  qed
qed simp

lemma fill_plug: "fs \<noteq> [] \<Longrightarrow> bt_root_fill lo hi (plug fs t) \<longleftrightarrow> path_fill lo hi fs \<and> bt_fill lo hi t"
proof (induction fs t rule: plug.induct)
  case (2 p ks ls rs fs t)
  show ?case
  proof (cases "fs = []")
    case True
    then show ?thesis by auto
  next
    case False
    then show ?thesis using "2.IH" by auto
  qed
qed simp

lemma plug_root: "fs \<noteq> [] \<Longrightarrow> bt_page (plug fs t) = fst (last fs)"
proof (induction fs t rule: plug.induct)
  case (2 p ks ls rs fs t)
  then show ?case by (cases "fs = []") simp_all
qed simp

lemma plug_page: "fs \<noteq> [] \<Longrightarrow> bt_page (plug fs t) = bt_page (plug fs u)"
  by (simp add: plug_root)

lemma plug_not_leaf: "fs \<noteq> [] \<Longrightarrow> plug fs t \<noteq> Leaf p es"
proof (induction fs t rule: plug.induct)
  case (2 q ks ls rs fs t)
  then show ?case by (cases "fs = []") simp_all
qed simp

section \<open>The way to a leaf\<close>

lemma concat_split:
  assumes "concat xss = ys @ z # zs"
  obtains as bs cs ds where "xss = as @ (bs @ z # cs) # ds" "ys = concat as @ bs" "zs = cs @ concat ds"
  using assms
proof (induction xss arbitrary: ys thesis)
  case (Cons xs xss)
  from Cons.prems(2) have "xs @ concat xss = ys @ z # zs" by simp
  then consider us where "xs = ys @ us" "us @ concat xss = z # zs" | us where "xs @ us = ys" "concat xss = us @ z # zs"
    unfolding append_eq_append_conv2 by blast
  then show ?case
  proof cases
    case 1
    show ?thesis
    proof (cases us)
      case Nil
      obtain as bs cs ds where r: "xss = as @ (bs @ z # cs) # ds" "[] = concat as @ bs" "zs = cs @ concat ds"
        using Cons.IH[of "[]"] 1(2) Nil by auto
      show ?thesis by (rule Cons.prems(1)[of "xs # as" bs cs ds]) (use r 1 Nil in auto)
    next
      case (Cons u us')
      show ?thesis by (rule Cons.prems(1)[of "[]" ys us' xss]) (use 1 Cons in auto)
    qed
  next
    case 2
    obtain as bs cs ds where r: "xss = as @ (bs @ z # cs) # ds" "us = concat as @ bs" "zs = cs @ concat ds"
      using Cons.IH[OF _ 2(2)] by blast
    show ?thesis by (rule Cons.prems(1)[of "xs # as" bs cs ds]) (use r 2 in auto)
  qed
qed simp

lemma leaf_path:
  "bt_leaves t = xs @ (p, es) # ys \<Longrightarrow> \<exists>fs. t = plug fs (Leaf p es) \<and> lefts fs = xs \<and> rights fs = ys"
proof (induction t arbitrary: xs ys)
  case (Leaf q fs)
  then have "xs = []" "ys = []" "q = p" "fs = es" by (simp_all add: Cons_eq_append_conv)
  then show ?case by (intro exI[of _ "[]"]) simp
next
  case (Inner q ks cs)
  have "concat (map bt_leaves cs) = xs @ (p, es) # ys" using Inner.prems by simp
  then obtain as bs cs' ds where s: "map bt_leaves cs = as @ (bs @ (p, es) # cs') # ds" "xs = concat as @ bs" "ys = cs' @ concat ds"
    by (rule concat_split)
  from s(1) obtain ls c rs where c: "cs = ls @ c # rs" "map bt_leaves ls = as" "bt_leaves c = bs @ (p, es) # cs'" "map bt_leaves rs = ds"
    by (auto simp: map_eq_append_conv Cons_eq_map_conv map_eq_Cons_conv)
  have "c \<in> set cs" using c(1) by simp
  from Inner.IH[OF this c(3)] obtain fs where fs: "c = plug fs (Leaf p es)" "lefts fs = bs" "rights fs = cs'" by blast
  show ?case
    by (intro exI[of _ "fs @ [(q, ks, ls, rs)]"])
      (use c fs s in \<open>simp add: plug_append lefts_append rights_append\<close>)
qed

section \<open>How high a tree is\<close>

lemma fill_pages: "bt_level n t \<Longrightarrow> bt_fill lo hi t \<Longrightarrow> 2 \<le> lo \<Longrightarrow> 2 ^ n \<le> length (bt_pages t)"
proof (induction t arbitrary: n)
  case (Inner p ks cs)
  then obtain m where m: "n = Suc m" by (cases n) simp_all
  have c: "2 ^ m \<le> length (bt_pages c)" if "c \<in> set cs" for c
    using Inner.IH[OF that, of m] Inner.prems m that by simp
  have "length cs * 2 ^ m \<le> length (concat (map bt_pages cs))"
    using c by (induction cs) (auto intro: add_mono)
  moreover have "2 * 2 ^ m \<le> length cs * (2 :: nat) ^ m" using Inner.prems(2,3) by (intro mult_le_mono1) simp
  ultimately show ?case unfolding m power_Suc bt_pages.simps length_Cons by linarith
qed simp

lemma root_fill_pages: "bt_level n t \<Longrightarrow> bt_root_fill lo hi t \<Longrightarrow> 2 \<le> lo \<Longrightarrow> 2 ^ n \<le> length (bt_pages t)"
proof (cases t)
  case (Inner p ks cs)
  assume a: "bt_level n t" "bt_root_fill lo hi t" "2 \<le> lo"
  then obtain m where m: "n = Suc m" using Inner by (cases n) simp_all
  have c: "2 ^ m \<le> length (bt_pages c)" if "c \<in> set cs" for c
    using fill_pages[of m c lo hi] a Inner m that by simp
  have "length cs * 2 ^ m \<le> length (concat (map bt_pages cs))"
    using c by (induction cs) (auto intro: add_mono)
  moreover have "2 * 2 ^ m \<le> length cs * (2 :: nat) ^ m" using a(2) Inner by (intro mult_le_mono1) simp
  ultimately show ?thesis unfolding m Inner power_Suc bt_pages.simps length_Cons by linarith
qed simp

end
