(* ===== verification/IndexRep.thy ===== *)
theory IndexRep
  imports IndexSplit BTreePath
begin

text \<open>
  The tree, the list of leaves and the list of free pages over page records: \<open>arep\<close>, \<open>achain\<close> and
  \<open>afree\<close> say of the records what \<open>bt_rep\<close>, \<open>leaf_chain\<close> and \<open>ix_free_list\<close> say of the bytes.
\<close>

section \<open>The tree\<close>

definition leaf_at :: "(int \<rightharpoonup> npage) \<Rightarrow> int \<Rightarrow> int \<Rightarrow> entry list \<Rightarrow> bool" where
  "leaf_at A p pa es \<longleftrightarrow> (\<exists>n. A p = Some n \<and> np_ok n \<and> np_leaf n \<and> np_parent n = pa \<and>
     np_keys n = map fst es \<and> np_rids n = map snd es)"

definition inner_at :: "(int \<rightharpoonup> npage) \<Rightarrow> int \<Rightarrow> int \<Rightarrow> byte list list \<Rightarrow> int list \<Rightarrow> bool" where
  "inner_at A p pa ks qs \<longleftrightarrow> (\<exists>n. A p = Some n \<and> np_ok n \<and> \<not> np_leaf n \<and> np_parent n = pa \<and>
     np_keys n = ks \<and> map rid_page (np_rids n) = qs \<and> length ks = length qs)"

fun arep :: "(int \<rightharpoonup> npage) \<Rightarrow> int \<Rightarrow> bt \<Rightarrow> bool" where
  "arep A pa (Leaf p es) \<longleftrightarrow> leaf_at A p pa es"
| "arep A pa (Inner p ks cs) \<longleftrightarrow> inner_at A p pa ks (map bt_page cs) \<and> (\<forall>c \<in> set cs. arep A p c)"

fun path_rep :: "(int \<rightharpoonup> npage) \<Rightarrow> frame list \<Rightarrow> int \<Rightarrow> bool" where
  "path_rep A [] q = True"
| "path_rep A ((p, ks, ls, rs) # fs) q \<longleftrightarrow> inner_at A p (up_page fs) ks (map bt_page ls @ q # map bt_page rs) \<and>
     (\<forall>c \<in> set ls \<union> set rs. arep A p c) \<and> path_rep A fs p"

lemma rep_plug: "arep A NDX_NO_PAGE (plug fs t) \<longleftrightarrow> path_rep A fs (bt_page t) \<and> arep A (up_page fs) t"
  by (induction fs t rule: plug.induct) auto

lemma node_is_abs:
  "node_is h l pa b \<longleftrightarrow> np_ok (abs_page h b) \<and> np_leaf (abs_page h b) = l \<and> np_parent (abs_page h b) = pa \<and>
     length (np_keys (abs_page h b)) = length (np_rids (abs_page h b))"
  using num_key_keys[of h b] num_child_rids[of h b] by (auto simp: node_is_def)

lemma bt_rep_abs: "bt_rep h V pa t \<longleftrightarrow> arep (npages h V) pa t"
proof (induction t arbitrary: pa)
  case (Leaf p es)
  show ?case by (cases "V p") (auto simp: leaf_at_def npages_def node_is_abs dest: arg_cong[of _ _ length])
next
  case (Inner p ks cs)
  have "(\<forall>c \<in> set cs. bt_rep h V p c) \<longleftrightarrow> (\<forall>c \<in> set cs. arep (npages h V) p c)" using Inner.IH by blast
  then show ?case by (cases "V p") (auto simp: inner_at_def npages_def node_is_abs dest: arg_cong[of _ _ length])
qed

text \<open>Trees do not depend on the links.\<close>

definition strip :: "npage \<Rightarrow> npage" where
  "strip n = n\<lparr>np_prev := 0, np_next := 0, np_free := 0\<rparr>"

definition nodes_agree :: "int set \<Rightarrow> (int \<rightharpoonup> npage) \<Rightarrow> (int \<rightharpoonup> npage) \<Rightarrow> bool" where
  "nodes_agree S A B \<longleftrightarrow> (\<forall>p \<in> S. map_option strip (A p) = map_option strip (B p))"

lemma strip_eq:
  "strip m = strip n \<longleftrightarrow> np_ok m = np_ok n \<and> np_leaf m = np_leaf n \<and> np_parent m = np_parent n \<and>
     np_keys m = np_keys n \<and> np_rids m = np_rids n"
  by (cases m; cases n) (auto simp: strip_def)

lemma agree_Some: "map_option strip (A p) = map_option strip (B p) \<Longrightarrow> A p = Some n \<Longrightarrow> \<exists>m. B p = Some m \<and> strip m = strip n"
  by (cases "B p") auto

lemma leaf_at_cong: "map_option strip (A p) = map_option strip (B p) \<Longrightarrow> leaf_at A p pa es \<Longrightarrow> leaf_at B p pa es"
  by (cases "B p") (auto simp: leaf_at_def strip_eq)

lemma inner_at_cong: "map_option strip (A p) = map_option strip (B p) \<Longrightarrow> inner_at A p pa ks qs \<Longrightarrow> inner_at B p pa ks qs"
  by (cases "B p") (auto simp: inner_at_def strip_eq)

lemma arep_cong: "nodes_agree (set (bt_pages t)) A B \<Longrightarrow> arep A pa t \<Longrightarrow> arep B pa t"
proof (induction t arbitrary: pa)
  case (Leaf p es)
  then show ?case using leaf_at_cong[of A p B] by (simp add: nodes_agree_def)
next
  case (Inner p ks cs)
  have "arep B p c" if "c \<in> set cs" for c
    using Inner.IH[OF that] Inner.prems that by (auto simp: nodes_agree_def)
  then show ?case using inner_at_cong[of A p B] Inner.prems by (simp add: nodes_agree_def)
qed

lemma path_rep_cong: "nodes_agree (set (path_pages fs)) A B \<Longrightarrow> path_rep A fs q \<Longrightarrow> path_rep B fs q"
proof (induction fs arbitrary: q rule: path_pages.induct)
  case (2 p ks ls rs fs)
  have "arep B p c" if "c \<in> set ls \<union> set rs" for c
    using arep_cong[of c A B p] 2(2,3) that by (auto simp: nodes_agree_def)
  moreover have "path_rep B fs p" using 2 by (auto simp: nodes_agree_def)
  ultimately show ?case using inner_at_cong[of A p B] 2(2,3) by (simp add: nodes_agree_def)
qed simp

text \<open>A subtree under another parent.\<close>

lemma arep_parent:
  assumes "arep A pa t" "nodes_agree (set (bt_pages t) - {bt_page t}) A B" "distinct (bt_pages t)"
    and "A (bt_page t) = Some n" "B (bt_page t) = Some m" "strip m = strip (n\<lparr>np_parent := q\<rparr>)"
  shows "arep B q t"
proof (cases t)
  case (Leaf p es)
  then show ?thesis using assms by (auto simp: leaf_at_def strip_eq)
next
  case (Inner p ks cs)
  have "arep B p c" if c: "c \<in> set cs" for c
  proof (rule arep_cong)
    show "arep A p c" using assms(1) Inner c by simp
    show "nodes_agree (set (bt_pages c)) A B" using assms(2,3) Inner c by (auto simp: nodes_agree_def)
  qed
  then show ?thesis using assms Inner by (auto simp: inner_at_def strip_eq)
qed

section \<open>The list of leaves\<close>

definition next_of :: "int list \<Rightarrow> int" where
  "next_of ps = (case ps of [] \<Rightarrow> NDX_LEAF_HEADER_PAGE | q # _ \<Rightarrow> q)"

lemma next_of_simps [simp]: "next_of [] = NDX_LEAF_HEADER_PAGE" "next_of (p # ps) = p"
  by (simp_all add: next_of_def)

lemma next_of_append: "next_of (xs @ p # ys) = next_of (xs @ [p])"
  by (cases xs) simp_all

fun achain :: "(int \<rightharpoonup> npage) \<Rightarrow> int \<Rightarrow> int list \<Rightarrow> bool" where
  "achain A prev [] \<longleftrightarrow> (\<exists>n. A NDX_LEAF_HEADER_PAGE = Some n \<and> np_leaf n \<and> np_prev n = prev)"
| "achain A prev (p # ps) \<longleftrightarrow> (\<exists>n. A p = Some n \<and> np_prev n = prev \<and> np_next n = next_of ps) \<and> achain A p ps"

lemma leaf_chain_abs: "leaf_chain V prev ps \<longleftrightarrow> achain (npages h V) prev ps"
proof (induction ps arbitrary: prev)
  case Nil
  show ?case by (cases "V NDX_LEAF_HEADER_PAGE") (auto simp: npages_def)
next
  case (Cons p ps)
  then show ?case by (cases "V p") (auto simp: npages_def next_of_def)
qed

definition links :: "npage option \<Rightarrow> (bool \<times> int \<times> int) option" where
  "links = map_option (\<lambda>n. (np_leaf n, np_prev n, np_next n))"

lemma links_Some: "links (A p) = Some (l, a, b) \<longleftrightarrow> (\<exists>n. A p = Some n \<and> np_leaf n = l \<and> np_prev n = a \<and> np_next n = b)"
  by (cases "A p") (auto simp: links_def)

lemma achain_cong: "(\<And>p. p \<in> insert NDX_LEAF_HEADER_PAGE (set ps) \<Longrightarrow> links (A p) = links (B p)) \<Longrightarrow> achain A prev ps \<Longrightarrow> achain B prev ps"
proof (induction ps arbitrary: prev)
  case Nil
  have "links (A NDX_LEAF_HEADER_PAGE) = links (B NDX_LEAF_HEADER_PAGE)" by (rule Nil.prems(1)) simp
  then show ?case using Nil.prems(2) by (cases "B NDX_LEAF_HEADER_PAGE") (auto simp: links_def)
next
  case (Cons p ps)
  have "links (A p) = links (B p)" by (rule Cons.prems(1)) simp
  moreover have "achain B p ps" using Cons.prems by (intro Cons.IH) auto
  ultimately show ?case using Cons.prems(2) by (cases "B p") (auto simp: links_def)
qed

lemma achain_links:
  "achain A prev (xs @ p # ys) \<Longrightarrow> (\<exists>n. A p = Some n \<and> np_prev n = last (prev # xs) \<and> np_next n = next_of ys) \<and> achain A p ys"
  by (induction xs arbitrary: prev) auto

lemma achain_next:
  "achain A prev ys \<Longrightarrow> \<exists>n. A (next_of ys) = Some n \<and> np_prev n = prev"
  by (cases ys) auto

text \<open>A leaf \<open>q\<close> enters behind \<open>p\<close>.\<close>

lemma achain_insert:
  assumes "achain A prev (xs @ p # ys)" "distinct (NDX_LEAF_HEADER_PAGE # xs @ p # ys)"
    and "q \<notin> set (NDX_LEAF_HEADER_PAGE # xs @ p # ys)"
    and same: "\<And>y. y \<in> set (NDX_LEAF_HEADER_PAGE # xs @ p # ys) - {p, next_of ys} \<Longrightarrow> links (B y) = links (A y)"
    and p: "A p = Some n" "B p = Some n'" "np_prev n' = np_prev n" "np_next n' = q"
    and q: "B q = Some b" "np_prev b = p" "np_next b = next_of ys"
    and x: "A (next_of ys) = Some m" "B (next_of ys) = Some m'" "np_leaf m' = np_leaf m" "np_prev m' = q" "np_next m' = np_next m"
  shows "achain B prev (xs @ p # q # ys)"
  using assms(1-3) same
proof (induction xs arbitrary: prev)
  case Nil
  have "achain B q ys"
  proof (cases ys)
    case Nil
    then show ?thesis using x Nil.prems(1) by simp
  next
    case (Cons y zs)
    have "achain B y zs"
    proof (rule achain_cong)
      show "achain A y zs" using Nil.prems(1) Cons by simp
      show "links (A z) = links (B z)" if "z \<in> insert NDX_LEAF_HEADER_PAGE (set zs)" for z
      proof -
        have "z \<noteq> p" "z \<noteq> y" using that Nil.prems(2) Cons by auto
        then have "z \<in> set (NDX_LEAF_HEADER_PAGE # [] @ p # ys) - {p, next_of ys}" using that Cons by auto
        then show ?thesis by (rule Nil.prems(4)[symmetric])
      qed
    qed
    then show ?thesis using x Nil.prems(1) Cons by simp
  qed
  then show ?case using p q Nil.prems(1) by simp
next
  case (Cons a xs)
  have "next_of ys \<noteq> a" using Cons.prems(2) by (cases ys) auto
  then have "links (B a) = links (A a)" using Cons.prems(2) by (intro Cons.prems(4)) auto
  moreover have "achain B a (xs @ p # q # ys)"
    by (rule Cons.IH) (use Cons.prems in auto)
  moreover have "next_of (xs @ p # q # ys) = next_of (xs @ p # ys)" by (cases xs) simp_all
  ultimately show ?case using Cons.prems(1) by (cases "B a") (auto simp: links_def)
qed

section \<open>The free pages\<close>

fun afree :: "(int \<rightharpoonup> npage) \<Rightarrow> int \<Rightarrow> int list \<Rightarrow> bool" where
  "afree A p [] \<longleftrightarrow> p = NDX_NO_PAGE"
| "afree A p (q # qs) \<longleftrightarrow> p = q \<and> (\<exists>n. A q = Some n \<and> afree A (np_free n) qs)"

lemma ix_free_abs: "ix_free_list V p qs \<longleftrightarrow> afree (npages h V) p qs"
proof (induction qs arbitrary: p)
  case (Cons q qs)
  then show ?case by (cases "V q") (auto simp: npages_def)
qed simp

lemma afree_cong: "(\<And>p. p \<in> set qs \<Longrightarrow> map_option np_free (A p) = map_option np_free (B p)) \<Longrightarrow> afree A p qs \<Longrightarrow> afree B p qs"
proof (induction qs arbitrary: p)
  case (Cons q qs)
  have "map_option np_free (A q) = map_option np_free (B q)" by (rule Cons.prems(1)) simp
  moreover obtain n where n: "p = q" "A q = Some n" "afree A (np_free n) qs" using Cons.prems(2) by auto
  ultimately obtain m where "B q = Some m" "np_free m = np_free n" by (cases "B q") auto
  moreover have "afree B (np_free n) qs" using Cons.prems(1) n(3) by (intro Cons.IH) auto
  ultimately show ?case using n(1) by simp
qed simp

text \<open>\<open>S\<close> is the set of pages in use.\<close>

definition free_ok :: "IndexFileHeader \<Rightarrow> (int \<rightharpoonup> npage) \<Rightarrow> int set \<Rightarrow> bool" where
  "free_ok h A S \<longleftrightarrow> (\<exists>fs. afree A (ix_first_free h) fs \<and> distinct fs \<and> set fs \<inter> S = {} \<and>
     set fs \<union> S = {NDX_INIT_ROOT_PAGE..<ix_num_pages h})"

lemma free_ok_cong:
  assumes "free_ok h A S" "\<And>p. p \<in> {NDX_INIT_ROOT_PAGE..<ix_num_pages h} - S \<Longrightarrow> map_option np_free (A p) = map_option np_free (B p)"
    and "ix_first_free g = ix_first_free h" "ix_num_pages g = ix_num_pages h"
  shows "free_ok g B S"
proof -
  obtain fs where fs: "afree A (ix_first_free h) fs" "distinct fs" "set fs \<inter> S = {}" "set fs \<union> S = {NDX_INIT_ROOT_PAGE..<ix_num_pages h}"
    using assms(1) by (auto simp: free_ok_def)
  have "afree B (ix_first_free h) fs" by (rule afree_cong[OF assms(2) fs(1)]) (use fs(3,4) in auto)
  then show ?thesis using fs(2-4) assms(3,4) by (auto simp: free_ok_def)
qed

lemma free_ok_new:
  assumes f: "free_ok h A S" and n: "ix_num_pages h < 524288" "NDX_INIT_ROOT_PAGE \<le> ix_num_pages h"
  shows "can_grow h A" "new_page h \<notin> S" "free_ok (new_header A h) A (insert (new_page h) S)" "NDX_INIT_ROOT_PAGE \<le> new_page h"
proof -
  obtain fs where fs: "afree A (ix_first_free h) fs" "distinct fs" "set fs \<inter> S = {}" "set fs \<union> S = {NDX_INIT_ROOT_PAGE..<ix_num_pages h}"
    using f by (auto simp: free_ok_def)
  have "can_grow h A \<and> new_page h \<notin> S \<and> free_ok (new_header A h) A (insert (new_page h) S) \<and> NDX_INIT_ROOT_PAGE \<le> new_page h"
  proof (cases "ix_first_free h = NDX_NO_PAGE")
    case True
    have "fs = []"
    proof (cases fs)
      case (Cons q qs)
      then have "q = NDX_NO_PAGE" "q \<in> {NDX_INIT_ROOT_PAGE..<ix_num_pages h}" using fs(1,4) True by auto
      then show ?thesis by (simp add: NDX_NO_PAGE_def NDX_INIT_ROOT_PAGE_def)
    qed simp
    then have S: "S = {NDX_INIT_ROOT_PAGE..<ix_num_pages h}" using fs(4) by simp
    have "{NDX_INIT_ROOT_PAGE..<ix_num_pages h + 1} = insert (ix_num_pages h) S" using S n(2) by auto
    then have "free_ok (new_header A h) A (insert (new_page h) S)"
      unfolding free_ok_def by (intro exI[of _ "[]"]) (simp add: True new_header_def new_page_def)
    then show ?thesis using True S n by (simp add: can_grow_def new_header_def new_page_def NDX_INIT_ROOT_PAGE_def)
  next
    case False
    obtain q qs m where q: "fs = q # qs" "ix_first_free h = q" "A q = Some m" "afree A (np_free m) qs"
      using fs(1) False by (cases fs) auto
    have r: "q \<in> {NDX_INIT_ROOT_PAGE..<ix_num_pages h}" "q \<notin> S" using fs(3,4) q(1) by auto
    have "free_ok (new_header A h) A (insert (new_page h) S)"
      unfolding free_ok_def
      by (intro exI[of _ qs]) (use fs q False in \<open>auto simp: new_header_def new_page_def\<close>)
    then show ?thesis using False q r n by (auto simp: can_grow_def new_header_def new_page_def NDX_INIT_ROOT_PAGE_def)
  qed
  then show "can_grow h A" "new_page h \<notin> S" "free_ok (new_header A h) A (insert (new_page h) S)" "NDX_INIT_ROOT_PAGE \<le> new_page h"
    by blast+
qed

end
