(* ===== verification/IndexGrow.thy ===== *)
theory IndexGrow
  imports IndexRep
begin

text \<open>
  A node that has become too full is split: the tree before and after, and that the pages the blocks of
  \<open>solve_overflow\<close> write represent the new tree.
\<close>

section \<open>Splitting a node\<close>

fun node_size :: "bt \<Rightarrow> nat" where
  "node_size (Leaf p es) = length es"
| "node_size (Inner p ks cs) = length cs"

fun split_left :: "nat \<Rightarrow> bt \<Rightarrow> bt" where
  "split_left m (Leaf p es) = Leaf p (take m es)"
| "split_left m (Inner p ks cs) = Inner p (take m ks) (take m cs)"

fun split_right :: "nat \<Rightarrow> int \<Rightarrow> bt \<Rightarrow> bt" where
  "split_right m q (Leaf p es) = Leaf q (drop m es)"
| "split_right m q (Inner p ks cs) = Inner q (drop m ks) (drop m cs)"

fun moved_kids :: "nat \<Rightarrow> bt \<Rightarrow> bt list" where
  "moved_kids m (Leaf p es) = []"
| "moved_kids m (Inner p ks cs) = drop m cs"

fun is_leaf_tree :: "bt \<Rightarrow> bool" where
  "is_leaf_tree (Leaf p es) = True"
| "is_leaf_tree (Inner p ks cs) = False"

definition raised :: "frame \<Rightarrow> bt \<Rightarrow> bt \<Rightarrow> bt" where
  "raised f l r = (case f of (u, ks, ls, rs) \<Rightarrow>
     Inner u (take (length ls) ks @ bt_last l # drop (length ls) ks) (ls @ l # r # rs))"

lemma split_pages [simp]: "bt_page (split_left m t) = bt_page t" "bt_page (split_right m q t) = q"
  by (cases t; simp)+

lemma mset_take_drop: "mset (take m xs) + mset (drop m xs) = mset xs"
  by (metis append_take_drop_id mset_append)

lemma split_all_pages: "mset (bt_pages (split_left m t)) + mset (bt_pages (split_right m q t)) = add_mset q (mset (bt_pages t))"
proof (cases t)
  case (Inner p ks cs)
  have "mset (concat (map bt_pages (take m cs))) + mset (concat (map bt_pages (drop m cs))) = mset (concat (map bt_pages cs))"
    by (metis append_take_drop_id concat_append map_append mset_append)
  then show ?thesis using Inner by simp
qed simp

lemma split_ok:
  assumes "bt_ok t" "0 < m" "m < node_size t"
  shows "bt_ok (split_left m t)" "bt_ok (split_right m q t)" "bt_last (split_right m q t) = bt_last t"
proof -
  show "bt_ok (split_left m t)" using assms by (cases t) (auto simp: take_map dest: in_set_takeD)
  show "bt_ok (split_right m q t)" using assms by (cases t) (auto simp: drop_map dest: in_set_dropD)
  show "bt_last (split_right m q t) = bt_last t"
    using assms by (cases t) (simp_all add: last_drop)
qed

lemma split_level: "bt_level n t \<Longrightarrow> bt_level n (split_left m t) \<and> bt_level n (split_right m q t)"
  by (cases t) (auto dest: in_set_takeD in_set_dropD)

lemma split_entries: "leaf_entries (bt_leaves (split_left m t) @ bt_leaves (split_right m q t)) = bt_entries t"
proof (cases t)
  case (Inner p ks cs)
  have "concat (map bt_leaves (take m cs)) @ concat (map bt_leaves (drop m cs)) = concat (map bt_leaves cs)"
    by (metis append_take_drop_id concat_append map_append)
  then show ?thesis using Inner by (simp add: bt_entries_def leaf_entries_append[symmetric] del: leaf_entries_append)
qed (simp add: bt_entries_def)

lemma split_leaf_pages:
  "map fst (bt_leaves (split_left m t) @ bt_leaves (split_right m q t)) =
    (if is_leaf_tree t then [bt_page t, q] else map fst (bt_leaves t))"
proof (cases t)
  case (Inner p ks cs)
  have "concat (map bt_leaves (take m cs)) @ concat (map bt_leaves (drop m cs)) = concat (map bt_leaves cs)"
    by (metis append_take_drop_id concat_append map_append)
  then show ?thesis using Inner by (simp add: map_append[symmetric] del: map_append)
qed simp

section \<open>The raised tree\<close>

lemma raised_page [simp]: "bt_page (raised (u, ks, ls, rs) l r) = u"
  by (simp add: raised_def)

lemma raised_ok:
  assumes "path_ok ((u, ks, ls, rs) # fs) (bt_last t)" "bt_ok l" "bt_ok r" "bt_last r = bt_last t"
  shows "bt_ok (raised (u, ks, ls, rs) l r)" "path_ok fs (bt_last (raised (u, ks, ls, rs) l r))"
  using assms by (auto simp: raised_def last_append)

lemma raised_level:
  assumes "path_level n ((u, ks, ls, rs) # fs)" "bt_level n l" "bt_level n r"
  shows "bt_level (Suc n) (raised (u, ks, ls, rs) l r)" "path_level (Suc n) fs"
  using assms by (auto simp: raised_def)

lemma raised_leaves: "bt_leaves (plug fs (raised (u, ks, ls, rs) l r)) =
  lefts ((u, ks, ls, rs) # fs) @ (bt_leaves l @ bt_leaves r) @ rights ((u, ks, ls, rs) # fs)"
  by (simp add: leaves_plug raised_def)

lemma raised_pages: "mset (bt_pages (plug fs (raised (u, ks, ls, rs) l r))) =
  mset (path_pages ((u, ks, ls, rs) # fs)) + (mset (bt_pages l) + mset (bt_pages r))"
  by (simp add: pages_plug raised_def)

text \<open>How full the nodes may be while the overflow is solved: only the node in focus has one too many.\<close>

fun kids_fill :: "nat \<Rightarrow> nat \<Rightarrow> bt \<Rightarrow> bool" where
  "kids_fill lo hi (Leaf p es) = True"
| "kids_fill lo hi (Inner p ks cs) \<longleftrightarrow> (\<forall>c \<in> set cs. bt_fill lo hi c)"

definition bulge :: "nat \<Rightarrow> nat \<Rightarrow> frame list \<Rightarrow> bt \<Rightarrow> bool" where
  "bulge lo hi fs t \<longleftrightarrow> path_fill lo hi fs \<and> kids_fill lo hi t \<and> node_size t \<le> Suc hi \<and>
     (if fs \<noteq> [] then lo else if is_leaf_tree t then 0 else 2) \<le> node_size t"

lemma fill_kids: "bt_fill lo hi t \<longleftrightarrow> lo \<le> node_size t \<and> node_size t \<le> hi \<and> kids_fill lo hi t"
  by (cases t) auto

lemma root_fill_kids: "bt_root_fill lo hi t \<longleftrightarrow> (if is_leaf_tree t then 0 else 2) \<le> node_size t \<and> node_size t \<le> hi \<and> kids_fill lo hi t"
  by (cases t) auto

lemma bulge_done: "bulge lo hi fs t \<Longrightarrow> node_size t \<le> hi \<Longrightarrow> bt_root_fill lo hi (plug fs t)"
  by (cases "fs = []") (auto simp: bulge_def fill_plug fill_kids root_fill_kids[of lo hi t])

lemma split_fill:
  assumes "kids_fill lo hi t" "node_size t = Suc hi" "m = Suc hi div 2" "lo = Suc hi div 2" "2 < hi"
  shows "bt_fill lo hi (split_left m t)" "bt_fill lo hi (split_right m q t)"
proof -
  have n: "m \<le> Suc hi" "m \<le> hi" "Suc hi - m \<le> hi" "m \<le> Suc hi - m" "0 < m" using assms(3,5) by linarith+
  have s: "node_size (split_left m t) = m" "node_size (split_right m q t) = Suc hi - m" using assms(2) n by (cases t; simp)+
  have k: "kids_fill lo hi (split_left m t)" "kids_fill lo hi (split_right m q t)"
    using assms(1) by (cases t; auto dest: in_set_takeD in_set_dropD)+
  show "bt_fill lo hi (split_left m t)" "bt_fill lo hi (split_right m q t)"
    unfolding fill_kids s using k n assms(3,4) by simp_all
qed

lemma bulge_raised:
  assumes "path_fill lo hi fs" "\<forall>c \<in> set ls \<union> set rs. bt_fill lo hi c" "fs \<noteq> [] \<Longrightarrow> lo \<le> Suc (length ls + length rs)"
    and "Suc (length ls + length rs) \<le> hi" "bt_fill lo hi l" "bt_fill lo hi r"
  shows "bulge lo hi fs (raised (u, ks, ls, rs) l r)"
proof -
  have "kids_fill lo hi (raised (u, ks, ls, rs) l r)" using assms by (auto simp: raised_def)
  moreover have "node_size (raised (u, ks, ls, rs) l r) = Suc (Suc (length ls + length rs))" by (simp add: raised_def)
  moreover have "\<not> is_leaf_tree (raised (u, ks, ls, rs) l r)" by (simp add: raised_def)
  ultimately show ?thesis using assms(1,3,4) unfolding bulge_def by (cases "fs = []") auto
qed

section \<open>The pages of the split tree\<close>

text \<open>What the records of the pages have become, up to the links.\<close>

definition cut_page :: "(byte list list \<Rightarrow> byte list list) \<Rightarrow> (RecordID list \<Rightarrow> RecordID list) \<Rightarrow> npage \<Rightarrow> npage" where
  "cut_page f g n = n\<lparr>np_keys := f (np_keys n), np_rids := g (np_rids n)\<rparr>"

definition became :: "(int \<rightharpoonup> npage) \<Rightarrow> (int \<rightharpoonup> npage) \<Rightarrow> int \<Rightarrow> int \<Rightarrow> (npage \<Rightarrow> npage) \<Rightarrow> bool" where
  "became A B p q f \<longleftrightarrow> (\<exists>n m. A p = Some n \<and> B q = Some m \<and> strip m = strip (f n))"

lemma rep_left:
  assumes rep: "arep A u t" and d: "distinct (bt_pages t)" and B: "became A B (bt_page t) (bt_page t) (cut_page (take m) (take m))"
    and same: "nodes_agree (set (bt_pages t) - {bt_page t} - bt_page ` set (moved_kids m t)) A B"
  shows "arep B u (split_left m t)"
proof (cases t)
  case (Leaf p es)
  then show ?thesis using rep B by (auto simp: leaf_at_def became_def cut_page_def strip_eq take_map)
next
  case (Inner p ks cs)
  have "arep B p c" if c: "c \<in> set (take m cs)" for c
  proof (rule arep_cong)
    show "arep A p c" using rep Inner in_set_takeD[OF c] by simp
    have "set (bt_pages c) \<inter> set (concat (map bt_pages (drop m cs))) = {}" "set (bt_pages c) \<subseteq> set (concat (map bt_pages cs))"
    proof -
      have "distinct (concat (map bt_pages (take m cs)) @ concat (map bt_pages (drop m cs)))"
        using d Inner by (metis append_take_drop_id bt_pages.simps(2) concat_append distinct.simps(2) map_append)
      then show "set (bt_pages c) \<inter> set (concat (map bt_pages (drop m cs))) = {}" using c by auto
      show "set (bt_pages c) \<subseteq> set (concat (map bt_pages cs))" using in_set_takeD[OF c] by auto
    qed
    then have "set (bt_pages c) \<subseteq> set (bt_pages t) - {bt_page t} - bt_page ` set (moved_kids m t)"
      using d Inner bt_page_in by (auto 0 4)
    then show "nodes_agree (set (bt_pages c)) A B" using same by (auto simp: nodes_agree_def)
  qed
  then show ?thesis using rep B Inner by (auto simp: inner_at_def became_def cut_page_def strip_eq take_map[symmetric])
qed

lemma rep_right:
  assumes rep: "arep A u t" and d: "distinct (bt_pages t)" and B: "became A B (bt_page t) q (cut_page (drop m) (drop m))"
    and kids: "\<forall>c \<in> set (moved_kids m t). became A B (bt_page c) (bt_page c) (np_parent_update (\<lambda>_. q))"
    and same: "nodes_agree (set (bt_pages t) - {bt_page t} - bt_page ` set (moved_kids m t)) A B"
  shows "arep B u (split_right m q t)"
proof (cases t)
  case (Leaf p es)
  then show ?thesis using rep B by (auto simp: leaf_at_def became_def cut_page_def strip_eq drop_map)
next
  case (Inner p ks cs)
  have "arep B q c" if c: "c \<in> set (drop m cs)" for c
  proof -
    obtain n k where nk: "A (bt_page c) = Some n" "B (bt_page c) = Some k" "strip k = strip (n\<lparr>np_parent := q\<rparr>)"
      using kids c Inner by (auto simp: became_def)
    have cs: "c \<in> set cs" using c by (rule in_set_dropD)
    obtain xs ys where xy: "drop m cs = xs @ c # ys" using split_list[OF c] by blast
    have dd: "distinct (concat (map bt_pages (drop m cs)))" "distinct (p # concat (map bt_pages cs))"
      using d Inner by (auto simp: drop_map[symmetric]) (metis append_take_drop_id concat_append distinct_append map_append)
    have "set (bt_pages c) - {bt_page c} \<subseteq> set (bt_pages t) - {bt_page t} - bt_page ` set (moved_kids m t)"
    proof
      fix x assume x: "x \<in> set (bt_pages c) - {bt_page c}"
      have "x \<noteq> bt_page e" if "e \<in> set xs \<union> set ys" for e
        using dd(1) x that bt_page_in[of e] unfolding xy by auto
      moreover have "x \<in> set (bt_pages t)" "x \<noteq> p" using x cs dd(2) Inner by auto
      ultimately show "x \<in> set (bt_pages t) - {bt_page t} - bt_page ` set (moved_kids m t)" using x Inner xy by auto
    qed
    then have "nodes_agree (set (bt_pages c) - {bt_page c}) A B" using same by (auto simp: nodes_agree_def)
    moreover have "arep A p c" using rep Inner cs by simp
    moreover have "distinct (bt_pages c)" using dd(1) unfolding xy by simp
    ultimately show ?thesis using arep_parent[of A p c B n k q] nk by simp
  qed
  then show ?thesis using rep B Inner by (auto simp: inner_at_def became_def cut_page_def strip_eq drop_map[symmetric])
qed

lemma rep_split:
  assumes rep: "path_rep A ((u, ks, ls, rs) # fs) (bt_page t)" "arep A u t"
    and d: "distinct (path_pages ((u, ks, ls, rs) # fs) @ bt_pages t)"
    and p: "became A B (bt_page t) (bt_page t) (cut_page (take m) (take m))"
    and q: "became A B (bt_page t) q (cut_page (drop m) (drop m))"
    and kids: "\<forall>c \<in> set (moved_kids m t). became A B (bt_page c) (bt_page c) (np_parent_update (\<lambda>_. q))"
    and u: "became A B u u (linked (length ls) q (bt_last (split_left m t)))"
    and same: "nodes_agree (set (path_pages ((u, ks, ls, rs) # fs)) \<union> set (bt_pages t) - {bt_page t, u} - bt_page ` set (moved_kids m t)) A B"
  shows "arep B NDX_NO_PAGE (plug fs (raised (u, ks, ls, rs) (split_left m t) (split_right m q t)))"
proof -
  have kp: "bt_page ` set (moved_kids m t) \<subseteq> set (bt_pages t)"
  proof (cases t)
    case (Inner p js cs)
    then show ?thesis using bt_page_in in_set_dropD[of _ m cs] by fastforce
  qed simp
  have tp: "bt_page t \<in> set (bt_pages t)" by (rule bt_page_in)
  have sub: "nodes_agree S A B" if "S \<subseteq> set (path_pages ((u, ks, ls, rs) # fs)) \<union> set (bt_pages t) - {bt_page t, u} - bt_page ` set (moved_kids m t)" for S
    using same that unfolding nodes_agree_def by blast
  have t: "nodes_agree (set (bt_pages t) - {bt_page t} - bt_page ` set (moved_kids m t)) A B"
    by (rule sub) (use d in auto)
  have dt: "distinct (bt_pages t)" using d by simp
  have l: "arep B u (split_left m t)" by (rule rep_left[OF rep(2) dt p t])
  have r: "arep B u (split_right m q t)" by (rule rep_right[OF rep(2) dt q kids t])
  have c: "arep B u c" if c: "c \<in> set ls \<union> set rs" for c
  proof (rule arep_cong)
    show "arep A u c" using rep(1) c by simp
    have "set (bt_pages c) \<subseteq> set (path_pages ((u, ks, ls, rs) # fs))" "u \<notin> set (bt_pages c)" using d c by auto
    moreover have "set (path_pages ((u, ks, ls, rs) # fs)) \<inter> set (bt_pages t) = {}" using d by (simp only: distinct_append)
    ultimately show "nodes_agree (set (bt_pages c)) A B" using kp tp by (intro sub) blast
  qed
  have fs: "path_rep B fs u"
  proof (rule path_rep_cong)
    show "path_rep A fs u" using rep(1) by simp
    show "nodes_agree (set (path_pages fs)) A B" by (rule sub) (use d kp tp in auto)
  qed
  have "inner_at B u (up_page fs) (take (length ls) ks @ bt_last (split_left m t) # drop (length ls) ks)
      (map bt_page ls @ bt_page t # q # map bt_page rs)"
    using rep(1) u by (auto simp: inner_at_def became_def linked_def strip_eq take_map[symmetric] drop_map[symmetric])
  then show ?thesis unfolding rep_plug using fs l r c by (auto simp: raised_def)
qed

end
