(* ===== verification/IndexRaise.thy ===== *)
theory IndexRaise
  imports IndexGrow
begin

text \<open>
  The index on page records: the tree, the free pages, the leaves and the entry points in the file header.
  The writes of \<open>grow_root\<close> and of a split lead from one index to another.
\<close>

definition atree :: "IndexFileHeader \<Rightarrow> (int \<rightharpoonup> npage) \<Rightarrow> bt \<Rightarrow> bool" where
  "atree h A t \<longleftrightarrow> arep A NDX_NO_PAGE t \<and> distinct (bt_pages t) \<and> free_ok h A (set (bt_pages t)) \<and>
     achain A NDX_LEAF_HEADER_PAGE (leaf_pages t) \<and> root_page h = bt_page t \<and>
     first_leaf h = hd (leaf_pages t) \<and> last_leaf h = last (leaf_pages t)"

lemma free_range: "free_ok h A S \<Longrightarrow> S \<subseteq> {NDX_INIT_ROOT_PAGE..<ix_num_pages h}"
  by (auto simp: free_ok_def)

lemma atree_pages:
  assumes "atree h A t" "p \<in> set (bt_pages t)"
  shows "2 \<le> p" "p < ix_num_pages h" "p \<noteq> NDX_LEAF_HEADER_PAGE"
  using assms free_range[of h A "set (bt_pages t)"] by (auto simp: atree_def NDX_INIT_ROOT_PAGE_def NDX_LEAF_HEADER_PAGE_def)

lemma atree_leaf_pages: "atree h A t \<Longrightarrow> distinct (leaf_pages t) \<and> set (leaf_pages t) \<subseteq> set (bt_pages t)"
  unfolding atree_def using leaf_pages_sub by blast

text \<open>The record of the root page of a tree.\<close>

fun tree_keys :: "bt \<Rightarrow> byte list list" where
  "tree_keys (Leaf p es) = map fst es"
| "tree_keys (Inner p ks cs) = ks"

lemma arep_root:
  assumes "arep A pa t"
  obtains n where "A (bt_page t) = Some n" "np_ok n" "np_leaf n = is_leaf_tree t" "np_parent n = pa" "np_keys n = tree_keys t"
    "length (np_keys n) = node_size t" "length (np_rids n) = node_size t"
    "\<And>m. map rid_page (drop m (np_rids n)) = map bt_page (moved_kids m t) \<or> is_leaf_tree t"
proof (cases t)
  case (Leaf p es)
  then show ?thesis using assms that by (auto simp: leaf_at_def)
next
  case (Inner p ks cs)
  then obtain n where n: "A p = Some n" "np_ok n" "\<not> np_leaf n" "np_parent n = pa" "np_keys n = ks"
    "map rid_page (np_rids n) = map bt_page cs" "length ks = length cs"
    using assms by (auto simp: inner_at_def)
  have "length (np_rids n) = length cs" using arg_cong[OF n(6), of length] by simp
  moreover have "map rid_page (drop m (np_rids n)) = map bt_page (drop m cs)" for m using n(6) by (simp add: drop_map[symmetric])
  ultimately show ?thesis using that[of n] n Inner by simp
qed

lemma tree_keys_last: "bt_ok t \<Longrightarrow> last (tree_keys t) = bt_last t \<and> tree_keys t \<noteq> [] \<and> length (tree_keys t) = node_size t"
  by (cases t) (auto simp: last_map)

lemma tree_keys_left: "tree_keys (split_left m t) = take m (tree_keys t)"
  by (cases t) (simp_all add: take_map)

lemma new_header_fields [simp]:
  "root_page (new_header A h) = root_page h" "first_leaf (new_header A h) = first_leaf h" "last_leaf (new_header A h) = last_leaf h"
  by (simp_all add: new_header_def)

section \<open>A new root\<close>

lemma atree_grow:
  assumes t: "atree h A t" "bt_ok t" and h: "ix_num_pages h < 524288"
    and n: "A (bt_page t) = Some n" and q: "q = new_page h"
  shows "atree ((new_header A h)\<lparr>root_page := q\<rparr>) (A(q \<mapsto> root_over (bt_page t) n, bt_page t \<mapsto> n\<lparr>np_parent := q\<rparr>))
    (plug [(q, [bt_last t], [], [])] t)"
proof -
  let ?p = "bt_page t" let ?B = "A(q \<mapsto> root_over ?p n, ?p \<mapsto> n\<lparr>np_parent := q\<rparr>)"
  have rep: "arep A NDX_NO_PAGE t" and d: "distinct (bt_pages t)" and free: "free_ok h A (set (bt_pages t))"
    and chain: "achain A NDX_LEAF_HEADER_PAGE (leaf_pages t)" using t(1) by (simp_all add: atree_def)
  have p: "?p \<in> set (bt_pages t)" by (rule bt_page_in)
  have num: "NDX_INIT_ROOT_PAGE \<le> ix_num_pages h" using atree_pages(1,2)[OF t(1) p] by (simp add: NDX_INIT_ROOT_PAGE_def)
  note f = free_ok_new[OF free h num, folded q]
  have qp: "q \<noteq> ?p" using f(2) p by blast
  obtain n' where n': "A ?p = Some n'" "np_keys n' = tree_keys t" by (rule arep_root[OF rep]) blast
  have k: "last (np_keys n) = bt_last t" using n n' tree_keys_last[OF t(2)] by simp
  have "arep ?B q t"
    by (rule arep_parent[OF rep _ d n]) (use f(2) in \<open>auto simp: nodes_agree_def strip_def\<close>)
  moreover have "inner_at ?B q NDX_NO_PAGE [bt_last t] [?p]"
    using qp k by (simp add: inner_at_def root_over_def)
  moreover have "achain ?B NDX_LEAF_HEADER_PAGE (leaf_pages t)"
  proof (rule achain_cong[OF _ chain])
    fix y assume "y \<in> insert NDX_LEAF_HEADER_PAGE (set (leaf_pages t))"
    then have "y \<noteq> q" using atree_leaf_pages[OF t(1)] f(2,4) by (auto simp: NDX_LEAF_HEADER_PAGE_def NDX_INIT_ROOT_PAGE_def)
    then show "links (A y) = links (?B y)" using n by (simp add: links_def)
  qed
  moreover have "free_ok ((new_header A h)\<lparr>root_page := q\<rparr>) ?B (set (bt_pages (Inner q [bt_last t] [t])))"
  proof (rule free_ok_cong)
    show "free_ok (new_header A h) A (set (bt_pages (Inner q [bt_last t] [t])))" using f(3) by simp
  qed (use p in auto)
  ultimately show ?thesis using t(1) d f(2) by (simp add: atree_def)
qed

section \<open>A split\<close>

definition after_split :: "int \<Rightarrow> int \<Rightarrow> int \<Rightarrow> nat \<Rightarrow> nat \<Rightarrow> (int \<rightharpoonup> npage) \<Rightarrow> (int \<rightharpoonup> npage)" where
  "after_split p q u i m A = (let B = moved_half p q m (with_brother p q A)
     in B(u \<mapsto> linked i q (last (np_keys (the (B p)))) (the (B u))))"

definition right_page :: "int \<Rightarrow> int \<Rightarrow> nat \<Rightarrow> npage \<Rightarrow> npage" where
  "right_page p x m n = \<lparr>np_ok = True, np_leaf = np_leaf n, np_parent = np_parent n, np_keys = drop m (np_keys n),
     np_rids = drop m (np_rids n), np_prev = p, np_next = x, np_free = NDX_NO_PAGE\<rparr>"

lemma after_split_leaf:
  assumes "A p = Some n" "np_leaf n" "A u = Some f" "A (np_next n) = Some k" "p \<noteq> q" "u \<noteq> q" "u \<noteq> p" "np_next n \<notin> {p, q, u}"
  shows "after_split p q u i m A = A(q \<mapsto> right_page p (np_next n) m n, np_next n \<mapsto> k\<lparr>np_prev := q\<rparr>,
    p \<mapsto> (cut_page (take m) (take m) n)\<lparr>np_next := q\<rparr>, u \<mapsto> linked i q (last (take m (np_keys n))) f)"
  using assms
  by (auto simp: after_split_def moved_half_def with_brother_def Let_def bare_brother_def right_page_def cut_page_def fun_eq_iff)

lemma after_split_inner:
  assumes "A p = Some n" "\<not> np_leaf n" "A u = Some f" "p \<noteq> q" "u \<noteq> q" "u \<noteq> p" "cs = map rid_page (drop m (np_rids n))" "p \<notin> set cs" "u \<notin> set cs"
  shows "after_split p q u i m A = (reparent q cs (A(q \<mapsto> right_page NDX_NO_PAGE NDX_NO_PAGE m n, p \<mapsto> cut_page (take m) (take m) n)))
    (u \<mapsto> linked i q (last (take m (np_keys n))) f)"
  using assms
  by (auto simp: after_split_def moved_half_def with_brother_def Let_def bare_brother_def right_page_def cut_page_def fun_eq_iff reparent_def)

lemma strip_right: "np_ok n \<Longrightarrow> strip (right_page p x m n) = strip (cut_page (drop m) (drop m) n)"
  by (simp add: strip_eq right_page_def cut_page_def)

text \<open>The pages of the tree with the brother: what concerns both kinds of nodes.\<close>

lemma atree_split:
  assumes t: "atree h A (plug ((u, ks, ls, rs) # fs) t)" and q: "q = new_page h" "ix_num_pages h < 524288"
    and rep: "became A B (bt_page t) (bt_page t) (cut_page (take m) (take m))" "became A B (bt_page t) q (cut_page (drop m) (drop m))"
      "\<forall>c \<in> set (moved_kids m t). became A B (bt_page c) (bt_page c) (np_parent_update (\<lambda>_. q))"
      "became A B u u (linked (length ls) q (bt_last (split_left m t)))"
    and same: "nodes_agree (set (bt_pages (plug ((u, ks, ls, rs) # fs) t)) - {bt_page t, u} - bt_page ` set (moved_kids m t)) A B"
    and free: "\<And>y. y \<notin> set (bt_pages (plug ((u, ks, ls, rs) # fs) t)) \<Longrightarrow> y \<noteq> q \<Longrightarrow> y \<noteq> NDX_LEAF_HEADER_PAGE \<Longrightarrow> B y = A y"
    and t': "t' = plug fs (raised (u, ks, ls, rs) (split_left m t) (split_right m q t))"
    and chain: "achain B NDX_LEAF_HEADER_PAGE (leaf_pages t')"
    and ends: "hd (leaf_pages t') = first_leaf h" "last (leaf_pages t') = last_leaf (tail_header (bt_page t) q h)"
  shows "atree (tail_header (bt_page t) q (new_header A h)) B t'"
proof -
  let ?t = "plug ((u, ks, ls, rs) # fs) t" let ?h = "tail_header (bt_page t) q (new_header A h)"
  have r: "arep A NDX_NO_PAGE ?t" and d: "distinct (bt_pages ?t)" and f: "free_ok h A (set (bt_pages ?t))"
    and root: "root_page h = bt_page ?t" using t by (simp_all only: atree_def)
  have "bt_page ?t \<in> set (bt_pages ?t)" by (rule bt_page_in)
  then have num: "NDX_INIT_ROOT_PAGE \<le> ix_num_pages h" using atree_pages(1,2)[OF t] by (fastforce simp: NDX_INIT_ROOT_PAGE_def)
  note g = free_ok_new[OF f q(2) num, folded q(1)]
  have ms: "mset (bt_pages t') = add_mset q (mset (bt_pages ?t))"
    unfolding t' raised_pages split_all_pages pages_plug[of "(u, ks, ls, rs) # fs"] by simp
  have st: "set (bt_pages t') = insert q (set (bt_pages ?t))" using arg_cong[OF ms, of set_mset] by simp
  have "distinct (bt_pages t')"
  proof -
    have "mset (bt_pages t') = mset (q # bt_pages ?t)" using ms by simp
    then have "distinct (bt_pages t') \<longleftrightarrow> distinct (q # bt_pages ?t)" by (rule mset_eq_imp_distinct_iff)
    then show ?thesis using d g(2) by simp
  qed
  moreover have "arep B NDX_NO_PAGE t'"
  proof -
    have s: "set (bt_pages ?t) = set (path_pages ((u, ks, ls, rs) # fs)) \<union> set (bt_pages t)" by (rule set_pages_plug)
    show ?thesis
      unfolding t'
    proof (rule rep_split[OF _ _ _ rep])
      show "path_rep A ((u, ks, ls, rs) # fs) (bt_page t)" "arep A u t"
        using r unfolding rep_plug by simp_all
      show "distinct (path_pages ((u, ks, ls, rs) # fs) @ bt_pages t)" using d unfolding distinct_plug .
      show "nodes_agree (set (path_pages ((u, ks, ls, rs) # fs)) \<union> set (bt_pages t) - {bt_page t, u} - bt_page ` set (moved_kids m t)) A B"
        using same unfolding s .
    qed
  qed
  moreover have "free_ok ?h B (set (bt_pages t'))"
    unfolding st
  proof (rule free_ok_cong[OF g(3)])
    fix y assume "y \<in> {NDX_INIT_ROOT_PAGE..<ix_num_pages (new_header A h)} - insert q (set (bt_pages ?t))"
    then show "map_option np_free (A y) = map_option np_free (B y)"
      by (subst free) (auto simp: NDX_INIT_ROOT_PAGE_def NDX_LEAF_HEADER_PAGE_def)
  qed (simp_all add: tail_header_def)
  moreover have "root_page ?h = bt_page t'"
  proof -
    have "bt_page ?t = bt_page t'"
    proof (cases "fs = []")
      case True
      then show ?thesis by (simp add: t')
    next
      case False
      then show ?thesis using plug_page[OF False] by (simp add: t')
    qed
    then show ?thesis using root by (simp add: tail_header_def)
  qed
  moreover have "first_leaf ?h = hd (leaf_pages t')" "last_leaf ?h = last (leaf_pages t')"
    using ends by (simp_all add: tail_header_def)
  ultimately show ?thesis using chain by (simp only: atree_def simp_thms)
qed

text \<open>Which pages are leaves.\<close>

lemma leaf_page_rep: "arep A pa t \<Longrightarrow> p \<in> set (leaf_pages t) \<Longrightarrow> \<exists>n. A p = Some n \<and> np_leaf n"
proof (induction t arbitrary: pa)
  case (Leaf q es)
  then show ?case by (auto simp: leaf_at_def)
next
  case (Inner q ks cs)
  obtain c where c: "c \<in> set cs" "p \<in> set (leaf_pages c)" using Inner.prems(2) by auto
  show ?case by (rule Inner.IH[OF c(1) _ c(2)]) (use Inner.prems(1) c(1) in auto)
qed

lemma inner_not_leaf: "arep A pa t \<Longrightarrow> A p = Some n \<Longrightarrow> \<not> np_leaf n \<Longrightarrow> p \<notin> set (leaf_pages t)"
  using leaf_page_rep[of A pa t p] by auto

lemma atree_next:
  assumes "atree h A t" "leaf_pages t = xs @ p # ys" "A p = Some n"
  obtains k where "np_next n = next_of ys" "A (next_of ys) = Some k" "next_of ys \<in> insert NDX_LEAF_HEADER_PAGE (set (leaf_pages t) - {p})"
proof -
  have c: "achain A NDX_LEAF_HEADER_PAGE (xs @ p # ys)" using assms(1,2) by (simp add: atree_def)
  have d: "distinct (xs @ p # ys)" using atree_leaf_pages[OF assms(1)] assms(2) by simp
  obtain k where "np_next n = next_of ys" "A (next_of ys) = Some k"
    using achain_links[OF c] assms(3) achain_next[of A p ys] by auto
  moreover have "next_of ys \<in> insert NDX_LEAF_HEADER_PAGE (set (leaf_pages t) - {p})"
    using d unfolding assms(2) by (cases ys) auto
  ultimately show ?thesis by (rule that)
qed

lemma atree_parent:
  assumes "atree h A (plug ((u, ks, ls, rs) # fs) t)"
  obtains f n where "A u = Some f" "np_ok f" "\<not> np_leaf f" "np_keys f = ks"
    "map rid_page (np_rids f) = map bt_page ls @ bt_page t # map bt_page rs" "length ks = Suc (length ls + length rs)"
    "A (bt_page t) = Some n" "np_ok n" "np_leaf n = is_leaf_tree t" "np_parent n = u" "np_keys n = tree_keys t"
    "length (np_keys n) = node_size t" "length (np_rids n) = node_size t"
    "\<And>m. map rid_page (drop m (np_rids n)) = map bt_page (moved_kids m t) \<or> is_leaf_tree t"
    "u \<noteq> bt_page t" "u \<notin> set (leaf_pages (plug ((u, ks, ls, rs) # fs) t))" "bt_page t \<in> set (bt_pages (plug ((u, ks, ls, rs) # fs) t))"
    "u \<in> set (bt_pages (plug ((u, ks, ls, rs) # fs) t))" "bt_page t \<notin> set (map bt_page ls)"
proof -
  let ?t = "plug ((u, ks, ls, rs) # fs) t"
  have r: "arep A NDX_NO_PAGE ?t" and d: "distinct (bt_pages ?t)" using assms by (simp_all only: atree_def)
  have pr: "path_rep A ((u, ks, ls, rs) # fs) (bt_page t)" "arep A u t" using r unfolding rep_plug by simp_all
  obtain f where f: "A u = Some f" "np_ok f" "\<not> np_leaf f" "np_keys f = ks"
    "map rid_page (np_rids f) = map bt_page ls @ bt_page t # map bt_page rs" "length ks = Suc (length ls + length rs)"
    using pr(1) by (auto simp: inner_at_def)
  have dd: "distinct (path_pages ((u, ks, ls, rs) # fs) @ bt_pages t)" using d unfolding distinct_plug .
  have tp: "bt_page t \<in> set (bt_pages t)" by (rule bt_page_in)
  have "u \<noteq> bt_page t" using dd tp by auto
  moreover have "u \<notin> set (leaf_pages ?t)" by (rule inner_not_leaf[OF r f(1,3)])
  moreover have "bt_page t \<in> set (bt_pages ?t)" "u \<in> set (bt_pages ?t)" using tp by (simp_all only: set_pages_plug) auto
  moreover have "bt_page t \<notin> set (map bt_page ls)"
  proof
    assume "bt_page t \<in> set (map bt_page ls)"
    then obtain c where "c \<in> set ls" "bt_page c = bt_page t" by auto
    then have "bt_page t \<in> set (concat (map bt_pages (ls @ rs)))" using bt_page_in[of c] by auto
    then show False using dd tp by auto
  qed
  ultimately show ?thesis using that[OF f] arep_root[OF pr(2)] by metis
qed

lemma atree_split_leaf:
  assumes t: "atree h A (plug ((u, ks, ls, rs) # fs) t)" "is_leaf_tree t" "bt_ok t" "0 < m" "m < node_size t"
    and q: "q = new_page h" "ix_num_pages h < 524288"
  shows "atree (tail_header (bt_page t) q (new_header A h)) (after_split (bt_page t) q u (length ls) m A)
    (plug fs (raised (u, ks, ls, rs) (split_left m t) (split_right m q t)))"
proof -
  let ?t = "plug ((u, ks, ls, rs) # fs) t" and ?B = "after_split (bt_page t) q u (length ls) m A"
  obtain p es where tl: "t = Leaf p es" using t(2) by (cases t) auto
  obtain f n where f: "A u = Some f" and n: "A p = Some n" "np_ok n" "np_leaf n" "np_keys n = tree_keys t"
    and u: "u \<noteq> p" "u \<notin> set (leaf_pages ?t)" "p \<in> set (bt_pages ?t)" "u \<in> set (bt_pages ?t)"
    by (rule atree_parent[OF t(1)]) (simp add: tl)
  define xs where "xs = map fst (lefts ((u, ks, ls, rs) # fs))"
  define ys where "ys = map fst (rights ((u, ks, ls, rs) # fs))"
  have lp: "leaf_pages ?t = xs @ p # ys" unfolding leaves_plug xs_def ys_def tl by simp
  obtain k where x: "np_next n = next_of ys" "A (next_of ys) = Some k" "next_of ys \<in> insert NDX_LEAF_HEADER_PAGE (set (leaf_pages ?t) - {p})"
    by (rule atree_next[OF t(1) lp n(1)])
  note lps = atree_leaf_pages[OF t(1)]
  have fr: "free_ok h A (set (bt_pages ?t))" using t(1) by (simp only: atree_def)
  have num: "NDX_INIT_ROOT_PAGE \<le> ix_num_pages h" using atree_pages(1,2)[OF t(1) u(3)] by (simp add: NDX_INIT_ROOT_PAGE_def)
  note g = free_ok_new[OF fr q(2) num, folded q(1)]
  have q1: "q \<noteq> NDX_LEAF_HEADER_PAGE" "p \<noteq> NDX_LEAF_HEADER_PAGE" "u \<noteq> NDX_LEAF_HEADER_PAGE"
    using g(4) atree_pages(3)[OF t(1)] u(3,4) by (auto simp: NDX_LEAF_HEADER_PAGE_def NDX_INIT_ROOT_PAGE_def)
  have pq: "p \<noteq> q" "u \<noteq> q" using g(2) u(3,4) by blast+
  have xn: "next_of ys \<notin> {p, q, u}" using x(3) lps g(2) u(2) q1 by auto
  note B = after_split_leaf[OF n(1,3) f x(2)[folded x(1)] pq u(1) xn[folded x(1)], of "length ls" m, unfolded x(1)]
  have B': "?B = A(q \<mapsto> right_page p (next_of ys) m n, next_of ys \<mapsto> k\<lparr>np_prev := q\<rparr>,
      p \<mapsto> (cut_page (take m) (take m) n)\<lparr>np_next := q\<rparr>, u \<mapsto> linked (length ls) q (last (take m (np_keys n))) f)"
    using B by (simp add: tl)
  have lt: "last (take m (np_keys n)) = bt_last (split_left m t)"
    using tree_keys_last[OF split_ok(1)[OF t(3-5)]] n(4) by (simp add: tree_keys_left)
  have lp': "leaf_pages (plug fs (raised (u, ks, ls, rs) (split_left m t) (split_right m q t))) = xs @ p # q # ys"
    unfolding raised_leaves xs_def ys_def map_append split_leaf_pages[unfolded map_append] by (simp add: tl)
  show ?thesis
  proof (rule atree_split[OF t(1) q _ _ _ _ _ _ refl])
    show "became A ?B (bt_page t) (bt_page t) (cut_page (take m) (take m))"
      unfolding became_def B' using n u(1) by (simp add: tl strip_eq cut_page_def)
    show "became A ?B (bt_page t) q (cut_page (drop m) (drop m))"
      unfolding became_def B' using n pq xn strip_right[of n p "next_of ys" m] by (simp add: tl)
    show "\<forall>c \<in> set (moved_kids m t). became A ?B (bt_page c) (bt_page c) (np_parent_update (\<lambda>_. q))" by (simp add: tl)
    show "became A ?B u u (linked (length ls) q (bt_last (split_left m t)))"
      unfolding became_def B' lt using f by simp
    show "nodes_agree (set (bt_pages ?t) - {bt_page t, u} - bt_page ` set (moved_kids m t)) A ?B"
      unfolding nodes_agree_def B' using x(2) g(2) by (auto simp: tl strip_eq)
    show "?B y = A y" if "y \<notin> set (bt_pages ?t)" "y \<noteq> q" "y \<noteq> NDX_LEAF_HEADER_PAGE" for y
    proof -
      have "y \<noteq> next_of ys" "y \<noteq> p" "y \<noteq> u" using that x(3) lps u(3,4) by auto
      then show ?thesis unfolding B' using that(2) by simp
    qed
    show "achain ?B NDX_LEAF_HEADER_PAGE (leaf_pages (plug fs (raised (u, ks, ls, rs) (split_left m t) (split_right m q t))))"
      unfolding lp'
    proof (rule achain_insert[where n = n and n' = "(cut_page (take m) (take m) n)\<lparr>np_next := q\<rparr>" and
          b = "right_page p (next_of ys) m n" and m = k and m' = "k\<lparr>np_prev := q\<rparr>"])
      show "achain A NDX_LEAF_HEADER_PAGE (xs @ p # ys)" using t(1) lp by (simp only: atree_def)
      show "distinct (NDX_LEAF_HEADER_PAGE # xs @ p # ys)" "q \<notin> set (NDX_LEAF_HEADER_PAGE # xs @ p # ys)"
        using lps atree_pages(3)[OF t(1)] q1 g(2) unfolding lp by auto
      show "links (?B y) = links (A y)" if "y \<in> set (NDX_LEAF_HEADER_PAGE # xs @ p # ys) - {p, next_of ys}" for y
      proof -
        have "y \<noteq> q" "y \<noteq> u" using that lps u(2) q1 g(2) unfolding lp by auto
        then show ?thesis unfolding B' using that by simp
      qed
    qed (use n x u pq xn in \<open>auto simp: B' right_page_def cut_page_def\<close>)
    show "hd (leaf_pages (plug fs (raised (u, ks, ls, rs) (split_left m t) (split_right m q t)))) = first_leaf h"
      using t(1) lp unfolding lp' by (cases xs) (simp_all add: atree_def)
    have "last_leaf h = p \<longleftrightarrow> ys = []"
      using t(1) lps lp by (cases ys rule: rev_cases) (auto simp: atree_def)
    then show "last (leaf_pages (plug fs (raised (u, ks, ls, rs) (split_left m t) (split_right m q t)))) =
        last_leaf (tail_header (bt_page t) q h)"
      using t(1) lp unfolding lp' by (cases ys rule: rev_cases) (auto simp: tail_header_def tl atree_def)
  qed
qed

lemma kids_pages:
  assumes "distinct (bt_pages t)" "c \<in> set (moved_kids m t)"
  shows "bt_page c \<in> set (bt_pages t)" "bt_page c \<noteq> bt_page t"
proof -
  obtain p ks cs where t: "t = Inner p ks cs" "c \<in> set cs"
    using assms(2) in_set_dropD[of c m] by (cases t) auto
  have "bt_page c \<in> set (concat (map bt_pages cs))" using t(2) bt_page_in[of c] by auto
  then show "bt_page c \<in> set (bt_pages t)" "bt_page c \<noteq> bt_page t" using assms(1) t(1) by auto
qed

lemma kids_records: "arep A pa t \<Longrightarrow> c \<in> set (moved_kids m t) \<Longrightarrow> \<exists>n. A (bt_page c) = Some n"
proof -
  assume r: "arep A pa t" and c: "c \<in> set (moved_kids m t)"
  obtain p ks cs where t: "t = Inner p ks cs" "c \<in> set cs"
    using c in_set_dropD[of c m] by (cases t) auto
  then have "arep A p c" using r by simp
  then show "\<exists>n. A (bt_page c) = Some n" by (rule arep_root) blast
qed

lemma atree_split_inner:
  assumes t: "atree h A (plug ((u, ks, ls, rs) # fs) t)" "\<not> is_leaf_tree t" "bt_ok t" "0 < m" "m < node_size t"
    and q: "q = new_page h" "ix_num_pages h < 524288"
  shows "atree (tail_header (bt_page t) q (new_header A h)) (after_split (bt_page t) q u (length ls) m A)
    (plug fs (raised (u, ks, ls, rs) (split_left m t) (split_right m q t)))"
proof -
  let ?t = "plug ((u, ks, ls, rs) # fs) t" and ?B = "after_split (bt_page t) q u (length ls) m A" and ?p = "bt_page t"
  let ?cs = "map bt_page (moved_kids m t)"
  obtain f n where f: "A u = Some f" and n: "A ?p = Some n" "np_ok n" "\<not> np_leaf n" "np_keys n = tree_keys t"
    and kids: "map rid_page (drop m (np_rids n)) = ?cs"
    and u: "u \<noteq> ?p" "u \<notin> set (leaf_pages ?t)" "?p \<in> set (bt_pages ?t)" "u \<in> set (bt_pages ?t)"
    by (rule atree_parent[OF t(1)]) (use t(2) in auto)
  have rep: "arep A NDX_NO_PAGE ?t" and d: "distinct (bt_pages ?t)" and fr: "free_ok h A (set (bt_pages ?t))"
    and chain: "achain A NDX_LEAF_HEADER_PAGE (leaf_pages ?t)" using t(1) by (simp_all only: atree_def)
  have pr: "path_rep A ((u, ks, ls, rs) # fs) ?p" "arep A u t" using rep unfolding rep_plug by simp_all
  have dd: "distinct (path_pages ((u, ks, ls, rs) # fs) @ bt_pages t)" using d unfolding distinct_plug .
  have num: "NDX_INIT_ROOT_PAGE \<le> ix_num_pages h" using atree_pages(1,2)[OF t(1) u(3)] by (simp add: NDX_INIT_ROOT_PAGE_def)
  note g = free_ok_new[OF fr q(2) num, folded q(1)]
  have q1: "q \<noteq> NDX_LEAF_HEADER_PAGE" using g(4) by (simp add: NDX_LEAF_HEADER_PAGE_def NDX_INIT_ROOT_PAGE_def)
  have pq: "?p \<noteq> q" "u \<noteq> q" using g(2) u(3,4) by blast+
  have dt: "distinct (bt_pages t)" "u \<notin> set (bt_pages t)" "q \<notin> set (bt_pages t)"
    using dd g(2) unfolding set_pages_plug by auto
  have kp: "set ?cs \<subseteq> set (bt_pages t)" using kids_pages(1)[OF dt(1)] by auto
  moreover have "?p \<notin> set ?cs" using kids_pages(2)[OF dt(1)] by (metis (no_types, lifting) imageE list.set_map)
  ultimately have kp: "set ?cs \<subseteq> set (bt_pages t)" "?p \<notin> set ?cs" "u \<notin> set ?cs" "q \<notin> set ?cs"
    using dt by blast+
  have lt: "last (take m (np_keys n)) = bt_last (split_left m t)"
    using tree_keys_last[OF split_ok(1)[OF t(3-5)]] n(4) by (simp add: tree_keys_left)
  have B: "?B = (reparent q ?cs (A(q \<mapsto> right_page NDX_NO_PAGE NDX_NO_PAGE m n, ?p \<mapsto> cut_page (take m) (take m) n)))
      (u \<mapsto> linked (length ls) q (bt_last (split_left m t)) f)"
    using after_split_inner[where i = "length ls" and m = m, OF n(1,3) f pq u(1) kids[symmetric] kp(2,3)] unfolding lt .
  have pl: "?p \<notin> set (leaf_pages ?t)" by (rule inner_not_leaf[OF rep n(1,3)])
  have lp': "leaf_pages (plug fs (raised (u, ks, ls, rs) (split_left m t) (split_right m q t))) = leaf_pages ?t"
    unfolding raised_leaves map_append split_leaf_pages[unfolded map_append] leaves_plug[of "(u, ks, ls, rs) # fs"] using t(2) by simp
  have same: "links (?B y) = links (A y)" if "y \<noteq> q" for y
  proof -
    have "links (map_option (\<lambda>n. n\<lparr>np_parent := q\<rparr>) a) = links a" for a by (cases a) (simp_all add: links_def)
    then have "links (reparent q ?cs C y) = links (C y)" for C by (simp add: reparent_def)
    then show ?thesis unfolding B using that f n u(1) by (auto simp: links_def linked_def cut_page_def)
  qed
  show ?thesis
  proof (rule atree_split[OF t(1) q _ _ _ _ _ _ refl])
    show "became A ?B ?p ?p (cut_page (take m) (take m))"
      unfolding became_def B using n u(1) pq kp by (simp add: reparent_other)
    show "became A ?B ?p q (cut_page (drop m) (drop m))"
      unfolding became_def B using n pq kp strip_right[of n NDX_NO_PAGE NDX_NO_PAGE m] by (simp add: reparent_other)
    show "\<forall>c \<in> set (moved_kids m t). became A ?B (bt_page c) (bt_page c) (np_parent_update (\<lambda>_. q))"
    proof
      fix c assume c: "c \<in> set (moved_kids m t)"
      then have c': "bt_page c \<in> set ?cs" by simp
      have "bt_page c \<noteq> q" "bt_page c \<noteq> ?p" "bt_page c \<noteq> u" using c' kp(2-4) by metis+
      moreover obtain k where "A (bt_page c) = Some k" using kids_records[OF pr(2) c] by blast
      ultimately show "became A ?B (bt_page c) (bt_page c) (np_parent_update (\<lambda>_. q))"
        unfolding became_def B using c' by (simp add: reparent_def)
    qed
    show "became A ?B u u (linked (length ls) q (bt_last (split_left m t)))"
      unfolding became_def B using f by simp
    show "nodes_agree (set (bt_pages ?t) - {?p, u} - bt_page ` set (moved_kids m t)) A ?B"
      unfolding nodes_agree_def B using g(2) by (auto simp: reparent_def)
    show "?B y = A y" if "y \<notin> set (bt_pages ?t)" "y \<noteq> q" "y \<noteq> NDX_LEAF_HEADER_PAGE" for y
    proof -
      have "y \<notin> set ?cs" "y \<noteq> ?p" "y \<noteq> u" using that(1) kp(1) u(3,4) unfolding set_pages_plug by auto
      then show ?thesis unfolding B using that(2) by (simp add: reparent_other)
    qed
    show "achain ?B NDX_LEAF_HEADER_PAGE (leaf_pages (plug fs (raised (u, ks, ls, rs) (split_left m t) (split_right m q t))))"
      unfolding lp'
    proof (rule achain_cong[OF _ chain])
      fix y assume "y \<in> insert NDX_LEAF_HEADER_PAGE (set (leaf_pages ?t))"
      then have "y \<noteq> q" using atree_leaf_pages[OF t(1)] g(2) q1 by auto
      then show "links (A y) = links (?B y)" by (rule same[symmetric])
    qed
    show "hd (leaf_pages (plug fs (raised (u, ks, ls, rs) (split_left m t) (split_right m q t)))) = first_leaf h"
      using t(1) unfolding lp' by (simp add: atree_def)
    have "leaf_pages ?t \<noteq> []" using bt_leaves_ne[OF t(3)] unfolding leaves_plug[of "(u, ks, ls, rs) # fs"] by simp
    then have "last (leaf_pages ?t) \<in> set (leaf_pages ?t)" by (rule last_in_set)
    moreover have ll: "last_leaf h = last (leaf_pages ?t)" using t(1) by (simp only: atree_def)
    ultimately have "last_leaf h \<noteq> ?p" using pl by metis
    then show "last (leaf_pages (plug fs (raised (u, ks, ls, rs) (split_left m t) (split_right m q t)))) =
        last_leaf (tail_header ?p q h)"
      unfolding lp' tail_header_def using ll by simp
  qed
qed

end
