(* ===== verification/IndexOverflow.thy ===== *)
theory IndexOverflow
  imports IndexRaise
begin

text \<open>
  \<open>solve_overflow\<close>: splitting a node, and the climb to the root.
\<close>

section \<open>One split\<close>

lemma split_facts:
  assumes t: "atree h A (plug ((u, ks, ls, rs) # fs) t)" "bt_ok t" and h: "ix_num_pages h < 524288" and q: "q = new_page h"
    and p: "p = bt_page t"
  obtains f n where "A u = Some f" "np_ok f" "map rid_page (np_rids f) = map bt_page ls @ p # map bt_page rs"
    "length (np_keys f) = length (np_rids f)" "length (np_rids f) = Suc (length ls + length rs)" "p \<notin> set (map bt_page ls)"
    "A p = Some n" "np_ok n" "np_leaf n = is_leaf_tree t" "np_parent n = u" "np_keys n = tree_keys t"
    "length (np_keys n) = node_size t" "length (np_rids n) = node_size t"
    "np_leaf n \<Longrightarrow> np_next n \<in> dom A \<and> np_next n \<notin> {p, q, u} \<and> 1 \<le> np_next n \<and> np_next n \<le> 524288"
    "\<not> np_leaf n \<Longrightarrow> rid_page ` set (np_rids n) \<subseteq> dom A - {p, q, u}"
    "u \<noteq> p" "u \<noteq> q" "p \<noteq> q" "can_grow h A" "1 \<le> p" "p \<le> 524288" "1 \<le> u" "u \<le> 524288" "1 \<le> q" "q \<le> 524288"
proof -
  let ?t = "plug ((u, ks, ls, rs) # fs) t"
  obtain f n where f: "A u = Some f" "np_ok f" "\<not> np_leaf f" "np_keys f = ks"
    "map rid_page (np_rids f) = map bt_page ls @ p # map bt_page rs" "length ks = Suc (length ls + length rs)"
    and n: "A p = Some n" "np_ok n" "np_leaf n = is_leaf_tree t" "np_parent n = u" "np_keys n = tree_keys t"
    "length (np_keys n) = node_size t" "length (np_rids n) = node_size t"
    "\<And>m. map rid_page (drop m (np_rids n)) = map bt_page (moved_kids m t) \<or> is_leaf_tree t"
    and u: "u \<noteq> p" "u \<notin> set (leaf_pages ?t)" "p \<in> set (bt_pages ?t)" "u \<in> set (bt_pages ?t)" and pl: "p \<notin> set (map bt_page ls)"
    by (rule atree_parent[OF t(1), folded p]) (rule that)
  have lf: "length (np_rids f) = Suc (length ls + length rs)" using arg_cong[OF f(5), of length] by simp
  have rep: "arep A NDX_NO_PAGE ?t" and d: "distinct (bt_pages ?t)" and fr: "free_ok h A (set (bt_pages ?t))"
    using t(1) by (simp_all only: atree_def)
  have pr: "arep A u t" using rep unfolding rep_plug by simp
  have num: "NDX_INIT_ROOT_PAGE \<le> ix_num_pages h" using atree_pages(1,2)[OF t(1) u(3)] by (simp add: NDX_INIT_ROOT_PAGE_def)
  note g = free_ok_new[OF fr h num, folded q]
  have qr: "1 \<le> q" "q \<le> 524288" using g(1) q by (simp_all add: can_grow_def)
  have pq: "p \<noteq> q" "u \<noteq> q" using g(2) u(3,4) by blast+
  have rg: "1 \<le> y \<and> y \<le> 524288" if "y \<in> set (bt_pages ?t)" for y using atree_pages(1,2)[OF t(1) that] h by simp
  have leaf: "np_next n \<in> dom A \<and> np_next n \<notin> {p, q, u} \<and> 1 \<le> np_next n \<and> np_next n \<le> 524288" if l: "np_leaf n"
  proof -
    obtain es where tl: "t = Leaf p es" using l n(3) p by (cases t) auto
    have lp: "leaf_pages ?t = map fst (lefts ((u, ks, ls, rs) # fs)) @ p # map fst (rights ((u, ks, ls, rs) # fs))"
      unfolding leaves_plug tl by simp
    obtain k where x: "np_next n = next_of (map fst (rights ((u, ks, ls, rs) # fs)))"
      "A (next_of (map fst (rights ((u, ks, ls, rs) # fs)))) = Some k"
      "next_of (map fst (rights ((u, ks, ls, rs) # fs))) \<in> insert NDX_LEAF_HEADER_PAGE (set (leaf_pages ?t) - {p})"
      by (rule atree_next[OF t(1) lp n(1)])
    have s: "set (leaf_pages ?t) \<subseteq> set (bt_pages ?t)" using atree_leaf_pages[OF t(1)] by blast
    have "NDX_LEAF_HEADER_PAGE \<notin> {p, q, u}"
      using atree_pages(3)[OF t(1)] u(3,4) g(4) by (auto simp: NDX_LEAF_HEADER_PAGE_def NDX_INIT_ROOT_PAGE_def)
    then have "np_next n \<notin> {p, q, u}" using x(1,3) s u(2) g(2) by auto
    moreover have "1 \<le> np_next n \<and> np_next n \<le> 524288"
      using x(1,3) s rg by (auto simp: NDX_LEAF_HEADER_PAGE_def)
    ultimately show ?thesis using x(1,2) by auto
  qed
  have inner: "rid_page ` set (np_rids n) \<subseteq> dom A - {p, q, u}" if l: "\<not> np_leaf n"
  proof
    fix y assume "y \<in> rid_page ` set (np_rids n)"
    then have "y \<in> set (map rid_page (drop 0 (np_rids n)))" by simp
    then have "y \<in> set (map bt_page (moved_kids 0 t))" using n(3) n(8)[of 0] l by metis
    then obtain c where c: "c \<in> set (moved_kids 0 t)" "y = bt_page c" by auto
    have dd: "distinct (path_pages ((u, ks, ls, rs) # fs) @ bt_pages t)" using d unfolding distinct_plug .
    then have dt: "distinct (bt_pages t)" "u \<notin> set (bt_pages t)" by auto
    have "q \<notin> set (bt_pages t)" using g(2) unfolding set_pages_plug by blast
    then show "y \<in> dom A - {p, q, u}"
      using kids_pages[OF dt(1) c(1)] kids_records[OF pr c(1)] dt(2) c(2) p by auto
  qed
  show ?thesis
    by (rule that[OF f(1,2,5) _ lf pl n(1-7) leaf inner u(1) pq(2,1) g(1) _ _ _ _ qr])
      (use f(4,6) lf rg[OF u(3)] rg[OF u(4)] in auto)
qed

lemma brother_pages:
  assumes "A p = Some n" "np_leaf n \<Longrightarrow> np_next n \<noteq> p \<and> np_next n \<noteq> q" "p \<noteq> q"
  shows "\<exists>n1. with_brother p q A p = Some n1 \<and> strip n1 = strip n"
    "\<exists>b. with_brother p q A q = Some b \<and> np_ok b \<and> np_keys b = [] \<and> np_rids b = [] \<and> np_leaf b = np_leaf n"
    "dom A \<subseteq> dom (with_brother p q A)"
  using assms by (auto simp: with_brother_def Let_def bare_brother_def strip_eq)

lemma moved_pages:
  assumes "A p = Some n" "np_leaf n \<Longrightarrow> np_next n \<notin> {p, q, u}" "p \<noteq> q" "u \<noteq> p" "u \<noteq> q"
    and "\<not> np_leaf n \<Longrightarrow> rid_page ` set (np_rids n) \<subseteq> dom A - {p, q, u}"
  shows "\<exists>n2. moved_half p q m (with_brother p q A) p = Some n2 \<and> strip n2 = strip (cut_page (take m) (take m) n)"
    "moved_half p q m (with_brother p q A) u = A u"
proof -
  have "\<not> np_leaf n \<Longrightarrow> p \<notin> rid_page ` set (drop m (np_rids n)) \<and> u \<notin> rid_page ` set (drop m (np_rids n))"
    using assms(6) by (fastforce dest: in_set_dropD)
  then show "\<exists>n2. moved_half p q m (with_brother p q A) p = Some n2 \<and> strip n2 = strip (cut_page (take m) (take m) n)"
    "moved_half p q m (with_brother p q A) u = A u"
    using assms(1-5) by (auto simp: moved_half_def with_brother_def Let_def bare_brother_def strip_eq cut_page_def reparent_def)
qed

lemma new_header_layout [simp]: "col_len (new_header A h) = col_len h" "btree_order (new_header A h) = btree_order h"
  by (simp_all add: new_header_def)

lemma strip_fields:
  "strip m = strip n \<Longrightarrow> np_ok m = np_ok n \<and> np_leaf m = np_leaf n \<and> np_parent m = np_parent n \<and> np_keys m = np_keys n \<and> np_rids m = np_rids n"
  by (simp add: strip_eq)

lemma run_split:
  assumes t: "atree h A (plug ((u, ks, ls, rs) # fs) t)" "bt_ok t" and h: "ix_num_pages h < 524288" and q: "q = new_page h"
    and p: "p = bt_page t" and i: "(i, p, True) \<in> G" and m: "m = node_size t div 2" "2 \<le> node_size t" "l = node_size t - m"
    and order: "int (node_size t) \<le> btree_order h + 1" "int (Suc (length ls + length rs)) \<le> btree_order h"
    and w: "\<forall>k \<in> set (tree_keys t). length k = nat (col_len h)"
  shows "triple (conf fd s0 h A {} G (Suc (Suc (l + Suc r))))
    (andThen (new_brother i) (\<lambda>bro. andThen (move_half i bro) (\<lambda>split_idx. link_brother i bro split_idx)))
    (\<lambda>k. conf fd s0 (tail_header p q (new_header A h)) (after_split p q u (length ls) m A) {(k, u, True)} {} r)"
proof -
  obtain f n where f: "A u = Some f" "np_ok f" "map rid_page (np_rids f) = map bt_page ls @ p # map bt_page rs"
    "length (np_keys f) = length (np_rids f)" "length (np_rids f) = Suc (length ls + length rs)" "p \<notin> set (map bt_page ls)"
    and n: "A p = Some n" "np_ok n" "np_leaf n = is_leaf_tree t" "np_parent n = u" "np_keys n = tree_keys t"
    "length (np_keys n) = node_size t" "length (np_rids n) = node_size t"
    and leaf: "np_leaf n \<Longrightarrow> np_next n \<in> dom A \<and> np_next n \<notin> {p, q, u} \<and> 1 \<le> np_next n \<and> np_next n \<le> 524288"
    and inner: "\<not> np_leaf n \<Longrightarrow> rid_page ` set (np_rids n) \<subseteq> dom A - {p, q, u}"
    and d: "u \<noteq> p" "u \<noteq> q" "p \<noteq> q" and g: "can_grow h A"
    and r: "1 \<le> p" "p \<le> 524288" "1 \<le> u" "u \<le> 524288" "1 \<le> q" "q \<le> 524288"
    by (rule split_facts[OF t h q p]) (rule that)
  let ?A1 = "with_brother p q A" let ?A2 = "moved_half p q m ?A1" let ?g = "new_header A h"
  have leaf': "np_leaf n \<Longrightarrow> np_next n \<noteq> p \<and> np_next n \<noteq> q" "np_leaf n \<Longrightarrow> np_next n \<notin> {p, q, u}" using leaf by auto
  obtain n1 where n1: "?A1 p = Some n1" "strip n1 = strip n" using brother_pages(1)[where A = A and p = p and n = n, OF n(1) leaf'(1) d(3)] by blast
  obtain b where b: "?A1 q = Some b" "np_ok b" "np_keys b = []" "np_rids b = []" "np_leaf b = np_leaf n"
    using brother_pages(2)[where A = A and p = p and n = n, OF n(1) leaf'(1) d(3)] by blast
  have dom1: "dom A \<subseteq> dom ?A1" using brother_pages(3)[where A = A and p = p and n = n, OF n(1) leaf'(1) d(3)] .
  obtain n2 where n2: "?A2 p = Some n2" "strip n2 = strip (cut_page (take m) (take m) n)"
    using moved_pages(1)[where A = A and p = p and n = n, OF n(1) leaf'(2) d(3,1,2) inner] by blast
  have f2: "?A2 u = Some f" using moved_pages(2)[where A = A and p = p and n = n, OF n(1) leaf'(2) d(3,1,2) inner] f(1) by simp
  note s1 = strip_fields[OF n1(2)] and s2 = strip_fields[OF n2(2)]
  have m0: "0 < m" "m \<le> node_size t" using m by simp_all
  have k2: "np_keys n2 = take m (np_keys n)" "length (np_keys n2) = m" using s2 m0 n(6) by (simp_all add: cut_page_def)
  have last2: "last (np_keys n2) \<in> set (tree_keys t)"
    using k2 m0 n(5) last_in_set[of "np_keys n2"] in_set_takeD[of "last (np_keys n2)" m "tree_keys t"] by fastforce
  have NB: "triple (conf fd s0 h A {} G (Suc (Suc (l + Suc r)))) (new_brother i)
      (\<lambda>j. conf fd s0 ?g ?A1 {} (insert (j, q, True) ({} \<union> G)) (l + Suc r))"
    by (rule run_new_brother[OF _ n(1,2) _ g q _ r(1,2)]) (use i d n(4) r leaf in \<open>auto simp: page_no_ok\<close>)
  have MH: "triple (conf fd s0 ?g ?A1 {} (insert (j, q, True) ({} \<union> G)) (l + Suc r)) (move_half i j)
      (\<lambda>x s. x = int m \<and> conf fd s0 ?g ?A2 {} (insert (j, q, True) ({} \<union> G)) (Suc r) s)" for j
  proof (rule run_move_half[OF _ _ d(3) n1(1) _ _ _ _ b(1-4) _ _ _ _])
    show "\<forall>k\<in>set (np_keys n1). length k = nat (col_len ?g)" using s1 n(5) w by simp
    show "rid_page ` set (np_rids n1) \<subseteq> dom ?A1 - {p, q}" if "\<not> np_leaf b" using inner b(5) that s1 dom1 by auto
    show "int_ok q" using r by (simp add: page_no_ok)
  qed (use i s1 n m order(1) in simp_all)
  have LB: "triple (conf fd s0 ?g ?A2 {} (insert (j, q, True) ({} \<union> G)) (Suc r)) (link_brother i j (int m))
      (\<lambda>k. conf fd s0 (tail_header p q ?g) (after_split p q u (length ls) m A) {(k, u, True)} {} r)" for j
  proof -
    have "triple (conf fd s0 ?g ?A2 {} (insert (j, q, True) ({} \<union> G)) (Suc r)) (link_brother i j (int (length (np_keys n2))))
      (\<lambda>k. conf fd s0 (tail_header p q ?g) (?A2(u \<mapsto> linked (length (map bt_page ls)) q (last (np_keys n2)) f)) {(k, u, True)}
        (insert (j, q, True) ({} \<union> G)) r)"
    proof (rule run_link_brother[OF _ _ d(3) n2(1) _ _ _ _ f2 f(2) d(1,2) f(3,6,4) _ r(5,6)])
      show "length (last (np_keys n2)) = nat (col_len ?g)" using last2 w by simp
      show "np_keys n2 \<noteq> []" using k2(2) m0(1) by auto
      show "np_ok n2" "np_parent n2 = u" using s2 n by (simp_all add: cut_page_def)
      show "int (length (np_rids f)) \<le> btree_order ?g" using order(2) f(5) by simp
    qed (use i in simp_all)
    then show ?thesis
      unfolding k2(2) by (rule triple_conseq) (auto simp: after_split_def Let_def n2(1) f2 elim!: conf_less)
  qed
  show ?thesis
  proof (intro triple_bind[OF NB] triple_bind[OF MH])
    fix j x
    show "triple (\<lambda>s. x = int m \<and> conf fd s0 ?g ?A2 {} (insert (j, q, True) ({} \<union> G)) (Suc r) s) (link_brother i j x)
        (\<lambda>k. conf fd s0 (tail_header p q ?g) (after_split p q u (length ls) m A) {(k, u, True)} {} r)"
      using LB[of j] by (cases "x = int m") (simp_all add: triple_def)
  qed
qed

section \<open>The climb\<close>

definition key_widths :: "IndexFileHeader \<Rightarrow> bt \<Rightarrow> bool" where
  "key_widths h t \<longleftrightarrow> (\<forall>e \<in> set (bt_entries t). length (fst e) = nat (col_len h))"

definition settled :: "IndexFileHeader \<Rightarrow> (int \<rightharpoonup> npage) \<Rightarrow> bt \<Rightarrow> bool" where
  "settled h A t \<longleftrightarrow> atree h A t \<and> bt_shape t \<and> (\<exists>n. bt_level n t) \<and> bt_root_fill (min_fill h) (nat (btree_order h)) t"

definition climbing :: "IndexFileHeader \<Rightarrow> (int \<rightharpoonup> npage) \<Rightarrow> frame list \<Rightarrow> bt \<Rightarrow> bool" where
  "climbing h A fs t \<longleftrightarrow> atree h A (plug fs t) \<and> bt_ok (plug fs t) \<and> (\<exists>n. bt_level n (plug fs t)) \<and>
     bulge (min_fill h) (nat (btree_order h)) fs t \<and> key_widths h (plug fs t) \<and> ix_num_pages h \<le> 524288"

lemma climbing_settled: "climbing h A fs t \<Longrightarrow> node_size t \<le> nat (btree_order h) \<Longrightarrow> settled h A (plug fs t)"
  by (simp add: climbing_def settled_def bt_shape_def bulge_done)

lemma plug_entries: "bt_entries (plug fs t) = leaf_entries (lefts fs) @ bt_entries t @ leaf_entries (rights fs)"
  by (simp add: bt_entries_def leaves_plug)

lemma tree_key_widths: "bt_ok t \<Longrightarrow> key_widths h t \<Longrightarrow> \<forall>k \<in> set (tree_keys t). length k = nat (col_len h)"
proof (cases t)
  case (Leaf p es)
  assume "key_widths h t"
  then show ?thesis using Leaf by (auto simp: key_widths_def)
next
  case (Inner p ks cs)
  assume ok: "bt_ok t" and w: "key_widths h t"
  show ?thesis
  proof
    fix k assume "k \<in> set (tree_keys t)"
    then obtain c where c: "c \<in> set cs" "k = bt_last c" using ok Inner by auto
    then obtain e where e: "e \<in> set (bt_entries c)" "k = fst e" using ok Inner bt_last_mem[of c] by auto
    then have "e \<in> set (bt_entries t)" using c(1) Inner by (auto simp: entries_inner)
    then show "length k = nat (col_len h)" using w e(2) by (simp add: key_widths_def)
  qed
qed

lemma raised_entries: "bt_entries (plug fs (raised (u, ks, ls, rs) (split_left m t) (split_right m q t))) = bt_entries (plug ((u, ks, ls, rs) # fs) t)"
proof -
  have "leaf_entries (bt_leaves (split_left m t) @ bt_leaves (split_right m q t)) = leaf_entries (bt_leaves t)"
    using split_entries[of m t q] by (simp only: bt_entries_def)
  then show ?thesis
    unfolding bt_entries_def raised_leaves leaves_plug[of "(u, ks, ls, rs) # fs"] leaf_entries_append by simp
qed

lemma tail_header_fields [simp]:
  "btree_order (tail_header p q h) = btree_order h" "col_len (tail_header p q h) = col_len h"
  "ix_num_pages (tail_header p q h) = ix_num_pages h"
  by (simp_all add: tail_header_def)

lemma new_header_pages: "ix_num_pages (new_header A h) \<le> ix_num_pages h + 1"
  by (simp add: new_header_def)

lemma split_climbs:
  assumes t: "atree h A (plug ((u, ks, ls, rs) # fs) t)" "bt_ok (plug ((u, ks, ls, rs) # fs) t)" "\<exists>n. bt_level n (plug ((u, ks, ls, rs) # fs) t)"
    and w: "key_widths h (plug ((u, ks, ls, rs) # fs) t)" and num: "ix_num_pages h < 524288"
    and hi: "hi = nat (btree_order h)" "2 < hi" and lo: "lo = min_fill h"
    and fill: "path_fill lo hi fs" "\<forall>c \<in> set ls \<union> set rs. bt_fill lo hi c" "fs \<noteq> [] \<Longrightarrow> lo \<le> Suc (length ls + length rs)"
      "Suc (length ls + length rs) \<le> hi" "kids_fill lo hi t" "node_size t = Suc hi"
    and m: "m = node_size t div 2" and q: "q = new_page h"
  shows "climbing (tail_header (bt_page t) q (new_header A h)) (after_split (bt_page t) q u (length ls) m A) fs
      (raised (u, ks, ls, rs) (split_left m t) (split_right m q t))"
proof -
  let ?l = "split_left m t" and ?r = "split_right m q t" and ?g = "tail_header (bt_page t) q (new_header A h)"
  let ?t = "raised (u, ks, ls, rs) ?l ?r"
  have pok: "path_ok ((u, ks, ls, rs) # fs) (bt_last t)" "bt_ok t" using t(2) unfolding ok_plug by blast+
  have m': "0 < m" "m < node_size t" "m = Suc hi div 2" using m fill(6) hi(2) by auto
  have mf: "lo = Suc hi div 2" using lo hi by (simp add: min_fill_def nat_div_distrib nat_add_distrib)
  have mg: "min_fill ?g = lo" using lo by (simp add: min_fill_def)
  note so = split_ok[OF pok(2) m'(1,2)]
  have "atree ?g (after_split (bt_page t) q u (length ls) m A) (plug fs ?t)"
    using atree_split_leaf[OF t(1) _ pok(2) m'(1,2) q num] atree_split_inner[OF t(1) _ pok(2) m'(1,2) q num] by blast
  moreover have "bt_ok (plug fs ?t)"
    unfolding ok_plug using raised_ok[OF pok(1) so(1,2)] so(3) by simp
  moreover have "\<exists>n. bt_level n (plug fs ?t)"
  proof -
    obtain k where k: "bt_level k t" "path_level k ((u, ks, ls, rs) # fs)" using t(3) unfolding level_plug by auto
    show ?thesis unfolding level_plug using raised_level[OF k(2)] split_level[OF k(1)] by blast
  qed
  moreover have "bulge lo hi fs ?t"
    using split_fill[OF fill(5,6) m'(3) mf hi(2)] by (intro bulge_raised fill(1-4))
  moreover have "key_widths ?g (plug fs ?t)" using w unfolding key_widths_def raised_entries by simp
  ultimately show ?thesis using num new_header_pages[of A h] hi(1) mg by (simp add: climbing_def)
qed

lemma climbing_focus:
  assumes "climbing h A fs t"
  obtains n where "A (bt_page t) = Some n" "np_ok n" "np_parent n = up_page fs" "np_keys n = tree_keys t"
    "length (np_keys n) = node_size t" "length (np_rids n) = node_size t" "bt_ok t" "\<forall>k \<in> set (tree_keys t). length k = nat (col_len h)"
    "1 \<le> bt_page t" "bt_page t \<le> 524288" "up_page fs = NDX_NO_PAGE \<longleftrightarrow> fs = []"
proof -
  have a: "atree h A (plug fs t)" and ok: "bt_ok t" and room: "ix_num_pages h \<le> 524288"
    and w: "key_widths h (plug fs t)" using assms unfolding climbing_def ok_plug by blast+
  have rep: "arep A (up_page fs) t" using a unfolding atree_def rep_plug by blast
  have "bt_page t \<in> set (bt_pages (plug fs t))" unfolding set_pages_plug using bt_page_in by blast
  then have r: "1 \<le> bt_page t" "bt_page t \<le> 524288" using atree_pages[OF a] room by fastforce+
  have "key_widths h t" using w unfolding key_widths_def plug_entries by simp
  note tw = tree_key_widths[OF ok this]
  have "up_page fs = NDX_NO_PAGE \<longleftrightarrow> fs = []"
  proof (cases fs)
    case (Cons f gs)
    obtain u ks ls rs where f: "f = (u, ks, ls, rs)" by (cases f)
    have "u \<in> set (bt_pages (plug fs t))" unfolding set_pages_plug Cons f by simp
    then have "2 \<le> u" by (rule atree_pages(1)[OF a])
    then show ?thesis by (simp add: Cons f NDX_NO_PAGE_def)
  qed simp
  then show ?thesis using arep_root[OF rep] that ok tw r by metis
qed

text \<open>One turn of the loop for a node with a parent.\<close>

lemma run_split_up:
  assumes c: "climbing h A ((u, ks, ls, rs) # fs) t" and over: "node_size t = Suc (nat (btree_order h))" and order: "2 < btree_order h"
    and i: "(i, bt_page t, True) \<in> G" and R: "R = nat (btree_order h) + 5" and num: "ix_num_pages h < 524288"
  shows "\<exists>h' A' t'. climbing h' A' fs t' \<and> bt_entries (plug fs t') = bt_entries (plug ((u, ks, ls, rs) # fs) t) \<and>
    ix_same_layout h h' \<and> ix_num_pages h' \<le> ix_num_pages h + 1 \<and> bt_page t' = u \<and>
    triple (conf fd s0 h A {} G R) (split_node i) (\<lambda>k. conf fd s0 h' A' {(k, u, True)} {} 0)"
proof -
  let ?hi = "nat (btree_order h)" let ?t = "plug ((u, ks, ls, rs) # fs) t"
  obtain n where n: "A (bt_page t) = Some n" "np_ok n" "np_parent n = up_page ((u, ks, ls, rs) # fs)" "np_keys n = tree_keys t"
    "length (np_keys n) = node_size t" "length (np_rids n) = node_size t" "bt_ok t" "\<forall>k \<in> set (tree_keys t). length k = nat (col_len h)"
    "1 \<le> bt_page t" "bt_page t \<le> 524288" "up_page ((u, ks, ls, rs) # fs) = NDX_NO_PAGE \<longleftrightarrow> (u, ks, ls, rs) # fs = []"
    by (rule climbing_focus[OF c]) (rule that)
  define m where "m = node_size t div 2"
  define q where "q = new_page h"
  let ?h' = "tail_header (bt_page t) q (new_header A h)" and ?A' = "after_split (bt_page t) q u (length ls) m A"
    and ?t' = "raised (u, ks, ls, rs) (split_left m t) (split_right m q t)"
  have a: "atree h A ?t" "bt_ok ?t" "\<exists>n. bt_level n ?t" "key_widths h ?t" "bulge (min_fill h) ?hi ((u, ks, ls, rs) # fs) t" using c unfolding climbing_def by blast+
  have fill: "path_fill (min_fill h) ?hi ((u, ks, ls, rs) # fs)" "kids_fill (min_fill h) ?hi t" using a(5) by (simp_all only: bulge_def)
  have sz: "Suc (length ls + length rs) \<le> ?hi" "fs \<noteq> [] \<Longrightarrow> min_fill h \<le> Suc (length ls + length rs)"
    "path_fill (min_fill h) ?hi fs" "\<forall>c \<in> set ls \<union> set rs. bt_fill (min_fill h) ?hi c" using fill(1) by auto
  have up: "climbing ?h' ?A' fs ?t'"
    by (rule split_climbs[OF a(1-4) num refl _ refl sz(3,4,2,1) fill(2) over m_def q_def]) (use order in simp_all)
  have "triple (conf fd s0 h A {} G (Suc (Suc ((node_size t - m) + Suc 0))))
      (andThen (new_brother i) (\<lambda>bro. andThen (move_half i bro) (\<lambda>split_idx. link_brother i bro split_idx)))
      (\<lambda>k. conf fd s0 ?h' ?A' {(k, u, True)} {} 0)"
    by (rule run_split[OF a(1) n(7) _ q_def refl i m_def _ refl]) (use num over order sz(1) n(8) in auto)
  then have REST: "triple (conf fd s0 h A {} G R)
      (andThen (new_brother i) (\<lambda>bro. andThen (move_half i bro) (\<lambda>split_idx. link_brother i bro split_idx)))
      (\<lambda>k. conf fd s0 ?h' ?A' {(k, u, True)} {} 0)"
    by (rule triple_pre) (erule conf_less; use R over order in \<open>simp add: m_def\<close>)
  have "triple (conf fd s0 h A {} G R) (split_node i) (\<lambda>k. conf fd s0 ?h' ?A' {(k, u, True)} {} 0)"
    unfolding split_node_def
  proof (rule run_header[where p = "bt_page t" and d = True and n = n])
    have "parent (np_header n) \<noteq> NDX_NO_PAGE" using n(3,11) by simp
    then show "triple (conf fd s0 h A {} G R)
      (andThen (whenP (parent (np_header n) = NDX_NO_PAGE) (grow_root i))
        (\<lambda>_. andThen (new_brother i) (\<lambda>bro. andThen (move_half i bro) (\<lambda>split_idx. link_brother i bro split_idx))))
      (\<lambda>k. conf fd s0 ?h' ?A' {(k, u, True)} {} 0)"
      by (rule triple_when_no) (rule REST)
  qed (use i n in simp_all)
  moreover have "ix_same_layout h ?h'" by (simp add: ix_same_layout_def tail_header_def new_header_def)
  moreover have "ix_num_pages ?h' \<le> ix_num_pages h + 1" using new_header_pages[of A h] by simp
  ultimately show ?thesis using up raised_entries[of fs u ks ls rs m t q] raised_page by blast
qed

text \<open>The root has no parent yet.\<close>

lemma run_split_root:
  assumes c: "climbing h A [] t" and over: "node_size t = Suc (nat (btree_order h))" and order: "2 < btree_order h"
    and i: "(i, bt_page t, True) \<in> G" and R: "R = nat (btree_order h) + 5" and room: "ix_num_pages h + 2 \<le> 524288"
  shows "\<exists>h' A' t'. climbing h' A' [] t' \<and> bt_entries t' = bt_entries t \<and> node_size t' = 2 \<and>
    ix_same_layout h h' \<and> ix_num_pages h' \<le> ix_num_pages h + 2 \<and>
    triple (conf fd s0 h A {} G R) (split_node i) (\<lambda>k. conf fd s0 h' A' {(k, bt_page t', True)} {} 0)"
proof -
  let ?hi = "nat (btree_order h)"
  obtain n where n: "A (bt_page t) = Some n" "np_ok n" "np_parent n = up_page []" "np_keys n = tree_keys t"
    "length (np_keys n) = node_size t" "length (np_rids n) = node_size t" "bt_ok t" "\<forall>k \<in> set (tree_keys t). length k = nat (col_len h)"
    "1 \<le> bt_page t" "bt_page t \<le> 524288" "up_page [] = NDX_NO_PAGE \<longleftrightarrow> ([] :: frame list) = []"
    by (rule climbing_focus[OF c]) (rule that)
  have a: "atree h A t" "\<exists>n. bt_level n t" "key_widths h t" "bulge (min_fill h) ?hi [] t"
    using c by (simp_all add: climbing_def)
  define q where "q = new_page h"
  define g where "g = (new_header A h)\<lparr>root_page := q\<rparr>"
  define B where "B = A(q \<mapsto> root_over (bt_page t) n, bt_page t \<mapsto> n\<lparr>np_parent := q\<rparr>)"
  let ?fs = "[(q, [bt_last t], [], [])] :: frame list"
  have num: "ix_num_pages h < 524288" "ix_num_pages g \<le> ix_num_pages h + 1" using room new_header_pages[of A h] by (simp_all add: g_def)
  have b: "atree g B (plug ?fs t)" unfolding g_def B_def by (rule atree_grow[OF a(1) n(7) num(1) n(1) q_def])
  have f: "free_ok h A (set (bt_pages t))" using a(1) by (simp add: atree_def)
  have fr: "NDX_INIT_ROOT_PAGE \<le> ix_num_pages h" using atree_pages(1,2)[OF a(1) bt_page_in] by (simp add: NDX_INIT_ROOT_PAGE_def)
  have qp: "q \<noteq> bt_page t" "can_grow h A" using free_ok_new(1,2)[OF f num(1) fr] bt_page_in[of t] by (auto simp: q_def)
  have g': "btree_order g = btree_order h" "col_len g = col_len h" "min_fill g = min_fill h" "ix_same_layout h g"
    by (simp_all add: g_def min_fill_def ix_same_layout_def new_header_def)
  have ok: "bt_ok (plug ?fs t)" using n(7) by simp
  have lev: "\<exists>n. bt_level n (plug ?fs t)" using a(2) by (auto intro: exI[of _ "Suc _"])
  have w: "key_widths g (plug ?fs t)" using a(3) g'(2) by (simp add: key_widths_def entries_inner)
  define m where "m = node_size t div 2"
  define v where "v = new_page g"
  let ?h' = "tail_header (bt_page t) v (new_header B g)" and ?A' = "after_split (bt_page t) v q 0 m B"
    and ?t' = "raised (q, [bt_last t], [], []) (split_left m t) (split_right m v t)"
  have up: "climbing ?h' ?A' [] ?t'"
    using split_climbs[OF b ok lev w _ refl _ refl _ _ _ _ _ _ m_def v_def] a(4) room num(2) order over g' by (simp add: bulge_def)
  have w': "\<forall>k \<in> set (tree_keys t). length k = nat (col_len g)" using n(8) g'(2) by simp
  have "triple (conf fd s0 g B {} G (Suc (Suc ((node_size t - m) + Suc 0))))
      (andThen (new_brother i) (\<lambda>bro. andThen (move_half i bro) (\<lambda>split_idx. link_brother i bro split_idx)))
      (\<lambda>k. conf fd s0 ?h' (after_split (bt_page t) v q (length ([] :: bt list)) m B) {(k, q, True)} {} 0)"
    by (rule run_split[OF b n(7) _ v_def refl i m_def _ refl _ _ w']) (use room num(2) over order g' in simp_all)
  then have REST: "triple (conf fd s0 g B {} ({} \<union> G) (nat (btree_order h) + 4))
      (andThen (new_brother i) (\<lambda>bro. andThen (move_half i bro) (\<lambda>split_idx. link_brother i bro split_idx)))
      (\<lambda>k. conf fd s0 ?h' ?A' {(k, q, True)} {} 0)"
    by (rule triple_conseq) (use over order in \<open>auto simp: m_def elim!: conf_less\<close>)
  have GR: "triple (conf fd s0 h A {} G (Suc (nat (btree_order h) + 4))) (grow_root i)
      (\<lambda>_. conf fd s0 g B {} ({} \<union> G) (nat (btree_order h) + 4))"
    unfolding g_def B_def
    by (rule run_grow_root[OF _ n(1,2) _ _ qp(2) q_def qp(1) n(9,10)])
      (use i n tree_keys_last[OF n(7)] last_in_set[of "tree_keys t"] in auto)
  have "triple (conf fd s0 h A {} G R) (split_node i) (\<lambda>k. conf fd s0 ?h' ?A' {(k, q, True)} {} 0)"
    unfolding split_node_def
  proof (rule run_header[where p = "bt_page t" and d = True and n = n])
    have "parent (np_header n) = NDX_NO_PAGE" using n(3) by simp
    then show "triple (conf fd s0 h A {} G R)
      (andThen (whenP (parent (np_header n) = NDX_NO_PAGE) (grow_root i))
        (\<lambda>_. andThen (new_brother i) (\<lambda>bro. andThen (move_half i bro) (\<lambda>split_idx. link_brother i bro split_idx))))
      (\<lambda>k. conf fd s0 ?h' ?A' {(k, q, True)} {} 0)"
      by (rule triple_when) (use GR REST in \<open>simp_all add: R numeral_eq_Suc\<close>)
  qed (use i n in simp_all)
  moreover have "ix_same_layout h ?h'" by (simp add: ix_same_layout_def tail_header_def new_header_def g_def)
  moreover have "bt_entries ?t' = bt_entries t"
    using raised_entries[of "[]" q "[bt_last t]" "[]" "[]" m t v] by (simp add: entries_inner)
  moreover have "node_size ?t' = 2" by (simp add: raised_def)
  moreover have "ix_num_pages ?h' \<le> ix_num_pages h + 2" using num(2) new_header_pages[of B g] by simp
  ultimately show ?thesis using up by (intro exI[of _ ?h'] exI[of _ ?A'] exI[of _ ?t']) simp
qed

text \<open>The loop.\<close>

definition settles :: "int \<Rightarrow> 'z pf_state_scheme \<Rightarrow> IndexFileHeader \<Rightarrow> int \<Rightarrow> entry list \<Rightarrow> IndexHandle \<times> 'z pf_state_scheme \<Rightarrow> bool" where
  "settles fd s0 h m es \<sigma> \<longleftrightarrow> (\<exists>h' A t. conf fd s0 h' A {} {} 0 \<sigma> \<and> settled h' A t \<and> bt_entries t = es \<and> ix_same_layout h h' \<and>
     ix_num_pages h' \<le> m)"

lemma ix_same_layout_trans: "ix_same_layout h g \<Longrightarrow> ix_same_layout g k \<Longrightarrow> ix_same_layout h k"
  by (simp add: ix_same_layout_def)

lemma ix_same_layout_refl [simp]: "ix_same_layout h h"
  by (simp add: ix_same_layout_def)

lemma settles_from: "settles fd s0 h' m es \<sigma> \<Longrightarrow> ix_same_layout h h' \<Longrightarrow> m \<le> n \<Longrightarrow> settles fd s0 h n es \<sigma>"
proof -
  assume a: "settles fd s0 h' m es \<sigma>" "ix_same_layout h h'" "m \<le> n"
  then obtain g A t where "conf fd s0 g A {} {} 0 \<sigma>" "settled g A t" "bt_entries t = es" "ix_same_layout h' g" "ix_num_pages g \<le> m"
    unfolding settles_def by blast
  then show ?thesis unfolding settles_def using ix_same_layout_trans[OF a(2)] a(3)
    by (intro exI[of _ g] exI[of _ A] exI[of _ t]) auto
qed

lemma settles_more: "settles fd s0 h m es \<sigma> \<Longrightarrow> m \<le> n \<Longrightarrow> settles fd s0 h n es \<sigma>"
  by (erule settles_from) simp_all

lemma solve_small:
  assumes c: "climbing h A fs t" and i: "(i, bt_page t, True) \<in> G" and n: "node_size t \<le> nat (btree_order h)" "0 \<le> btree_order h"
  shows "triple (conf fd s0 h A {} G R) (solve_overflow (Suc fuel) i) (\<lambda>_. settles fd s0 h (ix_num_pages h) (bt_entries (plug fs t)))"
proof -
  obtain n where n': "A (bt_page t) = Some n" "np_ok n" "length (np_rids n) = node_size t"
    by (rule climbing_focus[OF c]) (rule that)
  have le: "int (length (np_rids n)) \<le> btree_order h" using n n'(3) by simp
  show ?thesis
    unfolding solve_overflow.simps
  proof (rule run_header[where p = "bt_page t" and d = True and n = n], goal_cases)
    case 4
    show ?case
      by (rule run_the_header)
        (use le climbing_settled[OF c n(1)] in \<open>auto simp: settles_def elim!: conf_less intro!: triple_ret exI[of _ h] exI[of _ A] exI[of _ "plug fs t"]\<close>)
  qed (use i n' in simp_all)
qed

lemma solve_over:
  assumes c: "climbing h A fs t" and i: "(i, bt_page t, True) \<in> G" and n: "nat (btree_order h) < node_size t"
    and f: "\<And>k. triple (conf fd s0 h A {} G R) (split_node i) (\<lambda>k. conf fd s0 h' A' {(k, u, True)} {} 0)"
    and R: "R < length (pages s0)"
    and g: "\<And>k. triple (conf fd s0 h' A' {} {(k, u, True)} R) (solve_overflow fuel k) Q"
  shows "triple (conf fd s0 h A {} G R) (solve_overflow (Suc fuel) i) Q"
proof -
  obtain n where n': "A (bt_page t) = Some n" "np_ok n" "length (np_rids n) = node_size t"
    by (rule climbing_focus[OF c]) (rule that)
  have gt: "\<not> int (length (np_rids n)) \<le> btree_order h" using n n'(3) by linarith
  have g': "triple (conf fd s0 h' A' {(k, u, True)} {} 0) (solve_overflow fuel k) Q" for k
  proof (rule triple_pre[OF g])
    fix \<sigma> assume "conf fd s0 h' A' {(k, u, True)} {} 0 \<sigma>"
    then have "conf fd s0 h' A' {} {(k, u, True)} (length (pages s0) - 1) \<sigma>" by (rule conf_full) simp
    then show "conf fd s0 h' A' {} {(k, u, True)} R \<sigma>" by (rule conf_less) (use R in simp_all)
  qed
  show ?thesis
    unfolding solve_overflow.simps
  proof (rule run_header[where p = "bt_page t" and d = True and n = n], goal_cases)
    case 4
    show ?case by (rule run_the_header) (use gt triple_bind[OF f g'] in simp)
  qed (use i n' in simp_all)
qed

lemma run_solve_overflow:
  assumes "climbing h A fs t" "(i, bt_page t, True) \<in> G" "length fs + 2 \<le> fuel" "2 < btree_order h" "R = nat (btree_order h) + 5"
    and "R < length (pages s0)" "ix_num_pages h + int (length fs) + 2 \<le> 524288"
  shows "triple (conf fd s0 h A {} G R) (solve_overflow fuel i) (\<lambda>_. settles fd s0 h (ix_num_pages h + int (length fs) + 2) (bt_entries (plug fs t)))"
  using assms
proof (induction fs arbitrary: h A t i G fuel)
  case Nil
  then have "fuel = Suc (Suc (fuel - 2))" by simp
  then obtain f where f: "fuel = Suc (Suc f)" by blast
  show ?case
  proof (cases "node_size t \<le> nat (btree_order h)")
    case True
    then have "triple (conf fd s0 h A {} G R) (solve_overflow fuel i) (\<lambda>_. settles fd s0 h (ix_num_pages h) (bt_entries (plug [] t)))"
      using solve_small[OF Nil.prems(1,2)] Nil.prems(4) f by simp
    then show ?thesis by (rule triple_conseq) (auto elim: settles_more)
  next
    case False
    then have over: "node_size t = Suc (nat (btree_order h))" using Nil.prems(1) by (simp add: climbing_def bulge_def)
    obtain h' A' t' where s: "climbing h' A' [] t'" "bt_entries t' = bt_entries t" "node_size t' = 2" "ix_same_layout h h'"
      "ix_num_pages h' \<le> ix_num_pages h + 2" "triple (conf fd s0 h A {} G R) (split_node i) (\<lambda>k. conf fd s0 h' A' {(k, bt_page t', True)} {} 0)"
      using run_split_root[where fd = fd and ?s0.0 = s0, OF Nil.prems(1) over Nil.prems(4,2,5)] Nil.prems(7) by auto
    have o': "btree_order h' = btree_order h" using s(4) by (simp add: ix_same_layout_def)
    have "triple (conf fd s0 h' A' {} {(k, bt_page t', True)} R) (solve_overflow (Suc f) k) (\<lambda>_. settles fd s0 h' (ix_num_pages h') (bt_entries (plug [] t')))" for k
      by (rule solve_small[OF s(1)]) (use s(3) o' Nil.prems(4) in simp_all)
    then have "triple (conf fd s0 h' A' {} {(k, bt_page t', True)} R) (solve_overflow (Suc f) k) (\<lambda>_. settles fd s0 h (ix_num_pages h + int (length ([] :: frame list)) + 2) (bt_entries (plug [] t)))" for k
      by (rule triple_conseq) (use s(2,4,5) in \<open>auto elim: settles_from\<close>)
    then show ?thesis unfolding f by (intro solve_over[OF Nil.prems(1,2) _ s(6) Nil.prems(6)]) (use over in simp_all)
  qed
next
  case (Cons fr fs)
  obtain u ks ls rs where fr: "fr = (u, ks, ls, rs)" by (cases fr)
  obtain f where f: "fuel = Suc f" "length fs + 2 \<le> f" using Cons.prems(3) by (cases fuel) auto
  show ?case
  proof (cases "node_size t \<le> nat (btree_order h)")
    case True
    then have "triple (conf fd s0 h A {} G R) (solve_overflow fuel i) (\<lambda>_. settles fd s0 h (ix_num_pages h) (bt_entries (plug (fr # fs) t)))"
      using solve_small[OF Cons.prems(1,2)] Cons.prems(4) f by simp
    then show ?thesis by (rule triple_conseq) (auto elim: settles_more)
  next
    case False
    then have over: "node_size t = Suc (nat (btree_order h))" using Cons.prems(1) by (simp add: climbing_def bulge_def)
    obtain h' A' t' where s: "climbing h' A' fs t'" "bt_entries (plug fs t') = bt_entries (plug (fr # fs) t)" "ix_same_layout h h'"
      "ix_num_pages h' \<le> ix_num_pages h + 1" "bt_page t' = u"
      "triple (conf fd s0 h A {} G R) (split_node i) (\<lambda>k. conf fd s0 h' A' {(k, u, True)} {} 0)"
      using run_split_up[where fd = fd and ?s0.0 = s0, OF Cons.prems(1)[unfolded fr] over Cons.prems(4,2,5)] Cons.prems(7) unfolding fr by auto
    have o': "btree_order h' = btree_order h" using s(3) by (simp add: ix_same_layout_def)
    have "triple (conf fd s0 h' A' {} {(k, u, True)} R) (solve_overflow f k) (\<lambda>_. settles fd s0 h' (ix_num_pages h' + int (length fs) + 2) (bt_entries (plug fs t')))" for k
      by (rule Cons.IH[OF s(1)]) (use s(4,5) o' f(2) Cons.prems in simp_all)
    then have "triple (conf fd s0 h' A' {} {(k, u, True)} R) (solve_overflow f k) (\<lambda>_. settles fd s0 h (ix_num_pages h + int (length (fr # fs)) + 2) (bt_entries (plug (fr # fs) t)))" for k
      by (rule triple_conseq) (use s(2,3,4) in \<open>auto elim: settles_from\<close>)
    then show ?thesis unfolding f(1) by (intro solve_over[OF Cons.prems(1,2) _ s(6) Cons.prems(6)]) (use over in simp_all)
  qed
qed

end
