(* ===== verification/IndexRefresh.thy ===== *)
theory IndexRefresh
  imports IndexOverflow
begin

text \<open>
  \<open>maintain_parent\<close>: from a node to the root, the key of each child becomes its greatest key.
\<close>

fun refresh :: "frame list \<Rightarrow> byte list \<Rightarrow> frame list" where
  "refresh [] k = []"
| "refresh ((u, ks, ls, rs) # fs) k = (u, ks[length ls := k], ls, rs) # refresh fs (last (ks[length ls := k]))"

lemma refresh_same [simp]:
  "path_pages (refresh fs k) = path_pages fs" "lefts (refresh fs k) = lefts fs" "rights (refresh fs k) = rights fs"
  "length (refresh fs k) = length fs" "up_page (refresh fs k) = up_page fs" "path_level n (refresh fs k) = path_level n fs"
  "path_fill lo hi (refresh fs k) = path_fill lo hi fs" "refresh fs k = [] \<longleftrightarrow> fs = []"
  by (induction fs k arbitrary: n rule: refresh.induct) simp_all

lemma refresh_root: "fs \<noteq> [] \<Longrightarrow> fst (last (refresh fs k)) = fst (last fs)"
  by (induction fs k rule: refresh.induct) simp_all

lemma refresh_page: "bt_page (plug (refresh fs k) t) = bt_page (plug fs t)"
  by (cases "fs = []") (simp_all add: plug_root refresh_root)

text \<open>On a path with the right keys nothing changes. A path whose keys are right but for those on the way
  down is put in order.\<close>

lemma refresh_id: "path_ok fs k \<Longrightarrow> refresh fs k = fs"
proof (induction fs k rule: refresh.induct)
  case (2 u ks ls rs fs k)
  have ks: "ks[length ls := k] = ks" using 2(2) by (simp add: list_update_append)
  have "path_ok fs (last ks)" using 2(2) unfolding path_ok.simps by blast
  then have "refresh fs (last ks) = fs" using 2(1)[unfolded ks] by blast
  then show ?case by (simp only: refresh.simps ks)
qed simp

fun path_sib :: "frame list \<Rightarrow> bool" where
  "path_sib [] = True"
| "path_sib ((p, ks, ls, rs) # fs) \<longleftrightarrow> (\<exists>k. ks = map bt_last ls @ k # map bt_last rs) \<and>
     (\<forall>c \<in> set ls \<union> set rs. bt_ok c) \<and> path_sib fs"

lemma path_ok_sib: "path_ok fs k \<Longrightarrow> path_sib fs"
  by (induction fs k rule: path_ok.induct) auto

lemma refresh_sib: "path_sib fs \<Longrightarrow> path_ok (refresh fs k) k"
proof (induction fs k rule: refresh.induct)
  case (2 u ks ls rs fs k)
  then have "ks[length ls := k] = map bt_last ls @ k # map bt_last rs" by (auto simp: list_update_append)
  then show ?case using 2 by simp
qed simp

text \<open>The new key is the last of the whole tree: every key on the way is the last of its node.\<close>

lemma refresh_ok: "path_ok fs k' \<Longrightarrow> rights fs = [] \<Longrightarrow> path_ok (refresh fs k) k"
proof (induction fs k arbitrary: k' rule: refresh.induct)
  case (2 u ks ls rs fs k)
  have "rs = []"
  proof (rule ccontr)
    assume "rs \<noteq> []"
    then obtain c cs where "rs = c # cs" by (cases rs) auto
    then show False using 2(2,3) bt_leaves_ne[of c] by simp
  qed
  then have ks: "ks[length ls := k] = map bt_last ls @ [k]" and ok: "path_ok fs (last ks)" "\<forall>c \<in> set ls. bt_ok c"
    using 2(2) by (auto simp: list_update_append)
  have "path_ok (refresh fs (last (ks[length ls := k]))) (last (ks[length ls := k]))"
    using 2(1)[OF ok(1)] 2(3) \<open>rs = []\<close> by simp
  then show ?case using ks ok(2) \<open>rs = []\<close> by simp
qed simp

section \<open>Its pages\<close>

text \<open>The nodes of a path, without what hangs beside it.\<close>

fun spine :: "(int \<rightharpoonup> npage) \<Rightarrow> frame list \<Rightarrow> int \<Rightarrow> bool" where
  "spine A [] q = True"
| "spine A ((p, ks, ls, rs) # fs) q \<longleftrightarrow> inner_at A p (up_page fs) ks (map bt_page ls @ q # map bt_page rs) \<and>
     q \<notin> bt_page ` set ls \<and> spine A fs p"

definition spine_at :: "IndexFileHeader \<Rightarrow> (int \<rightharpoonup> npage) \<Rightarrow> frame list \<Rightarrow> int \<Rightarrow> bool" where
  "spine_at h A fs p \<longleftrightarrow> spine A fs p \<and> distinct (map fst fs) \<and> p \<notin> fst ` set fs \<and>
     NDX_NO_PAGE \<notin> fst ` set fs \<and> (\<forall>(u, ks, ls, rs) \<in> set fs. \<forall>k \<in> set ks. length k = nat (col_len h))"

fun refresh_pages :: "(int \<rightharpoonup> npage) \<Rightarrow> frame list \<Rightarrow> byte list \<Rightarrow> (int \<rightharpoonup> npage)" where
  "refresh_pages A [] k = A"
| "refresh_pages A ((u, ks, ls, rs) # fs) k =
     refresh_pages (A(u \<mapsto> (the (A u))\<lparr>np_keys := ks[length ls := k]\<rparr>)) fs (last (ks[length ls := k]))"

lemma spine_cong: "nodes_agree (fst ` set fs) A B \<Longrightarrow> spine A fs q \<Longrightarrow> spine B fs q"
proof (induction fs arbitrary: q)
  case (Cons fr fs)
  obtain u ks ls rs where fr: "fr = (u, ks, ls, rs)" by (cases fr)
  have "spine B fs u" using Cons.prems by (intro Cons.IH) (auto simp: nodes_agree_def fr)
  moreover have "map_option strip (A u) = map_option strip (B u)" using Cons.prems(1) by (simp add: nodes_agree_def fr)
  ultimately show ?case using Cons.prems(2) inner_at_cong[of A u B] by (simp add: fr)
qed simp

lemma spine_dom: "spine A fs q \<Longrightarrow> fst ` set fs \<subseteq> dom A"
  by (induction A fs q rule: spine.induct) (auto simp: inner_at_def)

lemma refresh_pages_other: "y \<notin> fst ` set fs \<Longrightarrow> refresh_pages A fs k y = A y"
  by (induction A fs k rule: refresh_pages.induct) simp_all

lemma refresh_pages_links: "fst ` set fs \<subseteq> dom A \<Longrightarrow> links (refresh_pages A fs k y) = links (A y)"
proof (induction A fs k rule: refresh_pages.induct)
  case (2 A u ks ls rs fs k)
  let ?A = "A(u \<mapsto> (the (A u))\<lparr>np_keys := ks[length ls := k]\<rparr>)"
  have "fst ` set fs \<subseteq> dom ?A" using 2(2) by auto
  then have "links (refresh_pages ?A fs (last (ks[length ls := k])) y) = links (?A y)" by (rule 2(1))
  also have "\<dots> = links (A y)" using 2(2) by (auto simp: links_def)
  finally show ?case by simp
qed simp

lemma refresh_spine:
  assumes "spine A fs p" "distinct (map fst fs)"
  shows "spine (refresh_pages A fs k) (refresh fs k) p"
  using assms
proof (induction A fs k arbitrary: p rule: refresh_pages.induct)
  case (2 A u ks ls rs fs k)
  let ?ks = "ks[length ls := k]" let ?A = "A(u \<mapsto> (the (A u))\<lparr>np_keys := ?ks\<rparr>)"
  have u: "u \<notin> fst ` set fs" using 2(3) by simp
  have s: "spine A fs u" using 2(2) by simp
  have "spine ?A fs u" by (rule spine_cong[OF _ s]) (unfold nodes_agree_def, use u in \<open>metis fun_upd_other\<close>)
  moreover have "distinct (map fst fs)" using 2(3) by simp
  ultimately have "spine (refresh_pages ?A fs (last ?ks)) (refresh fs (last ?ks)) u" by (rule 2(1))
  moreover have "inner_at (refresh_pages ?A fs (last ?ks)) u (up_page fs) ?ks (map bt_page ls @ p # map bt_page rs)"
  proof -
    obtain n where n: "A u = Some n" "np_ok n" "\<not> np_leaf n" "np_parent n = up_page fs" "np_keys n = ks"
      "map rid_page (np_rids n) = map bt_page ls @ p # map bt_page rs" "length ks = length (map bt_page ls @ p # map bt_page rs)"
      using 2(2) by (auto simp: inner_at_def)
    have "refresh_pages ?A fs (last ?ks) u = Some (n\<lparr>np_keys := ?ks\<rparr>)" using refresh_pages_other[OF u, of ?A] n(1) by simp
    then show ?thesis unfolding inner_at_def by (intro exI[of _ "n\<lparr>np_keys := ?ks\<rparr>"]) (simp add: n)
  qed
  ultimately show ?case using 2(2) by simp
qed simp

text \<open>The whole path: the nodes and what hangs beside them.\<close>

lemma path_rep_spine:
  "path_rep A fs q \<Longrightarrow> distinct (path_pages fs) \<Longrightarrow> q \<notin> set (path_pages fs) \<Longrightarrow> spine A fs q"
proof (induction A fs q rule: path_rep.induct)
  case (2 A p ks ls rs fs q)
  have "q \<notin> bt_page ` set ls" using 2(4) bt_page_in by fastforce
  then show ?case using 2 by auto
qed simp

lemma spine_path_rep:
  "spine A fs q \<Longrightarrow> \<forall>(u, ks, ls, rs) \<in> set fs. \<forall>c \<in> set ls \<union> set rs. arep A u c \<Longrightarrow> path_rep A fs q"
  by (induction A fs q rule: spine.induct) auto

lemma fst_path_pages: "fst ` set fs \<subseteq> set (path_pages fs)" "distinct (path_pages fs) \<Longrightarrow> distinct (map fst fs)"
proof -
  show s: "fst ` set fs \<subseteq> set (path_pages fs)" for fs by (induction fs rule: path_pages.induct) auto
  show "distinct (path_pages fs) \<Longrightarrow> distinct (map fst fs)"
    using s by (induction fs rule: path_pages.induct) fastforce+
qed

text \<open>What hangs beside the path does not depend on it.\<close>

lemma beside_rep:
  assumes "path_rep A fs q" "distinct (path_pages fs)" "nodes_agree (set (path_pages fs) - fst ` set fs) A B"
    and "(u, ks, ls, rs) \<in> set fs" "c \<in> set ls \<union> set rs"
  shows "arep B u c"
  using assms
proof (induction A fs q rule: path_rep.induct)
  case (2 A p ks' ls' rs' fs q)
  let ?c = "concat (map bt_pages (ls' @ rs'))"
  have d: "distinct (p # ?c @ path_pages fs)" using 2(3) by simp
  note f = fst_path_pages(1)[of fs]
  show ?case
  proof (cases "(u, ks, ls, rs) = (p, ks', ls', rs')")
    case True
    then have c: "c \<in> set ls' \<union> set rs'" "u = p" using 2(6) by simp_all
    have sc: "set (bt_pages c) \<subseteq> set ?c" using c by auto
    moreover have "set ?c \<inter> fst ` set fs = {}" "p \<notin> set ?c" using d f by (simp_all only: distinct.simps distinct_append set_append Un_iff) blast+
    ultimately have "set (bt_pages c) \<subseteq> set (path_pages ((p, ks', ls', rs') # fs)) - fst ` set ((p, ks', ls', rs') # fs)"
      unfolding path_pages.simps list.set set_append image_insert fst_conv by blast
    then have "nodes_agree (set (bt_pages c)) A B" using 2(4) unfolding nodes_agree_def by blast
    then show ?thesis using arep_cong[of c A B p] 2(2) c by auto
  next
    case False
    have "nodes_agree (set (path_pages fs) - fst ` set fs) A B" using 2(4) d by (auto simp: nodes_agree_def)
    then show ?thesis using 2 False by auto
  qed
qed simp

definition refreshed :: "(int \<rightharpoonup> npage) \<Rightarrow> (int \<rightharpoonup> npage) \<Rightarrow> frame list \<Rightarrow> int \<Rightarrow> byte list \<Rightarrow> bool" where
  "refreshed A B fs p k \<longleftrightarrow> path_rep B (refresh fs k) p \<and> (\<forall>y. y \<notin> set (path_pages fs) \<longrightarrow> B y = A y) \<and>
     (\<forall>y. links (B y) = links (A y))"

lemma refresh_frames:
  assumes "(u, ks, ls, rs) \<in> set (refresh fs k)"
  shows "\<exists>ks'. (u, ks', ls, rs) \<in> set fs"
  using assms by (induction fs k rule: refresh.induct) auto

lemma refresh_fst: "map fst (refresh fs k) = map fst fs"
  by (induction fs k rule: refresh.induct) simp_all

lemma refreshed_pages:
  assumes "path_rep A fs p" "distinct (path_pages fs)" "p \<notin> set (path_pages fs)"
  shows "refreshed A (refresh_pages A fs k) fs p k"
proof -
  note sp = path_rep_spine[OF assms]
  have o: "refresh_pages A fs k y = A y" if "y \<notin> fst ` set fs" for y by (rule refresh_pages_other[OF that])
  then have "nodes_agree (set (path_pages fs) - fst ` set fs) A (refresh_pages A fs k)" by (simp add: nodes_agree_def)
  note b = beside_rep[OF assms(1,2) this]
  have "path_rep (refresh_pages A fs k) (refresh fs k) p"
    by (rule spine_path_rep[OF refresh_spine[OF sp fst_path_pages(2)[OF assms(2)]]]) (use b refresh_frames in fast)
  moreover have "refresh_pages A fs k y = A y" if "y \<notin> set (path_pages fs)" for y
    using o that fst_path_pages(1)[of fs] by blast
  ultimately show ?thesis using refresh_pages_links[OF spine_dom[OF sp]] by (simp add: refreshed_def)
qed

section \<open>Running it\<close>

lemma run_update_key:
  assumes i: "(i, p, d) \<in> K \<union> G" and j: "(j, u, True) \<in> K \<union> G"
    and n: "A p = Some n" "np_ok n" "np_keys n \<noteq> []" and f: "A u = Some f" "np_ok f"
      "map rid_page (np_rids f) = xs @ p # ys" "p \<notin> set xs" "length (np_keys f) = length (np_rids f)"
    and w: "length (last (np_keys n)) = nat (col_len h)" "length (np_keys f ! length xs) = nat (col_len h)" and m: "np_keys n = kn"
  shows "triple (conf fd s0 h A K G r) (update_parent_key j i)
    (\<lambda>_. conf fd s0 h (A(u \<mapsto> f\<lparr>np_keys := (np_keys f)[length xs := last kn]\<rparr>)) K G r)"
proof -
  have x: "length xs < length (np_keys f)" using arg_cong[OF f(3), of length] f(5) by simp
  have same: "np_keys f ! length xs = k \<Longrightarrow> A(u \<mapsto> f\<lparr>np_keys := (np_keys f)[length xs := k]\<rparr>) = A" for k
    using f(1) by (auto simp: fun_eq_iff)
  show ?thesis
    unfolding update_parent_key_def m[symmetric]
    apply (rule run_page[where p = p and d = d, OF i])
    apply (rule run_read[where p = u and d = True and n = f and v = "int (length xs)"])
       apply (rule j f(1))+
     apply (rule abs_find_child[where n = f]; (assumption | rule f))
    apply (rule run_header[where p = p and d = d and n = n])
       apply (rule i n(1,2))+
    apply (simp only: np_header_sel)
    apply (rule run_read[where p = p and d = d and n = n and v = "last (np_keys n)"])
       apply (rule i n(1))+
     apply (rule abs_get_last; (assumption | rule n))
    apply (rule run_header[where p = u and d = True and n = f])
       apply (rule j f(1,2))+
    apply (simp only: np_header_sel of_nat_le_iff linorder_not_le[THEN iffD2, OF x] if_False)
    apply (rule run_read[where p = u and d = True and n = f and v = "np_keys f ! length xs"])
       apply (rule j f(1))+
     apply (rule abs_get_key[where n = f]; (assumption | rule f x))
    apply (cases "np_keys f ! length xs = last (np_keys n)")
     apply (use w memcmp_zero[of "np_keys f ! length xs" "last (np_keys n)"] f(1) in \<open>simp add: whenP_def triple_def same\<close>)
    apply (use w memcmp_zero[of "np_keys f ! length xs" "last (np_keys n)"] in \<open>simp add: whenP_def\<close>)
    apply (rule run_edit_end[where n = f])
      apply (use j f(1) in simp_all)[2]
    apply (rule abs_put_key; (assumption | rule f x w))
    done
qed

lemma run_maintain_spine:
  assumes "(i, p, d) \<in> K \<union> G" "A p = Some n" "np_ok n" "np_keys n \<noteq> []" "last (np_keys n) = k" "np_parent n = up_page fs"
    and "spine_at h A fs p" "length k = nat (col_len h)" "length fs < fuel"
  shows "triple (conf fd s0 h A K G (length fs + r)) (maintain_parent_loop fuel i) (\<lambda>_. conf fd s0 h (refresh_pages A fs k) {} G r)"
  using assms
proof (induction fs arbitrary: i p d K G A n k fuel)
  case Nil
  then obtain f where f: "fuel = Suc f" by (cases fuel) auto
  show ?case
    unfolding f maintain_parent_loop.simps
    by (rule run_header[where p = p and d = d and n = n])
      (use Nil.prems in \<open>auto intro!: triple_ret elim!: conf_less\<close>)
next
  case (Cons fr fs)
  obtain u ks ls rs where fr: "fr = (u, ks, ls, rs)" by (cases fr)
  obtain fl where fl: "fuel = Suc fl" "length fs < fl" using Cons.prems(9) by (cases fuel) auto
  have at: "spine_at h A ((u, ks, ls, rs) # fs) p" using Cons.prems(7) fr by simp
  then obtain f where f: "A u = Some f" "np_ok f" "np_parent f = up_page fs" "np_keys f = ks"
    "map rid_page (np_rids f) = map bt_page ls @ p # map bt_page rs" "length ks = Suc (length ls + length rs)"
    by (auto simp: inner_at_def spine_at_def)
  have lf: "length (np_rids f) = length ks" using arg_cong[OF f(5), of length] f(6) by simp
  have pl: "p \<notin> set (map bt_page ls)" and pp: "u \<noteq> p" "u \<noteq> NDX_NO_PAGE" using at by (auto simp: spine_at_def)
  let ?ks = "ks[length ls := k]" let ?k = "last ?ks" let ?A = "A(u \<mapsto> f\<lparr>np_keys := ?ks\<rparr>)"
  have wk: "length k' = nat (col_len h)" if "k' \<in> set ks" for k' using at that by (auto simp: spine_at_def)
  have ne: "?ks \<noteq> []" using f(6) by auto
  have wl: "length ?k = nat (col_len h)"
  proof -
    have "?k \<in> insert k (set ks)" using last_in_set[OF ne] set_update_subset_insert[of ks "length ls" k] by blast
    then show ?thesis using wk Cons.prems(8) by auto
  qed
  have at': "spine_at h ?A fs u"
  proof -
    have "nodes_agree (fst ` set fs) A ?A" using at by (auto simp: nodes_agree_def spine_at_def)
    then have "spine ?A fs u" using at by (auto simp: spine_at_def elim: spine_cong)
    then show ?thesis using at by (simp add: spine_at_def)
  qed
  let ?B = "refresh_pages A (fr # fs) k"
  have B: "?B = refresh_pages ?A fs ?k" using f(1) fr by simp
  have step: "triple (conf fd s0 h ?A {(j, u, True), (j, u, False)} (K \<union> G) (length fs + r))
      (maintain_parent_loop fl j) (\<lambda>_. conf fd s0 h ?B {} (K \<union> G) r)" for j
    unfolding B
    by (rule Cons.IH[where n = "f\<lparr>np_keys := ?ks\<rparr>" and d = True, OF _ _ _ _ _ _ at' wl fl(2)])
      (use f ne in auto)
  show ?case
    unfolding fl(1) maintain_parent_loop.simps
  proof (rule run_header[where p = p and d = d and n = n], goal_cases)
    case 4
    have u: "np_parent n = u" "length (np_keys n) \<noteq> 0" using Cons.prems(4,6) fr by auto
    have upd: "triple (conf fd s0 h A {(j, u, True), (j, u, False)} (K \<union> G) (length fs + r)) (update_parent_key j i)
        (\<lambda>_. conf fd s0 h ?A {(j, u, True), (j, u, False)} (K \<union> G) (length fs + r))" for j
      unfolding Cons.prems(5)[symmetric]
      using run_update_key[where i = i and p = p and d = d and j = j and u = u and n = n and f = f and xs = "map bt_page ls" and ys = "map bt_page rs"
          and kn = "np_keys n" and K = "{(j, u, True), (j, u, False)}" and G = "K \<union> G" and A = A and h = h and fd = fd and ?s0.0 = s0 and r = "length fs + r"]
        Cons.prems f lf pl wk nth_mem[of "length ls" ks] by simp
    have up: "triple (conf fd s0 h A {(j, u, False)} (K \<union> G) (length fs + r))
        (andThen (node_mark j) (\<lambda>_. andThen (update_parent_key j i) (\<lambda>_. maintain_parent_loop fl j)))
        (\<lambda>_. conf fd s0 h ?B {} G r)" for j
    proof (rule run_mark_new[where p = u and d = False])
      have "triple (conf fd s0 h ?A {(j, u, True), (j, u, False)} (K \<union> G) (length fs + r)) (maintain_parent_loop fl j) (\<lambda>_. conf fd s0 h ?B {} G r)"
        by (rule triple_conseq[OF step[of j]]) (auto elim!: conf_less)
      then show "triple (conf fd s0 h A {(j, u, True), (j, u, False)} (K \<union> G) (length fs + r))
          (andThen (update_parent_key j i) (\<lambda>_. maintain_parent_loop fl j)) (\<lambda>_. conf fd s0 h ?B {} G r)"
        by (rule triple_bind[OF upd])
    qed simp
    show ?case
      using run_get[of u A fd s0 h K G "length fs + r", OF _ up] u pp f(1) by auto
  qed (use Cons.prems in simp_all)
qed

text \<open>The path above a node of a tree.\<close>

definition path_at :: "IndexFileHeader \<Rightarrow> (int \<rightharpoonup> npage) \<Rightarrow> frame list \<Rightarrow> int \<Rightarrow> bool" where
  "path_at h A fs p \<longleftrightarrow> path_rep A fs p \<and> distinct (path_pages fs) \<and> p \<notin> set (path_pages fs) \<and>
     NDX_NO_PAGE \<notin> set (path_pages fs) \<and> (\<forall>(u, ks, ls, rs) \<in> set fs. \<forall>k \<in> set ks. length k = nat (col_len h))"

lemma path_at_spine: "path_at h A fs p \<Longrightarrow> spine_at h A fs p"
  unfolding path_at_def spine_at_def using path_rep_spine[of A fs p] fst_path_pages[of fs] by blast

lemma run_maintain_loop:
  assumes "(i, p, d) \<in> K \<union> G" "A p = Some n" "np_ok n" "np_keys n \<noteq> []" "last (np_keys n) = k" "np_parent n = up_page fs"
    and "path_at h A fs p" "length k = nat (col_len h)" "length fs < fuel"
  shows "refreshed A (refresh_pages A fs k) fs p k \<and>
    triple (conf fd s0 h A K G (length fs + r)) (maintain_parent_loop fuel i) (\<lambda>_. conf fd s0 h (refresh_pages A fs k) {} G r)"
  using run_maintain_spine[OF assms(1-6) path_at_spine[OF assms(7)] assms(8,9)] refreshed_pages[of A fs p k] assms(7)
  by (simp add: path_at_def)

end
