(* ===== verification/IndexInsert.thy ===== *)
theory IndexInsert
  imports IndexRefresh
begin

text \<open>
  \<open>insert_entry\<close> on an index: it returns, and leaves an index whose entries are those from before with the new
  one behind the last whose key is not greater.
\<close>

section \<open>From the bytes to the records and back\<close>

lemma arep_mono: "arep A pa t \<Longrightarrow> A \<subseteq>\<^sub>m B \<Longrightarrow> arep B pa t"
proof (induction t arbitrary: pa)
  case (Leaf p es)
  then show ?case unfolding arep.simps leaf_at_def by (blast intro: map_le_Some)
next
  case (Inner p ks cs)
  have "inner_at B p pa ks (map bt_page cs)" using Inner.prems unfolding arep.simps inner_at_def by (blast intro: map_le_Some)
  then show ?case using Inner by simp
qed

lemma achain_mono: "achain A q ps \<Longrightarrow> A \<subseteq>\<^sub>m B \<Longrightarrow> achain B q ps"
  by (induction ps arbitrary: q) (auto dest: map_le_Some)

lemma afree_mono: "afree A p qs \<Longrightarrow> A \<subseteq>\<^sub>m B \<Longrightarrow> afree B p qs"
  by (induction qs arbitrary: p) (auto dest: map_le_Some)

lemma arep_restrict: "arep A pa t \<Longrightarrow> set (bt_pages t) \<subseteq> S \<Longrightarrow> arep (A |` S) pa t"
  by (rule arep_cong[where A = A]) (auto simp: nodes_agree_def restrict_map_def)

lemma achain_restrict: "achain A q ps \<Longrightarrow> insert NDX_LEAF_HEADER_PAGE (set ps) \<subseteq> S \<Longrightarrow> achain (A |` S) q ps"
  by (rule achain_cong[where A = A]) (auto simp: restrict_map_def)

lemma afree_restrict: "afree A p qs \<Longrightarrow> set qs \<subseteq> S \<Longrightarrow> afree (A |` S) p qs"
  by (rule afree_cong[where A = A]) (auto simp: restrict_map_def)

lemma free_ok_iff: "ix_free h V t \<and> distinct (bt_pages t) \<longleftrightarrow> free_ok h (npages h V) (set (bt_pages t)) \<and> distinct (bt_pages t)"
  unfolding ix_free_def free_ok_def ix_free_abs[where h = h] by auto

text \<open>The records a run starts with.\<close>

definition start_pages :: "IndexFileHeader \<Rightarrow> pview \<Rightarrow> (int \<rightharpoonup> npage)" where
  "start_pages h V = npages h V |` {1..<ix_num_pages h}"

lemma ix_tree_atree:
  assumes "ix_tree h V t"
  shows "atree h (start_pages h V) t" "3 \<le> ix_num_pages h"
proof -
  note pg = ix_tree_pages[OF assms]
  have "bt_page t \<in> set (bt_pages t)" by (rule bt_page_in)
  then show n: "3 \<le> ix_num_pages h" using pg(2) by (fastforce simp: NDX_INIT_ROOT_PAGE_def)
  have sub: "set (bt_pages t) \<subseteq> {1..<ix_num_pages h}" using pg(2) by (fastforce simp: NDX_INIT_ROOT_PAGE_def)
  have "arep (start_pages h V) NDX_NO_PAGE t"
    unfolding start_pages_def using assms bt_rep_abs[of h V NDX_NO_PAGE t] sub by (intro arep_restrict) (simp_all add: ix_tree_def)
  moreover have "free_ok h (start_pages h V) (set (bt_pages t))"
  proof -
    have "free_ok h (npages h V) (set (bt_pages t))" using free_ok_iff assms pg(1) by (auto simp: ix_tree_def)
    then obtain fs where fs: "afree (npages h V) (ix_first_free h) fs" "distinct fs" "set fs \<inter> set (bt_pages t) = {}"
      "set fs \<union> set (bt_pages t) = {NDX_INIT_ROOT_PAGE..<ix_num_pages h}" by (auto simp: free_ok_def)
    have "set fs \<subseteq> {NDX_INIT_ROOT_PAGE..<ix_num_pages h}" using fs(4) by blast
    then have "set fs \<subseteq> {1..<ix_num_pages h}" by (auto simp: NDX_INIT_ROOT_PAGE_def)
    then have "afree (start_pages h V) (ix_first_free h) fs" unfolding start_pages_def by (rule afree_restrict[OF fs(1)])
    then show ?thesis using fs(2-4) unfolding free_ok_def by blast
  qed
  moreover have "achain (start_pages h V) NDX_LEAF_HEADER_PAGE (leaf_pages t)"
    unfolding start_pages_def
  proof (rule achain_restrict)
    show "achain (npages h V) NDX_LEAF_HEADER_PAGE (leaf_pages t)" using assms unfolding ix_tree_def leaf_chain_abs[where h = h] by blast
    show "insert NDX_LEAF_HEADER_PAGE (set (leaf_pages t)) \<subseteq> {1..<ix_num_pages h}"
      using leaf_pages_sub[OF pg(1)] sub n by (auto simp: NDX_LEAF_HEADER_PAGE_def)
  qed
  ultimately show "atree h (start_pages h V) t" using assms pg(1) by (simp add: atree_def ix_tree_def)
qed

lemma ix_wf_conf:
  assumes wf: "ix_wf s ih t" and r: "r < length (pages s)"
  shows "conf (ih_fd ih) s (index_header ih) (start_pages (index_header ih) (file_view s (ih_fd ih))) {} {} r (ih, s)"
proof -
  let ?fd = "ih_fd ih" and ?h = "index_header ih"
  have st: "pf_wf s" "fd_path s ?fd \<noteq> None" "PageID ?fd NDX_FILE_HDR_PAGE \<notin> cached_pages s" and tr: "ix_tree ?h (file_view s ?fd) t"
    using wf unfolding ix_wf_def by blast+
  have "header_ok ?h" using tr ix_tree_atree(2)[OF tr] by (simp add: header_ok_def ix_tree_def)
  moreover have "pool.reach s (ix_pids ?fd) (others ?fd s) s"
    using pool.reach_refl[OF st(1), of "ix_pids ?fd"] by (auto simp: pool.reach_def others_def map_le_def restrict_map_def)
  moreover have "start_pages ?h (file_view s ?fd) \<subseteq>\<^sub>m npages ?h (file_view s ?fd)" "dom (start_pages ?h (file_view s ?fd)) \<subseteq> {1..<ix_num_pages ?h}"
    by (auto simp: start_pages_def map_le_def restrict_map_def dom_def split: if_splits)
  ultimately show ?thesis using st r by (simp add: conf_def)
qed

lemma conf_ix_wf:
  assumes c: "conf fd s0 h A {} {} 0 (ih, s)" and t: "settled h A t" "keys_ok h t" and ct: "column_type h \<noteq> TYPE_DATETIME"
  shows "ix_wf s ih t" "pool.reach s0 (ix_pids fd) (others fd s0) s" "ih = hnd fd h"
proof -
  note c' = c[unfolded conf_def prod.case]
  show ih: "ih = hnd fd h" using c' by blast
  show "pool.reach s0 (ix_pids fd) (others fd s0) s" using c' by blast
  have a: "atree h A t" using t(1) by (simp add: settled_def)
  have m: "A \<subseteq>\<^sub>m npages h (file_view s fd)" using c' by blast
  have d: "distinct (bt_pages t)" using a by (simp add: atree_def)
  have "bt_rep h (file_view s fd) NDX_NO_PAGE t" unfolding bt_rep_abs using a arep_mono[OF _ m] by (simp add: atree_def)
  moreover have "leaf_chain (file_view s fd) NDX_LEAF_HEADER_PAGE (leaf_pages t)"
    unfolding leaf_chain_abs[where h = h] using a achain_mono[OF _ m] by (simp add: atree_def)
  moreover have "ix_free h (file_view s fd) t"
  proof -
    have "free_ok h (npages h (file_view s fd)) (set (bt_pages t))"
      using a afree_mono[OF _ m] unfolding atree_def free_ok_def by blast
    then show ?thesis using free_ok_iff d by blast
  qed
  ultimately have "ix_tree h (file_view s fd) t"
    using c' a t ct by (auto simp: ix_tree_def header_ok_def atree_def settled_def)
  moreover have "PageID fd NDX_FILE_HDR_PAGE \<notin> cached_pages s"
    using c' by (auto simp: pool.reach_def ix_pids_def)
  moreover have "fd_path s fd \<noteq> None" using c' by (auto simp: pool.reach_def same_env_def fd_path_def)
  ultimately show "ix_wf s ih t" using c' ih by (simp add: ix_wf_def pool.reach_def)
qed

section \<open>Where the entry goes\<close>

lemma insert_position:
  assumes "bt_leaves t \<noteq> []" "n \<le> length (bt_entries t)"
  obtains xs p es ys j where "bt_leaves t = xs @ (p, es) # ys" "j \<le> length es" "n = length (leaf_entries xs) + j"
    "pos_id (bt_leaves t) n = IndexID p (int j)" "j = length es \<longrightarrow> ys = []"
proof (cases "n < length (bt_entries t)")
  case True
  then have "n < length (leaf_entries (bt_leaves t))" by (simp add: bt_entries_def)
  then obtain xs p es ys k where s: "bt_leaves t = xs @ (p, es) # ys" "n = length (leaf_entries xs) + k" "k < length es"
    "pos_id (bt_leaves t) n = IndexID p (int k)"
    by (rule pos_split)
  show ?thesis by (rule that[OF s(1) _ s(2,4)]) (use s(3) in simp_all)
next
  case False
  then have n: "n = length (bt_entries t)" using assms(2) by simp
  obtain xs p es where s: "bt_leaves t = xs @ [(p, es)]" using assms(1) by (metis append_butlast_last_id prod.exhaust_sel)
  show ?thesis
    by (rule that[of xs p es "[]" "length es"])
      (use s n pos_id_end[OF assms(1)] in \<open>simp_all add: bt_entries_def\<close>)
qed

definition put_entry :: "nat \<Rightarrow> entry \<Rightarrow> entry list \<Rightarrow> entry list" where
  "put_entry n e es = take n es @ e # drop n es"

lemma put_entry_mem [simp]: "set (put_entry n e es) = insert e (set es)"
proof -
  have "set es = set (take n es) \<union> set (drop n es)" by (metis append_take_drop_id set_append)
  then show ?thesis by (auto simp: put_entry_def)
qed

text \<open>A tree without its widths of keys: the path of every leaf.\<close>

lemma path_key_widths:
  "bt_ok (plug fs t) \<Longrightarrow> key_widths h (plug fs t) \<Longrightarrow> \<forall>(u, ks, ls, rs) \<in> set fs. \<forall>k \<in> set ks. length k = nat (col_len h)"
proof (induction fs t rule: plug.induct)
  case (2 p ks ls rs fs t)
  have ok: "bt_ok (Inner p ks (ls @ t # rs))" using 2(2) unfolding plug.simps ok_plug by blast
  have "key_widths h (Inner p ks (ls @ t # rs))" using 2(3) unfolding key_widths_def plug.simps plug_entries by simp
  from tree_key_widths[OF ok this] have "\<forall>k \<in> set ks. length k = nat (col_len h)" by simp
  then show ?case using 2 by simp
qed simp

text \<open>The records of the leaf and of the path after the insertion.\<close>

definition put_in_leaf :: "nat \<Rightarrow> entry \<Rightarrow> npage \<Rightarrow> npage" where
  "put_in_leaf j e n = n\<lparr>np_keys := take j (np_keys n) @ fst e # drop j (np_keys n),
     np_rids := take j (np_rids n) @ snd e # drop j (np_rids n)\<rparr>"

lemma bulge_leaf:
  assumes "bt_root_fill lo hi (plug fs (Leaf p es))"
  shows "bulge lo hi fs (Leaf p (put_entry j e es))" "length es \<le> hi"
  using assms by (cases "fs = []"; auto simp: fill_plug bulge_def put_entry_def)+

lemma put_last:
  assumes "bt_shape (plug fs (Leaf p es))" "j \<le> length es" "j = length es \<longrightarrow> rights fs = []"
  shows "bt_ok (plug (if j = length es then refresh fs (fst e) else fs) (Leaf p (put_entry j e es)))"
proof (cases "es = []")
  case True
  then have "fs = []" using assms(1) plug_not_leaf[of fs "Leaf p es"] unfolding bt_shape_def ok_plug by auto
  then show ?thesis by (simp add: put_entry_def)
next
  case False
  have ok: "bt_ok (plug fs (Leaf p es))"
  proof -
    have "bt_entries (plug fs (Leaf p es)) \<noteq> []" using False by (simp add: plug_entries)
    then show ?thesis using assms(1) by (auto simp: bt_shape_def)
  qed
  have ne: "put_entry j e es \<noteq> []" by (simp add: put_entry_def)
  show ?thesis
  proof (cases "j = length es")
    case True
    then have "last (put_entry j e es) = e" by (simp add: put_entry_def)
    then show ?thesis using True ne ok refresh_ok[of fs _ "fst e"] assms(3) unfolding ok_plug by auto
  next
    case False
    then have "drop j es \<noteq> []" using assms(2) by simp
    then have "last (put_entry j e es) = last es" by (simp add: put_entry_def last_drop)
    then show ?thesis using False ne ok unfolding ok_plug by auto
  qed
qed

lemma leaf_facts:
  assumes "atree h A (plug fs (Leaf p es))"
  obtains n where "A p = Some n" "np_ok n" "np_leaf n" "np_parent n = up_page fs" "np_keys n = map fst es" "np_rids n = map snd es"
    "path_rep A fs p" "distinct (path_pages fs)" "p \<notin> set (path_pages fs)" "NDX_NO_PAGE \<notin> set (path_pages fs)"
    "2 \<le> p" "p < ix_num_pages h"
proof -
  let ?t = "plug fs (Leaf p es)"
  have a: "arep A NDX_NO_PAGE ?t" "distinct (bt_pages ?t)" using assms unfolding atree_def by blast+
  have r: "path_rep A fs p" "leaf_at A p (up_page fs) es" using a(1) unfolding rep_plug by simp_all
  then obtain n where n: "A p = Some n" "np_ok n" "np_leaf n" "np_parent n = up_page fs" "np_keys n = map fst es" "np_rids n = map snd es"
    by (auto simp: leaf_at_def)
  have d: "distinct (path_pages fs @ [p])" using a(2) unfolding distinct_plug by simp
  have s: "set (path_pages fs) \<subseteq> set (bt_pages ?t)" "p \<in> set (bt_pages ?t)" unfolding set_pages_plug by auto
  have "NDX_NO_PAGE \<notin> set (path_pages fs)" using s(1) atree_pages(1)[OF assms, of NDX_NO_PAGE] by (auto simp: NDX_NO_PAGE_def)
  then show ?thesis using that[OF n r(1)] d atree_pages(1,2)[OF assms s(2)] by simp
qed

lemma put_path_at:
  assumes "path_rep A fs p" "distinct (path_pages fs)" "p \<notin> set (path_pages fs)" "NDX_NO_PAGE \<notin> set (path_pages fs)"
    and "bt_shape (plug fs (Leaf p es))" "key_widths h (plug fs (Leaf p es))"
  shows "path_at h (A(p \<mapsto> n)) fs p"
proof -
  have "path_rep (A(p \<mapsto> n)) fs p"
    by (rule path_rep_cong[OF _ assms(1)]) (use assms(3) in \<open>auto simp: nodes_agree_def\<close>)
  moreover have "\<forall>(u, ks, ls, rs) \<in> set fs. \<forall>k \<in> set ks. length k = nat (col_len h)"
  proof (cases "fs = []")
    case False
    then have "bt_ok (plug fs (Leaf p es))" using assms(5) plug_not_leaf[OF False] by (auto simp: bt_shape_def)
    then show ?thesis by (rule path_key_widths[OF _ assms(6)])
  qed simp
  ultimately show ?thesis using assms(2-4) by (simp add: path_at_def)
qed

lemma insert_climbs:
  assumes a: "atree h A (plug fs (Leaf p es))" and sh: "bt_shape (plug fs (Leaf p es))" and lev: "\<exists>n. bt_level n (plug fs (Leaf p es))"
    and fill: "bt_root_fill (min_fill h) (nat (btree_order h)) (plug fs (Leaf p es))" and w: "key_widths h (plug fs (Leaf p es))"
    and num: "ix_num_pages h \<le> 524288" and j: "j \<le> length es" "j = length es \<longrightarrow> rights fs = []" and e: "length (fst e) = nat (col_len h)"
    and n: "A p = Some n" and fs': "fs' = (if j = length es then refresh fs (fst e) else fs)"
    and B: "if j = length es then refreshed (A(p \<mapsto> put_in_leaf j e n)) B fs p (fst e) else B = A(p \<mapsto> put_in_leaf j e n)"
  shows "climbing h B fs' (Leaf p (put_entry j e es))"
proof -
  let ?t = "plug fs (Leaf p es)" and ?A = "A(p \<mapsto> put_in_leaf j e n)" and ?l = "Leaf p (put_entry j e es)"
  obtain n' where n': "A p = Some n'" "np_ok n'" "np_leaf n'" "np_parent n' = up_page fs" "np_keys n' = map fst es" "np_rids n' = map snd es"
    and r: "path_rep A fs p" "distinct (path_pages fs)" "p \<notin> set (path_pages fs)" "NDX_NO_PAGE \<notin> set (path_pages fs)"
    by (rule leaf_facts[OF a]) (rule that)
  have nn: "n' = n" using n n'(1) by simp
  have same: "B y = ?A y" if "y \<notin> set (path_pages fs)" for y
    using B that by (cases "j = length es") (simp_all add: refreshed_def)
  have lk: "links (B y) = links (A y)" for y
  proof -
    have "links (?A y) = links (A y)" using n by (simp add: links_def put_in_leaf_def)
    then show ?thesis using B by (cases "j = length es") (simp_all add: refreshed_def)
  qed
  have eqs: "path_pages fs' = path_pages fs" "lefts fs' = lefts fs" "rights fs' = rights fs" "up_page fs' = up_page fs"
    "\<And>m. path_level m fs' = path_level m fs" "length fs' = length fs" "bt_page (plug fs' ?l) = bt_page (plug fs ?l)"
    by (auto simp: fs' refresh_page)
  have pages: "mset (bt_pages (plug fs' ?l)) = mset (bt_pages ?t)" unfolding pages_plug eqs by simp
  have sp: "set (bt_pages (plug fs' ?l)) = set (bt_pages ?t)" using arg_cong[OF pages, of set_mset] by simp
  have lp: "leaf_pages (plug fs' ?l) = leaf_pages ?t" unfolding leaves_plug eqs by simp
  have "arep B NDX_NO_PAGE (plug fs' ?l)"
    unfolding rep_plug
  proof
    show "path_rep B fs' (bt_page ?l)"
    proof (cases "j = length es")
      case True
      then show ?thesis using B fs' by (simp add: refreshed_def)
    next
      case False
      have "path_rep ?A fs p" by (rule path_rep_cong[OF _ r(1)]) (use r(3) in \<open>auto simp: nodes_agree_def\<close>)
      then show ?thesis using False B fs' by simp
    qed
    have "B p = Some (put_in_leaf j e n)" using same[OF r(3)] by simp
    then show "arep B (up_page fs') ?l"
      using n' nn eqs(4) by (auto simp: leaf_at_def put_in_leaf_def put_entry_def take_map drop_map)
  qed
  moreover have "distinct (bt_pages (plug fs' ?l))"
    using mset_eq_imp_distinct_iff[OF pages] a by (simp add: atree_def)
  moreover have "free_ok h B (set (bt_pages (plug fs' ?l)))"
    unfolding sp
  proof (rule free_ok_cong)
    show "free_ok h A (set (bt_pages ?t))" using a by (simp add: atree_def)
    fix y assume "y \<in> {NDX_INIT_ROOT_PAGE..<ix_num_pages h} - set (bt_pages ?t)"
    then have "y \<notin> set (path_pages fs)" "y \<noteq> p" unfolding set_pages_plug by auto
    then show "map_option np_free (A y) = map_option np_free (B y)" using same[of y] by simp
  qed simp_all
  moreover have "achain B NDX_LEAF_HEADER_PAGE (leaf_pages (plug fs' ?l))"
    unfolding lp by (rule achain_cong[where A = A]) (use lk a in \<open>simp_all add: atree_def\<close>)
  moreover have "bt_page (plug fs' ?l) = bt_page ?t"
    unfolding eqs(7) by (cases "fs = []") (simp_all add: plug_root)
  ultimately have "atree h B (plug fs' ?l)" using a lp by (simp add: atree_def)
  moreover have "bt_ok (plug fs' ?l)" unfolding fs' by (rule put_last[OF sh j])
  moreover have "\<exists>n. bt_level n (plug fs' ?l)" using lev unfolding level_plug eqs by auto
  moreover have "bulge (min_fill h) (nat (btree_order h)) fs' ?l"
    using bulge_leaf(1)[OF fill, of j e] by (cases "j = length es"; cases "fs = []") (simp_all add: bulge_def fs')
  moreover have "key_widths h (plug fs' ?l)" using w e unfolding key_widths_def plug_entries eqs by auto
  ultimately show ?thesis using num by (simp add: climbing_def)
qed

section \<open>Running it\<close>

text \<open>What follows the search: the entry is put into the leaf, then the tree is put in order.\<close>

definition insert_at :: "byte list \<Rightarrow> RecordID \<Rightarrow> IndexID \<Rightarrow> ('z, unit) ix_prog" where
  "insert_at key rid iid =
     andThen (get_node (page_number iid)) (\<lambda>node.
     andThen (node_mark node) (\<lambda>_.
     andThen (node_edit (\<lambda>h. insert_key h (slot_number iid) key) node) (\<lambda>_.
     andThen (node_edit (\<lambda>h. insert_record_id h (slot_number iid) rid) node) (\<lambda>_.
     andThen (node_header node) (\<lambda>hd.
     andThen the_header (\<lambda>h.
     andThen (whenP (page_number iid = last_leaf h \<and> slot_number iid = num_key hd - 1)
       (maintain_parent node)) (\<lambda>_.
     solve_overflow (climb_fuel h) node)))))))"

lemma insert_entry_split: "insert_entry key rid = andThen (index_upper_bound key) (insert_at key rid)"
  by (simp add: insert_entry_def insert_at_def[abs_def])

lemma run_insert_at:
  assumes a: "atree h A (plug fs (Leaf p es))" and sh: "bt_shape (plug fs (Leaf p es))" and lev: "\<exists>n. bt_level n (plug fs (Leaf p es))"
    and fill: "bt_root_fill (min_fill h) (nat (btree_order h)) (plug fs (Leaf p es))" and w: "key_widths h (plug fs (Leaf p es))"
    and j: "j \<le> length es" "j = length es \<longrightarrow> rights fs = []" and e: "length k = nat (col_len h)" "rid_ok rid"
    and room: "ix_num_pages h + int (length fs) + 2 \<le> 524288" and fuel: "int (length fs) \<le> ix_num_pages h"
    and order: "2 < btree_order h" and R: "R = nat (btree_order h) + 5" "Suc (length fs + R) < length (pages s0)"
  shows "triple (conf fd s0 h A {} {} (Suc (length fs + R))) (insert_at k rid (IndexID p (int j)))
    (\<lambda>_. settles fd s0 h (ix_num_pages h + int (length fs) + 2)
       (take (length (leaf_entries (lefts fs)) + j) (bt_entries (plug fs (Leaf p es))) @ (k, rid) #
       drop (length (leaf_entries (lefts fs)) + j) (bt_entries (plug fs (Leaf p es)))))"
proof -
  let ?t = "plug fs (Leaf p es)" and ?Q = "\<lambda>_. settles fd s0 h (ix_num_pages h + int (length fs) + 2)
    (take (length (leaf_entries (lefts fs)) + j) (bt_entries (plug fs (Leaf p es))) @ (k, rid) # drop (length (leaf_entries (lefts fs)) + j) (bt_entries (plug fs (Leaf p es))))"
  obtain n where n: "A p = Some n" "np_ok n" "np_leaf n" "np_parent n = up_page fs" "np_keys n = map fst es" "np_rids n = map snd es"
    and r: "path_rep A fs p" "distinct (path_pages fs)" "p \<notin> set (path_pages fs)" "NDX_NO_PAGE \<notin> set (path_pages fs)"
    by (rule leaf_facts[OF a]) (rule that)
  have len: "int (length es) \<le> btree_order h" using bulge_leaf(2)[OF fill] order by linarith
  let ?n1 = "n\<lparr>np_keys := take j (np_keys n) @ k # drop j (np_keys n)\<rparr>" and ?n2 = "put_in_leaf j (k, rid) n"
  let ?A2 = "A(p \<mapsto> ?n2)" and ?l = "Leaf p (put_entry j (k, rid) es)"
  let ?fs = "if j = length es then refresh fs k else fs"
  let ?B = "if j = length es then refresh_pages ?A2 fs k else ?A2"
  have n2: "np_ok ?n2" "np_parent ?n2 = up_page fs" "length (np_keys ?n2) = Suc (length es)"
    using n j(1) by (simp_all add: put_in_leaf_def)
  have at: "path_at h ?A2 fs p" by (rule put_path_at[OF r sh w])
  have lst: "p = last_leaf h" if "j = length es"
  proof -
    have "last_leaf h = last (leaf_pages ?t)" using a by (simp add: atree_def)
    then show ?thesis using j(2) that by (simp add: leaves_plug)
  qed
  have keep: "refreshed ?A2 (refresh_pages ?A2 fs k) fs p k \<and>
      triple (conf fd s0 h ?A2 {} {(i, p, True)} (length fs + R)) (maintain_parent i)
        (\<lambda>_. conf fd s0 h (refresh_pages ?A2 fs k) {} {(i, p, True)} R)" if "j = length es" for i
  proof -
    have k: "last (np_keys ?n2) = k" "np_keys ?n2 \<noteq> []" using that n by (simp_all add: put_in_leaf_def)
    have "length fs < climb_fuel h" using fuel by (simp add: climb_fuel_def)
    then have L: "refreshed ?A2 (refresh_pages ?A2 fs k) fs p k \<and>
      triple (conf fd s0 h ?A2 {} {(i, p, True)} (length fs + R)) (maintain_parent_loop (climb_fuel h) i)
        (\<lambda>_. conf fd s0 h (refresh_pages ?A2 fs k) {} {(i, p, True)} R)"
      using run_maintain_loop[where i = i and p = p and d = True and K = "{}" and G = "{(i, p, True)}" and A = ?A2 and n = ?n2 and r = R,
          OF _ _ n2(1) k(2,1) n2(2) at e(1)] by simp
    show ?thesis unfolding maintain_parent_def by (intro conjI conjunct1[OF L] run_the_header conjunct2[OF L])
  qed
  have cl: "climbing h ?B ?fs ?l"
    by (rule insert_climbs[OF a sh lev fill w _ j _ n(1)]) (use room e keep in auto)
  have ents: "bt_entries (plug ?fs ?l) = take (length (leaf_entries (lefts fs)) + j) (bt_entries ?t) @ (k, rid) #
      drop (length (leaf_entries (lefts fs)) + j) (bt_entries ?t)"
    using j(1) by (simp add: plug_entries put_entry_def)
  have fin: "triple (conf fd s0 h ?B {} {(i, p, True)} R) (solve_overflow (climb_fuel h) i) ?Q" for i
  proof -
    have l: "length ?fs = length fs" by simp
    show ?thesis
      unfolding ents[symmetric]
      by (rule run_solve_overflow[OF cl _ _ order R(1), unfolded l]) (use fuel room R(2) in \<open>auto simp: climb_fuel_def\<close>)
  qed
  have rest: "triple (conf fd s0 h ?A2 {} {(i, p, True)} (length fs + R))
      (andThen (whenP (p = last_leaf h \<and> int j = int (length (np_keys ?n2)) - 1) (maintain_parent i)) (\<lambda>_. solve_overflow (climb_fuel h) i)) ?Q" for i
  proof (cases "j = length es")
    case True
    show ?thesis
      by (rule triple_when[OF _ conjunct2[OF keep[OF True]]]) (use lst[OF True] n2(3) fin[of i] True in simp_all)
  next
    case False
    show ?thesis
    proof (rule triple_when_no)
      show "\<not> (p = last_leaf h \<and> int j = int (length (np_keys ?n2)) - 1)" using n2(3) False by simp
      show "triple (conf fd s0 h ?A2 {} {(i, p, True)} (length fs + R)) (solve_overflow (climb_fuel h) i) ?Q"
        by (rule triple_pre[OF fin]) (use False in \<open>auto elim!: conf_less\<close>)
    qed
  qed
  show ?thesis
    unfolding insert_at_def IndexID.sel
    apply (rule run_get)
     apply (use n(1) in blast)
    subgoal for i
      apply (rule run_mark_new[where p = p and d = False])
       apply (rule run_edit[where p = p and n = n and n' = ?n1])
          apply (use n in simp_all)[2]
        apply (rule abs_insert_key; (assumption | use n j e len in simp))
       apply (rule run_edit[where p = p and n = ?n1 and n' = ?n2])
          apply simp_all[2]
        subgoal for b using abs_insert_rid[of h b ?n1 j rid] n j e len by (simp add: put_in_leaf_def)
       apply (rule run_header[where p = p and d = True and n = ?n2])
          apply (use n2 in simp_all)[3]
       apply (rule run_the_header)
       apply (rule triple_pre[where P' = "conf fd s0 h ?A2 {} {(i, p, True)} (length fs + R)"])
        apply (use rest[of i] in simp)
       apply (erule conf_less)
          apply auto
      done
    done
qed

section \<open>The index after an insertion\<close>

text \<open>The specification: behind every entry whose key is not above the new one.\<close>

definition index_put :: "IndexFileHeader \<Rightarrow> byte list \<Rightarrow> RecordID \<Rightarrow> entry list \<Rightarrow> entry list" where
  "index_put h k rid es = takeWhile (\<lambda>e. 0 \<le> key_cmp h k (fst e)) es @ (k, rid) # dropWhile (\<lambda>e. 0 \<le> key_cmp h k (fst e)) es"

lemma index_put_pos:
  "index_put h k rid es = (let n = first_pos (\<lambda>x. key_cmp h k x < 0) (map fst es) in take n es @ (k, rid) # drop n es)"
proof -
  have f: "first_pos (\<lambda>x. key_cmp h k x < 0) (map fst es) = length (takeWhile (\<lambda>e. 0 \<le> key_cmp h k (fst e)) es)"
    by (simp add: first_pos_def takeWhile_map comp_def not_less)
  have "take (length (takeWhile P es)) es = takeWhile P es" "drop (length (takeWhile P es)) es = dropWhile P es" for P
    by (simp_all add: takeWhile_eq_take[symmetric] dropWhile_eq_drop[symmetric])
  then show ?thesis by (simp add: index_put_def f Let_def)
qed

lemma index_put_sorted:
  assumes es: "\<forall>e \<in> set es. key_ok h (fst e)" "sorted_wrt (\<lambda>a b. key_cmp h a b \<le> 0) (map fst es)"
    and k: "key_ok h k" and ct: "column_type h \<noteq> TYPE_DATETIME"
  shows "\<forall>e \<in> set (index_put h k rid es). key_ok h (fst e)" "sorted_wrt (\<lambda>a b. key_cmp h a b \<le> 0) (map fst (index_put h k rid es))"
proof -
  let ?P = "\<lambda>e :: entry. 0 \<le> key_cmp h k (fst e)"
  note ord = key_cmp_order[OF ct]
  have mem: "set es = set (takeWhile ?P es) \<union> set (dropWhile ?P es)" by (metis set_append takeWhile_dropWhile_id)
  show "\<forall>e \<in> set (index_put h k rid es). key_ok h (fst e)" using es(1) k unfolding index_put_def by (auto simp: mem)
  have srt: "sorted_wrt (\<lambda>a b. key_cmp h a b \<le> 0) (map fst (takeWhile ?P es) @ map fst (dropWhile ?P es))"
    using es(2) by (simp add: map_append[symmetric] del: map_append)
  have le: "key_cmp h (fst a) k \<le> 0" if "a \<in> set (takeWhile ?P es)" for a
    using that set_takeWhileD[OF that] es(1) key_order.le_flip[OF ord, of "fst a" k] k by auto
  have ge: "key_cmp h k (fst b) \<le> 0" if b: "b \<in> set (dropWhile ?P es)" for b
  proof (cases "dropWhile ?P es")
    case (Cons c cs)
    have c: "\<not> ?P c" using hd_dropWhile[of ?P es] Cons by simp
    have m: "c \<in> set es" "b \<in> set es" using mem Cons b by auto
    have "fst c = fst b \<or> key_cmp h (fst c) (fst b) \<le> 0" using srt b Cons by (auto simp: sorted_wrt_append)
    then show ?thesis using c key_order.cmp_trans[OF ord k, of "fst c" "fst b"] es(1) m by auto
  next
    case Nil
    then show ?thesis using b by (simp only: list.set empty_iff)
  qed
  show "sorted_wrt (\<lambda>a b. key_cmp h a b \<le> 0) (map fst (index_put h k rid es))"
    using srt le ge unfolding index_put_def by (auto simp: sorted_wrt_append)
qed

lemma path_depth:
  assumes "bt_level n (plug fs t)" "bt_root_fill lo hi (plug fs t)" "2 \<le> lo" "distinct (bt_pages (plug fs t))"
    and "\<forall>p \<in> set (bt_pages (plug fs t)). NDX_INIT_ROOT_PAGE \<le> p \<and> p < m" "m \<le> 524288"
  shows "length fs \<le> 19" "int (length fs) \<le> m"
proof -
  have n: "length fs \<le> n" using assms(1) unfolding level_plug by auto
  have b: "2 ^ n \<le> nat m"
    using root_fill_pages[OF assms(1-3)] distinct_bound[OF assms(4,5)] by linarith
  have "nat m \<le> 524288" using assms(6) by simp
  then have "2 ^ n \<le> (524288 :: nat)" using b by (rule le_trans[rotated])
  then have "(2 :: nat) ^ n \<le> 2 ^ 19" by simp
  then show "length fs \<le> 19" using n power_increasing_iff[of "2 :: nat" n 19] by simp
  have "n < 2 ^ n" by (rule less_exp)
  then show "int (length fs) \<le> m" using n b by linarith
qed

lemma insert_entry_run:
  assumes wf: "ix_wf s ih t" and k: "key_ok (index_header ih) k" "rid_ok rid"
    and pool: "nat (btree_order (index_header ih)) + 25 < length (pages s)" and room: "ix_num_pages (index_header ih) + 21 \<le> 524288"
  shows "\<exists>h' u t'. insert_entry k rid (ih, s) = (Inr (), (hnd (ih_fd ih) h', u)) \<and> ix_wf u (hnd (ih_fd ih) h') t' \<and>
    bt_entries t' = index_put (index_header ih) k rid (bt_entries t) \<and> ix_same_layout (index_header ih) h' \<and>
    ix_num_pages h' \<le> ix_num_pages (index_header ih) + 21 \<and> pool.reach s (ix_pids (ih_fd ih)) (others (ih_fd ih) s) u"
proof -
  let ?h = "index_header ih" and ?fd = "ih_fd ih" and ?es = "bt_entries t"
  let ?n = "first_pos (\<lambda>x. key_cmp ?h k x < 0) (map fst ?es)"
  have tr: "ix_tree ?h (file_view s ?fd) t" using wf by (simp add: ix_wf_def)
  have T: "ix_layout ?h" "column_type ?h \<noteq> TYPE_DATETIME" "bt_shape t" "keys_ok ?h t" "\<exists>n. bt_level n t"
    "bt_root_fill (min_fill ?h) (nat (btree_order ?h)) t" using tr unfolding ix_tree_def by blast+
  have order: "2 < btree_order ?h" using T(1) by (simp add: ix_layout_def)
  obtain u where u: "index_upper_bound k (ih, s) = (Inr (pos_id (bt_leaves t) ?n), (ih, u))" "looked ?fd s u"
    unfolding index_upper_bound_def by (rule index_bound_run[OF wf searches_lower(2)[OF T(1,2) k(1)]])
  have wfu: "ix_wf u ih t" by (rule looked_ix_wf[OF wf u(2)])
  then have tru: "ix_tree ?h (file_view u ?fd) t" by (simp add: ix_wf_def)
  have lu: "length (pages u) = length (pages s)" using u(2) by (simp add: pool.reach_def same_env_def)
  have "?n \<le> length ?es" using first_pos_le[of _ "map fst ?es"] by (metis length_map)
  then obtain xs p es ys j where pos: "bt_leaves t = xs @ (p, es) # ys" "j \<le> length es" "?n = length (leaf_entries xs) + j"
    "pos_id (bt_leaves t) ?n = IndexID p (int j)" "j = length es \<longrightarrow> ys = []"
    by (rule insert_position[OF shape_leaves[OF T(3)]])
  obtain fs where fs: "t = plug fs (Leaf p es)" "lefts fs = xs" "rights fs = ys" using leaf_path[OF pos(1)] by blast
  have w: "key_widths ?h t" using T(4) by (simp add: key_widths_def keys_ok_def key_ok_def)
  obtain l where l: "bt_level l t" using T(5) by blast
  have lo: "2 \<le> min_fill ?h" using order by (simp add: min_fill_def)
  have dp: "length fs \<le> 19" "int (length fs) \<le> ix_num_pages ?h"
    using path_depth[of l fs "Leaf p es" "min_fill ?h" "nat (btree_order ?h)" "ix_num_pages ?h"] l T(6) lo ix_tree_pages[OF tru] room
    unfolding fs(1)[symmetric] by simp_all
  define R where "R = nat (btree_order ?h) + 5"
  let ?A = "start_pages ?h (file_view u ?fd)"
  have rb: "Suc (length fs + R) < length (pages u)" using dp(1) pool lu by (simp add: R_def)
  have c: "conf ?fd u ?h ?A {} {} (Suc (length fs + R)) (ih, u)" by (rule ix_wf_conf[OF wfu rb])
  have "triple (conf ?fd u ?h ?A {} {} (Suc (length fs + R))) (insert_at k rid (IndexID p (int j)))
      (\<lambda>_. settles ?fd u ?h (ix_num_pages ?h + int (length fs) + 2) (take (length (leaf_entries (lefts fs)) + j) (bt_entries (plug fs (Leaf p es))) @ (k, rid) #
        drop (length (leaf_entries (lefts fs)) + j) (bt_entries (plug fs (Leaf p es)))))"
    by (rule run_insert_at) (use ix_tree_atree(1)[OF tru] fs T w pos k dp room rb order R_def in \<open>auto simp: key_ok_def\<close>)
  then have "triple (conf ?fd u ?h ?A {} {} (Suc (length fs + R))) (insert_at k rid (IndexID p (int j)))
      (\<lambda>_. settles ?fd u ?h (ix_num_pages ?h + int (length fs) + 2) (index_put ?h k rid ?es))"
    unfolding index_put_pos Let_def pos(3) fs(2) fs(1)[symmetric] .
  from tripleD[OF this c] obtain v ih' where v: "insert_at k rid (IndexID p (int j)) (ih, u) = (Inr (), (ih', v))"
    "settles ?fd u ?h (ix_num_pages ?h + int (length fs) + 2) (index_put ?h k rid ?es) (ih', v)" by auto
  from v(2) obtain h' A t' where r: "conf ?fd u h' A {} {} 0 (ih', v)" "settled h' A t'" "bt_entries t' = index_put ?h k rid ?es"
    "ix_same_layout ?h h'" "ix_num_pages h' \<le> ix_num_pages ?h + int (length fs) + 2" by (auto simp: settles_def)
  have kc: "key_ok h' = key_ok ?h" "key_cmp h' = key_cmp ?h" "column_type h' \<noteq> TYPE_DATETIME"
    using r(4) T(2) by (auto simp: ix_same_layout_def key_ok_def key_cmp_def fun_eq_iff)
  have es: "\<forall>e \<in> set ?es. key_ok ?h (fst e)" "sorted_wrt (\<lambda>a b. key_cmp ?h a b \<le> 0) (map fst ?es)" using T(4) by (simp_all add: keys_ok_def)
  have "keys_ok h' t'" unfolding keys_ok_def kc r(3) using index_put_sorted[OF es k(1) T(2)] by blast
  note f = conf_ix_wf[OF r(1,2) this kc(3)]
  have "insert_entry k rid (ih, s) = (Inr (), (hnd ?fd h', v))"
    unfolding insert_entry_split using u(1) pos(4) v(1) f(3) by simp
  moreover have "others ?fd s \<subseteq>\<^sub>m others ?fd u"
    using u(2) by (auto simp: pool.reach_def others_def map_le_def restrict_map_def dom_def)
  then have "pool.reach s (ix_pids ?fd \<union> ix_pids ?fd) (others ?fd s) v" by (rule pool.reach_trans[OF u(2) f(2)])
  moreover have "ix_num_pages h' \<le> ix_num_pages ?h + 21" using r(5) dp(1) by linarith
  ultimately show ?thesis using f r(3,4) by auto
qed

end
