(* ===== verification/InsertTheorems.thy ===== *)
theory InsertTheorems
  imports IndexInsert IndexTheorems
begin

text \<open>
  The property of \<open>insert_entry\<close>: the tree stays well formed and its sorted list of entries gains the
  new one behind its equals.
\<close>

section \<open>An index with the whole page cache\<close>

definition big_disk :: pf_state where
  "big_disk = boot\<lparr>files := files ex_ix_made\<rparr>"

definition big_start :: pf_state where
  "big_start = PF_Pager_init NUM_CACHE_PAGES big_disk"

definition big_ix :: "IndexHandle \<times> pf_state" where
  "big_ix = (case open_index ''t'' 0 big_start of (r, s) \<Rightarrow> (projr r, s))"

lemma big_start_fields: "files big_start = files ex_ix_made" "open_fds big_start = []" "path2fd big_start = Map.empty"
  "fd2path big_start = Map.empty" "fd_map_sem big_start = 1" "cwd big_start = ''/db/''"
  "length (pages big_start) = NUM_CACHE_PAGES"
  by (simp_all add: big_start_def big_disk_def boot_def PF_Pager_init_def)

lemma big_start_wf: "pm_wf big_start"
proof -
  have "os_wf big_disk" "cache_sem big_disk = 1" by (simp_all add: big_disk_def boot_def os_wf_def)
  from PF_Pager_init_wf(1)[OF this(1) _ this(2), of NUM_CACHE_PAGES, folded big_start_def]
  show ?thesis by (simp add: pm_wf_def big_start_fields pm_maps_def fd_path_def NUM_CACHE_PAGES_def)
qed

lemma big_ix_facts:
  "ix_wf (snd big_ix) (fst big_ix) (Leaf NDX_INIT_ROOT_PAGE [])" "index_header (fst big_ix) = int_header"
  "length (pages (snd big_ix)) = NUM_CACHE_PAGES"
proof -
  let ?n = "get_index_name ''t'' 0"
  obtain b where b: "files ex_ix_made (resolve ex_ix_made ?n) = Some b" "ix_file int_header b (Leaf NDX_INIT_ROOT_PAGE [])"
    using ex_ix_made_facts(4) by blast
  have f: "files big_start (resolve big_start ?n) = Some b" using b(1) ex_ix_made_facts(5) by (simp add: resolve_def big_start_fields)
  have closed: "path2fd big_start ?n = None" by (simp add: big_start_fields)
  obtain fd where o: "open_index ''t'' 0 big_start = (Inr \<lparr>ih_fd = fd, index_header = int_header\<rparr>, opened fd ?n big_start)"
    "ix_wf (opened fd ?n big_start) \<lparr>ih_fd = fd, index_header = int_header\<rparr> (Leaf NDX_INIT_ROOT_PAGE [])"
    by (rule open_index_run[OF big_start_wf f b(2) closed]) (rule that; assumption)
  then show "ix_wf (snd big_ix) (fst big_ix) (Leaf NDX_INIT_ROOT_PAGE [])" "index_header (fst big_ix) = int_header"
    "length (pages (snd big_ix)) = NUM_CACHE_PAGES"
    by (simp_all add: big_ix_def big_start_fields opened_def)
qed

section \<open>Insertion\<close>

text \<open>C3: inserting an entry into an index succeeds, keeps it well formed (sorted, balanced, every node filled, every
  key of an inner node the largest of its child, the leaves chained) and puts the entry behind all
  entries whose key is not above its own; the pages of other files stay. The page cache has room for more pages
  than a node has children, and the file may still grow by the nodes of a path.\<close>

theorem insert_entry_puts:
  assumes "ix_wf s ih t" "key_ok (index_header ih) k" "rid_ok rid"
    and "nat (btree_order (index_header ih)) + 25 < length (pages s)" "ix_num_pages (index_header ih) + 21 \<le> 524288"
  shows "\<exists>h' u t'. insert_entry k rid (ih, s) = (Inr (), (ih\<lparr>index_header := h'\<rparr>, u)) \<and>
    ix_wf u (ih\<lparr>index_header := h'\<rparr>) t' \<and> ix_same_layout (index_header ih) h' \<and>
    bt_entries t' = takeWhile (\<lambda>e. 0 \<le> key_cmp (index_header ih) k (fst e)) (bt_entries t) @ (k, rid) #
      dropWhile (\<lambda>e. 0 \<le> key_cmp (index_header ih) k (fst e)) (bt_entries t) \<and>
    (\<forall>q b. pid_fd q \<noteq> ih_fd ih \<longrightarrow> page_view s q = Some b \<longrightarrow> page_view u q = Some b)"
proof -
  from insert_entry_run[OF assms] obtain h' u t' where
    r: "insert_entry k rid (ih, s) = (Inr (), (hnd (ih_fd ih) h', u))" "ix_wf u (hnd (ih_fd ih) h') t'"
      "bt_entries t' = index_put (index_header ih) k rid (bt_entries t)" "ix_same_layout (index_header ih) h'" "others (ih_fd ih) s \<subseteq>\<^sub>m page_view u" by (auto simp: pool.reach_def)
  have e: "hnd (ih_fd ih) h' = ih\<lparr>index_header := h'\<rparr>" by (cases ih) simp
  have "page_view u q = Some b" if "pid_fd q \<noteq> ih_fd ih" "page_view s q = Some b" for q b
    using r(5) that by (fastforce simp: map_le_def others_def restrict_map_def dom_def)
  then show ?thesis using r(1-4) unfolding e index_put_def by blast
qed

theorem insert_entry_puts_witness:
  "\<exists>h u t. insert_entry (int_bytes 7) (RecordID 1 0) big_ix = (Inr (), (fst big_ix\<lparr>index_header := h\<rparr>, u)) \<and>
     ix_wf u (fst big_ix\<lparr>index_header := h\<rparr>) t \<and> bt_entries t = [(int_bytes 7, RecordID 1 0)]"
proof -
  have k: "key_ok (index_header (fst big_ix)) (int_bytes 7)" using ex_node_facts(4) by (simp add: big_ix_facts(2))
  have r: "rid_ok (RecordID 1 0)" by (simp add: rid_ok_def int_ok_def INT_MAX_def INT_MIN_def)
  have p: "nat (btree_order (index_header (fst big_ix))) + 25 < length (pages (snd big_ix))"
    by (simp add: big_ix_facts(2,3) int_layout(4) NUM_CACHE_PAGES_def)
  have n: "ix_num_pages (index_header (fst big_ix)) + 21 \<le> 524288"
    by (simp add: big_ix_facts(2) int_header_def new_index_header_def NDX_INIT_NUM_PAGES_def)
  from insert_entry_puts[OF big_ix_facts(1) k r p n] show ?thesis by auto
qed

end
