(* ===== verification/Spec2Isabelle.thy ===== *)
theory Spec2Isabelle
  imports PageTheorems RecordTheorems ValueTheorems IndexTheorems StatementTheorems ServerTheorems SelectTheorems SessionTheorems InsertTheorems
begin

text \<open>
  RedbaseDB, a small relational database server in C++, as definitions in HOL with the theorems that
  make it correct. File names are relative to \<open>src/src/database_engine/\<close> unless they start with
  \<open>src/\<close>.

  \<^bold>\<open>The program.\<close> Clients (\<open>src/src/db_client.cpp\<close>) send lines of SQL to a server
  (\<open>src/src/db_server.cpp\<close>), which has one thread per client. A line is parsed into a syntax tree
  (\<open>parser/\<close>), the interpreter (\<open>interpreter.h\<close>) turns the tree into an operation of the system
  manager (\<open>system_management/\<close>: databases, tables, indexes, the catalog) or of the query manager
  (\<open>query_language/\<close>: the four statements on rows). Both work on record files (\<open>record_manager/\<close>)
  and on B+ trees (\<open>index_handler/\<close>), which in turn keep everything in pages of 4096 bytes that they
  fetch from a buffer pool over the files of the operating system (\<open>page_file_handler/\<close>).

  \<^bold>\<open>The style of the model.\<close> A C++ function with effects is a \<^emph>\<open>program\<close>, of the type
  \<open>'s \<Rightarrow> (stop + 'a) \<times> 's\<close> of \<open>Prelude\<close>: it returns a value or stops, and keeps the state it had
  reached, as a C++ exception does. The reasons to stop are the exception classes of \<open>error.h\<close>, a
  failed \<open>assert\<close>, a wait on a semaphore that is never posted, a loop out of fuel, undefined
  behaviour, and \<open>std::out_of_range\<close>. The state is a record that every layer extends: the operating
  system, the buffer pool, the system manager, the parser, the connection of a client. A page is a
  list of 4096 bytes, and every structure the code lays over a page (headers, bitmaps, slots, keys,
  record ids) is read and written at its byte offsets. Machine integers that are stored or can
  overflow are words or are wrapped explicitly.

  \<^bold>\<open>Which theory models what.\<close>
  \<^item> \<open>Prelude\<close>, \<open>TextIO\<close>, \<open>Bytes\<close>, \<open>ByteArray\<close>: programs, text streams, memory regions and what the
    code does to them (\<open>memcpy\<close>, \<open>memmove\<close>, arrays of elements in a region).
  \<^item> \<open>DbDefs\<close>: \<open>error.h\<close> and \<open>db_defs.h\<close>. \<open>DateTime\<close>: \<open>datetime.h\<close>.
  \<^item> \<open>OsFile\<close>, \<open>Pager\<close>, \<open>PfManager\<close>: the POSIX calls, \<open>PF_Pager\<close> and \<open>PF_Manager\<close> of
    \<open>page_file_handler/\<close>. \<open>PagerInv\<close>, \<open>PagerOps\<close> and \<open>PageCache\<close> hold the invariant of the pool, the
    effect of its operations on the pages a client sees, and its interface as the locale \<open>page_cache\<close>.
  \<^item> \<open>Bitmap\<close>, \<open>RecordFile\<close>: \<open>record_manager/\<close> (\<open>Bitmap\<close>, \<open>RM_FileHandle\<close>, \<open>RM_Iterator\<close>, \<open>RM_Manager\<close>).
    \<open>RecordPage\<close>, \<open>RecordView\<close>, \<open>RecordOps\<close>, \<open>RecordScan\<close>, \<open>RecordManager\<close> prove that a record file is
    a map from record ids to bytes; \<open>RecordStore\<close> states that as the locale \<open>record_store\<close>.
  \<^item> \<open>KeyCompare\<close>, \<open>IndexNode\<close>, \<open>IndexTree\<close>, \<open>IndexUpdate\<close>: \<open>index_handler/\<close> (\<open>compare_keys\<close>,
    \<open>IndexNodeHandle\<close>, \<open>IndexHandle\<close>, \<open>IndexIterator\<close>, \<open>IndexManager\<close>). \<open>IndexNodeProps\<close> reads a node as
    lists, \<open>BTree\<close> is the specification, \<open>IndexSearch\<close>, \<open>IndexScan\<close>, \<open>IndexFile\<close> relate the two.
    Insertion: \<open>PageGrip\<close> (for how many fetches a page in hand stays in its slot), \<open>IndexPages\<close> (a page read as one
    record, the steps of the code as edits of it), \<open>IndexRun\<close> (triples over configurations: which pages the
    tree has, which are in hand, for how long), \<open>BTreePath\<close> (a tree seen from one of its nodes), \<open>IndexRep\<close> (trees
    over such pages), \<open>IndexSplit\<close>, \<open>IndexGrow\<close>, \<open>IndexRaise\<close>, \<open>IndexOverflow\<close> (the blocks of the overflow loop, a new
    root, one split, the loop), \<open>IndexRefresh\<close> (\<open>maintain_parent\<close>) and \<open>IndexInsert\<close>.
  \<^item> \<open>SmMeta\<close>, \<open>SmManager\<close>, \<open>SmTables\<close>: \<open>system_management/\<close>. \<open>SmFiles\<close>, \<open>SmLife\<close>, \<open>SmReopen\<close>, \<open>SmRows\<close>
    prove the life of a database: creation of tables, closing and opening.
  \<^item> \<open>QlValues\<close>, \<open>QlNode\<close>, \<open>QlManager\<close>: \<open>query_language/\<close>. \<open>OpenDb\<close>, \<open>QlScan\<close>, \<open>QlTable\<close>, \<open>QlChange\<close>,
    \<open>QlRows\<close>, \<open>QlStatements\<close> prove the statements on one table; \<open>QlPlan\<close>, \<open>QlJoin\<close>, \<open>QlSelect\<close>,
    \<open>QlAnswer\<close> prove \<open>SELECT\<close> on any number of tables.
  \<^item> \<open>SqlAst\<close>, \<open>Interp\<close>: \<open>parser/ast.h\<close>, \<open>parser/ast_printer.h\<close>, \<open>parser/parser_defs.h\<close>,
    \<open>interpreter_defs.h\<close>, \<open>interpreter.h\<close>. \<open>Server\<close>: the messages of the protocol and the thread of a
    client; \<open>ServerMain\<close>: the start of the server and its accept loop; \<open>ClientMain\<close>: the client.
    \<open>Semaphores\<close>: \<open>concurrency.cpp\<close>. \<open>Demo\<close>: \<open>src/examples/interpreter_example.cpp\<close>.
  \<^item> \<open>Examples\<close>, \<open>DbExamples\<close>: concrete states (a pool of four pages, a record file, an index, a
    database with tables) on which the properties are instantiated.
  \<^item> \<open>PageTheorems\<close>, \<open>RecordTheorems\<close>, \<open>ValueTheorems\<close>, \<open>IndexTheorems\<close>, \<open>StatementTheorems\<close>,
    \<open>ServerTheorems\<close>, \<open>SelectTheorems\<close>, \<open>SessionTheorems\<close>, \<open>InsertTheorems\<close>: the properties, each with a witness where it
    has hypotheses.

  \<^bold>\<open>What the lemmas show, layer by layer.\<close>
  \<^item> The pool keeps its invariant \<open>pf_wf\<close> (the busy and the free list partition the slots, the map and
    the list agree, what is cached belongs to an open file), and what a client sees, \<open>page_view\<close>, is the
    cached bytes or else the bytes on disk: fetching, evicting and flushing never change it.
  \<^item> A record file is a partial map from record ids to byte strings. Insertion uses a free slot, from
    the list of pages with room or from a fresh page; removal, update and lookup are those of the map; an
    iterator visits every record once and ends.
  \<^item> A node is lists of keys and record ids with the pages of its links. \<open>bt_rep\<close> says that the pages
    of a file hold a tree in which inner nodes repeat the last key of each child, \<open>leaf_chain\<close> that the leaves are
    linked in order, \<open>ix_wf\<close> both. Searches find the position that the list of all entries has.
    \<open>insert_entry\<close> keeps \<open>ix_wf\<close> and puts its entry behind its equals in that list. The code holds pointers into the
    pool while it fetches other pages: a node that is split is used while each of its children is fetched, so the
    theorem asks for a pool of more pages than the order of the tree and 25 more. It also asks for 21 page numbers below 524288,
    where the product of page number and page size leaves \<open>int\<close>; a tree with so few pages has at most 19 inner
    levels, so that is one new page per level and a new root.
  \<^item> The system manager keeps \<open>db_open\<close>: every table of the catalog has its open record file, of the width
    its columns ask for, and an index file for each index. What is closed can be opened again.
  \<^item> The statements: on a table without indexes, an \<open>INSERT\<close> adds the row it names, a \<open>DELETE\<close> removes the
    rows that satisfy its conditions and no other, an \<open>UPDATE\<close> rewrites those. A \<open>SELECT\<close> returns the rows
    of the product of its tables, with indexes or without, that satisfy all conditions, projected. The statements
    that are refused are modelled; no lemma says which error each of them gets.
  \<^item> The server answers each request with one response, in order, and waits for the next; the client sends a
    request, waits for its response and displays it. \<open>exchange\<close> is the two on one connection that starts empty.

  \<^bold>\<open>Interfaces.\<close> \<open>page_cache\<close> states what a client may rely on of the pool (interpreted as \<open>pool\<close> on
  \<open>PF_Pager\<close>), \<open>key_order\<close> what the tree needs of \<open>compare_keys\<close> (interpreted for the types that are
  ordered), \<open>record_iterator\<close> what a scan needs of an iterator (interpreted on \<open>RM_Iterator\<close>,
  \<open>IndexIterator\<close> and the pointer to either), \<open>record_store\<close> what the statements need of a record file,
  \<open>stored_files\<close> what opening and closing needs of a file manager.

  \<^bold>\<open>Loops.\<close> A loop over a list or up to a bound is structural recursion. The others have fuel, and the
  theorems prove that the result is reached with it: the descent in a tree has as much as the file has
  pages (a path visits no page twice), an iterator \<open>scan_fuel\<close>, as much as the entries or slots the file has room for, a join \<open>select_fuel\<close>, the
  product of those, and \<open>climb_fuel\<close> allows for every page of the index and a new root. The loops of the server and of the
  client are bounded by the number of requests or lines that arrive; a program that needs bytes which have not arrived on an
  open connection stops as blocked, and the exchange of client and server repeats both with what has arrived.

  \<^bold>\<open>Modelled, not proved.\<close> \<open>delete_entry\<close> of the B+ tree is translated whole, with borrowing, merging and the shrinking
  of the root; that it keeps the tree well formed is not proved.

  \<^bold>\<open>Not modelled.\<close>
  \<^item> The scanner and parser that \<open>flex\<close> and \<open>bison\<close> generate: \<open>yyparse\<close> is a parameter, a function
    from the text to a syntax tree or nothing. \<open>SemValue\<close>, the value stack of that parser, is left out.
  \<^item> The log of the server (\<open>safe_log\<close>, the list \<open>active_clients\<close>), the interleaving of its threads and
    the locks that another process may hold on pages. Each thread is a sequence of requests; the
    semaphores are counters, and a wait that would block is a stop.
  \<^item> Time measurement: the elapsed time is a parameter. Test drivers.
  \<^item> \<open>assert\<close> is kept as a stop. The default build of \<open>CMake\<close> is \<open>Release\<close>, where asserts are compiled out;
    the theorems that a call returns show that none of them fails.
\<close>

end
